(* ===== verification/C_Prelude.thy ===== *)
theory C_Prelude
  imports Main "HOL-Library.Word" "HOL-Library.Monad_Syntax"
begin

text \<open>
  Shared vocabulary of the development.

  \<^item> Machine integers: \<open>u8\<close>, \<open>u16\<close>, \<open>u32\<close>, \<open>u64\<close> are words of that width.
  \<^item> A C function that may fail to deliver a result (an \<open>ensure\<close> that aborts, see
    \<^verbatim>\<open>src/src/main/utils/memory.h\<close>, an access outside an array, a division by zero,
    an undefined shift) returns an \<open>option\<close>: \<open>None\<close> means that the C program has
    no defined continuation there. Error codes that the C function returns are ordinary values.
  \<^item> \<open>rd\<close> and \<open>wr\<close> are checked array accesses; \<open>for_up\<close> and \<open>for_down\<close> are the two
    shapes of counting loop the code uses, with one total-correctness rule each.
\<close>

unbundle bit_operations_syntax

named_theorems access_simps \<open>successful array accesses and loop unfoldings\<close>

type_synonym u8 = "8 word"
type_synonym u16 = "16 word"
type_synonym u32 = "32 word"
type_synonym u64 = "64 word"

section \<open>Aborts and checked array accesses\<close>

definition ensure :: "bool \<Rightarrow> unit option" where
  "ensure b = (if b then Some () else None)"

definition rd :: "'a list \<Rightarrow> nat \<Rightarrow> 'a option" where
  "rd xs i = (if i < length xs then Some (xs ! i) else None)"

definition wr :: "'a list \<Rightarrow> nat \<Rightarrow> 'a \<Rightarrow> 'a list option" where
  "wr xs i v = (if i < length xs then Some (xs[i := v]) else None)"

lemma ensure_simps [simp]: "ensure True = Some ()" "ensure False = None"
  by (simp_all add: ensure_def)

lemma ensure_eq_Some [simp]: "ensure b = Some u \<longleftrightarrow> b"
  by (simp add: ensure_def)

lemma rd_in [access_simps]: "i < length xs \<Longrightarrow> rd xs i = Some (xs ! i)"
  by (simp add: rd_def)

lemma wr_in [access_simps]: "i < length xs \<Longrightarrow> wr xs i v = Some (xs[i := v])"
  by (simp add: wr_def)

lemma rd_middle: "n = length A \<Longrightarrow> rd (A @ x # B) n = Some x"
  by (simp add: rd_def)

lemma wr_middle: "n = length A \<Longrightarrow> wr (A @ x # B) n v = Some (A @ v # B)"
  by (simp add: wr_def)

lemma rd_eq_Some: "rd xs i = Some v \<longleftrightarrow> i < length xs \<and> xs ! i = v"
  by (auto simp: rd_def)

lemma wr_eq_Some: "wr xs i v = Some ys \<longleftrightarrow> i < length xs \<and> ys = xs[i := v]"
  by (auto simp: wr_def)

section \<open>Counting loops\<close>

text \<open>\<open>for (i = lo; i < hi; ++i)\<close>, the body updating a state or faulting.\<close>

function for_up :: "nat \<Rightarrow> nat \<Rightarrow> (nat \<Rightarrow> 's \<Rightarrow> 's option) \<Rightarrow> 's \<Rightarrow> 's option" where
  "for_up i n f s = (if i < n then do { s' \<leftarrow> f i s; for_up (Suc i) n f s' } else Some s)"
  by pat_completeness auto
termination
  by (relation "measure (\<lambda>(i, n, f, s). n - i)") auto

declare for_up.simps [simp del]

text \<open>\<open>for (i = n; i > 0; --i)\<close>.\<close>

fun for_down :: "nat \<Rightarrow> (nat \<Rightarrow> 's \<Rightarrow> 's option) \<Rightarrow> 's \<Rightarrow> 's option" where
  "for_down 0 f s = Some s"
| "for_down (Suc n) f s = do { s' \<leftarrow> f (Suc n) s; for_down n f s' }"

lemma for_up_done [access_simps]: "n \<le> i \<Longrightarrow> for_up i n f s = Some s"
  by (subst for_up.simps) simp

lemma for_up_step: "i < n \<Longrightarrow> for_up i n f s = do { s' \<leftarrow> f i s; for_up (Suc i) n f s' }"
  by (subst for_up.simps) simp

text \<open>Total correctness: an invariant that every iteration re-establishes without faulting.\<close>

lemma for_up_rule:
  assumes "lo \<le> hi" and "P lo s"
    and "\<And>i s. lo \<le> i \<Longrightarrow> i < hi \<Longrightarrow> P i s \<Longrightarrow> \<exists>s'. f i s = Some s' \<and> P (Suc i) s'"
  shows "\<exists>s'. for_up lo hi f s = Some s' \<and> P hi s'"
  using assms
proof (induction lo hi f s rule: for_up.induct)
  case (1 i n f s)
  show ?case
  proof (cases "i < n")
    case True
    then obtain s' where s': "f i s = Some s'" "P (Suc i) s'"
      using "1.prems" by blast
    then have "\<exists>t. for_up (Suc i) n f s' = Some t \<and> P n t"
      using "1.IH" [OF True, of s'] "1.prems" True by simp
    then show ?thesis using True s' by (simp add: for_up_step)
  next
    case False
    then show ?thesis using "1.prems" by (simp add: for_up_done)
  qed
qed

text \<open>What every iteration that does not fault keeps.\<close>

lemma for_up_inv:
  assumes "for_up lo hi f s = Some t" and "\<And>i s s'. P i s \<Longrightarrow> f i s = Some s' \<Longrightarrow> P (Suc i) s'" and "P lo s" "lo \<le> hi"
  shows "P hi t"
  using assms
proof (induction lo hi f s rule: for_up.induct)
  case (1 i n f s)
  show ?case
  proof (cases "i < n")
    case True
    then obtain s' where s': "f i s = Some s'" "for_up (Suc i) n f s' = Some t" using "1.prems"(1) by (auto simp: for_up_step split: Option.bind_split_asm)
    then have "P (Suc i) s'" using "1.prems"(2,3) s'(1) by blast
    then show ?thesis using "1.IH" [OF True, of s'] s' True "1.prems"(2) by simp
  next
    case False
    then show ?thesis using "1.prems" by (simp add: for_up_done)
  qed
qed

lemma for_down_rule:
  assumes "P n s"
    and "\<And>i s. i < n \<Longrightarrow> P (Suc i) s \<Longrightarrow> \<exists>s'. f (Suc i) s = Some s' \<and> P i s'"
  shows "\<exists>s'. for_down n f s = Some s' \<and> P 0 s'"
  using assms
proof (induction n arbitrary: s)
  case 0
  then show ?case by simp
next
  case (Suc n)
  then obtain s' where s': "f (Suc n) s = Some s'" "P n s'" by blast
  then have "\<exists>t. for_down n f s' = Some t \<and> P 0 t"
    using Suc by (metis less_SucI)
  then show ?case using s' by simp
qed

lemma for_up_cong:
  assumes "\<And>i s. lo \<le> i \<Longrightarrow> i < hi \<Longrightarrow> f i s = g i s"
  shows "for_up lo hi f s = for_up lo hi g s"
  using assms
proof (induction "hi - lo" arbitrary: lo s)
  case 0
  then show ?case by (simp add: for_up_done)
next
  case (Suc d)
  then have "lo < hi" by simp
  moreover have "for_up (Suc lo) hi f s' = for_up (Suc lo) hi g s'" for s'
    using Suc.hyps(1) [of "Suc lo" s'] Suc.hyps(2) Suc.prems by simp
  ultimately show ?case using Suc.prems by (simp add: for_up_step)
qed

lemma for_up_append:
  assumes "lo \<le> mid" "mid \<le> hi"
  shows "do { s' \<leftarrow> for_up lo mid f s; for_up mid hi f s' } = for_up lo hi f s"
  using assms
proof (induction "mid - lo" arbitrary: lo s)
  case 0
  then show ?case by (simp add: for_up_done)
next
  case (Suc d)
  then have "lo < mid" "lo < hi" by simp_all
  moreover have "do { s'' \<leftarrow> for_up (Suc lo) mid f s'; for_up mid hi f s'' } = for_up (Suc lo) hi f s'" for s'
    using Suc.hyps(1) [of "Suc lo" s'] Suc.hyps(2) Suc.prems by simp
  ultimately show ?case by (simp add: for_up_step Option.bind_assoc)
qed

lemma for_up_shift: "for_up lo n (\<lambda>i. f (i + k)) s = for_up (lo + k) (n + k) f s"
proof (induction "n - lo" arbitrary: lo s)
  case 0
  then show ?case by (simp add: for_up_done)
next
  case (Suc d)
  then have "lo < n" by simp
  moreover have "for_up (Suc lo) n (\<lambda>i. f (i + k)) s' = for_up (Suc lo + k) (n + k) f s'" for s'
    using Suc.hyps(1) [of "Suc lo" s'] Suc.hyps(2) by simp
  ultimately show ?case by (simp add: for_up_step)
qed

section \<open>Signed integers, allocation and clearing\<close>

text \<open>
  A C \<open>int\<close> is a HOL \<open>int\<close>; where a result can leave the 32-bit range, \<open>cint\<close> makes the
  overflow explicit (it is undefined in C). \<open>new_array\<close> is \<open>malloc\<close>: the contents of fresh memory
  are the argument \<open>mem\<close>, on which nothing may depend; allocation is taken to succeed, as the
  code never tests the result.
\<close>

definition cint :: "int \<Rightarrow> int option" where
  "cint x = (if - (2 ^ 31) \<le> x \<and> x < 2 ^ 31 then Some x else None)"

lemma cint_in [access_simps]: "- (2 ^ 31) \<le> x \<Longrightarrow> x < 2 ^ 31 \<Longrightarrow> cint x = Some x"
  by (simp add: cint_def)

definition new_array :: "(nat \<Rightarrow> 'a) \<Rightarrow> int \<Rightarrow> 'a list option" where
  "new_array mem n = (if n < 0 then None else Some (map mem [0..<nat n]))"

definition zero_array :: "'a::zero list \<Rightarrow> int \<Rightarrow> 'a list option" where
  "zero_array xs n =
     (if n < 0 \<or> int (length xs) < n then None else Some (replicate (nat n) 0 @ drop (nat n) xs))"

lemma zero_array_all [access_simps]: "n = int (length xs) \<Longrightarrow> zero_array xs n = Some (replicate (nat n) 0)"
  by (simp add: zero_array_def)

lemma new_array_in [access_simps]: "0 \<le> n \<Longrightarrow> new_array mem n = Some (map mem [0..<nat n])"
  by (simp add: new_array_def)

section \<open>Updates of a window of an array\<close>

text \<open>
  \<open>agree_off xs ys lo n\<close>: the arrays have one length and differ at most in the window
  of \<open>n\<close> elements from \<open>lo\<close>. It is how a callee that received a pointer into an array frames
  its effect.
\<close>

definition agree_off :: "'a list \<Rightarrow> 'a list \<Rightarrow> nat \<Rightarrow> nat \<Rightarrow> bool" where
  "agree_off xs ys lo n \<longleftrightarrow>
     length ys = length xs \<and> (\<forall>i. i < lo \<or> lo + n \<le> i \<longrightarrow> i < length xs \<longrightarrow> ys ! i = xs ! i)"

lemma agree_off_refl [simp]: "agree_off xs xs lo n"
  by (simp add: agree_off_def)

lemma agree_off_length: "agree_off xs ys lo n \<Longrightarrow> length ys = length xs"
  by (simp add: agree_off_def)

lemma agree_off_nth:
  "agree_off xs ys lo n \<Longrightarrow> i < lo \<or> lo + n \<le> i \<Longrightarrow> i < length xs \<Longrightarrow> ys ! i = xs ! i"
  by (auto simp: agree_off_def)

lemma agree_off_update:
  "agree_off xs ys lo n \<Longrightarrow> lo \<le> i \<Longrightarrow> i < lo + n \<Longrightarrow> agree_off xs (ys[i := v]) lo n"
  by (auto simp: agree_off_def nth_list_update)

lemma ball_set_update:
  "\<forall>x \<in> set xs. P x \<Longrightarrow> P v \<Longrightarrow> \<forall>x \<in> set (xs[i := v]). P x"
  using set_update_subset_insert by fastforce

text \<open>Rows of a flattened matrix of row length \<open>w\<close> do not overlap.\<close>

lemma row_bound: "r < n \<Longrightarrow> j < w \<Longrightarrow> r * w + j < n * (w::nat)"
proof -
  assume "r < n" "j < w"
  then have "r * w + j < Suc r * w" by simp
  also have "\<dots> \<le> n * w" using \<open>r < n\<close> by (intro mult_le_mono1) simp
  finally show ?thesis .
qed

lemma rows_disjoint:
  assumes "r \<noteq> r'" and "j < (w::nat)"
  shows "r' * w + j < r * w \<or> r * w + w \<le> r' * w + j"
proof (cases "r' < r")
  case True
  then show ?thesis using row_bound [of r' r j w] assms by simp
next
  case False
  then have "Suc r * w \<le> r' * w" using assms by (intro mult_le_mono1) simp
  then show ?thesis by simp
qed

end
