(* ===== verification/Galois.thy ===== *)
theory Galois
  imports C_Prelude
begin

text \<open>
  The binary Galois fields of \<^verbatim>\<open>src/src/main/rs/galois.h\<close> and \<^verbatim>\<open>galois.c\<close>: a
  field of order \<open>2 ^ degree\<close> is a pair of tables, the powers of the generator (\<open>exps\<close>) and the
  discrete logarithms (\<open>logs\<close>), and multiplication adds logarithms.

  The locale \<open>galois_params\<close> states what a degree and a generator polynomial must satisfy for
  the tables to describe a field: the generator has period exactly \<open>order - 1\<close>. It is interpreted
  for the two parameter pairs the code uses, GF(16) and GF(256).
\<close>

section \<open>The code\<close>

record galois_t =
  g_degree :: nat
  g_order :: u32
  g_gen_poly :: u32
  exps :: "u32 list"
  logs :: "u32 list"

text \<open>One iteration of the table loop: multiply by \<open>X\<close> and reduce by the generator polynomial.\<close>

definition galois_step :: "nat \<Rightarrow> u32 \<Rightarrow> u32 \<Rightarrow> u32" where
  "galois_step deg gen_poly e =
     (let h = drop_bit (deg - 1) e; s = push_bit 1 e
      in s XOR (gen_poly AND (0 - h)))"

definition galois_init :: "nat \<Rightarrow> u32 \<Rightarrow> u32 list \<Rightarrow> u32 list \<Rightarrow> galois_t option" where
  "galois_init deg gen_poly exps0 logs0 = do {
     ensure (deg < 32); \<comment> \<open>a wider shift is undefined\<close>
     let order = push_bit deg (1 :: u32);
     exps1 \<leftarrow> wr exps0 0 1;
     e0 \<leftarrow> rd exps1 0;
     exps2 \<leftarrow> wr exps1 (unat (order - 1)) e0;
     logs1 \<leftarrow> wr logs0 0 0;
     logs2 \<leftarrow> wr logs1 1 0;
     tables \<leftarrow> for_up 1 (unat (order - 1))
       (\<lambda>i (es, ls). do {
          e \<leftarrow> rd es (i - 1);
          let e' = galois_step deg gen_poly e;
          es' \<leftarrow> wr es i e';
          ls' \<leftarrow> wr ls (unat e') (of_nat i);
          Some (es', ls')
        }) (exps2, logs2);
     Some \<lparr>g_degree = deg, g_order = order, g_gen_poly = gen_poly,
           exps = fst tables, logs = snd tables\<rparr>
   }"

definition galois16_init :: "u32 list \<Rightarrow> u32 list \<Rightarrow> galois_t option" where
  "galois16_init = galois_init 4 0b10011"

definition galois256_init :: "u32 list \<Rightarrow> u32 list \<Rightarrow> galois_t option" where
  "galois256_init = galois_init 8 0b100011101"

definition galois_order :: "galois_t \<Rightarrow> u32" where
  "galois_order g = g_order g"

definition galois_element :: "galois_t \<Rightarrow> u32 \<Rightarrow> u32 option" where
  "galois_element g i = do {
     ensure (g_order g - 1 \<noteq> 0);
     rd (exps g) (unat (i mod (g_order g - 1)))
   }"

definition galois_index :: "galois_t \<Rightarrow> u32 \<Rightarrow> u32 option" where
  "galois_index g i = rd (logs g) (unat i)"

definition galois_add :: "u32 \<Rightarrow> u32 \<Rightarrow> u32" where
  "galois_add a b = a XOR b"

definition galois_mul :: "galois_t \<Rightarrow> u32 \<Rightarrow> u32 \<Rightarrow> u32 option" where
  "galois_mul g a b =
     (if a = 0 \<or> b = 0 then Some 0
      else do {
        la \<leftarrow> rd (logs g) (unat a);
        lb \<leftarrow> rd (logs g) (unat b);
        galois_element g (la + lb)
      })"

definition galois_div :: "galois_t \<Rightarrow> u32 \<Rightarrow> u32 \<Rightarrow> u32 option" where
  "galois_div g a b =
     (if a = 0 \<or> b = 0 then do { ensure (b \<noteq> 0); Some (a div b) }
      else do {
        la \<leftarrow> rd (logs g) (unat a);
        lb \<leftarrow> rd (logs g) (unat b);
        galois_element g (g_order g - 1 + la - lb)
      })"

definition galois_inv :: "galois_t \<Rightarrow> u32 \<Rightarrow> u32 option" where
  "galois_inv g a = do {
     la \<leftarrow> rd (logs g) (unat a);
     galois_element g (g_order g - 1 - la)
   }"

definition galois_in :: "galois_t \<Rightarrow> u32 \<Rightarrow> bool" where
  "galois_in g a \<longleftrightarrow> a < g_order g"

definition galois_poly_zero :: "u32 list \<Rightarrow> nat \<Rightarrow> u32 list option" where
  "galois_poly_zero a deg = for_up 0 (Suc deg) (\<lambda>i a. wr a i 0) a"

definition galois_poly_copy :: "u32 list \<Rightarrow> u32 list \<Rightarrow> nat \<Rightarrow> u32 list option" where
  "galois_poly_copy src dst deg =
     for_up 0 (Suc deg) (\<lambda>i dst. do { x \<leftarrow> rd src i; wr dst i x }) dst"

definition galois_poly_shift_add_scale ::
    "galois_t \<Rightarrow> u32 list \<Rightarrow> nat \<Rightarrow> u32 \<Rightarrow> (u32 list \<times> nat) option" where
  "galois_poly_shift_add_scale g dst deg scale = do {
     let degree_res = deg + 1;
     dst \<leftarrow> wr dst degree_res 0;
     dst \<leftarrow> for_down degree_res
       (\<lambda>i dst. do {
          x \<leftarrow> rd dst (i - 1);
          y \<leftarrow> rd dst i;
          m \<leftarrow> galois_mul g y scale;
          wr dst i (galois_add x m)
        }) dst;
     y \<leftarrow> rd dst 0;
     m \<leftarrow> galois_mul g y scale;
     dst \<leftarrow> wr dst 0 m;
     Some (dst, degree_res)
   }"

definition galois_poly_mul ::
    "galois_t \<Rightarrow> u32 list \<Rightarrow> nat \<Rightarrow> u32 list \<Rightarrow> nat \<Rightarrow> u32 list \<Rightarrow> (u32 list \<times> nat) option" where
  "galois_poly_mul g a degree_a b degree_b result = do {
     let degree_res = degree_a + degree_b;
     result \<leftarrow> galois_poly_zero result degree_res;
     result \<leftarrow> for_up 0 (Suc degree_a)
       (\<lambda>i result. for_up 0 (Suc degree_b)
          (\<lambda>j result. do {
             let n = i + j;
             r \<leftarrow> rd result n;
             x \<leftarrow> rd a i;
             y \<leftarrow> rd b j;
             m \<leftarrow> galois_mul g x y;
             wr result n (galois_add r m)
           }) result) result;
     Some (result, degree_res)
   }"

section \<open>Elements and the multiplication by the generator\<close>

definition galois_elem :: "nat \<Rightarrow> u32 \<Rightarrow> bool" where
  "galois_elem deg a \<longleftrightarrow> unat a < 2 ^ deg"

lemma galois_elem_iff_bits: "galois_elem deg a \<longleftrightarrow> (\<forall>n \<ge> deg. \<not> bit a n)"
proof -
  have "galois_elem deg a \<longleftrightarrow> take_bit deg (unat a) = unat a"
    by (simp add: galois_elem_def take_bit_nat_eq_self_iff)
  also have "\<dots> \<longleftrightarrow> (\<forall>n. n < deg \<and> bit a n \<longleftrightarrow> bit a n)"
    by (simp add: bit_eq_iff bit_take_bit_iff bit_unsigned_iff)
  also have "\<dots> \<longleftrightarrow> (\<forall>n \<ge> deg. \<not> bit a n)"
    by (meson not_le)
  finally show ?thesis .
qed

lemma double_xor: "2 * (a XOR b) = (2 * a) XOR (2 * b)" for a b :: u32
  by (rule bit_eqI) (auto simp: bit_double_iff bit_xor_iff)

lemma galois_elem_0 [simp]: "galois_elem deg 0"
  by (simp add: galois_elem_def)

lemma galois_elem_xor:
  assumes "galois_elem deg a" "galois_elem deg b"
  shows "galois_elem deg (a XOR b)"
  using assms by (simp add: galois_elem_iff_bits bit_xor_iff)

definition galois_pow :: "nat \<Rightarrow> u32 \<Rightarrow> nat \<Rightarrow> u32" where
  "galois_pow deg gen_poly i = (galois_step deg gen_poly ^^ i) 1"

lemma galois_pow_0 [simp]: "galois_pow deg gen_poly 0 = 1"
  by (simp add: galois_pow_def)

lemma galois_pow_Suc: "galois_pow deg gen_poly (Suc i) = galois_step deg gen_poly (galois_pow deg gen_poly i)"
  by (simp add: galois_pow_def)

lemma galois_pow_add:
  "galois_pow deg gen_poly (i + j) = (galois_step deg gen_poly ^^ i) (galois_pow deg gen_poly j)"
  by (simp add: galois_pow_def funpow_add)

section \<open>A reference multiplication and the meaning of the tables\<close>

text \<open>Schoolbook multiplication of polynomials over GF(2), reduced by the generator polynomial.\<close>

definition xor_list :: "u32 list \<Rightarrow> u32" where
  "xor_list xs = foldr (XOR) xs 0"

definition galois_mul_ref :: "nat \<Rightarrow> u32 \<Rightarrow> u32 \<Rightarrow> u32 \<Rightarrow> u32" where
  "galois_mul_ref deg gen_poly a b =
     xor_list (map (\<lambda>i. if bit b i then (galois_step deg gen_poly ^^ i) a else 0) [0..<deg])"

text \<open>What \<open>galois_init\<close> promises of the structure it fills in.\<close>

definition galois_tables :: "nat \<Rightarrow> u32 \<Rightarrow> galois_t \<Rightarrow> bool" where
  "galois_tables deg gen_poly g \<longleftrightarrow>
     g_degree g = deg \<and> unat (g_order g) = 2 ^ deg \<and> g_gen_poly g = gen_poly \<and>
     2 ^ deg \<le> length (exps g) \<and> 2 ^ deg \<le> length (logs g) \<and>
     (\<forall>i < 2 ^ deg. exps g ! i = galois_pow deg gen_poly i) \<and>
     (\<forall>i < 2 ^ deg - 1. logs g ! unat (galois_pow deg gen_poly i) = of_nat i)"

lemma xor_list_Nil [simp]: "xor_list [] = 0"
  by (simp add: xor_list_def)

lemma xor_list_Cons [simp]: "xor_list (x # xs) = x XOR xor_list xs"
  by (simp add: xor_list_def)

lemma xor_list_append [simp]: "xor_list (xs @ ys) = xor_list xs XOR xor_list ys"
  by (induction xs) (simp_all add: xor.assoc)

lemma bit_xor_list_powers:
  "bit (xor_list (map (\<lambda>i. if bit b i then 2 ^ i else 0) [0..<d])) n \<longleftrightarrow> n < d \<and> bit b n"
  for b :: u32
  by (induction d)
    (auto simp: bit_xor_iff bit_exp_iff less_Suc_eq dest: bit_imp_le_length)

section \<open>Parameters that generate a field\<close>

text \<open>
  A degree and a generator polynomial of that degree whose root \<open>X\<close> has multiplicative order
  exactly \<open>2 ^ degree - 1\<close>.
\<close>

locale galois_params =
  fixes deg :: nat and gen_poly :: u32
  assumes deg_pos: "0 < deg" and deg_small: "deg < 16"
    and poly_small: "galois_elem (Suc deg) gen_poly" and poly_top: "bit gen_poly deg"
    and period: "galois_pow deg gen_poly (2 ^ deg - 1) = 1"
    and primitive: "\<And>d. 0 < d \<Longrightarrow> d < 2 ^ deg - 1 \<Longrightarrow> galois_pow deg gen_poly d \<noteq> 1"
begin

lemma top_bit_word:
  assumes "galois_elem deg a"
  shows "drop_bit (deg - Suc 0) a = of_bool (bit a (deg - Suc 0))"
proof (rule bit_eqI)
  fix n
  show "bit (drop_bit (deg - Suc 0) a) n \<longleftrightarrow> bit (of_bool (bit a (deg - Suc 0)) :: u32) n"
    using assms deg_pos
    by (cases n) (auto simp: galois_elem_iff_bits bit_drop_bit_eq bit_1_iff)
qed

lemma step_alt:
  assumes "galois_elem deg a"
  shows "galois_step deg gen_poly a = (2 * a) XOR (if bit a (deg - Suc 0) then gen_poly else 0)"
  by (simp add: galois_step_def Let_def top_bit_word [OF assms] mult.commute)

lemma step_elem:
  assumes "galois_elem deg a"
  shows "galois_elem deg (galois_step deg gen_poly a)"
  unfolding galois_elem_iff_bits
proof (intro allI impI)
  fix n assume "deg \<le> n"
  show "\<not> bit (galois_step deg gen_poly a) n"
  proof (cases "n = deg")
    case True
    then show ?thesis
      using deg_pos poly_top deg_small
      by (auto simp: step_alt [OF assms] bit_xor_iff bit_double_iff)
  next
    case False
    then have "Suc deg \<le> n" "deg \<le> n - 1" using \<open>deg \<le> n\<close> by auto
    then have "\<not> bit gen_poly n" "\<not> bit a (n - 1)"
      using assms poly_small by (auto simp: galois_elem_iff_bits)
    then show ?thesis
      by (simp add: step_alt [OF assms] bit_xor_iff bit_double_iff)
  qed
qed

lemma step_xor:
  assumes "galois_elem deg a" "galois_elem deg b"
  shows "galois_step deg gen_poly (a XOR b) = galois_step deg gen_poly a XOR galois_step deg gen_poly b"
  using assms
  by (simp add: step_alt galois_elem_xor double_xor bit_xor_iff xor.assoc xor.commute xor.left_commute)

lemma steps_elem: "galois_elem deg a \<Longrightarrow> galois_elem deg ((galois_step deg gen_poly ^^ i) a)"
  by (induction i) (auto intro: step_elem)

lemma steps_xor:
  assumes "galois_elem deg a" "galois_elem deg b"
  shows "(galois_step deg gen_poly ^^ i) (a XOR b) =
    (galois_step deg gen_poly ^^ i) a XOR (galois_step deg gen_poly ^^ i) b"
  by (induction i) (simp_all add: assms step_xor steps_elem)

lemma step_0 [simp]: "galois_step deg gen_poly 0 = 0"
  by (simp add: galois_step_def)

lemma steps_0 [simp]: "(galois_step deg gen_poly ^^ i) 0 = 0"
  by (induction i) simp_all

lemma one_less_order: "Suc 0 < 2 ^ deg"
  using deg_pos by (metis One_nat_def one_less_numeral_iff one_less_power semiring_norm(76))

lemma one_elem: "galois_elem deg 1"
  using one_less_order by (simp add: galois_elem_def)

lemma pow_elem: "galois_elem deg (galois_pow deg gen_poly i)"
  unfolding galois_pow_def by (rule steps_elem [OF one_elem])

lemma pow_period: "galois_pow deg gen_poly (i + (2 ^ deg - 1)) = galois_pow deg gen_poly i"
  unfolding galois_pow_add period by (simp add: galois_pow_def)

lemma pow_periods: "galois_pow deg gen_poly (i + k * (2 ^ deg - 1)) = galois_pow deg gen_poly i"
proof (induction k)
  case (Suc k)
  then show ?case
    using pow_period [of "i + k * (2 ^ deg - 1)"] by (simp add: ac_simps)
qed simp

lemma pow_mod: "galois_pow deg gen_poly (i mod (2 ^ deg - 1)) = galois_pow deg gen_poly i"
  using pow_periods [of "i mod (2 ^ deg - 1)" "i div (2 ^ deg - 1)"]
  by (simp add: mod_div_mult_eq)

lemma pow_nonzero: "galois_pow deg gen_poly i \<noteq> 0"
proof
  assume "galois_pow deg gen_poly i = 0"
  moreover have "i \<le> i * (2 ^ deg - 1)"
    using one_less_order by (cases "(2::nat) ^ deg - 1") auto
  ultimately have "galois_pow deg gen_poly (i * (2 ^ deg - 1)) = 0"
    using galois_pow_add [of deg gen_poly "i * (2 ^ deg - 1) - i" i] by simp
  then show False using pow_periods [of 0 i] by simp
qed

lemma pow_inj:
  assumes "i < 2 ^ deg - 1" "j < 2 ^ deg - 1" "galois_pow deg gen_poly i = galois_pow deg gen_poly j"
  shows "i = j"
proof -
  have "\<not> a < b" if "a < 2 ^ deg - 1" "b < 2 ^ deg - 1"
    "galois_pow deg gen_poly a = galois_pow deg gen_poly b" for a b
  proof
    assume "a < b"
    let ?c = "2 ^ deg - 1 - a"
    have "galois_pow deg gen_poly (?c + a) = galois_pow deg gen_poly (?c + b)"
      by (simp only: galois_pow_add that(3))
    moreover have "?c + a = 2 ^ deg - 1" "?c + b = (b - a) + (2 ^ deg - 1)"
      using that \<open>a < b\<close> by simp_all
    ultimately have "galois_pow deg gen_poly (b - a) = 1"
      by (simp only: pow_period period)
    then show False using primitive [of "b - a"] \<open>a < b\<close> that by simp
  qed
  then show ?thesis using assms by (metis nat_neq_iff)
qed

lemma elem_card: "card {a. galois_elem deg a} = 2 ^ deg"
proof -
  have "(2::nat) ^ deg \<le> 2 ^ 32" using deg_small by (intro power_increasing) auto
  then have "bij_betw unat {a :: u32. galois_elem deg a} {..<2 ^ deg}"
    by (intro bij_betw_byWitness [where f' = of_nat])
      (auto simp: galois_elem_def unat_of_nat take_bit_nat_eq_self)
  then show ?thesis using bij_betw_same_card by fastforce
qed

lemma pow_surj:
  assumes "galois_elem deg a" "a \<noteq> 0"
  shows "\<exists>i < 2 ^ deg - 1. galois_pow deg gen_poly i = a"
proof -
  let ?img = "galois_pow deg gen_poly ` {..<2 ^ deg - 1}"
  have "?img \<subseteq> {a. galois_elem deg a} - {0}"
    using pow_elem pow_nonzero by auto
  moreover have "card ?img = 2 ^ deg - 1"
    using pow_inj by (subst card_image) (auto intro!: inj_onI)
  moreover have "card ({a. galois_elem deg a} - {0}) = 2 ^ deg - 1"
    by (subst card_Diff_singleton) (auto simp: elem_card)
  moreover have "finite ({a :: u32. galois_elem deg a} - {0})"
    by (rule finite_subset [OF subset_UNIV]) simp
  ultimately have img: "?img = {a. galois_elem deg a} - {0}"
    by (intro card_subset_eq) simp_all
  have "a \<in> ?img" unfolding img using assms by simp
  then show ?thesis by auto
qed

lemma pow_small: "i < deg \<Longrightarrow> galois_pow deg gen_poly i = 2 ^ i"
proof (induction i)
  case (Suc i)
  then have "i \<noteq> deg - Suc 0" "galois_elem deg (2 ^ i)"
    using pow_elem [of i] by auto
  then show ?case
    using Suc by (simp add: galois_pow_Suc step_alt bit_exp_iff)
qed simp

lemma elem_expansion:
  assumes "galois_elem deg b"
  shows "xor_list (map (\<lambda>i. if bit b i then galois_pow deg gen_poly i else 0) [0..<deg]) = b"
proof -
  have "map (\<lambda>i. if bit b i then galois_pow deg gen_poly i else 0) [0..<deg]
      = map (\<lambda>i. if bit b i then 2 ^ i else 0) [0..<deg]"
    by (rule map_cong) (simp_all add: pow_small)
  moreover have "xor_list (map (\<lambda>i. if bit b i then 2 ^ i else 0) [0..<deg]) = b"
  proof (rule bit_eqI)
    fix n
    have "bit b n \<Longrightarrow> n < deg" using assms by (meson galois_elem_iff_bits not_le)
    then show "bit (xor_list (map (\<lambda>i. if bit b i then 2 ^ i else 0) [0..<deg])) n \<longleftrightarrow> bit b n"
      by (auto simp: bit_xor_list_powers)
  qed
  ultimately show ?thesis by (simp only:)
qed

lemma steps_xor_list:
  assumes "\<forall>x \<in> set xs. galois_elem deg x"
  shows "galois_elem deg (xor_list xs) \<and>
    (galois_step deg gen_poly ^^ k) (xor_list xs) = xor_list (map (galois_step deg gen_poly ^^ k) xs)"
  using assms by (induction xs) (auto simp: steps_xor intro: galois_elem_xor)

lemma mul_ref_pow:
  "galois_mul_ref deg gen_poly (galois_pow deg gen_poly k) (galois_pow deg gen_poly j)
     = galois_pow deg gen_poly (k + j)"
proof -
  define xs where
    "xs = map (\<lambda>i. if bit (galois_pow deg gen_poly j) i then galois_pow deg gen_poly i else 0) [0..<deg]"
  have swap: "(galois_step deg gen_poly ^^ i) (galois_pow deg gen_poly k)
      = (galois_step deg gen_poly ^^ k) (galois_pow deg gen_poly i)" for i
    by (metis add.commute galois_pow_add)
  have "galois_mul_ref deg gen_poly (galois_pow deg gen_poly k) (galois_pow deg gen_poly j)
      = xor_list (map (galois_step deg gen_poly ^^ k) xs)"
    unfolding galois_mul_ref_def xs_def map_map
    by (rule arg_cong [where f = xor_list], rule map_cong) (simp_all add: swap)
  also have "\<dots> = (galois_step deg gen_poly ^^ k) (xor_list xs)"
  proof -
    have "\<forall>x \<in> set xs. galois_elem deg x" using pow_elem by (auto simp: xs_def)
    then show ?thesis by (simp only: steps_xor_list)
  qed
  also have "\<dots> = galois_pow deg gen_poly (k + j)"
    unfolding xs_def by (simp only: elem_expansion [OF pow_elem] galois_pow_add)
  finally show ?thesis .
qed

lemma mul_ref_0 [simp]:
  "galois_mul_ref deg gen_poly 0 b = 0" "galois_mul_ref deg gen_poly a 0 = 0"
proof -
  have zeros: "\<forall>x \<in> set xs. x = 0 \<Longrightarrow> xor_list xs = 0" for xs by (induction xs) simp_all
  show "galois_mul_ref deg gen_poly 0 b = 0" "galois_mul_ref deg gen_poly a 0 = 0"
    unfolding galois_mul_ref_def by (rule zeros, auto)+
qed

lemma elem_cases:
  assumes "galois_elem deg a"
  obtains (zero) "a = 0" | (power) i where "i < 2 ^ deg - 1" "a = galois_pow deg gen_poly i"
  using assms pow_surj by metis

lemma mul_ref_elem:
  assumes "galois_elem deg a" "galois_elem deg b"
  shows "galois_elem deg (galois_mul_ref deg gen_poly a b)"
  using assms by (elim elem_cases) (simp_all add: mul_ref_pow pow_elem)

lemma mul_ref_commute:
  assumes "galois_elem deg a" "galois_elem deg b"
  shows "galois_mul_ref deg gen_poly a b = galois_mul_ref deg gen_poly b a"
  using assms by (elim elem_cases) (simp_all add: mul_ref_pow add.commute)

lemma mul_ref_assoc:
  assumes "galois_elem deg a" "galois_elem deg b" "galois_elem deg c"
  shows "galois_mul_ref deg gen_poly (galois_mul_ref deg gen_poly a b) c
    = galois_mul_ref deg gen_poly a (galois_mul_ref deg gen_poly b c)"
  using assms by (elim elem_cases) (simp_all add: mul_ref_pow add.assoc)

lemma mul_ref_1: "galois_elem deg a \<Longrightarrow> galois_mul_ref deg gen_poly 1 a = a"
  using mul_ref_pow [of 0] by (elim elem_cases) simp_all

lemma mul_ref_xor:
  assumes "galois_elem deg a" "galois_elem deg b"
  shows "galois_mul_ref deg gen_poly (a XOR b) c =
    galois_mul_ref deg gen_poly a c XOR galois_mul_ref deg gen_poly b c"
proof -
  have split: "xor_list (map (\<lambda>i. f i XOR g i) is) = xor_list (map f is) XOR xor_list (map g is)"
    for f g :: "nat \<Rightarrow> u32" and "is"
    by (induction "is") (simp_all add: xor.assoc xor.left_commute)
  show ?thesis
    unfolding galois_mul_ref_def split [symmetric]
    by (rule arg_cong [where f = xor_list], rule map_cong) (simp_all add: steps_xor assms)
qed

text \<open>The tables that \<open>galois_init\<close> fills in, for arrays of at least \<open>order\<close> elements.\<close>

lemma init_loop_step:
  assumes "1 \<le> i" "i < 2 ^ deg - 1"
    and inv: "2 ^ deg \<le> length es" "2 ^ deg \<le> length ls"
      "es ! (2 ^ deg - 1) = 1" "\<forall>j < i. es ! j = galois_pow deg gen_poly j"
      "\<forall>j < i. ls ! unat (galois_pow deg gen_poly j) = of_nat j"
  shows "\<exists>es' ls'. wr es i (galois_pow deg gen_poly i) = Some es' \<and>
    wr ls (unat (galois_pow deg gen_poly i)) (of_nat i) = Some ls' \<and>
    2 ^ deg \<le> length es' \<and> 2 ^ deg \<le> length ls' \<and> es' ! (2 ^ deg - 1) = 1 \<and>
    (\<forall>j < Suc i. es' ! j = galois_pow deg gen_poly j) \<and>
    (\<forall>j < Suc i. ls' ! unat (galois_pow deg gen_poly j) = of_nat j)"
proof -
  have el: "unat (galois_pow deg gen_poly j) < length ls" for j
    using pow_elem [of j] inv(2) by (simp add: galois_elem_def)
  have ne: "galois_pow deg gen_poly i \<noteq> galois_pow deg gen_poly j" if "j < i" for j
    using pow_inj [of i j] that assms(2) by auto
  show ?thesis
    using assms el ne
    by (auto simp: access_simps nth_list_update less_Suc_eq word_unat_eq_iff)
qed

lemma order_word: "unat (2 ^ deg :: u32) = 2 ^ deg" "unat (2 ^ deg - 1 :: u32) = 2 ^ deg - Suc 0"
proof -
  have "unat (push_bit deg (1 :: u32)) = 2 ^ deg"
    using unsigned_push_bit_eq [of deg "1 :: u32", where 'a = nat] deg_small
    by (simp add: take_bit_nat_eq_self del: push_bit_of_1)
  then show order: "unat (2 ^ deg :: u32) = 2 ^ deg" by simp
  have "(1 :: u32) \<le> 2 ^ deg"
    by (simp add: word_le_nat_alt order)
  then show "unat (2 ^ deg - 1 :: u32) = 2 ^ deg - Suc 0"
    by (simp add: unat_sub order)
qed

lemma init_tables:
  assumes "2 ^ deg \<le> length es" "2 ^ deg \<le> length ls"
  shows "\<exists>g. galois_init deg gen_poly es ls = Some g \<and> galois_tables deg gen_poly g"
proof -
  define body where "body = (\<lambda>i (es, ls :: u32 list). do {
          e \<leftarrow> rd es (i - 1);
          let e' = galois_step deg gen_poly e;
          es' \<leftarrow> wr es i e';
          ls' \<leftarrow> wr ls (unat e') (of_nat i);
          Some (es', ls')
        })"
  define inv where "inv = (\<lambda>i (es, ls). 2 ^ deg \<le> length es \<and> 2 ^ deg \<le> length ls \<and>
      es ! (2 ^ deg - 1) = 1 \<and> (\<forall>j < i. es ! j = galois_pow deg gen_poly j) \<and>
      (\<forall>j < i. ls ! unat (galois_pow deg gen_poly j) = (of_nat j :: u32)))"
  let ?es = "es[0 := 1, 2 ^ deg - 1 := 1]" and ?ls = "ls[0 := 0, 1 := 0]"
  have "\<exists>t. for_up 1 (2 ^ deg - 1) body (?es, ?ls) = Some t \<and> inv (2 ^ deg - 1) t"
  proof (rule for_up_rule)
    show "1 \<le> (2::nat) ^ deg - 1" using one_less_order by simp
    show "inv 1 (?es, ?ls)"
    proof -
      have "es \<noteq> []" using assms(1) by auto
      then show ?thesis using assms one_less_order by (auto simp: inv_def nth_list_update)
    qed
  next
    fix i s assume i: "1 \<le> i" "i < 2 ^ deg - 1" and "inv i s"
    then obtain es ls where s: "s = (es, ls)" "inv i (es, ls)" by (cases s) auto
    then have "rd es (i - 1) = Some (galois_pow deg gen_poly (i - 1))"
      using i by (auto simp: inv_def rd_def)
    moreover have "galois_step deg gen_poly (galois_pow deg gen_poly (i - 1)) = galois_pow deg gen_poly i"
      using i by (metis galois_pow_Suc Suc_diff_le diff_Suc_1 One_nat_def)
    ultimately show "\<exists>t. body i s = Some t \<and> inv (Suc i) t"
      using init_loop_step [OF i, of es ls] s by (auto simp: inv_def body_def)
  qed
  then obtain es' ls' where loop: "for_up 1 (2 ^ deg - 1) body (?es, ?ls) = Some (es', ls')"
    and post: "inv (2 ^ deg - 1) (es', ls')" by auto
  have "wr es 0 1 = Some (es[0 := 1])" "rd (es[0 := 1]) 0 = Some 1"
    "wr (es[0 := 1]) (2 ^ deg - 1) 1 = Some ?es"
    "wr ls 0 0 = Some (ls[0 := 0])" "wr (ls[0 := 0]) 1 0 = Some ?ls"
    using assms one_less_order by (auto simp: wr_def rd_def)
  then have "galois_init deg gen_poly es ls =
      Some \<lparr>g_degree = deg, g_order = push_bit deg 1, g_gen_poly = gen_poly, exps = es', logs = ls'\<rparr>"
    using deg_small loop unfolding body_def
    by (simp add: galois_init_def order_word Let_def)
  moreover have "es' ! i = galois_pow deg gen_poly i" if "i < 2 ^ deg" for i
    using post that period by (cases "i = 2 ^ deg - 1") (auto simp: inv_def)
  ultimately show ?thesis
    using post by (auto simp: galois_tables_def order_word inv_def)
qed

end

section \<open>Correctness of the table operations\<close>

context galois_params
begin

lemma tables_order: "galois_tables deg gen_poly g \<Longrightarrow> g_order g = 2 ^ deg"
  using order_word(1) by (simp add: galois_tables_def word_unat_eq_iff)

lemma element_pow:
  assumes "galois_tables deg gen_poly g"
  shows "galois_element g i = Some (galois_pow deg gen_poly (unat i))"
proof -
  note ord = tables_order [OF assms]
  have "unat i mod (2 ^ deg - 1) < 2 ^ deg - 1"
    using one_less_order by (intro mod_less_divisor) simp
  then have "unat i mod (2 ^ deg - 1) < 2 ^ deg" by simp
  moreover have "g_order g - 1 \<noteq> 0"
    using order_word(2) one_less_order by (auto simp: ord word_unat_eq_iff)
  ultimately show ?thesis
    using assms pow_mod [of "unat i"]
    by (auto simp: galois_element_def galois_tables_def ord rd_def unat_mod_distrib order_word)
qed

lemma log_pow:
  assumes "galois_tables deg gen_poly g" "i < 2 ^ deg - 1"
  shows "rd (logs g) (unat (galois_pow deg gen_poly i)) = Some (of_nat i)"
  using assms pow_elem [of i] by (simp add: galois_tables_def rd_def galois_elem_def)

lemma log_sum_small:
  assumes "i < 2 ^ deg" "j < 2 ^ deg"
  shows "unat (of_nat i + of_nat j :: u32) = i + j"
proof -
  have "(2::nat) ^ deg \<le> 2 ^ 16" using deg_small by (intro power_increasing) auto
  then have "unat (of_nat (i + j) :: u32) = i + j"
    using assms unfolding unat_of_nat by (simp add: take_bit_nat_eq_self)
  then show ?thesis by simp
qed

lemma mul_correct:
  assumes "galois_tables deg gen_poly g" "galois_elem deg a" "galois_elem deg b"
  shows "galois_mul g a b = Some (galois_mul_ref deg gen_poly a b)"
  using assms(2)
proof (cases rule: elem_cases)
  case zero
  then show ?thesis by (simp add: galois_mul_def)
next
  case a: (power i)
  show ?thesis using assms(3)
  proof (cases rule: elem_cases)
    case zero
    then show ?thesis by (simp add: galois_mul_def)
  next
    case (power j)
    then have "unat (of_nat i + of_nat j :: u32) = i + j"
      using a by (intro log_sum_small) auto
    then show ?thesis
      using a power
      by (simp add: galois_mul_def pow_nonzero log_pow [OF assms(1)] element_pow [OF assms(1)] mul_ref_pow)
  qed
qed

lemma div_correct:
  assumes g: "galois_tables deg gen_poly g" and "galois_elem deg a" "galois_elem deg b" "b \<noteq> 0"
  shows "\<exists>q. galois_div g a b = Some q \<and> galois_elem deg q \<and> galois_mul_ref deg gen_poly q b = a"
  using assms(2)
proof (cases rule: elem_cases)
  case zero
  then show ?thesis using assms(4) by (simp add: galois_div_def)
next
  case a: (power i)
  obtain j where b: "j < 2 ^ deg - 1" "b = galois_pow deg gen_poly j"
    using assms(3,4) pow_surj by blast
  have eq: "g_order g - 1 + of_nat i - of_nat j = (of_nat (2 ^ deg - 1 - j) + of_nat i :: u32)"
    using b by (simp add: tables_order [OF g] of_nat_diff)
  have "unat (g_order g - 1 + of_nat i - of_nat j) = 2 ^ deg - 1 - j + i"
    unfolding eq by (rule log_sum_small) (use a in auto)
  then have "galois_div g a b = Some (galois_pow deg gen_poly (2 ^ deg - 1 - j + i))"
    using a b by (simp add: galois_div_def pow_nonzero log_pow [OF g] element_pow [OF g])
  moreover have "(2 ^ deg - 1 - j + i) + j = i + (2 ^ deg - 1)" using b by simp
  ultimately show ?thesis
    using a b pow_period [of i] by (auto simp: mul_ref_pow pow_elem)
qed

lemma inv_correct:
  assumes g: "galois_tables deg gen_poly g" and "galois_elem deg a" "a \<noteq> 0"
  shows "\<exists>r. galois_inv g a = Some r \<and> galois_elem deg r \<and> galois_mul_ref deg gen_poly r a = 1"
proof -
  obtain i where a: "i < 2 ^ deg - 1" "a = galois_pow deg gen_poly i"
    using assms pow_surj by blast
  have "g_order g - 1 - of_nat i = (of_nat (2 ^ deg - 1 - i) + of_nat 0 :: u32)"
    using a by (simp add: tables_order [OF g] of_nat_diff)
  then have "unat (g_order g - 1 - of_nat i) = 2 ^ deg - 1 - i"
    using log_sum_small [of "2 ^ deg - 1 - i" 0] by simp
  then have "galois_inv g a = Some (galois_pow deg gen_poly (2 ^ deg - 1 - i))"
    using a by (simp add: galois_inv_def log_pow [OF g] element_pow [OF g])
  then show ?thesis
    using a period by (simp add: mul_ref_pow pow_elem)
qed

text \<open>The table operations form a field in which \<open>galois_mul\<close> is the reference product.\<close>

lemma in_iff_elem: "galois_tables deg gen_poly g \<Longrightarrow> galois_in g a \<longleftrightarrow> galois_elem deg a"
  by (simp add: galois_in_def galois_elem_def word_less_nat_alt galois_tables_def)

lemma field_ops:
  assumes g: "galois_tables deg gen_poly g" and ab: "galois_in g a" "galois_in g b"
  shows "galois_mul g a b = Some (galois_mul_ref deg gen_poly a b) \<and>
    galois_in g (galois_mul_ref deg gen_poly a b) \<and>
    (b \<noteq> 0 \<longrightarrow> (\<exists>q. galois_div g a b = Some q \<and> galois_in g q \<and> galois_mul g q b = Some a)) \<and>
    (b \<noteq> 0 \<longrightarrow> (\<exists>r. galois_inv g b = Some r \<and> galois_in g r \<and> galois_mul g r b = Some 1))"
proof -
  note e = in_iff_elem [OF g]
  have el: "galois_elem deg a" "galois_elem deg b" using ab e by auto
  then show ?thesis
    using mul_correct [OF g] div_correct [OF g el] inv_correct [OF g el(2)] mul_ref_elem [OF el]
    by (auto simp: e)
qed

lemma index_element:
  assumes g: "galois_tables deg gen_poly g"
  shows "\<exists>e. galois_element g i = Some e \<and> galois_in g e \<and> e \<noteq> 0 \<and>
    galois_index g e = Some (of_nat (unat i mod (2 ^ deg - 1)))"
proof -
  have "unat i mod (2 ^ deg - 1) < 2 ^ deg - 1"
    using one_less_order by (intro mod_less_divisor) simp
  then show ?thesis
    using element_pow [OF g, of i] pow_nonzero pow_elem
      log_pow [OF g, of "unat i mod (2 ^ deg - 1)", unfolded pow_mod]
    by (simp add: in_iff_elem [OF g] galois_index_def)
qed

end

section \<open>The two fields of the code\<close>

fun orbit :: "('a \<Rightarrow> 'a) \<Rightarrow> 'a \<Rightarrow> nat \<Rightarrow> 'a list" where
  "orbit f x 0 = []"
| "orbit f x (Suc n) = x # orbit f (f x) n"

lemma length_orbit [simp]: "length (orbit f x n) = n"
  by (induction n arbitrary: x) simp_all

lemma nth_orbit: "i < n \<Longrightarrow> orbit f x n ! i = (f ^^ i) x"
proof (induction n arbitrary: x i)
  case (Suc n)
  then show ?case by (cases i) (simp_all add: funpow_swap1)
qed simp

lemma primitive_by_orbit:
  assumes "list_all (\<lambda>e. e \<noteq> 1) (orbit (galois_step deg gen_poly) (galois_step deg gen_poly 1) n)"
    and "0 < d" "d \<le> n"
  shows "galois_pow deg gen_poly d \<noteq> 1"
proof -
  have "orbit (galois_step deg gen_poly) (galois_step deg gen_poly 1) n ! (d - 1) \<noteq> 1"
    using assms by (simp add: list_all_length)
  moreover have "(galois_step deg gen_poly ^^ (d - 1)) (galois_step deg gen_poly 1) = galois_pow deg gen_poly d"
    using assms(2) by (cases d) (simp_all add: galois_pow_def funpow_swap1)
  ultimately show ?thesis using assms by (simp add: nth_orbit)
qed

lemma galois_params_by_orbit:
  assumes "0 < deg" "deg < 16" "galois_elem (Suc deg) gen_poly" "bit gen_poly deg"
    and "2 ^ deg = n + 2"
    and "list_all (\<lambda>e. e \<noteq> 1) (orbit (galois_step deg gen_poly) (galois_step deg gen_poly 1) n)"
    and "last (orbit (galois_step deg gen_poly) (galois_step deg gen_poly 1) (Suc n)) = 1"
  shows "galois_params deg gen_poly"
proof
  have "orbit (galois_step deg gen_poly) (galois_step deg gen_poly 1) (Suc n) ! n = 1"
    using assms(7) by (subst (asm) last_conv_nth) (auto simp del: orbit.simps simp flip: length_0_conv)
  then show "galois_pow deg gen_poly (2 ^ deg - 1) = 1"
    by (simp add: assms(5) nth_orbit galois_pow_def funpow_swap1 del: orbit.simps)
  show "galois_pow deg gen_poly d \<noteq> 1" if "0 < d" "d < 2 ^ deg - 1" for d
    using primitive_by_orbit [OF assms(6), of d] that assms(5) by simp
qed (use assms in auto)

interpretation gf16: galois_params 4 "0b10011"
proof (rule galois_params_by_orbit [where n = 14])
  show "galois_elem (Suc 4) 0b10011" by (simp add: galois_elem_def)
  show "bit (0b10011 :: u32) 4" by simp
  show "list_all (\<lambda>e. e \<noteq> 1) (orbit (galois_step 4 0b10011) (galois_step 4 0b10011 1) 14)"
    "last (orbit (galois_step 4 0b10011) (galois_step 4 0b10011 1) (Suc 14)) = 1"
    by code_simp+
qed simp_all

interpretation gf256: galois_params 8 "0b100011101"
proof (rule galois_params_by_orbit [where n = 254])
  show "galois_elem (Suc 8) 0b100011101" by (simp add: galois_elem_def)
  show "bit (0b100011101 :: u32) 8" by simp
  show "list_all (\<lambda>e. e \<noteq> 1) (orbit (galois_step 8 0b100011101) (galois_step 8 0b100011101 1) 254)"
    "last (orbit (galois_step 8 0b100011101) (galois_step 8 0b100011101 1) (Suc 254)) = 1"
    by code_simp+
qed simp_all

section \<open>Properties of the two fields\<close>

text \<open>
  C12. The tables of GF(256). Whatever the two arrays held, \<open>galois256_init\<close> fills them so that on
  all field elements \<open>galois_mul\<close> is polynomial multiplication over GF(2) modulo the generator
  polynomial, \<open>galois_div\<close> by a non-zero element inverts it, and \<open>galois_inv\<close> gives the inverse.
\<close>

theorem galois256_field:
  assumes "256 \<le> length es" "256 \<le> length ls"
  shows "\<exists>g. galois256_init es ls = Some g \<and> (\<forall>a b. galois_in g a \<and> galois_in g b \<longrightarrow>
    galois_mul g a b = Some (galois_mul_ref 8 0b100011101 a b) \<and>
    galois_in g (galois_mul_ref 8 0b100011101 a b) \<and>
    (b \<noteq> 0 \<longrightarrow> (\<exists>q. galois_div g a b = Some q \<and> galois_in g q \<and> galois_mul g q b = Some a)) \<and>
    (b \<noteq> 0 \<longrightarrow> (\<exists>r. galois_inv g b = Some r \<and> galois_in g r \<and> galois_mul g r b = Some 1)))"
proof -
  obtain g where "galois256_init es ls = Some g" "galois_tables 8 0b100011101 g"
    using gf256.init_tables [of es ls] assms by (auto simp: galois256_init_def)
  then show ?thesis using gf256.field_ops [of g] by blast
qed

theorem galois256_field_witness:
  "\<exists>g. galois256_init (replicate 256 3) (replicate 300 1) = Some g \<and> (\<forall>a b. galois_in g a \<and> galois_in g b \<longrightarrow>
    galois_mul g a b = Some (galois_mul_ref 8 0b100011101 a b) \<and>
    galois_in g (galois_mul_ref 8 0b100011101 a b) \<and>
    (b \<noteq> 0 \<longrightarrow> (\<exists>q. galois_div g a b = Some q \<and> galois_in g q \<and> galois_mul g q b = Some a)) \<and>
    (b \<noteq> 0 \<longrightarrow> (\<exists>r. galois_inv g b = Some r \<and> galois_in g r \<and> galois_mul g r b = Some 1)))"
  by (rule galois256_field) simp_all

text \<open>
  The tables of GF(16), and exponent and logarithm. After \<open>galois16_init\<close> the operations
  are those of the field, and \<open>galois_index\<close> inverts \<open>galois_element\<close> modulo 15 for every
  32-bit exponent.
\<close>

theorem galois16_field:
  assumes "16 \<le> length es" "16 \<le> length ls"
  shows "\<exists>g. galois16_init es ls = Some g \<and>
    (\<forall>a b. galois_in g a \<and> galois_in g b \<longrightarrow>
      galois_mul g a b = Some (galois_mul_ref 4 0b10011 a b) \<and>
      galois_in g (galois_mul_ref 4 0b10011 a b) \<and>
      (b \<noteq> 0 \<longrightarrow> (\<exists>q. galois_div g a b = Some q \<and> galois_in g q \<and> galois_mul g q b = Some a)) \<and>
      (b \<noteq> 0 \<longrightarrow> (\<exists>r. galois_inv g b = Some r \<and> galois_in g r \<and> galois_mul g r b = Some 1))) \<and>
    (\<forall>i. \<exists>e. galois_element g i = Some e \<and> galois_in g e \<and> e \<noteq> 0 \<and> galois_index g e = Some (of_nat (unat i mod 15)))"
proof -
  obtain g where "galois16_init es ls = Some g" "galois_tables 4 0b10011 g"
    using gf16.init_tables [of es ls] assms by (auto simp: galois16_init_def)
  moreover from this have "\<exists>e. galois_element g i = Some e \<and> galois_in g e \<and> e \<noteq> 0 \<and>
      galois_index g e = Some (of_nat (unat i mod 15))" for i
    using gf16.index_element [of g i] by simp
  ultimately show ?thesis using gf16.field_ops [of g] by blast
qed

theorem galois16_field_witness:
  "\<exists>g. galois16_init (replicate 16 3) (replicate 20 1) = Some g \<and>
    (\<forall>a b. galois_in g a \<and> galois_in g b \<longrightarrow>
      galois_mul g a b = Some (galois_mul_ref 4 0b10011 a b) \<and>
      galois_in g (galois_mul_ref 4 0b10011 a b) \<and>
      (b \<noteq> 0 \<longrightarrow> (\<exists>q. galois_div g a b = Some q \<and> galois_in g q \<and> galois_mul g q b = Some a)) \<and>
      (b \<noteq> 0 \<longrightarrow> (\<exists>r. galois_inv g b = Some r \<and> galois_in g r \<and> galois_mul g r b = Some 1))) \<and>
    (\<forall>i. \<exists>e. galois_element g i = Some e \<and> galois_in g e \<and> e \<noteq> 0 \<and> galois_index g e = Some (of_nat (unat i mod 15)))"
  by (rule galois16_field) simp_all

end
