(* ===== verification/Galois_Field.thy ===== *)
theory Galois_Field
  imports Galois
begin

text \<open>
  GF(256) as a type of class \<open>field\<close>, so that the library's algebra (sums, products, powers,
  \<open>algebra_simps\<close>, \<open>field_simps\<close>) applies to the values the code computes, and the
  correspondence between the table operations of \<^verbatim>\<open>galois.h\<close> on \<open>u32\<close> values and the
  field operations. A C array of field elements is written \<open>map gf_rep xs\<close>.
\<close>

section \<open>The field\<close>

abbreviation poly256 :: u32 where
  "poly256 \<equiv> 0b100011101"

typedef gf256 = "{a :: u32. galois_elem 8 a}"
  morphisms gf_rep gf_abs
  by (rule exI [of _ 0]) simp

setup_lifting type_definition_gf256

lemma gf_rep_elem [simp]: "galois_elem 8 (gf_rep x)"
  using gf_rep [of x] by simp

lemma gf_rep_abs: "galois_elem 8 a \<Longrightarrow> gf_rep (gf_abs a) = a"
  by (simp add: gf_abs_inverse)

instantiation gf256 :: comm_ring_1
begin

lift_definition zero_gf256 :: gf256 is 0
  by simp

lift_definition one_gf256 :: gf256 is 1
  by (rule gf256.one_elem)

lift_definition plus_gf256 :: "gf256 \<Rightarrow> gf256 \<Rightarrow> gf256" is "(XOR)"
  by (rule galois_elem_xor)

lift_definition minus_gf256 :: "gf256 \<Rightarrow> gf256 \<Rightarrow> gf256" is "(XOR)"
  by (rule galois_elem_xor)

lift_definition uminus_gf256 :: "gf256 \<Rightarrow> gf256" is "\<lambda>a. a" .

lift_definition times_gf256 :: "gf256 \<Rightarrow> gf256 \<Rightarrow> gf256" is "galois_mul_ref 8 poly256"
  by (rule gf256.mul_ref_elem)

instance
proof
  fix a b c :: gf256
  show "a + b + c = a + (b + c)" by transfer (rule xor.assoc)
  show "a + b = b + a" by transfer (rule xor.commute)
  show "0 + a = a" by transfer simp
  show "- a + a = 0" by transfer simp
  show "a - b = a + - b" by transfer simp
  show "a * b * c = a * (b * c)" by transfer (rule gf256.mul_ref_assoc)
  show "a * b = b * a" by transfer (rule gf256.mul_ref_commute)
  show "1 * a = a" by transfer (rule gf256.mul_ref_1)
  show "(a + b) * c = a * c + b * c" by transfer (rule gf256.mul_ref_xor)
  show "(0::gf256) \<noteq> 1" by transfer simp
qed

end

definition gf_alpha :: gf256 where
  "gf_alpha = gf_abs 2"

lemma gf_rep_add: "gf_rep (x + y) = gf_rep x XOR gf_rep y"
  by transfer simp

lemma gf_rep_mult: "gf_rep (x * y) = galois_mul_ref 8 poly256 (gf_rep x) (gf_rep y)"
  by transfer simp

lemma gf_rep_0 [simp]: "gf_rep 0 = 0"
  by (rule zero_gf256.rep_eq)

lemma gf_rep_1 [simp]: "gf_rep 1 = 1"
  by (rule one_gf256.rep_eq)

lemma gf_rep_eq_0_iff [simp]: "gf_rep x = 0 \<longleftrightarrow> x = 0"
  using gf_rep_inject [of x 0] by simp

lemma gf_rep_alpha_pow: "gf_rep (gf_alpha ^ i) = galois_pow 8 poly256 i"
proof (induction i)
  case (Suc i)
  have "gf_rep gf_alpha = galois_pow 8 poly256 1"
    using gf256.pow_small [of 1] gf256.pow_elem [of 1] by (simp add: gf_alpha_def gf_rep_abs)
  then show ?case
    using Suc by (simp add: gf_rep_mult gf256.mul_ref_pow)
qed simp

lemma gf_alpha_255: "gf_alpha ^ 255 = 1"
  using gf256.period by (simp add: gf_rep_alpha_pow flip: gf_rep_inject)

lemma gf_alpha_pow_eq_iff:
  "i < 255 \<Longrightarrow> j < 255 \<Longrightarrow> gf_alpha ^ i = gf_alpha ^ j \<longleftrightarrow> i = j"
  using gf256.pow_inj [of i j] by (auto simp: gf_rep_alpha_pow simp flip: gf_rep_inject)

lemma gf_cases:
  obtains (zero) "x = 0" | (power) i where "i < 255" "x = gf_alpha ^ i"
proof (cases "x = 0")
  case False
  then obtain i where "i < 255" "galois_pow 8 poly256 i = gf_rep x"
    using gf256.pow_surj [of "gf_rep x"] by auto
  then show ?thesis using power by (simp add: gf_rep_alpha_pow flip: gf_rep_inject)
qed (use zero in auto)

instantiation gf256 :: field
begin

definition inverse_gf256 :: "gf256 \<Rightarrow> gf256" where
  "inverse_gf256 x = x ^ 254"

definition divide_gf256 :: "gf256 \<Rightarrow> gf256 \<Rightarrow> gf256" where
  "divide_gf256 x y = x * inverse y"

instance
proof
  fix x y :: gf256
  show "inverse x * x = 1" if "x \<noteq> 0"
  proof (cases x rule: gf_cases)
    case (power i)
    have "inverse x * x = (gf_alpha ^ 255) ^ i"
      by (simp add: inverse_gf256_def power flip: power_mult power_add)
    then show ?thesis by (simp add: gf_alpha_255)
  qed (use that in simp)
  show "inverse (0 :: gf256) = 0" by (simp add: inverse_gf256_def)
  show "x div y = x * inverse y" by (simp add: divide_gf256_def)
qed

end

text \<open>Characteristic two.\<close>

lemma gf_double [simp]: "x + x = 0" for x :: gf256
  by transfer simp

lemma gf_minus_eq_plus: "x - y = x + y" for x y :: gf256
  by transfer simp

lemma gf_add_eq_0_iff: "x + y = 0 \<longleftrightarrow> x = y" for x y :: gf256
  by (metis add_diff_cancel_right' gf_double gf_minus_eq_plus)

section \<open>The table operations compute in the field\<close>

definition galois256_ok :: "galois_t \<Rightarrow> bool" where
  "galois256_ok g \<longleftrightarrow> galois_tables 8 poly256 g"

lemma gf_add [simp]: "galois_add (gf_rep x) (gf_rep y) = gf_rep (x + y)"
  by (simp add: galois_add_def gf_rep_add)

lemma gf_mul: "galois256_ok g \<Longrightarrow> galois_mul g (gf_rep x) (gf_rep y) = Some (gf_rep (x * y))"
  by (simp add: galois256_ok_def gf256.mul_correct gf_rep_mult)

lemma gf_element: "galois256_ok g \<Longrightarrow> galois_element g i = Some (gf_rep (gf_alpha ^ unat i))"
  by (simp add: galois256_ok_def gf256.element_pow gf_rep_alpha_pow)

lemma gf_div:
  assumes "galois256_ok g" "y \<noteq> 0"
  shows "galois_div g (gf_rep x) (gf_rep y) = Some (gf_rep (x / y))"
proof -
  obtain q where q: "galois_div g (gf_rep x) (gf_rep y) = Some q" "galois_elem 8 q"
    "galois_mul_ref 8 poly256 q (gf_rep y) = gf_rep x"
    using assms gf256.div_correct [of g "gf_rep x" "gf_rep y"] by (auto simp: galois256_ok_def)
  then have "gf_abs q * y = x"
    by (simp add: gf_rep_mult gf_rep_abs flip: gf_rep_inject)
  then have "gf_abs q = x / y" using assms by (simp add: field_simps)
  then show ?thesis using q gf_rep_abs by metis
qed

lemma gf_inv:
  assumes "galois256_ok g" "x \<noteq> 0"
  shows "galois_inv g (gf_rep x) = Some (gf_rep (inverse x))"
proof -
  obtain r where r: "galois_inv g (gf_rep x) = Some r" "galois_elem 8 r"
    "galois_mul_ref 8 poly256 r (gf_rep x) = 1"
    using assms gf256.inv_correct [of g "gf_rep x"] by (auto simp: galois256_ok_def)
  then have "gf_abs r * x = 1"
    by (simp add: gf_rep_mult gf_rep_abs flip: gf_rep_inject)
  then have "gf_abs r = inverse x" using assms by (simp add: field_simps)
  then show ?thesis using r gf_rep_abs by metis
qed

lemma galois256_init_ok:
  assumes "256 \<le> length es" "256 \<le> length ls"
  shows "\<exists>g. galois256_init es ls = Some g \<and> galois256_ok g"
  using gf256.init_tables [of es ls] assms by (simp add: galois256_init_def galois256_ok_def)

end
