(* ===== verification/Rscode.thy ===== *)
theory Rscode
  imports Galois_Field
begin

text \<open>
  The Reed-Solomon symbol coder of \<^verbatim>\<open>src/src/main/rs/rscode.c\<close>: the generator
  polynomial, the shift-register encoder, the syndrome accumulator and the erasure solver. A pointer
  into an array is the array with an offset.

  The lemmas show the algebra: the generator polynomial is \<open>\<Prod>i = 1..T. (X + \<alpha> ^ i)\<close>, the
  encoder keeps the check symbols congruent to the message modulo each root, and the solver returns
  the unique erased symbol that explains the syndromes.
\<close>

section \<open>The code\<close>

record rscode_t =
  rc_n :: u32
  rc_k :: u32
  rc_galois :: galois_t
  rc_gen_poly :: "u32 list"

definition rscode_init :: "u32 \<Rightarrow> galois_t \<Rightarrow> u32 list \<Rightarrow> rscode_t option" where
  "rscode_init k galois gen_poly = do {
     let n = galois_order galois - 1;
     let T = n - k;
     p \<leftarrow> galois_poly_zero gen_poly (unat T);
     e \<leftarrow> galois_element galois 0;
     p \<leftarrow> wr p 0 e;
     p \<leftarrow> for_up 1 (Suc (unat T))
       (\<lambda>i p. do {
          e \<leftarrow> galois_element galois (of_nat i);
          r \<leftarrow> galois_poly_shift_add_scale galois p (i - 1) e;
          Some (fst r)
        }) p;
     Some \<lparr>rc_n = n, rc_k = k, rc_galois = galois, rc_gen_poly = p\<rparr>
   }"

definition rscode_checks_num :: "rscode_t \<Rightarrow> u32" where
  "rscode_checks_num rc = rc_n rc - rc_k rc"

definition rscode_prepare :: "rscode_t \<Rightarrow> u32 list \<Rightarrow> u32 list option" where
  "rscode_prepare rc buffer = for_up 0 (unat (rscode_checks_num rc)) (\<lambda>i b. wr b i 0) buffer"

definition rscode_encode :: "rscode_t \<Rightarrow> u32 \<Rightarrow> u32 list \<Rightarrow> nat \<Rightarrow> u32 list option" where
  "rscode_encode rc input checks off = do {
     let T = rscode_checks_num rc;
     c0 \<leftarrow> rd checks off;
     let factor = galois_add input c0;
     checks \<leftarrow> for_up 0 (unat (T - 1))
       (\<lambda>i cs. do {
          c \<leftarrow> rd cs (off + (i + 1));
          g \<leftarrow> rd (rc_gen_poly rc) (unat (T - 1 - of_nat i));
          m \<leftarrow> galois_mul (rc_galois rc) g factor;
          wr cs (off + i) (galois_add c m)
        }) checks;
     g \<leftarrow> rd (rc_gen_poly rc) 0;
     m \<leftarrow> galois_mul (rc_galois rc) g factor;
     wr checks (off + unat (T - 1)) m
   }"

definition rscode_decode_syndromes ::
    "rscode_t \<Rightarrow> u32 \<Rightarrow> u32 \<Rightarrow> u32 list \<Rightarrow> nat \<Rightarrow> u32 list option" where
  "rscode_decode_syndromes rc input input_degree syndromes off =
     for_up 0 (unat (rscode_checks_num rc))
       (\<lambda>i ss. do {
          s \<leftarrow> rd ss (off + i);
          e \<leftarrow> galois_element (rc_galois rc) (input_degree * (of_nat i + 1));
          m \<leftarrow> galois_mul (rc_galois rc) input e;
          wr ss (off + i) (galois_add s m)
        }) syndromes"

text \<open>The loop returns at the first syndrome that is not zero: the flag is that early return.\<close>

definition rscode_check_syndromes :: "rscode_t \<Rightarrow> u32 list \<Rightarrow> nat \<Rightarrow> bool option" where
  "rscode_check_syndromes rc syndromes off =
     for_up 0 (unat (rscode_checks_num rc))
       (\<lambda>i ok. if \<not> ok then Some False
               else do { s \<leftarrow> rd syndromes (off + i); Some (s = 0) }) True"

text \<open>
  The array \<open>sigma\<close> is a local array of \<open>erasure_num\<close> elements; the first two statements write
  every element of it before it is read.
\<close>

definition rscode_decode_erasure ::
    "rscode_t \<Rightarrow> u32 list \<Rightarrow> nat \<Rightarrow> u32 list \<Rightarrow> nat \<Rightarrow> nat \<Rightarrow> u32 option" where
  "rscode_decode_erasure rc syndromes off erasure_degrees erasure_num erasure_index = do {
     let galois = rc_galois rc;
     let z = (\<lambda>i. do { d \<leftarrow> rd erasure_degrees i; galois_element galois d });
     z_i \<leftarrow> z erasure_index;
     sigma \<leftarrow> for_up 1 erasure_num (\<lambda>j s. wr s j 0) (replicate erasure_num 0);
     one \<leftarrow> galois_element galois 0;
     sigma \<leftarrow> wr sigma 0 one;
     st \<leftarrow> for_up 0 erasure_num
       (\<lambda>j (sigma, d, prod).
          if erasure_index \<noteq> j then do {
            z_j \<leftarrow> z j;
            r \<leftarrow> galois_poly_shift_add_scale galois sigma d z_j;
            p \<leftarrow> galois_mul galois prod (galois_add z_i z_j);
            Some (fst r, d + 1, p)
          } else Some (sigma, d, prod)) (sigma, 0, z_i);
     sum \<leftarrow> for_up 0 erasure_num
       (\<lambda>j acc. do {
          s \<leftarrow> rd syndromes (off + (erasure_num - 1 - j));
          c \<leftarrow> rd (fst st) (erasure_num - 1 - j);
          m \<leftarrow> galois_mul galois s c;
          Some (galois_add acc m)
        }) 0;
     galois_div galois sum (snd (snd st))
   }"

definition rscode_decode_erasures ::
    "rscode_t \<Rightarrow> u32 list \<Rightarrow> nat \<Rightarrow> u32 list \<Rightarrow> nat \<Rightarrow> u32 list \<Rightarrow> u32 list option" where
  "rscode_decode_erasures rc syndromes off erasure_degrees erasure_num erasure_values =
     for_up 0 erasure_num
       (\<lambda>i vs. do {
          v \<leftarrow> rscode_decode_erasure rc syndromes off erasure_degrees erasure_num i;
          wr vs i v
        }) erasure_values"

section \<open>Polynomials as coefficient arrays\<close>

definition poly_eval :: "gf256 list \<Rightarrow> nat \<Rightarrow> gf256 \<Rightarrow> gf256" where
  "poly_eval p n z = (\<Sum>i\<le>n. p ! i * z ^ i)"

text \<open>An array whose first elements are field elements; what follows them is not initialised.\<close>

definition gf_array :: "gf256 list \<Rightarrow> u32 list \<Rightarrow> u32 list" where
  "gf_array xs rest = map gf_rep xs @ rest"

lemma rd_gf: "i < length xs \<Longrightarrow> rd (gf_array xs rest) i = Some (gf_rep (xs ! i))"
  by (simp add: rd_def gf_array_def nth_append)

lemma wr_gf: "i < length xs \<Longrightarrow> wr (gf_array xs rest) i (gf_rep v) = Some (gf_array (xs[i := v]) rest)"
  by (simp add: wr_def gf_array_def map_update list_update_append)

lemma wr_gf_0: "i < length xs \<Longrightarrow> wr (gf_array xs rest) i 0 = Some (gf_array (xs[i := 0]) rest)"
  using wr_gf [of i xs rest 0] by simp

lemma wr_gf_1: "i < length xs \<Longrightarrow> wr (gf_array xs rest) i 1 = Some (gf_array (xs[i := 1]) rest)"
  using wr_gf [of i xs rest 1] by simp

lemma gf_array_Nil: "gf_array xs [] = map gf_rep xs"
  by (simp add: gf_array_def)

lemmas gf_access = rd_gf wr_gf wr_gf_0 wr_gf_1
lemmas gf_map_access = gf_access [where rest = "[]", unfolded gf_array_Nil]

lemma length_gf_array [simp]: "length (gf_array xs rest) = length xs + length rest"
  by (simp add: gf_array_def)

lemma shift_add_scale_spec:
  assumes g: "galois256_ok g" and d: "Suc d < length p"
  shows "\<exists>q. galois_poly_shift_add_scale g (gf_array p rest) d (gf_rep c) = Some (gf_array q rest, Suc d) \<and>
    length q = length p \<and>
    (\<forall>i \<le> Suc d. q ! i = (if i = 0 then 0 else p ! (i - 1)) + (if i \<le> d then p ! i else 0) * c)"
proof -
  define p0 where "p0 = p[Suc d := 0]"
  define body where "body = (\<lambda>i dst. do {
          x \<leftarrow> rd dst (i - 1);
          y \<leftarrow> rd dst i;
          m \<leftarrow> galois_mul g y (gf_rep c);
          wr dst i (galois_add x m)
        })"
  define inv where "inv = (\<lambda>i a. \<exists>q. a = gf_array q rest \<and> length q = length p \<and>
      (\<forall>j. i < j \<and> j \<le> Suc d \<longrightarrow> q ! j = p0 ! (j - 1) + p0 ! j * c) \<and>
      (\<forall>j \<le> i. q ! j = p0 ! j))"
  have "\<exists>a. for_down (Suc d) body (gf_array p0 rest) = Some a \<and> inv 0 a"
  proof (rule for_down_rule)
    show "inv (Suc d) (gf_array p0 rest)" by (auto simp: inv_def p0_def)
  next
    fix i a assume i: "i < Suc d" and "inv (Suc i) a"
    then obtain q where q: "a = gf_array q rest" "length q = length p"
      "\<forall>j. Suc i < j \<and> j \<le> Suc d \<longrightarrow> q ! j = p0 ! (j - 1) + p0 ! j * c"
      "\<forall>j \<le> Suc i. q ! j = p0 ! j"
      by (auto simp: inv_def)
    then have "body (Suc i) a = Some (gf_array (q[Suc i := p0 ! i + p0 ! Suc i * c]) rest)"
      using i d g by (simp add: body_def gf_access gf_mul)
    moreover have "inv i (gf_array (q[Suc i := p0 ! i + p0 ! Suc i * c]) rest)"
      unfolding inv_def using q i d
      by (intro exI [of _ "q[Suc i := p0 ! i + p0 ! Suc i * c]"]) (auto simp: nth_list_update)
    ultimately show "\<exists>s'. body (Suc i) a = Some s' \<and> inv i s'" by blast
  qed
  then obtain q where loop: "for_down (Suc d) body (gf_array p0 rest) = Some (gf_array q rest)"
    and q: "length q = length p" "\<forall>j. 0 < j \<and> j \<le> Suc d \<longrightarrow> q ! j = p0 ! (j - 1) + p0 ! j * c"
      "q ! 0 = p0 ! 0"
    by (auto simp: inv_def)
  have ne: "q \<noteq> []" "p \<noteq> []" using q(1) d by auto
  then have "galois_poly_shift_add_scale g (gf_array p rest) d (gf_rep c)
      = Some (gf_array (q[0 := q ! 0 * c]) rest, Suc d)"
    using d g q loop
    by (auto simp: galois_poly_shift_add_scale_def gf_access gf_mul p0_def body_def simp del: for_down.simps)
  then show ?thesis
    using q d ne by (intro exI [of _ "q[0 := q ! 0 * c]"]) (auto simp: p0_def nth_list_update)
qed

lemma eval_shift_add_scale:
  assumes "\<forall>i \<le> Suc d. q ! i = (if i = 0 then 0 else p ! (i - 1)) + (if i \<le> d then p ! i else 0) * c"
  shows "poly_eval q (Suc d) z = (z + c) * poly_eval p d z"
proof -
  have "poly_eval q (Suc d) z =
      (\<Sum>i\<le>Suc d. (if i = 0 then 0 else p ! (i - 1)) * z ^ i) +
      (\<Sum>i\<le>Suc d. (if i \<le> d then p ! i else 0) * c * z ^ i)"
    unfolding poly_eval_def using assms
    by (subst sum.distrib [symmetric]) (auto intro!: sum.cong simp: algebra_simps)
  also have "(\<Sum>i\<le>Suc d. (if i = 0 then 0 else p ! (i - 1)) * z ^ i) = z * poly_eval p d z"
    by (subst sum.atMost_Suc_shift) (simp add: poly_eval_def sum_distrib_left algebra_simps)
  also have "(\<Sum>i\<le>Suc d. (if i \<le> d then p ! i else 0) * c * z ^ i) = c * poly_eval p d z"
    by (simp add: poly_eval_def sum_distrib_left algebra_simps)
  finally show ?thesis by (simp add: algebra_simps)
qed

lemma poly_zero_spec:
  assumes "deg < length p"
  shows "\<exists>q. galois_poly_zero p deg = Some q \<and> length q = length p \<and>
    (\<forall>i \<le> deg. q ! i = 0) \<and> (\<forall>i > deg. i < length p \<longrightarrow> q ! i = p ! i)"
proof -
  have "\<exists>q. for_up 0 (Suc deg) (\<lambda>i a. wr a i 0) p = Some q \<and>
      (length q = length p \<and> (\<forall>i < Suc deg. q ! i = 0) \<and>
       (\<forall>i \<ge> Suc deg. i < length p \<longrightarrow> q ! i = p ! i))"
    by (rule for_up_rule) (use assms in \<open>auto simp: access_simps nth_list_update\<close>)
  then show ?thesis by (auto simp: galois_poly_zero_def)
qed

section \<open>Polynomial multiplication\<close>

lemma poly_eval_update:
  assumes "k \<le> n" "n < length p"
  shows "poly_eval (p[k := p ! k + m]) n z = poly_eval p n z + m * z ^ k"
proof -
  have "poly_eval (p[k := p ! k + m]) n z = (\<Sum>i\<le>n. p ! i * z ^ i + (if i = k then m * z ^ k else 0))"
    unfolding poly_eval_def using assms by (intro sum.cong) (auto simp: nth_list_update distrib_right)
  also have "\<dots> = poly_eval p n z + m * z ^ k"
    using assms by (simp add: sum.distrib poly_eval_def)
  finally show ?thesis .
qed

lemma poly_mul_row:
  assumes g: "galois256_ok g" and len: "i < length a" "db < length b" "i + db \<le> n" "n < length r"
  shows "\<exists>r'. for_up 0 (Suc db) (\<lambda>j result. do {
             let n = i + j;
             r \<leftarrow> rd result n;
             x \<leftarrow> rd (map gf_rep a) i;
             y \<leftarrow> rd (map gf_rep b) j;
             m \<leftarrow> galois_mul g x y;
             wr result n (galois_add r m)
           }) (gf_array r rest) = Some (gf_array r' rest) \<and> length r' = length r \<and>
     (\<forall>z. poly_eval r' n z = poly_eval r n z + a ! i * z ^ i * poly_eval b db z)"
proof -
  define P where "P = (\<lambda>j s. \<exists>q. s = gf_array q rest \<and> length q = length r \<and>
     (\<forall>z. poly_eval q n z = poly_eval r n z + (\<Sum>k<j. a ! i * z ^ i * (b ! k * z ^ k))))"
  have "\<exists>s. for_up 0 (Suc db) (\<lambda>j result. do {
             let n = i + j;
             r \<leftarrow> rd result n;
             x \<leftarrow> rd (map gf_rep a) i;
             y \<leftarrow> rd (map gf_rep b) j;
             m \<leftarrow> galois_mul g x y;
             wr result n (galois_add r m)
           }) (gf_array r rest) = Some s \<and> P (Suc db) s"
  proof (rule for_up_rule)
    show "P 0 (gf_array r rest)" by (auto simp: P_def)
  next
    fix j s assume j: "j < Suc db" and "P j s"
    then obtain q where q: "s = gf_array q rest" "length q = length r"
      "\<forall>z. poly_eval q n z = poly_eval r n z + (\<Sum>k<j. a ! i * z ^ i * (b ! k * z ^ k))"
      by (auto simp: P_def)
    let ?q = "q[i + j := q ! (i + j) + a ! i * b ! j]"
    have "P (Suc j) (gf_array ?q rest)"
      unfolding P_def using q j len
      by (intro exI [of _ ?q]) (auto simp: poly_eval_update power_add mult_ac add.assoc)
    then show "\<exists>s'. (do {
             let n = i + j;
             r \<leftarrow> rd s n;
             x \<leftarrow> rd (map gf_rep a) i;
             y \<leftarrow> rd (map gf_rep b) j;
             m \<leftarrow> galois_mul g x y;
             wr s n (galois_add r m)
           }) = Some s' \<and> P (Suc j) s'"
      using q(1,2) j len by (simp add: gf_access gf_map_access gf_mul [OF g] Let_def)
  qed simp
  then show ?thesis
    by (auto simp: P_def poly_eval_def sum_distrib_left lessThan_Suc_atMost)
qed

text \<open>
  Polynomial multiplication. \<open>galois_poly_mul\<close> returns the degree \<open>degree_a + degree_b\<close> and a
  result array whose first coefficients are those of the product polynomial: it evaluates to the
  product of the values at every point.
\<close>

theorem galois_poly_mul_correct:
  assumes g: "galois256_ok g" and len: "da < length a" "db < length b" "da + db < length r"
  shows "\<exists>r' rest. galois_poly_mul g (map gf_rep a) da (map gf_rep b) db r = Some (gf_array r' rest, da + db) \<and>
    length r' = da + db + 1 \<and> (\<forall>z. poly_eval r' (da + db) z = poly_eval a da z * poly_eval b db z)"
proof -
  define n where "n = da + db"
  obtain r0 where r0: "galois_poly_zero r n = Some r0" "length r0 = length r" "\<forall>i \<le> n. r0 ! i = 0"
    using poly_zero_spec [of n r] len(3) by (auto simp: n_def)
  define rest where "rest = drop (Suc n) r0"
  have start: "r0 = gf_array (replicate (Suc n) 0) rest"
    using r0(2,3) len(3) by (intro nth_equalityI) (auto simp: gf_array_def rest_def n_def nth_append simp del: replicate_Suc)
  define P where "P = (\<lambda>i s. \<exists>q. s = gf_array q rest \<and> length q = Suc n \<and>
     (\<forall>z. poly_eval q n z = (\<Sum>k<i. a ! k * z ^ k * poly_eval b db z)))"
  define body where "body = (\<lambda>i. for_up 0 (Suc db)
          (\<lambda>j result. do {
             let n = i + j;
             r \<leftarrow> rd result n;
             x \<leftarrow> rd (map gf_rep a) i;
             y \<leftarrow> rd (map gf_rep b) j;
             m \<leftarrow> galois_mul g x y;
             wr result n (galois_add r m)
           }))"
  have "\<exists>s. for_up 0 (Suc da) body (gf_array (replicate (Suc n) 0) rest) = Some s \<and> P (Suc da) s"
  proof (rule for_up_rule)
    show "P 0 (gf_array (replicate (Suc n) 0) rest)"
      unfolding P_def by (intro exI [of _ "replicate (Suc n) 0"]) (auto simp: poly_eval_def simp del: replicate_Suc)
  next
    fix i s assume i: "i < Suc da" and "P i s"
    then obtain q where q: "s = gf_array q rest" "length q = Suc n"
      "\<forall>z. poly_eval q n z = (\<Sum>k<i. a ! k * z ^ k * poly_eval b db z)"
      by (auto simp: P_def)
    then show "\<exists>s'. body i s = Some s' \<and> P (Suc i) s'"
      using poly_mul_row [OF g, of i a db b n q rest] i len by (auto simp: body_def P_def n_def)
  qed simp
  then obtain q where "for_up 0 (Suc da) body r0 = Some (gf_array q rest)" "length q = Suc n"
    "\<forall>z. poly_eval q n z = poly_eval a da z * poly_eval b db z"
    by (auto simp: P_def start poly_eval_def [of a] sum_distrib_right lessThan_Suc_atMost)
  then show ?thesis
    using r0(1) by (auto simp: galois_poly_mul_def Let_def body_def n_def)
qed

theorem galois_poly_mul_correct_witness:
  "\<exists>g. galois256_init (replicate 256 0) (replicate 256 0) = Some g \<and>
    (\<exists>r' rest. galois_poly_mul g (map gf_rep [1, gf_alpha]) 1 (map gf_rep [gf_alpha, 0, 1]) 2 [7, 7, 7, 7, 7]
        = Some (gf_array r' rest, 1 + 2) \<and> length r' = 1 + 2 + 1 \<and>
      (\<forall>z. poly_eval r' (1 + 2) z = poly_eval [1, gf_alpha] 1 z * poly_eval [gf_alpha, 0, 1] 2 z))"
proof -
  obtain g where g: "galois256_init (replicate 256 0) (replicate 256 0) = Some g" "galois256_ok g"
    using galois256_init_ok [of "replicate 256 0" "replicate 256 0"] by auto
  show ?thesis
    using g(1) galois_poly_mul_correct [OF g(2), of 1 "[1, gf_alpha]" 2 "[gf_alpha, 0, 1]" "[7, 7, 7, 7, 7]"] by simp
qed

section \<open>The generator polynomial\<close>

text \<open>
  What \<open>rscode_init\<close> promises: the tables are those of GF(256), there are \<open>T\<close> check symbols,
  and the generator polynomial \<open>p\<close> is monic of degree \<open>T\<close> with roots \<open>\<alpha>\<close> to \<open>\<alpha> ^ T\<close>.
\<close>

definition rscode_ok :: "rscode_t \<Rightarrow> nat \<Rightarrow> gf256 list \<Rightarrow> bool" where
  "rscode_ok rc T p \<longleftrightarrow>
     galois256_ok (rc_galois rc) \<and> unat (rscode_checks_num rc) = T \<and> T < 255 \<and>
     (\<exists>rest. rc_gen_poly rc = gf_array p rest) \<and> length p = Suc T \<and> p ! T = 1 \<and>
     (\<forall>z. poly_eval p T z = (\<Prod>i = 1..T. z + gf_alpha ^ i))"

lemma galois256_order: "galois256_ok g \<Longrightarrow> galois_order g = 256"
  using gf256.tables_order [of g] by (simp add: galois256_ok_def galois_order_def)

lemma prod_Icc_Suc: "(\<Prod>i = 1..Suc n. f i) = f (Suc n) * (\<Prod>i = 1..n. f i)" for f :: "nat \<Rightarrow> gf256"
  by (simp add: atLeastAtMostSuc_conv)

definition gen_poly_step :: "galois_t \<Rightarrow> nat \<Rightarrow> u32 list \<Rightarrow> u32 list option" where
  "gen_poly_step g i p = do {
     e \<leftarrow> galois_element g (of_nat i);
     r \<leftarrow> galois_poly_shift_add_scale g p (i - 1) e;
     Some (fst r)
   }"

lemma gen_poly_loop:
  assumes g: "galois256_ok g" and T: "T < 255" "T < length p" and p: "p ! 0 = 1"
  shows "\<exists>q. for_up 1 (Suc T) (gen_poly_step g) (gf_array p rest) = Some (gf_array q rest) \<and>
     length q = length p \<and> q ! T = 1 \<and> (\<forall>z. poly_eval q T z = (\<Prod>i = 1..T. z + gf_alpha ^ i))"
proof -
  define inv where "inv = (\<lambda>i a. \<exists>q. a = gf_array q rest \<and> length q = length p \<and> q ! (i - 1) = 1 \<and>
      (\<forall>z. poly_eval q (i - 1) z = (\<Prod>i = 1..i - 1. z + gf_alpha ^ i)))"
  have "\<exists>a. for_up 1 (Suc T) (gen_poly_step g) (gf_array p rest) = Some a \<and> inv (Suc T) a"
  proof (rule for_up_rule)
    show "inv 1 (gf_array p rest)"
      unfolding inv_def by (intro exI [of _ p]) (simp add: p poly_eval_def)
  next
    fix i a assume i: "1 \<le> i" "i < Suc T" and "inv i a"
    then obtain q where q: "a = gf_array q rest" "length q = length p" "q ! (i - 1) = 1"
      "\<forall>z. poly_eval q (i - 1) z = (\<Prod>i = 1..i - 1. z + gf_alpha ^ i)"
      by (auto simp: inv_def)
    obtain r where r: "galois_poly_shift_add_scale g a (i - 1) (gf_rep (gf_alpha ^ i))
          = Some (gf_array r rest, i)" "length r = length p"
      "\<forall>k \<le> i. r ! k = (if k = 0 then 0 else q ! (k - 1)) +
          (if k \<le> i - 1 then q ! k else 0) * gf_alpha ^ i"
      using shift_add_scale_spec [OF g, of "i - 1" q rest "gf_alpha ^ i"] i T q by auto
    have "poly_eval r i z = (\<Prod>k = 1..i. z + gf_alpha ^ k)" for z
      using eval_shift_add_scale [of "i - 1" r q "gf_alpha ^ i" z] r(3) q(4) i
        prod_Icc_Suc [of "\<lambda>k. z + gf_alpha ^ k" "i - 1"] by simp
    moreover have "r ! i = 1"
      using r(3) [rule_format, of i] q(3) i by auto
    moreover have "unat (of_nat i :: u32) = i"
      using i T by (simp add: unat_of_nat take_bit_nat_eq_self)
    ultimately show "\<exists>s'. gen_poly_step g i a = Some s' \<and> inv (Suc i) s'"
      using r(1,2) by (auto simp: gen_poly_step_def gf_element [OF g] inv_def)
  qed simp
  then show ?thesis by (auto simp: inv_def)
qed

lemma rscode_init_ok:
  assumes g: "galois256_ok g" and k: "0 < unat k" "unat k \<le> 255" and len: "255 - unat k < length gp"
  shows "\<exists>rc p. rscode_init k g gp = Some rc \<and> rscode_ok rc (255 - unat k) p"
proof -
  define T where "T = 255 - unat k"
  have ord: "galois_order g - 1 = 255" using galois256_order [OF g] by simp
  have T: "unat (255 - k) = T" "T < 255" "T < length gp"
    using k len by (auto simp: T_def unat_sub word_le_nat_alt)
  obtain q where q: "galois_poly_zero gp T = Some q" "length q = length gp" "\<forall>i \<le> T. q ! i = 0"
    using poly_zero_spec [OF T(3)] by blast
  define p where "p = (replicate (Suc T) 0 :: gf256 list)[0 := 1]"
  have "q = gf_array (replicate (Suc T) 0) (drop (Suc T) q)"
    using q T(3) by (auto simp: gf_array_def nth_append simp del: replicate_Suc intro!: nth_equalityI)
  then have "wr q 0 1 = Some (gf_array p (drop (Suc T) q))"
    unfolding p_def by (metis gf_rep_1 length_replicate wr_gf zero_less_Suc)
  moreover obtain r where
    "for_up 1 (Suc T) (gen_poly_step g) (gf_array p (drop (Suc T) q)) = Some (gf_array r (drop (Suc T) q))"
    "length r = length p" "r ! T = 1" "\<forall>z. poly_eval r T z = (\<Prod>i = 1..T. z + gf_alpha ^ i)"
    using gen_poly_loop [OF g T(2), of p "drop (Suc T) q"] by (auto simp: p_def)
  moreover have "length p = Suc T" by (simp add: p_def)
  ultimately show ?thesis
    using q(1) T g
    by (auto simp: rscode_init_def ord gf_element [OF g] rscode_ok_def rscode_checks_num_def
        gen_poly_step_def [abs_def] simp flip: T_def)
qed

section \<open>The encoder\<close>

text \<open>One shift of the register: symbol \<open>x\<close> enters, \<open>s\<close> is the register, \<open>p\<close> the generator.\<close>

definition lfsr :: "nat \<Rightarrow> gf256 list \<Rightarrow> gf256 \<Rightarrow> (nat \<Rightarrow> gf256) \<Rightarrow> nat \<Rightarrow> gf256" where
  "lfsr T p x s j = (if Suc j < T then s (Suc j) else 0) + p ! (T - 1 - j) * (x + s 0)"

text \<open>The register as a polynomial: element \<open>j\<close> is the coefficient of degree \<open>T - 1 - j\<close>.\<close>

definition reg_eval :: "nat \<Rightarrow> (nat \<Rightarrow> gf256) \<Rightarrow> gf256 \<Rightarrow> gf256" where
  "reg_eval T s z = (\<Sum>j<T. s j * z ^ (T - 1 - j))"

lemma sum_shift_down:
  "0 < T \<Longrightarrow> (\<Sum>j<T. (if Suc j < T then s (Suc j) else 0) * z ^ (T - 1 - j)) + s 0 * z ^ T
     = z * (\<Sum>j<T. s j * z ^ (T - 1 - j))" for s :: "nat \<Rightarrow> gf256"
proof -
  assume "0 < T"
  then obtain n where T: "T = Suc n" by (cases T) auto
  have "(\<Sum>j<T. (if Suc j < T then s (Suc j) else 0) * z ^ (T - 1 - j))
      = (\<Sum>j<n. s (Suc j) * z ^ (n - j))"
    unfolding T by (simp add: lessThan_Suc sum.If_cases)
  moreover have "z * (\<Sum>j<T. s j * z ^ (T - 1 - j)) = s 0 * z ^ T + (\<Sum>j<n. s (Suc j) * z ^ (n - j))"
    unfolding T sum.lessThan_Suc_shift sum_distrib_left distrib_left
    by (auto intro!: sum.cong arg_cong2 [where f = "(+)"] simp: mult_ac Suc_diff_Suc simp flip: power_Suc)
  ultimately show ?thesis by (simp add: add.commute)
qed

lemma gen_tail_eval:
  assumes "p ! T = 1" "0 < T"
  shows "(\<Sum>j<T. p ! (T - 1 - j) * z ^ (T - 1 - j)) = poly_eval p T z + z ^ T"
proof -
  have "(\<Sum>j<T. p ! (T - 1 - j) * z ^ (T - 1 - j)) = (\<Sum>i<T. p ! i * z ^ i)"
    by (rule sum.reindex_bij_witness [of _ "\<lambda>i. T - 1 - i" "\<lambda>j. T - 1 - j"]) auto
  moreover have "poly_eval p T z = (\<Sum>i<T. p ! i * z ^ i) + z ^ T"
    using assms by (simp add: poly_eval_def lessThan_Suc_atMost [symmetric])
  ultimately show ?thesis by (simp add: add.assoc)
qed

lemma lfsr_eval:
  assumes "p ! T = 1" "0 < T" "poly_eval p T z = 0"
  shows "reg_eval T (lfsr T p x s) z = z * reg_eval T s z + x * z ^ T"
proof -
  have "reg_eval T (lfsr T p x s) z =
      (\<Sum>j<T. (if Suc j < T then s (Suc j) else 0) * z ^ (T - 1 - j)) +
      (x + s 0) * (\<Sum>j<T. p ! (T - 1 - j) * z ^ (T - 1 - j))"
    unfolding reg_eval_def lfsr_def sum_distrib_left sum.distrib [symmetric]
    by (rule sum.cong) (simp_all add: algebra_simps)
  also have "\<dots> = (z * reg_eval T s z + s 0 * z ^ T) + (x + s 0) * z ^ T"
    using sum_shift_down [OF assms(2), of s z] gen_tail_eval [OF assms(1,2), of z] assms(3)
    by (metis (no_types, lifting) add.assoc add.right_neutral add_0 gf_double reg_eval_def)
  also have "\<dots> = z * reg_eval T s z + x * z ^ T"
  proof -
    have "s 0 * z ^ T + s 0 * z ^ T = 0" by simp
    then show ?thesis by (simp add: algebra_simps)
  qed
  finally show ?thesis .
qed

lemma lfsr_cong:
  "\<forall>j < T. s j = s' j \<Longrightarrow> j < T \<Longrightarrow> lfsr T p x s j = lfsr T p x s' j"
  by (auto simp: lfsr_def)

lemma reg_eval_cong: "(\<And>j. j < T \<Longrightarrow> s j = s' j) \<Longrightarrow> reg_eval T s z = reg_eval T s' z"
  by (simp add: reg_eval_def)

lemma gen_root:
  assumes "rscode_ok rc T p" "i \<in> {1..T}"
  shows "poly_eval p T (gf_alpha ^ i) = 0"
proof -
  have "(\<Prod>k = 1..T. gf_alpha ^ i + gf_alpha ^ k) = 0"
    using assms(2) by (intro prod_zero bexI [of _ i]) auto
  then show ?thesis using assms(1) by (simp add: rscode_ok_def)
qed

lemma shift_sum:
  "z * (\<Sum>j<n. x j * z ^ (T + n - 1 - j)) + y * z ^ T
     = (\<Sum>j<Suc n. (if j < n then x j else y) * z ^ (T + Suc n - 1 - j))" for x :: "nat \<Rightarrow> gf256"
proof -
  have "z * (x j * z ^ (T + n - 1 - j)) = x j * z ^ (T + Suc n - 1 - j)" if "j < n" for j
  proof -
    have "T + Suc n - 1 - j = Suc (T + n - 1 - j)" using that by simp
    then show ?thesis by (simp add: mult_ac)
  qed
  then have "(\<Sum>j<n. z * (x j * z ^ (T + n - 1 - j))) = (\<Sum>j<n. x j * z ^ (T + Suc n - 1 - j))"
    by (intro sum.cong) auto
  then show ?thesis by (simp add: sum_distrib_left)
qed

lemma checks_num_words:
  assumes "rscode_ok rc T p" "0 < T" "i < T"
  shows "unat (rscode_checks_num rc - 1) = T - 1"
    "unat (rscode_checks_num rc - 1 - of_nat i) = T - 1 - i"
proof -
  have T: "unat (rscode_checks_num rc) = T" "T < 255" using assms(1) by (simp_all add: rscode_ok_def)
  then have "1 \<le> rscode_checks_num rc" using assms(2) by (simp add: word_le_nat_alt)
  then show one: "unat (rscode_checks_num rc - 1) = T - 1" using T by (simp add: unat_sub)
  have i: "unat (of_nat i :: u32) = i" using assms(3) T by (simp add: unat_of_nat take_bit_nat_eq_self)
  then have "of_nat i \<le> rscode_checks_num rc - 1" using assms(3) one by (simp add: word_le_nat_alt)
  then show "unat (rscode_checks_num rc - 1 - of_nat i) = T - 1 - i"
    by (simp add: unat_sub one i)
qed

lemma rscode_encode_spec:
  assumes ok: "rscode_ok rc T p" and T: "0 < T" and len: "off + T \<le> length cs"
  shows "\<exists>cs'. rscode_encode rc (gf_rep x) (map gf_rep cs) off = Some (map gf_rep cs') \<and>
    agree_off cs cs' off T \<and> (\<forall>j < T. cs' ! (off + j) = lfsr T p x (\<lambda>j. cs ! (off + j)) j)"
proof -
  define g where "g = rc_galois rc"
  obtain rest where gp: "rc_gen_poly rc = gf_array p rest" "length p = Suc T"
    using ok by (auto simp: rscode_ok_def)
  have g: "galois256_ok g" using ok by (simp add: rscode_ok_def g_def)
  note words = checks_num_words [OF ok T]
  define f where "f = x + cs ! off"
  define body where "body = (\<lambda>i cs. do {
          c \<leftarrow> rd cs (off + (i + 1));
          g' \<leftarrow> rd (rc_gen_poly rc) (unat (rscode_checks_num rc - 1 - of_nat i));
          m \<leftarrow> galois_mul g g' (gf_rep f);
          wr cs (off + i) (galois_add c m)
        })"
  define inv where "inv = (\<lambda>i a. \<exists>q. a = map gf_rep q \<and> agree_off cs q off i \<and>
      (\<forall>j < i. q ! (off + j) = cs ! (off + Suc j) + p ! (T - 1 - j) * f))"
  have "\<exists>a. for_up 0 (T - 1) body (map gf_rep cs) = Some a \<and> inv (T - 1) a"
  proof (rule for_up_rule)
    show "inv 0 (map gf_rep cs)" by (auto simp: inv_def)
  next
    fix i a assume i: "i < T - 1" and "inv i a"
    then obtain q where q: "a = map gf_rep q" "agree_off cs q off i"
      "\<forall>j < i. q ! (off + j) = cs ! (off + Suc j) + p ! (T - 1 - j) * f"
      by (auto simp: inv_def)
    let ?q = "q[off + i := cs ! (off + Suc i) + p ! (T - 1 - i) * f]"
    have "q ! Suc (off + i) = cs ! Suc (off + i)" "length q = length cs"
      using q(2) i len by (auto simp: agree_off_def)
    then have "body i a = Some (map gf_rep ?q)"
      using i len g gp q(1) words(2) [of i]
      by (auto simp: body_def gf_access gf_map_access gf_mul)
    moreover have "agree_off cs ?q off (Suc i)"
      using q(2) by (auto simp: agree_off_def nth_list_update)
    moreover have "\<forall>j < Suc i. ?q ! (off + j) = cs ! (off + Suc j) + p ! (T - 1 - j) * f"
      using q(2,3) i len by (auto simp: less_Suc_eq agree_off_length nth_list_update)
    ultimately show "\<exists>s'. body i a = Some s' \<and> inv (Suc i) s'" by (auto simp: inv_def)
  qed simp
  then obtain q where loop: "for_up 0 (T - 1) body (map gf_rep cs) = Some (map gf_rep q)"
    and q: "agree_off cs q off (T - 1)"
      "\<forall>j < T - 1. q ! (off + j) = cs ! (off + Suc j) + p ! (T - 1 - j) * f"
    by (auto simp: inv_def)
  let ?q = "q[off + (T - 1) := p ! 0 * f]"
  have len': "off < length cs" "off + (T - 1) < length q" "length q = length cs" "0 < length p"
    using len T q(1) gp by (auto simp: agree_off_def)
  have "rscode_encode rc (gf_rep x) (map gf_rep cs) off = Some (map gf_rep ?q)"
    using len' words(1) [OF T] loop g gp
    by (simp add: rscode_encode_def gf_access gf_map_access gf_mul body_def g_def f_def Let_def)
  moreover have "agree_off cs ?q off T"
    using q(1) T len' by (auto simp: agree_off_def nth_list_update)
  moreover have "?q ! (off + j) = lfsr T p x (\<lambda>j. cs ! (off + j)) j" if "j < T" for j
  proof (cases "j = T - 1")
    case True
    then show ?thesis using len' T by (simp add: lfsr_def f_def)
  next
    case False
    then have "Suc j < T" using that by simp
    then show ?thesis using q(2) by (simp add: lfsr_def f_def)
  qed
  ultimately show ?thesis by blast
qed

section \<open>Syndromes\<close>

lemma syndromes_spec:
  assumes ok: "rscode_ok rc T p" and len: "off + T \<le> length ss" and d: "unat d < 255"
  shows "\<exists>ss'. rscode_decode_syndromes rc (gf_rep x) d (map gf_rep ss) off = Some (map gf_rep ss') \<and>
    agree_off ss ss' off T \<and> (\<forall>j < T. ss' ! (off + j) = ss ! (off + j) + x * gf_alpha ^ (unat d * Suc j))"
proof -
  define g where "g = rc_galois rc"
  have g: "galois256_ok g" and T: "unat (rscode_checks_num rc) = T" "T < 255"
    using ok by (auto simp: rscode_ok_def g_def)
  define body where "body = (\<lambda>i ss. do {
          s \<leftarrow> rd ss (off + i);
          e \<leftarrow> galois_element g (d * (of_nat i + 1));
          m \<leftarrow> galois_mul g (gf_rep x) e;
          wr ss (off + i) (galois_add s m)
        })"
  define inv where "inv = (\<lambda>i a. \<exists>q. a = map gf_rep q \<and> agree_off ss q off i \<and>
      (\<forall>j < i. q ! (off + j) = ss ! (off + j) + x * gf_alpha ^ (unat d * Suc j)))"
  have "\<exists>a. for_up 0 T body (map gf_rep ss) = Some a \<and> inv T a"
  proof (rule for_up_rule)
    show "inv 0 (map gf_rep ss)" by (auto simp: inv_def)
  next
    fix i a assume i: "i < T" and "inv i a"
    then obtain q where q: "a = map gf_rep q" "agree_off ss q off i"
      "\<forall>j < i. q ! (off + j) = ss ! (off + j) + x * gf_alpha ^ (unat d * Suc j)"
      by (auto simp: inv_def)
    let ?q = "q[off + i := ss ! (off + i) + x * gf_alpha ^ (unat d * Suc i)]"
    have "unat (d * (of_nat i + 1)) = unat d * Suc i"
    proof -
      have "unat d * Suc i < 255 * 256" using d i T by (intro mult_strict_mono) auto
      then have "unat (of_nat (unat d * Suc i) :: u32) = unat d * Suc i"
        unfolding unat_of_nat by (simp add: take_bit_nat_eq_self)
      then show ?thesis by (simp add: algebra_simps)
    qed
    moreover have "q ! (off + i) = ss ! (off + i)" "length q = length ss"
      using q(2) i len by (auto simp: agree_off_def)
    ultimately have "body i a = Some (map gf_rep ?q)"
      using i len g q(1) by (simp add: body_def gf_map_access gf_mul gf_element)
    moreover have "agree_off ss ?q off (Suc i)"
      using q(2) by (auto simp: agree_off_def nth_list_update)
    moreover have "\<forall>j < Suc i. ?q ! (off + j) = ss ! (off + j) + x * gf_alpha ^ (unat d * Suc j)"
      using q(2,3) i len by (auto simp: less_Suc_eq agree_off_length nth_list_update)
    ultimately show "\<exists>s'. body i a = Some s' \<and> inv (Suc i) s'" by (auto simp: inv_def)
  qed simp
  then show ?thesis
    using T by (auto simp: inv_def rscode_decode_syndromes_def body_def g_def)
qed

section \<open>The erasure solver\<close>

text \<open>
  The linear system: the syndromes are the moments of the erased values \<open>v\<close> at the points \<open>z\<close>.
  The polynomial that vanishes at every other point isolates one value.
\<close>

lemma moments_isolate:
  fixes z v :: "nat \<Rightarrow> gf256"
  assumes "0 < n" "m < n"
    and s: "\<forall>i < n. s i = (\<Sum>j<n. v j * z j ^ Suc i)"
    and sigma: "\<forall>x. poly_eval q (n - 1) x = (\<Prod>k \<in> {..<n} - {m}. x + z k)"
  shows "(\<Sum>i<n. s i * q ! i) = v m * (z m * (\<Prod>k \<in> {..<n} - {m}. z m + z k))"
proof -
  have range: "{..n - 1} = {..<n}" using assms(1) by auto
  have "(\<Sum>i<n. s i * q ! i) = (\<Sum>i<n. \<Sum>j<n. v j * z j * (q ! i * z j ^ i))"
  proof (rule sum.cong)
    fix i assume "i \<in> {..<n}"
    then have "s i * q ! i = (\<Sum>j<n. v j * z j ^ Suc i * q ! i)"
      by (simp add: s sum_distrib_right)
    also have "\<dots> = (\<Sum>j<n. v j * z j * (q ! i * z j ^ i))"
      by (rule sum.cong) (simp_all add: mult_ac)
    finally show "s i * q ! i = (\<Sum>j<n. v j * z j * (q ! i * z j ^ i))" .
  qed simp
  also have "\<dots> = (\<Sum>j<n. v j * z j * poly_eval q (n - 1) (z j))"
    unfolding poly_eval_def range sum_distrib_left by (rule sum.swap)
  also have "\<dots> = (\<Sum>j<n. if j = m then v j * z j * poly_eval q (n - 1) (z j) else 0)"
  proof (rule sum.cong)
    fix j assume "j \<in> {..<n}"
    then show "v j * z j * poly_eval q (n - 1) (z j)
        = (if j = m then v j * z j * poly_eval q (n - 1) (z j) else 0)"
      unfolding sigma [rule_format] by (cases "j = m") (auto intro!: prod_zero bexI [of _ j])
  qed simp
  also have "\<dots> = v m * (z m * (\<Prod>k \<in> {..<n} - {m}. z m + z k))"
    using assms(2) sigma by (simp add: mult.assoc)
  finally show ?thesis .
qed

text \<open>One iteration of the loop that multiplies out \<open>sigma\<close> and \<open>prod\<close>.\<close>

definition sigma_inv :: "(nat \<Rightarrow> gf256) \<Rightarrow> nat \<Rightarrow> nat \<Rightarrow> nat \<Rightarrow> u32 list \<times> nat \<times> u32 \<Rightarrow> bool" where
  "sigma_inv z n m j st \<longleftrightarrow> (\<exists>q. fst st = map gf_rep q \<and> length q = n \<and>
     fst (snd st) = card ({..<j} - {m}) \<and>
     (\<forall>x. poly_eval q (card ({..<j} - {m})) x = (\<Prod>k \<in> {..<j} - {m}. x + z k)) \<and>
     snd (snd st) = gf_rep (z m * (\<Prod>k \<in> {..<j} - {m}. z m + z k)))"

lemma lessThan_Suc_minus:
  "{..<Suc j} - {m} = (if j = m then {..<j} - {m} else insert j ({..<j} - {m}))"
  by auto

lemma sigma_step:
  assumes g: "galois256_ok g" and "j < n" "m < n" and inv: "sigma_inv z n m j (sigma, d, prd)"
    and zj: "zf j = Some (gf_rep (z j))"
  shows "\<exists>st. (if m \<noteq> j then do {
            z_j \<leftarrow> zf j;
            r \<leftarrow> galois_poly_shift_add_scale g sigma d z_j;
            p \<leftarrow> galois_mul g prd (galois_add (gf_rep (z m)) z_j);
            Some (fst r, d + 1, p)
          } else Some (sigma, d, prd)) = Some st \<and> sigma_inv z n m (Suc j) st"
proof (cases "m = j")
  case True
  then show ?thesis using inv by (auto simp: sigma_inv_def lessThan_Suc_minus)
next
  case False
  obtain q where q: "sigma = map gf_rep q" "length q = n" "d = card ({..<j} - {m})"
    "\<forall>x. poly_eval q d x = (\<Prod>k \<in> {..<j} - {m}. x + z k)"
    "prd = gf_rep (z m * (\<Prod>k \<in> {..<j} - {m}. z m + z k))"
    using inv by (auto simp: sigma_inv_def)
  have "d = (if m < j then j - 1 else j)"
    by (simp add: q(3) card_Diff_singleton_if)
  then have "Suc d < length q" using assms(2,3) q(2) False by auto
  then obtain r where r: "galois_poly_shift_add_scale g sigma d (gf_rep (z j)) = Some (map gf_rep r, Suc d)"
    "length r = n" "\<forall>x. poly_eval r (Suc d) x = (x + z j) * poly_eval q d x"
    using shift_add_scale_spec [OF g, of d q "[]" "z j"] eval_shift_add_scale q(1,2)
    unfolding gf_array_Nil by metis
  have "sigma_inv z n m (Suc j) (map gf_rep r, Suc d,
      gf_rep (z m * (\<Prod>k \<in> {..<j} - {m}. z m + z k) * (z m + z j)))"
    using q r False by (auto simp: sigma_inv_def lessThan_Suc_minus mult_ac)
  then show ?thesis
    using r(1) False by (simp add: zj q(5) gf_mul [OF g])
qed

lemma sum_loop:
  assumes g: "galois256_ok g" and len: "off + n \<le> length ss" "length q = n"
  shows "for_up 0 n
       (\<lambda>j acc. do {
          s \<leftarrow> rd (map gf_rep ss) (off + (n - 1 - j));
          c \<leftarrow> rd (map gf_rep q) (n - 1 - j);
          m \<leftarrow> galois_mul g s c;
          Some (galois_add acc m)
        }) 0 = Some (gf_rep (\<Sum>i<n. ss ! (off + i) * q ! i))"
proof -
  have "\<exists>a. for_up 0 n
       (\<lambda>j acc. do {
          s \<leftarrow> rd (map gf_rep ss) (off + (n - 1 - j));
          c \<leftarrow> rd (map gf_rep q) (n - 1 - j);
          m \<leftarrow> galois_mul g s c;
          Some (galois_add acc m)
        }) 0 = Some a \<and> a = gf_rep (\<Sum>k<n. ss ! (off + (n - 1 - k)) * q ! (n - 1 - k))"
    by (rule for_up_rule) (use len in \<open>auto simp: gf_map_access gf_mul [OF g] add.commute\<close>)
  moreover have "(\<Sum>k<n. ss ! (off + (n - 1 - k)) * q ! (n - 1 - k)) = (\<Sum>i<n. ss ! (off + i) * q ! i)"
    by (rule sum.reindex_bij_witness [of _ "\<lambda>i. n - 1 - i" "\<lambda>k. n - 1 - k"]) auto
  ultimately show ?thesis by simp
qed

lemma gf_alpha_nonzero [simp]: "gf_alpha \<noteq> 0"
  using gf_alpha_255 by (metis power_0_left zero_neq_numeral zero_neq_one)

text \<open>Distinct degrees below the order of \<open>\<alpha>\<close> give distinct points.\<close>

lemma points_distinct:
  fixes eds :: "u32 list"
  assumes "distinct (take n eds)" "n \<le> length eds" "\<forall>j < n. unat (eds ! j) < 255" "i < n" "j < n" "i \<noteq> j"
  shows "gf_alpha ^ unat (eds ! i) \<noteq> gf_alpha ^ unat (eds ! j)"
proof -
  have "eds ! i \<noteq> eds ! j"
    using assms nth_eq_iff_index_eq [of "take n eds" i j] by simp
  then have "unat (eds ! i) \<noteq> unat (eds ! j)" by (simp add: word_unat_eq_iff)
  then show ?thesis using assms(3-5) gf_alpha_pow_eq_iff by blast
qed

lemma erasure_spec:
  assumes ok: "rscode_ok rc T p" and n: "m < n" "n \<le> length eds" "off + n \<le> length ss"
    and eds: "\<forall>j < n. unat (eds ! j) < 255" "distinct (take n eds)"
    and ss: "\<forall>i < n. ss ! (off + i) = (\<Sum>j<n. v j * gf_alpha ^ (unat (eds ! j) * Suc i))"
  shows "rscode_decode_erasure rc (map gf_rep ss) off eds n m = Some (gf_rep (v m))"
proof -
  define g where "g = rc_galois rc"
  have g: "galois256_ok g" using ok by (simp add: rscode_ok_def g_def)
  define z where "z = (\<lambda>j. gf_alpha ^ unat (eds ! j))"
  define zf where "zf = (\<lambda>i. do { d \<leftarrow> rd eds i; galois_element g d })"
  have zf: "zf j = Some (gf_rep (z j))" if "j < n" for j
    using that n eds by (simp add: zf_def z_def access_simps gf_element [OF g])
  have sigma0: "\<exists>s. for_up 1 n (\<lambda>j s. wr s j 0) (replicate n 0) = Some s \<and> s = replicate n (0 :: u32)"
    by (rule for_up_rule) (use n in \<open>auto simp: access_simps intro!: nth_equalityI simp: nth_list_update\<close>)
  have sigma1: "wr (replicate n 0) 0 1 = Some (map gf_rep ((replicate n 0)[0 := 1]))"
    using n by (simp add: wr_def map_update)
  have "\<exists>st. for_up 0 n
       (\<lambda>j (sigma, d, prod).
          if m \<noteq> j then do {
            z_j \<leftarrow> zf j;
            r \<leftarrow> galois_poly_shift_add_scale g sigma d z_j;
            p \<leftarrow> galois_mul g prod (galois_add (gf_rep (z m)) z_j);
            Some (fst r, d + 1, p)
          } else Some (sigma, d, prod)) (map gf_rep ((replicate n 0)[0 := 1]), 0, gf_rep (z m))
       = Some st \<and> sigma_inv z n m n st"
  proof (rule for_up_rule [where P = "sigma_inv z n m"])
    show "sigma_inv z n m 0 (map gf_rep ((replicate n 0)[0 := 1]), 0, gf_rep (z m))"
      unfolding sigma_inv_def using n
      by (auto simp: poly_eval_def intro!: exI [of _ "(replicate n 0)[0 := 1]"])
  next
    fix j st assume j: "j < n" "sigma_inv z n m j st"
    show "\<exists>s'. (case st of (sigma, d, prd) \<Rightarrow>
          if m \<noteq> j then do {
            z_j \<leftarrow> zf j;
            r \<leftarrow> galois_poly_shift_add_scale g sigma d z_j;
            p \<leftarrow> galois_mul g prd (galois_add (gf_rep (z m)) z_j);
            Some (fst r, d + 1, p)
          } else Some (sigma, d, prd)) = Some s' \<and> sigma_inv z n m (Suc j) s'"
    proof (cases st)
      case (fields sigma d prd)
      show ?thesis
        unfolding fields prod.case by (rule sigma_step [where zf = zf, OF g j(1) n(1)]) (use j fields zf in auto)
    qed
  qed simp
  then obtain q d where loop: "for_up 0 n
       (\<lambda>j (sigma, d, prod).
          if m \<noteq> j then do {
            z_j \<leftarrow> zf j;
            r \<leftarrow> galois_poly_shift_add_scale g sigma d z_j;
            p \<leftarrow> galois_mul g prod (galois_add (gf_rep (z m)) z_j);
            Some (fst r, d + 1, p)
          } else Some (sigma, d, prod)) (map gf_rep ((replicate n 0)[0 := 1]), 0, gf_rep (z m))
       = Some (map gf_rep q, d, gf_rep (z m * (\<Prod>k \<in> {..<n} - {m}. z m + z k)))"
    and q: "length q = n" "\<forall>x. poly_eval q (n - 1) x = (\<Prod>k \<in> {..<n} - {m}. x + z k)"
    using n(1) by (auto simp: sigma_inv_def)
  define D where "D = z m * (\<Prod>k \<in> {..<n} - {m}. z m + z k)"
  have "D \<noteq> 0"
    using points_distinct [OF eds(2) n(2) eds(1) n(1)] by (auto simp: D_def z_def gf_add_eq_0_iff)
  moreover have "(\<Sum>i<n. ss ! (off + i) * q ! i) = v m * D"
    unfolding D_def by (rule moments_isolate) (use n ss q in \<open>auto simp: z_def power_add power_mult\<close>)
  ultimately have "galois_div g (gf_rep (\<Sum>i<n. ss ! (off + i) * q ! i)) (gf_rep D) = Some (gf_rep (v m))"
    by (simp add: gf_div [OF g])
  moreover have zf_fold: "do { d \<leftarrow> rd eds i; galois_element g d } = zf i" for i
    by (simp add: zf_def)
  ultimately show ?thesis
    unfolding rscode_decode_erasure_def Let_def g_def [symmetric] zf_fold
    using sigma0 sigma1 loop zf [OF n(1)] sum_loop [OF g n(3) q(1)] gf_element [OF g, of 0]
    by (simp add: D_def)
qed

section \<open>Whole words\<close>

text \<open>
  Encoding a message symbol by symbol, and accumulating the syndromes of a received word whose
  first symbol has the highest degree.
\<close>

fun rscode_encode_all :: "rscode_t \<Rightarrow> u32 list \<Rightarrow> u32 list \<Rightarrow> u32 list option" where
  "rscode_encode_all rc checks [] = Some checks"
| "rscode_encode_all rc checks (x # xs) = do {
     checks \<leftarrow> rscode_encode rc x checks 0;
     rscode_encode_all rc checks xs
   }"

fun rscode_syndromes_all :: "rscode_t \<Rightarrow> u32 list \<Rightarrow> u32 list \<Rightarrow> u32 list option" where
  "rscode_syndromes_all rc syndromes [] = Some syndromes"
| "rscode_syndromes_all rc syndromes (x # xs) = do {
     syndromes \<leftarrow> rscode_decode_syndromes rc x (of_nat (length xs)) syndromes 0;
     rscode_syndromes_all rc syndromes xs
   }"

definition word_eval :: "gf256 list \<Rightarrow> gf256 \<Rightarrow> gf256" where
  "word_eval w z = (\<Sum>j<length w. w ! j * z ^ (length w - 1 - j))"

lemma word_eval_Nil [simp]: "word_eval [] z = 0"
  by (simp add: word_eval_def)

lemma word_eval_Cons [simp]: "word_eval (x # w) z = x * z ^ length w + word_eval w z"
  unfolding word_eval_def length_Cons sum.lessThan_Suc_shift by simp

lemma word_eval_append: "word_eval (v @ w) z = word_eval v z * z ^ length w + word_eval w z"
  by (induction v) (simp_all add: algebra_simps power_add)

lemma prepare_spec:
  assumes "rscode_ok rc T p" "length buf = T"
  shows "rscode_prepare rc buf = Some (map gf_rep (replicate T 0))"
proof -
  have T: "unat (rscode_checks_num rc) = T" using assms(1) by (simp add: rscode_ok_def)
  have "\<exists>b. for_up 0 T (\<lambda>i b. wr b i 0) buf = Some b \<and> (length b = T \<and> (\<forall>i < T. b ! i = 0))"
    by (rule for_up_rule [where P = "\<lambda>n b. length b = T \<and> (\<forall>i < n. b ! i = 0)"])
      (use assms in \<open>auto simp: access_simps nth_list_update\<close>)
  then show ?thesis
    by (auto simp: rscode_prepare_def T intro!: nth_equalityI)
qed

lemma encode_all_spec:
  assumes ok: "rscode_ok rc T p" and T: "0 < T"
  shows "length cs = T \<Longrightarrow> \<exists>cs'. rscode_encode_all rc (map gf_rep cs) (map gf_rep xs) = Some (map gf_rep cs') \<and>
    length cs' = T \<and> (\<forall>i \<in> {1..T}. word_eval cs' (gf_alpha ^ i) =
      word_eval cs (gf_alpha ^ i) * (gf_alpha ^ i) ^ length xs + word_eval xs (gf_alpha ^ i) * (gf_alpha ^ i) ^ T)"
proof (induction xs arbitrary: cs)
  case Nil
  then show ?case by auto
next
  case (Cons x xs)
  obtain c1 where c1: "rscode_encode rc (gf_rep x) (map gf_rep cs) 0 = Some (map gf_rep c1)" "length c1 = T"
    "\<forall>j < T. c1 ! j = lfsr T p x (\<lambda>j. cs ! j) j"
    using rscode_encode_spec [OF ok T, of 0 cs x] Cons.prems by (auto simp: agree_off_length)
  have "p ! T = 1" using ok by (simp add: rscode_ok_def)
  then have step: "word_eval c1 (gf_alpha ^ i) = gf_alpha ^ i * word_eval cs (gf_alpha ^ i) + x * (gf_alpha ^ i) ^ T"
    if "i \<in> {1..T}" for i
    using lfsr_eval [OF _ T gen_root [OF ok that], of x "\<lambda>j. cs ! j"] c1 Cons.prems
      reg_eval_cong [of T "\<lambda>j. c1 ! j" "lfsr T p x (\<lambda>j. cs ! j)"]
    by (simp add: word_eval_def reg_eval_def)
  obtain cs' where "rscode_encode_all rc (map gf_rep c1) (map gf_rep xs) = Some (map gf_rep cs')" "length cs' = T"
    "\<forall>i \<in> {1..T}. word_eval cs' (gf_alpha ^ i) =
      word_eval c1 (gf_alpha ^ i) * (gf_alpha ^ i) ^ length xs + word_eval xs (gf_alpha ^ i) * (gf_alpha ^ i) ^ T"
    using Cons.IH [OF c1(2)] by blast
  then show ?case using c1(1) step by (auto simp: algebra_simps)
qed

lemma syndromes_all_spec:
  assumes ok: "rscode_ok rc T p"
  shows "length ss = T \<Longrightarrow> length w \<le> 255 \<Longrightarrow>
    \<exists>ss'. rscode_syndromes_all rc (map gf_rep ss) (map gf_rep w) = Some (map gf_rep ss') \<and> length ss' = T \<and>
      (\<forall>i < T. ss' ! i = ss ! i + word_eval w (gf_alpha ^ Suc i))"
proof (induction w arbitrary: ss)
  case (Cons x w)
  have d: "unat (of_nat (length w) :: u32) = length w"
    using Cons.prems by (simp add: unat_of_nat take_bit_nat_eq_self)
  then obtain s1 where s1: "rscode_decode_syndromes rc (gf_rep x) (of_nat (length w)) (map gf_rep ss) 0 = Some (map gf_rep s1)"
    "length s1 = T" "\<forall>j < T. s1 ! j = ss ! j + x * (gf_alpha ^ Suc j) ^ length w"
    using syndromes_spec [OF ok, of 0 ss "of_nat (length w)" x] Cons.prems
    by (auto simp: agree_off_length mult.commute [of "length w"] simp flip: power_mult simp del: mult_Suc mult_Suc_right power_Suc)
  moreover obtain ss' where "rscode_syndromes_all rc (map gf_rep s1) (map gf_rep w) = Some (map gf_rep ss')"
    "length ss' = T" "\<forall>i < T. ss' ! i = s1 ! i + word_eval w (gf_alpha ^ Suc i)"
    using Cons.IH [OF s1(2)] Cons.prems(2) by auto
  ultimately show ?case by (auto simp: add.assoc simp del: power_Suc)
qed auto

lemma check_syndromes_spec:
  assumes "rscode_ok rc T p" "length ss = T"
  shows "rscode_check_syndromes rc (map gf_rep ss) 0 = Some (\<forall>i < T. ss ! i = 0)"
proof -
  have T: "unat (rscode_checks_num rc) = T" using assms(1) by (simp add: rscode_ok_def)
  have "\<exists>ok. for_up 0 T (\<lambda>i ok. if \<not> ok then Some False
               else do { s \<leftarrow> rd (map gf_rep ss) (0 + i); Some (s = 0) }) True = Some ok \<and>
      ok = (\<forall>i < T. ss ! i = 0)"
    by (rule for_up_rule) (use assms in \<open>auto simp: access_simps less_Suc_eq\<close>)
  then show ?thesis by (simp add: rscode_check_syndromes_def T)
qed

lemma gf_list:
  assumes "\<forall>x \<in> set xs. unat x < 256"
  obtains ys where "xs = map gf_rep ys"
proof -
  have "xs = map gf_rep (map gf_abs xs)"
    using assms by (intro nth_equalityI) (auto simp: gf_rep_abs galois_elem_def)
  then show ?thesis using that by blast
qed

lemma map_gf_rep_inject [simp]: "map gf_rep xs = map gf_rep ys \<longleftrightarrow> xs = ys"
  by (rule inj_map_eq_map) (auto simp: inj_def gf_rep_inject)

lemma codeword_vanishes:
  assumes ok: "rscode_ok rc T p" and T: "0 < T"
  shows "\<exists>cs. rscode_encode_all rc (map gf_rep (replicate T 0)) (map gf_rep xs) = Some (map gf_rep cs) \<and>
    length cs = T \<and> (\<forall>i \<in> {1..T}. word_eval (xs @ cs) (gf_alpha ^ i) = 0)"
proof -
  have "word_eval (replicate T 0) z = 0" for z by (simp add: word_eval_def)
  then obtain cs where "rscode_encode_all rc (map gf_rep (replicate T 0)) (map gf_rep xs) = Some (map gf_rep cs)"
    "length cs = T" "\<forall>i \<in> {1..T}. word_eval cs (gf_alpha ^ i) = word_eval xs (gf_alpha ^ i) * (gf_alpha ^ i) ^ T"
    using encode_all_spec [OF ok T, of "replicate T 0" xs] by auto
  then show ?thesis by (auto simp: word_eval_append)
qed

lemma word_eval_diff:
  assumes "length v = length w"
  shows "word_eval w z + word_eval v z =
    (\<Sum>j \<in> {j. j < length w \<and> w ! j \<noteq> v ! j}. (w ! j + v ! j) * z ^ (length w - 1 - j))"
proof -
  have "word_eval w z + word_eval v z = (\<Sum>j<length w. (w ! j + v ! j) * z ^ (length w - 1 - j))"
    using assms by (simp add: word_eval_def distrib_right sum.distrib)
  also have "\<dots> = (\<Sum>j \<in> {j. j < length w \<and> w ! j \<noteq> v ! j}. (w ! j + v ! j) * z ^ (length w - 1 - j))"
    by (rule sum.mono_neutral_right) auto
  finally show ?thesis .
qed

text \<open>
  Vanishing moments force vanishing values: the solver is a function, so the zero syndromes have
  one explanation.
\<close>

lemma moments_zero:
  assumes ok: "rscode_ok rc T p" and ds: "distinct ds" "\<forall>d \<in> set ds. d < 255"
    and m: "m < length ds" and zero: "\<forall>i < length ds. (\<Sum>j<length ds. v j * (gf_alpha ^ Suc i) ^ (ds ! j)) = 0"
  shows "v m = 0"
proof -
  define eds where "eds = map (of_nat :: nat \<Rightarrow> u32) ds"
  define n where "n = length ds"
  have unat: "unat (eds ! j) = ds ! j" if "j < n" for j
  proof -
    have "ds ! j < 255" using ds(2) that by (simp add: n_def)
    then show ?thesis using that by (simp add: eds_def n_def unat_of_nat take_bit_nat_eq_self)
  qed
  have "distinct (take n eds)"
    using ds(1) unat by (auto simp: distinct_conv_nth n_def eds_def) metis
  moreover have "\<forall>j < n. unat (eds ! j) < 255" using unat ds(2) by (simp add: n_def)
  ultimately have "rscode_decode_erasure rc (map gf_rep (replicate n 0)) 0 eds n m = Some (gf_rep (u m))"
    if "\<forall>i < n. (\<Sum>j<n. u j * (gf_alpha ^ Suc i) ^ (ds ! j)) = 0" for u
    using that unat m
    by (intro erasure_spec [OF ok])
      (auto simp: n_def eds_def mult.commute simp flip: power_mult simp del: power_Suc mult_Suc mult_Suc_right)
  from this [of v] this [of "\<lambda>_. 0"] show ?thesis
    using zero by (simp add: n_def gf_rep_inject)
qed

text \<open>As the field is finite, the moments can take any values.\<close>

lemma finite_gf256: "finite (UNIV :: gf256 set)"
  by (rule finite_imageD [of gf_rep]) (auto simp: inj_on_def gf_rep_inject)

lemma moments_solvable:
  assumes ok: "rscode_ok rc T p" and ds: "distinct ds" "\<forall>d \<in> set ds. d < 255"
  shows "\<exists>v. \<forall>i < length ds. s i = (\<Sum>j<length ds. v j * (gf_alpha ^ Suc i) ^ (ds ! j))"
proof -
  define n where "n = length ds"
  define A where "A = {xs :: gf256 list. length xs = n}"
  define F where "F = (\<lambda>xs :: gf256 list. map (\<lambda>i. \<Sum>j<n. xs ! j * (gf_alpha ^ Suc i) ^ (ds ! j)) [0..<n])"
  have "inj_on F A"
  proof (rule inj_onI)
    fix xs ys assume xy: "xs \<in> A" "ys \<in> A" "F xs = F ys"
    have "xs ! m = ys ! m" if "m < n" for m
    proof -
      have "(\<Sum>j<n. (xs ! j + ys ! j) * (gf_alpha ^ Suc i) ^ (ds ! j)) = 0" if "i < n" for i
      proof -
        have "F xs ! i = F ys ! i" by (simp only: xy(3))
        then have "(\<Sum>j<n. xs ! j * (gf_alpha ^ Suc i) ^ (ds ! j)) + (\<Sum>j<n. ys ! j * (gf_alpha ^ Suc i) ^ (ds ! j)) = 0"
          using that by (simp add: F_def del: power_Suc)
        then show ?thesis by (simp add: distrib_right sum.distrib del: power_Suc)
      qed
      then have "xs ! m + ys ! m = 0" using moments_zero [OF ok ds, of m "\<lambda>j. xs ! j + ys ! j"] that by (simp add: n_def)
      then show ?thesis by (simp add: gf_add_eq_0_iff)
    qed
    then show "xs = ys" using xy(1,2) by (intro nth_equalityI) (simp_all add: A_def)
  qed
  moreover have "finite A" using finite_lists_length_eq [OF finite_gf256, of n] by (simp add: A_def)
  ultimately have "F ` A = A" by (intro endo_inj_surj) (auto simp: A_def F_def)
  moreover have "map s [0..<n] \<in> A" by (simp add: A_def)
  ultimately obtain xs where "map s [0..<n] = F xs" by (metis imageE)
  then have "map s [0..<n] ! i = F xs ! i" for i by simp
  then have "\<forall>i < n. s i = (\<Sum>j<n. xs ! j * (gf_alpha ^ Suc i) ^ (ds ! j))" by (metis (no_types, lifting) F_def add_0 diff_zero length_upt nth_map nth_upt)
  then show ?thesis unfolding n_def by (rule exI [of _ "(!) xs"])
qed

section \<open>Detection and correction\<close>

lemma inj_on_mirror:
  fixes n :: nat
  assumes "\<forall>j \<in> A. j < n"
  shows "inj_on (\<lambda>j. n - 1 - j) A"
proof (rule inj_onI)
  fix x y assume "x \<in> A" "y \<in> A" "n - 1 - x = n - 1 - y"
  moreover from this have "x < n" "y < n" using assms by simp_all
  ultimately show "x = y" by linarith
qed

lemma detects:
  assumes ok: "rscode_ok rc T p" and len: "length v = length w" "length w \<le> 255"
    and v: "\<forall>i \<in> {1..T}. word_eval v (gf_alpha ^ i) = 0"
    and few: "card {j. j < length w \<and> w ! j \<noteq> v ! j} \<le> T" and w: "\<forall>i < T. word_eval w (gf_alpha ^ Suc i) = 0"
  shows "w = v"
proof (rule ccontr)
  assume "w \<noteq> v"
  define E where "E = sorted_list_of_set {j. j < length w \<and> w ! j \<noteq> v ! j}"
  have E: "set E = {j. j < length w \<and> w ! j \<noteq> v ! j}" "distinct E" "length E \<le> T"
    using few by (auto simp: E_def)
  obtain j where "j < length w" "w ! j \<noteq> v ! j"
    using \<open>w \<noteq> v\<close> len(1) unfolding list_eq_iff_nth_eq by auto
  then have "j \<in> set E" using E(1) by simp
  then have m: "0 < length E" by (rule length_pos_if_in_set)
  define ds where "ds = map (\<lambda>j. length w - 1 - j) E"
  have lt: "j \<in> set E \<Longrightarrow> j < length w" for j using E(1) by simp
  then have "inj_on (\<lambda>j. length w - 1 - j) (set E)" by (intro inj_on_mirror) simp
  then have ds: "distinct ds" using E(2) by (simp add: ds_def distinct_map)
  have small: "\<forall>d \<in> set ds. d < 255" using len(2) lt by (fastforce simp: ds_def)
  have "(\<Sum>j<length ds. (w ! (E ! j) + v ! (E ! j)) * (gf_alpha ^ Suc i) ^ (ds ! j)) = 0" if "i < length ds" for i
  proof -
    have i: "i < T" using that E(3) by (simp add: ds_def)
    have "(\<Sum>j<length ds. (w ! (E ! j) + v ! (E ! j)) * (gf_alpha ^ Suc i) ^ (ds ! j)) =
        sum_list (map (\<lambda>j. (w ! j + v ! j) * (gf_alpha ^ Suc i) ^ (length w - 1 - j)) E)"
      by (simp add: sum_list_sum_nth atLeast0LessThan ds_def)
    also have "\<dots> = word_eval w (gf_alpha ^ Suc i) + word_eval v (gf_alpha ^ Suc i)"
      unfolding word_eval_diff [OF len(1)] E(1) [symmetric]
      by (rule sum_list_distinct_conv_sum_set [OF E(2)])
    also have "\<dots> = 0" using v w i by (simp del: power_Suc)
    finally show ?thesis .
  qed
  then have "w ! (E ! 0) + v ! (E ! 0) = 0"
    using m by (intro moments_zero [OF ok ds small, of 0 "\<lambda>j. w ! (E ! j) + v ! (E ! j)"]) (auto simp: ds_def)
  moreover have "E ! 0 \<in> set E" using m by (rule nth_mem)
  ultimately show False using E(1) by (simp add: gf_add_eq_0_iff)
qed

lemma rscode_setup:
  assumes "256 \<le> length es" "256 \<le> length ls" "0 < unat k" "unat k < 255" "255 - unat k < length gp"
    and "length b = 255 - unat k"
  obtains g rc p where "galois256_init es ls = Some g" "rscode_init k g gp = Some rc"
    "rscode_ok rc (255 - unat k) p"
    "rscode_prepare rc b = Some (map gf_rep (replicate (255 - unat k) 0))"
proof -
  obtain g where g: "galois256_init es ls = Some g" "galois256_ok g"
    using galois256_init_ok assms(1,2) by blast
  obtain rc p where rc: "rscode_init k g gp = Some rc" "rscode_ok rc (255 - unat k) p"
    using rscode_init_ok [OF g(2) assms(3) _ assms(5)] assms(4) by auto
  show ?thesis using that g(1) rc prepare_spec [OF rc(2) assms(6)] by blast
qed

text \<open>
  C11. Error detection. For every message over GF(256) of at most \<open>k\<close> symbols, encoding succeeds and
  yields \<open>T = 255 - k\<close> check symbols; a received word that differs from the codeword in at most
  \<open>T\<close> positions passes \<open>rscode_check_syndromes\<close> exactly when it is the codeword.
\<close>

theorem rscode_detects_errors:
  assumes arrays: "256 \<le> length es" "256 \<le> length ls" "255 - unat k < length gp" "length b = 255 - unat k"
    and k: "0 < unat k" "unat k < 255"
    and msg: "\<forall>x \<in> set msg. unat x < 256" "length msg \<le> unat k"
  shows "\<exists>g rc b0 cs. galois256_init es ls = Some g \<and> rscode_init k g gp = Some rc \<and>
    rscode_prepare rc b = Some b0 \<and> rscode_encode_all rc b0 msg = Some cs \<and> length cs = 255 - unat k \<and>
    (\<forall>w. length w = length (msg @ cs) \<and> (\<forall>x \<in> set w. unat x < 256) \<and>
      card {j. j < length w \<and> w ! j \<noteq> (msg @ cs) ! j} \<le> 255 - unat k \<longrightarrow>
      (\<exists>ss. rscode_syndromes_all rc b0 w = Some ss \<and> rscode_check_syndromes rc ss 0 = Some (w = msg @ cs)))"
proof -
  define T where "T = 255 - unat k"
  have T: "0 < T" using k by (simp add: T_def)
  obtain g rc p where init: "galois256_init es ls = Some g" "rscode_init k g gp = Some rc" and ok: "rscode_ok rc T p"
    and prep: "rscode_prepare rc b = Some (map gf_rep (replicate T 0))"
    unfolding T_def by (rule rscode_setup [OF arrays(1,2) k arrays(3,4)])
  obtain xs where xs: "msg = map gf_rep xs" using gf_list [OF msg(1)] .
  obtain cs where cs: "rscode_encode_all rc (map gf_rep (replicate T 0)) msg = Some (map gf_rep cs)" "length cs = T"
    "\<forall>i \<in> {1..T}. word_eval (xs @ cs) (gf_alpha ^ i) = 0"
    using codeword_vanishes [OF ok T, of xs] xs by auto
  have "\<exists>ss. rscode_syndromes_all rc (map gf_rep (replicate T 0)) w = Some ss \<and>
      rscode_check_syndromes rc ss 0 = Some (w = msg @ map gf_rep cs)"
    if w: "length w = length (msg @ map gf_rep cs)" "\<forall>x \<in> set w. unat x < 256"
      and few: "card {j. j < length w \<and> w ! j \<noteq> (msg @ map gf_rep cs) ! j} \<le> T" for w
  proof -
    obtain ws where ws: "w = map gf_rep ws" using gf_list [OF w(2)] .
    have len: "length (xs @ cs) = length ws" "length ws \<le> 255"
      using w(1) ws xs cs(2) msg(2) T by (auto simp: T_def)
    have "{j. j < length w \<and> w ! j \<noteq> (msg @ map gf_rep cs) ! j} = {j. j < length ws \<and> ws ! j \<noteq> (xs @ cs) ! j}"
      using len(1) by (auto simp: ws xs gf_rep_inject simp flip: map_append)
    then have few': "card {j. j < length ws \<and> ws ! j \<noteq> (xs @ cs) ! j} \<le> T" using few by simp
    obtain ss where ss: "rscode_syndromes_all rc (map gf_rep (replicate T 0)) w = Some (map gf_rep ss)" "length ss = T"
      "\<forall>i < T. ss ! i = word_eval ws (gf_alpha ^ Suc i)"
      using syndromes_all_spec [OF ok, of "replicate T 0" ws] len(2) ws by auto
    have "(\<forall>i < T. ss ! i = 0) \<longleftrightarrow> ws = xs @ cs"
      using detects [OF ok len cs(3) few'] ss(3) cs(3) by (auto simp del: power_Suc)
    then show ?thesis
      using ss(1) check_syndromes_spec [OF ok ss(2)] by (auto simp: ws xs simp flip: map_append)
  qed
  then have "\<forall>w. length w = length (msg @ map gf_rep cs) \<and> (\<forall>x \<in> set w. unat x < 256) \<and>
      card {j. j < length w \<and> w ! j \<noteq> (msg @ map gf_rep cs) ! j} \<le> T \<longrightarrow>
      (\<exists>ss. rscode_syndromes_all rc (map gf_rep (replicate T 0)) w = Some ss \<and>
        rscode_check_syndromes rc ss 0 = Some (w = msg @ map gf_rep cs))"
    by blast
  moreover have "length (map gf_rep cs) = T" using cs(2) by simp
  ultimately show ?thesis using init prep cs(1) unfolding T_def by blast
qed

theorem rscode_detects_errors_witness:
  "\<exists>g rc b0 cs. galois256_init (replicate 256 0) (replicate 256 0) = Some g \<and>
    rscode_init 253 g [9, 9, 9] = Some rc \<and> rscode_prepare rc [1, 2] = Some b0 \<and>
    rscode_encode_all rc b0 [17, 255, 0] = Some cs \<and> length cs = 2 \<and>
    (\<forall>w. length w = length ([17, 255, 0] @ cs) \<and> (\<forall>x \<in> set w. unat x < 256) \<and>
      card {j. j < length w \<and> w ! j \<noteq> ([17, 255, 0] @ cs) ! j} \<le> 2 \<longrightarrow>
      (\<exists>ss. rscode_syndromes_all rc b0 w = Some ss \<and> rscode_check_syndromes rc ss 0 = Some (w = [17, 255, 0] @ cs)))"
  using rscode_detects_errors [of "replicate 256 0" "replicate 256 0" 253 "[9, 9, 9]" "[1, 2]" "[17, 255, 0]"]
  by simp

lemma erasures_loop:
  assumes ok: "rscode_ok rc T p" and n: "n \<le> length eds" "n \<le> length ss" "length vs = n"
    and eds: "\<forall>j < n. unat (eds ! j) < 255" "distinct (take n eds)"
    and ss: "\<forall>i < n. ss ! i = (\<Sum>j<n. v j * gf_alpha ^ (unat (eds ! j) * Suc i))"
  shows "rscode_decode_erasures rc (map gf_rep ss) 0 eds n vs = Some (map (gf_rep \<circ> v) [0..<n])"
proof -
  have "\<exists>us. for_up 0 n (\<lambda>i vs. do {
          v \<leftarrow> rscode_decode_erasure rc (map gf_rep ss) 0 eds n i;
          wr vs i v }) vs = Some us \<and> (length us = n \<and> (\<forall>i < n. us ! i = gf_rep (v i)))"
    by (rule for_up_rule [where P = "\<lambda>m us. length us = n \<and> (\<forall>i < m. us ! i = gf_rep (v i))"])
      (use n erasure_spec [OF ok _ n(1) _ eds, of _ 0 ss v] ss in \<open>auto simp: access_simps nth_list_update\<close>)
  then show ?thesis
    by (auto simp: rscode_decode_erasures_def intro!: nth_equalityI)
qed

text \<open>Reading a word with the symbols at the positions \<open>E\<close> erased.\<close>

lemma erased_syndromes:
  assumes len: "length w = length c" and E: "distinct E" "\<forall>j \<in> set E. j < length c"
    and w: "\<forall>j < length c. w ! j = (if j \<in> set E then 0 else c ! j)" and c: "word_eval c z = 0"
  shows "word_eval w z = (\<Sum>j<length E. c ! (E ! j) * z ^ (length c - 1 - E ! j))"
proof -
  have "word_eval w z = word_eval w z + word_eval c z" using c by simp
  also have "\<dots> = (\<Sum>j \<in> {j. j < length w \<and> w ! j \<noteq> c ! j}. (w ! j + c ! j) * z ^ (length w - 1 - j))"
    by (rule word_eval_diff) (simp add: len)
  also have "\<dots> = (\<Sum>j \<in> set E. c ! j * z ^ (length c - 1 - j))"
    by (rule sum.mono_neutral_cong_left) (use len E w in \<open>auto split: if_splits\<close>)
  also have "\<dots> = sum_list (map (\<lambda>j. c ! j * z ^ (length c - 1 - j)) E)"
    by (simp add: sum_list_distinct_conv_sum_set E(1))
  also have "\<dots> = (\<Sum>j<length E. c ! (E ! j) * z ^ (length c - 1 - E ! j))"
    by (simp add: sum_list_sum_nth atLeast0LessThan)
  finally show ?thesis .
qed

lemma corrects:
  assumes ok: "rscode_ok rc T p" and c: "\<forall>i \<in> {1..T}. word_eval c (gf_alpha ^ i) = 0" "length c \<le> 255"
    and E: "distinct E" "\<forall>j \<in> set E. j < length c" "length E \<le> T" and len: "length w = length c" "length vs = length E"
    and w: "\<forall>j < length c. w ! j = (if j \<in> set E then 0 else c ! j)"
  shows "\<exists>ss. rscode_syndromes_all rc (map gf_rep (replicate T 0)) (map gf_rep w) = Some ss \<and>
    rscode_decode_erasures rc ss 0 (map (\<lambda>j. of_nat (length c - 1 - j)) E) (length E) vs = Some (map (\<lambda>j. gf_rep (c ! j)) E)"
proof -
  define eds where "eds = map (\<lambda>j. of_nat (length c - 1 - j) :: u32) E"
  obtain ss where ss: "rscode_syndromes_all rc (map gf_rep (replicate T 0)) (map gf_rep w) = Some (map gf_rep ss)"
    "length ss = T" "\<forall>i < T. ss ! i = word_eval w (gf_alpha ^ Suc i)"
    using syndromes_all_spec [OF ok, of "replicate T 0" w] c(2) len(1) by auto
  have deg: "length c - 1 - E ! j < 255" if "j < length E" for j
    using E(2) nth_mem [OF that] c(2) by fastforce
  have unat: "unat (eds ! j) = length c - 1 - E ! j" if "j < length E" for j
    using deg [OF that] that by (simp add: eds_def unat_of_nat take_bit_nat_eq_self)
  have "inj_on (\<lambda>j. length c - 1 - j) (set E)" using E(2) by (rule inj_on_mirror)
  then have "distinct (map (\<lambda>j. length c - 1 - j) E)" using E(1) by (simp add: distinct_map)
  then have dist: "distinct eds"
    using unat by (auto simp: distinct_conv_nth eds_def) (metis unat)
  have "rscode_decode_erasures rc (map gf_rep ss) 0 eds (length E) vs = Some (map (gf_rep \<circ> (\<lambda>j. c ! (E ! j))) [0..<length E])"
  proof (rule erasures_loop [OF ok])
    show "\<forall>i<length E. ss ! i = (\<Sum>j<length E. c ! (E ! j) * gf_alpha ^ (unat (eds ! j) * Suc i))"
    proof (intro allI impI)
      fix i assume i: "i < length E"
      then have "ss ! i = (\<Sum>j<length E. c ! (E ! j) * (gf_alpha ^ Suc i) ^ (length c - 1 - E ! j))"
        using erased_syndromes [OF len(1) E(1,2) w, of "gf_alpha ^ Suc i"] c(1) ss(3) E(3) by (simp del: power_Suc)
      also have "\<dots> = (\<Sum>j<length E. c ! (E ! j) * gf_alpha ^ (unat (eds ! j) * Suc i))"
        by (rule sum.cong) (simp_all only: lessThan_iff unat power_mult [symmetric] mult.commute [of "Suc i"])
      finally show "ss ! i = (\<Sum>j<length E. c ! (E ! j) * gf_alpha ^ (unat (eds ! j) * Suc i))" .
    qed
  qed (use E(3) ss(2) len(2) unat deg dist in \<open>auto simp: eds_def\<close>)
  moreover have "map (gf_rep \<circ> (\<lambda>j. c ! (E ! j))) [0..<length E] = map (\<lambda>j. gf_rep (c ! j)) E"
    by (rule nth_equalityI) auto
  ultimately show ?thesis using ss(1) unfolding eds_def by auto
qed

text \<open>
  C10. Erasure correction. Of a codeword of at most 255 symbols, any \<open>T\<close> symbols (or fewer) may be
  erased: reading the rest with zeros in their places, \<open>rscode_decode_erasures\<close> returns exactly the
  erased symbols, in the order in which the degrees are given.
\<close>

theorem rscode_corrects_erasures:
  assumes arrays: "256 \<le> length es" "256 \<le> length ls" "255 - unat k < length gp" "length b = 255 - unat k"
    and k: "0 < unat k" "unat k < 255"
    and msg: "\<forall>x \<in> set msg. unat x < 256" "length msg \<le> unat k"
  shows "\<exists>g rc b0 cs. galois256_init es ls = Some g \<and> rscode_init k g gp = Some rc \<and>
    rscode_prepare rc b = Some b0 \<and> rscode_encode_all rc b0 msg = Some cs \<and>
    (\<forall>E w vs. distinct E \<and> (\<forall>j \<in> set E. j < length (msg @ cs)) \<and> length E \<le> 255 - unat k \<and>
      length vs = length E \<and> length w = length (msg @ cs) \<and>
      (\<forall>j < length (msg @ cs). w ! j = (if j \<in> set E then 0 else (msg @ cs) ! j)) \<longrightarrow>
      (\<exists>ss. rscode_syndromes_all rc b0 w = Some ss \<and>
        rscode_decode_erasures rc ss 0 (map (\<lambda>j. of_nat (length (msg @ cs) - 1 - j)) E) (length E) vs
          = Some (map (\<lambda>j. (msg @ cs) ! j) E)))"
proof -
  define T where "T = 255 - unat k"
  have T: "0 < T" using k by (simp add: T_def)
  obtain g rc p where init: "galois256_init es ls = Some g" "rscode_init k g gp = Some rc" and ok: "rscode_ok rc T p"
    and prep: "rscode_prepare rc b = Some (map gf_rep (replicate T 0))"
    unfolding T_def by (rule rscode_setup [OF arrays(1,2) k arrays(3,4)])
  obtain xs where xs: "msg = map gf_rep xs" using gf_list [OF msg(1)] .
  obtain cs where cs: "rscode_encode_all rc (map gf_rep (replicate T 0)) msg = Some (map gf_rep cs)" "length cs = T"
    "\<forall>i \<in> {1..T}. word_eval (xs @ cs) (gf_alpha ^ i) = 0"
    using codeword_vanishes [OF ok T, of xs] xs by auto
  define c where "c = xs @ cs"
  have word: "msg @ map gf_rep cs = map gf_rep c" "length c \<le> 255"
    using xs cs(2) msg(2) k by (auto simp: c_def T_def)
  have "\<exists>ss. rscode_syndromes_all rc (map gf_rep (replicate T 0)) w = Some ss \<and>
        rscode_decode_erasures rc ss 0 (map (\<lambda>j. of_nat (length c - 1 - j)) E) (length E) vs
          = Some (map (\<lambda>j. map gf_rep c ! j) E)"
    if E: "distinct E" "\<forall>j \<in> set E. j < length c" "length E \<le> T" "length vs = length E" and w: "length w = length c"
      "\<forall>j < length c. w ! j = (if j \<in> set E then 0 else map gf_rep c ! j)" for E w vs
  proof -
    define ws where "ws = map (\<lambda>j. if j \<in> set E then 0 else c ! j) [0..<length c]"
    have "w = map gf_rep ws" using w by (intro nth_equalityI) (auto simp: ws_def)
    then show ?thesis
      using corrects [OF ok cs(3) [folded c_def] word(2) E(1-3), of ws vs] E(2,4)
      by (auto simp: ws_def cong: map_cong)
  qed
  then have "\<forall>E w vs. distinct E \<and> (\<forall>j \<in> set E. j < length (msg @ map gf_rep cs)) \<and> length E \<le> T \<and>
      length vs = length E \<and> length w = length (msg @ map gf_rep cs) \<and>
      (\<forall>j < length (msg @ map gf_rep cs). w ! j = (if j \<in> set E then 0 else (msg @ map gf_rep cs) ! j)) \<longrightarrow>
      (\<exists>ss. rscode_syndromes_all rc (map gf_rep (replicate T 0)) w = Some ss \<and>
        rscode_decode_erasures rc ss 0 (map (\<lambda>j. of_nat (length (msg @ map gf_rep cs) - 1 - j)) E) (length E) vs
          = Some (map (\<lambda>j. (msg @ map gf_rep cs) ! j) E))"
    unfolding word(1) length_map by blast
  then show ?thesis using init prep cs(1) unfolding T_def by blast
qed

theorem rscode_corrects_erasures_witness:
  "\<exists>g rc b0 cs. galois256_init (replicate 256 0) (replicate 256 0) = Some g \<and>
    rscode_init 253 g [9, 9, 9] = Some rc \<and> rscode_prepare rc [1, 2] = Some b0 \<and>
    rscode_encode_all rc b0 [17, 255, 0] = Some cs \<and>
    (\<forall>E w vs. distinct E \<and> (\<forall>j \<in> set E. j < length ([17, 255, 0] @ cs)) \<and> length E \<le> 2 \<and>
      length vs = length E \<and> length w = length ([17, 255, 0] @ cs) \<and>
      (\<forall>j < length ([17, 255, 0] @ cs). w ! j = (if j \<in> set E then 0 else ([17, 255, 0] @ cs) ! j)) \<longrightarrow>
      (\<exists>ss. rscode_syndromes_all rc b0 w = Some ss \<and>
        rscode_decode_erasures rc ss 0 (map (\<lambda>j. of_nat (length ([17, 255, 0] @ cs) - 1 - j)) E) (length E) vs
          = Some (map (\<lambda>j. ([17, 255, 0] @ cs) ! j) E)))"
proof -
  have "255 - unat (253 :: u32) = 2" by simp
  then show ?thesis
    using rscode_corrects_erasures [of "replicate 256 0" "replicate 256 0" 253 "[9, 9, 9]" "[1, 2]" "[17, 255, 0]"]
    by simp
qed

text \<open>
  The generator polynomial. For \<open>0 < k \<le> 255\<close>, \<open>rscode_init\<close> leaves in \<open>gen_poly\<close> a monic
  polynomial of degree \<open>T = 255 - k\<close> over GF(256) whose roots are exactly \<open>\<alpha>, \<dots>, \<alpha> ^ T\<close>.
\<close>

theorem rscode_generator_roots:
  assumes "256 \<le> length es" "256 \<le> length ls" "0 < unat k" "unat k \<le> 255" "255 - unat k < length gp"
  shows "\<exists>g rc. galois256_init es ls = Some g \<and> rscode_init k g gp = Some rc \<and>
    (\<forall>i \<le> 255 - unat k. unat (rc_gen_poly rc ! i) < 256) \<and> rc_gen_poly rc ! (255 - unat k) = 1 \<and>
    (\<forall>z. poly_eval (map gf_abs (rc_gen_poly rc)) (255 - unat k) z = 0 \<longleftrightarrow>
      (\<exists>i \<in> {1..255 - unat k}. z = gf_alpha ^ i))"
proof -
  define T where "T = 255 - unat k"
  obtain g where g: "galois256_init es ls = Some g" "galois256_ok g"
    using galois256_init_ok assms(1,2) by blast
  obtain rc p where rc: "rscode_init k g gp = Some rc" "rscode_ok rc T p"
    using rscode_init_ok [OF g(2) assms(3-5)] by (auto simp: T_def)
  then obtain rest where p: "rc_gen_poly rc = gf_array p rest" "length p = Suc T" "p ! T = 1"
    "\<forall>z. poly_eval p T z = (\<Prod>i = 1..T. z + gf_alpha ^ i)"
    by (auto simp: rscode_ok_def)
  have nth: "rc_gen_poly rc ! i = gf_rep (p ! i)" "map gf_abs (rc_gen_poly rc) ! i = p ! i" if "i \<le> T" for i
    using that p(1,2) by (auto simp: gf_array_def nth_append gf_rep_inverse)
  then have "poly_eval (map gf_abs (rc_gen_poly rc)) T z = (\<Prod>i = 1..T. z + gf_alpha ^ i)" for z
    using p(4) by (auto simp: poly_eval_def)
  then have "\<forall>z. poly_eval (map gf_abs (rc_gen_poly rc)) T z = 0 \<longleftrightarrow> (\<exists>i \<in> {1..T}. z = gf_alpha ^ i)"
    by (simp add: gf_add_eq_0_iff)
  moreover have "\<forall>i \<le> T. unat (rc_gen_poly rc ! i) < 256"
    using nth(1) gf_rep_elem by (auto simp: galois_elem_def)
  moreover have "rc_gen_poly rc ! T = 1" using nth(1) p(3) by simp
  ultimately show ?thesis using g(1) rc(1) unfolding T_def by blast
qed

theorem rscode_generator_roots_witness:
  "\<exists>g rc. galois256_init (replicate 256 0) (replicate 256 0) = Some g \<and> rscode_init 253 g [9, 9, 9] = Some rc \<and>
    (\<forall>i \<le> 2. unat (rc_gen_poly rc ! i) < 256) \<and> rc_gen_poly rc ! 2 = 1 \<and>
    (\<forall>z. poly_eval (map gf_abs (rc_gen_poly rc)) 2 z = 0 \<longleftrightarrow> (\<exists>i \<in> {1..2}. z = gf_alpha ^ i))"
  using rscode_generator_roots [of "replicate 256 0" "replicate 256 0" 253 "[9, 9, 9]"] by simp

end
