(* ===== verification/Rs_Block.thy ===== *)
theory Rs_Block
  imports Rscode
begin

text \<open>
  The block coder of \<^verbatim>\<open>src/src/main/rs/rs.c\<close> and \<^verbatim>\<open>rs.h\<close>: it spreads a group of \<open>K\<close> messages
  over \<open>N\<close> packets, one Reed-Solomon codeword per byte column (a column is the byte at one position
  of every packet; the first four columns carry the length of the message).

  \<open>rs_recovers\<close> shows the point of the whole code: any \<open>K\<close> of the \<open>N\<close> packets, in any order,
  give back every missing message. The bitmap of received degrees shifts an \<open>int\<close>, which is
  defined for degrees below 31 only, so the theorems are for \<open>N \<le> 31\<close>.
\<close>

section \<open>The code\<close>

subsection \<open>The bitmap\<close>

type_synonym bitmap256_t = "u64 list"

definition bitmap256_reset :: "bitmap256_t \<Rightarrow> bitmap256_t" where
  "bitmap256_reset bitmap = replicate 4 0"

text \<open>The value of \<open>1 << m\<close> at type \<open>int\<close>, converted to \<open>uint64_t\<close>.\<close>

definition shift_one :: "nat \<Rightarrow> u64 option" where
  "shift_one m = (if m < 31 then Some (push_bit m 1) else None)"

definition bitmap256_set :: "bitmap256_t \<Rightarrow> int \<Rightarrow> bitmap256_t option" where
  "bitmap256_set bitmap key = do {
     ensure (0 \<le> key);
     let n = nat (key div 64);
     let m = nat (key mod 64);
     w \<leftarrow> rd bitmap n;
     b \<leftarrow> shift_one m;
     wr bitmap n (w OR b)
   }"

definition bitmap256_isset :: "bitmap256_t \<Rightarrow> int \<Rightarrow> bool option" where
  "bitmap256_isset bitmap key = do {
     ensure (0 \<le> key);
     let n = nat (key div 64);
     let m = nat (key mod 64);
     w \<leftarrow> rd bitmap n;
     b \<leftarrow> shift_one m;
     Some (w AND b \<noteq> 0)
   }"

subsection \<open>State\<close>

definition RS_HEADER_SIZE :: nat where
  "RS_HEADER_SIZE = 4"

definition RS_MAX_ENCODED_SIZE :: "int \<Rightarrow> int option" where
  "RS_MAX_ENCODED_SIZE max_data_size = cint (max_data_size + int RS_HEADER_SIZE)"

definition RS_GALOIS_ORDER :: nat where
  "RS_GALOIS_ORDER = 256"

definition E_RS_INVALID_SIZE :: int where "E_RS_INVALID_SIZE = -1"
definition E_RS_INVALID_INDEX :: int where "E_RS_INVALID_INDEX = -2"
definition E_RS_INVALID_DEGREE :: int where "E_RS_INVALID_DEGREE = -3"
definition E_RS_INVALID_HEADER :: int where "E_RS_INVALID_HEADER = -4"
definition E_RS_DUPLICATE :: int where "E_RS_DUPLICATE = -5"

record rs_ec_t =
  ec_count :: int
  checks :: "u32 list"

record rs_dc_t =
  dc_count :: int
  mask :: bitmap256_t
  syndromes :: "u32 list"
  erasure_degrees :: "u32 list"
  erasure_num :: u32
  raw_erasure_num :: u32

record rs_t =
  rs_N :: int
  rs_K :: int
  max_data_size :: int
  rscode :: rscode_t

definition T_SIZE :: "rs_t \<Rightarrow> int" where
  "T_SIZE rs = rs_N rs - rs_K rs"

subsection \<open>Initialisation\<close>

text \<open>The tables are arrays inside \<open>rs_t\<close>; \<open>mem\<close> is what the memory held before.\<close>

definition rs_init :: "(nat \<Rightarrow> u32) \<Rightarrow> int \<Rightarrow> int \<Rightarrow> int \<Rightarrow> rs_t option" where
  "rs_init mem N K max_size = do {
     let junk = (\<lambda>n. map mem [0..<n]);
     galois \<leftarrow> galois256_init (junk RS_GALOIS_ORDER) (junk RS_GALOIS_ORDER);
     let k = (of_int (int RS_GALOIS_ORDER - 1 - (N - K)) :: u32);
     code \<leftarrow> rscode_init k galois (junk (RS_GALOIS_ORDER - 1));
     Some \<lparr>rs_N = N, rs_K = K, max_data_size = max_size, rscode = code\<rparr>
   }"

definition rs_reset_ec :: "rs_t \<Rightarrow> rs_ec_t \<Rightarrow> rs_ec_t option" where
  "rs_reset_ec rs ec = do {
     let T = T_SIZE rs;
     max_payload_size \<leftarrow> RS_MAX_ENCODED_SIZE (max_data_size rs);
     n \<leftarrow> cint (max_payload_size * T);
     cs \<leftarrow> zero_array (checks ec) n;
     Some (ec\<lparr>ec_count := 0, checks := cs\<rparr>)
   }"

definition rs_init_ec :: "(nat \<Rightarrow> u32) \<Rightarrow> rs_t \<Rightarrow> rs_ec_t \<Rightarrow> rs_ec_t option" where
  "rs_init_ec mem rs ec = do {
     let T = T_SIZE rs;
     max_payload_size \<leftarrow> RS_MAX_ENCODED_SIZE (max_data_size rs);
     n \<leftarrow> cint (max_payload_size * T);
     cs \<leftarrow> new_array mem n;
     rs_reset_ec rs (ec\<lparr>checks := cs\<rparr>)
   }"

definition rs_reset_dc :: "rs_t \<Rightarrow> rs_dc_t \<Rightarrow> rs_dc_t option" where
  "rs_reset_dc rs dc = do {
     let T = T_SIZE rs;
     max_payload_size \<leftarrow> RS_MAX_ENCODED_SIZE (max_data_size rs);
     n \<leftarrow> cint (max_payload_size * T);
     ss \<leftarrow> zero_array (syndromes dc) n;
     eds \<leftarrow> zero_array (erasure_degrees dc) T;
     Some \<lparr>dc_count = 0, mask = bitmap256_reset (mask dc), syndromes = ss, erasure_degrees = eds,
           erasure_num = 0, raw_erasure_num = 0\<rparr>
   }"

definition rs_init_dc :: "(nat \<Rightarrow> u32) \<Rightarrow> rs_t \<Rightarrow> rs_dc_t \<Rightarrow> rs_dc_t option" where
  "rs_init_dc mem rs dc = do {
     let T = T_SIZE rs;
     max_payload_size \<leftarrow> RS_MAX_ENCODED_SIZE (max_data_size rs);
     n \<leftarrow> cint (max_payload_size * T);
     ss \<leftarrow> new_array mem n;
     eds \<leftarrow> new_array mem T;
     rs_reset_dc rs (dc\<lparr>syndromes := ss, erasure_degrees := eds\<rparr>)
   }"

definition rs_is_ec_complete :: "rs_t \<Rightarrow> rs_ec_t \<Rightarrow> bool option" where
  "rs_is_ec_complete rs ec = do {
     ensure (ec_count ec \<le> rs_K rs);
     Some (ec_count ec = rs_K rs)
   }"

definition rs_is_dc_complete :: "rs_t \<Rightarrow> rs_dc_t \<Rightarrow> bool option" where
  "rs_is_dc_complete rs dc = do {
     ensure (dc_count dc \<le> rs_K rs);
     Some (dc_count dc = rs_K rs)
   }"

subsection \<open>Encoding\<close>

text \<open>
  The loop of \<open>build_redundant\<close> carries the buffer, \<open>valid_size\<close> and \<open>trailing_zero\<close>.
\<close>

definition build_redundant :: "u8 list \<Rightarrow> u32 list \<Rightarrow> nat \<Rightarrow> nat \<Rightarrow> nat \<Rightarrow> (u8 list \<times> nat) option" where
  "build_redundant to frm sz T j = do {
     st \<leftarrow> for_up 0 sz
       (\<lambda>i (to, valid_size, trailing_zero). do {
          v \<leftarrow> rd frm (i * T + j);
          let b = (ucast v :: u8);
          to \<leftarrow> wr to i b;
          Some (if b = 0 then (to, valid_size, trailing_zero + 1)
                else (to, valid_size + (1 + trailing_zero), 0))
        }) (to, 0, 0);
     Some (fst st, fst (snd st))
   }"

text \<open>Byte \<open>i\<close> of the length field, \<open>(uint8_t) (0xff & (size >> (i * 8)))\<close>.\<close>

definition size_byte :: "int \<Rightarrow> nat \<Rightarrow> u8" where
  "size_byte sz i = of_int (255 AND drop_bit (i * 8) sz)"

text \<open>
  An out-parameter is an \<open>option\<close> in the result: \<open>None\<close> when the call returns before it is written.
  A message or buffer is its byte array, with the \<open>int\<close> size the caller passes.
\<close>

definition rs_encode :: "rs_t \<Rightarrow> rs_ec_t \<Rightarrow> u8 list \<Rightarrow> int \<Rightarrow> (int \<times> int option \<times> rs_ec_t) option" where
  "rs_encode rs ec input sz =
     (if sz < 0 \<or> sz > max_data_size rs then Some (E_RS_INVALID_SIZE, None, ec)
      else do {
        let T = T_SIZE rs;
        let degree = rs_N rs - 1 - ec_count ec;
        cs \<leftarrow> for_up 0 RS_HEADER_SIZE
          (\<lambda>i cs. rscode_encode (rscode rs) (ucast (size_byte sz i)) cs (i * nat T)) (checks ec);
        let offset = RS_HEADER_SIZE;
        cs \<leftarrow> for_up 0 (nat sz)
          (\<lambda>i cs. do {
             b \<leftarrow> rd input i;
             rscode_encode (rscode rs) (ucast b) cs ((i + offset) * nat T)
           }) cs;
        let offset = offset + nat sz;
        let padding_size = max_data_size rs - sz;
        cs \<leftarrow> for_up 0 (nat padding_size)
          (\<lambda>i cs. rscode_encode (rscode rs) 0 cs ((i + offset) * nat T)) cs;
        let ec = ec\<lparr>ec_count := ec_count ec + 1, checks := cs\<rparr>;
        complete \<leftarrow> rs_is_ec_complete rs ec;
        Some (if \<not> complete then 0 else T, Some degree, ec)
      })"

text \<open>The results are the return value, the buffer, \<open>*size\<close> and \<open>*degree\<close>.\<close>

definition rs_encode_result ::
    "rs_t \<Rightarrow> rs_ec_t \<Rightarrow> int \<Rightarrow> u8 list \<Rightarrow> int \<Rightarrow> (int \<times> u8 list \<times> int \<times> int option) option" where
  "rs_encode_result rs ec index buffer sz = do {
     let T = T_SIZE rs;
     max_payload_size \<leftarrow> RS_MAX_ENCODED_SIZE (max_data_size rs);
     if index < 0 \<or> index \<ge> T then Some (E_RS_INVALID_INDEX, buffer, sz, None)
     else if sz < max_payload_size then Some (E_RS_INVALID_SIZE, buffer, sz, None)
     else do {
       r \<leftarrow> build_redundant buffer (checks ec) (nat max_payload_size) (nat T) (nat index);
       Some (0, fst r, int (snd r), Some (T - 1 - index))
     }
   }"

subsection \<open>Decoding\<close>

text \<open>
  One of the two loops that collect the erased degrees, \<open>for (i = hi - 1; i >= lo; --i)\<close>. The
  loop variable of \<open>for_down\<close> counts the iterations left.
\<close>

definition collect_erasures ::
    "bitmap256_t \<Rightarrow> int \<Rightarrow> int \<Rightarrow> u32 list \<times> nat \<Rightarrow> (u32 list \<times> nat) option" where
  "collect_erasures bitmap hi lo =
     for_down (nat (hi - lo))
       (\<lambda>left (eds, n). do {
          let i = lo + int left - 1;
          isset \<leftarrow> bitmap256_isset bitmap i;
          if \<not> isset then do { eds \<leftarrow> wr eds n (of_int i); Some (eds, n + 1) }
          else Some (eds, n)
        })"

text \<open>The second half of \<open>rs_decode\<close>: restore the missing packets once the group is complete.\<close>

definition rs_restore :: "rs_t \<Rightarrow> rs_dc_t \<Rightarrow> bool \<Rightarrow> (int \<times> bool option \<times> rs_dc_t) option" where
  "rs_restore rs dc is_raw = do {
     complete \<leftarrow> rs_is_dc_complete rs dc;
     if \<not> complete then Some (0, Some is_raw, dc)
     else do {
       let T = T_SIZE rs;
       r \<leftarrow> collect_erasures (mask dc) (rs_N rs) T (erasure_degrees dc, 0);
       let dc = dc\<lparr>erasure_degrees := fst r, raw_erasure_num := of_nat (snd r)\<rparr>;
       if snd r = 0 then Some (0, Some is_raw, dc\<lparr>erasure_num := 0\<rparr>)
       else do {
         q \<leftarrow> collect_erasures (mask dc) T 0 r;
         let dc = dc\<lparr>erasure_degrees := fst q, erasure_num := of_nat (snd q)\<rparr>;
         Some (sint (raw_erasure_num dc), Some is_raw, dc)
       }
     }
   }"

definition rs_decode ::
    "rs_t \<Rightarrow> rs_dc_t \<Rightarrow> u8 list \<Rightarrow> int \<Rightarrow> int \<Rightarrow> (int \<times> bool option \<times> rs_dc_t) option" where
  "rs_decode rs dc input sz degree =
     (if degree < 0 \<or> degree \<ge> rs_N rs then Some (E_RS_INVALID_DEGREE, None, dc)
      else do {
        let T = T_SIZE rs;
        let is_raw = (degree \<ge> T);
        let allowed_size = (if \<not> is_raw then max_data_size rs + int RS_HEADER_SIZE else max_data_size rs);
        if sz < 0 \<or> sz > allowed_size then Some (E_RS_INVALID_SIZE, None, dc)
        else do {
          dup \<leftarrow> bitmap256_isset (mask dc) degree;
          if dup then Some (E_RS_DUPLICATE, Some is_raw, dc)
          else do {
            ss \<leftarrow> (if is_raw
              then for_up 0 RS_HEADER_SIZE
                (\<lambda>i ss. rscode_decode_syndromes (rscode rs) (ucast (size_byte sz i)) (of_int degree) ss (i * nat T))
                (syndromes dc)
              else Some (syndromes dc));
            let offset = (if is_raw then RS_HEADER_SIZE else 0);
            ss \<leftarrow> for_up 0 (nat sz)
              (\<lambda>i ss. do {
                 b \<leftarrow> rd input i;
                 rscode_decode_syndromes (rscode rs) (ucast b) (of_int degree) ss ((i + offset) * nat T)
               }) ss;
            m \<leftarrow> bitmap256_set (mask dc) degree;
            rs_restore rs (dc\<lparr>dc_count := dc_count dc + 1, mask := m, syndromes := ss\<rparr>) is_raw
          }
        }
      })"

text \<open>
  \<open>decoded_size\<close> is an \<open>int\<close> into which \<open>uint32_t\<close> values are or-ed: the conversions keep the bit
  pattern, and the comparison and the loop bound read it as a signed number.
\<close>

definition rs_decode_result ::
    "rs_t \<Rightarrow> rs_dc_t \<Rightarrow> int \<Rightarrow> u8 list \<Rightarrow> int \<Rightarrow> (int \<times> u8 list \<times> int \<times> int option) option" where
  "rs_decode_result rs dc index buffer sz =
     (if index < 0 \<or> index \<ge> uint (raw_erasure_num dc) then Some (E_RS_INVALID_INDEX, buffer, sz, None)
      else if sz < max_data_size rs then Some (E_RS_INVALID_SIZE, buffer, sz, None)
      else do {
        let T = T_SIZE rs;
        let erasure = (\<lambda>i. rscode_decode_erasure (rscode rs) (syndromes dc) (i * nat T)
              (erasure_degrees dc) (unat (erasure_num dc)) (nat index));
        w \<leftarrow> for_up 0 RS_HEADER_SIZE
          (\<lambda>i w. do { s \<leftarrow> erasure i; Some (w OR push_bit (i * 8) s) }) 0;
        let decoded_size = sint w;
        if decoded_size > max_data_size rs then Some (E_RS_INVALID_HEADER, buffer, sz, None)
        else do {
          buffer \<leftarrow> for_up 0 (nat decoded_size)
            (\<lambda>i buf. do { s \<leftarrow> erasure (i + RS_HEADER_SIZE); wr buf i (ucast s) }) buffer;
          d \<leftarrow> rd (erasure_degrees dc) (nat index);
          Some (0, buffer, decoded_size, Some (sint d))
        }
      })"

section \<open>Column loops\<close>

text \<open>The column \<open>c\<close> of a flattened array with \<open>T\<close> elements per column.\<close>

definition col :: "nat \<Rightarrow> gf256 list \<Rightarrow> nat \<Rightarrow> nat \<Rightarrow> gf256" where
  "col T cs c = (\<lambda>j. cs ! (c * T + j))"

lemma columns_loop:
  assumes step: "\<And>c cs. lo \<le> c \<Longrightarrow> c < hi \<Longrightarrow> length cs = M * T \<Longrightarrow>
      \<exists>cs'. f c (map gf_rep cs) = Some (map gf_rep cs') \<and> agree_off cs cs' (c * T) T \<and>
        (\<forall>j < T. col T cs' c j = F c (col T cs c) j)"
    and cong: "\<And>c s s' j. \<forall>j < T. s j = s' j \<Longrightarrow> j < T \<Longrightarrow> F c s j = F c s' j"
    and bounds: "lo \<le> hi" "hi \<le> M" "length cs = M * T"
  shows "\<exists>cs'. for_up lo hi f (map gf_rep cs) = Some (map gf_rep cs') \<and> length cs' = M * T \<and>
    (\<forall>c < M. \<forall>j < T. col T cs' c j = (if lo \<le> c \<and> c < hi then F c (col T cs c) j else col T cs c j))"
proof -
  define inv where "inv = (\<lambda>i a. \<exists>q. a = map gf_rep q \<and> length q = M * T \<and>
    (\<forall>c < M. \<forall>j < T. col T q c j = (if lo \<le> c \<and> c < i then F c (col T cs c) j else col T cs c j)))"
  have "\<exists>a. for_up lo hi f (map gf_rep cs) = Some a \<and> inv hi a"
  proof (rule for_up_rule)
    show "inv lo (map gf_rep cs)" using bounds by (auto simp: inv_def)
  next
    fix i a assume i: "lo \<le> i" "i < hi" and "inv i a"
    then obtain q where q: "a = map gf_rep q" "length q = M * T"
      "\<forall>c < M. \<forall>j < T. col T q c j = (if lo \<le> c \<and> c < i then F c (col T cs c) j else col T cs c j)"
      by (auto simp: inv_def)
    obtain r where r: "f i a = Some (map gf_rep r)" "agree_off q r (i * T) T"
      "\<forall>j < T. col T r i j = F i (col T q i) j"
      using step [OF i q(2)] q(1) by auto
    have "col T r c j = col T q c j" if "c < M" "j < T" "c \<noteq> i" for c j
      unfolding col_def using that q(2) rows_disjoint [of i c j T] row_bound [of c M j T]
      by (intro agree_off_nth [OF r(2)]) auto
    moreover have "col T r i j = F i (col T cs i) j" if "j < T" for j
    proof -
      have "col T r i j = F i (col T q i) j" using r(3) that by simp
      also have "\<dots> = F i (col T cs i) j"
        by (rule cong) (use q(3) i bounds that in auto)
      finally show ?thesis .
    qed
    ultimately have "inv (Suc i) (map gf_rep r)"
      unfolding inv_def using q(2,3) r(2) i by (auto simp: agree_off_length less_Suc_eq)
    then show "\<exists>s'. f i a = Some s' \<and> inv (Suc i) s'" using r(1) by blast
  qed (use bounds in simp)
  then show ?thesis by (auto simp: inv_def)
qed

section \<open>Bytes as field elements\<close>

definition gf_byte :: "u8 \<Rightarrow> gf256" where
  "gf_byte b = gf_abs (ucast b)"

lemma gf_rep_byte [simp]: "gf_rep (gf_byte b) = ucast b"
proof -
  have "galois_elem 8 (ucast b :: u32)"
    by (auto simp: galois_elem_iff_bits bit_unsigned_iff dest: bit_imp_le_length)
  then show ?thesis by (simp add: gf_byte_def gf_rep_abs)
qed

definition gf_to_byte :: "gf256 \<Rightarrow> u8" where
  "gf_to_byte x = ucast (gf_rep x)"

lemma gf_to_byte_byte [simp]: "gf_to_byte (gf_byte b) = b"
  by (rule bit_word_eqI) (auto simp: gf_to_byte_def bit_unsigned_iff)

lemma gf_byte_0 [simp]: "gf_byte 0 = 0"
  using gf_rep_byte [of 0] by (simp add: gf_rep_eq_0_iff [symmetric] del: gf_rep_eq_0_iff gf_rep_byte)

lemma gf_byte_to_byte [simp]: "gf_byte (gf_to_byte x) = x"
proof -
  have "ucast (ucast (gf_rep x) :: u8) = gf_rep x"
    using gf_rep_elem [of x] unfolding galois_elem_iff_bits
    by (intro bit_word_eqI) (auto simp: bit_unsigned_iff not_le dest: bit_imp_le_length)
  then show ?thesis by (simp add: gf_to_byte_def flip: gf_rep_inject)
qed
section \<open>The encoder\<close>

text \<open>
  The payload of a raw message: byte \<open>c\<close> of column \<open>c\<close>, the four length bytes first, then the data,
  then zeros up to the column count.
\<close>

definition payload :: "u8 list \<Rightarrow> nat \<Rightarrow> u8" where
  "payload m c = (if c < RS_HEADER_SIZE then size_byte (int (length m)) c
     else if c - RS_HEADER_SIZE < length m then m ! (c - RS_HEADER_SIZE) else 0)"

definition rs_ok :: "rs_t \<Rightarrow> nat \<Rightarrow> nat \<Rightarrow> nat \<Rightarrow> gf256 list \<Rightarrow> bool" where
  "rs_ok rs N K D p \<longleftrightarrow> rs_N rs = int N \<and> rs_K rs = int K \<and> max_data_size rs = int D \<and>
     rscode_ok (rscode rs) (N - K) p \<and> 0 < K \<and> K < N \<and> N \<le> 255 \<and> (D + 4) * (N - K) < 2 ^ 31"

lemma rs_okD:
  assumes "rs_ok rs N K D p"
  shows "rs_N rs = int N" "rs_K rs = int K" "max_data_size rs = int D"
    "rscode_ok (rscode rs) (N - K) p" "0 < K" "K < N" "N \<le> 255" "(D + 4) * (N - K) < 2 ^ 31"
    "T_SIZE rs = int (N - K)" "nat (T_SIZE rs) = N - K" "0 < N - K"
  using assms by (auto simp: rs_ok_def T_SIZE_def)

lemma rs_init_ok:
  assumes "0 < K" "K < N" "N \<le> 255" "(D + 4) * (N - K) < 2 ^ 31"
  shows "\<exists>rs p. rs_init mem (int N) (int K) (int D) = Some rs \<and> rs_ok rs N K D p"
proof -
  obtain g where g: "galois256_init (map mem [0..<256]) (map mem [0..<256]) = Some g" "galois256_ok g"
    using galois256_init_ok [of "map mem [0..<256]" "map mem [0..<256]"] by auto
  define k where "k = (of_int (255 - (int N - int K)) :: u32)"
  have "255 - (int N - int K) = int (255 - (N - K))" using assms by simp
  then have "unat k = 255 - (N - K)"
    unfolding k_def by (simp only: of_int_of_nat_eq unat_of_nat) (simp add: take_bit_nat_eq_self)
  then have k: "0 < unat k" "unat k \<le> 255" "255 - unat k = N - K"
    using assms by auto
  moreover have "N - K < 255" using assms by simp
  ultimately obtain rc p where "rscode_init k g (map mem [0..<255]) = Some rc" "rscode_ok rc (N - K) p"
    using rscode_init_ok [OF g(2) k(1,2), of "map mem [0..<255]"] assms by auto
  then show ?thesis
    using assms g(1) by (auto simp: rs_init_def rs_ok_def RS_GALOIS_ORDER_def k_def)
qed

text \<open>The three loops of \<open>rs_encode\<close> are one loop over all columns.\<close>

lemma encode_loops:
  assumes sz: "0 \<le> sz" "sz \<le> int D" "nat sz \<le> length input"
  shows "do {
        cs \<leftarrow> for_up 0 4 (\<lambda>i cs. f (ucast (size_byte sz i)) cs (i * T)) cs;
        cs \<leftarrow> for_up 0 (nat sz) (\<lambda>i cs. do { b \<leftarrow> rd input i; f (ucast b) cs ((i + 4) * T) }) cs;
        for_up 0 (nat (int D - sz)) (\<lambda>i cs. f 0 cs ((i + (4 + nat sz)) * T)) cs
      } = for_up 0 (D + 4) (\<lambda>c cs. f (ucast (payload (take (nat sz) input) c)) cs (c * T)) cs"
    (is "?lhs = for_up 0 (D + 4) ?G cs")
proof -
  have "for_up 0 4 (\<lambda>i cs. f (ucast (size_byte sz i)) cs (i * T)) cs = for_up 0 4 ?G cs"
    by (rule for_up_cong) (use sz in \<open>simp add: payload_def RS_HEADER_SIZE_def min_absorb2\<close>)
  moreover have "for_up 0 (nat sz) (\<lambda>i cs. do { b \<leftarrow> rd input i; f (ucast b) cs ((i + 4) * T) }) cs
      = for_up 4 (nat sz + 4) ?G cs" for cs
    unfolding for_up_shift [where lo = 0 and k = 4 and f = ?G, simplified add_0, symmetric]
    by (rule for_up_cong) (use sz in \<open>simp add: payload_def RS_HEADER_SIZE_def access_simps\<close>)
  moreover have "for_up 0 (nat (int D - sz)) (\<lambda>i cs. f 0 cs ((i + (4 + nat sz)) * T)) cs
      = for_up (4 + nat sz) (nat (int D - sz) + (4 + nat sz)) ?G cs" for cs
    unfolding for_up_shift [where lo = 0 and k = "4 + nat sz" and f = ?G, simplified add_0, symmetric]
    by (rule for_up_cong) (use sz in \<open>simp add: payload_def RS_HEADER_SIZE_def\<close>)
  moreover have "nat (int D - sz) + (4 + nat sz) = D + 4" "nat sz + 4 = 4 + nat sz" "nat sz \<le> D"
    using sz by auto
  ultimately show ?thesis by (simp add: for_up_append Option.bind_assoc [symmetric])
qed

lemma rs_encode_spec:
  assumes ok: "rs_ok rs N K D p" and sz: "0 \<le> sz" "sz \<le> int D" "nat sz \<le> length input"
    and ec: "checks ec = map gf_rep cs" "length cs = (D + 4) * (N - K)" "ec_count ec = int n" "n < K"
  shows "\<exists>cs'. rs_encode rs ec input sz = Some (if Suc n = K then int (N - K) else 0, Some (int (N - 1 - n)),
        ec\<lparr>ec_count := int (Suc n), checks := map gf_rep cs'\<rparr>) \<and>
      length cs' = (D + 4) * (N - K) \<and>
      (\<forall>c < D + 4. \<forall>j < N - K. col (N - K) cs' c j =
         lfsr (N - K) p (gf_byte (payload (take (nat sz) input) c)) (col (N - K) cs c) j)"
proof -
  define T where "T = N - K"
  note okD = rs_okD [OF ok, folded T_def]
  define G where "G = (\<lambda>c cs. rscode_encode (rscode rs) (ucast (payload (take (nat sz) input) c)) cs (c * T))"
  have "\<exists>cs'. for_up 0 (D + 4) G (map gf_rep cs) = Some (map gf_rep cs') \<and> length cs' = (D + 4) * T \<and>
    (\<forall>c < D + 4. \<forall>j < T. col T cs' c j = (if 0 \<le> c \<and> c < D + 4
        then lfsr T p (gf_byte (payload (take (nat sz) input) c)) (col T cs c) j else col T cs c j))"
  proof (rule columns_loop)
    fix c and xs :: "gf256 list" assume c: "c < D + 4" "length xs = (D + 4) * T"
    have "c * T + T \<le> (D + 4) * T" using c mult_le_mono1 [of "Suc c" "D + 4" T] by simp
    then show "\<exists>cs'. G c (map gf_rep xs) = Some (map gf_rep cs') \<and> agree_off xs cs' (c * T) T \<and>
        (\<forall>j < T. col T cs' c j = lfsr T p (gf_byte (payload (take (nat sz) input) c)) (col T xs c) j)"
      using rscode_encode_spec [OF okD(4) okD(11), of "c * T" xs "gf_byte (payload (take (nat sz) input) c)"] c
      by (simp add: G_def col_def)
  qed (use ec in \<open>auto simp: T_def intro: lfsr_cong\<close>)
  then obtain cs' where loop: "for_up 0 (D + 4) G (map gf_rep cs) = Some (map gf_rep cs')"
    and cs': "length cs' = (D + 4) * T" "\<forall>c < D + 4. \<forall>j < T. col T cs' c j =
        lfsr T p (gf_byte (payload (take (nat sz) input) c)) (col T cs c) j"
    by auto
  have "rs_encode rs ec input sz = do {
      cs \<leftarrow> for_up 0 (D + 4) G (map gf_rep cs);
      let ec = ec\<lparr>ec_count := ec_count ec + 1, checks := cs\<rparr>;
      complete \<leftarrow> rs_is_ec_complete rs ec;
      Some (if \<not> complete then 0 else int T, Some (int N - 1 - int n), ec) }"
    unfolding G_def encode_loops [OF sz, symmetric] using sz ec okD
    by (simp add: rs_encode_def RS_HEADER_SIZE_def)
  moreover have "int N - 1 - int n = int (N - 1 - n)" using ec(4) okD(6) by simp
  ultimately show ?thesis
    using loop cs' ec okD(2) unfolding T_def
    by (intro exI [of _ cs']) (auto simp: rs_is_ec_complete_def Let_def add.commute)
qed

text \<open>
  The invariant of an encoding context after the messages \<open>msgs\<close>: in every column the register,
  evaluated at each root of the generator, is the message polynomial shifted by \<open>T\<close>.
\<close>

definition ec_inv :: "nat \<Rightarrow> nat \<Rightarrow> rs_ec_t \<Rightarrow> u8 list list \<Rightarrow> bool" where
  "ec_inv T D ec msgs \<longleftrightarrow> ec_count ec = int (length msgs) \<and>
     (\<exists>cs. checks ec = map gf_rep cs \<and> length cs = (D + 4) * T \<and>
       (\<forall>c < D + 4. \<forall>i \<in> {1..T}. reg_eval T (col T cs c) (gf_alpha ^ i) =
          (\<Sum>j<length msgs. gf_byte (payload (msgs ! j) c) * (gf_alpha ^ i) ^ (T + length msgs - 1 - j))))"

lemma cint_nat: "n < 2 ^ 31 \<Longrightarrow> cint (int n) = Some (int n)"
  by (simp add: cint_def)

lemma rs_sizes:
  assumes ok: "rs_ok rs N K D p"
  shows "RS_MAX_ENCODED_SIZE (max_data_size rs) = Some (int (D + 4))"
    "cint (int (D + 4) * T_SIZE rs) = Some (int ((D + 4) * (N - K)))"
proof -
  note okD = rs_okD [OF ok]
  have "D + 4 \<le> (D + 4) * (N - K)" using okD(11) by simp
  then have "D + 4 < 2 ^ 31" using okD(8) by (rule le_less_trans)
  then show "RS_MAX_ENCODED_SIZE (max_data_size rs) = Some (int (D + 4))"
    using okD(3) by (simp add: RS_MAX_ENCODED_SIZE_def RS_HEADER_SIZE_def cint_def)
  have "int (D + 4) * T_SIZE rs = int ((D + 4) * (N - K))" by (simp only: okD(9) of_nat_mult)
  then show "cint (int (D + 4) * T_SIZE rs) = Some (int ((D + 4) * (N - K)))"
    using cint_nat [OF okD(8)] by simp
qed

lemma rs_reset_ec_inv:
  assumes ok: "rs_ok rs N K D p" and len: "length (checks ec) = (D + 4) * (N - K)"
  shows "\<exists>ec'. rs_reset_ec rs ec = Some ec' \<and> ec_inv (N - K) D ec' []"
proof -
  note sizes = rs_sizes [OF ok]
  then have "rs_reset_ec rs ec = Some (ec\<lparr>ec_count := 0, checks := map gf_rep (replicate ((D + 4) * (N - K)) 0)\<rparr>)"
    using len by (simp add: rs_reset_ec_def Let_def zero_array_def del: of_nat_mult of_nat_add)
  moreover have "ec_inv (N - K) D (ec\<lparr>ec_count := 0, checks := map gf_rep (replicate ((D + 4) * (N - K)) 0)\<rparr>) []"
    unfolding ec_inv_def
    by (auto simp: reg_eval_def col_def row_bound intro!: exI [of _ "replicate ((D + 4) * (N - K)) 0"])
  ultimately show ?thesis by blast
qed

lemma rs_encode_inv:
  assumes ok: "rs_ok rs N K D p" and inv: "ec_inv (N - K) D ec msgs" and n: "length msgs < K"
    and sz: "0 \<le> sz" "sz \<le> int D" "nat sz \<le> length input"
  shows "\<exists>ec'. rs_encode rs ec input sz =
      Some (if Suc (length msgs) = K then int (N - K) else 0, Some (int (N - 1 - length msgs)), ec') \<and>
    ec_inv (N - K) D ec' (msgs @ [take (nat sz) input])"
proof -
  define T where "T = N - K"
  let ?m = "take (nat sz) input"
  note okD = rs_okD [OF ok, folded T_def]
  obtain cs where cs: "checks ec = map gf_rep cs" "length cs = (D + 4) * T" "ec_count ec = int (length msgs)"
    "\<forall>c < D + 4. \<forall>i \<in> {1..T}. reg_eval T (col T cs c) (gf_alpha ^ i) =
          (\<Sum>j<length msgs. gf_byte (payload (msgs ! j) c) * (gf_alpha ^ i) ^ (T + length msgs - 1 - j))"
    using inv by (auto simp: ec_inv_def T_def)
  obtain cs' where enc: "rs_encode rs ec input sz =
      Some (if Suc (length msgs) = K then int (N - K) else 0, Some (int (N - 1 - length msgs)),
        ec\<lparr>ec_count := int (Suc (length msgs)), checks := map gf_rep cs'\<rparr>)" and cs': "length cs' = (D + 4) * T"
      "\<forall>c < D + 4. \<forall>j < T. col T cs' c j = lfsr T p (gf_byte (payload ?m c)) (col T cs c) j"
    using rs_encode_spec [OF ok sz cs(1) _ cs(3) n] cs(2) unfolding T_def by metis
  have "reg_eval T (col T cs' c) (gf_alpha ^ i) = (\<Sum>j<Suc (length msgs).
      gf_byte (payload ((msgs @ [?m]) ! j) c) * (gf_alpha ^ i) ^ (T + Suc (length msgs) - 1 - j))"
    if c: "c < D + 4" and i: "i \<in> {1..T}" for c i
  proof -
    have "p ! T = 1" using okD(4) by (simp add: rscode_ok_def)
    then have "reg_eval T (col T cs' c) (gf_alpha ^ i) =
        gf_alpha ^ i * reg_eval T (col T cs c) (gf_alpha ^ i) + gf_byte (payload ?m c) * (gf_alpha ^ i) ^ T"
      using reg_eval_cong [of T "col T cs' c" "lfsr T p (gf_byte (payload ?m c)) (col T cs c)"]
        lfsr_eval [OF _ okD(11) gen_root [OF okD(4) i]] cs'(2) c by simp
    also have "\<dots> = (\<Sum>j<Suc (length msgs).
      (if j < length msgs then gf_byte (payload (msgs ! j) c) else gf_byte (payload ?m c)) *
        (gf_alpha ^ i) ^ (T + Suc (length msgs) - 1 - j))"
      unfolding cs(4) [rule_format, OF c i] by (rule shift_sum)
    also have "\<dots> = (\<Sum>j<Suc (length msgs).
      gf_byte (payload ((msgs @ [?m]) ! j) c) * (gf_alpha ^ i) ^ (T + Suc (length msgs) - 1 - j))"
      by (rule sum.cong) (auto simp: nth_append less_Suc_eq)
    finally show ?thesis .
  qed
  then have "ec_inv T D (ec\<lparr>ec_count := int (Suc (length msgs)), checks := map gf_rep cs'\<rparr>) (msgs @ [?m])"
    unfolding ec_inv_def using cs'(1) by (auto intro!: exI [of _ cs'])
  then show ?thesis using enc unfolding T_def by blast
qed

section \<open>Redundant packets\<close>

text \<open>
  \<open>build_redundant\<close> copies one row of the registers and returns the length without trailing zeros.
\<close>

lemma build_redundant_spec:
  assumes j: "j < T" and len: "length cs = M * T" "M \<le> length to"
  shows "\<exists>to' v. build_redundant to (map gf_rep cs) M T j = Some (to', v) \<and> length to' = length to \<and> v \<le> M \<and>
    (\<forall>c < M. to' ! c = gf_to_byte (col T cs c j)) \<and> (\<forall>c. v \<le> c \<longrightarrow> c < M \<longrightarrow> to' ! c = 0) \<and>
    (0 < v \<longrightarrow> to' ! (v - 1) \<noteq> 0)"
proof -
  define f where "f = (\<lambda>i (to, valid_size :: nat, trailing_zero). do {
          v \<leftarrow> rd (map gf_rep cs) (i * T + j);
          let b = (ucast v :: u8);
          to \<leftarrow> wr to i b;
          Some (if b = 0 then (to, valid_size, trailing_zero + 1)
                else (to, valid_size + (1 + trailing_zero), 0))
        })"
  define inv where "inv = (\<lambda>i (to', v :: nat, z). length to' = length to \<and> v + z = i \<and>
    (\<forall>c < i. to' ! c = gf_to_byte (col T cs c j)) \<and> (\<forall>c. v \<le> c \<longrightarrow> c < i \<longrightarrow> to' ! c = 0) \<and>
    (0 < v \<longrightarrow> to' ! (v - 1) \<noteq> 0))"
  have "\<exists>st. for_up 0 M f (to, 0, 0) = Some st \<and> inv M st"
  proof (rule for_up_rule)
    show "inv 0 (to, 0, 0)" by (simp add: inv_def)
  next
    fix i st assume i: "i < M" and I: "inv i st"
    obtain to' v z where st1: "st = (to', v, z)" by (cases st)
    have st: "st = (to', v, z)" "length to' = length to" "v + z = i"
      "\<forall>c < i. to' ! c = gf_to_byte (col T cs c j)" "\<forall>c. v \<le> c \<longrightarrow> c < i \<longrightarrow> to' ! c = 0"
      "0 < v \<longrightarrow> to' ! (v - 1) \<noteq> 0"
      using I unfolding st1 inv_def prod.case by - (rule refl, (elim conjE, assumption)+)
    define b where "b = gf_to_byte (col T cs i j)"
    have bound: "i * T + j < length cs" using row_bound [OF i j] len(1) by simp
    then have "f i st = Some (if b = 0 then (to'[i := b], v, z + 1) else (to'[i := b], v + (1 + z), 0))"
      using i len st(1,2) by (simp add: f_def b_def access_simps col_def gf_to_byte_def)
    moreover have "inv (Suc i) (if b = 0 then (to'[i := b], v, z + 1) else (to'[i := b], v + (1 + z), 0))"
      using st(2-) i len by (auto simp: inv_def less_Suc_eq nth_list_update b_def)
    ultimately show "\<exists>s'. f i st = Some s' \<and> inv (Suc i) s'" by blast
  qed simp
  then obtain to' v z where "for_up 0 M f (to, 0, 0) = Some (to', v, z)" "inv M (to', v, z)"
    by (metis prod_cases3)
  then show ?thesis
    unfolding build_redundant_def f_def [symmetric] by (auto simp: inv_def)
qed

text \<open>The byte a packet of degree \<open>d\<close> contributes to column \<open>c\<close>.\<close>

definition packet_byte :: "nat \<Rightarrow> nat \<Rightarrow> u8 list \<Rightarrow> nat \<Rightarrow> u8" where
  "packet_byte T d bs c = (if T \<le> d then payload bs c else if c < length bs then bs ! c else 0)"

lemma rs_encode_result_spec:
  assumes ok: "rs_ok rs N K D p" and ec: "checks ec = map gf_rep cs" "length cs = (D + 4) * (N - K)"
    and i: "idx < N - K" and buf: "D + 4 \<le> length buf" "int (D + 4) \<le> sz"
  shows "\<exists>buf' v. rs_encode_result rs ec (int idx) buf sz = Some (0, buf', int v, Some (int (N - K - 1 - idx))) \<and>
    length buf' = length buf \<and> v \<le> D + 4 \<and>
    (\<forall>c < D + 4. packet_byte (N - K) (N - K - 1 - idx) (take v buf') c = gf_to_byte (col (N - K) cs c idx))"
proof -
  note okD = rs_okD [OF ok]
  obtain buf' v where r: "build_redundant buf (map gf_rep cs) (D + 4) (N - K) idx = Some (buf', v)"
    "length buf' = length buf" "v \<le> D + 4" "\<forall>c < D + 4. buf' ! c = gf_to_byte (col (N - K) cs c idx)"
    "\<forall>c. v \<le> c \<longrightarrow> c < D + 4 \<longrightarrow> buf' ! c = 0"
    using build_redundant_spec [OF i ec(2) buf(1)] by blast
  have "packet_byte (N - K) (N - K - 1 - idx) (take v buf') c = gf_to_byte (col (N - K) cs c idx)"
    if "c < D + 4" for c
    using r(2-5) buf(1) i that by (auto simp: packet_byte_def)
  moreover have "rs_encode_result rs ec (int idx) buf sz = Some (0, buf', int v, Some (int (N - K - 1 - idx)))"
  proof -
    obtain T where T: "N - K = T" by simp
    have "int T - 1 - int idx = int (T - 1 - idx)" using i T by simp
    then show ?thesis
      using r(1) ec(1) i buf(2) rs_sizes(1) [OF ok] okD(9) unfolding T
      by (simp add: rs_encode_result_def Let_def nat_add_distrib)
  qed
  ultimately show ?thesis using r(2,3) by blast
qed

section \<open>A sent group\<close>

text \<open>
  A sender that uses the interface as intended: it encodes \<open>K\<close> messages, and sends each with
  the degree \<open>rs_encode\<close> reported, then asks for every redundant packet.
\<close>

fun rs_send_raw :: "rs_t \<Rightarrow> rs_ec_t \<Rightarrow> u8 list list \<Rightarrow> ((int \<times> u8 list) list \<times> rs_ec_t) option" where
  "rs_send_raw rs ec [] = Some ([], ec)"
| "rs_send_raw rs ec (m # ms) = do {
     (ret, degree, ec) \<leftarrow> rs_encode rs ec m (int (length m));
     d \<leftarrow> degree;
     (ps, ec) \<leftarrow> rs_send_raw rs ec ms;
     Some ((d, m) # ps, ec)
   }"

definition rs_send_redundant :: "rs_t \<Rightarrow> rs_ec_t \<Rightarrow> u8 list \<Rightarrow> nat \<Rightarrow> (int \<times> u8 list) option" where
  "rs_send_redundant rs ec buf idx = do {
     (ret, b, v, degree) \<leftarrow> rs_encode_result rs ec (int idx) buf (int (length buf));
     d \<leftarrow> degree;
     Some (d, take (nat v) b)
   }"

definition rs_send :: "rs_t \<Rightarrow> rs_ec_t \<Rightarrow> u8 list \<Rightarrow> u8 list list \<Rightarrow> (int \<times> u8 list) list option" where
  "rs_send rs ec buf msgs = do {
     (ps, ec) \<leftarrow> rs_send_raw rs ec msgs;
     qs \<leftarrow> those (map (rs_send_redundant rs ec buf) [0..<nat (T_SIZE rs)]);
     Some (ps @ qs)
   }"

text \<open>The packets of a group by degree form a codeword: every column vanishes at every root.\<close>

definition codeword :: "nat \<Rightarrow> nat \<Rightarrow> nat \<Rightarrow> (nat \<Rightarrow> u8 list) \<Rightarrow> bool" where
  "codeword N T D B \<longleftrightarrow> (\<forall>c < D + 4. \<forall>i \<in> {1..T}.
     (\<Sum>d<N. gf_byte (packet_byte T d (B d) c) * (gf_alpha ^ i) ^ d) = 0)"

lemma those_map_Some: "(\<And>x. x \<in> set xs \<Longrightarrow> f x = Some (g x)) \<Longrightarrow> those (map f xs) = Some (map g xs)"
  by (induction xs) auto

lemma rs_send_raw_spec:
  assumes ok: "rs_ok rs N K D p"
  shows "ec_inv (N - K) D ec pre \<Longrightarrow> length (pre @ msgs) \<le> K \<Longrightarrow> \<forall>m \<in> set msgs. length m \<le> D \<Longrightarrow>
    \<exists>ec'. rs_send_raw rs ec msgs =
        Some (map (\<lambda>j. (int (N - 1 - j), (pre @ msgs) ! j)) [length pre..<length (pre @ msgs)], ec') \<and>
      ec_inv (N - K) D ec' (pre @ msgs)"
proof (induction msgs arbitrary: ec pre)
  case (Cons m ms)
  have len: "length pre < K" "0 \<le> int (length m)" "int (length m) \<le> int D"
    "nat (int (length m)) \<le> length m"
    using Cons.prems by auto
  then obtain ret ec1 where e: "rs_encode rs ec m (int (length m)) = Some (ret, Some (int (N - 1 - length pre)), ec1)"
    "ec_inv (N - K) D ec1 (pre @ [m])"
    using rs_encode_inv [OF ok Cons.prems(1) len] by auto
  moreover obtain ec' where "rs_send_raw rs ec1 ms =
        Some (map (\<lambda>j. (int (N - 1 - j), ((pre @ [m]) @ ms) ! j)) [length (pre @ [m])..<length ((pre @ [m]) @ ms)], ec')"
    "ec_inv (N - K) D ec' ((pre @ [m]) @ ms)"
    using Cons.IH [OF e(2)] Cons.prems by auto
  moreover have "[length pre..<length (pre @ m # ms)] = length pre # [Suc (length pre)..<length (pre @ m # ms)]"
    by (rule upt_conv_Cons) simp
  ultimately show ?case by (simp del: upt_Suc of_nat_diff)
qed (simp add: rs_send_raw.simps)

lemma codeword_of_registers:
  assumes "K < N"
    and inv: "ec_inv (N - K) D ec msgs" "checks ec = map gf_rep cs" and len: "length msgs = K"
    and raw: "\<forall>j < K. B (N - 1 - j) = msgs ! j"
    and red: "\<forall>j < N - K. \<forall>c < D + 4. packet_byte (N - K) (N - K - 1 - j) (B (N - K - 1 - j)) c
                = gf_to_byte (col (N - K) cs c j)"
  shows "codeword N (N - K) D B"
  unfolding codeword_def
proof (intro allI ballI impI)
  fix c i assume c: "c < D + 4" and i: "i \<in> {1..N - K}"
  define T where "T = N - K"
  define z where "z = gf_alpha ^ i"
  let ?f = "\<lambda>d. gf_byte (packet_byte T d (B d) c) * z ^ d"
  have "map gf_rep cs = map gf_rep cs' \<Longrightarrow> cs = cs'" for cs'
    by (rule map_injective) (auto simp: inj_on_def gf_rep_inject)
  then have reg: "reg_eval T (col T cs c) z = (\<Sum>j<K. gf_byte (payload (msgs ! j) c) * z ^ (N - 1 - j))"
    using inv c i len assms(1) by (auto simp: ec_inv_def T_def z_def)
  have "(\<Sum>d<T. ?f d) = (\<Sum>j<T. ?f (T - 1 - j))"
    by (rule sum.reindex_bij_witness [of _ "\<lambda>i. T - 1 - i" "\<lambda>j. T - 1 - j"]) auto
  also have "\<dots> = reg_eval T (col T cs c) z"
    unfolding reg_eval_def using red c by (intro sum.cong) (auto simp: T_def)
  finally have low: "(\<Sum>d<T. ?f d) = reg_eval T (col T cs c) z" .
  have "(\<Sum>d \<in> {T..<N}. ?f d) = (\<Sum>j<K. ?f (N - 1 - j))"
    using assms(1) by (intro sum.reindex_bij_witness [of _ "\<lambda>i. N - 1 - i" "\<lambda>j. N - 1 - j"]) (auto simp: T_def)
  also have "\<dots> = reg_eval T (col T cs c) z"
    unfolding reg using raw assms(1) by (intro sum.cong) (auto simp: packet_byte_def T_def)
  finally have "(\<Sum>d<T. ?f d) + (\<Sum>d \<in> {T..<N}. ?f d) = 0"
    using low by simp
  moreover have "(\<Sum>d<N. ?f d) = (\<Sum>d<T. ?f d) + (\<Sum>d \<in> {T..<N}. ?f d)"
    by (subst sum.union_disjoint [symmetric]) (auto simp: T_def intro!: sum.cong)
  ultimately show "(\<Sum>d<N. gf_byte (packet_byte (N - K) d (B d) c) * (gf_alpha ^ i) ^ d) = 0"
    by (simp add: T_def z_def)
qed

lemma rev_upt_split: "K < N \<Longrightarrow>
  map f (rev [0..<N]) = map (\<lambda>j. f (N - 1 - j)) [0..<K] @ map (\<lambda>j. f (N - K - 1 - j)) [0..<N - K]"
  by (rule nth_equalityI) (auto simp: nth_append rev_nth intro!: arg_cong [where f = f])

lemma rs_send_spec:
  assumes ok: "rs_ok rs N K D p" and ec: "ec_inv (N - K) D ec []" and buf: "D + 4 \<le> length buf"
    and msgs: "length msgs = K" "\<forall>m \<in> set msgs. length m \<le> D"
  shows "\<exists>B. rs_send rs ec buf msgs = Some (map (\<lambda>d. (int d, B d)) (rev [0..<N])) \<and>
    (\<forall>j < K. B (N - 1 - j) = msgs ! j) \<and> (\<forall>d < N - K. length (B d) \<le> D + 4) \<and> codeword N (N - K) D B"
proof -
  define T where "T = N - K"
  note okD = rs_okD [OF ok, folded T_def]
  obtain ec' where raw: "rs_send_raw rs ec msgs = Some (map (\<lambda>j. (int (N - 1 - j), msgs ! j)) [0..<K], ec')"
    "ec_inv T D ec' msgs"
    using rs_send_raw_spec [OF ok ec, of msgs] msgs unfolding T_def by auto
  then obtain cs where cs: "checks ec' = map gf_rep cs" "length cs = (D + 4) * T"
    by (auto simp: ec_inv_def)
  define B where "B = (\<lambda>d. if T \<le> d then msgs ! (N - 1 - d) else snd (the (rs_send_redundant rs ec' buf (T - 1 - d))))"
  have red: "rs_send_redundant rs ec' buf j = Some (int (T - 1 - j), B (T - 1 - j)) \<and>
      length (B (T - 1 - j)) \<le> D + 4 \<and>
      (\<forall>c < D + 4. packet_byte T (T - 1 - j) (B (T - 1 - j)) c = gf_to_byte (col T cs c j))" if j: "j < T" for j
  proof -
    have "int (D + 4) \<le> int (length buf)" using buf by simp
    then obtain b v where r: "rs_encode_result rs ec' (int j) buf (int (length buf)) = Some (0, b, int v, Some (int (T - 1 - j)))"
      "v \<le> D + 4" "\<forall>c < D + 4. packet_byte T (T - 1 - j) (take v b) c = gf_to_byte (col T cs c j)"
      using rs_encode_result_spec [OF ok cs(1) _ _ buf, folded T_def, OF cs(2) j] by blast
    have "rs_send_redundant rs ec' buf j = Some (int (T - 1 - j), take v b)"
      by (simp add: rs_send_redundant_def r(1))
    moreover from this have "B (T - 1 - j) = take v b"
      using j by (auto simp: B_def)
    ultimately show ?thesis using r(2,3) by simp
  qed
  then have "those (map (rs_send_redundant rs ec' buf) [0..<T]) = Some (map (\<lambda>j. (int (T - 1 - j), B (T - 1 - j))) [0..<T])"
    by (intro those_map_Some) auto
  moreover have rawB: "B (N - 1 - j) = msgs ! j" if "j < K" for j
    using that okD(6) by (auto simp: B_def T_def)
  then have "map (\<lambda>j. (int (N - 1 - j), msgs ! j)) [0..<K] = map (\<lambda>j. (int (N - 1 - j), B (N - 1 - j))) [0..<K]"
    by simp
  ultimately have "rs_send rs ec buf msgs = Some (map (\<lambda>d. (int d, B d)) (rev [0..<N]))"
    unfolding rev_upt_split [OF okD(6)] T_def [symmetric]
    by (simp add: rs_send_def raw(1) okD(10) del: of_nat_diff)
  moreover have "length (B d) \<le> D + 4" if "d < T" for d
    using red [of "T - 1 - d"] that by simp
  moreover have "codeword N T D B"
    unfolding T_def by (rule codeword_of_registers [OF okD(6) _ cs(1) msgs(1)]) (use raw(2) rawB red in \<open>auto simp: T_def\<close>)
  ultimately show ?thesis using rawB unfolding T_def by blast
qed

end
