(* ===== verification/Rs_Recover.thy ===== *)
theory Rs_Recover
  imports Rs_Block
begin

text \<open>
  The decoder of \<^verbatim>\<open>src/src/main/rs/rs.c\<close>: the bitmap of received degrees, the syndromes, the
  list of erased degrees, and the recovery of the missing messages from any \<open>K\<close> packets of a group.
\<close>

section \<open>The bitmap of received degrees\<close>

text \<open>Within the degrees whose shift is defined, the bitmap is the set of degrees put into it.\<close>

definition bitmap_holds :: "bitmap256_t \<Rightarrow> nat set \<Rightarrow> bool" where
  "bitmap_holds b S \<longleftrightarrow> length b = 4 \<and> S \<subseteq> {..<31} \<and> (\<forall>d < 31. bit (b ! 0) d \<longleftrightarrow> d \<in> S)"

lemma bitmap_reset_holds: "bitmap_holds (bitmap256_reset b) {}"
  by (simp add: bitmap_holds_def bitmap256_reset_def)

lemma bitmap_isset:
  assumes "bitmap_holds b S" "d < 31"
  shows "bitmap256_isset b (int d) = Some (d \<in> S)"
proof -
  have "(b ! 0 AND push_bit d 1 \<noteq> 0) \<longleftrightarrow> bit (b ! 0) d"
    by (simp add: bit_iff_and_push_bit_not_eq_0)
  then show ?thesis
    using assms by (simp add: bitmap_holds_def bitmap256_isset_def Let_def access_simps shift_one_def)
qed

lemma bitmap_set:
  assumes "bitmap_holds b S" "d < 31"
  shows "\<exists>b'. bitmap256_set b (int d) = Some b' \<and> bitmap_holds b' (insert d S)"
proof -
  have "bitmap256_set b (int d) = Some (b[0 := b ! 0 OR push_bit d 1])"
    using assms by (simp add: bitmap_holds_def bitmap256_set_def Let_def access_simps shift_one_def)
  moreover have "bitmap_holds (b[0 := b ! 0 OR push_bit d 1]) (insert d S)"
    using assms by (auto simp: bitmap_holds_def bit_simps)
  ultimately show ?thesis by blast
qed

section \<open>Collecting the erased degrees\<close>

definition missing :: "nat set \<Rightarrow> nat \<Rightarrow> nat \<Rightarrow> nat list" where
  "missing S lo hi = filter (\<lambda>d. d \<notin> S) (rev [lo..<hi])"

lemma missing_Suc: "lo \<le> hi \<Longrightarrow> missing S lo (Suc hi) = (if hi \<in> S then missing S lo hi else hi # missing S lo hi)"
  by (simp add: missing_def)

lemma distinct_missing [simp]: "distinct (missing S lo hi)"
  by (simp add: missing_def)

lemma set_missing [simp]: "set (missing S lo hi) = {lo..<hi} - S"
  by (auto simp: missing_def)

lemma missing_append: "lo \<le> mid \<Longrightarrow> mid \<le> hi \<Longrightarrow> missing S mid hi @ missing S lo mid = missing S lo hi"
  using upt_add_eq_append [of lo mid "hi - mid"] by (simp add: missing_def flip: rev_append filter_append)

lemma length_missing: "length (missing S lo hi) = card ({lo..<hi} - S)"
  by (metis distinct_card distinct_missing set_missing)

lemma card_missing: "S \<subseteq> {..<N} \<Longrightarrow> card ({0..<N} - S) = N - card S"
  by (subst card_Diff_subset) (auto intro: finite_subset)

lemma collect_erasures_spec:
  assumes b: "bitmap_holds b S" and "hi \<le> 31" "lo \<le> hi" "n + length (missing S lo hi) \<le> length eds"
  shows "collect_erasures b (int hi) (int lo) (eds, n) =
    Some (take n eds @ map of_nat (missing S lo hi) @ drop (n + length (missing S lo hi)) eds,
          n + length (missing S lo hi))"
proof -
  define f where "f = (\<lambda>left (eds, n). do {
          let i = int lo + int left - 1;
          isset \<leftarrow> bitmap256_isset b i;
          if \<not> isset then do { eds \<leftarrow> wr eds n (of_int i :: u32); Some (eds, n + 1) }
          else Some (eds, n)
        })"
  have step: "f (Suc k) (eds, n) = (if lo + k \<in> S then Some (eds, n)
      else do { eds \<leftarrow> wr eds n (of_nat (lo + k)); Some (eds, n + 1) })" if "lo + k < hi" for k eds n
  proof -
    have i: "int lo + int (Suc k) - 1 = int (lo + k)" by simp
    show ?thesis
      using bitmap_isset [OF b, of "lo + k"] that assms(2) unfolding f_def prod.case Let_def i
      by (simp del: of_nat_add of_nat_Suc)
  qed
  have "lo + k \<le> hi \<Longrightarrow> n + length (missing S lo (lo + k)) \<le> length eds \<Longrightarrow> for_down k f (eds, n) =
    Some (take n eds @ map of_nat (missing S lo (lo + k)) @ drop (n + length (missing S lo (lo + k))) eds,
          n + length (missing S lo (lo + k)))" for k
  proof (induction k arbitrary: eds n)
    case 0
    then show ?case by (simp add: missing_def)
  next
    case (Suc k)
    then show ?case
    proof (cases "lo + k \<in> S")
      case True
      then show ?thesis using Suc.IH [of n eds] Suc.prems by (simp add: step missing_Suc)
    next
      case False
      let ?eds = "eds[n := of_nat (lo + k)]"
      have n: "n < length eds" using Suc.prems False by (simp add: missing_Suc)
      have "take (Suc n) ?eds = take n eds @ [of_nat (lo + k)]"
        using n by (simp add: take_Suc_conv_app_nth)
      moreover have "drop (Suc n + l) ?eds = drop (Suc n + l) eds" for l
        by simp
      ultimately show ?thesis
        using Suc.IH [of "Suc n" ?eds] Suc.prems False n
        by (simp add: step missing_Suc wr_in del: of_nat_add)
    qed
  qed
  moreover have "nat (int hi - int lo) = hi - lo" by simp
  ultimately show ?thesis
    using assms(3,4) unfolding collect_erasures_def f_def [symmetric] by simp
qed

section \<open>One packet\<close>

text \<open>The loops over a packet are one loop over its columns.\<close>

lemma decode_loops_raw:
  assumes sz: "0 \<le> sz" "nat sz \<le> length input" and d: "T \<le> d"
  shows "do {
        ss \<leftarrow> for_up 0 4 (\<lambda>i ss. f (ucast (size_byte sz i)) ss (i * T)) ss;
        for_up 0 (nat sz) (\<lambda>i ss. do { b \<leftarrow> rd input i; f (ucast b) ss ((i + 4) * T) }) ss
      } = for_up 0 (nat sz + 4) (\<lambda>c ss. f (ucast (packet_byte T d (take (nat sz) input) c)) ss (c * T)) ss"
  using encode_loops [of sz "nat sz" input f T ss] sz d
  by (simp add: access_simps packet_byte_def)

lemma decode_loop_redundant:
  assumes sz: "nat sz \<le> length input" and d: "d < T"
  shows "for_up 0 (nat sz) (\<lambda>i ss. do { b \<leftarrow> rd input i; f (ucast b) ss (i * T) }) ss
    = for_up 0 (nat sz) (\<lambda>c ss. f (ucast (packet_byte T d (take (nat sz) input) c)) ss (c * T)) ss"
  by (rule for_up_cong) (use sz d in \<open>simp add: packet_byte_def access_simps\<close>)

text \<open>The number of columns a packet of \<open>n\<close> bytes touches.\<close>

definition columns :: "nat \<Rightarrow> nat \<Rightarrow> nat \<Rightarrow> nat" where
  "columns T d n = (if T \<le> d then n + 4 else n)"

lemma packet_byte_beyond: "columns T d (length bs) \<le> c \<Longrightarrow> packet_byte T d bs c = 0"
  by (auto simp: columns_def packet_byte_def payload_def RS_HEADER_SIZE_def split: if_splits)

definition add_packet :: "nat \<Rightarrow> nat \<Rightarrow> nat \<Rightarrow> u8 list \<Rightarrow> gf256 list \<Rightarrow> gf256 list \<Rightarrow> bool" where
  "add_packet T D d bs ss ss' \<longleftrightarrow> length ss' = (D + 4) * T \<and>
     (\<forall>c < D + 4. \<forall>i < T. col T ss' c i =
        col T ss c i + gf_byte (packet_byte T d bs c) * gf_alpha ^ (d * Suc i))"

lemma syndrome_columns:
  assumes ok: "rscode_ok rc T p" and len: "length ss = (D + 4) * T" and d: "d < 255"
    and n: "columns T d (length bs) \<le> D + 4"
  shows "\<exists>ss'. for_up 0 (columns T d (length bs))
      (\<lambda>c ss. rscode_decode_syndromes rc (ucast (packet_byte T d bs c)) (of_nat d) ss (c * T)) (map gf_rep ss)
        = Some (map gf_rep ss') \<and> add_packet T D d bs ss ss'"
proof -
  define G where "G = (\<lambda>c ss. rscode_decode_syndromes rc (ucast (packet_byte T d bs c)) (of_nat d) ss (c * T))"
  let ?F = "\<lambda>c s i. s i + gf_byte (packet_byte T d bs c) * gf_alpha ^ (d * Suc i)"
  have deg: "unat (of_nat d :: u32) = d" using d by (simp add: unat_of_nat take_bit_nat_eq_self)
  have "\<exists>ss'. for_up 0 (columns T d (length bs)) G (map gf_rep ss) = Some (map gf_rep ss') \<and> length ss' = (D + 4) * T \<and>
    (\<forall>c < D + 4. \<forall>j < T. col T ss' c j = (if 0 \<le> c \<and> c < columns T d (length bs)
        then ?F c (col T ss c) j else col T ss c j))"
  proof (rule columns_loop)
    fix c and xs :: "gf256 list" assume c: "c < columns T d (length bs)" "length xs = (D + 4) * T"
    have "c * T + T \<le> (D + 4) * T" using c n mult_le_mono1 [of "Suc c" "D + 4" T] by simp
    then show "\<exists>cs'. G c (map gf_rep xs) = Some (map gf_rep cs') \<and> agree_off xs cs' (c * T) T \<and>
        (\<forall>j < T. col T cs' c j = ?F c (col T xs c) j)"
      using syndromes_spec [OF ok, of "c * T" xs "of_nat d" "gf_byte (packet_byte T d bs c)"] c d deg
      by (simp add: G_def col_def)
  qed (use len n in auto)
  then obtain ss' where ss': "for_up 0 (columns T d (length bs)) G (map gf_rep ss) = Some (map gf_rep ss')"
    "length ss' = (D + 4) * T"
    "\<And>c j. c < D + 4 \<Longrightarrow> j < T \<Longrightarrow> col T ss' c j = (if c < columns T d (length bs)
        then ?F c (col T ss c) j else col T ss c j)"
    by auto
  have "col T ss' c i = ?F c (col T ss c) i" if "c < D + 4" "i < T" for c i
    using ss'(3) [OF that] packet_byte_beyond [of T d bs c] by (cases "c < columns T d (length bs)") auto
  then show ?thesis using ss'(1,2) by (auto simp: G_def add_packet_def)
qed

text \<open>
  The state after the packets of the degrees in \<open>S\<close>: \<open>B d\<close> are the bytes of the packet of degree
  \<open>d\<close>. The syndromes are the evaluations of the received part of the codeword.
\<close>

definition dc_inv :: "nat \<Rightarrow> nat \<Rightarrow> nat \<Rightarrow> (nat \<Rightarrow> u8 list) \<Rightarrow> rs_dc_t \<Rightarrow> nat set \<Rightarrow> bool" where
  "dc_inv N T D B dc S \<longleftrightarrow> dc_count dc = int (card S) \<and> bitmap_holds (mask dc) S \<and> S \<subseteq> {..<N} \<and>
     length (erasure_degrees dc) = T \<and>
     (\<exists>ss. syndromes dc = map gf_rep ss \<and> length ss = (D + 4) * T \<and>
       (\<forall>c < D + 4. \<forall>i < T. col T ss c i =
          (\<Sum>d \<in> S. gf_byte (packet_byte T d (B d) c) * gf_alpha ^ (d * Suc i))))"

text \<open>What a completed group leaves for \<open>rs_decode_result\<close>.\<close>

definition dc_erasures :: "nat \<Rightarrow> nat \<Rightarrow> rs_dc_t \<Rightarrow> nat set \<Rightarrow> bool" where
  "dc_erasures N T dc S \<longleftrightarrow> raw_erasure_num dc = of_nat (length (missing S T N)) \<and>
     (missing S T N \<noteq> [] \<longrightarrow> erasure_num dc = of_nat T \<and> erasure_degrees dc = map of_nat (missing S 0 N))"

lemma sint_of_nat: "n < 2 ^ 31 \<Longrightarrow> sint (of_nat n :: u32) = int n"
  by (simp add: signed_of_nat signed_take_bit_int_eq_self)

lemma take_bytes_columns:
  assumes "0 \<le> sz" "nat sz \<le> length input" "sz \<le> (if T \<le> d then int D else int D + 4)"
  shows "columns T d (length (take (nat sz) input)) \<le> D + 4"
    "columns T d (length (take (nat sz) input)) = (if T \<le> d then nat sz + 4 else nat sz)"
  using assms by (auto simp: columns_def min_absorb2 split: if_splits)

text \<open>A complete group.\<close>

lemma finish_erasures:
  assumes ok: "rs_ok rs N K D p" and N: "N \<le> 31" and inv: "dc_inv N (N - K) D B dc S" and S: "card S = K"
  shows "\<exists>dc'. rs_restore rs dc raw = Some (int (length (missing S (N - K) N)), Some raw, dc') \<and>
      dc_inv N (N - K) D B dc' S \<and> dc_erasures N (N - K) dc' S"
proof -
  define T where "T = N - K"
  note okD = rs_okD [OF ok, folded T_def]
  have bm: "bitmap_holds (mask dc) S" and "S \<subseteq> {..<N}" and eds: "length (erasure_degrees dc) = T"
    using inv by (auto simp: dc_inv_def T_def)
  then have all: "length (missing S 0 N) = T"
    using card_missing [of S N] S by (simp add: length_missing T_def)
  let ?R = "missing S T N" and ?Q = "missing S 0 T"
  have app: "?R @ ?Q = missing S 0 N" by (rule missing_append) (simp_all add: T_def)
  then have len: "length ?R + length ?Q = T" using all by (metis length_append)
  define e1 where "e1 = map of_nat ?R @ drop (length ?R) (erasure_degrees dc)"
  have c1: "collect_erasures (mask dc) (int N) (int T) (erasure_degrees dc, 0) = Some (e1, length ?R)"
    using collect_erasures_spec [OF bm N, of T 0] len eds by (simp add: e1_def T_def)
  have "length e1 = T" using len eds by (simp add: e1_def)
  then have c2: "collect_erasures (mask dc) (int T) 0 (e1, length ?R) = Some (map of_nat (missing S 0 N), T)"
    using collect_erasures_spec [OF bm, of T 0 "length ?R" e1] len N
    by (simp add: T_def e1_def flip: app)
  have complete: "rs_is_dc_complete rs dc = Some True"
    using inv S okD(2) by (simp add: rs_is_dc_complete_def dc_inv_def)
  show ?thesis
  proof (cases "?R = []")
    case True
    then show ?thesis
      using c1 inv okD(1,9) \<open>length e1 = T\<close> complete
      by (auto simp: rs_restore_def dc_inv_def dc_erasures_def T_def [symmetric] simp del: of_nat_diff)
  next
    case False
    have "sint (of_nat (length ?R) :: u32) = int (length ?R)"
      using len N by (intro sint_of_nat) (simp add: T_def)
    then show ?thesis
      using False c1 c2 inv okD(1,9) all complete
      by (auto simp: rs_restore_def dc_inv_def dc_erasures_def T_def [symmetric] simp del: of_nat_diff)
  qed
qed

lemma rs_decode_step:
  assumes ok: "rs_ok rs N K D p" and N: "N \<le> 31" and inv: "dc_inv N (N - K) D B dc S"
    and d: "d < N" "d \<notin> S"
    and sz: "0 \<le> sz" "nat sz \<le> length input" "sz \<le> (if N - K \<le> d then int D else int D + 4)"
    and B: "B d = take (nat sz) input"
  shows "\<exists>dc'. rs_decode rs dc input sz (int d) = rs_restore rs dc' (N - K \<le> d) \<and>
    dc_inv N (N - K) D B dc' (insert d S)"
proof -
  define T where "T = N - K"
  note okD = rs_okD [OF ok, folded T_def]
  note sz' = sz [folded T_def]
  obtain ss where ss: "syndromes dc = map gf_rep ss" "length ss = (D + 4) * T"
    "\<forall>c < D + 4. \<forall>i < T. col T ss c i = (\<Sum>d \<in> S. gf_byte (packet_byte T d (B d) c) * gf_alpha ^ (d * Suc i))"
    using inv by (auto simp: dc_inv_def T_def)
  have bm: "bitmap_holds (mask dc) S" and S: "S \<subseteq> {..<N}" and cnt: "dc_count dc = int (card S)"
    using inv by (auto simp: dc_inv_def)
  have fin: "finite S" using S by (rule finite_subset) simp
  note cols = take_bytes_columns [OF sz']
  obtain ss' where loop: "for_up 0 (columns T d (length (B d)))
      (\<lambda>c ss. rscode_decode_syndromes (rscode rs) (ucast (packet_byte T d (B d) c)) (of_nat d) ss (c * T)) (map gf_rep ss)
        = Some (map gf_rep ss')" and ss': "add_packet T D d (B d) ss ss'"
    using syndrome_columns [OF okD(4) ss(2), of d "B d"] cols(1) d(1) N by (auto simp: B)
  obtain m where m: "bitmap256_set (mask dc) (int d) = Some m" "bitmap_holds m (insert d S)"
    using bitmap_set [OF bm, of d] d(1) N by auto
  define dc1 where "dc1 = dc\<lparr>dc_count := dc_count dc + 1, mask := m, syndromes := map gf_rep ss'\<rparr>"
  have inv1: "dc_inv N T D B dc1 (insert d S)"
    unfolding dc_inv_def dc1_def using m(2) S d ss' ss(3) inv fin cnt
    by (auto simp: add_packet_def dc_inv_def T_def add.commute intro!: exI [of _ ss'])
  have "rs_decode rs dc input sz (int d) = rs_restore rs dc1 (T \<le> d)"
  proof (cases "T \<le> d")
    case True
    define f where "f = (\<lambda>x ss off. rscode_decode_syndromes (rscode rs) x (of_nat d) ss off)"
    obtain s1 where s1: "for_up 0 4 (\<lambda>i ss. f (ucast (size_byte sz i)) ss (i * T)) (map gf_rep ss) = Some s1"
      "for_up 0 (nat sz) (\<lambda>i ss. do { b \<leftarrow> rd input i; f (ucast b) ss ((i + 4) * T) }) s1 = Some (map gf_rep ss')"
      using loop [unfolded B cols(2)] decode_loops_raw [OF sz'(1,2) True, of f "map gf_rep ss"] True
      unfolding f_def by (auto simp: bind_eq_Some_conv)
    then show ?thesis
      using True d(1,2) okD(1,3,9,10) sz'(1,3) m(1) bitmap_isset [OF bm, of d] N cnt fin
      by (simp add: rs_decode_def RS_HEADER_SIZE_def ss(1) dc1_def Let_def f_def)
  next
    case False
    then show ?thesis
      using d(1,2) okD(1,3,9,10) sz'(1,3) m(1) bitmap_isset [OF bm, of d] N cnt fin
        loop [unfolded B cols(2)]
        decode_loop_redundant [OF sz'(2), of d T "\<lambda>x ss off. rscode_decode_syndromes (rscode rs) x (of_nat d) ss off"]
      by (simp add: rs_decode_def RS_HEADER_SIZE_def ss(1) dc1_def Let_def)
  qed
  then show ?thesis using inv1 unfolding T_def by blast
qed

lemma rs_decode_spec:
  assumes ok: "rs_ok rs N K D p" and N: "N \<le> 31" and inv: "dc_inv N (N - K) D B dc S"
    and d: "d < N" "d \<notin> S" "card S < K"
    and sz: "0 \<le> sz" "nat sz \<le> length input" "sz \<le> (if N - K \<le> d then int D else int D + 4)"
    and B: "B d = take (nat sz) input"
  shows "\<exists>ret dc'. rs_decode rs dc input sz (int d) = Some (ret, Some (N - K \<le> d), dc') \<and>
    dc_inv N (N - K) D B dc' (insert d S) \<and>
    (card (insert d S) < K \<longrightarrow> ret = 0) \<and>
    (card (insert d S) = K \<longrightarrow> ret = int (length (missing (insert d S) (N - K) N)) \<and>
       dc_erasures N (N - K) dc' (insert d S))"
proof -
  obtain dc1 where dc1: "rs_decode rs dc input sz (int d) = rs_restore rs dc1 (N - K \<le> d)"
    "dc_inv N (N - K) D B dc1 (insert d S)"
    using rs_decode_step [OF ok N inv d(1,2) sz B] by blast
  show ?thesis
  proof (cases "card (insert d S) = K")
    case True
    then show ?thesis using finish_erasures [OF ok N dc1(2) True, of "N - K \<le> d"] dc1(1) by auto
  next
    case False
    have "finite S" using inv by (auto simp: dc_inv_def intro: finite_subset)
    then have "card (insert d S) < K" using False d by simp
    then have "rs_restore rs dc1 (N - K \<le> d) = Some (0, Some (N - K \<le> d), dc1)"
      using dc1(2) rs_okD(2) [OF ok] by (simp add: rs_restore_def rs_is_dc_complete_def dc_inv_def)
    then show ?thesis using dc1 False by auto
  qed
qed

section \<open>Recovering the missing messages\<close>

lemma bit_size_byte: "bit (size_byte n i) k \<longleftrightarrow> k < 8 \<and> bit n (i * 8 + k)"
proof -
  have "bit (255 :: int) k \<longleftrightarrow> k < 8"
    using bit_mask_iff [of 8 k, where ?'a = int] by (simp add: mask_eq_exp_minus_1)
  then show ?thesis
    by (auto simp: size_byte_def bit_simps)
qed

text \<open>The four length bytes put together again.\<close>

lemma size_bytes:
  "for_up 0 4 (\<lambda>i w. Some (w OR push_bit (i * 8) (ucast (size_byte n i) :: u32))) 0 = Some (of_int n)"
proof -
  have "ucast (size_byte n 0) OR push_bit 8 (ucast (size_byte n 1)) OR push_bit 16 (ucast (size_byte n 2))
      OR push_bit 24 (ucast (size_byte n 3)) = (of_int n :: u32)" (is "?w = _")
  proof (rule bit_word_eqI)
    fix k assume "k < LENGTH(32)"
    then have "k < 8 \<or> 8 \<le> k \<and> k < 16 \<or> 16 \<le> k \<and> k < 24 \<or> 24 \<le> k \<and> k < 32" by auto
    then show "bit ?w k = bit (of_int n :: u32) k"
      by (auto simp: bit_simps bit_size_byte)
  qed
  then show ?thesis
    by (simp add: for_up.simps numeral_eq_Suc or.assoc)
qed

lemma sum_missing: "(\<Sum>d \<in> {lo..<hi} - S. f d) = (\<Sum>j<length (missing S lo hi). f (missing S lo hi ! j))"
  for f :: "nat \<Rightarrow> gf256"
proof -
  have "(\<Sum>d \<in> {lo..<hi} - S. f d) = sum_list (map f (missing S lo hi))"
    by (simp add: sum_list_distinct_conv_sum_set)
  also have "\<dots> = (\<Sum>j<length (missing S lo hi). f (missing S lo hi ! j))"
    by (simp add: sum_list_sum_nth atLeast0LessThan)
  finally show ?thesis .
qed

text \<open>In characteristic two the received part of a codeword equals its missing part.\<close>

lemma syndromes_are_erasures:
  assumes cw: "codeword N T D B" and S: "S \<subseteq> {..<N}" and c: "c < D + 4" and i: "i < T"
    and ss: "col T ss c i = (\<Sum>d \<in> S. gf_byte (packet_byte T d (B d) c) * gf_alpha ^ (d * Suc i))"
  shows "col T ss c i = (\<Sum>j<length (missing S 0 N).
    gf_byte (packet_byte T (missing S 0 N ! j) (B (missing S 0 N ! j)) c) * gf_alpha ^ (missing S 0 N ! j * Suc i))"
proof -
  let ?f = "\<lambda>d. gf_byte (packet_byte T d (B d) c) * gf_alpha ^ (d * Suc i)"
  have "(\<Sum>d<N. ?f d) = 0"
    using cw [unfolded codeword_def, rule_format, OF c, of "Suc i"] i
    by (simp only: power_mult [symmetric] mult.commute [of "Suc i"]) simp
  moreover have "(\<Sum>d<N. ?f d) = (\<Sum>d \<in> {0..<N} - S. ?f d) + (\<Sum>d \<in> S. ?f d)"
    using sum.subset_diff [of S "{0..<N}" ?f] S by (simp add: atLeast0LessThan)
  ultimately have "(\<Sum>d \<in> {0..<N} - S. ?f d) + (\<Sum>d \<in> S. ?f d) = 0" by simp
  then have "(\<Sum>d \<in> S. ?f d) = (\<Sum>d \<in> {0..<N} - S. ?f d)"
    unfolding gf_add_eq_0_iff by (rule sym)
  then show ?thesis unfolding ss sum_missing .
qed

text \<open>The solver finds any values of the missing bytes of a column that explain its syndromes.\<close>

lemma erasure_solves:
  assumes ok: "rs_ok rs N K D p" and N: "N \<le> 31" and inv: "dc_inv N (N - K) D B dc S" and S: "card S = K"
    and er: "dc_erasures N (N - K) dc S" and idx: "idx < length (missing S (N - K) N)" and c: "c < D + 4"
    and ss: "syndromes dc = map gf_rep ss"
    and v: "\<forall>i < N - K. col (N - K) ss c i = (\<Sum>j<N - K. v j * gf_alpha ^ (missing S 0 N ! j * Suc i))"
  shows "rscode_decode_erasure (rscode rs) (syndromes dc) (c * (N - K)) (erasure_degrees dc) (unat (erasure_num dc)) idx = Some (gf_rep (v idx))"
proof -
  define T where "T = N - K"
  note okD = rs_okD [OF ok, folded T_def]
  let ?M = "missing S 0 N"
  have SN: "S \<subseteq> {..<N}" using inv by (simp add: dc_inv_def)
  have lss: "length ss = (D + 4) * T" using inv ss by (auto simp: dc_inv_def T_def dest: map_gf_rep_inject [THEN iffD1])
  have len: "length ?M = T" using card_missing [OF SN] S by (simp add: length_missing T_def)
  have eds: "erasure_degrees dc = map of_nat ?M" "unat (erasure_num dc) = T"
    using er idx N by (auto simp: dc_erasures_def T_def unat_of_nat take_bit_nat_eq_self)
  have app: "missing S T N @ missing S 0 T = ?M" by (rule missing_append) (simp_all add: T_def)
  then have idxT: "idx < T" using idx len by (auto simp: T_def simp flip: app)
  have small: "?M ! j < 31" if "j < T" for j using nth_mem [of j ?M] that len N by auto
  have unat: "unat (of_nat (?M ! j) :: u32) = ?M ! j" if "j < T" for j
    using small [OF that] by (simp add: unat_of_nat take_bit_nat_eq_self)
  have small': "?M ! j < 255" if "j < T" for j using small [OF that] by simp
  have "rscode_decode_erasure (rscode rs) (map gf_rep ss) (c * T) (map of_nat ?M) T idx = Some (gf_rep (v idx))"
  proof (rule erasure_spec [OF okD(4) idxT])
    show "distinct (take T (map of_nat ?M :: u32 list))"
      using len unat by (auto simp: distinct_conv_nth) (metis distinct_missing nth_eq_iff_index_eq)
    show "\<forall>i<T. ss ! (c * T + i) = (\<Sum>j<T. v j * gf_alpha ^ (unat (map of_nat ?M ! j :: u32) * Suc i))"
    proof (intro allI impI)
      fix i assume "i < T"
      then have "col T ss c i = (\<Sum>j<T. v j * gf_alpha ^ (?M ! j * Suc i))" using v by (simp add: T_def)
      also have "\<dots> = (\<Sum>j<T. v j * gf_alpha ^ (unat (map of_nat ?M ! j :: u32) * Suc i))"
        by (rule sum.cong) (use len unat in auto)
      finally show "ss ! (c * T + i) = (\<Sum>j<T. v j * gf_alpha ^ (unat (map of_nat ?M ! j :: u32) * Suc i))"
        by (simp add: col_def)
    qed
    show "c * T + T \<le> length ss" using c lss mult_le_mono1 [of "Suc c" "D + 4" T] by simp
  qed (use len unat small' in auto)
  then show ?thesis using ss eds by (simp add: T_def)
qed

lemma erasure_value:
  assumes ok: "rs_ok rs N K D p" and N: "N \<le> 31" and inv: "dc_inv N (N - K) D B dc S" and S: "card S = K"
    and er: "dc_erasures N (N - K) dc S" and cw: "codeword N (N - K) D B"
    and idx: "idx < length (missing S (N - K) N)" and c: "c < D + 4"
  shows "rscode_decode_erasure (rscode rs) (syndromes dc) (c * (N - K)) (erasure_degrees dc)
      (unat (erasure_num dc)) idx =
    Some (ucast (packet_byte (N - K) (missing S (N - K) N ! idx) (B (missing S (N - K) N ! idx)) c))"
proof -
  define T where "T = N - K"
  let ?M = "missing S 0 N"
  have SN: "S \<subseteq> {..<N}" using inv by (simp add: dc_inv_def)
  obtain ss where ss: "syndromes dc = map gf_rep ss"
    "\<forall>c < D + 4. \<forall>i < T. col T ss c i = (\<Sum>d \<in> S. gf_byte (packet_byte T d (B d) c) * gf_alpha ^ (d * Suc i))"
    using inv by (auto simp: dc_inv_def T_def)
  have len: "length ?M = T" using card_missing [OF SN] S by (simp add: length_missing T_def)
  have app: "missing S T N @ missing S 0 T = ?M" by (rule missing_append) (simp_all add: T_def)
  then have nth: "missing S T N ! idx = ?M ! idx" using idx by (auto simp: nth_append T_def simp flip: app)
  let ?v = "\<lambda>j. gf_byte (packet_byte T (?M ! j) (B (?M ! j)) c)"
  have "\<forall>i<T. col T ss c i = (\<Sum>j<T. ?v j * gf_alpha ^ (?M ! j * Suc i))"
    using syndromes_are_erasures [OF cw [folded T_def] SN c _ ss(2) [rule_format, OF c]] len by simp
  then have "rscode_decode_erasure (rscode rs) (syndromes dc) (c * T) (erasure_degrees dc) (unat (erasure_num dc)) idx = Some (gf_rep (?v idx))"
    using erasure_solves [OF ok N inv S er idx c ss(1), of ?v] by (simp add: T_def)
  then show ?thesis using nth by (simp add: T_def)
qed

lemma copy_out_loop:
  fixes bs :: "u8 list"
  assumes "\<And>i. i < length bs \<Longrightarrow> f i = Some (ucast (bs ! i) :: u32)" "length bs \<le> length buf"
  shows "for_up 0 (length bs) (\<lambda>i b. do { s \<leftarrow> f i; wr b i (ucast s) }) buf = Some (bs @ drop (length bs) buf)"
proof -
  have down: "ucast (ucast b :: u32) = (b :: u8)" for b
    using gf_to_byte_byte [of b] by (simp add: gf_to_byte_def)
  have "\<exists>b. for_up 0 (length bs) (\<lambda>i b. do { s \<leftarrow> f i; wr b i (ucast s) }) buf = Some b \<and>
      (length b = length buf \<and> (\<forall>i < length bs. b ! i = bs ! i) \<and>
       (\<forall>i. length bs \<le> i \<longrightarrow> i < length buf \<longrightarrow> b ! i = buf ! i))"
    by (rule for_up_rule [where P = "\<lambda>n b. length b = length buf \<and> (\<forall>i < n. b ! i = bs ! i) \<and>
       (\<forall>i. n \<le> i \<longrightarrow> i < length buf \<longrightarrow> b ! i = buf ! i)"])
      (use assms in \<open>auto simp: access_simps down nth_list_update\<close>)
  then obtain b where "for_up 0 (length bs) (\<lambda>i b. do { s \<leftarrow> f i; wr b i (ucast s) }) buf = Some b"
    "length b = length buf" "\<forall>i < length bs. b ! i = bs ! i"
    "\<forall>i. length bs \<le> i \<longrightarrow> i < length buf \<longrightarrow> b ! i = buf ! i"
    by blast
  moreover from this have "b = bs @ drop (length bs) buf"
    using assms(2) by (intro nth_equalityI) (auto simp: nth_append)
  ultimately show ?thesis by simp
qed

lemma rs_decode_result_spec:
  assumes ok: "rs_ok rs N K D p" and N: "N \<le> 31" and inv: "dc_inv N (N - K) D B dc S" and S: "card S = K"
    and er: "dc_erasures N (N - K) dc S" and cw: "codeword N (N - K) D B"
    and idx: "idx < length (missing S (N - K) N)" and buf: "D \<le> length buf" "int D \<le> sz"
    and d: "d = missing S (N - K) N ! idx" and len: "length (B d) \<le> D"
  shows "rs_decode_result rs dc (int idx) buf sz =
    Some (0, B d @ drop (length (B d)) buf, int (length (B d)), Some (int d))"
proof -
  define T where "T = N - K"
  note okD = rs_okD [OF ok, folded T_def]
  define er_at where "er_at = (\<lambda>i. rscode_decode_erasure (rscode rs) (syndromes dc) (i * T)
              (erasure_degrees dc) (unat (erasure_num dc)) idx)"
  have "d \<in> set (missing S T N)" unfolding d T_def by (rule nth_mem) (rule idx)
  then have dT: "T \<le> d" "d < N" by auto
  have val: "er_at c = Some (ucast (packet_byte T d (B d) c))" if "c < D + 4" for c
    unfolding er_at_def T_def d by (rule erasure_value [OF ok N inv S er cw idx that])
  have "for_up 0 4 (\<lambda>i w. do { s \<leftarrow> er_at i; Some (w OR push_bit (i * 8) s) }) 0 =
      for_up 0 4 (\<lambda>i w. Some (w OR push_bit (i * 8) (ucast (size_byte (int (length (B d))) i)))) 0"
    by (rule for_up_cong) (use dT in \<open>simp add: val packet_byte_def payload_def RS_HEADER_SIZE_def\<close>)
  then have hdr: "for_up 0 4 (\<lambda>i w. do { s \<leftarrow> er_at i; Some (w OR push_bit (i * 8) s) }) 0 = Some (of_nat (length (B d)))"
    by (simp add: size_bytes)
  have "er_at (i + 4) = Some (ucast (B d ! i))" if "i < length (B d)" for i
    using that len dT by (simp add: val packet_byte_def payload_def RS_HEADER_SIZE_def)
  then have data: "for_up 0 (length (B d)) (\<lambda>i b. do { s \<leftarrow> er_at (i + 4); wr b i (ucast s) }) buf =
      Some (B d @ drop (length (B d)) buf)"
    by (rule copy_out_loop) (use len buf in auto)
  have "D + 4 < 2 ^ 31" by (rule le_less_trans [OF _ okD(8)]) (use okD(11) in simp)
  then have "length (B d) < 2 ^ 31" using len by simp
  then have sint: "sint (of_nat (length (B d)) :: u32) = int (length (B d))" by (rule sint_of_nat)
  have "length (missing S T N) \<le> N" by (simp add: missing_def T_def order_trans [OF length_filter_le])
  then have small: "length (missing S T N) < 2 ^ 31" using N by simp
  then have "int idx < uint (raw_erasure_num dc)"
    using er idx by (simp add: dc_erasures_def T_def [symmetric] uint_nat unat_of_nat take_bit_nat_eq_self)
  moreover have "rd (erasure_degrees dc) idx = Some (of_nat d)"
  proof -
    have "missing S T N @ missing S 0 T = missing S 0 N" by (rule missing_append) (simp_all add: T_def)
    then have "missing S 0 N ! idx = d" "idx < length (missing S 0 N)"
      using idx d by (auto simp: nth_append T_def simp flip: \<open>_ = missing S 0 N\<close>)
    moreover have "erasure_degrees dc = map of_nat (missing S 0 N)"
      using er idx by (auto simp: dc_erasures_def)
    ultimately show ?thesis by (simp add: access_simps)
  qed
  moreover have "sint (of_nat d :: u32) = int d" using dT N by (intro sint_of_nat) simp
  ultimately show ?thesis
    using hdr data len buf okD(3,10) sint
    by (simp add: rs_decode_result_def RS_HEADER_SIZE_def Let_def er_at_def)
qed

section \<open>A received group\<close>

text \<open>
  A receiver that feeds packets to \<open>rs_decode\<close> and keeps the last return value, and one that asks
  for the restored message \<open>idx\<close> with its degree.
\<close>

fun rs_receive :: "rs_t \<Rightarrow> rs_dc_t \<Rightarrow> int \<Rightarrow> (int \<times> u8 list) list \<Rightarrow> (int \<times> rs_dc_t) option" where
  "rs_receive rs dc ret [] = Some (ret, dc)"
| "rs_receive rs dc ret ((d, bs) # ps) = do {
     (ret, raw, dc) \<leftarrow> rs_decode rs dc bs (int (length bs)) d;
     rs_receive rs dc ret ps
   }"

definition rs_restored :: "rs_t \<Rightarrow> rs_dc_t \<Rightarrow> u8 list \<Rightarrow> nat \<Rightarrow> (int \<times> u8 list) option" where
  "rs_restored rs dc buf idx = do {
     (ret, b, v, degree) \<leftarrow> rs_decode_result rs dc (int idx) buf (int (length buf));
     d \<leftarrow> degree;
     Some (d, take (nat v) b)
   }"

lemma rs_reset_dc_inv:
  assumes ok: "rs_ok rs N K D p"
    and len: "length (syndromes dc) = (D + 4) * (N - K)" "length (erasure_degrees dc) = N - K"
  shows "\<exists>dc'. rs_reset_dc rs dc = Some dc' \<and> dc_inv N (N - K) D B dc' {}"
proof -
  note sizes = rs_sizes [OF ok]
  define dc' where "dc' = \<lparr>dc_count = 0, mask = bitmap256_reset (mask dc),
    syndromes = map gf_rep (replicate ((D + 4) * (N - K)) 0), erasure_degrees = replicate (N - K) 0,
    erasure_num = 0, raw_erasure_num = 0\<rparr>"
  have "rs_reset_dc rs dc = Some dc'"
    using len sizes rs_okD(9) [OF ok]
    by (simp add: rs_reset_dc_def Let_def zero_array_def dc'_def del: of_nat_mult of_nat_add of_nat_diff)
  moreover have "dc_inv N (N - K) D B dc' {}"
    unfolding dc_inv_def dc'_def
    by (auto simp: bitmap_reset_holds col_def row_bound intro!: exI [of _ "replicate ((D + 4) * (N - K)) 0"])
  ultimately show ?thesis by blast
qed

lemma rs_init_dc_inv:
  assumes ok: "rs_ok rs N K D p"
  shows "\<exists>dc'. rs_init_dc mem rs dc = Some dc' \<and> dc_inv N (N - K) D B dc' {}"
proof -
  let ?dc = "dc\<lparr>syndromes := map mem [0..<(D + 4) * (N - K)], erasure_degrees := map mem [0..<N - K]\<rparr>"
  have "rs_init_dc mem rs dc = rs_reset_dc rs ?dc"
    using rs_sizes [OF ok] rs_okD(9) [OF ok]
    by (simp add: rs_init_dc_def Let_def new_array_def del: of_nat_mult of_nat_add of_nat_diff)
  then show ?thesis using rs_reset_dc_inv [OF ok, of ?dc B] by simp
qed

lemma rs_init_ec_inv:
  assumes ok: "rs_ok rs N K D p"
  shows "\<exists>ec'. rs_init_ec mem rs ec = Some ec' \<and> ec_inv (N - K) D ec' []"
proof -
  have "rs_init_ec mem rs ec = rs_reset_ec rs (ec\<lparr>checks := map mem [0..<(D + 4) * (N - K)]\<rparr>)"
    using rs_sizes [OF ok] rs_okD(9) [OF ok]
    by (simp add: rs_init_ec_def Let_def new_array_def del: of_nat_mult of_nat_add of_nat_diff)
  then show ?thesis using rs_reset_ec_inv [OF ok, of "ec\<lparr>checks := map mem [0..<(D + 4) * (N - K)]\<rparr>"] by simp
qed

text \<open>Packets of distinct degrees, up to the number that completes the group.\<close>

lemma rs_receive_spec:
  assumes ok: "rs_ok rs N K D p" and N: "N \<le> 31"
    and B: "\<forall>d < N. length (B d) \<le> (if N - K \<le> d then D else D + 4)"
  shows "dc_inv N (N - K) D B dc S \<Longrightarrow> distinct ds \<Longrightarrow> set ds \<subseteq> {..<N} - S \<Longrightarrow> card S + length ds \<le> K \<Longrightarrow>
    \<exists>ret' dc'. rs_receive rs dc ret (map (\<lambda>d. (int d, B d)) ds) = Some (ret', dc') \<and>
      dc_inv N (N - K) D B dc' (S \<union> set ds) \<and>
      (ds \<noteq> [] \<longrightarrow> card (S \<union> set ds) = K \<longrightarrow>
        ret' = int (length (missing (S \<union> set ds) (N - K) N)) \<and> dc_erasures N (N - K) dc' (S \<union> set ds))"
proof (induction ds arbitrary: dc S ret)
  case (Cons d ds)
  have d: "d < N" "d \<notin> S" "card S < K" using Cons.prems by auto
  have fin: "finite S" using Cons.prems(1) by (auto simp: dc_inv_def intro: finite_subset)
  have sz: "0 \<le> int (length (B d))" "nat (int (length (B d))) \<le> length (B d)"
    "int (length (B d)) \<le> (if N - K \<le> d then int D else int D + 4)"
    using B d(1) by auto
  obtain r dc1 where r: "rs_decode rs dc (B d) (int (length (B d))) (int d) = Some (r, Some (N - K \<le> d), dc1)"
    "dc_inv N (N - K) D B dc1 (insert d S)"
    "card (insert d S) = K \<longrightarrow> r = int (length (missing (insert d S) (N - K) N)) \<and> dc_erasures N (N - K) dc1 (insert d S)"
    using rs_decode_spec [OF ok N Cons.prems(1) d sz] by auto
  show ?case
  proof (cases "ds = []")
    case True
    then show ?thesis using r by auto
  next
    case False
    have "set ds \<subseteq> {..<N} - insert d S" "card (insert d S) + length ds \<le> K"
      using Cons.prems d fin by auto
    then show ?thesis
      using Cons.IH [OF r(2), of r] Cons.prems(2) False r(1) by auto
  qed
qed simp

lemma group_recovery:
  assumes ok: "rs_ok rs N K D p" and N: "N \<le> 31" and cw: "codeword N (N - K) D B"
    and B: "\<forall>d < N. length (B d) \<le> (if N - K \<le> d then D else D + 4)"
    and dc: "dc_inv N (N - K) D B dc {}" and ds: "distinct ds" "set ds \<subseteq> {..<N}" "length ds = K"
    and buf: "D \<le> length buf"
  shows "\<exists>dc'. rs_receive rs dc 0 (map (\<lambda>d. (int d, B d)) ds) = Some (int (length (missing (set ds) (N - K) N)), dc') \<and>
    (\<forall>idx < length (missing (set ds) (N - K) N).
       rs_restored rs dc' buf idx = Some (int (missing (set ds) (N - K) N ! idx), B (missing (set ds) (N - K) N ! idx)))"
proof -
  have "ds \<noteq> []" using ds(3) rs_okD(5) [OF ok] by auto
  moreover have card: "card (set ds) = K" using ds by (simp add: distinct_card)
  ultimately obtain dc' where dc': "rs_receive rs dc 0 (map (\<lambda>d. (int d, B d)) ds)
      = Some (int (length (missing (set ds) (N - K) N)), dc')"
    "dc_inv N (N - K) D B dc' (set ds)" "dc_erasures N (N - K) dc' (set ds)"
    using rs_receive_spec [OF ok N B dc ds(1), of 0] ds(2,3) by auto
  have "rs_restored rs dc' buf idx = Some (int (missing (set ds) (N - K) N ! idx), B (missing (set ds) (N - K) N ! idx))"
    if idx: "idx < length (missing (set ds) (N - K) N)" for idx
  proof -
    let ?d = "missing (set ds) (N - K) N ! idx"
    have "?d \<in> set (missing (set ds) (N - K) N)" using idx by (rule nth_mem)
    then have "length (B ?d) \<le> D" using B by auto
    moreover have "int D \<le> int (length buf)" using buf by simp
    ultimately show ?thesis
      unfolding rs_restored_def
      using rs_decode_result_spec [OF ok N dc'(2) card dc'(3) cw idx buf _ refl] by simp
  qed
  then show ?thesis using dc'(1) by blast
qed

lemma take_rev_upt: "K < N \<Longrightarrow> take K (rev [0..<N]) = rev [N - K..<N]"
  by (simp add: take_rev)

lemma lost_packets:
  assumes "K < N"
  shows "filter (\<lambda>q. q \<notin> set (map (\<lambda>d. (int d, B d)) ds)) (take K (map (\<lambda>d. (int d, B d)) (rev [0..<N])))
    = map (\<lambda>d. (int d, B d)) (missing (set ds) (N - K) N)"
proof -
  have "take K (map (\<lambda>d. (int d, B d)) (rev [0..<N])) = map (\<lambda>d. (int d, B d)) (rev [N - K..<N])"
    using take_rev_upt [OF assms] by (simp add: take_map)
  moreover have "(int d, B d) \<in> (\<lambda>d. (int d, B d)) ` set ds \<longleftrightarrow> d \<in> set ds" for d by auto
  ultimately show ?thesis by (simp add: missing_def filter_map o_def)
qed

lemma packet_sublist:
  assumes "distinct ps" "set ps \<subseteq> set (map (\<lambda>d. (int d, B d)) (rev [0..<N]))"
  obtains ds where "ps = map (\<lambda>d. (int d, B d)) ds" "distinct ds" "set ds \<subseteq> {..<N}"
proof -
  have "(int (nat (fst q)), B (nat (fst q))) = q" if "q \<in> set ps" for q
    using assms(2) that by fastforce
  then have eq: "ps = map (\<lambda>d. (int d, B d)) (map (nat \<circ> fst) ps)"
    by (simp add: map_idI)
  then have "distinct (map (nat \<circ> fst) ps)"
    using assms(1) by (metis distinct_map)
  moreover have "set (map (nat \<circ> fst) ps) \<subseteq> {..<N}" using assms(2) by force
  ultimately show ?thesis using eq that by blast
qed

text \<open>
  C1. Erasure recovery, end to end. A sender initialises the coder for \<open>K\<close> out of \<open>N\<close> packets
  (\<open>0 < K < N \<le> 31\<close>) and encodes \<open>K\<close> messages of at most \<open>D\<close> bytes. All calls succeed and give
  \<open>N\<close> packets, the first \<open>K\<close> being the messages themselves. Whatever \<open>K\<close> distinct packets a
  receiver gets, in whatever order, the last \<open>rs_decode\<close> returns the number of lost messages, and
  \<open>rs_decode_result\<close> returns each lost message with its exact bytes, length and degree.
\<close>

theorem rs_recovers:
  assumes params: "0 < K" "K < N" "N \<le> 31" "(D + 4) * (N - K) < 2 ^ 31"
    and msgs: "length msgs = K" "\<forall>m \<in> set msgs. length m \<le> D"
    and buf: "D + 4 \<le> length buf"
  shows "\<exists>rs ec dc pkts.
    rs_init mem (int N) (int K) (int D) = Some rs \<and> rs_init_ec mem\<^sub>1 rs ec\<^sub>0 = Some ec \<and>
    rs_init_dc mem\<^sub>2 rs dc\<^sub>0 = Some dc \<and> rs_send rs ec buf msgs = Some pkts \<and>
    length pkts = N \<and> map snd (take K pkts) = msgs \<and>
    (\<forall>ps. distinct ps \<and> set ps \<subseteq> set pkts \<and> length ps = K \<longrightarrow>
      (\<exists>dc'. rs_receive rs dc 0 ps = Some (int (length (filter (\<lambda>q. q \<notin> set ps) (take K pkts))), dc') \<and>
        (\<forall>idx < length (filter (\<lambda>q. q \<notin> set ps) (take K pkts)).
          rs_restored rs dc' buf idx = Some (filter (\<lambda>q. q \<notin> set ps) (take K pkts) ! idx))))"
proof -
  obtain rs p where rs: "rs_init mem (int N) (int K) (int D) = Some rs" "rs_ok rs N K D p"
    using rs_init_ok [of K N D mem] params by auto
  obtain ec where ec: "rs_init_ec mem\<^sub>1 rs ec\<^sub>0 = Some ec" "ec_inv (N - K) D ec []"
    using rs_init_ec_inv [OF rs(2)] by blast
  obtain B where B: "rs_send rs ec buf msgs = Some (map (\<lambda>d. (int d, B d)) (rev [0..<N]))"
    "\<forall>j < K. B (N - 1 - j) = msgs ! j" "\<forall>d < N - K. length (B d) \<le> D + 4" "codeword N (N - K) D B"
    using rs_send_spec [OF rs(2) ec(2) buf msgs] by blast
  obtain dc where dc: "rs_init_dc mem\<^sub>2 rs dc\<^sub>0 = Some dc" "dc_inv N (N - K) D B dc {}"
    using rs_init_dc_inv [OF rs(2)] by blast
  let ?pkts = "map (\<lambda>d. (int d, B d)) (rev [0..<N])"
  have len: "\<forall>d < N. length (B d) \<le> (if N - K \<le> d then D else D + 4)"
  proof (intro allI impI)
    fix d assume "d < N"
    moreover have "B d = msgs ! (N - 1 - d)" if "N - K \<le> d" "d < N"
      using B(2) [rule_format, of "N - 1 - d"] that params by simp
    ultimately show "length (B d) \<le> (if N - K \<le> d then D else D + 4)"
      using B(3) msgs params by auto
  qed
  have "map snd (take K ?pkts) = msgs"
    using B(2) msgs(1) params by (intro nth_equalityI) (auto simp: rev_nth)
  moreover have "\<exists>dc'. rs_receive rs dc 0 ps = Some (int (length (filter (\<lambda>q. q \<notin> set ps) (take K ?pkts))), dc') \<and>
        (\<forall>idx < length (filter (\<lambda>q. q \<notin> set ps) (take K ?pkts)).
          rs_restored rs dc' buf idx = Some (filter (\<lambda>q. q \<notin> set ps) (take K ?pkts) ! idx))"
    if ps: "distinct ps" "set ps \<subseteq> set ?pkts" "length ps = K" for ps
  proof -
    obtain ds where ds: "ps = map (\<lambda>d. (int d, B d)) ds" "distinct ds" "set ds \<subseteq> {..<N}"
      using packet_sublist [OF ps(1,2)] by blast
    show ?thesis
      unfolding ds(1) lost_packets [OF params(2)]
      using group_recovery [OF rs(2) params(3) B(4) len dc(2) ds(2,3), of buf] ps(3) ds(1) buf by simp
  qed
  ultimately show ?thesis
    using rs(1) ec(1) dc(1) B(1) by (intro exI [of _ rs] exI [of _ ec] exI [of _ dc] exI [of _ ?pkts]) auto
qed

theorem rs_recovers_witness:
  "\<exists>rs ec dc pkts.
    rs_init (\<lambda>_. 7) 3 2 4 = Some rs \<and> rs_init_ec (\<lambda>_. 9) rs \<lparr>ec_count = 0, checks = []\<rparr> = Some ec \<and>
    rs_init_dc (\<lambda>_. 5) rs \<lparr>dc_count = 1, mask = [], syndromes = [], erasure_degrees = [],
      erasure_num = 0, raw_erasure_num = 0\<rparr> = Some dc \<and>
    rs_send rs ec (replicate 8 255) [[1, 2, 3], [200]] = Some pkts \<and>
    length pkts = 3 \<and> map snd (take 2 pkts) = [[1, 2, 3], [200]] \<and>
    (\<forall>ps. distinct ps \<and> set ps \<subseteq> set pkts \<and> length ps = 2 \<longrightarrow>
      (\<exists>dc'. rs_receive rs dc 0 ps = Some (int (length (filter (\<lambda>q. q \<notin> set ps) (take 2 pkts))), dc') \<and>
        (\<forall>idx < length (filter (\<lambda>q. q \<notin> set ps) (take 2 pkts)).
          rs_restored rs dc' (replicate 8 255) idx = Some (filter (\<lambda>q. q \<notin> set ps) (take 2 pkts) ! idx))))"
  using rs_recovers [of 2 3 4 "[[1, 2, 3], [200]]" "replicate 8 255" "\<lambda>_. 7" "\<lambda>_. 9"
    "\<lparr>ec_count = 0, checks = []\<rparr>" "\<lambda>_. 5" "\<lparr>dc_count = 1, mask = [], syndromes = [], erasure_degrees = [],
      erasure_num = 0, raw_erasure_num = 0\<rparr>"] by simp

lemma rs_decode_known:
  assumes ok: "rs_ok rs N K D p" and N: "N \<le> 31" and inv: "dc_inv N (N - K) D B dc S" and d: "d \<in> S"
    and sz: "0 \<le> sz" "sz \<le> (if N - K \<le> d then int D else int D + 4)"
  shows "rs_decode rs dc input sz (int d) = Some (E_RS_DUPLICATE, Some (N - K \<le> d), dc)"
proof -
  have "d < N" using inv d by (auto simp: dc_inv_def)
  then have "bitmap256_isset (mask dc) (int d) = Some True"
    using inv d N bitmap_isset [of "mask dc" S d] by (simp add: dc_inv_def)
  moreover obtain T where "N - K = T" by simp
  ultimately show ?thesis
    using sz \<open>d < N\<close> rs_okD(1,3,9) [OF ok] by (auto simp: rs_decode_def Let_def RS_HEADER_SIZE_def split: if_splits)
qed

text \<open>
  Duplicates. Once the packet of a degree has been decoded, another packet of that degree of any
  acceptable size is reported as \<open>E_RS_DUPLICATE\<close> and leaves the context as it was.
\<close>

theorem rs_decode_duplicate:
  assumes ok: "rs_ok rs N K D p" and N: "N \<le> 31" and inv: "dc_inv N (N - K) D B dc S" and d: "d \<in> S"
    and sz: "0 \<le> sz" "sz \<le> (if N - K \<le> d then int D else int D + 4)"
  shows "rs_decode rs dc input sz (int d) = Some (E_RS_DUPLICATE, Some (N - K \<le> d), dc)"
  by (rule rs_decode_known [OF assms])

text \<open>
  C24. Overrun. A group is complete after \<open>K\<close> packets; a further packet of a new degree trips
  \<open>ensure(dc->count <= rs->K)\<close> and aborts, so callers must stop decoding a completed group.
\<close>

theorem rs_decode_overrun:
  assumes ok: "rs_ok rs N K D p" and N: "N \<le> 31" and inv: "dc_inv N (N - K) D B dc S"
    and S: "card S = K" and d: "d < N" "d \<notin> S"
    and sz: "0 \<le> sz" "nat sz \<le> length input" "sz \<le> (if N - K \<le> d then int D else int D + 4)"
  shows "rs_decode rs dc input sz (int d) = None"
proof -
  have "(\<Sum>e \<in> S. gf_byte (packet_byte (N - K) e ((B(d := take (nat sz) input)) e) c) * gf_alpha ^ (e * Suc i))
      = (\<Sum>e \<in> S. gf_byte (packet_byte (N - K) e (B e) c) * gf_alpha ^ (e * Suc i))" for c i
    using d(2) by (intro sum.cong) auto
  then have "dc_inv N (N - K) D (B(d := take (nat sz) input)) dc S"
    using inv unfolding dc_inv_def by presburger
  then obtain dc' where dc': "rs_decode rs dc input sz (int d) = rs_restore rs dc' (N - K \<le> d)"
    "dc_inv N (N - K) D (B(d := take (nat sz) input)) dc' (insert d S)"
    using rs_decode_step [OF ok N _ d sz, of "B(d := take (nat sz) input)"] by auto
  have "finite S" using inv by (auto simp: dc_inv_def intro: finite_subset)
  then have "dc_count dc' = int K + 1" using dc'(2) S d(2) by (simp add: dc_inv_def)
  then show ?thesis using dc'(1) rs_okD(2) [OF ok] by (simp add: rs_restore_def rs_is_dc_complete_def)
qed

lemma received_one:
  "\<exists>rs p dc. rs_ok rs 2 1 4 p \<and> dc_inv 2 1 4 (\<lambda>_. []) dc {1}"
proof -
  obtain rs p where rs: "rs_ok rs 2 1 4 p"
    using rs_init_ok [of 1 2 4 "\<lambda>_. 0"] by auto
  obtain dc where "dc_inv 2 1 4 (\<lambda>_. []) dc {}"
    using rs_init_dc_inv [OF rs, of "\<lambda>_. 0" undefined "\<lambda>_. []"] by auto
  then show ?thesis
    using rs_decode_spec [OF rs _ _, of "\<lambda>_. []" dc "{}" 1 0 "[]"] rs by fastforce
qed

theorem rs_decode_duplicate_witness:
  "\<exists>rs dc. rs_decode rs dc [1, 2, 3] 3 1 = Some (E_RS_DUPLICATE, Some True, dc)"
proof -
  obtain rs p dc where "rs_ok rs 2 1 4 p" "dc_inv 2 1 4 (\<lambda>_. []) dc {1}" using received_one by blast
  then show ?thesis
    using rs_decode_duplicate [of rs 2 1 4 p "\<lambda>_. []" dc "{1}" 1 3 "[1, 2, 3]"] by auto
qed

theorem rs_decode_overrun_witness:
  "\<exists>rs dc. dc_inv 2 1 4 (\<lambda>_. []) dc {1} \<and> rs_decode rs dc [1, 2, 3] 3 0 = None"
proof -
  obtain rs p dc where "rs_ok rs 2 1 4 p" "dc_inv 2 1 4 (\<lambda>_. []) dc {1}" using received_one by blast
  then show ?thesis
    using rs_decode_overrun [of rs 2 1 4 p "\<lambda>_. []" dc "{1}" 0 3 "[1, 2, 3]"] by auto
qed

end
