(* ===== verification/Ring_Queue.thy ===== *)
theory Ring_Queue
  imports C_Prelude
begin

text \<open>
  The bounded FIFO queue of \<^verbatim>\<open>src/src/main/utils/queue.c\<close>, a ring buffer with one spare slot.
  A \<open>size_t\<close> is a natural number: every index stays below the length of an array in memory, so
  only \<open>capacity + 1\<close> can wrap, and that is written out.

  The locale \<open>fifo\<close> is the contract of a bounded queue; its lemmas are proved once and hold
  for the ring buffer here, and for the locked queue of \<^verbatim>\<open>conqueue.c\<close>.
\<close>

section \<open>The contract of a bounded queue\<close>

text \<open>
  Operations of a client, and what a bounded list answers to them: the reference the
  implementations are compared with.
\<close>

datatype 'v fifo_op = Push 'v | Pop | Size

datatype 'v fifo_result = Pushed bool | Popped "'v option" | Counted nat

fun fifo_ref :: "nat \<Rightarrow> 'v list \<Rightarrow> 'v fifo_op list \<Rightarrow> 'v fifo_result list \<times> 'v list" where
  "fifo_ref cap xs [] = ([], xs)"
| "fifo_ref cap xs (Push v # ops) =
     (if length xs < cap then let (rs, ys) = fifo_ref cap (xs @ [v]) ops in (Pushed True # rs, ys)
      else let (rs, ys) = fifo_ref cap xs ops in (Pushed False # rs, ys))"
| "fifo_ref cap xs (Pop # ops) =
     (case xs of [] \<Rightarrow> let (rs, ys) = fifo_ref cap [] ops in (Popped None # rs, ys)
      | x # xs' \<Rightarrow> let (rs, ys) = fifo_ref cap xs' ops in (Popped (Some x) # rs, ys))"
| "fifo_ref cap xs (Size # ops) = (let (rs, ys) = fifo_ref cap xs ops in (Counted (length xs) # rs, ys))"

text \<open>A client that performs a sequence of operations on an implementation.\<close>

fun fifo_run :: "('s \<Rightarrow> 'v \<Rightarrow> (bool \<times> 's) option) \<Rightarrow> ('s \<Rightarrow> ('v option \<times> 's) option) \<Rightarrow> ('s \<Rightarrow> nat option) \<Rightarrow>
    's \<Rightarrow> 'v fifo_op list \<Rightarrow> ('v fifo_result list \<times> 's) option" where
  "fifo_run push pop qsize s [] = Some ([], s)"
| "fifo_run push pop qsize s (Push v # ops) = do {
     (r, s) \<leftarrow> push s v;
     (rs, s) \<leftarrow> fifo_run push pop qsize s ops;
     Some (Pushed r # rs, s)
   }"
| "fifo_run push pop qsize s (Pop # ops) = do {
     (r, s) \<leftarrow> pop s;
     (rs, s) \<leftarrow> fifo_run push pop qsize s ops;
     Some (Popped r # rs, s)
   }"
| "fifo_run push pop qsize s (Size # ops) = do {
     n \<leftarrow> qsize s;
     (rs, s) \<leftarrow> fifo_run push pop qsize s ops;
     Some (Counted n # rs, s)
   }"

locale fifo =
  fixes push :: "'s \<Rightarrow> 'v \<Rightarrow> (bool \<times> 's) option"
    and pop :: "'s \<Rightarrow> ('v option \<times> 's) option"
    and qsize :: "'s \<Rightarrow> nat option"
    and inv :: "'s \<Rightarrow> bool"
    and abs :: "'s \<Rightarrow> 'v list"
    and cap :: "'s \<Rightarrow> nat"
  assumes size_law: "inv s \<Longrightarrow> qsize s = Some (length (abs s))"
    and bounded: "inv s \<Longrightarrow> length (abs s) \<le> cap s"
    and push_law: "inv s \<Longrightarrow> length (abs s) < cap s \<Longrightarrow>
      \<exists>s'. push s v = Some (True, s') \<and> inv s' \<and> abs s' = abs s @ [v] \<and> cap s' = cap s"
    and push_full: "inv s \<Longrightarrow> length (abs s) = cap s \<Longrightarrow> push s v = Some (False, s)"
    and pop_law: "inv s \<Longrightarrow> abs s = x # xs \<Longrightarrow>
      \<exists>s'. pop s = Some (Some x, s') \<and> inv s' \<and> abs s' = xs \<and> cap s' = cap s"
    and pop_empty: "inv s \<Longrightarrow> abs s = [] \<Longrightarrow> pop s = Some (None, s)"
begin

text \<open>No sequence of operations faults, and every answer is that of the bounded list.\<close>

lemma run_refines:
  "inv s \<Longrightarrow> \<exists>s'. fifo_run push pop qsize s ops = Some (fst (fifo_ref (cap s) (abs s) ops), s') \<and> inv s' \<and>
     abs s' = snd (fifo_ref (cap s) (abs s) ops) \<and> cap s' = cap s"
proof (induction ops arbitrary: s)
  case Nil
  then show ?case by simp
next
  case (Cons op ops)
  show ?case
  proof (cases op)
    case (Push v)
    show ?thesis
    proof (cases "length (abs s) < cap s")
      case True
      then obtain s1 where s1: "push s v = Some (True, s1)" "inv s1" "abs s1 = abs s @ [v]" "cap s1 = cap s"
        using push_law Cons.prems by blast
      then show ?thesis using Cons.IH [OF s1(2)] True Push by (auto simp: split_beta)
    next
      case False
      then have "length (abs s) = cap s" using bounded [OF Cons.prems] by simp
      then show ?thesis
        using push_full [OF Cons.prems] Cons.IH [OF Cons.prems] Push False by (auto simp: split_beta)
    qed
  next
    case Pop
    show ?thesis
    proof (cases "abs s")
      case Nil
      then show ?thesis using pop_empty Cons.IH [OF Cons.prems] Cons.prems Pop by (auto simp: split_beta)
    next
      case (Cons x xs)
      then obtain s1 where s1: "pop s = Some (Some x, s1)" "inv s1" "abs s1 = xs" "cap s1 = cap s"
        using pop_law Cons.prems by blast
      then show ?thesis using Cons.IH [OF s1(2)] Cons Pop by (auto simp: split_beta)
    qed
  next
    case Size
    then show ?thesis using Cons.IH [OF Cons.prems] size_law Cons.prems by (auto simp: split_beta)
  qed
qed

lemma push_cases:
  assumes "inv s"
  obtains (room) s' where "length (abs s) < cap s" "push s v = Some (True, s')" "inv s'" "abs s' = abs s @ [v]" "cap s' = cap s"
  | (full) "length (abs s) = cap s" "push s v = Some (False, s)"
  using assms push_law push_full bounded by (metis le_neq_implies_less)

lemma pop_cases:
  assumes "inv s"
  obtains (some) x s' where "abs s = x # abs s'" "pop s = Some (Some x, s')" "inv s'" "cap s' = cap s"
  | (none) "abs s = []" "pop s = Some (None, s)"
  using assms pop_law pop_empty by (metis list.exhaust)

end

section \<open>The code\<close>

definition SIZE_MOD :: nat where
  "SIZE_MOD = 2 ^ 64"

record 'v queue_t =
  q_capacity :: nat
  entry_num :: nat
  head :: nat
  tail :: nat
  entries :: "'v list"

definition queue_init :: "(nat \<Rightarrow> 'v::zero) \<Rightarrow> nat \<Rightarrow> 'v queue_t option" where
  "queue_init mem cap = do {
     let n = (cap + 1) mod SIZE_MOD;
     es \<leftarrow> new_array mem (int n);
     es \<leftarrow> zero_array es (int n);
     Some \<lparr>q_capacity = cap, entry_num = n, head = 0, tail = 0, entries = es\<rparr>
   }"

definition queue_size :: "'v queue_t \<Rightarrow> nat option" where
  "queue_size q = do {
     ensure (entry_num q \<noteq> 0);
     Some ((entry_num q + tail q - head q) mod entry_num q)
   }"

definition NEXT :: "'v queue_t \<Rightarrow> nat \<Rightarrow> nat option" where
  "NEXT q p = do {
     ensure (entry_num q \<noteq> 0);
     Some ((p + 1) mod entry_num q)
   }"

definition queue_push :: "'v queue_t \<Rightarrow> 'v \<Rightarrow> (bool \<times> 'v queue_t) option" where
  "queue_push q v = do {
     n \<leftarrow> queue_size q;
     if n \<ge> q_capacity q then Some (False, q)
     else do {
       es \<leftarrow> wr (entries q) (tail q) v;
       t \<leftarrow> NEXT q (tail q);
       Some (True, q\<lparr>entries := es, tail := t\<rparr>)
     }
   }"

definition queue_pop :: "'v queue_t \<Rightarrow> ('v option \<times> 'v queue_t) option" where
  "queue_pop q = do {
     n \<leftarrow> queue_size q;
     if n = 0 then Some (None, q)
     else do {
       v \<leftarrow> rd (entries q) (head q);
       h \<leftarrow> NEXT q (head q);
       Some (Some v, q\<lparr>head := h\<rparr>)
     }
   }"

definition queue_begin :: "'v queue_t \<Rightarrow> nat" where
  "queue_begin q = head q"

definition queue_end :: "'v queue_t \<Rightarrow> nat" where
  "queue_end q = tail q"

definition queue_next :: "'v queue_t \<Rightarrow> nat \<Rightarrow> ('v \<times> nat) option" where
  "queue_next q iter = do {
     ensure (iter \<noteq> queue_end q);
     v \<leftarrow> rd (entries q) (head q);
     i \<leftarrow> NEXT q iter;
     Some (v, i)
   }"

section \<open>The ring buffer is a bounded queue\<close>

definition queue_ok :: "'v queue_t \<Rightarrow> bool" where
  "queue_ok q \<longleftrightarrow> entry_num q = Suc (q_capacity q) \<and> length (entries q) = entry_num q \<and>
     head q < entry_num q \<and> tail q < entry_num q"

definition queue_len :: "'v queue_t \<Rightarrow> nat" where
  "queue_len q = (if head q \<le> tail q then tail q - head q else entry_num q + tail q - head q)"

definition queue_list :: "'v queue_t \<Rightarrow> 'v list" where
  "queue_list q = map (\<lambda>i. entries q ! ((head q + i) mod entry_num q)) [0..<queue_len q]"

lemma queue_size_len: "queue_ok q \<Longrightarrow> queue_size q = Some (queue_len q)"
  by (auto simp: queue_ok_def queue_size_def queue_len_def mod_if)

lemma length_queue_list [simp]: "length (queue_list q) = queue_len q"
  by (simp add: queue_list_def)

lemma queue_len_le: "queue_ok q \<Longrightarrow> queue_len q \<le> q_capacity q"
  by (auto simp: queue_ok_def queue_len_def)

text \<open>Position of the element \<open>i\<close> of the queue, and that pushing leaves it alone.\<close>

lemma mod_wrap: "a < 2 * n \<Longrightarrow> a mod n = (if a < n then a else a - n)" for a n :: nat
  by (simp add: mod_if)

lemma slot_not_tail:
  assumes "queue_ok q" "i < queue_len q"
  shows "(head q + i) mod entry_num q \<noteq> tail q"
proof -
  have "head q + i < 2 * entry_num q" using assms by (auto simp: queue_ok_def queue_len_def split: if_splits)
  then show ?thesis
    using assms unfolding mod_wrap [OF \<open>head q + i < 2 * entry_num q\<close>]
    by (auto simp: queue_ok_def queue_len_def split: if_splits)
qed

lemma slot_tail:
  assumes "queue_ok q"
  shows "(head q + queue_len q) mod entry_num q = tail q"
proof -
  have "head q + queue_len q < 2 * entry_num q" using assms by (auto simp: queue_ok_def queue_len_def)
  then show ?thesis
    using assms unfolding mod_wrap [OF \<open>head q + queue_len q < 2 * entry_num q\<close>]
    by (auto simp: queue_ok_def queue_len_def)
qed

lemma nth_queue_list: "i < queue_len q \<Longrightarrow> queue_list q ! i = entries q ! ((head q + i) mod entry_num q)"
  by (simp add: queue_list_def)

lemma queue_push_room:
  assumes ok: "queue_ok q" and room: "queue_len q < q_capacity q"
  shows "\<exists>q'. queue_push q v = Some (True, q') \<and> queue_ok q' \<and> queue_list q' = queue_list q @ [v] \<and>
    q_capacity q' = q_capacity q"
proof -
  define q' where "q' = q\<lparr>entries := (entries q)[tail q := v], tail := (tail q + 1) mod entry_num q\<rparr>"
  have push: "queue_push q v = Some (True, q')"
    using ok room by (simp add: queue_push_def queue_size_len NEXT_def q'_def queue_ok_def access_simps)
  have ok': "queue_ok q'" using ok by (simp add: q'_def queue_ok_def)
  have len: "queue_len q' = Suc (queue_len q)"
    using ok room by (auto simp: q'_def queue_ok_def queue_len_def mod_if split: if_splits)
  have "queue_list q' ! i = (queue_list q @ [v]) ! i" if "i < Suc (queue_len q)" for i
  proof (cases "i < queue_len q")
    case True
    then show ?thesis
      using slot_not_tail [OF ok True] len by (simp add: nth_queue_list nth_append) (simp add: q'_def)
  next
    case False
    then have "i = queue_len q" using that by simp
    then show ?thesis
      using slot_tail [OF ok] ok len
      by (simp add: nth_queue_list nth_append) (simp add: q'_def queue_ok_def)
  qed
  then have "queue_list q' = queue_list q @ [v]"
    by (intro nth_equalityI) (auto simp: len)
  then show ?thesis using push ok' by (auto simp: q'_def)
qed

lemma queue_pop_some:
  assumes ok: "queue_ok q" and xs: "queue_list q = x # xs"
  shows "\<exists>q'. queue_pop q = Some (Some x, q') \<and> queue_ok q' \<and> queue_list q' = xs \<and> q_capacity q' = q_capacity q"
proof -
  define q' where "q' = q\<lparr>head := (head q + 1) mod entry_num q\<rparr>"
  have n: "queue_len q = Suc (length xs)" using xs length_queue_list [of q] by simp
  have x: "entries q ! head q = x"
    using nth_queue_list [of 0 q] n ok xs by (simp add: queue_ok_def)
  have pop: "queue_pop q = Some (Some x, q')"
    using ok n x by (simp add: queue_pop_def queue_size_len NEXT_def q'_def queue_ok_def access_simps)
  have ok': "queue_ok q'" using ok by (simp add: q'_def queue_ok_def)
  have len: "queue_len q' = length xs"
    using ok n by (auto simp: q'_def queue_ok_def queue_len_def mod_if split: if_splits)
  have "queue_list q' ! i = xs ! i" if "i < length xs" for i
  proof -
    have "(Suc (head q) mod entry_num q + i) mod entry_num q = (head q + Suc i) mod entry_num q"
      by (simp add: mod_add_left_eq)
    moreover have "queue_list q ! Suc i = xs ! i" using xs by simp
    ultimately show ?thesis
      using that n len nth_queue_list [of "Suc i" q] by (simp add: nth_queue_list q'_def)
  qed
  then have "queue_list q' = xs" by (intro nth_equalityI) (auto simp: len)
  then show ?thesis using pop ok' by (auto simp: q'_def)
qed

interpretation ring: fifo queue_push queue_pop queue_size queue_ok queue_list q_capacity
proof
  fix q :: "'v queue_t" and v x xs
  assume ok: "queue_ok q"
  show "queue_size q = Some (length (queue_list q))" using ok by (simp add: queue_size_len)
  show "length (queue_list q) \<le> q_capacity q" using ok by (simp add: queue_len_le)
  show "queue_push q v = Some (False, q)" if "length (queue_list q) = q_capacity q"
    using ok that by (simp add: queue_push_def queue_size_len)
  show "queue_pop q = Some (None, q)" if "queue_list q = []"
    using ok that length_queue_list [of q] by (simp add: queue_pop_def queue_size_len)
qed (simp_all add: queue_push_room queue_pop_some)

lemma queue_init_ok:
  assumes "cap + 1 < SIZE_MOD"
  shows "\<exists>q. queue_init mem cap = Some q \<and> queue_ok q \<and> queue_list q = [] \<and> q_capacity q = cap"
  using assms
  by (auto simp: queue_init_def queue_ok_def queue_list_def queue_len_def new_array_def zero_array_def)

text \<open>
  C18. The ring buffer is a bounded FIFO queue. From \<open>queue_init\<close>, any sequence of \<open>queue_push\<close>,
  \<open>queue_pop\<close> and \<open>queue_size\<close> runs without a fault and gives exactly the answers of a list of at
  most \<open>capacity\<close> elements: rejected when full, oldest value first, empty reported.
\<close>

theorem queue_refines_list:
  assumes "cap + 1 < SIZE_MOD"
  shows "\<exists>q q'. queue_init mem cap = Some q \<and>
    fifo_run queue_push queue_pop queue_size q ops = Some (fst (fifo_ref cap [] ops), q') \<and>
    queue_list q' = snd (fifo_ref cap [] ops)"
proof -
  obtain q where "queue_init mem cap = Some q" "queue_ok q" "queue_list q = []" "q_capacity q = cap"
    using queue_init_ok [OF assms] by blast
  then show ?thesis using ring.run_refines [of q ops] by auto
qed

theorem queue_refines_list_witness:
  "\<exists>q q'. queue_init (\<lambda>_. 9) 2 = Some q \<and>
    fifo_run queue_push queue_pop queue_size q [Push (4 :: nat), Push 5, Push 6, Pop, Push 7, Size, Pop, Pop, Pop]
      = Some (fst (fifo_ref 2 [] [Push 4, Push 5, Push 6, Pop, Push 7, Size, Pop, Pop, Pop]), q') \<and>
    queue_list q' = snd (fifo_ref 2 [] [Push 4, Push 5, Push 6, Pop, Push 7, Size, Pop, Pop, Pop])"
  by (rule queue_refines_list) (simp add: SIZE_MOD_def)

section \<open>Iteration\<close>

text \<open>
  The loop a client writes with \<open>queue_begin\<close>, \<open>queue_next\<close> and \<open>queue_end\<close>; \<open>fuel\<close> bounds the
  number of iterations, \<open>None\<close> is the outcome when it does not suffice.
\<close>

fun queue_iterate :: "nat \<Rightarrow> 'v queue_t \<Rightarrow> nat \<Rightarrow> 'v list option" where
  "queue_iterate 0 q iter = (if iter = queue_end q then Some [] else None)"
| "queue_iterate (Suc fuel) q iter =
     (if iter = queue_end q then Some []
      else do {
        (v, iter) \<leftarrow> queue_next q iter;
        vs \<leftarrow> queue_iterate fuel q iter;
        Some (v # vs)
      })"

lemma queue_iterate_from:
  assumes ok: "queue_ok q"
  shows "i \<le> queue_len q \<Longrightarrow>
    queue_iterate (queue_len q - i) q ((head q + i) mod entry_num q) = Some (replicate (queue_len q - i) (entries q ! head q))"
proof (induction "queue_len q - i" arbitrary: i)
  case 0
  then show ?case using slot_tail [OF ok] by (simp add: queue_end_def)
next
  case (Suc n)
  then have i: "i < queue_len q" and n: "n = queue_len q - Suc i" "queue_len q - i = Suc n" by auto
  have "queue_next q ((head q + i) mod entry_num q) = Some (entries q ! head q, (head q + Suc i) mod entry_num q)"
    using ok slot_not_tail [OF ok i]
    by (simp add: queue_next_def queue_end_def NEXT_def queue_ok_def access_simps mod_Suc_eq)
  then show ?case
    using Suc.hyps(1) [OF n(1)] slot_not_tail [OF ok i] i n by (simp add: queue_end_def)
qed

text \<open>
  Iteration visits as many positions as there are elements and ends, but every step yields the
  value at the head of the queue: \<open>queue_next\<close> reads \<open>AT(queue->head)\<close> and not \<open>AT(iter)\<close>.
\<close>

theorem queue_iteration_repeats_head:
  assumes "queue_ok q"
  shows "queue_iterate (queue_len q) q (queue_begin q) =
    Some (replicate (length (queue_list q)) (entries q ! head q))"
  using queue_iterate_from [OF assms, of 0] assms by (simp add: queue_begin_def queue_ok_def)

definition sample_queue :: "nat queue_t" where
  "sample_queue = \<lparr>q_capacity = 3, entry_num = 4, head = 1, tail = 3, entries = [0, 10, 20, 0]\<rparr>"

theorem queue_iteration_repeats_head_witness:
  "queue_list sample_queue = [10, 20] \<and>
   queue_iterate (queue_len sample_queue) sample_queue (queue_begin sample_queue) =
     Some (replicate (length (queue_list sample_queue)) (entries sample_queue ! head sample_queue)) \<and>
   replicate (length (queue_list sample_queue)) (entries sample_queue ! head sample_queue) = [10, 10]"
proof -
  have "queue_ok sample_queue" by (simp add: queue_ok_def sample_queue_def)
  moreover have "queue_list sample_queue = [10, 20]"
    by (simp add: queue_list_def queue_len_def sample_queue_def upt_rec)
  moreover have "entries sample_queue ! head sample_queue = 10" by (simp add: sample_queue_def)
  ultimately show ?thesis
    using queue_iteration_repeats_head [of sample_queue] by (simp add: numeral_2_eq_2)
qed

end
