(* ===== verification/Conqueue.thy ===== *)
theory Conqueue
  imports Ring_Queue
begin

text \<open>
  The locked queue of \<^verbatim>\<open>src/src/main/utils/conqueue.c\<close>. First its operations as one thread
  performs them; then the threads of a process interleaved, at the granularity of the reads and
  writes of the ring buffer, with the mutex as the only synchronisation.
\<close>

section \<open>The operations of one thread\<close>

text \<open>
  Locking a mutex that is held by the caller deadlocks (the mutex has the default attributes), and
  unlocking a free one is an error: neither has a defined continuation.
\<close>

record 'v conqueue_t =
  cq_queue :: "'v queue_t"
  lock :: bool

definition pthread_mutex_lock :: "bool \<Rightarrow> bool option" where
  "pthread_mutex_lock held = (if held then None else Some True)"

definition pthread_mutex_unlock :: "bool \<Rightarrow> bool option" where
  "pthread_mutex_unlock held = (if held then Some False else None)"

definition GUARD :: "('v queue_t \<Rightarrow> ('r \<times> 'v queue_t) option) \<Rightarrow> 'v conqueue_t \<Rightarrow> ('r \<times> 'v conqueue_t) option" where
  "GUARD stmt cq = do {
     l \<leftarrow> pthread_mutex_lock (lock cq);
     (res, q) \<leftarrow> stmt (cq_queue cq);
     l \<leftarrow> pthread_mutex_unlock l;
     Some (res, \<lparr>cq_queue = q, lock = l\<rparr>)
   }"

definition conqueue_init :: "(nat \<Rightarrow> 'v::zero) \<Rightarrow> nat \<Rightarrow> 'v conqueue_t option" where
  "conqueue_init mem cap = do {
     q \<leftarrow> queue_init mem cap;
     Some \<lparr>cq_queue = q, lock = False\<rparr>
   }"

definition conqueue_size :: "'v conqueue_t \<Rightarrow> nat option" where
  "conqueue_size cq = do {
     (res, cq) \<leftarrow> GUARD (\<lambda>q. do { n \<leftarrow> queue_size q; Some (n, q) }) cq;
     Some res
   }"

definition conqueue_push :: "'v conqueue_t \<Rightarrow> 'v \<Rightarrow> (bool \<times> 'v conqueue_t) option" where
  "conqueue_push cq v = GUARD (\<lambda>q. queue_push q v) cq"

definition conqueue_pop :: "'v conqueue_t \<Rightarrow> ('v option \<times> 'v conqueue_t) option" where
  "conqueue_pop cq = GUARD queue_pop cq"

definition conqueue_ok :: "'v conqueue_t \<Rightarrow> bool" where
  "conqueue_ok cq \<longleftrightarrow> queue_ok (cq_queue cq) \<and> \<not> lock cq"

abbreviation conqueue_list :: "'v conqueue_t \<Rightarrow> 'v list" where
  "conqueue_list cq \<equiv> queue_list (cq_queue cq)"

abbreviation conqueue_cap :: "'v conqueue_t \<Rightarrow> nat" where
  "conqueue_cap cq \<equiv> q_capacity (cq_queue cq)"

lemma GUARD_free:
  "\<not> lock cq \<Longrightarrow> GUARD stmt cq = do { (res, q) \<leftarrow> stmt (cq_queue cq); Some (res, \<lparr>cq_queue = q, lock = False\<rparr>) }"
  by (simp add: GUARD_def pthread_mutex_lock_def pthread_mutex_unlock_def)

interpretation conq: fifo conqueue_push conqueue_pop conqueue_size conqueue_ok conqueue_list conqueue_cap
proof
  fix cq :: "'v conqueue_t" and v x xs
  assume ok: "conqueue_ok cq"
  then have q: "queue_ok (cq_queue cq)" "\<not> lock cq" by (simp_all add: conqueue_ok_def)
  show "conqueue_size cq = Some (length (conqueue_list cq))"
    using q ring.size_law [of "cq_queue cq"] by (simp add: conqueue_size_def GUARD_free)
  show "length (conqueue_list cq) \<le> conqueue_cap cq" using q by (simp add: queue_len_le)
  show "\<exists>s'. conqueue_push cq v = Some (True, s') \<and> conqueue_ok s' \<and>
      conqueue_list s' = conqueue_list cq @ [v] \<and> conqueue_cap s' = conqueue_cap cq"
    if "length (conqueue_list cq) < conqueue_cap cq"
    using q that ring.push_law [of "cq_queue cq" v] by (auto simp: conqueue_push_def GUARD_free conqueue_ok_def)
  show "conqueue_push cq v = Some (False, cq)" if "length (conqueue_list cq) = conqueue_cap cq"
    using q that ring.push_full [of "cq_queue cq" v] by (cases cq) (simp add: conqueue_push_def GUARD_free)
  show "\<exists>s'. conqueue_pop cq = Some (Some x, s') \<and> conqueue_ok s' \<and> conqueue_list s' = xs \<and>
      conqueue_cap s' = conqueue_cap cq" if "conqueue_list cq = x # xs"
    using q that ring.pop_law [of "cq_queue cq"] by (auto simp: conqueue_pop_def GUARD_free conqueue_ok_def)
  show "conqueue_pop cq = Some (None, cq)" if "conqueue_list cq = []"
    using q that ring.pop_empty [of "cq_queue cq"] by (cases cq) (simp add: conqueue_pop_def GUARD_free)
qed

lemma conqueue_init_ok:
  "cap + 1 < SIZE_MOD \<Longrightarrow>
    \<exists>cq. conqueue_init mem cap = Some cq \<and> conqueue_ok cq \<and> conqueue_list cq = [] \<and> conqueue_cap cq = cap"
  using queue_init_ok [of cap mem] by (auto simp: conqueue_init_def conqueue_ok_def)

section \<open>Interleaved threads\<close>

text \<open>
  Where a thread is: outside, blocked on the mutex, or inside the guarded statement. Inside, the
  statement proceeds by the accesses to the shared ring buffer it makes: the size is read, then
  the slot is written or read, then the index is advanced.
\<close>

datatype 'v cq_pc =
    Idle
  | Waiting "'v fifo_op"
  | Inside "'v fifo_op"
  | Checked "'v fifo_op" nat
  | Stored 'v
  | Loaded 'v
  | Leaving "'v fifo_result"

record 'v cq_sys =
  shared :: "'v queue_t"
  owner :: "nat option"
  pcs :: "nat \<Rightarrow> 'v cq_pc"
  hist :: "('v fifo_op \<times> 'v fifo_result) list"

abbreviation (input) goto :: "nat \<Rightarrow> 'v cq_pc \<Rightarrow> 'v cq_sys \<Rightarrow> 'v cq_sys" where
  "goto t pc s \<equiv> s\<lparr>pcs := (pcs s)(t := pc)\<rparr>"

text \<open>\<open>hist\<close> records each operation with its result at the access that completes it.\<close>

definition complete :: "nat \<Rightarrow> 'v fifo_op \<Rightarrow> 'v fifo_result \<Rightarrow> 'v cq_sys \<Rightarrow> 'v cq_sys" where
  "complete t op r s = s\<lparr>pcs := (pcs s)(t := Leaving r), hist := hist s @ [(op, r)]\<rparr>"

inductive cq_step :: "'v cq_sys \<Rightarrow> 'v cq_sys \<Rightarrow> bool" where
  call: "pcs s t = Idle \<Longrightarrow> cq_step s (goto t (Waiting op) s)"
| acquire: "pcs s t = Waiting op \<Longrightarrow> owner s = None \<Longrightarrow> cq_step s (goto t (Inside op) s\<lparr>owner := Some t\<rparr>)"
| check: "pcs s t = Inside op \<Longrightarrow> queue_size (shared s) = Some n \<Longrightarrow> cq_step s (goto t (Checked op n) s)"
| size_done: "pcs s t = Checked Size n \<Longrightarrow> cq_step s (complete t Size (Counted n) s)"
| push_full: "pcs s t = Checked (Push v) n \<Longrightarrow> n \<ge> q_capacity (shared s) \<Longrightarrow>
    cq_step s (complete t (Push v) (Pushed False) s)"
| push_store: "pcs s t = Checked (Push v) n \<Longrightarrow> n < q_capacity (shared s) \<Longrightarrow>
    wr (entries (shared s)) (tail (shared s)) v = Some es \<Longrightarrow>
    cq_step s (goto t (Stored v) s\<lparr>shared := (shared s)\<lparr>entries := es\<rparr>\<rparr>)"
| push_forward: "pcs s t = Stored v \<Longrightarrow> NEXT (shared s) (tail (shared s)) = Some p \<Longrightarrow>
    cq_step s (complete t (Push v) (Pushed True) s\<lparr>shared := (shared s)\<lparr>tail := p\<rparr>\<rparr>)"
| pop_none: "pcs s t = Checked Pop 0 \<Longrightarrow> cq_step s (complete t Pop (Popped None) s)"
| pop_load: "pcs s t = Checked Pop n \<Longrightarrow> n \<noteq> 0 \<Longrightarrow> rd (entries (shared s)) (head (shared s)) = Some v \<Longrightarrow>
    cq_step s (goto t (Loaded v) s)"
| pop_forward: "pcs s t = Loaded v \<Longrightarrow> NEXT (shared s) (head (shared s)) = Some p \<Longrightarrow>
    cq_step s (complete t Pop (Popped (Some v)) s\<lparr>shared := (shared s)\<lparr>head := p\<rparr>\<rparr>)"
| release: "pcs s t = Leaving r \<Longrightarrow> cq_step s (goto t Idle s\<lparr>owner := None\<rparr>)"

inductive cq_reachable :: "nat \<Rightarrow> 'v cq_sys \<Rightarrow> bool" for cap where
  start: "queue_ok q \<Longrightarrow> queue_list q = [] \<Longrightarrow> q_capacity q = cap \<Longrightarrow>
    cq_reachable cap \<lparr>shared = q, owner = None, pcs = (\<lambda>_. Idle), hist = []\<rparr>"
| step: "cq_reachable cap s \<Longrightarrow> cq_step s s' \<Longrightarrow> cq_reachable cap s'"

fun outside :: "'v cq_pc \<Rightarrow> bool" where
  "outside Idle = True"
| "outside (Waiting op) = True"
| "outside _ = False"

text \<open>What a thread inside the guarded statement knows of the shared queue.\<close>

fun pc_inv :: "'v queue_t \<Rightarrow> 'v cq_pc \<Rightarrow> bool" where
  "pc_inv q (Checked op n) \<longleftrightarrow> n = queue_len q"
| "pc_inv q (Stored v) \<longleftrightarrow> queue_len q < q_capacity q \<and> entries q ! tail q = v"
| "pc_inv q (Loaded v) \<longleftrightarrow> queue_len q \<noteq> 0 \<and> entries q ! head q = v"
| "pc_inv q _ \<longleftrightarrow> True"

definition cq_inv :: "nat \<Rightarrow> 'v cq_sys \<Rightarrow> bool" where
  "cq_inv cap s \<longleftrightarrow> queue_ok (shared s) \<and> q_capacity (shared s) = cap \<and>
     (\<forall>t. outside (pcs s t) \<longleftrightarrow> owner s \<noteq> Some t) \<and> (\<forall>t. pc_inv (shared s) (pcs s t)) \<and>
     map snd (hist s) = fst (fifo_ref cap [] (map fst (hist s))) \<and>
     queue_list (shared s) = snd (fifo_ref cap [] (map fst (hist s)))"

lemma fifo_ref_append:
  "fifo_ref cap xs (ops @ ops') =
    (fst (fifo_ref cap xs ops) @ fst (fifo_ref cap (snd (fifo_ref cap xs ops)) ops'),
     snd (fifo_ref cap (snd (fifo_ref cap xs ops)) ops'))"
  by (induction cap xs ops rule: fifo_ref.induct) (auto simp: split_beta split: list.split)

lemma queue_store:
  assumes "queue_ok q"
  shows "queue_ok (q\<lparr>entries := (entries q)[tail q := v]\<rparr>)"
    "queue_list (q\<lparr>entries := (entries q)[tail q := v]\<rparr>) = queue_list q"
    "queue_len (q\<lparr>entries := (entries q)[tail q := v]\<rparr>) = queue_len q"
proof -
  show ok: "queue_ok (q\<lparr>entries := (entries q)[tail q := v]\<rparr>)" using assms by (simp add: queue_ok_def)
  show len: "queue_len (q\<lparr>entries := (entries q)[tail q := v]\<rparr>) = queue_len q" by (simp add: queue_len_def)
  show "queue_list (q\<lparr>entries := (entries q)[tail q := v]\<rparr>) = queue_list q"
    using len by (intro nth_equalityI) (auto simp: nth_queue_list nth_list_update_neq [OF not_sym [OF slot_not_tail [OF assms]]])
qed

lemma queue_forward_tail:
  assumes ok: "queue_ok q" and "queue_len q < q_capacity q" "entries q ! tail q = v" "NEXT q (tail q) = Some p"
  shows "queue_ok (q\<lparr>tail := p\<rparr>) \<and> queue_list (q\<lparr>tail := p\<rparr>) = queue_list q @ [v]"
proof -
  have "entries q = (entries q)[tail q := v]" using assms(3) by (metis list_update_id)
  then have "queue_push q v = Some (True, q\<lparr>tail := p\<rparr>)"
    using assms by (simp add: queue_push_def queue_size_len queue_ok_def access_simps)
  then show ?thesis using queue_push_room [OF ok assms(2), of v] by auto
qed

lemma queue_forward_head:
  assumes ok: "queue_ok q" and "queue_len q \<noteq> 0" "entries q ! head q = v" "NEXT q (head q) = Some p"
  shows "queue_ok (q\<lparr>head := p\<rparr>) \<and> queue_list q = v # queue_list (q\<lparr>head := p\<rparr>)"
proof -
  obtain x xs where xs: "queue_list q = x # xs"
    using assms(2) length_queue_list [of q] by (cases "queue_list q") auto
  have "queue_pop q = Some (Some v, q\<lparr>head := p\<rparr>)"
    using assms by (simp add: queue_pop_def queue_size_len queue_ok_def access_simps)
  then show ?thesis using queue_pop_some [OF ok xs] xs by auto
qed

lemma outside_pc_inv: "outside pc \<Longrightarrow> pc_inv q pc"
  by (cases pc) auto

text \<open>A step of the thread that holds the mutex: only its own position and the queue matter.\<close>

lemma cq_inv_inside:
  assumes inv: "cq_inv cap s" and t: "\<not> outside (pcs s t)"
    and s': "owner s' = owner s" "pcs s' = (pcs s)(t := pc)" "\<not> outside pc"
    and q: "queue_ok (shared s')" "q_capacity (shared s') = cap" "pc_inv (shared s') pc"
    and h: "map snd (hist s') = fst (fifo_ref cap [] (map fst (hist s')))"
      "queue_list (shared s') = snd (fifo_ref cap [] (map fst (hist s')))"
  shows "cq_inv cap s'"
proof -
  have own: "owner s = Some t" using inv t by (auto simp: cq_inv_def)
  then have "outside (pcs s u)" if "u \<noteq> t" for u using inv that by (auto simp: cq_inv_def)
  then show ?thesis
    using own s' q h by (auto simp: cq_inv_def intro: outside_pc_inv)
qed

lemma cq_inv_hist:
  assumes "cq_inv cap s"
  shows "fifo_ref cap [] (map fst (hist s) @ [op]) =
    (map snd (hist s) @ fst (fifo_ref cap (queue_list (shared s)) [op]), snd (fifo_ref cap (queue_list (shared s)) [op]))"
  using assms by (simp add: fifo_ref_append cq_inv_def)

lemma cq_step_inv:
  assumes "cq_step s s'" and inv: "cq_inv cap s"
  shows "cq_inv cap s'"
proof -
  have ok: "queue_ok (shared s)" "q_capacity (shared s) = cap"
    and hist: "map snd (hist s) = fst (fifo_ref cap [] (map fst (hist s)))"
      "queue_list (shared s) = snd (fifo_ref cap [] (map fst (hist s)))"
    and pc: "\<And>t. pc_inv (shared s) (pcs s t)"
    using inv by (simp_all add: cq_inv_def)
  note refl = cq_inv_hist [OF inv]
  from assms(1) show ?thesis
  proof cases
    case (call t op)
    then show ?thesis using inv by (auto simp: cq_inv_def)
  next
    case (acquire t op)
    then show ?thesis using inv by (auto simp: cq_inv_def)
  next
    case (check t op n)
    then show ?thesis
      using inv ok by (intro cq_inv_inside [OF inv, of t _ "Checked op n"]) (auto simp: hist queue_size_len)
  next
    case (size_done t n)
    then show ?thesis
      using ok pc [of t] refl [of Size]
      by (intro cq_inv_inside [OF inv, of t _ "Leaving (Counted n)"]) (auto simp: complete_def)
  next
    case (push_full t v n)
    then show ?thesis
      using ok pc [of t] refl [of "Push v"]
      by (intro cq_inv_inside [OF inv, of t _ "Leaving (Pushed False)"]) (auto simp: complete_def)
  next
    case (push_store t v n es)
    then have "es = (entries (shared s))[tail (shared s) := v]" by (simp add: wr_eq_Some)
    then show ?thesis
      using push_store ok pc [of t] queue_store [OF ok(1), of v]
      by (intro cq_inv_inside [OF inv, of t _ "Stored v"]) (auto simp: hist queue_ok_def)
  next
    case (push_forward t v p)
    then show ?thesis
      using ok pc [of t] queue_forward_tail [OF ok(1), of v p] refl [of "Push v"] length_queue_list [of "shared s"]
      by (intro cq_inv_inside [OF inv, of t _ "Leaving (Pushed True)"]) (auto simp: complete_def)
  next
    case (pop_none t)
    then have "queue_list (shared s) = []" using pc [of t] by (simp flip: length_0_conv)
    then show ?thesis
      using pop_none ok pc [of t] refl [of Pop]
      by (intro cq_inv_inside [OF inv, of t _ "Leaving (Popped None)"]) (auto simp: complete_def)
  next
    case (pop_load t n v)
    then show ?thesis
      using ok pc [of t] by (intro cq_inv_inside [OF inv, of t _ "Loaded v"]) (auto simp: hist rd_eq_Some)
  next
    case (pop_forward t v p)
    then show ?thesis
      using ok pc [of t] queue_forward_head [OF ok(1), of v p] refl [of Pop]
      by (intro cq_inv_inside [OF inv, of t _ "Leaving (Popped (Some v))"]) (auto simp: complete_def)
  next
    case (release t r)
    then show ?thesis using inv by (auto simp: cq_inv_def) (metis option.inject outside.simps(7))+
  qed
qed

lemma cq_reachable_inv: "cq_reachable cap s \<Longrightarrow> cq_inv cap s"
proof (induction rule: cq_reachable.induct)
  case (start q)
  then show ?case by (simp add: cq_inv_def)
next
  case (step s s')
  then show ?case using cq_step_inv by blast
qed

lemma cq_progress:
  assumes inv: "cq_inv cap s" and t: "\<not> outside (pcs s t)"
  shows "\<exists>s'. cq_step s s' \<and> pcs s' t \<noteq> pcs s t"
proof -
  have ok: "queue_ok (shared s)" and pc: "pc_inv (shared s) (pcs s t)"
    using inv by (simp_all add: cq_inv_def)
  then have next_ok: "\<exists>p'. NEXT (shared s) p = Some p'" for p by (simp add: NEXT_def queue_ok_def)
  have acc: "\<exists>es. wr (entries (shared s)) (tail (shared s)) v = Some es"
    "\<exists>v. rd (entries (shared s)) (head (shared s)) = Some v" for v
    using ok by (auto simp: queue_ok_def access_simps)
  show ?thesis
  proof (cases "pcs s t")
    case (Inside op)
    then show ?thesis using cq_step.check [OF Inside queue_size_len [OF ok]] by fastforce
  next
    case (Checked op n)
    show ?thesis
    proof (cases op)
      case (Push v)
      show ?thesis
      proof (cases "n < q_capacity (shared s)")
        case True
        then show ?thesis using cq_step.push_store Checked Push acc(1) [of v] by fastforce
      next
        case False
        then show ?thesis using cq_step.push_full [of s t v n] Checked Push by (fastforce simp: complete_def)
      qed
    next
      case Pop
      then show ?thesis
        using cq_step.pop_none [of s t] cq_step.pop_load [of s t n] Checked acc(2)
        by (cases "n = 0") (fastforce simp: complete_def)+
    next
      case Size
      then show ?thesis using cq_step.size_done [of s t n] Checked by (fastforce simp: complete_def)
    qed
  next
    case (Stored v)
    then show ?thesis using cq_step.push_forward [OF Stored] next_ok by (fastforce simp: complete_def)
  next
    case (Loaded v)
    then show ?thesis using cq_step.pop_forward [OF Loaded] next_ok by (fastforce simp: complete_def)
  next
    case (Leaving r)
    then show ?thesis using cq_step.release [OF Leaving] by fastforce
  qed (use t in auto)
qed

text \<open>
  C15. The locked queue is linearizable. In every state that interleaved threads can reach, at most one
  thread is inside a guarded statement, the results returned so far are those of a bounded list
  to which the operations were applied one after another in the order they completed, and a thread
  inside is never stuck: no access to the ring buffer can fault.
\<close>

theorem conqueue_linearizable:
  assumes "cq_reachable cap s"
  shows "(\<forall>t u. \<not> outside (pcs s t) \<and> \<not> outside (pcs s u) \<longrightarrow> t = u) \<and>
    map snd (hist s) = fst (fifo_ref cap [] (map fst (hist s))) \<and>
    queue_list (shared s) = snd (fifo_ref cap [] (map fst (hist s))) \<and>
    (\<forall>t. \<not> outside (pcs s t) \<longrightarrow> (\<exists>s'. cq_step s s' \<and> pcs s' t \<noteq> pcs s t))"
proof -
  have inv: "cq_inv cap s" using cq_reachable_inv [OF assms] .
  then have "\<forall>t u. \<not> outside (pcs s t) \<and> \<not> outside (pcs s u) \<longrightarrow> t = u" by (auto simp: cq_inv_def)
  then show ?thesis using inv cq_progress [OF inv] by (simp add: cq_inv_def)
qed

definition contended :: "nat cq_sys" where
  "contended = \<lparr>shared = \<lparr>q_capacity = 1, entry_num = 2, head = 0, tail = 0, entries = [0, 0]\<rparr>,
     owner = Some 1, pcs = (\<lambda>_. Idle)(1 := Inside (Push 5), 2 := Waiting Pop), hist = []\<rparr>"

lemma contended_reachable: "cq_reachable 1 contended"
proof -
  let ?q = "\<lparr>q_capacity = 1, entry_num = 2, head = 0, tail = 0, entries = [0, 0 :: nat]\<rparr>"
  let ?s0 = "\<lparr>shared = ?q, owner = None, pcs = (\<lambda>_. Idle), hist = []\<rparr>"
  let ?s1 = "goto 2 (Waiting Pop) ?s0"
  let ?s2 = "goto 1 (Waiting (Push 5)) ?s1"
  have "cq_reachable 1 ?s0"
    by (rule cq_reachable.start) (simp_all add: queue_ok_def queue_list_def queue_len_def)
  then have "cq_reachable 1 ?s1" by (rule cq_reachable.step) (rule cq_step.call, simp)
  then have "cq_reachable 1 ?s2" by (rule cq_reachable.step) (rule cq_step.call, simp)
  then have "cq_reachable 1 (goto 1 (Inside (Push 5)) ?s2\<lparr>owner := Some 1\<rparr>)"
    by (rule cq_reachable.step) (rule cq_step.acquire, simp_all)
  moreover have "goto 1 (Inside (Push 5)) ?s2\<lparr>owner := Some 1\<rparr> = contended"
    by (auto simp: contended_def)
  ultimately show ?thesis by simp
qed

theorem conqueue_linearizable_witness:
  "cq_reachable 1 contended \<and> queue_list (shared contended) = snd (fifo_ref 1 [] (map fst (hist contended))) \<and>
    (\<exists>s'. cq_step contended s' \<and> pcs s' 1 \<noteq> pcs contended 1)"
proof -
  have "\<not> outside (pcs contended 1)" by (simp add: contended_def)
  then show ?thesis using conqueue_linearizable [OF contended_reachable] contended_reachable by blast
qed

end
