(* ===== verification/Worker_Queue.thy ===== *)
theory Worker_Queue
  imports Conqueue
begin

text \<open>
  The buffer pool of \<^verbatim>\<open>src/src/main/dispatcher/pool.c\<close> and the message queue of a worker,
  \<^verbatim>\<open>src/src/main/dispatcher/worker.c\<close>. A buffer is its address; a message lives in a pool
  buffer, so the worker's memory is a function from addresses to messages. The kernel's event counter
  (\<open>eventfd\<close>) is a number: writing adds to it, reading returns it and sets it to zero.
\<close>

section \<open>The pool\<close>

record pool_t =
  p_queue :: "nat conqueue_t"
  p_capacity :: nat
  p_size :: nat

text \<open>The header of a pool buffer is one pointer, to the pool it came from.\<close>

definition pool_header :: nat where
  "pool_header = 8"

text \<open>
  \<open>alloc i\<close> is the address that the allocation of the \<open>i\<close>-th buffer returns. The loop counter is an
  \<open>int\<close>, which the capacity must fit.
\<close>

definition pool_init :: "(nat \<Rightarrow> nat) \<Rightarrow> (nat \<Rightarrow> nat) \<Rightarrow> nat \<Rightarrow> nat \<Rightarrow> pool_t option" where
  "pool_init mem alloc cap sz = do {
     q \<leftarrow> conqueue_init mem cap;
     ensure (cap < 2 ^ 31);
     q \<leftarrow> for_up 0 cap (\<lambda>i q. do { (ok, q) \<leftarrow> conqueue_push q (alloc i); Some q }) q;
     Some \<lparr>p_queue = q, p_capacity = cap, p_size = sz\<rparr>
   }"

definition pool_new :: "pool_t \<Rightarrow> (nat option \<times> pool_t) option" where
  "pool_new p = do {
     (pb, q) \<leftarrow> conqueue_pop (p_queue p);
     Some (map_option (\<lambda>pb. pb + pool_header) pb, p\<lparr>p_queue := q\<rparr>)
   }"

text \<open>\<open>p\<close> is the pool that the header of the buffer names.\<close>

definition pool_free :: "pool_t \<Rightarrow> nat \<Rightarrow> pool_t option" where
  "pool_free p buffer = do {
     (ok, q) \<leftarrow> conqueue_push (p_queue p) (buffer - pool_header);
     ensure ok;
     Some (p\<lparr>p_queue := q\<rparr>)
   }"

text \<open>The draining loop, with the addresses it frees; \<open>None\<close> when \<open>fuel\<close> does not suffice.\<close>

fun drain :: "nat \<Rightarrow> nat conqueue_t \<Rightarrow> (nat list \<times> nat conqueue_t) option" where
  "drain 0 q = None"
| "drain (Suc fuel) q = do {
     (pb, q) \<leftarrow> conqueue_pop q;
     (case pb of None \<Rightarrow> Some ([], q)
      | Some pb \<Rightarrow> do { (freed, q) \<leftarrow> drain fuel q; Some (pb # freed, q) })
   }"

definition pool_destroy :: "pool_t \<Rightarrow> nat list option" where
  "pool_destroy p = do {
     (freed, q) \<leftarrow> drain (Suc (entry_num (cq_queue (p_queue p)))) (p_queue p);
     Some freed
   }"

definition pool_ok :: "nat \<Rightarrow> pool_t \<Rightarrow> bool" where
  "pool_ok cap p \<longleftrightarrow> conqueue_ok (p_queue p) \<and> conqueue_cap (p_queue p) = cap"

abbreviation pool_list :: "pool_t \<Rightarrow> nat list" where
  "pool_list p \<equiv> conqueue_list (p_queue p)"

lemma pool_init_ok:
  assumes "cap < 2 ^ 31"
  shows "\<exists>p. pool_init mem alloc cap sz = Some p \<and> pool_ok cap p \<and> pool_list p = map alloc [0..<cap]"
proof -
  have "cap + 1 < SIZE_MOD" using assms by (simp add: SIZE_MOD_def)
  then obtain q where q: "conqueue_init mem cap = Some q" "conqueue_ok q" "conqueue_list q = []" "conqueue_cap q = cap"
    using conqueue_init_ok by blast
  define P where "P = (\<lambda>i q. conqueue_ok q \<and> conqueue_cap q = cap \<and> conqueue_list q = map alloc [0..<i])"
  have "\<exists>q'. for_up 0 cap (\<lambda>i q. do { (ok, q) \<leftarrow> conqueue_push q (alloc i); Some q }) q = Some q' \<and> P cap q'"
  proof (rule for_up_rule)
    show "P 0 q" using q by (simp add: P_def)
  next
    fix i q assume i: "i < cap" and "P i q"
    then have P: "conqueue_ok q" "conqueue_cap q = cap" "conqueue_list q = map alloc [0..<i]"
      by (simp_all add: P_def)
    have "length (conqueue_list q) < conqueue_cap q" using P(2) i by (simp add: P(3) del: length_queue_list)
    then show "\<exists>q'. (do { (ok, q) \<leftarrow> conqueue_push q (alloc i); Some q }) = Some q' \<and> P (Suc i) q'"
      using conq.push_law [OF P(1), of "alloc i"] P by (auto simp: P_def)
  qed simp
  then show ?thesis using q assms by (auto simp: pool_init_def pool_ok_def P_def)
qed

lemma pool_new_cases:
  assumes "pool_ok cap p"
  obtains (got) pb p' where "pool_list p = pb # pool_list p'" "pool_new p = Some (Some (pb + pool_header), p')" "pool_ok cap p'"
  | (empty) "pool_list p = []" "pool_new p = Some (None, p)"
proof -
  have ok: "conqueue_ok (p_queue p)" using assms by (simp add: pool_ok_def)
  from ok show ?thesis
  proof (cases rule: conq.pop_cases)
    case (some x s')
    then show ?thesis
      using assms got [of x "p\<lparr>p_queue := s'\<rparr>"] by (simp add: pool_new_def pool_ok_def)
  next
    case none
    then show ?thesis using empty by (simp add: pool_new_def)
  qed
qed

lemma pool_free_room:
  assumes "pool_ok cap p" "length (pool_list p) < cap"
  shows "\<exists>p'. pool_free p (pb + pool_header) = Some p' \<and> pool_ok cap p' \<and> pool_list p' = pool_list p @ [pb]"
  using conq.push_law [of "p_queue p" pb] assms by (auto simp: pool_free_def pool_ok_def)

lemma drain_all:
  "conqueue_ok q \<Longrightarrow> length (conqueue_list q) < fuel \<Longrightarrow>
    \<exists>q'. drain fuel q = Some (conqueue_list q, q') \<and> conqueue_ok q'"
proof (induction fuel arbitrary: q)
  case (Suc fuel)
  from Suc.prems(1) show ?case
  proof (cases rule: conq.pop_cases)
    case (some x s')
    then show ?thesis using Suc.IH [of s'] Suc.prems(2) by (auto simp del: length_queue_list)
  next
    case none
    then show ?thesis using Suc.prems(1) by auto
  qed
qed simp

lemma pool_destroy_all:
  assumes "pool_ok cap p"
  shows "pool_destroy p = Some (pool_list p)"
proof -
  have "queue_ok (cq_queue (p_queue p))" using assms by (simp add: pool_ok_def conqueue_ok_def)
  then have "length (pool_list p) < Suc (entry_num (cq_queue (p_queue p)))"
    using queue_len_le [of "cq_queue (p_queue p)"] by (simp add: queue_ok_def)
  then show ?thesis
    using drain_all [of "p_queue p" "Suc (entry_num (cq_queue (p_queue p)))"] assms
    by (auto simp: pool_destroy_def pool_ok_def simp del: drain.simps)
qed

section \<open>Clients of the pool\<close>

text \<open>
  A client takes buffers and gives back only buffers it holds. \<open>held\<close> are the buffers it was given
  and has not returned.
\<close>

inductive pool_client :: "(nat \<Rightarrow> nat) \<Rightarrow> nat \<Rightarrow> pool_t \<Rightarrow> nat set \<Rightarrow> bool" for alloc cap where
  init: "pool_init mem alloc cap sz = Some p \<Longrightarrow> pool_client alloc cap p {}"
| new: "pool_client alloc cap p held \<Longrightarrow> pool_new p = Some (Some b, p') \<Longrightarrow> pool_client alloc cap p' (insert b held)"
| null: "pool_client alloc cap p held \<Longrightarrow> pool_new p = Some (None, p') \<Longrightarrow> pool_client alloc cap p' held"
| free: "pool_client alloc cap p held \<Longrightarrow> b \<in> held \<Longrightarrow> pool_free p b = Some p' \<Longrightarrow> pool_client alloc cap p' (held - {b})"

text \<open>The buffers of the pool are divided between its queue and the client.\<close>

definition pool_split :: "(nat \<Rightarrow> nat) \<Rightarrow> nat \<Rightarrow> pool_t \<Rightarrow> nat set \<Rightarrow> bool" where
  "pool_split alloc cap p held \<longleftrightarrow> pool_ok cap p \<and> distinct (pool_list p) \<and>
     (\<lambda>pb. pb + pool_header) ` set (pool_list p) \<inter> held = {} \<and>
     (\<lambda>pb. pb + pool_header) ` set (pool_list p) \<union> held = (\<lambda>i. alloc i + pool_header) ` {..<cap}"

lemma pool_split_card:
  assumes "pool_split alloc cap p held" "inj_on alloc {..<cap}"
  shows "length (pool_list p) + card held = cap" "finite held"
proof -
  let ?h = "\<lambda>pb. pb + pool_header"
  have un: "?h ` set (pool_list p) \<union> held = (\<lambda>i. alloc i + pool_header) ` {..<cap}"
    and di: "?h ` set (pool_list p) \<inter> held = {}" and dist: "distinct (pool_list p)"
    using assms(1) by (simp_all add: pool_split_def)
  have "finite (?h ` set (pool_list p) \<union> held)" unfolding un by simp
  then show fin: "finite held" by simp
  have "inj_on (\<lambda>i. alloc i + pool_header) {..<cap}" using assms(2) by (simp add: inj_on_def)
  then have "cap = card (?h ` set (pool_list p) \<union> held)" unfolding un by (simp add: card_image)
  also have "\<dots> = card (?h ` set (pool_list p)) + card held" using di fin by (simp add: card_Un_disjoint)
  also have "card (?h ` set (pool_list p)) = length (pool_list p)"
    using dist by (simp add: card_image distinct_card del: length_queue_list)
  finally show "length (pool_list p) + card held = cap" by simp
qed

lemma pool_split_held:
  assumes "pool_split alloc cap p held" "b \<in> held"
  obtains i where "b = alloc i + pool_header" "i < cap"
proof -
  have un: "(\<lambda>pb. pb + pool_header) ` set (pool_list p) \<union> held = (\<lambda>i. alloc i + pool_header) ` {..<cap}"
    using assms(1) by (simp add: pool_split_def)
  have "b \<in> (\<lambda>pb. pb + pool_header) ` set (pool_list p) \<union> held" using assms(2) by (rule UnI2)
  then show ?thesis using that unfolding un by blast
qed

lemma pool_client_split:
  assumes "pool_client alloc cap p held" and inj: "inj_on alloc {..<cap}"
  shows "pool_split alloc cap p held"
  using assms(1)
proof (induction rule: pool_client.induct)
  case (init mem sz p)
  then have "cap < 2 ^ 31" by (auto simp: pool_init_def bind_eq_Some_conv)
  then have "pool_ok cap p" "pool_list p = map alloc [0..<cap]"
    using pool_init_ok [of cap mem alloc sz] init by auto
  then show ?case using inj by (auto simp: pool_split_def distinct_map atLeast0LessThan)
next
  case (new p held b p')
  have "pool_ok cap p" using new.IH by (simp add: pool_split_def)
  then show ?case
  proof (cases rule: pool_new_cases)
    case (got pb p'')
    then show ?thesis using new by (auto simp: pool_split_def)
  qed (use new in simp)
next
  case (null p held p')
  have "pool_ok cap p" using null.IH by (simp add: pool_split_def)
  then show ?case by (cases rule: pool_new_cases) (use null in auto)
next
  case (free p held b p')
  have ok: "pool_ok cap p" using free.IH by (simp add: pool_split_def)
  have "card held \<noteq> 0" using free.hyps(2) pool_split_card(2) [OF free.IH inj] by auto
  then have room: "length (pool_list p) < cap" using pool_split_card(1) [OF free.IH inj] by simp
  obtain i where b: "b = alloc i + pool_header" "i < cap"
    using pool_split_held [OF free.IH free.hyps(2)] .
  then have "pool_ok cap p'" "pool_list p' = pool_list p @ [alloc i]"
    using pool_free_room [OF ok room, of "alloc i"] free.hyps(3) by auto
  moreover have "alloc i \<notin> set (pool_list p)" using free.IH free.hyps(2) b by (auto simp: pool_split_def)
  ultimately show ?case using free.IH free.hyps(2) b by (auto simp: pool_split_def)
qed

text \<open>
  C17. The pool hands out each buffer once. Whatever a client does with buffers it holds, \<open>pool_new\<close>
  never faults, returns only buffers that are not held, and \<open>NULL\<close> exactly when all \<open>capacity\<close>
  buffers are held; \<open>pool_free\<close> of a held buffer never trips its \<open>ensure\<close>; and \<open>pool_destroy\<close>
  ends and frees every buffer that is not held, once.
\<close>

theorem pool_conserves_buffers:
  assumes client: "pool_client alloc cap p held" and inj: "inj_on alloc {..<cap}"
  shows "(\<exists>r p'. pool_new p = Some (r, p') \<and> (r = None \<longleftrightarrow> card held = cap) \<and>
      (\<forall>b. r = Some b \<longrightarrow> b \<notin> held \<and> b \<in> (\<lambda>i. alloc i + pool_header) ` {..<cap})) \<and>
    (\<forall>b \<in> held. \<exists>p'. pool_free p b = Some p') \<and>
    (\<exists>freed. pool_destroy p = Some freed \<and> distinct freed \<and>
      (\<lambda>pb. pb + pool_header) ` set freed = (\<lambda>i. alloc i + pool_header) ` {..<cap} - held)"
proof (intro conjI ballI)
  have sp: "pool_split alloc cap p held" using pool_client_split [OF client inj] .
  then have ok: "pool_ok cap p" by (simp add: pool_split_def)
  note card = pool_split_card [OF sp inj]
  from ok show "\<exists>r p'. pool_new p = Some (r, p') \<and> (r = None \<longleftrightarrow> card held = cap) \<and>
      (\<forall>b. r = Some b \<longrightarrow> b \<notin> held \<and> b \<in> (\<lambda>i. alloc i + pool_header) ` {..<cap})"
  proof (cases rule: pool_new_cases)
    case (got pb p')
    then have "pb + pool_header \<notin> held" "pb + pool_header \<in> (\<lambda>i. alloc i + pool_header) ` {..<cap}"
      using sp by (auto simp: pool_split_def)
    moreover have "card held \<noteq> cap" using card(1) got(1) by (simp del: length_queue_list)
    ultimately show ?thesis using got(2) by auto
  next
    case empty
    then show ?thesis using card(1) by (simp del: length_queue_list)
  qed
  show "\<exists>p'. pool_free p b = Some p'" if "b \<in> held" for b
  proof -
    have "card held \<noteq> 0" using that card(2) by auto
    then have "length (pool_list p) < cap" using card(1) by simp
    moreover obtain i where "b = alloc i + pool_header" using pool_split_held [OF sp \<open>b \<in> held\<close>] .
    ultimately show ?thesis using pool_free_room [OF ok, of "alloc i"] by auto
  qed
  show "\<exists>freed. pool_destroy p = Some freed \<and> distinct freed \<and>
      (\<lambda>pb. pb + pool_header) ` set freed = (\<lambda>i. alloc i + pool_header) ` {..<cap} - held"
    using pool_destroy_all [OF ok] sp by (auto simp: pool_split_def)
qed

theorem pool_conserves_buffers_witness:
  "\<exists>p. pool_client (\<lambda>i. 100 * i) 3 p {8} \<and> (\<exists>b p'. pool_new p = Some (Some b, p') \<and> b \<noteq> 8) \<and>
    (\<exists>p'. pool_free p 8 = Some p') \<and>
    (\<exists>freed. pool_destroy p = Some freed \<and> distinct freed \<and>
      (\<lambda>pb. pb + pool_header) ` set freed = (\<lambda>i. 100 * i + pool_header) ` {..<3} - {8})"
proof -
  obtain p0 where p0: "pool_init (\<lambda>_. 0) (\<lambda>i. 100 * i) 3 24 = Some p0" "pool_ok 3 p0"
      "pool_list p0 = map (\<lambda>i. 100 * i) [0..<3]"
    using pool_init_ok [of 3 "\<lambda>_. 0" "\<lambda>i. 100 * i" 24] by auto
  obtain p where "pool_new p0 = Some (Some 8, p)"
    using p0(2) by (cases rule: pool_new_cases) (use p0(3) in \<open>auto simp: pool_header_def upt_rec\<close>)
  then have c: "pool_client (\<lambda>i. 100 * i) 3 p {8}"
    using pool_client.new [OF pool_client.init [OF p0(1)]] by simp
  have inj: "inj_on (\<lambda>i :: nat. 100 * i) {..<3}" by (simp add: inj_on_def)
  note all = pool_conserves_buffers [OF c inj]
  obtain r p' where r: "pool_new p = Some (r, p')" "r = None \<longleftrightarrow> card {8 :: nat} = 3" "\<forall>b. r = Some b \<longrightarrow> b \<notin> {8}"
    using all by blast
  then obtain b where "r = Some b" "b \<noteq> 8" by (cases r) auto
  then show ?thesis using c r(1) all by (intro exI [of _ p]) blast
qed

section \<open>The worker\<close>

text \<open>
  A message is a piece of data with the function that releases it. \<open>on_message\<close> and the
  release functions are code of the worker's client: the model records their calls, in order.
\<close>

record ('d, 'f) message_t =
  msg_data :: 'd
  msg_free :: 'f

datatype ('d, 'f) worker_event = On_message 'd | Free_message 'f 'd

record ('d, 'f) worker_t =
  w_mq :: "nat conqueue_t"
  w_pool :: pool_t
  w_efd :: nat
  w_mem :: "nat \<Rightarrow> ('d, 'f) message_t"
  w_capacity :: nat

text \<open>
  \<open>worker_init\<close>: \<open>fd\<close> is what \<open>eventfd\<close> returned; the error number is the result when it is negative.
\<close>

definition worker_init ::
    "int \<Rightarrow> int \<Rightarrow> (nat \<Rightarrow> nat) \<Rightarrow> (nat \<Rightarrow> nat) \<Rightarrow> (nat \<Rightarrow> ('d, 'f) message_t) \<Rightarrow> nat \<Rightarrow>
     (int + ('d, 'f) worker_t) option" where
  "worker_init fd err mem alloc contents cap =
     (if fd < 0 then Some (Inl err)
      else do {
        mq \<leftarrow> conqueue_init mem cap;
        p \<leftarrow> pool_init mem alloc cap 16;
        Some (Inr \<lparr>w_mq = mq, w_pool = p, w_efd = 0, w_mem = contents, w_capacity = cap\<rparr>)
      })"

text \<open>Adding to the counter fails when it would exceed \<open>2 ^ 64 - 2\<close>.\<close>

definition eventfd_write :: "nat \<Rightarrow> nat \<Rightarrow> nat option" where
  "eventfd_write counter n = (if counter + n \<le> 2 ^ 64 - 2 then Some (counter + n) else None)"

definition worker_send :: "('d, 'f) worker_t \<Rightarrow> 'd \<Rightarrow> 'f \<Rightarrow> (bool \<times> ('d, 'f) worker_t) option" where
  "worker_send w data release = do {
     (m, p) \<leftarrow> pool_new (w_pool w);
     (case m of None \<Rightarrow> Some (False, w\<lparr>w_pool := p\<rparr>)
      | Some m \<Rightarrow> do {
          let mem = (w_mem w)(m := \<lparr>msg_data = data, msg_free = release\<rparr>);
          (ok, mq) \<leftarrow> conqueue_push (w_mq w) m;
          ensure ok;
          n \<leftarrow> eventfd_write (w_efd w) 1;
          Some (True, w\<lparr>w_pool := p, w_mem := mem, w_mq := mq, w_efd := n\<rparr>)
        })
   }"

definition worker_deliver ::
    "('d, 'f) worker_t \<times> ('d, 'f) worker_event list \<Rightarrow> (('d, 'f) worker_t \<times> ('d, 'f) worker_event list) option" where
  "worker_deliver = (\<lambda>(w, log). do {
     (msg, mq) \<leftarrow> conqueue_pop (w_mq w);
     m \<leftarrow> msg;
     let msg = w_mem w m;
     let log = log @ [On_message (msg_data msg), Free_message (msg_free msg) (msg_data msg)];
     p \<leftarrow> pool_free (w_pool w) m;
     Some (w\<lparr>w_mq := mq, w_pool := p\<rparr>, log)
   })"

text \<open>The callback of the event descriptor; a read finds nothing when the counter is zero.\<close>

definition worker_callback ::
    "('d, 'f) worker_t \<Rightarrow> (('d, 'f) worker_t \<times> ('d, 'f) worker_event list) option" where
  "worker_callback w =
     (if w_efd w = 0 then Some (w, [])
      else for_up 0 (w_efd w) (\<lambda>i. worker_deliver) (w\<lparr>w_efd := 0\<rparr>, []))"

definition worker_message_count :: "('d, 'f) worker_t \<Rightarrow> nat option" where
  "worker_message_count w = conqueue_size (w_mq w)"

text \<open>
  \<open>worker_destroy\<close>: the queue is drained, every message released, then the pool is destroyed. \<open>rc\<close> is what \<open>close\<close>
  returned. The result lists the messages released and the buffers freed.
\<close>

fun worker_drain :: "nat \<Rightarrow> ('d, 'f) worker_t \<Rightarrow> (('d, 'f) message_t list \<times> ('d, 'f) worker_t) option" where
  "worker_drain 0 w = None"
| "worker_drain (Suc fuel) w = do {
     (msg, mq) \<leftarrow> conqueue_pop (w_mq w);
     (case msg of None \<Rightarrow> Some ([], w\<lparr>w_mq := mq\<rparr>)
      | Some m \<Rightarrow> do {
          p \<leftarrow> pool_free (w_pool w) m;
          (ms, w') \<leftarrow> worker_drain fuel (w\<lparr>w_mq := mq, w_pool := p\<rparr>);
          Some (w_mem w m # ms, w')
        })
   }"

definition worker_destroy :: "int \<Rightarrow> int \<Rightarrow> ('d, 'f) worker_t \<Rightarrow> (int \<times> ('d, 'f) message_t list \<times> nat list) option" where
  "worker_destroy rc err w = do {
     (released, w) \<leftarrow> worker_drain (Suc (entry_num (cq_queue (w_mq w)))) w;
     freed \<leftarrow> pool_destroy (w_pool w);
     Some (if rc \<noteq> 0 then err else 0, released, freed)
   }"

subsection \<open>The invariant\<close>

text \<open>Every buffer is free or holds a queued message, and the counter counts the queued messages.\<close>

definition worker_ok :: "nat \<Rightarrow> ('d, 'f) worker_t \<Rightarrow> bool" where
  "worker_ok cap w \<longleftrightarrow> conqueue_ok (w_mq w) \<and> conqueue_cap (w_mq w) = cap \<and> pool_ok cap (w_pool w) \<and> cap < 2 ^ 31 \<and>
     w_efd w = length (conqueue_list (w_mq w)) \<and>
     length (pool_list (w_pool w)) + length (conqueue_list (w_mq w)) = cap \<and>
     (\<forall>m \<in> set (conqueue_list (w_mq w)). pool_header \<le> m) \<and>
     distinct (map (\<lambda>pb. pb + pool_header) (pool_list (w_pool w)) @ conqueue_list (w_mq w))"

definition pending :: "('d, 'f) worker_t \<Rightarrow> ('d, 'f) message_t list" where
  "pending w = map (w_mem w) (conqueue_list (w_mq w))"

definition delivery :: "('d, 'f) message_t \<Rightarrow> ('d, 'f) worker_event list" where
  "delivery m = [On_message (msg_data m), Free_message (msg_free m) (msg_data m)]"

lemma worker_init_ok:
  assumes "0 \<le> fd" "cap < 2 ^ 31" "inj_on alloc {..<cap}"
  shows "\<exists>w. worker_init fd err mem alloc contents cap = Some (Inr w) \<and> worker_ok cap w \<and> pending w = []"
proof -
  have "cap + 1 < SIZE_MOD" using assms(2) by (simp add: SIZE_MOD_def)
  then obtain mq where mq: "conqueue_init mem cap = Some mq" "conqueue_ok mq" "conqueue_list mq = []" "conqueue_cap mq = cap"
    using conqueue_init_ok by blast
  obtain p where p: "pool_init mem alloc cap 16 = Some p" "pool_ok cap p" "pool_list p = map alloc [0..<cap]"
    using pool_init_ok [OF assms(2)] by blast
  have "distinct (map (\<lambda>pb. pb + pool_header) (map alloc [0..<cap]))"
    using assms(3) by (auto simp: distinct_map atLeast0LessThan inj_on_def)
  then show ?thesis
    using assms mq p by (auto simp: worker_init_def worker_ok_def pending_def simp del: map_map length_queue_list)
qed

lemma worker_send_spec:
  assumes ok: "worker_ok cap w"
  shows "\<exists>w'. worker_send w d f = Some (length (pending w) < cap, w') \<and> worker_ok cap w' \<and>
    pending w' = (if length (pending w) < cap then pending w @ [\<lparr>msg_data = d, msg_free = f\<rparr>] else pending w)"
proof -
  let ?q = "conqueue_list (w_mq w)"
  have mq: "conqueue_ok (w_mq w)" "conqueue_cap (w_mq w) = cap" and p: "pool_ok cap (w_pool w)"
    and len: "length (pool_list (w_pool w)) + length ?q = cap"
    using ok by (simp_all add: worker_ok_def)
  from p show ?thesis
  proof (cases rule: pool_new_cases)
    case (got pb p')
    let ?m = "pb + pool_header"
    have room: "length ?q < conqueue_cap (w_mq w)"
      using len mq(2) got(1) by (simp del: length_queue_list)
    obtain mq' where mq': "conqueue_push (w_mq w) ?m = Some (True, mq')" "conqueue_ok mq'"
        "conqueue_list mq' = ?q @ [?m]" "conqueue_cap mq' = cap"
      using conq.push_law [OF mq(1) room, of ?m] mq(2) by auto
    have "w_efd w \<le> cap" "cap < 2 ^ 31" using ok by (auto simp: worker_ok_def)
    then have "eventfd_write (w_efd w) 1 = Some (Suc (w_efd w))" by (simp add: eventfd_write_def)
    moreover have "?m \<notin> set ?q" using ok got(1) by (auto simp: worker_ok_def)
    then have "map ((w_mem w)(?m := x)) ?q = map (w_mem w) ?q" for x by auto
    ultimately show ?thesis
      using ok got mq' room mq(2)
      by (auto simp: worker_send_def Let_def worker_ok_def pending_def simp del: length_queue_list map_eq_conv)
  next
    case empty
    then show ?thesis
      using len ok by (auto simp: worker_send_def pending_def simp del: length_queue_list)
  qed
qed

lemma worker_deliver_spec:
  assumes mq: "conqueue_ok (w_mq w)" "conqueue_list (w_mq w) = m # ms" "conqueue_cap (w_mq w) = cap"
    and p: "pool_ok cap (w_pool w)" "length (pool_list (w_pool w)) < cap" and m: "pool_header \<le> m"
  shows "\<exists>w'. worker_deliver (w, log) = Some (w', log @ delivery (w_mem w m)) \<and> conqueue_ok (w_mq w') \<and>
    conqueue_list (w_mq w') = ms \<and> conqueue_cap (w_mq w') = cap \<and> pool_ok cap (w_pool w') \<and>
    pool_list (w_pool w') = pool_list (w_pool w) @ [m - pool_header] \<and> w_mem w' = w_mem w \<and> w_efd w' = w_efd w"
proof -
  obtain mq' where "conqueue_pop (w_mq w) = Some (Some m, mq')" "conqueue_ok mq'" "conqueue_list mq' = ms"
      "conqueue_cap mq' = cap"
    using conq.pop_law [OF mq(1,2)] mq(3) by auto
  moreover obtain p' where "pool_free (w_pool w) m = Some p'" "pool_ok cap p'"
      "pool_list p' = pool_list (w_pool w) @ [m - pool_header]"
    using pool_free_room [OF p, of "m - pool_header"] m by auto
  ultimately show ?thesis by (simp add: worker_deliver_def delivery_def Let_def)
qed

lemma worker_callback_spec:
  fixes w :: "('d, 'f) worker_t"
  assumes ok: "worker_ok cap w"
  shows "\<exists>w'. worker_callback w = Some (w', concat (map delivery (pending w))) \<and> worker_ok cap w' \<and> pending w' = []"
proof -
  define ms where "ms = conqueue_list (w_mq w)"
  define fr where "fr = pool_list (w_pool w)"
  have len: "length fr + length ms = cap" "w_efd w = length ms"
    and hdr: "\<forall>m \<in> set ms. pool_header \<le> m" and dist: "distinct (map (\<lambda>pb. pb + pool_header) fr @ ms)"
    using ok by (simp_all add: worker_ok_def ms_def fr_def)
  define P where "P = (\<lambda>i (w' :: ('d, 'f) worker_t, log). conqueue_ok (w_mq w') \<and> conqueue_list (w_mq w') = drop i ms \<and>
    conqueue_cap (w_mq w') = cap \<and> pool_ok cap (w_pool w') \<and>
    pool_list (w_pool w') = fr @ map (\<lambda>m. m - pool_header) (take i ms) \<and> w_mem w' = w_mem w \<and> w_efd w' = 0 \<and>
    log = concat (map (\<lambda>m. delivery (w_mem w m)) (take i ms)))"
  have "\<exists>st. for_up 0 (length ms) (\<lambda>i. worker_deliver) (w\<lparr>w_efd := 0\<rparr>, []) = Some st \<and> P (length ms) st"
  proof (rule for_up_rule)
    show "P 0 (w\<lparr>w_efd := 0\<rparr>, [])"
      using ok by (simp add: P_def worker_ok_def ms_def fr_def)
  next
    fix i st assume i: "i < length ms" and Pi: "P i st"
    obtain w' log where st: "st = (w', log)" by (cases st)
    have P: "conqueue_ok (w_mq w')" "conqueue_list (w_mq w') = ms ! i # drop (Suc i) ms" "conqueue_cap (w_mq w') = cap"
      "pool_ok cap (w_pool w')" "pool_list (w_pool w') = fr @ map (\<lambda>m. m - pool_header) (take i ms)"
      using Pi i by (simp_all add: P_def st Cons_nth_drop_Suc)
    have "length (pool_list (w_pool w')) < cap" using P(5) len(1) i by (simp del: length_queue_list)
    then obtain w'' where "worker_deliver (w', log) = Some (w'', log @ delivery (w_mem w' (ms ! i)))"
      "conqueue_ok (w_mq w'')" "conqueue_list (w_mq w'') = drop (Suc i) ms" "conqueue_cap (w_mq w'') = cap"
      "pool_ok cap (w_pool w'')" "pool_list (w_pool w'') = pool_list (w_pool w') @ [ms ! i - pool_header]"
      "w_mem w'' = w_mem w'" "w_efd w'' = w_efd w'"
      using worker_deliver_spec [OF P(1-4), of log] hdr i by auto
    then show "\<exists>s'. worker_deliver st = Some s' \<and> P (Suc i) s'"
      using Pi i by (simp add: P_def st take_Suc_conv_app_nth)
  qed simp
  then obtain w' log where loop: "for_up 0 (length ms) (\<lambda>i. worker_deliver) (w\<lparr>w_efd := 0\<rparr>, []) = Some (w', log)"
    and P: "conqueue_ok (w_mq w')" "conqueue_list (w_mq w') = []" "conqueue_cap (w_mq w') = cap" "pool_ok cap (w_pool w')"
      "pool_list (w_pool w') = fr @ map (\<lambda>m. m - pool_header) ms" "w_efd w' = 0"
      "log = concat (map (\<lambda>m. delivery (w_mem w m)) ms)"
    by (auto simp: P_def)
  have "map (\<lambda>pb. pb + pool_header) (map (\<lambda>m. m - pool_header) ms) = ms"
    using hdr by (simp add: map_idI)
  then have "distinct (map (\<lambda>pb. pb + pool_header) (pool_list (w_pool w')))"
    using dist unfolding P(5) map_append by simp
  then have ok': "worker_ok cap w'"
    using P len ok by (simp add: worker_ok_def del: length_queue_list)
  show ?thesis
  proof (cases "ms = []")
    case True
    then show ?thesis using ok len by (auto simp: worker_callback_def pending_def ms_def)
  next
    case False
    then have "worker_callback w = Some (w', log)"
      using loop len(2) by (simp add: worker_callback_def)
    then show ?thesis
      using ok' P by (auto simp: pending_def ms_def comp_def)
  qed
qed

lemma worker_drain_all:
  assumes "conqueue_ok (w_mq w)" "conqueue_cap (w_mq w) = cap" "pool_ok cap (w_pool w)"
    "length (pool_list (w_pool w)) + length (conqueue_list (w_mq w)) = cap"
    "\<forall>m \<in> set (conqueue_list (w_mq w)). pool_header \<le> m" "length (conqueue_list (w_mq w)) < fuel"
  shows "\<exists>w'. worker_drain fuel w = Some (pending w, w') \<and> pool_ok cap (w_pool w') \<and>
    pool_list (w_pool w') = pool_list (w_pool w) @ map (\<lambda>m. m - pool_header) (conqueue_list (w_mq w))"
  using assms
proof (induction fuel arbitrary: w)
  case (Suc fuel)
  from Suc.prems(1) show ?case
  proof (cases rule: conq.pop_cases)
    case (some m mq)
    then have l: "length (pool_list (w_pool w)) < cap" "pool_header \<le> m" using Suc.prems(4,5) by (simp_all del: length_queue_list)
    obtain p where p: "pool_free (w_pool w) m = Some p" "pool_ok cap p" "pool_list p = pool_list (w_pool w) @ [m - pool_header]"
      using pool_free_room [OF Suc.prems(3) l(1), of "m - pool_header"] l(2) by auto
    have "\<exists>w'. worker_drain fuel (w\<lparr>w_mq := mq, w_pool := p\<rparr>) = Some (pending (w\<lparr>w_mq := mq, w_pool := p\<rparr>), w') \<and>
        pool_ok cap (w_pool w') \<and> pool_list (w_pool w') = pool_list p @ map (\<lambda>m. m - pool_header) (conqueue_list mq)"
      using Suc.IH [of "w\<lparr>w_mq := mq, w_pool := p\<rparr>"] Suc.prems some p(2) by (simp add: p(3) del: length_queue_list)
    then show ?thesis using some p by (auto simp: pending_def)
  next
    case none
    then show ?thesis using Suc.prems by (auto simp: pending_def)
  qed
qed simp

text \<open>\<open>worker_destroy\<close> releases every message that was not delivered, in order, and frees every buffer.\<close>

lemma worker_destroy_spec:
  assumes ok: "worker_ok cap w"
  shows "worker_destroy rc err w = Some (if rc \<noteq> 0 then err else 0, pending w,
    pool_list (w_pool w) @ map (\<lambda>m. m - pool_header) (conqueue_list (w_mq w)))"
proof -
  have q: "queue_ok (cq_queue (w_mq w))" using ok by (simp add: worker_ok_def conqueue_ok_def)
  then have "length (conqueue_list (w_mq w)) < Suc (entry_num (cq_queue (w_mq w)))"
    using queue_len_le [OF q] by (simp add: queue_ok_def)
  then obtain w' where "worker_drain (Suc (entry_num (cq_queue (w_mq w)))) w = Some (pending w, w')" "pool_ok cap (w_pool w')"
    "pool_list (w_pool w') = pool_list (w_pool w) @ map (\<lambda>m. m - pool_header) (conqueue_list (w_mq w))"
    using worker_drain_all [of w cap "Suc (entry_num (cq_queue (w_mq w)))"] ok
    by (auto simp: worker_ok_def simp del: worker_drain.simps length_queue_list)
  then show ?thesis using pool_destroy_all by (simp add: worker_destroy_def del: worker_drain.simps)
qed

text \<open>What a bounded mailbox answers to sends and wake-ups.\<close>

datatype ('d, 'f) worker_op = Send 'd 'f | Wake

datatype ('d, 'f) worker_answer = Sent bool | Delivered "('d, 'f) worker_event list"

fun mailbox :: "nat \<Rightarrow> ('d, 'f) message_t list \<Rightarrow> ('d, 'f) worker_op list \<Rightarrow> ('d, 'f) worker_answer list" where
  "mailbox cap ms [] = []"
| "mailbox cap ms (Send d f # ops) =
     (if length ms < cap then Sent True # mailbox cap (ms @ [\<lparr>msg_data = d, msg_free = f\<rparr>]) ops
      else Sent False # mailbox cap ms ops)"
| "mailbox cap ms (Wake # ops) = Delivered (concat (map delivery ms)) # mailbox cap [] ops"

fun worker_run :: "('d, 'f) worker_t \<Rightarrow> ('d, 'f) worker_op list \<Rightarrow> ('d, 'f) worker_answer list option" where
  "worker_run w [] = Some []"
| "worker_run w (Send d f # ops) = do {
     (ok, w) \<leftarrow> worker_send w d f;
     as \<leftarrow> worker_run w ops;
     Some (Sent ok # as)
   }"
| "worker_run w (Wake # ops) = do {
     (w, log) \<leftarrow> worker_callback w;
     as \<leftarrow> worker_run w ops;
     Some (Delivered log # as)
   }"

lemma worker_run_mailbox:
  "worker_ok cap w \<Longrightarrow> worker_run w ops = Some (mailbox cap (pending w) ops)"
proof (induction ops arbitrary: w)
  case (Cons op ops)
  show ?case
  proof (cases op)
    case (Send d f)
    then show ?thesis using worker_send_spec [OF Cons.prems, of d f] Cons.IH by fastforce
  next
    case Wake
    then show ?thesis using worker_callback_spec [OF Cons.prems] Cons.IH by fastforce
  qed
qed simp

text \<open>
  C16. A worker delivers every accepted message once, in order. From \<open>worker_init\<close>, for any sequence
  of sends and wake-ups none of the checks marked \<open>Should not fail\<close> fails: a send is refused exactly
  when \<open>mq_capacity\<close> messages are waiting, and a wake-up passes each waiting message to
  \<open>on_message\<close> and then to its release function, oldest first.
\<close>

theorem worker_delivers_in_order:
  assumes "0 \<le> fd" "cap < 2 ^ 31" "inj_on alloc {..<cap}"
  shows "\<exists>w. worker_init fd err mem alloc contents cap = Some (Inr w) \<and> worker_run w ops = Some (mailbox cap [] ops)"
proof -
  obtain w where "worker_init fd err mem alloc contents cap = Some (Inr w)" "worker_ok cap w" "pending w = []"
    using worker_init_ok [OF assms] by blast
  then show ?thesis using worker_run_mailbox [of cap w ops] by simp
qed

theorem worker_delivers_in_order_witness:
  "\<exists>w. worker_init 3 0 (\<lambda>_. 0) (\<lambda>i. 64 * i) (\<lambda>_. \<lparr>msg_data = ''x'', msg_free = (0 :: nat)\<rparr>) 2 = Some (Inr w) \<and>
    worker_run w [Send ''a'' 1, Send ''b'' 2, Send ''c'' 3, Wake, Wake, Send ''d'' 4] =
      Some (mailbox 2 [] [Send ''a'' 1, Send ''b'' 2, Send ''c'' 3, Wake, Wake, Send ''d'' 4])"
  by (rule worker_delivers_in_order) (simp_all add: inj_on_def)

end
