(* ===== verification/Timer_Heap.thy ===== *)
theory Timer_Heap
  imports C_Prelude "HOL-Library.Multiset"
begin

text \<open>
  The binary heap of \<^verbatim>\<open>src/src/main/utils/heap.c\<close>, which orders the timers of the dispatcher. An
  entry is its key, a \<open>long\<close>, with its value; keys are only compared. The heap occupies the first
  \<open>size\<close> elements of the buffer.

  The locale \<open>prio_queue\<close> is the contract of a bounded priority queue over multisets of entries.
\<close>

section \<open>The contract of a bounded priority queue\<close>

text \<open>
  A client that pushes entries, and one that pops until it is told that nothing is left. \<open>fuel\<close>
  bounds the number of pops; \<open>None\<close> when it does not suffice.
\<close>

fun prio_push_all :: "('s \<Rightarrow> int \<Rightarrow> 'v \<Rightarrow> (bool \<times> 's) option) \<Rightarrow> 's \<Rightarrow> (int \<times> 'v) list \<Rightarrow> (bool list \<times> 's) option" where
  "prio_push_all push s [] = Some ([], s)"
| "prio_push_all push s ((k, v) # es) = do {
     (ok, s) \<leftarrow> push s k v;
     (oks, s) \<leftarrow> prio_push_all push s es;
     Some (ok # oks, s)
   }"

fun prio_pop_all :: "('s \<Rightarrow> ((int \<times> 'v) option \<times> 's) option) \<Rightarrow> nat \<Rightarrow> 's \<Rightarrow> (int \<times> 'v) list option" where
  "prio_pop_all pop 0 s = None"
| "prio_pop_all pop (Suc fuel) s = do {
     (e, s) \<leftarrow> pop s;
     (case e of None \<Rightarrow> Some []
      | Some e \<Rightarrow> do { es \<leftarrow> prio_pop_all pop fuel s; Some (e # es) })
   }"

locale prio_queue =
  fixes push :: "'s \<Rightarrow> int \<Rightarrow> 'v \<Rightarrow> (bool \<times> 's) option"
    and pop :: "'s \<Rightarrow> ((int \<times> 'v) option \<times> 's) option"
    and front :: "'s \<Rightarrow> (int \<times> 'v) option option"
    and inv :: "'s \<Rightarrow> bool"
    and abs :: "'s \<Rightarrow> (int \<times> 'v) multiset"
    and cap :: "'s \<Rightarrow> nat"
  assumes bounded: "inv s \<Longrightarrow> size (abs s) \<le> cap s"
    and push_law: "inv s \<Longrightarrow> size (abs s) < cap s \<Longrightarrow>
      \<exists>s'. push s k v = Some (True, s') \<and> inv s' \<and> abs s' = add_mset (k, v) (abs s) \<and> cap s' = cap s"
    and push_full: "inv s \<Longrightarrow> size (abs s) = cap s \<Longrightarrow> push s k v = Some (False, s)"
    and front_law: "inv s \<Longrightarrow> abs s \<noteq> {#} \<Longrightarrow>
      \<exists>e. front s = Some (Some e) \<and> e \<in># abs s \<and> (\<forall>x \<in># abs s. fst e \<le> fst x)"
    and front_empty: "inv s \<Longrightarrow> abs s = {#} \<Longrightarrow> front s = Some None"
    and pop_law: "inv s \<Longrightarrow> front s = Some (Some e) \<Longrightarrow>
      \<exists>s'. pop s = Some (Some e, s') \<and> inv s' \<and> add_mset e (abs s') = abs s \<and> cap s' = cap s"
    and pop_empty: "inv s \<Longrightarrow> abs s = {#} \<Longrightarrow> pop s = Some (None, s)"
begin

lemma pop_cases:
  assumes "inv s"
  obtains (some) e s' where "pop s = Some (Some e, s')" "front s = Some (Some e)" "inv s'" "abs s = add_mset e (abs s')"
      "cap s' = cap s" "\<forall>x \<in># abs s'. fst e \<le> fst x"
  | (none) "abs s = {#}" "pop s = Some (None, s)"
proof (cases "abs s = {#}")
  case True
  then show ?thesis using assms pop_empty none by blast
next
  case False
  obtain e where e: "front s = Some (Some e)" "\<forall>x \<in># abs s. fst e \<le> fst x"
    using front_law [OF assms False] by blast
  then obtain s' where "pop s = Some (Some e, s')" "inv s'" "add_mset e (abs s') = abs s" "cap s' = cap s"
    using pop_law [OF assms] by blast
  moreover have "\<forall>x \<in># abs s'. fst e \<le> fst x" using e(2) by (simp flip: calculation(3))
  ultimately show ?thesis using some e(1) by metis
qed

lemma push_all_spec:
  "inv s \<Longrightarrow> \<exists>s'. prio_push_all push s es = Some (map (\<lambda>i. size (abs s) + i < cap s) [0..<length es], s') \<and>
    inv s' \<and> cap s' = cap s \<and> abs s' = abs s + mset (take (cap s - size (abs s)) es)"
proof (induction es arbitrary: s)
  case (Cons e es)
  obtain k v where e: "e = (k, v)" by (cases e)
  have upt: "map f [0..<length (e # es)] = f 0 # map (\<lambda>i. f (Suc i)) [0..<length es]" for f :: "nat \<Rightarrow> bool"
    by (simp add: upt_conv_Cons map_Suc_upt [symmetric] del: upt_Suc)
  show ?case
  proof (cases "size (abs s) < cap s")
    case True
    obtain s1 where s1: "push s k v = Some (True, s1)" "inv s1" "abs s1 = add_mset (k, v) (abs s)" "cap s1 = cap s"
      using push_law [OF Cons.prems True] by blast
    moreover have "cap s - size (abs s) = Suc (cap s - Suc (size (abs s)))" using True by simp
    ultimately show ?thesis using Cons.IH [OF s1(2)] True unfolding e [symmetric] upt by (auto simp: e)
  next
    case False
    then have eq: "size (abs s) = cap s" using bounded [OF Cons.prems] by simp
    then have "push s k v = Some (False, s)" using push_full Cons.prems by simp
    then show ?thesis using Cons.IH [OF Cons.prems] eq unfolding upt by (auto simp: e)
  qed
qed auto

lemma pop_all_sorted:
  "inv s \<Longrightarrow> size (abs s) < fuel \<Longrightarrow>
    \<exists>es. prio_pop_all pop fuel s = Some es \<and> mset es = abs s \<and> sorted (map fst es)"
proof (induction fuel arbitrary: s)
  case (Suc fuel)
  from Suc.prems(1) show ?case
  proof (cases rule: pop_cases)
    case (some e s')
    then obtain es where es: "prio_pop_all pop fuel s' = Some es" "mset es = abs s'" "sorted (map fst es)"
      using Suc.IH [OF some(3)] Suc.prems(2) by auto
    have "\<forall>x \<in> set es. fst e \<le> fst x" using some(6) es(2) by (metis set_mset_mset)
    then show ?thesis using some es by auto
  next
    case none
    then show ?thesis by simp
  qed
qed simp

end

section \<open>The code\<close>

type_synonym 'v entry_t = "int \<times> 'v"

record 'v heap_t =
  h_capacity :: nat
  h_size :: nat
  h_buffer :: "'v entry_t list"

definition make_heap :: "(nat \<Rightarrow> 'v entry_t) \<Rightarrow> nat \<Rightarrow> 'v heap_t" where
  "make_heap mem cap = \<lparr>h_capacity = cap, h_size = 0, h_buffer = map mem [0..<cap]\<rparr>"

definition left :: "nat \<Rightarrow> nat" where "left n = 2 * n + 1"
definition right :: "nat \<Rightarrow> nat" where "right n = 2 * n + 2"
definition parent :: "nat \<Rightarrow> nat" where "parent n = (n - 1) div 2"

text \<open>The smaller child of \<open>n\<close>, whose left child exists.\<close>

definition min_child :: "nat \<Rightarrow> 'v entry_t list \<Rightarrow> nat \<Rightarrow> (nat \<times> 'v entry_t) option" where
  "min_child sz buf n = do {
     let l = left n;
     let r = right n;
     e \<leftarrow> rd buf l;
     if r < sz then do {
       e' \<leftarrow> rd buf r;
       Some (if fst e' < fst e then (r, e') else (l, e))
     } else Some (l, e)
   }"

lemma min_child_bounds:
  "min_child sz buf n = Some (mc, e) \<Longrightarrow> left n < sz \<Longrightarrow> n < mc \<and> mc < sz"
  by (auto simp: min_child_def left_def right_def Let_def bind_eq_Some_conv split: if_splits)

function shift_down :: "nat \<Rightarrow> 'v entry_t list \<Rightarrow> nat \<Rightarrow> 'v entry_t list option" where
  "shift_down sz buf n =
     (if left n \<ge> sz then Some buf
      else case min_child sz buf n of None \<Rightarrow> None
        | Some (mc, mc_entry) \<Rightarrow> do {
            e \<leftarrow> rd buf n;
            if fst e \<le> fst mc_entry then Some buf
            else do {
              buf \<leftarrow> wr buf mc e;
              buf \<leftarrow> wr buf n mc_entry;
              shift_down sz buf mc
            }
          })"
  by pat_completeness auto
termination
  by (relation "measure (\<lambda>(sz, buf, n). sz - n)") (auto dest!: min_child_bounds)

function shift_up :: "'v entry_t list \<Rightarrow> nat \<Rightarrow> 'v entry_t list option" where
  "shift_up buf n =
     (if n > 0 then do {
        let p = parent n;
        p_entry \<leftarrow> rd buf p;
        e \<leftarrow> rd buf n;
        if fst p_entry \<le> fst e then Some buf
        else do {
          buf \<leftarrow> wr buf p e;
          buf \<leftarrow> wr buf n p_entry;
          shift_up buf p
        }
      } else Some buf)"
  by pat_completeness auto
termination
  by (relation "measure (\<lambda>(buf, n). n)") (auto simp: parent_def)

declare shift_down.simps [simp del] shift_up.simps [simp del]

definition heap_capacity :: "'v heap_t \<Rightarrow> nat" where
  "heap_capacity h = h_capacity h"

definition heap_size :: "'v heap_t \<Rightarrow> nat" where
  "heap_size h = h_size h"

text \<open>The results of \<open>heap_head\<close> and \<open>heap_pop\<close>: \<open>None\<close> for \<open>false\<close>, otherwise the key and the value.\<close>

definition heap_head :: "'v heap_t \<Rightarrow> 'v entry_t option option" where
  "heap_head h = (if h_size h = 0 then Some None else do { e \<leftarrow> rd (h_buffer h) 0; Some (Some e) })"

definition heap_push :: "'v heap_t \<Rightarrow> int \<Rightarrow> 'v \<Rightarrow> (bool \<times> 'v heap_t) option" where
  "heap_push h key v = do {
     let sz = h_size h;
     if sz \<ge> h_capacity h then Some (False, h)
     else do {
       buf \<leftarrow> wr (h_buffer h) sz (key, v);
       buf \<leftarrow> shift_up buf sz;
       Some (True, h\<lparr>h_size := sz + 1, h_buffer := buf\<rparr>)
     }
   }"

definition heap_pop :: "'v heap_t \<Rightarrow> ('v entry_t option \<times> 'v heap_t) option" where
  "heap_pop h = do {
     hd \<leftarrow> heap_head h;
     (case hd of None \<Rightarrow> Some (None, h)
      | Some e \<Rightarrow> do {
          let sz = h_size h - 1;
          last \<leftarrow> rd (h_buffer h) sz;
          buf \<leftarrow> wr (h_buffer h) 0 last;
          buf \<leftarrow> shift_down sz buf 0;
          Some (Some e, h\<lparr>h_size := sz, h_buffer := buf\<rparr>)
        })
   }"

section \<open>Heap order\<close>

definition key_at :: "'v entry_t list \<Rightarrow> nat \<Rightarrow> int" where
  "key_at buf i = fst (buf ! i)"

definition ordered :: "nat \<Rightarrow> 'v entry_t list \<Rightarrow> bool" where
  "ordered sz buf \<longleftrightarrow> (\<forall>i. 0 < i \<and> i < sz \<longrightarrow> key_at buf (parent i) \<le> key_at buf i)"

text \<open>Order except between \<open>n\<close> and its parent, as \<open>shift_up\<close> maintains it.\<close>

definition up_inv :: "nat \<Rightarrow> 'v entry_t list \<Rightarrow> nat \<Rightarrow> bool" where
  "up_inv sz buf n \<longleftrightarrow>
     (\<forall>i. 0 < i \<and> i < sz \<and> i \<noteq> n \<longrightarrow> key_at buf (parent i) \<le> key_at buf i) \<and>
     (\<forall>i. 0 < i \<and> i < sz \<and> parent i = n \<and> 0 < n \<longrightarrow> key_at buf (parent n) \<le> key_at buf i)"

text \<open>Order except between \<open>n\<close> and its children, as \<open>shift_down\<close> maintains it.\<close>

definition down_inv :: "nat \<Rightarrow> 'v entry_t list \<Rightarrow> nat \<Rightarrow> bool" where
  "down_inv sz buf n \<longleftrightarrow>
     (\<forall>i. 0 < i \<and> i < sz \<and> parent i \<noteq> n \<longrightarrow> key_at buf (parent i) \<le> key_at buf i) \<and>
     (\<forall>i. 0 < i \<and> i < sz \<and> parent i = n \<and> 0 < n \<longrightarrow> key_at buf (parent n) \<le> key_at buf i)"

lemma parent_less: "0 < n \<Longrightarrow> parent n < n"
  by (auto simp: parent_def)

lemma parent_child: "0 < i \<Longrightarrow> parent i = n \<longleftrightarrow> i = left n \<or> i = right n"
  by (auto simp: parent_def left_def right_def)

definition swap :: "'a list \<Rightarrow> nat \<Rightarrow> nat \<Rightarrow> 'a list" where
  "swap xs i j = xs[i := xs ! j, j := xs ! i]"

lemma length_swap [simp]: "length (swap xs i j) = length xs"
  by (simp add: swap_def)

lemma nth_swap: "i < length xs \<Longrightarrow> j < length xs \<Longrightarrow>
    swap xs i j ! k = (if k = j then xs ! i else if k = i then xs ! j else xs ! k)"
  by (auto simp: swap_def nth_list_update)

lemma key_swap: "i < length buf \<Longrightarrow> j < length buf \<Longrightarrow>
    key_at (swap buf i j) k = (if k = j then key_at buf i else if k = i then key_at buf j else key_at buf k)"
  by (simp add: key_at_def nth_swap)

lemma mset_take_swap: "i < n \<Longrightarrow> j < n \<Longrightarrow> n \<le> length xs \<Longrightarrow> mset (take n (swap xs i j)) = mset (take n xs)"
  unfolding swap_def take_update_swap
  using mset_swap [of j "take n xs" i] by (simp add: take_update_swap)

lemma up_inv_done:
  assumes "up_inv sz buf n" "n = 0 \<or> key_at buf (parent n) \<le> key_at buf n"
  shows "ordered sz buf"
  using assms by (auto simp: up_inv_def ordered_def)

lemma up_inv_swap:
  assumes inv: "up_inv sz buf n" and n: "0 < n" "n < sz" "sz \<le> length buf"
    and less: "key_at buf n < key_at buf (parent n)"
  shows "up_inv sz (swap buf (parent n) n) (parent n)"
proof -
  define p where "p = parent n"
  have pn: "p < n" using parent_less n(1) by (simp add: p_def)
  have len: "p < length buf" "n < length buf" using pn n by auto
  note key = key_swap [OF len]
  have par: "\<forall>i. 0 < i \<and> i < sz \<and> i \<noteq> n \<longrightarrow> key_at buf (parent i) \<le> key_at buf i"
    and gr: "\<forall>i. 0 < i \<and> i < sz \<and> parent i = n \<longrightarrow> key_at buf p \<le> key_at buf i"
    using inv n by (auto simp: up_inv_def p_def)
  have "key_at (swap buf p n) (parent i) \<le> key_at (swap buf p n) i" if i: "0 < i" "i < sz" "i \<noteq> p" for i
  proof -
    have "parent i < i" using i parent_less by simp
    then show ?thesis using par gr i less pn unfolding key p_def [symmetric]
      by (auto simp: p_def dest!: spec [of _ i])
  qed
  moreover have "key_at (swap buf p n) (parent p) \<le> key_at (swap buf p n) i"
    if i: "0 < i" "i < sz" "parent i = p" "0 < p" for i
  proof -
    have "parent p < p" using i parent_less by simp
    then have "key_at buf (parent p) \<le> key_at buf p" using par i pn n by (auto dest!: spec [of _ p])
    moreover have "key_at buf p \<le> key_at buf i" if "i \<noteq> n" using par i that by (auto dest!: spec [of _ i])
    moreover have "parent p \<noteq> n" "i \<noteq> p" using \<open>parent p < p\<close> pn i parent_less [of i] by auto
    ultimately show ?thesis using \<open>parent p < p\<close> i unfolding key by auto
  qed
  ultimately show ?thesis unfolding up_inv_def p_def by blast
qed

lemma shift_up_correct:
  "up_inv sz buf n \<Longrightarrow> n < sz \<Longrightarrow> sz \<le> length buf \<Longrightarrow>
    \<exists>buf'. shift_up buf n = Some buf' \<and> ordered sz buf' \<and> length buf' = length buf \<and>
      mset (take sz buf') = mset (take sz buf)"
proof (induction buf n rule: shift_up.induct)
  case (1 buf n)
  show ?case
  proof (cases "n = 0 \<or> key_at buf (parent n) \<le> key_at buf n")
    case True
    then have "shift_up buf n = Some buf"
      using 1(3,4) parent_less [of n] by (subst shift_up.simps) (auto simp: Let_def access_simps key_at_def)
    then show ?thesis using up_inv_done [OF 1(2) True] by simp
  next
    case False
    then have n: "0 < n" "key_at buf n < key_at buf (parent n)" by auto
    have pn: "parent n < n" using parent_less n by simp
    let ?b = "swap buf (parent n) n"
    have step: "shift_up buf n = shift_up ?b (parent n)"
      using n pn 1(3,4)
      by (subst shift_up.simps) (auto simp: Let_def access_simps key_at_def swap_def)
    have inv: "up_inv sz ?b (parent n)" using up_inv_swap [OF 1(2) n(1) 1(3,4) n(2)] .
    have "\<exists>buf'. shift_up ?b (parent n) = Some buf' \<and> ordered sz buf' \<and> length buf' = length ?b \<and>
        mset (take sz buf') = mset (take sz ?b)"
      using 1(1) [of "parent n" "buf ! parent n" "buf ! n" "buf[parent n := buf ! n]" ?b]
        n pn 1(3,4) inv by (auto simp: access_simps key_at_def swap_def)
    then show ?thesis using step pn 1(3,4) by (simp add: mset_take_swap)
  qed
qed

lemma min_child_spec:
  assumes "left n < sz" "sz \<le> length buf"
  shows "\<exists>mc. min_child sz buf n = Some (mc, buf ! mc) \<and> parent mc = n \<and> n < mc \<and> mc < sz \<and>
    (\<forall>i. 0 < i \<and> i < sz \<and> parent i = n \<longrightarrow> key_at buf mc \<le> key_at buf i)"
proof -
  have child: "i = left n \<or> i = right n" if "0 < i" "parent i = n" for i
    using that parent_child by blast
  have facts: "parent (left n) = n" "n < left n" "parent (right n) = n" "n < right n"
    by (simp_all add: left_def right_def parent_def)
  show ?thesis
  proof (cases "right n < sz \<and> key_at buf (right n) < key_at buf (left n)")
    case True
    have "key_at buf (right n) \<le> key_at buf i" if "0 < i \<and> i < sz \<and> parent i = n" for i
      using child [of i] that True by auto
    moreover have "min_child sz buf n = Some (right n, buf ! right n)"
      using True assms by (simp add: min_child_def Let_def access_simps key_at_def)
    ultimately show ?thesis using True facts by blast
  next
    case False
    have "key_at buf (left n) \<le> key_at buf i" if "0 < i \<and> i < sz \<and> parent i = n" for i
      using child [of i] that False by auto
    moreover have "min_child sz buf n = Some (left n, buf ! left n)"
      using False assms by (auto simp: min_child_def Let_def access_simps key_at_def)
    ultimately show ?thesis using assms(1) facts by blast
  qed
qed

lemma down_inv_done:
  assumes "down_inv sz buf n" "\<forall>i. 0 < i \<and> i < sz \<and> parent i = n \<longrightarrow> key_at buf n \<le> key_at buf i"
  shows "ordered sz buf"
  using assms by (auto simp: down_inv_def ordered_def)

lemma down_inv_swap:
  assumes inv: "down_inv sz buf n" and mc: "parent mc = n" "n < mc" "mc < sz" "sz \<le> length buf"
    and min: "\<forall>i. 0 < i \<and> i < sz \<and> parent i = n \<longrightarrow> key_at buf mc \<le> key_at buf i"
    and less: "key_at buf mc < key_at buf n"
  shows "down_inv sz (swap buf mc n) mc"
proof -
  have len: "mc < length buf" "n < length buf" using mc by auto
  note key = key_swap [OF len]
  have par: "\<forall>i. 0 < i \<and> i < sz \<and> parent i \<noteq> n \<longrightarrow> key_at buf (parent i) \<le> key_at buf i"
    and gr: "\<forall>i. 0 < i \<and> i < sz \<and> parent i = n \<and> 0 < n \<longrightarrow> key_at buf (parent n) \<le> key_at buf i"
    using inv by (auto simp: down_inv_def)
  have "key_at (swap buf mc n) (parent i) \<le> key_at (swap buf mc n) i" if i: "0 < i" "i < sz" "parent i \<noteq> mc" for i
  proof -
    have pi: "parent i < i" using i parent_less by simp
    consider "parent i = n" | "i = n" "parent i \<noteq> n" | "parent i \<noteq> n" "i \<noteq> n" by blast
    then show ?thesis
    proof cases
      case 1
      then show ?thesis using min i less pi mc(2) unfolding key by auto
    next
      case 2
      then have "key_at buf (parent n) \<le> key_at buf mc" using gr mc i by auto
      then show ?thesis using 2 i mc(2) unfolding key by auto
    next
      case 3
      then have "i \<noteq> mc" using mc(1) by auto
      then show ?thesis using 3 par i unfolding key by auto
    qed
  qed
  moreover have "key_at (swap buf mc n) (parent mc) \<le> key_at (swap buf mc n) i"
    if i: "0 < i" "i < sz" "parent i = mc" for i
  proof -
    have "mc < i" using i parent_less by auto
    moreover have "key_at buf mc \<le> key_at buf i" using par i mc by auto
    ultimately show ?thesis using mc(1,2) unfolding key by auto
  qed
  ultimately show ?thesis unfolding down_inv_def by blast
qed

lemma shift_down_correct:
  "down_inv sz buf n \<Longrightarrow> sz \<le> length buf \<Longrightarrow>
    \<exists>buf'. shift_down sz buf n = Some buf' \<and> ordered sz buf' \<and> length buf' = length buf \<and>
      mset (take sz buf') = mset (take sz buf)"
proof (induction sz buf n rule: shift_down.induct)
  case (1 sz buf n)
  show ?case
  proof (cases "left n < sz")
    case False
    then have "shift_down sz buf n = Some buf" by (subst shift_down.simps) simp
    moreover have "\<not> (0 < i \<and> i < sz \<and> parent i = n)" for i
      using False parent_child [of i n] by (auto simp: left_def right_def)
    then have "ordered sz buf" by (intro down_inv_done [OF 1(2)]) blast
    ultimately show ?thesis by simp
  next
    case True
    obtain mc where mc: "min_child sz buf n = Some (mc, buf ! mc)" "parent mc = n" "n < mc" "mc < sz"
      "\<forall>i. 0 < i \<and> i < sz \<and> parent i = n \<longrightarrow> key_at buf mc \<le> key_at buf i"
      using min_child_spec [OF True 1(3)] by blast
    have acc: "n < length buf" "mc < length buf" using mc(3,4) 1(3) by auto
    show ?thesis
    proof (cases "key_at buf n \<le> key_at buf mc")
      case le: True
      then have "shift_down sz buf n = Some buf"
        using True mc(1) acc by (subst shift_down.simps) (simp add: access_simps key_at_def)
      moreover have "ordered sz buf"
        by (rule down_inv_done [OF 1(2)]) (use mc(5) le in fastforce)
      ultimately show ?thesis by simp
    next
      case False
      let ?b = "swap buf mc n"
      have step: "shift_down sz buf n = shift_down sz ?b mc"
        using True mc(1) acc False
        by (subst shift_down.simps) (simp add: access_simps key_at_def swap_def)
      have inv: "down_inv sz ?b mc"
        using down_inv_swap [OF 1(2) mc(2-4) 1(3) mc(5)] False by simp
      have "\<exists>buf'. shift_down sz ?b mc = Some buf' \<and> ordered sz buf' \<and> length buf' = length ?b \<and>
          mset (take sz buf') = mset (take sz ?b)"
        using 1(1) [of "(mc, buf ! mc)" mc "buf ! mc" "buf ! n" "buf[mc := buf ! n]" ?b] True mc(1) acc False 1(3) inv
        by (simp add: access_simps key_at_def swap_def)
      then show ?thesis using step mc(3,4) 1(3) by (simp add: mset_take_swap)
    qed
  qed
qed

section \<open>The heap is a priority queue\<close>

definition heap_ok :: "'v heap_t \<Rightarrow> bool" where
  "heap_ok h \<longleftrightarrow> h_size h \<le> h_capacity h \<and> length (h_buffer h) = h_capacity h \<and> ordered (h_size h) (h_buffer h)"

definition heap_mset :: "'v heap_t \<Rightarrow> 'v entry_t multiset" where
  "heap_mset h = mset (take (h_size h) (h_buffer h))"

lemma size_heap_mset: "heap_ok h \<Longrightarrow> size (heap_mset h) = h_size h"
  by (simp add: heap_ok_def heap_mset_def)

text \<open>The root is minimal.\<close>

lemma ordered_root: "ordered sz buf \<Longrightarrow> i < sz \<Longrightarrow> key_at buf 0 \<le> key_at buf i"
proof (induction i rule: less_induct)
  case (less i)
  show ?case
  proof (cases "i = 0")
    case False
    then have p: "parent i < i" using parent_less by simp
    then have "key_at buf 0 \<le> key_at buf (parent i)" using less by simp
    also have "\<dots> \<le> key_at buf i" using less.prems False by (simp add: ordered_def)
    finally show ?thesis .
  qed simp
qed

lemma heap_push_room:
  assumes ok: "heap_ok h" and room: "h_size h < h_capacity h"
  shows "\<exists>h'. heap_push h k v = Some (True, h') \<and> heap_ok h' \<and> heap_mset h' = add_mset (k, v) (heap_mset h) \<and>
    h_capacity h' = h_capacity h"
proof -
  let ?b = "(h_buffer h)[h_size h := (k, v)]"
  have len: "length (h_buffer h) = h_capacity h" and ord: "ordered (h_size h) (h_buffer h)"
    using ok by (simp_all add: heap_ok_def)
  have same: "key_at ?b i = key_at (h_buffer h) i" if "i < h_size h" for i using that by (simp add: key_at_def)
  have "up_inv (Suc (h_size h)) ?b (h_size h)"
    unfolding up_inv_def
  proof (intro conjI allI impI)
    fix i assume i: "0 < i \<and> i < Suc (h_size h) \<and> i \<noteq> h_size h"
    then have "parent i < h_size h" using parent_less [of i] by simp
    then show "key_at ?b (parent i) \<le> key_at ?b i" using i ord same by (simp add: ordered_def)
  next
    fix i assume "0 < i \<and> i < Suc (h_size h) \<and> parent i = h_size h \<and> 0 < h_size h"
    then show "key_at ?b (parent (h_size h)) \<le> key_at ?b i" using parent_less [of i] by simp
  qed
  then obtain buf where buf: "shift_up ?b (h_size h) = Some buf" "ordered (Suc (h_size h)) buf" "length buf = length ?b"
    "mset (take (Suc (h_size h)) buf) = mset (take (Suc (h_size h)) ?b)"
    using shift_up_correct [of "Suc (h_size h)" ?b "h_size h"] room len by auto
  have "take (Suc (h_size h)) ?b = take (h_size h) (h_buffer h) @ [(k, v)]"
    using room len by (simp add: take_Suc_conv_app_nth)
  then show ?thesis
    using buf room len by (auto simp: heap_push_def Let_def access_simps heap_ok_def heap_mset_def)
qed

lemma heap_pop_some:
  assumes ok: "heap_ok h" and ne: "h_size h \<noteq> 0"
  shows "\<exists>h'. heap_pop h = Some (Some (h_buffer h ! 0), h') \<and> heap_ok h' \<and>
    add_mset (h_buffer h ! 0) (heap_mset h') = heap_mset h \<and> h_capacity h' = h_capacity h"
proof -
  define n where "n = h_size h - 1"
  let ?b = "(h_buffer h)[0 := h_buffer h ! n]"
  have n: "h_size h = Suc n" using ne by (simp add: n_def)
  have len: "length (h_buffer h) = h_capacity h" "Suc n \<le> h_capacity h" and ord: "ordered (Suc n) (h_buffer h)"
    using ok by (simp_all add: heap_ok_def n)
  have "down_inv n ?b 0"
    using ord len by (auto simp: down_inv_def ordered_def key_at_def nth_list_update)
  then obtain buf where buf: "shift_down n ?b 0 = Some buf" "ordered n buf" "length buf = length ?b"
    "mset (take n buf) = mset (take n ?b)"
    using shift_down_correct [of n ?b 0] len by auto
  have "mset (take (Suc n) (h_buffer h)) = add_mset (h_buffer h ! 0) (mset (take n ?b))"
  proof (cases n)
    case 0
    then show ?thesis using len by (simp add: take_Suc_conv_app_nth)
  next
    case (Suc m)
    have "take (Suc n) (h_buffer h) = h_buffer h ! 0 # take m (tl (h_buffer h)) @ [h_buffer h ! n]"
      using len Suc by (cases "h_buffer h") (auto simp: take_Suc_conv_app_nth)
    moreover have "take n ?b = h_buffer h ! n # take m (tl (h_buffer h))"
      using len Suc by (cases "h_buffer h") auto
    ultimately show ?thesis by simp
  qed
  then show ?thesis
    using buf len n by (auto simp: heap_pop_def heap_head_def Let_def access_simps heap_ok_def heap_mset_def)
qed

interpretation timers: prio_queue heap_push heap_pop heap_head heap_ok heap_mset h_capacity
proof
  fix h :: "'v heap_t" and k v e
  assume ok: "heap_ok h"
  note sz = size_heap_mset [OF ok]
  show "size (heap_mset h) \<le> h_capacity h" using ok sz by (simp add: heap_ok_def)
  show "\<exists>s'. heap_push h k v = Some (True, s') \<and> heap_ok s' \<and> heap_mset s' = add_mset (k, v) (heap_mset h) \<and>
      h_capacity s' = h_capacity h" if "size (heap_mset h) < h_capacity h"
    using heap_push_room [OF ok] that sz by simp
  show "heap_push h k v = Some (False, h)" if "size (heap_mset h) = h_capacity h"
    using that sz by (simp add: heap_push_def)
  show "\<exists>e. heap_head h = Some (Some e) \<and> e \<in># heap_mset h \<and> (\<forall>x \<in># heap_mset h. fst e \<le> fst x)"
    if "heap_mset h \<noteq> {#}"
  proof -
    have ne: "h_size h \<noteq> 0" "h_size h \<le> length (h_buffer h)" using that ok by (auto simp: heap_ok_def heap_mset_def)
    have "h_buffer h ! 0 \<in># heap_mset h"
      using ne by (auto simp: heap_mset_def in_set_conv_nth intro!: exI [of _ 0])
    moreover have "fst (h_buffer h ! 0) \<le> fst x" if x: "x \<in># heap_mset h" for x
    proof -
      obtain i where "i < h_size h" "x = h_buffer h ! i"
        using x ne by (auto simp: heap_mset_def in_set_conv_nth)
      then show ?thesis using ordered_root [of "h_size h" "h_buffer h" i] ok by (simp add: heap_ok_def key_at_def)
    qed
    moreover have "heap_head h = Some (Some (h_buffer h ! 0))" using ne by (auto simp: heap_head_def rd_def)
    ultimately show ?thesis by blast
  qed
  show "heap_head h = Some None" if "heap_mset h = {#}" using that sz by (simp add: heap_head_def)
  show "heap_pop h = Some (None, h)" if "heap_mset h = {#}" using that sz by (simp add: heap_pop_def heap_head_def)
  show "\<exists>s'. heap_pop h = Some (Some e, s') \<and> heap_ok s' \<and> add_mset e (heap_mset s') = heap_mset h \<and>
      h_capacity s' = h_capacity h" if "heap_head h = Some (Some e)"
    using heap_pop_some [OF ok] that by (auto simp: heap_head_def rd_def split: if_splits)
qed

lemma make_heap_ok: "heap_ok (make_heap mem cap)" "heap_mset (make_heap mem cap) = {#}" "h_capacity (make_heap mem cap) = cap"
  by (simp_all add: make_heap_def heap_ok_def heap_mset_def ordered_def)

text \<open>
  C21. The heap is a bounded priority queue. Into a fresh heap the first \<open>capacity\<close> pushes succeed and
  the rest are refused; popping until empty then ends and returns exactly the accepted entries,
  in ascending order of their keys.
\<close>

theorem heap_sorts:
  "\<exists>h out. prio_push_all heap_push (make_heap mem cap) es = Some (map (\<lambda>i. i < cap) [0..<length es], h) \<and>
    prio_pop_all heap_pop (Suc cap) h = Some out \<and> mset out = mset (take cap es) \<and> sorted (map fst out)"
proof -
  obtain h where h: "prio_push_all heap_push (make_heap mem cap) es = Some (map (\<lambda>i. i < cap) [0..<length es], h)"
    "heap_ok h" "h_capacity h = cap" "heap_mset h = mset (take cap es)"
    using timers.push_all_spec [OF make_heap_ok(1) [of mem cap], of es] by (auto simp: make_heap_ok)
  have "size (heap_mset h) < Suc cap" using timers.bounded [OF h(2)] h(3) by simp
  then obtain out where "prio_pop_all heap_pop (Suc cap) h = Some out" "mset out = heap_mset h" "sorted (map fst out)"
    using timers.pop_all_sorted [OF h(2)] by blast
  then show ?thesis using h by auto
qed

end
