(* ===== verification/Dispatcher.thy ===== *)
theory Dispatcher
  imports Timer_Heap
begin

text \<open>
  The event loop of \<^verbatim>\<open>src/src/main/dispatcher/dispatcher.c\<close>: timers in a heap, ordered by
  deadline, and descriptors watched with \<open>epoll\<close>. Everything outside the dispatcher, that is the clock,
  the kernel and the callbacks of its clients, is the environment \<open>env\<close>: functions on a world \<open>'w\<close>
  that is threaded through the calls. A callback may change the dispatcher it is given.
\<close>

section \<open>The code\<close>

record ('cb, 'dt) timer_entry_t =
  delay :: int
  is_permanent :: bool
  t_callback :: 'cb
  t_data :: 'dt

record ('cb, 'dt) handler_t =
  handler_fd :: int
  handler_events :: u32
  handler_callback :: 'cb
  handler_data :: 'dt

record ('cb, 'dt) dispatcher_t =
  epollfd :: int
  max_events_per_wait :: int
  default_wait_timeout :: int
  timer_queue :: "('cb, 'dt) timer_entry_t heap_t"
  to_stop :: bool
  d_error :: int

record ('cb, 'dt, 'w) env =
  current_millis :: "'w \<Rightarrow> int \<times> 'w"
  run_timer :: "'cb \<Rightarrow> 'dt \<Rightarrow> ('cb, 'dt) dispatcher_t \<Rightarrow> 'w \<Rightarrow> (('cb, 'dt) dispatcher_t \<times> 'w) option"
  run_handler :: "('cb, 'dt) handler_t \<Rightarrow> u32 \<Rightarrow> ('cb, 'dt) dispatcher_t \<Rightarrow> 'w \<Rightarrow> (('cb, 'dt) dispatcher_t \<times> 'w) option"
  pre_loop :: "(('cb, 'dt) dispatcher_t \<Rightarrow> 'w \<Rightarrow> (('cb, 'dt) dispatcher_t \<times> 'w) option) option"
  epoll_wait :: "int \<Rightarrow> int \<Rightarrow> 'w \<Rightarrow> (int + (('cb, 'dt) handler_t \<times> u32) list) \<times> 'w"

definition handler_init :: "int \<Rightarrow> u32 \<Rightarrow> 'cb \<Rightarrow> 'dt \<Rightarrow> ('cb, 'dt) handler_t" where
  "handler_init fd events cb data =
     \<lparr>handler_fd = fd, handler_events = events, handler_callback = cb, handler_data = data\<rparr>"

definition make_timer :: "int \<Rightarrow> bool \<Rightarrow> 'cb \<Rightarrow> 'dt \<Rightarrow> ('cb, 'dt) timer_entry_t" where
  "make_timer dly permanent cb data =
     \<lparr>delay = dly, is_permanent = permanent, t_callback = cb, t_data = data\<rparr>"

definition ENOMEM :: int where "ENOMEM = 12"
definition EINTR :: int where "EINTR = 4"

text \<open>\<open>fd\<close> is what \<open>epoll_create1\<close> returned, \<open>err\<close> the error number.\<close>

definition dispatcher_init ::
    "int \<Rightarrow> int \<Rightarrow> (nat \<Rightarrow> ('cb, 'dt) timer_entry_t entry_t) \<Rightarrow> int \<Rightarrow> int \<Rightarrow> nat \<Rightarrow> int + ('cb, 'dt) dispatcher_t" where
  "dispatcher_init fd err mem max_events wait_timeout timer_queue_capacity =
     (if fd < 0 then Inl err
      else Inr \<lparr>epollfd = fd, max_events_per_wait = max_events, default_wait_timeout = wait_timeout,
                timer_queue = make_heap mem timer_queue_capacity, to_stop = False, d_error = 0\<rparr>)"

definition dispatcher_init1 ::
    "int \<Rightarrow> int \<Rightarrow> (nat \<Rightarrow> ('cb, 'dt) timer_entry_t entry_t) \<Rightarrow> int \<Rightarrow> int + ('cb, 'dt) dispatcher_t" where
  "dispatcher_init1 fd err mem wait_timeout = dispatcher_init fd err mem 10 wait_timeout 1000"

text \<open>
  \<open>rc\<close> is what \<open>close\<close> returned. The second result lists the timers that were destroyed; the loop
  pops until the heap is empty, which takes at most one call more than its capacity.
\<close>

definition dispatcher_destroy ::
    "int \<Rightarrow> int \<Rightarrow> ('cb, 'dt) dispatcher_t \<Rightarrow> (int \<times> ('cb, 'dt) timer_entry_t list \<times> ('cb, 'dt) dispatcher_t) option" where
  "dispatcher_destroy rc err d =
     (if epollfd d \<ge> 0 then
        if rc \<noteq> 0 then Some (err, [], d)
        else do {
          es \<leftarrow> prio_pop_all heap_pop (Suc (h_capacity (timer_queue d))) (timer_queue d);
          Some (0, map snd es, d\<lparr>epollfd := -1, to_stop := False, d_error := 0\<rparr>)
        }
      else Some (0, [], d))"

definition dispatcher_add_handler :: "int \<Rightarrow> int \<Rightarrow> int" where
  "dispatcher_add_handler rc err = (if rc \<noteq> 0 then err else 0)"

definition dispatcher_remove_handler :: "int \<Rightarrow> int \<Rightarrow> int" where
  "dispatcher_remove_handler rc err = (if rc \<noteq> 0 then err else 0)"

definition dispatcher_add_timer0 ::
    "('cb, 'dt, 'w) env \<Rightarrow> ('cb, 'dt) dispatcher_t \<Rightarrow> 'w \<Rightarrow> ('cb, 'dt) timer_entry_t \<Rightarrow>
     (bool \<times> ('cb, 'dt) dispatcher_t \<times> 'w) option" where
  "dispatcher_add_timer0 env d w timer = do {
     let (now, w) = current_millis env w;
     let deadline = now + delay timer;
     (ok, h) \<leftarrow> heap_push (timer_queue d) deadline timer;
     Some (ok, d\<lparr>timer_queue := h\<rparr>, w)
   }"

definition dispatcher_add_timer ::
    "('cb, 'dt, 'w) env \<Rightarrow> ('cb, 'dt) dispatcher_t \<Rightarrow> 'w \<Rightarrow> int \<Rightarrow> bool \<Rightarrow> 'cb \<Rightarrow> 'dt \<Rightarrow>
     (int \<times> ('cb, 'dt) dispatcher_t \<times> 'w) option" where
  "dispatcher_add_timer env d w dly permanent cb data = do {
     (ok, d, w) \<leftarrow> dispatcher_add_timer0 env d w (make_timer dly permanent cb data);
     Some (if ok then 0 else ENOMEM, d, w)
   }"

definition dispatcher_stop :: "('cb, 'dt) dispatcher_t \<Rightarrow> int \<Rightarrow> ('cb, 'dt) dispatcher_t" where
  "dispatcher_stop d err = d\<lparr>to_stop := True, d_error := err\<rparr>"

text \<open>A \<open>long\<close> converted to \<open>int\<close> keeps its low 32 bits.\<close>

definition to_int32 :: "int \<Rightarrow> int" where
  "to_int32 x = sint (of_int x :: u32)"

text \<open>
  The inner loop of \<open>dispatcher_run\<close>. It ends when no timer is due; a permanent timer without
  delay keeps it running, so it has fuel.
\<close>

fun process_timers ::
    "('cb, 'dt, 'w) env \<Rightarrow> nat \<Rightarrow> int \<Rightarrow> ('cb, 'dt) dispatcher_t \<Rightarrow> 'w \<Rightarrow> (int \<times> ('cb, 'dt) dispatcher_t \<times> 'w) option" where
  "process_timers env 0 wait_timeout d w = None"
| "process_timers env (Suc fuel) wait_timeout d w = do {
     front \<leftarrow> heap_head (timer_queue d);
     (case front of None \<Rightarrow> Some (wait_timeout, d, w)
      | Some (deadline, timer) \<Rightarrow> do {
          let (now, w) = current_millis env w;
          let interval = deadline - now;
          if interval > 0 then Some (to_int32 interval, d, w)
          else do {
            (popped, h) \<leftarrow> heap_pop (timer_queue d);
            (d, w) \<leftarrow> run_timer env (t_callback timer) (t_data timer) (d\<lparr>timer_queue := h\<rparr>) w;
            (d, w) \<leftarrow> (if is_permanent timer then do {
                (ok, d, w) \<leftarrow> dispatcher_add_timer0 env d w timer;
                ensure ok;
                Some (d, w)
              } else Some (d, w));
            process_timers env fuel wait_timeout d w
          }
        })
   }"

fun run_handlers ::
    "('cb, 'dt, 'w) env \<Rightarrow> (('cb, 'dt) handler_t \<times> u32) list \<Rightarrow> ('cb, 'dt) dispatcher_t \<Rightarrow> 'w \<Rightarrow>
     (('cb, 'dt) dispatcher_t \<times> 'w) option" where
  "run_handlers env [] d w = Some (d, w)"
| "run_handlers env ((h, ev) # evs) d w = do {
     (d, w) \<leftarrow> run_handler env h ev d w;
     run_handlers env evs d w
   }"

text \<open>The outer loop, with fuel for its iterations and \<open>tfuel\<close> for the timers of each.\<close>

fun dispatcher_loop ::
    "('cb, 'dt, 'w) env \<Rightarrow> nat \<Rightarrow> nat \<Rightarrow> ('cb, 'dt) dispatcher_t \<Rightarrow> 'w \<Rightarrow> (int \<times> ('cb, 'dt) dispatcher_t \<times> 'w) option" where
  "dispatcher_loop env tfuel 0 d w = None"
| "dispatcher_loop env tfuel (Suc fuel) d w = do {
     (d, w) \<leftarrow> (case pre_loop env of None \<Rightarrow> Some (d, w) | Some f \<Rightarrow> f d w);
     if to_stop d then Some (d_error d, d\<lparr>to_stop := False, d_error := 0\<rparr>, w)
     else do {
       (wait_timeout, d, w) \<leftarrow> process_timers env tfuel (default_wait_timeout d) d w;
       let (r, w) = epoll_wait env (max_events_per_wait d) wait_timeout w;
       (case r of
          Inl errno \<Rightarrow> if errno = EINTR then dispatcher_loop env tfuel fuel d w else Some (errno, d, w)
        | Inr evs \<Rightarrow> do {
            (d, w) \<leftarrow> run_handlers env evs d w;
            dispatcher_loop env tfuel fuel d w
          })
     }
   }"

definition dispatcher_run ::
    "('cb, 'dt, 'w) env \<Rightarrow> nat \<Rightarrow> nat \<Rightarrow> ('cb, 'dt) dispatcher_t \<Rightarrow> 'w \<Rightarrow> (int \<times> ('cb, 'dt) dispatcher_t \<times> 'w) option" where
  "dispatcher_run env tfuel fuel d w = dispatcher_loop env tfuel fuel (d\<lparr>to_stop := False, d_error := 0\<rparr>) w"

section \<open>Due timers\<close>

abbreviation timer_mset :: "('cb, 'dt) dispatcher_t \<Rightarrow> ('cb, 'dt) timer_entry_t entry_t multiset" where
  "timer_mset d \<equiv> heap_mset (timer_queue d)"

definition due :: "int \<Rightarrow> ('cb, 'dt) dispatcher_t \<Rightarrow> ('cb, 'dt) timer_entry_t entry_t multiset" where
  "due now d = filter_mset (\<lambda>e. fst e \<le> now) (timer_mset d)"

text \<open>
  An environment in which time stands still at \<open>now\<close> while the timers are processed, and whose
  callbacks leave the dispatcher alone; \<open>note\<close> is what a callback does to the world.
\<close>

definition quiet :: "('cb, 'dt, 'w) env \<Rightarrow> int \<Rightarrow> ('cb \<Rightarrow> 'dt \<Rightarrow> 'w \<Rightarrow> 'w) \<Rightarrow> bool" where
  "quiet env now note \<longleftrightarrow> (\<forall>w. current_millis env w = (now, w)) \<and>
     (\<forall>cb dt d w. run_timer env cb dt d w = Some (d, note cb dt w))"

definition rearmed :: "int \<Rightarrow> ('cb, 'dt) timer_entry_t entry_t multiset \<Rightarrow> ('cb, 'dt) timer_entry_t entry_t multiset" where
  "rearmed now es = {# (now + delay (snd e), snd e). e \<in># filter_mset (\<lambda>e. is_permanent (snd e)) es #}"

definition fire :: "('cb \<Rightarrow> 'dt \<Rightarrow> 'w \<Rightarrow> 'w) \<Rightarrow> ('cb, 'dt) timer_entry_t entry_t \<Rightarrow> 'w \<Rightarrow> 'w" where
  "fire note e = note (t_callback (snd e)) (t_data (snd e))"

lemma rearmed_add:
  "rearmed now (add_mset e es) = (if is_permanent (snd e) then add_mset (now + delay (snd e), snd e) (rearmed now es) else rearmed now es)"
  by (simp add: rearmed_def)

lemma process_timers_quiet:
  assumes env: "quiet env now note"
  shows "heap_ok (timer_queue d) \<Longrightarrow> \<forall>e \<in># due now d. is_permanent (snd e) \<longrightarrow> 0 < delay (snd e) \<Longrightarrow>
    size (due now d) < fuel \<Longrightarrow>
    \<exists>d' fired. process_timers env fuel wait d w = Some (
        (if timer_mset d' = {#} then wait else to_int32 (Min (fst ` set_mset (timer_mset d')) - now)),
        d', fold (fire note) fired w) \<and>
      mset fired = due now d \<and> sorted (map fst fired) \<and> heap_ok (timer_queue d') \<and>
      timer_mset d' = filter_mset (\<lambda>e. now < fst e) (timer_mset d) + rearmed now (due now d) \<and> due now d' = {#} \<and>
      h_capacity (timer_queue d') = h_capacity (timer_queue d)"
proof (induction fuel arbitrary: d w)
  case (Suc fuel)
  have clock: "current_millis env w = (now, w)" for w using env by (simp add: quiet_def)
  have cb: "run_timer env c x d w = Some (d, note c x w)" for c x d w using env by (simp add: quiet_def)
  show ?case
  proof (cases "timer_mset d = {#}")
    case True
    then show ?thesis
      using timers.front_empty [OF Suc.prems(1)] Suc.prems(1)
      by (intro exI [of _ d] exI [of _ "[]"]) (simp add: due_def rearmed_def)
  next
    case False
    obtain e where e: "heap_head (timer_queue d) = Some (Some e)" "e \<in># timer_mset d" "\<forall>x \<in># timer_mset d. fst e \<le> fst x"
      using timers.front_law [OF Suc.prems(1) False] by blast
    obtain deadline timer where et: "e = (deadline, timer)" by (cases e)
    show ?thesis
    proof (cases "deadline \<le> now")
      case late: False
      have none: "due now d = {#}"
        using e(3) late by (auto simp: due_def filter_mset_eq_conv et)
      have "Min (fst ` set_mset (timer_mset d)) = deadline"
        by (rule Min_eqI) (use e et in force)+
      moreover have "filter_mset (\<lambda>e. now < fst e) (timer_mset d) = timer_mset d"
        using e(3) late by (auto simp: filter_mset_eq_conv et)
      ultimately show ?thesis
        using e(1) et late none Suc.prems(1) False
        by (intro exI [of _ d] exI [of _ "[]"]) (simp add: clock rearmed_def)
    next
      case True
      obtain h where h: "heap_pop (timer_queue d) = Some (Some e, h)" "heap_ok h" "add_mset e (heap_mset h) = timer_mset d"
        "h_capacity h = h_capacity (timer_queue d)"
        using timers.pop_law [OF Suc.prems(1) e(1)] by blast
      have due_d: "due now d = add_mset e (filter_mset (\<lambda>e. fst e \<le> now) (heap_mset h))"
        using True by (simp add: due_def h(3) [symmetric] et)
      have size: "size (heap_mset h) < h_capacity h"
        using timers.bounded [OF Suc.prems(1)] h(3,4) by (metis size_add_mset less_eq_Suc_le)
      define r where "r = (now + delay timer, timer)"
      obtain d1 where d1: "(if is_permanent timer then do {
            (ok, d, w) \<leftarrow> dispatcher_add_timer0 env (d\<lparr>timer_queue := h\<rparr>) w1 timer;
            ensure ok;
            Some (d, w) } else Some (d\<lparr>timer_queue := h\<rparr>, w1)) = Some (d1, w1)"
          "heap_ok (timer_queue d1)" "h_capacity (timer_queue d1) = h_capacity h"
          "timer_mset d1 = (if is_permanent timer then add_mset r (heap_mset h) else heap_mset h)" for w1
        using timers.push_law [OF h(2) size, of "now + delay timer" timer] h(2)
        by (cases "is_permanent timer") (auto simp: dispatcher_add_timer0_def clock r_def)
      have later: "is_permanent timer \<Longrightarrow> now < fst r" using Suc.prems(2) due_d by (auto simp: et r_def)
      then have due_d1: "due now d1 = filter_mset (\<lambda>e. fst e \<le> now) (heap_mset h)"
        by (auto simp: due_def d1(4))
      obtain d' fired where IH: "process_timers env fuel wait d1 (note (t_callback timer) (t_data timer) w) = Some (
          (if timer_mset d' = {#} then wait else to_int32 (Min (fst ` set_mset (timer_mset d')) - now)),
          d', fold (fire note) fired (note (t_callback timer) (t_data timer) w))"
        "mset fired = due now d1" "sorted (map fst fired)" "heap_ok (timer_queue d')"
        "timer_mset d' = filter_mset (\<lambda>e. now < fst e) (timer_mset d1) + rearmed now (due now d1)" "due now d' = {#}"
        "h_capacity (timer_queue d') = h_capacity (timer_queue d1)"
        using Suc.IH [OF d1(2)] Suc.prems(2,3) due_d due_d1 by fastforce
      have "process_timers env (Suc fuel) wait d w = Some (
          (if timer_mset d' = {#} then wait else to_int32 (Min (fst ` set_mset (timer_mset d')) - now)),
          d', fold (fire note) (e # fired) w)"
        using e(1) et True h(1) IH(1) d1(1) by (simp add: clock cb fire_def)
      moreover have "\<forall>x \<in> set fired. fst e \<le> fst x"
      proof
        fix x assume "x \<in> set fired"
        then have "x \<in># timer_mset d" using IH(2) due_d1 by (simp add: h(3) [symmetric] flip: set_mset_mset)
        then show "fst e \<le> fst x" using e(3) by blast
      qed
      moreover have "timer_mset d' = filter_mset (\<lambda>e. now < fst e) (timer_mset d) + rearmed now (due now d)"
        using True later by (auto simp: IH(5) d1(4) h(3) [symmetric] due_d due_d1 rearmed_add et r_def)
      ultimately show ?thesis
        using IH(2,3,4,6,7) d1(3) h(4) due_d due_d1 by (intro exI [of _ d'] exI [of _ "e # fired"]) auto
    qed
  qed
qed simp

section \<open>Timers while the clock advances\<close>

text \<open>
  What the dispatcher relies on. \<open>clk w\<close> is the time the clock has shown last, \<open>calls w\<close> the callbacks made so far, each with that
  time. The clock does not go back. A permanent timer has a positive delay. A callback of a timer that is \<open>ok\<close> returns and may do
  to the dispatcher what its interface allows: besides the flags it can only add timers, whose deadlines are later than the time of the call, since
  delays are positive. A permanent timer's callback leaves a slot for the timer itself.
\<close>

definition orderly ::
    "('cb, 'dt, 'w) env \<Rightarrow> (('cb, 'dt) timer_entry_t \<Rightarrow> bool) \<Rightarrow> ('w \<Rightarrow> int) \<Rightarrow> ('w \<Rightarrow> (int \<times> 'cb \<times> 'dt) list) \<Rightarrow> bool" where
  "orderly env ok clk calls \<longleftrightarrow>
     (\<forall>w. clk w \<le> fst (current_millis env w) \<and> clk (snd (current_millis env w)) = fst (current_millis env w) \<and>
       calls (snd (current_millis env w)) = calls w) \<and>
     (\<forall>timer. ok timer \<and> is_permanent timer \<longrightarrow> 0 < delay timer) \<and>
     (\<forall>timer d w. ok timer \<and> heap_ok (timer_queue d) \<and> size (timer_mset d) < h_capacity (timer_queue d) \<longrightarrow>
       (\<exists>d' w' new. run_timer env (t_callback timer) (t_data timer) d w = Some (d', w') \<and> heap_ok (timer_queue d') \<and>
         h_capacity (timer_queue d') = h_capacity (timer_queue d) \<and> clk w \<le> clk w' \<and> calls w' = calls w @ [(clk w, t_callback timer, t_data timer)] \<and>
         timer_mset d' = timer_mset d + new \<and> (\<forall>e \<in># new. clk w < fst e \<and> ok (snd e)) \<and>
         (is_permanent timer \<longrightarrow> size (timer_mset d') < h_capacity (timer_queue d'))))"

text \<open>
  What the timer loop does from \<open>d\<close> and \<open>w\<close>, with the result \<open>(next, d', w')\<close>. \<open>fired\<close> are the timers that fire, each with the time of
  its call: these are the calls made, none before its deadline, in ascending order of deadlines and of times. \<open>rs\<close> are the
  permanent ones among them with their new deadlines, the time of a reading after the call plus the delay, and \<open>new\<close> the timers the
  callbacks have added. Nothing else changes in the queue, so no timer is lost or fires twice without being set again; those due at the beginning
  have fired; none is due at the end. The loop returns the time to the next deadline, or the default when no timer is left.
\<close>

definition timers_ran ::
    "('w \<Rightarrow> int) \<Rightarrow> ('w \<Rightarrow> (int \<times> 'cb \<times> 'dt) list) \<Rightarrow> int \<Rightarrow> ('cb, 'dt) dispatcher_t \<Rightarrow> 'w \<Rightarrow> int \<times> ('cb, 'dt) dispatcher_t \<times> 'w \<Rightarrow> bool" where
  "timers_ran clk calls wait d w = (\<lambda>(next, d', w'). \<exists>fired rs new.
     calls w' = calls w @ map (\<lambda>(n, e). (n, t_callback (snd e), t_data (snd e))) fired \<and>
     sorted (map (\<lambda>(n, e). fst e) fired) \<and> sorted (map fst fired) \<and> (\<forall>(n, e) \<in> set fired. fst e \<le> n \<and> clk w \<le> n \<and> n \<le> clk w') \<and>
     list_all2 (\<lambda>(n, e) r. snd r = snd e \<and> n + delay (snd e) \<le> fst r \<and> fst r \<le> clk w' + delay (snd e))
       (filter (\<lambda>(n, e). is_permanent (snd e)) fired) rs \<and>
     (\<forall>e \<in># mset rs + new. clk w < fst e) \<and> clk w \<le> clk w' \<and>
     timer_mset d + mset rs + new = mset (map snd fired) + timer_mset d' \<and>
     filter_mset (\<lambda>e. fst e \<le> clk w) (mset (map snd fired)) = due (clk w) d \<and> due (clk w') d' = {#} \<and>
     next = (if timer_mset d' = {#} then wait else to_int32 (Min (fst ` set_mset (timer_mset d')) - clk w')) \<and>
     heap_ok (timer_queue d') \<and> h_capacity (timer_queue d') = h_capacity (timer_queue d))"

text \<open>One round of the loop: it ends, as there is no timer or none is due, or the first timer fires.\<close>

lemma timer_round:
  assumes env: "orderly env ok clk calls" and d: "heap_ok (timer_queue d)" "\<forall>e \<in># timer_mset d. ok (snd e)"
  obtains (empty) "timer_mset d = {#}" "\<And>fuel. process_timers env (Suc fuel) wait d w = Some (wait, d, w)"
  | (early) w1 where "timer_mset d \<noteq> {#}" "clk w \<le> clk w1" "calls w1 = calls w" "\<forall>e \<in># timer_mset d. clk w1 < fst e"
      "\<And>fuel. process_timers env (Suc fuel) wait d w = Some (to_int32 (Min (fst ` set_mset (timer_mset d)) - clk w1), d, w1)"
  | (fires) n e h d1 w1 rs new where "\<And>fuel. process_timers env (Suc fuel) wait d w = process_timers env fuel wait d1 w1"
      "timer_mset d = add_mset e h" "timer_mset d1 = h + mset rs + new" "\<forall>x \<in># h. fst e \<le> fst x" "fst e \<le> n" "clk w \<le> n" "n \<le> clk w1"
      "n = fst (current_millis env w)" "calls w1 = calls w @ [(n, t_callback (snd e), t_data (snd e))]"
      "if is_permanent (snd e) then rs = [(clk w1 + delay (snd e), snd e)] else rs = []" "\<forall>x \<in># mset rs + new. n < fst x \<and> ok (snd x)"
      "heap_ok (timer_queue d1)" "h_capacity (timer_queue d1) = h_capacity (timer_queue d)"
proof (cases "timer_mset d = {#}")
  case True
  then show ?thesis using timers.front_empty [OF d(1)] by (intro empty) simp_all
next
  case False
  have clock: "clk w \<le> fst (current_millis env w)" "clk (snd (current_millis env w)) = fst (current_millis env w)"
    "calls (snd (current_millis env w)) = calls w" for w
    using env by (simp_all add: orderly_def)
  obtain e where e: "heap_head (timer_queue d) = Some (Some e)" "e \<in># timer_mset d" "\<forall>x \<in># timer_mset d. fst e \<le> fst x"
    using timers.front_law [OF d(1) False] by blast
  obtain deadline timer where et: "e = (deadline, timer)" by (cases e)
  obtain n wn where n: "current_millis env w = (n, wn)" by (cases "current_millis env w")
  note wn = clock [of w, unfolded n, simplified]
  show ?thesis
  proof (cases "deadline \<le> n")
    case False
    have "Min (fst ` set_mset (timer_mset d)) = deadline" by (rule Min_eqI) (use e et in force)+
    then show ?thesis using e et False n wn \<open>timer_mset d \<noteq> {#}\<close> by (intro early [of wn]) auto
  next
    case True
    obtain h where h: "heap_pop (timer_queue d) = Some (Some e, h)" "heap_ok h" "add_mset e (heap_mset h) = timer_mset d"
      "h_capacity h = h_capacity (timer_queue d)" using timers.pop_law [OF d(1) e(1)] by blast
    have "size (heap_mset h) < h_capacity h" using timers.bounded [OF d(1)] h(3,4) by (metis size_add_mset less_eq_Suc_le)
    moreover have ok: "ok timer" using d(2) e(2) et by auto
    ultimately obtain d2 w2 new where r: "run_timer env (t_callback timer) (t_data timer) (d\<lparr>timer_queue := h\<rparr>) wn = Some (d2, w2)"
      "heap_ok (timer_queue d2)" "h_capacity (timer_queue d2) = h_capacity h" "n \<le> clk w2" "calls w2 = calls w @ [(n, t_callback timer, t_data timer)]"
      "timer_mset d2 = heap_mset h + new" "\<forall>x \<in># new. n < fst x \<and> ok (snd x)"
      "is_permanent timer \<longrightarrow> size (timer_mset d2) < h_capacity (timer_queue d2)"
      using env h(2) wn unfolding orderly_def by (elim conjE) (drule spec2 [of _ timer "d\<lparr>timer_queue := h\<rparr>"], drule spec [of _ wn], auto)
    have step: "process_timers env (Suc fuel) wait d w = (do {
        (d, w) \<leftarrow> (if is_permanent timer then do { (ok, d, w) \<leftarrow> dispatcher_add_timer0 env d2 w2 timer; ensure ok; Some (d, w) } else Some (d2, w2));
        process_timers env fuel wait d w })" for fuel
      using e(1) et n True h(1) r(1) by simp
    have common: "timer_mset d = add_mset e (heap_mset h)" "\<forall>x \<in># heap_mset h. fst e \<le> fst x" "fst e \<le> n" "clk w \<le> n" "n = fst (current_millis env w)"
      using h(3) e(3) True et wn n by (auto simp flip: h(3))
    show ?thesis
    proof (cases "is_permanent timer")
      case False
      then show ?thesis using step common r h(4) et by (intro fires [of d2 w2 e "heap_mset h" "[]" new n]) simp_all
    next
      case True
      obtain n2 w3 where n2: "current_millis env w2 = (n2, w3)" by (cases "current_millis env w2")
      note w3 = clock [of w2, unfolded n2, simplified]
      obtain q where q: "heap_push (timer_queue d2) (n2 + delay timer) timer = Some (True, q)" "heap_ok q"
        "heap_mset q = add_mset (n2 + delay timer, timer) (timer_mset d2)" "h_capacity q = h_capacity (timer_queue d2)"
        using timers.push_law [OF r(2), of "n2 + delay timer" timer] r(8) True by blast
      have "0 < delay timer" using env ok True by (simp add: orderly_def)
      then show ?thesis using step common r h(4) et True n2 w3 q ok
        by (intro fires [of "d2\<lparr>timer_queue := q\<rparr>" w3 e "heap_mset h" "[(n2 + delay timer, timer)]" new n]) (auto simp: dispatcher_add_timer0_def)
    qed
  qed
qed

text \<open>From the accounts: what was due at the beginning has fired, as whatever is added or left is later.\<close>

lemma due_fired:
  assumes "timer_mset d + added = fired + timer_mset d'" "\<forall>e \<in># added. t < fst e" "due t' d' = {#}" "t \<le> t'"
  shows "filter_mset (\<lambda>e. fst e \<le> t) fired = due t d"
proof -
  have "filter_mset (\<lambda>e. fst e \<le> t) added = {#}" using assms(2) by (auto simp: filter_mset_eq_conv)
  moreover have "filter_mset (\<lambda>e. fst e \<le> t) (timer_mset d') = {#}" using assms(3,4) unfolding due_def by (auto simp: filter_mset_eq_conv)
  moreover have "filter_mset (\<lambda>e. fst e \<le> t) (timer_mset d + added) = filter_mset (\<lambda>e. fst e \<le> t) (fired + timer_mset d')" using assms(1) by simp
  ultimately have "filter_mset (\<lambda>e. fst e \<le> t) (timer_mset d) + {#} = filter_mset (\<lambda>e. fst e \<le> t) fired + {#}" by (simp only: filter_union_mset)
  then show ?thesis by (simp add: due_def)
qed

lemma timers_ran_round:
  assumes d: "timer_mset d = add_mset e h" "timer_mset d1 = h + mset rs + new" "\<forall>x \<in># h. fst e \<le> fst x"
    and n: "fst e \<le> n" "clk w \<le> n" "n \<le> clk w1" and calls: "calls w1 = calls w @ [(n, t_callback (snd e), t_data (snd e))]"
    and rs: "if is_permanent (snd e) then rs = [(clk w1 + delay (snd e), snd e)] else rs = []" "\<forall>x \<in># mset rs + new. n < fst x"
    and cap: "h_capacity (timer_queue d1) = h_capacity (timer_queue d)" and ran: "timers_ran clk calls wait d1 w1 r"
  shows "timers_ran clk calls wait d w r"
proof -
  obtain k d' w' where r: "r = (k, d', w')" by (cases r)
  obtain fired rs' new' where IH: "calls w' = calls w1 @ map (\<lambda>(n, e). (n, t_callback (snd e), t_data (snd e))) fired"
     "sorted (map (\<lambda>(n, e). fst e) fired)" "sorted (map fst fired)" "\<forall>(n, e) \<in> set fired. fst e \<le> n \<and> clk w1 \<le> n \<and> n \<le> clk w'"
     "list_all2 (\<lambda>(n, e) r. snd r = snd e \<and> n + delay (snd e) \<le> fst r \<and> fst r \<le> clk w' + delay (snd e)) (filter (\<lambda>(n, e). is_permanent (snd e)) fired) rs'"
     "\<forall>e \<in># mset rs' + new'. clk w1 < fst e" "clk w1 \<le> clk w'" "timer_mset d1 + mset rs' + new' = mset (map snd fired) + timer_mset d'" "due (clk w') d' = {#}"
     "k = (if timer_mset d' = {#} then wait else to_int32 (Min (fst ` set_mset (timer_mset d')) - clk w'))"
     "heap_ok (timer_queue d')" "h_capacity (timer_queue d') = h_capacity (timer_queue d1)"
    using ran unfolding timers_ran_def r case_prod_conv by (elim exE conjE) (rule that)
  let ?fired = "(n, e) # fired"
  have account: "timer_mset d + (mset (rs @ rs') + (new + new')) = mset (map snd ?fired) + timer_mset d'" using IH(8) d(1,2) by (simp add: ac_simps)
  have added: "\<forall>x \<in># mset (rs @ rs') + (new + new'). clk w < fst x"
  proof
    fix x assume "x \<in># mset (rs @ rs') + (new + new')"
    then consider "x \<in># mset rs + new" | "x \<in># mset rs' + new'" by auto
    then show "clk w < fst x" by cases (use IH(6) rs(2) n in force)+
  qed
  have later: "fst e \<le> fst x" if "(m, x) \<in> set fired" for m x
  proof -
    have "x \<in># timer_mset d1 + mset rs' + new'" unfolding IH(8) using that by force
    then consider "x \<in># h" | "x \<in># mset rs + new" | "x \<in># mset rs' + new'" using d(2) by auto
    then show ?thesis by cases (use d(3) rs(2) IH(6) n in force)+
  qed
  show ?thesis unfolding timers_ran_def r case_prod_conv
  proof (intro exI [of _ ?fired] exI [of _ "rs @ rs'"] exI [of _ "new + new'"] conjI)
    show "filter_mset (\<lambda>e. fst e \<le> clk w) (mset (map snd ?fired)) = due (clk w) d"
      by (rule due_fired [OF account added IH(9)]) (use n IH(7) in simp)
    show "sorted (map (\<lambda>(n, e). fst e) ?fired)" using IH(2) later by auto
    show "sorted (map fst ?fired)" using IH(3,4) n by fastforce
    show "\<forall>(m, x) \<in> set ?fired. fst x \<le> m \<and> clk w \<le> m \<and> m \<le> clk w'" using IH(4,7) n by fastforce
    show "list_all2 (\<lambda>(n, e) r. snd r = snd e \<and> n + delay (snd e) \<le> fst r \<and> fst r \<le> clk w' + delay (snd e))
       (filter (\<lambda>(n, e). is_permanent (snd e)) ?fired) (rs @ rs')"
      using IH(5,7) rs(1) n by (cases "is_permanent (snd e)") simp_all
  qed (use account added IH calls cap n in \<open>simp_all add: ac_simps\<close>)
qed

lemma process_timers_ran:
  assumes env: "orderly env ok clk calls"
  shows "heap_ok (timer_queue d) \<Longrightarrow> \<forall>e \<in># timer_mset d. ok (snd e) \<Longrightarrow> process_timers env fuel wait d w = Some r \<Longrightarrow> timers_ran clk calls wait d w r"
proof (induction fuel arbitrary: d w)
  case (Suc fuel)
  show ?case
  proof (cases rule: timer_round [OF env Suc.prems(1,2), where wait = wait and w = w])
    case 1
    then show ?thesis using Suc.prems(1,3) by (auto simp: timers_ran_def due_def)
  next
    case (2 w1)
    then have "due (clk w1) d = {#}" "due (clk w) d = {#}" by (fastforce simp: due_def filter_mset_eq_conv)+
    then show ?thesis using 2 Suc.prems(1,3) by (auto simp: timers_ran_def)
  next
    case (3 n e h d1 w1 rs new)
    have "\<forall>x \<in># timer_mset d1. ok (snd x)" using 3(2,3,11) Suc.prems(2) by auto
    then have "timers_ran clk calls wait d1 w1 r" using Suc.IH [OF 3(12)] Suc.prems(3) 3(1) by simp
    then show ?thesis using 3(11) by (intro timers_ran_round [OF 3(2,3,4,5,6,7,9,10) _ 3(13)]) simp_all
  qed
qed simp

text \<open>While the clock stays below \<open>T\<close>, each round replaces a deadline with later ones, which can happen only so often below \<open>T\<close>.\<close>

definition remaining :: "int \<Rightarrow> ('cb, 'dt) timer_entry_t entry_t multiset \<Rightarrow> nat multiset" where
  "remaining T es = image_mset (\<lambda>e. nat (T + 1 - fst e)) (filter_mset (\<lambda>e. fst e \<le> T) es)"

lemma remaining_less:
  assumes "fst e \<le> n" "n \<le> T" "\<forall>x \<in># xs. n < fst x"
  shows "(remaining T (h + xs), remaining T (add_mset e h)) \<in> mult less_than"
proof -
  have "(remaining T h + remaining T xs, remaining T h + {#nat (T + 1 - fst e)#}) \<in> mult less_than"
    by (rule one_step_implies_mult) (use assms in \<open>auto simp: remaining_def\<close>)
  then show ?thesis using assms by (simp add: remaining_def)
qed

lemma process_timers_end:
  assumes env: "orderly env ok clk calls" and T: "\<And>w. fst (current_millis env w) \<le> T"
  shows "heap_ok (timer_queue d) \<Longrightarrow> \<forall>e \<in># timer_mset d. ok (snd e) \<Longrightarrow> \<exists>n r. \<forall>fuel \<ge> n. process_timers env fuel wait d w = Some r"
proof (induction "remaining T (timer_mset d)" arbitrary: d w rule: wf_induct_rule [OF wf_mult [OF wf_less_than]])
  case (1 d)
  have Suc: "\<exists>n r. \<forall>fuel \<ge> n. process_timers env fuel wait d w = Some r" if "\<And>fuel. fuel \<ge> n \<Longrightarrow> process_timers env (Suc fuel) wait d w = Some r" for n r
  proof (intro exI [of _ "Suc n"] exI [of _ r] allI impI)
    fix fuel assume "Suc n \<le> fuel"
    then show "process_timers env fuel wait d w = Some r" using that by (cases fuel) simp_all
  qed
  show ?case
  proof (cases rule: timer_round [OF env 1(2,3), where wait = wait and w = w])
    case 1
    then show ?thesis using Suc by blast
  next
    case (2 w1)
    then show ?thesis using Suc by blast
  next
    case (3 n e h d1 w1 rs new)
    have "(remaining T (timer_mset d1), remaining T (timer_mset d)) \<in> mult less_than"
      unfolding 3(2,3) add.assoc by (rule remaining_less [of e n]) (use 3(5,8,11) T in auto)
    moreover have "\<forall>x \<in># timer_mset d1. ok (snd x)" using 3(2,3,11) 1(3) by auto
    ultimately obtain k r where "\<forall>fuel \<ge> k. process_timers env fuel wait d1 w1 = Some r" using 1(1) [OF _ 3(12), of w1] by blast
    then show ?thesis using Suc [of k r] 3(1) by simp
  qed
qed

text \<open>
  C20. Timers fire in order. The clock advances, and callbacks may add timers. Whenever the timer loop returns, it has done what \<open>timers_ran\<close> says:
  each timer fires at its deadline or after it, in ascending order of deadlines, all that were due at the beginning have fired, the permanent ones are
  set again at a later reading plus their delay, no timer is lost and none fires that is not set, none is due at the end, and the time to the next
  deadline is returned. The loop does return, with enough fuel, if the clock stays below some bound while it runs; otherwise timers can
  come due for ever. The conditions, in \<open>orderly\<close>, are that the clock does not go back, delays are positive, callbacks return, and a permanent
  timer's callback leaves a slot in the queue.
\<close>

theorem timers_fire_in_order:
  assumes "orderly env ok clk calls" "heap_ok (timer_queue d)" "\<forall>e \<in># timer_mset d. ok (snd e)"
  shows "(\<forall>fuel r. process_timers env fuel wait d w = Some r \<longrightarrow> timers_ran clk calls wait d w r) \<and>
    ((\<exists>T. \<forall>w. fst (current_millis env w) \<le> T) \<longrightarrow>
      (\<exists>n r. timers_ran clk calls wait d w r \<and> (\<forall>fuel \<ge> n. process_timers env fuel wait d w = Some r)))"
  using process_timers_ran [OF assms(1-3)] process_timers_end [OF assms(1) _ assms(2,3)] by (metis le_refl)

text \<open>A clock that advances with each reading, and a callback that adds a timer. World: the time and the calls.\<close>

definition ticking_env :: "(string, nat, int \<times> (int \<times> string \<times> nat) list) env" where
  "ticking_env =
     (let base = \<lparr>current_millis = (\<lambda>(t, cs). (min (t + 9) 1000, (min (t + 9) 1000, cs))), run_timer = (\<lambda>cb dt d w. None),
        run_handler = (\<lambda>h ev d w. Some (d, w)), pre_loop = None, epoll_wait = (\<lambda>n t w. (Inr [], w))\<rparr>
      in base\<lparr>run_timer := (\<lambda>cb dt d (t, cs).
          if cb = ''b'' then do { (err, d, w) \<leftarrow> dispatcher_add_timer base d (t, cs @ [(min t 1000, cb, dt)]) 10 False ''n'' 0; Some (d, w) }
          else Some (d, (t, cs @ [(min t 1000, cb, dt)])))\<rparr>)"

definition sample_dispatcher :: "(string, nat) dispatcher_t" where
  "sample_dispatcher = \<lparr>epollfd = 3, max_events_per_wait = 10, default_wait_timeout = 1000,
     timer_queue = \<lparr>h_capacity = 3, h_size = 3, h_buffer =
       [(50, make_timer 20 True ''a'' 0), (80, make_timer 5 False ''b'' 0), (150, make_timer 5 False ''c'' 0)]\<rparr>,
     to_stop = False, d_error = 0\<rparr>"

lemma sample_dispatcher_ok: "heap_ok (timer_queue sample_dispatcher)"
proof -
  have "ordered 3 [(50, make_timer 20 True ''a'' 0), (80, make_timer 5 False ''b'' 0), (150, make_timer 5 False ''c'' (0 :: nat))]"
    unfolding ordered_def
  proof (intro allI impI)
    fix i :: nat assume "0 < i \<and> i < 3"
    then have "i = 1 \<or> i = 2" by auto
    then show "key_at [(50, make_timer 20 True ''a'' 0), (80, make_timer 5 False ''b'' 0), (150, make_timer 5 False ''c'' (0 :: nat))] (parent i)
      \<le> key_at [(50, make_timer 20 True ''a'' 0), (80, make_timer 5 False ''b'' 0), (150, make_timer 5 False ''c'' 0)] i"
      by (auto simp: parent_def key_at_def)
  qed
  then show ?thesis by (simp add: sample_dispatcher_def heap_ok_def)
qed

lemma ticking_orderly:
  "orderly ticking_env (\<lambda>timer. is_permanent timer \<longrightarrow> 0 < delay timer \<and> t_callback timer \<noteq> ''b'') (\<lambda>w. min (fst w) 1000) snd"
  unfolding orderly_def
proof (intro conjI allI impI)
  fix timer :: "(string, nat) timer_entry_t" and d :: "(string, nat) dispatcher_t" and w :: "int \<times> (int \<times> string \<times> nat) list"
  assume t: "(is_permanent timer \<longrightarrow> 0 < delay timer \<and> t_callback timer \<noteq> ''b'') \<and> heap_ok (timer_queue d) \<and>
    size (timer_mset d) < h_capacity (timer_queue d)"
  obtain now cs where w: "w = (now, cs)" by (cases w)
  let ?now = "min (now + 9) 1000"
  show "\<exists>d' w' new. run_timer ticking_env (t_callback timer) (t_data timer) d w = Some (d', w') \<and> heap_ok (timer_queue d') \<and>
         h_capacity (timer_queue d') = h_capacity (timer_queue d) \<and> min (fst w) 1000 \<le> min (fst w') 1000 \<and>
         snd w' = snd w @ [(min (fst w) 1000, t_callback timer, t_data timer)] \<and> timer_mset d' = timer_mset d + new \<and>
         (\<forall>e \<in># new. min (fst w) 1000 < fst e \<and> (is_permanent (snd e) \<longrightarrow> 0 < delay (snd e) \<and> t_callback (snd e) \<noteq> ''b'')) \<and>
         (is_permanent timer \<longrightarrow> size (timer_mset d') < h_capacity (timer_queue d'))"
  proof (cases "t_callback timer = ''b''")
    case True
    obtain q where q: "heap_push (timer_queue d) (?now + 10) (make_timer 10 False ''n'' 0) = Some (True, q)" "heap_ok q"
      "heap_mset q = add_mset (?now + 10, make_timer 10 False ''n'' 0) (timer_mset d)" "h_capacity q = h_capacity (timer_queue d)"
      using timers.push_law [of "timer_queue d" "?now + 10" "make_timer 10 False ''n'' 0"] t by blast
    have "min now 1000 < ?now + 10" by (simp add: min_def)
    then show ?thesis using True t w q
      by (intro exI [of _ "d\<lparr>timer_queue := q\<rparr>"] exI [of _ "(?now, cs @ [(min now 1000, ''b'', t_data timer)])"]
          exI [of _ "{#(?now + 10, make_timer 10 False ''n'' 0)#}"])
        (simp add: ticking_env_def Let_def dispatcher_add_timer_def dispatcher_add_timer0_def make_timer_def)
  next
    case False
    then show ?thesis using t w
      by (intro exI [of _ d] exI [of _ "(now, cs @ [(min now 1000, t_callback timer, t_data timer)])"] exI [of _ "{#}"])
        (simp add: ticking_env_def Let_def)
  qed
qed (auto simp: ticking_env_def Let_def)

theorem timers_fire_in_order_witness:
  "\<exists>d' w'. process_timers ticking_env 7 1000 sample_dispatcher (97, []) = Some (11, d', w') \<and>
    snd w' = [(106, ''a'', 0), (124, ''b'', 0), (142, ''a'', 0), (160, ''n'', 0), (169, ''c'', 0), (178, ''a'', 0)] \<and>
    timers_ran (\<lambda>w. min (fst w) 1000) snd 1000 sample_dispatcher (97, []) (11, d', w')"
proof -
  have run: "map_option (\<lambda>(next, d', w'). (next, snd w')) (process_timers ticking_env 7 1000 sample_dispatcher (97, [])) =
      Some (11, [(106, ''a'', 0), (124, ''b'', 0), (142, ''a'', 0), (160, ''n'', 0), (169, ''c'', 0), (178, ''a'', 0)])" by code_simp
  have "\<forall>e \<in># timer_mset sample_dispatcher. is_permanent (snd e) \<longrightarrow> 0 < delay (snd e) \<and> t_callback (snd e) \<noteq> ''b''"
    by (simp add: sample_dispatcher_def heap_mset_def make_timer_def)
  then show ?thesis using timers_fire_in_order [OF ticking_orderly sample_dispatcher_ok, of 1000 "(97, [])"] run by auto
qed

text \<open>
  C25. The comment \<open>Must succeed!\<close> in the timer loop does not hold. When the timer queue is full, its
  first timer is permanent and due, and the callback of that timer adds another timer, then the slot of
  the popped timer is taken, re-arming fails, and \<open>ensure\<close> aborts the process.
\<close>

theorem permanent_timer_aborts:
  assumes ok: "heap_ok (timer_queue d)" "h_size (timer_queue d) = h_capacity (timer_queue d)"
    and front: "heap_head (timer_queue d) = Some (Some (deadline, timer))" "is_permanent timer"
    and clock: "\<forall>w. deadline \<le> fst (current_millis env w)"
    and callback: "\<forall>d w. run_timer env (t_callback timer) (t_data timer) d w =
      (do { (err, d, w) \<leftarrow> dispatcher_add_timer env d w dly p cb dt; Some (d, w) })"
  shows "process_timers env fuel wait d w = None"
proof (cases fuel)
  case (Suc n)
  obtain now w1 where now: "current_millis env w = (now, w1)" "deadline \<le> now"
    using clock by (metis prod.collapse)
  obtain h where h: "heap_pop (timer_queue d) = Some (Some (deadline, timer), h)" "heap_ok h"
    "add_mset (deadline, timer) (heap_mset h) = timer_mset d" "h_capacity h = h_capacity (timer_queue d)"
    using timers.pop_law [OF ok(1) front(1)] by blast
  have size: "size (heap_mset h) + 1 = h_capacity h"
    using size_heap_mset [OF ok(1)] ok(2) h(3,4) by (metis Suc_eq_plus1 size_add_mset)
  obtain now2 w2 where now2: "current_millis env w1 = (now2, w2)" by fastforce
  obtain h2 where h2: "heap_push h (now2 + dly) (make_timer dly p cb dt) = Some (True, h2)" "heap_ok h2"
    "heap_mset h2 = add_mset (now2 + dly, make_timer dly p cb dt) (heap_mset h)" "h_capacity h2 = h_capacity h"
    using timers.push_law [OF h(2), of "now2 + dly" "make_timer dly p cb dt"] size by auto
  have "heap_push h2 k timer = Some (False, h2)" for k
    using timers.push_full [OF h2(2)] h2(3,4) size by simp
  then show ?thesis
    using Suc front now h(1) h2(1) now2 callback
    by (simp add: dispatcher_add_timer_def dispatcher_add_timer0_def make_timer_def split_beta)
qed simp

definition adding_env :: "(string, nat, nat) env" where
  "adding_env = \<lparr>current_millis = (\<lambda>w. (100, w)),
     run_timer = (\<lambda>cb dt d w. do {
       (err, d, w) \<leftarrow> dispatcher_add_timer
         \<lparr>current_millis = (\<lambda>w. (100, w)), run_timer = (\<lambda>cb dt d w. None), run_handler = (\<lambda>h ev d w. None),
           pre_loop = None, epoll_wait = (\<lambda>n t w. (Inr [], w))\<rparr> d w 10 False ''n'' 0;
       Some (d, w) }),
     run_handler = (\<lambda>h ev d w. Some (d, w)), pre_loop = None, epoll_wait = (\<lambda>n t w. (Inr [], w))\<rparr>"

theorem permanent_timer_aborts_witness:
  "process_timers adding_env 5 1000 sample_dispatcher 0 = None"
proof (rule permanent_timer_aborts)
  show "heap_ok (timer_queue sample_dispatcher)" by (rule sample_dispatcher_ok)
  show "heap_head (timer_queue sample_dispatcher) = Some (Some (50, make_timer 20 True ''a'' 0))"
    by (simp add: heap_head_def sample_dispatcher_def rd_def)
  show "\<forall>d w. run_timer adding_env (t_callback (make_timer 20 True ''a'' (0 :: nat))) (t_data (make_timer 20 True ''a'' (0 :: nat))) d w =
      (do { (err, d, w) \<leftarrow> dispatcher_add_timer adding_env d w 10 False ''n'' 0; Some (d, w) })"
    by (simp add: adding_env_def dispatcher_add_timer_def dispatcher_add_timer0_def)
qed (simp_all add: sample_dispatcher_def make_timer_def adding_env_def)

end
