(* ===== verification/Hashmap.thy ===== *)
theory Hashmap
  imports Complex_Main "HOL-Library.Multiset" C_Prelude
begin

text \<open>
  The chained hash table of \<^verbatim>\<open>src/src/main/utils/hashmap.c\<close>. Entries live in one array; the pointers
  \<open>prev\<close> and \<open>next\<close> and the bucket heads are indices into it, \<open>None\<close> for \<open>NULL\<close>. Keys and values are
  values of any type, \<open>hash_func\<close> and \<open>equal_func\<close> are fields as in the code. The load factor
  is a rational number; for the factor 0.75 the product with a capacity below \<open>2 ^ 51\<close> is exact in a
  \<open>double\<close>, too.

  Growing re-inserts into a fresh table with \<open>hashmap_put\<close>, which may grow again: \<open>fuel\<close> bounds
  that recursion and the loop around it. The lemmas show that fuel 2 is always enough.
\<close>

section \<open>Dictionaries\<close>

text \<open>
  What a client of a dictionary relies on: the operations, the invariant \<open>inv\<close> of the representation,
  and the finite map \<open>abs\<close> it stands for. The reference \<open>dict_ref\<close> works on the map alone.
\<close>

datatype ('k, 'v) dict_op = Put 'k 'v | Put_if_absent 'k 'v | Get 'k | Remove 'k | Clear | Count

datatype ('k, 'v) dict_answer = Old "'v option" | Added bool | Binding "('k \<times> 'v) option" | Cleared | Counted nat

fun dict_ref :: "('k \<Rightarrow> 'v option) \<Rightarrow> ('k, 'v) dict_op list \<Rightarrow> ('k, 'v) dict_answer list \<times> ('k \<Rightarrow> 'v option)" where
  "dict_ref f [] = ([], f)"
| "dict_ref f (Put k v # ops) = apfst (Cons (Old (f k))) (dict_ref (f(k \<mapsto> v)) ops)"
| "dict_ref f (Put_if_absent k v # ops) = apfst (Cons (Added (f k = None)))
     (dict_ref (if f k = None then f(k \<mapsto> v) else f) ops)"
| "dict_ref f (Get k # ops) = apfst (Cons (Binding (map_option (Pair k) (f k)))) (dict_ref f ops)"
| "dict_ref f (Remove k # ops) = apfst (Cons (Binding (map_option (Pair k) (f k)))) (dict_ref (f(k := None)) ops)"
| "dict_ref f (Clear # ops) = apfst (Cons Cleared) (dict_ref Map.empty ops)"
| "dict_ref f (Count # ops) = apfst (Cons (Counted (card (dom f)))) (dict_ref f ops)"

locale dictionary =
  fixes inv :: "'s \<Rightarrow> bool" and abs :: "'s \<Rightarrow> 'k \<Rightarrow> 'v option"
    and put :: "'s \<Rightarrow> 'k \<Rightarrow> 'v \<Rightarrow> ('v option \<times> 's) option"
    and put_if_absent :: "'s \<Rightarrow> 'k \<Rightarrow> 'v \<Rightarrow> (bool \<times> 's) option"
    and get :: "'s \<Rightarrow> 'k \<Rightarrow> ('k \<times> 'v) option option"
    and remove :: "'s \<Rightarrow> 'k \<Rightarrow> (('k \<times> 'v) option \<times> 's) option"
    and clear :: "'s \<Rightarrow> 's option" and count :: "'s \<Rightarrow> nat"
  assumes put_law: "inv s \<Longrightarrow> \<exists>s'. put s k v = Some (abs s k, s') \<and> inv s' \<and> abs s' = (abs s)(k \<mapsto> v)"
    and put_if_absent_law: "inv s \<Longrightarrow> \<exists>s'. put_if_absent s k v = Some (abs s k = None, s') \<and> inv s' \<and>
      abs s' = (if abs s k = None then (abs s)(k \<mapsto> v) else abs s)"
    and get_law: "inv s \<Longrightarrow> get s k = Some (map_option (Pair k) (abs s k))"
    and remove_law: "inv s \<Longrightarrow> \<exists>s'. remove s k = Some (map_option (Pair k) (abs s k), s') \<and> inv s' \<and> abs s' = (abs s)(k := None)"
    and clear_law: "inv s \<Longrightarrow> \<exists>s'. clear s = Some s' \<and> inv s' \<and> abs s' = Map.empty"
    and count_law: "inv s \<Longrightarrow> count s = card (dom (abs s)) \<and> finite (dom (abs s))"

fun dict_run :: "('s \<Rightarrow> 'k \<Rightarrow> 'v \<Rightarrow> ('v option \<times> 's) option) \<Rightarrow> ('s \<Rightarrow> 'k \<Rightarrow> 'v \<Rightarrow> (bool \<times> 's) option) \<Rightarrow>
    ('s \<Rightarrow> 'k \<Rightarrow> ('k \<times> 'v) option option) \<Rightarrow> ('s \<Rightarrow> 'k \<Rightarrow> (('k \<times> 'v) option \<times> 's) option) \<Rightarrow> ('s \<Rightarrow> 's option) \<Rightarrow>
    ('s \<Rightarrow> nat) \<Rightarrow> 's \<Rightarrow> ('k, 'v) dict_op list \<Rightarrow> (('k, 'v) dict_answer list \<times> 's) option" where
  "dict_run p pia g r c n s [] = Some ([], s)"
| "dict_run p pia g r c n s (op # ops) = do {
     (a, s) \<leftarrow> (case op of
         Put k v \<Rightarrow> map_option (apfst Old) (p s k v)
       | Put_if_absent k v \<Rightarrow> map_option (apfst Added) (pia s k v)
       | Get k \<Rightarrow> map_option (\<lambda>b. (Binding b, s)) (g s k)
       | Remove k \<Rightarrow> map_option (apfst Binding) (r s k)
       | Clear \<Rightarrow> map_option (Pair Cleared) (c s)
       | Count \<Rightarrow> Some (Counted (n s), s));
     (as, s) \<leftarrow> dict_run p pia g r c n s ops;
     Some (a # as, s)
   }"

context dictionary
begin

lemma run_refines:
  "inv s \<Longrightarrow> \<exists>s'. dict_run put put_if_absent get remove clear count s ops = Some (fst (dict_ref (abs s) ops), s') \<and>
    inv s' \<and> abs s' = snd (dict_ref (abs s) ops)"
proof (induction ops arbitrary: s)
  case (Cons op ops)
  show ?case
  proof (cases op)
    case (Put k v)
    obtain s1 where "put s k v = Some (abs s k, s1)" "inv s1" "abs s1 = (abs s)(k \<mapsto> v)" using put_law [OF Cons.prems] by blast
    then show ?thesis using Cons.IH [of s1] Put by (auto simp: fun_upd_def)
  next
    case (Put_if_absent k v)
    obtain s1 where "put_if_absent s k v = Some (abs s k = None, s1)" "inv s1"
      "abs s1 = (if abs s k = None then (abs s)(k \<mapsto> v) else abs s)" using put_if_absent_law [OF Cons.prems] by blast
    then show ?thesis using Cons.IH [of s1] Put_if_absent by (auto simp: fun_upd_def split: if_splits)
  next
    case (Get k)
    then show ?thesis using Cons.IH [OF Cons.prems] get_law [OF Cons.prems] by auto
  next
    case (Remove k)
    obtain s1 where "remove s k = Some (map_option (Pair k) (abs s k), s1)" "inv s1" "abs s1 = (abs s)(k := None)"
      using remove_law [OF Cons.prems] by blast
    then show ?thesis using Cons.IH [of s1] Remove by (auto simp: fun_upd_def)
  next
    case Clear
    obtain s1 where "clear s = Some s1" "inv s1" "abs s1 = Map.empty" using clear_law [OF Cons.prems] by blast
    then show ?thesis using Cons.IH [of s1] Clear by (auto simp: fun_upd_def)
  next
    case Count
    then show ?thesis using Cons.IH [OF Cons.prems] count_law [OF Cons.prems] by auto
  qed
qed simp

end

section \<open>The code\<close>

record ('k, 'v) hentry_t =
  e_key :: 'k
  e_value :: 'v
  used :: bool
  e_prev :: "nat option"
  e_next :: "nat option"

record ('k, 'v) hashmap_t =
  hm_capacity :: nat
  hm_factor :: rat
  hash_func :: "'k \<Rightarrow> nat"
  equal_func :: "'k \<Rightarrow> 'k \<Rightarrow> bool"
  bucket_num :: nat
  hm_size :: nat
  buckets :: "nat option list"
  hm_entries :: "('k, 'v) hentry_t list"

definition hashmap_reset :: "('k, 'v) hashmap_t \<Rightarrow> ('k, 'v) hashmap_t option" where
  "hashmap_reset m = do {
     bs \<leftarrow> for_up 0 (bucket_num m) (\<lambda>i bs. wr bs i None) (buckets m);
     es \<leftarrow> for_up 0 (hm_capacity m) (\<lambda>i es. do { e \<leftarrow> rd es i; wr es i (e\<lparr>used := False\<rparr>) }) (hm_entries m);
     Some (m\<lparr>hm_size := 0, buckets := bs, hm_entries := es\<rparr>)
   }"

text \<open>Fresh memory holds \<open>fst mem\<close> in the buckets and \<open>snd mem\<close> in the entries.\<close>

type_synonym ('k, 'v) junk = "(nat \<Rightarrow> nat option) \<times> (nat \<Rightarrow> ('k, 'v) hentry_t)"

definition hashmap_alloc :: "('k, 'v) junk \<Rightarrow> ('k, 'v) hashmap_t \<Rightarrow> nat \<Rightarrow> ('k, 'v) hashmap_t" where
  "hashmap_alloc mem m cap =
     (let bn = nat \<lfloor>of_nat cap * hm_factor m\<rfloor>
      in m\<lparr>hm_capacity := cap, bucket_num := bn, buckets := map (fst mem) [0..<bn],
           hm_entries := map (snd mem) [0..<cap]\<rparr>)"

definition hashmap_init ::
    "('k, 'v) junk \<Rightarrow> nat \<Rightarrow> rat \<Rightarrow> ('k \<Rightarrow> nat) \<Rightarrow> ('k \<Rightarrow> 'k \<Rightarrow> bool) \<Rightarrow> ('k, 'v) hashmap_t option" where
  "hashmap_init mem cap factor hash eq = do {
     ensure (factor > 0 \<and> factor \<le> 1);
     hashmap_reset (hashmap_alloc mem \<lparr>hm_capacity = 0, hm_factor = factor, hash_func = hash, equal_func = eq,
       bucket_num = 0, hm_size = 0, buckets = [], hm_entries = []\<rparr> cap)
   }"

definition hashmap_init1 ::
    "('k, 'v) junk \<Rightarrow> nat \<Rightarrow> ('k \<Rightarrow> nat) \<Rightarrow> ('k \<Rightarrow> 'k \<Rightarrow> bool) \<Rightarrow> ('k, 'v) hashmap_t option" where
  "hashmap_init1 mem cap hash eq = hashmap_init mem cap (3 / 4) hash eq"

definition hashmap_size :: "('k, 'v) hashmap_t \<Rightarrow> nat" where
  "hashmap_size m = hm_size m"

text \<open>The loop over a chain that \<open>put\<close>, \<open>put_if_absent\<close>, \<open>get\<close> and \<open>remove\<close> share: the first entry
  whose key equals \<open>key\<close>. A chain visits every entry at most once, so the capacity is enough fuel.\<close>

fun chain_find :: "nat \<Rightarrow> ('k, 'v) hashmap_t \<Rightarrow> 'k \<Rightarrow> nat option \<Rightarrow> nat option option" where
  "chain_find fuel m key None = Some None"
| "chain_find 0 m key (Some i) = None"
| "chain_find (Suc fuel) m key (Some i) = do {
     e \<leftarrow> rd (hm_entries m) i;
     if equal_func m key (e_key e) then Some (Some i) else chain_find fuel m key (e_next e)
   }"

definition bucket_index :: "('k, 'v) hashmap_t \<Rightarrow> nat \<Rightarrow> nat option" where
  "bucket_index m hash = do {
     ensure (bucket_num m \<noteq> 0);
     Some (hash mod bucket_num m)
   }"

definition find_entry :: "('k, 'v) hashmap_t \<Rightarrow> 'k \<Rightarrow> nat option option" where
  "find_entry m key = do {
     b \<leftarrow> bucket_index m (hash_func m key);
     h \<leftarrow> rd (buckets m) b;
     chain_find (hm_capacity m) m key h
   }"

text \<open>\<open>hashmap_grow\<close>, with \<open>put\<close> for the calls of \<open>hashmap_put\<close> it makes.\<close>

definition hashmap_grow ::
    "('k, 'v) junk \<Rightarrow> (('k, 'v) hashmap_t \<Rightarrow> 'k \<Rightarrow> 'v \<Rightarrow> ('v option \<times> ('k, 'v) hashmap_t) option) \<Rightarrow>
     ('k, 'v) hashmap_t \<Rightarrow> ('k, 'v) hashmap_t option" where
  "hashmap_grow mem put m = do {
     m' \<leftarrow> hashmap_reset (hashmap_alloc mem m (2 * hm_capacity m));
     for_up 0 (hm_capacity m)
       (\<lambda>i m'. do {
          entry \<leftarrow> rd (hm_entries m) i;
          if used entry then do { (old, m') \<leftarrow> put m' (e_key entry) (e_value entry); Some m' }
          else Some m'
        }) m'
   }"

fun ensure_capacity ::
    "('k, 'v) junk \<Rightarrow> (('k, 'v) hashmap_t \<Rightarrow> 'k \<Rightarrow> 'v \<Rightarrow> ('v option \<times> ('k, 'v) hashmap_t) option) \<Rightarrow> nat \<Rightarrow>
     ('k, 'v) hashmap_t \<Rightarrow> ('k, 'v) hashmap_t option" where
  "ensure_capacity mem put 0 m = (if hm_size m \<ge> bucket_num m then None else Some m)"
| "ensure_capacity mem put (Suc fuel) m =
     (if hm_size m \<ge> bucket_num m then do { m \<leftarrow> hashmap_grow mem put m; ensure_capacity mem put fuel m }
      else Some m)"

text \<open>Linear probing for an unused entry; it visits each entry at most once.\<close>

fun free_entry :: "nat \<Rightarrow> ('k, 'v) hashmap_t \<Rightarrow> nat \<Rightarrow> nat option" where
  "free_entry 0 m i = None"
| "free_entry (Suc fuel) m i = do {
     entry \<leftarrow> rd (hm_entries m) i;
     if used entry then free_entry fuel m ((i + 1) mod hm_capacity m) else Some i
   }"

definition add_entry :: "('k, 'v) hashmap_t \<Rightarrow> nat \<Rightarrow> 'k \<Rightarrow> 'v \<Rightarrow> ('k, 'v) hashmap_t option" where
  "add_entry m hash key v = do {
     b \<leftarrow> bucket_index m hash;
     i \<leftarrow> free_entry (hm_capacity m) m (hash mod hm_capacity m);
     h \<leftarrow> rd (buckets m) b;
     es \<leftarrow> wr (hm_entries m) i \<lparr>e_key = key, e_value = v, used = True, e_prev = None, e_next = h\<rparr>;
     es \<leftarrow> (case h of None \<Rightarrow> Some es
             | Some j \<Rightarrow> do { e \<leftarrow> rd es j; wr es j (e\<lparr>e_prev := Some i\<rparr>) });
     bs \<leftarrow> wr (buckets m) b (Some i);
     Some (m\<lparr>hm_entries := es, buckets := bs, hm_size := hm_size m + 1\<rparr>)
   }"

definition hashmap_put_new ::
    "('k, 'v) junk \<Rightarrow> (('k, 'v) hashmap_t \<Rightarrow> 'k \<Rightarrow> 'v \<Rightarrow> ('v option \<times> ('k, 'v) hashmap_t) option) \<Rightarrow> nat \<Rightarrow>
     ('k, 'v) hashmap_t \<Rightarrow> nat \<Rightarrow> 'k \<Rightarrow> 'v \<Rightarrow> ('k, 'v) hashmap_t option" where
  "hashmap_put_new mem put fuel m hash key v = do {
     m \<leftarrow> ensure_capacity mem put fuel m;
     add_entry m hash key v
   }"

text \<open>The result is the old value, \<open>None\<close> for \<open>NULL\<close>, and the table.\<close>

fun hashmap_put ::
    "('k, 'v) junk \<Rightarrow> nat \<Rightarrow> ('k, 'v) hashmap_t \<Rightarrow> 'k \<Rightarrow> 'v \<Rightarrow> ('v option \<times> ('k, 'v) hashmap_t) option" where
  "hashmap_put mem 0 m key v = None"
| "hashmap_put mem (Suc fuel) m key v = do {
     found \<leftarrow> find_entry m key;
     (case found of
        Some i \<Rightarrow> do {
          entry \<leftarrow> rd (hm_entries m) i;
          es \<leftarrow> wr (hm_entries m) i (entry\<lparr>e_value := v\<rparr>);
          Some (Some (e_value entry), m\<lparr>hm_entries := es\<rparr>)
        }
      | None \<Rightarrow> do {
          m \<leftarrow> hashmap_put_new mem (hashmap_put mem fuel) fuel m (hash_func m key) key v;
          Some (None, m)
        })
   }"

definition hashmap_put_if_absent ::
    "('k, 'v) junk \<Rightarrow> nat \<Rightarrow> ('k, 'v) hashmap_t \<Rightarrow> 'k \<Rightarrow> 'v \<Rightarrow> (bool \<times> ('k, 'v) hashmap_t) option" where
  "hashmap_put_if_absent mem fuel m key v = do {
     found \<leftarrow> find_entry m key;
     (case found of
        Some i \<Rightarrow> Some (False, m)
      | None \<Rightarrow> do {
          m \<leftarrow> hashmap_put_new mem (hashmap_put mem fuel) fuel m (hash_func m key) key v;
          Some (True, m)
        })
   }"

definition hashmap_get :: "('k, 'v) hashmap_t \<Rightarrow> 'k \<Rightarrow> ('k \<times> 'v) option option" where
  "hashmap_get m key = do {
     found \<leftarrow> find_entry m key;
     (case found of
        Some i \<Rightarrow> do { entry \<leftarrow> rd (hm_entries m) i; Some (Some (e_key entry, e_value entry)) }
      | None \<Rightarrow> Some None)
   }"

definition hashmap_remove ::
    "('k, 'v) hashmap_t \<Rightarrow> 'k \<Rightarrow> (('k \<times> 'v) option \<times> ('k, 'v) hashmap_t) option" where
  "hashmap_remove m key = do {
     found \<leftarrow> find_entry m key;
     (case found of
        Some i \<Rightarrow> do {
          b \<leftarrow> bucket_index m (hash_func m key);
          entry \<leftarrow> rd (hm_entries m) i;
          (es, bs) \<leftarrow> (case e_prev entry of
              Some p \<Rightarrow> do {
                e \<leftarrow> rd (hm_entries m) p;
                es \<leftarrow> wr (hm_entries m) p (e\<lparr>e_next := e_next entry\<rparr>);
                Some (es, buckets m)
              }
            | None \<Rightarrow> do { bs \<leftarrow> wr (buckets m) b (e_next entry); Some (hm_entries m, bs) });
          entry \<leftarrow> rd es i;
          es \<leftarrow> (case e_next entry of
              Some n \<Rightarrow> do { e \<leftarrow> rd es n; wr es n (e\<lparr>e_prev := e_prev entry\<rparr>) }
            | None \<Rightarrow> Some es);
          entry \<leftarrow> rd es i;
          es \<leftarrow> wr es i (entry\<lparr>used := False\<rparr>);
          Some (Some (e_key entry, e_value entry), m\<lparr>hm_entries := es, buckets := bs, hm_size := hm_size m - 1\<rparr>)
        }
      | None \<Rightarrow> Some (None, m))
   }"

definition hashmap_clear :: "('k, 'v) hashmap_t \<Rightarrow> ('k, 'v) hashmap_t option" where
  "hashmap_clear m = (if hm_size m = 0 then Some m else hashmap_reset m)"

definition hashmap_end :: "('k, 'v) hashmap_t \<Rightarrow> nat" where
  "hashmap_end m = hm_capacity m"

function find_valid_entry :: "('k, 'v) hashmap_t \<Rightarrow> nat \<Rightarrow> nat option" where
  "find_valid_entry m i =
     (if i < hm_capacity m then do {
        e \<leftarrow> rd (hm_entries m) i;
        if used e then Some i else find_valid_entry m (i + 1)
      } else Some (hashmap_end m))"
  by pat_completeness auto
termination
  by (relation "measure (\<lambda>(m, i). hm_capacity m - i)") auto

declare find_valid_entry.simps [simp del]

definition hashmap_begin :: "('k, 'v) hashmap_t \<Rightarrow> nat option" where
  "hashmap_begin m = find_valid_entry m 0"

definition hashmap_next :: "('k, 'v) hashmap_t \<Rightarrow> nat \<Rightarrow> (nat \<times> 'k \<times> 'v) option" where
  "hashmap_next m iter = do {
     ensure (iter \<noteq> hashmap_end m);
     entry \<leftarrow> rd (hm_entries m) iter;
     ensure (used entry);
     n \<leftarrow> find_valid_entry m (iter + 1);
     Some (n, e_key entry, e_value entry)
   }"

definition naive_hash_func :: "u64 \<Rightarrow> nat" where
  "naive_hash_func key = unat key"

definition naive_equal_func :: "u64 \<Rightarrow> u64 \<Rightarrow> bool" where
  "naive_equal_func key1 key2 \<longleftrightarrow> key1 = key2"

text \<open>A string is its characters before the terminating zero; \<open>char\<close> is signed.\<close>

definition str_hash_func :: "u8 list \<Rightarrow> nat" where
  "str_hash_func key = unat (fold (\<lambda>c h. 31 * h + scast c) key (0 :: u64))"

definition str_equal_func :: "u8 list \<Rightarrow> u8 list \<Rightarrow> bool" where
  "str_equal_func key1 key2 \<longleftrightarrow> key1 = key2"

section \<open>Chains\<close>

text \<open>\<open>chain es pv h xs\<close>: from \<open>h\<close>, the entries are \<open>xs\<close>, doubly linked, with \<open>pv\<close> before the first.\<close>

fun chain :: "('k, 'v) hentry_t list \<Rightarrow> nat option \<Rightarrow> nat option \<Rightarrow> nat list \<Rightarrow> bool" where
  "chain es pv h [] \<longleftrightarrow> h = None"
| "chain es pv h (i # xs) \<longleftrightarrow> h = Some i \<and> i < length es \<and> e_prev (es ! i) = pv \<and> chain es (Some i) (e_next (es ! i)) xs"

definition same_links :: "('k, 'v) hentry_t list \<Rightarrow> ('k, 'v) hentry_t list \<Rightarrow> nat \<Rightarrow> bool" where
  "same_links es es' i \<longleftrightarrow> e_prev (es' ! i) = e_prev (es ! i) \<and> e_next (es' ! i) = e_next (es ! i)"

lemma chain_bounds: "chain es pv h xs \<Longrightarrow> i \<in> set xs \<Longrightarrow> i < length es"
  by (induction xs arbitrary: pv h) auto

lemma chain_cong:
  "chain es pv h xs \<Longrightarrow> \<forall>i \<in> set xs. same_links es es' i \<Longrightarrow> length es' = length es \<Longrightarrow> chain es' pv h xs"
  by (induction xs arbitrary: pv h) (auto simp: same_links_def)

lemma chain_Some: "chain es pv (Some i) xs \<Longrightarrow> \<exists>ys. xs = i # ys"
  by (cases xs) auto

lemma chain_find_spec:
  "chain (hm_entries m) pv h xs \<Longrightarrow> length xs \<le> fuel \<Longrightarrow>
    chain_find fuel m key h = Some (find (\<lambda>i. equal_func m key (e_key (hm_entries m ! i))) xs)"
proof (induction xs arbitrary: pv h fuel)
  case (Cons i xs)
  then obtain f where "fuel = Suc f" by (cases fuel) auto
  then show ?case using Cons by (auto simp: access_simps)
qed simp

lemma chain_update_other: "chain es pv h xs \<Longrightarrow> j \<notin> set xs \<Longrightarrow> chain (es[j := e]) pv h xs"
  by (induction xs arbitrary: pv h) auto

text \<open>Splitting a chain at an entry: what precedes it points to it, what follows points back.\<close>

lemma chain_tail: "chain es pv h (xs @ i # ys) \<Longrightarrow> chain es (Some i) (e_next (es ! i)) ys \<and> i < length es"
  by (induction xs arbitrary: pv h) auto

lemma chain_prev: "chain es pv h (xs @ i # ys) \<Longrightarrow> e_prev (es ! i) = (if xs = [] then pv else Some (last xs))"
  by (induction xs arbitrary: pv h) auto

lemma chain_next: "chain es pv h (xs @ i # ys) \<Longrightarrow> e_next (es ! i) = (if ys = [] then None else Some (hd ys))"
proof -
  assume "chain es pv h (xs @ i # ys)"
  then have "chain es (Some i) (e_next (es ! i)) ys" using chain_tail by blast
  then show ?thesis by (cases ys) auto
qed

text \<open>Linking a new first entry.\<close>

lemma chain_push:
  assumes ch: "chain es None h xs" and i: "i \<notin> set xs" "i < length es"
    and es1: "es1 = es[i := e]" and e: "e_prev e = None" "e_next e = h"
    and es2: "es2 = (case h of None \<Rightarrow> es1 | Some j \<Rightarrow> es1[j := (es1 ! j)\<lparr>e_prev := Some i\<rparr>])"
    and dist: "distinct xs"
  shows "chain es2 None (Some i) (i # xs)"
proof (cases xs)
  case Nil
  then show ?thesis using assms by simp
next
  case (Cons j ys)
  then have h: "h = Some j" "j < length es" "chain es (Some j) (e_next (es ! j)) ys" "j \<noteq> i" using ch i by auto
  have es2': "es2 = es[i := e, j := (es ! j)\<lparr>e_prev := Some i\<rparr>]" using es1 es2 h by simp
  have "chain es2 (Some j) (e_next (es ! j)) ys"
    unfolding es2' by (intro chain_update_other h(3)) (use dist i Cons in auto)
  then show ?thesis using h i e by (simp add: Cons es2')
qed

text \<open>Unlinking an entry: the code patches the \<open>next\<close> of the predecessor (or the bucket head) and the
  \<open>prev\<close> of the successor.\<close>

definition patch_next :: "('k, 'v) hentry_t list \<Rightarrow> nat list \<Rightarrow> nat option \<Rightarrow> ('k, 'v) hentry_t list" where
  "patch_next es xs n = (if xs = [] then es else es[last xs := (es ! last xs)\<lparr>e_next := n\<rparr>])"

definition patch_prev :: "('k, 'v) hentry_t list \<Rightarrow> nat list \<Rightarrow> nat option \<Rightarrow> ('k, 'v) hentry_t list" where
  "patch_prev es ys p = (if ys = [] then es else es[hd ys := (es ! hd ys)\<lparr>e_prev := p\<rparr>])"

lemma length_patch [simp]: "length (patch_next es xs n) = length es" "length (patch_prev es xs n) = length es"
  by (simp_all add: patch_next_def patch_prev_def)

definition opt_last :: "nat option \<Rightarrow> nat list \<Rightarrow> nat option" where
  "opt_last pv xs = (if xs = [] then pv else Some (last xs))"

lemma chain_unlink_tail:
  assumes "chain es (Some i) n ys" "distinct ys"
  shows "chain (patch_prev es ys p) p n ys"
proof (cases ys)
  case (Cons j zs)
  then have "chain es (Some j) (e_next (es ! j)) zs" "j < length es" "n = Some j" using assms(1) by auto
  moreover from this(1) have "chain (patch_prev es ys p) (Some j) (e_next (es ! j)) zs"
    using assms(2) Cons by (simp add: patch_prev_def chain_update_other)
  ultimately show ?thesis by (simp add: Cons patch_prev_def)
qed (use assms in \<open>simp add: patch_prev_def\<close>)

lemma chain_unlink:
  assumes "chain es pv h (xs @ i # ys)" "distinct (xs @ i # ys)"
  shows "chain (patch_prev (patch_next es xs (e_next (es ! i))) ys (opt_last pv xs)) pv
    (if xs = [] then e_next (es ! i) else h) (xs @ ys)"
  using assms
proof (induction xs arbitrary: pv h)
  case Nil
  then have "chain es (Some i) (e_next (es ! i)) ys" "distinct ys" by auto
  then show ?case using chain_unlink_tail [of es i "e_next (es ! i)" ys pv]
    by (simp add: patch_next_def opt_last_def)
next
  case (Cons x xs)
  let ?n = "e_next (es ! i)"
  let ?es' = "\<lambda>zs q. patch_prev (patch_next es zs ?n) ys q"
  have ch: "h = Some x" "x < length es" "e_prev (es ! x) = pv" "chain es (Some x) (e_next (es ! x)) (xs @ i # ys)"
    using Cons.prems(1) by auto
  show ?case
  proof (cases "xs = []")
    case True
    have tail: "chain es (Some i) ?n ys" using chain_tail [OF Cons.prems(1)] by simp
    have "chain (es[x := (es ! x)\<lparr>e_next := ?n\<rparr>]) (Some i) ?n ys"
      using tail Cons.prems(2) by (intro chain_update_other) auto
    then have "chain (patch_prev (es[x := (es ! x)\<lparr>e_next := ?n\<rparr>]) ys (Some x)) (Some x) ?n ys"
      using Cons.prems(2) by (intro chain_unlink_tail) auto
    moreover have "hd ys \<noteq> x" if "ys \<noteq> []" using Cons.prems(2) that by (cases ys) auto
    ultimately show ?thesis
      using True ch by (auto simp: patch_next_def patch_prev_def opt_last_def nth_list_update)
  next
    case False
    have IH: "chain (?es' xs (Some (last xs))) (Some x) (e_next (es ! x)) (xs @ ys)"
      using Cons.IH [OF ch(4)] Cons.prems(2) False by (simp add: opt_last_def)
    have "last xs \<noteq> x" using False Cons.prems(2) by (metis last_in_set distinct.simps(2) append_Cons Un_iff set_append)
    moreover have "hd ys \<noteq> x" if "ys \<noteq> []" using Cons.prems(2) that by (cases ys) auto
    ultimately show ?thesis
      using IH False ch by (auto simp: patch_next_def patch_prev_def opt_last_def nth_list_update)
  qed
qed

section \<open>The invariant\<close>

text \<open>
  \<open>cs\<close> lists the chain of each bucket. Every used entry is in exactly one chain, that of its hash,
  and no two used entries have the same key.
\<close>

definition entries_ok :: "('k, 'v) hashmap_t \<Rightarrow> nat list list \<Rightarrow> bool" where
  "entries_ok m cs \<longleftrightarrow> length cs = bucket_num m \<and>
     (\<forall>b < bucket_num m. chain (hm_entries m) None (buckets m ! b) (cs ! b) \<and>
       (\<forall>i \<in> set (cs ! b). hash_func m (e_key (hm_entries m ! i)) mod bucket_num m = b)) \<and>
     distinct (concat cs) \<and>
     (\<forall>i < hm_capacity m. used (hm_entries m ! i) \<longleftrightarrow> i \<in> set (concat cs)) \<and>
     inj_on (\<lambda>i. e_key (hm_entries m ! i)) (set (concat cs))"

definition hm_shape :: "('k, 'v) hashmap_t \<Rightarrow> bool" where
  "hm_shape m \<longleftrightarrow> length (hm_entries m) = hm_capacity m \<and> length (buckets m) = bucket_num m \<and>
     bucket_num m = nat \<lfloor>of_nat (hm_capacity m) * hm_factor m\<rfloor> \<and> 0 < bucket_num m \<and>
     0 < hm_factor m \<and> hm_factor m \<le> 1 \<and> equal_func m = (=)"

definition hm_ok :: "('k, 'v) hashmap_t \<Rightarrow> bool" where
  "hm_ok m \<longleftrightarrow> hm_shape m \<and> hm_size m \<le> bucket_num m \<and>
     (\<exists>cs. entries_ok m cs \<and> hm_size m = length (concat cs))"

definition hm_map :: "('k, 'v) hashmap_t \<Rightarrow> 'k \<Rightarrow> 'v option" where
  "hm_map m = map_of (map (\<lambda>i. (e_key (hm_entries m ! i), e_value (hm_entries m ! i)))
     (filter (\<lambda>i. used (hm_entries m ! i)) [0..<hm_capacity m]))"

lemma in_concat_nth: "i \<in> set (concat cs) \<longleftrightarrow> (\<exists>b < length cs. i \<in> set (cs ! b))"
  unfolding set_concat set_conv_nth [of cs] by blast

lemma hm_shape_pos: "hm_shape m \<Longrightarrow> 0 < bucket_num m"
  unfolding hm_shape_def by blast

lemma bucket_num_le: "hm_shape m \<Longrightarrow> bucket_num m \<le> hm_capacity m"
proof -
  assume m: "hm_shape m"
  then have "of_nat (hm_capacity m) * hm_factor m \<le> of_nat (hm_capacity m)"
    by (simp add: hm_shape_def mult_left_le)
  then show ?thesis using m by (auto simp: hm_shape_def nat_le_iff floor_le_iff intro: le_less_trans)
qed

lemma entries_bound:
  assumes "hm_shape m" "entries_ok m cs" "i \<in> set (concat cs)"
  shows "i < hm_capacity m"
proof -
  obtain b where "b < bucket_num m" "i \<in> set (cs ! b)"
    using assms(2,3) unfolding in_concat_nth by (auto simp: entries_ok_def)
  then show ?thesis using assms chain_bounds [of "hm_entries m" None "buckets m ! b" "cs ! b" i]
    by (auto simp: entries_ok_def hm_shape_def)
qed

lemma used_set:
  assumes "hm_shape m" "entries_ok m cs"
  shows "set (filter (\<lambda>i. used (hm_entries m ! i)) [0..<hm_capacity m]) = set (concat cs)"
proof -
  have "used (hm_entries m ! i) \<longleftrightarrow> i \<in> set (concat cs)" if "i < hm_capacity m" for i
    using assms(2) that by (simp add: entries_ok_def)
  then show ?thesis using entries_bound [OF assms] by auto
qed

lemma hm_map_Some:
  assumes "hm_shape m" "entries_ok m cs"
  shows "hm_map m k = Some v \<longleftrightarrow>
    (\<exists>i \<in> set (concat cs). e_key (hm_entries m ! i) = k \<and> e_value (hm_entries m ! i) = v)"
proof -
  let ?us = "filter (\<lambda>i. used (hm_entries m ! i)) [0..<hm_capacity m]"
  have "inj_on (\<lambda>i. e_key (hm_entries m ! i)) (set ?us)"
    unfolding used_set [OF assms] using assms(2) by (simp add: entries_ok_def)
  then have "distinct (map fst (map (\<lambda>i. (e_key (hm_entries m ! i), e_value (hm_entries m ! i))) ?us))"
    by (simp add: distinct_map o_def)
  then have "hm_map m k = Some v \<longleftrightarrow>
      (k, v) \<in> set (map (\<lambda>i. (e_key (hm_entries m ! i), e_value (hm_entries m ! i))) ?us)"
    unfolding hm_map_def by (rule map_of_eq_Some_iff)
  also have "\<dots> \<longleftrightarrow> (\<exists>i \<in> set ?us. e_key (hm_entries m ! i) = k \<and> e_value (hm_entries m ! i) = v)"
    by auto
  finally show ?thesis unfolding used_set [OF assms] .
qed

lemma hm_map_eqI:
  assumes "hm_shape m" "entries_ok m cs"
    and "\<And>k v. f k = Some v \<longleftrightarrow> (\<exists>i \<in> set (concat cs). e_key (hm_entries m ! i) = k \<and> e_value (hm_entries m ! i) = v)"
  shows "hm_map m = f"
proof
  fix k show "hm_map m k = f k"
    using hm_map_Some [OF assms(1,2), of k] assms(3) [of k] by (metis option.exhaust)
qed

lemma hm_map_None:
  assumes "hm_shape m" "entries_ok m cs"
  shows "hm_map m k = None \<longleftrightarrow> (\<forall>i \<in> set (concat cs). e_key (hm_entries m ! i) \<noteq> k)"
  using hm_map_Some [OF assms, of k] by (metis option.exhaust option.distinct(1))

lemma chain_length_le:
  assumes "hm_shape m" "entries_ok m cs" "b < bucket_num m"
  shows "length (cs ! b) \<le> hm_capacity m"
proof -
  have mem: "cs ! b \<in> set cs" using assms(2,3) by (simp add: entries_ok_def)
  then have "set (cs ! b) \<subseteq> {..<hm_capacity m}" using entries_bound [OF assms(1,2)] by auto
  moreover have "distinct (cs ! b)" using assms(2) mem by (auto simp: entries_ok_def distinct_concat_iff)
  ultimately show ?thesis by (metis card_lessThan card_mono distinct_card finite_lessThan)
qed

lemma find_entry_spec:
  assumes m: "hm_shape m" "entries_ok m cs"
  shows "\<exists>r. find_entry m k = Some r \<and> (case r of
      Some i \<Rightarrow> i \<in> set (cs ! (hash_func m k mod bucket_num m)) \<and> e_key (hm_entries m ! i) = k
    | None \<Rightarrow> hm_map m k = None)"
proof -
  define b where "b = hash_func m k mod bucket_num m"
  have b: "b < bucket_num m" "0 < bucket_num m" using m(1) by (auto simp: b_def hm_shape_def)
  have ch: "chain (hm_entries m) None (buckets m ! b) (cs ! b)" using m(2) b by (simp add: entries_ok_def)
  have "find_entry m k = Some (find (\<lambda>i. k = e_key (hm_entries m ! i)) (cs ! b))"
    using chain_find_spec [OF ch chain_length_le [OF m b(1)], of k] m(1) b
    by (simp add: find_entry_def bucket_index_def b_def hm_shape_def access_simps)
  moreover have "hm_map m k = None" if "find (\<lambda>i. k = e_key (hm_entries m ! i)) (cs ! b) = None"
  proof (unfold hm_map_None [OF m], intro ballI notI)
    fix i assume "i \<in> set (concat cs)" and k: "e_key (hm_entries m ! i) = k"
    then obtain b' where "b' < bucket_num m" "i \<in> set (cs ! b')"
      using m(2) unfolding in_concat_nth by (auto simp: entries_ok_def)
    moreover from this have "b' = b" using m(2) k by (auto simp: entries_ok_def b_def)
    ultimately show False using that k by (auto simp: find_None_iff)
  qed
  ultimately show ?thesis
    unfolding b_def by (auto simp: find_Some_iff split: option.splits)
qed

lemma in_bucket: "entries_ok m cs \<Longrightarrow> b < bucket_num m \<Longrightarrow> i \<in> set (cs ! b) \<Longrightarrow> i \<in> set (concat cs)"
  unfolding in_concat_nth by (auto simp: entries_ok_def)

text \<open>Overwriting the value of an entry.\<close>

lemma put_old:
  assumes m: "hm_shape m" "entries_ok m cs" and i: "i \<in> set (concat cs)" "e_key (hm_entries m ! i) = k"
    and m': "m' = m\<lparr>hm_entries := (hm_entries m)[i := (hm_entries m ! i)\<lparr>e_value := v\<rparr>]\<rparr>"
  shows "hm_shape m'" "entries_ok m' cs" "hm_map m' = (hm_map m)(k \<mapsto> v)"
proof -
  let ?es = "hm_entries m"
  let ?es' = "?es[i := (?es ! i)\<lparr>e_value := v\<rparr>]"
  have ilen: "i < length ?es" using entries_bound [OF m i(1)] m(1) by (simp add: hm_shape_def)
  then have same: "e_key (?es' ! j) = e_key (?es ! j)" "used (?es' ! j) = used (?es ! j)" "same_links ?es ?es' j"
    "e_value (?es' ! j) = (if j = i then v else e_value (?es ! j))" for j
    by (auto simp: nth_list_update same_links_def)
  show shape: "hm_shape m'" using m(1) by (auto simp: m' hm_shape_def)
  show ok: "entries_ok m' cs"
    using m(2) chain_cong [of ?es _ _ _ ?es'] by (auto simp: entries_ok_def m' same)
  have inj: "\<forall>j \<in> set (concat cs). e_key (?es ! j) = k \<longrightarrow> j = i"
    using m(2) i unfolding entries_ok_def inj_on_def by blast
  show "hm_map m' = (hm_map m)(k \<mapsto> v)"
  proof (rule hm_map_eqI [OF shape ok])
    fix k' v'
    have upd: "e_key (hm_entries m' ! j) = e_key (?es ! j)" "e_value (hm_entries m' ! i) = v"
      "j \<noteq> i \<Longrightarrow> e_value (hm_entries m' ! j) = e_value (?es ! j)" for j
      using same by (simp_all add: m')
    show "((hm_map m)(k \<mapsto> v)) k' = Some v' \<longleftrightarrow>
        (\<exists>j \<in> set (concat cs). e_key (hm_entries m' ! j) = k' \<and> e_value (hm_entries m' ! j) = v')"
    proof (cases "k' = k")
      case True
      have "(\<exists>j \<in> set (concat cs). e_key (hm_entries m' ! j) = k \<and> e_value (hm_entries m' ! j) = v') \<longleftrightarrow> v = v'"
        using i inj upd by metis
      then show ?thesis using True by simp
    next
      case False
      have "(\<exists>j \<in> set (concat cs). e_key (hm_entries m' ! j) = k' \<and> e_value (hm_entries m' ! j) = v') \<longleftrightarrow>
          (\<exists>j \<in> set (concat cs). e_key (?es ! j) = k' \<and> e_value (?es ! j) = v')"
        using i(2) False upd by metis
      then show ?thesis using False hm_map_Some [OF m, of k' v'] by simp
    qed
  qed
qed

text \<open>The search for a free entry.\<close>

lemma free_entry_probe:
  assumes "d < fuel" "\<not> used (hm_entries m ! ((i + d) mod hm_capacity m))"
    and "i < hm_capacity m" "length (hm_entries m) = hm_capacity m"
  shows "\<exists>j. free_entry fuel m i = Some j \<and> j < hm_capacity m \<and> \<not> used (hm_entries m ! j)"
  using assms(1,2,3)
proof (induction fuel arbitrary: i d)
  case (Suc fuel)
  show ?case
  proof (cases "used (hm_entries m ! i)")
    case True
    then obtain d' where d: "d = Suc d'" using Suc.prems by (cases d) auto
    have "((i + 1) mod hm_capacity m + d') mod hm_capacity m = (i + d) mod hm_capacity m"
      by (simp add: d mod_add_left_eq)
    then have "\<exists>j. free_entry fuel m ((i + 1) mod hm_capacity m) = Some j \<and> j < hm_capacity m \<and> \<not> used (hm_entries m ! j)"
      using Suc.prems d by (intro Suc.IH [of d']) auto
    then show ?thesis using True Suc.prems assms(4) by (simp add: access_simps)
  qed (use Suc.prems assms(4) in \<open>simp add: access_simps\<close>)
qed simp

lemma free_entry_spec:
  assumes m: "hm_shape m" "entries_ok m cs" and room: "length (concat cs) < hm_capacity m" and i: "i < hm_capacity m"
  shows "\<exists>j. free_entry (hm_capacity m) m i = Some j \<and> j < hm_capacity m \<and> j \<notin> set (concat cs)"
proof -
  have "card (set (concat cs)) < card {..<hm_capacity m}"
    using room card_length [of "concat cs"] by simp
  then obtain j where j: "j < hm_capacity m" "j \<notin> set (concat cs)"
    by (metis card_mono finite_set lessThan_iff not_le subsetI)
  define d where "d = (j + hm_capacity m - i) mod hm_capacity m"
  have "(i + d) mod hm_capacity m = j" using i j(1) by (simp add: d_def mod_add_right_eq)
  moreover have used: "used (hm_entries m ! j) \<longleftrightarrow> j \<in> set (concat cs)" if "j < hm_capacity m" for j
    using m(2) that unfolding entries_ok_def by blast
  moreover have "d < hm_capacity m" using i by (simp add: d_def)
  ultimately show ?thesis
    using free_entry_probe [of d "hm_capacity m" m i] i j m(1) used unfolding hm_shape_def by metis
qed

lemma distinct_concat_upd:
  assumes "distinct (concat cs)" "b < length cs" "i \<notin> set (concat cs)"
  shows "distinct (concat (cs[b := i # cs ! b]))" "set (concat (cs[b := i # cs ! b])) = insert i (set (concat cs))"
    "length (concat (cs[b := i # cs ! b])) = Suc (length (concat cs))"
proof -
  have cs: "cs = take b cs @ cs ! b # drop (Suc b) cs" using assms(2) by (rule id_take_nth_drop)
  have cs': "cs[b := i # cs ! b] = take b cs @ (i # cs ! b) # drop (Suc b) cs"
    using assms(2) by (simp add: upd_conv_take_nth_drop)
  have old: "mset (concat (take b cs)) + (mset (cs ! b) + mset (concat (drop (Suc b) cs))) = mset (concat cs)"
    using arg_cong [OF cs, of "\<lambda>xs. mset (concat xs)"] by simp
  have perm: "mset (concat (cs[b := i # cs ! b])) = mset (i # concat cs)"
    unfolding cs' by (simp flip: old)
  show "distinct (concat (cs[b := i # cs ! b]))"
    using mset_eq_imp_distinct_iff [OF perm] assms(1,3) by simp
  show "set (concat (cs[b := i # cs ! b])) = insert i (set (concat cs))"
    using mset_eq_setD [OF perm] by simp
  show "length (concat (cs[b := i # cs ! b])) = Suc (length (concat cs))"
    using mset_eq_length [OF perm] by simp
qed

text \<open>What the operations leave alone.\<close>

definition same_conf :: "('k, 'v) hashmap_t \<Rightarrow> ('k, 'v) hashmap_t \<Rightarrow> bool" where
  "same_conf m m' \<longleftrightarrow> hm_capacity m' = hm_capacity m \<and> hm_factor m' = hm_factor m \<and> hash_func m' = hash_func m \<and>
     equal_func m' = equal_func m \<and> bucket_num m' = bucket_num m"

lemma hm_shape_cong:
  "hm_shape m \<Longrightarrow> same_conf m m' \<Longrightarrow> length (hm_entries m') = length (hm_entries m) \<Longrightarrow>
    length (buckets m') = length (buckets m) \<Longrightarrow> hm_shape m'"
  unfolding hm_shape_def same_conf_def by metis

definition same_data :: "('k, 'v) hentry_t list \<Rightarrow> ('k, 'v) hentry_t list \<Rightarrow> nat \<Rightarrow> bool" where
  "same_data es es' i \<longleftrightarrow> e_key (es' ! i) = e_key (es ! i) \<and> e_value (es' ! i) = e_value (es ! i) \<and> used (es' ! i) = used (es ! i)"

lemma disjoint_chains:
  assumes "entries_ok m cs" "b < bucket_num m" "b' < bucket_num m" "b \<noteq> b'" "i \<in> set (cs ! b)"
  shows "i \<notin> set (cs ! b')"
  using assms unfolding entries_ok_def by metis

lemma entries_ok_insert:
  assumes m: "hm_shape m" "entries_ok m cs" and b: "b < bucket_num m"
    and i: "i < hm_capacity m" "i \<notin> set (concat cs)"
    and new: "hm_map m k = None" "hash_func m k mod bucket_num m = b"
    and es2: "es2 = (case buckets m ! b of None \<Rightarrow> es1 | Some j \<Rightarrow> es1[j := (es1 ! j)\<lparr>e_prev := Some i\<rparr>])"
    and es1: "es1 = (hm_entries m)[i := \<lparr>e_key = k, e_value = v, used = True, e_prev = None, e_next = buckets m ! b\<rparr>]"
    and m': "m' = m\<lparr>hm_entries := es2, buckets := (buckets m)[b := Some i], hm_size := hm_size m + 1\<rparr>"
  shows "entries_ok m' (cs[b := i # cs ! b])" "hm_map m' = (hm_map m)(k \<mapsto> v)"
proof -
  let ?es = "hm_entries m"
  let ?cs' = "cs[b := i # cs ! b]"
  have len: "length cs = bucket_num m" "length ?es = hm_capacity m" "length (buckets m) = bucket_num m" "length es2 = length ?es"
    using m by (auto simp: entries_ok_def hm_shape_def es1 es2 split: option.splits)
  have dist: "distinct (concat cs)" and ch: "b' < bucket_num m \<Longrightarrow> chain ?es None (buckets m ! b') (cs ! b')" for b'
    using m(2) by (auto simp: entries_ok_def)
  note upd = distinct_concat_upd [OF dist b [folded len(1)] i(2)]
  have headin: "j \<in> set (cs ! b) \<and> j < hm_capacity m" if "buckets m ! b = Some j" for j
    using chain_Some ch [OF b] that len(2) by fastforce
  then have head: "j \<in> set (concat cs) \<and> j < hm_capacity m \<and> j \<noteq> i" if "buckets m ! b = Some j" for j
    using in_bucket [OF m(2) b] i(2) that by metis
  have data: "same_data ?es es2 j" if "j \<noteq> i" for j
    using that head len(2) by (auto simp: same_data_def es1 es2 nth_list_update split: option.splits)
  have new_i: "e_key (es2 ! i) = k" "e_value (es2 ! i) = v" "used (es2 ! i)"
    using head i(1) len(2) by (auto simp: es1 es2 nth_list_update split: option.splits)
  have inot: "i \<notin> set (cs ! b')" if "b' < bucket_num m" for b' using in_bucket [OF m(2) that] i(2) by blast
  have shape: "hm_shape m'" by (rule hm_shape_cong [OF m(1)]) (simp_all add: m' same_conf_def len)
  have "chain es2 None (Some i) (i # cs ! b)"
    using chain_push [OF ch [OF b] inot [OF b] _ es1 _ _ es2] i(1) len(2) dist b len(1)
    by (simp add: distinct_concat_iff)
  moreover have "chain es2 None (buckets m ! b') (cs ! b')" if b': "b' < bucket_num m" "b' \<noteq> b" for b'
  proof -
    have "chain es1 None (buckets m ! b') (cs ! b')" unfolding es1
      by (rule chain_update_other [OF ch inot]) (use b' in auto)
    then show ?thesis
      using disjoint_chains [OF m(2) b b'(1)] b'(2) headin unfolding es2
      by (auto split: option.splits intro: chain_update_other)
  qed
  ultimately have chains: "chain es2 None ((buckets m)[b := Some i] ! b') (?cs' ! b')" if "b' < bucket_num m" for b'
    using that b len by (cases "b' = b") auto
  have key_old: "e_key (es2 ! j) = e_key (?es ! j)" if "j \<in> set (concat cs)" for j
    using data that i(2) by (metis same_data_def)
  have hashes: "hash_func m (e_key (es2 ! j)) mod bucket_num m = b'" if "b' < bucket_num m" "j \<in> set (?cs' ! b')" for j b'
  proof (cases "j = i")
    case True
    then have "b' = b" using that inot [OF that(1)] len(1) by (cases "b' = b") auto
    then show ?thesis using True new(2) new_i by simp
  next
    case False
    then have "j \<in> set (cs ! b')" using that len(1) b by (cases "b' = b") auto
    then show ?thesis using m(2) that(1) key_old in_bucket [OF m(2) that(1)] by (auto simp: entries_ok_def)
  qed
  have "inj_on (\<lambda>j. e_key (?es ! j)) (set (concat cs))" using m(2) by (simp add: entries_ok_def)
  moreover have "k \<notin> (\<lambda>j. e_key (?es ! j)) ` set (concat cs)" using new(1) unfolding hm_map_None [OF m] by blast
  ultimately have inj: "inj_on (\<lambda>j. e_key (es2 ! j)) (insert i (set (concat cs)))"
    using key_old new_i(1) i(2) unfolding inj_on_def by (smt (verit) imageI insert_iff)
  have "used (es2 ! j) \<longleftrightarrow> j \<in> insert i (set (concat cs))" if "j < hm_capacity m" for j
  proof (cases "j = i")
    case False
    have "used (?es ! j) \<longleftrightarrow> j \<in> set (concat cs)" using m(2) that unfolding entries_ok_def by blast
    then show ?thesis using data [OF False] False by (simp add: same_data_def)
  qed (use new_i in simp)
  then show ok: "entries_ok m' ?cs'"
    unfolding entries_ok_def upd(2) using upd(1) inj chains hashes len(1) by (simp add: m')
  show "hm_map m' = (hm_map m)(k \<mapsto> v)"
  proof (rule hm_map_eqI [OF shape ok], unfold upd(2))
    fix k' v'
    define S where "S = set (concat cs)"
    have "(\<exists>j\<in>S. e_key (es2 ! j) = k' \<and> e_value (es2 ! j) = v') \<longleftrightarrow> hm_map m k' = Some v'"
      unfolding hm_map_Some [OF m] S_def
    proof (intro bex_cong refl)
      fix j assume "j \<in> set (concat cs)"
      then have "j \<noteq> i" using i(2) by blast
      then show "(e_key (es2 ! j) = k' \<and> e_value (es2 ! j) = v') = (e_key (?es ! j) = k' \<and> e_value (?es ! j) = v')"
        using data by (simp add: same_data_def)
    qed
    then have "(\<exists>j\<in>insert i S. e_key (es2 ! j) = k' \<and> e_value (es2 ! j) = v') \<longleftrightarrow>
        (k = k' \<and> v = v') \<or> hm_map m k' = Some v'" using new_i by simp
    also have "\<dots> \<longleftrightarrow> ((hm_map m)(k \<mapsto> v)) k' = Some v'" using new(1) by auto
    finally show "((hm_map m)(k \<mapsto> v)) k' = Some v' \<longleftrightarrow>
        (\<exists>j\<in>insert i (set (concat cs)). e_key (hm_entries m' ! j) = k' \<and> e_value (hm_entries m' ! j) = v')"
      unfolding S_def by (simp add: m' del: set_concat)
  qed
qed

lemma add_entry_spec:
  assumes m: "hm_ok m" and room: "hm_size m < bucket_num m" and new: "hm_map m k = None"
  shows "\<exists>m'. add_entry m (hash_func m k) k v = Some m' \<and> hm_ok m' \<and> hm_map m' = (hm_map m)(k \<mapsto> v) \<and>
    hm_size m' = Suc (hm_size m) \<and> same_conf m m'"
proof -
  obtain cs where sh: "hm_shape m" and cs: "entries_ok m cs" "hm_size m = length (concat cs)"
    using m by (auto simp: hm_ok_def)
  define b where "b = hash_func m k mod bucket_num m"
  have b: "b < bucket_num m" using room by (simp add: b_def)
  have cap: "bucket_num m \<le> hm_capacity m" using bucket_num_le [OF sh] .
  obtain i where i: "free_entry (hm_capacity m) m (hash_func m k mod hm_capacity m) = Some i"
    "i < hm_capacity m" "i \<notin> set (concat cs)"
    using free_entry_spec [OF sh cs(1), of "hash_func m k mod hm_capacity m"] room cs(2) cap by auto
  define es1 where "es1 = (hm_entries m)[i := \<lparr>e_key = k, e_value = v, used = True, e_prev = None, e_next = buckets m ! b\<rparr>]"
  define es2 where "es2 = (case buckets m ! b of None \<Rightarrow> es1 | Some j \<Rightarrow> es1[j := (es1 ! j)\<lparr>e_prev := Some i\<rparr>])"
  define m' where "m' = m\<lparr>hm_entries := es2, buckets := (buckets m)[b := Some i], hm_size := hm_size m + 1\<rparr>"
  have len: "length (hm_entries m) = hm_capacity m" "length (buckets m) = bucket_num m" "length cs = bucket_num m"
    using sh cs(1) by (auto simp: hm_shape_def entries_ok_def)
  have len2: "length es2 = hm_capacity m" using len by (simp add: es1_def es2_def split: option.splits)
  have "j < hm_capacity m" if "buckets m ! b = Some j" for j
  proof -
    have "chain (hm_entries m) None (Some j) (cs ! b)" using cs(1) b that by (auto simp: entries_ok_def)
    then show ?thesis using len by (cases "cs ! b") auto
  qed
  then have "(case buckets m ! b of None \<Rightarrow> Some es1 | Some j \<Rightarrow> do { e \<leftarrow> rd es1 j; wr es1 j (e\<lparr>e_prev := Some i\<rparr>) }) = Some es2"
    using len by (auto simp: es1_def es2_def access_simps split: option.splits)
  moreover have "bucket_index m (hash_func m k) = Some b" using room by (simp add: bucket_index_def b_def)
  moreover have "wr (hm_entries m) i \<lparr>e_key = k, e_value = v, used = True, e_prev = None, e_next = buckets m ! b\<rparr> = Some es1"
    using i len by (simp add: wr_in es1_def)
  ultimately have "add_entry m (hash_func m k) k v = Some m'"
    using i(1) b len by (simp add: add_entry_def m'_def rd_in wr_in)
  moreover have "hm_shape m'" "same_conf m m'"
    using hm_shape_cong [OF sh, of m'] len len2 by (simp_all add: m'_def same_conf_def)
  moreover have "entries_ok m' (cs[b := i # cs ! b])" "hm_map m' = (hm_map m)(k \<mapsto> v)"
    using entries_ok_insert [OF sh cs(1) b i(2,3) new b_def [symmetric] es2_def es1_def m'_def] .
  moreover have "length (concat (cs[b := i # cs ! b])) = Suc (length (concat cs))"
    using distinct_concat_upd(3) [of cs b i] cs(1) b i(3) len by (auto simp: entries_ok_def)
  ultimately show ?thesis using room cs(2) by (auto simp: hm_ok_def m'_def simp del: length_concat)
qed

lemma hashmap_reset_spec:
  assumes "hm_shape m"
  shows "\<exists>m'. hashmap_reset m = Some m' \<and> hm_ok m' \<and> hm_map m' = Map.empty \<and> hm_size m' = 0 \<and> same_conf m m'"
proof -
  have len: "length (hm_entries m) = hm_capacity m" "length (buckets m) = bucket_num m"
    using assms by (auto simp: hm_shape_def)
  have "\<exists>bs. for_up 0 (bucket_num m) (\<lambda>i bs. wr bs i None) (buckets m) = Some bs \<and>
      (length bs = bucket_num m \<and> (\<forall>j < bucket_num m. bs ! j = None))"
    by (rule for_up_rule [where P = "\<lambda>i bs. length bs = bucket_num m \<and> (\<forall>j < i. bs ! j = None)"])
      (auto simp: len access_simps nth_list_update less_Suc_eq)
  then obtain bs where bs: "for_up 0 (bucket_num m) (\<lambda>i bs. wr bs i None) (buckets m) = Some bs"
    "length bs = bucket_num m" "\<forall>j < bucket_num m. bs ! j = None" by blast
  let ?f = "\<lambda>i es. do { e \<leftarrow> rd es i; wr es i (e\<lparr>used := False\<rparr>) }"
  have "\<exists>es. for_up 0 (hm_capacity m) ?f (hm_entries m) = Some es \<and>
      (length es = hm_capacity m \<and> (\<forall>j < hm_capacity m. \<not> used (es ! j)))"
    by (rule for_up_rule [where P = "\<lambda>i es. length es = hm_capacity m \<and> (\<forall>j < i. \<not> used (es ! j))"])
      (auto simp: len access_simps nth_list_update less_Suc_eq)
  then obtain es where es: "for_up 0 (hm_capacity m) ?f (hm_entries m) = Some es"
    "length es = hm_capacity m" "\<forall>j < hm_capacity m. \<not> used (es ! j)" by blast
  define m' where "m' = m\<lparr>hm_size := 0, buckets := bs, hm_entries := es\<rparr>"
  have "hashmap_reset m = Some m'" using bs(1) es(1) by (simp add: hashmap_reset_def m'_def)
  moreover have sh: "hm_shape m'" "same_conf m m'"
    using hm_shape_cong [OF assms, of m'] len bs es by (simp_all add: m'_def same_conf_def)
  moreover have ok: "entries_ok m' (replicate (bucket_num m) [])"
    using bs es by (simp add: entries_ok_def m'_def)
  moreover have "hm_map m' = Map.empty" by (rule hm_map_eqI [OF sh(1) ok]) simp
  moreover have "hm_size m' = length (concat (replicate (bucket_num m) ([] :: nat list)))" by (simp add: m'_def)
  ultimately show ?thesis unfolding hm_ok_def by (metis concat_replicate_trivial list.size(3) zero_le)
qed

lemma hm_size_card:
  assumes "hm_ok m"
  shows "hm_size m = card (dom (hm_map m))" "finite (dom (hm_map m))"
proof -
  obtain cs where sh: "hm_shape m" and cs: "entries_ok m cs" "hm_size m = length (concat cs)"
    using assms by (auto simp: hm_ok_def)
  have "dom (hm_map m) = (\<lambda>i. e_key (hm_entries m ! i)) ` set (concat cs)"
    using hm_map_Some [OF sh cs(1)] by (auto simp: dom_def simp del: set_concat)
  then show "hm_size m = card (dom (hm_map m))" "finite (dom (hm_map m))"
    using cs by (simp_all add: entries_ok_def card_image distinct_card del: set_concat length_concat)
qed

lemma find_entry_cases:
  assumes "hm_ok m"
  obtains (found) cs i where "find_entry m k = Some (Some i)" "hm_shape m" "entries_ok m cs"
      "hm_size m = length (concat cs)"
      "i \<in> set (cs ! (hash_func m k mod bucket_num m))" "i \<in> set (concat cs)" "i < length (hm_entries m)"
      "e_key (hm_entries m ! i) = k" "hm_map m k = Some (e_value (hm_entries m ! i))"
  | (missing) "find_entry m k = Some None" "hm_map m k = None"
proof -
  obtain cs where sh: "hm_shape m" and cs: "entries_ok m cs" "hm_size m = length (concat cs)"
    using assms by (auto simp: hm_ok_def)
  obtain r where r: "find_entry m k = Some r" "(case r of
      Some i \<Rightarrow> i \<in> set (cs ! (hash_func m k mod bucket_num m)) \<and> e_key (hm_entries m ! i) = k
    | None \<Rightarrow> hm_map m k = None)" using find_entry_spec [OF sh cs(1)] by blast
  show ?thesis
  proof (cases r)
    case None
    then show ?thesis using missing r by simp
  next
    case (Some i)
    have "hash_func m k mod bucket_num m < bucket_num m" using sh by (auto simp: hm_shape_def)
    then have i: "i \<in> set (concat cs)" using in_bucket [OF cs(1)] r(2) Some by auto
    then have "hm_map m k = Some (e_value (hm_entries m ! i))" using hm_map_Some [OF sh cs(1)] r(2) Some by auto
    moreover have "i < length (hm_entries m)" using entries_bound [OF sh cs(1) i] sh by (simp add: hm_shape_def)
    ultimately show ?thesis using found [OF _ sh cs] r Some i by simp
  qed
qed

text \<open>A table with room never grows.\<close>

lemma put_room:
  assumes m: "hm_ok m" and room: "hm_size m < bucket_num m" and new: "hm_map m k = None"
  shows "\<exists>m'. hashmap_put mem (Suc fuel) m k v = Some (None, m') \<and> hm_ok m' \<and> hm_map m' = (hm_map m)(k \<mapsto> v) \<and>
    hm_size m' = Suc (hm_size m) \<and> same_conf m m'"
proof -
  have "find_entry m k = Some None" using m by (cases rule: find_entry_cases [where k = k]) (use new in auto)
  moreover have "ensure_capacity mem put fuel m = Some m" for put using room by (cases fuel) simp_all
  ultimately show ?thesis using add_entry_spec [OF m room new, of v] by (auto simp: hashmap_put_new_def)
qed

lemma same_conf_trans: "same_conf m m' \<Longrightarrow> same_conf m' m'' \<Longrightarrow> same_conf m m''"
  by (simp add: same_conf_def)

lemma double_floor: "0 \<le> (x :: rat) \<Longrightarrow> 2 * nat \<lfloor>x\<rfloor> \<le> nat \<lfloor>2 * x\<rfloor>"
  by linarith

lemma hashmap_alloc_shape:
  assumes "hm_shape m"
  shows "hm_shape (hashmap_alloc mem m (2 * hm_capacity m))"
    "2 * bucket_num m \<le> bucket_num (hashmap_alloc mem m (2 * hm_capacity m))"
    "hash_func (hashmap_alloc mem m (2 * hm_capacity m)) = hash_func m"
proof -
  let ?m' = "hashmap_alloc mem m (2 * hm_capacity m)"
  have "0 \<le> of_nat (hm_capacity m) * hm_factor m" using assms by (simp add: hm_shape_def)
  then show le: "2 * bucket_num m \<le> bucket_num ?m'"
    using assms double_floor [of "of_nat (hm_capacity m) * hm_factor m"]
    by (simp add: hashmap_alloc_def hm_shape_def Let_def mult.assoc)
  have "0 < bucket_num m" using hm_shape_pos [OF assms] .
  then have "0 < bucket_num ?m'" using le by linarith
  then show "hm_shape ?m'" using assms by (auto simp: hm_shape_def hashmap_alloc_def Let_def)
  show "hash_func ?m' = hash_func m" by (simp add: hashmap_alloc_def Let_def)
qed

lemma used_prefix:
  assumes m: "hm_shape m" "entries_ok m cs" and i: "i < hm_capacity m" "used (hm_entries m ! i)"
  shows "\<And>j. j < i \<Longrightarrow> used (hm_entries m ! j) \<Longrightarrow> e_key (hm_entries m ! j) \<noteq> e_key (hm_entries m ! i)"
    "length (filter (\<lambda>j. used (hm_entries m ! j)) [0..<i]) < length (concat cs)"
proof -
  let ?u = "\<lambda>n. set (filter (\<lambda>j. used (hm_entries m ! j)) [0..<n])"
  have all: "?u (hm_capacity m) = set (concat cs)" by (rule used_set [OF m])
  have dist: "distinct (concat cs)" and inj: "inj_on (\<lambda>i. e_key (hm_entries m ! i)) (set (concat cs))"
    using m(2) by (auto simp: entries_ok_def)
  show "e_key (hm_entries m ! j) \<noteq> e_key (hm_entries m ! i)" if "j < i" "used (hm_entries m ! j)" for j
  proof -
    have "j \<in> ?u (hm_capacity m)" "i \<in> ?u (hm_capacity m)" using that i by auto
    then show ?thesis using inj that(1) unfolding all inj_on_def by blast
  qed
  have "?u i \<subset> ?u (hm_capacity m)" using i by auto
  then have "card (?u i) < card (set (concat cs))" unfolding all by (intro psubset_card_mono) simp_all
  then show "length (filter (\<lambda>j. used (hm_entries m ! j)) [0..<i]) < length (concat cs)"
    using dist by (simp add: distinct_card del: set_concat length_concat set_filter flip: distinct_card)
qed

lemma hashmap_grow_spec:
  assumes m: "hm_ok m"
  shows "\<exists>m'. hashmap_grow mem (hashmap_put mem (Suc fuel)) m = Some m' \<and> hm_ok m' \<and> hm_map m' = hm_map m \<and>
    hm_size m' < bucket_num m' \<and> hash_func m' = hash_func m"
proof -
  obtain cs where sh: "hm_shape m" and cs: "entries_ok m cs" "hm_size m = length (concat cs)" "hm_size m \<le> bucket_num m"
    using m by (auto simp: hm_ok_def)
  let ?a = "hashmap_alloc mem m (2 * hm_capacity m)"
  let ?es = "hm_entries m"
  let ?u = "\<lambda>i. filter (\<lambda>j. used (?es ! j)) [0..<i]"
  note a = hashmap_alloc_shape [OF sh, of mem]
  obtain m0 where m0: "hashmap_reset ?a = Some m0" "hm_ok m0" "hm_map m0 = Map.empty" "hm_size m0 = 0" "same_conf ?a m0"
    using hashmap_reset_spec [OF a(1)] by blast
  have pos: "0 < bucket_num m" using hm_shape_pos [OF sh] .
  have bn: "bucket_num m < bucket_num ?a" using a(2) pos by linarith
  define P where "P = (\<lambda>i m'. hm_ok m' \<and> same_conf ?a m' \<and> hm_size m' = length (?u i) \<and>
    (\<forall>k v. hm_map m' k = Some v \<longleftrightarrow> (\<exists>j < i. used (?es ! j) \<and> e_key (?es ! j) = k \<and> e_value (?es ! j) = v)))"
  let ?f = "\<lambda>i m'. do { entry \<leftarrow> rd ?es i;
    if used entry then do { (old, m') \<leftarrow> hashmap_put mem (Suc fuel) m' (e_key entry) (e_value entry); Some m' } else Some m' }"
  have "\<exists>m'. for_up 0 (hm_capacity m) ?f m0 = Some m' \<and> P (hm_capacity m) m'"
  proof (rule for_up_rule)
    show "P 0 m0" using m0 by (simp add: P_def)
  next
    fix i m' assume i: "i < hm_capacity m" and "P i m'"
    then have P: "hm_ok m'" "same_conf ?a m'" "hm_size m' = length (?u i)"
      and map: "\<And>k v. hm_map m' k = Some v \<longleftrightarrow> (\<exists>j < i. used (?es ! j) \<and> e_key (?es ! j) = k \<and> e_value (?es ! j) = v)"
      by (simp_all add: P_def)
    have len: "i < length ?es" using i sh by (simp add: hm_shape_def)
    show "\<exists>m''. ?f i m' = Some m'' \<and> P (Suc i) m''"
    proof (cases "used (?es ! i)")
      case True
      note up = used_prefix [OF sh cs(1) i True]
      let ?k = "e_key (?es ! i)"
      have "hm_map m' ?k = None" using map [of ?k] up(1) by (metis option.exhaust)
      moreover have "hm_size m' < bucket_num m'" using up(2) cs bn P(2,3) by (simp add: same_conf_def del: length_concat)
      ultimately obtain m'' where m'': "hashmap_put mem (Suc fuel) m' ?k (e_value (?es ! i)) = Some (None, m'')" "hm_ok m''"
          "hm_map m'' = (hm_map m')(?k \<mapsto> e_value (?es ! i))" "hm_size m'' = Suc (hm_size m')" "same_conf m' m''"
        using put_room [OF P(1)] by blast
      have "hm_map m'' k = Some v \<longleftrightarrow> (\<exists>j < Suc i. used (?es ! j) \<and> e_key (?es ! j) = k \<and> e_value (?es ! j) = v)" for k v
        using map [of k v] up(1) True unfolding m''(3) less_Suc_eq by (cases "k = ?k") auto
      moreover have "hm_size m'' = length (?u (Suc i))" using m''(4) P(3) True by simp
      ultimately have "P (Suc i) m''" using m''(2,5) same_conf_trans [OF P(2)] by (simp add: P_def)
      then show ?thesis using m''(1) True len by (simp add: access_simps)
    next
      case False
      then have "P (Suc i) m'" using P map by (auto simp: P_def less_Suc_eq)
      then show ?thesis using False len by (simp add: access_simps)
    qed
  qed simp
  then obtain m' where m': "for_up 0 (hm_capacity m) ?f m0 = Some m'" "P (hm_capacity m) m'" by blast
  have "hm_map m' k = Some v \<longleftrightarrow> hm_map m k = Some v" for k v
  proof -
    have "hm_map m' k = Some v \<longleftrightarrow> (\<exists>j \<in> set (?u (hm_capacity m)). e_key (?es ! j) = k \<and> e_value (?es ! j) = v)"
      using m'(2) by (auto simp: P_def)
    then show ?thesis unfolding used_set [OF sh cs(1)] hm_map_Some [OF sh cs(1)] .
  qed
  then have "hm_map m' = hm_map m" by (metis ext option.exhaust)
  moreover have "hm_size m' < bucket_num m'"
  proof -
    have "hm_size m' = hm_size m"
      using hm_size_card [of m'] hm_size_card [OF m] m'(2) \<open>hm_map m' = hm_map m\<close> by (simp add: P_def)
    then show ?thesis using cs(3) bn m'(2) by (simp add: P_def same_conf_def)
  qed
  moreover have "hashmap_grow mem (hashmap_put mem (Suc fuel)) m = Some m'"
    unfolding hashmap_grow_def using m0(1) m'(1) by simp
  moreover have "hash_func m' = hash_func m" using m'(2) a(3) by (simp add: P_def same_conf_def)
  ultimately show ?thesis using m'(2) by (auto simp: P_def)
qed

lemma hashmap_put_new_spec:
  assumes m: "hm_ok m" and new: "hm_map m k = None"
  shows "\<exists>m'. hashmap_put_new mem (hashmap_put mem (Suc fuel)) (Suc fuel) m (hash_func m k) k v = Some m' \<and> hm_ok m' \<and>
    hm_map m' = (hm_map m)(k \<mapsto> v) \<and> hash_func m' = hash_func m"
proof (cases "hm_size m < bucket_num m")
  case True
  then show ?thesis using add_entry_spec [OF m True new, of v] by (auto simp: hashmap_put_new_def same_conf_def)
next
  case False
  obtain m1 where m1: "hashmap_grow mem (hashmap_put mem (Suc fuel)) m = Some m1" "hm_ok m1" "hm_map m1 = hm_map m"
    "hm_size m1 < bucket_num m1" "hash_func m1 = hash_func m" using hashmap_grow_spec [OF m] by blast
  have "ensure_capacity mem put fuel m1 = Some m1" for put using m1(4) by (cases fuel) simp_all
  moreover obtain m2 where "add_entry m1 (hash_func m1 k) k v = Some m2" "hm_ok m2" "hm_map m2 = (hm_map m1)(k \<mapsto> v)"
    "same_conf m1 m2" using add_entry_spec [OF m1(2,4), of k v] new m1(3) by auto
  ultimately show ?thesis using False m1 by (simp add: hashmap_put_new_def same_conf_def)
qed

lemma hashmap_put_spec:
  assumes m: "hm_ok m"
  shows "\<exists>m'. hashmap_put mem (Suc (Suc fuel)) m k v = Some (hm_map m k, m') \<and> hm_ok m' \<and>
    hm_map m' = (hm_map m)(k \<mapsto> v) \<and> hash_func m' = hash_func m"
  using m
proof (cases rule: find_entry_cases [where k = k])
  case (found cs i)
  define m' where "m' = m\<lparr>hm_entries := (hm_entries m)[i := (hm_entries m ! i)\<lparr>e_value := v\<rparr>]\<rparr>"
  note po = put_old [OF found(2,3,6,8) m'_def]
  have "hashmap_put mem (Suc (Suc fuel)) m k v = Some (hm_map m k, m')"
    using found by (simp add: access_simps m'_def)
  moreover have "hm_ok m'" using m po found(4) by (auto simp: hm_ok_def m'_def simp del: length_concat)
  ultimately show ?thesis using po(3) by (simp add: m'_def)
next
  case missing
  then show ?thesis using hashmap_put_new_spec [OF m missing(2), of mem fuel v] by auto
qed

lemma hashmap_put_if_absent_spec:
  assumes m: "hm_ok m"
  shows "\<exists>m'. hashmap_put_if_absent mem (Suc fuel) m k v = Some (hm_map m k = None, m') \<and> hm_ok m' \<and>
    hm_map m' = (if hm_map m k = None then (hm_map m)(k \<mapsto> v) else hm_map m) \<and> hash_func m' = hash_func m"
  using m
proof (cases rule: find_entry_cases [where k = k])
  case (found cs i)
  then show ?thesis using m by (simp add: hashmap_put_if_absent_def)
next
  case missing
  then show ?thesis using hashmap_put_new_spec [OF m missing(2), of mem fuel v] by (auto simp: hashmap_put_if_absent_def)
qed

lemma hashmap_get_spec:
  assumes m: "hm_ok m"
  shows "hashmap_get m k = Some (map_option (Pair k) (hm_map m k))"
  using m
proof (cases rule: find_entry_cases [where k = k])
  case (found cs i)
  then show ?thesis by (simp add: hashmap_get_def access_simps)
qed (simp add: hashmap_get_def)

text \<open>Unlinking an entry from the table.\<close>

lemma distinct_concat_del:
  assumes "distinct (concat cs)" "b < length cs" "cs ! b = xs @ i # ys"
  shows "distinct (concat (cs[b := xs @ ys]))" "set (concat (cs[b := xs @ ys])) = set (concat cs) - {i}"
    "Suc (length (concat (cs[b := xs @ ys]))) = length (concat cs)"
proof -
  let ?cs' = "cs[b := xs @ ys]"
  have cs: "cs = take b cs @ cs ! b # drop (Suc b) cs" using assms(2) by (rule id_take_nth_drop)
  have cs': "?cs' = take b cs @ (xs @ ys) # drop (Suc b) cs"
    using assms(2) by (simp add: upd_conv_take_nth_drop)
  have old: "mset (concat (take b cs)) + (mset (cs ! b) + mset (concat (drop (Suc b) cs))) = mset (concat cs)"
    using arg_cong [OF cs, of "\<lambda>xs. mset (concat xs)"] by simp
  have perm: "mset (i # concat ?cs') = mset (concat cs)"
    unfolding cs' by (simp add: assms(3) flip: old)
  have d: "distinct (i # concat ?cs')" using mset_eq_imp_distinct_iff [OF perm] assms(1) by simp
  then show "distinct (concat ?cs')" by simp
  show "set (concat ?cs') = set (concat cs) - {i}"
    using mset_eq_setD [OF perm] d by (metis Diff_insert_absorb distinct.simps(2) list.simps(15))
  show "Suc (length (concat ?cs')) = length (concat cs)"
    using mset_eq_length [OF perm] by simp
qed

lemma entries_ok_delete:
  assumes m: "hm_shape m" "entries_ok m cs" and b: "b < bucket_num m" "cs ! b = xs @ i # ys"
    and es1: "es1 = patch_prev (patch_next (hm_entries m) xs (e_next (hm_entries m ! i))) ys (opt_last None xs)"
    and es2: "es2 = es1[i := (es1 ! i)\<lparr>used := False\<rparr>]"
    and m': "m' = m\<lparr>hm_entries := es2, hm_size := n,
      buckets := (if xs = [] then (buckets m)[b := e_next (hm_entries m ! i)] else buckets m)\<rparr>"
  shows "entries_ok m' (cs[b := xs @ ys])" "hm_map m' = (hm_map m)(e_key (hm_entries m ! i) := None)" "hm_shape m'"
proof -
  let ?es = "hm_entries m" and ?cs' = "cs[b := xs @ ys]"
  have len: "length cs = bucket_num m" "length ?es = hm_capacity m" "length (buckets m) = bucket_num m" "length es2 = length ?es"
    using m by (auto simp: entries_ok_def hm_shape_def es1 es2 patch_prev_def patch_next_def)
  have dist: "distinct (concat cs)" and ch: "b' < bucket_num m \<Longrightarrow> chain ?es None (buckets m ! b') (cs ! b')" for b'
    using m(2) by (auto simp: entries_ok_def)
  note del = distinct_concat_del [OF dist b(1) [folded len(1)] b(2)]
  have distb: "distinct (xs @ i # ys)" using dist b len(1) by (metis distinct_concat_iff nth_mem)
  then have ends: "xs \<noteq> [] \<Longrightarrow> last xs \<noteq> i" "ys \<noteq> [] \<Longrightarrow> hd ys \<noteq> i" by (auto dest: last_in_set hd_in_set)
  have bnd: "j < hm_capacity m" if "j \<in> set (cs ! b)" for j
    using entries_bound [OF m in_bucket [OF m(2) b(1) that]] .
  have ends2: "xs \<noteq> [] \<Longrightarrow> last xs \<in> set (cs ! b) \<and> last xs < hm_capacity m" "ys \<noteq> [] \<Longrightarrow> hd ys \<in> set (cs ! b) \<and> hd ys < hm_capacity m"
    "i \<in> set (cs ! b)" "i < hm_capacity m"
    using bnd by (auto simp: b(2))
  have data: "same_data ?es es2 j" if "j \<noteq> i" for j
    using that ends2 len(2) by (auto simp: same_data_def es1 es2 patch_prev_def patch_next_def nth_list_update)
  have unused: "\<not> used (es2 ! i)" using ends2(4) len by (simp add: es2 es1 patch_prev_def patch_next_def)
  show shape: "hm_shape m'" by (rule hm_shape_cong [OF m(1)]) (simp_all add: m' same_conf_def len)
  have "chain es1 None (if xs = [] then e_next (?es ! i) else buckets m ! b) (xs @ ys)"
    using chain_unlink [of ?es None "buckets m ! b" xs i ys] ch [OF b(1)] distb by (simp add: b(2) es1)
  then have "chain es2 None (if xs = [] then e_next (?es ! i) else buckets m ! b) (xs @ ys)"
    unfolding es2 by (rule chain_update_other) (use distb in auto)
  moreover have "chain es2 None (buckets m ! b') (cs ! b')" if b': "b' < bucket_num m" "b' \<noteq> b" for b'
  proof -
    note dj = disjoint_chains [OF m(2) b(1) b'(1) b'(2) [symmetric]]
    have "chain (patch_next ?es xs q) None (buckets m ! b') (cs ! b')" for q
      unfolding patch_next_def using ch [OF b'(1)] dj ends2 by (auto intro: chain_update_other)
    then have "chain es1 None (buckets m ! b') (cs ! b')"
      unfolding es1 patch_prev_def [of "patch_next _ _ _"] using dj ends2 by (auto intro: chain_update_other)
    then show ?thesis unfolding es2 by (rule chain_update_other) (use dj ends2(3) in blast)
  qed
  ultimately have chains: "chain es2 None (buckets m' ! b') (?cs' ! b')" if "b' < bucket_num m" for b'
    using that b(1) len by (cases "b' = b") (auto simp: m')
  have sub: "j \<in> set (cs ! b') \<and> j \<noteq> i" if "b' < bucket_num m" "j \<in> set (?cs' ! b')" for b' j
    using that b len(1) distb disjoint_chains [OF m(2) b(1) that(1), of i] by (cases "b' = b") auto
  have hashes: "hash_func m (e_key (es2 ! j)) mod bucket_num m = b'" if "b' < bucket_num m" "j \<in> set (?cs' ! b')" for j b'
    using sub [OF that] data [of j] m(2) that(1) by (auto simp: entries_ok_def same_data_def)
  have inj: "inj_on (\<lambda>j. e_key (?es ! j)) (set (concat cs))" using m(2) by (simp add: entries_ok_def)
  then have "inj_on (\<lambda>j. e_key (es2 ! j)) (set (concat cs) - {i})"
    using data unfolding inj_on_def same_data_def by (metis Diff_iff insertI1)
  moreover have "used (es2 ! j) \<longleftrightarrow> j \<in> set (concat cs) - {i}" if "j < hm_capacity m" for j
  proof (cases "j = i")
    case False
    have "used (?es ! j) \<longleftrightarrow> j \<in> set (concat cs)" using m(2) that unfolding entries_ok_def by blast
    then show ?thesis using data [OF False] False by (simp add: same_data_def)
  qed (use unused in simp)
  ultimately show ok: "entries_ok m' ?cs'"
    unfolding entries_ok_def del(2) using del(1) chains hashes len(1) by (simp add: m')
  have i: "i \<in> set (concat cs)" using in_bucket [OF m(2) b(1) ends2(3)] .
  show "hm_map m' = (hm_map m)(e_key (?es ! i) := None)"
  proof (rule hm_map_eqI [OF shape ok], unfold del(2))
    fix k v
    define S where "S = set (concat cs)"
    have "(\<exists>j\<in>S - {i}. e_key (es2 ! j) = k \<and> e_value (es2 ! j) = v) \<longleftrightarrow>
        (\<exists>j\<in>S - {i}. e_key (?es ! j) = k \<and> e_value (?es ! j) = v)"
      using data by (intro bex_cong refl) (simp add: same_data_def)
    also have "\<dots> \<longleftrightarrow> k \<noteq> e_key (?es ! i) \<and> (\<exists>j\<in>S. e_key (?es ! j) = k \<and> e_value (?es ! j) = v)"
      using inj i unfolding S_def [symmetric] inj_on_def by blast
    also have "\<dots> \<longleftrightarrow> ((hm_map m)(e_key (?es ! i) := None)) k = Some v"
      using hm_map_Some [OF m, of k v] unfolding S_def by simp
    finally show "((hm_map m)(e_key (?es ! i) := None)) k = Some v \<longleftrightarrow>
        (\<exists>j\<in>set (concat cs) - {i}. e_key (hm_entries m' ! j) = k \<and> e_value (hm_entries m' ! j) = v)"
      unfolding S_def by (simp add: m' del: set_concat)
  qed
qed

lemma remove_links:
  assumes m: "hm_shape m" "entries_ok m cs" and b: "b < bucket_num m" "cs ! b = xs @ i # ys"
    and key: "find_entry m k = Some (Some i)" "bucket_index m (hash_func m k) = Some b"
    and es1: "es1 = patch_prev (patch_next (hm_entries m) xs (e_next (hm_entries m ! i))) ys (opt_last None xs)"
    and es2: "es2 = es1[i := (es1 ! i)\<lparr>used := False\<rparr>]"
    and m': "m' = m\<lparr>hm_entries := es2, hm_size := hm_size m - 1,
      buckets := (if xs = [] then (buckets m)[b := e_next (hm_entries m ! i)] else buckets m)\<rparr>"
  shows "hashmap_remove m k = Some (Some (e_key (hm_entries m ! i), e_value (hm_entries m ! i)), m')"
proof -
  let ?es = "hm_entries m"
  let ?e1 = "patch_next ?es xs (e_next (?es ! i))"
  have len: "length ?es = hm_capacity m" "length (buckets m) = bucket_num m" "length cs = bucket_num m"
    using m by (auto simp: entries_ok_def hm_shape_def)
  have ch: "chain ?es None (buckets m ! b) (xs @ i # ys)" using m(2) b by (auto simp: entries_ok_def)
  have dist: "distinct (xs @ i # ys)" using m(2) b len(3) by (metis distinct_concat_iff entries_ok_def nth_mem)
  have bnd: "j < length ?es" if "j \<in> set (xs @ i # ys)" for j using chain_bounds [OF ch that] .
  have ends: "xs \<noteq> [] \<Longrightarrow> last xs \<noteq> i \<and> last xs < length ?es" "ys \<noteq> [] \<Longrightarrow> hd ys \<noteq> i \<and> hd ys < length ?es" "i < length ?es"
    using dist bnd by (auto dest: last_in_set hd_in_set)
  note links = chain_prev [OF ch] chain_next [OF ch]
  have step1: "(case e_prev (?es ! i) of
        Some p \<Rightarrow> do { e \<leftarrow> rd ?es p; es \<leftarrow> wr ?es p (e\<lparr>e_next := e_next (?es ! i)\<rparr>); Some (es, buckets m) }
      | None \<Rightarrow> do { bs \<leftarrow> wr (buckets m) b (e_next (?es ! i)); Some (?es, bs) }) = Some (?e1, buckets m')"
    using ends b(1) len by (simp add: links(1) access_simps patch_next_def m')
  have e1: "?e1 ! i = ?es ! i" "length ?e1 = length ?es" using ends by (auto simp: patch_next_def)
  have step2: "(case e_next (?es ! i) of
        Some n \<Rightarrow> do { e \<leftarrow> rd ?e1 n; wr ?e1 n (e\<lparr>e_prev := e_prev (?es ! i)\<rparr>) } | None \<Rightarrow> Some ?e1) = Some es1"
    using ends(2) e1(2) by (simp add: links access_simps es1 patch_prev_def opt_last_def)
  have "es1 ! i = ?es ! i" "length es1 = length ?es" using e1 ends by (auto simp: es1 patch_prev_def)
  then show ?thesis
    using key ends(3) step1 step2 e1 by (simp add: hashmap_remove_def rd_in wr_in es2 m')
qed

lemma hashmap_remove_spec:
  assumes m: "hm_ok m"
  shows "\<exists>m'. hashmap_remove m k = Some (map_option (Pair k) (hm_map m k), m') \<and> hm_ok m' \<and>
    hm_map m' = (hm_map m)(k := None) \<and> hash_func m' = hash_func m"
  using m
proof (cases rule: find_entry_cases [where k = k])
  case (found cs i)
  define b where "b = hash_func m k mod bucket_num m"
  have pos: "0 < bucket_num m" using hm_shape_pos [OF found(2)] .
  then have b: "b < bucket_num m" "bucket_index m (hash_func m k) = Some b" by (simp_all add: b_def bucket_index_def)
  obtain xs ys where split: "cs ! b = xs @ i # ys" using found(5) b_def by (metis split_list)
  define es1 where "es1 = patch_prev (patch_next (hm_entries m) xs (e_next (hm_entries m ! i))) ys (opt_last None xs)"
  define es2 where "es2 = es1[i := (es1 ! i)\<lparr>used := False\<rparr>]"
  define m' where "m' = m\<lparr>hm_entries := es2, hm_size := hm_size m - 1,
      buckets := (if xs = [] then (buckets m)[b := e_next (hm_entries m ! i)] else buckets m)\<rparr>"
  note del = entries_ok_delete [OF found(2,3) b(1) split es1_def es2_def m'_def]
  have "hashmap_remove m k = Some (map_option (Pair k) (hm_map m k), m')"
    using remove_links [OF found(2,3) b(1) split found(1) b(2) es1_def es2_def m'_def] found(8,9) by simp
  moreover have "hm_ok m'"
  proof -
    have "Suc (length (concat (cs[b := xs @ ys]))) = length (concat cs)"
      using distinct_concat_del(3) [OF _ _ split] found(3) b(1) by (auto simp: entries_ok_def)
    then have "hm_size m' = length (concat (cs[b := xs @ ys]))" using found(4) by (simp add: m'_def del: length_concat)
    moreover have "hm_size m' \<le> bucket_num m'" using m by (auto simp: m'_def hm_ok_def)
    ultimately show ?thesis using del(1,3) by (auto simp: hm_ok_def simp del: length_concat)
  qed
  moreover have "hash_func m' = hash_func m" by (simp add: m'_def)
  ultimately show ?thesis using del(2) found(8) by simp
next
  case missing
  then show ?thesis using m by (auto simp: hashmap_remove_def)
qed

lemma hashmap_clear_spec:
  assumes "hm_ok m"
  shows "\<exists>m'. hashmap_clear m = Some m' \<and> hm_ok m' \<and> hm_map m' = Map.empty \<and> hash_func m' = hash_func m"
proof (cases "hm_size m = 0")
  case True
  then have "hm_map m = Map.empty" using hm_size_card [OF assms] by simp
  then show ?thesis using True assms by (simp add: hashmap_clear_def)
next
  case False
  then show ?thesis using hashmap_reset_spec [of m] assms by (auto simp: hashmap_clear_def hm_ok_def same_conf_def)
qed

text \<open>The capacity and the factor have to give at least one bucket.\<close>

lemma hashmap_init_spec:
  assumes "0 < factor" "factor \<le> 1" "1 \<le> of_nat cap * factor"
  shows "\<exists>m. hashmap_init mem cap factor hash (=) = Some m \<and> hm_ok m \<and> hm_map m = Map.empty \<and> hash_func m = hash"
proof -
  define m where "m = hashmap_alloc mem \<lparr>hm_capacity = 0, hm_factor = factor, hash_func = hash, equal_func = (=),
       bucket_num = 0, hm_size = 0, buckets = [], hm_entries = []\<rparr> cap"
  have "hm_shape m" "hash_func m = hash" using assms by (simp_all add: m_def hashmap_alloc_def hm_shape_def Let_def)
  then show ?thesis using hashmap_reset_spec [of m] assms by (auto simp: hashmap_init_def m_def same_conf_def)
qed

interpretation hm: dictionary hm_ok hm_map "hashmap_put mem 2" "hashmap_put_if_absent mem 1" hashmap_get hashmap_remove
  hashmap_clear hashmap_size
  for mem
proof unfold_locales
  fix m :: "('a, 'b) hashmap_t" and k v
  assume m: "hm_ok m"
  show "\<exists>m'. hashmap_put mem 2 m k v = Some (hm_map m k, m') \<and> hm_ok m' \<and> hm_map m' = (hm_map m)(k \<mapsto> v)"
    using hashmap_put_spec [OF m, of mem 0 k v] by (auto simp: numeral_2_eq_2)
  show "\<exists>m'. hashmap_put_if_absent mem 1 m k v = Some (hm_map m k = None, m') \<and> hm_ok m' \<and>
      hm_map m' = (if hm_map m k = None then (hm_map m)(k \<mapsto> v) else hm_map m)"
    using hashmap_put_if_absent_spec [OF m, of mem 0 k v] by (auto simp: numeral_2_eq_2)
  show "hashmap_get m k = Some (map_option (Pair k) (hm_map m k))" by (rule hashmap_get_spec [OF m])
  show "\<exists>m'. hashmap_remove m k = Some (map_option (Pair k) (hm_map m k), m') \<and> hm_ok m' \<and> hm_map m' = (hm_map m)(k := None)"
    using hashmap_remove_spec [OF m, of k] by blast
  show "\<exists>m'. hashmap_clear m = Some m' \<and> hm_ok m' \<and> hm_map m' = Map.empty" using hashmap_clear_spec [OF m] by blast
  show "hashmap_size m = card (dom (hm_map m)) \<and> finite (dom (hm_map m))"
    using hm_size_card [OF m] by (simp add: hashmap_size_def)
qed

section \<open>Properties\<close>

text \<open>
  C13. The hash table is a finite map. From an initialisation with at least one bucket, any sequence of
  \<open>put\<close>, \<open>put_if_absent\<close>, \<open>get\<close>, \<open>remove\<close>, \<open>clear\<close> and \<open>size\<close> runs without a fault, also when the table
  has to grow, ends, and gives exactly the answers of a map from keys to values.
\<close>

theorem hashmap_refines_map:
  assumes "0 < factor" "factor \<le> 1" "1 \<le> of_nat cap * factor"
  shows "\<exists>m m'. hashmap_init mem cap factor hash (=) = Some m \<and>
    dict_run (hashmap_put mem 2) (hashmap_put_if_absent mem 1) hashmap_get hashmap_remove hashmap_clear hashmap_size m ops
      = Some (fst (dict_ref Map.empty ops), m') \<and> hm_map m' = snd (dict_ref Map.empty ops)"
proof -
  obtain m where "hashmap_init mem cap factor hash (=) = Some m" "hm_ok m" "hm_map m = Map.empty"
    using hashmap_init_spec [OF assms] by blast
  then show ?thesis using hm.run_refines [of m mem ops] by auto
qed

definition no_entry :: "(u64, nat) junk" where
  "no_entry = (\<lambda>_. Some 7, \<lambda>_. \<lparr>e_key = 0, e_value = 0, used = True, e_prev = Some 3, e_next = Some 3\<rparr>)"

theorem hashmap_refines_map_witness:
  "\<exists>m m'. hashmap_init no_entry 2 (3 / 4) naive_hash_func (=) = Some m \<and>
    dict_run (hashmap_put no_entry 2) (hashmap_put_if_absent no_entry 1) hashmap_get hashmap_remove hashmap_clear hashmap_size m
        [Put 1 10, Put 2 20, Put 3 30, Put 1 40, Remove 2, Get 1, Count]
      = Some (fst (dict_ref Map.empty [Put 1 10, Put 2 20, Put 3 30, Put 1 40, Remove 2, Get 1, Count]), m') \<and>
    hm_map m' = snd (dict_ref Map.empty [Put 1 10, Put 2 20, Put 3 30, Put 1 40, Remove 2, Get 1, Count])"
  by (rule hashmap_refines_map) simp_all

text \<open>The loop of a client over all bindings.\<close>

fun hashmap_bindings :: "nat \<Rightarrow> ('k, 'v) hashmap_t \<Rightarrow> nat \<Rightarrow> ('k \<times> 'v) list option" where
  "hashmap_bindings fuel m iter =
     (if iter = hashmap_end m then Some []
      else case fuel of 0 \<Rightarrow> None
       | Suc fuel \<Rightarrow> do {
           (iter, k, v) \<leftarrow> hashmap_next m iter;
           rest \<leftarrow> hashmap_bindings fuel m iter;
           Some ((k, v) # rest)
         })"

declare hashmap_bindings.simps [simp del]

lemma find_valid_entry_spec:
  assumes "length (hm_entries m) = hm_capacity m" "i \<le> hm_capacity m"
  shows "\<exists>j. find_valid_entry m i = Some j \<and> i \<le> j \<and> j \<le> hm_capacity m \<and> (j < hm_capacity m \<longrightarrow> used (hm_entries m ! j)) \<and>
    filter (\<lambda>i. used (hm_entries m ! i)) [i..<hm_capacity m] = filter (\<lambda>i. used (hm_entries m ! i)) [j..<hm_capacity m]"
  using assms(2)
proof (induction "hm_capacity m - i" arbitrary: i)
  case 0
  then show ?case by (subst find_valid_entry.simps) (simp add: hashmap_end_def)
next
  case (Suc d)
  then have i: "i < hm_capacity m" by simp
  show ?case
  proof (cases "used (hm_entries m ! i)")
    case True
    then show ?thesis using i assms(1) by (subst find_valid_entry.simps) (simp add: rd_in)
  next
    case False
    then have "find_valid_entry m i = find_valid_entry m (i + 1)"
      using i assms(1) by (subst find_valid_entry.simps) (simp add: rd_in)
    moreover have "filter (\<lambda>i. used (hm_entries m ! i)) [i..<hm_capacity m] = filter (\<lambda>i. used (hm_entries m ! i)) [i + 1..<hm_capacity m]"
      using i False by (simp add: upt_conv_Cons)
    ultimately show ?thesis using Suc.hyps(1) [of "i + 1"] Suc.hyps(2) i by fastforce
  qed
qed

lemma hashmap_bindings_from:
  assumes m: "length (hm_entries m) = hm_capacity m"
  shows "i \<le> hm_capacity m \<Longrightarrow> i < hm_capacity m \<longrightarrow> used (hm_entries m ! i) \<Longrightarrow>
    length (filter (\<lambda>i. used (hm_entries m ! i)) [i..<hm_capacity m]) \<le> fuel \<Longrightarrow>
    hashmap_bindings fuel m i = Some (map (\<lambda>i. (e_key (hm_entries m ! i), e_value (hm_entries m ! i)))
      (filter (\<lambda>i. used (hm_entries m ! i)) [i..<hm_capacity m]))"
proof (induction fuel arbitrary: i)
  case 0
  then have "i = hm_capacity m" by (cases "i < hm_capacity m") (auto simp: upt_conv_Cons)
  then show ?case by (simp add: hashmap_bindings.simps hashmap_end_def)
next
  case (Suc fuel)
  show ?case
  proof (cases "i = hm_capacity m")
    case True
    then show ?thesis by (simp add: hashmap_bindings.simps hashmap_end_def)
  next
    case False
    then have i: "i < hm_capacity m" "used (hm_entries m ! i)" using Suc.prems by auto
    obtain j where j: "find_valid_entry m (i + 1) = Some j" "j \<le> hm_capacity m" "j < hm_capacity m \<longrightarrow> used (hm_entries m ! j)"
      "filter (\<lambda>i. used (hm_entries m ! i)) [i + 1..<hm_capacity m] = filter (\<lambda>i. used (hm_entries m ! i)) [j..<hm_capacity m]"
      using find_valid_entry_spec [OF m, of "i + 1"] i by auto
    then have us: "filter (\<lambda>i. used (hm_entries m ! i)) [i..<hm_capacity m] = i # filter (\<lambda>i. used (hm_entries m ! i)) [j..<hm_capacity m]"
      using i by (simp add: upt_conv_Cons)
    then have "hashmap_bindings fuel m j = Some (map (\<lambda>i. (e_key (hm_entries m ! i), e_value (hm_entries m ! i)))
      (filter (\<lambda>i. used (hm_entries m ! i)) [j..<hm_capacity m]))" using Suc.IH [OF j(2,3)] Suc.prems(3) by simp
    moreover have "hashmap_next m i = Some (j, e_key (hm_entries m ! i), e_value (hm_entries m ! i))"
      using i m j(1) by (simp add: hashmap_next_def hashmap_end_def rd_in)
    ultimately show ?thesis using us False by (subst hashmap_bindings.simps) (simp add: hashmap_end_def)
  qed
qed

text \<open>
  The iterator visits every binding once: the loop from \<open>hashmap_begin\<close> with \<open>hashmap_next\<close> to
  \<open>hashmap_end\<close> ends after \<open>size\<close> steps, none of its checks fails, and the pairs it yields have
  distinct keys and make up the map.
\<close>

theorem hashmap_iterates_bindings:
  assumes "hm_ok m"
  shows "\<exists>iter kvs. hashmap_begin m = Some iter \<and> hashmap_bindings (hashmap_size m) m iter = Some kvs \<and>
    distinct (map fst kvs) \<and> map_of kvs = hm_map m \<and> length kvs = hashmap_size m"
proof -
  obtain cs where sh: "hm_shape m" and cs: "entries_ok m cs" "hm_size m = length (concat cs)"
    using assms by (auto simp: hm_ok_def)
  let ?us = "filter (\<lambda>i. used (hm_entries m ! i)) [0..<hm_capacity m]"
  let ?kv = "\<lambda>i. (e_key (hm_entries m ! i), e_value (hm_entries m ! i))"
  have len: "length (hm_entries m) = hm_capacity m" using sh by (simp add: hm_shape_def)
  have set: "set ?us = set (concat cs)" by (rule used_set [OF sh cs(1)])
  have "card (set ?us) = length ?us" by (simp add: distinct_card del: set_filter)
  then have size: "length ?us = hashmap_size m"
    unfolding set using cs by (simp add: entries_ok_def distinct_card hashmap_size_def del: set_concat length_concat)
  obtain i where i: "find_valid_entry m 0 = Some i" "i \<le> hm_capacity m" "i < hm_capacity m \<longrightarrow> used (hm_entries m ! i)"
    "?us = filter (\<lambda>i. used (hm_entries m ! i)) [i..<hm_capacity m]"
    using find_valid_entry_spec [OF len, of 0] by auto
  have "hashmap_bindings (hashmap_size m) m i = Some (map ?kv ?us)"
    using hashmap_bindings_from [OF len i(2,3), of "hashmap_size m"] size unfolding i(4) by simp
  moreover have "inj_on (\<lambda>i. e_key (hm_entries m ! i)) (set ?us)"
    unfolding set using cs(1) by (simp add: entries_ok_def)
  then have "distinct (map fst (map ?kv ?us))" by (simp add: distinct_map o_def)
  ultimately show ?thesis using i(1) size by (simp add: hashmap_begin_def hm_map_def)
qed

definition sample_map :: "(u64, nat) hashmap_t" where
  "sample_map = \<lparr>hm_capacity = 2, hm_factor = 3 / 4, hash_func = naive_hash_func, equal_func = (=), bucket_num = 1,
     hm_size = 1, buckets = [Some 1], hm_entries =
     [\<lparr>e_key = 0, e_value = 0, used = False, e_prev = None, e_next = None\<rparr>,
      \<lparr>e_key = 5, e_value = 50, used = True, e_prev = None, e_next = None\<rparr>]\<rparr>"

lemma sample_map_ok: "hm_ok sample_map"
  unfolding hm_ok_def
proof (intro conjI exI [of _ "[[1]]"])
  have "\<lfloor>3 / 2 :: rat\<rfloor> = 1" by (simp add: floor_eq_iff)
  then show "hm_shape sample_map" by (simp add: hm_shape_def sample_map_def)
  show "entries_ok sample_map [[1]]"
    by (auto simp: entries_ok_def sample_map_def less_2_cases_iff)
qed (simp_all add: sample_map_def)

theorem hashmap_iterates_bindings_witness:
  "\<exists>iter kvs. hashmap_begin sample_map = Some iter \<and> hashmap_bindings (hashmap_size sample_map) sample_map iter = Some kvs \<and>
    distinct (map fst kvs) \<and> map_of kvs = hm_map sample_map \<and> length kvs = hashmap_size sample_map"
  by (rule hashmap_iterates_bindings [OF sample_map_ok])

text \<open>
  A table of one entry with the default factor has no bucket: \<open>hashmap_init1\<close> succeeds, and every
  operation that looks up a key then divides by zero.
\<close>

theorem hashmap_capacity_one:
  "\<exists>m. hashmap_init1 mem 1 hash (=) = Some m \<and> bucket_num m = 0 \<and>
    (\<forall>k v fuel. hashmap_get m k = None \<and> hashmap_remove m k = None \<and> hashmap_put mem fuel m k v = None \<and>
      hashmap_put_if_absent mem fuel m k v = None)"
proof -
  let ?m = "hashmap_alloc mem \<lparr>hm_capacity = 0, hm_factor = 3 / 4, hash_func = hash, equal_func = (=),
       bucket_num = 0, hm_size = 0, buckets = [], hm_entries = []\<rparr> 1"
  define m where "m = ?m\<lparr>hm_entries := [(snd mem 0)\<lparr>used := False\<rparr>]\<rparr>"
  have "\<lfloor>3 / 4 :: rat\<rfloor> = 0" by (simp add: floor_eq_iff)
  then have m: "hashmap_init1 mem 1 hash (=) = Some m" "bucket_num m = 0"
    by (simp_all add: hashmap_init1_def hashmap_init_def hashmap_reset_def hashmap_alloc_def m_def Let_def for_up_done for_up_step rd_in wr_in)
  then have "find_entry m k = None" for k by (simp add: find_entry_def bucket_index_def)
  then have "hashmap_get m k = None \<and> hashmap_remove m k = None \<and> hashmap_put mem fuel m k v = None \<and>
      hashmap_put_if_absent mem fuel m k v = None" for k v fuel
    by (cases fuel) (simp_all add: hashmap_get_def hashmap_remove_def hashmap_put_if_absent_def)
  then show ?thesis using m by blast
qed

end
