(* ===== verification/Linked_List.thy ===== *)
theory Linked_List
  imports C_Prelude
begin

text \<open>
  The intrusive doubly linked list of \<^verbatim>\<open>src/src/main/utils/list.h\<close> and \<^verbatim>\<open>list.c\<close>. The entries live in
  a store from addresses \<open>'a\<close> to pairs of links, \<open>None\<close> for \<open>NULL\<close>; following \<open>NULL\<close> is a fault. A
  list is the addresses of its two sentinels. Several lists share one store.
\<close>

section \<open>The code\<close>

record 'a list_entry_t =
  prev :: "'a option"
  "next" :: "'a option"

type_synonym 'a links = "'a \<Rightarrow> 'a list_entry_t"

record 'a list_t =
  l_head :: 'a
  l_tail :: 'a

definition set_prev :: "'a links \<Rightarrow> 'a \<Rightarrow> 'a option \<Rightarrow> 'a links" where
  "set_prev h a p = h(a := (h a)\<lparr>prev := p\<rparr>)"

definition set_next :: "'a links \<Rightarrow> 'a \<Rightarrow> 'a option \<Rightarrow> 'a links" where
  "set_next h a n = h(a := (h a)\<lparr>next := n\<rparr>)"

definition list_init :: "'a links \<Rightarrow> 'a list_t \<Rightarrow> 'a links" where
  "list_init h list =
     (let h = set_prev h (l_head list) None;
          h = set_next h (l_head list) (Some (l_tail list));
          h = set_prev h (l_tail list) (Some (l_head list))
      in set_next h (l_tail list) None)"

definition list_push_front :: "'a links \<Rightarrow> 'a list_t \<Rightarrow> 'a \<Rightarrow> 'a links option" where
  "list_push_front h list entry = do {
     let h = set_prev h entry (Some (l_head list));
     let h = set_next h entry (next (h (l_head list)));
     let h = set_next h (l_head list) (Some entry);
     n \<leftarrow> next (h entry);
     Some (set_prev h n (Some entry))
   }"

definition list_push_back :: "'a links \<Rightarrow> 'a list_t \<Rightarrow> 'a \<Rightarrow> 'a links option" where
  "list_push_back h list entry = do {
     let h = set_prev h entry (prev (h (l_tail list)));
     let h = set_next h entry (Some (l_tail list));
     let h = set_prev h (l_tail list) (Some entry);
     p \<leftarrow> prev (h entry);
     Some (set_next h p (Some entry))
   }"

definition list_remove :: "'a links \<Rightarrow> 'a \<Rightarrow> 'a links option" where
  "list_remove h entry = do {
     ensure (next (h entry) \<noteq> None \<and> prev (h entry) \<noteq> None);
     n \<leftarrow> next (h entry);
     let h = set_prev h n (prev (h entry));
     p \<leftarrow> prev (h entry);
     let h = set_next h p (next (h entry));
     let h = set_prev h entry None;
     Some (set_next h entry None)
   }"

definition list_pop_front :: "'a links \<Rightarrow> 'a list_t \<Rightarrow> ('a \<times> 'a links) option" where
  "list_pop_front h list = do {
     entry \<leftarrow> next (h (l_head list));
     h \<leftarrow> list_remove h entry;
     Some (entry, h)
   }"

definition list_pop_back :: "'a links \<Rightarrow> 'a list_t \<Rightarrow> ('a \<times> 'a links) option" where
  "list_pop_back h list = do {
     entry \<leftarrow> prev (h (l_tail list));
     h \<leftarrow> list_remove h entry;
     Some (entry, h)
   }"

definition list_peek_front :: "'a links \<Rightarrow> 'a list_t \<Rightarrow> 'a option" where
  "list_peek_front h list = do {
     entry \<leftarrow> next (h (l_head list));
     ensure (next (h entry) \<noteq> None \<and> prev (h entry) \<noteq> None);
     Some entry
   }"

definition list_peek_back :: "'a links \<Rightarrow> 'a list_t \<Rightarrow> 'a option" where
  "list_peek_back h list = do {
     entry \<leftarrow> prev (h (l_tail list));
     ensure (next (h entry) \<noteq> None \<and> prev (h entry) \<noteq> None);
     Some entry
   }"

section \<open>Segments\<close>

text \<open>\<open>seg h a xs b\<close>: between the entries \<open>a\<close> and \<open>b\<close> the store links \<open>xs\<close>, in both directions.\<close>

fun seg :: "'a links \<Rightarrow> 'a \<Rightarrow> 'a list \<Rightarrow> 'a \<Rightarrow> bool" where
  "seg h a [] b \<longleftrightarrow> next (h a) = Some b \<and> prev (h b) = Some a"
| "seg h a (x # xs) b \<longleftrightarrow> next (h a) = Some x \<and> prev (h x) = Some a \<and> seg h x xs b"

definition nodes :: "'a list_t \<Rightarrow> 'a list \<Rightarrow> 'a set" where
  "nodes l xs = {l_head l, l_tail l} \<union> set xs"

definition dll :: "'a links \<Rightarrow> 'a list_t \<Rightarrow> 'a list \<Rightarrow> bool" where
  "dll h l xs \<longleftrightarrow> distinct (l_head l # xs @ [l_tail l]) \<and> prev (h (l_head l)) = None \<and> next (h (l_tail l)) = None \<and>
     seg h (l_head l) xs (l_tail l)"

lemma set_links [simp]:
  "prev (set_prev h a p x) = (if x = a then p else prev (h x))" "next (set_prev h a p x) = next (h x)"
  "next (set_next h a p x) = (if x = a then p else next (h x))" "prev (set_next h a p x) = prev (h x)"
  by (simp_all add: set_prev_def set_next_def)

lemma set_links_other [simp]: "x \<noteq> a \<Longrightarrow> set_prev h a p x = h x" "x \<noteq> a \<Longrightarrow> set_next h a p x = h x"
  by (simp_all add: set_prev_def set_next_def)

lemma seg_append: "seg h a (xs @ x # ys) b \<longleftrightarrow> seg h a xs x \<and> seg h x ys b"
  by (induction xs arbitrary: a) auto

text \<open>A segment reads the \<open>next\<close> of \<open>a\<close> and \<open>xs\<close> and the \<open>prev\<close> of \<open>xs\<close> and \<open>b\<close>.\<close>

lemma seg_cong:
  "seg h a xs b \<Longrightarrow> \<forall>x \<in> insert a (set xs). next (h' x) = next (h x) \<Longrightarrow>
    \<forall>x \<in> insert b (set xs). prev (h' x) = prev (h x) \<Longrightarrow> seg h' a xs b"
  by (induction xs arbitrary: a) auto

lemma seg_last: "seg h a xs b \<Longrightarrow> prev (h b) = Some (last (a # xs))"
  by (induction xs arbitrary: a) auto

lemma seg_first: "seg h a xs b \<Longrightarrow> next (h a) = Some (hd (xs @ [b]))"
  by (cases xs) auto

lemma dll_frame:
  "dll h l xs \<Longrightarrow> \<forall>x \<in> nodes l xs. h' x = h x \<Longrightarrow> dll h' l xs"
  unfolding dll_def nodes_def using seg_cong [of h "l_head l" xs "l_tail l" h'] by auto

section \<open>The operations on segments\<close>

lemma list_init_dll:
  assumes "l_head l \<noteq> l_tail l"
  shows "dll (list_init h l) l []" "x \<notin> nodes l [] \<Longrightarrow> list_init h l x = h x"
  using assms by (auto simp: dll_def list_init_def Let_def nodes_def)

lemma list_push_front_dll:
  assumes l: "dll h l xs" and e: "e \<notin> nodes l xs"
  shows "\<exists>h'. list_push_front h l e = Some h' \<and> dll h' l (e # xs) \<and> (\<forall>x. x \<notin> insert e (nodes l xs) \<longrightarrow> h' x = h x)"
proof -
  define n where "n = hd (xs @ [l_tail l])"
  have sg: "seg h (l_head l) xs (l_tail l)" and dist: "distinct (l_head l # xs @ [l_tail l])"
    and nulls: "prev (h (l_head l)) = None" "next (h (l_tail l)) = None" using l by (auto simp: dll_def)
  have n: "next (h (l_head l)) = Some n" using seg_first [OF sg] by (simp add: n_def)
  have "n \<in> nodes l xs" by (cases xs) (auto simp: n_def nodes_def)
  then have ne: "n \<noteq> e" "e \<noteq> l_head l" "e \<noteq> l_tail l" "e \<notin> set xs" using e by (auto simp: nodes_def)
  define h' where "h' = set_prev (set_next (set_next (set_prev h e (Some (l_head l))) e (Some n)) (l_head l) (Some e)) n (Some e)"
  have "list_push_front h l e = Some h'" using n ne by (simp add: list_push_front_def Let_def h'_def)
  moreover have frame: "h' x = h x" if "x \<notin> insert e (nodes l xs)" for x
  proof -
    have "x \<noteq> e" "x \<noteq> n" "x \<noteq> l_head l" using that \<open>n \<in> nodes l xs\<close> by (auto simp: nodes_def)
    then show ?thesis by (simp add: h'_def)
  qed
  moreover have "seg h' e xs (l_tail l)"
  proof (cases xs)
    case Nil
    then show ?thesis using ne dist by (simp add: h'_def n_def)
  next
    case (Cons x ys)
    then have sx: "seg h x ys (l_tail l)" and "n = x" using sg by (simp_all add: n_def)
    have "seg h' x ys (l_tail l)" by (rule seg_cong [OF sx]) (use ne dist Cons \<open>n = x\<close> in \<open>auto simp: h'_def\<close>)
    then show ?thesis using Cons ne dist \<open>n = x\<close> by (simp add: h'_def)
  qed
  moreover have "n \<noteq> l_head l" using dist by (cases xs) (auto simp: n_def)
  then have "next (h' (l_head l)) = Some e" "prev (h' e) = Some (l_head l)" "prev (h' (l_head l)) = None" "next (h' (l_tail l)) = None"
    using nulls ne dist by (auto simp: h'_def)
  ultimately have "dll h' l (e # xs)" using ne dist by (simp add: dll_def)
  then show ?thesis using \<open>list_push_front h l e = Some h'\<close> frame by blast
qed

lemma list_push_back_dll:
  assumes l: "dll h l xs" and e: "e \<notin> nodes l xs"
  shows "\<exists>h'. list_push_back h l e = Some h' \<and> dll h' l (xs @ [e]) \<and> (\<forall>x. x \<notin> insert e (nodes l xs) \<longrightarrow> h' x = h x)"
proof -
  define p where "p = last (l_head l # xs)"
  have sg: "seg h (l_head l) xs (l_tail l)" and dist: "distinct (l_head l # xs @ [l_tail l])"
    and nulls: "prev (h (l_head l)) = None" "next (h (l_tail l)) = None" using l by (auto simp: dll_def)
  have p: "prev (h (l_tail l)) = Some p" using seg_last [OF sg] by (simp add: p_def)
  have "p \<in> nodes l xs" by (cases xs rule: rev_cases) (auto simp: p_def nodes_def)
  then have ne: "p \<noteq> e" "e \<noteq> l_head l" "e \<noteq> l_tail l" "e \<notin> set xs" using e by (auto simp: nodes_def)
  define h' where "h' = set_next (set_prev (set_next (set_prev h e (Some p)) e (Some (l_tail l))) (l_tail l) (Some e)) p (Some e)"
  have "list_push_back h l e = Some h'" using p ne by (simp add: list_push_back_def Let_def h'_def)
  moreover have frame: "h' x = h x" if "x \<notin> insert e (nodes l xs)" for x
  proof -
    have "x \<noteq> e" "x \<noteq> p" "x \<noteq> l_tail l" using that \<open>p \<in> nodes l xs\<close> by (auto simp: nodes_def)
    then show ?thesis by (simp add: h'_def)
  qed
  moreover have "seg h' (l_head l) xs e"
  proof (cases xs rule: rev_cases)
    case Nil
    then show ?thesis using ne dist by (simp add: h'_def p_def)
  next
    case (snoc ys y)
    then have sy: "seg h (l_head l) ys y" and "p = y" using sg by (simp_all add: p_def seg_append)
    have "seg h' (l_head l) ys y" by (rule seg_cong [OF sy]) (use ne dist snoc \<open>p = y\<close> in \<open>auto simp: h'_def\<close>)
    then show ?thesis using snoc ne dist \<open>p = y\<close> by (simp add: h'_def seg_append)
  qed
  moreover have "p \<noteq> l_tail l" using dist by (cases xs rule: rev_cases) (auto simp: p_def)
  then have "next (h' e) = Some (l_tail l)" "prev (h' (l_tail l)) = Some e" "prev (h' (l_head l)) = None" "next (h' (l_tail l)) = None"
    using nulls ne dist by (auto simp: h'_def)
  ultimately have "dll h' l (xs @ [e])" using ne dist by (simp add: dll_def seg_append)
  then show ?thesis using \<open>list_push_back h l e = Some h'\<close> frame by blast
qed

lemma seg_unlink:
  assumes "seg h a ys x" "seg h x zs b" "distinct (a # ys @ x # zs @ [b])"
    and "h' = set_next (set_prev h (hd (zs @ [b])) (Some (last (a # ys)))) (last (a # ys)) (Some (hd (zs @ [b])))"
  shows "seg h' a (ys @ zs) b"
  using assms
proof (induction ys arbitrary: a)
  case Nil
  show ?case
  proof (cases zs)
    case (Cons z vs)
    then have "seg h z vs b" using Nil.prems by simp
    then have "seg h' z vs b" by (rule seg_cong) (use Nil.prems Cons in auto)
    then show ?thesis using Nil.prems Cons by simp
  qed (use Nil.prems in simp)
next
  case (Cons y ys)
  then have "seg h' y (ys @ zs) b" by simp
  moreover have "a \<noteq> last (y # ys)" "y \<noteq> hd (zs @ [b])"
    using Cons.prems(3) by (auto simp: hd_append split: if_splits dest: last_in_set hd_in_set)
  ultimately show ?case using Cons.prems by simp
qed

lemma list_remove_dll:
  assumes l: "dll h l (ys @ e # zs)"
  shows "\<exists>h'. list_remove h e = Some h' \<and> dll h' l (ys @ zs) \<and> (\<forall>x. x \<notin> nodes l (ys @ e # zs) \<longrightarrow> h' x = h x)"
proof -
  define p where "p = last (l_head l # ys)"
  define n where "n = hd (zs @ [l_tail l])"
  have sg: "seg h (l_head l) ys e" "seg h e zs (l_tail l)" and dist: "distinct (l_head l # ys @ e # zs @ [l_tail l])"
    using l by (auto simp: dll_def seg_append)
  have pn: "prev (h e) = Some p" "next (h e) = Some n" using seg_last [OF sg(1)] seg_first [OF sg(2)] by (simp_all add: p_def n_def)
  have "p \<in> insert (l_head l) (set ys)" by (cases ys rule: rev_cases) (auto simp: p_def)
  moreover have "n \<in> insert (l_tail l) (set zs)" by (cases zs) (auto simp: n_def)
  ultimately have ne: "p \<noteq> e" "n \<noteq> e" "p \<noteq> l_tail l" "n \<noteq> l_head l" "p \<in> nodes l (ys @ zs)" "n \<in> nodes l (ys @ zs)"
    using dist by (auto simp: nodes_def)
  define h1 where "h1 = set_next (set_prev h n (Some p)) p (Some n)"
  define h' where "h' = set_next (set_prev h1 e None) e None"
  have "list_remove h e = Some h'" using pn ne by (simp add: list_remove_def Let_def h'_def h1_def)
  moreover have "seg h1 (l_head l) (ys @ zs) (l_tail l)"
    using seg_unlink [OF sg dist] by (simp add: h1_def p_def n_def)
  then have "seg h' (l_head l) (ys @ zs) (l_tail l)" by (rule seg_cong) (use dist in \<open>auto simp: h'_def\<close>)
  then have "dll h' l (ys @ zs)" using l dist ne by (auto simp: dll_def h'_def h1_def)
  moreover have "h' x = h x" if "x \<notin> nodes l (ys @ e # zs)" for x
  proof -
    have "x \<noteq> e" "x \<noteq> p" "x \<noteq> n" using that ne(5,6) by (auto simp: nodes_def)
    then show ?thesis by (simp add: h'_def h1_def)
  qed
  ultimately show ?thesis by blast
qed

lemma list_ends:
  assumes "dll h l xs"
  shows "list_peek_front h l = (if xs = [] then None else Some (hd xs))"
    "list_peek_back h l = (if xs = [] then None else Some (last xs))"
proof -
  have sg: "seg h (l_head l) xs (l_tail l)" and nulls: "prev (h (l_head l)) = None" "next (h (l_tail l)) = None"
    using assms by (auto simp: dll_def)
  note first = seg_first [OF sg] and last = seg_last [OF sg]
  have linked: "prev (h x) \<noteq> None \<and> next (h x) \<noteq> None" if "x \<in> set xs" for x
  proof -
    obtain ys zs where "xs = ys @ x # zs" using split_list [OF \<open>x \<in> set xs\<close>] by blast
    then show ?thesis using sg seg_last seg_first by (fastforce simp: seg_append)
  qed
  show "list_peek_front h l = (if xs = [] then None else Some (hd xs))"
    using first nulls linked [of "hd xs"] by (cases "xs = []") (auto simp: list_peek_front_def ensure_def)
  show "list_peek_back h l = (if xs = [] then None else Some (last xs))"
    using last nulls linked [of "List.last xs"] by (cases "xs = []") (auto simp: list_peek_back_def ensure_def)
qed

lemma list_pop_back_dll:
  assumes l: "dll h l (xs @ [e])"
  shows "\<exists>h'. list_pop_back h l = Some (e, h') \<and> dll h' l xs \<and> (\<forall>x. x \<notin> nodes l (xs @ [e]) \<longrightarrow> h' x = h x)"
proof -
  have "prev (h (l_tail l)) = Some e" using l by (auto simp: dll_def seg_append)
  then show ?thesis using list_remove_dll [of h l xs e "[]"] l by (auto simp: list_pop_back_def)
qed

lemma list_pop_front_dll:
  assumes l: "dll h l (e # xs)"
  shows "\<exists>h'. list_pop_front h l = Some (e, h') \<and> dll h' l xs \<and> (\<forall>x. x \<notin> nodes l (e # xs) \<longrightarrow> h' x = h x)"
proof -
  have "next (h (l_head l)) = Some e" using l by (auto simp: dll_def)
  then show ?thesis using list_remove_dll [of h l "[]" e xs] l by (auto simp: list_pop_front_def)
qed

lemma list_pop_empty:
  assumes "dll h l []"
  shows "list_pop_front h l = None" "list_pop_back h l = None"
  using assms by (auto simp: dll_def list_pop_front_def list_pop_back_def list_remove_def)

section \<open>Lists in a shared store\<close>

text \<open>
  The contract of intrusive lists: \<open>rep s l xs\<close> says that the store \<open>s\<close> holds the list \<open>l\<close> with the
  entries \<open>xs\<close>. An operation touches only the entries of its list and the entry it is given, so that
  lists with disjoint entries do not disturb each other. Clients move entries within a list and
  between two lists.
\<close>

locale intrusive_lists =
  fixes rep :: "'s \<Rightarrow> 'l \<Rightarrow> 'a list \<Rightarrow> bool" and own :: "'l \<Rightarrow> 'a list \<Rightarrow> 'a set"
    and push_front :: "'s \<Rightarrow> 'l \<Rightarrow> 'a \<Rightarrow> 's option" and push_back :: "'s \<Rightarrow> 'l \<Rightarrow> 'a \<Rightarrow> 's option"
    and unlink :: "'s \<Rightarrow> 'a \<Rightarrow> 's option" and pop_back :: "'s \<Rightarrow> 'l \<Rightarrow> ('a \<times> 's) option"
  assumes own_append: "own l (xs @ ys) = own l xs \<union> set ys" and own_Cons: "own l (x # xs) = insert x (own l xs)"
    and unlinked: "rep s l (ys @ x # zs) \<Longrightarrow> x \<notin> own l (ys @ zs)"
    and push_front_law: "rep s l xs \<Longrightarrow> x \<notin> own l xs \<Longrightarrow> \<exists>s'. push_front s l x = Some s' \<and> rep s' l (x # xs) \<and>
      (\<forall>l' ys. rep s l' ys \<and> own l' ys \<inter> insert x (own l xs) = {} \<longrightarrow> rep s' l' ys)"
    and push_back_law: "rep s l xs \<Longrightarrow> x \<notin> own l xs \<Longrightarrow> \<exists>s'. push_back s l x = Some s' \<and> rep s' l (xs @ [x]) \<and>
      (\<forall>l' ys. rep s l' ys \<and> own l' ys \<inter> insert x (own l xs) = {} \<longrightarrow> rep s' l' ys)"
    and unlink_law: "rep s l (ys @ x # zs) \<Longrightarrow> \<exists>s'. unlink s x = Some s' \<and> rep s' l (ys @ zs) \<and>
      (\<forall>l' xs. rep s l' xs \<and> own l' xs \<inter> own l (ys @ x # zs) = {} \<longrightarrow> rep s' l' xs)"
    and pop_back_law: "rep s l (xs @ [x]) \<Longrightarrow> \<exists>s'. pop_back s l = Some (x, s') \<and> rep s' l xs \<and>
      (\<forall>l' ys. rep s l' ys \<and> own l' ys \<inter> own l (xs @ [x]) = {} \<longrightarrow> rep s' l' ys)"
begin

lemma move_front:
  assumes l: "rep s l (ys @ x # zs)" and k: "rep s k us" "own k us \<inter> own l (ys @ x # zs) = {}"
  shows "\<exists>s'. do { s \<leftarrow> unlink s x; push_front s l x } = Some s' \<and> rep s' l (x # ys @ zs) \<and> rep s' k us"
proof -
  obtain s1 where s1: "unlink s x = Some s1" "rep s1 l (ys @ zs)" "rep s1 k us" using unlink_law [OF l] k by blast
  moreover have "own k us \<inter> insert x (own l (ys @ zs)) = {}" using k(2) by (auto simp: own_append own_Cons)
  ultimately show ?thesis using push_front_law [OF s1(2) unlinked [OF l]] by auto
qed

lemma move_back:
  assumes l: "rep s l (ys @ x # zs)" and k: "rep s k us" "own k us \<inter> own l (ys @ x # zs) = {}"
  shows "\<exists>s'. do { s \<leftarrow> unlink s x; push_back s l x } = Some s' \<and> rep s' l (ys @ zs @ [x]) \<and> rep s' k us"
proof -
  obtain s1 where s1: "unlink s x = Some s1" "rep s1 l (ys @ zs)" "rep s1 k us" using unlink_law [OF l] k by blast
  moreover have "own k us \<inter> insert x (own l (ys @ zs)) = {}" using k(2) by (auto simp: own_append own_Cons)
  ultimately show ?thesis using push_back_law [OF s1(2) unlinked [OF l]] by auto
qed

lemma move_over:
  assumes l: "rep s l (ys @ x # zs)" and k: "rep s k us" "own k us \<inter> own l (ys @ x # zs) = {}"
  shows "\<exists>s'. do { s \<leftarrow> unlink s x; push_front s k x } = Some s' \<and> rep s' l (ys @ zs) \<and> rep s' k (x # us)"
proof -
  obtain s1 where s1: "unlink s x = Some s1" "rep s1 l (ys @ zs)" "rep s1 k us" using unlink_law [OF l] k by blast
  have x: "x \<notin> own k us" "own l (ys @ zs) \<inter> insert x (own k us) = {}"
    using k(2) unlinked [OF l] by (auto simp: own_append own_Cons)
  then show ?thesis using push_front_law [OF s1(3) x(1)] s1 by auto
qed

end

interpretation ll: intrusive_lists dll nodes list_push_front list_push_back list_remove list_pop_back
proof unfold_locales
  fix h and l :: "'a list_t" and xs ys zs and x :: 'a
  show "nodes l (xs @ ys) = nodes l xs \<union> set ys" "nodes l (x # xs) = insert x (nodes l xs)" by (auto simp: nodes_def)
  show "x \<notin> nodes l (ys @ zs)" if "dll h l (ys @ x # zs)" using that by (auto simp: dll_def nodes_def)
  show "\<exists>h'. list_push_front h l x = Some h' \<and> dll h' l (x # xs) \<and>
      (\<forall>l' ys. dll h l' ys \<and> nodes l' ys \<inter> insert x (nodes l xs) = {} \<longrightarrow> dll h' l' ys)" if "dll h l xs" "x \<notin> nodes l xs"
    using list_push_front_dll [OF that] dll_frame by (metis disjoint_iff)
  show "\<exists>h'. list_push_back h l x = Some h' \<and> dll h' l (xs @ [x]) \<and>
      (\<forall>l' ys. dll h l' ys \<and> nodes l' ys \<inter> insert x (nodes l xs) = {} \<longrightarrow> dll h' l' ys)" if "dll h l xs" "x \<notin> nodes l xs"
    using list_push_back_dll [OF that] dll_frame by (metis disjoint_iff)
  show "\<exists>h'. list_remove h x = Some h' \<and> dll h' l (ys @ zs) \<and>
      (\<forall>l' xs. dll h l' xs \<and> nodes l' xs \<inter> nodes l (ys @ x # zs) = {} \<longrightarrow> dll h' l' xs)" if "dll h l (ys @ x # zs)"
    using list_remove_dll [OF that] dll_frame by (metis disjoint_iff)
  show "\<exists>h'. list_pop_back h l = Some (x, h') \<and> dll h' l xs \<and>
      (\<forall>l' ys. dll h l' ys \<and> nodes l' ys \<inter> nodes l (xs @ [x]) = {} \<longrightarrow> dll h' l' ys)" if "dll h l (xs @ [x])"
    using list_pop_back_dll [OF that] dll_frame by (metis disjoint_iff)
qed

section \<open>Properties\<close>

datatype 'a deque_op = Push_front 'a | Push_back 'a | Pop_front | Pop_back | Delete 'a | Peek_front | Peek_back

fun deque_ref :: "'a list_t \<Rightarrow> 'a list \<Rightarrow> 'a deque_op list \<Rightarrow> ('a option list \<times> 'a list) option" where
  "deque_ref l xs [] = Some ([], xs)"
| "deque_ref l xs (op # ops) = do {
     (a, xs) \<leftarrow> (case op of
         Push_front x \<Rightarrow> if x \<in> nodes l xs then None else Some (None, x # xs)
       | Push_back x \<Rightarrow> if x \<in> nodes l xs then None else Some (None, xs @ [x])
       | Pop_front \<Rightarrow> (case xs of [] \<Rightarrow> None | x # xs \<Rightarrow> Some (Some x, xs))
       | Pop_back \<Rightarrow> if xs = [] then None else Some (Some (last xs), butlast xs)
       | Delete x \<Rightarrow> if x \<in> set xs then Some (None, remove1 x xs) else None
       | Peek_front \<Rightarrow> if xs = [] then None else Some (Some (hd xs), xs)
       | Peek_back \<Rightarrow> if xs = [] then None else Some (Some (last xs), xs));
     (as, xs) \<leftarrow> deque_ref l xs ops;
     Some (a # as, xs)
   }"

definition list_op :: "'a list_t \<Rightarrow> 'a links \<Rightarrow> 'a deque_op \<Rightarrow> ('a option \<times> 'a links) option" where
  "list_op l h op = (case op of
       Push_front x \<Rightarrow> map_option (Pair None) (list_push_front h l x)
     | Push_back x \<Rightarrow> map_option (Pair None) (list_push_back h l x)
     | Pop_front \<Rightarrow> map_option (apfst Some) (list_pop_front h l)
     | Pop_back \<Rightarrow> map_option (apfst Some) (list_pop_back h l)
     | Delete x \<Rightarrow> map_option (Pair None) (list_remove h x)
     | Peek_front \<Rightarrow> map_option (\<lambda>e. (Some e, h)) (list_peek_front h l)
     | Peek_back \<Rightarrow> map_option (\<lambda>e. (Some e, h)) (list_peek_back h l))"

fun list_run :: "'a list_t \<Rightarrow> 'a links \<Rightarrow> 'a deque_op list \<Rightarrow> ('a option list \<times> 'a links) option" where
  "list_run l h [] = Some ([], h)"
| "list_run l h (op # ops) = do {
     (a, h) \<leftarrow> list_op l h op;
     (as, h) \<leftarrow> list_run l h ops;
     Some (a # as, h)
   }"

lemma list_op_step:
  assumes l: "dll h l xs" and ref: "deque_ref l xs [op] = Some (as, ys)"
  shows "\<exists>a h'. as = [a] \<and> list_op l h op = Some (a, h') \<and> dll h' l ys"
proof (cases op)
  case (Push_front x)
  then have x: "x \<notin> nodes l xs" "as = [None]" "ys = x # xs" using ref by (auto split: if_splits)
  then show ?thesis using list_push_front_dll [OF l x(1)] Push_front by (auto simp: list_op_def)
next
  case (Push_back x)
  then have x: "x \<notin> nodes l xs" "as = [None]" "ys = xs @ [x]" using ref by (auto split: if_splits)
  then show ?thesis using list_push_back_dll [OF l x(1)] Push_back by (auto simp: list_op_def)
next
  case Pop_front
  then obtain x where "xs = x # ys" "as = [Some x]" using ref by (auto split: list.splits)
  then show ?thesis using list_pop_front_dll [of h l x ys] l Pop_front by (auto simp: list_op_def)
next
  case Pop_back
  then have "xs \<noteq> []" "ys = butlast xs" "as = [Some (last xs)]" using ref by (auto split: if_splits)
  moreover from this have "xs = ys @ [last xs]" by simp
  ultimately show ?thesis using list_pop_back_dll [of h l ys "last xs"] l Pop_back by (auto simp: list_op_def)
next
  case (Delete x)
  then have x: "x \<in> set xs" "as = [None]" "ys = remove1 x xs" using ref by (auto split: if_splits)
  obtain us vs where xs: "xs = us @ x # vs" "x \<notin> set us" using split_list_first [OF x(1)] by blast
  then have "ys = us @ vs" using x(3) by (simp add: remove1_append)
  then show ?thesis using list_remove_dll [of h l us x vs] l xs(1) x(2) Delete by (auto simp: list_op_def)
next
  case Peek_front
  then show ?thesis using ref l list_ends [OF l] by (auto simp: list_op_def split: if_splits)
next
  case Peek_back
  then show ?thesis using ref l list_ends [OF l] by (auto simp: list_op_def split: if_splits)
qed

lemma deque_ref_Cons:
  "deque_ref l xs (op # ops) = Some (as, zs) \<longleftrightarrow>
    (\<exists>a as' ys. as = a # as' \<and> deque_ref l xs [op] = Some ([a], ys) \<and> deque_ref l ys ops = Some (as', zs))"
  by (auto simp: bind_eq_Some_conv)

text \<open>
  C26. The intrusive list is a double-ended queue of entries. Every sequence of operations that pushes
  only entries that are not linked, removes only linked ones and does not take from an empty list
  runs without a fault and acts on the list of entries as expected, whatever the store holds elsewhere.
\<close>

theorem list_refines_deque:
  assumes "l_head l \<noteq> l_tail l" "deque_ref l [] ops = Some (as, xs)"
  shows "\<exists>h'. list_run l (list_init h l) ops = Some (as, h') \<and> dll h' l xs"
proof -
  have "\<exists>h'. list_run l h ops = Some (as, h') \<and> dll h' l zs"
    if "dll h l ys" "deque_ref l ys ops = Some (as, zs)" for h ys as zs
    using that
  proof (induction ops arbitrary: h ys as)
    case (Cons op ops)
    then obtain a as' us where ref: "as = a # as'" "deque_ref l ys [op] = Some ([a], us)" "deque_ref l us ops = Some (as', zs)"
      using iffD1 [OF deque_ref_Cons] by blast
    obtain h1 where "list_op l h op = Some (a, h1)" "dll h1 l us" using list_op_step [OF Cons.prems(1) ref(2)] by auto
    then show ?case using Cons.IH [OF _ ref(3), of h1] ref(1) by auto
  qed auto
  then show ?thesis using list_init_dll(1) [OF assms(1)] assms(2) by blast
qed

theorem list_refines_deque_witness:
  "\<exists>h'. list_run \<lparr>l_head = 0, l_tail = 1 :: nat\<rparr> (list_init (\<lambda>_. \<lparr>prev = Some 9, next = Some 9\<rparr>) \<lparr>l_head = 0, l_tail = 1\<rparr>)
      [Push_front 2, Push_front 3, Push_back 4, Delete 2, Peek_front, Pop_back] =
      Some ([None, None, None, None, Some 3, Some 4], h') \<and> dll h' \<lparr>l_head = 0, l_tail = 1\<rparr> [3]"
  by (rule list_refines_deque) (simp_all add: nodes_def)

end
