(* ===== verification/Lrumap.thy ===== *)
theory Lrumap
  imports Hashmap Linked_List
begin

text \<open>
  The map with least-recently-used order of \<^verbatim>\<open>src/src/main/utils/lrumap.c\<close>: a hash table from keys to
  entries, and two intrusive lists through these entries, the pool of free ones and the queue of those
  in use, most recently used first. An entry is its index in the array; the addresses of the store are
  the entries and the sentinels of the two lists.
\<close>

section \<open>The code\<close>

datatype addr = Pool_head | Pool_tail | Queue_head | Queue_tail | Entry nat

record ('k, 'v) lrumap_t =
  lm_map :: "('k, nat) hashmap_t"
  lm_links :: "addr links"
  lm_capacity :: nat
  lm_entries :: "('k \<times> 'v) list"

definition pool :: "addr list_t" where
  "pool = \<lparr>l_head = Pool_head, l_tail = Pool_tail\<rparr>"

definition queue :: "addr list_t" where
  "queue = \<lparr>l_head = Queue_head, l_tail = Queue_tail\<rparr>"

definition lrumap_entry_to_super :: "nat \<Rightarrow> addr" where
  "lrumap_entry_to_super i = Entry i"

text \<open>\<open>container_of\<close> a sentinel is no entry.\<close>

definition lrumap_entry_from_super :: "addr \<Rightarrow> nat option" where
  "lrumap_entry_from_super a = (case a of Entry i \<Rightarrow> Some i | _ \<Rightarrow> None)"

text \<open>
  Fresh memory: \<open>mem\<close> for the hash table, \<open>links\<close> for the list entries, \<open>kvs\<close> for the pairs. The loop
  counter is an \<open>int\<close>.
\<close>

definition lrumap_init ::
    "('k, nat) junk \<Rightarrow> addr links \<Rightarrow> (nat \<Rightarrow> 'k \<times> 'v) \<Rightarrow> nat \<Rightarrow> rat \<Rightarrow> ('k \<Rightarrow> nat) \<Rightarrow> ('k \<Rightarrow> 'k \<Rightarrow> bool) \<Rightarrow>
     ('k, 'v) lrumap_t option" where
  "lrumap_init mem links kvs capacity factor hash eq = do {
     m \<leftarrow> hashmap_init mem capacity factor hash eq;
     let links = list_init links pool;
     let links = list_init links queue;
     ensure (capacity < 2 ^ 31);
     links \<leftarrow> for_up 0 capacity (\<lambda>i links. list_push_front links pool (lrumap_entry_to_super i)) links;
     Some \<lparr>lm_map = m, lm_links = links, lm_capacity = capacity, lm_entries = map kvs [0..<capacity]\<rparr>
   }"

definition lrumap_init1 ::
    "('k, nat) junk \<Rightarrow> addr links \<Rightarrow> (nat \<Rightarrow> 'k \<times> 'v) \<Rightarrow> nat \<Rightarrow> ('k \<Rightarrow> nat) \<Rightarrow> ('k \<Rightarrow> 'k \<Rightarrow> bool) \<Rightarrow>
     ('k, 'v) lrumap_t option" where
  "lrumap_init1 mem links kvs capacity hash eq = lrumap_init mem links kvs capacity (3 / 4) hash eq"

definition lrumap_size :: "('k, 'v) lrumap_t \<Rightarrow> nat option" where
  "lrumap_size m = do {
     let size = hashmap_size (lm_map m);
     ensure (size \<le> lm_capacity m);
     Some size
   }"

definition lrumap_capacity :: "('k, 'v) lrumap_t \<Rightarrow> nat" where
  "lrumap_capacity m = lm_capacity m"

text \<open>\<open>mem\<close> is the memory a growing hash table is given.\<close>

definition lrumap_put ::
    "('k, nat) junk \<Rightarrow> ('k, 'v) lrumap_t \<Rightarrow> 'k \<Rightarrow> 'v \<Rightarrow> (bool \<times> ('k, 'v) lrumap_t) option" where
  "lrumap_put mem m key v = do {
     size \<leftarrow> lrumap_size m;
     if size = lm_capacity m then Some (False, m)
     else do {
       (a, links) \<leftarrow> list_pop_back (lm_links m) pool;
       entry \<leftarrow> lrumap_entry_from_super a;
       es \<leftarrow> wr (lm_entries m) entry (key, v);
       (ok, hm) \<leftarrow> hashmap_put_if_absent mem 1 (lm_map m) key entry;
       ensure ok;
       links \<leftarrow> list_push_front links queue (lrumap_entry_to_super entry);
       Some (True, m\<lparr>lm_map := hm, lm_links := links, lm_entries := es\<rparr>)
     }
   }"

definition lrumap_get :: "('k, 'v) lrumap_t \<Rightarrow> 'k \<Rightarrow> (('k \<times> 'v) option \<times> ('k, 'v) lrumap_t) option" where
  "lrumap_get m key = do {
     kv \<leftarrow> hashmap_get (lm_map m) key;
     (case kv of None \<Rightarrow> Some (None, m)
      | Some (k, entry) \<Rightarrow> do {
          links \<leftarrow> list_remove (lm_links m) (lrumap_entry_to_super entry);
          links \<leftarrow> list_push_front links queue (lrumap_entry_to_super entry);
          kv \<leftarrow> rd (lm_entries m) entry;
          Some (Some kv, m\<lparr>lm_links := links\<rparr>)
        })
   }"

definition lrumap_remove :: "('k, 'v) lrumap_t \<Rightarrow> 'k \<Rightarrow> (bool \<times> ('k, 'v) lrumap_t) option" where
  "lrumap_remove m key = do {
     (kv, hm) \<leftarrow> hashmap_remove (lm_map m) key;
     (case kv of None \<Rightarrow> Some (False, m\<lparr>lm_map := hm\<rparr>)
      | Some (k, entry) \<Rightarrow> do {
          links \<leftarrow> list_remove (lm_links m) (lrumap_entry_to_super entry);
          links \<leftarrow> list_push_front links pool (lrumap_entry_to_super entry);
          Some (True, m\<lparr>lm_map := hm, lm_links := links\<rparr>)
        })
   }"

definition lrumap_peek :: "('k, 'v) lrumap_t \<Rightarrow> ('k \<times> 'v) option option" where
  "lrumap_peek m = do {
     size \<leftarrow> lrumap_size m;
     if size = 0 then Some None
     else do {
       a \<leftarrow> list_peek_back (lm_links m) queue;
       entry \<leftarrow> lrumap_entry_from_super a;
       kv \<leftarrow> rd (lm_entries m) entry;
       Some (Some kv)
     }
   }"

definition lrumap_make_eldest :: "('k, 'v) lrumap_t \<Rightarrow> 'k \<Rightarrow> (bool \<times> ('k, 'v) lrumap_t) option" where
  "lrumap_make_eldest m key = do {
     kv \<leftarrow> hashmap_get (lm_map m) key;
     (case kv of None \<Rightarrow> Some (False, m)
      | Some (k, entry) \<Rightarrow> do {
          links \<leftarrow> list_remove (lm_links m) (lrumap_entry_to_super entry);
          links \<leftarrow> list_push_back links queue (lrumap_entry_to_super entry);
          Some (True, m\<lparr>lm_links := links\<rparr>)
        })
   }"

text \<open>An iterator is the address of an entry, or of the sentinel \<open>queue.head\<close> at the end.\<close>

definition lrumap_begin :: "('k, 'v) lrumap_t \<Rightarrow> addr option" where
  "lrumap_begin m = prev (lm_links m (l_tail queue))"

definition lrumap_end :: "addr" where
  "lrumap_end = l_head queue"

definition lrumap_next :: "('k, 'v) lrumap_t \<Rightarrow> addr \<Rightarrow> (addr option \<times> 'k \<times> 'v) option" where
  "lrumap_next m iter = do {
     entry \<leftarrow> lrumap_entry_from_super iter;
     (k, v) \<leftarrow> rd (lm_entries m) entry;
     Some (prev (lm_links m iter), k, v)
   }"

section \<open>The invariant\<close>

text \<open>
  \<open>q\<close> lists the entries in use, most recent first, and \<open>p\<close> the free ones. The hash table maps the key
  of every entry in use to that entry.
\<close>

definition lm_rep :: "('k, 'v) lrumap_t \<Rightarrow> nat list \<Rightarrow> nat list \<Rightarrow> bool" where
  "lm_rep m q p \<longleftrightarrow> hm_ok (lm_map m) \<and> dll (lm_links m) queue (map Entry q) \<and> dll (lm_links m) pool (map Entry p) \<and>
     distinct (q @ p) \<and> set (q @ p) = {..<lm_capacity m} \<and> length (lm_entries m) = lm_capacity m \<and>
     distinct (map (\<lambda>i. fst (lm_entries m ! i)) q) \<and>
     hm_map (lm_map m) = map_of (map (\<lambda>i. (fst (lm_entries m ! i), i)) q)"

abbreviation ents :: "('k, 'v) lrumap_t \<Rightarrow> nat list \<Rightarrow> ('k \<times> 'v) list" where
  "ents m q \<equiv> map (\<lambda>i. lm_entries m ! i) q"

definition lru :: "('k, 'v) lrumap_t \<Rightarrow> ('k \<times> 'v) list \<Rightarrow> bool" where
  "lru m kvs \<longleftrightarrow> (\<exists>q p. lm_rep m q p \<and> kvs = ents m q)"

definition del_key :: "'k \<Rightarrow> ('k \<times> 'v) list \<Rightarrow> ('k \<times> 'v) list" where
  "del_key k kvs = filter (\<lambda>kv. fst kv \<noteq> k) kvs"

lemma del_key_absent: "map_of kvs k = None \<Longrightarrow> del_key k kvs = kvs"
  by (induction kvs) (auto simp: del_key_def split: if_splits)

lemma map_of_del_key: "map_of (del_key k kvs) = (map_of kvs)(k := None)"
  by (induction kvs) (auto simp: del_key_def)

lemma lists_disjoint: "distinct (q @ p) \<Longrightarrow> nodes pool (map Entry p) \<inter> nodes queue (map Entry q) = {}"
  by (auto simp: nodes_def pool_def queue_def)

lemma lm_rep_perm:
  assumes m: "lm_rep m q p" and h: "dll h queue (map Entry q')" "dll h pool (map Entry p)" and perm: "mset q' = mset q"
  shows "lm_rep (m\<lparr>lm_links := h\<rparr>) q' p"
proof -
  let ?f = "\<lambda>i. (fst (lm_entries m ! i), i)"
  have set: "set q' = set q" using perm by (rule mset_eq_setD)
  have d: "distinct q' = distinct q" using perm by (rule mset_eq_imp_distinct_iff)
  have keys: "mset (map (\<lambda>i. fst (lm_entries m ! i)) q') = mset (map (\<lambda>i. fst (lm_entries m ! i)) q)" using perm by simp
  then have dk: "distinct (map (\<lambda>i. fst (lm_entries m ! i)) q')"
    using mset_eq_imp_distinct_iff [OF keys] m by (simp add: lm_rep_def)
  have "map_of (map ?f q') = map_of (map ?f q)"
    using m dk set by (subst map_of_inject_set) (auto simp: lm_rep_def o_def)
  then show ?thesis using m h set d dk by (auto simp: lm_rep_def)
qed

lemma lm_lookup_None:
  assumes "lm_rep m q p" "hm_map (lm_map m) k = None"
  shows "map_of (ents m q) k = None"
  using assms by (auto simp: lm_rep_def map_of_eq_None_iff image_image)

lemma lm_lookup_Some:
  assumes m: "lm_rep m q p" and k: "hm_map (lm_map m) k = Some i"
  obtains ys zs where "q = ys @ i # zs" "fst (lm_entries m ! i) = k" "i < lm_capacity m"
    "map_of (ents m q) k = Some (snd (lm_entries m ! i))"
    "del_key k (ents m q) = ents m (ys @ zs)"
proof -
  have dist: "distinct (map (\<lambda>i. fst (lm_entries m ! i)) q)" using m by (simp add: lm_rep_def)
  have "(k, i) \<in> set (map (\<lambda>i. (fst (lm_entries m ! i), i)) q)"
    using k m map_of_SomeD by (fastforce simp: lm_rep_def)
  then have i: "i \<in> set q" "fst (lm_entries m ! i) = k" by auto
  then obtain ys zs where q: "q = ys @ i # zs" using split_list by metis
  have "i < lm_capacity m" using m i(1) by (auto simp: lm_rep_def)
  moreover have "map_of (ents m q) k = Some (snd (lm_entries m ! i))"
    using dist i by (intro map_of_is_SomeI) (auto simp: o_def image_iff intro!: bexI [of _ i])
  moreover have "del_key k (ents m q) = ents m (ys @ zs)"
  proof -
    have "filter (\<lambda>kv. fst kv \<noteq> k) (ents m us) = ents m us"
      if "k \<notin> (\<lambda>i. fst (lm_entries m ! i)) ` set us" for us using that by (induction us) auto
    then show ?thesis using dist i(2) by (auto simp: q del_key_def)
  qed
  ultimately show thesis using that [OF q i(2)] by blast
qed

section \<open>The operations\<close>

lemma lm_size:
  assumes "lm_rep m q p"
  shows "lrumap_size m = Some (length q)" "length q + length p = lm_capacity m"
proof -
  have q: "distinct q" "distinct (map (\<lambda>i. fst (lm_entries m ! i)) q)" "hm_ok (lm_map m)"
    and map: "hm_map (lm_map m) = map_of (map (\<lambda>i. (fst (lm_entries m ! i), i)) q)" using assms by (auto simp: lm_rep_def)
  have "dom (hm_map (lm_map m)) = set (map (\<lambda>i. fst (lm_entries m ! i)) q)"
    unfolding map dom_map_of_conv_image_fst by (simp add: image_image)
  then have "hashmap_size (lm_map m) = length q"
    using hm.count_law [OF q(3)] distinct_card [OF q(2)] by simp
  moreover have "length (q @ p) = card {..<lm_capacity m}"
    using assms distinct_card [of "q @ p"] by (simp add: lm_rep_def del: set_append length_append)
  ultimately show "lrumap_size m = Some (length q)" "length q + length p = lm_capacity m"
    by (simp_all add: lrumap_size_def)
qed

definition touch :: "'k \<Rightarrow> ('k \<times> 'v) list \<Rightarrow> ('k \<times> 'v) list" where
  "touch k kvs = (case map_of kvs k of None \<Rightarrow> kvs | Some v \<Rightarrow> (k, v) # del_key k kvs)"

definition retire :: "'k \<Rightarrow> ('k \<times> 'v) list \<Rightarrow> ('k \<times> 'v) list" where
  "retire k kvs = (case map_of kvs k of None \<Rightarrow> kvs | Some v \<Rightarrow> del_key k kvs @ [(k, v)])"

lemma lru_lookup:
  assumes "lru m kvs"
  obtains (absent) "map_of kvs k = None" "hashmap_get (lm_map m) k = Some None"
  | (present) q p ys i zs where "lm_rep m q p" "kvs = ents m q" "q = ys @ i # zs" "lm_entries m ! i = (k, snd (lm_entries m ! i))"
    "i < lm_capacity m" "map_of kvs k = Some (snd (lm_entries m ! i))" "del_key k kvs = ents m (ys @ zs)"
    "hashmap_get (lm_map m) k = Some (Some (k, i))" "hm_map (lm_map m) k = Some i"
proof -
  obtain q p where m: "lm_rep m q p" and kvs: "kvs = ents m q" using assms by (auto simp: lru_def)
  have "hm_ok (lm_map m)" using m by (simp add: lm_rep_def)
  note get = hm.get_law [OF this, of k]
  show thesis
  proof (cases "hm_map (lm_map m) k")
    case None
    then show ?thesis using absent lm_lookup_None [OF m None] kvs get by simp
  next
    case (Some i)
    from m Some obtain ys zs where q: "q = ys @ i # zs" "fst (lm_entries m ! i) = k" "i < lm_capacity m"
      "map_of (ents m q) k = Some (snd (lm_entries m ! i))" "del_key k (ents m q) = ents m (ys @ zs)"
      by (rule lm_lookup_Some)
    show ?thesis
      by (rule present [OF m kvs q(1)]) (use q get Some kvs in auto)
  qed
qed

lemma lru_get:
  assumes m: "lru m kvs"
  shows "\<exists>m'. lrumap_get m k = Some (map_option (Pair k) (map_of kvs k), m') \<and> lru m' (touch k kvs) \<and> lm_capacity m' = lm_capacity m"
  using m
proof (cases rule: lru_lookup [where k = k])
  case absent
  then show ?thesis using m by (simp add: lrumap_get_def touch_def)
next
  case (present q p ys i zs)
  then have d: "dll (lm_links m) queue (map Entry q)" "dll (lm_links m) pool (map Entry p)" "distinct (q @ p)"
    and len: "length (lm_entries m) = lm_capacity m" by (auto simp: lm_rep_def)
  obtain h where h: "do { s \<leftarrow> list_remove (lm_links m) (Entry i); list_push_front s queue (Entry i) } = Some h"
    "dll h queue (Entry i # map Entry ys @ map Entry zs)" "dll h pool (map Entry p)"
    using ll.move_front [of "lm_links m" queue "map Entry ys" "Entry i" "map Entry zs" pool "map Entry p"] d lists_disjoint [OF d(3)]
    by (auto simp: present(3))
  have "lm_rep (m\<lparr>lm_links := h\<rparr>) (i # ys @ zs) p"
    by (rule lm_rep_perm [OF present(1)]) (use h in \<open>simp_all add: present(3)\<close>)
  then have "lru (m\<lparr>lm_links := h\<rparr>) (touch k kvs)" using present(4,6,7) by (auto simp: lru_def touch_def)
  moreover have "lrumap_get m k = Some (Some (lm_entries m ! i), m\<lparr>lm_links := h\<rparr>)"
    using present(5,8) h(1) len by (auto simp: lrumap_get_def lrumap_entry_to_super_def rd_in bind_eq_Some_conv)
  ultimately show ?thesis using present(4,6) by simp
qed

lemma lru_make_eldest:
  assumes m: "lru m kvs"
  shows "\<exists>m'. lrumap_make_eldest m k = Some (map_of kvs k \<noteq> None, m') \<and> lru m' (retire k kvs) \<and> lm_capacity m' = lm_capacity m"
  using m
proof (cases rule: lru_lookup [where k = k])
  case absent
  then show ?thesis using m by (simp add: lrumap_make_eldest_def retire_def)
next
  case (present q p ys i zs)
  then have d: "dll (lm_links m) queue (map Entry q)" "dll (lm_links m) pool (map Entry p)" "distinct (q @ p)"
    by (auto simp: lm_rep_def)
  obtain h where h: "do { s \<leftarrow> list_remove (lm_links m) (Entry i); list_push_back s queue (Entry i) } = Some h"
    "dll h queue (map Entry ys @ map Entry zs @ [Entry i])" "dll h pool (map Entry p)"
    using ll.move_back [of "lm_links m" queue "map Entry ys" "Entry i" "map Entry zs" pool "map Entry p"] d lists_disjoint [OF d(3)]
    by (auto simp: present(3))
  have "lm_rep (m\<lparr>lm_links := h\<rparr>) (ys @ zs @ [i]) p"
    by (rule lm_rep_perm [OF present(1)]) (use h in \<open>simp_all add: present(3)\<close>)
  then have "lru (m\<lparr>lm_links := h\<rparr>) (retire k kvs)" using present(4,6,7) by (auto simp: lru_def retire_def)
  moreover have "lrumap_make_eldest m k = Some (True, m\<lparr>lm_links := h\<rparr>)"
    using present(8) h(1) by (auto simp: lrumap_make_eldest_def lrumap_entry_to_super_def bind_eq_Some_conv)
  ultimately show ?thesis using present(6) by auto
qed

lemma lru_remove:
  assumes m: "lru m kvs"
  shows "\<exists>m'. lrumap_remove m k = Some (map_of kvs k \<noteq> None, m') \<and> lru m' (del_key k kvs) \<and> lm_capacity m' = lm_capacity m"
proof -
  have ok: "hm_ok (lm_map m)" using m by (auto simp: lru_def lm_rep_def)
  then obtain hm' where hm': "hashmap_remove (lm_map m) k = Some (map_option (Pair k) (hm_map (lm_map m) k), hm')"
    "hm_ok hm'" "hm_map hm' = (hm_map (lm_map m))(k := None)" using hm.remove_law [OF ok, of k] by blast
  from m show ?thesis
  proof (cases rule: lru_lookup [where k = k])
    case absent
    obtain q p where q: "lm_rep m q p" "kvs = ents m q" using m by (auto simp: lru_def)
    have none: "hm_map (lm_map m) k = None"
      using absent(2) hm.get_law [OF ok, of k] by simp
    then have "hm_map hm' = hm_map (lm_map m)" using hm'(3) by (simp add: fun_upd_idem)
    then have "lm_rep (m\<lparr>lm_map := hm'\<rparr>) q p" using q(1) hm'(2) by (simp add: lm_rep_def)
    then have "lru (m\<lparr>lm_map := hm'\<rparr>) kvs" unfolding lru_def q(2) by (intro exI [of _ q] exI [of _ p]) simp
    then show ?thesis using absent(1) hm'(1) none by (simp add: lrumap_remove_def del_key_absent)
  next
    case (present q p ys i zs)
    then have d: "dll (lm_links m) queue (map Entry q)" "dll (lm_links m) pool (map Entry p)" "distinct (q @ p)"
      by (auto simp: lm_rep_def)
    obtain h where h: "do { s \<leftarrow> list_remove (lm_links m) (Entry i); list_push_front s pool (Entry i) } = Some h"
      "dll h queue (map Entry ys @ map Entry zs)" "dll h pool (Entry i # map Entry p)"
      using ll.move_over [of "lm_links m" queue "map Entry ys" "Entry i" "map Entry zs" pool "map Entry p"] d lists_disjoint [OF d(3)]
      by (auto simp: present(3))
    have dist: "distinct (map (\<lambda>i. fst (lm_entries m ! i)) (ys @ i # zs))"
      and map: "hm_map (lm_map m) = map_of (map (\<lambda>i. (fst (lm_entries m ! i), i)) (ys @ i # zs))"
      using present(1,3) by (auto simp: lm_rep_def)
    have "hm_map hm' = map_of (map (\<lambda>i. (fst (lm_entries m ! i), i)) (ys @ zs))"
    proof
      fix x
      have k: "fst (lm_entries m ! i) = k" using present(4) by (metis fst_conv)
      have "map_of (map (\<lambda>i. (fst (lm_entries m ! i), i)) (ys @ zs)) k = None"
        using dist k by (auto simp: map_of_eq_None_iff image_image)
      then show "hm_map hm' x = map_of (map (\<lambda>i. (fst (lm_entries m ! i), i)) (ys @ zs)) x"
        using k by (cases "x = k") (auto simp: hm'(3) map map_add_def split: option.splits)
    qed
    then have "lm_rep (m\<lparr>lm_map := hm', lm_links := h\<rparr>) (ys @ zs) (i # p)"
      using present(1,3) h hm'(2) dist by (auto simp: lm_rep_def)
    then have "lru (m\<lparr>lm_map := hm', lm_links := h\<rparr>) (del_key k kvs)"
      unfolding present(7) lru_def by (intro exI [of _ "ys @ zs"] exI [of _ "i # p"]) simp
    moreover have "lrumap_remove m k = Some (True, m\<lparr>lm_map := hm', lm_links := h\<rparr>)"
      using h(1) hm'(1) present(9) by (auto simp: lrumap_remove_def lrumap_entry_to_super_def bind_eq_Some_conv)
    ultimately show ?thesis using present(6) by auto
  qed
qed

lemma lru_keys: "lru m kvs \<Longrightarrow> distinct (map fst kvs)"
  by (auto simp: lru_def lm_rep_def o_def)

lemma lru_size:
  assumes "lru m kvs"
  shows "lrumap_size m = Some (length kvs)" "length kvs \<le> lm_capacity m"
proof -
  obtain q p where "lm_rep m q p" "kvs = ents m q" using assms by (auto simp: lru_def)
  then show "lrumap_size m = Some (length kvs)" "length kvs \<le> lm_capacity m" using lm_size [of m q p] by simp_all
qed

lemma lru_peek:
  assumes m: "lru m kvs"
  shows "lrumap_peek m = Some (if kvs = [] then None else Some (last kvs))"
proof -
  obtain q p where q: "lm_rep m q p" "kvs = ents m q" using m by (auto simp: lru_def)
  then have d: "dll (lm_links m) queue (map Entry q)" and i: "\<forall>i \<in> set q. i < length (lm_entries m)" by (auto simp: lm_rep_def)
  show ?thesis
  proof (cases "q = []")
    case True
    then show ?thesis using lru_size(1) [OF m] q(2) by (simp add: lrumap_peek_def)
  next
    case False
    then have "list_peek_back (lm_links m) queue = Some (Entry (last q))" using list_ends(2) [OF d] by (simp add: last_map)
    moreover have "last q < length (lm_entries m)" using i False by simp
    ultimately show ?thesis
      using lru_size(1) [OF m] q(2) False by (simp add: lrumap_peek_def lrumap_entry_from_super_def rd_in last_map)
  qed
qed

lemma lru_put_full: "lru m kvs \<Longrightarrow> length kvs = lm_capacity m \<Longrightarrow> lrumap_put mem m k v = Some (False, m)"
  using lru_size(1) [of m kvs] by (simp add: lrumap_put_def)

text \<open>What \<open>put\<close> does before it looks at the hash table: an entry leaves the pool and is filled.\<close>

lemma lru_take:
  assumes m: "lm_rep m q p" and room: "length q < lm_capacity m"
  obtains p' e h where "p = p' @ [e]" "list_pop_back (lm_links m) pool = Some (Entry e, h)" "dll h pool (map Entry p')"
    "dll h queue (map Entry q)" "e < length (lm_entries m)" "e \<notin> set q"
proof -
  have "p \<noteq> []" using lm_size(2) [OF m] room by auto
  then obtain p' e where p: "p = p' @ [e]" by (metis append_butlast_last_id)
  have d: "dll (lm_links m) queue (map Entry q)" "dll (lm_links m) pool (map Entry p' @ [Entry e])" "distinct (q @ p)"
    using m by (auto simp: lm_rep_def p)
  have dj: "nodes queue (map Entry q) \<inter> nodes pool (map Entry p' @ [Entry e]) = {}"
    using lists_disjoint [OF d(3)] by (simp add: p Int_commute)
  obtain h where "list_pop_back (lm_links m) pool = Some (Entry e, h)" "dll h pool (map Entry p')" "dll h queue (map Entry q)"
    using ll.pop_back_law [OF d(2)] d(1) dj by blast
  moreover have "e < length (lm_entries m)" "e \<notin> set q" using m by (auto simp: lm_rep_def p)
  ultimately show thesis using that [OF p] by blast
qed

lemma lru_put:
  assumes m: "lru m kvs" and room: "length kvs < lm_capacity m" and new: "map_of kvs k = None"
  shows "\<exists>m'. lrumap_put mem m k v = Some (True, m') \<and> lru m' ((k, v) # kvs) \<and> lm_capacity m' = lm_capacity m"
proof -
  obtain q p where rep: "lm_rep m q p" and kvs: "kvs = ents m q" using m by (auto simp: lru_def)
  from rep room kvs obtain p' e h where take: "p = p' @ [e]" "list_pop_back (lm_links m) pool = Some (Entry e, h)"
    "dll h pool (map Entry p')" "dll h queue (map Entry q)" "e < length (lm_entries m)" "e \<notin> set q"
    by (auto elim: lru_take)
  have ok: "hm_ok (lm_map m)" and dist: "distinct (q @ p)"
    and dk: "distinct (map (\<lambda>i. fst (lm_entries m ! i)) q)"
    and hmap: "hm_map (lm_map m) = map_of (map (\<lambda>i. (fst (lm_entries m ! i), i)) q)"
    using rep by (auto simp: lm_rep_def)
  have knew: "k \<notin> (\<lambda>i. fst (lm_entries m ! i)) ` set q" using new by (simp add: kvs map_of_eq_None_iff image_image)
  then have none: "hm_map (lm_map m) k = None" by (simp add: hmap map_of_eq_None_iff image_image)
  obtain hm' where hm': "hashmap_put_if_absent mem 1 (lm_map m) k e = Some (True, hm')" "hm_ok hm'"
    "hm_map hm' = (hm_map (lm_map m))(k \<mapsto> e)" using hm.put_if_absent_law [OF ok, of mem k e] none by auto
  have enot: "Entry e \<notin> nodes queue (map Entry q)" using take(6) by (auto simp: nodes_def queue_def)
  have dj: "nodes pool (map Entry p') \<inter> insert (Entry e) (nodes queue (map Entry q)) = {}"
    using lists_disjoint [OF dist] dist by (auto simp: take(1) nodes_def pool_def)
  obtain h' where h': "list_push_front h queue (Entry e) = Some h'" "dll h' queue (map Entry (e # q))" "dll h' pool (map Entry p')"
    using ll.push_front_law [OF take(4) enot] take(3) dj by auto
  define m' where "m' = m\<lparr>lm_map := hm', lm_links := h', lm_entries := (lm_entries m)[e := (k, v)]\<rparr>"
  have same: "lm_entries m' ! i = lm_entries m ! i" if "i \<in> set q" for i using that take(6) by (cases "i = e") (auto simp: m'_def)
  have at_e: "lm_entries m' ! e = (k, v)" using take(5) by (simp add: m'_def)
  have f: "map (\<lambda>i. fst (lm_entries m' ! i)) q = map (\<lambda>i. fst (lm_entries m ! i)) q"
    "map (\<lambda>i. (fst (lm_entries m' ! i), i)) q = map (\<lambda>i. (fst (lm_entries m ! i), i)) q" using same by auto
  have "distinct (map (\<lambda>i. fst (lm_entries m' ! i)) (e # q))" using dk knew at_e by (simp add: f(1) del: map_eq_conv)
  moreover have "hm_map hm' = map_of (map (\<lambda>i. (fst (lm_entries m' ! i), i)) (e # q))"
    using at_e by (simp add: hm'(3) hmap f(2) del: map_eq_conv)
  ultimately have "lm_rep m' (e # q) p'"
    using rep h' hm'(2) by (auto simp: lm_rep_def m'_def take(1))
  moreover have "(k, v) # kvs = ents m' (e # q)" using same at_e by (simp add: kvs)
  ultimately have "lru m' ((k, v) # kvs)" unfolding lru_def by (intro exI [of _ "e # q"] exI [of _ p'] conjI)
  moreover have "lrumap_put mem m k v = Some (True, m')"
    using room take(2,5) hm'(1) h'(1) lru_size(1) [OF m]
    by (simp add: lrumap_put_def lrumap_entry_from_super_def lrumap_entry_to_super_def wr_in m'_def)
  ultimately show ?thesis by (auto simp: m'_def)
qed

lemma lru_put_present:
  assumes m: "lru m kvs" and room: "length kvs < lm_capacity m" and old: "map_of kvs k \<noteq> None"
  shows "lrumap_put mem m k v = None"
proof -
  obtain q p where rep: "lm_rep m q p" and kvs: "kvs = ents m q" using m by (auto simp: lru_def)
  have ok: "hm_ok (lm_map m)" using rep by (simp add: lm_rep_def)
  have "hm_map (lm_map m) k \<noteq> None" using lm_lookup_None [OF rep] old kvs by metis
  then have "\<exists>hm'. hashmap_put_if_absent mem 1 (lm_map m) k e = Some (False, hm')" for e
    using hm.put_if_absent_law [OF ok, of mem k e] by auto
  moreover from rep room kvs obtain e h where
    "list_pop_back (lm_links m) pool = Some (Entry e, h)" "e < length (lm_entries m)" by (auto elim: lru_take)
  ultimately obtain hm' where "list_pop_back (lm_links m) pool = Some (Entry e, h)" "e < length (lm_entries m)"
    "hashmap_put_if_absent mem 1 (lm_map m) k e = Some (False, hm')" by blast
  then show ?thesis using room lru_size(1) [OF m] by (simp add: lrumap_put_def lrumap_entry_from_super_def wr_in)
qed

lemma lru_init:
  assumes "0 < factor" "factor \<le> 1" "1 \<le> of_nat cap * factor" "cap < 2 ^ 31"
  shows "\<exists>m. lrumap_init mem links kvs cap factor hash (=) = Some m \<and> lru m [] \<and> lm_capacity m = cap"
proof -
  obtain hm0 where hm0: "hashmap_init mem cap factor hash (=) = Some hm0" "hm_ok hm0" "hm_map hm0 = Map.empty"
    using hashmap_init_spec [OF assms(1-3)] by blast
  let ?l = "list_init (list_init links pool) queue"
  have q0: "dll ?l queue []" by (rule list_init_dll) (simp add: queue_def)
  have "dll (list_init links pool) pool []" by (rule list_init_dll) (simp add: pool_def)
  then have p0: "dll ?l pool []"
    by (rule dll_frame) (use list_init_dll(2) [of queue] in \<open>auto simp: nodes_def pool_def queue_def\<close>)
  define P where "P = (\<lambda>i h. dll h queue [] \<and> dll h pool (map Entry (rev [0..<i])))"
  have "\<exists>h. for_up 0 cap (\<lambda>i links. list_push_front links pool (lrumap_entry_to_super i)) ?l = Some h \<and> P cap h"
  proof (rule for_up_rule)
    show "P 0 ?l" using q0 p0 by (simp add: P_def)
  next
    fix i h assume "P i h"
    then have h: "dll h pool (map Entry (rev [0..<i]))" "dll h queue []" by (auto simp: P_def)
    have e: "Entry i \<notin> nodes pool (map Entry (rev [0..<i]))" by (auto simp: nodes_def pool_def)
    have "nodes queue [] \<inter> insert (Entry i) (nodes pool (map Entry (rev [0..<i]))) = {}"
      by (auto simp: nodes_def pool_def queue_def)
    then show "\<exists>h'. list_push_front h pool (lrumap_entry_to_super i) = Some h' \<and> P (Suc i) h'"
      using ll.push_front_law [OF h(1) e] h(2) by (auto simp: P_def lrumap_entry_to_super_def)
  qed simp
  then obtain h where h: "for_up 0 cap (\<lambda>i links. list_push_front links pool (lrumap_entry_to_super i)) ?l = Some h"
    "dll h queue []" "dll h pool (map Entry (rev [0..<cap]))" by (auto simp: P_def)
  define m where "m = \<lparr>lm_map = hm0, lm_links = h, lm_capacity = cap, lm_entries = map kvs [0..<cap]\<rparr>"
  have "lm_rep m [] (rev [0..<cap])" using h hm0 by (auto simp: lm_rep_def m_def)
  then have "lru m []" unfolding lru_def by (intro exI [of _ "[]"] exI [of _ "rev [0..<cap]"]) simp
  moreover have "lrumap_init mem links kvs cap factor hash (=) = Some m"
    using hm0(1) h(1) assms(4) by (simp add: lrumap_init_def Let_def m_def)
  ultimately show ?thesis by (auto simp: m_def)
qed

section \<open>Caches with least-recently-used order\<close>

text \<open>
  The contract a client relies on: \<open>rep s kvs\<close> says that the cache \<open>s\<close> holds the bindings \<open>kvs\<close>, most
  recently used first. The reference works on the list alone; putting a key that is present into a
  cache with room is an error.
\<close>

datatype ('k, 'v) lru_op = Lru_put 'k 'v | Lru_get 'k | Lru_remove 'k | Lru_peek | Lru_make_eldest 'k | Lru_size

datatype ('k, 'v) lru_answer = Done bool | Pair_of "('k \<times> 'v) option" | Amount nat

definition lru_ref_step :: "nat \<Rightarrow> ('k \<times> 'v) list \<Rightarrow> ('k, 'v) lru_op \<Rightarrow> (('k, 'v) lru_answer \<times> ('k \<times> 'v) list) option" where
  "lru_ref_step cap kvs op = (case op of
       Lru_put k v \<Rightarrow> if length kvs = cap then Some (Done False, kvs)
         else if map_of kvs k \<noteq> None then None else Some (Done True, (k, v) # kvs)
     | Lru_get k \<Rightarrow> Some (Pair_of (map_option (Pair k) (map_of kvs k)), touch k kvs)
     | Lru_remove k \<Rightarrow> Some (Done (map_of kvs k \<noteq> None), del_key k kvs)
     | Lru_peek \<Rightarrow> Some (Pair_of (if kvs = [] then None else Some (last kvs)), kvs)
     | Lru_make_eldest k \<Rightarrow> Some (Done (map_of kvs k \<noteq> None), retire k kvs)
     | Lru_size \<Rightarrow> Some (Amount (length kvs), kvs))"

fun lru_ref :: "nat \<Rightarrow> ('k \<times> 'v) list \<Rightarrow> ('k, 'v) lru_op list \<Rightarrow> (('k, 'v) lru_answer list \<times> ('k \<times> 'v) list) option" where
  "lru_ref cap kvs [] = Some ([], kvs)"
| "lru_ref cap kvs (op # ops) = do {
     (a, kvs) \<leftarrow> lru_ref_step cap kvs op;
     (as, kvs) \<leftarrow> lru_ref cap kvs ops;
     Some (a # as, kvs)
   }"

locale lru_cache =
  fixes rep :: "'s \<Rightarrow> ('k \<times> 'v) list \<Rightarrow> bool" and cap :: "'s \<Rightarrow> nat"
    and put :: "'s \<Rightarrow> 'k \<Rightarrow> 'v \<Rightarrow> (bool \<times> 's) option" and get :: "'s \<Rightarrow> 'k \<Rightarrow> (('k \<times> 'v) option \<times> 's) option"
    and remove :: "'s \<Rightarrow> 'k \<Rightarrow> (bool \<times> 's) option" and peek :: "'s \<Rightarrow> ('k \<times> 'v) option option"
    and make_eldest :: "'s \<Rightarrow> 'k \<Rightarrow> (bool \<times> 's) option" and count :: "'s \<Rightarrow> nat option"
  assumes keys_law: "rep s kvs \<Longrightarrow> distinct (map fst kvs) \<and> length kvs \<le> cap s"
    and put_law: "rep s kvs \<Longrightarrow> length kvs < cap s \<Longrightarrow> map_of kvs k = None \<Longrightarrow>
      \<exists>s'. put s k v = Some (True, s') \<and> rep s' ((k, v) # kvs) \<and> cap s' = cap s"
    and put_full_law: "rep s kvs \<Longrightarrow> length kvs = cap s \<Longrightarrow> put s k v = Some (False, s)"
    and put_present_law: "rep s kvs \<Longrightarrow> length kvs < cap s \<Longrightarrow> map_of kvs k \<noteq> None \<Longrightarrow> put s k v = None"
    and get_law: "rep s kvs \<Longrightarrow> \<exists>s'. get s k = Some (map_option (Pair k) (map_of kvs k), s') \<and> rep s' (touch k kvs) \<and> cap s' = cap s"
    and remove_law: "rep s kvs \<Longrightarrow> \<exists>s'. remove s k = Some (map_of kvs k \<noteq> None, s') \<and> rep s' (del_key k kvs) \<and> cap s' = cap s"
    and peek_law: "rep s kvs \<Longrightarrow> peek s = Some (if kvs = [] then None else Some (last kvs))"
    and make_eldest_law: "rep s kvs \<Longrightarrow> \<exists>s'. make_eldest s k = Some (map_of kvs k \<noteq> None, s') \<and> rep s' (retire k kvs) \<and> cap s' = cap s"
    and count_law: "rep s kvs \<Longrightarrow> count s = Some (length kvs)"
begin

text \<open>Make room for a new key by dropping the eldest binding, as the caches of the tunnel do.\<close>

lemma evict_put:
  assumes "rep s kvs" "length kvs = cap s" "kvs \<noteq> []" "map_of kvs k = None"
  shows "\<exists>s' s''. remove s (fst (last kvs)) = Some (True, s') \<and> put s' k v = Some (True, s'') \<and>
    rep s'' ((k, v) # butlast kvs) \<and> cap s'' = cap s"
proof -
  obtain kvs' kv where kvs: "kvs = kvs' @ [kv]" using assms(3) by (metis append_butlast_last_id)
  have d: "distinct (map fst kvs)" using keys_law [OF assms(1)] by blast
  then have "map_of kvs (fst kv) = Some (snd kv)" by (intro map_of_is_SomeI) (simp_all add: kvs)
  moreover have "\<forall>x \<in> set kvs'. fst x \<noteq> fst kv" using d by (auto simp: kvs intro: rev_image_eqI)
  then have "del_key (fst kv) kvs = kvs'" by (simp add: kvs del_key_def)
  ultimately obtain s' where s': "remove s (fst kv) = Some (True, s')" "rep s' kvs'" "cap s' = cap s"
    using remove_law [OF assms(1), of "fst kv"] by auto
  have "map_of kvs' k = None" using assms(4) by (auto simp: kvs map_add_def split: option.splits)
  moreover have "length kvs' < cap s'" using assms(2) s'(3) by (simp add: kvs)
  ultimately show ?thesis using put_law [OF s'(2)] s' by (auto simp: kvs)
qed

end

interpretation lm: lru_cache lru lm_capacity "lrumap_put mem" lrumap_get lrumap_remove lrumap_peek lrumap_make_eldest lrumap_size
  for mem
proof unfold_locales
  fix m :: "('a, 'b) lrumap_t" and kvs k v
  assume m: "lru m kvs"
  show "distinct (map fst kvs) \<and> length kvs \<le> lm_capacity m" using lru_keys [OF m] lru_size(2) [OF m] by blast
  show "\<exists>m'. lrumap_put mem m k v = Some (True, m') \<and> lru m' ((k, v) # kvs) \<and> lm_capacity m' = lm_capacity m"
    if "length kvs < lm_capacity m" "map_of kvs k = None" using lru_put [OF m that] .
  show "lrumap_put mem m k v = Some (False, m)" if "length kvs = lm_capacity m" using lru_put_full [OF m that] .
  show "lrumap_put mem m k v = None" if "length kvs < lm_capacity m" "map_of kvs k \<noteq> None" using lru_put_present [OF m that] .
  show "\<exists>m'. lrumap_get m k = Some (map_option (Pair k) (map_of kvs k), m') \<and> lru m' (touch k kvs) \<and> lm_capacity m' = lm_capacity m"
    using lru_get [OF m] .
  show "\<exists>m'. lrumap_remove m k = Some (map_of kvs k \<noteq> None, m') \<and> lru m' (del_key k kvs) \<and> lm_capacity m' = lm_capacity m"
    using lru_remove [OF m] .
  show "lrumap_peek m = Some (if kvs = [] then None else Some (last kvs))" using lru_peek [OF m] .
  show "\<exists>m'. lrumap_make_eldest m k = Some (map_of kvs k \<noteq> None, m') \<and> lru m' (retire k kvs) \<and> lm_capacity m' = lm_capacity m"
    using lru_make_eldest [OF m] .
  show "lrumap_size m = Some (length kvs)" using lru_size(1) [OF m] .
qed

definition lrumap_op ::
    "('k, nat) junk \<Rightarrow> ('k, 'v) lrumap_t \<Rightarrow> ('k, 'v) lru_op \<Rightarrow> (('k, 'v) lru_answer \<times> ('k, 'v) lrumap_t) option" where
  "lrumap_op mem m op = (case op of
       Lru_put k v \<Rightarrow> map_option (apfst Done) (lrumap_put mem m k v)
     | Lru_get k \<Rightarrow> map_option (apfst Pair_of) (lrumap_get m k)
     | Lru_remove k \<Rightarrow> map_option (apfst Done) (lrumap_remove m k)
     | Lru_peek \<Rightarrow> map_option (\<lambda>kv. (Pair_of kv, m)) (lrumap_peek m)
     | Lru_make_eldest k \<Rightarrow> map_option (apfst Done) (lrumap_make_eldest m k)
     | Lru_size \<Rightarrow> map_option (\<lambda>n. (Amount n, m)) (lrumap_size m))"

fun lrumap_run ::
    "('k, nat) junk \<Rightarrow> ('k, 'v) lrumap_t \<Rightarrow> ('k, 'v) lru_op list \<Rightarrow> (('k, 'v) lru_answer list \<times> ('k, 'v) lrumap_t) option" where
  "lrumap_run mem m [] = Some ([], m)"
| "lrumap_run mem m (op # ops) = do {
     (a, m) \<leftarrow> lrumap_op mem m op;
     (as, m) \<leftarrow> lrumap_run mem m ops;
     Some (a # as, m)
   }"

lemma lrumap_op_refines:
  assumes m: "lru m kvs"
  shows "case lru_ref_step (lm_capacity m) kvs op of None \<Rightarrow> lrumap_op mem m op = None
    | Some (a, kvs') \<Rightarrow> \<exists>m'. lrumap_op mem m op = Some (a, m') \<and> lru m' kvs' \<and> lm_capacity m' = lm_capacity m"
proof (cases op)
  case (Lru_put k v)
  consider "length kvs = lm_capacity m" | "length kvs < lm_capacity m" using lm.keys_law [OF m] by linarith
  then show ?thesis
  proof cases
    case 1
    then show ?thesis using lm.put_full_law [OF m 1] m Lru_put by (simp add: lru_ref_step_def lrumap_op_def)
  next
    case 2
    then show ?thesis using lm.put_law [OF m 2, of k mem v] lm.put_present_law [OF m 2, of k mem v] Lru_put
      by (cases "map_of kvs k") (auto simp: lru_ref_step_def lrumap_op_def)
  qed
next
  case (Lru_get k)
  then show ?thesis using lm.get_law [OF m, of k] by (auto simp: lru_ref_step_def lrumap_op_def)
next
  case (Lru_remove k)
  then show ?thesis using lm.remove_law [OF m, of k] by (auto simp: lru_ref_step_def lrumap_op_def)
next
  case Lru_peek
  then show ?thesis using lm.peek_law [OF m] m by (simp add: lru_ref_step_def lrumap_op_def)
next
  case (Lru_make_eldest k)
  then show ?thesis using lm.make_eldest_law [OF m, of k] by (auto simp: lru_ref_step_def lrumap_op_def)
next
  case Lru_size
  then show ?thesis using lm.count_law [OF m] m by (simp add: lru_ref_step_def lrumap_op_def)
qed

lemma lrumap_run_refines:
  "lru m kvs \<Longrightarrow> case lru_ref (lm_capacity m) kvs ops of None \<Rightarrow> lrumap_run mem m ops = None
    | Some (as, kvs') \<Rightarrow> \<exists>m'. lrumap_run mem m ops = Some (as, m') \<and> lru m' kvs'"
proof (induction ops arbitrary: m kvs)
  case (Cons op ops)
  note step = lrumap_op_refines [OF Cons.prems, where op = op and mem = mem]
  show ?case
  proof (cases "lru_ref_step (lm_capacity m) kvs op")
    case None
    then show ?thesis using step by simp
  next
    case (Some r)
    obtain a kvs' where r: "r = (a, kvs')" by fastforce
    then obtain m' where m': "lrumap_op mem m op = Some (a, m')" "lru m' kvs'" "lm_capacity m' = lm_capacity m"
      using step Some by auto
    show ?thesis using Cons.IH [OF m'(2)] m'(1,3) Some r by (auto split: option.splits)
  qed
qed auto

text \<open>
  C14. The map keeps least-recently-used order. From \<open>lrumap_init\<close>, every sequence of operations gives
  the answers of a list of at most \<open>capacity\<close> bindings ordered by use: a lookup moves a binding to the
  front, \<open>peek\<close> shows the one unused for longest, a full map refuses new bindings. It aborts exactly
  where the reference has no answer, when a present key is put into a map that has room.
\<close>

theorem lrumap_refines_lru:
  assumes "0 < factor" "factor \<le> 1" "1 \<le> of_nat cap * factor" "cap < 2 ^ 31"
  shows "\<exists>m. lrumap_init mem links kvs cap factor hash (=) = Some m \<and>
    map_option fst (lrumap_run mem m ops) = map_option fst (lru_ref cap [] ops)"
proof -
  obtain m where m: "lrumap_init mem links kvs cap factor hash (=) = Some m" "lru m []" "lm_capacity m = cap"
    using lru_init [OF assms] by blast
  then show ?thesis using lrumap_run_refines [OF m(2), where ops = ops and mem = mem] by (auto split: option.splits)
qed

theorem lrumap_refines_lru_witness:
  "\<exists>m. lrumap_init no_entry (\<lambda>_. \<lparr>prev = None, next = None\<rparr>) (\<lambda>_. (0, ''x'')) 2 (3 / 4) naive_hash_func (=) = Some m \<and>
    map_option fst (lrumap_run no_entry m [Lru_put 1 ''a'', Lru_put 2 ''b'', Lru_get 1, Lru_put 3 ''c'', Lru_peek, Lru_remove 2, Lru_put 1 ''d'']) =
    map_option fst (lru_ref 2 [] [Lru_put 1 ''a'', Lru_put 2 ''b'', Lru_get 1, Lru_put 3 ''c'', Lru_peek, Lru_remove 2, Lru_put 1 ''d''])"
  by (rule lrumap_refines_lru) simp_all

text \<open>The loop of a client over all bindings, eldest first.\<close>

fun lrumap_bindings :: "nat \<Rightarrow> ('k, 'v) lrumap_t \<Rightarrow> addr option \<Rightarrow> ('k \<times> 'v) list option" where
  "lrumap_bindings fuel m iter =
     (if iter = Some lrumap_end then Some []
      else case fuel of 0 \<Rightarrow> None
       | Suc fuel \<Rightarrow> do {
           iter \<leftarrow> iter;
           (iter, k, v) \<leftarrow> lrumap_next m iter;
           rest \<leftarrow> lrumap_bindings fuel m iter;
           Some ((k, v) # rest)
         })"

declare lrumap_bindings.simps [simp del]

lemma lrumap_bindings_prefix:
  "seg (lm_links m) Queue_head (map Entry q) a \<Longrightarrow> \<forall>i \<in> set q. i < length (lm_entries m) \<Longrightarrow>
    lrumap_bindings (length q) m (prev (lm_links m a)) = Some (rev (ents m q))"
proof (induction q arbitrary: a rule: rev_induct)
  case Nil
  then show ?case by (simp add: lrumap_bindings.simps lrumap_end_def queue_def)
next
  case (snoc i q)
  then have sg: "seg (lm_links m) Queue_head (map Entry q) (Entry i)" "prev (lm_links m a) = Some (Entry i)"
    by (auto simp: seg_append)
  have "lrumap_next m (Entry i) = Some (prev (lm_links m (Entry i)), fst (lm_entries m ! i), snd (lm_entries m ! i))"
    using snoc.prems(2) by (simp add: lrumap_next_def lrumap_entry_from_super_def rd_in split: prod.splits)
  then show ?case using snoc.IH [OF sg(1)] snoc.prems(2) sg(2)
    by (subst lrumap_bindings.simps) (simp add: lrumap_end_def queue_def)
qed

text \<open>
  Iteration goes through the bindings once, from the eldest to the most recently used, and ends
  at \<open>lrumap_end\<close>.
\<close>

theorem lrumap_iterates_eldest_first:
  assumes "lru m kvs"
  shows "lrumap_bindings (length kvs) m (lrumap_begin m) = Some (rev kvs)"
proof -
  obtain q p where q: "lm_rep m q p" "kvs = ents m q" using assms by (auto simp: lru_def)
  then have "seg (lm_links m) Queue_head (map Entry q) Queue_tail" "\<forall>i \<in> set q. i < length (lm_entries m)"
    by (auto simp: lm_rep_def dll_def queue_def)
  then show ?thesis using lrumap_bindings_prefix [of m q Queue_tail] q(2) by (simp add: lrumap_begin_def queue_def)
qed

theorem lrumap_iterates_eldest_first_witness:
  "\<exists>m :: (u64, nat) lrumap_t. lru m [(1, 10), (2, 20)] \<and> lrumap_bindings 2 m (lrumap_begin m) = Some [(2, 20), (1, 10)]"
proof -
  obtain m0 :: "(u64, nat) lrumap_t" where m0: "lru m0 []" "lm_capacity m0 = 4"
    using lru_init [of "3 / 4" 4 no_entry undefined undefined naive_hash_func] by auto
  obtain m1 :: "(u64, nat) lrumap_t" where m1: "lru m1 [(2, 20)]" "lm_capacity m1 = 4"
    using lm.put_law [OF m0(1), where k = 2 and v = 20] m0(2) by auto
  obtain m2 :: "(u64, nat) lrumap_t" where m2: "lru m2 [(1, 10), (2, 20)]"
    using lm.put_law [OF m1(1), where k = 1 and v = 10] m1(2) by auto
  show ?thesis using lrumap_iterates_eldest_first [OF m2] m2 by (auto simp: numeral_2_eq_2)
qed

end
