(* ===== verification/Nt_Proto.thy ===== *)
theory Nt_Proto
  imports C_Prelude
begin

unbundle bit_operations_syntax

text \<open>
  The packed headers on the wire: \<^verbatim>\<open>src/src/main/tunnel/nt_fec.h\<close> and \<^verbatim>\<open>nt_fec.c\<close> (error correction),
  \<^verbatim>\<open>nt_proto.c\<close> and \<^verbatim>\<open>nt_proto2.c\<close> (the two versions of the client protocol), and the client functions
  of \<^verbatim>\<open>nt_client.c\<close>. A header is a record of its fields; in memory it is the list of its bytes, each
  field in the order of a little-endian machine, without padding. A cast of a buffer to a header
  reads that many bytes; a buffer that is too short is a fault.
\<close>

section \<open>Bytes of machine words\<close>

definition bytes_of :: "nat \<Rightarrow> 'a::len word \<Rightarrow> u8 list" where
  "bytes_of n w = map (\<lambda>i. ucast (drop_bit (8 * i) w)) [0..<n]"

fun word_of_bytes :: "u8 list \<Rightarrow> 'a::len word" where
  "word_of_bytes [] = 0"
| "word_of_bytes (b # bs) = ucast b OR push_bit 8 (word_of_bytes bs)"

text \<open>The conversions between host and network byte order swap the bytes.\<close>

definition htonl :: "u32 \<Rightarrow> u32" where
  "htonl x = word_of_bytes (rev (bytes_of 4 x))"

definition ntohl :: "u32 \<Rightarrow> u32" where
  "ntohl x = word_of_bytes (rev (bytes_of 4 x))"

definition htons :: "u16 \<Rightarrow> u16" where
  "htons x = word_of_bytes (rev (bytes_of 2 x))"

definition ntohs :: "u16 \<Rightarrow> u16" where
  "ntohs x = word_of_bytes (rev (bytes_of 2 x))"

lemma length_bytes_of [simp]: "length (bytes_of n w) = n"
  by (simp add: bytes_of_def)

lemma bit_low_byte: "i < 8 \<Longrightarrow> bit (ucast (b :: u8) OR push_bit 8 (w :: 'a::len word)) i \<longleftrightarrow> i < LENGTH('a) \<and> bit b i"
  by (simp only: bit_or_iff bit_push_bit_iff bit_ucast_iff possible_bit_word) auto

lemma bit_high_byte:
  "bit (ucast (b :: u8) OR push_bit 8 (w :: 'a::len word)) (8 + k) \<longleftrightarrow> 8 + k < LENGTH('a) \<and> bit w k"
  using bit_imp_le_length [of b "8 + k"]
  by (simp only: bit_or_iff bit_push_bit_iff bit_ucast_iff possible_bit_word) auto

lemma bit_word_of_bytes:
  "bit (word_of_bytes bs :: 'a::len word) i \<longleftrightarrow> i < LENGTH('a) \<and> i div 8 < length bs \<and> bit (bs ! (i div 8)) (i mod 8)"
proof (induction bs arbitrary: i)
  case (Cons b bs)
  show ?case
  proof (cases "i < 8")
    case True
    then have i: "i div 8 = 0" "i mod 8 = i" by auto
    show ?thesis unfolding word_of_bytes.simps bit_low_byte [OF True] i by simp
  next
    case False
    then obtain k where k: "i = 8 + k" using le_Suc_ex [of 8 i] by auto
    have i: "(8 + k) div 8 = Suc (k div 8)" "(8 + k) mod 8 = k mod 8" by simp_all
    show ?thesis unfolding word_of_bytes.simps k bit_high_byte Cons.IH i by auto
  qed
qed simp

lemma word_of_bytes_of:
  fixes w :: "'a::len word"
  assumes "LENGTH('a) \<le> 8 * n"
  shows "word_of_bytes (bytes_of n w) = w"
proof (rule bit_eqI)
  fix i assume "possible_bit TYPE('a word) i"
  then have i: "i < LENGTH('a)" by (simp add: possible_bit_word)
  then have "i div 8 < n" using assms by linarith
  then show "bit (word_of_bytes (bytes_of n w) :: 'a word) i \<longleftrightarrow> bit w i"
    using i by (simp add: bit_word_of_bytes bytes_of_def bit_ucast_iff bit_drop_bit_eq)
qed

lemma bytes_of_word_of_bytes:
  assumes "8 * length bs \<le> LENGTH('a::len)"
  shows "bytes_of (length bs) (word_of_bytes bs :: 'a word) = bs"
proof (rule nth_equalityI)
  fix i assume "i < length (bytes_of (length bs) (word_of_bytes bs :: 'a word))"
  then have i: "i < length bs" by simp
  show "bytes_of (length bs) (word_of_bytes bs :: 'a word) ! i = bs ! i"
  proof (rule bit_eqI)
    fix j assume "possible_bit TYPE(u8) j"
    then have j: "j < 8" by (simp add: possible_bit_word)
    then have "8 * i + j < LENGTH('a)" using i assms by linarith
    moreover have "(8 * i + j) div 8 = i" "(8 * i + j) mod 8 = j" using j by auto
    ultimately show "bit (bytes_of (length bs) (word_of_bytes bs :: 'a word) ! i) j = bit (bs ! i) j"
      using i j by (simp add: bytes_of_def bit_ucast_iff bit_drop_bit_eq bit_word_of_bytes)
  qed
qed simp

lemma ntohl_htonl [simp]: "ntohl (htonl x) = x"
proof -
  have "bytes_of 4 (word_of_bytes (rev (bytes_of 4 x)) :: u32) = rev (bytes_of 4 x)"
    using bytes_of_word_of_bytes [where 'a = 32, of "rev (bytes_of 4 x)"] by simp
  then show ?thesis by (simp add: ntohl_def htonl_def word_of_bytes_of)
qed

lemma ntohs_htons [simp]: "ntohs (htons x) = x"
proof -
  have "bytes_of 2 (word_of_bytes (rev (bytes_of 2 x)) :: u16) = rev (bytes_of 2 x)"
    using bytes_of_word_of_bytes [where 'a = 16, of "rev (bytes_of 2 x)"] by simp
  then show ?thesis by (simp add: ntohs_def htons_def word_of_bytes_of)
qed

text \<open>In memory, a value in network order is its bytes from the most significant one on.\<close>

lemma bytes_of_htonl: "bytes_of 4 (htonl x) = rev (bytes_of 4 x)"
  using bytes_of_word_of_bytes [where 'a = 32, of "rev (bytes_of 4 x)"] by (simp add: htonl_def)

lemma bytes_of_htons: "bytes_of 2 (htons x) = rev (bytes_of 2 x)"
  using bytes_of_word_of_bytes [where 'a = 16, of "rev (bytes_of 2 x)"] by (simp add: htons_def)

definition field :: "nat \<Rightarrow> nat \<Rightarrow> u8 list \<Rightarrow> 'a::len word" where
  "field off n bs = word_of_bytes (take n (drop off bs))"

section \<open>The header of the error correction\<close>

record nt_fec_header_t =
  fh_tag :: u8
  fh_N :: u8
  fh_K :: u8
  fh_block_id_n :: u32
  fh_block_index :: u8
  fh_payload_size_n :: u16

definition NT_DUMMY_FEC_TAG :: u8 where "NT_DUMMY_FEC_TAG = 39"
definition NT_DUP_FEC_TAG :: u8 where "NT_DUP_FEC_TAG = 49"
definition NT_RS_FEC_TAG :: u8 where "NT_RS_FEC_TAG = 69"

text \<open>\<open>sizeof(nt_fec_header_t)\<close>, packed.\<close>

definition nt_fec_header_size :: nat where
  "nt_fec_header_size = 10"

definition nt_fec_header_bytes :: "nt_fec_header_t \<Rightarrow> u8 list" where
  "nt_fec_header_bytes h = [fh_tag h, fh_N h, fh_K h] @ bytes_of 4 (fh_block_id_n h) @ [fh_block_index h] @ bytes_of 2 (fh_payload_size_n h)"

definition nt_fec_header_at :: "u8 list \<Rightarrow> nt_fec_header_t option" where
  "nt_fec_header_at bs = do {
     ensure (nt_fec_header_size \<le> length bs);
     Some \<lparr>fh_tag = bs ! 0, fh_N = bs ! 1, fh_K = bs ! 2, fh_block_id_n = field 3 4 bs, fh_block_index = bs ! 7,
           fh_payload_size_n = field 8 2 bs\<rparr>
   }"

definition nt_fec_header_block_id :: "nt_fec_header_t \<Rightarrow> u32" where
  "nt_fec_header_block_id h = ntohl (fh_block_id_n h)"

definition nt_fec_header_set_block_id :: "nt_fec_header_t \<Rightarrow> u32 \<Rightarrow> nt_fec_header_t" where
  "nt_fec_header_set_block_id h block_id = h\<lparr>fh_block_id_n := htonl block_id\<rparr>"

definition nt_fec_header_payload_size :: "nt_fec_header_t \<Rightarrow> u16" where
  "nt_fec_header_payload_size h = ntohs (fh_payload_size_n h)"

definition nt_fec_message_size :: "nt_fec_header_t \<Rightarrow> nat" where
  "nt_fec_message_size h = nt_fec_header_size + unat (nt_fec_header_payload_size h)"

definition nt_fec_message_payload :: "u8 list \<Rightarrow> u8 list" where
  "nt_fec_message_payload bs = drop nt_fec_header_size bs"

definition nt_fec_header_init :: "u8 \<Rightarrow> u8 \<Rightarrow> u8 \<Rightarrow> u32 \<Rightarrow> u8 \<Rightarrow> u16 \<Rightarrow> nt_fec_header_t" where
  "nt_fec_header_init tag N K block_id block_index payload_size =
     nt_fec_header_set_block_id \<lparr>fh_tag = tag, fh_N = N, fh_K = K, fh_block_id_n = 0, fh_block_index = block_index,
       fh_payload_size_n = htons payload_size\<rparr> block_id"

lemma nt_fec_header_init_simps [simp]:
  "fh_tag (nt_fec_header_init t n k b i s) = t" "fh_N (nt_fec_header_init t n k b i s) = n"
  "fh_K (nt_fec_header_init t n k b i s) = k" "fh_block_index (nt_fec_header_init t n k b i s) = i"
  "nt_fec_header_block_id (nt_fec_header_init t n k b i s) = b"
  "nt_fec_header_payload_size (nt_fec_header_init t n k b i s) = s"
  by (simp_all add: nt_fec_header_init_def nt_fec_header_set_block_id_def nt_fec_header_block_id_def nt_fec_header_payload_size_def)

lemma length_nt_fec_header_bytes [simp]: "length (nt_fec_header_bytes h) = nt_fec_header_size"
  by (simp add: nt_fec_header_bytes_def nt_fec_header_size_def)

lemma nt_fec_header_at_bytes [simp]: "nt_fec_header_at (nt_fec_header_bytes h @ rest) = Some h"
  by (simp add: nt_fec_header_at_def nt_fec_header_bytes_def nt_fec_header_size_def field_def word_of_bytes_of nth_append)

text \<open>
  The header on the wire. The ten bytes that \<open>nt_fec_header_init\<close> leaves in memory are the tag, \<open>N\<close>,
  \<open>K\<close>, the block number most significant byte first, the index, and the size most significant byte
  first; reading a message that starts with them gives back every field, and the size of the message.
\<close>

theorem nt_fec_header_wire_format:
  "nt_fec_header_bytes (nt_fec_header_init tag N K block_id block_index payload_size) =
      [tag, N, K] @ rev (bytes_of 4 block_id) @ [block_index] @ rev (bytes_of 2 payload_size) \<and>
   (\<exists>h. nt_fec_header_at (nt_fec_header_bytes (nt_fec_header_init tag N K block_id block_index payload_size) @ payload) = Some h \<and>
      fh_tag h = tag \<and> fh_N h = N \<and> fh_K h = K \<and> nt_fec_header_block_id h = block_id \<and> fh_block_index h = block_index \<and>
      nt_fec_header_payload_size h = payload_size \<and> nt_fec_message_size h = 10 + unat payload_size) \<and>
   nt_fec_message_payload (nt_fec_header_bytes (nt_fec_header_init tag N K block_id block_index payload_size) @ payload) = payload"
  by (simp add: nt_fec_message_size_def nt_fec_message_payload_def)
    (simp add: nt_fec_header_bytes_def nt_fec_header_init_def nt_fec_header_set_block_id_def bytes_of_htonl bytes_of_htons nt_fec_header_size_def)

section \<open>The client protocol, version 2\<close>

record nt_api2_header_t =
  a2_tag :: u8
  a2_id_n :: u32
  a2_src_ip :: u32
  a2_src_port :: u16
  a2_dst_ip :: u32
  a2_dst_port :: u16
  a2_encrypt_type :: u8
  a2_ttl :: u8
  a2_payload_size_n :: u16
  a2_reserved :: "u8 list"

definition NT_API2_TAG :: u8 where "NT_API2_TAG = 89"
definition NT_ENCRYPT_TYPE_NONE :: u8 where "NT_ENCRYPT_TYPE_NONE = 0"
definition NT_ENCRYPT_TYPE_KC :: u8 where "NT_ENCRYPT_TYPE_KC = 1"
definition NT_ENCRYPT_TYPE_NUM :: u8 where "NT_ENCRYPT_TYPE_NUM = 2"

definition nt_api2_header_size :: nat where
  "nt_api2_header_size = 28"

definition nt_api2_header_bytes :: "nt_api2_header_t \<Rightarrow> u8 list" where
  "nt_api2_header_bytes h = [a2_tag h] @ bytes_of 4 (a2_id_n h) @ bytes_of 4 (a2_src_ip h) @ bytes_of 2 (a2_src_port h) @
     bytes_of 4 (a2_dst_ip h) @ bytes_of 2 (a2_dst_port h) @ [a2_encrypt_type h, a2_ttl h] @ bytes_of 2 (a2_payload_size_n h) @ a2_reserved h"

definition nt_api2_header_at :: "u8 list \<Rightarrow> nt_api2_header_t option" where
  "nt_api2_header_at bs = do {
     ensure (nt_api2_header_size \<le> length bs);
     Some \<lparr>a2_tag = bs ! 0, a2_id_n = field 1 4 bs, a2_src_ip = field 5 4 bs, a2_src_port = field 9 2 bs, a2_dst_ip = field 11 4 bs,
           a2_dst_port = field 15 2 bs, a2_encrypt_type = bs ! 17, a2_ttl = bs ! 18, a2_payload_size_n = field 19 2 bs,
           a2_reserved = take 7 (drop 21 bs)\<rparr>
   }"

definition nt_api2_header_init :: "u32 \<Rightarrow> u32 \<Rightarrow> u16 \<Rightarrow> u32 \<Rightarrow> u16 \<Rightarrow> u8 \<Rightarrow> u8 \<Rightarrow> u16 \<Rightarrow> nt_api2_header_t" where
  "nt_api2_header_init ident src_ip src_port dst_ip dst_port encrypt_type ttl payload_size =
     \<lparr>a2_tag = NT_API2_TAG, a2_id_n = htonl ident, a2_src_ip = src_ip, a2_src_port = src_port, a2_dst_ip = dst_ip, a2_dst_port = dst_port,
      a2_encrypt_type = encrypt_type, a2_ttl = ttl, a2_payload_size_n = htons payload_size, a2_reserved = replicate 7 0\<rparr>"

definition nt_api2_header_id :: "nt_api2_header_t \<Rightarrow> u32" where
  "nt_api2_header_id h = ntohl (a2_id_n h)"

definition nt_api2_header_payload_size :: "nt_api2_header_t \<Rightarrow> u16" where
  "nt_api2_header_payload_size h = ntohs (a2_payload_size_n h)"

definition nt_api2_header_set_payload_size :: "nt_api2_header_t \<Rightarrow> u16 \<Rightarrow> nt_api2_header_t" where
  "nt_api2_header_set_payload_size h payload_size = h\<lparr>a2_payload_size_n := htons payload_size\<rparr>"

text \<open>The argument is any buffer; only the tag is read when it is a different one.\<close>

definition nt_api2_header_is_valid :: "u8 list \<Rightarrow> bool option" where
  "nt_api2_header_is_valid bs = do {
     t \<leftarrow> rd bs 0;
     if t \<noteq> NT_API2_TAG then Some False
     else do { e \<leftarrow> rd bs 17; Some (NT_ENCRYPT_TYPE_NONE \<le> e \<and> e < NT_ENCRYPT_TYPE_NUM) }
   }"

definition nt_api2_message_size :: "nt_api2_header_t \<Rightarrow> nat" where
  "nt_api2_message_size h = nt_api2_header_size + unat (nt_api2_header_payload_size h)"

definition nt_api2_message_payload :: "u8 list \<Rightarrow> u8 list" where
  "nt_api2_message_payload bs = drop nt_api2_header_size bs"

section \<open>The client protocol, version 1\<close>

record nt_api_header_t =
  a1_tag :: u8
  a1_id_n :: u32
  a1_src_ip :: u32
  a1_src_port :: u16
  a1_dst_ip :: u32
  a1_dst_port :: u16
  a1_payload_size_n :: u16

definition NT_API_TAG :: u8 where "NT_API_TAG = 87"

definition nt_api_header_size :: nat where
  "nt_api_header_size = 19"

definition nt_api_header_bytes :: "nt_api_header_t \<Rightarrow> u8 list" where
  "nt_api_header_bytes h = [a1_tag h] @ bytes_of 4 (a1_id_n h) @ bytes_of 4 (a1_src_ip h) @ bytes_of 2 (a1_src_port h) @
     bytes_of 4 (a1_dst_ip h) @ bytes_of 2 (a1_dst_port h) @ bytes_of 2 (a1_payload_size_n h)"

definition nt_api_header_at :: "u8 list \<Rightarrow> nt_api_header_t option" where
  "nt_api_header_at bs = do {
     ensure (nt_api_header_size \<le> length bs);
     Some \<lparr>a1_tag = bs ! 0, a1_id_n = field 1 4 bs, a1_src_ip = field 5 4 bs, a1_src_port = field 9 2 bs, a1_dst_ip = field 11 4 bs,
           a1_dst_port = field 15 2 bs, a1_payload_size_n = field 17 2 bs\<rparr>
   }"

definition nt_api_header_init :: "u32 \<Rightarrow> u32 \<Rightarrow> u16 \<Rightarrow> u32 \<Rightarrow> u16 \<Rightarrow> u16 \<Rightarrow> nt_api_header_t" where
  "nt_api_header_init ident src_ip src_port dst_ip dst_port payload_size =
     \<lparr>a1_tag = NT_API_TAG, a1_id_n = htonl ident, a1_src_ip = src_ip, a1_src_port = src_port, a1_dst_ip = dst_ip, a1_dst_port = dst_port,
      a1_payload_size_n = htons payload_size\<rparr>"

definition nt_api_header_from :: "nt_api2_header_t \<Rightarrow> nt_api_header_t" where
  "nt_api_header_from from =
     \<lparr>a1_tag = NT_API_TAG, a1_id_n = a2_id_n from, a1_src_ip = a2_src_ip from, a1_src_port = a2_src_port from,
      a1_dst_ip = a2_dst_ip from, a1_dst_port = a2_dst_port from, a1_payload_size_n = a2_payload_size_n from\<rparr>"

definition nt_api_header_id :: "nt_api_header_t \<Rightarrow> u32" where
  "nt_api_header_id h = ntohl (a1_id_n h)"

definition nt_api_header_payload_size :: "nt_api_header_t \<Rightarrow> u16" where
  "nt_api_header_payload_size h = ntohs (a1_payload_size_n h)"

definition nt_api_header_is_valid :: "u8 list \<Rightarrow> bool option" where
  "nt_api_header_is_valid bs = do { t \<leftarrow> rd bs 0; Some (t = NT_API_TAG) }"

definition nt_api_message_size :: "nt_api_header_t \<Rightarrow> nat" where
  "nt_api_message_size h = nt_api_header_size + unat (nt_api_header_payload_size h)"

definition nt_api_message_payload :: "u8 list \<Rightarrow> u8 list" where
  "nt_api_message_payload bs = drop nt_api_header_size bs"

lemma length_nt_api_header_bytes [simp]: "length (nt_api_header_bytes h) = nt_api_header_size"
  by (simp add: nt_api_header_bytes_def nt_api_header_size_def)

lemma length_nt_api2_header_bytes: "length (a2_reserved h) = 7 \<Longrightarrow> length (nt_api2_header_bytes h) = nt_api2_header_size"
  by (simp add: nt_api2_header_bytes_def nt_api2_header_size_def)

lemma nt_api_header_at_bytes [simp]: "nt_api_header_at (nt_api_header_bytes h @ rest) = Some h"
  by (simp add: nt_api_header_at_def nt_api_header_bytes_def nt_api_header_size_def field_def word_of_bytes_of nth_append)

lemma nt_api2_header_at_bytes: "length (a2_reserved h) = 7 \<Longrightarrow> nt_api2_header_at (nt_api2_header_bytes h @ rest) = Some h"
  by (simp add: nt_api2_header_at_def nt_api2_header_bytes_def nt_api2_header_size_def field_def word_of_bytes_of nth_append)

lemma header_lengths: "nt_api_header_size = 19" "nt_api2_header_size = 28" "nt_fec_header_size = 10"
  by (simp_all add: nt_api_header_size_def nt_api2_header_size_def nt_fec_header_size_def)

lemma nt_api_is_valid_bytes [simp]:
  "nt_api_header_is_valid (nt_api_header_bytes h @ rest) = Some (a1_tag h = NT_API_TAG)"
  "nt_api_header_is_valid (nt_api2_header_bytes h2 @ rest) = Some (a2_tag h2 = NT_API_TAG)"
  by (simp_all add: nt_api_header_is_valid_def nt_api_header_bytes_def nt_api2_header_bytes_def rd_def)

lemma nt_api2_is_valid_bytes [simp]:
  "nt_api2_header_is_valid (nt_api2_header_bytes h @ rest) =
    Some (a2_tag h = NT_API2_TAG \<and> a2_encrypt_type h < NT_ENCRYPT_TYPE_NUM)"
  by (simp add: nt_api2_header_is_valid_def nt_api2_header_bytes_def rd_def nth_append NT_ENCRYPT_TYPE_NONE_def)

lemma nt_api_init_simps [simp]:
  "a1_tag (nt_api_header_init i sa sp da dp n) = NT_API_TAG" "a1_src_ip (nt_api_header_init i sa sp da dp n) = sa"
  "a1_src_port (nt_api_header_init i sa sp da dp n) = sp" "a1_dst_ip (nt_api_header_init i sa sp da dp n) = da"
  "a1_dst_port (nt_api_header_init i sa sp da dp n) = dp" "nt_api_header_id (nt_api_header_init i sa sp da dp n) = i"
  "nt_api_header_payload_size (nt_api_header_init i sa sp da dp n) = n"
  "nt_api_message_size (nt_api_header_init i sa sp da dp n) = 19 + unat n"
  by (simp_all add: nt_api_header_init_def nt_api_header_id_def nt_api_header_payload_size_def nt_api_message_size_def nt_api_header_size_def)

lemma nt_api2_init_simps [simp]:
  "a2_tag (nt_api2_header_init i sa sp da dp e t n) = NT_API2_TAG" "a2_src_ip (nt_api2_header_init i sa sp da dp e t n) = sa"
  "a2_src_port (nt_api2_header_init i sa sp da dp e t n) = sp" "a2_dst_ip (nt_api2_header_init i sa sp da dp e t n) = da"
  "a2_dst_port (nt_api2_header_init i sa sp da dp e t n) = dp" "nt_api2_header_id (nt_api2_header_init i sa sp da dp e t n) = i"
  "a2_encrypt_type (nt_api2_header_init i sa sp da dp e t n) = e" "a2_ttl (nt_api2_header_init i sa sp da dp e t n) = t"
  "nt_api2_header_payload_size (nt_api2_header_init i sa sp da dp e t n) = n"
  "nt_api2_message_size (nt_api2_header_init i sa sp da dp e t n) = 28 + unat n"
  "length (a2_reserved (nt_api2_header_init i sa sp da dp e t n)) = 7"
  by (simp_all add: nt_api2_header_init_def nt_api2_header_id_def nt_api2_header_payload_size_def nt_api2_message_size_def nt_api2_header_size_def)

lemma nt_api_header_from_simps [simp]:
  "nt_api_header_id (nt_api_header_from h) = nt_api2_header_id h"
  "nt_api_header_payload_size (nt_api_header_from h) = nt_api2_header_payload_size h"
  "a1_tag (nt_api_header_from h) = NT_API_TAG" "a1_src_ip (nt_api_header_from h) = a2_src_ip h"
  "a1_src_port (nt_api_header_from h) = a2_src_port h" "a1_dst_ip (nt_api_header_from h) = a2_dst_ip h"
  "a1_dst_port (nt_api_header_from h) = a2_dst_port h"
  by (simp_all add: nt_api_header_from_def nt_api_header_id_def nt_api2_header_id_def nt_api_header_payload_size_def
      nt_api2_header_payload_size_def)

text \<open>
  A message of version 2 and its translation to version 1. The header built by
  \<open>nt_api2_header_init\<close> is 28 bytes long, passes the validity check of version 2 for the two defined
  kinds of encryption and not that of version 1, and is read back unchanged; \<open>nt_api_header_from\<close>
  turns it into a header of 19 bytes that only version 1 accepts, with the same number, addresses, ports and size.
\<close>

theorem nt_api2_translates:
  assumes h: "h = nt_api2_header_init ident src_ip src_port dst_ip dst_port e ttl psize" and e: "e < NT_ENCRYPT_TYPE_NUM"
    and h1: "h1 = nt_api_header_from h"
  shows "length (nt_api2_header_bytes h) = 28 \<and> nt_api2_header_is_valid (nt_api2_header_bytes h @ payload) = Some True \<and>
    nt_api_header_is_valid (nt_api2_header_bytes h @ payload) = Some False \<and>
    nt_api2_header_at (nt_api2_header_bytes h @ payload) = Some h \<and>
    length (nt_api_header_bytes h1) = 19 \<and> nt_api_header_is_valid (nt_api_header_bytes h1 @ payload) = Some True \<and>
    nt_api2_header_is_valid (nt_api_header_bytes h1 @ payload) = Some False \<and>
    nt_api_header_at (nt_api_header_bytes h1 @ payload) = Some h1 \<and>
    nt_api_header_id h1 = ident \<and> a1_src_ip h1 = src_ip \<and> a1_src_port h1 = src_port \<and> a1_dst_ip h1 = dst_ip \<and>
    a1_dst_port h1 = dst_port \<and> nt_api_message_size h1 = 19 + unat psize"
proof -
  have "NT_API2_TAG \<noteq> NT_API_TAG" by (simp add: NT_API2_TAG_def NT_API_TAG_def)
  moreover have "nt_api2_header_is_valid (nt_api_header_bytes h1 @ payload) = Some False"
    by (simp add: h1 nt_api2_header_is_valid_def nt_api_header_bytes_def rd_def NT_API2_TAG_def NT_API_TAG_def)
  moreover have "nt_api2_header_at (nt_api2_header_bytes h @ payload) = Some h" by (rule nt_api2_header_at_bytes) (simp add: h)
  ultimately show ?thesis
    using e by (simp add: h h1 length_nt_api2_header_bytes header_lengths nt_api_message_size_def)
qed

theorem nt_api2_translates_witness:
  "length (nt_api2_header_bytes (nt_api2_header_init 7 1 2 3 4 NT_ENCRYPT_TYPE_KC 8 5)) = 28 \<and>
   nt_api_message_size (nt_api_header_from (nt_api2_header_init 7 1 2 3 4 NT_ENCRYPT_TYPE_KC 8 5)) = 19 + unat (5 :: u16)"
proof -
  have "NT_ENCRYPT_TYPE_KC < NT_ENCRYPT_TYPE_NUM" by (simp add: NT_ENCRYPT_TYPE_KC_def NT_ENCRYPT_TYPE_NUM_def)
  from nt_api2_translates [OF refl this refl, of 7 1 2 3 4 8 5 "[]"] show ?thesis by blast
qed

end
