(* ===== verification/Nt_Fec.thy ===== *)
theory Nt_Fec
  imports Lrumap Nt_Proto
begin

text \<open>
  The interface of the codecs, \<^verbatim>\<open>src/src/main/tunnel/nt_fec.h\<close>, the codec that does nothing,
  \<^verbatim>\<open>nt_fec.c\<close>, and the one that sends every message \<open>N\<close> times and drops the duplicates,
  \<^verbatim>\<open>nt_dup_fec.c\<close>; the generator of block numbers from \<^verbatim>\<open>src/src/main/utils/utils.h\<close>. The callbacks of
  a codec belong to its user: functions on a world \<open>'w\<close> that return an error number.
\<close>

section \<open>The interface\<close>

definition E_FEC_INTERNAL_ERROR :: int where "E_FEC_INTERNAL_ERROR = 100001"
definition E_FEC_INVALID_HEADER :: int where "E_FEC_INVALID_HEADER = 100002"
definition E_FEC_DECODER_BUFFER_FULL :: int where "E_FEC_DECODER_BUFFER_FULL = 100003"

type_synonym 'w nt_fec_on_encode_t = "nt_fec_header_t \<Rightarrow> u8 list \<Rightarrow> int \<Rightarrow> 'w \<Rightarrow> (int \<times> 'w) option"
type_synonym 'w nt_fec_on_decode_t = "u8 list \<Rightarrow> int \<Rightarrow> 'w \<Rightarrow> (int \<times> 'w) option"

text \<open>The two functions of a codec with the state \<open>'s\<close>; \<open>int\<close> is the time of the call.\<close>

record ('s, 'w) nt_fec_t =
  encode :: "'s \<Rightarrow> u8 list \<Rightarrow> int \<Rightarrow> 'w nt_fec_on_encode_t \<Rightarrow> 'w \<Rightarrow> (int \<times> 's \<times> 'w) option"
  decode :: "int \<Rightarrow> 's \<Rightarrow> nt_fec_header_t \<Rightarrow> u8 list \<Rightarrow> int \<Rightarrow> 'w nt_fec_on_decode_t \<Rightarrow> 'w \<Rightarrow> (int \<times> 's \<times> 'w) option"

definition nt_fec_init where
  "nt_fec_init enc dec = \<lparr>encode = enc, decode = dec\<rparr>"

definition nt_fec_encode :: "('s, 'w) nt_fec_t \<Rightarrow> 's \<Rightarrow> u8 list \<Rightarrow> int \<Rightarrow> 'w nt_fec_on_encode_t \<Rightarrow> 'w \<Rightarrow> (int \<times> 's \<times> 'w) option" where
  "nt_fec_encode fec s input sz cb w = encode fec s input sz cb w"

definition nt_fec_decode ::
    "('s, 'w) nt_fec_t \<Rightarrow> int \<Rightarrow> 's \<Rightarrow> nt_fec_header_t \<Rightarrow> u8 list \<Rightarrow> int \<Rightarrow> 'w nt_fec_on_decode_t \<Rightarrow> 'w \<Rightarrow> (int \<times> 's \<times> 'w) option" where
  "nt_fec_decode fec now s header input sz cb w = decode fec now s header input sz cb w"

section \<open>The codec that does nothing\<close>

definition nt_dummy_fec_encode :: "'s \<Rightarrow> u8 list \<Rightarrow> int \<Rightarrow> 'w nt_fec_on_encode_t \<Rightarrow> 'w \<Rightarrow> (int \<times> 's \<times> 'w) option" where
  "nt_dummy_fec_encode s input sz cb w = do {
     let header = nt_fec_header_init NT_DUMMY_FEC_TAG 0 0 0 0 (word_of_int sz);
     (err, w) \<leftarrow> cb header input sz w;
     Some (err, s, w)
   }"

definition nt_dummy_fec_decode ::
    "int \<Rightarrow> 's \<Rightarrow> nt_fec_header_t \<Rightarrow> u8 list \<Rightarrow> int \<Rightarrow> 'w nt_fec_on_decode_t \<Rightarrow> 'w \<Rightarrow> (int \<times> 's \<times> 'w) option" where
  "nt_dummy_fec_decode now s header input sz cb w =
     (if fh_tag header \<noteq> NT_DUMMY_FEC_TAG \<or> fh_N header \<noteq> 0 \<or> fh_K header \<noteq> 0 then Some (E_FEC_INVALID_HEADER, s, w)
      else do { (err, w) \<leftarrow> cb input sz w; Some (err, s, w) })"

definition nt_dummy_fec_init :: "('s, 'w) nt_fec_t" where
  "nt_dummy_fec_init = nt_fec_init nt_dummy_fec_encode nt_dummy_fec_decode"

section \<open>Block numbers\<close>

record idgen_t =
  idgen_id :: u32

definition idgen_init :: "u32 \<Rightarrow> idgen_t" where
  "idgen_init initial = \<lparr>idgen_id = initial\<rparr>"

definition idgen_next :: "idgen_t \<Rightarrow> u32 \<times> idgen_t" where
  "idgen_next g = (idgen_id g, g\<lparr>idgen_id := idgen_id g + 1\<rparr>)"

section \<open>The codec that duplicates\<close>

text \<open>A key of the cache is a block number as a pointer, a value the time at which it was seen.\<close>

record nt_dup_fec_t =
  dup_N :: u8
  dup_idgen :: idgen_t
  dedup_cache :: "(u64, int) lrumap_t"
  dedup_timeout :: int

definition nt_dup_fec_encode :: "nt_dup_fec_t \<Rightarrow> u8 list \<Rightarrow> int \<Rightarrow> 'w nt_fec_on_encode_t \<Rightarrow> 'w \<Rightarrow> (int \<times> nt_dup_fec_t \<times> 'w) option" where
  "nt_dup_fec_encode fec input sz cb w = do {
     let (block_id, g) = idgen_next (dup_idgen fec);
     let fec = fec\<lparr>dup_idgen := g\<rparr>;
     (err, w) \<leftarrow> for_up 0 (unat (dup_N fec)) (\<lambda>i (err, w).
         if err \<noteq> 0 then Some (err, w)
         else cb (nt_fec_header_init NT_DUP_FEC_TAG (dup_N fec) 1 block_id (of_nat i) (word_of_int sz)) input sz w) (0, w);
     Some (err, fec, w)
   }"

text \<open>The cache decides whether a block was seen; \<open>mem\<close> is the memory of a growing hash table.\<close>

definition dedup ::
    "(u64, nat) junk \<Rightarrow> int \<Rightarrow> int \<Rightarrow> (u64, int) lrumap_t \<Rightarrow> u64 \<Rightarrow> (bool \<times> (u64, int) lrumap_t) option" where
  "dedup mem current timeout cache key =
     (if lrumap_capacity cache > 0 then do {
        (kv, cache) \<leftarrow> lrumap_get cache key;
        (seen, cache) \<leftarrow> (case kv of
            Some (k, v) \<Rightarrow>
              if current - v > timeout then do {
                (ok, cache) \<leftarrow> lrumap_remove cache key;
                ensure ok;
                Some (False, cache)
              } else Some (True, cache)
          | None \<Rightarrow> do {
              size \<leftarrow> lrumap_size cache;
              if size = lrumap_capacity cache then do {
                kv \<leftarrow> lrumap_peek cache;
                ensure (kv \<noteq> None);
                (k, v) \<leftarrow> kv;
                (ok, cache) \<leftarrow> lrumap_remove cache k;
                ensure ok;
                Some (False, cache)
              } else Some (False, cache)
            });
        if seen then Some (True, cache)
        else do {
          (ok, cache) \<leftarrow> lrumap_put mem cache key current;
          ensure ok;
          Some (False, cache)
        }
      } else Some (False, cache))"

definition nt_dup_fec_decode ::
    "(u64, nat) junk \<Rightarrow> int \<Rightarrow> nt_dup_fec_t \<Rightarrow> nt_fec_header_t \<Rightarrow> u8 list \<Rightarrow> int \<Rightarrow> 'w nt_fec_on_decode_t \<Rightarrow> 'w \<Rightarrow>
     (int \<times> nt_dup_fec_t \<times> 'w) option" where
  "nt_dup_fec_decode mem now fec header input sz cb w =
     (if fh_tag header \<noteq> NT_DUP_FEC_TAG \<or> fh_K header \<noteq> 1 then Some (E_FEC_INVALID_HEADER, fec, w)
      else do {
        let block_id = nt_fec_header_block_id header;
        (seen, cache) \<leftarrow> dedup mem now (dedup_timeout fec) (dedup_cache fec) (ucast block_id);
        let fec = fec\<lparr>dedup_cache := cache\<rparr>;
        if seen then Some (0, fec, w)
        else do { (err, w) \<leftarrow> cb input sz w; Some (err, fec, w) }
      })"

definition nt_dup_fec_init ::
    "(u64, nat) junk \<Rightarrow> addr links \<Rightarrow> (nat \<Rightarrow> u64 \<times> int) \<Rightarrow> u8 \<Rightarrow> nat \<Rightarrow> int \<Rightarrow> idgen_t \<Rightarrow> nt_dup_fec_t option" where
  "nt_dup_fec_init mem links kvs N dedup_cache_size timeout g = do {
     cache \<leftarrow> lrumap_init1 mem links kvs dedup_cache_size naive_hash_func naive_equal_func;
     Some \<lparr>dup_N = N, dup_idgen = g, dedup_cache = cache, dedup_timeout = timeout\<rparr>
   }"

text \<open>The functions that \<open>nt_dup_fec_init\<close> puts into the interface.\<close>

definition nt_dup_fec_super :: "(u64, nat) junk \<Rightarrow> (nt_dup_fec_t, 'w) nt_fec_t" where
  "nt_dup_fec_super mem = nt_fec_init nt_dup_fec_encode (nt_dup_fec_decode mem)"

section \<open>Deduplication\<close>

text \<open>The same decision on the list of bindings.\<close>

definition dedup_ref :: "nat \<Rightarrow> int \<Rightarrow> int \<Rightarrow> ('k \<times> int) list \<Rightarrow> 'k \<Rightarrow> bool \<times> ('k \<times> int) list" where
  "dedup_ref cap current timeout kvs key =
     (case map_of kvs key of
        Some v \<Rightarrow> if current - v > timeout then (False, (key, current) # del_key key kvs) else (True, touch key kvs)
      | None \<Rightarrow> (False, (key, current) # (if length kvs = cap then butlast kvs else kvs)))"

lemma del_key_touch: "distinct (map fst kvs) \<Longrightarrow> del_key k (touch k kvs) = del_key k kvs"
  by (auto simp: touch_def del_key_def split: option.splits)

lemma map_of_touch: "map_of (touch k kvs) k = map_of kvs k"
  by (auto simp: touch_def split: option.splits)

lemma length_del_key_less: "map_of kvs k = Some v \<Longrightarrow> length (del_key k kvs) < length kvs"
  unfolding del_key_def by (intro length_filter_less [of "(k, v)"]) (auto dest: map_of_SomeD)

lemma dedup_refines:
  assumes m: "lru m kvs" and cap: "0 < lm_capacity m"
  shows "\<exists>m'. dedup mem current timeout m key = Some (fst (dedup_ref (lm_capacity m) current timeout kvs key), m') \<and>
    lru m' (snd (dedup_ref (lm_capacity m) current timeout kvs key)) \<and> lm_capacity m' = lm_capacity m"
proof -
  obtain m1 where m1: "lrumap_get m key = Some (map_option (Pair key) (map_of kvs key), m1)" "lru m1 (touch key kvs)"
    "lm_capacity m1 = lm_capacity m" using lm.get_law [OF m] by blast
  note keys = lm.keys_law [OF m]
  show ?thesis
  proof (cases "map_of kvs key")
    case None
    then have t: "lru m1 kvs" using m1(2) by (simp add: touch_def)
    show ?thesis
    proof (cases "length kvs = lm_capacity m")
      case True
      then have ne: "kvs \<noteq> []" using cap by auto
      obtain m2 m3 where "lrumap_remove m1 (fst (last kvs)) = Some (True, m2)" "lrumap_put mem m2 key current = Some (True, m3)"
        "lru m3 ((key, current) # butlast kvs)" "lm_capacity m3 = lm_capacity m1"
        using lm.evict_put [OF t _ ne None, where mem = mem and v = current] True m1(3) by auto
      moreover have "last kvs = (fst (last kvs), snd (last kvs))" by simp
      ultimately show ?thesis
        using None True ne m1 cap lm.count_law [OF t] lm.peek_law [OF t]
        by (simp add: dedup_def dedup_ref_def lrumap_capacity_def split: prod.splits) auto
    next
      case False
      then have "length kvs < lm_capacity m1" using keys m1(3) by simp
      then obtain m2 where "lrumap_put mem m1 key current = Some (True, m2)" "lru m2 ((key, current) # kvs)" "lm_capacity m2 = lm_capacity m1"
        using lm.put_law [OF t _ None, where mem = mem and v = current] by blast
      then show ?thesis using None False m1 cap lm.count_law [OF t] by (simp add: dedup_def dedup_ref_def lrumap_capacity_def)
    qed
  next
    case (Some v)
    show ?thesis
    proof (cases "current - v > timeout")
      case True
      obtain m2 where m2: "lrumap_remove m1 key = Some (True, m2)" "lru m2 (del_key key kvs)" "lm_capacity m2 = lm_capacity m"
        using lm.remove_law [OF m1(2), where k = key] Some m1(3) keys by (auto simp: map_of_touch del_key_touch)
      have "length (del_key key kvs) < lm_capacity m2" using length_del_key_less [OF Some] keys m2(3) by simp
      moreover have "map_of (del_key key kvs) key = None" by (simp add: map_of_del_key)
      ultimately obtain m3 where "lrumap_put mem m2 key current = Some (True, m3)" "lru m3 ((key, current) # del_key key kvs)"
        "lm_capacity m3 = lm_capacity m2" using lm.put_law [OF m2(2), where mem = mem and v = current] by blast
      then show ?thesis using Some True m1 m2 cap by (simp add: dedup_def dedup_ref_def lrumap_capacity_def)
    next
      case False
      then show ?thesis using Some m1 cap by (auto simp: dedup_def dedup_ref_def lrumap_capacity_def)
    qed
  qed
qed

section \<open>Sending and receiving with duplicates\<close>

type_synonym packet = "nt_fec_header_t \<times> u8 list"

text \<open>Callbacks that write down the packets sent and the messages delivered.\<close>

definition collect :: "packet list nt_fec_on_encode_t" where
  "collect h p sz w = Some (0, w @ [(h, take (nat sz) p)])"

definition deliver :: "u8 list list nt_fec_on_decode_t" where
  "deliver p sz w = Some (0, w @ [take (nat sz) p])"

fun dup_send :: "nt_dup_fec_t \<Rightarrow> u8 list list \<Rightarrow> packet list \<Rightarrow> packet list option" where
  "dup_send fec [] w = Some w"
| "dup_send fec (m # ms) w = do {
     (err, fec, w) \<leftarrow> nt_dup_fec_encode fec m (int (length m)) collect w;
     ensure (err = 0);
     dup_send fec ms w
   }"

fun dup_receive :: "(u64, nat) junk \<Rightarrow> nt_dup_fec_t \<Rightarrow> (int \<times> packet) list \<Rightarrow> u8 list list \<Rightarrow> u8 list list option" where
  "dup_receive mem fec [] w = Some w"
| "dup_receive mem fec ((now, h, p) # rs) w = do {
     (err, fec, w) \<leftarrow> nt_dup_fec_decode mem now fec h p (uint (nt_fec_header_payload_size h)) deliver w;
     ensure (err = 0);
     dup_receive mem fec rs w
   }"

text \<open>The payload of the first packet of each block, in the order of arrival.\<close>

fun firsts :: "u32 set \<Rightarrow> packet list \<Rightarrow> u8 list list" where
  "firsts seen [] = []"
| "firsts seen ((h, p) # ps) =
     (if nt_fec_header_block_id h \<in> seen then firsts seen ps
      else p # firsts (insert (nt_fec_header_block_id h) seen) ps)"

lemma dup_encode_copies:
  "nt_dup_fec_encode fec m sz collect w =
     Some (0, fec\<lparr>dup_idgen := snd (idgen_next (dup_idgen fec))\<rparr>, w @ map (\<lambda>i. (nt_fec_header_init NT_DUP_FEC_TAG (dup_N fec) 1
       (idgen_id (dup_idgen fec)) (of_nat i) (word_of_int sz), take (nat sz) m)) [0..<unat (dup_N fec)])"
proof -
  let ?h = "\<lambda>i. nt_fec_header_init NT_DUP_FEC_TAG (dup_N fec) 1 (idgen_id (dup_idgen fec)) (of_nat i) (word_of_int sz)"
  let ?f = "\<lambda>i (err, w). if err \<noteq> 0 then Some (err, w) else collect (?h i) m sz w"
  have "\<exists>s. for_up 0 (unat (dup_N fec)) ?f (0, w) = Some s \<and> s = (0, w @ map (\<lambda>i. (?h i, take (nat sz) m)) [0..<unat (dup_N fec)])"
    by (rule for_up_rule [where P = "\<lambda>n s. s = (0, w @ map (\<lambda>i. (?h i, take (nat sz) m)) [0..<n])"]) (auto simp: collect_def)
  then show ?thesis by (simp add: nt_dup_fec_encode_def idgen_next_def Let_def cong: if_cong)
qed

text \<open>The copies of one message, and all the packets that are sent: the blocks of the messages have successive numbers.\<close>

definition copies :: "u8 \<Rightarrow> u32 \<Rightarrow> u8 list \<Rightarrow> packet list" where
  "copies N b m = map (\<lambda>j. (nt_fec_header_init NT_DUP_FEC_TAG N 1 b (of_nat j) (of_nat (length m)), m)) [0..<unat N]"

definition all_copies :: "u8 \<Rightarrow> u32 \<Rightarrow> u8 list list \<Rightarrow> packet list" where
  "all_copies N b ms = concat (map (\<lambda>i. copies N (b + of_nat i) (ms ! i)) [0..<length ms])"

lemma all_copies_Cons: "all_copies N b (m # ms) = copies N b m @ all_copies N (b + 1) ms"
  by (simp add: all_copies_def map_upt_Suc add.assoc del: upt_Suc)

lemma dup_send_copies: "dup_send fec ms w = Some (w @ all_copies (dup_N fec) (idgen_id (dup_idgen fec)) ms)"
proof (induction ms arbitrary: fec w)
  case (Cons m ms)
  then show ?case by (simp add: dup_encode_copies all_copies_Cons copies_def idgen_next_def)
qed (simp add: all_copies_def)

lemma nth_concat_blocks:
  "(\<And>i. i < n \<Longrightarrow> length (f i) = k) \<Longrightarrow> i < n \<Longrightarrow> j < k \<Longrightarrow> concat (map f [0..<n]) ! (i * k + j) = f i ! j"
proof (induction n)
  case (Suc n)
  have len: "length (concat (map f [0..<n])) = n * k"
    using Suc.prems(1) by (simp add: length_concat comp_def interv_sum_list_conv_sum_set_nat)
  show ?case
  proof (cases "i = n")
    case False
    then have "Suc i * k \<le> n * k" using Suc.prems(2) by (intro mult_le_mono1) simp
    then have "i * k + j < n * k" using Suc.prems(3) by simp
    then show ?thesis using Suc False len by (simp add: nth_append)
  qed (simp add: nth_append len)
qed simp

lemma all_copies_nth:
  "i < length ms \<Longrightarrow> j < unat N \<Longrightarrow> all_copies N b ms ! (i * unat N + j) =
    (nt_fec_header_init NT_DUP_FEC_TAG N 1 (b + of_nat i) (of_nat j) (of_nat (length (ms ! i))), ms ! i)"
  unfolding all_copies_def by (subst nth_concat_blocks [where k = "unat N"]) (simp_all add: copies_def)

text \<open>Each element once, at the place of its first occurrence.\<close>

definition first_arrivals :: "'a list \<Rightarrow> 'a list" where
  "first_arrivals xs = rev (remdups (rev xs))"

lemma first_arrivals_Cons: "first_arrivals (x # xs) = x # filter (\<lambda>y. y \<noteq> x) (first_arrivals xs)"
proof -
  have "remdups (ys @ [x]) = filter (\<lambda>y. y \<noteq> x) (remdups ys) @ [x]" for ys by (induction ys) auto
  then show ?thesis by (simp add: first_arrivals_def rev_filter)
qed

lemma firsts_arrivals:
  assumes "inj_on b A" "\<And>i j. nt_fec_header_block_id (h i j) = b i"
  shows "set (map fst ps) \<subseteq> A \<Longrightarrow> S \<subseteq> A \<Longrightarrow>
    firsts (b ` S) (map (\<lambda>(i, j). (h i j, ms ! i)) ps) = map ((!) ms) (filter (\<lambda>i. i \<notin> S) (first_arrivals (map fst ps)))"
proof (induction ps arbitrary: S)
  case (Cons p ps)
  obtain i j where p: "p = (i, j)" by force
  have "b i \<in> b ` S \<longleftrightarrow> i \<in> S" using Cons.prems by (intro inj_on_image_mem_iff [OF assms(1)]) (auto simp: p)
  moreover have "insert (b i) (b ` S) = b ` insert i S" by simp
  moreover have "filter (\<lambda>k. k \<noteq> i \<and> k \<notin> S) xs = filter (\<lambda>k. k \<notin> insert i S) xs" for xs by (rule filter_cong) auto
  moreover have "i \<in> S \<Longrightarrow> filter (\<lambda>k. k \<noteq> i \<and> k \<notin> S) xs = filter (\<lambda>k. k \<notin> S) xs" for xs by (rule filter_cong) auto
  ultimately show ?case using Cons.IH [of S] Cons.IH [of "insert i S"] Cons.prems by (simp add: p assms(2) first_arrivals_Cons conj_commute)
qed (simp add: first_arrivals_def)

lemma block_numbers_inj: "n \<le> 2 ^ 32 \<Longrightarrow> inj_on (\<lambda>i. (b :: u32) + of_nat i) {..<n}"
  by (rule inj_onI) (auto simp: word_of_nat_eq_iff take_bit_nat_eq_self)

lemma ucast_block_inj: "(ucast (x :: u32) :: u64) = ucast y \<longleftrightarrow> x = y"
proof
  have low: "take_bit 64 (unat z) = unat z" for z :: u32
    by (rule take_bit_nat_eq_self) (use unsigned_less [of z] in \<open>auto intro: less_trans\<close>)
  assume "(ucast x :: u64) = ucast y"
  then have "unat (ucast x :: u64) = unat (ucast y :: u64)" by simp
  then show "x = y" by (simp add: unsigned_ucast_eq word_unat_eq_iff low)
qed simp

text \<open>While no entry expires and the cache is not exceeded, a block is seen exactly if it is in the cache.\<close>

lemma dup_receive_firsts:
  assumes "lru (dedup_cache fec) kvs" "0 < lm_capacity (dedup_cache fec)"
    and "fst ` set kvs = ucast ` seen" "\<forall>(k, t) \<in> set kvs. \<forall>(now, q) \<in> set rs. now - t \<le> dedup_timeout fec"
    and "\<forall>(now, q) \<in> set rs. \<forall>(now', q') \<in> set rs. now - now' \<le> dedup_timeout fec"
    and "\<forall>(now, h, p) \<in> set rs. fh_tag h = NT_DUP_FEC_TAG \<and> fh_K h = 1 \<and> unat (nt_fec_header_payload_size h) = length p"
    and "card (seen \<union> (nt_fec_header_block_id \<circ> fst \<circ> snd) ` set rs) \<le> lm_capacity (dedup_cache fec)" "finite seen"
  shows "dup_receive mem fec rs w = Some (w @ firsts seen (map snd rs))"
  using assms
proof (induction rs arbitrary: fec kvs seen w)
  case (Cons r rs)
  obtain now h p where r: "r = (now, h, p)" using prod_cases3 by blast
  let ?b = "nt_fec_header_block_id h"
  let ?key = "ucast ?b :: u64"
  let ?cap = "lm_capacity (dedup_cache fec)"
  obtain m' where m': "dedup mem now (dedup_timeout fec) (dedup_cache fec) ?key = Some (fst (dedup_ref ?cap now (dedup_timeout fec) kvs ?key), m')"
    "lru m' (snd (dedup_ref ?cap now (dedup_timeout fec) kvs ?key))" "lm_capacity m' = ?cap"
    using dedup_refines [OF Cons.prems(1,2)] by blast
  have dist: "distinct (map fst kvs)" using lm.keys_law [OF Cons.prems(1)] by blast
  have sets: "set (map snd (r # rs)) = insert (h, p) (set (map snd rs))" by (simp add: r)
  show ?case
  proof (cases "?b \<in> seen")
    case True
    then have "?key \<in> fst ` set kvs" using Cons.prems(3) by blast
    then obtain t where t: "map_of kvs ?key = Some t" by (metis map_of_eq_None_iff not_None_eq)
    have "now - t \<le> dedup_timeout fec" using Cons.prems(4) map_of_SomeD [OF t] by (fastforce simp: r)
    then have ref: "dedup_ref ?cap now (dedup_timeout fec) kvs ?key = (True, touch ?key kvs)" using t by (simp add: dedup_ref_def)
    have same: "set (touch ?key kvs) = set kvs"
      using t dist map_of_SomeD [OF t] by (auto simp: touch_def del_key_def dest: eq_key_imp_eq_value)
    have "dup_receive mem (fec\<lparr>dedup_cache := m'\<rparr>) rs w = Some (w @ firsts seen (map snd rs))"
    proof (rule Cons.IH)
      show "lru (dedup_cache (fec\<lparr>dedup_cache := m'\<rparr>)) (touch ?key kvs)" using m'(2) ref by simp
      show "card (seen \<union> (nt_fec_header_block_id \<circ> fst \<circ> snd) ` set rs) \<le> lm_capacity (dedup_cache (fec\<lparr>dedup_cache := m'\<rparr>))"
        using Cons.prems(7) m'(3) True by (simp add: r insert_absorb)
    qed (use Cons.prems m'(3) same in \<open>auto simp: r\<close>)
    then show ?thesis using m'(1) ref True Cons.prems(6) by (simp add: r nt_dup_fec_decode_def)
  next
    case False
    then have "?key \<notin> fst ` set kvs" using Cons.prems(3) ucast_block_inj by (metis (no_types, lifting) imageE)
    then have t: "map_of kvs ?key = None" by (simp add: map_of_eq_None_iff)
    have "card (insert ?b seen) \<le> card (seen \<union> (nt_fec_header_block_id \<circ> fst \<circ> snd) ` set (r # rs))"
      using Cons.prems(8) by (intro card_mono) (auto simp: r)
    then have "Suc (card seen) \<le> ?cap" using Cons.prems(7,8) False by simp
    moreover have "length kvs = card seen"
    proof -
      have "length kvs = card (fst ` set kvs)" using distinct_card [OF dist] by simp
      also have "\<dots> = card seen" unfolding Cons.prems(3) by (rule card_image) (simp add: inj_on_def ucast_block_inj)
      finally show ?thesis .
    qed
    ultimately have ref: "dedup_ref ?cap now (dedup_timeout fec) kvs ?key = (False, (?key, now) # kvs)" using t by (simp add: dedup_ref_def)
    have "dup_receive mem (fec\<lparr>dedup_cache := m'\<rparr>) rs (w @ [p]) = Some ((w @ [p]) @ firsts (insert ?b seen) (map snd rs))"
    proof (rule Cons.IH)
      show "lru (dedup_cache (fec\<lparr>dedup_cache := m'\<rparr>)) ((?key, now) # kvs)" using m'(2) ref by simp
      show "card (insert ?b seen \<union> (nt_fec_header_block_id \<circ> fst \<circ> snd) ` set rs) \<le> lm_capacity (dedup_cache (fec\<lparr>dedup_cache := m'\<rparr>))"
        using Cons.prems(7) m'(3) by (simp add: r)
      show "fst ` set ((?key, now) # kvs) = ucast ` insert ?b seen" using Cons.prems(3) by simp
    qed (use Cons.prems m'(3) in \<open>auto simp: r\<close>)
    moreover have "fh_tag h = NT_DUP_FEC_TAG" "fh_K h = 1" "unat (nt_fec_header_payload_size h) = length p" using Cons.prems(6) by (simp_all add: r)
    ultimately show ?thesis using m'(1) ref False by (simp add: r nt_dup_fec_decode_def deliver_def)
  qed
qed simp

lemma dup_fec_init:
  assumes "2 \<le> cap" "cap < 2 ^ 31"
  shows "\<exists>m. nt_dup_fec_init mem links kvs N cap timeout g = Some \<lparr>dup_N = N, dup_idgen = g, dedup_cache = m, dedup_timeout = timeout\<rparr> \<and>
    lru m [] \<and> lm_capacity m = cap"
proof -
  have "naive_equal_func = (=)" by (intro ext) (simp add: naive_equal_func_def)
  moreover have "2 \<le> (of_nat cap :: rat)" using assms(1) by (metis of_nat_le_iff of_nat_numeral)
  ultimately obtain m where "lrumap_init1 mem links kvs cap naive_hash_func naive_equal_func = Some m" "lru m []" "lm_capacity m = cap"
    using lru_init [of "3 / 4" cap mem links kvs naive_hash_func] assms(2) by (auto simp: lrumap_init1_def)
  then show ?thesis by (simp add: nt_dup_fec_init_def)
qed

text \<open>
  C9. The duplicating codec delivers each message once. A sender makes \<open>N\<close> packets of each of the messages \<open>ms\<close>, none of which is longer than
  the header's size field can say: copy \<open>j\<close> of message \<open>i\<close> has the \<open>i\<close>-th number of the generator as its block, and \<open>j\<close> as its index.
  Copies are lost, repeated and reordered at will on the way: \<open>arrivals\<close> is any list of times with the message and the index of the copy
  that arrives. The receiver, another codec, delivers the messages of which some copy arrives, each exactly once, whole, in the order
  in which their first copies arrive, as long as its cache is as large as the number of messages and no copy comes later
  after another one than the timeout.
\<close>

theorem dup_fec_delivers_once:
  assumes "2 \<le> cap" "cap < 2 ^ 31" "length ms \<le> cap" "\<forall>m \<in> set ms. length m < 2 ^ 16"
    and "\<forall>(now, i, j) \<in> set arrivals. i < length ms \<and> j < unat N"
    and "\<forall>(now, q) \<in> set arrivals. \<forall>(now', q') \<in> set arrivals. now - now' \<le> timeout"
  shows "\<exists>sender receiver sent. nt_dup_fec_init mem1 links1 kvs1 N cap timeout1 g1 = Some sender \<and>
    nt_dup_fec_init mem links kvs N2 cap timeout g2 = Some receiver \<and>
    dup_send sender ms [] = Some sent \<and> length sent = length ms * unat N \<and>
    (\<forall>i < length ms. \<forall>j < unat N. sent ! (i * unat N + j) =
      (nt_fec_header_init NT_DUP_FEC_TAG N 1 (idgen_id g1 + of_nat i) (of_nat j) (of_nat (length (ms ! i))), ms ! i)) \<and>
    dup_receive mem receiver (map (\<lambda>(now, i, j). (now, sent ! (i * unat N + j))) arrivals) [] =
      Some (map ((!) ms) (first_arrivals (map (\<lambda>(now, i, j). i) arrivals)))"
proof -
  obtain m1 where s: "nt_dup_fec_init mem1 links1 kvs1 N cap timeout1 g1 = Some \<lparr>dup_N = N, dup_idgen = g1, dedup_cache = m1, dedup_timeout = timeout1\<rparr>"
    (is "_ = Some ?sender") using dup_fec_init [OF assms(1,2)] by blast
  obtain m where r: "nt_dup_fec_init mem links kvs N2 cap timeout g2 = Some \<lparr>dup_N = N2, dup_idgen = g2, dedup_cache = m, dedup_timeout = timeout\<rparr>"
    (is "_ = Some ?receiver") and m: "lru m []" "lm_capacity m = cap" using dup_fec_init [OF assms(1,2)] by blast
  define sent where "sent = all_copies N (idgen_id g1) ms"
  define h where "h = (\<lambda>i j. nt_fec_header_init NT_DUP_FEC_TAG N 1 (idgen_id g1 + of_nat i) (of_nat j) (of_nat (length (ms ! i))))"
  have send: "dup_send ?sender ms [] = Some sent" by (simp add: dup_send_copies sent_def)
  have nth: "sent ! (i * unat N + j) = (h i j, ms ! i)" if "i < length ms" "j < unat N" for i j
    using all_copies_nth [OF that] by (simp add: sent_def h_def)
  have len: "length sent = length ms * unat N" by (simp add: sent_def all_copies_def copies_def length_concat comp_def interv_sum_list_conv_sum_set_nat)
  define rs where "rs = map (\<lambda>(now, i, j). (now, h i j, ms ! i)) arrivals"
  have rs: "map (\<lambda>(now, i, j). (now, sent ! (i * unat N + j))) arrivals = rs" using assms(5) nth by (auto simp: rs_def)
  have "unat (nt_fec_header_payload_size (h i j)) = length (ms ! i)" if "i < length ms" for i j
    using assms(4) that by (simp add: h_def unat_of_nat)
  then have hs: "\<forall>(now, h, p) \<in> set rs. fh_tag h = NT_DUP_FEC_TAG \<and> fh_K h = 1 \<and> unat (nt_fec_header_payload_size h) = length p"
    using assms(5) by (auto simp: rs_def h_def)
  have "(nt_fec_header_block_id \<circ> fst \<circ> snd) ` set rs \<subseteq> (\<lambda>i. idgen_id g1 + of_nat i) ` {..<length ms}" using assms(5) by (auto simp: rs_def h_def)
  then have card: "card ((nt_fec_header_block_id \<circ> fst \<circ> snd) ` set rs) \<le> length ms" using surj_card_le [of "{..<length ms}"] by simp
  have "dup_receive mem ?receiver rs [] = Some ([] @ firsts {} (map snd rs))"
    by (rule dup_receive_firsts [where kvs = "[]"]) (use assms m hs card in \<open>auto simp: rs_def\<close>)
  moreover have "map snd rs = map (\<lambda>(i, j). (h i j, ms ! i)) (map snd arrivals)" by (auto simp: rs_def)
  moreover have "firsts {} (map (\<lambda>(i, j). (h i j, ms ! i)) (map snd arrivals)) = map ((!) ms) (first_arrivals (map fst (map snd arrivals)))"
  proof -
    have "inj_on (\<lambda>i. idgen_id g1 + of_nat i) {..<length ms}" by (rule block_numbers_inj) (use assms(2,3) in simp)
    moreover have "nt_fec_header_block_id (h i j) = idgen_id g1 + of_nat i" for i j by (simp add: h_def)
    moreover have "set (map fst (map snd arrivals)) \<subseteq> {..<length ms}" using assms(5) by auto
    ultimately show ?thesis using firsts_arrivals [of _ _ h "map snd arrivals" "{}" ms] by simp
  qed
  moreover have "map fst (map snd arrivals) = map (\<lambda>(now, i, j). i) arrivals" by auto
  ultimately have "dup_receive mem ?receiver rs [] = Some (map ((!) ms) (first_arrivals (map (\<lambda>(now, i, j). i) arrivals)))" by (simp only: append_Nil)
  then show ?thesis using s r send len nth rs
    by (intro exI [of "\<lambda>x. \<exists>y z. _ x y z" ?sender] exI [of "\<lambda>y. \<exists>z. _ y z" ?receiver] exI [of _ sent] conjI allI impI) (simp_all add: h_def)
qed

theorem dup_fec_delivers_once_witness:
  "\<exists>sender receiver sent. nt_dup_fec_init no_entry (\<lambda>_. \<lparr>prev = None, next = None\<rparr>) (\<lambda>_. (0, 0)) 3 2 100 (idgen_init 5) = Some sender \<and>
    nt_dup_fec_init no_entry (\<lambda>_. \<lparr>prev = None, next = None\<rparr>) (\<lambda>_. (0, 0)) 3 2 100 (idgen_init 7) = Some receiver \<and>
    dup_send sender [[7], [8, 9]] [] = Some sent \<and>
    dup_receive no_entry receiver [(0, sent ! 4), (10, sent ! 0), (30, sent ! 3), (90, sent ! 2)] [] = Some [[8, 9], [7]]"
proof -
  let ?as = "[(0, 1, 1), (10, 0, 0), (30, 1, 0), (90, 0, 2)] :: (int \<times> nat \<times> nat) list" let ?ms = "[[7], [8, 9]] :: u8 list list"
  have "\<forall>(now, i, j) \<in> set ?as. i < length ?ms \<and> j < unat (3 :: u8)" by simp
  moreover have "\<forall>(now, q) \<in> set ?as. \<forall>(now', q') \<in> set ?as. now - now' \<le> 100" by simp
  moreover have "map ((!) ?ms) (first_arrivals (map (\<lambda>(now, i, j). i) ?as)) = [[8, 9], [7]]" by (simp add: first_arrivals_def)
  moreover have "map (\<lambda>(now, i, j). (now, sent ! (i * unat (3 :: u8) + j))) ?as = [(0, sent ! 4), (10, sent ! 0), (30, sent ! 3), (90, sent ! 2)]"
    for sent :: "packet list" by simp
  ultimately show ?thesis
    using dup_fec_delivers_once [of 2 ?ms ?as 3 100 no_entry "\<lambda>_. \<lparr>prev = None, next = None\<rparr>" "\<lambda>_. (0, 0)" 100 "idgen_init 5"
        no_entry "\<lambda>_. \<lparr>prev = None, next = None\<rparr>" "\<lambda>_. (0, 0)" 3 "idgen_init 7"] by fastforce
qed

end
