(* ===== verification/Perf.thy ===== *)
theory Perf
  imports Hashmap
begin

text \<open>
  The performance counters of \<^verbatim>\<open>src/src/main/dispatcher/perf.c\<close> and \<^verbatim>\<open>counter.h\<close>: a hash table from
  names to counters. A counter lives in a cell of its own; the table holds the index of the cell.
  The names of the tunnel's counters come from \<^verbatim>\<open>src/src/main/tunnel/nt_perf.def\<close>.
\<close>

section \<open>The code\<close>

definition counter_init :: "u64 \<Rightarrow> u64" where
  "counter_init c = 0"

text \<open>The \<open>int\<close> argument is converted to the unsigned 64-bit type of the counter.\<close>

definition counter_inc :: "u64 \<Rightarrow> int \<Rightarrow> u64" where
  "counter_inc c n = c + word_of_int n"

definition counter_value :: "u64 \<Rightarrow> u64" where
  "counter_value c = c"

record perf_t =
  counters :: "(u8 list, nat) hashmap_t"
  cells :: "u64 list"

text \<open>\<open>cell i\<close> is what the memory of the \<open>i\<close>-th new counter holds.\<close>

definition perf_init :: "(u8 list, nat) junk \<Rightarrow> (nat \<Rightarrow> u64) \<Rightarrow> u8 list list \<Rightarrow> nat \<Rightarrow> perf_t option" where
  "perf_init mem cell counter_names counter_num = do {
     m \<leftarrow> hashmap_init1 mem counter_num str_hash_func str_equal_func;
     for_up 0 counter_num (\<lambda>i p. do {
       name \<leftarrow> rd counter_names i;
       (old, m) \<leftarrow> hashmap_put mem 2 (counters p) name (length (cells p));
       ensure (old = None);
       Some (p\<lparr>counters := m, cells := cells p @ [counter_init (cell i)]\<rparr>)
     }) \<lparr>counters = m, cells = []\<rparr>
   }"

definition perf_inc :: "perf_t \<Rightarrow> u8 list \<Rightarrow> int \<Rightarrow> perf_t option" where
  "perf_inc p name n = do {
     kv \<leftarrow> hashmap_get (counters p) name;
     ensure (kv \<noteq> None);
     (k, i) \<leftarrow> kv;
     c \<leftarrow> rd (cells p) i;
     cs \<leftarrow> wr (cells p) i (counter_inc c n);
     Some (p\<lparr>cells := cs\<rparr>)
   }"

definition perf_get :: "perf_t \<Rightarrow> u8 list \<Rightarrow> u64 option" where
  "perf_get p name = do {
     kv \<leftarrow> hashmap_get (counters p) name;
     ensure (kv \<noteq> None);
     (k, i) \<leftarrow> kv;
     c \<leftarrow> rd (cells p) i;
     Some (counter_value c)
   }"

section \<open>Counting\<close>

text \<open>The counters of \<open>p\<close> as a map from names to values; different names have different cells.\<close>

definition perf_ok :: "perf_t \<Rightarrow> bool" where
  "perf_ok p \<longleftrightarrow> hm_ok (counters p) \<and> inj_on (hm_map (counters p)) (dom (hm_map (counters p))) \<and>
     (\<forall>name i. hm_map (counters p) name = Some i \<longrightarrow> i < length (cells p))"

definition perf_map :: "perf_t \<Rightarrow> u8 list \<Rightarrow> u64 option" where
  "perf_map p name = map_option ((!) (cells p)) (hm_map (counters p) name)"

lemma perf_get_spec: "perf_ok p \<Longrightarrow> perf_get p name = perf_map p name"
  using hm.get_law [of "counters p" name]
  by (cases "hm_map (counters p) name") (auto simp: perf_ok_def perf_get_def perf_map_def rd_in counter_value_def)

lemma perf_inc_spec:
  assumes p: "perf_ok p" and name: "perf_map p name = Some c"
  shows "\<exists>p'. perf_inc p name n = Some p' \<and> perf_ok p' \<and> perf_map p' = (perf_map p)(name \<mapsto> c + word_of_int n)"
proof -
  obtain i where i: "hm_map (counters p) name = Some i" "cells p ! i = c" "i < length (cells p)"
    using p name by (auto simp: perf_map_def perf_ok_def)
  define p' where "p' = p\<lparr>cells := (cells p)[i := counter_inc c n]\<rparr>"
  have "perf_inc p name n = Some p'"
    using hm.get_law [of "counters p" name] p i by (simp add: perf_ok_def perf_inc_def rd_in wr_in p'_def)
  moreover have "perf_ok p'" using p by (simp add: perf_ok_def p'_def)
  moreover have "perf_map p' x = ((perf_map p)(name \<mapsto> c + word_of_int n)) x" for x
  proof (cases "x = name")
    case True
    then show ?thesis using i by (simp add: perf_map_def p'_def counter_inc_def)
  next
    case False
    have "hm_map (counters p) x \<noteq> Some i" using p i(1) False by (auto simp: perf_ok_def inj_on_def dom_def)
    then show ?thesis using False by (cases "hm_map (counters p) x") (auto simp: perf_map_def p'_def)
  qed
  ultimately show ?thesis by blast
qed

lemma perf_inc_unknown: "perf_ok p \<Longrightarrow> perf_map p name = None \<Longrightarrow> perf_inc p name n = None"
  using hm.get_law [of "counters p" name] by (auto simp: perf_ok_def perf_inc_def perf_map_def)

lemma perf_init_spec:
  assumes names: "distinct names" and num: "2 \<le> length names"
  shows "\<exists>p. perf_init mem cell names (length names) = Some p \<and> perf_ok p \<and>
    perf_map p = (\<lambda>x. if x \<in> set names then Some 0 else None)"
proof -
  have "str_equal_func = (=)" by (intro ext) (simp add: str_equal_func_def)
  moreover have "2 \<le> (of_nat (length names) :: rat)" using num by (metis of_nat_le_iff of_nat_numeral)
  then have "1 \<le> (of_nat (length names) :: rat) * (3 / 4)" by simp
  ultimately obtain m0 where m0: "hashmap_init1 mem (length names) str_hash_func str_equal_func = Some m0" "hm_ok m0" "hm_map m0 = Map.empty"
    using hashmap_init_spec [of "3 / 4" "length names" mem str_hash_func] by (auto simp: hashmap_init1_def)
  let ?f = "\<lambda>i p. do { name \<leftarrow> rd names i; (old, m) \<leftarrow> hashmap_put mem 2 (counters p) name (length (cells p));
       ensure (old = None); Some (p\<lparr>counters := m, cells := cells p @ [counter_init (cell i)]\<rparr>) }"
  define P where "P = (\<lambda>i (p :: perf_t). hm_ok (counters p) \<and> cells p = replicate i 0 \<and>
    (\<forall>x j. hm_map (counters p) x = Some j \<longleftrightarrow> j < i \<and> x = names ! j))"
  have "\<exists>p. for_up 0 (length names) ?f \<lparr>counters = m0, cells = []\<rparr> = Some p \<and> P (length names) p"
  proof (rule for_up_rule)
    show "P 0 \<lparr>counters = m0, cells = []\<rparr>" using m0 by (simp add: P_def)
  next
    fix i p assume i: "i < length names" and "P i p"
    then have P: "hm_ok (counters p)" "cells p = replicate i 0"
      and map: "\<And>x j. hm_map (counters p) x = Some j \<longleftrightarrow> j < i \<and> x = names ! j" by (auto simp: P_def)
    have "hm_map (counters p) (names ! i) = None"
    proof (rule ccontr)
      assume "hm_map (counters p) (names ! i) \<noteq> None"
      then obtain j where "j < i" "names ! i = names ! j" using map by blast
      then show False using names i by (simp add: nth_eq_iff_index_eq)
    qed
    then obtain m where m: "hashmap_put mem 2 (counters p) (names ! i) i = Some (None, m)" "hm_ok m"
      "hm_map m = (hm_map (counters p))(names ! i \<mapsto> i)" using hm.put_law [OF P(1), of mem "names ! i" i] by auto
    have "hm_map m x = Some j \<longleftrightarrow> j < Suc i \<and> x = names ! j" for x j
    proof (cases "x = names ! i")
      case True
      have "names ! i = names ! j \<longleftrightarrow> i = j" if "j < Suc i" using names i that by (simp add: nth_eq_iff_index_eq)
      then show ?thesis using True by (auto simp: m(3))
    next
      case False
      then have "hm_map m x = Some j \<longleftrightarrow> j < i \<and> x = names ! j" using map [of x j] by (simp add: m(3))
      then show ?thesis using False by (cases "j = i") auto
    qed
    then show "\<exists>p'. ?f i p = Some p' \<and> P (Suc i) p'"
      using m P i by (simp add: P_def rd_in counter_init_def replicate_append_same flip: replicate_Suc)
  qed simp
  then obtain p where p: "perf_init mem cell names (length names) = Some p" "P (length names) p"
    using m0(1) by (auto simp: perf_init_def)
  then have map: "\<And>x j. hm_map (counters p) x = Some j \<longleftrightarrow> j < length names \<and> x = names ! j" by (simp add: P_def)
  have "inj_on (hm_map (counters p)) (dom (hm_map (counters p)))"
    unfolding inj_on_def dom_def using map by (metis (mono_tags, lifting) mem_Collect_eq option.exhaust)
  then have "perf_ok p" using p(2) map by (auto simp: P_def perf_ok_def)
  moreover have "perf_map p x = (if x \<in> set names then Some 0 else None)" for x
  proof (cases "hm_map (counters p) x")
    case None
    then have "x \<notin> set names" using map [of x] by (auto simp: in_set_conv_nth)
    then show ?thesis using None by (simp add: perf_map_def)
  next
    case (Some j)
    then show ?thesis using map [of x j] p(2) by (auto simp: P_def perf_map_def)
  qed
  ultimately show ?thesis using p(1) by blast
qed

section \<open>Properties\<close>

fun perf_run :: "perf_t \<Rightarrow> (u8 list \<times> int) list \<Rightarrow> perf_t option" where
  "perf_run p [] = Some p"
| "perf_run p ((name, n) # incs) = do { p \<leftarrow> perf_inc p name n; perf_run p incs }"

fun total :: "u8 list \<Rightarrow> (u8 list \<times> int) list \<Rightarrow> int" where
  "total x [] = 0"
| "total x ((name, n) # incs) = (if name = x then n else 0) + total x incs"

lemma perf_run_spec:
  "perf_ok p \<Longrightarrow> fst ` set incs \<subseteq> dom (perf_map p) \<Longrightarrow>
    \<exists>p'. perf_run p incs = Some p' \<and> perf_ok p' \<and>
      perf_map p' = (\<lambda>x. map_option (\<lambda>c. c + word_of_int (total x incs)) (perf_map p x))"
proof (induction incs arbitrary: p)
  case Nil
  then show ?case by (auto simp: option.map_ident)
next
  case (Cons inc incs)
  obtain name n where inc: "inc = (name, n)" by fastforce
  obtain c where c: "perf_map p name = Some c" using Cons.prems(2) inc by auto
  obtain p1 where p1: "perf_inc p name n = Some p1" "perf_ok p1" "perf_map p1 = (perf_map p)(name \<mapsto> c + word_of_int n)"
    using perf_inc_spec [OF Cons.prems(1) c] by blast
  have "fst ` set incs \<subseteq> dom (perf_map p1)" using Cons.prems(2) p1(3) by auto
  then obtain p' where "perf_run p1 incs = Some p'" "perf_ok p'"
    "perf_map p' = (\<lambda>x. map_option (\<lambda>c. c + word_of_int (total x incs)) (perf_map p1 x))"
    using Cons.IH [OF p1(2)] by blast
  then show ?case using p1(1,3) c by (auto simp: inc fun_eq_iff add.assoc)
qed

text \<open>
  The counters count. After \<open>perf_init\<close> with distinct names, at least two of them, every sequence of
  increments of known counters succeeds, and each counter then holds the sum of its increments modulo
  \<open>2 ^ 64\<close>.
\<close>

theorem perf_counts:
  assumes "distinct names" "2 \<le> length names" "fst ` set incs \<subseteq> set names" "name \<in> set names"
  shows "\<exists>p p'. perf_init mem cell names (length names) = Some p \<and> perf_run p incs = Some p' \<and>
    perf_get p' name = Some (word_of_int (total name incs))"
proof -
  obtain p where p: "perf_init mem cell names (length names) = Some p" "perf_ok p"
    "perf_map p = (\<lambda>x. if x \<in> set names then Some 0 else None)" using perf_init_spec [OF assms(1,2)] by blast
  have "fst ` set incs \<subseteq> dom (perf_map p)" using assms(3) p(3) by (auto simp: dom_def)
  then obtain p' where "perf_run p incs = Some p'" "perf_ok p'"
    "perf_map p' = (\<lambda>x. map_option (\<lambda>c. c + word_of_int (total x incs)) (perf_map p x))"
    using perf_run_spec [OF p(2)] by blast
  then show ?thesis using p(1,3) assms(4) by (auto simp: perf_get_spec)
qed

theorem perf_counts_witness:
  "\<exists>p p'. perf_init (\<lambda>_. None, \<lambda>_. \<lparr>e_key = [], e_value = 0, used = True, e_prev = None, e_next = None\<rparr>) (\<lambda>_. 5)
      [[65, 66], [67]] (length [[65, 66], [67 :: u8]]) = Some p \<and> perf_run p [([67], 2), ([65, 66], 1), ([67], 3)] = Some p' \<and>
    perf_get p' [67] = Some (word_of_int (total [67] [([67], 2), ([65, 66], 1), ([67], 3)]))"
  by (rule perf_counts) simp_all

end
