(* ===== verification/Nt_Perf.thy ===== *)
theory Nt_Perf
  imports Perf
begin

text \<open>
  The counters of the tunnel: their names from \<^verbatim>\<open>src/src/main/tunnel/nt_perf.def\<close> and the table that
  \<^verbatim>\<open>nt_perf.c\<close> builds of them. Every counter that the tunnel increments is in the table, so that the
  check in \<open>perf_inc\<close> never fails.
\<close>

section \<open>The code\<close>

text \<open>A string literal as the bytes before the terminating zero.\<close>

definition cstr :: "string \<Rightarrow> u8 list" where
  "cstr s = map of_char s"

definition COUNTER_API_SENT :: "u8 list" where "COUNTER_API_SENT = cstr ''nt-API_SENT''"
definition COUNTER_TUN_SENT :: "u8 list" where "COUNTER_TUN_SENT = cstr ''nt-TUN_SENT''"
definition COUNTER_API_RECEIVED :: "u8 list" where "COUNTER_API_RECEIVED = cstr ''nt-API_RECEIVED''"
definition COUNTER_TUN_RECEIVED :: "u8 list" where "COUNTER_TUN_RECEIVED = cstr ''nt-TUN_RECEIVED''"
definition COUNTER_DIRECT_TUN_SENT :: "u8 list" where "COUNTER_DIRECT_TUN_SENT = cstr ''nt-DIRECT_TUN_SENT''"
definition COUNTER_DIRECT_API_SENT :: "u8 list" where "COUNTER_DIRECT_API_SENT = cstr ''nt-DIRECT_API_SENT''"
definition COUNTER_API_SENT_BYTES :: "u8 list" where "COUNTER_API_SENT_BYTES = cstr ''nt-API_SENT_BYTES''"
definition COUNTER_TUN_SENT_BYTES :: "u8 list" where "COUNTER_TUN_SENT_BYTES = cstr ''nt-TUN_SENT_BYTES''"
definition COUNTER_API_RECEIVED_BYTES :: "u8 list" where "COUNTER_API_RECEIVED_BYTES = cstr ''nt-API_RECEIVED_BYTES''"
definition COUNTER_TUN_RECEIVED_BYTES :: "u8 list" where "COUNTER_TUN_RECEIVED_BYTES = cstr ''nt-TUN_RECEIVED_BYTES''"
definition COUNTER_DIRECT_TUN_SENT_BYTES :: "u8 list" where "COUNTER_DIRECT_TUN_SENT_BYTES = cstr ''nt-DIRECT_TUN_SENT_BYTES''"
definition COUNTER_DIRECT_API_SENT_BYTES :: "u8 list" where "COUNTER_DIRECT_API_SENT_BYTES = cstr ''nt-DIRECT_API_SENT_BYTES''"
definition COUNTER_API_SEND_ERROR :: "u8 list" where "COUNTER_API_SEND_ERROR = cstr ''nt-API_SEND_ERROR''"
definition COUNTER_TUN_SEND_ERROR :: "u8 list" where "COUNTER_TUN_SEND_ERROR = cstr ''nt-TUN_SEND_ERROR''"
definition COUNTER_API_RECEIVE_ERROR :: "u8 list" where "COUNTER_API_RECEIVE_ERROR = cstr ''nt-API_RECEIVE_ERROR''"
definition COUNTER_TUN_RECEIVE_ERROR :: "u8 list" where "COUNTER_TUN_RECEIVE_ERROR = cstr ''nt-TUN_RECEIVE_ERROR''"
definition COUNTER_DIRECT_TUN_SEND_ERROR :: "u8 list" where "COUNTER_DIRECT_TUN_SEND_ERROR = cstr ''nt-DIRECT_TUN_SEND_ERROR''"
definition COUNTER_DIRECT_API_SEND_ERROR :: "u8 list" where "COUNTER_DIRECT_API_SEND_ERROR = cstr ''nt-DIRECT_API_SEND_ERROR''"
definition COUNTER_ENCRYPT_ERROR :: "u8 list" where "COUNTER_ENCRYPT_ERROR = cstr ''nt-ENCRYPT_ERROR''"
definition COUNTER_DECRYPT_ERROR :: "u8 list" where "COUNTER_DECRYPT_ERROR = cstr ''nt-DECRYPT_ERROR''"
definition COUNTER_API_SENT_V1 :: "u8 list" where "COUNTER_API_SENT_V1 = cstr ''nt-API_SENT_V1''"
definition COUNTER_API_RECEIVED_V1 :: "u8 list" where "COUNTER_API_RECEIVED_V1 = cstr ''nt-API_RECEIVED_V1''"
definition COUNTER_TTL_EXCEEDED :: "u8 list" where "COUNTER_TTL_EXCEEDED = cstr ''nt-TTL_EXCEEDED''"
definition COUNTER_DECODE_ERROR :: "u8 list" where "COUNTER_DECODE_ERROR = cstr ''nt-DECODE_ERROR''"
definition COUNTER_INVALID_ENCODED_DATA :: "u8 list" where "COUNTER_INVALID_ENCODED_DATA = cstr ''nt-INVALID_ENCODED_DATA''"
definition COUNTER_CORRUPT_DECODED_DATA :: "u8 list" where "COUNTER_CORRUPT_DECODED_DATA = cstr ''nt-CORRUPT_DECODED_DATA''"
definition COUNTER_ENCODER_BUSY :: "u8 list" where "COUNTER_ENCODER_BUSY = cstr ''nt-ENCODER_BUSY''"
definition COUNTER_DECODER_BUSY :: "u8 list" where "COUNTER_DECODER_BUSY = cstr ''nt-DECODER_BUSY''"
definition COUNTER_DECODER_BUFFER_FULL :: "u8 list" where "COUNTER_DECODER_BUFFER_FULL = cstr ''nt-DECODER_BUFFER_FULL''"
definition COUNTER_DECODER_BLOCK_COUNT :: "u8 list" where "COUNTER_DECODER_BLOCK_COUNT = cstr ''nt-DECODER_BLOCK_COUNT''"
definition COUNTER_DECODER_BLOCK_COMPLETE :: "u8 list" where "COUNTER_DECODER_BLOCK_COMPLETE = cstr ''nt-DECODER_BLOCK_COMPLETE''"
definition COUNTER_DECODER_BLOCK_RESTORE :: "u8 list" where "COUNTER_DECODER_BLOCK_RESTORE = cstr ''nt-DECODER_BLOCK_RESTORE''"
definition COUNTER_DECODER_BLOCK_EXPIRE :: "u8 list" where "COUNTER_DECODER_BLOCK_EXPIRE = cstr ''nt-DECODER_BLOCK_EXPIRE''"
definition COUNTER_DECODER_RAW :: "u8 list" where "COUNTER_DECODER_RAW = cstr ''nt-DECODER_RAW''"
definition COUNTER_DECODER_RESTORE :: "u8 list" where "COUNTER_DECODER_RESTORE = cstr ''nt-DECODER_RESTORE''"

definition nt_counter_names :: "u8 list list" where
  "nt_counter_names = [COUNTER_API_SENT, COUNTER_TUN_SENT, COUNTER_API_RECEIVED,
     COUNTER_TUN_RECEIVED, COUNTER_DIRECT_TUN_SENT, COUNTER_DIRECT_API_SENT,
     COUNTER_API_SENT_BYTES, COUNTER_TUN_SENT_BYTES, COUNTER_API_RECEIVED_BYTES,
     COUNTER_TUN_RECEIVED_BYTES, COUNTER_DIRECT_TUN_SENT_BYTES, COUNTER_DIRECT_API_SENT_BYTES,
     COUNTER_API_SEND_ERROR, COUNTER_TUN_SEND_ERROR, COUNTER_API_RECEIVE_ERROR,
     COUNTER_TUN_RECEIVE_ERROR, COUNTER_DIRECT_TUN_SEND_ERROR, COUNTER_DIRECT_API_SEND_ERROR,
     COUNTER_ENCRYPT_ERROR, COUNTER_DECRYPT_ERROR, COUNTER_API_SENT_V1,
     COUNTER_API_RECEIVED_V1, COUNTER_TTL_EXCEEDED, COUNTER_DECODE_ERROR,
     COUNTER_INVALID_ENCODED_DATA, COUNTER_CORRUPT_DECODED_DATA, COUNTER_ENCODER_BUSY,
     COUNTER_DECODER_BUSY, COUNTER_DECODER_BUFFER_FULL, COUNTER_DECODER_BLOCK_COUNT,
     COUNTER_DECODER_BLOCK_COMPLETE, COUNTER_DECODER_BLOCK_RESTORE, COUNTER_DECODER_BLOCK_EXPIRE,
     COUNTER_DECODER_RAW, COUNTER_DECODER_RESTORE]"

definition nt_counter_num :: nat where
  "nt_counter_num = length nt_counter_names"

section \<open>The table holds every counter\<close>

lemmas counter_name_defs = COUNTER_API_SENT_def COUNTER_TUN_SENT_def COUNTER_API_RECEIVED_def
  COUNTER_TUN_RECEIVED_def COUNTER_DIRECT_TUN_SENT_def COUNTER_DIRECT_API_SENT_def
  COUNTER_API_SENT_BYTES_def COUNTER_TUN_SENT_BYTES_def COUNTER_API_RECEIVED_BYTES_def
  COUNTER_TUN_RECEIVED_BYTES_def COUNTER_DIRECT_TUN_SENT_BYTES_def COUNTER_DIRECT_API_SENT_BYTES_def
  COUNTER_API_SEND_ERROR_def COUNTER_TUN_SEND_ERROR_def COUNTER_API_RECEIVE_ERROR_def
  COUNTER_TUN_RECEIVE_ERROR_def COUNTER_DIRECT_TUN_SEND_ERROR_def COUNTER_DIRECT_API_SEND_ERROR_def
  COUNTER_ENCRYPT_ERROR_def COUNTER_DECRYPT_ERROR_def COUNTER_API_SENT_V1_def
  COUNTER_API_RECEIVED_V1_def COUNTER_TTL_EXCEEDED_def COUNTER_DECODE_ERROR_def
  COUNTER_INVALID_ENCODED_DATA_def COUNTER_CORRUPT_DECODED_DATA_def COUNTER_ENCODER_BUSY_def
  COUNTER_DECODER_BUSY_def COUNTER_DECODER_BUFFER_FULL_def COUNTER_DECODER_BLOCK_COUNT_def
  COUNTER_DECODER_BLOCK_COMPLETE_def COUNTER_DECODER_BLOCK_RESTORE_def COUNTER_DECODER_BLOCK_EXPIRE_def
  COUNTER_DECODER_RAW_def COUNTER_DECODER_RESTORE_def

lemma nt_counter_names_distinct: "distinct nt_counter_names"
  unfolding nt_counter_names_def counter_name_defs cstr_def by code_simp

definition nt_perf :: "perf_t \<Rightarrow> bool" where
  "nt_perf p \<longleftrightarrow> perf_ok p \<and> dom (perf_map p) = set nt_counter_names"

lemma nt_perf_init:
  "\<exists>p. perf_init mem cell nt_counter_names nt_counter_num = Some p \<and> nt_perf p \<and> (\<forall>name \<in> set nt_counter_names. perf_map p name = Some 0)"
proof -
  have "2 \<le> length nt_counter_names" by (simp add: nt_counter_names_def)
  then show ?thesis
    using perf_init_spec [OF nt_counter_names_distinct, of mem cell]
    by (auto simp: nt_counter_num_def nt_perf_def dom_def split: if_splits)
qed

lemma nt_perf_inc:
  assumes "nt_perf p" "name \<in> set nt_counter_names"
  shows "\<exists>p'. perf_inc p name n = Some p' \<and> nt_perf p' \<and> perf_map p' = (perf_map p)(name \<mapsto> the (perf_map p name) + word_of_int n)"
proof -
  obtain c where "perf_map p name = Some c" using assms by (auto simp: nt_perf_def dom_def)
  then show ?thesis using perf_inc_spec [of p name c n] assms by (auto simp: nt_perf_def)
qed

lemma counter_names_in [simp]:
  "COUNTER_API_SENT \<in> set nt_counter_names"
  "COUNTER_TUN_SENT \<in> set nt_counter_names"
  "COUNTER_API_RECEIVED \<in> set nt_counter_names"
  "COUNTER_TUN_RECEIVED \<in> set nt_counter_names"
  "COUNTER_DIRECT_TUN_SENT \<in> set nt_counter_names"
  "COUNTER_DIRECT_API_SENT \<in> set nt_counter_names"
  "COUNTER_API_SENT_BYTES \<in> set nt_counter_names"
  "COUNTER_TUN_SENT_BYTES \<in> set nt_counter_names"
  "COUNTER_API_RECEIVED_BYTES \<in> set nt_counter_names"
  "COUNTER_TUN_RECEIVED_BYTES \<in> set nt_counter_names"
  "COUNTER_DIRECT_TUN_SENT_BYTES \<in> set nt_counter_names"
  "COUNTER_DIRECT_API_SENT_BYTES \<in> set nt_counter_names"
  "COUNTER_API_SEND_ERROR \<in> set nt_counter_names"
  "COUNTER_TUN_SEND_ERROR \<in> set nt_counter_names"
  "COUNTER_API_RECEIVE_ERROR \<in> set nt_counter_names"
  "COUNTER_TUN_RECEIVE_ERROR \<in> set nt_counter_names"
  "COUNTER_DIRECT_TUN_SEND_ERROR \<in> set nt_counter_names"
  "COUNTER_DIRECT_API_SEND_ERROR \<in> set nt_counter_names"
  "COUNTER_ENCRYPT_ERROR \<in> set nt_counter_names"
  "COUNTER_DECRYPT_ERROR \<in> set nt_counter_names"
  "COUNTER_API_SENT_V1 \<in> set nt_counter_names"
  "COUNTER_API_RECEIVED_V1 \<in> set nt_counter_names"
  "COUNTER_TTL_EXCEEDED \<in> set nt_counter_names"
  "COUNTER_DECODE_ERROR \<in> set nt_counter_names"
  "COUNTER_INVALID_ENCODED_DATA \<in> set nt_counter_names"
  "COUNTER_CORRUPT_DECODED_DATA \<in> set nt_counter_names"
  "COUNTER_ENCODER_BUSY \<in> set nt_counter_names"
  "COUNTER_DECODER_BUSY \<in> set nt_counter_names"
  "COUNTER_DECODER_BUFFER_FULL \<in> set nt_counter_names"
  "COUNTER_DECODER_BLOCK_COUNT \<in> set nt_counter_names"
  "COUNTER_DECODER_BLOCK_COMPLETE \<in> set nt_counter_names"
  "COUNTER_DECODER_BLOCK_RESTORE \<in> set nt_counter_names"
  "COUNTER_DECODER_BLOCK_EXPIRE \<in> set nt_counter_names"
  "COUNTER_DECODER_RAW \<in> set nt_counter_names"
  "COUNTER_DECODER_RESTORE \<in> set nt_counter_names"
  by (simp_all add: nt_counter_names_def)

text \<open>Contents of fresh memory, for examples.\<close>

definition some_counter :: "(u8 list, nat) junk" where
  "some_counter = (\<lambda>_. None, \<lambda>_. \<lparr>e_key = [], e_value = 0, used = True, e_prev = None, e_next = None\<rparr>)"

end
