(* ===== verification/Nt_Rs_Fec.thy ===== *)
theory Nt_Rs_Fec
  imports Rs_Recover Nt_Fec Nt_Perf
begin

text \<open>
  The Reed-Solomon codec of the tunnel, \<^verbatim>\<open>src/src/main/tunnel/nt_rs_fec.c\<close>: messages are grouped into
  blocks of \<open>K\<close>, each block is sent as \<open>N\<close> packets, and the receiver keeps one decoding context per
  block in a pool that is handed out in order of use. The counters are shared with the callbacks: both
  act on a world that has the counters as its first component.
\<close>

section \<open>The code\<close>

definition EINVAL :: int where "EINVAL = 22"

record encode_buffer_t =
  eb_block_id :: u32
  eb_buffer :: rs_ec_t

record decode_buffer_t =
  db_block_id :: u32
  db_buffer :: rs_dc_t
  timestamp :: int

text \<open>The values of the cache are pointers into the pool, here indices.\<close>

record nt_rs_fec_t =
  fec_rs :: rs_t
  rs_idgen :: idgen_t
  encode_buffer :: encode_buffer_t
  decode_buffer_cache :: "(u64, nat) lrumap_t"
  decode_buffer_pool :: "decode_buffer_t list"
  decode_buffer_size :: int
  decode_timeout :: int

definition reset_encode_buffer :: "nt_rs_fec_t \<Rightarrow> nt_rs_fec_t option" where
  "reset_encode_buffer fec = do {
     let (block_id, g) = idgen_next (rs_idgen fec);
     ec \<leftarrow> rs_reset_ec (fec_rs fec) (eb_buffer (encode_buffer fec));
     Some (fec\<lparr>rs_idgen := g, encode_buffer := \<lparr>eb_block_id = block_id, eb_buffer = ec\<rparr>\<rparr>)
   }"

definition reset_decode_buffer :: "nt_rs_fec_t \<Rightarrow> nat \<Rightarrow> u32 \<Rightarrow> nt_rs_fec_t option" where
  "reset_decode_buffer fec i block_id = do {
     b \<leftarrow> rd (decode_buffer_pool fec) i;
     dc \<leftarrow> rs_reset_dc (fec_rs fec) (db_buffer b);
     pool \<leftarrow> wr (decode_buffer_pool fec) i \<lparr>db_block_id = block_id, db_buffer = dc, timestamp = 0\<rparr>;
     Some (fec\<lparr>decode_buffer_pool := pool\<rparr>)
   }"

text \<open>
  The loop of \<open>nt_rs_fec_encode\<close> over the \<open>n\<close> redundant packets, which ends at the first error.
  \<open>stack\<close> is what the memory of the local array holds before it is written.
\<close>

definition encode_redundant ::
    "(nat \<Rightarrow> u8) \<Rightarrow> rs_t \<Rightarrow> rs_ec_t \<Rightarrow> int \<Rightarrow> (int \<Rightarrow> int \<Rightarrow> nt_fec_header_t) \<Rightarrow> 'w nt_fec_on_encode_t \<Rightarrow> 'w \<Rightarrow> (int \<times> 'w) option" where
  "encode_redundant stack rs ec n header cb w = do {
     max_size \<leftarrow> RS_MAX_ENCODED_SIZE (max_data_size rs);
     encoded \<leftarrow> new_array stack max_size;
     (err, encoded, w) \<leftarrow> for_up 0 (nat n) (\<lambda>i (err, encoded, w).
        if err \<noteq> 0 then Some (err, encoded, w)
        else do {
          (ret, encoded, encoded_size, degree) \<leftarrow> rs_encode_result rs ec (int i) encoded max_size;
          if ret < 0 then Some (E_FEC_INTERNAL_ERROR, encoded, w)
          else do {
            degree \<leftarrow> degree;
            (err, w) \<leftarrow> cb (header degree encoded_size) encoded encoded_size w;
            Some (err, encoded, w)
          }
        }) (0, encoded, w);
     Some (err, w)
   }"

definition nt_rs_fec_encode ::
    "(nat \<Rightarrow> u8) \<Rightarrow> nt_rs_fec_t \<Rightarrow> u8 list \<Rightarrow> int \<Rightarrow> 'w nt_fec_on_encode_t \<Rightarrow> 'w \<Rightarrow> (int \<times> nt_rs_fec_t \<times> 'w) option" where
  "nt_rs_fec_encode stack fec input sz cb w = do {
     let rs = fec_rs fec;
     (n, degree, ec) \<leftarrow> rs_encode rs (eb_buffer (encode_buffer fec)) input sz;
     let fec = fec\<lparr>encode_buffer := (encode_buffer fec)\<lparr>eb_buffer := ec\<rparr>\<rparr>;
     ensure (n \<ge> 0);
     degree \<leftarrow> degree;
     let max_degree = rs_N rs - 1;
     let header = (\<lambda>degree size. nt_fec_header_init NT_RS_FEC_TAG (word_of_int (rs_N rs)) (word_of_int (rs_K rs))
           (eb_block_id (encode_buffer fec)) (word_of_int (max_degree - degree)) (word_of_int size));
     (err, w) \<leftarrow> cb (header degree sz) input sz w;
     if err \<noteq> 0 then Some (err, fec, w)
     else if n = 0 then Some (0, fec, w)
     else do {
       (err, w) \<leftarrow> encode_redundant stack rs ec n header cb w;
       fec \<leftarrow> reset_encode_buffer fec;
       Some (err, fec, w)
     }
   }"

text \<open>
  The first half of \<open>nt_rs_fec_decode\<close> finds the context of a block: \<open>Inl\<close> is a value returned at
  once, \<open>Inr\<close> the index of the context. \<open>perf_inc_if\<close> is an increment under a condition.
\<close>

definition perf_inc_if :: "bool \<Rightarrow> perf_t \<Rightarrow> u8 list \<Rightarrow> int \<Rightarrow> perf_t option" where
  "perf_inc_if b perf name n = (if b then perf_inc perf name n else Some perf)"

definition claim_decode_buffer ::
    "(u64, nat) junk \<Rightarrow> int \<Rightarrow> nt_rs_fec_t \<Rightarrow> u32 \<Rightarrow> perf_t \<Rightarrow> ((int + nat) \<times> nt_rs_fec_t \<times> perf_t) option" where
  "claim_decode_buffer mem current fec block_id perf = do {
     let key = (ucast block_id :: u64);
     (kv, cache) \<leftarrow> lrumap_get (decode_buffer_cache fec) key;
     let fec = fec\<lparr>decode_buffer_cache := cache\<rparr>;
     case kv of
       Some (k, i) \<Rightarrow> do {
         b \<leftarrow> rd (decode_buffer_pool fec) i;
         complete \<leftarrow> rs_is_dc_complete (fec_rs fec) (db_buffer b);
         if current - timestamp b \<le> decode_timeout fec then
           Some (if complete then Inl 0 else Inr i, fec, perf)
         else do {
           perf \<leftarrow> perf_inc_if (\<not> complete \<and> timestamp b > 0) perf COUNTER_DECODER_BLOCK_EXPIRE 1;
           fec \<leftarrow> reset_decode_buffer fec i block_id;
           Some (Inr i, fec, perf)
         }
       }
     | None \<Rightarrow> do {
         kv \<leftarrow> lrumap_peek cache;
         ensure (kv \<noteq> None);
         (k, i) \<leftarrow> kv;
         b \<leftarrow> rd (decode_buffer_pool fec) i;
         complete \<leftarrow> rs_is_dc_complete (fec_rs fec) (db_buffer b);
         let pending = (\<not> complete \<and> timestamp b > 0);
         if pending \<and> current - timestamp b \<le> decode_timeout fec then
           Some (Inl E_FEC_DECODER_BUFFER_FULL, fec, perf)
         else do {
           perf \<leftarrow> perf_inc_if pending perf COUNTER_DECODER_BLOCK_EXPIRE 1;
           (ok, cache) \<leftarrow> lrumap_remove cache k;
           ensure ok;
           (ok, cache) \<leftarrow> lrumap_put mem cache key i;
           ensure ok;
           fec \<leftarrow> reset_decode_buffer (fec\<lparr>decode_buffer_cache := cache\<rparr>) i block_id;
           Some (Inr i, fec, perf)
         }
       }
   }"

text \<open>The last loop: the restored messages, up to the first error. The size of a local array is positive.\<close>

definition deliver_restored ::
    "(nat \<Rightarrow> u8) \<Rightarrow> rs_t \<Rightarrow> rs_dc_t \<Rightarrow> int \<Rightarrow> (perf_t \<times> 'w) nt_fec_on_decode_t \<Rightarrow> perf_t \<times> 'w \<Rightarrow> (int \<times> perf_t \<times> 'w) option" where
  "deliver_restored stack rs dc n cb pw = do {
     ensure (0 < max_data_size rs);
     decoded \<leftarrow> new_array stack (max_data_size rs);
     (err, decoded, pw) \<leftarrow> for_up 0 (nat n) (\<lambda>i (err, decoded, pw).
        if err \<noteq> 0 then Some (err, decoded, pw)
        else do {
          (ret, decoded, decoded_size, degree) \<leftarrow> rs_decode_result rs dc (int i) decoded (max_data_size rs);
          if ret < 0 then Some (E_FEC_INTERNAL_ERROR, decoded, pw)
          else do {
            (err, pw) \<leftarrow> cb decoded decoded_size pw;
            Some (err, decoded, pw)
          }
        }) (0, decoded, pw);
     Some (err, pw)
   }"

text \<open>What follows the bookkeeping: the message itself, then the restored ones.\<close>

definition deliver_decoded ::
    "(nat \<Rightarrow> u8) \<Rightarrow> rs_t \<Rightarrow> rs_dc_t \<Rightarrow> u8 list \<Rightarrow> int \<Rightarrow> bool \<Rightarrow> int \<Rightarrow> (perf_t \<times> 'w) nt_fec_on_decode_t \<Rightarrow> perf_t \<times> 'w \<Rightarrow>
     (int \<times> perf_t \<times> 'w) option" where
  "deliver_decoded stack rs dc input sz is_raw n cb pw = do {
     (err, pw) \<leftarrow> (if is_raw then do {
         (err, perf, w) \<leftarrow> cb input sz pw;
         perf \<leftarrow> perf_inc perf COUNTER_DECODER_RAW 1;
         Some (err, perf, w)
       } else Some (0, pw));
     if err \<noteq> 0 then Some (err, pw)
     else if n = 0 then Some (0, pw)
     else deliver_restored stack rs dc n cb pw
   }"

text \<open>The packet is added to the context \<open>i\<close> of its block.\<close>

definition decode_packet ::
    "(nat \<Rightarrow> u8) \<Rightarrow> int \<Rightarrow> nt_rs_fec_t \<Rightarrow> nat \<Rightarrow> nt_fec_header_t \<Rightarrow> u8 list \<Rightarrow> int \<Rightarrow> (perf_t \<times> 'w) nt_fec_on_decode_t \<Rightarrow>
     perf_t \<times> 'w \<Rightarrow> (int \<times> nt_rs_fec_t \<times> perf_t \<times> 'w) option" where
  "decode_packet stack current fec i header input sz cb pw = do {
     let rs = fec_rs fec;
     b \<leftarrow> rd (decode_buffer_pool fec) i;
     perf \<leftarrow> perf_inc_if (timestamp b = 0) (fst pw) COUNTER_DECODER_BLOCK_COUNT 1;
     (n, is_raw, dc) \<leftarrow> rs_decode rs (db_buffer b) input sz (rs_N rs - 1 - uint (fh_block_index header));
     let b = b\<lparr>db_buffer := dc\<rparr>;
     pool \<leftarrow> wr (decode_buffer_pool fec) i b;
     let fec = fec\<lparr>decode_buffer_pool := pool\<rparr>;
     if n = E_RS_DUPLICATE then Some (0, fec, perf, snd pw)
     else if n < 0 then Some (EINVAL, fec, perf, snd pw)
     else do {
       complete \<leftarrow> rs_is_dc_complete rs dc;
       perf \<leftarrow> perf_inc_if (complete \<and> n = 0) perf COUNTER_DECODER_BLOCK_COMPLETE 1;
       perf \<leftarrow> perf_inc_if (complete \<and> n \<noteq> 0) perf COUNTER_DECODER_BLOCK_RESTORE 1;
       perf \<leftarrow> perf_inc_if (complete \<and> n \<noteq> 0) perf COUNTER_DECODER_RESTORE n;
       pool \<leftarrow> wr (decode_buffer_pool fec) i (b\<lparr>timestamp := current\<rparr>);
       let fec = fec\<lparr>decode_buffer_pool := pool\<rparr>;
       is_raw \<leftarrow> is_raw;
       (err, pw) \<leftarrow> deliver_decoded stack rs dc input sz is_raw n cb (perf, snd pw);
       Some (err, fec, pw)
     }
   }"

definition nt_rs_fec_decode ::
    "(u64, nat) junk \<Rightarrow> (nat \<Rightarrow> u8) \<Rightarrow> int \<Rightarrow> nt_rs_fec_t \<Rightarrow> nt_fec_header_t \<Rightarrow> u8 list \<Rightarrow> int \<Rightarrow> (perf_t \<times> 'w) nt_fec_on_decode_t \<Rightarrow>
     perf_t \<times> 'w \<Rightarrow> (int \<times> nt_rs_fec_t \<times> perf_t \<times> 'w) option" where
  "nt_rs_fec_decode mem stack current fec header input sz cb pw =
     (if fh_tag header \<noteq> NT_RS_FEC_TAG \<or> uint (fh_N header) \<noteq> rs_N (fec_rs fec) \<or> uint (fh_K header) \<noteq> rs_K (fec_rs fec)
      then Some (E_FEC_INVALID_HEADER, fec, pw)
      else do {
        (found, fec, perf) \<leftarrow> claim_decode_buffer mem current fec (nt_fec_header_block_id header) (fst pw);
        case found of
          Inl err \<Rightarrow> Some (err, fec, perf, snd pw)
        | Inr i \<Rightarrow> decode_packet stack current fec i header input sz cb (perf, snd pw)
      })"

text \<open>Memory that \<open>nt_rs_fec_init\<close> finds: the structure itself, the new arrays and the cache.\<close>

definition nt_rs_fec_init ::
    "(nat \<Rightarrow> u32) \<Rightarrow> (u64, nat) junk \<Rightarrow> addr links \<Rightarrow> (nat \<Rightarrow> u64 \<times> nat) \<Rightarrow> (nat \<Rightarrow> decode_buffer_t) \<Rightarrow> encode_buffer_t \<Rightarrow>
     u8 \<Rightarrow> u8 \<Rightarrow> int \<Rightarrow> int \<Rightarrow> int \<Rightarrow> idgen_t \<Rightarrow> nt_rs_fec_t option" where
  "nt_rs_fec_init words mem links kvs bufs eb N K max_size buffer_size timeout g = do {
     rs \<leftarrow> rs_init words (uint N) (uint K) max_size;
     ec \<leftarrow> rs_init_ec words rs (eb_buffer eb);
     ensure (0 \<le> buffer_size);
     cache \<leftarrow> lrumap_init1 mem links kvs (nat buffer_size) naive_hash_func naive_equal_func;
     pool \<leftarrow> new_array bufs buffer_size;
     pool \<leftarrow> for_up 0 (nat buffer_size) (\<lambda>i pool. do {
        b \<leftarrow> rd pool i;
        dc \<leftarrow> rs_init_dc words rs (db_buffer b);
        wr pool i (b\<lparr>db_buffer := dc\<rparr>)
      }) pool;
     let fec = \<lparr>fec_rs = rs, rs_idgen = g, encode_buffer = eb\<lparr>eb_buffer := ec\<rparr>, decode_buffer_cache = cache,
           decode_buffer_pool = pool, decode_buffer_size = buffer_size, decode_timeout = timeout\<rparr>;
     fec \<leftarrow> reset_encode_buffer fec;
     for_up 0 (nat buffer_size) (\<lambda>i fec. do {
        fec \<leftarrow> reset_decode_buffer fec i (of_nat i);
        b \<leftarrow> rd (decode_buffer_pool fec) i;
        (ok, cache) \<leftarrow> lrumap_put mem (decode_buffer_cache fec) (ucast (db_block_id b)) i;
        Some (fec\<lparr>decode_buffer_cache := cache\<rparr>)
      }) fec
   }"

definition nt_rs_fec_super :: "(u64, nat) junk \<Rightarrow> (nat \<Rightarrow> u8) \<Rightarrow> (nt_rs_fec_t, perf_t \<times> 'w) nt_fec_t" where
  "nt_rs_fec_super mem stack = nt_fec_init (nt_rs_fec_encode stack) (nt_rs_fec_decode mem stack)"

section \<open>The pool of decoding contexts\<close>

text \<open>
  The abstract contents of the cache, most recently used first: for every block the index of its
  context, the time of its last packet, the packets by degree and the set of degrees received.
\<close>

type_synonym slot = "u32 \<times> nat \<times> int \<times> (nat \<Rightarrow> u8 list) \<times> nat set"

definition slot_key :: "slot \<Rightarrow> u64 \<times> nat" where
  "slot_key s = (ucast (fst s), fst (snd s))"

definition slot_ok :: "nat \<Rightarrow> nat \<Rightarrow> nat \<Rightarrow> decode_buffer_t list \<Rightarrow> slot \<Rightarrow> bool" where
  "slot_ok N K D bufs s = (case s of (b, i, t, B, S) \<Rightarrow> i < length bufs \<and> timestamp (bufs ! i) = t \<and>
     dc_inv N (N - K) D B (db_buffer (bufs ! i)) S \<and> card S \<le> K)"

definition rs_rep :: "nat \<Rightarrow> nat \<Rightarrow> nat \<Rightarrow> nt_rs_fec_t \<Rightarrow> slot list \<Rightarrow> bool" where
  "rs_rep N K D fec sl \<longleftrightarrow> (\<exists>p. rs_ok (fec_rs fec) N K D p) \<and> N \<le> 31 \<and> sl \<noteq> [] \<and>
     lru (decode_buffer_cache fec) (map slot_key sl) \<and> length sl = lm_capacity (decode_buffer_cache fec) \<and>
     distinct (map (fst \<circ> snd) sl) \<and> (\<forall>s \<in> set sl. slot_ok N K D (decode_buffer_pool fec) s)"

lemma map_of_slots: "map_of (map slot_key sl) (ucast b) = map_option fst (map_of sl b)"
  by (induction sl) (auto simp: slot_key_def ucast_block_inj)

lemma del_key_slots: "del_key (ucast b) (map slot_key sl) = map slot_key (del_key b sl)"
  by (induction sl) (auto simp: slot_key_def del_key_def ucast_block_inj)

lemma touch_slots: "touch (ucast b) (map slot_key sl) = map slot_key (touch b sl)"
  by (auto simp: touch_def map_of_slots del_key_slots slot_key_def split: option.splits)

lemma distinct_del_key: "distinct (map f sl) \<Longrightarrow> distinct (map f (del_key b sl))"
  by (simp add: del_key_def distinct_map_filter)

lemma touch_slot:
  assumes "distinct (map fst sl)" "map_of sl b = Some v"
  shows "touch b sl = (b, v) # del_key b sl" "length (touch b sl) = length sl" "set (touch b sl) = set sl"
    "distinct (map f sl) \<Longrightarrow> distinct (map f (touch b sl))"
proof -
  show t: "touch b sl = (b, v) # del_key b sl" using assms(2) by (simp add: touch_def)
  obtain ys zs where sl: "sl = ys @ (b, v) # zs" using map_of_SomeD [OF assms(2)] by (auto simp: in_set_conv_decomp)
  then have "b \<notin> fst ` set ys" "b \<notin> fst ` set zs" using assms(1) by auto
  then have "filter (\<lambda>kv. fst kv \<noteq> b) ys = ys" "filter (\<lambda>kv. fst kv \<noteq> b) zs = zs" by (auto simp: filter_id_conv)
  then have "del_key b sl = ys @ zs" using sl by (simp add: del_key_def)
  then show "length (touch b sl) = length sl" "set (touch b sl) = set sl"
    "distinct (map f sl) \<Longrightarrow> distinct (map f (touch b sl))" using t sl by auto
qed

lemma slot_ok_pool: "slot_ok N K D bufs (b, i, t, B, S) \<Longrightarrow> i < length bufs \<and> timestamp (bufs ! i) = t \<and>
    dc_inv N (N - K) D B (db_buffer (bufs ! i)) S \<and> card S \<le> K"
  by (simp add: slot_ok_def)

lemma rs_rep_keys: "rs_rep N K D fec sl \<Longrightarrow> distinct (map fst sl)"
proof -
  assume "rs_rep N K D fec sl"
  then have "distinct (map fst (map slot_key sl))" by (auto simp: rs_rep_def dest: lru_keys)
  then have "distinct (map ((ucast :: u32 \<Rightarrow> u64) \<circ> fst) sl)" by (simp add: slot_key_def comp_def)
  then show ?thesis by (metis distinct_map map_map)
qed

lemma rs_rep_head:
  assumes "rs_rep N K D fec ((b, i, t, B, S) # sl)"
  shows "rd (decode_buffer_pool fec) i = Some (decode_buffer_pool fec ! i)" "timestamp (decode_buffer_pool fec ! i) = t"
    "dc_inv N (N - K) D B (db_buffer (decode_buffer_pool fec ! i)) S" "card S \<le> K" "i < length (decode_buffer_pool fec)"
  using assms by (auto simp: rs_rep_def slot_ok_def rd_in)

text \<open>Writing the context of the block in front.\<close>

lemma rs_rep_store:
  assumes rep: "rs_rep N K D fec ((b, i, t, B, S) # sl)"
    and buf: "dc_inv N (N - K) D B' (db_buffer buf) S'" "card S' \<le> K"
  shows "rs_rep N K D (fec\<lparr>decode_buffer_pool := (decode_buffer_pool fec)[i := buf]\<rparr>) ((b, i, timestamp buf, B', S') # sl)"
proof -
  have "fst (snd s) \<noteq> i" if "s \<in> set sl" for s using rep that by (auto simp: rs_rep_def intro: rev_image_eqI)
  then have "slot_ok N K D ((decode_buffer_pool fec)[i := buf]) s" if "s \<in> set sl" for s
    using rep that by (cases s) (force simp: rs_rep_def slot_ok_def)
  then show ?thesis using rep buf by (auto simp: rs_rep_def slot_ok_def slot_key_def)
qed

lemma rs_rep_reset:
  assumes rep: "rs_rep N K D fec ((b, i, t, B, S) # sl)"
  shows "\<exists>fec'. reset_decode_buffer fec i block_id = Some fec' \<and> rs_rep N K D fec' ((b, i, 0, B0, {}) # sl) \<and>
    decode_timeout fec' = decode_timeout fec"
proof -
  let ?dc = "db_buffer (decode_buffer_pool fec ! i)"
  obtain p where ok: "rs_ok (fec_rs fec) N K D p" using rep by (auto simp: rs_rep_def)
  have "length (syndromes ?dc) = (D + 4) * (N - K)" "length (erasure_degrees ?dc) = N - K"
    using rs_rep_head(3) [OF rep] by (auto simp: dc_inv_def)
  then obtain dc' where dc': "rs_reset_dc (fec_rs fec) ?dc = Some dc'" "dc_inv N (N - K) D B0 dc' {}"
    using rs_reset_dc_inv [OF ok] by blast
  then show ?thesis
    using rs_rep_store [OF rep, of B0 "\<lparr>db_block_id = block_id, db_buffer = dc', timestamp = 0\<rparr>" "{}"] rs_rep_head(1,5) [OF rep]
    by (simp add: reset_decode_buffer_def wr_in)
qed

text \<open>What \<open>claim_decode_buffer\<close> does to the abstract contents; a fresh context is of the block \<open>B0\<close>.\<close>

definition claim_ref :: "nat \<Rightarrow> int \<Rightarrow> int \<Rightarrow> u32 \<Rightarrow> (nat \<Rightarrow> u8 list) \<Rightarrow> slot list \<Rightarrow> (int + nat) \<times> slot list" where
  "claim_ref K timeout now b B0 sl = (case map_of sl b of
       Some (i, t, B, S) \<Rightarrow>
         if now - t \<le> timeout then (if card S = K then Inl 0 else Inr i, touch b sl)
         else (Inr i, (b, i, 0, B0, {}) # del_key b sl)
     | None \<Rightarrow> (case last sl of (b', i, t, B, S) \<Rightarrow>
         if card S \<noteq> K \<and> t > 0 \<and> now - t \<le> timeout then (Inl E_FEC_DECODER_BUFFER_FULL, sl)
         else (Inr i, (b, i, 0, B0, {}) # butlast sl)))"

lemma perf_inc_if_spec:
  "nt_perf p \<Longrightarrow> name \<in> set nt_counter_names \<Longrightarrow> \<exists>p'. perf_inc_if c p name n = Some p' \<and> nt_perf p'"
  using nt_perf_inc [of p name n] by (auto simp: perf_inc_if_def)

lemma dc_complete:
  "rs_ok rs N K D p \<Longrightarrow> dc_inv N (N - K) D B dc S \<Longrightarrow> card S \<le> K \<Longrightarrow> rs_is_dc_complete rs dc = Some (card S = K)"
  by (auto simp: rs_is_dc_complete_def dc_inv_def rs_okD)

lemma claim_hit:
  assumes rep: "rs_rep N K D fec sl" and perf: "nt_perf perf" and Some: "map_of sl b = Some v"
  shows "\<exists>fec' perf'. claim_decode_buffer mem now fec b perf = Some (fst (claim_ref K (decode_timeout fec) now b B0 sl), fec', perf') \<and>
    rs_rep N K D fec' (snd (claim_ref K (decode_timeout fec) now b B0 sl)) \<and> nt_perf perf' \<and> decode_timeout fec' = decode_timeout fec"
proof -
  obtain p where ok: "rs_ok (fec_rs fec) N K D p" using rep by (auto simp: rs_rep_def)
  have lru: "lru (decode_buffer_cache fec) (map slot_key sl)" using rep by (simp add: rs_rep_def)
  obtain m1 where m1: "lrumap_get (decode_buffer_cache fec) (ucast b) = Some (map_option (Pair (ucast b)) (map_option fst (map_of sl b)), m1)"
    "lru m1 (map slot_key (touch b sl))" "lm_capacity m1 = lm_capacity (decode_buffer_cache fec)"
    using lm.get_law [OF lru, of "ucast b"] by (auto simp: map_of_slots touch_slots)
  define fec1 where "fec1 = fec\<lparr>decode_buffer_cache := m1\<rparr>"
  obtain i t B S where v: "v = (i, t, B, S)" by (cases v)
  note tch = touch_slot [OF rs_rep_keys [OF rep] Some]
  have rep1: "rs_rep N K D fec1 (touch b sl)"
    using rep m1(2,3) tch(1-3) tch(4) [of "fst \<circ> snd"] ok by (auto simp: rs_rep_def fec1_def simp del: map_map)
  note rep1' = rep1 [unfolded tch(1) v]
  note head = rs_rep_head [OF rep1']
  have comp: "rs_is_dc_complete (fec_rs fec) (db_buffer (decode_buffer_pool fec ! i)) = Some (card S = K)"
    using dc_complete [OF ok] head(3,4) by (simp add: fec1_def)
  show ?thesis
  proof (cases "now - t \<le> decode_timeout fec")
    case True
    then show ?thesis using m1(1) head(1,2) comp rep1 perf Some v tch(1)
      by (auto simp: claim_decode_buffer_def claim_ref_def fec1_def)
  next
    case False
    obtain perf' where perf': "perf_inc_if (card S \<noteq> K \<and> t > 0) perf COUNTER_DECODER_BLOCK_EXPIRE 1 = Some perf'" "nt_perf perf'"
      using perf_inc_if_spec [OF perf, of COUNTER_DECODER_BLOCK_EXPIRE] by auto
    obtain fec' where "reset_decode_buffer fec1 i b = Some fec'" "rs_rep N K D fec' ((b, i, 0, B0, {}) # del_key b sl)"
      "decode_timeout fec' = decode_timeout fec" using rs_rep_reset [OF rep1'] by (auto simp: fec1_def)
    then show ?thesis using m1(1) head(1,2) comp perf' False Some v
      by (auto simp: claim_decode_buffer_def claim_ref_def fec1_def)
  qed
qed

lemma claim_miss:
  assumes rep: "rs_rep N K D fec sl" and perf: "nt_perf perf" and None: "map_of sl b = None"
  shows "\<exists>fec' perf'. claim_decode_buffer mem now fec b perf = Some (fst (claim_ref K (decode_timeout fec) now b B0 sl), fec', perf') \<and>
    rs_rep N K D fec' (snd (claim_ref K (decode_timeout fec) now b B0 sl)) \<and> nt_perf perf' \<and> decode_timeout fec' = decode_timeout fec"
proof -
  obtain p where ok: "rs_ok (fec_rs fec) N K D p" using rep by (auto simp: rs_rep_def)
  have lru: "lru (decode_buffer_cache fec) (map slot_key sl)" using rep by (simp add: rs_rep_def)
  obtain m1 where m1: "lrumap_get (decode_buffer_cache fec) (ucast b) = Some (map_option (Pair (ucast b)) (map_option fst (map_of sl b)), m1)"
    "lru m1 (map slot_key (touch b sl))" "lm_capacity m1 = lm_capacity (decode_buffer_cache fec)"
    using lm.get_law [OF lru, of "ucast b"] by (auto simp: map_of_slots touch_slots)
  define fec1 where "fec1 = fec\<lparr>decode_buffer_cache := m1\<rparr>"
  have sl: "sl \<noteq> []" using rep by (simp add: rs_rep_def)
  obtain b' i t B S where last: "last sl = (b', i, t, B, S)" by (cases "last sl")
  then have slot: "slot_ok N K D (decode_buffer_pool fec) (b', i, t, B, S)" using rep sl by (metis rs_rep_def last_in_set)
  have tch: "touch b sl = sl" using None by (simp add: touch_def)
  have peek: "lrumap_peek m1 = Some (Some (ucast b', i))"
    using lm.peek_law [OF m1(2)] sl last by (simp add: tch last_map slot_key_def)
  have comp: "rs_is_dc_complete (fec_rs fec) (db_buffer (decode_buffer_pool fec ! i)) = Some (card S = K)"
    using dc_complete [OF ok] slot_ok_pool [OF slot] by blast
  have rd: "rd (decode_buffer_pool fec) i = Some (decode_buffer_pool fec ! i)" "timestamp (decode_buffer_pool fec ! i) = t"
    using slot by (auto simp: slot_ok_def rd_in)
  show ?thesis
  proof (cases "card S \<noteq> K \<and> t > 0 \<and> now - t \<le> decode_timeout fec")
    case True
    moreover have "rs_rep N K D fec1 sl" using rep m1(2,3) by (auto simp: rs_rep_def fec1_def tch)
    ultimately show ?thesis using m1(1) peek rd comp perf None last
      by (simp add: claim_decode_buffer_def claim_ref_def fec1_def)
  next
    case False
    obtain perf' where perf': "perf_inc_if (card S \<noteq> K \<and> t > 0) perf COUNTER_DECODER_BLOCK_EXPIRE 1 = Some perf'" "nt_perf perf'"
      using perf_inc_if_spec [OF perf, of COUNTER_DECODER_BLOCK_EXPIRE] by auto
    have "length (map slot_key sl) = lm_capacity m1" "map slot_key sl \<noteq> []" "map_of (map slot_key sl) (ucast b) = None"
      using rep m1(3) sl None by (auto simp: rs_rep_def map_of_slots)
    then obtain m2 m3 where m: "lrumap_remove m1 (ucast b') = Some (True, m2)" "lrumap_put mem m2 (ucast b) i = Some (True, m3)"
      "lru m3 ((ucast b, i) # butlast (map slot_key sl))" "lm_capacity m3 = lm_capacity m1"
      using lm.evict_put [OF m1(2) [unfolded tch], of "ucast b" mem i] last sl by (auto simp: last_map slot_key_def)
    define fec2 where "fec2 = fec\<lparr>decode_buffer_cache := m3\<rparr>"
    obtain sl0 where sl0: "sl = sl0 @ [(b', i, t, B, S)]" using sl last by (metis append_butlast_last_id)
    have rep2: "rs_rep N K D fec2 ((b, i, t, B, S) # butlast sl)"
      using rep m(3,4) m1(3) slot by (auto simp: rs_rep_def fec2_def sl0 slot_key_def slot_ok_def butlast_append)
    obtain fec' where "reset_decode_buffer fec2 i b = Some fec'" "rs_rep N K D fec' ((b, i, 0, B0, {}) # butlast sl)"
      "decode_timeout fec' = decode_timeout fec" using rs_rep_reset [OF rep2] by (auto simp: fec2_def)
    then show ?thesis using m1(1) m(1,2) peek rd comp perf' False None last
      by (auto simp: claim_decode_buffer_def claim_ref_def fec2_def)
  qed
qed

lemma claim_spec:
  assumes rep: "rs_rep N K D fec sl" and perf: "nt_perf perf"
  shows "\<exists>fec' perf'. claim_decode_buffer mem now fec b perf = Some (fst (claim_ref K (decode_timeout fec) now b B0 sl), fec', perf') \<and>
    rs_rep N K D fec' (snd (claim_ref K (decode_timeout fec) now b B0 sl)) \<and> nt_perf perf' \<and> decode_timeout fec' = decode_timeout fec"
  using claim_hit [OF assms] claim_miss [OF assms] by (cases "map_of sl b") blast+

section \<open>Decoding a packet\<close>

text \<open>The index of the packet in its block, as a degree.\<close>

definition packet_degree :: "nat \<Rightarrow> nt_fec_header_t \<Rightarrow> nat" where
  "packet_degree N h = N - 1 - unat (fh_block_index h)"

definition header_ok :: "nat \<Rightarrow> nat \<Rightarrow> nt_fec_header_t \<Rightarrow> bool" where
  "header_ok N K h \<longleftrightarrow> fh_tag h = NT_RS_FEC_TAG \<and> unat (fh_N h) = N \<and> unat (fh_K h) = K"

definition size_fits :: "nat \<Rightarrow> nat \<Rightarrow> nat \<Rightarrow> nat \<Rightarrow> int \<Rightarrow> bool" where
  "size_fits N K D d sz \<longleftrightarrow> sz \<le> (if N - K \<le> d then int D else int D + 4)"

lemma uint_eq_int: "uint w = int n \<longleftrightarrow> unat w = n"
  by (simp only: uint_nat of_nat_eq_iff)

lemma header_check:
  assumes "rs_ok rs N K D p"
  shows "(fh_tag h \<noteq> NT_RS_FEC_TAG \<or> uint (fh_N h) \<noteq> rs_N rs \<or> uint (fh_K h) \<noteq> rs_K rs) \<longleftrightarrow> \<not> header_ok N K h"
  unfolding rs_okD(1,2) [OF assms] header_ok_def uint_eq_int by auto

lemma decode_claimed:
  assumes rep: "rs_rep N K D fec sl" and perf: "nt_perf perf" and h: "header_ok N K h"
  shows "\<exists>fec' perf'. nt_rs_fec_decode mem stack now fec h input sz cb (perf, w) =
       (case fst (claim_ref K (decode_timeout fec) now (nt_fec_header_block_id h) B0 sl) of
          Inl err \<Rightarrow> Some (err, fec', perf', w)
        | Inr i \<Rightarrow> decode_packet stack now fec' i h input sz cb (perf', w)) \<and>
     rs_rep N K D fec' (snd (claim_ref K (decode_timeout fec) now (nt_fec_header_block_id h) B0 sl)) \<and>
     nt_perf perf' \<and> decode_timeout fec' = decode_timeout fec"
proof -
  obtain p where ok: "rs_ok (fec_rs fec) N K D p" using rep by (auto simp: rs_rep_def)
  have "nt_rs_fec_decode mem stack now fec h input sz cb (perf, w) = do {
        (found, fec, perf) \<leftarrow> claim_decode_buffer mem now fec (nt_fec_header_block_id h) perf;
        case found of Inl err \<Rightarrow> Some (err, fec, perf, w) | Inr i \<Rightarrow> decode_packet stack now fec i h input sz cb (perf, w) }"
    unfolding nt_rs_fec_decode_def header_check [OF ok] fst_conv snd_conv using h by simp
  moreover obtain fec' perf' where
    "claim_decode_buffer mem now fec (nt_fec_header_block_id h) perf =
       Some (fst (claim_ref K (decode_timeout fec) now (nt_fec_header_block_id h) B0 sl), fec', perf')"
    "rs_rep N K D fec' (snd (claim_ref K (decode_timeout fec) now (nt_fec_header_block_id h) B0 sl))"
    "nt_perf perf'" "decode_timeout fec' = decode_timeout fec"
    using claim_spec [OF rep perf, of mem now "nt_fec_header_block_id h" B0] by blast
  ultimately show ?thesis by (intro exI [of _ fec'] exI [of _ perf']) simp
qed

lemma packet_new:
  assumes rep: "rs_rep N K D fec ((b, i, t, B, S) # rest)" and perf: "nt_perf perf" and S: "card S < K"
    and ix: "unat (fh_block_index h) < N" and d: "d = packet_degree N h" "d \<notin> S"
    and sz: "0 \<le> sz" "nat sz \<le> length input" "size_fits N K D d sz" and B: "B d = take (nat sz) input"
  shows "\<exists>fec' perf' dc. decode_packet stack now fec i h input sz cb (perf, w) = do {
        (err, pw) \<leftarrow> deliver_decoded stack (fec_rs fec') dc input sz (N - K \<le> d)
          (if card (insert d S) = K then int (length (missing (insert d S) (N - K) N)) else 0) cb (perf', w);
        Some (err, fec', pw) } \<and>
     rs_rep N K D fec' ((b, i, now, B, insert d S) # rest) \<and> nt_perf perf' \<and> decode_timeout fec' = decode_timeout fec \<and>
     dc_inv N (N - K) D B dc (insert d S) \<and> (card (insert d S) = K \<longrightarrow> dc_erasures N (N - K) dc (insert d S))"
proof -
  obtain p where ok: "rs_ok (fec_rs fec) N K D p" and N: "N \<le> 31" using rep by (auto simp: rs_rep_def)
  note head = rs_rep_head [OF rep]
  let ?S = "insert d S" let ?b = "decode_buffer_pool fec ! i"
  have deg: "rs_N (fec_rs fec) - 1 - uint (fh_block_index h) = int d" "d < N"
    using ix rs_okD(1) [OF ok] uint_nat [of "fh_block_index h"] unfolding d(1) packet_degree_def by linarith+
  have fin: "finite S" using head(3) by (auto simp: dc_inv_def intro: finite_subset)
  obtain n dc where dec: "rs_decode (fec_rs fec) (db_buffer ?b) input sz (int d) = Some (n, Some (N - K \<le> d), dc)"
    "dc_inv N (N - K) D B dc ?S" "card ?S < K \<longrightarrow> n = 0"
    "card ?S = K \<longrightarrow> n = int (length (missing ?S (N - K) N)) \<and> dc_erasures N (N - K) dc ?S"
    using rs_decode_spec [OF ok N head(3) deg(2) d(2) S sz(1,2) sz(3) [unfolded size_fits_def] B] by blast
  have card: "card ?S \<le> K" using S fin d(2) by simp
  then have n: "n = (if card ?S = K then int (length (missing ?S (N - K) N)) else 0)" using dec(3,4) by auto
  then have pos: "\<not> n < 0" "n \<noteq> E_RS_DUPLICATE" by (auto simp: E_RS_DUPLICATE_def)
  have comp: "rs_is_dc_complete (fec_rs fec) dc = Some (card ?S = K)" by (rule dc_complete [OF ok dec(2) card])
  obtain p1 where p1: "perf_inc_if (t = 0) perf COUNTER_DECODER_BLOCK_COUNT 1 = Some p1" "nt_perf p1"
    using perf_inc_if_spec [OF perf, of COUNTER_DECODER_BLOCK_COUNT] by auto
  obtain p2 where p2: "perf_inc_if (card ?S = K \<and> n = 0) p1 COUNTER_DECODER_BLOCK_COMPLETE 1 = Some p2" "nt_perf p2"
    using perf_inc_if_spec [OF p1(2), of COUNTER_DECODER_BLOCK_COMPLETE] by auto
  obtain p3 where p3: "perf_inc_if (card ?S = K \<and> n \<noteq> 0) p2 COUNTER_DECODER_BLOCK_RESTORE 1 = Some p3" "nt_perf p3"
    using perf_inc_if_spec [OF p2(2), of COUNTER_DECODER_BLOCK_RESTORE] by auto
  obtain p4 where p4: "perf_inc_if (card ?S = K \<and> n \<noteq> 0) p3 COUNTER_DECODER_RESTORE n = Some p4" "nt_perf p4"
    using perf_inc_if_spec [OF p3(2), of COUNTER_DECODER_RESTORE] by auto
  define buf where "buf = ?b\<lparr>db_buffer := dc, timestamp := now\<rparr>"
  define fec' where "fec' = fec\<lparr>decode_buffer_pool := (decode_buffer_pool fec)[i := buf]\<rparr>"
  have "rs_rep N K D fec' ((b, i, now, B, ?S) # rest)"
    using rs_rep_store [OF rep, of B buf ?S] dec(2) card by (simp add: fec'_def buf_def)
  moreover have "decode_packet stack now fec i h input sz cb (perf, w) = do {
        (err, pw) \<leftarrow> deliver_decoded stack (fec_rs fec') dc input sz (N - K \<le> d) n cb (p4, w); Some (err, fec', pw) }"
    using head(1,2,5) p1(1) p2(1) p3(1) p4(1) deg(1) dec(1) comp pos
    by (simp add: decode_packet_def Let_def wr_in fec'_def buf_def)
  moreover have "decode_timeout fec' = decode_timeout fec" by (simp add: fec'_def)
  ultimately show ?thesis unfolding n [symmetric] using dec(2,4) p4(2) by blast
qed

lemma packet_known:
  assumes rep: "rs_rep N K D fec ((b, i, t, B, S) # rest)" and perf: "nt_perf perf"
    and ix: "unat (fh_block_index h) < N" and d: "packet_degree N h \<in> S" and sz: "0 \<le> sz" "size_fits N K D (packet_degree N h) sz"
  shows "\<exists>fec' perf'. decode_packet stack now fec i h input sz cb (perf, w) = Some (0, fec', perf', w) \<and>
     rs_rep N K D fec' ((b, i, t, B, S) # rest) \<and> nt_perf perf' \<and> decode_timeout fec' = decode_timeout fec"
proof -
  obtain p where ok: "rs_ok (fec_rs fec) N K D p" and N: "N \<le> 31" using rep by (auto simp: rs_rep_def)
  note head = rs_rep_head [OF rep]
  let ?b = "decode_buffer_pool fec ! i"
  have deg: "rs_N (fec_rs fec) - 1 - uint (fh_block_index h) = int (packet_degree N h)"
    using ix rs_okD(1) [OF ok] uint_nat [of "fh_block_index h"] unfolding packet_degree_def by linarith
  have "rs_decode (fec_rs fec) (db_buffer ?b) input sz (int (packet_degree N h)) =
      Some (E_RS_DUPLICATE, Some (N - K \<le> packet_degree N h), db_buffer ?b)"
    by (rule rs_decode_known [OF ok N head(3) d sz(1)]) (use sz(2) in \<open>simp add: size_fits_def\<close>)
  moreover obtain p1 where "perf_inc_if (t = 0) perf COUNTER_DECODER_BLOCK_COUNT 1 = Some p1" "nt_perf p1"
    using perf_inc_if_spec [OF perf, of COUNTER_DECODER_BLOCK_COUNT] by auto
  moreover have "rs_rep N K D (fec\<lparr>decode_buffer_pool := (decode_buffer_pool fec)[i := ?b]\<rparr>) ((b, i, t, B, S) # rest)"
    using rs_rep_store [OF rep, of B ?b S] head(2-4) by simp
  ultimately show ?thesis using head(1,2,5) deg
    by (intro exI [of _ "fec\<lparr>decode_buffer_pool := (decode_buffer_pool fec)[i := ?b]\<rparr>"] exI [of _ p1])
      (simp add: decode_packet_def Let_def wr_in)
qed

lemma packet_rejected:
  assumes rep: "rs_rep N K D fec ((b, i, t, B, S) # rest)" and perf: "nt_perf perf"
    and bad: "\<not> (unat (fh_block_index h) < N \<and> 0 \<le> sz \<and> size_fits N K D (packet_degree N h) sz)"
  shows "\<exists>fec' perf'. decode_packet stack now fec i h input sz cb (perf, w) = Some (EINVAL, fec', perf', w) \<and>
     rs_rep N K D fec' ((b, i, t, B, S) # rest) \<and> nt_perf perf' \<and> decode_timeout fec' = decode_timeout fec"
proof -
  obtain p where ok: "rs_ok (fec_rs fec) N K D p" using rep by (auto simp: rs_rep_def)
  note head = rs_rep_head [OF rep]
  let ?b = "decode_buffer_pool fec ! i" let ?deg = "rs_N (fec_rs fec) - 1 - uint (fh_block_index h)"
  have "\<exists>n raw. rs_decode (fec_rs fec) (db_buffer ?b) input sz ?deg = Some (n, raw, db_buffer ?b) \<and> n < 0 \<and> n \<noteq> E_RS_DUPLICATE"
  proof (cases "unat (fh_block_index h) < N")
    case False
    then have "?deg < 0" using rs_okD(1) [OF ok] uint_nat [of "fh_block_index h"] by linarith
    then show ?thesis by (simp add: rs_decode_def E_RS_INVALID_DEGREE_def E_RS_DUPLICATE_def)
  next
    case True
    then have deg: "?deg = int (packet_degree N h)" "packet_degree N h < N"
      using rs_okD(1) [OF ok] uint_nat [of "fh_block_index h"] unfolding packet_degree_def by linarith+
    obtain T where T: "N - K = T" by simp
    have "sz < 0 \<or> sz > (if T \<le> packet_degree N h then int D else int D + 4)" using bad True by (auto simp: size_fits_def T)
    then show ?thesis using deg rs_okD(1,3,9) [OF ok] unfolding T
      by (auto simp: rs_decode_def Let_def RS_HEADER_SIZE_def E_RS_INVALID_SIZE_def E_RS_DUPLICATE_def)
  qed
  then obtain n raw where "rs_decode (fec_rs fec) (db_buffer ?b) input sz ?deg = Some (n, raw, db_buffer ?b)" "n < 0" "n \<noteq> E_RS_DUPLICATE"
    by blast
  moreover obtain p1 where "perf_inc_if (t = 0) perf COUNTER_DECODER_BLOCK_COUNT 1 = Some p1" "nt_perf p1"
    using perf_inc_if_spec [OF perf, of COUNTER_DECODER_BLOCK_COUNT] by auto
  moreover have "rs_rep N K D (fec\<lparr>decode_buffer_pool := (decode_buffer_pool fec)[i := ?b]\<rparr>) ((b, i, t, B, S) # rest)"
    using rs_rep_store [OF rep, of B ?b S] head(2-4) by simp
  ultimately show ?thesis using head(1,2,5)
    by (intro exI [of _ "fec\<lparr>decode_buffer_pool := (decode_buffer_pool fec)[i := ?b]\<rparr>"] exI [of _ p1])
      (simp add: decode_packet_def Let_def wr_in)
qed

text \<open>A callback that writes down the messages.\<close>

definition deliver_to :: "(perf_t \<times> u8 list list) nt_fec_on_decode_t" where
  "deliver_to buf sz pw = Some (0, fst pw, snd pw @ [take (nat sz) buf])"

lemma deliver_restored_exact:
  assumes ok: "rs_ok rs N K D p" and N: "N \<le> 31" and inv: "dc_inv N (N - K) D B dc S" "card S = K"
    and er: "dc_erasures N (N - K) dc S" and cw: "codeword N (N - K) D B"
    and len: "\<forall>d < N. N - K \<le> d \<longrightarrow> length (B d) \<le> D" and D: "0 < D"
  shows "deliver_restored stack rs dc (int (length (missing S (N - K) N))) deliver_to (perf, w) =
    Some (0, perf, w @ map B (missing S (N - K) N))"
proof -
  let ?M = "missing S (N - K) N"
  let ?f = "\<lambda>i (err, decoded, pw). if err \<noteq> 0 then Some (err, decoded, pw)
        else do {
          (ret, decoded, decoded_size, degree) \<leftarrow> rs_decode_result rs dc (int i) decoded (max_data_size rs);
          if ret < 0 then Some (E_FEC_INTERNAL_ERROR, decoded, pw)
          else do { (err, pw) \<leftarrow> deliver_to decoded decoded_size pw; Some (err, decoded, pw) } }"
  have "\<exists>s. for_up 0 (length ?M) ?f (0, map stack [0..<D], perf, w) = Some s \<and>
      (\<exists>buf. s = (0, buf, perf, w @ map B (take (length ?M) ?M)) \<and> length buf = D)"
  proof (rule for_up_rule [where P = "\<lambda>i s. \<exists>buf. s = (0, buf, perf, w @ map B (take i ?M)) \<and> length buf = D"])
    fix i and s :: "int \<times> u8 list \<times> perf_t \<times> u8 list list" assume i: "i < length ?M" and "\<exists>buf. s = (0, buf, perf, w @ map B (take i ?M)) \<and> length buf = D"
    then obtain buf where s: "s = (0, buf, perf, w @ map B (take i ?M))" "length buf = D" by blast
    have "?M ! i \<in> set ?M" using i by (rule nth_mem)
    then have lenB: "length (B (?M ! i)) \<le> D" using len by auto
    moreover have "rs_decode_result rs dc (int i) buf (max_data_size rs) =
      Some (0, B (?M ! i) @ drop (length (B (?M ! i))) buf, int (length (B (?M ! i))), Some (int (?M ! i)))"
      by (rule rs_decode_result_spec [OF ok N inv er cw i _ _ refl lenB]) (use s(2) rs_okD(3) [OF ok] in auto)
    ultimately show "\<exists>s'. ?f i s = Some s' \<and> (\<exists>buf. s' = (0, buf, perf, w @ map B (take (Suc i) ?M)) \<and> length buf = D)"
      using s i by (simp add: deliver_to_def take_Suc_conv_app_nth)
  qed auto
  then show ?thesis using D rs_okD(3) [OF ok]
    by (auto simp: deliver_restored_def new_array_in cong: if_cong)
qed

section \<open>Sending blocks\<close>

fun rs_fec_send :: "(nat \<Rightarrow> u8) \<Rightarrow> nt_rs_fec_t \<Rightarrow> u8 list list \<Rightarrow> packet list \<Rightarrow> (nt_rs_fec_t \<times> packet list) option" where
  "rs_fec_send stack fec [] w = Some (fec, w)"
| "rs_fec_send stack fec (m # ms) w = do {
     (err, fec, w) \<leftarrow> nt_rs_fec_encode stack fec m (int (length m)) collect w;
     ensure (err = 0);
     rs_fec_send stack fec ms w
   }"

lemma rs_fec_send_append:
  "rs_fec_send stack fec (xs @ ys) w = do { (fec, w) \<leftarrow> rs_fec_send stack fec xs w; rs_fec_send stack fec ys w }"
  by (induction xs arbitrary: fec w) (auto split: Option.bind_split)

text \<open>The encoder holds the messages \<open>ms\<close> of the block \<open>b\<close>.\<close>

definition enc_inv :: "nat \<Rightarrow> nat \<Rightarrow> nat \<Rightarrow> nt_rs_fec_t \<Rightarrow> u32 \<Rightarrow> u8 list list \<Rightarrow> bool" where
  "enc_inv N K D fec b ms \<longleftrightarrow> (\<exists>p. rs_ok (fec_rs fec) N K D p) \<and> ec_inv (N - K) D (eb_buffer (encode_buffer fec)) ms \<and>
     length ms < K \<and> eb_block_id (encode_buffer fec) = b \<and> idgen_id (rs_idgen fec) = b + 1"

text \<open>The packet with the index \<open>x\<close> of the block \<open>b\<close>.\<close>

definition pkt :: "nat \<Rightarrow> nat \<Rightarrow> u32 \<Rightarrow> nat \<Rightarrow> u8 list \<Rightarrow> packet" where
  "pkt N K b x q = (nt_fec_header_init NT_RS_FEC_TAG (of_nat N) (of_nat K) b (of_nat x) (of_nat (length q)), q)"

lemma enc_step:
  assumes inv: "enc_inv N K D fec b ms" and m: "length m \<le> D"
  shows "\<exists>ec. rs_encode (fec_rs fec) (eb_buffer (encode_buffer fec)) m (int (length m)) =
      Some (if Suc (length ms) = K then int (N - K) else 0, Some (int (N - 1 - length ms)), ec) \<and> ec_inv (N - K) D ec (ms @ [m])"
  using rs_encode_inv [of "fec_rs fec" N K D _ "eb_buffer (encode_buffer fec)" ms "int (length m)" m] inv m by (auto simp: enc_inv_def)

lemma send_raw:
  assumes inv: "enc_inv N K D fec b ms" and m: "length m \<le> D" and part: "Suc (length ms) < K"
  shows "\<exists>fec'. nt_rs_fec_encode stack fec m (int (length m)) collect w = Some (0, fec', w @ [pkt N K b (length ms) m]) \<and>
    enc_inv N K D fec' b (ms @ [m])"
proof -
  obtain p where ok: "rs_ok (fec_rs fec) N K D p" using inv by (auto simp: enc_inv_def)
  obtain ec where ec: "rs_encode (fec_rs fec) (eb_buffer (encode_buffer fec)) m (int (length m)) = Some (0, Some (int (N - 1 - length ms)), ec)"
    "ec_inv (N - K) D ec (ms @ [m])" using enc_step [OF inv m] part by auto
  define fec' where "fec' = fec\<lparr>encode_buffer := (encode_buffer fec)\<lparr>eb_buffer := ec\<rparr>\<rparr>"
  have "int N - 1 - int (N - 1 - length ms) = int (length ms)" using part rs_okD(6) [OF ok] by simp
  then have "nt_rs_fec_encode stack fec m (int (length m)) collect w = Some (0, fec', w @ [pkt N K b (length ms) m])"
    using ec(1) inv rs_okD(1,2) [OF ok] by (simp add: nt_rs_fec_encode_def Let_def collect_def pkt_def enc_inv_def fec'_def)
  moreover have "enc_inv N K D fec' b (ms @ [m])" using inv ec(2) part by (auto simp: enc_inv_def fec'_def)
  ultimately show ?thesis by blast
qed

lemma encode_redundant_spec:
  assumes ok: "rs_ok rs N K D p" and cs: "checks ec = map gf_rep cs" "length cs = (D + 4) * (N - K)"
    and h: "\<And>j n. j < N - K \<Longrightarrow> n \<le> D + 4 \<Longrightarrow> h (int (N - K - 1 - j)) (int n) =
      nt_fec_header_init NT_RS_FEC_TAG (of_nat N) (of_nat K) b (of_nat (K + j)) (of_nat n)"
  shows "\<exists>Rs. encode_redundant stack rs ec (int (N - K)) h collect w =
      Some (0, w @ map (\<lambda>j. pkt N K b (K + j) (Rs ! j)) [0..<N - K]) \<and>
    (\<forall>j < N - K. length (Rs ! j) \<le> D + 4 \<and>
      (\<forall>c < D + 4. packet_byte (N - K) (N - K - 1 - j) (Rs ! j) c = gf_to_byte (col (N - K) cs c j)))"
proof -
  let ?good = "\<lambda>j R. length R \<le> D + 4 \<and> (\<forall>c < D + 4. packet_byte (N - K) (N - K - 1 - j) R c = gf_to_byte (col (N - K) cs c j))"
  let ?f = "\<lambda>i (err, encoded, w). if err \<noteq> 0 then Some (err, encoded, w)
          else do {
            (ret, encoded, encoded_size, degree) \<leftarrow> rs_encode_result rs ec (int i) encoded (int (D + 4));
            if ret < 0 then Some (E_FEC_INTERNAL_ERROR, encoded, w)
            else do {
              degree \<leftarrow> degree;
              (err, w) \<leftarrow> collect (h degree encoded_size) encoded encoded_size w;
              Some (err, encoded, w) } }"
  define P where "P = (\<lambda>n (s :: int \<times> u8 list \<times> packet list). \<exists>buf Rs. s = (0, buf, w @ map (\<lambda>j. pkt N K b (K + j) (Rs ! j)) [0..<n]) \<and>
    length buf = D + 4 \<and> length Rs = n \<and> (\<forall>j < n. ?good j (Rs ! j)))"
  have "\<exists>s. for_up 0 (N - K) ?f (0, map stack [0..<D + 4], w) = Some s \<and> P (N - K) s"
  proof (rule for_up_rule)
    show "P 0 (0, map stack [0..<D + 4], w)" by (auto simp: P_def)
  next
    fix i s assume i: "i < N - K" and "P i s"
    then obtain buf Rs where s: "s = (0, buf, w @ map (\<lambda>j. pkt N K b (K + j) (Rs ! j)) [0..<i])" "length buf = D + 4"
      "length Rs = i" "\<forall>j < i. ?good j (Rs ! j)" by (auto simp: P_def)
    then have buf: "D + 4 \<le> length buf" "int (D + 4) \<le> int (D + 4)" by simp_all
    obtain buf' v where r: "rs_encode_result rs ec (int i) buf (int (D + 4)) = Some (0, buf', int v, Some (int (N - K - 1 - i)))"
      "length buf' = length buf" "v \<le> D + 4"
      "\<forall>c < D + 4. packet_byte (N - K) (N - K - 1 - i) (take v buf') c = gf_to_byte (col (N - K) cs c i)"
      using rs_encode_result_spec [OF ok cs i buf] by blast
    have "map (\<lambda>j. pkt N K b (K + j) (Rs ! j)) [0..<i] @ [pkt N K b (K + i) (take v buf')] =
        map (\<lambda>j. pkt N K b (K + j) ((Rs @ [take v buf']) ! j)) [0..<Suc i]" using s(3) by (auto simp: nth_append)
    moreover have "pkt N K b (K + i) (take v buf') = (h (int (N - K - 1 - i)) (int v), take v buf')"
      using h [OF i r(3)] r(2,3) s(2) by (simp add: pkt_def)
    moreover have "\<forall>j < Suc i. ?good j ((Rs @ [take v buf']) ! j)" using s(3,4) r(2-4) by (auto simp: nth_append less_Suc_eq)
    moreover note r(1,2) s(1-3)
    ultimately show "\<exists>s'. ?f i s = Some s' \<and> P (Suc i) s'"
      unfolding P_def by (intro exI [of _ "(0, buf', w @ map (\<lambda>j. pkt N K b (K + j) ((Rs @ [take v buf']) ! j)) [0..<Suc i])"] conjI
          exI [of _ buf'] exI [of _ "Rs @ [take v buf']"]) (simp_all add: collect_def)
  qed simp
  then obtain buf Rs where "for_up 0 (N - K) ?f (0, map stack [0..<D + 4], w) = Some (0, buf, w @ map (\<lambda>j. pkt N K b (K + j) (Rs ! j)) [0..<N - K])"
    "\<forall>j < N - K. ?good j (Rs ! j)" unfolding P_def by blast
  moreover have "RS_MAX_ENCODED_SIZE (max_data_size rs) = Some (int (D + 4))" "nat (int (N - K)) = N - K" "nat (int (D + 4)) = D + 4"
    "new_array stack (int (D + 4)) = Some (map stack [0..<D + 4])"
    using rs_sizes(1) [OF ok] by (simp_all only: nat_int new_array_def) simp
  ultimately show ?thesis by (intro exI [of _ Rs]) (simp only: encode_redundant_def Option.bind.simps case_prod_conv simp_thms)
qed

lemma send_last:
  assumes inv: "enc_inv N K D fec b ms" and m: "length m \<le> D" and full: "Suc (length ms) = K"
  shows "\<exists>fec' Rs. nt_rs_fec_encode stack fec m (int (length m)) collect w =
      Some (0, fec', w @ [pkt N K b (length ms) m] @ map (\<lambda>j. pkt N K b (K + j) (Rs ! j)) [0..<N - K]) \<and>
    enc_inv N K D fec' (b + 1) [] \<and> (\<forall>j < N - K. length (Rs ! j) \<le> D + 4) \<and>
    (\<forall>B. (\<forall>j < K. B (N - 1 - j) = (ms @ [m]) ! j) \<and> (\<forall>j < N - K. B (N - K - 1 - j) = Rs ! j) \<longrightarrow> codeword N (N - K) D B)"
proof -
  obtain p where ok: "rs_ok (fec_rs fec) N K D p" using inv by (auto simp: enc_inv_def)
  note okD = rs_okD [OF ok]
  obtain ec where ec: "rs_encode (fec_rs fec) (eb_buffer (encode_buffer fec)) m (int (length m)) = Some (int (N - K), Some (int (N - 1 - length ms)), ec)"
    "ec_inv (N - K) D ec (ms @ [m])" using enc_step [OF inv m] full by auto
  then obtain cs where cs: "checks ec = map gf_rep cs" "length cs = (D + 4) * (N - K)" by (auto simp: ec_inv_def)
  let ?h = "\<lambda>degree size. nt_fec_header_init NT_RS_FEC_TAG (word_of_int (int N)) (word_of_int (int K)) b (word_of_int (int N - 1 - degree)) (word_of_int size)"
  have idx: "int N - 1 - int (N - K - 1 - j) = int (K + j)" if "j < N - K" for j using that by simp
  have hdr: "?h (int (N - K - 1 - j)) (int n) = nt_fec_header_init NT_RS_FEC_TAG (of_nat N) (of_nat K) b (of_nat (K + j)) (of_nat n)"
    if "j < N - K" "n \<le> D + 4" for j n unfolding idx [OF that(1)] by (simp only: of_int_of_nat_eq)
  obtain Rs where Rs: "encode_redundant stack (fec_rs fec) ec (int (N - K)) ?h collect (w @ [pkt N K b (length ms) m]) =
      Some (0, (w @ [pkt N K b (length ms) m]) @ map (\<lambda>j. pkt N K b (K + j) (Rs ! j)) [0..<N - K])"
    "\<forall>j < N - K. length (Rs ! j) \<le> D + 4 \<and> (\<forall>c < D + 4. packet_byte (N - K) (N - K - 1 - j) (Rs ! j) c = gf_to_byte (col (N - K) cs c j))"
    using encode_redundant_spec [OF ok cs hdr, of stack "w @ [pkt N K b (length ms) m]"] by blast
  define fec1 where "fec1 = fec\<lparr>encode_buffer := (encode_buffer fec)\<lparr>eb_buffer := ec\<rparr>\<rparr>"
  obtain ec' where ec': "rs_reset_ec (fec_rs fec) ec = Some ec'" "ec_inv (N - K) D ec' []"
    using rs_reset_ec_inv [OF ok, of ec] cs by auto
  define fec' where "fec' = fec1\<lparr>rs_idgen := \<lparr>idgen_id = b + 1 + 1\<rparr>, encode_buffer := \<lparr>eb_block_id = b + 1, eb_buffer = ec'\<rparr>\<rparr>"
  have reset: "reset_encode_buffer fec1 = Some fec'"
    using inv ec'(1) by (simp add: reset_encode_buffer_def idgen_next_def fec1_def fec'_def enc_inv_def)
  have raw: "int N - 1 - int (N - 1 - length ms) = int (length ms)" using full okD(6) by simp
  have "nt_rs_fec_encode stack fec m (int (length m)) collect w =
      Some (0, fec', w @ [pkt N K b (length ms) m] @ map (\<lambda>j. pkt N K b (K + j) (Rs ! j)) [0..<N - K])"
    using ec(1) Rs(1) reset raw inv okD(1,2,11)
    by (simp add: nt_rs_fec_encode_def Let_def collect_def pkt_def enc_inv_def fec1_def)
  moreover have "enc_inv N K D fec' (b + 1) []" using ok ec'(2) okD(5) by (auto simp: enc_inv_def fec'_def fec1_def)
  moreover have "codeword N (N - K) D B" if "\<forall>j < K. B (N - 1 - j) = (ms @ [m]) ! j" "\<forall>j < N - K. B (N - K - 1 - j) = Rs ! j" for B
    by (rule codeword_of_registers [OF okD(6) ec(2) cs(1) _ that(1)]) (use full Rs(2) that(2) in auto)
  ultimately show ?thesis using Rs(2) by blast
qed

lemma send_prefix:
  "enc_inv N K D fec b pre \<Longrightarrow> length (pre @ ms) < K \<Longrightarrow> \<forall>m \<in> set ms. length m \<le> D \<Longrightarrow>
   \<exists>fec'. rs_fec_send stack fec ms w = Some (fec', w @ map (\<lambda>x. pkt N K b x ((pre @ ms) ! x)) [length pre..<length (pre @ ms)]) \<and>
     enc_inv N K D fec' b (pre @ ms)"
proof (induction ms arbitrary: fec pre w)
  case (Cons m ms)
  obtain fec1 where f1: "nt_rs_fec_encode stack fec m (int (length m)) collect w = Some (0, fec1, w @ [pkt N K b (length pre) m])"
    "enc_inv N K D fec1 b (pre @ [m])" using send_raw [OF Cons.prems(1), of m stack w] Cons.prems(2,3) by auto
  obtain fec' where "rs_fec_send stack fec1 ms (w @ [pkt N K b (length pre) m]) =
      Some (fec', (w @ [pkt N K b (length pre) m]) @ map (\<lambda>x. pkt N K b x (((pre @ [m]) @ ms) ! x)) [length (pre @ [m])..<length ((pre @ [m]) @ ms)])"
    "enc_inv N K D fec' b ((pre @ [m]) @ ms)" using Cons.IH [OF f1(2)] Cons.prems(2,3) by fastforce
  moreover have "[length pre..<length (pre @ m # ms)] = length pre # [Suc (length pre)..<length (pre @ m # ms)]"
    by (rule upt_conv_Cons) simp
  ultimately show ?case using f1(1) by (simp del: upt_Suc)
qed simp

lemma send_block:
  assumes inv: "enc_inv N K D fec b []" and ms: "length ms = K" "\<forall>m \<in> set ms. length m \<le> D"
  shows "\<exists>fec' B. rs_fec_send stack fec ms w = Some (fec', w @ map (\<lambda>x. pkt N K b x (B (N - 1 - x))) [0..<N]) \<and>
    enc_inv N K D fec' (b + 1) [] \<and> codeword N (N - K) D B \<and> (\<forall>j < K. B (N - 1 - j) = ms ! j) \<and>
    (\<forall>d < N. length (B d) \<le> (if N - K \<le> d then D else D + 4))"
proof -
  obtain p where "rs_ok (fec_rs fec) N K D p" using inv by (auto simp: enc_inv_def)
  note okD = rs_okD [OF this]
  obtain ns m where ns: "ms = ns @ [m]" "Suc (length ns) = K" using ms(1) okD(5) by (cases ms rule: rev_cases) auto
  obtain fec1 where f1: "rs_fec_send stack fec ns w = Some (fec1, w @ map (\<lambda>x. pkt N K b x (ns ! x)) [0..<length ns])"
    "enc_inv N K D fec1 b ns" using send_prefix [OF inv, of ns stack w] ns ms(2) by auto
  have "length m \<le> D" using ms(2) ns(1) by simp
  then obtain fec' Rs where f2: "nt_rs_fec_encode stack fec1 m (int (length m)) collect (w @ map (\<lambda>x. pkt N K b x (ns ! x)) [0..<length ns]) =
      Some (0, fec', (w @ map (\<lambda>x. pkt N K b x (ns ! x)) [0..<length ns]) @ [pkt N K b (length ns) m] @ map (\<lambda>j. pkt N K b (K + j) (Rs ! j)) [0..<N - K])"
    "enc_inv N K D fec' (b + 1) []" "\<forall>j < N - K. length (Rs ! j) \<le> D + 4"
    "\<forall>B. (\<forall>j < K. B (N - 1 - j) = (ns @ [m]) ! j) \<and> (\<forall>j < N - K. B (N - K - 1 - j) = Rs ! j) \<longrightarrow> codeword N (N - K) D B"
    using send_last [OF f1(2) _ ns(2)] by blast
  define B where "B = (\<lambda>d. if N - K \<le> d then ms ! (N - 1 - d) else Rs ! (N - K - 1 - d))"
  have B: "\<forall>j < K. B (N - 1 - j) = ms ! j" "\<forall>j < N - K. B (N - K - 1 - j) = Rs ! j" using okD(6) by (auto simp: B_def)
  have "map (\<lambda>x. pkt N K b x (ns ! x)) [0..<length ns] @ [pkt N K b (length ns) m] @ map (\<lambda>j. pkt N K b (K + j) (Rs ! j)) [0..<N - K] =
      map (\<lambda>x. pkt N K b x (B (N - 1 - x))) [0..<N]"
    (is "?l = ?r")
  proof (rule nth_equalityI)
    fix i assume "i < length ?l"
    then have i: "i < N" using okD(6) ns by simp
    consider "i < length ns" | "i = length ns" | "K \<le> i" using ns(2) by linarith
    then show "?l ! i = ?r ! i" using i ns okD(6) by cases (auto simp: nth_append B_def)
  qed (use okD(6) ns in simp)
  then have "rs_fec_send stack fec ms w = Some (fec', w @ map (\<lambda>x. pkt N K b x (B (N - 1 - x))) [0..<N])"
    using f1(1) f2(1) by (simp add: ns(1) rs_fec_send_append)
  moreover have "codeword N (N - K) D B" using B f2(4) by (simp add: ns(1))
  moreover have "length (B d) \<le> (if N - K \<le> d then D else D + 4)" if "d < N" for d
    using that ms f2(3) okD(6) by (auto simp: B_def)
  ultimately show ?thesis using f2(2) B(1) by blast
qed

text \<open>The packets of \<open>n\<close> full blocks and \<open>r\<close> messages of the next, \<open>Bk j d\<close> being the one of degree \<open>d\<close> in block \<open>j\<close>.\<close>

definition sent_packets :: "nat \<Rightarrow> nat \<Rightarrow> u32 \<Rightarrow> (nat \<Rightarrow> nat \<Rightarrow> u8 list) \<Rightarrow> nat \<Rightarrow> nat \<Rightarrow> packet list" where
  "sent_packets N K b Bk n r = concat (map (\<lambda>j. map (\<lambda>x. pkt N K (b + of_nat j) x (Bk j (N - 1 - x))) [0..<if j < n then N else r]) [0..<Suc n])"

lemma send_blocks:
  assumes "0 < K" "K < N"
  shows "enc_inv N K D fec b [] \<Longrightarrow> length ms = K * n + r \<Longrightarrow> r < K \<Longrightarrow> \<forall>m \<in> set ms. length m \<le> D \<Longrightarrow>
   \<exists>fec' Bk. rs_fec_send stack fec ms w = Some (fec', w @ sent_packets N K b Bk n r) \<and>
     (\<forall>j < n. codeword N (N - K) D (Bk j)) \<and> (\<forall>i < length ms. Bk (i div K) (N - 1 - i mod K) = ms ! i) \<and>
     (\<forall>j. \<forall>d < N. length (Bk j d) \<le> (if N - K \<le> d then D else D + 4))"
proof (induction n arbitrary: fec b ms w)
  case 0
  define B where "B = (\<lambda>d. if N - 1 - d < r then ms ! (N - 1 - d) else [])"
  have "map (\<lambda>x. pkt N K b x (ms ! x)) [0..<r] = map (\<lambda>x. pkt N K b x (B (N - 1 - x))) [0..<r]"
    using 0(3) assms(2) by (auto simp: B_def)
  then have "\<exists>fec'. rs_fec_send stack fec ms w = Some (fec', w @ sent_packets N K b (\<lambda>_. B) 0 r)"
    using send_prefix [OF 0(1), of ms stack w] 0(2-4) by (auto simp: sent_packets_def)
  moreover have "\<forall>i < length ms. B (N - 1 - i mod K) = ms ! i" using 0(2,3) assms by (auto simp: B_def)
  moreover have "length (B d) \<le> D" for d using 0(2,4) by (auto simp: B_def)
  ultimately show ?case by (auto intro!: exI [of _ "\<lambda>_. B"] intro: le_SucI trans_le_add1)
next
  case (Suc n)
  let ?ms1 = "take K ms" and ?ms2 = "drop K ms"
  have ms1: "length ?ms1 = K" "\<forall>m \<in> set ?ms1. length m \<le> D" using Suc.prems by (auto dest: in_set_takeD)
  have ms2: "length ?ms2 = K * n + r" "\<forall>m \<in> set ?ms2. length m \<le> D" using Suc.prems by (auto dest: in_set_dropD)
  obtain fec1 B where f1: "rs_fec_send stack fec ?ms1 w = Some (fec1, w @ map (\<lambda>x. pkt N K b x (B (N - 1 - x))) [0..<N])"
    "enc_inv N K D fec1 (b + 1) []" "codeword N (N - K) D B" "\<forall>j < K. B (N - 1 - j) = ?ms1 ! j"
    "\<forall>d < N. length (B d) \<le> (if N - K \<le> d then D else D + 4)"
    using send_block [OF Suc.prems(1) ms1] by blast
  obtain fec' Bk where f2: "rs_fec_send stack fec1 ?ms2 (w @ map (\<lambda>x. pkt N K b x (B (N - 1 - x))) [0..<N]) =
      Some (fec', (w @ map (\<lambda>x. pkt N K b x (B (N - 1 - x))) [0..<N]) @ sent_packets N K (b + 1) Bk n r)"
    "\<forall>j < n. codeword N (N - K) D (Bk j)" "\<forall>i < length ?ms2. Bk (i div K) (N - 1 - i mod K) = ?ms2 ! i"
    "\<forall>j. \<forall>d < N. length (Bk j d) \<le> (if N - K \<le> d then D else D + 4)"
    using Suc.IH [OF f1(2) ms2(1) Suc.prems(3) ms2(2)] by blast
  define Bk' where "Bk' = case_nat B Bk"
  have "map (\<lambda>x. pkt N K b x (B (N - 1 - x))) [0..<N] @ sent_packets N K (b + 1) Bk n r = sent_packets N K b Bk' (Suc n) r"
    unfolding sent_packets_def by (subst (2) upt_conv_Cons) (simp_all add: Bk'_def map_Suc_upt [symmetric] o_def add.assoc del: upt_Suc cong: if_cong)
  moreover have "rs_fec_send stack fec ms w = do { (fec, w) \<leftarrow> rs_fec_send stack fec ?ms1 w; rs_fec_send stack fec ?ms2 w }"
    by (metis append_take_drop_id rs_fec_send_append)
  ultimately have "rs_fec_send stack fec ms w = Some (fec', w @ sent_packets N K b Bk' (Suc n) r)" using f1(1) f2(1) by simp
  moreover have "\<forall>j < Suc n. codeword N (N - K) D (Bk' j)" using f1(3) f2(2) by (auto simp: Bk'_def split: nat.splits)
  moreover have "Bk' (i div K) (N - 1 - i mod K) = ms ! i" if "i < length ms" for i
  proof (cases "i < K")
    case True
    then show ?thesis using f1(4) by (simp add: Bk'_def)
  next
    case False
    then have "i div K = Suc ((i - K) div K)" "i mod K = (i - K) mod K" using assms(1) by (simp_all add: le_div_geq le_mod_geq)
    then show ?thesis using f2(3) [rule_format, of "i - K"] that False by (simp add: Bk'_def)
  qed
  moreover have "\<forall>j. \<forall>d < N. length (Bk' j d) \<le> (if N - K \<le> d then D else D + 4)"
  proof (intro allI impI)
    fix j d assume "d < N"
    then show "length (Bk' j d) \<le> (if N - K \<le> d then D else D + 4)" using f1(5) f2(4) by (cases j) (simp_all only: Bk'_def nat.case)
  qed
  ultimately show ?case by blast
qed

end
