(* ===== verification/Nt_Rs_Recover.thy ===== *)
theory Nt_Rs_Recover
  imports Nt_Rs_Fec
begin

text \<open>
  What the Reed-Solomon codec of the tunnel guarantees from its initialisation on: the decoder never
  aborts on any sequence of packets, whatever they contain, and lost messages are restored.
\<close>

section \<open>Initialisation\<close>

lemma uint_of_nat_u8: "n \<le> 255 \<Longrightarrow> uint (of_nat n :: u8) = int n"
  by (simp add: uint_nat unat_of_nat take_bit_nat_eq_self)

definition fresh_slots :: "(nat \<Rightarrow> u8 list) \<Rightarrow> nat \<Rightarrow> slot list" where
  "fresh_slots B n = map (\<lambda>i. (of_nat i, i, 0, B, {})) (rev [0..<n])"

lemma init_contexts:
  fixes bufs :: "nat \<Rightarrow> decode_buffer_t"
  assumes ok: "rs_ok rs N K D p"
  shows "\<exists>bs. for_up 0 cap (\<lambda>i bs. do { b \<leftarrow> rd bs i; dc \<leftarrow> rs_init_dc words rs (db_buffer b); wr bs i (b\<lparr>db_buffer := dc\<rparr>) })
      (map bufs [0..<cap]) = Some bs \<and> length bs = cap \<and> (\<forall>i < cap. dc_inv N (N - K) D B (db_buffer (bs ! i)) {})"
proof -
  define P where "P = (\<lambda>n (bs :: decode_buffer_t list). length bs = cap \<and> (\<forall>i < n. dc_inv N (N - K) D B (db_buffer (bs ! i)) {}))"
  have "\<exists>bs. for_up 0 cap (\<lambda>i bs. do { b \<leftarrow> rd bs i; dc \<leftarrow> rs_init_dc words rs (db_buffer b); wr bs i (b\<lparr>db_buffer := dc\<rparr>) })
      (map bufs [0..<cap]) = Some bs \<and> P cap bs"
  proof (rule for_up_rule)
    fix i bs assume "i < cap" "P i bs"
    then show "\<exists>bs'. do { b \<leftarrow> rd bs i; dc \<leftarrow> rs_init_dc words rs (db_buffer b); wr bs i (b\<lparr>db_buffer := dc\<rparr>) } = Some bs' \<and> P (Suc i) bs'"
      using rs_init_dc_inv [OF ok, of words "db_buffer (bs ! i)" B] by (auto simp: P_def rd_in wr_in nth_list_update less_Suc_eq)
  qed (simp_all add: P_def)
  then show ?thesis by (auto simp: P_def)
qed

lemma init_cache:
  fixes fec0 :: nt_rs_fec_t
  assumes ok: "rs_ok (fec_rs fec0) N K D p" and N: "N \<le> 31" and cap: "0 < cap" "cap < 2 ^ 31"
    and fec0: "length (decode_buffer_pool fec0) = cap" "\<forall>i < cap. dc_inv N (N - K) D B (db_buffer (decode_buffer_pool fec0 ! i)) {}"
      "lru (decode_buffer_cache fec0) []" "lm_capacity (decode_buffer_cache fec0) = cap"
  shows "\<exists>fec. for_up 0 cap (\<lambda>i fec. do {
        fec \<leftarrow> reset_decode_buffer fec i (of_nat i);
        b \<leftarrow> rd (decode_buffer_pool fec) i;
        (done, cache) \<leftarrow> lrumap_put mem (decode_buffer_cache fec) (ucast (db_block_id b)) i;
        Some (fec\<lparr>decode_buffer_cache := cache\<rparr>) }) fec0 = Some fec \<and>
    rs_rep N K D fec (fresh_slots B cap) \<and> decode_timeout fec = decode_timeout fec0 \<and>
    encode_buffer fec = encode_buffer fec0 \<and> rs_idgen fec = rs_idgen fec0 \<and> fec_rs fec = fec_rs fec0"
proof -
  let ?f = "\<lambda>i fec. do {
        fec \<leftarrow> reset_decode_buffer fec i (of_nat i);
        b \<leftarrow> rd (decode_buffer_pool fec) i;
        (done, cache) \<leftarrow> lrumap_put mem (decode_buffer_cache fec) (ucast (db_block_id b)) i;
        Some (fec\<lparr>decode_buffer_cache := cache\<rparr>) }"
  define P where "P = (\<lambda>n (fec :: nt_rs_fec_t). fec_rs fec = fec_rs fec0 \<and> length (decode_buffer_pool fec) = cap \<and>
    (\<forall>i < cap. dc_inv N (N - K) D B (db_buffer (decode_buffer_pool fec ! i)) {}) \<and>
    (\<forall>i < n. timestamp (decode_buffer_pool fec ! i) = 0) \<and>
    lru (decode_buffer_cache fec) (map slot_key (fresh_slots B n)) \<and> lm_capacity (decode_buffer_cache fec) = cap \<and>
    decode_timeout fec = decode_timeout fec0 \<and> encode_buffer fec = encode_buffer fec0 \<and> rs_idgen fec = rs_idgen fec0)"
  have "\<exists>fec. for_up 0 cap ?f fec0 = Some fec \<and> P cap fec"
  proof (rule for_up_rule)
    show "P 0 fec0" using fec0 by (simp add: P_def fresh_slots_def)
  next
    fix i fec assume i: "i < cap" and P: "P i fec"
    let ?dc = "db_buffer (decode_buffer_pool fec ! i)"
    have "length (syndromes ?dc) = (D + 4) * (N - K)" "length (erasure_degrees ?dc) = N - K" using P i by (auto simp: P_def dc_inv_def)
    then obtain dc where dc: "rs_reset_dc (fec_rs fec) ?dc = Some dc" "dc_inv N (N - K) D B dc {}"
      using rs_reset_dc_inv [OF ok, of ?dc B] P by (auto simp: P_def)
    have "(of_nat i :: u32) \<noteq> of_nat x" if "x < i" for x
      using that i cap(2) by (simp add: word_of_nat_eq_iff take_bit_nat_eq_self)
    then have "of_nat i \<notin> (of_nat :: nat \<Rightarrow> u32) ` {0..<i}" by (metis atLeastLessThan_iff imageE)
    then have "map_of (fresh_slots B i) (of_nat i) = None" by (simp add: map_of_eq_None_iff fresh_slots_def image_image)
    then have "map_of (map slot_key (fresh_slots B i)) (ucast (of_nat i :: u32)) = None" by (simp add: map_of_slots)
    moreover have "length (map slot_key (fresh_slots B i)) < lm_capacity (decode_buffer_cache fec)"
      using P i by (simp add: P_def fresh_slots_def)
    ultimately obtain m where m: "lrumap_put mem (decode_buffer_cache fec) (ucast (of_nat i :: u32)) i = Some (True, m)"
      "lru m ((ucast (of_nat i :: u32), i) # map slot_key (fresh_slots B i))" "lm_capacity m = cap"
      using lm.put_law [where mem = mem and s = "decode_buffer_cache fec"] P by (metis (no_types, lifting) P_def)
    then show "\<exists>fec'. ?f i fec = Some fec' \<and> P (Suc i) fec'"
      using P i dc by (simp add: P_def reset_decode_buffer_def rd_in wr_in nth_list_update less_Suc_eq fresh_slots_def slot_key_def)
  qed simp
  then obtain fec where fec: "for_up 0 cap ?f fec0 = Some fec" "P cap fec" by blast
  moreover have "rs_rep N K D fec (fresh_slots B cap)"
    using fec(2) ok N cap(1) by (auto simp: rs_rep_def P_def fresh_slots_def slot_ok_def o_def)
  ultimately show ?thesis by (auto simp: P_def)
qed

lemma rs_fec_init_spec:
  assumes NK: "0 < K" "K < N" "N \<le> 31" "(D + 4) * (N - K) < 2 ^ 31" and cap: "2 \<le> cap" "cap < 2 ^ 31"
  shows "\<exists>fec. nt_rs_fec_init words mem links kvs bufs eb (of_nat N) (of_nat K) (int D) (int cap) timeout g = Some fec \<and>
    rs_rep N K D fec (fresh_slots B cap) \<and> enc_inv N K D fec (idgen_id g) [] \<and> decode_timeout fec = timeout"
proof -
  obtain rs p where rs: "rs_init words (int N) (int K) (int D) = Some rs" "rs_ok rs N K D p" using rs_init_ok [of K N D words] NK by auto
  obtain ec where ec: "rs_init_ec words rs (eb_buffer eb) = Some ec" "ec_inv (N - K) D ec []" using rs_init_ec_inv [OF rs(2)] by blast
  obtain bs where bs: "for_up 0 cap (\<lambda>i bs. do { b \<leftarrow> rd bs i; dc \<leftarrow> rs_init_dc words rs (db_buffer b); wr bs i (b\<lparr>db_buffer := dc\<rparr>) })
      (map bufs [0..<cap]) = Some bs" "length bs = cap" "\<forall>i < cap. dc_inv N (N - K) D B (db_buffer (bs ! i)) {}"
    using init_contexts [OF rs(2)] by blast
  have "naive_equal_func = (=)" by (intro ext) (simp add: naive_equal_func_def)
  moreover have "2 \<le> (of_nat cap :: rat)" using cap(1) by (metis of_nat_le_iff of_nat_numeral)
  ultimately obtain m where m: "lrumap_init1 mem links kvs cap naive_hash_func naive_equal_func = Some m" "lru m []" "lm_capacity m = cap"
    using lru_init [of "3 / 4" cap mem links kvs naive_hash_func] cap(2) by (auto simp: lrumap_init1_def)
  obtain ec' where ec': "rs_reset_ec rs ec = Some ec'" "ec_inv (N - K) D ec' []"
    using rs_reset_ec_inv [OF rs(2), of ec] ec(2) by (auto simp: ec_inv_def)
  define fec0 where "fec0 = \<lparr>fec_rs = rs, rs_idgen = g\<lparr>idgen_id := idgen_id g + 1\<rparr>, encode_buffer = \<lparr>eb_block_id = idgen_id g, eb_buffer = ec'\<rparr>,
    decode_buffer_cache = m, decode_buffer_pool = bs, decode_buffer_size = int cap, decode_timeout = timeout\<rparr>"
  obtain fec where fec: "for_up 0 cap (\<lambda>i fec. do {
        fec \<leftarrow> reset_decode_buffer fec i (of_nat i);
        b \<leftarrow> rd (decode_buffer_pool fec) i;
        (done, cache) \<leftarrow> lrumap_put mem (decode_buffer_cache fec) (ucast (db_block_id b)) i;
        Some (fec\<lparr>decode_buffer_cache := cache\<rparr>) }) fec0 = Some fec"
    "rs_rep N K D fec (fresh_slots B cap)" "decode_timeout fec = timeout" "encode_buffer fec = encode_buffer fec0"
    "rs_idgen fec = rs_idgen fec0" "fec_rs fec = rs"
    using init_cache [of fec0 N K D p cap B mem] rs(2) NK cap bs m by (auto simp: fec0_def)
  have "nt_rs_fec_init words mem links kvs bufs eb (of_nat N) (of_nat K) (int D) (int cap) timeout g = Some fec"
    using rs(1) ec(1) m(1) bs(1) ec'(1) fec(1) NK
    by (simp add: nt_rs_fec_init_def uint_of_nat_u8 new_array_in reset_encode_buffer_def idgen_next_def Let_def fec0_def)
  moreover have "enc_inv N K D fec (idgen_id g) []" using fec(4-6) rs(2) ec'(2) NK(1) by (auto simp: enc_inv_def fec0_def)
  ultimately show ?thesis using fec(2,3) by blast
qed

section \<open>Receiving genuine packets\<close>

lemma dc_inv_cong:
  assumes "\<And>d. d \<in> S \<Longrightarrow> B d = B' d"
  shows "dc_inv N T D B dc S \<longleftrightarrow> dc_inv N T D B' dc S"
proof -
  have "(\<Sum>d \<in> S. gf_byte (packet_byte T d (B d) c) * gf_alpha ^ (d * Suc i)) =
      (\<Sum>d \<in> S. gf_byte (packet_byte T d (B' d) c) * gf_alpha ^ (d * Suc i))" for c i using assms by (intro sum.cong) auto
  then show ?thesis unfolding dc_inv_def by presburger
qed

lemma rs_rep_cong:
  assumes "rs_rep N K D fec ((b, i, t, B, S) # rest)" "\<And>d. d \<in> S \<Longrightarrow> B d = B' d"
  shows "rs_rep N K D fec ((b, i, t, B', S) # rest)"
  using assms(1) dc_inv_cong [of S B B'] assms(2) by (simp add: rs_rep_def slot_ok_def slot_key_def)

text \<open>
  The contexts follow the packets received so far: those in use come first, hold the degrees \<open>R b\<close> of
  their block and were written at one of the times \<open>ts\<close>; the others are as after initialisation.
\<close>

definition busy_slot :: "(u32 \<Rightarrow> nat \<Rightarrow> u8 list) \<Rightarrow> int set \<Rightarrow> (u32 \<Rightarrow> nat set) \<Rightarrow> slot \<Rightarrow> bool" where
  "busy_slot Bk ts R s = (case s of (b, i, t, B, S) \<Rightarrow> S = R b \<and> B = Bk b \<and> t \<in> ts)"

definition idle_slot :: "slot \<Rightarrow> bool" where
  "idle_slot s = (case s of (b, i, t, B, S) \<Rightarrow> S = {} \<and> t = 0)"

definition tracks :: "(u32 \<Rightarrow> nat \<Rightarrow> u8 list) \<Rightarrow> int set \<Rightarrow> slot list \<Rightarrow> (u32 \<Rightarrow> nat set) \<Rightarrow> bool" where
  "tracks Bk ts sl R \<longleftrightarrow> (\<exists>busy idle. sl = busy @ idle \<and> fst ` set busy = {b. R b \<noteq> {}} \<and>
     (\<forall>s \<in> set busy. busy_slot Bk ts R s) \<and> (\<forall>s \<in> set idle. idle_slot s))"

lemma tracksI:
  assumes "fst ` set busy = {b. R b \<noteq> {}}" "\<forall>s \<in> set busy. busy_slot Bk ts R s" "\<forall>s \<in> set idle. idle_slot s"
  shows "tracks Bk ts (busy @ idle) R"
  using assms by (auto simp: tracks_def)

lemma tracksE:
  assumes "tracks Bk ts sl R" "distinct (map fst sl)"
  obtains busy idle where "sl = busy @ idle" "fst ` set busy = {b. R b \<noteq> {}}" "\<forall>s \<in> set busy. busy_slot Bk ts R s"
    "\<forall>s \<in> set idle. idle_slot s" "fst ` set busy \<inter> fst ` set idle = {}"
proof -
  obtain busy idle where sl: "sl = busy @ idle" "fst ` set busy = {b. R b \<noteq> {}}" "\<forall>s \<in> set busy. busy_slot Bk ts R s"
    "\<forall>s \<in> set idle. idle_slot s" using assms(1) unfolding tracks_def by blast
  moreover have "fst ` set busy \<inter> fst ` set idle = {}" using assms(2) sl(1) by simp
  ultimately show thesis by (rule that)
qed

lemma busy_slot_upd: "busy_slot Bk ts R s \<Longrightarrow> fst s \<noteq> b \<Longrightarrow> busy_slot Bk ts (R(b := X)) s"
  by (auto simp: busy_slot_def)

lemma del_key_append: "del_key k (xs @ ys) = del_key k xs @ del_key k ys"
  by (simp add: del_key_def)

lemma del_key_notin: "k \<notin> fst ` set xs \<Longrightarrow> del_key k xs = xs"
  by (auto simp: del_key_def filter_id_conv)

lemma in_del_key: "s \<in> set (del_key k xs) \<longleftrightarrow> s \<in> set xs \<and> fst s \<noteq> k"
  by (auto simp: del_key_def)

lemma fst_del_key: "fst ` set (del_key k xs) = fst ` set xs - {k}"
  by (auto simp: del_key_def)

lemma tracks_fresh: "tracks Bk ts (fresh_slots B n) (\<lambda>_. {})"
  using tracksI [of "[]" "\<lambda>_. {}" Bk ts "fresh_slots B n"] by (auto simp: fresh_slots_def idle_slot_def)

lemma claim_busy:
  assumes tr: "tracks Bk ts sl R" and d: "distinct (map fst sl)" and R: "R b \<noteq> {}"
    and ts: "now \<in> ts" "\<forall>t \<in> ts. \<forall>t' \<in> ts. t - t' \<le> timeout"
  shows "\<exists>i t rest. claim_ref K timeout now b B0 sl = (if card (R b) = K then Inl 0 else Inr i, (b, i, t, Bk b, R b) # rest) \<and> Suc (length rest) = length sl \<and>
    tracks Bk ts ((b, i, t, Bk b, R b) # rest) R \<and> (\<forall>d. tracks Bk ts ((b, i, now, Bk b, insert d (R b)) # rest) (R(b := insert d (R b))))"
proof -
  obtain busy idle where sl: "sl = busy @ idle" "fst ` set busy = {b. R b \<noteq> {}}" "\<forall>s \<in> set busy. busy_slot Bk ts R s"
    "\<forall>s \<in> set idle. idle_slot s" "fst ` set busy \<inter> fst ` set idle = {}" using tracksE [OF tr d] by blast
  have b: "b \<in> fst ` set busy" using sl(2) R by simp
  then obtain v where "(b, v) \<in> set busy" by auto
  moreover obtain i t B S where "v = (i, t, B, S)" by (cases v)
  ultimately have m: "(b, i, t, Bk b, R b) \<in> set busy" "t \<in> ts" using sl(3) by (auto simp: busy_slot_def)
  have mo: "map_of sl b = Some (i, t, Bk b, R b)" by (rule map_of_is_SomeI [OF d]) (use m(1) sl(1) in simp)
  have "b \<notin> fst ` set idle" using b sl(5) by blast
  then have del: "del_key b sl = del_key b busy @ idle" by (simp add: sl(1) del_key_append del_key_notin)
  have "now - t \<le> timeout" using ts m(2) by blast
  then have "claim_ref K timeout now b B0 sl = (if card (R b) = K then Inl 0 else Inr i, (b, i, t, Bk b, R b) # del_key b busy @ idle)"
    using mo del by (simp add: claim_ref_def touch_def)
  moreover have "Suc (length (del_key b busy @ idle)) = length sl" using touch_slot(1,2) [OF d mo] del by simp
  moreover have "tracks Bk ts (((b, i, t, Bk b, R b) # del_key b busy) @ idle) R"
    by (rule tracksI) (use sl(2,3) m(2) b in \<open>auto simp: fst_del_key in_del_key busy_slot_def\<close>, use sl(4) in blast)
  moreover have "tracks Bk ts (((b, i, now, Bk b, insert d (R b)) # del_key b busy) @ idle) (R(b := insert d (R b)))" for d
  proof (rule tracksI)
    show "fst ` set ((b, i, now, Bk b, insert d (R b)) # del_key b busy) = {x. (R(b := insert d (R b))) x \<noteq> {}}"
      using sl(2) by (auto simp: fst_del_key)
    show "\<forall>s \<in> set ((b, i, now, Bk b, insert d (R b)) # del_key b busy). busy_slot Bk ts (R(b := insert d (R b))) s"
      using sl(3) ts(1) busy_slot_upd [of Bk ts R] by (auto simp: in_del_key) (simp add: busy_slot_def)
  qed (use sl(4) in blast)
  ultimately show ?thesis by (simp only: append_Cons) blast
qed

lemma claim_idle:
  assumes tr: "tracks Bk ts sl R" and d: "distinct (map fst sl)" and R: "R b = {}" and K: "0 < K" and now: "now \<in> ts"
    and room: "card (insert b {b. R b \<noteq> {}}) \<le> length sl"
  shows "\<exists>i B rest. claim_ref K timeout now b B0 sl = (Inr i, (b, i, 0, B, {}) # rest) \<and> Suc (length rest) = length sl \<and>
    (\<forall>d. tracks Bk ts ((b, i, now, Bk b, {d}) # rest) (R(b := {d})))"
proof -
  obtain busy idle where sl: "sl = busy @ idle" "fst ` set busy = {b. R b \<noteq> {}}" "\<forall>s \<in> set busy. busy_slot Bk ts R s"
    "\<forall>s \<in> set idle. idle_slot s" "fst ` set busy \<inter> fst ` set idle = {}" using tracksE [OF tr d] by blast
  have nb: "b \<notin> fst ` set busy" using sl(2) R by simp
  have tracks': "tracks Bk ts ((b, i, now, Bk b, {d}) # busy @ idle') (R(b := {d}))" if "set idle' \<subseteq> set idle" for i d idle'
  proof -
    have "tracks Bk ts (((b, i, now, Bk b, {d}) # busy) @ idle') (R(b := {d}))"
    proof (rule tracksI)
      have "\<forall>s \<in> set busy. fst s \<noteq> b" using nb by blast
      then show "\<forall>s \<in> set ((b, i, now, Bk b, {d}) # busy). busy_slot Bk ts (R(b := {d})) s"
        using sl(3) now busy_slot_upd [of Bk ts R] by auto (simp add: busy_slot_def)
    qed (use sl(2,4) that in auto)
    then show ?thesis by simp
  qed
  show ?thesis
  proof (cases "map_of idle b")
    case (Some v)
    then have v: "(b, v) \<in> set idle" by (rule map_of_SomeD)
    moreover obtain i t B S where "v = (i, t, B, S)" by (cases v)
    ultimately have v': "v = (i, 0, B, {})" using sl(4) by (auto simp: idle_slot_def)
    have mo: "map_of sl b = Some (i, 0, B, {})" by (rule map_of_is_SomeI [OF d]) (use v v' sl(1) in simp)
    then have "\<exists>B. claim_ref K timeout now b B0 sl = (Inr i, (b, i, 0, B, {}) # busy @ del_key b idle)"
      using K nb by (auto simp: claim_ref_def touch_def sl(1) del_key_append del_key_notin)
    moreover have "Suc (length (busy @ del_key b idle)) = length sl"
      using touch_slot(1,2) [OF d mo] nb by (simp add: sl(1) del_key_append del_key_notin)
    moreover have "set (del_key b idle) \<subseteq> set idle" by (auto simp: del_key_def)
    ultimately show ?thesis using tracks' by blast
  next
    case None
    have "length busy = card {b. R b \<noteq> {}}" using d distinct_card [of "map fst busy"] by (simp add: sl(1) flip: sl(2))
    moreover have "finite {b. R b \<noteq> {}}" using sl(2) by (metis List.finite_set finite_imageI)
    ultimately have "idle \<noteq> []" using room R sl(1) by auto
    then obtain idle' b' i t B S where idle: "idle = idle' @ [(b', i, t, B, S)]" by (metis prod_cases5 rev_exhaust)
    then have "S = {}" "t = 0" using sl(4) by (auto simp: idle_slot_def)
    then have "last sl = (b', i, 0, B, {})" "butlast sl = busy @ idle'" by (simp_all add: sl(1) idle butlast_append)
    moreover have "map_of sl b = None" using None nb unfolding map_of_eq_None_iff sl(1) by (simp add: image_Un)
    ultimately have "claim_ref K timeout now b B0 sl = (Inr i, (b, i, 0, B0, {}) # busy @ idle')"
      by (simp add: claim_ref_def)
    moreover have "Suc (length (busy @ idle')) = length sl" by (simp add: sl(1) idle)
    moreover have "set idle' \<subseteq> set idle" using idle by auto
    ultimately show ?thesis using tracks' by blast
  qed
qed

text \<open>A genuine packet of the block \<open>b\<close>, of which \<open>Bk b\<close> are the packets by degree.\<close>

definition genuine :: "nat \<Rightarrow> nat \<Rightarrow> nat \<Rightarrow> (u32 \<Rightarrow> nat \<Rightarrow> u8 list) \<Rightarrow> packet \<Rightarrow> bool" where
  "genuine N K D Bk q = (case q of (h, p) \<Rightarrow> header_ok N K h \<and> unat (fh_block_index h) < N \<and>
     p = Bk (nt_fec_header_block_id h) (packet_degree N h) \<and> size_fits N K D (packet_degree N h) (int (length p)))"

definition block_and_degree :: "nat \<Rightarrow> packet \<Rightarrow> u32 \<times> nat" where
  "block_and_degree N q = (nt_fec_header_block_id (fst q), packet_degree N (fst q))"

text \<open>The messages that a new packet brings: itself, unless it is redundant, and those it completes.\<close>

definition gain :: "nat \<Rightarrow> nat \<Rightarrow> u32 \<Rightarrow> nat \<Rightarrow> nat set \<Rightarrow> (u32 \<times> nat) list" where
  "gain N K b d S = (if N - K \<le> d then [(b, d)] else []) @
     (if card (insert d S) = K then map (Pair b) (missing (insert d S) (N - K) N) else [])"

lemma deliver_decoded_exact:
  assumes ok: "rs_ok rs N K D p" and N: "N \<le> 31" and inv: "dc_inv N (N - K) D (Bk b) dc (insert d S)"
    and er: "card (insert d S) = K \<longrightarrow> dc_erasures N (N - K) dc (insert d S) \<and> codeword N (N - K) D (Bk b)"
    and len: "\<forall>d < N. N - K \<le> d \<longrightarrow> length (Bk b d) \<le> D" and D: "0 < D" and perf: "nt_perf perf"
  shows "\<exists>perf'. deliver_decoded stack rs dc (Bk b d) (int (length (Bk b d))) (N - K \<le> d)
      (if card (insert d S) = K then int (length (missing (insert d S) (N - K) N)) else 0) deliver_to (perf, w) =
    Some (0, perf', w @ map (\<lambda>(b, d). Bk b d) (gain N K b d S)) \<and> nt_perf perf'"
proof -
  define w1 where "w1 = w @ (if N - K \<le> d then [Bk b d] else [])"
  obtain p1 where p1: "perf_inc perf COUNTER_DECODER_RAW 1 = Some p1" "nt_perf p1"
    using nt_perf_inc [OF perf, of COUNTER_DECODER_RAW] by auto
  define p2 where "p2 = (if N - K \<le> d then p1 else perf)"
  let ?M = "missing (insert d S) (N - K) N"
  let ?n = "if card (insert d S) = K then int (length ?M) else 0"
  have "(if ?n = 0 then Some (0, p2, w1) else deliver_restored stack rs dc ?n deliver_to (p2, w1)) =
      Some (0, p2, w @ map (\<lambda>(b, d). Bk b d) (gain N K b d S))"
  proof (cases "card (insert d S) = K")
    case True
    then have "deliver_restored stack rs dc (int (length ?M)) deliver_to (p2, w1) = Some (0, p2, w1 @ map (Bk b) ?M)"
      using deliver_restored_exact [OF ok N inv True _ _ len D] er by blast
    then show ?thesis using True by (auto simp: w1_def gain_def o_def)
  qed (simp add: w1_def gain_def)
  moreover have "deliver_decoded stack rs dc (Bk b d) (int (length (Bk b d))) (N - K \<le> d) ?n deliver_to (perf, w) =
      (if ?n = 0 then Some (0, p2, w1) else deliver_restored stack rs dc ?n deliver_to (p2, w1))"
    using p1(1) by (simp add: deliver_decoded_def deliver_to_def p2_def w1_def)
  ultimately show ?thesis using p1(2) perf by (auto simp: p2_def)
qed

fun recv_ref :: "nat \<Rightarrow> nat \<Rightarrow> (u32 \<Rightarrow> nat set) \<Rightarrow> (u32 \<times> nat) list \<Rightarrow> (u32 \<times> nat) list" where
  "recv_ref N K R [] = []"
| "recv_ref N K R ((b, d) # ps) =
     (if card (R b) = K \<or> d \<in> R b then recv_ref N K R ps
      else gain N K b d (R b) @ recv_ref N K (R(b := insert d (R b))) ps)"

lemma decode_new:
  assumes rep: "rs_rep N K D fec sl" and perf: "nt_perf perf"
    and q: "genuine N K D Bk (h, p)" and bd: "block_and_degree N (h, p) = (b, d)"
    and claim: "claim_ref K (decode_timeout fec) now b B0 sl = (Inr i, (b, i, t, B, S) # rest)" and B: "\<And>d. d \<in> S \<Longrightarrow> B d = Bk b d"
    and S: "d \<notin> S" "card S \<noteq> K" and good: "card (insert d S) = K \<longrightarrow> codeword N (N - K) D (Bk b)"
    and len: "\<forall>d < N. N - K \<le> d \<longrightarrow> length (Bk b d) \<le> D" and D: "0 < D"
  shows "\<exists>fec' perf'. nt_rs_fec_decode mem stack now fec h p (int (length p)) deliver_to (perf, w) =
      Some (0, fec', perf', w @ map (\<lambda>(b, d). Bk b d) (gain N K b d S)) \<and>
    rs_rep N K D fec' ((b, i, now, Bk b, insert d S) # rest) \<and> nt_perf perf' \<and> decode_timeout fec' = decode_timeout fec"
proof -
  have h: "header_ok N K h" "unat (fh_block_index h) < N" "p = Bk b d" "size_fits N K D d (int (length p))" "nt_fec_header_block_id h = b"
    "d = packet_degree N h" using q bd by (auto simp: genuine_def block_and_degree_def)
  obtain fec1 perf1 where c: "nt_rs_fec_decode mem stack now fec h p (int (length p)) deliver_to (perf, w) =
      decode_packet stack now fec1 i h p (int (length p)) deliver_to (perf1, w)"
    "rs_rep N K D fec1 ((b, i, t, B, S) # rest)" "nt_perf perf1" "decode_timeout fec1 = decode_timeout fec"
    using decode_claimed [OF rep perf h(1), of mem stack now p "int (length p)" deliver_to w B0] claim by (auto simp: h(5))
  have rep1: "rs_rep N K D fec1 ((b, i, t, Bk b, S) # rest)" by (rule rs_rep_cong [OF c(2) B])
  have card: "card S < K" using rs_rep_head(4) [OF rep1] S(2) by simp
  have sz: "0 \<le> int (length p)" "nat (int (length p)) \<le> length p" "Bk b d = take (nat (int (length p))) p" using h(3) by simp_all
  obtain fec' perf2 dc where n: "decode_packet stack now fec1 i h p (int (length p)) deliver_to (perf1, w) = do {
        (err, pw) \<leftarrow> deliver_decoded stack (fec_rs fec') dc p (int (length p)) (N - K \<le> d)
          (if card (insert d S) = K then int (length (missing (insert d S) (N - K) N)) else 0) deliver_to (perf2, w);
        Some (err, fec', pw) }"
    "rs_rep N K D fec' ((b, i, now, Bk b, insert d S) # rest)" "nt_perf perf2" "decode_timeout fec' = decode_timeout fec1"
    "dc_inv N (N - K) D (Bk b) dc (insert d S)" "card (insert d S) = K \<longrightarrow> dc_erasures N (N - K) dc (insert d S)"
    using packet_new [OF rep1 c(3) card h(2,6) S(1) sz(1,2) h(4) sz(3), of stack now deliver_to w] by (elim exE conjE)
  obtain p0 where ok: "rs_ok (fec_rs fec') N K D p0" and N: "N \<le> 31" using n(2) by (auto simp: rs_rep_def)
  have er: "card (insert d S) = K \<longrightarrow> dc_erasures N (N - K) dc (insert d S) \<and> codeword N (N - K) D (Bk b)" using n(6) good by blast
  obtain perf' where "deliver_decoded stack (fec_rs fec') dc p (int (length p)) (N - K \<le> d)
      (if card (insert d S) = K then int (length (missing (insert d S) (N - K) N)) else 0) deliver_to (perf2, w) =
    Some (0, perf', w @ map (\<lambda>(b, d). Bk b d) (gain N K b d S))" "nt_perf perf'"
    using deliver_decoded_exact [where Bk = Bk and b = b and d = d and S = S, OF ok N n(5) er len D n(3), of stack w]
    unfolding h(3) by blast
  then show ?thesis using c(1,4) n(1,2,4) by simp
qed

lemma decode_genuine:
  assumes rep: "rs_rep N K D fec sl" and perf: "nt_perf perf" and tr: "tracks Bk ts sl R"
    and ts: "now \<in> ts" "\<forall>t \<in> ts. \<forall>t' \<in> ts. t - t' \<le> decode_timeout fec"
    and q: "genuine N K D Bk (h, p)" and bd: "block_and_degree N (h, p) = (b, d)"
    and room: "card (insert b {b. R b \<noteq> {}}) \<le> length sl"
    and good: "card (R b) \<noteq> K \<and> d \<notin> R b \<and> card (insert d (R b)) = K \<longrightarrow> codeword N (N - K) D (Bk b)"
    and len: "\<forall>d < N. N - K \<le> d \<longrightarrow> length (Bk b d) \<le> D" and D: "0 < D"
  shows "\<exists>fec' perf' sl'. nt_rs_fec_decode mem stack now fec h p (int (length p)) deliver_to (perf, w) =
      Some (0, fec', perf', w @ map (\<lambda>(b, d). Bk b d) (if card (R b) = K \<or> d \<in> R b then [] else gain N K b d (R b))) \<and>
    rs_rep N K D fec' sl' \<and> nt_perf perf' \<and> decode_timeout fec' = decode_timeout fec \<and> length sl' = length sl \<and>
    tracks Bk ts sl' (if card (R b) = K \<or> d \<in> R b then R else R(b := insert d (R b)))"
proof -
  have h: "header_ok N K h" "unat (fh_block_index h) < N" "size_fits N K D d (int (length p))" "nt_fec_header_block_id h = b"
    "packet_degree N h = d" using q bd by (auto simp: genuine_def block_and_degree_def)
  have K: "0 < K" using rep by (auto simp: rs_rep_def dest: rs_okD(5))
  note keys = rs_rep_keys [OF rep]
  show ?thesis
  proof (cases "R b = {}")
    case True
    obtain i B rest where c: "claim_ref K (decode_timeout fec) now b (Bk b) sl = (Inr i, (b, i, 0, B, {}) # rest)"
      "Suc (length rest) = length sl" "\<forall>d. tracks Bk ts ((b, i, now, Bk b, {d}) # rest) (R(b := {d}))"
      using claim_idle [OF tr keys True K ts(1) room] by blast
    then show ?thesis using decode_new [OF rep perf q bd c(1), of mem stack w] K good len D True by fastforce
  next
    case False
    obtain i t rest where c: "claim_ref K (decode_timeout fec) now b (Bk b) sl =
        (if card (R b) = K then Inl 0 else Inr i, (b, i, t, Bk b, R b) # rest)" "Suc (length rest) = length sl"
      "tracks Bk ts ((b, i, t, Bk b, R b) # rest) R" "\<forall>d. tracks Bk ts ((b, i, now, Bk b, insert d (R b)) # rest) (R(b := insert d (R b)))"
      using claim_busy [OF tr keys False ts] by blast
    consider "card (R b) = K" | "card (R b) \<noteq> K" "d \<in> R b" | "card (R b) \<noteq> K" "d \<notin> R b" by blast
    then show ?thesis
    proof cases
      case 1
      then show ?thesis using decode_claimed [OF rep perf h(1), of mem stack now p "int (length p)" deliver_to w "Bk b"] c(1-3)
        by (auto simp: h(4) intro!: exI [of _ "(b, i, t, Bk b, R b) # rest"])
    next
      case 2
      obtain fec1 perf1 where c1: "nt_rs_fec_decode mem stack now fec h p (int (length p)) deliver_to (perf, w) =
          decode_packet stack now fec1 i h p (int (length p)) deliver_to (perf1, w)"
        "rs_rep N K D fec1 ((b, i, t, Bk b, R b) # rest)" "nt_perf perf1" "decode_timeout fec1 = decode_timeout fec"
        using decode_claimed [OF rep perf h(1), of mem stack now p "int (length p)" deliver_to w "Bk b"] c(1) 2(1) by (auto simp: h(4))
      then show ?thesis using packet_known [OF c1(2,3) h(2), of "int (length p)" stack now p deliver_to w] h(3,5) 2 c(2,3) by fastforce
    next
      case 3
      then have claim: "claim_ref K (decode_timeout fec) now b (Bk b) sl = (Inr i, (b, i, t, Bk b, R b) # rest)" using c(1) by simp
      show ?thesis using decode_new [OF rep perf q bd claim refl 3(2,1) _ len D, of mem stack w] good 3 c(2,4) by fastforce
    qed
  qed
qed

section \<open>Receiving a sequence of packets\<close>

fun rs_recv :: "(u64, nat) junk \<Rightarrow> (nat \<Rightarrow> u8) \<Rightarrow> nt_rs_fec_t \<Rightarrow> (int \<times> packet) list \<Rightarrow> perf_t \<times> u8 list list \<Rightarrow>
    (nt_rs_fec_t \<times> perf_t \<times> u8 list list) option" where
  "rs_recv mem stack fec [] pw = Some (fec, pw)"
| "rs_recv mem stack fec ((now, h, p) # rs) pw = do {
     (err, fec, pw) \<leftarrow> nt_rs_fec_decode mem stack now fec h p (int (length p)) deliver_to pw;
     ensure (err = 0);
     rs_recv mem stack fec rs pw
   }"

definition degrees :: "u32 \<Rightarrow> (u32 \<times> nat) list \<Rightarrow> nat set" where
  "degrees b ps = {d. (b, d) \<in> set ps}"

lemma rs_recv_spec:
  assumes D: "0 < D" and len: "\<forall>b. \<forall>d < N. N - K \<le> d \<longrightarrow> length (Bk b d) \<le> D"
  shows "rs_rep N K D fec sl \<Longrightarrow> nt_perf perf \<Longrightarrow> tracks Bk ts sl R \<Longrightarrow> fst ` set rs \<subseteq> ts \<Longrightarrow>
    \<forall>t \<in> ts. \<forall>t' \<in> ts. t - t' \<le> decode_timeout fec \<Longrightarrow> \<forall>r \<in> set rs. genuine N K D Bk (snd r) \<Longrightarrow>
    card ({b. R b \<noteq> {}} \<union> fst ` set (map (block_and_degree N \<circ> snd) rs)) \<le> length sl \<Longrightarrow>
    \<forall>b. finite (R b) \<and> (codeword N (N - K) D (Bk b) \<or> card (R b \<union> degrees b (map (block_and_degree N \<circ> snd) rs)) < K) \<Longrightarrow>
    \<exists>fec' perf'. rs_recv mem stack fec rs (perf, w) =
      Some (fec', perf', w @ map (\<lambda>(b, d). Bk b d) (recv_ref N K R (map (block_and_degree N \<circ> snd) rs)))"
proof (induction rs arbitrary: fec sl perf R w)
  case (Cons r rs)
  obtain now h p where r: "r = (now, h, p)" by (cases r)
  obtain b d where bd: "block_and_degree N (h, p) = (b, d)" by (cases "block_and_degree N (h, p)")
  define ps where "ps = map (block_and_degree N \<circ> snd) rs"
  have ps: "map (block_and_degree N \<circ> snd) (r # rs) = (b, d) # ps" using r bd by (simp add: ps_def)
  define R' where "R' = (if card (R b) = K \<or> d \<in> R b then R else R(b := insert d (R b)))"
  have fin: "finite (degrees x ps)" for x by (rule finite_subset [of _ "snd ` set ps"]) (force simp: degrees_def)+
  have R': "{x. R' x \<noteq> {}} \<subseteq> insert b {x. R x \<noteq> {}}" "R' x \<subseteq> R x \<union> degrees x ((b, d) # ps)" "finite (R' x)" for x
    using Cons.prems(8) by (auto simp: R'_def degrees_def)
  have sub: "R' x \<union> degrees x ps \<subseteq> R x \<union> degrees x ((b, d) # ps)" for x using R'(2) [of x] by (auto simp: degrees_def)
  have finU: "finite (R x \<union> degrees x ((b, d) # ps))" for x
    using fin [of x] Cons.prems(8) by (auto simp: degrees_def intro: finite_subset [of _ "insert d {d. (x, d) \<in> set ps}"])
  have room: "card (insert b {x. R x \<noteq> {}} \<union> fst ` set ps) \<le> length sl" using Cons.prems(7) unfolding ps by simp
  have "card (insert b {x. R x \<noteq> {}}) \<le> length sl" by (rule order_trans [OF card_mono room]) auto
  moreover have "codeword N (N - K) D (Bk b)" if "card (R b) \<noteq> K" "d \<notin> R b" "card (insert d (R b)) = K"
  proof (rule ccontr)
    assume "\<not> codeword N (N - K) D (Bk b)"
    then have "card (R b \<union> degrees b ((b, d) # ps)) < K" using Cons.prems(8) unfolding ps by blast
    moreover have "card (insert d (R b)) \<le> card (R b \<union> degrees b ((b, d) # ps))" by (rule card_mono [OF finU]) (auto simp: degrees_def)
    ultimately show False using that(3) by simp
  qed
  moreover have "now \<in> ts" "genuine N K D Bk (h, p)" using Cons.prems(4,6) r by auto
  ultimately obtain fec1 perf1 sl1 where s: "nt_rs_fec_decode mem stack now fec h p (int (length p)) deliver_to (perf, w) =
      Some (0, fec1, perf1, w @ map (\<lambda>(b, d). Bk b d) (if card (R b) = K \<or> d \<in> R b then [] else gain N K b d (R b)))"
    "rs_rep N K D fec1 sl1" "nt_perf perf1" "decode_timeout fec1 = decode_timeout fec" "length sl1 = length sl" "tracks Bk ts sl1 R'"
    using decode_genuine [OF Cons.prems(1-3) _ Cons.prems(5) _ bd _ _ _ D, of now mem stack w] len unfolding R'_def by blast
  have c1: "card ({x. R' x \<noteq> {}} \<union> fst ` set ps) \<le> length sl1" unfolding s(5)
    by (rule order_trans [OF card_mono room]) (use R'(1) in auto)
  have c2: "\<forall>x. finite (R' x) \<and> (codeword N (N - K) D (Bk x) \<or> card (R' x \<union> degrees x ps) < K)"
    using R'(3) Cons.prems(8) card_mono [OF finU sub] unfolding ps by (meson le_less_trans)
  have pre: "fst ` set rs \<subseteq> ts" "\<forall>t \<in> ts. \<forall>t' \<in> ts. t - t' \<le> decode_timeout fec1" "\<forall>r \<in> set rs. genuine N K D Bk (snd r)"
    using Cons.prems(4-6) s(4) by simp_all
  obtain fec' perf' where "rs_recv mem stack fec1 rs (perf1, w @ map (\<lambda>(b, d). Bk b d) (if card (R b) = K \<or> d \<in> R b then [] else gain N K b d (R b))) =
      Some (fec', perf', (w @ map (\<lambda>(b, d). Bk b d) (if card (R b) = K \<or> d \<in> R b then [] else gain N K b d (R b))) @
        map (\<lambda>(b, d). Bk b d) (recv_ref N K R' ps))"
    using Cons.IH [OF s(2,3,6) pre c1 [unfolded ps_def] c2 [unfolded ps_def]] unfolding ps_def by blast
  then show ?case using s(1) unfolding ps by (auto simp: r R'_def)
qed simp

section \<open>Which messages arrive\<close>

lemma degrees_Cons: "degrees b ((b', d) # ps) = (if b = b' then insert d (degrees b ps) else degrees b ps)"
  by (auto simp: degrees_def)

lemma degrees_append: "degrees b (xs @ ys) = degrees b xs \<union> degrees b ys"
  by (auto simp: degrees_def)

lemma finite_degrees [simp]: "finite (degrees b ps)"
  by (rule finite_subset [of _ "snd ` set ps"]) (force simp: degrees_def)+

lemma degrees_gain:
  "degrees b (gain N K b' d S) = (if b = b' then ({N - K..<N} \<inter> {d}) \<union> (if card (insert d S) = K then {N - K..<N} - insert d S else {}) else {})"
  if "d < N"
  using that by (auto simp: degrees_def gain_def)

lemma distinct_gain: "distinct (gain N K b d S)"
  by (auto simp: gain_def distinct_map inj_on_def)

definition arrivals :: "nat \<Rightarrow> nat \<Rightarrow> nat set \<Rightarrow> nat set \<Rightarrow> nat set" where
  "arrivals N K S A = (if card S = K then {} else if K \<le> card (S \<union> A) then {N - K..<N} - S else {N - K..<N} \<inter> A - S)"

lemma arrivals_step:
  assumes "finite A" "finite S" "d < N" "d \<notin> S" "card S < K"
  shows "arrivals N K S (insert d A) = (({N - K..<N} \<inter> {d}) \<union> (if card (insert d S) = K then {N - K..<N} - insert d S else {})) \<union>
      arrivals N K (insert d S) A"
    "(({N - K..<N} \<inter> {d}) \<union> (if card (insert d S) = K then {N - K..<N} - insert d S else {})) \<inter> arrivals N K (insert d S) A = {}"
proof -
  have U: "S \<union> insert d A = insert d S \<union> A" by auto
  have "card (insert d S) \<le> card (S \<union> insert d A)" using assms(1,2) by (intro card_mono) auto
  then show "arrivals N K S (insert d A) = (({N - K..<N} \<inter> {d}) \<union> (if card (insert d S) = K then {N - K..<N} - insert d S else {})) \<union>
      arrivals N K (insert d S) A"
    using assms unfolding arrivals_def U by auto
  show "(({N - K..<N} \<inter> {d}) \<union> (if card (insert d S) = K then {N - K..<N} - insert d S else {})) \<inter> arrivals N K (insert d S) A = {}"
    by (auto simp: arrivals_def)
qed

lemma recv_ref_arrivals:
  "\<forall>(b, d) \<in> set ps. d < N \<Longrightarrow> \<forall>b. finite (R b) \<and> card (R b) \<le> K \<Longrightarrow>
   distinct (recv_ref N K R ps) \<and> (\<forall>b. degrees b (recv_ref N K R ps) = arrivals N K (R b) (degrees b ps))"
proof (induction ps arbitrary: R)
  case Nil
  then show ?case by (auto simp: arrivals_def degrees_def) (metis le_antisym)
next
  case (Cons q ps)
  obtain b d where q: "q = (b, d)" by (cases q)
  have IH: "distinct (recv_ref N K R' ps)" "\<And>b. degrees b (recv_ref N K R' ps) = arrivals N K (R' b) (degrees b ps)"
    if "\<forall>b. finite (R' b) \<and> card (R' b) \<le> K" for R' using Cons.IH [OF _ that] Cons.prems(1) by auto
  show ?case
  proof (cases "card (R b) = K \<or> d \<in> R b")
    case True
    then have "arrivals N K (R x) (degrees x (q # ps)) = arrivals N K (R x) (degrees x ps)" for x
      by (auto simp: q degrees_Cons arrivals_def insert_absorb)
    then show ?thesis using True IH [OF Cons.prems(2)] by (simp add: q)
  next
    case False
    let ?R = "R(b := insert d (R b))"
    have R: "card (R b) < K" "finite (R b)" "d < N" using False Cons.prems by (auto simp: q le_less)
    then have "\<forall>b. finite (?R b) \<and> card (?R b) \<le> K" using Cons.prems(2) False by auto
    note IH' = IH [of ?R, OF this]
    note step = arrivals_step [OF finite_degrees [of b ps] R(2,3) _ R(1)]
    have "degrees x (recv_ref N K R (q # ps)) = arrivals N K (R x) (degrees x (q # ps))" for x
      using False step(1) by (simp add: q degrees_append degrees_gain [OF R(3)] IH'(2) degrees_Cons)
    moreover have "degrees x (gain N K b d (R b)) \<inter> degrees x (recv_ref N K ?R ps) = {}" for x
      using False step(2) by (simp add: degrees_gain [OF R(3)] IH'(2))
    then have "set (gain N K b d (R b)) \<inter> set (recv_ref N K ?R ps) = {}" by (auto simp: degrees_def)
    ultimately show ?thesis using False IH'(1) by (simp add: q distinct_gain)
  qed
qed

section \<open>From the sender to the receiver\<close>

text \<open>The indices, within the block \<open>b\<close>, of the packets that arrive.\<close>

definition indices :: "u32 \<Rightarrow> (int \<times> packet) list \<Rightarrow> nat set" where
  "indices b rs = {unat (fh_block_index (fst q)) | now q. (now, q) \<in> set rs \<and> nt_fec_header_block_id (fst q) = b}"

lemma pkt_simps:
  assumes "N \<le> 31" "K < N" "x < N"
  shows "nt_fec_header_block_id (fst (pkt N K b x q)) = b" "unat (fh_block_index (fst (pkt N K b x q))) = x"
    "header_ok N K (fst (pkt N K b x q))" "snd (pkt N K b x q) = q" "packet_degree N (fst (pkt N K b x q)) = N - 1 - x"
  using assms by (simp_all add: pkt_def header_ok_def packet_degree_def unat_of_nat take_bit_nat_eq_self)

lemma in_sent_packets:
  "q \<in> set (sent_packets N K b Bk n r) \<longleftrightarrow>
   (\<exists>j x. (j < n \<and> x < N \<or> j = n \<and> x < r) \<and> q = pkt N K (b + of_nat j) x (Bk j (N - 1 - x)))"
proof -
  have "set (sent_packets N K b Bk n r) = (\<Union>j \<in> {0..<Suc n}. (\<lambda>x. pkt N K (b + of_nat j) x (Bk j (N - 1 - x))) ` {0..<if j < n then N else r})"
    by (simp add: sent_packets_def del: upt_Suc)
  then have "q \<in> set (sent_packets N K b Bk n r) \<longleftrightarrow>
      (\<exists>j x. (j \<le> n \<and> x < (if j < n then N else r)) \<and> q = pkt N K (b + of_nat j) x (Bk j (N - 1 - x)))"
    by (simp only: UN_iff image_iff Bex_def atLeastLessThan_iff less_Suc_eq_le le0 simp_thms) blast
  moreover have "(j \<le> n \<and> x < (if j < n then N else r)) \<longleftrightarrow> (j < n \<and> x < N \<or> j = n \<and> x < r)" for j x by auto
  ultimately show ?thesis by (simp only:)
qed

lemma unat_block: "j \<le> n \<Longrightarrow> n < 2 ^ 31 \<Longrightarrow> unat ((b :: u32) + of_nat j - b) = j"
  by (simp add: unat_of_nat take_bit_nat_eq_self)

text \<open>What holds of packets taken from those that were sent.\<close>

lemma received_packets:
  assumes N: "N \<le> 31" "K < N" and r: "r < K" and n: "n < 2 ^ 31" and sub: "snd ` set rs \<subseteq> set (sent_packets N K b0 Bk n r)"
    and len: "\<forall>j. \<forall>d < N. length (Bk j d) \<le> (if N - K \<le> d then D else D + 4)"
  defines "ps \<equiv> map (block_and_degree N \<circ> snd) rs"
  shows "\<forall>e \<in> set rs. genuine N K D (\<lambda>b. Bk (unat (b - b0))) (snd e)"
    and "x \<in> indices b rs \<Longrightarrow> \<exists>j. b = b0 + of_nat j \<and> (j < n \<and> x < N \<or> j = n \<and> x < r)"
    and "degrees b ps = (\<lambda>x. N - 1 - x) ` indices b rs" and "card (degrees b ps) = card (indices b rs)"
    and "fst ` set ps = {b. indices b rs \<noteq> {}}"
proof -
  have q: "\<exists>j x. (j < n \<and> x < N \<or> j = n \<and> x < r) \<and> x < N \<and> q = pkt N K (b0 + of_nat j) x (Bk j (N - 1 - x)) \<and> unat (b0 + of_nat j - b0) = j"
    if "(now, q) \<in> set rs" for now q
  proof -
    have "q \<in> set (sent_packets N K b0 Bk n r)" using that sub by force
    then obtain j x where "j < n \<and> x < N \<or> j = n \<and> x < r" "q = pkt N K (b0 + of_nat j) x (Bk j (N - 1 - x))" by (auto simp: in_sent_packets)
    then show ?thesis using unat_block [of j n b0] n r N(2) by (intro exI [of _ j] exI [of _ x]) auto
  qed
  show "\<forall>e \<in> set rs. genuine N K D (\<lambda>b. Bk (unat (b - b0))) (snd e)"
  proof
    fix e assume e: "e \<in> set rs"
    then obtain j x where jx: "x < N" "snd e = pkt N K (b0 + of_nat j) x (Bk j (N - 1 - x))" "unat (b0 + of_nat j - b0) = j"
      using q [of "fst e" "snd e"] by auto
    note simps = pkt_simps [OF N jx(1), of "b0 + of_nat j" "Bk j (N - 1 - x)", folded jx(2)]
    have "int (length (Bk j (N - 1 - x))) \<le> (if N - K \<le> N - 1 - x then int D else int D + 4)"
      using len [rule_format, of "N - 1 - x" j] jx(1) by (auto split: if_splits)
    then show "genuine N K D (\<lambda>b. Bk (unat (b - b0))) (snd e)"
      using simps jx(1,3) unfolding genuine_def size_fits_def by (simp add: case_prod_beta)
  qed
  show idx: "\<exists>j. b = b0 + of_nat j \<and> (j < n \<and> x < N \<or> j = n \<and> x < r)" if "x \<in> indices b rs" for b x
  proof -
    obtain now q' where "(now, q') \<in> set rs" "nt_fec_header_block_id (fst q') = b" "x = unat (fh_block_index (fst q'))"
      using \<open>x \<in> indices b rs\<close> by (auto simp: indices_def)
    then show ?thesis using q [of now q'] pkt_simps [OF N] by fastforce
  qed
  show deg: "degrees b ps = (\<lambda>x. N - 1 - x) ` indices b rs" for b
    by (force simp: degrees_def ps_def indices_def block_and_degree_def packet_degree_def)
  have "indices b rs \<subseteq> {..<N}" using idx r N(2) by force
  then have "inj_on (\<lambda>x. N - 1 - x) (indices b rs)"
    by (rule inj_on_subset [rotated]) (auto simp: inj_on_def)
  then show "card (degrees b ps) = card (indices b rs)" by (simp add: deg card_image)
  show "fst ` set ps = {b. indices b rs \<noteq> {}}" by (force simp: ps_def indices_def block_and_degree_def)
qed

text \<open>The number of the message of degree \<open>d\<close> in the block \<open>b\<close>.\<close>

definition message_of :: "nat \<Rightarrow> nat \<Rightarrow> u32 \<Rightarrow> u32 \<times> nat \<Rightarrow> nat" where
  "message_of N K b0 bd = K * unat (fst bd - b0) + (N - 1 - snd bd)"

lemma message_of_div:
  assumes "0 < K" "K < N" "d \<in> {N - K..<N}"
  shows "message_of N K b0 (b, d) div K = unat (b - b0)" "message_of N K b0 (b, d) mod K = N - 1 - d"
proof -
  obtain e where e: "N - 1 - d = e" "e < K" using assms by auto
  then show "message_of N K b0 (b, d) div K = unat (b - b0)" "message_of N K b0 (b, d) mod K = N - 1 - d"
    unfolding message_of_def fst_conv snd_conv e(1) by simp_all
qed

lemma message_of_inj:
  assumes "0 < K" "K < N" "d \<in> {N - K..<N}" "d' \<in> {N - K..<N}" "message_of N K b0 (b, d) = message_of N K b0 (b', d')"
  shows "b = b'" "d = d'"
proof -
  have "unat (b - b0) = unat (b' - b0)" "N - 1 - d = N - 1 - d'"
    using message_of_div [OF assms(1,2,3), of b0 b] message_of_div [OF assms(1,2,4), of b0 b'] assms(5) by simp_all
  then show "b = b'" "d = d'" using assms(3,4) by (auto simp: word_unat_eq_iff [symmetric])
qed

lemma delivered_iff:
  assumes NK: "0 < K" "K < N" "N \<le> 31" and r: "r < K" and n: "n < 2 ^ 31"
    and sub: "snd ` set rs \<subseteq> set (sent_packets N K b0 Bk n r)"
    and len: "\<forall>j. \<forall>d < N. length (Bk j d) \<le> (if N - K \<le> d then D else D + 4)"
  defines "out \<equiv> recv_ref N K (\<lambda>_. {}) (map (block_and_degree N \<circ> snd) rs)"
  shows "distinct out" and "(b, d) \<in> set out \<longleftrightarrow> d \<in> {N - K..<N} \<and> (K \<le> card (indices b rs) \<or> N - 1 - d \<in> indices b rs)"
proof -
  define ps where "ps = map (block_and_degree N \<circ> snd) rs"
  note recv = received_packets [OF NK(3,2) r n sub len]
  have "\<forall>(b, d) \<in> set ps. d < N" using NK by (auto simp: ps_def block_and_degree_def packet_degree_def)
  then have out: "distinct out" "\<And>b. degrees b out = arrivals N K {} (degrees b ps)"
    using recv_ref_arrivals [of ps N "\<lambda>_. {}" K] by (simp_all add: out_def ps_def)
  show "distinct out" by (rule out(1))
  show "(b, d) \<in> set out \<longleftrightarrow> d \<in> {N - K..<N} \<and> (K \<le> card (indices b rs) \<or> N - 1 - d \<in> indices b rs)"
  proof -
    have "d \<in> (\<lambda>x. N - 1 - x) ` indices b rs \<longleftrightarrow> N - 1 - d \<in> indices b rs" if "d < N"
    proof
      assume "d \<in> (\<lambda>x. N - 1 - x) ` indices b rs"
      then obtain x where "x \<in> indices b rs" "d = N - 1 - x" by blast
      moreover from this have "x < N" using recv(2) r NK(2) by force
      ultimately show "N - 1 - d \<in> indices b rs" by simp
    qed (use that in \<open>auto intro!: rev_image_eqI\<close>)
    moreover have "(b, d) \<in> set out \<longleftrightarrow> d \<in> degrees b out" by (simp add: degrees_def)
    ultimately show ?thesis using NK(1) recv(3,4) [of b, folded ps_def] by (auto simp: out(2) arrivals_def)
  qed
qed

lemma delivered_message:
  fixes rs :: "(int \<times> packet) list"
  assumes NK: "0 < K" "K < N" "N \<le> 31" and r: "r < K" and n: "n < 2 ^ 31" and ms: "length ms = K * n + r"
    and sub: "snd ` set rs \<subseteq> set (sent_packets N K b0 Bk n r)"
    and len: "\<forall>j. \<forall>d < N. length (Bk j d) \<le> (if N - K \<le> d then D else D + 4)"
  defines "out \<equiv> recv_ref N K (\<lambda>_. {}) (map (block_and_degree N \<circ> snd) rs)"
  assumes that: "(b, d) \<in> set out"
  shows "message_of N K b0 (b, d) < length ms \<and> b = b0 + of_nat (message_of N K b0 (b, d) div K)"
proof -
  note recv = received_packets [OF NK(3,2) r n sub len]
  have d: "d \<in> {N - K..<N}" and a: "K \<le> card (indices b rs) \<or> N - 1 - d \<in> indices b rs" using that delivered_iff(2) [OF NK r n sub len] by (auto simp: out_def)
  then obtain x where "x \<in> indices b rs" using NK(1) by fastforce
  then obtain j where j: "b = b0 + of_nat j" "j < n \<or> j = n" using recv(2) by blast
  have u: "unat (b - b0) = j" unfolding j(1) by (rule unat_block [OF _ n]) (use j(2) in auto)
  have "N - 1 - d < r" if "j = n"
  proof -
    have lt: "x < r" if "x \<in> indices b rs" for x
    proof -
      obtain j' where "b = b0 + of_nat j'" "j' < n \<and> x < N \<or> j' = n \<and> x < r" using recv(2) [OF \<open>x \<in> indices b rs\<close>] by blast
      moreover from this have "j' = j" using u unat_block [of j' n b0] n by auto
      ultimately show ?thesis using \<open>j = n\<close> by simp
    qed
    then have "card (indices b rs) \<le> card {..<r}" by (intro card_mono) auto
    then show ?thesis using a r lt by auto
  qed
  moreover have "K * j + (N - 1 - d) < K * n" if "j < n"
  proof -
    have "K * j + (N - 1 - d) < K * Suc j" using d NK(2) by auto
    also have "\<dots> \<le> K * n" using that by (intro mult_le_mono2) simp
    finally show ?thesis .
  qed
  ultimately have "message_of N K b0 (b, d) < length ms" using j(2) ms u by (auto simp: message_of_def)
  then show ?thesis using message_of_div(1) [OF NK(1,2) d, of b0 b] u j(1) by simp
qed

lemma delivered_messages:
  assumes NK: "0 < K" "K < N" "N \<le> 31" and r: "r < K" and n: "n < 2 ^ 31" and ms: "length ms = K * n + r"
    and sub: "snd ` set rs \<subseteq> set (sent_packets N K b0 Bk n r)"
    and len: "\<forall>j. \<forall>d < N. length (Bk j d) \<le> (if N - K \<le> d then D else D + 4)"
    and raw: "\<forall>i < length ms. Bk (i div K) (N - 1 - i mod K) = ms ! i"
  defines "out \<equiv> recv_ref N K (\<lambda>_. {}) (map (block_and_degree N \<circ> snd) rs)"
  shows "distinct (map (message_of N K b0) out) \<and>
    map (\<lambda>(b, d). Bk (unat (b - b0)) d) out = map ((!) ms) (map (message_of N K b0) out) \<and>
    (\<forall>i. i \<in> set (map (message_of N K b0) out) \<longleftrightarrow> i < length ms \<and>
      (i mod K \<in> indices (b0 + of_nat (i div K)) rs \<or> K \<le> card (indices (b0 + of_nat (i div K)) rs)))"
proof -
  note out = delivered_iff(1) [OF NK r n sub len, folded out_def] and arr = delivered_iff(2) [OF NK r n sub len, folded out_def]
    and found = delivered_message [OF NK r n ms sub len, folded out_def]
  have raw_out: "Bk (unat (b - b0)) d = ms ! message_of N K b0 (b, d)" if "(b, d) \<in> set out" for b d
  proof -
    have d: "d \<in> {N - K..<N}" using that arr by auto
    then have "N - 1 - (N - 1 - d) = d" by auto
    then show ?thesis using raw [rule_format, OF conjunct1 [OF found [OF that]]] message_of_div [OF NK(1,2) d, of b0 b] by simp
  qed
  have "inj_on (message_of N K b0) (set out)"
    by (intro inj_onI) (metis arr message_of_inj [OF NK(1,2)] prod.exhaust)
  then have "distinct (map (message_of N K b0) out)" using out by (simp add: distinct_map)
  moreover have "map (\<lambda>(b, d). Bk (unat (b - b0)) d) out = map ((!) ms) (map (message_of N K b0) out)" using raw_out by auto
  moreover have "i \<in> set (map (message_of N K b0) out) \<longleftrightarrow> i < length ms \<and>
      (i mod K \<in> indices (b0 + of_nat (i div K)) rs \<or> K \<le> card (indices (b0 + of_nat (i div K)) rs))" for i
  proof
    assume "i \<in> set (map (message_of N K b0) out)"
    then obtain b d where bd: "(b, d) \<in> set out" "i = message_of N K b0 (b, d)" by auto
    then have "d \<in> {N - K..<N}" using arr by auto
    then show "i < length ms \<and> (i mod K \<in> indices (b0 + of_nat (i div K)) rs \<or> K \<le> card (indices (b0 + of_nat (i div K)) rs))"
      using bd found [OF bd(1)] arr message_of_div(2) [OF NK(1,2), of d b0 b] by auto
  next
    assume i: "i < length ms \<and> (i mod K \<in> indices (b0 + of_nat (i div K)) rs \<or> K \<le> card (indices (b0 + of_nat (i div K)) rs))"
    let ?b = "b0 + of_nat (i div K)" and ?d = "N - 1 - i mod K"
    have m: "i mod K < K" using NK(1) by simp
    have d: "?d \<in> {N - K..<N}" "N - 1 - ?d = i mod K" using m NK(2) by auto
    have "i div K \<le> n" using i ms r NK(1) by (metis add_less_cancel_left div_less_iff_less_mult less_Suc_eq_le mult.commute mult_Suc_right add.commute less_trans)
    then have "unat (?b - b0) = i div K" by (rule unat_block [OF _ n])
    then have "message_of N K b0 (?b, ?d) = i" using d(2) by (simp add: message_of_def)
    moreover have "(?b, ?d) \<in> set out" using i d by (simp add: arr) blast
    ultimately show "i \<in> set (map (message_of N K b0) out)" by force
  qed
  ultimately show ?thesis by blast
qed

lemma receive_sent:
  assumes NK: "0 < K" "K < N" "N \<le> 31" and D: "0 < D" and len: "length ms = K * n + r" "r < K" and n: "n < 2 ^ 31"
    and nr: "(if r = 0 then n else Suc n) \<le> cap" and cw: "\<forall>j < n. codeword N (N - K) D (Bk j)"
    and raw: "\<forall>i < length ms. Bk (i div K) (N - 1 - i mod K) = ms ! i"
    and lenB: "\<forall>j. \<forall>d < N. length (Bk j d) \<le> (if N - K \<le> d then D else D + 4)"
    and fr: "rs_rep N K D fr (fresh_slots B cap)" "decode_timeout fr = timeout" and perf: "nt_perf perf"
    and sub: "snd ` set rs \<subseteq> set (sent_packets N K b0 Bk n r)" and ts: "\<forall>t \<in> fst ` set rs. \<forall>t' \<in> fst ` set rs. t - t' \<le> timeout"
  shows "\<exists>fr' perf' is. rs_recv mem stack fr rs (perf, []) = Some (fr', perf', map ((!) ms) is) \<and> distinct is \<and>
    (\<forall>i. i \<in> set is \<longleftrightarrow> i < length ms \<and> (i mod K \<in> indices (b0 + of_nat (i div K)) rs \<or>
      K \<le> card (indices (b0 + of_nat (i div K)) rs)))"
proof -
  define Bf where "Bf = (\<lambda>b. Bk (unat (b - b0)))"
  let ?ps = "map (block_and_degree N \<circ> snd) rs"
  note recv = received_packets [OF NK(3,2) len(2) n sub lenB]
  have lenF: "\<forall>b. \<forall>d < N. N - K \<le> d \<longrightarrow> length (Bf b d) \<le> D" unfolding Bf_def using lenB by metis
  have blocks: "{b. indices b rs \<noteq> {}} \<subseteq> (\<lambda>j. b0 + of_nat j) ` {..<if r = 0 then n else Suc n}"
    using recv(2) by (fastforce simp: less_Suc_eq)
  have "card ({b. (\<lambda>_. {}) b \<noteq> ({} :: nat set)} \<union> fst ` set ?ps) \<le> length (fresh_slots (B) cap)"
    unfolding recv(5) using le_trans [OF card_mono [OF _ blocks] le_trans [OF card_image_le]] nr by (simp add: fresh_slots_def)
  moreover have "\<forall>b. finite {} \<and> (codeword N (N - K) D (Bf b) \<or> card ({} \<union> degrees b ?ps) < K)"
  proof (intro allI conjI)
    fix b
    show "codeword N (N - K) D (Bf b) \<or> card ({} \<union> degrees b ?ps) < K"
    proof (cases "\<exists>j < n. b = b0 + of_nat j")
      case True
      then show ?thesis using cw unat_block [OF _ n] by (auto simp: Bf_def)
    next
      case False
      then have "indices b rs \<subseteq> {..<r}" using recv(2) by blast
      then have "card (indices b rs) \<le> r" using card_mono [of "{..<r}"] by auto
      then show ?thesis using recv(4) len(2) by simp
    qed
  qed simp
  ultimately obtain fr' perf' where "rs_recv mem stack fr rs (perf, []) =
      Some (fr', perf', [] @ map (\<lambda>(b, d). Bf b d) (recv_ref N K (\<lambda>_. {}) ?ps))"
    using rs_recv_spec [OF D lenF fr(1) perf tracks_fresh subset_refl _ recv(1) [folded Bf_def], of mem stack "[]"] ts fr(2) by blast
  then show ?thesis
    using delivered_messages [OF NK len(2) n len(1) sub lenB raw] unfolding Bf_def by (metis append_Nil)
qed

text \<open>
  C4. Messages survive the loss of packets. A sender initialised for \<open>K\<close> out of \<open>N\<close> packets encodes any
  number of messages of at most \<open>D\<close> bytes. Lose, repeat and reorder its packets at will: as long as the
  receiver has a context for every block and no block expires, every call returns 0, and message \<open>i\<close> is
  delivered, with its exact bytes and exactly once, if and only if the packet that carries it arrived or
  at least \<open>K\<close> packets of its block did.
\<close>

theorem rs_fec_recovers:
  assumes NK: "0 < K" "K < N" "N \<le> 31" "(D + 4) * (N - K) < 2 ^ 31" and D: "0 < D" and cap: "2 \<le> cap" "cap < 2 ^ 31"
    and ms: "\<forall>m \<in> set ms. length m \<le> D" "length ms \<le> K * cap"
  shows "\<exists>fs fr perf fs' sent.
    nt_rs_fec_init words mem links kvs bufs eb (of_nat N) (of_nat K) (int D) (int cap) timeout g = Some fs \<and>
    nt_rs_fec_init words' mem' links' kvs' bufs' eb' (of_nat N) (of_nat K) (int D) (int cap) timeout g' = Some fr \<and>
    perf_init mem'' cell nt_counter_names nt_counter_num = Some perf \<and> rs_fec_send stack fs ms [] = Some (fs', sent) \<and>
    (\<forall>rs. snd ` set rs \<subseteq> set sent \<and> (\<forall>t \<in> fst ` set rs. \<forall>t' \<in> fst ` set rs. t - t' \<le> timeout) \<longrightarrow>
      (\<exists>fr' perf' is. rs_recv mem' stack' fr rs (perf, []) = Some (fr', perf', map ((!) ms) is) \<and> distinct is \<and>
        (\<forall>i. i \<in> set is \<longleftrightarrow> i < length ms \<and> (i mod K \<in> indices (idgen_id g + of_nat (i div K)) rs \<or>
          K \<le> card (indices (idgen_id g + of_nat (i div K)) rs)))))"
proof -
  let ?b0 = "idgen_id g"
  define n where "n = length ms div K" define r where "r = length ms mod K"
  have len: "length ms = K * n + r" "r < K" using NK(1) by (simp_all add: n_def r_def)
  have nr: "(if r = 0 then n else Suc n) \<le> cap"
  proof (cases "r = 0")
    case True
    then have "K * n \<le> K * cap" using ms(2) len(1) by simp
    then show ?thesis using True NK(1) by simp
  next
    case False
    then have "K * n < K * cap" using ms(2) len(1) by linarith
    then show ?thesis using False by simp
  qed
  then have n: "n < 2 ^ 31" using cap(2) by (auto split: if_splits)
  obtain fs where fs: "nt_rs_fec_init words mem links kvs bufs eb (of_nat N) (of_nat K) (int D) (int cap) timeout g = Some fs"
    "enc_inv N K D fs ?b0 []" using rs_fec_init_spec [OF NK cap] by blast
  obtain fs' Bk where s: "rs_fec_send stack fs ms [] = Some (fs', sent_packets N K ?b0 Bk n r)" "\<forall>j < n. codeword N (N - K) D (Bk j)"
    "\<forall>i < length ms. Bk (i div K) (N - 1 - i mod K) = ms ! i" "\<forall>j. \<forall>d < N. length (Bk j d) \<le> (if N - K \<le> d then D else D + 4)"
    using send_blocks [OF NK(1,2) fs(2) len ms(1), of stack "[]"] by auto
  obtain fr where fr: "nt_rs_fec_init words' mem' links' kvs' bufs' eb' (of_nat N) (of_nat K) (int D) (int cap) timeout g' = Some fr"
    "rs_rep N K D fr (fresh_slots (\<lambda>_. []) cap)" "decode_timeout fr = timeout" using rs_fec_init_spec [OF NK cap] by blast
  obtain perf where perf: "perf_init mem'' cell nt_counter_names nt_counter_num = Some perf" "nt_perf perf"
    using nt_perf_init [of mem'' cell] by blast
  note receive_sent [OF NK(1-3) D len n nr s(2-4) fr(2,3) perf(2)]
  then show ?thesis using fs(1) fr(1) perf(1) s(1)
    by (intro exI [of _ fs] exI [of _ fr] exI [of _ perf] exI [of _ fs'] exI [of _ "sent_packets N K ?b0 Bk n r"] conjI) simp_all
qed

definition some_ec :: encode_buffer_t where
  "some_ec = \<lparr>eb_block_id = 5, eb_buffer = \<lparr>ec_count = 9, checks = []\<rparr>\<rparr>"

definition some_dc :: decode_buffer_t where
  "some_dc = \<lparr>db_block_id = 5, db_buffer = \<lparr>dc_count = 1, mask = [], syndromes = [], erasure_degrees = [], erasure_num = 0, raw_erasure_num = 0\<rparr>,
     timestamp = 77\<rparr>"

theorem rs_fec_recovers_witness:
  "\<exists>fs fr perf fs' sent fr' perf' is.
    nt_rs_fec_init (\<lambda>_. 9) no_entry (\<lambda>_. \<lparr>prev = None, next = None\<rparr>) (\<lambda>_. (3, 4)) (\<lambda>_. some_dc) some_ec 3 2 4 2 100 (idgen_init 7) = Some fs \<and>
    nt_rs_fec_init (\<lambda>_. 8) no_entry (\<lambda>_. \<lparr>prev = None, next = None\<rparr>) (\<lambda>_. (3, 4)) (\<lambda>_. some_dc) some_ec 3 2 4 2 100 (idgen_init 0) = Some fr \<and>
    perf_init some_counter (\<lambda>_. 5) nt_counter_names nt_counter_num = Some perf \<and>
    rs_fec_send (\<lambda>_. 1) fs [[1, 2, 3], [4], [5, 6]] [] = Some (fs', sent) \<and>
    rs_recv no_entry (\<lambda>_. 1) fr (map (Pair 50) (drop 1 sent)) (perf, []) = Some (fr', perf', map ((!) [[1, 2, 3], [4], [5, 6]]) is) \<and> distinct is"
proof -
  let ?ms = "[[1, 2, 3], [4], [5, 6]] :: u8 list list"
  have p: "0 < (2 :: nat)" "2 < (3 :: nat)" "3 \<le> (31 :: nat)" "(4 + 4) * (3 - 2) < (2 ^ 31 :: nat)" "0 < (4 :: nat)" "2 \<le> (2 :: nat)" "2 < (2 ^ 31 :: nat)"
    "\<forall>m \<in> set ?ms. length m \<le> 4" "length ?ms \<le> 2 * 2" by simp_all
  obtain fs fr perf fs' sent where w:
    "nt_rs_fec_init (\<lambda>_. 9) no_entry (\<lambda>_. \<lparr>prev = None, next = None\<rparr>) (\<lambda>_. (3, 4)) (\<lambda>_. some_dc) some_ec (of_nat 3) (of_nat 2) (int 4) (int 2) 100 (idgen_init 7) = Some fs"
    "nt_rs_fec_init (\<lambda>_. 8) no_entry (\<lambda>_. \<lparr>prev = None, next = None\<rparr>) (\<lambda>_. (3, 4)) (\<lambda>_. some_dc) some_ec (of_nat 3) (of_nat 2) (int 4) (int 2) 100 (idgen_init 0) = Some fr"
    "perf_init some_counter (\<lambda>_. 5) nt_counter_names nt_counter_num = Some perf"
    "rs_fec_send (\<lambda>_. 1) fs ?ms [] = Some (fs', sent)"
    "\<forall>rs. snd ` set rs \<subseteq> set sent \<and> (\<forall>t \<in> fst ` set rs. \<forall>t' \<in> fst ` set rs. t - t' \<le> 100) \<longrightarrow>
      (\<exists>fr' perf' is. rs_recv no_entry (\<lambda>_. 1) fr rs (perf, []) = Some (fr', perf', map ((!) ?ms) is) \<and> distinct is \<and>
        (\<forall>i. i \<in> set is \<longleftrightarrow> i < length ?ms \<and> (i mod 2 \<in> indices (idgen_id (idgen_init 7) + of_nat (i div 2)) rs \<or>
          2 \<le> card (indices (idgen_id (idgen_init 7) + of_nat (i div 2)) rs))))"
    using rs_fec_recovers [OF p, of "\<lambda>_. 9" no_entry "\<lambda>_. \<lparr>prev = None, next = None\<rparr>" "\<lambda>_. (3, 4)" "\<lambda>_. some_dc" some_ec
        100 "idgen_init 7" "\<lambda>_. 8" no_entry "\<lambda>_. \<lparr>prev = None, next = None\<rparr>" "\<lambda>_. (3, 4)" "\<lambda>_. some_dc" some_ec "idgen_init 0"
        some_counter "\<lambda>_. 5" "\<lambda>_. 1" "\<lambda>_. 1"] by (elim exE conjE)
  let ?rs = "map (Pair (50 :: int)) (drop 1 sent)"
  have "snd ` set ?rs \<subseteq> set sent" using set_drop_subset [of 1 sent] by (simp add: image_image)
  moreover have "\<forall>t \<in> fst ` set ?rs. \<forall>t' \<in> fst ` set ?rs. t - t' \<le> 100" by auto
  ultimately obtain fr' perf' "is" where "rs_recv no_entry (\<lambda>_. 1) fr ?rs (perf, []) = Some (fr', perf', map ((!) ?ms) is)" "distinct is"
    using w(5) [THEN spec, of ?rs] by (elim impE exE conjE) (rule conjI)
  then show ?thesis using w(1-4)
    by (intro exI [of _ fs] exI [of _ fr] exI [of _ perf] exI [of _ fs'] exI [of _ sent] exI [of _ fr'] exI [of _ perf'] exI [of _ "is"]) simp
qed

end
