(* ===== verification/Nt_Rs_Robust.thy ===== *)
theory Nt_Rs_Robust
  imports Nt_Rs_Recover
begin

text \<open>
  The decoder of the Reed-Solomon codec on packets of any contents, as they can come from the network:
  no check fails, no array is left, whatever the headers, sizes and bytes are.
\<close>

section \<open>Robustness against arbitrary packets\<close>

lemma erasure_total:
  assumes ok: "rs_ok rs N K D p" and N: "N \<le> 31" and inv: "dc_inv N (N - K) D B dc S" and S: "card S = K"
    and er: "dc_erasures N (N - K) dc S" and idx: "idx < length (missing S (N - K) N)" and c: "c < D + 4"
  shows "\<exists>v. rscode_decode_erasure (rscode rs) (syndromes dc) (c * (N - K)) (erasure_degrees dc) (unat (erasure_num dc)) idx = Some v"
proof -
  let ?M = "missing S 0 N"
  obtain ss where ss: "syndromes dc = map gf_rep ss" using inv by (auto simp: dc_inv_def)
  have "S \<subseteq> {..<N}" using inv by (simp add: dc_inv_def)
  then have len: "length ?M = N - K" using card_missing [of S N] S by (simp add: length_missing)
  have "\<forall>d \<in> set ?M. d < 255" using N by auto
  then obtain v where "\<forall>i < N - K. col (N - K) ss c i = (\<Sum>j<N - K. v j * (gf_alpha ^ Suc i) ^ (?M ! j))"
    using moments_solvable [OF rs_okD(4) [OF ok] distinct_missing, of S 0 N "col (N - K) ss c"] unfolding len by blast
  then have "\<forall>i < N - K. col (N - K) ss c i = (\<Sum>j<N - K. v j * gf_alpha ^ (?M ! j * Suc i))"
    by (simp only: power_mult [symmetric] mult.commute [of "Suc _"])
  then show ?thesis using erasure_solves [OF ok N inv S er idx c ss] by blast
qed

lemma rs_decode_result_total:
  assumes ok: "rs_ok rs N K D p" and N: "N \<le> 31" and inv: "dc_inv N (N - K) D B dc S" and S: "card S = K"
    and er: "dc_erasures N (N - K) dc S" and idx: "idx < length (missing S (N - K) N)" and buf: "length buf = D"
  shows "\<exists>ret buf' sz deg. rs_decode_result rs dc (int idx) buf (int D) = Some (ret, buf', sz, deg) \<and> length buf' = D \<and> sz \<le> int D"
proof -
  note okD = rs_okD [OF ok]
  obtain T where T: "N - K = T" by simp
  define f where "f = (\<lambda>i. rscode_decode_erasure (rscode rs) (syndromes dc) (i * T) (erasure_degrees dc) (unat (erasure_num dc)) idx)"
  have f: "\<exists>v. f c = Some v" if "c < D + 4" for c using erasure_total [OF ok N inv S er idx that] by (simp add: f_def T)
  have "\<exists>w. for_up 0 4 (\<lambda>i w. do { s \<leftarrow> f i; Some (w OR push_bit (i * 8) s) }) (0 :: u32) = Some w \<and> True"
  proof (rule for_up_rule)
    fix i :: nat and w :: u32 assume "i < 4"
    then show "\<exists>w'. do { s \<leftarrow> f i; Some (w OR push_bit (i * 8) s) } = Some w' \<and> True" using f [of i] by auto
  qed simp_all
  then obtain w where w: "for_up 0 4 (\<lambda>i w. do { s \<leftarrow> f i; Some (w OR push_bit (i * 8) s) }) (0 :: u32) = Some w" by blast
  have body: "\<exists>b. for_up 0 (nat (sint w)) (\<lambda>i b. do { s \<leftarrow> f (i + 4); wr b i (ucast s) }) buf = Some b \<and> length b = D"
    if "sint w \<le> int D"
  proof (rule for_up_rule)
    fix i :: nat and b :: "u8 list" assume ib: "i < nat (sint w)" "length b = D"
    then have "i < D" using that by linarith
    then show "\<exists>b'. do { s \<leftarrow> f (i + 4); wr b i (ucast s) } = Some b' \<and> length b' = D" using f [of "i + 4"] ib(2) by (auto simp: wr_in)
  qed (simp_all add: buf)
  have "int idx < uint (raw_erasure_num dc)"
  proof -
    have "length (missing S (N - K) N) \<le> N" by (simp add: missing_def order_trans [OF length_filter_le])
    then have "unat (raw_erasure_num dc) = length (missing S (N - K) N)"
      using er N by (simp add: dc_erasures_def unat_of_nat take_bit_nat_eq_self)
    then show ?thesis using idx uint_nat [of "raw_erasure_num dc"] by linarith
  qed
  moreover have "idx < length (erasure_degrees dc)"
  proof -
    have "S \<subseteq> {..<N}" using inv by (simp add: dc_inv_def)
    then have "length (missing S (N - K) N) \<le> length (missing S 0 N)" by (simp add: length_missing card_mono Diff_mono)
    then show ?thesis using er idx by (auto simp: dc_erasures_def)
  qed
  ultimately have unf: "rs_decode_result rs dc (int idx) buf (int D) = (if int D < sint w then Some (E_RS_INVALID_HEADER, buf, int D, None) else do {
      b \<leftarrow> for_up 0 (nat (sint w)) (\<lambda>i b. do { s \<leftarrow> f (i + 4); wr b i (ucast s) }) buf;
      Some (0, b, sint w, Some (sint (erasure_degrees dc ! idx))) })"
    using w okD(3,9) by (simp add: rs_decode_result_def Let_def RS_HEADER_SIZE_def T rd_in f_def)
  show ?thesis
  proof (cases "sint w \<le> int D")
    case True
    then obtain b where "for_up 0 (nat (sint w)) (\<lambda>i b. do { s \<leftarrow> f (i + 4); wr b i (ucast s) }) buf = Some b" "length b = D" using body by blast
    then show ?thesis using True unf by simp
  next
    case False
    then show ?thesis using unf buf by simp
  qed
qed

text \<open>A callback that returns on every buffer of at least \<open>M\<close> bytes that holds the message, and keeps the table of counters.\<close>

definition returns :: "nat \<Rightarrow> (perf_t \<times> 'w) nt_fec_on_decode_t \<Rightarrow> bool" where
  "returns M cb \<longleftrightarrow> (\<forall>buf sz p w. M \<le> length buf \<longrightarrow> sz \<le> int (length buf) \<longrightarrow> nt_perf p \<longrightarrow> (\<exists>e p' w'. cb buf sz (p, w) = Some (e, p', w') \<and> nt_perf p'))"

lemma deliver_restored_total:
  fixes w :: 'w
  assumes ok: "rs_ok rs N K D p" and N: "N \<le> 31" and inv: "dc_inv N (N - K) D B dc S" and S: "card S = K"
    and er: "dc_erasures N (N - K) dc S" and D: "0 < D" "M \<le> D" and cb: "returns M cb" and perf: "nt_perf perf"
  shows "\<exists>e perf' w'. deliver_restored stack rs dc (int (length (missing S (N - K) N))) cb (perf, w) = Some (e, perf', w') \<and> nt_perf perf'"
proof -
  let ?f = "\<lambda>i (err, decoded, pw). if err \<noteq> 0 then Some (err, decoded, pw)
        else do {
          (ret, decoded, decoded_size, degree) \<leftarrow> rs_decode_result rs dc (int i) decoded (max_data_size rs);
          if ret < 0 then Some (E_FEC_INTERNAL_ERROR, decoded, pw)
          else do { (err, pw) \<leftarrow> cb decoded decoded_size pw; Some (err, decoded, pw) } }"
  have "\<exists>s. for_up 0 (length (missing S (N - K) N)) ?f (0, map stack [0..<D], perf, w) = Some s \<and>
      length (fst (snd s)) = D \<and> nt_perf (fst (snd (snd s)))"
  proof (rule for_up_rule [where P = "\<lambda>_ s. length (fst (snd s)) = D \<and> nt_perf (fst (snd (snd s)))"])
    fix i and s :: "int \<times> u8 list \<times> perf_t \<times> 'w" assume i: "i < length (missing S (N - K) N)" and s: "length (fst (snd s)) = D \<and> nt_perf (fst (snd (snd s)))"
    obtain err buf p w where s': "s = (err, buf, p, w)" by (cases s)
    obtain ret buf' sz deg where r: "rs_decode_result rs dc (int i) buf (int D) = Some (ret, buf', sz, deg)" "length buf' = D" "sz \<le> int D"
      using rs_decode_result_total [OF ok N inv S er i, of buf] s s' by auto
    obtain e p' w' where "cb buf' sz (p, w) = Some (e, p', w')" "nt_perf p'"
      using cb r(2,3) s s' D(2) unfolding returns_def by (metis fst_conv snd_conv)
    then show "\<exists>s'. ?f i s = Some s' \<and> length (fst (snd s')) = D \<and> nt_perf (fst (snd (snd s')))"
      using r s s' rs_okD(3) [OF ok] by auto
  qed (use perf in simp_all)
  then show ?thesis using D rs_okD(3) [OF ok] by (auto simp: deliver_restored_def new_array_in cong: if_cong)
qed

lemma deliver_decoded_total:
  assumes ok: "rs_ok rs N K D p" and N: "N \<le> 31" and inv: "dc_inv N (N - K) D B dc S"
    and input: "M \<le> length input" "sz \<le> int (length input)" and er: "card S = K \<longrightarrow> dc_erasures N (N - K) dc S" and D: "0 < D" "M \<le> D" and cb: "returns M cb" and perf: "nt_perf perf"
  shows "\<exists>e perf' w'. deliver_decoded stack rs dc input sz raw (if card S = K then int (length (missing S (N - K) N)) else 0) cb (perf, w) =
    Some (e, perf', w') \<and> nt_perf perf'"
proof -
  let ?n = "if card S = K then int (length (missing S (N - K) N)) else 0"
  obtain e1 p1 w1 where c1: "cb input sz (perf, w) = Some (e1, p1, w1)" "nt_perf p1"
    using cb perf input unfolding returns_def by blast
  obtain p2 where p2: "perf_inc p1 COUNTER_DECODER_RAW 1 = Some p2" "nt_perf p2" using nt_perf_inc [OF c1(2), of COUNTER_DECODER_RAW] by auto
  define st where "st = (if raw then (e1, p2, w1) else (0, perf, w))"
  have "deliver_decoded stack rs dc input sz raw ?n cb (perf, w) = (case st of (e, p, w) \<Rightarrow>
      if e \<noteq> 0 then Some (e, p, w) else if ?n = 0 then Some (0, p, w) else deliver_restored stack rs dc ?n cb (p, w))"
    using c1(1) p2(1) by (simp add: deliver_decoded_def st_def cong: if_cong)
  moreover obtain e p w' where st: "st = (e, p, w')" "nt_perf p" using p2(2) perf by (cases st) (auto simp: st_def split: if_splits)
  moreover have "\<exists>e perf' w''. deliver_restored stack rs dc ?n cb (p, w') = Some (e, perf', w'') \<and> nt_perf perf'" if "?n \<noteq> 0"
  proof -
    have S: "card S = K" using that by (auto split: if_splits)
    show ?thesis using deliver_restored_total [OF ok N inv S _ D cb st(2), of stack w'] er S by simp
  qed
  ultimately show ?thesis by auto
qed

lemma claim_ref_cases:
  assumes "0 < K" "sl \<noteq> []"
  shows "(\<exists>e. fst (claim_ref K timeout now b B0 sl) = Inl e) \<or>
    (\<exists>i t B S rest. claim_ref K timeout now b B0 sl = (Inr i, (b, i, t, B, S) # rest) \<and> card S \<noteq> K)"
proof (cases "map_of sl b")
  case None
  obtain b' i t B S where "last sl = (b', i, t, B, S)" by (cases "last sl")
  then show ?thesis using None assms by (auto simp: claim_ref_def)
next
  case (Some v)
  obtain i t B S where "v = (i, t, B, S)" by (cases v)
  then show ?thesis using Some assms(1) by (auto simp: claim_ref_def touch_def)
qed

lemma decode_any:
  assumes rep: "rs_rep N K D fec sl" and perf: "nt_perf perf" and D: "0 < D" "M \<le> D" and cb: "returns M cb" and sz: "nat sz \<le> length input" "M \<le> length input"
  shows "\<exists>e fec' perf' w' sl'. nt_rs_fec_decode mem stack now fec h input sz cb (perf, w) = Some (e, fec', perf', w') \<and>
    rs_rep N K D fec' sl' \<and> nt_perf perf'"
proof (cases "header_ok N K h")
  case False
  obtain p where ok: "rs_ok (fec_rs fec) N K D p" using rep by (auto simp: rs_rep_def)
  have "nt_rs_fec_decode mem stack now fec h input sz cb (perf, w) = Some (E_FEC_INVALID_HEADER, fec, perf, w)"
    unfolding nt_rs_fec_decode_def header_check [OF ok] using False by simp
  then show ?thesis using rep perf by blast
next
  case True
  let ?B = "\<lambda>_. take (nat sz) input" let ?d = "packet_degree N h"
  have K: "0 < K" "sl \<noteq> []" using rep by (auto simp: rs_rep_def dest: rs_okD(5))
  obtain fec1 perf1 where c: "nt_rs_fec_decode mem stack now fec h input sz cb (perf, w) =
       (case fst (claim_ref K (decode_timeout fec) now (nt_fec_header_block_id h) ?B sl) of
          Inl err \<Rightarrow> Some (err, fec1, perf1, w)
        | Inr i \<Rightarrow> decode_packet stack now fec1 i h input sz cb (perf1, w))"
    "rs_rep N K D fec1 (snd (claim_ref K (decode_timeout fec) now (nt_fec_header_block_id h) ?B sl))" "nt_perf perf1"
    using decode_claimed [OF rep perf True, of mem stack now input sz cb w ?B] by blast
  consider e where "fst (claim_ref K (decode_timeout fec) now (nt_fec_header_block_id h) ?B sl) = Inl e"
    | i t B S rest where "claim_ref K (decode_timeout fec) now (nt_fec_header_block_id h) ?B sl = (Inr i, (nt_fec_header_block_id h, i, t, B, S) # rest)" "card S \<noteq> K"
    using claim_ref_cases [OF K] by blast
  then show ?thesis
  proof cases
    case 1
    then show ?thesis using c by auto
  next
    case 2
    then have run: "nt_rs_fec_decode mem stack now fec h input sz cb (perf, w) = decode_packet stack now fec1 i h input sz cb (perf1, w)"
      and rep1: "rs_rep N K D fec1 ((nt_fec_header_block_id h, i, t, B, S) # rest)" using c by simp_all
    consider "\<not> (unat (fh_block_index h) < N \<and> 0 \<le> sz \<and> size_fits N K D ?d sz)"
      | "unat (fh_block_index h) < N" "0 \<le> sz" "size_fits N K D ?d sz" "?d \<in> S"
      | "unat (fh_block_index h) < N" "0 \<le> sz" "size_fits N K D ?d sz" "?d \<notin> S" by blast
    then show ?thesis
    proof cases
      case 1
      then show ?thesis using packet_rejected [OF rep1 c(3), of h sz stack now input cb w] run by auto
    next
      case 2
      then show ?thesis using packet_known [OF rep1 c(3), of h sz stack now input cb w] run by auto
    next
      case 3
      let ?B' = "B(?d := take (nat sz) input)" let ?S = "insert ?d S"
      have rep2: "rs_rep N K D fec1 ((nt_fec_header_block_id h, i, t, ?B', S) # rest)"
        by (rule rs_rep_cong [OF rep1]) (use 3(4) in auto)
      have card: "card S < K" using rs_rep_head(4) [OF rep1] \<open>card S \<noteq> K\<close> by simp
      have B': "?B' ?d = take (nat sz) input" by simp
      obtain fec' perf2 dc where n: "decode_packet stack now fec1 i h input sz cb (perf1, w) = do {
          (err, pw) \<leftarrow> deliver_decoded stack (fec_rs fec') dc input sz (N - K \<le> ?d)
            (if card ?S = K then int (length (missing ?S (N - K) N)) else 0) cb (perf2, w);
          Some (err, fec', pw) }"
        "rs_rep N K D fec' ((nt_fec_header_block_id h, i, now, ?B', ?S) # rest)" "nt_perf perf2"
        "dc_inv N (N - K) D ?B' dc ?S" "card ?S = K \<longrightarrow> dc_erasures N (N - K) dc ?S"
        using packet_new [OF rep2 c(3) card 3(1) refl 3(4) 3(2) sz(1) 3(3) B', of stack now cb w] by (elim exE conjE)
      obtain p where "rs_ok (fec_rs fec') N K D p" "N \<le> 31" using n(2) by (auto simp: rs_rep_def)
      moreover have "sz \<le> int (length input)" using sz(1) 3(2) by simp
      ultimately show ?thesis using deliver_decoded_total [OF _ _ n(4) sz(2) _ n(5) D cb n(3), of "fec_rs fec'" p sz stack "N - K \<le> ?d" w] n(1,2) run by auto
    qed
  qed
qed

section \<open>Properties\<close>

text \<open>Any sequence of calls; every packet has a time, a header, a buffer and the size passed with it.\<close>

fun rs_serve :: "(u64, nat) junk \<Rightarrow> (nat \<Rightarrow> u8) \<Rightarrow> (perf_t \<times> 'w) nt_fec_on_decode_t \<Rightarrow> nt_rs_fec_t \<Rightarrow> (int \<times> nt_fec_header_t \<times> u8 list \<times> int) list \<Rightarrow>
    perf_t \<times> 'w \<Rightarrow> (int list \<times> nt_rs_fec_t \<times> perf_t \<times> 'w) option" where
  "rs_serve mem stack cb fec [] pw = Some ([], fec, pw)"
| "rs_serve mem stack cb fec ((now, h, input, sz) # es) pw = do {
     (err, fec, pw) \<leftarrow> nt_rs_fec_decode mem stack now fec h input sz cb pw;
     (errs, fec, pw) \<leftarrow> rs_serve mem stack cb fec es pw;
     Some (err # errs, fec, pw)
   }"

lemma rs_serve_total:
  assumes D: "0 < D" "M \<le> D" and cb: "returns M cb"
  shows "rs_rep N K D fec sl \<Longrightarrow> nt_perf perf \<Longrightarrow> \<forall>(now, h, input, sz) \<in> set es. nat sz \<le> length input \<and> M \<le> length input \<Longrightarrow>
    \<exists>errs fec' pw'. rs_serve mem stack cb fec es (perf, w) = Some (errs, fec', pw') \<and> length errs = length es"
proof (induction es arbitrary: fec sl perf w)
  case (Cons e es)
  obtain now h input sz where e: "e = (now, h, input, sz)" by (cases e)
  then obtain err fec1 perf1 w1 sl1 where "nt_rs_fec_decode mem stack now fec h input sz cb (perf, w) = Some (err, fec1, perf1, w1)"
    "rs_rep N K D fec1 sl1" "nt_perf perf1"
    using decode_any [OF Cons.prems(1,2) D cb, of sz input mem stack now h w] Cons.prems(3) by auto
  then show ?case using Cons.IH [of fec1 sl1 perf1 w1] Cons.prems(3) e by auto
qed simp

text \<open>
  C7. No packet makes the decoder abort. After \<open>nt_rs_fec_init\<close>, whatever sequence of headers and payloads
  arrives, at whatever times, genuine or forged, every call of \<open>nt_rs_fec_decode\<close> returns: no \<open>ensure\<close> of
  the codec, of the block coder, of the cache or of the counters fails, and no access leaves its array.
  The size passed with a payload has to fit its buffer, and the callback has to return on buffers of the
  sizes that occur.
\<close>

theorem rs_fec_never_aborts:
  assumes NK: "0 < K" "K < N" "N \<le> 31" "(D + 4) * (N - K) < 2 ^ 31" and D: "0 < D" "M \<le> D" and cap: "2 \<le> cap" "cap < 2 ^ 31"
    and cb: "returns M cb" and es: "\<forall>(now, h, input, sz) \<in> set es. nat sz \<le> length input \<and> M \<le> length input"
  shows "\<exists>fec perf errs fec' pw'.
    nt_rs_fec_init words mem links kvs bufs eb (of_nat N) (of_nat K) (int D) (int cap) timeout g = Some fec \<and>
    perf_init mem' cell nt_counter_names nt_counter_num = Some perf \<and>
    rs_serve mem stack cb fec es (perf, w) = Some (errs, fec', pw') \<and> length errs = length es"
proof -
  obtain fec where fec: "nt_rs_fec_init words mem links kvs bufs eb (of_nat N) (of_nat K) (int D) (int cap) timeout g = Some fec"
    "rs_rep N K D fec (fresh_slots (\<lambda>_. []) cap)" using rs_fec_init_spec [OF NK cap] by blast
  obtain perf where perf: "perf_init mem' cell nt_counter_names nt_counter_num = Some perf" "nt_perf perf"
    using nt_perf_init [of mem' cell] by blast
  show ?thesis using rs_serve_total [OF D cb fec(2) perf(2) es, of mem stack w] fec(1) perf(1) by blast
qed

theorem rs_fec_never_aborts_witness:
  "\<exists>fec perf errs fec' pw'.
    nt_rs_fec_init (\<lambda>_. 9) no_entry (\<lambda>_. \<lparr>prev = None, next = None\<rparr>) (\<lambda>_. (3, 4)) (\<lambda>_. some_dc) some_ec (of_nat 3) (of_nat 2) (int 4) (int 2) 100 (idgen_init 7) = Some fec \<and>
    perf_init some_counter (\<lambda>_. 5) nt_counter_names nt_counter_num = Some perf \<and>
    rs_serve no_entry (\<lambda>_. 1) deliver_to fec
      [(5, nt_fec_header_init NT_RS_FEC_TAG 3 2 7 0 99, [1, 2, 3], 2), (6, nt_fec_header_init NT_RS_FEC_TAG 3 2 7 200 1, [255], 1),
       (7, nt_fec_header_init NT_RS_FEC_TAG 3 2 7 2 4, [255, 255, 255, 255], 4), (8, nt_fec_header_init 1 2 3 4 5 6, [], - 3)] (perf, []) =
      Some (errs, fec', pw') \<and> length errs = length
      [(5 :: int, nt_fec_header_init NT_RS_FEC_TAG 3 2 7 0 99, [1, 2, 3 :: u8], 2 :: int), (6, nt_fec_header_init NT_RS_FEC_TAG 3 2 7 200 1, [255], 1),
       (7, nt_fec_header_init NT_RS_FEC_TAG 3 2 7 2 4, [255, 255, 255, 255], 4), (8, nt_fec_header_init 1 2 3 4 5 6, [], - 3)]"
  by (rule rs_fec_never_aborts [where M = 0]) (simp_all add: returns_def deliver_to_def)

text \<open>
  C27. Two ways to abort the encoder. A message longer than \<open>max_data_size\<close> fails \<open>ensure(n >= 0)\<close>; and
  when the callback refuses the last message of a block, \<open>nt_rs_fec_encode\<close> returns the error without
  starting a new block, so that the next message, whatever it is, exceeds the block and fails the check
  of \<open>rs_is_ec_complete\<close>.
\<close>

theorem rs_fec_encode_aborts:
  assumes inv: "enc_inv N K D fec b ms" and last: "Suc (length ms) = K" "length m \<le> D"
    and cb: "\<forall>h. cb h m (int (length m)) w = Some (err, w')" "err \<noteq> 0" and big: "int D < sz"
  shows "nt_rs_fec_encode stack fec input sz cb w = None \<and>
    (\<exists>fec'. nt_rs_fec_encode stack fec m (int (length m)) cb w = Some (err, fec', w') \<and>
      (\<forall>stack' input' sz' cb' w''. 0 \<le> sz' \<longrightarrow> nt_rs_fec_encode stack' fec' input' sz' (cb' :: 'v nt_fec_on_encode_t) w'' = None))"
proof -
  obtain p where ok: "rs_ok (fec_rs fec) N K D p" using inv by (auto simp: enc_inv_def)
  note okD = rs_okD [OF ok]
  have "rs_encode (fec_rs fec) (eb_buffer (encode_buffer fec)) input sz = Some (E_RS_INVALID_SIZE, None, eb_buffer (encode_buffer fec))"
    using big okD(3) by (simp add: rs_encode_def)
  then have over: "nt_rs_fec_encode stack fec input sz cb w = None" by (simp add: nt_rs_fec_encode_def Let_def E_RS_INVALID_SIZE_def)
  obtain ec where ec: "rs_encode (fec_rs fec) (eb_buffer (encode_buffer fec)) m (int (length m)) = Some (int (N - K), Some (int (N - 1 - length ms)), ec)"
    "ec_inv (N - K) D ec (ms @ [m])" using enc_step [OF inv last(2)] last(1) by auto
  define fec' where "fec' = fec\<lparr>encode_buffer := (encode_buffer fec)\<lparr>eb_buffer := ec\<rparr>\<rparr>"
  have run: "nt_rs_fec_encode stack fec m (int (length m)) cb w = Some (err, fec', w')"
    using ec(1) cb by (simp add: nt_rs_fec_encode_def Let_def fec'_def)
  have full: "ec_count ec = rs_K (fec_rs fec)" using ec(2) last(1) okD(2) by (simp add: ec_inv_def)
  have "nt_rs_fec_encode stack' fec' input' sz' (cb' :: 'v nt_fec_on_encode_t) w'' = None" if "0 \<le> sz'" for stack' input' sz' cb' w''
  proof (cases "sz' \<le> int D")
    case True
    then have "rs_encode (fec_rs fec) ec input' sz' = None" using that full okD(3)
      by (auto simp: rs_encode_def Let_def rs_is_ec_complete_def split: Option.bind_split)
    then show ?thesis by (simp add: nt_rs_fec_encode_def Let_def fec'_def)
  next
    case False
    then have "rs_encode (fec_rs fec) ec input' sz' = Some (E_RS_INVALID_SIZE, None, ec)" using okD(3) by (simp add: rs_encode_def)
    then show ?thesis by (simp add: nt_rs_fec_encode_def Let_def E_RS_INVALID_SIZE_def fec'_def)
  qed
  then show ?thesis using over run by blast
qed

definition refuse :: "nat nt_fec_on_encode_t" where
  "refuse h p sz w = Some (11, w)"

theorem rs_fec_encode_aborts_witness:
  "\<exists>fec fec'. nt_rs_fec_init (\<lambda>_. 9) no_entry (\<lambda>_. \<lparr>prev = None, next = None\<rparr>) (\<lambda>_. (3, 4)) (\<lambda>_. some_dc) some_ec (of_nat 2) (of_nat 1) (int 4) (int 2) 100 (idgen_init 7) = Some fec \<and>
    nt_rs_fec_encode (\<lambda>_. 0) fec [1, 2, 3, 4, 5] 5 refuse 0 = None \<and>
    nt_rs_fec_encode (\<lambda>_. 0) fec [1, 2] 2 refuse 0 = Some (11, fec', 0) \<and>
    nt_rs_fec_encode (\<lambda>_. 0) fec' [3] 1 collect [] = None"
proof -
  have i: "0 < (1 :: nat)" "1 < (2 :: nat)" "2 \<le> (31 :: nat)" "(4 + 4) * (2 - 1) < (2 ^ 31 :: nat)" "2 \<le> (2 :: nat)" "2 < (2 ^ 31 :: nat)" by simp_all
  obtain fec where fec: "nt_rs_fec_init (\<lambda>_. 9) no_entry (\<lambda>_. \<lparr>prev = None, next = None\<rparr>) (\<lambda>_. (3, 4)) (\<lambda>_. some_dc) some_ec (of_nat 2) (of_nat 1) (int 4) (int 2) 100 (idgen_init 7) = Some fec"
    "enc_inv 2 1 4 fec (idgen_id (idgen_init 7)) []" using rs_fec_init_spec [OF i] by blast
  have m: "Suc (length ([] :: u8 list list)) = 1" "length [1, 2 :: u8] \<le> 4"
    "\<forall>h. refuse h [1, 2 :: u8] (int (length [1, 2 :: u8])) 0 = Some (11, 0)" "(11 :: int) \<noteq> 0" "int 4 < 5" by (simp_all add: refuse_def)
  obtain fec' where f: "nt_rs_fec_encode (\<lambda>_. 0) fec [1, 2] (int (length [1, 2 :: u8])) refuse 0 = Some (11, fec', 0)"
    "nt_rs_fec_encode (\<lambda>_. 0) fec' [3] 1 collect [] = None" "nt_rs_fec_encode (\<lambda>_. 0) fec [1, 2, 3, 4, 5] 5 refuse 0 = None"
    using rs_fec_encode_aborts [where cb = refuse, OF fec(2) m, of "\<lambda>_. 0" "[1, 2, 3, 4, 5]"] by (metis zero_le_one)
  then show ?thesis using fec(1) by (intro exI [of _ fec] exI [of _ fec']) simp
qed

end
