(* ===== verification/Nt_Client.thy ===== *)
theory Nt_Client
  imports Nt_Proto
begin

text \<open>
  Addresses and datagrams: the address functions, \<open>send_v\<close> and \<open>recv_v\<close> of
  \<^verbatim>\<open>src/src/main/dispatcher/common.c\<close>, the sockets of \<^verbatim>\<open>dispatcher/udp.c\<close>, and the client side of the
  tunnel, \<^verbatim>\<open>src/src/main/tunnel/nt_client.c\<close>. The kernel is a parameter: its calls act on a world \<open>'w\<close>
  and return an error number or a result.
\<close>

section \<open>Addresses\<close>

text \<open>The union of the two kinds of socket address; ports and addresses are kept in network order.\<close>

datatype address_t = Addr_in u32 u16 | Addr_in6 "u8 list" u16

definition address_init4 :: "u32 \<Rightarrow> u16 \<Rightarrow> address_t" where
  "address_init4 addr port = Addr_in addr port"

definition address_init6 :: "u8 list \<Rightarrow> u16 \<Rightarrow> address_t" where
  "address_init6 addr port = Addr_in6 addr port"

definition address_get_port :: "address_t \<Rightarrow> u16" where
  "address_get_port a = (case a of Addr_in _ p \<Rightarrow> p | Addr_in6 _ p \<Rightarrow> p)"

definition address_set_port :: "address_t \<Rightarrow> u16 \<Rightarrow> address_t" where
  "address_set_port a port = (case a of Addr_in i _ \<Rightarrow> Addr_in i port | Addr_in6 i _ \<Rightarrow> Addr_in6 i port)"

definition address_get_addr4 :: "address_t \<Rightarrow> u32" where
  "address_get_addr4 a = (case a of Addr_in i _ \<Rightarrow> i | Addr_in6 _ _ \<Rightarrow> 0)"

definition address_set_addr4 :: "address_t \<Rightarrow> u32 \<Rightarrow> address_t" where
  "address_set_addr4 a addr = (let port = address_get_port a in address_init4 addr port)"

section \<open>Datagrams\<close>

datatype pktinfo = Ip_pktinfo u32 | Ipv6_pktinfo "u8 list" | Other_info

record msghdr =
  msg_name :: "address_t option"
  msg_namelen :: nat
  msg_iov :: "u8 list list"
  msg_control :: "pktinfo option"

text \<open>
  The length of a name is \<open>sizeof (struct sockaddr)\<close>, the size of an IPv4 address.
  \<open>recvmsg fd n\<close> returns at most \<open>n\<close> bytes of a datagram, its sender, as far as it fits into that size, and the control messages;
  \<open>sendto\<close> and \<open>recvfrom\<close> are the variants with one buffer and no control messages.
\<close>

record 'w kernel =
  sendmsg :: "int \<Rightarrow> msghdr \<Rightarrow> 'w \<Rightarrow> (int + nat) \<times> 'w"
  recvmsg :: "int \<Rightarrow> nat \<Rightarrow> 'w \<Rightarrow> (int + u8 list \<times> address_t \<times> pktinfo list) \<times> 'w"
  sendto :: "int \<Rightarrow> u8 list \<Rightarrow> address_t \<Rightarrow> 'w \<Rightarrow> (int + nat) \<times> 'w"
  recvfrom :: "int \<Rightarrow> nat \<Rightarrow> 'w \<Rightarrow> (int + u8 list \<times> address_t) \<times> 'w"

definition send_v :: "'w kernel \<Rightarrow> int \<Rightarrow> u8 list list \<Rightarrow> address_t option \<Rightarrow> address_t option \<Rightarrow> 'w \<Rightarrow> (int + nat) \<times> 'w" where
  "send_v k socket iov src dst w =
     sendmsg k socket \<lparr>msg_name = dst, msg_namelen = (case dst of None \<Rightarrow> 0 | Some _ \<Rightarrow> 16), msg_iov = iov, msg_control = (case src of None \<Rightarrow> None
       | Some (Addr_in a p) \<Rightarrow> Some (Ip_pktinfo a) | Some (Addr_in6 a p) \<Rightarrow> Some (Ipv6_pktinfo a))\<rparr> w"

text \<open>The kernel fills the buffers one after another; the rest of a buffer keeps its contents.\<close>

definition fill :: "u8 list \<Rightarrow> u8 list \<Rightarrow> u8 list" where
  "fill buf d = take (length buf) d @ drop (length d) buf"

fun scatter :: "u8 list list \<Rightarrow> u8 list \<Rightarrow> u8 list list" where
  "scatter [] d = []"
| "scatter (b # bs) d = fill b d # scatter bs (drop (length b) d)"

text \<open>The loop over the control messages stops at the first packet information.\<close>

fun control_dst :: "pktinfo list \<Rightarrow> address_t option" where
  "control_dst [] = None"
| "control_dst (Ip_pktinfo a # cs) = Some (address_init4 a 0)"
| "control_dst (Ipv6_pktinfo a # cs) = Some (address_init6 a 0)"
| "control_dst (Other_info # cs) = control_dst cs"

text \<open>The result: the number of bytes, the buffers, the sender and, if known, the local address.\<close>

definition recv_v ::
    "'w kernel \<Rightarrow> int \<Rightarrow> u8 list list \<Rightarrow> 'w \<Rightarrow> (int + nat \<times> u8 list list \<times> address_t \<times> address_t option) \<times> 'w" where
  "recv_v k socket iov w = (case recvmsg k socket (length (concat iov)) w of
       (Inl e, w) \<Rightarrow> (Inl e, w)
     | (Inr (d, src, cs), w) \<Rightarrow> (Inr (length d, scatter iov d, src, control_dst cs), w))"

record udp_t =
  udp_fd :: int

definition udp_sendto :: "'w kernel \<Rightarrow> udp_t \<Rightarrow> u8 list \<Rightarrow> nat \<Rightarrow> address_t \<Rightarrow> 'w \<Rightarrow> ((int + nat) \<times> 'w) option" where
  "udp_sendto k udp buf len address w = do {
     ensure (len \<le> length buf);
     Some (sendto k (udp_fd udp) (take len buf) address w)
   }"

definition udp_recvfrom ::
    "'w kernel \<Rightarrow> udp_t \<Rightarrow> u8 list \<Rightarrow> nat \<Rightarrow> 'w \<Rightarrow> ((int + nat \<times> u8 list \<times> address_t) \<times> 'w) option" where
  "udp_recvfrom k udp buf len w = do {
     ensure (len \<le> length buf);
     Some (case recvfrom k (udp_fd udp) len w of
         (Inl e, w) \<Rightarrow> (Inl e, w)
       | (Inr (d, src), w) \<Rightarrow> (Inr (length d, fill (take len buf) d @ drop len buf, src), w))
   }"

definition udp_send_v :: "'w kernel \<Rightarrow> udp_t \<Rightarrow> u8 list list \<Rightarrow> address_t option \<Rightarrow> address_t option \<Rightarrow> 'w \<Rightarrow> (int + nat) \<times> 'w" where
  "udp_send_v k udp iov src dst w = (case send_v k (udp_fd udp) iov src dst w of
       (Inl e, w) \<Rightarrow> (Inl e, w) | (Inr n, w) \<Rightarrow> (Inr n, w))"

definition udp_recv_v ::
    "'w kernel \<Rightarrow> udp_t \<Rightarrow> u8 list list \<Rightarrow> 'w \<Rightarrow> (int + nat \<times> u8 list list \<times> address_t \<times> address_t option) \<times> 'w" where
  "udp_recv_v k udp iov w = (case recv_v k (udp_fd udp) iov w of
       (Inl e, w) \<Rightarrow> (Inl e, w) | (Inr r, w) \<Rightarrow> (Inr r, w))"

definition udp_send :: "'w kernel \<Rightarrow> udp_t \<Rightarrow> u8 list \<Rightarrow> nat \<Rightarrow> address_t option \<Rightarrow> address_t option \<Rightarrow> 'w \<Rightarrow> ((int + nat) \<times> 'w) option" where
  "udp_send k udp buf len src dst w = do {
     ensure (len \<le> length buf);
     Some (udp_send_v k udp [take len buf] src dst w)
   }"

definition udp_recv ::
    "'w kernel \<Rightarrow> udp_t \<Rightarrow> u8 list \<Rightarrow> nat \<Rightarrow> 'w \<Rightarrow> ((int + nat \<times> u8 list list \<times> address_t \<times> address_t option) \<times> 'w) option" where
  "udp_recv k udp buf len w = do {
     ensure (len \<le> length buf);
     Some (udp_recv_v k udp [take len buf] w)
   }"

section \<open>The client of the tunnel\<close>

definition E_API_INVALID_HEADER :: int where "E_API_INVALID_HEADER = 100004"

definition udp_sendto_tunnel ::
    "'w kernel \<Rightarrow> udp_t \<Rightarrow> u8 list \<Rightarrow> nat \<Rightarrow> address_t \<Rightarrow> u32 \<Rightarrow> address_t \<Rightarrow> 'w \<Rightarrow> ((int + nat) \<times> 'w) option" where
  "udp_sendto_tunnel k udp buf len dst_addr ident tunnel_addr w = do {
     ensure (len \<le> length buf);
     let header = nt_api_header_init ident 0 0 (address_get_addr4 dst_addr) (address_get_port dst_addr) (of_nat len);
     Some (udp_send_v k udp [nt_api_header_bytes header, take len buf] None (Some tunnel_addr) w)
   }"

text \<open>
  \<open>header\<close> is the uninitialised header on the stack. The result is an error or the source address,
  the number, the sender, the size of the payload and the buffer.
\<close>

definition udp_recvfrom_tunnel ::
    "'w kernel \<Rightarrow> udp_t \<Rightarrow> u8 list \<Rightarrow> u8 list \<Rightarrow> nat \<Rightarrow> 'w \<Rightarrow>
     ((int + address_t \<times> u32 \<times> address_t \<times> nat \<times> u8 list) \<times> 'w) option" where
  "udp_recvfrom_tunnel k udp header buf len w = do {
     ensure (len \<le> length buf);
     let (r, w) = udp_recv_v k udp [header, take len buf] w;
     (case r of Inl e \<Rightarrow> Some (Inl e, w)
      | Inr (received_raw, iov, tunnel_addr, dst) \<Rightarrow> do {
          hd_bytes \<leftarrow> rd iov 0;
          h \<leftarrow> nt_api_header_at hd_bytes;
          valid \<leftarrow> nt_api_header_is_valid hd_bytes;
          if \<not> valid \<or> received_raw \<noteq> nt_api_message_size h then Some (Inl E_API_INVALID_HEADER, w)
          else do {
            payload \<leftarrow> rd iov 1;
            Some (Inr (address_init4 (a1_src_ip h) (a1_src_port h), nt_api_header_id h, tunnel_addr,
              unat (nt_api_header_payload_size h), payload @ drop len buf), w)
          }
        })
   }"

definition udp_sendto_tunnel2 ::
    "'w kernel \<Rightarrow> udp_t \<Rightarrow> u8 list \<Rightarrow> nat \<Rightarrow> address_t \<Rightarrow> u32 \<Rightarrow> address_t \<Rightarrow> u8 \<Rightarrow> u8 \<Rightarrow> 'w \<Rightarrow> ((int + nat) \<times> 'w) option" where
  "udp_sendto_tunnel2 k udp buf len dst_addr ident tunnel_addr encrypt_type ttl w = do {
     ensure (len \<le> length buf);
     let header = nt_api2_header_init ident 0 0 (address_get_addr4 dst_addr) (address_get_port dst_addr) encrypt_type ttl (of_nat len);
     Some (udp_send_v k udp [nt_api2_header_bytes header, take len buf] None (Some tunnel_addr) w)
   }"

definition udp_recvfrom_tunnel2 ::
    "'w kernel \<Rightarrow> udp_t \<Rightarrow> u8 list \<Rightarrow> u8 list \<Rightarrow> nat \<Rightarrow> 'w \<Rightarrow>
     ((int + address_t \<times> u32 \<times> address_t \<times> u8 \<times> u8 \<times> nat \<times> u8 list) \<times> 'w) option" where
  "udp_recvfrom_tunnel2 k udp header buf len w = do {
     ensure (len \<le> length buf);
     let (r, w) = udp_recv_v k udp [header, take len buf] w;
     (case r of Inl e \<Rightarrow> Some (Inl e, w)
      | Inr (received_raw, iov, tunnel_addr, dst) \<Rightarrow> do {
          hd_bytes \<leftarrow> rd iov 0;
          h \<leftarrow> nt_api2_header_at hd_bytes;
          valid \<leftarrow> nt_api2_header_is_valid hd_bytes;
          if \<not> valid \<or> received_raw \<noteq> nt_api2_message_size h then Some (Inl E_API_INVALID_HEADER, w)
          else do {
            payload \<leftarrow> rd iov 1;
            Some (Inr (address_init4 (a2_src_ip h) (a2_src_port h), nt_api2_header_id h, tunnel_addr, a2_encrypt_type h, a2_ttl h,
              unat (nt_api2_header_payload_size h), payload @ drop len buf), w)
          }
        })
   }"

section \<open>Sending and receiving\<close>

text \<open>
  A kernel that delivers: \<open>sendmsg\<close> appends the datagram to a queue, \<open>recvmsg\<close> takes the next one, cut
  to the size of the buffers. \<open>from\<close> is the address the receiver sees.
\<close>

definition loopback :: "address_t \<Rightarrow> u8 list list kernel" where
  "loopback from =
     \<lparr>sendmsg = (\<lambda>fd m w. (Inr (length (concat (msg_iov m))), w @ [concat (msg_iov m)])),
      recvmsg = (\<lambda>fd n w. case w of [] \<Rightarrow> (Inl 11, w) | d # w \<Rightarrow> (Inr (take n d, from, []), w)),
      sendto = (\<lambda>fd d a w. (Inr (length d), w @ [d])),
      recvfrom = (\<lambda>fd n w. case w of [] \<Rightarrow> (Inl 11, w) | d # w \<Rightarrow> (Inr (take n d, from), w))\<rparr>"

lemma length_fill [simp]: "length (fill buf d) = length buf"
  by (simp add: fill_def)

lemma fill_exact: "length d = length buf \<Longrightarrow> fill buf (d @ e) = d"
  by (simp add: fill_def)

lemma fill_short: "length d \<le> length buf \<Longrightarrow> fill buf d = d @ drop (length d) buf"
  by (simp add: fill_def)

lemma unat_of_nat_u16: "n < 65536 \<Longrightarrow> unat (of_nat n :: u16) = n"
  by (simp add: unat_of_nat)

text \<open>
  A network: letters on the way, each with the address it goes to, the address it comes from and its bytes. The kernel of the host
  \<open>here\<close> sends to the address the message names, and receives the first letter to \<open>here\<close>, cut to the size of the buffers.
  A message without a name is refused, and so is an IPv6 name, whose size the code gives as that of an IPv4 address.
\<close>

type_synonym letter = "address_t \<times> address_t \<times> u8 list"

definition post_letter :: "address_t \<Rightarrow> address_t option \<Rightarrow> u8 list \<Rightarrow> letter list \<Rightarrow> (int + nat) \<times> letter list" where
  "post_letter here name d w = (case name of Some (Addr_in ip port) \<Rightarrow> (Inr (length d), w @ [(Addr_in ip port, here, d)])
     | Some (Addr_in6 ip port) \<Rightarrow> (Inl 22, w) | None \<Rightarrow> (Inl 89, w))"

definition collect_letter :: "address_t \<Rightarrow> letter list \<Rightarrow> (letter \<times> letter list) option" where
  "collect_letter here w = (case List.extract (\<lambda>l. fst l = here) w of None \<Rightarrow> None | Some (us, l, vs) \<Rightarrow> Some (l, us @ vs))"

definition network :: "address_t \<Rightarrow> letter list kernel" where
  "network here =
     \<lparr>sendmsg = (\<lambda>fd m w. post_letter here (msg_name m) (concat (msg_iov m)) w),
      recvmsg = (\<lambda>fd n w. case collect_letter here w of None \<Rightarrow> (Inl 11, w) | Some ((_, src, d), w) \<Rightarrow> (Inr (take n d, src, []), w)),
      sendto = (\<lambda>fd d a w. post_letter here (Some a) d w),
      recvfrom = (\<lambda>fd n w. case collect_letter here w of None \<Rightarrow> (Inl 11, w) | Some ((_, src, d), w) \<Rightarrow> (Inr (take n d, src), w))\<rparr>"

lemma collect_letter_last: "here \<notin> fst ` set w \<Longrightarrow> collect_letter here (w @ [(here, src, d)]) = Some ((here, src, d), w)"
  unfolding collect_letter_def by (induction w) (auto simp: extract_Cons_code split: option.splits prod.splits)

lemma network_recvmsg: "here \<notin> fst ` set w \<Longrightarrow> length d \<le> n \<Longrightarrow> recvmsg (network here) fd n (w @ [(here, src, d)]) = (Inr (d, src, []), w)"
  by (simp add: network_def collect_letter_last)

lemma network_send_v: "udp_send_v (network here) udp iov None (Some (Addr_in ip port)) w = (Inr (length (concat iov)), w @ [(Addr_in ip port, here, concat iov)])"
  by (simp add: udp_send_v_def send_v_def network_def post_letter_def)

text \<open>What the two receiving functions make of a well-formed message, on any kernel, whatever the header and the buffer held before.\<close>

lemma fill_payload:
  assumes "length p \<le> room" "room \<le> length buf"
  shows "fill (take room buf) p @ drop room buf = p @ drop (length p) buf"
proof -
  have "take (room - length p) (drop (length p) buf) @ drop room buf = drop (length p) buf"
    using assms by (metis append_take_drop_id drop_drop le_add_diff_inverse2 add.commute)
  then show ?thesis using assms by (simp add: fill_def min_def drop_take)
qed

lemma recv_v_parts:
  assumes "recvmsg k (udp_fd udp) (length hdr + room) w = (Inr (a @ p, src, cs), w')" "length a = length hdr" "length p \<le> room" "room \<le> length buf"
  shows "udp_recv_v k udp [hdr, take room buf] w = (Inr (length a + length p, [a, fill (take room buf) p], src, control_dst cs), w')"
  using assms by (simp add: udp_recv_v_def recv_v_def fill_exact min_def)

lemma recvfrom_tunnel_message:
  assumes "recvmsg k (udp_fd udp) (19 + room) w = (Inr (nt_api_header_bytes h @ p, src, cs), w')"
    and "a1_tag h = NT_API_TAG" "unat (nt_api_header_payload_size h) = length p" "length p \<le> room" "room \<le> length buf" "length hdr = 19"
  shows "udp_recvfrom_tunnel k udp hdr buf room w =
    Some (Inr (Addr_in (a1_src_ip h) (a1_src_port h), nt_api_header_id h, src, length p, p @ drop (length p) buf), w')"
proof -
  have "length (nt_api_header_bytes h) = 19" by (simp add: header_lengths)
  moreover from this have "udp_recv_v k udp [hdr, take room buf] w = (Inr (19 + length p, [nt_api_header_bytes h, fill (take room buf) p], src, control_dst cs), w')"
    using recv_v_parts [of k udp hdr room w "nt_api_header_bytes h" p] assms by simp
  moreover have "nt_api_header_at (nt_api_header_bytes h) = Some h" "nt_api_header_is_valid (nt_api_header_bytes h) = Some (a1_tag h = NT_API_TAG)"
    using nt_api_header_at_bytes [of h "[]"] nt_api_is_valid_bytes(1) [of h "[]"] by simp_all
  ultimately show ?thesis
    using assms fill_payload [OF assms(4,5)] by (simp add: udp_recvfrom_tunnel_def rd_def address_init4_def nt_api_message_size_def header_lengths)
qed

lemma recvfrom_tunnel2_message:
  assumes "recvmsg k (udp_fd udp) (28 + room) w = (Inr (nt_api2_header_bytes h @ p, src, cs), w')" "length (a2_reserved h) = 7"
    and "a2_tag h = NT_API2_TAG" "a2_encrypt_type h < NT_ENCRYPT_TYPE_NUM"
    and "unat (nt_api2_header_payload_size h) = length p" "length p \<le> room" "room \<le> length buf" "length hdr = 28"
  shows "udp_recvfrom_tunnel2 k udp hdr buf room w =
    Some (Inr (Addr_in (a2_src_ip h) (a2_src_port h), nt_api2_header_id h, src, a2_encrypt_type h, a2_ttl h, length p, p @ drop (length p) buf), w')"
proof -
  have "length (nt_api2_header_bytes h) = 28" using assms(2) by (simp add: length_nt_api2_header_bytes header_lengths)
  moreover from this have "udp_recv_v k udp [hdr, take room buf] w = (Inr (28 + length p, [nt_api2_header_bytes h, fill (take room buf) p], src, control_dst cs), w')"
    using recv_v_parts [of k udp hdr room w "nt_api2_header_bytes h" p] assms by simp
  moreover have "nt_api2_header_at (nt_api2_header_bytes h) = Some h"
    "nt_api2_header_is_valid (nt_api2_header_bytes h) = Some (a2_tag h = NT_API2_TAG \<and> a2_encrypt_type h < NT_ENCRYPT_TYPE_NUM)"
    using nt_api2_header_at_bytes [OF assms(2), of "[]"] nt_api2_is_valid_bytes [of h "[]"] by simp_all
  ultimately show ?thesis
    using assms fill_payload [OF assms(6,7)] by (simp add: udp_recvfrom_tunnel2_def rd_def address_init4_def nt_api2_message_size_def header_lengths)
qed

text \<open>
  C8. Both versions of the client protocol carry what is sent to where it is sent. \<open>udp_sendto_tunnel\<close> (or \<open>udp_sendto_tunnel2\<close>)
  puts one letter on the network, from the client to the tunnel, whose header names the destination address and port, the number, the size and, in
  version 2, the encryption and the TTL. The host at the tunnel's address, with buffers that are large enough, receives from it the
  payload, its size, the number and the client as the sender, whatever the uninitialised header and the buffer held before.
  An answer from the tunnel whose header names a source is received by the client with that source, the number, the
  tunnel as the sender, and the payload.
\<close>

theorem tunnel_delivers:
  assumes "len < 65536" "len \<le> length buf" "len \<le> room" "room \<le> length buf'" "e < NT_ENCRYPT_TYPE_NUM"
    and "length junk1 = 19" "length junk2 = 28"
    and "tunnel = Addr_in tunnel_ip tunnel_port" "dst = Addr_in dst_ip dst_port" "tunnel \<notin> fst ` set w" "client \<notin> fst ` set w"
  shows "(\<exists>d h. udp_sendto_tunnel (network client) udp buf len dst ident tunnel w = Some (Inr (19 + len), w @ [(tunnel, client, d)]) \<and>
      nt_api_header_at d = Some h \<and> a1_tag h = NT_API_TAG \<and> nt_api_header_id h = ident \<and> a1_dst_ip h = dst_ip \<and> a1_dst_port h = dst_port \<and>
      a1_src_ip h = 0 \<and> a1_src_port h = 0 \<and> nt_api_message_size h = length d \<and> drop 19 d = take len buf \<and>
      udp_recvfrom_tunnel (network tunnel) udp' junk1 buf' room (w @ [(tunnel, client, d)]) =
        Some (Inr (Addr_in 0 0, ident, client, len, take len buf @ drop len buf'), w)) \<and>
    udp_recvfrom_tunnel (network client) udp' junk1 buf' room
        (w @ [(client, tunnel, nt_api_header_bytes (nt_api_header_init ident src_ip src_port dip dport (of_nat len)) @ take len buf)]) =
      Some (Inr (Addr_in src_ip src_port, ident, tunnel, len, take len buf @ drop len buf'), w) \<and>
    (\<exists>d h. udp_sendto_tunnel2 (network client) udp buf len dst ident tunnel e ttl w = Some (Inr (28 + len), w @ [(tunnel, client, d)]) \<and>
      nt_api2_header_at d = Some h \<and> a2_tag h = NT_API2_TAG \<and> nt_api2_header_id h = ident \<and> a2_dst_ip h = dst_ip \<and> a2_dst_port h = dst_port \<and>
      a2_src_ip h = 0 \<and> a2_src_port h = 0 \<and> a2_encrypt_type h = e \<and> a2_ttl h = ttl \<and> nt_api2_message_size h = length d \<and> drop 28 d = take len buf \<and>
      udp_recvfrom_tunnel2 (network tunnel) udp' junk2 buf' room (w @ [(tunnel, client, d)]) =
        Some (Inr (Addr_in 0 0, ident, client, e, ttl, len, take len buf @ drop len buf'), w)) \<and>
    udp_recvfrom_tunnel2 (network client) udp' junk2 buf' room
        (w @ [(client, tunnel, nt_api2_header_bytes (nt_api2_header_init ident src_ip src_port dip dport e ttl (of_nat len)) @ take len buf)]) =
      Some (Inr (Addr_in src_ip src_port, ident, tunnel, e, ttl, len, take len buf @ drop len buf'), w)"
    (is "?send1 \<and> ?answer1 \<and> ?send2 \<and> ?answer2")
proof -
  let ?h = "\<lambda>sip sport dip dport. nt_api_header_init ident sip sport dip dport (of_nat len)"
  let ?h2 = "\<lambda>sip sport dip dport. nt_api2_header_init ident sip sport dip dport e ttl (of_nat len)"
  have len: "length (nt_api_header_bytes h) = 19" "length (nt_api2_header_bytes (?h2 i x j y)) = 28" "unat (of_nat len :: u16) = len"
    "length (take len buf) = len" for h i x j y
    using assms(1,2) by (simp_all add: header_lengths length_nt_api2_header_bytes unat_of_nat_u16)
  have recv1: "udp_recvfrom_tunnel (network here) udp' junk1 buf' room (w @ [(here, there, nt_api_header_bytes (?h i x j y) @ take len buf)]) =
      Some (Inr (Addr_in i x, ident, there, len, take len buf @ drop len buf'), w)" if "here \<notin> fst ` set w" for here there i x j y
    using recvfrom_tunnel_message [OF network_recvmsg [OF that]] len assms by simp
  have recv2: "udp_recvfrom_tunnel2 (network here) udp' junk2 buf' room (w @ [(here, there, nt_api2_header_bytes (?h2 i x j y) @ take len buf)]) =
      Some (Inr (Addr_in i x, ident, there, e, ttl, len, take len buf @ drop len buf'), w)" if "here \<notin> fst ` set w" for here there i x j y
    using recvfrom_tunnel2_message [OF network_recvmsg [OF that]] len assms by simp
  have ?send1
    by (intro exI [of _ "nt_api_header_bytes (?h 0 0 dst_ip dst_port) @ take len buf"] exI [of _ "?h 0 0 dst_ip dst_port"] conjI recv1)
      (use assms len in \<open>simp_all add: udp_sendto_tunnel_def network_send_v address_get_addr4_def address_get_port_def\<close>)
  moreover have ?send2
    by (intro exI [of _ "nt_api2_header_bytes (?h2 0 0 dst_ip dst_port) @ take len buf"] exI [of _ "?h2 0 0 dst_ip dst_port"] conjI recv2)
      (use assms len in \<open>simp_all add: udp_sendto_tunnel2_def network_send_v address_get_addr4_def address_get_port_def nt_api2_header_at_bytes\<close>)
  ultimately show ?thesis using recv1 recv2 assms(10,11) by blast
qed

theorem tunnel_delivers_witness:
  "\<exists>d h. udp_sendto_tunnel2 (network (Addr_in 9 9)) \<lparr>udp_fd = 3\<rparr> [1, 2, 3] 2 (Addr_in 5 6) 77 (Addr_in 7 8) NT_ENCRYPT_TYPE_KC 8 [] =
      Some (Inr 30, [(Addr_in 7 8, Addr_in 9 9, d)]) \<and> nt_api2_header_at d = Some h \<and> a2_dst_ip h = 5 \<and> a2_dst_port h = 6 \<and>
    udp_recvfrom_tunnel2 (network (Addr_in 7 8)) \<lparr>udp_fd = 4\<rparr> (replicate 28 89) [0, 0, 0, 0] 3 [(Addr_in 7 8, Addr_in 9 9, d)] =
      Some (Inr (Addr_in 0 0, 77, Addr_in 9 9, NT_ENCRYPT_TYPE_KC, 8, 2, [1, 2, 0, 0]), [])"
proof -
  have "NT_ENCRYPT_TYPE_KC < NT_ENCRYPT_TYPE_NUM" by (simp add: NT_ENCRYPT_TYPE_KC_def NT_ENCRYPT_TYPE_NUM_def)
  then show ?thesis
    using tunnel_delivers [of 2 "[1, 2, 3]" 3 "[0, 0, 0, 0]" NT_ENCRYPT_TYPE_KC "replicate 19 0" "replicate 28 89"
        "Addr_in 7 8" 7 8 "Addr_in 5 6" 5 6 "[]" "Addr_in 9 9" "\<lparr>udp_fd = 3\<rparr>" 77 "\<lparr>udp_fd = 4\<rparr>" 0 0 0 0 8] by auto
qed

text \<open>
  Truncated and malformed datagrams are rejected. Whatever a datagram holds, if its length is not
  that of a header plus the payload size written in it, or its tag is wrong, \<open>udp_recvfrom_tunnel\<close>
  reports \<open>E_API_INVALID_HEADER\<close>; this includes every datagram shorter than a header, in which case
  part of the header that is inspected is uninitialised memory.
\<close>

theorem tunnel_rejects_malformed:
  assumes "recvmsg k (udp_fd udp) (19 + room) w = (Inr (d, from, cs), w')" "room \<le> length buf" "length junk = 19"
    and "length d < 19 \<or> hd d \<noteq> NT_API_TAG \<or> length d \<noteq> 19 + unat (ntohs (field 17 2 d))"
  shows "udp_recvfrom_tunnel k udp junk buf room w = Some (Inl E_API_INVALID_HEADER, w')"
proof -
  let ?hb = "fill junk d"
  have "nt_api_header_size = 19" by (simp add: header_lengths)
  then obtain h where h: "nt_api_header_at ?hb = Some h" "a1_tag h = ?hb ! 0" "a1_payload_size_n h = field 17 2 ?hb"
    using assms(3) by (simp add: nt_api_header_at_def)
  have "\<not> (hd ?hb = NT_API_TAG \<and> length d = nt_api_message_size h)"
  proof (cases "length d < 19")
    case True
    then show ?thesis by (simp add: nt_api_message_size_def header_lengths)
  next
    case False
    then have "?hb = take 19 d" using assms(3) by (simp add: fill_def)
    moreover have "field 17 2 (take 19 d) = (field 17 2 d :: u16)" by (simp add: field_def drop_take take_take)
    ultimately show ?thesis
      using assms(4) False h(3) by (auto simp: nt_api_message_size_def header_lengths nt_api_header_payload_size_def)
  qed
  moreover have "nt_api_header_is_valid ?hb = Some (hd ?hb = NT_API_TAG)"
    using assms(3) by (cases ?hb) (auto simp: nt_api_header_is_valid_def rd_def fill_def)
  ultimately show ?thesis
    using assms(1-3) h(1) by (auto simp: udp_recvfrom_tunnel_def udp_recv_v_def recv_v_def rd_def min_def)
qed

theorem tunnel_rejects_malformed_witness:
  "udp_recvfrom_tunnel (loopback (Addr_in 9 9)) \<lparr>udp_fd = 3\<rparr> (replicate 19 0) [0, 0, 0, 0] 4 [[87, 0, 0]] =
     Some (Inl E_API_INVALID_HEADER, [])"
  by (rule tunnel_rejects_malformed [of _ _ _ _ "[87, 0, 0]" "Addr_in 9 9" "[]"]) (simp_all add: loopback_def)

end
