(* ===== verification/Nt_Distributor.thy ===== *)
theory Nt_Distributor
  imports Nt_Client
begin

text \<open>
  The choice of paths, \<^verbatim>\<open>src/src/main/tunnel/nt_distributor.c\<close> and \<^verbatim>\<open>nt_distributor.h\<close>, and the
  pass-through forwarder, \<^verbatim>\<open>src/src/main/tunnel/nt_forwarder.c\<close>. A distributor is a table with one row
  per sequence number and \<open>dup_num\<close> columns; an entry is the index of a path, a negative entry ends a row, and a
  row that starts with a negative entry ends the table.
\<close>

section \<open>The code\<close>

record nt_path_t =
  path_src :: address_t
  path_dst :: address_t

record nt_distributor_t =
  d_paths :: "nt_path_t list"
  path_num :: int
  seq2addr :: "int list"
  seq_num :: int
  dup_num :: int

text \<open>An array access with an index of type \<open>int\<close>.\<close>

definition rdi :: "'a list \<Rightarrow> int \<Rightarrow> 'a option" where
  "rdi xs i = (if i < 0 then None else rd xs (nat i))"

text \<open>
  The loop over the rows from \<open>i\<close>: \<open>None\<close> is the early return of \<open>false\<close>, otherwise the result is the number
  of rows before the end of the table. The inner loop tests the entries of a row.
\<close>

definition row_in_range :: "int list \<Rightarrow> int \<Rightarrow> int \<Rightarrow> nat \<Rightarrow> bool option" where
  "row_in_range table dups num i = for_up 0 (nat dups) (\<lambda>j ok.
     if \<not> ok then Some ok else do { v \<leftarrow> rdi table (int i * dups + int j); Some (v < num) }) True"

function count_rows :: "int list \<Rightarrow> int \<Rightarrow> int \<Rightarrow> nat \<Rightarrow> nat \<Rightarrow> int option option" where
  "count_rows table dups num seqs i =
     (if i < seqs then do {
        v \<leftarrow> rdi table (int i * dups);
        if v < 0 then Some (Some (int i))
        else do {
          ok \<leftarrow> row_in_range table dups num i;
          if ok then count_rows table dups num seqs (Suc i) else Some None
        }
      } else Some (Some (int seqs)))"
  by pat_completeness auto
termination
  by (relation "measure (\<lambda>(table, dups, num, seqs, i). seqs - i)") auto

declare count_rows.simps [simp del]

text \<open>The structure is written only when the result is \<open>true\<close>.\<close>

definition nt_distributor_init ::
    "nt_distributor_t \<Rightarrow> nt_path_t list \<Rightarrow> int \<Rightarrow> int list \<Rightarrow> int \<Rightarrow> int \<Rightarrow> (bool \<times> nt_distributor_t) option" where
  "nt_distributor_init d ps num table seqs dups =
     (if seqs < 0 \<or> dups < 0 then Some (False, d)
      else do {
        rows \<leftarrow> count_rows table dups num (nat seqs) 0;
        case rows of
          None \<Rightarrow> Some (False, d)
        | Some actual_seq_num \<Rightarrow>
            Some (True, d\<lparr>d_paths := ps, path_num := num, seq2addr := table, seq_num := actual_seq_num, dup_num := dups\<rparr>)
      })"

text \<open>
  The callers pass the index of a packet in its block as \<open>seq\<close>, which is not negative; a remainder by
  zero has no defined result.
\<close>

definition nt_distributor_select :: "nt_distributor_t \<Rightarrow> int \<Rightarrow> int \<Rightarrow> nt_path_t option option" where
  "nt_distributor_select d seq dup =
     (if dup \<ge> dup_num d then Some None
      else do {
        ensure (0 \<le> seq \<and> seq_num d \<noteq> 0);
        n \<leftarrow> rdi (seq2addr d) (seq mod seq_num d * dup_num d + dup);
        if n < 0 then Some None
        else do { p \<leftarrow> rdi (d_paths d) n; Some (Some p) }
      })"

section \<open>The table\<close>

text \<open>
  What the table means: the row of a sequence number, and the paths of a packet, which are those of its
  row up to the first negative entry.
\<close>

definition table_row :: "int list \<Rightarrow> int \<Rightarrow> nat \<Rightarrow> int list" where
  "table_row table dups i = map (\<lambda>j. table ! (i * nat dups + j)) [0..<nat dups]"

definition table_rows :: "int list \<Rightarrow> int \<Rightarrow> nat \<Rightarrow> int list list" where
  "table_rows table dups seqs = takeWhile (\<lambda>r. 0 \<le> hd r) (map (table_row table dups) [0..<seqs])"

definition routes :: "nt_distributor_t \<Rightarrow> int \<Rightarrow> nt_path_t list" where
  "routes d seq = map (\<lambda>n. d_paths d ! nat n)
     (takeWhile (\<lambda>n. 0 \<le> n) (table_row (seq2addr d) (dup_num d) (nat (seq mod seq_num d))))"

definition distributor_ok :: "nt_distributor_t \<Rightarrow> bool" where
  "distributor_ok d \<longleftrightarrow> 0 < seq_num d \<and> 0 < dup_num d \<and> nat (seq_num d) * nat (dup_num d) \<le> length (seq2addr d) \<and>
     (\<forall>i < nat (seq_num d). (\<forall>n \<in> set (table_row (seq2addr d) (dup_num d) i). n < int (length (d_paths d))) \<and>
        0 \<le> hd (table_row (seq2addr d) (dup_num d) i))"

lemma length_table_row [simp]: "length (table_row table dups i) = nat dups"
  by (simp add: table_row_def)

lemma table_row_nth: "j < nat dups \<Longrightarrow> table_row table dups i ! j = table ! (i * nat dups + j)"
  by (simp add: table_row_def)

lemma hd_table_row: "0 < dups \<Longrightarrow> hd (table_row table dups i) = table ! (i * nat dups)"
  by (simp add: table_row_def hd_map upt_rec)

lemma rdi_row:
  assumes "0 \<le> dups" "seqs * nat dups \<le> length table" "i < seqs" "j < nat dups"
  shows "rdi table (int i * dups + int j) = Some (table_row table dups i ! j)"
proof -
  have "i * nat dups + j < length table" using row_bound [OF assms(3,4)] assms(2) by simp
  moreover have "int i * dups + int j = int (i * nat dups + j)" using assms(1) by simp
  ultimately show ?thesis using assms(4) by (simp only: rdi_def of_nat_less_0_iff if_False nat_int rd_def table_row_nth if_True)
qed

lemma row_in_range_spec:
  assumes "0 \<le> dups" "seqs * nat dups \<le> length table" "i < seqs"
  shows "row_in_range table dups num i = Some (\<forall>n \<in> set (table_row table dups i). n < num)"
proof -
  let ?r = "table_row table dups i"
  define f where "f = (\<lambda>j ok. if \<not> ok then Some ok else do { v \<leftarrow> rdi table (int i * dups + int j); Some (v < num) })"
  have "\<exists>ok. for_up 0 (nat dups) f True = Some ok \<and> ok = (\<forall>k < nat dups. ?r ! k < num)"
  proof (rule for_up_rule)
    fix j ok assume j: "j < nat dups" and ok: "ok = (\<forall>k < j. ?r ! k < num)"
    show "\<exists>ok'. f j ok = Some ok' \<and> ok' = (\<forall>k < Suc j. ?r ! k < num)"
      using rdi_row [OF assms j] ok by (auto simp: f_def less_Suc_eq)
  qed simp_all
  then show ?thesis by (auto simp: row_in_range_def f_def [symmetric] all_set_conv_all_nth)
qed

lemma count_rows_spec:
  assumes "0 < dups" "seqs * nat dups \<le> length table"
  shows "i \<le> seqs \<Longrightarrow> count_rows table dups num seqs i = Some (
    let rs = takeWhile (\<lambda>r. 0 \<le> hd r) (map (table_row table dups) [i..<seqs]) in
    if \<forall>r \<in> set rs. \<forall>n \<in> set r. n < num then Some (int (i + length rs)) else None)"
proof (induction "seqs - i" arbitrary: i)
  case 0
  then show ?case by (simp add: count_rows.simps)
next
  case (Suc d)
  then have i: "i < seqs" by simp
  have d: "0 < nat dups" "0 \<le> dups" using assms(1) by simp_all
  have hd: "rdi table (int i * dups) = Some (hd (table_row table dups i))"
    using rdi_row [OF d(2) assms(2) i d(1)] assms(1) by (simp add: hd_conv_nth table_row_def)
  have upt: "[i..<seqs] = i # [Suc i..<seqs]" using i by (rule upt_conv_Cons)
  show ?case
    using i hd row_in_range_spec [OF d(2) assms(2) i, of num] Suc.hyps(1) [of "Suc i"] Suc.hyps(2)
    by (subst count_rows.simps) (auto simp: upt Let_def)
qed

lemma table_rows_nth:
  "i < length (table_rows table dups seqs) \<Longrightarrow> table_rows table dups seqs ! i = table_row table dups i \<and> 0 \<le> hd (table_row table dups i) \<and> i < seqs"
  using length_takeWhile_le [of "\<lambda>r. 0 \<le> hd r" "map (table_row table dups) [0..<seqs]"]
    nth_length_takeWhile [of "\<lambda>r. 0 \<le> hd r" "map (table_row table dups) [0..<seqs]"]
    nth_mem [of i "table_rows table dups seqs"]
  by (auto simp: table_rows_def takeWhile_nth dest!: set_takeWhileD)

lemma distributor_init_cases:
  assumes "0 < dups" "0 \<le> seqs" "nat seqs * nat dups \<le> length table"
  shows "nt_distributor_init d ps num table seqs dups = Some (
    let rows = table_rows table dups (nat seqs) in
    if \<forall>r \<in> set rows. \<forall>n \<in> set r. n < num
    then (True, d\<lparr>d_paths := ps, path_num := num, seq2addr := table, seq_num := int (length rows), dup_num := dups\<rparr>) else (False, d))"
  using assms count_rows_spec [of dups "nat seqs" table 0 num]
  by (simp add: nt_distributor_init_def table_rows_def Let_def)

lemma distributor_ok_row:
  "distributor_ok d \<Longrightarrow> i < nat (seq_num d) \<Longrightarrow> n \<in> set (table_row (seq2addr d) (dup_num d) i) \<Longrightarrow> n < int (length (d_paths d))"
  unfolding distributor_ok_def by blast

lemma select_entry:
  assumes d: "distributor_ok d" and "0 \<le> seq" "0 \<le> dup" "dup < dup_num d"
  shows "nt_distributor_select d seq dup =
    (let n = table_row (seq2addr d) (dup_num d) (nat (seq mod seq_num d)) ! nat dup in
     Some (if n < 0 then None else Some (d_paths d ! nat n)))"
proof -
  let ?i = "nat (seq mod seq_num d)"
  let ?r = "table_row (seq2addr d) (dup_num d) ?i"
  have pos: "0 < seq_num d" "0 < dup_num d" using d by (simp_all add: distributor_ok_def)
  have m: "0 \<le> seq mod seq_num d" "seq mod seq_num d < seq_num d" using pos by simp_all
  have i: "?i < nat (seq_num d)" using m by (simp add: nat_less_iff)
  have "rdi (seq2addr d) (int ?i * dup_num d + int (nat dup)) = Some (?r ! nat dup)"
    by (rule rdi_row [where seqs = "nat (seq_num d)"]) (use d i assms pos in \<open>simp_all add: distributor_ok_def\<close>)
  then have e: "rdi (seq2addr d) (seq mod seq_num d * dup_num d + dup) = Some (?r ! nat dup)" using m(1) assms(3) by simp
  have "?r ! nat dup \<in> set ?r" using assms(3,4) by (intro nth_mem) simp
  then have "?r ! nat dup < int (length (d_paths d))" by (rule distributor_ok_row [OF d i])
  then show ?thesis using e assms pos by (auto simp: nt_distributor_select_def rdi_def rd_def Let_def nat_less_iff)
qed

text \<open>Counting up from zero, the calls of \<open>nt_distributor_select\<close> enumerate the routes of a packet.\<close>

lemma select_route:
  assumes "distributor_ok d" "0 \<le> seq"
  shows "i < length (routes d seq) \<Longrightarrow> nt_distributor_select d seq (int i) = Some (Some (routes d seq ! i))"
    and "nt_distributor_select d seq (int (length (routes d seq))) = Some None"
proof -
  let ?r = "table_row (seq2addr d) (dup_num d) (nat (seq mod seq_num d))"
  let ?t = "takeWhile (\<lambda>n. 0 \<le> n) ?r"
  have len: "length (routes d seq) = length ?t" by (simp add: routes_def)
  have le: "length ?t \<le> nat (dup_num d)" using length_takeWhile_le [of "\<lambda>n. 0 \<le> n" ?r] by simp
  show "nt_distributor_select d seq (int i) = Some (Some (routes d seq ! i))" if "i < length (routes d seq)"
  proof -
    have i: "i < length ?t" using that len by simp
    then have "0 \<le> ?r ! i" using nth_mem [OF i] by (auto simp: takeWhile_nth dest: set_takeWhileD)
    moreover have "int i < dup_num d" using i le by linarith
    ultimately show ?thesis using select_entry [OF assms, of "int i"] i by (simp add: routes_def takeWhile_nth)
  qed
  show "nt_distributor_select d seq (int (length (routes d seq))) = Some None"
  proof (cases "length ?t < nat (dup_num d)")
    case True
    then have "?r ! length ?t < 0" using nth_length_takeWhile [of "\<lambda>n. 0 \<le> n" ?r] by simp
    then show ?thesis using select_entry [OF assms, of "int (length ?t)"] True len by simp
  next
    case False
    then have "dup_num d \<le> int (length (routes d seq))" using len by simp
    then show ?thesis by (simp add: nt_distributor_select_def)
  qed
qed

lemma routes_nonempty: "distributor_ok d \<Longrightarrow> 0 \<le> seq \<Longrightarrow> routes d seq \<noteq> []"
proof -
  assume d: "distributor_ok d" and "0 \<le> seq"
  let ?r = "table_row (seq2addr d) (dup_num d) (nat (seq mod seq_num d))"
  have "0 < seq_num d" "0 < nat (dup_num d)" using d by (simp_all add: distributor_ok_def)
  then have "0 \<le> hd ?r" "?r \<noteq> []" using d by (auto simp: distributor_ok_def nat_less_iff table_row_def)
  then show ?thesis by (cases ?r) (simp_all add: routes_def)
qed

lemma init_ok:
  assumes "0 < dups" "0 \<le> seqs" "nat seqs * nat dups \<le> length table"
    and rows: "table_rows table dups (nat seqs) \<noteq> []" "\<forall>r \<in> set (table_rows table dups (nat seqs)). \<forall>n \<in> set r. n < int (length ps)"
  shows "distributor_ok (d\<lparr>d_paths := ps, path_num := num, seq2addr := table, seq_num := int (length (table_rows table dups (nat seqs))), dup_num := dups\<rparr>)"
proof -
  let ?R = "table_rows table dups (nat seqs)"
  have "length ?R \<le> nat seqs" using length_takeWhile_le [of "\<lambda>r. 0 \<le> hd r" "map (table_row table dups) [0..<nat seqs]"]
    by (simp add: table_rows_def)
  then have "length ?R * nat dups \<le> length table" using assms(3) by (meson mult_le_mono1 order_trans)
  moreover have "(\<forall>n \<in> set (table_row table dups i). n < int (length ps)) \<and> 0 \<le> hd (table_row table dups i)" if "i < length ?R" for i
    using rows(2) table_rows_nth [OF that] nth_mem [OF that] by auto
  ultimately show ?thesis using assms(1) rows(1) by (simp add: distributor_ok_def)
qed

section \<open>Properties\<close>

text \<open>
  C22. The table of paths. For a table of the size the caller announces, \<open>nt_distributor_init\<close> accepts it
  exactly if no row before its end names a path that does not exist, and then \<open>nt_distributor_select\<close>
  returns, for every packet and copy, the entry of the row with the number of the packet modulo the
  number of rows: the path it names, or none if it is negative or the copy is beyond the row. The
  first copy always has a path. The exception is a table whose first entry is negative: it is accepted
  with no rows at all, and every call of \<open>nt_distributor_select\<close> divides by zero.
\<close>

theorem distributor_selects:
  assumes "0 < dups" "0 \<le> seqs" "nat seqs * nat dups \<le> length table"
  defines "rows \<equiv> table_rows table dups (nat seqs)"
  shows "(if \<exists>r \<in> set rows. \<exists>n \<in> set r. int (length ps) \<le> n
     then nt_distributor_init d ps (int (length ps)) table seqs dups = Some (False, d)
     else \<exists>d'. nt_distributor_init d ps (int (length ps)) table seqs dups = Some (True, d') \<and>
       (if rows = [] then \<forall>seq. nt_distributor_select d' seq 0 = None
        else \<forall>seq dup. nt_distributor_select d' (int seq) (int dup) =
            Some (let r = rows ! (seq mod length rows) in
              if dup < length r \<and> 0 \<le> r ! dup then Some (ps ! nat (r ! dup)) else None) \<and>
          nt_distributor_select d' (int seq) 0 \<noteq> Some None))"
proof (cases "\<exists>r \<in> set rows. \<exists>n \<in> set r. int (length ps) \<le> n")
  case True
  then have "\<not> (\<forall>r \<in> set rows. \<forall>n \<in> set r. n < int (length ps))" by (meson not_le)
  then show ?thesis using True distributor_init_cases [OF assms(1-3), of d ps "int (length ps)"] by (simp add: rows_def Let_def)
next
  case False
  then have range: "\<forall>r \<in> set (table_rows table dups (nat seqs)). \<forall>n \<in> set r. n < int (length ps)" unfolding rows_def by (meson not_le)
  define d' where "d' = d\<lparr>d_paths := ps, path_num := int (length ps), seq2addr := table, seq_num := int (length rows), dup_num := dups\<rparr>"
  have init: "nt_distributor_init d ps (int (length ps)) table seqs dups = Some (True, d')"
    using distributor_init_cases [OF assms(1-3), of d ps "int (length ps)"] range by (simp add: rows_def d'_def)
  have "if rows = [] then \<forall>seq. nt_distributor_select d' seq 0 = None
        else \<forall>seq dup. nt_distributor_select d' (int seq) (int dup) =
            Some (let r = rows ! (seq mod length rows) in
              if dup < length r \<and> 0 \<le> r ! dup then Some (ps ! nat (r ! dup)) else None) \<and>
          nt_distributor_select d' (int seq) 0 \<noteq> Some None"
  proof (cases "rows = []")
    case True
    then show ?thesis using assms(1) by (simp add: nt_distributor_select_def d'_def)
  next
    case rows: False
    then have ok: "distributor_ok d'" using init_ok [OF assms(1-3) _ range, of "int (length ps)" d] by (simp add: d'_def rows_def)
    have "nt_distributor_select d' (int seq) (int dup) =
            Some (let r = rows ! (seq mod length rows) in
              if dup < length r \<and> 0 \<le> r ! dup then Some (ps ! nat (r ! dup)) else None)" for seq dup
    proof -
      have "rows ! (seq mod length rows) = table_row table dups (seq mod length rows)"
        using table_rows_nth [of "seq mod length rows" table dups "nat seqs"] rows by (simp add: rows_def)
      moreover have "nat (int seq mod int (length rows)) = seq mod length rows" by (simp add: zmod_int [symmetric])
      ultimately show ?thesis using select_entry [OF ok, of "int seq" "int dup"]
        by (cases "int dup < dups") (auto simp: d'_def Let_def nt_distributor_select_def)
    qed
    moreover have "nt_distributor_select d' (int seq) 0 \<noteq> Some None" for seq
      using select_route(1) [OF ok, of "int seq" 0] routes_nonempty [OF ok, of "int seq"] by simp
    ultimately show ?thesis using rows by simp
  qed
  then show ?thesis using False init by auto
qed

text \<open>Two paths, two rows of two columns, the third row empty: odd packets go out twice.\<close>

definition some_path :: "u32 \<Rightarrow> nt_path_t" where
  "some_path a = \<lparr>path_src = Addr_in 0 0, path_dst = Addr_in a 4000\<rparr>"

definition some_distributor :: nt_distributor_t where
  "some_distributor = \<lparr>d_paths = [], path_num = 9, seq2addr = [], seq_num = 9, dup_num = 9\<rparr>"

theorem distributor_selects_witness:
  "\<exists>d'. nt_distributor_init some_distributor [some_path 1, some_path 2] 2 [0, -1, 1, 0, -1, -1] 3 2 = Some (True, d') \<and>
    nt_distributor_select d' 5 1 = Some (Some (some_path 1)) \<and> nt_distributor_select d' 4 1 = Some None"
proof -
  have rows: "table_rows [0, -1, 1, 0, -1, -1] 2 (nat 3) = [[0, -1], [1, 0]]" by code_simp
  obtain d' where d': "nt_distributor_init some_distributor [some_path 1, some_path 2] 2 [0, -1, 1, 0, -1, -1] 3 2 = Some (True, d')"
    "\<forall>seq dup. nt_distributor_select d' (int seq) (int dup) =
            Some (let r = [[0, -1], [1, 0]] ! (seq mod Suc (Suc 0)) in
              if dup < length r \<and> 0 \<le> r ! dup then Some ([some_path 1, some_path 2] ! nat (r ! dup)) else None)"
    using distributor_selects [of 2 3 "[0, -1, 1, 0, -1, -1]" "[some_path 1, some_path 2]" some_distributor] unfolding rows
    by simp blast
  have "nt_distributor_select d' (int 5) (int 1) = Some (Some (some_path 1))" "nt_distributor_select d' (int 4) (int 1) = Some None"
    using spec [OF spec [OF d'(2), of 5], of 1] spec [OF spec [OF d'(2), of 4], of 1] by (simp_all add: numeral_2_eq_2 [symmetric])
  then show ?thesis using d'(1) by (intro exI [of _ d']) simp
qed

end
