(* ===== verification/Nt_Fec_Processor.thy ===== *)
theory Nt_Fec_Processor
  imports Nt_Distributor Nt_Fec Nt_Perf Worker_Queue Dispatcher
begin

text \<open>
  The processor of the tunnel, \<^verbatim>\<open>src/src/main/tunnel/nt_fec_processor.c\<close>: two workers on one event loop,
  one that encodes the messages of the clients and sends the packets along their paths, one that decodes the
  packets of the tunnel and sends the messages to their destinations; and the pass-through forwarder of
  \<^verbatim>\<open>src/src/main/tunnel/nt_forwarder.c\<close>. The kernel and the encryptor (\<^verbatim>\<open>keycenter/ka_encryptor.h\<close>, whose
  implementation is not part of the sources) are parameters; the counters are shared by all threads and are the
  first component of the world.
\<close>

section \<open>The forwarder\<close>

record nt_forwarder_t =
  fw_path :: nt_path_t
  fw_api_udp :: udp_t
  fw_tun_udp :: udp_t

definition nt_forwarder_init :: "nt_path_t \<Rightarrow> udp_t \<Rightarrow> udp_t \<Rightarrow> nt_forwarder_t" where
  "nt_forwarder_init path api tun = \<lparr>fw_path = path, fw_api_udp = api, fw_tun_udp = tun\<rparr>"

definition nt_forwarder_send :: "'w kernel \<Rightarrow> nt_forwarder_t \<Rightarrow> u8 list \<Rightarrow> 'w \<Rightarrow> (bool \<times> 'w) option" where
  "nt_forwarder_send k f message w = do {
     header \<leftarrow> nt_api_header_at message;
     let size = nt_api_message_size header;
     (r, w) \<leftarrow> udp_send k (fw_tun_udp f) message size (Some (path_src (fw_path f))) (Some (path_dst (fw_path f))) w;
     (case r of Inr sent \<Rightarrow> do { ensure (sent = size); Some (True, w) } | Inl e \<Rightarrow> Some (False, w))
   }"

definition nt_forwarder_receive :: "'w kernel \<Rightarrow> nt_forwarder_t \<Rightarrow> u8 list \<Rightarrow> 'w \<Rightarrow> (bool \<times> 'w) option" where
  "nt_forwarder_receive k f message w = do {
     header \<leftarrow> nt_api_header_at message;
     let size = nt_api_message_size header;
     let dst = address_init4 (a1_dst_ip header) (a1_dst_port header);
     (r, w) \<leftarrow> udp_sendto k (fw_api_udp f) message size dst w;
     (case r of Inr sent \<Rightarrow> do { ensure (sent = size); Some (True, w) } | Inl e \<Rightarrow> Some (False, w))
   }"

section \<open>The processor\<close>

text \<open>Both functions of the encryptor return a buffer, or nothing if they fail.\<close>

record 'w ka_encryptor_t =
  ka_encryptor_encrypt :: "u8 list \<Rightarrow> 'w \<Rightarrow> u8 list option \<times> 'w"
  ka_encryptor_decrypt :: "u8 list \<Rightarrow> 'w \<Rightarrow> u8 list option \<times> 'w"

text \<open>
  A message of a worker is the address of a buffer, with the function that releases it: there is only
  one, \<open>pool_free\<close>. Callbacks and their data are addresses too. The codec is its two functions and its state.
\<close>

record ('s, 'w) nt_fec_processor_t =
  np_dispatcher :: "(nat, nat) dispatcher_t"
  encoder :: "(nat, unit) worker_t"
  decoder :: "(nat, unit) worker_t"
  distributor :: nt_distributor_t
  api_udp :: udp_t
  tun_udp :: udp_t
  np_fec :: "('s, perf_t \<times> 'w) nt_fec_t"
  fec_state :: 's
  encryptor :: "'w ka_encryptor_t option"

definition tally :: "u8 list \<Rightarrow> int \<Rightarrow> perf_t \<times> 'w \<Rightarrow> (perf_t \<times> 'w) option" where
  "tally name n pw = do { perf \<leftarrow> perf_inc (fst pw) name n; Some (perf, snd pw) }"

text \<open>The loop of \<open>on_encode\<close> over the copies of a packet from number \<open>i\<close>.\<close>

function send_copies ::
    "'w kernel \<Rightarrow> ('s, 'w) nt_fec_processor_t \<Rightarrow> nt_fec_header_t \<Rightarrow> u8 list list \<Rightarrow> nat \<Rightarrow> perf_t \<times> 'w \<Rightarrow> (perf_t \<times> 'w) option" where
  "send_copies k p header iov i pw = do {
     path \<leftarrow> nt_distributor_select (distributor p) (uint (fh_block_index header)) (int i);
     (case path of
        None \<Rightarrow> Some pw
      | Some path \<Rightarrow> do {
          let (r, w) = udp_send_v k (tun_udp p) iov (Some (path_src path)) (Some (path_dst path)) (snd pw);
          pw \<leftarrow> (case r of
             Inr sent \<Rightarrow> do {
               ensure (sent = nt_fec_message_size header);
               pw \<leftarrow> tally COUNTER_TUN_SENT 1 (fst pw, w);
               tally COUNTER_TUN_SENT_BYTES (int sent) pw
             }
           | Inl err \<Rightarrow> tally COUNTER_TUN_SEND_ERROR 1 (fst pw, w));
          send_copies k p header iov (Suc i) pw
        })
   }"
  by pat_completeness auto
termination
proof (relation "measure (\<lambda>(k, p, header, iov, i, pw). nat (dup_num (distributor p)) - i)")
  fix k :: "'w kernel" and p :: "('s, 'w) nt_fec_processor_t" and header iov i pw path path' and pw' :: "perf_t \<times> 'w"
  assume "nt_distributor_select (distributor p) (uint (fh_block_index header)) (int i) = Some path" "path = Some path'"
  then have "int i < dup_num (distributor p)" by (simp add: nt_distributor_select_def split: if_splits)
  then show "((k, p, header, iov, Suc i, pw'), k, p, header, iov, i, pw)
    \<in> measure (\<lambda>(k, p, header, iov, i, pw). nat (dup_num (distributor p)) - i)" by simp
qed simp_all

declare send_copies.simps [simp del]

definition on_encode :: "'w kernel \<Rightarrow> ('s, 'w) nt_fec_processor_t \<Rightarrow> (perf_t \<times> 'w) nt_fec_on_encode_t" where
  "on_encode k p header payload payload_size pw = do {
     ensure (0 \<le> payload_size \<and> nat payload_size \<le> length payload);
     pw \<leftarrow> send_copies k p header [nt_fec_header_bytes header, take (nat payload_size) payload] 0 pw;
     Some (0, pw)
   }"

text \<open>What both branches of \<open>on_decode\<close> do with the result of a call to the kernel.\<close>

definition count_api_sent :: "nat \<Rightarrow> int + nat \<Rightarrow> perf_t \<times> 'w \<Rightarrow> (perf_t \<times> 'w) option" where
  "count_api_sent sz r pw = (case r of
       Inr sent \<Rightarrow> do {
         ensure (sent = sz);
         pw \<leftarrow> tally COUNTER_API_SENT_V1 1 pw;
         pw \<leftarrow> tally COUNTER_API_SENT 1 pw;
         tally COUNTER_API_SENT_BYTES (int sent) pw
       }
     | Inl err \<Rightarrow> tally COUNTER_API_SEND_ERROR 1 pw)"

definition on_decode_v1 :: "'w kernel \<Rightarrow> ('s, 'w) nt_fec_processor_t \<Rightarrow> u8 list \<Rightarrow> int \<Rightarrow> perf_t \<times> 'w \<Rightarrow> (perf_t \<times> 'w) option" where
  "on_decode_v1 k p decoded sz pw = do {
     header \<leftarrow> nt_api_header_at decoded;
     if sz \<noteq> int (nt_api_message_size header) then tally COUNTER_CORRUPT_DECODED_DATA 1 pw
     else do {
       let dst = address_init4 (a1_dst_ip header) (a1_dst_port header);
       (r, w) \<leftarrow> udp_sendto k (api_udp p) decoded (nat sz) dst (snd pw);
       count_api_sent (nat sz) r (fst pw, w)
     }
   }"

text \<open>
  The switch over the type of encryption: the payload, if there is one, and the header with its new size.
  Another type has no defined continuation, the code tests it with \<open>ensure(false)\<close>.
\<close>

definition decrypt_payload ::
    "('s, 'w) nt_fec_processor_t \<Rightarrow> nt_api2_header_t \<Rightarrow> u8 list \<Rightarrow> 'w \<Rightarrow> (u8 list option \<times> nt_api2_header_t \<times> 'w) option" where
  "decrypt_payload p header decoded w =
     (if a2_encrypt_type header = NT_ENCRYPT_TYPE_NONE then Some (Some (nt_api2_message_payload decoded), header, w)
      else if a2_encrypt_type header = NT_ENCRYPT_TYPE_KC then
        (case encryptor p of
           None \<Rightarrow> Some (None, header, w)
         | Some e \<Rightarrow> do {
             let size = unat (nt_api2_header_payload_size header);
             ensure (size \<le> length (nt_api2_message_payload decoded));
             let (decrypted, w) = ka_encryptor_decrypt e (take size (nt_api2_message_payload decoded)) w;
             (case decrypted of
                None \<Rightarrow> Some (None, header, w)
              | Some d \<Rightarrow> Some (Some d, nt_api2_header_set_payload_size header (of_nat (length d)), w))
           })
      else None)"

text \<open>The last part of the branch for version two: the message goes out under a header of version one.\<close>

definition send_translated ::
    "'w kernel \<Rightarrow> ('s, 'w) nt_fec_processor_t \<Rightarrow> nt_api2_header_t \<Rightarrow> u8 list \<Rightarrow> perf_t \<times> 'w \<Rightarrow> (perf_t \<times> 'w) option" where
  "send_translated k p header payload pw = do {
     let dst = address_init4 (a2_dst_ip header) (a2_dst_port header);
     let header1 = nt_api_header_from header;
     let size = unat (nt_api2_header_payload_size header);
     ensure (size \<le> length payload);
     let (r, w) = udp_send_v k (api_udp p) [nt_api_header_bytes header1, take size payload] None (Some dst) (snd pw);
     count_api_sent (nt_api_message_size header1) r (fst pw, w)
   }"

definition on_decode_v2 :: "'w kernel \<Rightarrow> ('s, 'w) nt_fec_processor_t \<Rightarrow> u8 list \<Rightarrow> int \<Rightarrow> perf_t \<times> 'w \<Rightarrow> (perf_t \<times> 'w) option" where
  "on_decode_v2 k p decoded sz pw = do {
     header \<leftarrow> nt_api2_header_at decoded;
     if sz \<noteq> int (nt_api2_message_size header) then tally COUNTER_CORRUPT_DECODED_DATA 1 pw
     else if a2_ttl header \<le> 0 then tally COUNTER_TTL_EXCEEDED 1 pw
     else do {
       let header = header\<lparr>a2_ttl := a2_ttl header - 1\<rparr>;
       (payload, header, w) \<leftarrow> decrypt_payload p header decoded (snd pw);
       (case payload of
          None \<Rightarrow> tally COUNTER_DECRYPT_ERROR 1 (fst pw, w)
        | Some payload \<Rightarrow> send_translated k p header payload (fst pw, w))
     }
   }"

text \<open>
  The code writes the smaller lifetime and the new size into the buffer; its callers do not look at
  the buffer again, except that the codec may decode the next message into it.
\<close>

definition on_decode :: "'w kernel \<Rightarrow> ('s, 'w) nt_fec_processor_t \<Rightarrow> (perf_t \<times> 'w) nt_fec_on_decode_t" where
  "on_decode k p decoded sz pw = do {
     v1 \<leftarrow> nt_api_header_is_valid decoded;
     pw \<leftarrow> (if v1 then on_decode_v1 k p decoded sz pw
       else do {
         v2 \<leftarrow> nt_api2_header_is_valid decoded;
         if v2 then on_decode_v2 k p decoded sz pw else tally COUNTER_CORRUPT_DECODED_DATA 1 pw
       });
     Some (0, pw)
   }"

text \<open>A call of the codec with the message in \<open>buf\<close>; its result has to be zero.\<close>

definition encode_message ::
    "'w kernel \<Rightarrow> ('s, 'w) nt_fec_processor_t \<Rightarrow> u8 list \<Rightarrow> nat \<Rightarrow> perf_t \<times> 'w \<Rightarrow> (('s, 'w) nt_fec_processor_t \<times> perf_t \<times> 'w) option" where
  "encode_message k p buf sz pw = do {
     (err, s, pw) \<leftarrow> nt_fec_encode (np_fec p) (fec_state p) buf (int sz) (on_encode k p) pw;
     ensure (err = 0);
     Some (p\<lparr>fec_state := s\<rparr>, pw)
   }"

definition encrypt_message ::
    "'w kernel \<Rightarrow> ('s, 'w) nt_fec_processor_t \<Rightarrow> nt_api2_header_t \<Rightarrow> u8 list \<Rightarrow> perf_t \<times> 'w \<Rightarrow> (('s, 'w) nt_fec_processor_t \<times> perf_t \<times> 'w) option" where
  "encrypt_message k p header message pw = do {
     (encrypted, w) \<leftarrow> (case encryptor p of
        None \<Rightarrow> Some (None, snd pw)
      | Some e \<Rightarrow> do {
          let size = unat (nt_api2_header_payload_size header);
          ensure (size \<le> length (nt_api2_message_payload message));
          Some (ka_encryptor_encrypt e (take size (nt_api2_message_payload message)) (snd pw))
        });
     (case encrypted of
        None \<Rightarrow> do { pw \<leftarrow> tally COUNTER_ENCRYPT_ERROR 1 (fst pw, w); Some (p, pw) }
      | Some c \<Rightarrow> do {
          let header = nt_api2_header_set_payload_size header (of_nat (length c));
          let buf = nt_api2_header_bytes header @ c;
          encode_message k p buf (nt_api2_message_size header) (fst pw, w)
        })
   }"

definition encoder_on_message ::
    "'w kernel \<Rightarrow> ('s, 'w) nt_fec_processor_t \<Rightarrow> u8 list \<Rightarrow> perf_t \<times> 'w \<Rightarrow> (('s, 'w) nt_fec_processor_t \<times> perf_t \<times> 'w) option" where
  "encoder_on_message k p message pw = do {
     v1 \<leftarrow> nt_api_header_is_valid message;
     if v1 then do {
       header \<leftarrow> nt_api_header_at message;
       encode_message k p message (nt_api_message_size header) pw
     }
     else do {
       v2 \<leftarrow> nt_api2_header_is_valid message;
       ensure v2;
       header \<leftarrow> nt_api2_header_at message;
       if a2_encrypt_type header = NT_ENCRYPT_TYPE_NONE then encode_message k p message (nt_api2_message_size header) pw
       else if a2_encrypt_type header = NT_ENCRYPT_TYPE_KC then encrypt_message k p header message pw
       else None
     }
   }"

definition decoder_on_message ::
    "'w kernel \<Rightarrow> int \<Rightarrow> ('s, 'w) nt_fec_processor_t \<Rightarrow> u8 list \<Rightarrow> perf_t \<times> 'w \<Rightarrow> (('s, 'w) nt_fec_processor_t \<times> perf_t \<times> 'w) option" where
  "decoder_on_message k now p message pw = do {
     header \<leftarrow> nt_fec_header_at message;
     (err, s, pw) \<leftarrow> nt_fec_decode (np_fec p) now (fec_state p) header (nt_fec_message_payload message)
       (uint (nt_fec_header_payload_size header)) (on_decode k p) pw;
     pw \<leftarrow> (if err = 0 then Some pw
       else if err = E_FEC_DECODER_BUFFER_FULL then tally COUNTER_DECODER_BUFFER_FULL 1 pw
       else if err = E_FEC_INVALID_HEADER then tally COUNTER_INVALID_ENCODED_DATA 1 pw
       else tally COUNTER_DECODE_ERROR 1 pw);
     Some (p\<lparr>fec_state := s\<rparr>, pw)
   }"

section \<open>Setting up and tearing down\<close>

definition dispatcher_add_worker :: "int \<Rightarrow> int \<Rightarrow> int" where
  "dispatcher_add_worker rc err = dispatcher_add_handler rc err"

text \<open>
  What the calls of the kernel return during set-up: the two event descriptors, the event loop and the two
  registrations, each with its error number.
\<close>

record su_results =
  su_encoder :: "int \<times> int"
  su_decoder :: "int \<times> int"
  su_epoll :: "int \<times> int"
  su_add1 :: "int \<times> int"
  su_add2 :: "int \<times> int"

text \<open>
  \<open>alloc\<close> and \<open>alloc'\<close> are the addresses of the buffers of the two workers, \<open>mem\<close>, \<open>contents\<close> and \<open>heap\<close> the
  contents of fresh memory. The result is an error number or the processor.
\<close>

definition nt_fec_processor_init ::
    "su_results \<Rightarrow> (nat \<Rightarrow> nat) \<Rightarrow> (nat \<Rightarrow> nat) \<Rightarrow> (nat \<Rightarrow> nat) \<Rightarrow> (nat \<Rightarrow> (nat, unit) message_t) \<Rightarrow> (nat \<Rightarrow> (nat, nat) timer_entry_t entry_t) \<Rightarrow>
     nat \<Rightarrow> nt_distributor_t \<Rightarrow> udp_t \<Rightarrow> udp_t \<Rightarrow> ('s, perf_t \<times> 'w) nt_fec_t \<Rightarrow> 's \<Rightarrow> 'w ka_encryptor_t option \<Rightarrow>
     (int + ('s, 'w) nt_fec_processor_t) option" where
  "nt_fec_processor_init su mem alloc alloc' contents heap mq_capacity dstr api tun fec s enc = do {
     e \<leftarrow> worker_init (fst (su_encoder su)) (snd (su_encoder su)) mem alloc contents mq_capacity;
     case e of Inl err \<Rightarrow> Some (Inl err) | Inr enc_worker \<Rightarrow> do {
     d \<leftarrow> worker_init (fst (su_decoder su)) (snd (su_decoder su)) mem alloc' contents mq_capacity;
     case d of Inl err \<Rightarrow> Some (Inl err) | Inr dec_worker \<Rightarrow>
     (case dispatcher_init1 (fst (su_epoll su)) (snd (su_epoll su)) heap 100 of Inl err \<Rightarrow> Some (Inl err) | Inr disp \<Rightarrow>
       let err = dispatcher_add_worker (fst (su_add1 su)) (snd (su_add1 su)) in
       if err \<noteq> 0 then Some (Inl err)
       else let err = dispatcher_add_worker (fst (su_add2 su)) (snd (su_add2 su)) in
       if err \<noteq> 0 then Some (Inl err)
       else Some (Inr \<lparr>np_dispatcher = disp, encoder = enc_worker, decoder = dec_worker, distributor = dstr, api_udp = api,
              tun_udp = tun, np_fec = fec, fec_state = s, encryptor = enc\<rparr>)) } }"

text \<open>
  Destruction stops at the first error. \<open>rc\<close>, \<open>rcd\<close> and \<open>rce\<close> are what \<open>close\<close> returns for the three descriptors,
  with the error number. The second result lists the messages that were released.
\<close>

definition nt_fec_processor_destroy ::
    "int \<times> int \<Rightarrow> int \<times> int \<Rightarrow> int \<times> int \<Rightarrow> ('s, 'w) nt_fec_processor_t \<Rightarrow> (int \<times> (nat, unit) message_t list) option" where
  "nt_fec_processor_destroy rc rcd rce p = do {
     (err, timers, d) \<leftarrow> dispatcher_destroy (fst rc) (snd rc) (np_dispatcher p);
     if err \<noteq> 0 then Some (err, [])
     else do {
       (err, released, freed) \<leftarrow> worker_destroy (fst rcd) (snd rcd) (decoder p);
       if err \<noteq> 0 then Some (err, released)
       else do {
         (err, released', freed') \<leftarrow> worker_destroy (fst rce) (snd rce) (encoder p);
         Some (err, released @ released')
       }
     }
   }"

definition nt_fec_processor_run ::
    "(nat, nat, 'v) env \<Rightarrow> nat \<Rightarrow> nat \<Rightarrow> ('s, 'w) nt_fec_processor_t \<Rightarrow> 'v \<Rightarrow> (int \<times> (nat, nat) dispatcher_t \<times> 'v) option" where
  "nt_fec_processor_run env tfuel fuel p w = dispatcher_run env tfuel fuel (np_dispatcher p) w"

definition nt_fec_processor_encode :: "('s, 'w) nt_fec_processor_t \<Rightarrow> nat \<Rightarrow> (bool \<times> ('s, 'w) nt_fec_processor_t) option" where
  "nt_fec_processor_encode p message = do {
     (ok, w) \<leftarrow> worker_send (encoder p) message ();
     Some (ok, p\<lparr>encoder := w\<rparr>)
   }"

definition nt_fec_processor_decode :: "('s, 'w) nt_fec_processor_t \<Rightarrow> nat \<Rightarrow> (bool \<times> ('s, 'w) nt_fec_processor_t) option" where
  "nt_fec_processor_decode p message = do {
     (ok, w) \<leftarrow> worker_send (decoder p) message ();
     Some (ok, p\<lparr>decoder := w\<rparr>)
   }"

section \<open>Counting\<close>

definition bump :: "(u8 list \<rightharpoonup> u64) \<Rightarrow> u8 list \<Rightarrow> int \<Rightarrow> (u8 list \<rightharpoonup> u64)" where
  "bump m name n = m(name \<mapsto> the (m name) + word_of_int n)"

lemma bump_add: "bump (bump m a x) a y = bump m a (x + y)"
  by (simp add: bump_def add.assoc)

lemma bump_swap: "a \<noteq> b \<Longrightarrow> bump (bump m a x) b y = bump (bump m b y) a x"
  by (simp add: bump_def fun_upd_twist)

lemma bump_0: "m a \<noteq> None \<Longrightarrow> bump m a 0 = m"
  by (auto simp: bump_def)

lemma bump_dom [simp]: "bump m a x b = None \<longleftrightarrow> b \<noteq> a \<and> m b = None"
  by (simp add: bump_def)

lemma nt_perf_dom [simp]: "nt_perf p \<Longrightarrow> name \<in> set nt_counter_names \<Longrightarrow> perf_map p name \<noteq> None"
  by (auto simp: nt_perf_def dom_def)

lemma tally_spec:
  assumes "nt_perf p" "name \<in> set nt_counter_names"
  shows "\<exists>p'. tally name n (p, w) = Some (p', w) \<and> nt_perf p' \<and> perf_map p' = bump (perf_map p) name n"
  using nt_perf_inc [OF assms, of n] by (auto simp: tally_def bump_def)

lemma send_counters_distinct:
  "COUNTER_TUN_SENT \<noteq> COUNTER_TUN_SENT_BYTES" "COUNTER_TUN_SENT \<noteq> COUNTER_TUN_SEND_ERROR" "COUNTER_TUN_SENT_BYTES \<noteq> COUNTER_TUN_SEND_ERROR"
  by (simp_all add: counter_name_defs cstr_def)

section \<open>Sending copies\<close>

text \<open>A datagram is sent as a whole or not at all, so the number of bytes reported is its length.\<close>

definition whole_datagrams :: "'w kernel \<Rightarrow> bool" where
  "whole_datagrams k \<longleftrightarrow> (\<forall>fd m w n w'. sendmsg k fd m w = (Inr n, w') \<longrightarrow> n = length (concat (msg_iov m))) \<and>
     (\<forall>fd d a w n w'. sendto k fd d a w = (Inr n, w') \<longrightarrow> n = length d)"

lemma whole_datagramsD:
  "whole_datagrams k \<Longrightarrow> sendmsg k fd m w = (Inr n, w') \<Longrightarrow> n = length (concat (msg_iov m))"
  "whole_datagrams k \<Longrightarrow> sendto k fd d a w = (Inr n, w') \<Longrightarrow> n = length d"
  unfolding whole_datagrams_def by blast+

lemma udp_send_v_whole: "whole_datagrams k \<Longrightarrow> udp_send_v k udp iov src dst w = (Inr n, w') \<Longrightarrow> n = length (concat iov)"
  by (drule whole_datagramsD(1)) (auto simp: udp_send_v_def send_v_def split: prod.splits sum.splits)

lemma udp_sendto_whole: "whole_datagrams k \<Longrightarrow> udp_sendto k udp buf len a w = Some (Inr n, w') \<Longrightarrow> n = len"
  by (drule whole_datagramsD(2)) (auto simp: udp_sendto_def split: Option.bind_split_asm)

text \<open>The reference: one datagram per path, with the numbers of those accepted and refused by the kernel.\<close>

fun transmit :: "'w kernel \<Rightarrow> udp_t \<Rightarrow> u8 list list \<Rightarrow> nt_path_t list \<Rightarrow> 'w \<Rightarrow> nat \<times> nat \<times> 'w" where
  "transmit k udp iov [] w = (0, 0, w)"
| "transmit k udp iov (p # ps) w =
     (let (r, w) = udp_send_v k udp iov (Some (path_src p)) (Some (path_dst p)) w; (s, f, w) = transmit k udp iov ps w
      in case r of Inl _ \<Rightarrow> (s, Suc f, w) | Inr _ \<Rightarrow> (Suc s, f, w))"

lemma transmit_sum: "transmit k udp iov ps w = (s, f, w') \<Longrightarrow> s + f = length ps"
proof (induction ps arbitrary: w s f w')
  case (Cons p ps)
  obtain r w1 where "udp_send_v k udp iov (Some (path_src p)) (Some (path_dst p)) w = (r, w1)" by fastforce
  moreover obtain s1 f1 w2 where "transmit k udp iov ps w1 = (s1, f1, w2)" by (metis prod_cases3)
  ultimately show ?case using Cons.prems Cons.IH [of w1 s1 f1 w2] by (auto split: sum.splits)
qed simp

definition counted :: "(u8 list \<rightharpoonup> u64) \<Rightarrow> nat \<Rightarrow> nat \<Rightarrow> nat \<Rightarrow> (u8 list \<rightharpoonup> u64)" where
  "counted m sz s f = bump (bump (bump m COUNTER_TUN_SENT (int s)) COUNTER_TUN_SENT_BYTES (int (s * sz))) COUNTER_TUN_SEND_ERROR (int f)"

lemma counted_0: "nt_perf p \<Longrightarrow> counted (perf_map p) sz 0 0 = perf_map p"
  by (simp add: counted_def bump_0)

lemma counted_sent: "counted (bump (bump m COUNTER_TUN_SENT 1) COUNTER_TUN_SENT_BYTES (int sz)) sz s f = counted m sz (Suc s) f"
  using send_counters_distinct by (rule_tac ext) (simp add: counted_def bump_def algebra_simps)

lemma counted_refused: "counted (bump m COUNTER_TUN_SEND_ERROR 1) sz s f = counted m sz s (Suc f)"
  using send_counters_distinct by (rule_tac ext) (simp add: counted_def bump_def algebra_simps)

lemma send_copies_spec:
  assumes k: "whole_datagrams k" and d: "distributor_ok (distributor p)" and sz: "nt_fec_message_size h = length (concat iov)"
  shows "i \<le> length (routes (distributor p) (uint (fh_block_index h))) \<Longrightarrow> nt_perf perf \<Longrightarrow>
    transmit k (tun_udp p) iov (drop i (routes (distributor p) (uint (fh_block_index h)))) w = (s, f, w') \<Longrightarrow>
    \<exists>perf'. send_copies k p h iov i (perf, w) = Some (perf', w') \<and> nt_perf perf' \<and>
      perf_map perf' = counted (perf_map perf) (nt_fec_message_size h) s f"
proof (induction "length (routes (distributor p) (uint (fh_block_index h))) - i" arbitrary: i perf w s f w')
  case 0
  then show ?case using select_route(2) [OF d, of "uint (fh_block_index h)"]
    by (subst send_copies.simps) (simp add: counted_0)
next
  case (Suc n)
  let ?R = "routes (distributor p) (uint (fh_block_index h))"
  let ?sz = "nt_fec_message_size h"
  have i: "i < length ?R" using Suc.hyps(2) by simp
  have sel: "nt_distributor_select (distributor p) (uint (fh_block_index h)) (int i) = Some (Some (?R ! i))"
    by (rule select_route(1) [OF d _ i]) simp
  have IH: "nt_perf perf \<Longrightarrow> transmit k (tun_udp p) iov (drop (Suc i) ?R) w = (s, f, w') \<Longrightarrow>
    \<exists>perf'. send_copies k p h iov (Suc i) (perf, w) = Some (perf', w') \<and> nt_perf perf' \<and> perf_map perf' = counted (perf_map perf) ?sz s f" for perf w s f w'
    using Suc.hyps(1) [of "Suc i"] Suc.hyps(2) i by simp
  obtain r w1 where r: "udp_send_v k (tun_udp p) iov (Some (path_src (?R ! i))) (Some (path_dst (?R ! i))) w = (r, w1)" by fastforce
  obtain s1 f1 w2 where t: "transmit k (tun_udp p) iov (drop (Suc i) ?R) w1 = (s1, f1, w2)" by (metis prod_cases3)
  have tr: "(case r of Inl _ \<Rightarrow> (s1, Suc f1, w2) | Inr _ \<Rightarrow> (Suc s1, f1, w2)) = (s, f, w')"
    using Suc.prems(3) r t by (simp add: Cons_nth_drop_Suc [OF i, symmetric])
  show ?case
  proof (cases r)
    case (Inl err)
    obtain perf1 where p1: "tally COUNTER_TUN_SEND_ERROR 1 (perf, w1) = Some (perf1, w1)" "nt_perf perf1"
      "perf_map perf1 = bump (perf_map perf) COUNTER_TUN_SEND_ERROR 1" using tally_spec [OF Suc.prems(2)] by (metis counter_names_in(14))
    obtain perf' where "send_copies k p h iov (Suc i) (perf1, w1) = Some (perf', w2)" "nt_perf perf'"
      "perf_map perf' = counted (perf_map perf1) ?sz s1 f1" using IH [OF p1(2) t] by blast
    then show ?thesis using sel r tr Inl p1 by (subst send_copies.simps) (simp add: counted_refused)
  next
    case (Inr sent)
    have sent: "sent = ?sz" using udp_send_v_whole [OF k] r Inr sz by simp
    obtain perf0 where p0: "tally COUNTER_TUN_SENT 1 (perf, w1) = Some (perf0, w1)" "nt_perf perf0"
      "perf_map perf0 = bump (perf_map perf) COUNTER_TUN_SENT 1" using tally_spec [OF Suc.prems(2)] by (metis counter_names_in(2))
    obtain perf1 where p1: "tally COUNTER_TUN_SENT_BYTES (int ?sz) (perf0, w1) = Some (perf1, w1)" "nt_perf perf1"
      "perf_map perf1 = bump (perf_map perf0) COUNTER_TUN_SENT_BYTES (int ?sz)" using tally_spec [OF p0(2)] by (metis counter_names_in(8))
    obtain perf' where "send_copies k p h iov (Suc i) (perf1, w1) = Some (perf', w2)" "nt_perf perf'"
      "perf_map perf' = counted (perf_map perf1) ?sz s1 f1" using IH [OF p1(2) t] by blast
    then show ?thesis using sel r tr Inr p0 p1 sent by (subst send_copies.simps) (simp add: counted_sent)
  qed
qed

lemma on_encode_spec:
  assumes "whole_datagrams k" "distributor_ok (distributor p)" "nt_perf perf" "nat (uint (nt_fec_header_payload_size h)) \<le> length payload"
    and t: "transmit k (tun_udp p) [nt_fec_header_bytes h, take (nat (uint (nt_fec_header_payload_size h))) payload]
      (routes (distributor p) (uint (fh_block_index h))) w = (s, f, w')"
  shows "\<exists>perf'. on_encode k p h payload (uint (nt_fec_header_payload_size h)) (perf, w) = Some (0, perf', w') \<and> nt_perf perf' \<and>
    perf_map perf' = counted (perf_map perf) (nt_fec_message_size h) s f \<and>
    s + f = length (routes (distributor p) (uint (fh_block_index h))) \<and> 0 < s + f"
proof -
  have sum: "s + f = length (routes (distributor p) (uint (fh_block_index h)))" by (rule transmit_sum [OF t])
  have "routes (distributor p) (uint (fh_block_index h)) \<noteq> []" by (rule routes_nonempty [OF assms(2)]) simp
  moreover have sz: "nt_fec_message_size h = length (concat [nt_fec_header_bytes h, take (nat (uint (nt_fec_header_payload_size h))) payload])"
    using assms(4) by (simp add: nt_fec_message_size_def)
  moreover obtain perf' where "send_copies k p h [nt_fec_header_bytes h, take (nat (uint (nt_fec_header_payload_size h))) payload] 0 (perf, w) = Some (perf', w')"
    "nt_perf perf'" "perf_map perf' = counted (perf_map perf) (nt_fec_message_size h) s f"
    using send_copies_spec [OF assms(1,2) sz, of 0 perf w s f w'] assms(3) t by auto
  ultimately show ?thesis using assms(4) sum by (simp add: on_encode_def)
qed

section \<open>Relaying decoded messages\<close>

text \<open>
  What is to happen with a decoded message: it is dropped under a counter, sent on as it is, or sent on under a
  header of version one. The function looks at the bytes of the message and at nothing else.
\<close>

datatype fate = Drop "u8 list" | Relay "u8 list" address_t | Translate nt_api_header_t "u8 list" address_t

definition v1_message :: "u8 list \<Rightarrow> bool" where
  "v1_message m \<longleftrightarrow> 19 \<le> length m \<and> m ! 0 = NT_API_TAG \<and> length m = 19 + unat (ntohs (field 17 2 m))"

definition v2_message :: "u8 list \<Rightarrow> bool" where
  "v2_message m \<longleftrightarrow> 28 \<le> length m \<and> m ! 0 = NT_API2_TAG \<and> m ! 17 < NT_ENCRYPT_TYPE_NUM \<and> length m = 28 + unat (ntohs (field 19 2 m))"

definition v1_header :: "u8 list \<Rightarrow> nat \<Rightarrow> nt_api_header_t" where
  "v1_header m n = \<lparr>a1_tag = NT_API_TAG, a1_id_n = field 1 4 m, a1_src_ip = field 5 4 m, a1_src_port = field 9 2 m,
     a1_dst_ip = field 11 4 m, a1_dst_port = field 15 2 m, a1_payload_size_n = htons (of_nat n)\<rparr>"

definition fate :: "'w ka_encryptor_t option \<Rightarrow> u8 list \<Rightarrow> 'w \<Rightarrow> fate \<times> 'w" where
  "fate enc m w =
     (let dst = Addr_in (field 11 4 m) (field 15 2 m) in
      if v1_message m then (Relay m dst, w)
      else if \<not> v2_message m then (Drop COUNTER_CORRUPT_DECODED_DATA, w)
      else if m ! 18 = 0 then (Drop COUNTER_TTL_EXCEEDED, w)
      else if m ! 17 = NT_ENCRYPT_TYPE_NONE then (Translate (v1_header m (length m - 28)) (drop 28 m) dst, w)
      else (case enc of None \<Rightarrow> (Drop COUNTER_DECRYPT_ERROR, w)
        | Some e \<Rightarrow> (case ka_encryptor_decrypt e (drop 28 m) w of
            (None, w) \<Rightarrow> (Drop COUNTER_DECRYPT_ERROR, w)
          | (Some d, w) \<Rightarrow> (Translate (v1_header m (length d)) (take (length d mod 65536) d) dst, w))))"

definition sent_counters :: "(u8 list \<rightharpoonup> u64) \<Rightarrow> nat \<Rightarrow> int + nat \<Rightarrow> (u8 list \<rightharpoonup> u64)" where
  "sent_counters m n r = (case r of
       Inr _ \<Rightarrow> bump (bump (bump m COUNTER_API_SENT_V1 1) COUNTER_API_SENT 1) COUNTER_API_SENT_BYTES (int n)
     | Inl _ \<Rightarrow> bump m COUNTER_API_SEND_ERROR 1)"

text \<open>The effect of a fate on the kernel and the counters.\<close>

definition relayed :: "'w kernel \<Rightarrow> udp_t \<Rightarrow> fate \<times> 'w \<Rightarrow> perf_t \<Rightarrow> perf_t \<times> 'w \<Rightarrow> bool" where
  "relayed k udp = (\<lambda>(f, w) perf (perf', w'). nt_perf perf' \<and> (case f of
       Drop c \<Rightarrow> w' = w \<and> perf_map perf' = bump (perf_map perf) c 1
     | Relay d dst \<Rightarrow> \<exists>r. sendto k (udp_fd udp) d dst w = (r, w') \<and> perf_map perf' = sent_counters (perf_map perf) (length d) r
     | Translate h d dst \<Rightarrow> \<exists>r. udp_send_v k udp [nt_api_header_bytes h, d] None (Some dst) w = (r, w') \<and>
         perf_map perf' = sent_counters (perf_map perf) (19 + length d) r))"

lemma field_take [simp]: "off + k \<le> n \<Longrightarrow> field off k (take n bs) = field off k bs"
  by (simp add: field_def drop_take)

lemma tally_relayed:
  assumes "nt_perf perf" "name \<in> set nt_counter_names"
  shows "\<exists>pw. tally name 1 (perf, w) = Some pw \<and> relayed k udp (Drop name, w) perf pw"
  using tally_spec [OF assms, of 1 w] by (auto simp: relayed_def)

lemma count_api_sent_spec:
  assumes perf: "nt_perf perf" and n: "\<And>sent. r = Inr sent \<Longrightarrow> sent = n"
  shows "\<exists>perf'. count_api_sent n r (perf, w) = Some (perf', w) \<and> nt_perf perf' \<and> perf_map perf' = sent_counters (perf_map perf) n r"
proof (cases r)
  case (Inl err)
  then show ?thesis using tally_spec [OF perf, of COUNTER_API_SEND_ERROR 1 w] by (simp add: count_api_sent_def sent_counters_def)
next
  case (Inr sent)
  obtain p1 where p1: "tally COUNTER_API_SENT_V1 1 (perf, w) = Some (p1, w)" "nt_perf p1" "perf_map p1 = bump (perf_map perf) COUNTER_API_SENT_V1 1"
    using tally_spec [OF perf, of COUNTER_API_SENT_V1 1 w] by auto
  obtain p2 where p2: "tally COUNTER_API_SENT 1 (p1, w) = Some (p2, w)" "nt_perf p2" "perf_map p2 = bump (perf_map p1) COUNTER_API_SENT 1"
    using tally_spec [OF p1(2), of COUNTER_API_SENT 1 w] by auto
  show ?thesis using tally_spec [OF p2(2), of COUNTER_API_SENT_BYTES "int n" w] n [OF Inr] p1 p2 Inr
    by (simp add: count_api_sent_def sent_counters_def)
qed

lemma on_decode_v1_spec:
  assumes k: "whole_datagrams k" and perf: "nt_perf perf" and buf: "19 \<le> length buf" "sz \<le> int (length buf)" and tag: "buf ! 0 = NT_API_TAG"
  shows "\<exists>pw. on_decode_v1 k p buf sz (perf, w) = Some pw \<and> relayed k (api_udp p) (fate (encryptor p) (take (nat sz) buf) w) perf pw"
proof -
  let ?m = "take (nat sz) buf"
  define n where "n = 19 + unat (ntohs (field 17 2 buf))"
  obtain h where h: "nt_api_header_at buf = Some h" "nt_api_message_size h = n" "a1_dst_ip h = field 11 4 buf" "a1_dst_port h = field 15 2 buf"
    using buf(1) by (simp add: nt_api_header_at_def nt_api_header_size_def nt_api_message_size_def nt_api_header_payload_size_def n_def)
  have len: "length ?m = nat sz" using buf(2) by simp
  show ?thesis
  proof (cases "sz = int n")
    case True
    then have nat: "nat sz = n" by simp
    have n: "19 \<le> n" by (simp add: n_def)
    have dst: "field 11 4 ?m = (field 11 4 buf :: u32)" "field 15 2 ?m = (field 15 2 buf :: u16)" "field 17 2 ?m = (field 17 2 buf :: u16)"
      unfolding nat using n by simp_all
    have v1: "v1_message ?m" unfolding v1_message_def dst(3) len unfolding nat using tag n by (simp add: n_def)
    obtain r w1 where r: "sendto k (udp_fd (api_udp p)) ?m (Addr_in (field 11 4 buf) (field 15 2 buf)) w = (r, w1)" by fastforce
    have "sent = n" if "r = Inr sent" for sent using whole_datagramsD(2) [OF k r [unfolded that]] len nat by simp
    then obtain perf' where p': "count_api_sent n r (perf, w1) = Some (perf', w1)" "nt_perf perf'" "perf_map perf' = sent_counters (perf_map perf) n r"
      using count_api_sent_spec [OF perf, of r n w1] by metis
    have "udp_sendto k (api_udp p) buf n (Addr_in (field 11 4 buf) (field 15 2 buf)) w = Some (r, w1)"
      using r True buf(2) by (simp add: udp_sendto_def)
    then have run: "on_decode_v1 k p buf sz (perf, w) = Some (perf', w1)"
      using h p'(1) True by (simp add: on_decode_v1_def Let_def address_init4_def)
    have "fate (encryptor p) ?m w = (Relay ?m (Addr_in (field 11 4 buf) (field 15 2 buf)), w)" using v1 by (simp add: fate_def dst)
    then show ?thesis using run r p'(2,3) len True by (simp add: relayed_def)
  next
    case False
    have "\<not> v1_message ?m"
    proof
      assume "v1_message ?m"
      then have "nat sz = n" "19 \<le> nat sz" using len by (auto simp: v1_message_def n_def)
      then show False using False by linarith
    qed
    moreover have "\<not> v2_message ?m" using tag len by (auto simp: v2_message_def NT_API_TAG_def NT_API2_TAG_def)
    ultimately have "fate (encryptor p) ?m w = (Drop COUNTER_CORRUPT_DECODED_DATA, w)" by (simp add: fate_def)
    then show ?thesis using tally_relayed [OF perf, of COUNTER_CORRUPT_DECODED_DATA w] h False by (simp add: on_decode_v1_def)
  qed
qed

lemma send_translated_spec:
  assumes k: "whole_datagrams k" and perf: "nt_perf perf" and d: "unat (nt_api2_header_payload_size h) \<le> length d"
  shows "\<exists>pw. send_translated k p h d (perf, w) = Some pw \<and>
    relayed k (api_udp p) (Translate (nt_api_header_from h) (take (unat (nt_api2_header_payload_size h)) d)
      (Addr_in (a2_dst_ip h) (a2_dst_port h)), w) perf pw"
proof -
  let ?x = "unat (nt_api2_header_payload_size h)"
  let ?h = "nt_api_header_from h" let ?iov = "[nt_api_header_bytes ?h, take ?x d]"
  obtain r w1 where r: "udp_send_v k (api_udp p) ?iov None (Some (Addr_in (a2_dst_ip h) (a2_dst_port h))) w = (r, w1)" by fastforce
  have n: "nt_api_message_size ?h = 19 + ?x"
    by (simp add: nt_api_message_size_def nt_api_header_size_def nt_api_header_payload_size_def nt_api_header_from_def nt_api2_header_payload_size_def)
  have "sent = 19 + ?x" if "r = Inr sent" for sent
    using udp_send_v_whole [OF k r [unfolded that]] d by (simp add: nt_api_header_size_def)
  then show ?thesis using count_api_sent_spec [OF perf, of r "19 + ?x" w1] r n d
    by (auto simp: relayed_def send_translated_def Let_def address_init4_def)
qed

lemma v1_header_from:
  assumes h: "nt_api2_header_at buf = Some h" and n: "28 \<le> n" "n \<le> length buf"
  shows "nt_api_header_from (nt_api2_header_set_payload_size (h\<lparr>a2_ttl := t\<rparr>) (of_nat x)) = v1_header (take n buf) x"
    and "a2_payload_size_n h = htons (of_nat x) \<Longrightarrow> nt_api_header_from (h\<lparr>a2_ttl := t\<rparr>) = v1_header (take n buf) x"
  using assms by (auto simp: nt_api2_header_at_def nt_api_header_from_def nt_api2_header_set_payload_size_def v1_header_def split: Option.bind_split_asm)

lemma encrypt_type_cases:
  "t < NT_ENCRYPT_TYPE_NUM \<Longrightarrow> t = NT_ENCRYPT_TYPE_NONE \<or> t = NT_ENCRYPT_TYPE_KC \<and> NT_ENCRYPT_TYPE_KC \<noteq> NT_ENCRYPT_TYPE_NONE"
  by (auto simp: NT_ENCRYPT_TYPE_NUM_def NT_ENCRYPT_TYPE_NONE_def NT_ENCRYPT_TYPE_KC_def word_less_nat_alt word_unat_eq_iff)

lemma on_decode_v2_spec:
  assumes k: "whole_datagrams k" and perf: "nt_perf perf" and buf: "28 \<le> length buf" "sz \<le> int (length buf)"
    and tag: "buf ! 0 = NT_API2_TAG" "buf ! 17 < NT_ENCRYPT_TYPE_NUM"
  shows "\<exists>pw. on_decode_v2 k p buf sz (perf, w) = Some pw \<and> relayed k (api_udp p) (fate (encryptor p) (take (nat sz) buf) w) perf pw"
proof -
  let ?m = "take (nat sz) buf"
  define x where "x = unat (ntohs (field 19 2 buf))"
  define n where "n = 28 + x"
  obtain h where h: "nt_api2_header_at buf = Some h" by (simp add: nt_api2_header_at_def nt_api2_header_size_def buf(1))
  then have hf: "nt_api2_message_size h = n" "unat (nt_api2_header_payload_size h) = x" "a2_payload_size_n h = field 19 2 buf"
    "a2_dst_ip h = field 11 4 buf" "a2_dst_port h = field 15 2 buf" "a2_encrypt_type h = buf ! 17" "a2_ttl h = buf ! 18"
    using buf(1) by (auto simp: nt_api2_header_at_def nt_api2_header_size_def nt_api2_message_size_def nt_api2_header_payload_size_def n_def x_def)
  have len: "length ?m = nat sz" using buf(2) by simp
  have no_v1: "\<not> v1_message ?m" using tag len by (auto simp: v1_message_def NT_API_TAG_def NT_API2_TAG_def)
  show ?thesis
  proof (cases "sz = int n")
    case False
    have "\<not> v2_message ?m"
    proof
      assume "v2_message ?m"
      then have "nat sz = n" "28 \<le> nat sz" using len by (auto simp: v2_message_def n_def x_def)
      then show False using False by linarith
    qed
    then have "fate (encryptor p) ?m w = (Drop COUNTER_CORRUPT_DECODED_DATA, w)" using no_v1 by (simp add: fate_def)
    then show ?thesis using tally_relayed [OF perf, of COUNTER_CORRUPT_DECODED_DATA w] h hf False by (simp add: on_decode_v2_def)
  next
    case True
    then have nat: "nat sz = n" by simp
    have n: "28 \<le> n" "n \<le> length buf" using True buf(2) by (simp_all add: n_def)
    have dst: "field 11 4 ?m = (field 11 4 buf :: u32)" "field 15 2 ?m = (field 15 2 buf :: u16)" "field 19 2 ?m = (field 19 2 buf :: u16)"
      "?m ! 0 = buf ! 0" "?m ! 17 = buf ! 17" "?m ! 18 = buf ! 18"
      unfolding nat using n by simp_all
    have v2: "v2_message ?m" unfolding v2_message_def dst len unfolding nat using tag n by (simp add: n_def x_def)
    let ?dst = "Addr_in (field 11 4 buf) (field 15 2 buf)"
    let ?h = "h\<lparr>a2_ttl := buf ! 18 - 1\<rparr>"
    have pay: "take x (nt_api2_message_payload buf) = drop 28 ?m" "x \<le> length (nt_api2_message_payload buf)" "length (drop 28 ?m) = x"
      unfolding nat using n by (simp_all add: nt_api2_message_payload_def nt_api2_header_size_def n_def drop_take)
    have x: "htons (of_nat x) = (field 19 2 buf :: u16)" using ntohs_htons [of "field 19 2 buf"] by (simp add: x_def ntohs_def htons_def)
    have run: "on_decode_v2 k p buf sz (perf, w) = (if buf ! 18 = 0 then tally COUNTER_TTL_EXCEEDED 1 (perf, w)
      else do {
       (payload, header, w) \<leftarrow> decrypt_payload p ?h buf w;
       (case payload of
          None \<Rightarrow> tally COUNTER_DECRYPT_ERROR 1 (perf, w)
        | Some payload \<Rightarrow> send_translated k p header payload (perf, w))
      })" unfolding on_decode_v2_def fst_conv snd_conv using h hf True by (simp add: Let_def)
    have enc: "buf ! 17 = NT_ENCRYPT_TYPE_NONE \<or> buf ! 17 = NT_ENCRYPT_TYPE_KC \<and> NT_ENCRYPT_TYPE_KC \<noteq> NT_ENCRYPT_TYPE_NONE"
      using encrypt_type_cases [OF tag(2)] .
    have drop: "on_decode_v2 k p buf sz (perf, w) = tally c 1 (perf, w') \<Longrightarrow> c \<in> set nt_counter_names \<Longrightarrow>
        fate (encryptor p) ?m w = (Drop c, w') \<Longrightarrow> ?thesis" for c w'
      using tally_relayed [OF perf, of c w' k "api_udp p"] by simp
    have fate: "fate (encryptor p) ?m w = (if buf ! 18 = 0 then (Drop COUNTER_TTL_EXCEEDED, w)
      else if buf ! 17 = NT_ENCRYPT_TYPE_NONE then (Translate (v1_header ?m x) (drop 28 ?m) ?dst, w)
      else (case encryptor p of None \<Rightarrow> (Drop COUNTER_DECRYPT_ERROR, w)
        | Some e \<Rightarrow> (case ka_encryptor_decrypt e (drop 28 ?m) w of
            (None, w) \<Rightarrow> (Drop COUNTER_DECRYPT_ERROR, w)
          | (Some d, w) \<Rightarrow> (Translate (v1_header ?m (length d)) (take (length d mod 65536) d) ?dst, w))))"
      using no_v1 v2 pay(3) by (simp add: fate_def dst)
    consider (ttl) "buf ! 18 = 0" | (plain) "buf ! 18 \<noteq> 0" "buf ! 17 = NT_ENCRYPT_TYPE_NONE"
      | (kc) "buf ! 18 \<noteq> 0" "buf ! 17 = NT_ENCRYPT_TYPE_KC" "buf ! 17 \<noteq> NT_ENCRYPT_TYPE_NONE" using enc by auto
    then show ?thesis
    proof cases
      case ttl
      then show ?thesis using drop [of COUNTER_TTL_EXCEEDED w] run fate by simp
    next
      case plain
      then have dec: "decrypt_payload p ?h buf w = Some (Some (nt_api2_message_payload buf), ?h, w)" using hf by (simp add: decrypt_payload_def)
      have "unat (nt_api2_header_payload_size ?h) = x" using hf(2) by (simp add: nt_api2_header_payload_size_def)
      then show ?thesis
        using send_translated_spec [OF k perf, of ?h "nt_api2_message_payload buf" p w] run dec fate plain pay hf
          v1_header_from(2) [OF h n, of x] x by (simp add: nat)
    next
      case kc
      show ?thesis
      proof (cases "encryptor p")
        case None
        then have "decrypt_payload p ?h buf w = Some (None, ?h, w)" using hf kc by (simp add: decrypt_payload_def)
        then show ?thesis using drop [of COUNTER_DECRYPT_ERROR w] run fate kc None by simp
      next
        case (Some e)
        obtain o' w1 where o: "ka_encryptor_decrypt e (drop 28 ?m) w = (o', w1)" by fastforce
        have "unat (nt_api2_header_payload_size ?h) = x" using hf(2) by (simp add: nt_api2_header_payload_size_def)
        then have dec: "decrypt_payload p ?h buf w = Some (o', (case o' of None \<Rightarrow> ?h | Some d \<Rightarrow> nt_api2_header_set_payload_size ?h (of_nat (length d))), w1)"
          using hf kc Some o pay by (simp add: decrypt_payload_def Let_def split: option.split)
        show ?thesis
        proof (cases o')
          case None
          then show ?thesis using drop [of COUNTER_DECRYPT_ERROR w1] run fate kc Some o dec by simp
        next
          case (Some d)
          let ?h' = "nt_api2_header_set_payload_size ?h (of_nat (length d))"
          have "unat (nt_api2_header_payload_size ?h') = length d mod 65536"
            by (simp add: nt_api2_header_payload_size_def nt_api2_header_set_payload_size_def unat_of_nat take_bit_eq_mod)
          moreover have "a2_dst_ip ?h' = field 11 4 buf" "a2_dst_port ?h' = field 15 2 buf"
            using hf by (simp_all add: nt_api2_header_set_payload_size_def)
          ultimately show ?thesis
            using send_translated_spec [OF k perf, of ?h' d p w1] run dec fate kc Some \<open>encryptor p = Some e\<close> o
              v1_header_from(1) [OF h n, of "buf ! 18 - 1" "length d"] by (simp add: nat)
        qed
      qed
    qed
  qed
qed

lemma on_decode_spec:
  assumes k: "whole_datagrams k" and perf: "nt_perf perf" and buf: "28 \<le> length buf" "sz \<le> int (length buf)"
  shows "\<exists>pw. on_decode k p buf sz (perf, w) = Some (0, pw) \<and> relayed k (api_udp p) (fate (encryptor p) (take (nat sz) buf) w) perf pw"
proof -
  have v1: "nt_api_header_is_valid buf = Some (buf ! 0 = NT_API_TAG)" using buf(1) by (cases buf) (simp_all add: nt_api_header_is_valid_def rd_def)
  have v2: "nt_api2_header_is_valid buf = Some (buf ! 0 = NT_API2_TAG \<and> buf ! 17 < NT_ENCRYPT_TYPE_NUM)"
    using buf(1) by (cases buf) (simp_all add: nt_api2_header_is_valid_def rd_def NT_ENCRYPT_TYPE_NONE_def)
  consider "buf ! 0 = NT_API_TAG" | "buf ! 0 \<noteq> NT_API_TAG" "buf ! 0 = NT_API2_TAG \<and> buf ! 17 < NT_ENCRYPT_TYPE_NUM"
    | "buf ! 0 \<noteq> NT_API_TAG" "\<not> (buf ! 0 = NT_API2_TAG \<and> buf ! 17 < NT_ENCRYPT_TYPE_NUM)" by blast
  then show ?thesis
  proof cases
    case 1
    then show ?thesis using on_decode_v1_spec [OF k perf _ buf(2), of p w] buf(1) v1 by (auto simp: on_decode_def)
  next
    case 2
    then show ?thesis using on_decode_v2_spec [OF k perf buf, of p w] v1 v2 by (auto simp: on_decode_def)
  next
    case 3
    then have "\<not> v1_message (take (nat sz) buf)" "\<not> v2_message (take (nat sz) buf)" by (auto simp: v1_message_def v2_message_def)
    then have "fate (encryptor p) (take (nat sz) buf) w = (Drop COUNTER_CORRUPT_DECODED_DATA, w)" by (simp add: fate_def)
    then show ?thesis using tally_relayed [OF perf, of COUNTER_CORRUPT_DECODED_DATA w k "api_udp p"] v1 v2 3 by (auto simp: on_decode_def)
  qed
qed

section \<open>Setting up\<close>

lemma processor_init_ok:
  assumes "cap < 2 ^ 31" "inj_on alloc {..<cap}" "inj_on alloc' {..<cap}"
    and "0 \<le> fst (su_encoder su)" "0 \<le> fst (su_decoder su)" "0 \<le> fst (su_epoll su)" "fst (su_add1 su) = 0" "fst (su_add2 su) = 0"
  shows "\<exists>p. nt_fec_processor_init su mem alloc alloc' contents heap cap dstr api tun fec s enc = Some (Inr p) \<and>
    worker_ok cap (encoder p) \<and> pending (encoder p) = [] \<and> worker_ok cap (decoder p) \<and> pending (decoder p) = [] \<and>
    distributor p = dstr \<and> api_udp p = api \<and> tun_udp p = tun \<and> np_fec p = fec \<and> fec_state p = s \<and> encryptor p = enc"
proof -
  obtain e where e: "worker_init (fst (su_encoder su)) (snd (su_encoder su)) mem alloc contents cap = Some (Inr e)" "worker_ok cap e" "pending e = []"
    using worker_init_ok [OF assms(4,1,2)] by blast
  obtain d where d: "worker_init (fst (su_decoder su)) (snd (su_decoder su)) mem alloc' contents cap = Some (Inr d)" "worker_ok cap d" "pending d = []"
    using worker_init_ok [OF assms(5,1,3)] by blast
  show ?thesis using assms e d
    by (simp add: nt_fec_processor_init_def dispatcher_init1_def dispatcher_init_def dispatcher_add_worker_def dispatcher_add_handler_def)
qed

text \<open>The results of a set-up without errors, and addresses of buffers, for examples.\<close>

definition all_fine :: su_results where
  "all_fine = \<lparr>su_encoder = (3, 0), su_decoder = (4, 0), su_epoll = (5, 0), su_add1 = (0, 0), su_add2 = (0, 0)\<rparr>"

definition far_apart :: "nat \<Rightarrow> nat" where
  "far_apart i = 1000 * i"

lemma far_apart_inj [simp]: "inj_on far_apart A"
  by (simp add: far_apart_def inj_on_def)

lemma all_fine_simps [simp]:
  "fst (su_encoder all_fine) = 3" "fst (su_decoder all_fine) = 4" "fst (su_epoll all_fine) = 5" "fst (su_add1 all_fine) = 0" "fst (su_add2 all_fine) = 0"
  by (simp_all add: all_fine_def)

lemma loopback_whole [simp]: "whole_datagrams (loopback a)"
  by (simp add: whole_datagrams_def loopback_def)

definition two_paths :: nt_distributor_t where
  "two_paths = \<lparr>d_paths = [some_path 1, some_path 2], path_num = 2, seq2addr = [0, 1, 1, -1], seq_num = 2, dup_num = 2\<rparr>"

lemma two_paths_ok: "distributor_ok two_paths" "routes two_paths 4 = [some_path 1, some_path 2]"
proof -
  have "i < 2 \<Longrightarrow> i = 0 \<or> i = (1 :: nat)" for i by auto
  then show "distributor_ok two_paths" by (auto simp: distributor_ok_def two_paths_def table_row_def numeral_2_eq_2 nth_Cons')
  show "routes two_paths 4 = [some_path 1, some_path 2]" by (simp add: routes_def two_paths_def table_row_def numeral_2_eq_2)
qed

text \<open>
  C23. Every packet goes out along every path of its row. For a kernel that sends datagrams as a whole, and a
  table of paths as \<open>nt_distributor_init\<close> builds it, \<open>on_encode\<close> hands to the kernel one datagram per path of the
  row, the header followed by the payload, in the order of the row; it never aborts, a path that the
  kernel refuses does not keep the packet from the next one, the result is zero in any case, and the
  counters of packets, bytes and errors grow by what was accepted and refused.
\<close>

theorem on_encode_sends:
  assumes "whole_datagrams k" "distributor_ok (distributor p)" "nt_perf perf" "nat (uint (nt_fec_header_payload_size h)) \<le> length payload"
    and t: "transmit k (tun_udp p) [nt_fec_header_bytes h, take (nat (uint (nt_fec_header_payload_size h))) payload]
      (routes (distributor p) (uint (fh_block_index h))) w = (s, f, w')"
  shows "\<exists>perf'. on_encode k p h payload (uint (nt_fec_header_payload_size h)) (perf, w) = Some (0, perf', w') \<and> nt_perf perf' \<and>
    perf_map perf' = counted (perf_map perf) (nt_fec_message_size h) s f \<and>
    s + f = length (routes (distributor p) (uint (fh_block_index h))) \<and> 0 < s + f"
  using on_encode_spec [OF assms] .

definition some_timer :: "(nat, nat) timer_entry_t entry_t" where
  "some_timer = (0, make_timer 0 False 0 0)"

definition init_example :: "('s, perf_t \<times> u8 list list) nt_fec_t \<Rightarrow> 's \<Rightarrow> (int + ('s, u8 list list) nt_fec_processor_t) option" where
  "init_example fec s = nt_fec_processor_init all_fine id far_apart far_apart (\<lambda>_. \<lparr>msg_data = 9, msg_free = ()\<rparr>) (\<lambda>_. some_timer) 4
     two_paths \<lparr>udp_fd = 7\<rparr> \<lparr>udp_fd = 8\<rparr> fec s None"

lemma init_example_ok:
  "\<exists>p. init_example fec s = Some (Inr p) \<and> worker_ok 4 (encoder p) \<and> pending (encoder p) = [] \<and> worker_ok 4 (decoder p) \<and> pending (decoder p) = [] \<and>
    distributor p = two_paths \<and> api_udp p = \<lparr>udp_fd = 7\<rparr> \<and> tun_udp p = \<lparr>udp_fd = 8\<rparr> \<and> np_fec p = fec \<and> fec_state p = s \<and> encryptor p = None"
  unfolding init_example_def by (rule processor_init_ok) simp_all

theorem on_encode_sends_witness:
  "\<exists>p perf perf'. init_example nt_dummy_fec_init () = Some (Inr p) \<and>
    perf_init some_counter (\<lambda>_. 5) nt_counter_names nt_counter_num = Some perf \<and>
    on_encode (loopback (Addr_in 9 9)) p (nt_fec_header_init NT_DUMMY_FEC_TAG 0 0 0 4 2) [8, 9, 10] 2 (perf, []) =
      Some (0, perf', replicate 2 (nt_fec_header_bytes (nt_fec_header_init NT_DUMMY_FEC_TAG 0 0 0 4 2) @ [8, 9])) \<and>
    perf_map perf' COUNTER_TUN_SENT_BYTES = Some 24"
proof -
  let ?h = "nt_fec_header_init NT_DUMMY_FEC_TAG 0 0 0 4 2" let ?k = "loopback (Addr_in 9 9)"
  obtain p where p: "init_example nt_dummy_fec_init () = Some (Inr p)" "distributor p = two_paths" "tun_udp p = \<lparr>udp_fd = 8\<rparr>"
    using init_example_ok [of nt_dummy_fec_init "()"] by auto
  obtain perf where perf: "perf_init some_counter (\<lambda>_. 5) nt_counter_names nt_counter_num = Some perf" "nt_perf perf"
    "perf_map perf COUNTER_TUN_SENT_BYTES = Some 0" using nt_perf_init [of some_counter "\<lambda>_. 5"] by auto
  have t: "transmit ?k (tun_udp p) [nt_fec_header_bytes ?h, take (nat (uint (nt_fec_header_payload_size ?h))) [8, 9, 10]]
      (routes (distributor p) (uint (fh_block_index ?h))) [] = (2, 0, replicate 2 (nt_fec_header_bytes ?h @ [8, 9]))"
  proof -
    have "uint (fh_block_index ?h) = 4" "take (nat (uint (nt_fec_header_payload_size ?h))) [8, 9, 10 :: u8] = [8, 9]"
      "replicate 2 (nt_fec_header_bytes ?h @ [8, 9]) = [nt_fec_header_bytes ?h @ [8, 9], nt_fec_header_bytes ?h @ [8, 9]]"
      by (simp, simp, simp only: numeral_2_eq_2 replicate.simps)
    then show ?thesis using p(2,3) two_paths_ok(2) by (simp only:) (simp add: udp_send_v_def send_v_def loopback_def)
  qed
  obtain perf' where "on_encode ?k p ?h [8, 9, 10] (uint (nt_fec_header_payload_size ?h)) (perf, []) = Some (0, perf', replicate 2 (nt_fec_header_bytes ?h @ [8, 9]))"
    "perf_map perf' = counted (perf_map perf) (nt_fec_message_size ?h) 2 0"
    using on_encode_sends [OF loopback_whole _ perf(2) _ t] p(2) two_paths_ok(1) by auto
  moreover have "counted (perf_map perf) (nt_fec_message_size ?h) 2 0 COUNTER_TUN_SENT_BYTES = Some 24"
    using perf(3) send_counters_distinct by (simp add: counted_def bump_def nt_fec_message_size_def nt_fec_header_size_def)
  ultimately show ?thesis using p(1) perf(1) by (intro exI [of _ p] exI [of _ perf] exI [of _ perf']) simp
qed

text \<open>
  C5. What the tunnel delivers. For every decoded message of any contents, held in a buffer of at least 28 bytes,
  \<open>on_decode\<close> returns zero and does what \<open>fate\<close> says: a well-formed message of version one is sent to its
  destination as it is; a well-formed message of version two with a positive lifetime is sent, decrypted if
  need be, under a header of version one with the same identifier and addresses; everything else is
  dropped and counted. It depends on the bytes of the message only, not on what follows them in the
  buffer, although the code reads header fields before it compares the sizes.
\<close>

theorem on_decode_relays:
  assumes "whole_datagrams k" "nt_perf perf" "28 \<le> length buf" "sz \<le> int (length buf)"
  shows "\<exists>pw. on_decode k p buf sz (perf, w) = Some (0, pw) \<and> relayed k (api_udp p) (fate (encryptor p) (take (nat sz) buf) w) perf pw"
  using on_decode_spec [OF assms] .

theorem on_decode_relays_witness:
  "\<exists>p perf perf'. init_example nt_dummy_fec_init () = Some (Inr p) \<and>
    perf_init some_counter (\<lambda>_. 5) nt_counter_names nt_counter_num = Some perf \<and>
    on_decode (loopback (Addr_in 9 9)) p (nt_api2_header_bytes (nt_api2_header_init 1 2 3 4 5 NT_ENCRYPT_TYPE_NONE 9 2) @ [6, 7, 8]) 30 (perf, []) =
      Some (0, perf', [nt_api_header_bytes (nt_api_header_init 1 2 3 4 5 2) @ [6, 7]])"
proof -
  let ?h = "nt_api2_header_init 1 2 3 4 5 NT_ENCRYPT_TYPE_NONE 9 2" let ?k = "loopback (Addr_in 9 9)"
  let ?buf = "nt_api2_header_bytes ?h @ [6, 7, 8]"
  obtain p where p: "init_example nt_dummy_fec_init () = Some (Inr p)" "encryptor p = None" "api_udp p = \<lparr>udp_fd = 7\<rparr>"
    using init_example_ok [of nt_dummy_fec_init "()"] by auto
  obtain perf where perf: "perf_init some_counter (\<lambda>_. 5) nt_counter_names nt_counter_num = Some perf" "nt_perf perf"
    using nt_perf_init [of some_counter "\<lambda>_. 5"] by auto
  have len: "length (nt_api2_header_bytes ?h) = 28" by (simp add: length_nt_api2_header_bytes header_lengths)
  have m: "take (nat 30) ?buf = nt_api2_header_bytes ?h @ [6, 7]" using len by simp
  obtain pw where r: "on_decode ?k p ?buf 30 (perf, []) = Some (0, pw)" "relayed ?k (api_udp p) (fate None (nt_api2_header_bytes ?h @ [6, 7]) []) perf pw"
    using on_decode_relays [OF loopback_whole perf(2), of ?buf 30 "Addr_in 9 9" p "[]"] len p(2) m by auto
  have "fate None (nt_api2_header_bytes ?h @ [6, 7]) ([] :: u8 list list) = (Translate (nt_api_header_init 1 2 3 4 5 2) [6, 7] (Addr_in 4 5), [])"
    by code_simp
  then have "snd pw = [nt_api_header_bytes (nt_api_header_init 1 2 3 4 5 2) @ [6, 7]]"
    using r(2) by (cases pw) (simp add: relayed_def udp_send_v_def send_v_def loopback_def)
  then show ?thesis using r(1) p(1) perf(1) by (intro exI [of _ p] exI [of _ perf] exI [of _ "fst pw"]) (cases pw, simp)
qed

end
