(* ===== verification/Nt_Processor_Robust.thy ===== *)
theory Nt_Processor_Robust
  imports Nt_Rs_Robust Nt_Fec_Processor
begin

text \<open>
  The processor with the Reed-Solomon codec: whatever the listeners hand to its two workers, in whatever order,
  no check fails. The two workers share the codec; the encoder leaves the decoding contexts alone and
  the decoder the encoding buffer, so that the invariants of both halves hold throughout.
\<close>

section \<open>The two halves of the codec\<close>

definition enc_ready :: "nat \<Rightarrow> nat \<Rightarrow> nat \<Rightarrow> nt_rs_fec_t \<Rightarrow> bool" where
  "enc_ready N K D fec \<longleftrightarrow> (\<exists>p ms. rs_ok (fec_rs fec) N K D p \<and> ec_inv (N - K) D (eb_buffer (encode_buffer fec)) ms \<and> length ms < K)"

lemma rs_rep_frame:
  "rs_rep N K D fec sl \<Longrightarrow> fec_rs fec' = fec_rs fec \<Longrightarrow> decode_buffer_cache fec' = decode_buffer_cache fec \<Longrightarrow>
   decode_buffer_pool fec' = decode_buffer_pool fec \<Longrightarrow> rs_rep N K D fec' sl"
  by (simp add: rs_rep_def)

lemma reset_encode_frame:
  "reset_encode_buffer fec = Some fec' \<Longrightarrow> fec_rs fec' = fec_rs fec \<and> decode_buffer_cache fec' = decode_buffer_cache fec \<and>
    decode_buffer_pool fec' = decode_buffer_pool fec"
  by (auto simp: reset_encode_buffer_def split: Option.bind_split_asm prod.splits)

lemma encode_frame:
  "nt_rs_fec_encode stack fec input sz cb w = Some (e, fec', w') \<Longrightarrow> fec_rs fec' = fec_rs fec \<and>
    decode_buffer_cache fec' = decode_buffer_cache fec \<and> decode_buffer_pool fec' = decode_buffer_pool fec"
  by (auto simp: nt_rs_fec_encode_def Let_def split: Option.bind_split_asm prod.splits if_splits dest!: reset_encode_frame)

lemma reset_decode_frame:
  "reset_decode_buffer fec i b = Some fec' \<Longrightarrow> fec_rs fec' = fec_rs fec \<and> encode_buffer fec' = encode_buffer fec"
  by (auto simp: reset_decode_buffer_def split: Option.bind_split_asm)

lemma claim_frame:
  "claim_decode_buffer mem now fec b perf = Some (r, fec', perf') \<Longrightarrow> fec_rs fec' = fec_rs fec \<and> encode_buffer fec' = encode_buffer fec"
  by (auto simp: claim_decode_buffer_def Let_def split: Option.bind_split_asm prod.splits option.splits if_splits dest!: reset_decode_frame)

lemma decode_packet_frame:
  "decode_packet stack now fec i h input sz cb pw = Some (e, fec', pw') \<Longrightarrow> fec_rs fec' = fec_rs fec \<and> encode_buffer fec' = encode_buffer fec"
  by (auto simp: decode_packet_def Let_def split: Option.bind_split_asm prod.splits if_splits)

lemma decode_frame:
  "nt_rs_fec_decode mem stack now fec h input sz cb pw = Some (e, fec', pw') \<Longrightarrow> fec_rs fec' = fec_rs fec \<and> encode_buffer fec' = encode_buffer fec"
  by (auto simp: nt_rs_fec_decode_def split: Option.bind_split_asm prod.splits sum.splits if_splits dest!: claim_frame decode_packet_frame)

section \<open>Encoding\<close>

text \<open>A callback that returns zero on every packet whose header has its size.\<close>

definition sends :: "(perf_t \<times> 'w) nt_fec_on_encode_t \<Rightarrow> bool" where
  "sends cb \<longleftrightarrow> (\<forall>h buf p w. unat (nt_fec_header_payload_size h) \<le> length buf \<longrightarrow> nt_perf p \<longrightarrow>
     (\<exists>p' w'. cb h buf (uint (nt_fec_header_payload_size h)) (p, w) = Some (0, p', w') \<and> nt_perf p'))"

lemma sendsD:
  assumes "sends cb" "nt_perf p" "nt_fec_header_payload_size h = word_of_int sz" "0 \<le> sz" "sz < 65536" "nat sz \<le> length buf"
  shows "\<exists>p' w'. cb h buf sz (p, w) = Some (0, p', w') \<and> nt_perf p'"
proof -
  have "uint (nt_fec_header_payload_size h) = sz" using assms(3-5) by (simp add: uint_word_of_int)
  moreover from this have "unat (nt_fec_header_payload_size h) = nat sz" by (simp flip: nat_uint_eq)
  ultimately show ?thesis using assms(1,2,6) unfolding sends_def by metis
qed

lemma encode_redundant_total:
  fixes w :: 'w
  assumes ok: "rs_ok rs N K D p" and cs: "checks ec = map gf_rep cs" "length cs = (D + 4) * (N - K)" and D: "D + 4 < 65536"
    and h: "\<And>d n. nt_fec_header_payload_size (h d n) = word_of_int n" and cb: "sends cb" and perf: "nt_perf perf"
  shows "\<exists>perf' w'. encode_redundant stack rs ec (int (N - K)) h cb (perf, w) = Some (0, perf', w') \<and> nt_perf perf'"
proof -
  let ?f = "\<lambda>i (err, encoded, w). if err \<noteq> 0 then Some (err, encoded, w)
          else do {
            (ret, encoded, encoded_size, degree) \<leftarrow> rs_encode_result rs ec (int i) encoded (int (D + 4));
            if ret < 0 then Some (E_FEC_INTERNAL_ERROR, encoded, w)
            else do {
              degree \<leftarrow> degree;
              (err, w) \<leftarrow> cb (h degree encoded_size) encoded encoded_size w;
              Some (err, encoded, w) } }"
  define P where "P = (\<lambda>s :: int \<times> u8 list \<times> perf_t \<times> 'w. fst s = 0 \<and> length (fst (snd s)) = D + 4 \<and> nt_perf (fst (snd (snd s))))"
  have "\<exists>s. for_up 0 (N - K) ?f (0, map stack [0..<D + 4], perf, w) = Some s \<and> P s"
  proof (rule for_up_rule [where P = "\<lambda>_. P"])
    fix i and s :: "int \<times> u8 list \<times> perf_t \<times> 'w" assume i: "i < N - K" and "P s"
    then obtain buf q v where s: "s = (0, buf, q, v)" "length buf = D + 4" "nt_perf q" by (cases s) (auto simp: P_def)
    then have buf: "D + 4 \<le> length buf" "int (D + 4) \<le> int (D + 4)" by simp_all
    obtain buf' n where r: "rs_encode_result rs ec (int i) buf (int (D + 4)) = Some (0, buf', int n, Some (int (N - K - 1 - i)))"
      "length buf' = length buf" "n \<le> D + 4" using rs_encode_result_spec [OF ok cs i buf] by blast
    obtain q' v' where "cb (h (int (N - K - 1 - i)) (int n)) buf' (int n) (q, v) = Some (0, q', v')" "nt_perf q'"
      using sendsD [OF cb s(3) h, of "int n" buf' "int (N - K - 1 - i)" v] r(2,3) s(2) D by auto
    then show "\<exists>s'. ?f i s = Some s' \<and> P s'" using r s(1,2) by (simp add: P_def)
  qed (simp_all add: P_def perf)
  then obtain buf perf' w' where "for_up 0 (N - K) ?f (0, map stack [0..<D + 4], perf, w) = Some (0, buf, perf', w')" "nt_perf perf'"
    by (auto simp: P_def)
  moreover have "RS_MAX_ENCODED_SIZE (max_data_size rs) = Some (int (D + 4))" "nat (int (N - K)) = N - K" "nat (int (D + 4)) = D + 4"
    "new_array stack (int (D + 4)) = Some (map stack [0..<D + 4])"
    using rs_sizes(1) [OF ok] by (simp_all only: nat_int new_array_def) simp
  ultimately show ?thesis
    by (intro exI [of _ perf'] exI [of _ w']) (simp only: encode_redundant_def Option.bind.simps case_prod_conv simp_thms)
qed

lemma encode_total:
  fixes w :: 'w
  assumes inv: "enc_ready N K D fec" and sz: "0 \<le> sz" "sz \<le> int D" "nat sz \<le> length input" and D: "D + 4 < 65536"
    and cb: "sends cb" and perf: "nt_perf perf"
  shows "\<exists>fec' perf' w'. nt_rs_fec_encode stack fec input sz cb (perf, w) = Some (0, fec', perf', w') \<and> enc_ready N K D fec' \<and> nt_perf perf'"
proof -
  obtain p ms where ok: "rs_ok (fec_rs fec) N K D p" and ms: "ec_inv (N - K) D (eb_buffer (encode_buffer fec)) ms" "length ms < K"
    using inv by (auto simp: enc_ready_def)
  note okD = rs_okD [OF ok]
  obtain ec where ec: "rs_encode (fec_rs fec) (eb_buffer (encode_buffer fec)) input sz =
      Some (if Suc (length ms) = K then int (N - K) else 0, Some (int (N - 1 - length ms)), ec)" "ec_inv (N - K) D ec (ms @ [take (nat sz) input])"
    using rs_encode_inv [OF ok ms sz] by blast
  define fec1 where "fec1 = fec\<lparr>encode_buffer := (encode_buffer fec)\<lparr>eb_buffer := ec\<rparr>\<rparr>"
  define h where "h = (\<lambda>degree size. nt_fec_header_init NT_RS_FEC_TAG (word_of_int (int N)) (word_of_int (int K))
    (eb_block_id (encode_buffer fec)) (word_of_int (int N - 1 - degree)) (word_of_int size))"
  have h: "nt_fec_header_payload_size (h d n) = word_of_int n" for d n by (simp add: h_def)
  obtain perf1 w1 where c1: "cb (h (int (N - 1 - length ms)) sz) input sz (perf, w) = Some (0, perf1, w1)" "nt_perf perf1"
    using sendsD [OF cb perf h sz(1) _ sz(3), of _ w] sz(2) D by force
  have run: "nt_rs_fec_encode stack fec input sz cb (perf, w) = (if Suc (length ms) = K then do {
       (err, w) \<leftarrow> encode_redundant stack (fec_rs fec) ec (int (N - K)) h cb (perf1, w1);
       fec \<leftarrow> reset_encode_buffer fec1;
       Some (err, fec, w)
     } else Some (0, fec1, perf1, w1))"
    using ec(1) c1(1) okD(1,2,11) by (simp add: nt_rs_fec_encode_def Let_def fec1_def h_def)
  show ?thesis
  proof (cases "Suc (length ms) = K")
    case False
    then have "enc_ready N K D fec1" using ok ec(2) ms(2) by (auto simp: enc_ready_def fec1_def intro!: exI [of _ "ms @ [take (nat sz) input]"])
    then show ?thesis using run c1(2) False by simp
  next
    case True
    obtain cs where cs: "checks ec = map gf_rep cs" "length cs = (D + 4) * (N - K)" using ec(2) by (auto simp: ec_inv_def)
    obtain perf2 w2 where r: "encode_redundant stack (fec_rs fec) ec (int (N - K)) h cb (perf1, w1) = Some (0, perf2, w2)" "nt_perf perf2"
      using encode_redundant_total [where h = h, OF ok cs D h cb c1(2), of stack w1] by blast
    obtain ec' where ec': "rs_reset_ec (fec_rs fec) ec = Some ec'" "ec_inv (N - K) D ec' []"
      using rs_reset_ec_inv [OF ok, of ec] cs by auto
    define fec2 where "fec2 = fec1\<lparr>rs_idgen := snd (idgen_next (rs_idgen fec)), encode_buffer := \<lparr>eb_block_id = fst (idgen_next (rs_idgen fec)), eb_buffer = ec'\<rparr>\<rparr>"
    have "reset_encode_buffer fec1 = Some fec2" using ec'(1) by (simp add: reset_encode_buffer_def fec1_def fec2_def split: prod.splits)
    moreover have "enc_ready N K D fec2" using ok ec'(2) okD(5) by (auto simp: enc_ready_def fec1_def fec2_def intro!: exI [of _ "[] :: u8 list list"])
    ultimately show ?thesis using run r True by simp
  qed
qed

section \<open>The handlers\<close>

lemma on_encode_sends_all:
  assumes "whole_datagrams k" "distributor_ok (distributor p)"
  shows "sends (on_encode k p)"
  unfolding sends_def
proof (intro allI impI)
  fix h perf w and buf :: "u8 list" assume "unat (nt_fec_header_payload_size h) \<le> length buf" and perf: "nt_perf perf"
  then have len: "nat (uint (nt_fec_header_payload_size h)) \<le> length buf" by simp
  obtain s f w' where "transmit k (tun_udp p) [nt_fec_header_bytes h, take (nat (uint (nt_fec_header_payload_size h))) buf]
      (routes (distributor p) (uint (fh_block_index h))) w = (s, f, w')" by (metis prod_cases3)
  from on_encode_spec [OF assms perf len this]
  show "\<exists>p' w'. on_encode k p h buf (uint (nt_fec_header_payload_size h)) (perf, w) = Some (0, p', w') \<and> nt_perf p'" by blast
qed

lemma relayed_perf: "relayed k udp f perf (perf', w') \<Longrightarrow> nt_perf perf'"
  by (auto simp: relayed_def split: prod.splits)

lemma on_decode_returns:
  assumes "whole_datagrams k"
  shows "returns 28 (on_decode k p)"
  unfolding returns_def
proof (intro allI impI)
  fix sz perf w and buf :: "u8 list" assume "28 \<le> length buf" "sz \<le> int (length buf)" "nt_perf perf"
  from on_decode_spec [OF assms this(3,1,2), of p w]
  show "\<exists>e p' w'. on_decode k p buf sz (perf, w) = Some (e, p', w') \<and> nt_perf p'" by (auto dest: relayed_perf)
qed

text \<open>
  What a listener hands to a worker: a buffer that starts with a complete message of either version, which fits
  the codec; and a buffer that holds a complete packet, whatever its contents are, with room for a header.
\<close>

definition api_buffer :: "nat \<Rightarrow> u8 list \<Rightarrow> bool" where
  "api_buffer D m \<longleftrightarrow> (\<exists>n. n \<le> length m \<and> n \<le> D \<and> 28 \<le> length m \<and> (v1_message (take n m) \<or> v2_message (take n m)))"

definition tun_buffer :: "u8 list \<Rightarrow> bool" where
  "tun_buffer m \<longleftrightarrow> 38 \<le> length m \<and> (case nt_fec_header_at m of None \<Rightarrow> True | Some h \<Rightarrow> nt_fec_message_size h \<le> length m)"

text \<open>A processor that runs the Reed-Solomon codec, without an encryptor.\<close>

definition processor_ok ::
    "nat \<Rightarrow> nat \<Rightarrow> nat \<Rightarrow> (u64, nat) junk \<Rightarrow> (nat \<Rightarrow> u8) \<Rightarrow> (nt_rs_fec_t, 'w) nt_fec_processor_t \<Rightarrow> bool" where
  "processor_ok N K D mem stack p \<longleftrightarrow> np_fec p = nt_rs_fec_super mem stack \<and> encryptor p = None \<and> distributor_ok (distributor p) \<and>
     enc_ready N K D (fec_state p) \<and> (\<exists>sl. rs_rep N K D (fec_state p) sl)"

lemma encode_message_total:
  assumes k: "whole_datagrams k" and p: "processor_ok N K D mem stack p" and perf: "nt_perf perf"
    and n: "n \<le> length m" "n \<le> D" and D: "D + 4 < 65536"
  shows "\<exists>p' perf' w'. encode_message k p m n (perf, w) = Some (p', perf', w') \<and> processor_ok N K D mem stack p' \<and> nt_perf perf'"
proof -
  have fec: "np_fec p = nt_rs_fec_super mem stack" "enc_ready N K D (fec_state p)" "distributor_ok (distributor p)"
    using p by (simp_all add: processor_ok_def)
  have sz: "0 \<le> int n" "int n \<le> int D" "nat (int n) \<le> length m" using n by simp_all
  obtain fec' perf' w' where e: "nt_rs_fec_encode stack (fec_state p) m (int n) (on_encode k p) (perf, w) = Some (0, fec', perf', w')"
    "enc_ready N K D fec'" "nt_perf perf'"
    using encode_total [OF fec(2) sz D on_encode_sends_all [OF k fec(3)] perf] by blast
  have "\<exists>sl. rs_rep N K D fec' sl" using p rs_rep_frame encode_frame [OF e(1)] unfolding processor_ok_def by metis
  then have "processor_ok N K D mem stack (p\<lparr>fec_state := fec'\<rparr>)" using p e(2) by (simp add: processor_ok_def)
  then show ?thesis using e(1,3) fec(1) by (simp add: encode_message_def nt_fec_encode_def nt_rs_fec_super_def nt_fec_init_def)
qed

lemma encoder_total:
  assumes k: "whole_datagrams k" and p: "processor_ok N K D mem stack p" and perf: "nt_perf perf" and m: "api_buffer D m" and D: "D + 4 < 65536"
  shows "\<exists>p' perf' w'. encoder_on_message k p m (perf, w) = Some (p', perf', w') \<and> processor_ok N K D mem stack p' \<and> nt_perf perf'"
proof -
  obtain n where n: "n \<le> length m" "n \<le> D" "28 \<le> length m" "v1_message (take n m) \<or> v2_message (take n m)" using m by (auto simp: api_buffer_def)
  have len: "length (take n m) = n" using n(1) by simp
  have v1: "nt_api_header_is_valid m = Some (m ! 0 = NT_API_TAG)" using n(3) by (cases m) (simp_all add: nt_api_header_is_valid_def rd_def)
  from n(4) show ?thesis
  proof
    assume "v1_message (take n m)"
    then have a: "19 \<le> n" "take n m ! 0 = NT_API_TAG" "n = 19 + unat (ntohs (field 17 2 (take n m)))" unfolding v1_message_def len by blast+
    have f: "field 17 2 (take n m) = (field 17 2 m :: u16)" using a(1) by (intro field_take) simp
    have "m ! 0 = NT_API_TAG" "n = 19 + unat (ntohs (field 17 2 m))" using a(1,2) a(3) [unfolded f] by simp_all
    moreover obtain h where "nt_api_header_at m = Some h" "nt_api_message_size h = 19 + unat (ntohs (field 17 2 m))"
      using n(3) by (simp add: nt_api_header_at_def nt_api_header_size_def nt_api_message_size_def nt_api_header_payload_size_def)
    ultimately show ?thesis
      using encode_message_total [OF k p perf n(1,2) D, of w] v1 by (simp add: encoder_on_message_def)
  next
    assume "v2_message (take n m)"
    then have a: "28 \<le> n" "take n m ! 0 = NT_API2_TAG" "take n m ! 17 < NT_ENCRYPT_TYPE_NUM" "n = 28 + unat (ntohs (field 19 2 (take n m)))"
      unfolding v2_message_def len by blast+
    have f: "field 19 2 (take n m) = (field 19 2 m :: u16)" using a(1) by (intro field_take) simp
    have t: "m ! 0 = NT_API2_TAG" "m ! 17 < NT_ENCRYPT_TYPE_NUM" "n = 28 + unat (ntohs (field 19 2 m))" using a(1-3) a(4) [unfolded f] by simp_all
    then have v2: "nt_api2_header_is_valid m = Some True" "nt_api_header_is_valid m = Some False"
      using n(3) v1 by (cases m, simp_all add: nt_api2_header_is_valid_def rd_def NT_ENCRYPT_TYPE_NONE_def NT_API_TAG_def NT_API2_TAG_def)
    obtain h where h: "nt_api2_header_at m = Some h" "nt_api2_message_size h = n" "a2_encrypt_type h = m ! 17"
      using n(3) t(3) by (simp add: nt_api2_header_at_def nt_api2_header_size_def nt_api2_message_size_def nt_api2_header_payload_size_def)
    have run: "encoder_on_message k p m (perf, w) = (if m ! 17 = NT_ENCRYPT_TYPE_NONE then encode_message k p m n (perf, w)
        else do { pw \<leftarrow> tally COUNTER_ENCRYPT_ERROR 1 (perf, w); Some (p, pw) })"
      using v2 h encrypt_type_cases [OF t(2)] p by (auto simp: encoder_on_message_def encrypt_message_def processor_ok_def)
    show ?thesis
      using run encode_message_total [OF k p perf n(1,2) D, of w] tally_spec [OF perf, of COUNTER_ENCRYPT_ERROR 1 w] p by auto
  qed
qed

lemma decoder_total:
  assumes k: "whole_datagrams k" and p: "processor_ok N K D mem stack p" and perf: "nt_perf perf" and m: "tun_buffer m" and D: "28 \<le> D"
  shows "\<exists>p' perf' w'. decoder_on_message k now p m (perf, w) = Some (p', perf', w') \<and> processor_ok N K D mem stack p' \<and> nt_perf perf'"
proof -
  obtain sl where fec: "np_fec p = nt_rs_fec_super mem stack" "enc_ready N K D (fec_state p)" "rs_rep N K D (fec_state p) sl"
    using p by (auto simp: processor_ok_def)
  have len: "38 \<le> length m" using m by (simp add: tun_buffer_def)
  then obtain h where h: "nt_fec_header_at m = Some h" by (simp add: nt_fec_header_at_def nt_fec_header_size_def)
  then have size: "10 + unat (nt_fec_header_payload_size h) \<le> length m" using m by (simp add: tun_buffer_def nt_fec_message_size_def nt_fec_header_size_def)
  let ?sz = "uint (nt_fec_header_payload_size h)" let ?in = "nt_fec_message_payload m"
  have input: "nat ?sz \<le> length ?in" "28 \<le> length ?in" using size len by (simp_all add: nt_fec_message_payload_def nt_fec_header_size_def)
  obtain e fec' perf1 w1 sl' where d: "nt_rs_fec_decode mem stack now (fec_state p) h ?in ?sz (on_decode k p) (perf, w) = Some (e, fec', perf1, w1)"
    "rs_rep N K D fec' sl'" "nt_perf perf1"
    using decode_any [OF fec(3) perf _ D on_decode_returns [OF k] input, of mem stack now h p w] D by auto
  have "enc_ready N K D fec'" using fec(2) decode_frame [OF d(1)] by (simp add: enc_ready_def)
  then have ok: "processor_ok N K D mem stack (p\<lparr>fec_state := fec'\<rparr>)" using p d(2) by (auto simp: processor_ok_def)
  define c where "c = (if e = E_FEC_DECODER_BUFFER_FULL then COUNTER_DECODER_BUFFER_FULL
      else if e = E_FEC_INVALID_HEADER then COUNTER_INVALID_ENCODED_DATA else COUNTER_DECODE_ERROR)"
  have c: "c \<in> set nt_counter_names" "decoder_on_message k now p m (perf, w) =
      (if e = 0 then Some (p\<lparr>fec_state := fec'\<rparr>, perf1, w1) else do { pw \<leftarrow> tally c 1 (perf1, w1); Some (p\<lparr>fec_state := fec'\<rparr>, pw) })"
    using h d(1) fec(1) by (simp_all add: decoder_on_message_def nt_fec_decode_def nt_rs_fec_super_def nt_fec_init_def c_def)
  show ?thesis using c(2) ok d(3) tally_spec [OF d(3) c(1), of 1 w1] by auto
qed

section \<open>Properties\<close>

text \<open>The messages that the two workers deliver, in the order in which they do.\<close>

datatype delivered = To_encoder "u8 list" | To_decoder int "u8 list"

fun serve :: "'w kernel \<Rightarrow> ('s, 'w) nt_fec_processor_t \<Rightarrow> delivered list \<Rightarrow> perf_t \<times> 'w \<Rightarrow> (('s, 'w) nt_fec_processor_t \<times> perf_t \<times> 'w) option" where
  "serve k p [] pw = Some (p, pw)"
| "serve k p (To_encoder m # ms) pw = do { (p, pw) \<leftarrow> encoder_on_message k p m pw; serve k p ms pw }"
| "serve k p (To_decoder now m # ms) pw = do { (p, pw) \<leftarrow> decoder_on_message k now p m pw; serve k p ms pw }"

definition deliverable :: "nat \<Rightarrow> delivered \<Rightarrow> bool" where
  "deliverable D d = (case d of To_encoder m \<Rightarrow> api_buffer D m | To_decoder now m \<Rightarrow> tun_buffer m)"

lemma serve_total:
  assumes k: "whole_datagrams k" and D: "28 \<le> D" "D + 4 < 65536"
  shows "processor_ok N K D mem stack p \<Longrightarrow> nt_perf perf \<Longrightarrow> list_all (deliverable D) ms \<Longrightarrow>
    \<exists>p' perf' w'. serve k p ms (perf, w) = Some (p', perf', w') \<and> processor_ok N K D mem stack p' \<and> nt_perf perf'"
proof (induction ms arbitrary: p perf w)
  case (Cons d ms)
  obtain p1 perf1 w1 where "serve k p (d # ms) (perf, w) = serve k p1 ms (perf1, w1)" "processor_ok N K D mem stack p1" "nt_perf perf1"
  proof (cases d)
    case (To_encoder m)
    then show ?thesis using encoder_total [OF k Cons.prems(1,2) _ D(2), of m w] Cons.prems(3) that by (auto simp: deliverable_def)
  next
    case (To_decoder now m)
    then show ?thesis using decoder_total [OF k Cons.prems(1,2) _ D(1), of m now w] Cons.prems(3) that by (auto simp: deliverable_def)
  qed
  then show ?case using Cons.IH [of p1 perf1 w1] Cons.prems(3) by simp
qed auto

text \<open>
  The processor never aborts. Set up with the Reed-Solomon codec, a table of paths, no encryptor (as \<open>main\<close> sets
  it up) and a codec that takes messages of 28 to 65531 bytes, the workers survive every sequence of
  messages that the listeners accept, in any order and at any times: messages of either version that fit the
  codec to the encoder, packets with arbitrary contents to the decoder. No \<open>ensure\<close> fails, no array is
  left and no remainder by zero is computed, whether or not the kernel accepts the datagrams.
\<close>

theorem processor_never_aborts:
  fixes k :: "'w kernel"
  assumes NK: "0 < K" "K < N" "N \<le> 31" "(D + 4) * (N - K) < 2 ^ 31" and D: "28 \<le> D" "D + 4 < 65536" and cap: "2 \<le> cap" "cap < 2 ^ 31"
    and k: "whole_datagrams k" and d: "distributor_ok d"
    and q: "qcap < 2 ^ 31" "inj_on alloc {..<qcap}" "inj_on alloc' {..<qcap}"
    and su: "0 \<le> fst (su_encoder su)" "0 \<le> fst (su_decoder su)" "0 \<le> fst (su_epoll su)" "fst (su_add1 su) = 0" "fst (su_add2 su) = 0"
    and ms: "list_all (deliverable D) ms"
  shows "\<exists>fec perf p p' pw'.
    nt_rs_fec_init words mem links kvs bufs eb (of_nat N) (of_nat K) (int D) (int cap) timeout g = Some fec \<and>
    perf_init mem' cell nt_counter_names nt_counter_num = Some perf \<and>
    nt_fec_processor_init su qmem alloc alloc' contents timers qcap d api tun (nt_rs_fec_super mem stack) fec None = Some (Inr p) \<and>
    serve k p ms (perf, w) = Some (p', pw')"
proof -
  obtain fec where fec: "nt_rs_fec_init words mem links kvs bufs eb (of_nat N) (of_nat K) (int D) (int cap) timeout g = Some fec"
    "rs_rep N K D fec (fresh_slots (\<lambda>_. []) cap)" "enc_inv N K D fec (idgen_id g) []" using rs_fec_init_spec [OF NK cap] by blast
  obtain perf where perf: "perf_init mem' cell nt_counter_names nt_counter_num = Some perf" "nt_perf perf"
    using nt_perf_init [of mem' cell] by blast
  obtain p :: "(nt_rs_fec_t, 'w) nt_fec_processor_t" where p: "nt_fec_processor_init su qmem alloc alloc' contents timers qcap d api tun (nt_rs_fec_super mem stack) fec None = Some (Inr p)"
    "distributor p = d" "np_fec p = nt_rs_fec_super mem stack" "fec_state p = fec" "encryptor p = None"
    using processor_init_ok [OF q su, of qmem contents timers d api tun "nt_rs_fec_super mem stack" fec None] by (elim exE conjE)
  have "enc_ready N K D fec" using fec(3) unfolding enc_inv_def enc_ready_def by blast
  then have "processor_ok N K D mem stack p" using p(2-5) fec(2) d by (auto simp: processor_ok_def)
  then obtain p' perf' w' where "serve k p ms (perf, w) = Some (p', perf', w')" using serve_total [OF k D _ perf(2) ms, of N K mem stack p w] by blast
  then show ?thesis using fec(1) perf(1) p(1)
    by (intro exI [of _ fec] exI [of _ perf] exI [of _ p] exI [of _ p'] exI [of _ "(perf', w')"]) simp
qed

theorem processor_never_aborts_witness:
  "\<exists>fec perf p p' pw'.
    nt_rs_fec_init (\<lambda>_. 9) no_entry (\<lambda>_. \<lparr>prev = None, next = None\<rparr>) (\<lambda>_. (3, 4)) (\<lambda>_. some_dc) some_ec (of_nat 3) (of_nat 2) (int 40) (int 2) 100 (idgen_init 7) = Some fec \<and>
    perf_init some_counter (\<lambda>_. 5) nt_counter_names nt_counter_num = Some perf \<and>
    nt_fec_processor_init all_fine id far_apart far_apart (\<lambda>_. \<lparr>msg_data = 9, msg_free = ()\<rparr>) (\<lambda>_. some_timer) 4 two_paths \<lparr>udp_fd = 7\<rparr> \<lparr>udp_fd = 8\<rparr>
      (nt_rs_fec_super no_entry (\<lambda>_. 1)) fec None = Some (Inr p) \<and>
    serve (loopback (Addr_in 9 9)) p
      [To_encoder (nt_api_header_bytes (nt_api_header_init 1 2 3 4 5 2) @ replicate 20 6),
       To_decoder 50 (nt_fec_header_bytes (nt_fec_header_init NT_RS_FEC_TAG 3 2 7 0 20) @ replicate 30 89),
       To_decoder 51 (replicate 10 0 @ replicate 30 255)] (perf, []) = Some (p', pw')"
proof (rule processor_never_aborts)
  show "list_all (deliverable 40)
      [To_encoder (nt_api_header_bytes (nt_api_header_init 1 2 3 4 5 2) @ replicate 20 6),
       To_decoder 50 (nt_fec_header_bytes (nt_fec_header_init NT_RS_FEC_TAG 3 2 7 0 20) @ replicate 30 89),
       To_decoder 51 (replicate 10 0 @ replicate 30 255)]"
    unfolding list.pred_inject deliverable_def delivered.case api_buffer_def
    by (intro conjI TrueI exI [of _ 21]) code_simp+
qed (simp_all add: two_paths_ok)

end
