(* ===== verification/Nt_Listener.thy ===== *)
theory Nt_Listener
  imports Nt_Processor_Robust "HOL-Library.Multiset"
begin

text \<open>
  The listeners of the tunnel, \<^verbatim>\<open>src/src/main/tunnel/nt_listener.c\<close>, with the handlers of datagram sockets from
  \<^verbatim>\<open>src/src/main/dispatcher/udp.c\<close>. A listener takes a buffer from its pool, receives a datagram into it and
  hands the buffer to a worker of a processor, or gives it back. Buffers are addresses; what they hold is
  the memory \<open>nat \<Rightarrow> u8 list\<close>. The array of processors is shared by both listeners.
\<close>

section \<open>Handlers of sockets\<close>

definition EPOLLIN :: u32 where "EPOLLIN = 1"
definition EPOLLOUT :: u32 where "EPOLLOUT = 4"

record 'h udp_handler_t =
  uh_handler :: "(nat, nat) handler_t"
  uh_udp :: udp_t
  uh_read :: "'h option"
  uh_write :: "'h option"
  uh_extra :: nat

text \<open>\<open>cb\<close> is the address of the function \<open>callback\<close>, \<open>self\<close> that of the handler.\<close>

definition udp_handler_init :: "nat \<Rightarrow> nat \<Rightarrow> udp_t \<Rightarrow> nat \<Rightarrow> 'h option \<Rightarrow> 'h option \<Rightarrow> 'h udp_handler_t" where
  "udp_handler_init cb self udp extra handle_read handle_write =
     (let events = 0;
          events = (if handle_read \<noteq> None then events OR EPOLLIN else events);
          events = (if handle_write \<noteq> None then events OR EPOLLOUT else events)
      in \<lparr>uh_handler = handler_init (udp_fd udp) events cb self, uh_udp = udp, uh_read = handle_read, uh_write = handle_write,
          uh_extra = extra\<rparr>)"

text \<open>\<open>run\<close> performs a call of one of the two functions; calling none is undefined.\<close>

definition udp_callback :: "('h \<Rightarrow> udp_t \<Rightarrow> nat \<Rightarrow> 's \<Rightarrow> 's option) \<Rightarrow> 'h udp_handler_t \<Rightarrow> u32 \<Rightarrow> 's \<Rightarrow> 's option" where
  "udp_callback run h event s = do {
     s \<leftarrow> (if event AND EPOLLIN \<noteq> 0 then do { f \<leftarrow> uh_read h; run f (uh_udp h) (uh_extra h) s } else Some s);
     if event AND EPOLLOUT \<noteq> 0 then do { f \<leftarrow> uh_write h; run f (uh_udp h) (uh_extra h) s } else Some s
   }"

definition dispatcher_add_udp :: "int \<Rightarrow> int \<Rightarrow> int" where
  "dispatcher_add_udp rc err = dispatcher_add_handler rc err"

section \<open>Listeners\<close>

record 'h nt_listener_t =
  li_dispatcher :: "(nat, nat) dispatcher_t"
  li_handler :: "'h udp_handler_t"
  li_pool :: "pool_t option"
  max_buffer_size :: nat
  pool_capacity :: nat
  li_extra :: nat

text \<open>
  The results of \<open>epoll_create1\<close> and of the registration come with their error numbers; \<open>mem\<close>, \<open>alloc\<close> and \<open>heap\<close> are
  the memory that set-up finds. The pool is there only if its capacity is positive.
\<close>

definition nt_listener_init ::
    "int \<times> int \<Rightarrow> int \<times> int \<Rightarrow> (nat \<Rightarrow> nat) \<Rightarrow> (nat \<Rightarrow> nat) \<Rightarrow> (nat \<Rightarrow> (nat, nat) timer_entry_t entry_t) \<Rightarrow> nat \<Rightarrow> nat \<Rightarrow>
     udp_t \<Rightarrow> nat \<Rightarrow> nat \<Rightarrow> nat \<Rightarrow> 'h option \<Rightarrow> (int + 'h nt_listener_t) option" where
  "nt_listener_init ep add mem alloc heap cb self udp pool_cap max_size extra handle_read =
     (case dispatcher_init1 (fst ep) (snd ep) heap 100 of
        Inl err \<Rightarrow> Some (Inl err)
      | Inr disp \<Rightarrow> do {
          let handler = udp_handler_init cb self udp self handle_read None;
          let err = dispatcher_add_udp (fst add) (snd add);
          if err \<noteq> 0 then Some (Inl err)
          else do {
            p \<leftarrow> (if pool_cap > 0 then map_option Some (pool_init mem alloc pool_cap max_size) else Some None);
            Some (Inr \<lparr>li_dispatcher = disp, li_handler = handler, li_pool = p, max_buffer_size = max_size, pool_capacity = pool_cap,
                   li_extra = extra\<rparr>)
          }
        })"

definition nt_listener_destroy :: "int \<times> int \<Rightarrow> 'h nt_listener_t \<Rightarrow> (int \<times> nat list) option" where
  "nt_listener_destroy rc l = do {
     freed \<leftarrow> (if pool_capacity l > 0 then do { p \<leftarrow> li_pool l; pool_destroy p } else Some []);
     (err, timers, d) \<leftarrow> dispatcher_destroy (fst rc) (snd rc) (li_dispatcher l);
     Some (err, freed)
   }"

definition nt_listener_run ::
    "(nat, nat, 'v) env \<Rightarrow> nat \<Rightarrow> nat \<Rightarrow> 'h nt_listener_t \<Rightarrow> 'v \<Rightarrow> (int \<times> (nat, nat) dispatcher_t \<times> 'v) option" where
  "nt_listener_run env tfuel fuel l w = dispatcher_run env tfuel fuel (li_dispatcher l) w"

text \<open>\<open>cx_processors\<close> says whether the pointer to the array of processors is not \<open>NULL\<close>.\<close>

record nt_fec_listener_context_t =
  cx_processors :: bool
  processor_num :: int
  last_processor :: int
  cx_forwarder :: "nt_forwarder_t option"

definition nt_fec_listener_context_init :: "bool \<Rightarrow> int \<Rightarrow> nt_forwarder_t option \<Rightarrow> nt_fec_listener_context_t" where
  "nt_fec_listener_context_init ps num forwarder =
     \<lparr>cx_processors = ps, processor_num = num, last_processor = 0, cx_forwarder = forwarder\<rparr>"

section \<open>Receiving\<close>

text \<open>What a handler works on: its listener, its context, the processors, the memory, the counters and the world.\<close>

record ('h, 's, 'w) state =
  st_listener :: "'h nt_listener_t"
  st_context :: nt_fec_listener_context_t
  st_processors :: "('s, 'w) nt_fec_processor_t list"
  st_mem :: "nat \<Rightarrow> u8 list"
  st_world :: "perf_t \<times> 'w"

text \<open>The last label of both handlers, and the one before it with its counter.\<close>

definition cleanup :: "nat \<Rightarrow> ('h, 's, 'w) state \<Rightarrow> ('h, 's, 'w) state option" where
  "cleanup buffer st = do {
     p \<leftarrow> li_pool (st_listener st);
     p \<leftarrow> pool_free p buffer;
     Some (st\<lparr>st_listener := (st_listener st)\<lparr>li_pool := Some p\<rparr>\<rparr>)
   }"

definition count_up :: "u8 list \<Rightarrow> int \<Rightarrow> ('h, 's, 'w) state \<Rightarrow> ('h, 's, 'w) state option" where
  "count_up name n st = do { pw \<leftarrow> tally name n (st_world st); Some (st\<lparr>st_world := pw\<rparr>) }"

definition recv_failure :: "u8 list \<Rightarrow> nat \<Rightarrow> ('h, 's, 'w) state \<Rightarrow> ('h, 's, 'w) state option" where
  "recv_failure name buffer st = do { st \<leftarrow> count_up name 1 st; cleanup buffer st }"

text \<open>
  The checks of \<open>nt_api_handle_read\<close> on a datagram of \<open>received\<close> bytes: \<open>None\<close> is a jump to the failure label,
  otherwise the result says whether the message has version one, and the buffer with the sender filled in.
\<close>

definition accept_message :: "u8 list \<Rightarrow> nat \<Rightarrow> address_t \<Rightarrow> (bool \<times> u8 list) option option" where
  "accept_message buf received src = do {
     let src_ip = address_get_addr4 src;
     if src_ip = 0 then Some None
     else do {
       v1 \<leftarrow> nt_api_header_is_valid buf;
       if v1 then do {
         h \<leftarrow> nt_api_header_at buf;
         if nt_api_message_size h \<noteq> received then Some None
         else Some (Some (True, nt_api_header_bytes (h\<lparr>a1_src_ip := src_ip, a1_src_port := address_get_port src\<rparr>) @ drop nt_api_header_size buf))
       }
       else do {
         v2 \<leftarrow> nt_api2_header_is_valid buf;
         if v2 then do {
           h \<leftarrow> nt_api2_header_at buf;
           if nt_api2_message_size h \<noteq> received then Some None
           else Some (Some (False, nt_api2_header_bytes (h\<lparr>a2_src_ip := src_ip, a2_src_port := address_get_port src\<rparr>) @ drop nt_api2_header_size buf))
         }
         else Some None
       }
     }
   }"

text \<open>The choice of an encoder: the last one used if it is idle, otherwise the next.\<close>

definition choose_encoder :: "nt_fec_listener_context_t \<Rightarrow> ('s, 'w) nt_fec_processor_t list \<Rightarrow> (nat \<times> nt_fec_listener_context_t) option" where
  "choose_encoder c ps = do {
     p \<leftarrow> rdi ps (last_processor c);
     n \<leftarrow> worker_message_count (encoder p);
     if n \<noteq> 0 then do {
       ensure (processor_num c \<noteq> 0);
       let i = (last_processor c + 1) mod processor_num c;
       ensure (0 \<le> i);
       Some (nat i, c\<lparr>last_processor := i\<rparr>)
     }
     else Some (nat (last_processor c), c)
   }"

definition dispatch_encoder :: "nat \<Rightarrow> ('h, 's, 'w) state \<Rightarrow> ('h, 's, 'w) state option" where
  "dispatch_encoder buffer st =
     (if cx_processors (st_context st) then do {
        (i, c) \<leftarrow> choose_encoder (st_context st) (st_processors st);
        let st = st\<lparr>st_context := c\<rparr>;
        p \<leftarrow> rd (st_processors st) i;
        (ok, p) \<leftarrow> nt_fec_processor_encode p buffer;
        ps \<leftarrow> wr (st_processors st) i p;
        let st = st\<lparr>st_processors := ps\<rparr>;
        if ok then Some st
        else do { st \<leftarrow> count_up COUNTER_ENCODER_BUSY 1 st; cleanup buffer st }
      }
      else cleanup buffer st)"

text \<open>The part of \<open>nt_api_handle_read\<close> that follows the call of \<open>udp_recvfrom\<close>, which has filled the buffer.\<close>

definition api_received :: "nat \<Rightarrow> nat \<Rightarrow> address_t \<Rightarrow> ('h, 's, 'w) state \<Rightarrow> ('h, 's, 'w) state option" where
  "api_received buffer received src st = do {
     a \<leftarrow> accept_message (st_mem st buffer) received src;
     (case a of
        None \<Rightarrow> recv_failure COUNTER_API_RECEIVE_ERROR buffer st
      | Some (v1, buf) \<Rightarrow> do {
          let st = st\<lparr>st_mem := (st_mem st)(buffer := buf)\<rparr>;
          st \<leftarrow> (if v1 then count_up COUNTER_API_RECEIVED_V1 1 st else Some st);
          st \<leftarrow> count_up COUNTER_API_RECEIVED 1 st;
          st \<leftarrow> count_up COUNTER_API_RECEIVED_BYTES (int received) st;
          dispatch_encoder buffer st
        })
   }"

definition nt_api_handle_read :: "'w kernel \<Rightarrow> udp_t \<Rightarrow> ('h, 's, 'w) state \<Rightarrow> ('h, 's, 'w) state option" where
  "nt_api_handle_read k udp st = do {
     p \<leftarrow> li_pool (st_listener st);
     (buffer, p) \<leftarrow> pool_new p;
     let st = st\<lparr>st_listener := (st_listener st)\<lparr>li_pool := Some p\<rparr>\<rparr>;
     (case buffer of
        None \<Rightarrow> Some st
      | Some buffer \<Rightarrow> do {
          (r, w) \<leftarrow> udp_recvfrom k udp (st_mem st buffer) (max_buffer_size (st_listener st)) (snd (st_world st));
          let st = st\<lparr>st_world := (fst (st_world st), w)\<rparr>;
          (case r of
             Inl err \<Rightarrow> recv_failure COUNTER_API_RECEIVE_ERROR buffer st
           | Inr (received, buf, src) \<Rightarrow> api_received buffer received src (st\<lparr>st_mem := (st_mem st)(buffer := buf)\<rparr>))
        })
   }"

text \<open>
  The processor of a packet: the number of its block modulo the number of processors, which is converted to
  unsigned; the block is renamed to the quotient.
\<close>

definition dispatch_decoder :: "nat \<Rightarrow> nt_fec_header_t \<Rightarrow> ('h, 's, 'w) state \<Rightarrow> ('h, 's, 'w) state option" where
  "dispatch_decoder buffer header st = do {
     let block_id = nt_fec_header_block_id header;
     if \<not> cx_processors (st_context st) then recv_failure COUNTER_TUN_RECEIVE_ERROR buffer st
     else do {
       let num = (word_of_int (processor_num (st_context st)) :: u32);
       ensure (num \<noteq> 0);
       let i = unat (block_id mod num);
       p \<leftarrow> rd (st_processors st) i;
       let header = nt_fec_header_set_block_id header (block_id div num);
       let st = st\<lparr>st_mem := (st_mem st)(buffer := nt_fec_header_bytes header @ drop nt_fec_header_size (st_mem st buffer))\<rparr>;
       (ok, p) \<leftarrow> nt_fec_processor_decode p buffer;
       ps \<leftarrow> wr (st_processors st) i p;
       let st = st\<lparr>st_processors := ps\<rparr>;
       if ok then Some st
       else do { st \<leftarrow> count_up COUNTER_DECODER_BUSY 1 st; cleanup buffer st }
     }
   }"

definition tun_received :: "nat \<Rightarrow> nat \<Rightarrow> ('h, 's, 'w) state \<Rightarrow> ('h, 's, 'w) state option" where
  "tun_received buffer received st = do {
     header \<leftarrow> nt_fec_header_at (st_mem st buffer);
     if nt_fec_message_size header \<noteq> received then recv_failure COUNTER_TUN_RECEIVE_ERROR buffer st
     else do {
       st \<leftarrow> count_up COUNTER_TUN_RECEIVED 1 st;
       st \<leftarrow> count_up COUNTER_TUN_RECEIVED_BYTES (int received) st;
       dispatch_decoder buffer header st
     }
   }"

definition nt_tun_handle_read :: "'w kernel \<Rightarrow> udp_t \<Rightarrow> ('h, 's, 'w) state \<Rightarrow> ('h, 's, 'w) state option" where
  "nt_tun_handle_read k udp st = do {
     p \<leftarrow> li_pool (st_listener st);
     (buffer, p) \<leftarrow> pool_new p;
     let st = st\<lparr>st_listener := (st_listener st)\<lparr>li_pool := Some p\<rparr>\<rparr>;
     (case buffer of
        None \<Rightarrow> Some st
      | Some buffer \<Rightarrow> do {
          (r, w) \<leftarrow> udp_recvfrom k udp (st_mem st buffer) (max_buffer_size (st_listener st)) (snd (st_world st));
          let st = st\<lparr>st_world := (fst (st_world st), w)\<rparr>;
          (case r of
             Inl err \<Rightarrow> recv_failure COUNTER_TUN_RECEIVE_ERROR buffer st
           | Inr (received, buf, src) \<Rightarrow> tun_received buffer received (st\<lparr>st_mem := (st_mem st)(buffer := buf)\<rparr>))
        })
   }"

lemma udp_callback_registered:
  "event AND EPOLLIN \<noteq> 0 \<Longrightarrow> handler_events (uh_handler h) AND EPOLLIN \<noteq> 0 \<Longrightarrow> h = udp_handler_init cb self udp extra r w \<Longrightarrow> uh_read h \<noteq> None"
  by (auto simp: udp_handler_init_def handler_init_def Let_def EPOLLIN_def EPOLLOUT_def split: if_splits)

section \<open>Who owns a buffer\<close>

text \<open>
  A buffer of a listener is free, or in flight: its address waits in the queue of a worker of a processor. \<open>sel\<close>
  selects that worker, the encoder for the listener of the clients, the decoder for that of the tunnel.
\<close>

definition in_flight :: "(('s, 'w) nt_fec_processor_t \<Rightarrow> (nat, unit) worker_t) \<Rightarrow> ('s, 'w) nt_fec_processor_t list \<Rightarrow> nat list" where
  "in_flight sel ps = concat (map (\<lambda>p. map msg_data (pending (sel p))) ps)"

definition free_buffers :: "('h, 's, 'w) state \<Rightarrow> nat list" where
  "free_buffers st = (case li_pool (st_listener st) of None \<Rightarrow> [] | Some p \<Rightarrow> map (\<lambda>pb. pb + pool_header) (pool_list p))"

lemma free_buffers_frame [simp]:
  "free_buffers (st\<lparr>st_world := w\<rparr>) = free_buffers st" "free_buffers (st\<lparr>st_mem := m\<rparr>) = free_buffers st"
  "free_buffers (st\<lparr>st_context := c\<rparr>) = free_buffers st" "free_buffers (st\<lparr>st_processors := ps\<rparr>) = free_buffers st"
  by (simp_all add: free_buffers_def)

abbreviation owned :: "(('s, 'w) nt_fec_processor_t \<Rightarrow> (nat, unit) worker_t) \<Rightarrow> ('h, 's, 'w) state \<Rightarrow> nat list" where
  "owned sel st \<equiv> free_buffers st @ in_flight sel (st_processors st)"

definition context_ok :: "nt_fec_listener_context_t \<Rightarrow> nat \<Rightarrow> bool" where
  "context_ok c n \<longleftrightarrow> cx_processors c \<longrightarrow> processor_num c = int n \<and> 0 \<le> last_processor c \<and> last_processor c < int n \<and> n < 2 ^ 31"

text \<open>
  The invariant: the pool and the queues are well-formed, there are no more buffers than the pool can hold, every
  buffer has one owner and its full size, and every buffer in flight holds what \<open>ok\<close> demands.
\<close>

definition listener_ok ::
    "nat \<Rightarrow> nat \<Rightarrow> (u8 list \<Rightarrow> bool) \<Rightarrow> (('s, 'w) nt_fec_processor_t \<Rightarrow> (nat, unit) worker_t) \<Rightarrow> ('h, 's, 'w) state \<Rightarrow> bool" where
  "listener_ok cap q ok sel st \<longleftrightarrow> (\<exists>p. li_pool (st_listener st) = Some p \<and> pool_ok cap p) \<and>
     (\<forall>p \<in> set (st_processors st). worker_ok q (sel p)) \<and> nt_perf (fst (st_world st)) \<and>
     context_ok (st_context st) (length (st_processors st)) \<and> distinct (owned sel st) \<and> length (owned sel st) \<le> cap \<and>
     (\<forall>b \<in> set (owned sel st). pool_header \<le> b \<and> length (st_mem st b) = max_buffer_size (st_listener st)) \<and>
     (\<forall>b \<in> set (in_flight sel (st_processors st)). ok (st_mem st b))"

text \<open>The handler itself holds the buffer \<open>b\<close>.\<close>

definition holding ::
    "nat \<Rightarrow> nat \<Rightarrow> (u8 list \<Rightarrow> bool) \<Rightarrow> (('s, 'w) nt_fec_processor_t \<Rightarrow> (nat, unit) worker_t) \<Rightarrow> nat \<Rightarrow> ('h, 's, 'w) state \<Rightarrow> bool" where
  "holding cap q ok sel b st \<longleftrightarrow> listener_ok cap q ok sel st \<and> b \<notin> set (owned sel st) \<and> length (owned sel st) < cap \<and>
     pool_header \<le> b \<and> length (st_mem st b) = max_buffer_size (st_listener st)"

text \<open>What the end of a handler leaves: the buffer has an owner again, and the other parts are as before.\<close>

definition settled ::
    "nat \<Rightarrow> nat \<Rightarrow> (u8 list \<Rightarrow> bool) \<Rightarrow> (('s, 'w) nt_fec_processor_t \<Rightarrow> (nat, unit) worker_t) \<Rightarrow> (('s, 'w) nt_fec_processor_t \<Rightarrow> 'r) \<Rightarrow>
     nat \<Rightarrow> ('h, 's, 'w) state \<Rightarrow> ('h, 's, 'w) state \<Rightarrow> bool" where
  "settled cap q ok sel rest b st st' \<longleftrightarrow> listener_ok cap q ok sel st' \<and> mset (owned sel st') = add_mset b (mset (owned sel st)) \<and>
     st_mem st' = st_mem st \<and> map rest (st_processors st') = map rest (st_processors st) \<and>
     max_buffer_size (st_listener st') = max_buffer_size (st_listener st) \<and> snd (st_world st') = snd (st_world st)"

lemma take_buffer:
  assumes ok: "listener_ok cap q ok sel st" and p: "li_pool (st_listener st) = Some p"
  obtains (got) b p' where "pool_new p = Some (Some b, p')" "free_buffers st = b # free_buffers (st\<lparr>st_listener := (st_listener st)\<lparr>li_pool := Some p'\<rparr>\<rparr>)"
      "holding cap q ok sel b (st\<lparr>st_listener := (st_listener st)\<lparr>li_pool := Some p'\<rparr>\<rparr>)"
  | (empty) "pool_new p = Some (None, p)" "free_buffers st = []"
proof -
  have pok: "pool_ok cap p" using ok p by (simp add: listener_ok_def)
  from pok show ?thesis
  proof (cases rule: pool_new_cases)
    case (got pb p')
    let ?st = "st\<lparr>st_listener := (st_listener st)\<lparr>li_pool := Some p'\<rparr>\<rparr>"
    have free: "free_buffers st = (pb + pool_header) # free_buffers ?st" using p got(1) by (simp add: free_buffers_def)
    have "length (owned sel ?st) < cap" using ok free by (simp add: listener_ok_def)
    moreover have "listener_ok cap q ok sel ?st" using ok got(3) free by (auto simp: listener_ok_def)
    moreover have "pb + pool_header \<notin> set (owned sel ?st)" "length (st_mem ?st (pb + pool_header)) = max_buffer_size (st_listener ?st)"
      using ok free by (auto simp: listener_ok_def)
    ultimately show ?thesis using that(1) [OF got(2) free] by (simp add: holding_def)
  next
    case empty
    then show ?thesis using that(2) p by (simp add: free_buffers_def)
  qed
qed

lemma cleanup_settles:
  assumes h: "holding cap q ok sel b st"
  shows "\<exists>st'. cleanup b st = Some st' \<and> settled cap q ok sel rest b st st'"
proof -
  obtain p where p: "li_pool (st_listener st) = Some p" "pool_ok cap p" using h by (auto simp: holding_def listener_ok_def)
  have "length (free_buffers st) < cap" using h by (simp add: holding_def)
  then have "length (pool_list p) < cap" using p(1) by (simp add: free_buffers_def)
  then obtain p' where p': "pool_free p b = Some p'" "pool_ok cap p'" "pool_list p' = pool_list p @ [b - pool_header]"
    using pool_free_room [OF p(2), of "b - pool_header"] h by (auto simp: holding_def)
  let ?st = "st\<lparr>st_listener := (st_listener st)\<lparr>li_pool := Some p'\<rparr>\<rparr>"
  have free: "free_buffers ?st = free_buffers st @ [b]" using p(1) p'(3) h by (simp add: free_buffers_def holding_def)
  have "listener_ok cap q ok sel ?st" using h p'(2) by (auto simp: holding_def listener_ok_def free)
  then have "settled cap q ok sel rest b st ?st" by (simp add: settled_def free)
  then show ?thesis using p(1) p'(1) by (simp add: cleanup_def)
qed

lemma settled_world: "settled cap q ok sel rest b (st\<lparr>st_world := (perf, snd (st_world st))\<rparr>) st' \<longleftrightarrow> settled cap q ok sel rest b st st'"
  by (simp add: settled_def)

lemma settled_context: "settled cap q ok sel rest b (st\<lparr>st_context := c\<rparr>) st' \<longleftrightarrow> settled cap q ok sel rest b st st'"
  by (simp add: settled_def)

lemma holding_context: "holding cap q ok sel b st \<Longrightarrow> context_ok c (length (st_processors st)) \<Longrightarrow> holding cap q ok sel b (st\<lparr>st_context := c\<rparr>)"
  by (simp add: holding_def listener_ok_def)

lemma holding_world: "holding cap q ok sel b st \<Longrightarrow> holding cap q ok sel b (st\<lparr>st_world := (fst (st_world st), w)\<rparr>)"
  by (simp add: holding_def listener_ok_def)

lemma holding_mem:
  "holding cap q ok sel b st \<Longrightarrow> length buf = max_buffer_size (st_listener st) \<Longrightarrow> holding cap q ok sel b (st\<lparr>st_mem := (st_mem st)(b := buf)\<rparr>)"
  by (auto simp: holding_def listener_ok_def)

lemma count_holding:
  assumes "holding cap q ok sel b st" "name \<in> set nt_counter_names"
  shows "\<exists>perf. count_up name n st = Some (st\<lparr>st_world := (perf, snd (st_world st))\<rparr>) \<and> holding cap q ok sel b (st\<lparr>st_world := (perf, snd (st_world st))\<rparr>)"
proof -
  have "nt_perf (fst (st_world st))" using assms(1) by (simp add: holding_def listener_ok_def)
  then obtain perf where "tally name n (fst (st_world st), snd (st_world st)) = Some (perf, snd (st_world st))" "nt_perf perf"
    using tally_spec [OF _ assms(2), of "fst (st_world st)" n "snd (st_world st)"] by auto
  then show ?thesis using assms(1) by (intro exI [of _ perf]) (simp add: count_up_def holding_def listener_ok_def)
qed

lemma recv_failure_settles:
  assumes "holding cap q ok sel b st" "name \<in> set nt_counter_names"
  shows "\<exists>st'. recv_failure name b st = Some st' \<and> settled cap q ok sel rest b st st'"
proof -
  obtain perf where c: "count_up name 1 st = Some (st\<lparr>st_world := (perf, snd (st_world st))\<rparr>)" "holding cap q ok sel b (st\<lparr>st_world := (perf, snd (st_world st))\<rparr>)"
    using count_holding [OF assms] by blast
  then show ?thesis using cleanup_settles [OF c(2), of rest] by (auto simp: recv_failure_def settled_world)
qed

section \<open>Handing on\<close>

text \<open>
  The contract of the two send functions: below the capacity of its queue, a worker takes a message and keeps
  it behind those it has; otherwise it refuses. Nothing else of the processor changes.
\<close>

locale mailbox =
  fixes sel :: "('s, 'w) nt_fec_processor_t \<Rightarrow> (nat, unit) worker_t"
    and send :: "('s, 'w) nt_fec_processor_t \<Rightarrow> nat \<Rightarrow> (bool \<times> ('s, 'w) nt_fec_processor_t) option"
    and rest :: "('s, 'w) nt_fec_processor_t \<Rightarrow> 'r"
  assumes send_law: "worker_ok q (sel p) \<Longrightarrow> \<exists>p'. send p m = Some (length (pending (sel p)) < q, p') \<and> worker_ok q (sel p') \<and> rest p' = rest p \<and>
    pending (sel p') = (if length (pending (sel p)) < q then pending (sel p) @ [\<lparr>msg_data = m, msg_free = ()\<rparr>] else pending (sel p))"
begin

lemma in_flight_update:
  assumes "i < length ps"
  shows "mset (in_flight sel (ps[i := p'])) + mset (map msg_data (pending (sel (ps ! i)))) =
    mset (in_flight sel ps) + mset (map msg_data (pending (sel p')))"
proof -
  have ps: "ps = take i ps @ ps ! i # drop (Suc i) ps" using assms by (rule id_take_nth_drop)
  have "in_flight sel (ps[i := p']) = in_flight sel (take i ps) @ map msg_data (pending (sel p')) @ in_flight sel (drop (Suc i) ps)"
    using assms by (simp add: in_flight_def upd_conv_take_nth_drop)
  moreover have "in_flight sel ps = in_flight sel (take i ps) @ map msg_data (pending (sel (ps ! i))) @ in_flight sel (drop (Suc i) ps)"
    by (subst ps) (simp add: in_flight_def)
  ultimately show ?thesis by simp
qed

text \<open>A buffer that a worker takes is in flight; one that it refuses stays with the handler.\<close>

lemma send_settles:
  assumes h: "holding cap q ok sel b st" and i: "i < length (st_processors st)" and b: "ok (st_mem st b)"
  shows "\<exists>p' taken. send (st_processors st ! i) b = Some (taken, p') \<and>
    (taken \<longrightarrow> settled cap q ok sel rest b st (st\<lparr>st_processors := (st_processors st)[i := p']\<rparr>)) \<and>
    (\<not> taken \<longrightarrow> holding cap q ok sel b (st\<lparr>st_processors := (st_processors st)[i := p']\<rparr>) \<and>
      (\<forall>st'. settled cap q ok sel rest b (st\<lparr>st_processors := (st_processors st)[i := p']\<rparr>) st' \<longrightarrow> settled cap q ok sel rest b st st'))"
proof -
  let ?ps = "st_processors st" let ?p = "?ps ! i"
  have ok: "listener_ok cap q ok sel st" using h by (simp add: holding_def)
  then have w: "worker_ok q (sel ?p)" using i by (simp add: listener_ok_def)
  obtain p' where p': "send ?p b = Some (length (pending (sel ?p)) < q, p')" "worker_ok q (sel p')" "rest p' = rest ?p"
    "pending (sel p') = (if length (pending (sel ?p)) < q then pending (sel ?p) @ [\<lparr>msg_data = b, msg_free = ()\<rparr>] else pending (sel ?p))"
    using send_law [OF w] by blast
  let ?st = "st\<lparr>st_processors := ?ps[i := p']\<rparr>"
  have ws: "\<forall>p \<in> set (?ps[i := p']). worker_ok q (sel p)" using ok p'(2) by (intro ball_set_update) (simp_all add: listener_ok_def)
  have rest: "map rest (?ps[i := p']) = map rest ?ps" using p'(3) i by (metis list_update_id map_update)
  have free: "free_buffers ?st = free_buffers st" by (simp add: free_buffers_def)
  show ?thesis
  proof (cases "length (pending (sel ?p)) < q")
    case True
    have fl: "mset (in_flight sel (?ps[i := p'])) = add_mset b (mset (in_flight sel ?ps))"
      using in_flight_update [OF i, of p'] p'(4) True by simp
    then have set: "set (in_flight sel (?ps[i := p'])) = insert b (set (in_flight sel ?ps))" by (metis set_mset_add_mset_insert set_mset_mset)
    have m: "mset (owned sel ?st) = mset (b # owned sel st)" using fl free by simp
    then have len: "length (owned sel ?st) = Suc (length (owned sel st))" by (metis length_Cons mset_eq_length)
    note m moreover have "distinct (b # owned sel st)" using h by (simp add: holding_def listener_ok_def)
    ultimately have "distinct (owned sel ?st)" by (metis mset_eq_imp_distinct_iff)
    then have "listener_ok cap q ok sel ?st" using h ok ws b set free len by (simp add: listener_ok_def holding_def)
    then have "settled cap q ok sel rest b st ?st" using fl free rest by (simp add: settled_def)
    then show ?thesis using p'(1) True by (intro exI [of _ p'] exI [of _ True]) simp
  next
    case False
    have fl: "mset (in_flight sel (?ps[i := p'])) = mset (in_flight sel ?ps)"
      using in_flight_update [OF i, of p'] p'(4) False by simp
    then have set: "set (in_flight sel (?ps[i := p'])) = set (in_flight sel ?ps)" by (metis set_mset_mset)
    have len: "length (owned sel ?st) = length (owned sel st)" using fl free mset_eq_length [of "owned sel ?st" "owned sel st"] by simp
    have "distinct (owned sel st)" using ok by (simp add: listener_ok_def)
    then have "distinct (owned sel ?st)" using fl free mset_eq_imp_distinct_iff [of "owned sel ?st" "owned sel st"] by simp
    then have "holding cap q ok sel b ?st" using h ws set free len by (simp add: listener_ok_def holding_def)
    then show ?thesis using p'(1) False fl free rest by (intro exI [of _ p'] exI [of _ False]) (simp add: settled_def)
  qed
qed

end

interpretation enc: mailbox encoder nt_fec_processor_encode
  "\<lambda>p. (np_dispatcher p, decoder p, distributor p, api_udp p, tun_udp p, np_fec p, fec_state p, encryptor p)"
proof
  fix q and p :: "('a, 'b) nt_fec_processor_t" and m assume "worker_ok q (encoder p)"
  from worker_send_spec [OF this, of m "()"] show "\<exists>p'. nt_fec_processor_encode p m = Some (length (pending (encoder p)) < q, p') \<and>
    worker_ok q (encoder p') \<and>
    (np_dispatcher p', decoder p', distributor p', api_udp p', tun_udp p', np_fec p', fec_state p', encryptor p') =
    (np_dispatcher p, decoder p, distributor p, api_udp p, tun_udp p, np_fec p, fec_state p, encryptor p) \<and>
    pending (encoder p') = (if length (pending (encoder p)) < q then pending (encoder p) @ [\<lparr>msg_data = m, msg_free = ()\<rparr>] else pending (encoder p))"
    by (auto simp: nt_fec_processor_encode_def)
qed

interpretation dec: mailbox decoder nt_fec_processor_decode
  "\<lambda>p. (np_dispatcher p, encoder p, distributor p, api_udp p, tun_udp p, np_fec p, fec_state p, encryptor p)"
proof
  fix q and p :: "('a, 'b) nt_fec_processor_t" and m assume "worker_ok q (decoder p)"
  from worker_send_spec [OF this, of m "()"] show "\<exists>p'. nt_fec_processor_decode p m = Some (length (pending (decoder p)) < q, p') \<and>
    worker_ok q (decoder p') \<and>
    (np_dispatcher p', encoder p', distributor p', api_udp p', tun_udp p', np_fec p', fec_state p', encryptor p') =
    (np_dispatcher p, encoder p, distributor p, api_udp p, tun_udp p, np_fec p, fec_state p, encryptor p) \<and>
    pending (decoder p') = (if length (pending (decoder p)) < q then pending (decoder p) @ [\<lparr>msg_data = m, msg_free = ()\<rparr>] else pending (decoder p))"
    by (auto simp: nt_fec_processor_decode_def)
qed

section \<open>The handlers keep the invariant\<close>

text \<open>A datagram never fills more than the space offered for it.\<close>

definition recv_bounded :: "'w kernel \<Rightarrow> bool" where
  "recv_bounded k \<longleftrightarrow> (\<forall>fd n w d src w'. recvfrom k fd n w = (Inr (d, src), w') \<longrightarrow> length d \<le> n)"

lemma udp_recvfrom_cases:
  assumes "recv_bounded k" "length buf = len"
  obtains (error) e w' where "udp_recvfrom k udp buf len w = Some (Inl e, w')"
  | (data) d src w' where "recvfrom k (udp_fd udp) len w = (Inr (d, src), w')" "length d \<le> len"
      "udp_recvfrom k udp buf len w = Some (Inr (length d, d @ drop (length d) buf, src), w')"
proof -
  obtain r w' where r: "recvfrom k (udp_fd udp) len w = (r, w')" by fastforce
  show ?thesis
  proof (cases r)
    case (Inl e)
    then show ?thesis using error r assms(2) by (simp add: udp_recvfrom_def)
  next
    case (Inr x)
    obtain d src where x: "x = (d, src)" by fastforce
    have "length d \<le> len" using assms(1) r Inr x unfolding recv_bounded_def by blast
    then show ?thesis using data r Inr x assms(2) by (simp add: udp_recvfrom_def fill_def)
  qed
qed

lemma api_header_fields:
  "(nt_api_header_bytes h @ rest) ! 0 = a1_tag h" "field 17 2 (nt_api_header_bytes h @ rest) = a1_payload_size_n h"
  by (simp_all add: nt_api_header_bytes_def field_def word_of_bytes_of nth_append)

lemma api2_header_fields:
  assumes "length (a2_reserved h) = 7"
  shows "(nt_api2_header_bytes h @ rest) ! 0 = a2_tag h" "(nt_api2_header_bytes h @ rest) ! 17 = a2_encrypt_type h"
    "field 19 2 (nt_api2_header_bytes h @ rest) = a2_payload_size_n h"
  using assms by (simp_all add: nt_api2_header_bytes_def field_def word_of_bytes_of nth_append)

lemma v1_messageI: "19 \<le> n \<Longrightarrow> n \<le> length m \<Longrightarrow> m ! 0 = NT_API_TAG \<Longrightarrow> n = 19 + unat (ntohs (field 17 2 m)) \<Longrightarrow> v1_message (take n m)"
  unfolding v1_message_def by (subst field_take) auto

lemma v2_messageI:
  "28 \<le> n \<Longrightarrow> n \<le> length m \<Longrightarrow> m ! 0 = NT_API2_TAG \<Longrightarrow> m ! 17 < NT_ENCRYPT_TYPE_NUM \<Longrightarrow> n = 28 + unat (ntohs (field 19 2 m)) \<Longrightarrow> v2_message (take n m)"
  unfolding v2_message_def by (subst field_take) auto

lemma accept_message_spec:
  assumes buf: "28 \<le> length buf" "received \<le> length buf"
  shows "accept_message buf received src = Some None \<or>
    (\<exists>v1 buf'. accept_message buf received src = Some (Some (v1, buf')) \<and> length buf' = length buf \<and> api_buffer (length buf) buf')"
proof -
  have v1: "nt_api_header_is_valid buf = Some (buf ! 0 = NT_API_TAG)" using buf(1) by (cases buf) (simp_all add: nt_api_header_is_valid_def rd_def)
  have v2: "nt_api2_header_is_valid buf = Some (buf ! 0 = NT_API2_TAG \<and> buf ! 17 < NT_ENCRYPT_TYPE_NUM)"
    using buf(1) by (cases buf) (simp_all add: nt_api2_header_is_valid_def rd_def NT_ENCRYPT_TYPE_NONE_def)
  obtain h where h: "nt_api_header_at buf = Some h" "a1_tag h = buf ! 0" using buf(1) by (simp add: nt_api_header_at_def nt_api_header_size_def)
  obtain g where g: "nt_api2_header_at buf = Some g" "a2_tag g = buf ! 0" "a2_encrypt_type g = buf ! 17" "length (a2_reserved g) = 7"
    using buf(1) by (simp add: nt_api2_header_at_def nt_api2_header_size_def)
  let ?h = "h\<lparr>a1_src_ip := address_get_addr4 src, a1_src_port := address_get_port src\<rparr>"
  let ?g = "g\<lparr>a2_src_ip := address_get_addr4 src, a2_src_port := address_get_port src\<rparr>"
  let ?m1 = "nt_api_header_bytes ?h @ drop 19 buf" and ?m2 = "nt_api2_header_bytes ?g @ drop 28 buf"
  have "length ?m1 = length buf" "length ?m2 = length buf" using buf(1) g(4) by (simp_all add: header_lengths length_nt_api2_header_bytes)
  moreover have "v1_message (take received ?m1)" if "buf ! 0 = NT_API_TAG" "nt_api_message_size h = received"
    using that h(2) buf calculation(1) api_header_fields [of ?h "drop 19 buf"]
    by (intro v1_messageI) (simp_all add: nt_api_message_size_def header_lengths nt_api_header_payload_size_def)
  moreover have "v2_message (take received ?m2)" if "buf ! 0 = NT_API2_TAG" "buf ! 17 < NT_ENCRYPT_TYPE_NUM" "nt_api2_message_size g = received"
    using that g buf calculation(2) api2_header_fields [of ?g "drop 28 buf"]
    by (intro v2_messageI) (simp_all add: nt_api2_message_size_def header_lengths nt_api2_header_payload_size_def)
  ultimately show ?thesis
    using buf v1 v2 h(1) g(1) unfolding accept_message_def api_buffer_def
    by (auto simp: Let_def header_lengths intro!: exI [of _ received])
qed

lemma choose_encoder_spec:
  assumes "cx_processors c" "context_ok c (length ps)" "\<forall>p \<in> set ps. worker_ok q (encoder p)"
  shows "\<exists>i c'. choose_encoder c ps = Some (i, c') \<and> i < length ps \<and> context_ok c' (length ps)"
proof -
  have c: "processor_num c = int (length ps)" "0 \<le> last_processor c" "last_processor c < int (length ps)" "length ps < 2 ^ 31"
    using assms(1,2) by (simp_all add: context_ok_def)
  let ?p = "ps ! nat (last_processor c)"
  have i: "nat (last_processor c) < length ps" using c by linarith
  then have "worker_ok q (encoder ?p)" using assms(3) by simp
  then have n: "worker_message_count (encoder ?p) = Some (length (pending (encoder ?p)))"
    using conq.size_law [of "w_mq (encoder ?p)"] by (simp add: worker_message_count_def worker_ok_def pending_def)
  have p: "rdi ps (last_processor c) = Some ?p" using c(2) i by (simp add: rdi_def rd_def)
  let ?j = "(last_processor c + 1) mod int (length ps)"
  have "0 < int (length ps)" using c by linarith
  then have j: "0 \<le> ?j" "?j < int (length ps)" by (rule pos_mod_sign, rule pos_mod_bound)
  then have "nat ?j < length ps" by linarith
  moreover have "ps \<noteq> []" using i by auto
  ultimately show ?thesis using n p c i j by (auto simp: choose_encoder_def Let_def context_ok_def)
qed

lemma dispatch_encoder_settles:
  assumes h: "holding cap q ok encoder b st" and b: "ok (st_mem st b)"
  shows "\<exists>st'. dispatch_encoder b st = Some st' \<and>
    settled cap q ok encoder (\<lambda>p. (np_dispatcher p, decoder p, distributor p, api_udp p, tun_udp p, np_fec p, fec_state p, encryptor p)) b st st'"
    (is "\<exists>st'. _ \<and> ?settled st st'")
proof (cases "cx_processors (st_context st)")
  case False
  then show ?thesis using cleanup_settles [OF h] by (simp add: dispatch_encoder_def)
next
  case True
  have ok: "context_ok (st_context st) (length (st_processors st))" "\<forall>p \<in> set (st_processors st). worker_ok q (encoder p)"
    using h by (simp_all add: holding_def listener_ok_def)
  obtain i c where c: "choose_encoder (st_context st) (st_processors st) = Some (i, c)" "i < length (st_processors st)" "context_ok c (length (st_processors st))"
    using choose_encoder_spec [OF True ok] by blast
  let ?st = "st\<lparr>st_context := c\<rparr>"
  have h1: "holding cap q ok encoder b ?st" by (rule holding_context [OF h c(3)])
  obtain p' taken where s: "nt_fec_processor_encode (st_processors st ! i) b = Some (taken, p')"
    "taken \<Longrightarrow> ?settled ?st (?st\<lparr>st_processors := (st_processors st)[i := p']\<rparr>)"
    "\<not> taken \<Longrightarrow> holding cap q ok encoder b (?st\<lparr>st_processors := (st_processors st)[i := p']\<rparr>)"
    "\<And>st'. \<not> taken \<Longrightarrow> ?settled (?st\<lparr>st_processors := (st_processors st)[i := p']\<rparr>) st' \<Longrightarrow> ?settled ?st st'"
    using enc.send_settles [OF h1, of i] c(2) b by auto
  let ?st2 = "?st\<lparr>st_processors := (st_processors st)[i := p']\<rparr>"
  have run: "dispatch_encoder b st = (if taken then Some ?st2 else do { st \<leftarrow> count_up COUNTER_ENCODER_BUSY 1 ?st2; cleanup b st })"
    using True c(1,2) s(1) by (simp add: dispatch_encoder_def rd_in wr_in Let_def)
  show ?thesis
  proof (cases taken)
    case True
    then show ?thesis using run s(2) by (simp add: settled_context)
  next
    case False
    then obtain st' where "do { st \<leftarrow> count_up COUNTER_ENCODER_BUSY 1 ?st2; cleanup b st } = Some st'" "?settled ?st2 st'"
      using recv_failure_settles [OF s(3), of COUNTER_ENCODER_BUSY] by (auto simp: recv_failure_def)
    then show ?thesis using run s(4) [OF False] False by (auto simp: settled_context)
  qed
qed

lemma dispatch_decoder_settles:
  assumes h: "holding cap q tun_buffer decoder b st" and hd: "nt_fec_header_at (st_mem st b) = Some header"
    and sz: "38 \<le> length (st_mem st b)" "nt_fec_message_size header \<le> length (st_mem st b)"
  shows "\<exists>buf st'. length buf = max_buffer_size (st_listener st) \<and> dispatch_decoder b header st = Some st' \<and>
    settled cap q tun_buffer decoder (\<lambda>p. (np_dispatcher p, encoder p, distributor p, api_udp p, tun_udp p, np_fec p, fec_state p, encryptor p)) b
      (st\<lparr>st_mem := (st_mem st)(b := buf)\<rparr>) st'"
    (is "\<exists>buf st'. _ \<and> _ \<and> ?settled (?upd buf) st'")
proof (cases "cx_processors (st_context st)")
  case False
  have "length (st_mem st b) = max_buffer_size (st_listener st)" using h by (simp add: holding_def)
  moreover obtain st' where "recv_failure COUNTER_TUN_RECEIVE_ERROR b st = Some st'" "?settled st st'"
    using recv_failure_settles [OF h, of COUNTER_TUN_RECEIVE_ERROR] by auto
  ultimately show ?thesis using False by (intro exI [of _ "st_mem st b"] exI [of _ st']) (simp add: dispatch_decoder_def)
next
  case True
  let ?n = "length (st_processors st)" let ?num = "word_of_int (processor_num (st_context st)) :: u32"
  have c: "processor_num (st_context st) = int ?n" "0 < ?n" "?n < 2 ^ 31" using h True by (auto simp: holding_def listener_ok_def context_ok_def)
  then have num: "unat ?num = ?n" by (simp add: unat_of_nat)
  then have nz: "?num \<noteq> 0" using c(2) by auto
  define B where "B = nt_fec_header_block_id header"
  let ?i = "unat (B mod ?num)"
  have i: "?i < ?n" using num c(2) by (simp add: unat_mod_distrib)
  let ?hd = "nt_fec_header_set_block_id header (B div ?num)"
  define buf where "buf = nt_fec_header_bytes ?hd @ drop nt_fec_header_size (st_mem st b)"
  define st1 where "st1 = ?upd buf"
  have st1: "st_processors st1 = st_processors st" "st_mem st1 b = buf" by (simp_all add: st1_def)
  have len: "length buf = length (st_mem st b)" using sz by (simp add: buf_def nt_fec_header_size_def)
  then have h1: "holding cap q tun_buffer decoder b st1" unfolding st1_def using h by (intro holding_mem) (simp_all add: holding_def)
  have "nt_fec_message_size ?hd = nt_fec_message_size header"
    by (simp add: nt_fec_message_size_def nt_fec_header_payload_size_def nt_fec_header_set_block_id_def)
  moreover have "nt_fec_header_at buf = Some ?hd" by (simp add: buf_def)
  ultimately have ok: "tun_buffer (st_mem st1 b)" using sz len by (simp add: tun_buffer_def st1(2))
  obtain p' taken where s: "nt_fec_processor_decode (st_processors st ! ?i) b = Some (taken, p')"
    "taken \<Longrightarrow> ?settled st1 (st1\<lparr>st_processors := (st_processors st)[?i := p']\<rparr>)"
    "\<not> taken \<Longrightarrow> holding cap q tun_buffer decoder b (st1\<lparr>st_processors := (st_processors st)[?i := p']\<rparr>)"
    "\<And>st'. \<not> taken \<Longrightarrow> ?settled (st1\<lparr>st_processors := (st_processors st)[?i := p']\<rparr>) st' \<Longrightarrow> ?settled st1 st'"
    using dec.send_settles [OF h1 _ ok, of ?i] i unfolding st1(1) by blast
  let ?st2 = "st1\<lparr>st_processors := (st_processors st)[?i := p']\<rparr>"
  have run: "dispatch_decoder b header st = (if taken then Some ?st2 else do { st \<leftarrow> count_up COUNTER_DECODER_BUSY 1 ?st2; cleanup b st })"
    using True nz i s(1) unfolding B_def st1_def buf_def by (simp add: dispatch_decoder_def rd_in wr_in Let_def)
  have "\<exists>st'. dispatch_decoder b header st = Some st' \<and> ?settled st1 st'"
  proof (cases taken)
    case True
    then show ?thesis using run s(2) by simp
  next
    case False
    then obtain st' where "do { st \<leftarrow> count_up COUNTER_DECODER_BUSY 1 ?st2; cleanup b st } = Some st'" "?settled ?st2 st'"
      using recv_failure_settles [OF s(3), of COUNTER_DECODER_BUSY] by (auto simp: recv_failure_def)
    then show ?thesis using run s(4) [OF False] False by auto
  qed
  moreover have "length buf = max_buffer_size (st_listener st)" using len h by (simp add: holding_def)
  ultimately show ?thesis unfolding st1_def by blast
qed

text \<open>
  What one call of a handler keeps: the invariant, the set of buffers the listener is responsible for, memory
  that belongs to others, and the processors up to the queue it feeds.
\<close>

definition keeps ::
    "nat \<Rightarrow> nat \<Rightarrow> (u8 list \<Rightarrow> bool) \<Rightarrow> (('s, 'w) nt_fec_processor_t \<Rightarrow> (nat, unit) worker_t) \<Rightarrow> (('s, 'w) nt_fec_processor_t \<Rightarrow> 'r) \<Rightarrow>
     ('h, 's, 'w) state \<Rightarrow> ('h, 's, 'w) state \<Rightarrow> bool" where
  "keeps cap q ok sel rest st st' \<longleftrightarrow> listener_ok cap q ok sel st' \<and> mset (owned sel st') = mset (owned sel st) \<and>
     map rest (st_processors st') = map rest (st_processors st) \<and>
     max_buffer_size (st_listener st') = max_buffer_size (st_listener st) \<and> (\<forall>x. x \<notin> set (owned sel st) \<longrightarrow> st_mem st' x = st_mem st x)"

text \<open>The handler has taken \<open>b\<close> from the pool of \<open>st\<close> and touched nothing else but the counters and the buffer.\<close>

definition carries ::
    "nat \<Rightarrow> nat \<Rightarrow> (u8 list \<Rightarrow> bool) \<Rightarrow> (('s, 'w) nt_fec_processor_t \<Rightarrow> (nat, unit) worker_t) \<Rightarrow> nat \<Rightarrow>
     ('h, 's, 'w) state \<Rightarrow> ('h, 's, 'w) state \<Rightarrow> bool" where
  "carries cap q ok sel b st st1 \<longleftrightarrow> holding cap q ok sel b st1 \<and> free_buffers st = b # free_buffers st1 \<and>
     st_processors st1 = st_processors st \<and> max_buffer_size (st_listener st1) = max_buffer_size (st_listener st) \<and>
     (\<forall>x. x \<noteq> b \<longrightarrow> st_mem st1 x = st_mem st x)"

lemma carries_settled: "carries cap q ok sel b st st1 \<Longrightarrow> settled cap q ok sel rest b st1 st' \<Longrightarrow> keeps cap q ok sel rest st st'"
  by (auto simp: carries_def settled_def keeps_def)

lemma carries_world: "carries cap q ok sel b st st1 \<Longrightarrow> carries cap q ok sel b st (st1\<lparr>st_world := (fst (st_world st1), w)\<rparr>)"
  by (auto simp: carries_def holding_world)

lemma carries_mem:
  "carries cap q ok sel b st st1 \<Longrightarrow> length buf = max_buffer_size (st_listener st) \<Longrightarrow> carries cap q ok sel b st (st1\<lparr>st_mem := (st_mem st1)(b := buf)\<rparr>)"
  by (auto simp: carries_def holding_mem)

lemma carries_count:
  assumes "carries cap q ok sel b st st1" "name \<in> set nt_counter_names"
  shows "\<exists>st2. count_up name n st1 = Some st2 \<and> carries cap q ok sel b st st2 \<and> st_mem st2 = st_mem st1"
proof -
  have "holding cap q ok sel b st1" using assms(1) by (simp add: carries_def)
  from count_holding [OF this assms(2), of n] show ?thesis using assms(1) by (auto simp: carries_def)
qed

lemma carries_failure:
  assumes "carries cap q ok sel b st st1" "name \<in> set nt_counter_names"
  shows "\<exists>st'. recv_failure name b st1 = Some st' \<and> keeps cap q ok sel rest st st'"
proof -
  have "holding cap q ok sel b st1" using assms(1) by (simp add: carries_def)
  from recv_failure_settles [OF this assms(2), of rest] show ?thesis using carries_settled [OF assms(1)] by blast
qed

lemma keeps_idle:
  assumes "listener_ok cap q ok sel st" "li_pool (st_listener st) = Some p"
  shows "keeps cap q ok sel rest st (st\<lparr>st_listener := (st_listener st)\<lparr>li_pool := Some p\<rparr>\<rparr>)"
proof -
  have "st\<lparr>st_listener := (st_listener st)\<lparr>li_pool := Some p\<rparr>\<rparr> = st" using assms(2) by (cases st; cases "st_listener st") simp
  then show ?thesis using assms(1) by (simp add: keeps_def)
qed

abbreviation but_encoder :: "('s, 'w) nt_fec_processor_t \<Rightarrow> _" where
  "but_encoder \<equiv> \<lambda>p. (np_dispatcher p, decoder p, distributor p, api_udp p, tun_udp p, np_fec p, fec_state p, encryptor p)"

abbreviation but_decoder :: "('s, 'w) nt_fec_processor_t \<Rightarrow> _" where
  "but_decoder \<equiv> \<lambda>p. (np_dispatcher p, encoder p, distributor p, api_udp p, tun_udp p, np_fec p, fec_state p, encryptor p)"

lemma api_received_keeps:
  assumes c1: "carries cap q (api_buffer (length (st_mem st1 b))) encoder b st st1" and d: "d \<le> length (st_mem st1 b)" and sz: "28 \<le> length (st_mem st1 b)"
  shows "\<exists>st'. api_received b d src st1 = Some st' \<and> keeps cap q (api_buffer (length (st_mem st1 b))) encoder but_encoder st st'"
proof -
  let ?ok = "api_buffer (length (st_mem st1 b))"
  have len: "length (st_mem st1 b) = max_buffer_size (st_listener st)" using c1 by (simp add: carries_def holding_def)
  consider "accept_message (st_mem st1 b) d src = Some None"
    | v1 buf' where "accept_message (st_mem st1 b) d src = Some (Some (v1, buf'))" "length buf' = length (st_mem st1 b)" "?ok buf'"
    using accept_message_spec [OF sz d, of src] by blast
  then show ?thesis
  proof cases
    case 1
    then show ?thesis using carries_failure [OF c1, of COUNTER_API_RECEIVE_ERROR but_encoder] by (simp add: api_received_def)
  next
    case 2
    define st2 where "st2 = st1\<lparr>st_mem := (st_mem st1)(b := buf')\<rparr>"
    have c2: "carries cap q ?ok encoder b st st2" unfolding st2_def using 2(2) len by (intro carries_mem [OF c1]) simp
    obtain st3 where s3: "(if v1 then count_up COUNTER_API_RECEIVED_V1 1 st2 else Some st2) = Some st3" "carries cap q ?ok encoder b st st3" "st_mem st3 = st_mem st2"
      using carries_count [OF c2, of COUNTER_API_RECEIVED_V1 1] c2 by (cases v1) auto
    obtain st4 where s4: "count_up COUNTER_API_RECEIVED 1 st3 = Some st4" "carries cap q ?ok encoder b st st4" "st_mem st4 = st_mem st3"
      using carries_count [OF s3(2), of COUNTER_API_RECEIVED 1] by auto
    obtain st5 where s5: "count_up COUNTER_API_RECEIVED_BYTES (int d) st4 = Some st5" "carries cap q ?ok encoder b st st5" "st_mem st5 = st_mem st4"
      using carries_count [OF s4(2), of COUNTER_API_RECEIVED_BYTES "int d"] by auto
    have "?ok (st_mem st5 b)" using s3(3) s4(3) s5(3) 2(3) by (simp add: st2_def)
    then obtain st' where "dispatch_encoder b st5 = Some st'" "settled cap q ?ok encoder but_encoder b st5 st'"
      using dispatch_encoder_settles [of cap q ?ok b st5] s5(2) by (auto simp: carries_def)
    moreover have "api_received b d src st1 = dispatch_encoder b st5"
      using 2(1) s3(1) s4(1) s5(1) by (cases v1) (simp_all add: api_received_def st2_def [symmetric] Let_def)
    ultimately show ?thesis using carries_settled [OF s5(2)] by auto
  qed
qed

lemma tun_received_keeps:
  assumes c1: "carries cap q tun_buffer decoder b st st1" and d: "d \<le> length (st_mem st1 b)" and sz: "38 \<le> length (st_mem st1 b)"
  shows "\<exists>st'. tun_received b d st1 = Some st' \<and> keeps cap q tun_buffer decoder but_decoder st st'"
proof -
  obtain header where hd: "nt_fec_header_at (st_mem st1 b) = Some header" using sz by (simp add: nt_fec_header_at_def nt_fec_header_size_def)
  show ?thesis
  proof (cases "nt_fec_message_size header = d")
    case False
    then show ?thesis using hd carries_failure [OF c1, of COUNTER_TUN_RECEIVE_ERROR but_decoder] by (simp add: tun_received_def)
  next
    case True
    obtain st2 where s2: "count_up COUNTER_TUN_RECEIVED 1 st1 = Some st2" "carries cap q tun_buffer decoder b st st2" "st_mem st2 = st_mem st1"
      using carries_count [OF c1, of COUNTER_TUN_RECEIVED 1] by auto
    obtain st3 where s3: "count_up COUNTER_TUN_RECEIVED_BYTES (int d) st2 = Some st3" "carries cap q tun_buffer decoder b st st3" "st_mem st3 = st_mem st2"
      using carries_count [OF s2(2), of COUNTER_TUN_RECEIVED_BYTES "int d"] by auto
    have h: "holding cap q tun_buffer decoder b st3" using s3(2) by (simp add: carries_def)
    have "nt_fec_header_at (st_mem st3 b) = Some header" "38 \<le> length (st_mem st3 b)" "nt_fec_message_size header \<le> length (st_mem st3 b)"
      using s2(3) s3(3) hd sz d True by simp_all
    then obtain buf' st' where "length buf' = max_buffer_size (st_listener st3)" "dispatch_decoder b header st3 = Some st'"
      "settled cap q tun_buffer decoder but_decoder b (st3\<lparr>st_mem := (st_mem st3)(b := buf')\<rparr>) st'"
      using dispatch_decoder_settles [OF h] by blast
    moreover from this have "keeps cap q tun_buffer decoder but_decoder st st'"
      using carries_mem [OF s3(2), of buf'] s3(2) by (intro carries_settled) (auto simp: carries_def)
    ultimately show ?thesis using True s2(1) s3(1) hd by (simp add: tun_received_def)
  qed
qed

text \<open>The part that the two handlers have in common: an error, or a full buffer for the rest of the handler.\<close>

lemma receive_cases:
  assumes k: "recv_bounded k" and ok: "listener_ok cap q ok sel st" and p: "li_pool (st_listener st) = Some p"
  obtains (empty) "pool_new p = Some (None, p)"
  | (error) b p' e w' where "pool_new p = Some (Some b, p')"
      "udp_recvfrom k udp (st_mem st b) (max_buffer_size (st_listener st)) (snd (st_world st)) = Some (Inl e, w')"
      "carries cap q ok sel b st (st\<lparr>st_listener := (st_listener st)\<lparr>li_pool := Some p'\<rparr>, st_world := (fst (st_world st), w')\<rparr>)"
  | (data) b p' d buf src w' where "pool_new p = Some (Some b, p')"
      "udp_recvfrom k udp (st_mem st b) (max_buffer_size (st_listener st)) (snd (st_world st)) = Some (Inr (d, buf, src), w')"
      "carries cap q ok sel b st (st\<lparr>st_listener := (st_listener st)\<lparr>li_pool := Some p'\<rparr>, st_world := (fst (st_world st), w'), st_mem := (st_mem st)(b := buf)\<rparr>)"
      "length buf = max_buffer_size (st_listener st)" "d \<le> length buf"
  using ok p
proof (cases rule: take_buffer)
  case empty
  then show ?thesis using that(1) by blast
next
  case (got b p')
  let ?st0 = "st\<lparr>st_listener := (st_listener st)\<lparr>li_pool := Some p'\<rparr>\<rparr>"
  have c0: "carries cap q ok sel b st ?st0" using got(2,3) by (simp add: carries_def)
  have mem: "length (st_mem st b) = max_buffer_size (st_listener st)" using got(3) by (simp add: holding_def)
  from k mem show ?thesis
  proof (cases rule: udp_recvfrom_cases [of k "st_mem st b" _ udp "snd (st_world st)"])
    case (error e w')
    then show ?thesis using that(2) [OF got(1) error] carries_world [OF c0, of w'] by simp
  next
    case (data d src w')
    let ?buf = "d @ drop (length d) (st_mem st b)"
    have len: "length ?buf = max_buffer_size (st_listener st)" using data(2) mem by simp
    show ?thesis using that(3) [OF got(1) data(3) _ len] carries_mem [OF carries_world [OF c0, of w'] len] by simp
  qed
qed

lemma api_read_keeps:
  assumes k: "recv_bounded k" and ok: "listener_ok cap q (api_buffer (max_buffer_size (st_listener st))) encoder st" and sz: "28 \<le> max_buffer_size (st_listener st)"
  shows "\<exists>st'. nt_api_handle_read k udp st = Some st' \<and> keeps cap q (api_buffer (max_buffer_size (st_listener st))) encoder but_encoder st st'"
proof -
  obtain p where p: "li_pool (st_listener st) = Some p" using ok by (auto simp: listener_ok_def)
  from k ok p show ?thesis
  proof (cases rule: receive_cases [where udp = udp])
    case empty
    then show ?thesis using keeps_idle [OF ok p, of but_encoder] p by (simp add: nt_api_handle_read_def)
  next
    case (error b p' e w')
    then show ?thesis using carries_failure [OF error(3), of COUNTER_API_RECEIVE_ERROR but_encoder] p by (simp add: nt_api_handle_read_def Let_def)
  next
    case (data b p' d buf src w')
    define st1 where "st1 = st\<lparr>st_listener := (st_listener st)\<lparr>li_pool := Some p'\<rparr>, st_world := (fst (st_world st), w'), st_mem := (st_mem st)(b := buf)\<rparr>"
    have "nt_api_handle_read k udp st = api_received b d src st1" using p data(1,2) by (simp add: nt_api_handle_read_def Let_def st1_def)
    moreover have "st_mem st1 b = buf" by (simp add: st1_def)
    ultimately show ?thesis using api_received_keeps [of cap q st1 b st d src] data(3-5) sz by (simp add: st1_def [symmetric])
  qed
qed

lemma tun_read_keeps:
  assumes k: "recv_bounded k" and ok: "listener_ok cap q tun_buffer decoder st" and sz: "38 \<le> max_buffer_size (st_listener st)"
  shows "\<exists>st'. nt_tun_handle_read k udp st = Some st' \<and> keeps cap q tun_buffer decoder but_decoder st st'"
proof -
  obtain p where p: "li_pool (st_listener st) = Some p" using ok by (auto simp: listener_ok_def)
  from k ok p show ?thesis
  proof (cases rule: receive_cases [where udp = udp])
    case empty
    then show ?thesis using keeps_idle [OF ok p, of but_decoder] p by (simp add: nt_tun_handle_read_def)
  next
    case (error b p' e w')
    then show ?thesis using carries_failure [OF error(3), of COUNTER_TUN_RECEIVE_ERROR but_decoder] p by (simp add: nt_tun_handle_read_def Let_def)
  next
    case (data b p' d buf src w')
    define st1 where "st1 = st\<lparr>st_listener := (st_listener st)\<lparr>li_pool := Some p'\<rparr>, st_world := (fst (st_world st), w'), st_mem := (st_mem st)(b := buf)\<rparr>"
    have "nt_tun_handle_read k udp st = tun_received b d st1" using p data(1,2) by (simp add: nt_tun_handle_read_def Let_def st1_def)
    moreover have "st_mem st1 b = buf" by (simp add: st1_def)
    ultimately show ?thesis using tun_received_keeps [of cap q b st st1 d] data(3-5) sz by (simp add: st1_def [symmetric])
  qed
qed

section \<open>Setting up\<close>

lemma listener_init_ok:
  assumes "0 < cap" "cap < 2 ^ 31" "inj_on alloc {..<cap}" "0 \<le> fst ep" "fst add = 0"
  shows "\<exists>l p. nt_listener_init ep add mem alloc heap cb self udp cap sz extra h = Some (Inr l) \<and> li_pool l = Some p \<and> pool_ok cap p \<and>
    pool_list p = map alloc [0..<cap] \<and> max_buffer_size l = sz"
  using assms pool_init_ok [OF assms(2), of mem alloc sz]
  by (auto simp: nt_listener_init_def dispatcher_init1_def dispatcher_init_def dispatcher_add_udp_def dispatcher_add_handler_def Let_def)

lemma in_flight_empty: "\<forall>p \<in> set ps. pending (sel p) = [] \<Longrightarrow> in_flight sel ps = []"
  by (simp add: in_flight_def)

lemma fresh_listener_ok:
  assumes l: "li_pool l = Some p" "pool_ok cap p" "pool_list p = map alloc [0..<cap]" "inj_on alloc {..<cap}"
    and ps: "\<forall>p \<in> set ps. worker_ok q (sel p) \<and> pending (sel p) = []" and perf: "nt_perf perf" and c: "context_ok c (length ps)"
    and mem: "\<forall>i < cap. length (mem (alloc i + pool_header)) = max_buffer_size l"
  shows "listener_ok cap q ok sel \<lparr>st_listener = l, st_context = c, st_processors = ps, st_mem = mem, st_world = (perf, w)\<rparr>"
proof -
  have "in_flight sel ps = []" using ps by (simp add: in_flight_empty)
  moreover have "distinct (map (\<lambda>i. alloc i + pool_header) [0..<cap])" using l(4) by (auto simp: distinct_map inj_on_def)
  ultimately show ?thesis using assms by (auto simp: listener_ok_def free_buffers_def comp_def simp del: length_queue_list)
qed

section \<open>Properties\<close>

text \<open>
  C6. Every buffer has exactly one owner. From every state in which the pool and the queues are well-formed and
  each buffer is either free or waits in one queue, one call of \<open>nt_api_handle_read\<close> or \<open>nt_tun_handle_read\<close>,
  whatever the kernel delivers, returns (no \<open>ensure\<close> fails) and leads to such a state again with the same
  buffers: none is lost, none handed on twice. A buffer handed to an encoder holds a complete message with a
  valid header, one handed to a decoder a packet of the size its header states, which is what the
  workers rely on; nothing else in memory or in the processors changes.
\<close>

theorem listeners_keep_buffers:
  assumes "recv_bounded k"
    and "listener_ok cap q (api_buffer (max_buffer_size (st_listener st))) encoder st" "28 \<le> max_buffer_size (st_listener st)"
    and "listener_ok cap' q' tun_buffer decoder stt" "38 \<le> max_buffer_size (st_listener stt)"
  shows "(\<exists>st'. nt_api_handle_read k udp st = Some st' \<and> keeps cap q (api_buffer (max_buffer_size (st_listener st))) encoder but_encoder st st') \<and>
    (\<exists>st'. nt_tun_handle_read k udp' stt = Some st' \<and> keeps cap' q' tun_buffer decoder but_decoder stt st')"
  using api_read_keeps [OF assms(1-3)] tun_read_keeps [OF assms(1,4,5)] by (rule conjI)

lemma loopback_bounded [simp]: "recv_bounded (loopback a)"
  by (auto simp: recv_bounded_def loopback_def split: list.splits)

definition listen_example :: "nat \<Rightarrow> (int + unit nt_listener_t) option" where
  "listen_example sz = nt_listener_init (6, 0) (0, 0) id far_apart (\<lambda>_. some_timer) 0 0 \<lparr>udp_fd = 7\<rparr> 3 sz 0 (Some ())"

theorem listeners_keep_buffers_witness:
  "\<exists>l p perf st'. listen_example 40 = Some (Inr l) \<and> init_example nt_dummy_fec_init () = Some (Inr p) \<and>
    perf_init some_counter (\<lambda>_. 5) nt_counter_names nt_counter_num = Some perf \<and>
    nt_api_handle_read (loopback (Addr_in 9 9)) \<lparr>udp_fd = 7\<rparr> \<lparr>st_listener = l, st_context = nt_fec_listener_context_init True 1 None,
      st_processors = [p], st_mem = (\<lambda>_. replicate 40 0), st_world = (perf, [nt_api_header_bytes (nt_api_header_init 1 2 3 4 5 2) @ [6, 7]])\<rparr> = Some st' \<and>
    mset (owned encoder st') = {#8, 1008, 2008#}"
proof -
  obtain l pl where l: "listen_example 40 = Some (Inr l)" "li_pool l = Some pl" "pool_ok 3 pl" "pool_list pl = map far_apart [0..<3]" "max_buffer_size l = 40"
    using listener_init_ok [of 3 far_apart "(6, 0)" "(0, 0)" id "\<lambda>_. some_timer" 0 0 "\<lparr>udp_fd = 7\<rparr>" 40 0 "Some ()"] by (auto simp: listen_example_def)
  obtain p where p: "init_example nt_dummy_fec_init () = Some (Inr p)" "worker_ok 4 (encoder p)" "pending (encoder p) = []"
    "worker_ok 4 (decoder p)" "pending (decoder p) = []" using init_example_ok [of nt_dummy_fec_init "()"] by auto
  obtain perf where perf: "perf_init some_counter (\<lambda>_. 5) nt_counter_names nt_counter_num = Some perf" "nt_perf perf"
    using nt_perf_init [of some_counter "\<lambda>_. 5"] by auto
  let ?w = "[nt_api_header_bytes (nt_api_header_init 1 2 3 4 5 2) @ [6, 7]]"
  let ?st = "\<lparr>st_listener = l, st_context = nt_fec_listener_context_init True 1 None, st_processors = [p], st_mem = (\<lambda>_. replicate 40 0), st_world = (perf, ?w)\<rparr>"
  have c: "context_ok (nt_fec_listener_context_init True 1 None) (length [p])" by (simp add: context_ok_def nt_fec_listener_context_init_def)
  have ok: "listener_ok 3 4 (api_buffer 40) encoder ?st" "listener_ok 3 4 tun_buffer decoder ?st"
    using p(2-5) perf(2) l(5) by (auto intro!: fresh_listener_ok [OF l(2-4)] c)
  obtain st' where st': "nt_api_handle_read (loopback (Addr_in 9 9)) \<lparr>udp_fd = 7\<rparr> ?st = Some st'" "keeps 3 4 (api_buffer 40) encoder but_encoder ?st st'"
    using listeners_keep_buffers [of "loopback (Addr_in 9 9)" 3 4 ?st 3 4 ?st "\<lparr>udp_fd = 7\<rparr>" "\<lparr>udp_fd = 7\<rparr>"] ok l(5) by auto
  have "free_buffers ?st = [8, 1008, 2008]" using l(2,4) by (simp add: free_buffers_def far_apart_def pool_header_def numeral_3_eq_3)
  moreover have "in_flight encoder [p] = []" using p(3) by (simp add: in_flight_def)
  ultimately have "mset (owned encoder st') = {#8, 1008, 2008#}" using st'(2) by (simp add: keeps_def)
  then show ?thesis using l(1) p(1) perf(1) st'(1)
    by (intro exI [of _ l] exI [of _ p] exI [of _ perf] exI [of _ st']) simp
qed

end
