(* ===== verification/Nt_Proxy.thy ===== *)
theory Nt_Proxy
  imports Nt_Listener
begin

text \<open>
  The transparent proxy, \<^verbatim>\<open>src/src/main/proxy/nt-proxy.c\<close>, with the virtual device of \<^verbatim>\<open>src/src/main/dispatcher/tun_tap.c\<close> and
  the set-up of sockets in \<^verbatim>\<open>src/src/main/dispatcher/udp.c\<close>. System calls are functions of the outside world that
  return a result and an error number; the calls of a function are listed with the arguments that the code passes.
\<close>

section \<open>System calls\<close>

type_synonym sysret = "int \<times> int"

record 'w syscalls =
  sys_socket :: "'w \<Rightarrow> sysret \<times> 'w"
  sys_getfl :: "int \<Rightarrow> 'w \<Rightarrow> sysret \<times> 'w"
  sys_setfl :: "int \<Rightarrow> int \<Rightarrow> 'w \<Rightarrow> sysret \<times> 'w"
  sys_setsockopt :: "int \<Rightarrow> int \<Rightarrow> 'w \<Rightarrow> sysret \<times> 'w"
  sys_bind :: "int \<Rightarrow> address_t \<Rightarrow> 'w \<Rightarrow> sysret \<times> 'w"
  sys_close :: "int \<Rightarrow> 'w \<Rightarrow> sysret \<times> 'w"
  sys_open_tun :: "'w \<Rightarrow> sysret \<times> 'w"
  sys_tunsetiff :: "int \<Rightarrow> int \<Rightarrow> u8 list \<Rightarrow> 'w \<Rightarrow> (sysret \<times> u8 list) \<times> 'w"
  sys_tunsetpersist :: "int \<Rightarrow> int \<Rightarrow> 'w \<Rightarrow> sysret \<times> 'w"

definition O_NONBLOCK :: int where "O_NONBLOCK = 2048"
definition IP_PKTINFO :: int where "IP_PKTINFO = 8"
definition IPV6_PKTINFO :: int where "IPV6_PKTINFO = 50"

definition enable_nonblock :: "'w syscalls \<Rightarrow> int \<Rightarrow> 'w \<Rightarrow> int \<times> 'w" where
  "enable_nonblock k fd w =
     (let ((flags, err), w) = sys_getfl k fd w in
      if flags < 0 then (err, w)
      else let flags = flags OR O_NONBLOCK; ((rc, err), w) = sys_setfl k fd flags w in
        if rc < 0 then (err, w) else (0, w))"

text \<open>The result is the error number or the socket.\<close>

definition udp_init :: "'w syscalls \<Rightarrow> address_t option \<Rightarrow> bool \<Rightarrow> 'w \<Rightarrow> (int + udp_t) \<times> 'w" where
  "udp_init k local_address nonblock w =
     (let ((fd, err), w) = sys_socket k w in
      if fd < 0 then (Inl err, w)
      else let (nb, w) = (if nonblock then enable_nonblock k fd w else (0, w)) in
        if nb \<noteq> 0 then (Inl nb, w)
        else let ((res1, err), w) = sys_setsockopt k fd IP_PKTINFO w; ((res2, err), w) = sys_setsockopt k fd IPV6_PKTINFO w in
          if res1 \<noteq> 0 \<and> res2 \<noteq> 0 then (Inl err, w)
          else case local_address of
              None \<Rightarrow> (Inr \<lparr>udp_fd = fd\<rparr>, w)
            | Some a \<Rightarrow> (let ((rc, err), w) = sys_bind k fd a w in if rc \<noteq> 0 then (Inl err, w) else (Inr \<lparr>udp_fd = fd\<rparr>, w)))"

definition udp_destroy :: "'w syscalls \<Rightarrow> udp_t \<Rightarrow> 'w \<Rightarrow> int \<times> 'w" where
  "udp_destroy k udp w = (let ((rc, err), w) = sys_close k (udp_fd udp) w in (if rc = 0 then 0 else err, w))"

section \<open>The virtual device\<close>

record tun_tap_t =
  tt_fd :: int
  tt_name :: "u8 list"

definition IFF_TUN :: int where "IFF_TUN = 1"
definition IFF_TAP :: int where "IFF_TAP = 2"
definition IFF_NO_PI :: int where "IFF_NO_PI = 4096"
definition TUN_TAP_NAME_SIZE :: nat where "TUN_TAP_NAME_SIZE = 16"

text \<open>\<^verbatim>\<open>strncpy\<close> pads with zeros and does not terminate a name that is too long.\<close>

definition strncpy :: "nat \<Rightarrow> u8 list \<Rightarrow> u8 list" where
  "strncpy n s = take n (takeWhile (\<lambda>c. c \<noteq> 0) s) @ replicate (n - length (takeWhile (\<lambda>c. c \<noteq> 0) s)) 0"

text \<open>The error number after a failure of \<^verbatim>\<open>ioctl\<close> is what the \<^verbatim>\<open>close\<close> that follows leaves.\<close>

definition tun_tap_init :: "'w syscalls \<Rightarrow> u8 list option \<Rightarrow> bool \<Rightarrow> bool \<Rightarrow> 'w \<Rightarrow> (int + tun_tap_t) \<times> 'w" where
  "tun_tap_init k name is_tap no_pi w =
     (let ((fd, err), w) = sys_open_tun k w in
      if fd < 0 then (Inl err, w)
      else let flags = (if is_tap then IFF_TAP else IFF_TUN);
               flags = (if no_pi then flags OR IFF_NO_PI else flags);
               ifr_name = (case name of None \<Rightarrow> replicate TUN_TAP_NAME_SIZE 0 | Some s \<Rightarrow> strncpy TUN_TAP_NAME_SIZE s);
               (((rc, err), ifr_name), w) = sys_tunsetiff k fd flags ifr_name w in
        if rc < 0 then let ((rc2, err2), w) = sys_close k fd w in (Inl (if rc2 < 0 then err2 else err), w)
        else (Inr \<lparr>tt_fd = fd, tt_name = (strncpy TUN_TAP_NAME_SIZE ifr_name)[TUN_TAP_NAME_SIZE - 1 := 0]\<rparr>, w))"

definition tun_tap_set_persist :: "'w syscalls \<Rightarrow> tun_tap_t \<Rightarrow> bool \<Rightarrow> 'w \<Rightarrow> int \<times> 'w" where
  "tun_tap_set_persist k t enable w =
     (let v = (if enable then 1 else 0); ((rc, err), w) = sys_tunsetpersist k (tt_fd t) v w in (if rc < 0 then err else 0, w))"

definition tun_tap_close :: "'w syscalls \<Rightarrow> tun_tap_t \<Rightarrow> 'w \<Rightarrow> int \<times> 'w" where
  "tun_tap_close k t w = (let ((rc, err), w) = sys_close k (tt_fd t) w in (if rc < 0 then err else 0, w))"

section \<open>The proxy\<close>

record 'h nt_proxy_t =
  px_tun_tap :: tun_tap_t
  px_udp :: udp_t
  px_tun_tap_handler :: "(nat, nat) handler_t"
  px_udp_handler :: "'h udp_handler_t"
  px_tunnel_addr :: address_t
  px_buffer_size :: int
  px_local_addr :: address_t
  px_idgen :: idgen_t

text \<open>\<open>cbs\<close> are the addresses of the two callbacks, \<open>self\<close> are those of the proxy and of its handler; \<open>h\<close> is the handler of datagrams.\<close>

definition nt_proxy_init ::
    "'w syscalls \<Rightarrow> nat \<times> nat \<Rightarrow> nat \<times> nat \<Rightarrow> 'h \<Rightarrow> u8 list option \<Rightarrow> address_t \<Rightarrow> address_t \<Rightarrow> int \<Rightarrow> 'w \<Rightarrow>
     ((int + 'h nt_proxy_t) \<times> 'w) option" where
  "nt_proxy_init k cbs self h tun_tap_name local_addr tunnel_addr bufsize w =
     (let (r, w) = tun_tap_init k tun_tap_name False False w in
      case r of
        Inl err \<Rightarrow> Some (Inl err, w)
      | Inr tun_tap \<Rightarrow>
          (let (r, w) = udp_init k (Some local_addr) False w in
           case r of
             Inl err \<Rightarrow> (let (rc, w) = tun_tap_close k tun_tap w in do { ensure (rc = 0); Some (Inl err, w) })
           | Inr udp \<Rightarrow> Some (Inr \<lparr>px_tun_tap = tun_tap, px_udp = udp,
               px_tun_tap_handler = handler_init (tt_fd tun_tap) EPOLLIN (fst cbs) (fst self),
               px_udp_handler = udp_handler_init (snd cbs) (snd self) udp (fst self) (Some h) None,
               px_tunnel_addr = tunnel_addr, px_buffer_size = bufsize, px_local_addr = local_addr, px_idgen = idgen_init 0\<rparr>, w)))"

definition nt_proxy_destroy :: "'w syscalls \<Rightarrow> 'h nt_proxy_t \<Rightarrow> 'w \<Rightarrow> int \<times> 'w" where
  "nt_proxy_destroy k p w =
     (let (err, w) = tun_tap_close k (px_tun_tap p) w in
      if err \<noteq> 0 then (err, w) else udp_destroy k (px_udp p) w)"

text \<open>The arguments are the results of the registrations and of the removal, with their error numbers.\<close>

definition dispatcher_add_nt_proxy :: "sysret \<Rightarrow> sysret \<Rightarrow> sysret \<Rightarrow> int option" where
  "dispatcher_add_nt_proxy add1 add2 remove =
     (let err = dispatcher_add_handler (fst add1) (snd add1) in
      if err \<noteq> 0 then Some err
      else let err = dispatcher_add_udp (fst add2) (snd add2) in
        if err \<noteq> 0 then do { ensure (dispatcher_remove_handler (fst remove) (snd remove) = 0); Some err }
        else Some err)"

text \<open>Reading from and writing to the device.\<close>

record 'w device =
  dev_read :: "int \<Rightarrow> nat \<Rightarrow> 'w \<Rightarrow> (int + u8 list) \<times> 'w"
  dev_write :: "int \<Rightarrow> u8 list \<Rightarrow> 'w \<Rightarrow> (int + nat) \<times> 'w"

definition TUN_PKT_STRIP :: u16 where "TUN_PKT_STRIP = 1"
definition ETH_P_IP :: u16 where "ETH_P_IP = 0x0800"
definition ETH_P_IPV6 :: u16 where "ETH_P_IPV6 = 0x86DD"

text \<open>
  The destination of the packet behind the four bytes of \<^verbatim>\<open>struct tun_pi\<close>: at offset 16 of an IPv4 header, at offset 24 of an IPv6 header.
  The first \<open>None\<close> is an access outside of the buffer, the second one an unsupported protocol.
\<close>

definition tun_peer :: "u8 list \<Rightarrow> u16 \<Rightarrow> address_t option option" where
  "tun_peer buf port =
     (let proto = field 2 2 buf in
      if proto = htons ETH_P_IP then do { ensure (24 \<le> length buf); Some (Some (address_init4 (field 20 4 buf) port)) }
      else if proto = htons ETH_P_IPV6 then do { ensure (44 \<le> length buf); Some (Some (address_init6 (take 16 (drop 28 buf)) port)) }
      else Some None)"

text \<open>The handler of the device; \<open>stack\<close> is what the buffer holds before.\<close>

definition tun_tap_handle_read ::
    "'w kernel \<Rightarrow> 'w device \<Rightarrow> (nat \<Rightarrow> u8) \<Rightarrow> int \<Rightarrow> 'h nt_proxy_t \<Rightarrow> 'w \<Rightarrow> ('h nt_proxy_t \<times> 'w) option" where
  "tun_tap_handle_read k dev stack fd p w = do {
     ensure (0 < px_buffer_size p);
     let n = nat (px_buffer_size p);
     let buf = map stack [0..<n];
     let (r, w) = dev_read dev fd n w;
     (case r of
        Inl err \<Rightarrow> None
      | Inr d \<Rightarrow> do {
          let buf = fill buf d;
          ensure (4 \<le> length buf);
          if (field 0 2 buf :: u16) AND TUN_PKT_STRIP \<noteq> 0 then Some (p, w)
          else do {
            peer \<leftarrow> tun_peer buf (address_get_port (px_local_addr p));
            (case peer of
               None \<Rightarrow> Some (p, w)
             | Some peer_addr \<Rightarrow> do {
                 let (ident, g) = idgen_next (px_idgen p);
                 (sent, w) \<leftarrow> udp_sendto_tunnel k (px_udp p) buf (length d) peer_addr ident (px_tunnel_addr p) w;
                 Some (p\<lparr>px_idgen := g\<rparr>, w)
               })
          }
        })
   }"

text \<open>The handler of the socket; \<open>hdr\<close> is the uninitialised header on the stack.\<close>

definition proxy_udp_handle_read ::
    "'w kernel \<Rightarrow> 'w device \<Rightarrow> u8 list \<Rightarrow> (nat \<Rightarrow> u8) \<Rightarrow> 'h nt_proxy_t \<Rightarrow> 'w \<Rightarrow> 'w option" where
  "proxy_udp_handle_read k dev hdr stack p w = do {
     ensure (0 < px_buffer_size p);
     let n = nat (px_buffer_size p);
     (r, w) \<leftarrow> udp_recvfrom_tunnel k (px_udp p) hdr (map stack [0..<n]) n w;
     (case r of
        Inl err \<Rightarrow> Some w
      | Inr (src_addr, ident, tunnel_addr, received, buf) \<Rightarrow> do {
          ensure (received \<le> length buf);
          let (sent, w) = dev_write dev (tt_fd (px_tun_tap p)) (take received buf) w;
          (case sent of Inl err \<Rightarrow> None | Inr _ \<Rightarrow> Some w)
        })
   }"

section \<open>A pair of proxies\<close>

text \<open>
  A world with a device to read from, a wire and a device to write to. What the tunnel does with a message on the way is
  \<open>through_tunnel\<close>: it fills in the source.
\<close>

record link =
  rx :: "u8 list list"
  wire :: "u8 list list"
  tx :: "u8 list list"

definition cable :: "address_t \<Rightarrow> link kernel" where
  "cable from =
     \<lparr>sendmsg = (\<lambda>fd m w. (Inr (length (concat (msg_iov m))), w\<lparr>wire := wire w @ [concat (msg_iov m)]\<rparr>)),
      recvmsg = (\<lambda>fd n w. case wire w of [] \<Rightarrow> (Inl 11, w) | d # ds \<Rightarrow> (Inr (take n d, from, []), w\<lparr>wire := ds\<rparr>)),
      sendto = (\<lambda>fd d a w. (Inl 1, w)), recvfrom = (\<lambda>fd n w. (Inl 1, w))\<rparr>"

definition host :: "link device" where
  "host = \<lparr>dev_read = (\<lambda>fd n w. case rx w of [] \<Rightarrow> (Inl 11, w) | d # ds \<Rightarrow> (Inr (take n d), w\<lparr>rx := ds\<rparr>)),
     dev_write = (\<lambda>fd d w. (Inr (length d), w\<lparr>tx := tx w @ [d]\<rparr>))\<rparr>"

definition through_tunnel :: "u32 \<Rightarrow> u16 \<Rightarrow> u8 list \<Rightarrow> u8 list" where
  "through_tunnel ip port m = (case nt_api_header_at m of None \<Rightarrow> m
     | Some h \<Rightarrow> nt_api_header_bytes (h\<lparr>a1_src_ip := ip, a1_src_port := port\<rparr>) @ drop nt_api_header_size m)"

text \<open>The handlers are called once for every packet.\<close>

fun pump_out :: "(nat \<Rightarrow> u8) \<Rightarrow> address_t \<Rightarrow> int \<Rightarrow> nat \<Rightarrow> 'h nt_proxy_t \<Rightarrow> link \<Rightarrow> ('h nt_proxy_t \<times> link) option" where
  "pump_out stack from fd 0 p w = Some (p, w)"
| "pump_out stack from fd (Suc n) p w = do { (p, w) \<leftarrow> tun_tap_handle_read (cable from) host stack fd p w; pump_out stack from fd n p w }"

fun pump_in :: "u8 list \<Rightarrow> (nat \<Rightarrow> u8) \<Rightarrow> address_t \<Rightarrow> nat \<Rightarrow> 'h nt_proxy_t \<Rightarrow> link \<Rightarrow> link option" where
  "pump_in hdr stack from 0 p w = Some w"
| "pump_in hdr stack from (Suc n) p w = do { w \<leftarrow> proxy_udp_handle_read (cable from) host hdr stack p w; pump_in hdr stack from n p w }"

text \<open>An IPv4 packet with the four bytes before it, of a size that both proxies can hold.\<close>

definition ipv4_packet :: "int \<Rightarrow> u8 list \<Rightarrow> bool" where
  "ipv4_packet n d \<longleftrightarrow> 24 \<le> length d \<and> int (length d) \<le> n \<and> length d < 65536 \<and> (field 0 2 d :: u16) AND TUN_PKT_STRIP = 0 \<and> field 2 2 d = htons ETH_P_IP"

definition proxy_header :: "'h nt_proxy_t \<Rightarrow> u8 list \<Rightarrow> nt_api_header_t" where
  "proxy_header p d = nt_api_header_init (idgen_id (px_idgen p)) 0 0 (field 20 4 d) (address_get_port (px_local_addr p)) (of_nat (length d))"

fun messages :: "'h nt_proxy_t \<Rightarrow> u8 list list \<Rightarrow> u8 list list" where
  "messages p [] = []"
| "messages p (d # ds) = (nt_api_header_bytes (proxy_header p d) @ d) # messages (p\<lparr>px_idgen := snd (idgen_next (px_idgen p))\<rparr>) ds"

lemma field_append: "off + k \<le> length d \<Longrightarrow> field off k (d @ e) = field off k d"
  by (simp add: field_def)

lemma handle_out:
  assumes d: "ipv4_packet (px_buffer_size p) d" and w: "rx w = d # ds"
  shows "tun_tap_handle_read (cable from) host stack fd p w =
    Some (p\<lparr>px_idgen := snd (idgen_next (px_idgen p))\<rparr>, w\<lparr>rx := ds, wire := wire w @ [nt_api_header_bytes (proxy_header p d) @ d]\<rparr>)"
proof -
  let ?n = "nat (px_buffer_size p)"
  have n: "length d \<le> ?n" "0 < px_buffer_size p" "take ?n d = d" using d by (auto simp: ipv4_packet_def)
  define buf where "buf = fill (map stack [0..<?n]) d"
  have buf: "buf = d @ drop (length d) (map stack [0..<?n])" "length buf = ?n" using n(1) by (simp_all add: buf_def fill_short)
  have f: "(field 0 2 buf :: u16) AND TUN_PKT_STRIP = 0" "field 2 2 buf = htons ETH_P_IP" "(field 20 4 buf :: u32) = field 20 4 d"
    using d unfolding buf(1) by (simp_all add: ipv4_packet_def field_append)
  have peer: "tun_peer buf q = Some (Some (Addr_in (field 20 4 d) q))" for q
    using f d n(1) buf(2) by (simp add: tun_peer_def ipv4_packet_def address_init4_def)
  have send: "udp_sendto_tunnel (cable from) (px_udp p) buf (length d) (Addr_in (field 20 4 d) (address_get_port (px_local_addr p))) (idgen_id (px_idgen p))
      (px_tunnel_addr p) (w\<lparr>rx := ds\<rparr>) = Some (Inr (nt_api_header_size + length d), w\<lparr>rx := ds, wire := wire w @ [nt_api_header_bytes (proxy_header p d) @ d]\<rparr>)"
    using n(1) buf by (simp add: udp_sendto_tunnel_def udp_send_v_def send_v_def cable_def proxy_header_def address_get_addr4_def address_get_port_def)
  have "4 \<le> ?n" using d n(1) by (simp add: ipv4_packet_def)
  then show ?thesis
    unfolding tun_tap_handle_read_def using n w f(1) peer send buf(2)
    by (simp add: host_def idgen_next_def flip: buf_def)
qed

lemma handle_in:
  assumes d: "length d < 65536" "int (length d) \<le> px_buffer_size p" and h: "a1_tag h = NT_API_TAG" "a1_payload_size_n h = htons (of_nat (length d))"
    and pos: "0 < px_buffer_size p" and hdr: "length hdr = 19" and w: "wire w = (nt_api_header_bytes h @ d) # ms"
  shows "proxy_udp_handle_read (cable from) host hdr stack p w = Some (w\<lparr>wire := ms, tx := tx w @ [d]\<rparr>)"
proof -
  let ?n = "nat (px_buffer_size p)"
  have n: "length d \<le> ?n" using d(2) by linarith
  have hb: "length (nt_api_header_bytes h) = 19" by (simp add: header_lengths)
  have size: "nt_api_message_size h = 19 + length d" "unat (nt_api_header_payload_size h) = length d"
    using h(2) d(1) by (simp_all add: nt_api_message_size_def nt_api_header_payload_size_def header_lengths unat_of_nat_u16)
  have at: "nt_api_header_at (nt_api_header_bytes h) = Some h" using nt_api_header_at_bytes [of h "[]"] by simp
  have valid: "nt_api_header_is_valid (nt_api_header_bytes h) = Some True" using nt_api_is_valid_bytes(1) [of h "[]"] h(1) by simp
  have "udp_recv_v (cable from) (px_udp p) [hdr, map stack [0..<?n]] w =
      (Inr (19 + length d, [nt_api_header_bytes h, fill (map stack [0..<?n]) d], from, None), w\<lparr>wire := ms\<rparr>)"
    using w n hb hdr by (simp add: udp_recv_v_def recv_v_def cable_def fill_exact)
  then have "udp_recvfrom_tunnel (cable from) (px_udp p) hdr (map stack [0..<?n]) ?n w =
      Some (Inr (address_init4 (a1_src_ip h) (a1_src_port h), nt_api_header_id h, from, length d, fill (map stack [0..<?n]) d), w\<lparr>wire := ms\<rparr>)"
    using at valid size by (simp add: udp_recvfrom_tunnel_def rd_def)
  moreover have "take (length d) (fill (map stack [0..<?n]) d) = d" using n by (simp add: fill_short)
  ultimately show ?thesis using pos n by (simp add: proxy_udp_handle_read_def host_def)
qed

lemma pump_out_spec:
  "list_all (ipv4_packet (px_buffer_size p)) ds \<Longrightarrow> rx w = ds \<Longrightarrow>
   \<exists>p'. pump_out stack from fd (length ds) p w = Some (p', w\<lparr>rx := [], wire := wire w @ messages p ds\<rparr>)"
proof (induction ds arbitrary: p w)
  case (Cons d ds)
  let ?p = "p\<lparr>px_idgen := snd (idgen_next (px_idgen p))\<rparr>" let ?w = "w\<lparr>rx := ds, wire := wire w @ [nt_api_header_bytes (proxy_header p d) @ d]\<rparr>"
  have "tun_tap_handle_read (cable from) host stack fd p w = Some (?p, ?w)" using Cons.prems by (intro handle_out) simp_all
  moreover obtain p' where "pump_out stack from fd (length ds) ?p ?w = Some (p', ?w\<lparr>rx := [], wire := wire ?w @ messages ?p ds\<rparr>)"
    using Cons.IH [of ?p ?w] Cons.prems by auto
  ultimately show ?case by simp
qed simp

lemma through_tunnel_message:
  "through_tunnel ip port (nt_api_header_bytes h @ d) = nt_api_header_bytes (h\<lparr>a1_src_ip := ip, a1_src_port := port\<rparr>) @ d"
  by (simp add: through_tunnel_def)

lemma pump_in_spec:
  assumes hdr: "length hdr = 19" and size: "px_buffer_size q = px_buffer_size p"
  shows "list_all (ipv4_packet (px_buffer_size p)) ds \<Longrightarrow> wire w = map (through_tunnel ip port) (messages p ds) \<Longrightarrow>
   pump_in hdr stack from (length ds) q w = Some (w\<lparr>wire := [], tx := tx w @ ds\<rparr>)"
  using size
proof (induction ds arbitrary: p w)
  case (Cons d ds)
  let ?p = "p\<lparr>px_idgen := snd (idgen_next (px_idgen p))\<rparr>" let ?w = "w\<lparr>wire := map (through_tunnel ip port) (messages ?p ds), tx := tx w @ [d]\<rparr>"
  let ?h = "(proxy_header p d)\<lparr>a1_src_ip := ip, a1_src_port := port\<rparr>"
  have d: "length d < 65536" "int (length d) \<le> px_buffer_size q" "0 < px_buffer_size q" using Cons.prems(1,3) by (auto simp: ipv4_packet_def)
  have h: "a1_tag ?h = NT_API_TAG" "a1_payload_size_n ?h = htons (of_nat (length d))" by (simp_all add: proxy_header_def nt_api_header_init_def)
  have "wire w = (nt_api_header_bytes ?h @ d) # map (through_tunnel ip port) (messages ?p ds)" using Cons.prems(2) by (simp add: through_tunnel_message)
  then have "proxy_udp_handle_read (cable from) host hdr stack q w = Some ?w" using handle_in [OF d(1,2) h d(3) hdr] by blast
  moreover have "pump_in hdr stack from (length ds) q ?w = Some (?w\<lparr>wire := [], tx := tx ?w @ ds\<rparr>)"
    using Cons.IH [of ?p ?w] Cons.prems by simp
  ultimately show ?case by simp
qed simp

section \<open>Properties\<close>

text \<open>
  C31. A pair of proxies carries packets. IPv4 packets that arrive at the device of one proxy are sent to the tunnel, one
  message each, addressed to the destination of the packet at the port of the proxy; whatever source the tunnel fills in,
  the other proxy writes the same packets, in the same order, to its device.
\<close>

theorem proxy_carries:
  assumes "list_all (ipv4_packet (px_buffer_size p)) ds" "px_buffer_size q = px_buffer_size p" "length hdr = 19"
  shows "\<exists>p'. pump_out stack from fd (length ds) p \<lparr>rx = ds, wire = [], tx = []\<rparr> = Some (p', \<lparr>rx = [], wire = messages p ds, tx = []\<rparr>) \<and>
    pump_in hdr stack' from' (length ds) q \<lparr>rx = [], wire = map (through_tunnel ip port) (messages p ds), tx = []\<rparr> = Some \<lparr>rx = [], wire = [], tx = ds\<rparr>"
  using pump_out_spec [OF assms(1), of "\<lparr>rx = ds, wire = [], tx = []\<rparr>" stack "from" fd]
    pump_in_spec [OF assms(3,2,1), of "\<lparr>rx = [], wire = map (through_tunnel ip port) (messages p ds), tx = []\<rparr>" ip port stack' from'] by auto

definition sample_proxy :: "unit nt_proxy_t" where
  "sample_proxy = \<lparr>px_tun_tap = \<lparr>tt_fd = 3, tt_name = []\<rparr>, px_udp = \<lparr>udp_fd = 4\<rparr>, px_tun_tap_handler = handler_init 3 1 0 0,
     px_udp_handler = udp_handler_init 0 0 \<lparr>udp_fd = 4\<rparr> 0 (Some ()) None, px_tunnel_addr = Addr_in 1 1, px_buffer_size = 30,
     px_local_addr = Addr_in 2 2, px_idgen = idgen_init 0\<rparr>"

definition sample_packet :: "u8 list" where
  "sample_packet = [0, 0] @ bytes_of 2 (htons ETH_P_IP) @ replicate 16 7 @ [10, 0, 0, 1, 5]"

theorem proxy_carries_witness:
  "\<exists>p'. pump_out (\<lambda>_. 1) (Addr_in 9 9) 3 2 sample_proxy \<lparr>rx = [sample_packet, sample_packet], wire = [], tx = []\<rparr> =
      Some (p', \<lparr>rx = [], wire = messages sample_proxy [sample_packet, sample_packet], tx = []\<rparr>) \<and>
    pump_in (replicate 19 0) (\<lambda>_. 2) (Addr_in 9 9) 2 sample_proxy
        \<lparr>rx = [], wire = map (through_tunnel 6 6) (messages sample_proxy [sample_packet, sample_packet]), tx = []\<rparr> =
      Some \<lparr>rx = [], wire = [], tx = [sample_packet, sample_packet]\<rparr>"
proof -
  have two: "length [sample_packet, sample_packet] = 2" by simp
  have "px_buffer_size sample_proxy = 30" by (simp add: sample_proxy_def)
  moreover have "ipv4_packet 30 sample_packet"
    by (simp add: ipv4_packet_def sample_packet_def field_def word_of_bytes_of take_Cons')
  ultimately have "list_all (ipv4_packet (px_buffer_size sample_proxy)) [sample_packet, sample_packet]" by simp
  then show ?thesis
    using proxy_carries [of sample_proxy "[sample_packet, sample_packet]" sample_proxy "replicate 19 0" "\<lambda>_. 1" "Addr_in 9 9" 3 "\<lambda>_. 2" "Addr_in 9 9" 6 6]
    unfolding two by simp
qed

text \<open>
  Kernels that keep a table of open descriptors: \<open>socket\<close> and opening the device add the descriptor they return, \<open>close\<close> removes
  its argument if it succeeds, the other calls leave the table alone.
\<close>

definition keeps_table :: "('w \<Rightarrow> int set) \<Rightarrow> 'w syscalls \<Rightarrow> bool" where
  "keeps_table fds k \<longleftrightarrow>
     (\<forall>w. fds (snd (sys_socket k w)) = (let r = fst (fst (sys_socket k w)) in if r < 0 then fds w else insert r (fds w))) \<and>
     (\<forall>w. fds (snd (sys_open_tun k w)) = (let r = fst (fst (sys_open_tun k w)) in if r < 0 then fds w else insert r (fds w))) \<and>
     (\<forall>fd w. fds (snd (sys_close k fd w)) = (if fst (fst (sys_close k fd w)) = 0 then fds w - {fd} else fds w)) \<and>
     (\<forall>fd w. fds (snd (sys_getfl k fd w)) = fds w) \<and> (\<forall>fd x w. fds (snd (sys_setfl k fd x w)) = fds w) \<and>
     (\<forall>fd x w. fds (snd (sys_setsockopt k fd x w)) = fds w) \<and> (\<forall>fd x w. fds (snd (sys_bind k fd x w)) = fds w) \<and>
     (\<forall>fd x y w. fds (snd (sys_tunsetiff k fd x y w)) = fds w)"

text \<open>
  Setting up a socket never closes it. Whenever \<^verbatim>\<open>socket\<close> has succeeded, the descriptor is open when \<open>udp_init\<close> returns, also when
  it reports that switching to non-blocking mode, enabling the packet information or binding failed; the caller then has
  no way to close it.
\<close>

theorem udp_init_keeps_descriptor:
  assumes "keeps_table fds k" "sys_socket k w = ((fd, err), w1)" "0 \<le> fd" "udp_init k local_address nonblock w = (r, w')"
  shows "fds w' = insert fd (fds w) \<and> (\<forall>udp. r = Inr udp \<longrightarrow> udp_fd udp = fd)"
proof -
  have t: "fds w1 = insert fd (fds w)" "\<And>fd w. fds (snd (sys_getfl k fd w)) = fds w" "\<And>fd x w. fds (snd (sys_setfl k fd x w)) = fds w"
    "\<And>fd x w. fds (snd (sys_setsockopt k fd x w)) = fds w" "\<And>fd x w. fds (snd (sys_bind k fd x w)) = fds w"
  proof -
    have "fds (snd (sys_socket k w)) = (let r = fst (fst (sys_socket k w)) in if r < 0 then fds w else insert r (fds w))"
      by (rule conjunct1 [OF assms(1) [unfolded keeps_table_def], THEN spec])
    then show "fds w1 = insert fd (fds w)" using assms(2,3) by simp
  qed (use assms(1) in \<open>simp_all add: keeps_table_def\<close>)
  obtain nb w2 where nb: "(if nonblock then enable_nonblock k fd w1 else (0, w1)) = (nb, w2)" by fastforce
  have w2: "fds w2 = insert fd (fds w)" using nb t(1-3) by (auto simp: enable_nonblock_def Let_def case_prod_unfold split: if_splits)
  obtain res1 e1 w3 where s1: "sys_setsockopt k fd IP_PKTINFO w2 = ((res1, e1), w3)" by (metis prod.collapse)
  obtain res2 e2 w4 where s2: "sys_setsockopt k fd IPV6_PKTINFO w3 = ((res2, e2), w4)" by (metis prod.collapse)
  have w4: "fds w4 = insert fd (fds w)" using t(4) [of fd IP_PKTINFO w2] t(4) [of fd IPV6_PKTINFO w3] s1 s2 w2 by simp
  have run: "udp_init k local_address nonblock w = (if nb \<noteq> 0 then (Inl nb, w2) else if res1 \<noteq> 0 \<and> res2 \<noteq> 0 then (Inl e2, w4)
      else case local_address of None \<Rightarrow> (Inr \<lparr>udp_fd = fd\<rparr>, w4)
        | Some a \<Rightarrow> (let ((rc, err), w) = sys_bind k fd a w4 in if rc \<noteq> 0 then (Inl err, w) else (Inr \<lparr>udp_fd = fd\<rparr>, w)))"
    unfolding udp_init_def assms(2) using assms(3) nb s1 s2 by simp
  show ?thesis
  proof (cases local_address)
    case None
    then show ?thesis using run assms(4) w2 w4 by (auto split: if_splits)
  next
    case (Some a)
    obtain rc e5 w5 where s5: "sys_bind k fd a w4 = ((rc, e5), w5)" by (metis prod.collapse)
    then have "fds w5 = insert fd (fds w)" using t(5) [of fd a w4] w4 by simp
    then show ?thesis using run assms(4) w2 w4 s5 Some by (auto split: if_splits)
  qed
qed

text \<open>A kernel where every call succeeds.\<close>

definition fine_syscalls :: "'w syscalls" where
  "fine_syscalls = \<lparr>sys_socket = (\<lambda>w. ((3, 0), w)), sys_getfl = (\<lambda>fd w. ((0, 0), w)), sys_setfl = (\<lambda>fd x w. ((0, 0), w)),
     sys_setsockopt = (\<lambda>fd x w. ((0, 0), w)), sys_bind = (\<lambda>fd a w. ((0, 0), w)), sys_close = (\<lambda>fd w. ((0, 0), w)), sys_open_tun = (\<lambda>w. ((3, 0), w)),
     sys_tunsetiff = (\<lambda>fd x name w. (((0, 0), name), w)), sys_tunsetpersist = (\<lambda>fd x w. ((0, 0), w))\<rparr>"

text \<open>A kernel whose world is the table itself and where binding fails.\<close>

definition busy_port :: "int set syscalls" where
  "busy_port = \<lparr>sys_socket = (\<lambda>w. ((5, 0), insert 5 w)), sys_getfl = (\<lambda>fd w. ((0, 0), w)), sys_setfl = (\<lambda>fd x w. ((0, 0), w)),
     sys_setsockopt = (\<lambda>fd x w. ((0, 0), w)), sys_bind = (\<lambda>fd a w. ((-1, 98), w)), sys_close = (\<lambda>fd w. ((0, 0), w - {fd})),
     sys_open_tun = (\<lambda>w. ((6, 0), insert 6 w)), sys_tunsetiff = (\<lambda>fd x n w. (((0, 0), n), w)), sys_tunsetpersist = (\<lambda>fd x w. ((0, 0), w))\<rparr>"

theorem udp_init_keeps_descriptor_witness:
  "\<exists>w'. udp_init busy_port (Some (Addr_in 1 1)) True {1, 2} = (Inl 98, w') \<and> w' = {5, 1, 2}"
proof -
  have "keeps_table id busy_port" by (simp add: keeps_table_def busy_port_def)
  moreover have "sys_socket busy_port {1, 2} = ((5, 0), {5, 1, 2})" by (simp add: busy_port_def)
  moreover have "udp_init busy_port (Some (Addr_in 1 1)) True {1, 2} = (Inl 98, {5, 1, 2})"
    by (simp add: udp_init_def enable_nonblock_def busy_port_def)
  ultimately show ?thesis
    using udp_init_keeps_descriptor [of id busy_port "{1, 2}" 5 0 "{5, 1, 2}" "Some (Addr_in 1 1)" True "Inl 98" "{5, 1, 2}"] by auto
qed

end
