(* ===== verification/Nt_Monitor.thy ===== *)
theory Nt_Monitor
  imports Nt_Proxy
begin

text \<open>
  The probe of a tunnel, \<^verbatim>\<open>src/src/main/tunnel/nt_monitor.c\<close>: it answers requests that arrive through the tunnel and counts
  answers. The function that would build a request is commented out in the file; here it is only used to state what the handler does with answers.
\<close>

section \<open>The code\<close>

record 'h nt_monitor_t =
  mo_dispatcher :: "(nat, nat) dispatcher_t"
  mo_udp_handler :: "'h udp_handler_t"
  mo_udp :: udp_t
  mo_packet_size :: nat
  mo_qps :: int
  mo_sent :: u32
  mo_received :: u32
  mo_invalid :: u32

definition MONITOR_BUFFER_SIZE :: nat where "MONITOR_BUFFER_SIZE = 64 * 1024"
definition PACKET_TYPE_REQUEST :: u8 where "PACKET_TYPE_REQUEST = 0"
definition PACKET_TYPE_RESPONSE :: u8 where "PACKET_TYPE_RESPONSE = 1"

text \<open>A packet is the beginning of a buffer; its numbers are in the order of the host.\<close>

record monitor_packet_t =
  mp_type :: u8
  mp_id :: u32
  mp_size :: u32
  mp_timestamp :: u64
  mp_checksum :: u64

definition monitor_packet_at :: "u8 list \<Rightarrow> monitor_packet_t option" where
  "monitor_packet_at b = do {
     ensure (25 \<le> length b);
     Some \<lparr>mp_type = b ! 0, mp_id = field 1 4 b, mp_size = field 5 4 b, mp_timestamp = field 9 8 b, mp_checksum = field 17 8 b\<rparr>
   }"

definition monitor_packet_checksum :: "monitor_packet_t \<Rightarrow> u64" where
  "monitor_packet_checksum p =
     (let checksum = ucast (mp_type p);
          checksum = checksum * 31 + ucast (mp_id p);
          checksum = checksum * 31 + ucast (mp_size p);
          checksum = checksum * 31 + mp_timestamp p
      in checksum)"

text \<open>\<open>hdr\<close> and \<open>stack\<close> are the contents of the header in \<open>udp_recvfrom_tunnel\<close> and of the buffer before the call.\<close>

definition monitor_handle_read ::
    "'w kernel \<Rightarrow> u8 list \<Rightarrow> (nat \<Rightarrow> u8) \<Rightarrow> udp_t \<Rightarrow> 'h nt_monitor_t \<Rightarrow> 'w \<Rightarrow> ('h nt_monitor_t \<times> 'w) option" where
  "monitor_handle_read k hdr stack udp m w = do {
     (r, w) \<leftarrow> udp_recvfrom_tunnel k udp hdr (map stack [0..<MONITOR_BUFFER_SIZE]) MONITOR_BUFFER_SIZE w;
     (case r of
        Inl err \<Rightarrow> Some (m, w)
      | Inr (src_addr, ident, tunnel_addr, received, buffer) \<Rightarrow> do {
          packet \<leftarrow> monitor_packet_at buffer;
          if mp_type packet = PACKET_TYPE_REQUEST then do {
            buffer \<leftarrow> wr buffer 0 PACKET_TYPE_RESPONSE;
            (r, w) \<leftarrow> udp_sendto_tunnel k udp buffer received src_addr (mo_sent m) tunnel_addr w;
            Some (m\<lparr>mo_sent := mo_sent m + 1\<rparr>, w)
          }
          else if mp_type packet = PACKET_TYPE_RESPONSE then
            if unat (mp_size packet) \<noteq> received \<or> mp_checksum packet \<noteq> monitor_packet_checksum packet
            then Some (m\<lparr>mo_invalid := mo_invalid m + 1\<rparr>, w)
            else Some (m\<lparr>mo_received := mo_received m + 1\<rparr>, w)
          else Some (m, w)
        })
   }"

text \<open>The function is named \<open>nt_listener_init\<close> in the file; \<open>ep\<close> and \<open>add\<close> are the results of the calls of the kernel.\<close>

definition nt_monitor_init ::
    "'w syscalls \<Rightarrow> sysret \<Rightarrow> sysret \<Rightarrow> (nat \<Rightarrow> (nat, nat) timer_entry_t entry_t) \<Rightarrow> nat \<Rightarrow> nat \<times> nat \<Rightarrow> 'h \<Rightarrow> address_t \<Rightarrow> nat \<Rightarrow> int \<Rightarrow> 'w \<Rightarrow>
     (int + 'h nt_monitor_t) \<times> 'w" where
  "nt_monitor_init k ep add heap cb self h local_address packet_size qps w =
     (let (r, w) = udp_init k (Some local_address) True w in
      case r of
        Inl err \<Rightarrow> (Inl err, w)
      | Inr udp \<Rightarrow>
          (case dispatcher_init1 (fst ep) (snd ep) heap 100 of
             Inl err \<Rightarrow> (Inl err, w)
           | Inr disp \<Rightarrow>
               let handler = udp_handler_init cb (snd self) udp (fst self) (Some h) None;
                   err = dispatcher_add_udp (fst add) (snd add)
               in if err \<noteq> 0 then (Inl err, w)
                  else (Inr \<lparr>mo_dispatcher = disp, mo_udp_handler = handler, mo_udp = udp, mo_packet_size = packet_size, mo_qps = qps,
                    mo_sent = 0, mo_received = 0, mo_invalid = 0\<rparr>, w)))"

section \<open>Packets through the tunnel\<close>

text \<open>A message of version one that arrives.\<close>

lemma recvfrom_tunnel_loopback:
  assumes h: "a1_tag h = NT_API_TAG" "unat (nt_api_header_payload_size h) = length p" and room: "length p \<le> room" "room \<le> length buf" "length hdr = 19"
  shows "udp_recvfrom_tunnel (loopback peer) udp hdr buf room ((nt_api_header_bytes h @ p) # w) =
    Some (Inr (Addr_in (a1_src_ip h) (a1_src_port h), nt_api_header_id h, peer, length p, p @ drop (length p) buf), w)"
  by (rule recvfrom_tunnel_message [OF _ h room]) (use room in \<open>simp add: loopback_def header_lengths\<close>)

lemma field_of_append: "a + n \<le> length p \<Longrightarrow> field a n (p @ q) = field a n p"
  by (simp add: field_def)

text \<open>What one call does with a message that holds a whole packet.\<close>

definition monitor_step :: "'h nt_monitor_t \<Rightarrow> address_t \<Rightarrow> u8 list \<Rightarrow> 'h nt_monitor_t \<times> u8 list list" where
  "monitor_step m src p =
     (if hd p = PACKET_TYPE_REQUEST then
        (m\<lparr>mo_sent := mo_sent m + 1\<rparr>,
         [nt_api_header_bytes (nt_api_header_init (mo_sent m) 0 0 (address_get_addr4 src) (address_get_port src) (of_nat (length p))) @ PACKET_TYPE_RESPONSE # tl p])
      else if hd p = PACKET_TYPE_RESPONSE then
        (if length p = unat (field 5 4 p :: u32) \<and> field 17 8 p = monitor_packet_checksum (the (monitor_packet_at p))
         then m\<lparr>mo_received := mo_received m + 1\<rparr> else m\<lparr>mo_invalid := mo_invalid m + 1\<rparr>, [])
      else (m, []))"

lemma monitor_handle_read_spec:
  assumes h: "a1_tag h = NT_API_TAG" "unat (nt_api_header_payload_size h) = length p" and p: "25 \<le> length p" "length p < 65536" and hdr: "length hdr = 19"
  shows "monitor_handle_read (loopback peer) hdr stack udp m ((nt_api_header_bytes h @ p) # w) =
    (let (m', out) = monitor_step m (Addr_in (a1_src_ip h) (a1_src_port h)) p in Some (m', w @ out))"
proof -
  let ?buf = "map stack [0..<MONITOR_BUFFER_SIZE]" let ?b = "p @ drop (length p) ?buf"
  have recv: "udp_recvfrom_tunnel (loopback peer) udp hdr ?buf MONITOR_BUFFER_SIZE ((nt_api_header_bytes h @ p) # w) =
      Some (Inr (Addr_in (a1_src_ip h) (a1_src_port h), nt_api_header_id h, peer, length p, ?b), w)"
    using recvfrom_tunnel_loopback [OF h, of MONITOR_BUFFER_SIZE ?buf hdr peer udp w] p(2) hdr by (simp add: MONITOR_BUFFER_SIZE_def)
  have "(p @ r) ! 0 = p ! 0" for r using p(1) by (cases p) simp_all
  then have packet: "monitor_packet_at ?b = monitor_packet_at p" using p(1) by (simp add: monitor_packet_at_def field_of_append)
  obtain q where q: "monitor_packet_at p = Some q" "mp_type q = hd p" "mp_size q = field 5 4 p" "mp_checksum q = field 17 8 p"
    using p(1) by (cases p) (auto simp: monitor_packet_at_def)
  have wr: "wr ?b 0 v = Some (v # tl p @ drop (length p) ?buf)" for v using p(1) by (cases p) (auto simp: wr_def)
  have send: "udp_sendto_tunnel (loopback peer) udp (v # tl p @ drop (length p) ?buf) (length p) a i t w =
      Some (Inr (19 + length p), w @ [nt_api_header_bytes (nt_api_header_init i 0 0 (address_get_addr4 a) (address_get_port a) (of_nat (length p))) @ v # tl p])" for v a i t
    using p(1) by (cases p) (auto simp: udp_sendto_tunnel_def udp_send_v_def send_v_def loopback_def header_lengths)
  show ?thesis unfolding monitor_handle_read_def recv
    by (simp add: packet q wr send monitor_step_def)
qed

text \<open>The request as the function in the comment would build it.\<close>

definition request :: "u32 \<Rightarrow> u64 \<Rightarrow> u8 list \<Rightarrow> u8 list" where
  "request ident time body =
     (let n = of_nat (25 + length body);
          c = monitor_packet_checksum \<lparr>mp_type = PACKET_TYPE_REQUEST, mp_id = ident, mp_size = n, mp_timestamp = time, mp_checksum = 0\<rparr>
      in PACKET_TYPE_REQUEST # bytes_of 4 ident @ bytes_of 4 n @ bytes_of 8 time @ bytes_of 8 c @ body)"

lemma request_packet:
  "monitor_packet_at (v # tl (request ident time body)) = Some \<lparr>mp_type = v, mp_id = ident, mp_size = of_nat (25 + length body), mp_timestamp = time,
     mp_checksum = monitor_packet_checksum \<lparr>mp_type = PACKET_TYPE_REQUEST, mp_id = ident, mp_size = of_nat (25 + length body), mp_timestamp = time, mp_checksum = 0\<rparr>\<rparr>"
  by (simp add: monitor_packet_at_def request_def Let_def field_def word_of_bytes_of)

lemma length_request: "length (request ident time body) = 25 + length body"
  by (simp add: request_def Let_def)

text \<open>The kind of the packet is part of its checksum.\<close>

lemma checksum_of_response:
  "monitor_packet_checksum \<lparr>mp_type = PACKET_TYPE_RESPONSE, mp_id = i, mp_size = n, mp_timestamp = t, mp_checksum = c\<rparr> =
   monitor_packet_checksum \<lparr>mp_type = PACKET_TYPE_REQUEST, mp_id = i, mp_size = n, mp_timestamp = t, mp_checksum = c'\<rparr> + 29791"
  by (simp add: monitor_packet_checksum_def PACKET_TYPE_REQUEST_def PACKET_TYPE_RESPONSE_def algebra_simps)

text \<open>
  C39. Every genuine answer of a monitor is refused. A monitor that receives a well-formed request sends it back as a response with the checksum of the
  request, which covers the kind of the packet, so that the monitor that receives this answer counts it as invalid, whatever the number, the time and
  the contents are. An answer with its own checksum would be counted as received.
\<close>

theorem monitor_refuses_answers:
  assumes n: "25 + length body < 65536" and hdr: "length hdr = 19"
  shows "\<exists>answer. monitor_handle_read (loopback peer) hdr stack udp m
      [nt_api_header_bytes (nt_api_header_init i sa sp da dp (of_nat (25 + length body))) @ request ident time body] =
      Some (m\<lparr>mo_sent := mo_sent m + 1\<rparr>, [answer]) \<and>
    monitor_handle_read (loopback peer') hdr stack' udp' m' [answer] = Some (m'\<lparr>mo_invalid := mo_invalid m' + 1\<rparr>, [])"
proof -
  let ?h = "nt_api_header_init i sa sp da dp (of_nat (25 + length body))" let ?p = "request ident time body" let ?r = "PACKET_TYPE_RESPONSE # tl ?p"
  have len: "length ?p = 25 + length body" "length ?r = 25 + length body" by (simp_all add: length_request)
  have size: "unat (nt_api_header_payload_size (nt_api_header_init i' sa' sp' da' dp' (of_nat (25 + length body)))) = 25 + length body" for i' sa' sp' da' dp'
    using n by (simp add: unat_of_nat_u16 del: of_nat_add)
  have hd: "hd ?p = PACKET_TYPE_REQUEST" by (simp add: request_def Let_def)
  let ?h' = "nt_api_header_init (mo_sent m) 0 0 sa sp (of_nat (25 + length body))"
  have first: "monitor_handle_read (loopback peer) hdr stack udp m [nt_api_header_bytes ?h @ ?p] =
      Some (m\<lparr>mo_sent := mo_sent m + 1\<rparr>, [nt_api_header_bytes ?h' @ ?r])"
    using monitor_handle_read_spec [of ?h ?p hdr peer stack udp m "[]"] n hdr size len(1) hd
    by (simp add: monitor_step_def address_get_addr4_def address_get_port_def del: of_nat_add)
  have bad: "field 17 8 ?r \<noteq> monitor_packet_checksum (the (monitor_packet_at ?r))"
  proof -
    have "field 17 8 ?r = mp_checksum (the (monitor_packet_at ?r))" using len(2) by (simp add: monitor_packet_at_def)
    then show ?thesis unfolding request_packet option.sel checksum_of_response [where c' = 0] by simp
  qed
  have "PACKET_TYPE_RESPONSE \<noteq> PACKET_TYPE_REQUEST" by (simp add: PACKET_TYPE_REQUEST_def PACKET_TYPE_RESPONSE_def)
  then have "monitor_handle_read (loopback peer') hdr stack' udp' m' [nt_api_header_bytes ?h' @ ?r] = Some (m'\<lparr>mo_invalid := mo_invalid m' + 1\<rparr>, [])"
    using monitor_handle_read_spec [of ?h' ?r hdr peer' stack' udp' m' "[]"] n hdr size len(2) bad by (simp add: monitor_step_def del: of_nat_add)
  then show ?thesis using first by blast
qed

theorem monitor_refuses_answers_witness:
  "\<exists>m w answer. nt_monitor_init fine_syscalls (5, 0) (0, 0) (\<lambda>_. some_timer) 0 (0, 0) () (Addr_in 1 2) 100 1 () = (Inr (m :: unit nt_monitor_t), w) \<and>
    monitor_handle_read (loopback (Addr_in 9 9)) (replicate 19 7) (\<lambda>_. 1) (mo_udp m) m
      [nt_api_header_bytes (nt_api_header_init 77 1 2 3 4 (of_nat (25 + length [1, 2 :: u8]))) @ request 5 1000 [1, 2]] = Some (m\<lparr>mo_sent := 1\<rparr>, [answer]) \<and>
    monitor_handle_read (loopback (Addr_in 8 8)) (replicate 19 7) (\<lambda>_. 1) (mo_udp m) m [answer] = Some (m\<lparr>mo_invalid := 1\<rparr>, [])"
proof -
  obtain m :: "unit nt_monitor_t" and w where m: "nt_monitor_init fine_syscalls (5, 0) (0, 0) (\<lambda>_. some_timer) 0 (0, 0) () (Addr_in 1 2) 100 1 () = (Inr m, w)"
    "mo_sent m = 0" "mo_invalid m = 0"
    by (simp add: nt_monitor_init_def udp_init_def enable_nonblock_def fine_syscalls_def dispatcher_init1_def dispatcher_init_def dispatcher_add_udp_def dispatcher_add_handler_def)
  then show ?thesis using monitor_refuses_answers [of "[1, 2]" "replicate 19 7" "Addr_in 9 9" "\<lambda>_. 1" "mo_udp m" m 77 1 2 3 4 5 1000 "Addr_in 8 8" "\<lambda>_. 1" "mo_udp m" m]
    by (intro exI [of _ m] exI [of _ w]) simp
qed

end
