(* ===== verification/C_Strings.thy ===== *)
theory C_Strings
  imports C_Prelude
begin

text \<open>
  The string functions of \<^verbatim>\<open>src/src/main/utils/utils.h\<close>. A C string is the list of its bytes before the
  terminating zero, and a pointer into it the rest of that list; reading at the end gives the zero.
\<close>

type_synonym cstring = "u8 list"

definition str :: "string \<Rightarrow> cstring" where
  "str s = map of_char s"

section \<open>Searching and skipping\<close>

definition str2bool :: "cstring \<Rightarrow> bool option" where
  "str2bool s = (if s = str ''true'' then Some True else if s = str ''false'' then Some False else None)"

fun contains :: "u8 \<Rightarrow> cstring \<Rightarrow> bool" where
  "contains c [] \<longleftrightarrow> False"
| "contains c (s # ss) \<longleftrightarrow> s = c \<or> contains c ss"

fun starts_with :: "cstring \<Rightarrow> cstring \<Rightarrow> bool" where
  "starts_with [] s \<longleftrightarrow> True"
| "starts_with (p # ps) [] \<longleftrightarrow> False"
| "starts_with (p # ps) (s # ss) \<longleftrightarrow> p = s \<and> starts_with ps ss"

text \<open>The terminating zero is in no set, so the loop ends there.\<close>

fun skip :: "cstring \<Rightarrow> cstring \<Rightarrow> cstring" where
  "skip b [] = []"
| "skip b (s # ss) = (if contains s b then skip b ss else s # ss)"

definition blanks :: cstring where "blanks = [32, 9]"

definition skip_delimit :: "cstring \<Rightarrow> cstring \<Rightarrow> cstring option" where
  "skip_delimit delimiter s =
     (let s = skip blanks s in
      if \<not> starts_with delimiter s then None
      else Some (skip blanks (drop (length delimiter) s)))"

lemma contains_iff: "contains c s \<longleftrightarrow> c \<in> set s"
  by (induction s) auto

lemma starts_with_append [simp]: "starts_with p (p @ s)"
  by (induction p) auto

lemma skip_id: "s = [] \<or> hd s \<notin> set b \<Longrightarrow> skip b s = s"
  by (cases s) (auto simp: contains_iff)

lemma skip_delimit_found:
  assumes "d \<noteq> []" "hd d \<notin> set blanks" "s = [] \<or> hd s \<notin> set blanks"
  shows "skip_delimit d (d @ s) = Some s"
  using assms by (simp add: skip_delimit_def skip_id)

lemma skip_delimit_missing:
  assumes "s = [] \<or> hd s \<notin> set blanks" "\<not> starts_with d s"
  shows "skip_delimit d s = None"
  using assms by (simp add: skip_delimit_def skip_id)

section \<open>Numbers\<close>

text \<open>The characters that \<open>isspace\<close> and \<open>isdigit\<close> accept in the C locale.\<close>

definition is_space :: "u8 \<Rightarrow> bool" where "is_space c \<longleftrightarrow> c \<in> {32, 9, 10, 11, 12, 13}"
definition is_digit :: "u8 \<Rightarrow> bool" where "is_digit c \<longleftrightarrow> 48 \<le> c \<and> c \<le> 57"

definition digits_value :: "cstring \<Rightarrow> int" where
  "digits_value ds = foldl (\<lambda>n c. 10 * n + (uint c - 48)) 0 ds"

text \<open>
  The conversion \<open>%d\<close> of \<open>sscanf\<close> followed by \<open>%n\<close>: white space, a sign, at least one digit. The result is
  the number and the rest of the input.
\<close>

definition scan_int :: "cstring \<Rightarrow> (int \<times> cstring) option" where
  "scan_int s =
     (let s = dropWhile is_space s;
          neg = (case s of [] \<Rightarrow> False | c # _ \<Rightarrow> c = 45);
          s = (case s of [] \<Rightarrow> [] | c # cs \<Rightarrow> if c = 45 \<or> c = 43 then cs else s);
          ds = takeWhile is_digit s
      in if ds = [] then None
         else Some (if neg then - digits_value ds else digits_value ds, dropWhile is_digit s))"

text \<open>A number as \<open>%d\<close> prints it when it is not negative.\<close>

fun decimal :: "nat \<Rightarrow> cstring" where
  "decimal n = (if n < 10 then [of_nat (48 + n)] else decimal (n div 10) @ [of_nat (48 + n mod 10)])"

declare decimal.simps [simp del]

lemma digit_char:
  assumes "n < 10"
  shows "is_digit (of_nat (48 + n))" "uint (of_nat (48 + n) :: u8) = 48 + int n"
proof -
  have "take_bit 8 (48 + n) = 48 + n" using assms by (simp add: take_bit_nat_eq_self_iff)
  then have u: "uint (of_nat (48 + n) :: u8) = 48 + int n" by (subst unsigned_of_nat) simp
  then show "uint (of_nat (48 + n) :: u8) = 48 + int n" .
  have "48 \<le> uint (of_nat (48 + n) :: u8)" "uint (of_nat (48 + n) :: u8) \<le> 57" unfolding u using assms by simp_all
  then show "is_digit (of_nat (48 + n))" by (simp add: is_digit_def word_le_def)
qed

lemma decimal_digits: "list_all is_digit (decimal n)" "decimal n \<noteq> []"
proof (induction n rule: decimal.induct)
  case (1 n)
  { case 1 then show ?case using digit_char(1) [of n] digit_char(1) [of "n mod 10"] "1.IH" by (subst decimal.simps) auto }
  { case 2 then show ?case by (subst decimal.simps) simp }
qed

lemma decimal_value: "digits_value (decimal n) = int n"
proof (induction n rule: decimal.induct)
  case (1 n)
  show ?case
  proof (cases "n < 10")
    case True
    then show ?thesis using digit_char(2) [of n] by (subst decimal.simps) (simp add: digits_value_def)
  next
    case False
    then have "digits_value (decimal n) = 10 * digits_value (decimal (n div 10)) + int (n mod 10)"
      using digit_char(2) [of "n mod 10"] by (subst decimal.simps) (simp add: digits_value_def)
    then show ?thesis using "1" [OF False] div_mult_mod_eq [of n 10] by linarith
  qed
qed

lemma scan_decimal:
  assumes "s = [] \<or> \<not> is_digit (hd s)"
  shows "scan_int (decimal n @ s) = Some (int n, s)"
proof -
  obtain c cs where d: "decimal n = c # cs" using decimal_digits(2) by (cases "decimal n") auto
  then have c: "is_digit c" "list_all is_digit cs" using decimal_digits(1) [of n] by simp_all
  then have "48 \<le> uint c" by (simp add: is_digit_def word_le_def)
  then have "c \<noteq> 32" "c \<noteq> 9" "c \<noteq> 10" "c \<noteq> 11" "c \<noteq> 12" "c \<noteq> 13" "c \<noteq> 45" "c \<noteq> 43" by auto
  moreover have "takeWhile is_digit (decimal n @ s) = decimal n" "dropWhile is_digit (decimal n @ s) = s"
    using decimal_digits(1) [of n] assms by (cases s; auto simp: list_all_iff)+
  ultimately show ?thesis using decimal_value [of n] by (simp add: scan_int_def is_space_def d Let_def)
qed

end
