(* ===== verification/Nt_Paths.thy ===== *)
theory Nt_Paths
  imports C_Strings Nt_Distributor
begin

text \<open>
  The texts that configure the paths of the tunnel: the parsers of \<^verbatim>\<open>src/src/main/tunnel/nt_distributor.c\<close>. Name
  resolution, \<open>address_from\<close>, is the parameter \<open>resolve\<close> of the parsers.
\<close>

section \<open>Addresses and paths\<close>

text \<open>
  The conversions \<open>%100[^:]:%20[0-9]%n\<close> of \<open>sscanf\<close>: the name, the port and the rest of the input, if both could
  be read.
\<close>

definition colon :: u8 where "colon = 58"

definition scan_endpoint :: "cstring \<Rightarrow> (cstring \<times> cstring \<times> cstring) option" where
  "scan_endpoint s =
     (let name = take 100 (takeWhile (\<lambda>c. c \<noteq> colon) s) in
      if name = [] then None
      else case drop (length name) s of
        [] \<Rightarrow> None
      | c # s \<Rightarrow>
          if c \<noteq> colon then None
          else let port = take 20 (takeWhile is_digit s) in
            if port = [] then None else Some (name, port, drop (length port) s))"

type_synonym resolver = "cstring \<Rightarrow> cstring \<Rightarrow> int \<Rightarrow> address_t option"

definition SOCK_DGRAM :: int where "SOCK_DGRAM = 2"

text \<open>The results are the rest of the text, or nothing for \<open>NULL\<close>, and the contents of the output argument.\<close>

definition parse_address :: "resolver \<Rightarrow> address_t \<Rightarrow> cstring \<Rightarrow> cstring option \<times> address_t" where
  "parse_address resolve address s =
     (case scan_endpoint s of
        None \<Rightarrow> (None, address)
      | Some (name, port, rest) \<Rightarrow>
          (case resolve name port SOCK_DGRAM of None \<Rightarrow> (None, address) | Some a \<Rightarrow> (Some rest, a)))"

text \<open>The same function in \<^verbatim>\<open>src/src/main/dispatcher/common.c\<close>, for any type of socket.\<close>

definition address_parse :: "resolver \<Rightarrow> address_t \<Rightarrow> cstring \<Rightarrow> cstring option \<times> address_t" where
  "address_parse resolve address s =
     (case scan_endpoint s of
        None \<Rightarrow> (None, address)
      | Some (name, port, rest) \<Rightarrow>
          (case resolve name port 0 of None \<Rightarrow> (None, address) | Some a \<Rightarrow> (Some rest, a)))"

definition parse_path :: "resolver \<Rightarrow> nt_path_t \<Rightarrow> cstring \<Rightarrow> cstring option \<times> nt_path_t" where
  "parse_path resolve path s =
     (let (r, a) = parse_address resolve (path_src path) s; path = path\<lparr>path_src := a\<rparr> in
      case r of
        None \<Rightarrow> (None, path)
      | Some s \<Rightarrow>
          (case skip_delimit (str ''-'') s of
             None \<Rightarrow>
               (Some s, path\<lparr>path_dst := path_src path,
                  path_src := (case resolve (str ''0.0.0.0'') (str ''0'') 0 of None \<Rightarrow> path_src path | Some a \<Rightarrow> a)\<rparr>)
           | Some s \<Rightarrow>
               let (r, a) = parse_address resolve (path_dst path) s in (r, path\<lparr>path_dst := a\<rparr>)))"

text \<open>The loop of \<open>parse_paths\<close> from \<open>i\<close> on, with the number of paths read so far.\<close>

function parse_paths_from :: "resolver \<Rightarrow> nt_path_t list \<Rightarrow> nat \<Rightarrow> nat \<Rightarrow> nat \<Rightarrow> cstring \<Rightarrow> (nt_path_t list \<times> nat \<times> cstring) option" where
  "parse_paths_from resolve ps i num n s =
     (if i < num then do {
        p \<leftarrow> rd ps i;
        let (r, p) = parse_path resolve p s;
        ps \<leftarrow> wr ps i p;
        case r of
          None \<Rightarrow> Some (ps, n, s)
        | Some s \<Rightarrow>
            (case skip_delimit (str '','') s of
               None \<Rightarrow> Some (ps, n + 1, s)
             | Some s \<Rightarrow> parse_paths_from resolve ps (Suc i) num (n + 1) s)
      } else Some (ps, n, s))"
  by pat_completeness auto
termination
  by (relation "measure (\<lambda>(resolve, ps, i, num, n, s). num - i)") auto

declare parse_paths_from.simps [simp del]

definition parse_paths :: "resolver \<Rightarrow> nt_path_t list \<Rightarrow> int \<Rightarrow> cstring \<Rightarrow> (nt_path_t list \<times> int \<times> cstring) option" where
  "parse_paths resolve ps num s = do {
     (ps, n, s) \<leftarrow> parse_paths_from resolve ps 0 (nat num) 0 s;
     Some (ps, int n, s)
   }"

section \<open>The table\<close>

definition clear_table :: "int list \<Rightarrow> nat \<Rightarrow> nat \<Rightarrow> int list option" where
  "clear_table table seqs dups =
     for_up 0 seqs (\<lambda>i table. for_up 0 dups (\<lambda>j table. wr table (i * dups + j) (-1)) table) table"

text \<open>The inner loop from \<open>j\<close> on; a number that is no \<open>int\<close> has no defined conversion.\<close>

function parse_row :: "int list \<Rightarrow> nat \<Rightarrow> nat \<Rightarrow> nat \<Rightarrow> cstring \<Rightarrow> (int list \<times> cstring) option" where
  "parse_row table i dups j s =
     (if j < dups then
        (case scan_int s of
           None \<Rightarrow> Some (table, s)
         | Some (v, s) \<Rightarrow> do {
             ensure (- (2 ^ 31) \<le> v \<and> v < 2 ^ 31);
             table \<leftarrow> wr table (i * dups + j) v;
             case skip_delimit (str '','') s of
               None \<Rightarrow> Some (table, s)
             | Some s \<Rightarrow> parse_row table i dups (Suc j) s
           })
      else Some (table, s))"
  by pat_completeness auto
termination
  by (relation "measure (\<lambda>(table, i, dups, j, s). dups - j)") auto

function parse_rows :: "int list \<Rightarrow> nat \<Rightarrow> nat \<Rightarrow> nat \<Rightarrow> cstring \<Rightarrow> (int list \<times> cstring) option" where
  "parse_rows table i seqs dups s =
     (if i < seqs then do {
        (table, s) \<leftarrow> parse_row table i dups 0 s;
        case skip_delimit (str '';'') s of
          None \<Rightarrow> Some (table, s)
        | Some s \<Rightarrow> parse_rows table (Suc i) seqs dups s
      } else Some (table, s))"
  by pat_completeness auto
termination
  by (relation "measure (\<lambda>(table, i, seqs, dups, s). seqs - i)") auto

declare parse_row.simps [simp del] parse_rows.simps [simp del]

definition parse_seq2addr :: "int list \<Rightarrow> int \<Rightarrow> int \<Rightarrow> cstring \<Rightarrow> (int list \<times> cstring) option" where
  "parse_seq2addr table seqs dups s = do {
     table \<leftarrow> clear_table table (nat seqs) (nat dups);
     parse_rows table 0 (nat seqs) (nat dups) s
   }"

section \<open>Writing texts\<close>

text \<open>The texts that an operator writes: lists with a separator, endpoints, paths, and rows of numbers.\<close>

fun join :: "cstring \<Rightarrow> cstring list \<Rightarrow> cstring" where
  "join d [] = []"
| "join d [x] = x"
| "join d (x # y # xs) = x @ d @ join d (y # xs)"

type_synonym endpoint = "cstring \<times> cstring"

definition endpoint_text :: "endpoint \<Rightarrow> cstring" where
  "endpoint_text e = fst e @ str '':'' @ snd e"

text \<open>A path has a source, or none.\<close>

definition path_text :: "endpoint option \<times> endpoint \<Rightarrow> cstring" where
  "path_text p = (case fst p of None \<Rightarrow> [] | Some e \<Rightarrow> endpoint_text e @ str ''-'') @ endpoint_text (snd p)"

definition paths_text :: "(endpoint option \<times> endpoint) list \<Rightarrow> cstring" where
  "paths_text ps = join (str '','') (map path_text ps)"

definition rows_text :: "nat list list \<Rightarrow> cstring" where
  "rows_text rows = join (str '';'') (map (\<lambda>r. join (str '','') (map decimal r)) rows)"

definition endpoint_ok :: "endpoint \<Rightarrow> bool" where
  "endpoint_ok e \<longleftrightarrow> fst e \<noteq> [] \<and> length (fst e) \<le> 100 \<and> colon \<notin> set (fst e) \<and> hd (fst e) \<notin> set blanks \<and>
     snd e \<noteq> [] \<and> length (snd e) \<le> 20 \<and> list_all is_digit (snd e)"

definition resolve_path :: "resolver \<Rightarrow> endpoint option \<times> endpoint \<Rightarrow> nt_path_t option" where
  "resolve_path resolve p = do {
     src \<leftarrow> (case fst p of None \<Rightarrow> resolve (str ''0.0.0.0'') (str ''0'') 0 | Some e \<Rightarrow> resolve (fst e) (snd e) SOCK_DGRAM);
     dst \<leftarrow> resolve (fst (snd p)) (snd (snd p)) SOCK_DGRAM;
     Some \<lparr>path_src = src, path_dst = dst\<rparr>
   }"

definition path_ok :: "endpoint option \<times> endpoint \<Rightarrow> bool" where
  "path_ok p \<longleftrightarrow> pred_option endpoint_ok (fst p) \<and> endpoint_ok (snd p)"

lemma str_simps [simp]: "str '','' = [44]" "str ''-'' = [45]" "str '';'' = [59]" "str '':'' = [58]"
  by (simp_all add: str_def)

lemma digits_no: "\<not> is_digit 44" "\<not> is_digit 45" "\<not> is_digit 59" "\<not> is_digit 32" "\<not> is_digit 9"
  by (simp_all add: is_digit_def)

section \<open>Reading paths back\<close>

lemma scan_endpoint_text:
  assumes e: "endpoint_ok e" and s: "s = [] \<or> \<not> is_digit (hd s)"
  shows "scan_endpoint (endpoint_text e @ s) = Some (fst e, snd e, s)"
proof -
  have t: "endpoint_text e @ s = fst e @ colon # (snd e @ s)" by (simp add: endpoint_text_def colon_def)
  have name: "takeWhile (\<lambda>c. c \<noteq> colon) (fst e @ colon # (snd e @ s)) = fst e"
  proof -
    have "\<And>c. c \<in> set (fst e) \<Longrightarrow> c \<noteq> colon" using e by (auto simp: endpoint_ok_def)
    then show ?thesis by (simp add: takeWhile_append2)
  qed
  have "takeWhile is_digit (snd e @ s) = snd e" using e s by (cases s) (auto simp: endpoint_ok_def list_all_iff)
  then show ?thesis using e name unfolding t scan_endpoint_def Let_def endpoint_ok_def by simp
qed

lemma parse_endpoint:
  assumes "endpoint_ok e" "s = [] \<or> \<not> is_digit (hd s)" "resolve (fst e) (snd e) SOCK_DGRAM = Some a"
  shows "parse_address resolve x (endpoint_text e @ s) = (Some s, a)"
  using assms by (simp add: parse_address_def scan_endpoint_text)

text \<open>What follows a path: the end, or a comma.\<close>

lemma parse_path_text:
  assumes p: "path_ok p" and r: "resolve_path resolve p = Some q" and s: "s = [] \<or> hd s = 44"
  shows "parse_path resolve x (path_text p @ s) = (Some s, q)"
proof -
  obtain src dst where p2: "p = (src, dst)" by (cases p)
  have nd: "s = [] \<or> \<not> is_digit (hd s)" "s = [] \<or> hd s \<notin> set blanks" "\<not> starts_with [45] s"
    using s digits_no by (cases s; auto simp: blanks_def)+
  show ?thesis
  proof (cases src)
    case None
    obtain a b where ab: "resolve (str ''0.0.0.0'') (str ''0'') 0 = Some a" "resolve (fst dst) (snd dst) SOCK_DGRAM = Some b" "q = \<lparr>path_src = a, path_dst = b\<rparr>"
      using r by (auto simp: resolve_path_def p2 None split: Option.bind_split_asm)
    have "parse_address resolve (path_src x) (path_text p @ s) = (Some s, b)"
      using parse_endpoint [of dst s resolve b] p nd(1) ab(2) by (simp add: path_ok_def p2 None path_text_def)
    moreover have "skip_delimit [45] s = None" using nd by (intro skip_delimit_missing)
    ultimately show ?thesis using ab(1,3) by (cases x) (simp add: parse_path_def)
  next
    case (Some e)
    obtain a b where ab: "resolve (fst e) (snd e) SOCK_DGRAM = Some a" "resolve (fst dst) (snd dst) SOCK_DGRAM = Some b" "q = \<lparr>path_src = a, path_dst = b\<rparr>"
      using r by (auto simp: resolve_path_def p2 Some split: Option.bind_split_asm)
    have ok: "endpoint_ok e" "endpoint_ok dst" using p by (simp_all add: path_ok_def p2 Some)
    let ?t = "endpoint_text dst @ s"
    have "parse_address resolve (path_src x) (endpoint_text e @ [45] @ ?t) = (Some ([45] @ ?t), a)"
      using parse_endpoint [of e "[45] @ ?t" resolve a] ok(1) ab(1) digits_no by simp
    moreover have "?t = [] \<or> hd ?t \<notin> set blanks" using ok(2) by (simp add: endpoint_text_def endpoint_ok_def)
    then have "skip_delimit [45] ([45] @ ?t) = Some ?t" by (intro skip_delimit_found) (simp_all add: blanks_def)
    moreover have "parse_address resolve y ?t = (Some s, b)" for y using parse_endpoint [of dst s resolve b] ok(2) nd(1) ab(2) by simp
    ultimately show ?thesis using ab(3) by (cases x) (simp add: parse_path_def path_text_def p2 Some)
  qed
qed

lemma path_text_start:
  assumes "path_ok p"
  shows "path_text p \<noteq> []" "hd (path_text p) \<notin> set blanks"
  using assms by (auto simp: path_ok_def endpoint_ok_def path_text_def endpoint_text_def split: option.splits)

lemma parse_paths_text:
  assumes "list_all path_ok ps" "map (resolve_path resolve) ps = map Some qs" "ps \<noteq> []" "length A + length ps \<le> num" "length ps \<le> length B"
  shows "parse_paths_from resolve (A @ B) (length A) num n (paths_text ps) = Some (A @ qs @ drop (length ps) B, n + length ps, [])"
  using assms
proof (induction ps arbitrary: A B n qs)
  case (Cons p ps)
  obtain q qs' where qs: "qs = q # qs'" "resolve_path resolve p = Some q" "map (resolve_path resolve) ps = map Some qs'" using Cons.prems(2) by (cases qs) auto
  obtain b B' where B: "B = b # B'" using Cons.prems(5) by (cases B) auto
  have i: "length A < num" using Cons.prems(4) by simp
  show ?case
  proof (cases ps)
    case Nil
    have "parse_path resolve b (path_text p) = (Some [], q)" using parse_path_text [of p resolve q "[]"] Cons.prems(1) qs(2) by simp
    then show ?thesis using i qs Nil B by (subst parse_paths_from.simps) (simp add: paths_text_def rd_middle wr_middle skip_delimit_def)
  next
    case (Cons p2 ps2)
    then have ne: "ps \<noteq> []" by simp
    have t: "paths_text (p # ps) = path_text p @ [44] @ paths_text ps" using Cons by (simp add: paths_text_def)
    have "parse_path resolve b (paths_text (p # ps)) = (Some ([44] @ paths_text ps), q)"
      using parse_path_text [of p resolve q "[44] @ paths_text ps"] Cons.prems(1) qs(2) unfolding t by simp
    moreover have "paths_text ps = [] \<or> hd (paths_text ps) \<notin> set blanks"
      using path_text_start [of p2] Cons.prems(1) Cons by (cases ps2) (auto simp: paths_text_def)
    then have "skip_delimit [44] ([44] @ paths_text ps) = Some (paths_text ps)" by (intro skip_delimit_found) (simp_all add: blanks_def)
    moreover have "parse_paths_from resolve ((A @ [q]) @ B') (length (A @ [q])) num (n + 1) (paths_text ps) =
        Some ((A @ [q]) @ qs' @ drop (length ps) B', n + 1 + length ps, [])"
      using Cons.prems B qs(3) ne by (intro Cons.IH) simp_all
    ultimately show ?thesis using i qs(1) B by (subst parse_paths_from.simps) (simp add: rd_middle wr_middle)
  qed
qed simp

section \<open>Reading the table back\<close>

definition pad :: "nat \<Rightarrow> nat list \<Rightarrow> int list" where
  "pad dups r = map int r @ replicate (dups - length r) (-1)"

lemma length_pad [simp]: "length r \<le> dups \<Longrightarrow> length (pad dups r) = dups"
  by (simp add: pad_def)

text \<open>What follows a row: the end, or a semicolon.\<close>

lemma parse_row_text:
  assumes "s = [] \<or> hd s = 59" "\<forall>n \<in> set r. n < 2 ^ 31" "length A = i * dups + j" "j + length r \<le> dups" "length r \<le> length B"
  shows "parse_row (A @ B) i dups j (join [44] (map decimal r) @ s) = Some (A @ map int r @ drop (length r) B, s)"
  using assms(2-5)
proof (induction r arbitrary: A B j)
  case Nil
  have "scan_int s = None" using assms(1) by (cases s) (auto simp: scan_int_def is_space_def is_digit_def Let_def)
  then show ?case by (subst parse_row.simps) simp
next
  case (Cons n r)
  have j: "j < dups" using Cons.prems(3) by simp
  obtain b B' where B: "B = b # B'" using Cons.prems(4) by (cases B) auto
  have range: "- (2 ^ 31) \<le> int n \<and> int n < 2 ^ 31" using Cons.prems(1) by simp
  have w: "wr (A @ B) (i * dups + j) (int n) = Some ((A @ [int n]) @ B')" using Cons.prems(2) B by (simp add: wr_middle)
  show ?case
  proof (cases r)
    case Nil
    have "scan_int (decimal n @ s) = Some (int n, s)" using assms(1) digits_no by (intro scan_decimal) auto
    moreover have "skip_delimit [44] s = None" using assms(1) by (intro skip_delimit_missing; cases s) (auto simp: blanks_def)
    ultimately show ?thesis using j range w Nil B by (subst parse_row.simps) simp
  next
    case (Cons n2 r2)
    let ?t = "join [44] (map decimal r) @ s"
    have "join [44] (map decimal (n # r)) @ s = decimal n @ [44] @ ?t" using Cons by simp
    moreover have "scan_int (decimal n @ [44] @ ?t) = Some (int n, [44] @ ?t)" using digits_no by (intro scan_decimal) simp
    moreover have "skip_delimit [44] ([44] @ ?t) = Some ?t"
    proof (rule skip_delimit_found)
      obtain c cs where d: "decimal n2 = c # cs" using decimal_digits(2) by (cases "decimal n2") auto
      then have "is_digit c" using decimal_digits(1) [of n2] by simp
      then have "c \<notin> set blanks" using digits_no by (auto simp: blanks_def)
      then show "?t = [] \<or> hd ?t \<notin> set blanks" using Cons d by (cases r2) simp_all
    qed (simp_all add: blanks_def)
    moreover have "parse_row ((A @ [int n]) @ B') i dups (Suc j) ?t = Some ((A @ [int n]) @ map int r @ drop (length r) B', s)"
      using Cons.prems B by (intro Cons.IH) simp_all
    ultimately show ?thesis using j range w B by (subst parse_row.simps) simp
  qed
qed

lemma row_text_start: "s = [] \<or> hd s = 59 \<Longrightarrow> join [44] (map decimal r) @ s = [] \<or> hd (join [44] (map decimal r) @ s) \<notin> set blanks"
proof -
  assume s: "s = [] \<or> hd s = 59"
  show ?thesis
  proof (cases r)
    case Nil
    then show ?thesis using s by (auto simp: blanks_def)
  next
    case (Cons n r')
    obtain c cs where d: "decimal n = c # cs" using decimal_digits(2) by (cases "decimal n") auto
    then have "is_digit c" using decimal_digits(1) [of n] by simp
    then have "c \<notin> set blanks" using digits_no by (auto simp: blanks_def)
    then show ?thesis using Cons d by (cases r') simp_all
  qed
qed

lemma parse_rows_text:
  assumes "\<forall>r \<in> set rows. length r \<le> dups \<and> (\<forall>n \<in> set r. n < 2 ^ 31)" "length A = i * dups" "i + length rows \<le> seqs" "rows \<noteq> []"
  shows "parse_rows (A @ replicate (length rows * dups) (-1) @ T) i seqs dups (rows_text rows) = Some (A @ concat (map (pad dups) rows) @ T, [])"
  using assms
proof (induction rows arbitrary: A i)
  case (Cons r rows)
  have i: "i < seqs" using Cons.prems(3) by simp
  have r: "length r \<le> dups" "\<forall>n \<in> set r. n < 2 ^ 31" using Cons.prems(1) by simp_all
  let ?B = "replicate (length (r # rows) * dups) (-1) @ T"
  let ?B' = "replicate (length rows * dups) (-1) @ T"
  have drop: "map int r @ drop (length r) ?B = pad dups r @ ?B'" using r(1) by (simp add: pad_def add_diff_assoc flip: replicate_add)
  have row: "parse_row (A @ ?B) i dups 0 (join [44] (map decimal r) @ s) = Some (A @ pad dups r @ ?B', s)" if "s = [] \<or> hd s = 59" for s
    using parse_row_text [OF that r(2), of A i dups 0 ?B] Cons.prems(2) r(1) unfolding drop by simp
  show ?case
  proof (cases rows)
    case Nil
    then show ?thesis using row [of "[]"] i by (subst parse_rows.simps) (simp add: rows_text_def skip_delimit_def)
  next
    case (Cons r2 rows2)
    then have ne: "rows \<noteq> []" by simp
    have t: "rows_text (r # rows) = join [44] (map decimal r) @ [59] @ rows_text rows" using Cons by (simp add: rows_text_def)
    have "rows_text rows = join [44] (map decimal r2) @ (if rows2 = [] then [] else [59] @ rows_text rows2)" using Cons by (cases rows2) (simp_all add: rows_text_def)
    then have "rows_text rows = [] \<or> hd (rows_text rows) \<notin> set blanks" using row_text_start [of "if rows2 = [] then [] else [59] @ rows_text rows2" r2] by auto
    then have "skip_delimit [59] ([59] @ rows_text rows) = Some (rows_text rows)" by (intro skip_delimit_found) (simp_all add: blanks_def)
    moreover have "parse_rows ((A @ pad dups r) @ ?B') (Suc i) seqs dups (rows_text rows) = Some ((A @ pad dups r) @ concat (map (pad dups) rows) @ T, [])"
      using Cons.prems ne r(1) by (intro Cons.IH) simp_all
    ultimately show ?thesis using row [of "[59] @ rows_text rows"] i unfolding t by (subst parse_rows.simps) simp
  qed
qed simp

lemma clear_table_spec:
  assumes "seqs * dups \<le> length table"
  shows "clear_table table seqs dups = Some (replicate (seqs * dups) (-1) @ drop (seqs * dups) table)"
proof -
  let ?out = "\<lambda>n. replicate n (-1) @ drop n table"
  have row: "for_up 0 dups (\<lambda>j table. wr table (i * dups + j) (-1)) (?out (i * dups)) = Some (?out (Suc i * dups))" if "i < seqs" for i
  proof -
    have "\<exists>t. for_up 0 dups (\<lambda>j table. wr table (i * dups + j) (-1)) (?out (i * dups)) = Some t \<and> t = ?out (i * dups + dups)"
    proof (rule for_up_rule [where P = "\<lambda>j t. t = ?out (i * dups + j)"])
      fix j t assume j: "j < dups" and t: "t = ?out (i * dups + j)"
      have "i * dups + j < length table" using row_bound [OF that j] assms by simp
      then have "drop (i * dups + j) table = table ! (i * dups + j) # drop (i * dups + Suc j) table" by (simp add: Cons_nth_drop_Suc)
      moreover have "wr (replicate (i * dups + j) (-1) @ table ! (i * dups + j) # drop (i * dups + Suc j) table) (i * dups + j) (-1) =
          Some (?out (i * dups + Suc j))" by (simp add: wr_middle replicate_append_same)
      ultimately show "\<exists>t'. wr t (i * dups + j) (-1) = Some t' \<and> t' = ?out (i * dups + Suc j)" using t by simp
    qed simp_all
    then show ?thesis by (simp add: add.commute)
  qed
  have "\<exists>t. for_up 0 seqs (\<lambda>i table. for_up 0 dups (\<lambda>j table. wr table (i * dups + j) (-1)) table) table = Some t \<and> t = ?out (seqs * dups)"
  proof (rule for_up_rule [where P = "\<lambda>i t. t = ?out (i * dups)"])
    fix i t assume i: "i < seqs" and t: "t = ?out (i * dups)"
    show "\<exists>t'. for_up 0 dups (\<lambda>j table. wr table (i * dups + j) (-1)) t = Some t' \<and> t' = ?out (Suc i * dups)" using row [OF i] t by simp
  qed simp_all
  then show ?thesis by (simp add: clear_table_def)
qed

section \<open>From the texts to the paths of a packet\<close>

lemma table_row_Suc: "length b = d \<Longrightarrow> table_row (b @ xs) (int d) (Suc i) = table_row xs (int d) i"
  by (simp add: table_row_def nth_append)

lemma table_row_concat:
  "\<forall>b \<in> set bs. length b = d \<Longrightarrow> i < length bs \<Longrightarrow> table_row (concat bs @ T) (int d) i = bs ! i"
proof (induction bs arbitrary: i)
  case (Cons b bs)
  then have b: "length b = d" by simp
  show ?case
  proof (cases i)
    case 0
    show ?thesis using b 0 by (intro nth_equalityI) (simp_all add: table_row_nth nth_append)
  next
    case (Suc k)
    have "table_row (b @ concat bs @ T) (int d) (Suc k) = table_row (concat bs @ T) (int d) k" by (rule table_row_Suc [OF b])
    then show ?thesis using Cons.IH [of k] Cons.prems Suc by simp
  qed
qed simp

lemma takeWhile_pad: "takeWhile (\<lambda>n. 0 \<le> n) (pad dups r) = map int r"
proof -
  have "takeWhile (\<lambda>n. 0 \<le> n) (map int r @ ys) = map int r @ takeWhile (\<lambda>n. 0 \<le> n) ys" for ys by (induction r) simp_all
  then show ?thesis by (cases "dups - length r") (simp_all add: pad_def)
qed

lemma concat_replicate_replicate: "concat (replicate n (replicate d x)) = replicate (n * d) x"
  by (induction n) (simp_all add: replicate_add)

lemma takeWhile_pads:
  "(\<And>r. r \<in> set rows \<Longrightarrow> 0 \<le> hd (pad dups r)) \<Longrightarrow>
    takeWhile (\<lambda>r. 0 \<le> hd r) (map (pad dups) rows @ ys) = map (pad dups) rows @ takeWhile (\<lambda>r. 0 \<le> hd r) ys"
  by (induction rows) simp_all

text \<open>The table that the parser builds, as the rows of the distributor.\<close>

lemma parse_seq2addr_text:
  assumes rows: "rows \<noteq> []" "length rows \<le> seqs" "\<forall>r \<in> set rows. r \<noteq> [] \<and> length r \<le> dups \<and> (\<forall>n \<in> set r. n < 2 ^ 31)"
    and table: "seqs * dups \<le> length table"
  shows "\<exists>table'. parse_seq2addr table (int seqs) (int dups) (rows_text rows) = Some (table', []) \<and> length table' = length table \<and>
    table_rows table' (int dups) seqs = map (pad dups) rows"
proof -
  let ?k = "seqs - length rows" let ?T = "drop (seqs * dups) table"
  define rs where "rs = map (pad dups) rows @ replicate ?k (replicate dups (-1))"
  let ?t = "concat rs @ ?T"
  have "replicate (seqs * dups) (-1 :: int) = replicate (length rows * dups) (-1) @ replicate (?k * dups) (-1)"
    using rows(2) by (simp flip: replicate_add add_mult_distrib)
  moreover have "concat (replicate ?k (replicate dups (-1 :: int))) = replicate (?k * dups) (-1)" by (rule concat_replicate_replicate)
  moreover have "parse_rows ([] @ replicate (length rows * dups) (-1) @ (replicate (?k * dups) (-1) @ ?T)) 0 seqs dups (rows_text rows) =
      Some ([] @ concat (map (pad dups) rows) @ (replicate (?k * dups) (-1) @ ?T), [])"
    using rows by (intro parse_rows_text) auto
  ultimately have run: "parse_seq2addr table (int seqs) (int dups) (rows_text rows) = Some (?t, [])"
    using table by (simp add: parse_seq2addr_def clear_table_spec rs_def)
  have all: "\<forall>b \<in> set rs. length b = dups" "length rs = seqs" using rows by (auto simp: rs_def)
  have "sum_list (map length rs) = seqs * dups" using all by (induction rs arbitrary: seqs) auto
  then have len: "length ?t = length table" using table by (simp add: length_concat)
  have "map (table_row ?t (int dups)) [0..<seqs] = rs" using all by (intro nth_equalityI) (simp_all add: table_row_concat)
  moreover have "0 \<le> hd (pad dups r)" if "r \<in> set rows" for r using rows(3) that by (cases r) (auto simp: pad_def)
  moreover have "0 < dups" using bspec [OF rows(3) list.set_sel(1) [OF rows(1)]] by (cases dups) auto
  ultimately have "table_rows ?t (int dups) seqs = map (pad dups) rows"
    unfolding table_rows_def rs_def by (cases ?k) (auto simp: takeWhile_pads)
  then show ?thesis using run len by blast
qed

section \<open>The distributor of a configuration\<close>

lemma configured_distributor:
  assumes paths: "list_all path_ok ps" "map (resolve_path resolve) ps = map Some qs" "ps \<noteq> []" "length ps \<le> length fresh" "length ps \<le> 2 ^ 31"
    and rows: "rows \<noteq> []" "length rows \<le> seqs" "\<forall>r \<in> set rows. r \<noteq> [] \<and> length r \<le> dups \<and> (\<forall>n \<in> set r. n < length ps)"
    and table: "seqs * dups \<le> length table"
  shows "\<exists>ps' table' d'. parse_paths resolve fresh (int (length fresh)) (paths_text ps) = Some (ps', int (length ps), []) \<and>
    parse_seq2addr table (int seqs) (int dups) (rows_text rows) = Some (table', []) \<and>
    nt_distributor_init d ps' (int (length ps)) table' (int seqs) (int dups) = Some (True, d') \<and> distributor_ok d' \<and>
    (\<forall>seq dup. nt_distributor_select d' (int seq) (int dup) =
      Some (let r = rows ! (seq mod length rows) in if dup < length r then Some (qs ! (r ! dup)) else None))"
proof -
  define ps' where "ps' = qs @ drop (length ps) fresh"
  have len: "length qs = length ps" using paths(2) by (metis length_map)
  have p: "parse_paths resolve fresh (int (length fresh)) (paths_text ps) = Some (ps', int (length ps), [])"
    using parse_paths_text [OF paths(1,2,3), of "[]" "length fresh" fresh 0] paths(4) by (simp add: parse_paths_def ps'_def)
  have dups: "0 < dups" using bspec [OF rows(3) list.set_sel(1) [OF rows(1)]] by (cases dups) auto
  have "\<forall>r \<in> set rows. r \<noteq> [] \<and> length r \<le> dups \<and> (\<forall>n \<in> set r. n < 2 ^ 31)" using rows(3) paths(5) by fastforce
  then obtain table' where t: "parse_seq2addr table (int seqs) (int dups) (rows_text rows) = Some (table', [])" "length table' = length table"
    "table_rows table' (int dups) seqs = map (pad dups) rows" using parse_seq2addr_text [OF rows(1,2) _ table] by blast
  define d' where "d' = d\<lparr>d_paths := ps', path_num := int (length ps), seq2addr := table', seq_num := int (length rows), dup_num := int dups\<rparr>"
  have range: "\<forall>r \<in> set (map (pad dups) rows). \<forall>n \<in> set r. n < int (length ps)" using rows(3) by (auto simp: pad_def)
  have size: "0 < int dups" "0 \<le> int seqs" "nat (int seqs) * nat (int dups) \<le> length table'" using dups table t(2) by simp_all
  have init: "nt_distributor_init d ps' (int (length ps)) table' (int seqs) (int dups) = Some (True, d')"
    using distributor_init_cases [OF size, of d ps' "int (length ps)"] range t(3) by (simp add: d'_def)
  have "length ps \<le> length ps'" by (simp add: ps'_def len)
  then have "\<forall>r \<in> set (table_rows table' (int dups) (nat (int seqs))). \<forall>n \<in> set r. n < int (length ps')" using range t(3) by fastforce
  then have ok: "distributor_ok d'" using init_ok [OF size, where ps = ps' and d = d and num = "int (length ps)"] t(3) rows(1) by (simp add: d'_def)
  have "nt_distributor_select d' (int seq) (int dup) =
      Some (let r = rows ! (seq mod length rows) in if dup < length r then Some (qs ! (r ! dup)) else None)" for seq dup
  proof -
    let ?i = "seq mod length rows" let ?r = "rows ! ?i"
    have i: "?i < length rows" using rows(1) by simp
    then have row: "table_row table' (int dups) ?i = pad dups ?r" using table_rows_nth [of ?i table' "int dups" seqs] t(3) by simp
    have r: "length ?r \<le> dups" "\<forall>n \<in> set ?r. n < length ps" using rows(3) nth_mem [OF i] by blast+
    have m: "nat (int seq mod int (length rows)) = ?i" by (simp add: zmod_int [symmetric])
    show ?thesis
    proof (cases "dup < dups")
      case True
      have "pad dups ?r ! dup = (if dup < length ?r then int (?r ! dup) else -1)" using True r(1) by (simp add: pad_def nth_append)
      moreover have "dup < length ?r \<Longrightarrow> d_paths d' ! (?r ! dup) = qs ! (?r ! dup)" using r(2) len by (simp add: d'_def ps'_def nth_append)
      ultimately show ?thesis using select_entry [OF ok, of "int seq" "int dup"] True row m by (simp add: d'_def Let_def)
    next
      case False
      then show ?thesis using r(1) by (simp add: nt_distributor_select_def d'_def)
    qed
  qed
  then show ?thesis using p t(1) init ok by blast
qed

section \<open>Properties\<close>

text \<open>
  C19. The configuration means what it says. For every list of resolvable paths, with or without a source, and every
  list of rows of their numbers, written the way the configuration file has them, the parsers read
  both texts to the end, \<open>nt_distributor_init\<close> accepts the result, and \<open>nt_distributor_select\<close> then gives for
  the copy \<open>dup\<close> of the packet \<open>seq\<close> exactly the path that the row of \<open>seq\<close>, counted modulo the number of rows, names at
  \<open>dup\<close>, and nothing beyond the end of that row, whatever the arrays held before.
\<close>

theorem configured_routes:
  assumes paths: "list_all path_ok ps" "map (resolve_path resolve) ps = map Some qs" "ps \<noteq> []" "length ps \<le> length fresh" "length ps \<le> 2 ^ 31"
    and rows: "rows \<noteq> []" "length rows \<le> seqs" "\<forall>r \<in> set rows. r \<noteq> [] \<and> length r \<le> dups \<and> (\<forall>n \<in> set r. n < length ps)"
    and table: "seqs * dups \<le> length table"
  shows "\<exists>ps' table' d'. parse_paths resolve fresh (int (length fresh)) (paths_text ps) = Some (ps', int (length ps), []) \<and>
    parse_seq2addr table (int seqs) (int dups) (rows_text rows) = Some (table', []) \<and>
    nt_distributor_init d ps' (int (length ps)) table' (int seqs) (int dups) = Some (True, d') \<and>
    (\<forall>seq dup. nt_distributor_select d' (int seq) (int dup) =
      Some (let r = rows ! (seq mod length rows) in if dup < length r then Some (qs ! (r ! dup)) else None))"
  using configured_distributor [OF paths rows table, of d] by blast

text \<open>Two paths and three rows, as in the example configuration; the resolver knows only numeric names.\<close>

definition numeric_resolver :: resolver where
  "numeric_resolver name port type = Some (Addr_in (of_nat (length name)) (word_of_int (digits_value port)))"

definition two_texts :: "(endpoint option \<times> endpoint) list" where
  "two_texts = [(Some (str ''10.0.0.1'', str ''4000''), (str ''10.0.0.22'', str ''80'')), (None, (str ''x'', str ''7''))]"

theorem configured_routes_witness:
  "\<exists>ps table d. parse_paths numeric_resolver (replicate 4 (some_path 0)) 4 (str ''10.0.0.1:4000-10.0.0.22:80,x:7'') = Some (ps, 2, []) \<and>
    parse_seq2addr (replicate 12 5) 4 3 (str ''0,1;1;0,0,1'') = Some (table, []) \<and>
    nt_distributor_init some_distributor ps 2 table 4 3 = Some (True, d) \<and>
    nt_distributor_select d 4 1 = Some None \<and>
    nt_distributor_select d 1 0 = Some (Some \<lparr>path_src = Addr_in 7 0, path_dst = Addr_in 1 7\<rparr>)"
proof -
  have texts: "paths_text two_texts = str ''10.0.0.1:4000-10.0.0.22:80,x:7''" "rows_text [[0, 1], [1], [0, 0, 1]] = str ''0,1;1;0,0,1''"
    by code_simp+
  obtain qs where qs: "map (resolve_path numeric_resolver) two_texts = map Some qs" "qs ! 1 = \<lparr>path_src = Addr_in 7 0, path_dst = Addr_in 1 7\<rparr>"
  proof -
    let ?qs = "map (the \<circ> resolve_path numeric_resolver) two_texts"
    have "map (resolve_path numeric_resolver) two_texts = map Some ?qs" by (simp add: two_texts_def resolve_path_def numeric_resolver_def)
    moreover have "?qs ! 1 = \<lparr>path_src = Addr_in 7 0, path_dst = Addr_in 1 7\<rparr>" by code_simp
    ultimately show ?thesis using that by blast
  qed
  have ok: "list_all path_ok two_texts" by (simp add: two_texts_def path_ok_def, intro conjI; code_simp)
  have small: "two_texts \<noteq> []" "length two_texts = 2" by (simp_all add: two_texts_def)
  have c: "length two_texts \<le> length (replicate 4 (some_path 0))" "length two_texts \<le> 2 ^ 31" "[[0 :: nat, 1], [1], [0, 0, 1]] \<noteq> []"
    "length [[0 :: nat, 1], [1], [0, 0, 1]] \<le> 4" "\<forall>r \<in> set [[0, 1], [1], [0, 0, 1]]. r \<noteq> [] \<and> length r \<le> 3 \<and> (\<forall>n \<in> set r. n < length two_texts)"
    "4 * 3 \<le> length (replicate 12 (5 :: int))" using small(2) by simp_all
  obtain ps table d where "parse_paths numeric_resolver (replicate 4 (some_path 0)) (int (length (replicate 4 (some_path 0)))) (paths_text two_texts) = Some (ps, int (length two_texts), [])"
    "parse_seq2addr (replicate 12 5) (int 4) (int 3) (rows_text [[0, 1], [1], [0, 0, 1]]) = Some (table, [])"
    "nt_distributor_init some_distributor ps (int (length two_texts)) table (int 4) (int 3) = Some (True, d)"
    and sel: "\<forall>seq dup. nt_distributor_select d (int seq) (int dup) = Some (let r = [[0, 1], [1], [0, 0, 1]] ! (seq mod length [[0 :: nat, 1], [1], [0, 0, 1]]) in
      if dup < length r then Some (qs ! (r ! dup)) else None)"
    using configured_routes [OF ok qs(1) small(1) c, of some_distributor] by (elim exE conjE)
  moreover have m: "4 mod length [[0 :: nat, 1], [1], [0, 0, 1]] = 1" "1 mod length [[0 :: nat, 1], [1], [0, 0, 1]] = 1" by code_simp+
  moreover have "nt_distributor_select d (int 4) (int 1) = Some None" "nt_distributor_select d (int 1) (int 0) = Some (Some \<lparr>path_src = Addr_in 7 0, path_dst = Addr_in 1 7\<rparr>)"
    unfolding spec [OF spec [OF sel, of 4], of 1] spec [OF spec [OF sel, of 1], of 0] m using qs(2) by simp_all
  ultimately show ?thesis using small(2) unfolding texts by (intro exI [of _ ps] exI [of _ table] exI [of _ d]) simp
qed

end
