(* ===== verification/Nt_Client_Main.thy ===== *)
theory Nt_Client_Main
  imports Nt_Monitor Nt_Paths
begin

text \<open>
  The command-line client, \<^verbatim>\<open>src/src/main/tools/nt_client_main.c\<close>: it sends what it reads from its input as messages, directly or through the
  tunnel, and prints the answers. A handler tells with a number that it has called \<open>dispatcher_stop\<close>.
\<close>

section \<open>Arguments\<close>

definition BUFFER_LEN :: nat where "BUFFER_LEN = 4096"

text \<open>An address is missing as long as its memory is only zeroed.\<close>

record options_t =
  op_use_tunnel :: bool
  op_legacy_api :: bool
  op_to_encrypt :: bool
  op_target_addr :: "address_t option"
  op_tunnel_addr :: "address_t option"

text \<open>The loop over the arguments; behind the last one there is \<open>NULL\<close>, which is no text for an address.\<close>

function options_loop :: "resolver \<Rightarrow> cstring list \<Rightarrow> nat \<Rightarrow> options_t \<Rightarrow> (bool \<times> options_t) option" where
  "options_loop resolve argv i opts =
     (if i < length argv then
        if argv ! i = str ''--legacy'' then options_loop resolve argv (Suc i) (opts\<lparr>op_legacy_api := True\<rparr>)
        else if argv ! i = str ''--encrypt'' then options_loop resolve argv (Suc i) (opts\<lparr>op_to_encrypt := True\<rparr>)
        else if argv ! i = str ''--target'' then do {
          s \<leftarrow> rd argv (Suc i);
          let (r, a) = address_parse resolve (Addr_in 0 0) s;
          ensure (r \<noteq> None);
          options_loop resolve argv (Suc (Suc i)) (opts\<lparr>op_target_addr := Some a\<rparr>)
        }
        else if argv ! i = str ''--tunnel'' then do {
          s \<leftarrow> rd argv (Suc i);
          let (r, a) = address_parse resolve (Addr_in 0 0) s;
          ensure (r \<noteq> None);
          options_loop resolve argv (Suc (Suc i)) (opts\<lparr>op_tunnel_addr := Some a, op_use_tunnel := True\<rparr>)
        }
        else Some (False, opts)
      else Some (True, opts))"
  by pat_completeness auto
termination by (relation "measure (\<lambda>(resolve, argv, i, opts). length argv - i)") auto

declare options_loop.simps [simp del]

definition options_parse :: "resolver \<Rightarrow> cstring list \<Rightarrow> (bool \<times> options_t) option" where
  "options_parse resolve argv = do {
     (ok, opts) \<leftarrow> options_loop resolve argv 1
       \<lparr>op_use_tunnel = False, op_legacy_api = False, op_to_encrypt = False, op_target_addr = None, op_tunnel_addr = None\<rparr>;
     if \<not> ok then Some (False, opts)
     else Some ((case op_target_addr opts of None \<Rightarrow> 0 | Some a \<Rightarrow> address_get_addr4 a) \<noteq> 0, opts)
   }"

text \<open>Arguments that are accepted name a target, and the tunnel if there is one.\<close>

lemma options_loop_tunnel:
  "options_loop resolve argv i opts = Some (ok, opts') \<Longrightarrow> (op_use_tunnel opts \<longleftrightarrow> op_tunnel_addr opts \<noteq> None) \<Longrightarrow>
    op_use_tunnel opts' \<longleftrightarrow> op_tunnel_addr opts' \<noteq> None"
proof (induction resolve argv i opts rule: options_loop.induct)
  case (1 resolve argv i opts)
  show ?case using 1(5)
    by (subst (asm) options_loop.simps) (use 1(1-4,6) in \<open>auto split: if_splits bind_splits prod.splits\<close>)
qed

lemma options_parsed:
  "options_parse resolve argv = Some (True, opts) \<Longrightarrow>
    (\<exists>ip port. op_target_addr opts = Some (Addr_in ip port)) \<and> (op_use_tunnel opts \<longleftrightarrow> op_tunnel_addr opts \<noteq> None)"
  by (auto simp: options_parse_def address_get_addr4_def split: bind_splits if_splits prod.splits option.splits address_t.splits dest: options_loop_tunnel)

section \<open>The handlers\<close>

record context_t =
  cx_options :: options_t
  cx_udp :: udp_t
  cx_sent :: u32
  cx_received :: u32
  cx_to_close :: bool

text \<open>
  \<open>input\<close> is what \<open>read\<close> delivers, nothing for an error, \<open>add_timer\<close> the call of \<open>dispatcher_add_timer\<close>, whose result is ignored. The results
  are the number of a stop, and whether the handler has removed itself.
\<close>

definition stdin_handle_read ::
    "'w kernel \<Rightarrow> (int \<Rightarrow> 'w \<Rightarrow> 'w) \<Rightarrow> u8 list option \<Rightarrow> context_t \<Rightarrow> 'w \<Rightarrow> (context_t \<times> int option \<times> bool \<times> 'w) option" where
  "stdin_handle_read k add_timer input c w = do {
     buffer \<leftarrow> input;
     if buffer = [] then
       if cx_received c = cx_sent c then Some (c, Some 0, False, w)
       else Some (c\<lparr>cx_to_close := True\<rparr>, None, True, add_timer 2000 w)
     else do {
       let opts = cx_options c;
       target \<leftarrow> op_target_addr opts;
       (r, w) \<leftarrow>
         (if op_use_tunnel opts then do {
            tunnel \<leftarrow> op_tunnel_addr opts;
            if op_legacy_api opts then udp_sendto_tunnel k (cx_udp c) buffer (length buffer) target (cx_sent c) tunnel w
            else if op_to_encrypt opts then
              udp_sendto_tunnel2 k (cx_udp c) buffer (length buffer) target (cx_sent c) tunnel NT_ENCRYPT_TYPE_KC 8 w
            else udp_sendto_tunnel2 k (cx_udp c) buffer (length buffer) target (cx_sent c) tunnel NT_ENCRYPT_TYPE_NONE 8 w
          }
          else udp_sendto k (cx_udp c) buffer (length buffer) target w);
       ensure (case r of Inl err \<Rightarrow> False | Inr sent \<Rightarrow> True);
       Some (c\<lparr>cx_sent := cx_sent c + 1\<rparr>, None, False, w)
     }
   }"

text \<open>
  Answers of the tunnel are read as messages of version one, whatever was sent. The third result is what is printed, the text up to the
  first zero. \<open>hdr\<close> and \<open>stack\<close> are contents of the stack.
\<close>

definition udp_handle_read ::
    "'w kernel \<Rightarrow> u8 list \<Rightarrow> (nat \<Rightarrow> u8) \<Rightarrow> udp_t \<Rightarrow> context_t \<Rightarrow> 'w \<Rightarrow> (context_t \<times> int option \<times> u8 list \<times> 'w) option" where
  "udp_handle_read k hdr stack udp c w = do {
     let buffer = map stack [0..<BUFFER_LEN];
     (received, buffer, w) \<leftarrow>
       (if op_use_tunnel (cx_options c) then do {
          (r, w) \<leftarrow> udp_recvfrom_tunnel k udp hdr buffer BUFFER_LEN w;
          (case r of Inl err \<Rightarrow> None | Inr (src, ident, tunnel_addr, received, buffer) \<Rightarrow> Some (received, buffer, w))
        }
        else do {
          (r, w) \<leftarrow> udp_recvfrom k udp buffer BUFFER_LEN w;
          (case r of Inl err \<Rightarrow> None | Inr (received, buffer, src) \<Rightarrow> Some (received, buffer, w))
        });
     let c = c\<lparr>cx_received := cx_received c + 1\<rparr>;
     let stop = (if cx_to_close c \<and> cx_received c = cx_sent c then Some 0 else None);
     buffer \<leftarrow> (if received < BUFFER_LEN then wr buffer received 0 else wr buffer (received - 1) 0);
     Some (c, stop, takeWhile (\<lambda>b. b \<noteq> 0) buffer, w)
   }"

text \<open>The callback of the timer: the number with which it stops the event loop.\<close>

definition client_timer_callback :: "int option" where
  "client_timer_callback = Some 1"

text \<open>\<open>main\<close> up to the event loop; \<open>add1\<close> and \<open>add2\<close> are the results of the registrations.\<close>

definition client_main_start ::
    "resolver \<Rightarrow> 'w syscalls \<Rightarrow> sysret \<Rightarrow> (nat \<Rightarrow> (nat, nat) timer_entry_t entry_t) \<Rightarrow> sysret \<Rightarrow> sysret \<Rightarrow> cstring list \<Rightarrow> 'w \<Rightarrow>
     ((int + context_t \<times> (nat, nat) dispatcher_t) \<times> 'w) option" where
  "client_main_start resolve k ep heap add1 add2 argv w = do {
     (ok, opts) \<leftarrow> options_parse resolve argv;
     if \<not> ok then Some (Inl EINVAL, w)
     else do {
       let (r, w) = udp_init k None False w;
       (case r of
          Inl err \<Rightarrow> None
        | Inr udp \<Rightarrow>
            (case dispatcher_init1 (fst ep) (snd ep) heap 100 of
               Inl err \<Rightarrow> None
             | Inr d \<Rightarrow> do {
                 ensure (dispatcher_add_handler (fst add1) (snd add1) = 0);
                 ensure (dispatcher_add_udp (fst add2) (snd add2) = 0);
                 Some (Inr (\<lparr>cx_options = opts, cx_udp = udp, cx_sent = 0, cx_received = 0, cx_to_close = False\<rparr>, d), w)
               }))
     }
   }"

section \<open>A session\<close>

text \<open>
  What the event loop reports: input, which is empty at its end, a datagram, or the time of the timer. The session ends with the first stop. The
  third result is what is printed.
\<close>

datatype session_event = Input "u8 list" | Answer | Timeout

fun client_session ::
    "'w kernel \<Rightarrow> (int \<Rightarrow> 'w \<Rightarrow> 'w) \<Rightarrow> u8 list \<Rightarrow> (nat \<Rightarrow> u8) \<Rightarrow> session_event list \<Rightarrow> context_t \<Rightarrow> 'w \<Rightarrow> (context_t \<times> int option \<times> u8 list \<times> 'w) option" where
  "client_session k add_timer hdr stack [] c w = Some (c, None, [], w)"
| "client_session k add_timer hdr stack (Input d # es) c w = do {
     (c, stop, removed, w) \<leftarrow> stdin_handle_read k add_timer (Some d) c w;
     if stop \<noteq> None then Some (c, stop, [], w) else client_session k add_timer hdr stack es c w
   }"
| "client_session k add_timer hdr stack (Answer # es) c w = do {
     (c, stop, out, w) \<leftarrow> udp_handle_read k hdr stack (cx_udp c) c w;
     if stop \<noteq> None then Some (c, stop, out, w)
     else do {
       (c, stop, rest, w) \<leftarrow> client_session k add_timer hdr stack es c w;
       Some (c, stop, out @ rest, w)
     }
   }"
| "client_session k add_timer hdr stack (Timeout # es) c w = Some (c, client_timer_callback, [], w)"

text \<open>The pieces of the input in order, with the end; the number of answers; and no answer comes before it was asked for.\<close>

definition inputs :: "session_event list \<Rightarrow> u8 list list" where
  "inputs es = concat (map (\<lambda>e. case e of Input d \<Rightarrow> [d] | _ \<Rightarrow> []) es)"

definition answers :: "session_event list \<Rightarrow> nat" where
  "answers es = length (filter (\<lambda>e. e = Answer) es)"

fun causal :: "nat \<Rightarrow> session_event list \<Rightarrow> bool" where
  "causal n [] \<longleftrightarrow> True"
| "causal n (Input d # es) \<longleftrightarrow> causal (if d = [] then n else Suc n) es"
| "causal n (Answer # es) \<longleftrightarrow> 0 < n \<and> causal (n - 1) es"
| "causal n (Timeout # es) \<longleftrightarrow> False"

lemma inputs_simps [simp]: "inputs [] = []" "inputs (Input d # es) = d # inputs es" "inputs (Answer # es) = inputs es"
  by (simp_all add: inputs_def)

lemma answers_simps [simp]: "answers [] = 0" "answers (Input d # es) = answers es" "answers (Answer # es) = Suc (answers es)"
  by (simp_all add: answers_def)

lemma no_events: "causal n es \<Longrightarrow> inputs es = [] \<Longrightarrow> answers es = 0 \<Longrightarrow> es = []"
  by (cases "(n, es)" rule: causal.cases) auto

text \<open>
  A service that sends every payload back. The queue of datagrams to the client and the timers that are set are the world. Directly, what comes to the
  target is returned as it is. The tunnel answers a message of either version, if it is for the target, with a message of version one from the target, as
  its translation and the service behind it do. Anything else gets no answer.
\<close>

definition tunnel_answer :: "address_t \<Rightarrow> u8 list \<Rightarrow> u8 list list" where
  "tunnel_answer target d =
     (let answer = (\<lambda>ident ip port n. if Addr_in ip port = target then [nt_api_header_bytes (nt_api_header_init ident ip port 0 0 (of_nat n)) @ drop (length d - n) d] else [])
      in if nt_api_header_is_valid d = Some True then
           (case nt_api_header_at d of None \<Rightarrow> []
            | Some h \<Rightarrow> if length d = nt_api_message_size h
                then answer (nt_api_header_id h) (a1_dst_ip h) (a1_dst_port h) (unat (nt_api_header_payload_size h)) else [])
         else if nt_api2_header_is_valid d = Some True then
           (case nt_api2_header_at d of None \<Rightarrow> []
            | Some h \<Rightarrow> if length d = nt_api2_message_size h
                then answer (nt_api2_header_id h) (a2_dst_ip h) (a2_dst_port h) (unat (nt_api2_header_payload_size h)) else [])
         else [])"

type_synonym echo_world = "u8 list list \<times> int list"

definition echo_service :: "address_t \<Rightarrow> address_t option \<Rightarrow> echo_world kernel" where
  "echo_service target tunnel =
     \<lparr>sendmsg = (\<lambda>fd m (q, ts). (Inr (length (concat (msg_iov m))),
        (q @ (if tunnel \<noteq> None \<and> msg_name m = tunnel then tunnel_answer target (concat (msg_iov m)) else []), ts))),
      recvmsg = (\<lambda>fd n (q, ts). case q of [] \<Rightarrow> (Inl 11, (q, ts)) | d # q \<Rightarrow> (Inr (take n d, case_option target id tunnel, []), (q, ts))),
      sendto = (\<lambda>fd d a (q, ts). (Inr (length d), (q @ (if a = target then [d] else []), ts))),
      recvfrom = (\<lambda>fd n (q, ts). case q of [] \<Rightarrow> (Inl 11, (q, ts)) | d # q \<Rightarrow> (Inr (take n d, target), (q, ts)))\<rparr>"

definition set_timer :: "int \<Rightarrow> echo_world \<Rightarrow> echo_world" where
  "set_timer t = (\<lambda>(q, ts). (q, ts @ [t]))"

text \<open>
  What is printed of a piece: the last of 4096 bytes makes room for the zero that ends the text, and the text ends at the first zero.
\<close>

definition shown :: "u8 list \<Rightarrow> u8 list" where
  "shown p = takeWhile (\<lambda>b. b \<noteq> 0) (take (BUFFER_LEN - 1) p)"

definition piece :: "u8 list \<Rightarrow> bool" where
  "piece p \<longleftrightarrow> p \<noteq> [] \<and> length p \<le> BUFFER_LEN"

definition brings :: "options_t \<Rightarrow> u8 list \<Rightarrow> u8 list \<Rightarrow> bool" where
  "brings opts d p \<longleftrightarrow> (if op_use_tunnel opts
     then \<exists>h. d = nt_api_header_bytes h @ p \<and> a1_tag h = NT_API_TAG \<and> unat (nt_api_header_payload_size h) = length p else d = p)"

definition options_ok :: "options_t \<Rightarrow> address_t \<Rightarrow> bool" where
  "options_ok opts target \<longleftrightarrow> op_target_addr opts = Some target \<and> (\<exists>ip port. target = Addr_in ip port) \<and>
     (op_use_tunnel opts \<longleftrightarrow> op_tunnel_addr opts \<noteq> None)"

lemma shown_full: "length p = BUFFER_LEN \<Longrightarrow> 0 \<notin> set p \<Longrightarrow> shown p = butlast p"
  by (auto simp: shown_def butlast_conv_take takeWhile_eq_all_conv dest: in_set_takeD)

text \<open>What the handler prints of a buffer with the piece.\<close>

lemma shown_wr:
  assumes "piece p" "length buf = BUFFER_LEN"
  shows "\<exists>b. (if length p < BUFFER_LEN then wr (p @ drop (length p) buf) (length p) 0 else wr (p @ drop (length p) buf) (length p - 1) 0) = Some b \<and>
    takeWhile (\<lambda>b. b \<noteq> 0) b = shown p"
proof -
  have cut: "takeWhile (\<lambda>b. b \<noteq> 0) (xs @ 0 # r) = takeWhile (\<lambda>b. b \<noteq> 0) xs" for xs r :: "u8 list"
    by (induction xs) auto
  show ?thesis
  proof (cases "length p < BUFFER_LEN")
    case True
    then have "wr (p @ drop (length p) buf) (length p) 0 = Some (p @ 0 # drop (Suc (length p)) buf)"
      using assms(2) by (simp add: wr_def list_update_append Cons_nth_drop_Suc [symmetric])
    then show ?thesis using True by (simp add: cut shown_def)
  next
    case False
    then have n: "length p = BUFFER_LEN" "BUFFER_LEN = Suc (BUFFER_LEN - 1)" using assms(1) by (simp_all add: piece_def BUFFER_LEN_def)
    then have "wr (p @ drop (length p) buf) (length p - 1) 0 = Some (take (BUFFER_LEN - 1) p @ [0])"
      using assms(2) by (simp add: wr_def upd_conv_take_nth_drop)
    then show ?thesis using False by (simp add: cut [where r = "[]"] shown_def)
  qed
qed

lemma handle_answer:
  assumes d: "brings (cx_options c) d p" and p: "piece p" and hdr: "length hdr = 19"
  shows "udp_handle_read (echo_service target tunnel) hdr stack (cx_udp c) c (d # q, ts) =
    Some (c\<lparr>cx_received := cx_received c + 1\<rparr>, if cx_to_close c \<and> cx_received c + 1 = cx_sent c then Some 0 else None, shown p, (q, ts))"
proof -
  let ?buf = "map stack [0..<BUFFER_LEN]"
  have len: "length p \<le> BUFFER_LEN" "BUFFER_LEN \<le> length ?buf" using p by (simp_all add: piece_def)
  obtain b where b: "(if length p < BUFFER_LEN then wr (p @ drop (length p) ?buf) (length p) 0 else wr (p @ drop (length p) ?buf) (length p - 1) 0) = Some b"
    "takeWhile (\<lambda>b. b \<noteq> 0) b = shown p" using shown_wr [OF p, of ?buf] by auto
  have read: "(if op_use_tunnel (cx_options c) then do {
          (r, w) \<leftarrow> udp_recvfrom_tunnel (echo_service target tunnel) (cx_udp c) hdr ?buf BUFFER_LEN (d # q, ts);
          (case r of Inl err \<Rightarrow> None | Inr (src, ident, tunnel_addr, received, buffer) \<Rightarrow> Some (received, buffer, w))
        }
        else do {
          (r, w) \<leftarrow> udp_recvfrom (echo_service target tunnel) (cx_udp c) ?buf BUFFER_LEN (d # q, ts);
          (case r of Inl err \<Rightarrow> None | Inr (received, buffer, src) \<Rightarrow> Some (received, buffer, w))
        }) = Some (length p, p @ drop (length p) ?buf, (q, ts))"
  proof (cases "op_use_tunnel (cx_options c)")
    case True
    then obtain h where h: "d = nt_api_header_bytes h @ p" "a1_tag h = NT_API_TAG" "unat (nt_api_header_payload_size h) = length p"
      using d by (auto simp: brings_def)
    have "recvmsg (echo_service target tunnel) (udp_fd (cx_udp c)) (19 + BUFFER_LEN) (d # q, ts) =
        (Inr (nt_api_header_bytes h @ p, case_option target id tunnel, []), (q, ts))"
      using len(1) by (simp add: echo_service_def h(1) header_lengths)
    from recvfrom_tunnel_message [OF this h(2,3) len hdr] show ?thesis using True by simp
  next
    case False
    then have "d = p" using d by (simp add: brings_def)
    then show ?thesis using False len by (simp add: udp_recvfrom_def echo_service_def fill_short)
  qed
  show ?thesis unfolding udp_handle_read_def Let_def read using b by (cases "length p < BUFFER_LEN") simp_all
qed

lemma echo_service_send:
  "udp_send_v (echo_service target tunnel) udp iov None (Some t) (q, ts) =
    (Inr (length (concat iov)), (q @ (if tunnel = Some t then tunnel_answer target (concat iov) else []), ts))"
  by (simp add: udp_send_v_def send_v_def echo_service_def)

lemma tunnel_answer_message:
  assumes "length p < 65536"
  shows "tunnel_answer (Addr_in ip port) (nt_api_header_bytes (nt_api_header_init i sip sport ip port (of_nat (length p))) @ p) =
      [nt_api_header_bytes (nt_api_header_init i ip port 0 0 (of_nat (length p))) @ p]"
    and "e < NT_ENCRYPT_TYPE_NUM \<Longrightarrow> tunnel_answer (Addr_in ip port) (nt_api2_header_bytes (nt_api2_header_init i sip sport ip port e ttl (of_nat (length p))) @ p) =
      [nt_api_header_bytes (nt_api_header_init i ip port 0 0 (of_nat (length p))) @ p]"
proof -
  have "NT_API2_TAG \<noteq> NT_API_TAG" by (simp add: NT_API2_TAG_def NT_API_TAG_def)
  moreover have "unat (of_nat (length p) :: u16) = length p" using assms by (rule unat_of_nat_u16)
  ultimately show "tunnel_answer (Addr_in ip port) (nt_api_header_bytes (nt_api_header_init i sip sport ip port (of_nat (length p))) @ p) =
      [nt_api_header_bytes (nt_api_header_init i ip port 0 0 (of_nat (length p))) @ p]"
    and "e < NT_ENCRYPT_TYPE_NUM \<Longrightarrow> tunnel_answer (Addr_in ip port) (nt_api2_header_bytes (nt_api2_header_init i sip sport ip port e ttl (of_nat (length p))) @ p) =
      [nt_api_header_bytes (nt_api_header_init i ip port 0 0 (of_nat (length p))) @ p]"
    by (simp_all add: tunnel_answer_def header_lengths length_nt_api2_header_bytes nt_api2_header_at_bytes)
qed

lemma handle_input:
  assumes opts: "options_ok (cx_options c) target" and p: "piece p"
  shows "\<exists>d. stdin_handle_read (echo_service target (op_tunnel_addr (cx_options c))) set_timer (Some p) c (q, ts) =
    Some (c\<lparr>cx_sent := cx_sent c + 1\<rparr>, None, False, (q @ [d], ts)) \<and> brings (cx_options c) d p"
proof -
  have len: "length p < 65536" "p \<noteq> []" using p by (simp_all add: piece_def BUFFER_LEN_def)
  obtain ip port where a: "op_target_addr (cx_options c) = Some target" "target = Addr_in ip port" using opts by (auto simp: options_ok_def)
  show ?thesis
  proof (cases "op_use_tunnel (cx_options c)")
    case True
    then obtain t where t: "op_tunnel_addr (cx_options c) = Some t" using opts by (auto simp: options_ok_def)
    let ?d = "nt_api_header_bytes (nt_api_header_init (cx_sent c) ip port 0 0 (of_nat (length p))) @ p"
    have "brings (cx_options c) ?d p" using True len(1) unat_of_nat_u16 [OF len(1)] by (auto simp: brings_def)
    moreover have "NT_ENCRYPT_TYPE_KC < NT_ENCRYPT_TYPE_NUM" "NT_ENCRYPT_TYPE_NONE < NT_ENCRYPT_TYPE_NUM"
      by (simp_all add: NT_ENCRYPT_TYPE_KC_def NT_ENCRYPT_TYPE_NONE_def NT_ENCRYPT_TYPE_NUM_def)
    ultimately show ?thesis using True t a len(2) tunnel_answer_message [OF len(1)]
      by (intro exI [of _ ?d], cases "op_legacy_api (cx_options c)"; cases "op_to_encrypt (cx_options c)")
        (simp_all add: stdin_handle_read_def udp_sendto_tunnel_def udp_sendto_tunnel2_def echo_service_send address_get_addr4_def address_get_port_def Let_def)
  next
    case False
    then show ?thesis using a len(2) by (simp add: stdin_handle_read_def udp_sendto_def echo_service_def brings_def)
  qed
qed

lemma of_nat_eq_u32: "m < 2 ^ 32 \<Longrightarrow> n < 2 ^ 32 \<Longrightarrow> (of_nat m :: u32) = of_nat n \<longleftrightarrow> m = n"
  by (auto dest: arg_cong [where f = unat] simp: unat_of_nat)

lemma causal_answers: "causal n es \<Longrightarrow> answers es \<le> n + length (filter (\<lambda>d. d \<noteq> []) (inputs es))"
  by (induction n es rule: causal.induct) (auto split: if_splits)

text \<open>
  The pieces \<open>ps\<close> are on their way, the pieces \<open>cs\<close> are still to come. If all answers come, the session ends with the last event; if not, the timer,
  which is set at the end of the input, ends it.
\<close>

lemma client_session_spec:
  assumes hdr: "length hdr = 19"
  shows "options_ok (cx_options c) target \<Longrightarrow> list_all piece (ps @ cs) \<Longrightarrow> list_all2 (brings (cx_options c)) q ps \<Longrightarrow>
    inputs es = (if cx_to_close c then [] else cs @ [[]]) \<Longrightarrow> (cx_to_close c \<longrightarrow> cs = [] \<and> ps \<noteq> []) \<Longrightarrow> ts = (if cx_to_close c then [2000] else []) \<Longrightarrow>
    causal (length ps) es \<Longrightarrow> cx_sent c = of_nat (r + length ps) \<Longrightarrow> cx_received c = of_nat r \<Longrightarrow> r + length ps + length cs < 2 ^ 32 \<Longrightarrow>
    if answers es = length ps + length cs
    then \<exists>c'. client_session (echo_service target (op_tunnel_addr (cx_options c))) set_timer hdr stack es c (q, ts) =
        Some (c', Some 0, concat (map shown (ps @ cs)), ([], if last es = Answer then [2000] else [])) \<and>
      cx_sent c' = of_nat (r + length ps + length cs) \<and> cx_received c' = of_nat (r + length ps + length cs)
    else \<exists>c' q'. client_session (echo_service target (op_tunnel_addr (cx_options c))) set_timer hdr stack (es @ [Timeout]) c (q, ts) =
        Some (c', Some 1, concat (map shown (take (answers es) (ps @ cs))), (q', [2000])) \<and>
      cx_sent c' = of_nat (r + length ps + length cs) \<and> cx_received c' = of_nat (r + answers es)"
proof (induction es arbitrary: c ps cs q r ts)
  case Nil
  then show ?case by (auto simp: client_timer_callback_def split: if_splits)
next
  case (Cons e es)
  let ?k = "echo_service target (op_tunnel_addr (cx_options c))"
  show ?case
  proof (cases e)
    case Timeout
    then show ?thesis using Cons.prems(7) by simp
  next
    case Answer
    then obtain p ps' where ps: "ps = p # ps'" using Cons.prems(7) by (cases ps) auto
    obtain d q' where q: "q = d # q'" "brings (cx_options c) d p" "list_all2 (brings (cx_options c)) q' ps'"
      using Cons.prems(3) by (auto simp: ps list_all2_Cons2)
    have p: "piece p" using Cons.prems(2) ps by simp
    have causal: "causal (length ps') es" "inputs es = inputs (e # es)" using Cons.prems(7) ps Answer by simp_all
    let ?c = "c\<lparr>cx_received := cx_received c + 1\<rparr>"
    have eq: "cx_received c + 1 = cx_sent c \<longleftrightarrow> ps' = []"
    proof -
      have "cx_received c + 1 = of_nat (Suc r)" using Cons.prems(9) by simp
      then show ?thesis using Cons.prems(8,10) of_nat_eq_u32 [of "Suc r" "r + length ps"] ps by simp
    qed
    note step = handle_answer [OF q(2) p hdr, of target "op_tunnel_addr (cx_options c)" stack q' ts]
    show ?thesis
    proof (cases "cx_to_close c \<and> ps' = []")
      case True
      then have es: "es = []" using no_events [OF causal(1)] causal_answers [OF causal(1)] causal(2) Cons.prems(4) by simp
      then show ?thesis using True step eq q(1,3) Cons.prems(5,6,8,9) ps by (simp add: Answer add.commute)
    next
      case False
      have IH: "if answers es = length ps' + length cs
        then \<exists>c'. client_session (echo_service target (op_tunnel_addr (cx_options ?c))) set_timer hdr stack es ?c (q', ts) =
            Some (c', Some 0, concat (map shown (ps' @ cs)), ([], if last es = Answer then [2000] else [])) \<and>
          cx_sent c' = of_nat (Suc r + length ps' + length cs) \<and> cx_received c' = of_nat (Suc r + length ps' + length cs)
        else \<exists>c' q''. client_session (echo_service target (op_tunnel_addr (cx_options ?c))) set_timer hdr stack (es @ [Timeout]) ?c (q', ts) =
            Some (c', Some 1, concat (map shown (take (answers es) (ps' @ cs))), (q'', [2000])) \<and>
          cx_sent c' = of_nat (Suc r + length ps' + length cs) \<and> cx_received c' = of_nat (Suc r + answers es)"
        by (rule Cons.IH) (use Cons.prems False q(3) ps Answer in \<open>auto split: if_splits\<close>)
      have "es \<noteq> []" if "answers es = length ps' + length cs" using that False Cons.prems(4) Answer by (auto split: if_splits)
      then show ?thesis using IH step eq False q(1) ps by (cases "answers es = length ps' + length cs") (auto simp: Answer)
    qed
  next
    case (Input d)
    then have cs: "\<not> cx_to_close c" "cs @ [[]] = d # inputs es" "ts = []" using Cons.prems(4,6) by (auto split: if_splits)
    consider "cs = []" | p cs' where "cs = p # cs'" by (cases cs) auto
    then show ?thesis
    proof cases
      case 1
      then have d: "d = []" "inputs es = []" using cs(2) by auto
      have causal: "causal (length ps) es" using Cons.prems(7) d(1) Input by simp
      have eq: "cx_received c = cx_sent c \<longleftrightarrow> ps = []" using Cons.prems(8,9,10) of_nat_eq_u32 [of r "r + length ps"] by simp
      show ?thesis
      proof (cases "ps = []")
        case True
        then have "es = []" using no_events [OF causal] causal_answers [OF causal] d(2) by simp
        then show ?thesis using True eq 1 d cs(3) Cons.prems(3,8,9) by (simp add: Input stdin_handle_read_def)
      next
        case False
        let ?c = "c\<lparr>cx_to_close := True\<rparr>"
        have "if answers es = length ps + length ([] :: u8 list list)
          then \<exists>c'. client_session (echo_service target (op_tunnel_addr (cx_options ?c))) set_timer hdr stack es ?c (q, [2000]) =
              Some (c', Some 0, concat (map shown (ps @ [])), ([], if last es = Answer then [2000] else [])) \<and>
            cx_sent c' = of_nat (r + length ps + length ([] :: u8 list list)) \<and> cx_received c' = of_nat (r + length ps + length ([] :: u8 list list))
          else \<exists>c' q'. client_session (echo_service target (op_tunnel_addr (cx_options ?c))) set_timer hdr stack (es @ [Timeout]) ?c (q, [2000]) =
              Some (c', Some 1, concat (map shown (take (answers es) (ps @ []))), (q', [2000])) \<and>
            cx_sent c' = of_nat (r + length ps + length ([] :: u8 list list)) \<and> cx_received c' = of_nat (r + answers es)"
          by (rule Cons.IH) (use Cons.prems False 1 d causal in auto)
        then show ?thesis using eq False 1 d cs(3) by (cases "answers es = length ps") (auto simp: Input stdin_handle_read_def set_timer_def)
      qed
    next
      case (2 p cs')
      then have d: "d = p" "inputs es = cs' @ [[]]" using cs(2) by auto
      have p: "piece p" using Cons.prems(2) 2 by simp
      obtain x where x: "stdin_handle_read ?k set_timer (Some p) c (q, ts) = Some (c\<lparr>cx_sent := cx_sent c + 1\<rparr>, None, False, (q @ [x], ts))" "brings (cx_options c) x p"
        using handle_input [OF Cons.prems(1) p] by blast
      have p0: "p \<noteq> []" using p by (simp add: piece_def)
      let ?c = "c\<lparr>cx_sent := cx_sent c + 1\<rparr>"
      have "if answers es = length (ps @ [p]) + length cs'
        then \<exists>c'. client_session (echo_service target (op_tunnel_addr (cx_options ?c))) set_timer hdr stack es ?c (q @ [x], ts) =
            Some (c', Some 0, concat (map shown ((ps @ [p]) @ cs')), ([], if last es = Answer then [2000] else [])) \<and>
          cx_sent c' = of_nat (r + length (ps @ [p]) + length cs') \<and> cx_received c' = of_nat (r + length (ps @ [p]) + length cs')
        else \<exists>c' q'. client_session (echo_service target (op_tunnel_addr (cx_options ?c))) set_timer hdr stack (es @ [Timeout]) ?c (q @ [x], ts) =
            Some (c', Some 1, concat (map shown (take (answers es) ((ps @ [p]) @ cs'))), (q', [2000])) \<and>
          cx_sent c' = of_nat (r + length (ps @ [p]) + length cs') \<and> cx_received c' = of_nat (r + answers es)"
        by (rule Cons.IH) (use Cons.prems cs(1) 2 d x(2) p0 Input in \<open>auto intro!: list_all2_appendI\<close>)
      moreover have "es \<noteq> []" using d(2) by auto
      ultimately show ?thesis using x(1) d(1) 2 by (cases "answers es = length ps + Suc (length cs')") (auto simp: Input)
    qed
  qed
qed

section \<open>Properties\<close>

text \<open>
  C38. The client sends its input to a service that echoes, and prints the answers. If the arguments are accepted, directly or through the tunnel, with the
  old interface or the new one, encrypted or not, the program starts. Its input comes in pieces of 1 to 4096 bytes of any values and then ends; the
  pieces, the end and the answers arrive in any order in which no answer comes before its message. Each piece is sent to the target, through the tunnel if there is
  one, and what the program prints is the pieces that have been answered, in order, each up to its first zero and without the last of 4096 bytes. If all
  answers come, the program stops with 0 at the last event, with as many answers as messages counted, and has set a timer of two seconds
  exactly if an answer was missing at the end of the input. If answers are missing when the time of the timer comes, it stops with 1.
\<close>

theorem client_echoes:
  assumes start: "client_main_start resolve k ep heap add1 add2 argv w = Some (Inr (c, d), w')"
    and es: "inputs es = cs @ [[]]" "causal 0 es" and cs: "list_all piece cs" "length cs < 2 ^ 32" and hdr: "length hdr = 19"
  shows "\<exists>target. op_target_addr (cx_options c) = Some target \<and>
    (if answers es = length cs
     then \<exists>c'. client_session (echo_service target (op_tunnel_addr (cx_options c))) set_timer hdr stack es c ([], []) =
         Some (c', Some 0, concat (map shown cs), ([], if last es = Answer then [2000] else [])) \<and>
       cx_sent c' = of_nat (length cs) \<and> cx_received c' = of_nat (length cs)
     else answers es < length cs \<and>
       (\<exists>c' q. client_session (echo_service target (op_tunnel_addr (cx_options c))) set_timer hdr stack (es @ [Timeout]) c ([], []) =
         Some (c', Some 1, concat (map shown (take (answers es) cs)), (q, [2000])) \<and>
       cx_sent c' = of_nat (length cs) \<and> cx_received c' = of_nat (answers es)))"
proof -
  have c: "cx_sent c = 0" "cx_received c = 0" "\<not> cx_to_close c" and parse: "options_parse resolve argv = Some (True, cx_options c)"
    using start by (auto simp: client_main_start_def split: bind_splits if_splits sum.splits prod.splits)
  obtain target where target: "op_target_addr (cx_options c) = Some target" "options_ok (cx_options c) target"
    using options_parsed [OF parse] by (auto simp: options_ok_def)
  have "answers es \<le> length cs" using causal_answers [OF es(2)] es(1) by (auto intro: order_trans [OF _ length_filter_le])
  then show ?thesis
    using client_session_spec [OF hdr target(2), where ps = "[]" and cs = cs and q = "[]" and r = 0 and es = es and ts = "[]" and stack = stack] c es cs target(1)
    by (cases "answers es = length cs") simp_all
qed

theorem client_echoes_witness:
  "\<exists>c d c'. client_main_start numeric_resolver fine_syscalls (5, 0) (\<lambda>_. some_timer) (0, 0) (0, 0)
      [str ''client'', str ''--target'', str ''1.2.3.4:80'', str ''--tunnel'', str ''127.0.0.1:90'', str ''--encrypt''] () = Some (Inr (c, d), ()) \<and>
    client_session (echo_service (Addr_in 7 80) (Some (Addr_in 9 90))) set_timer (replicate 19 1) (\<lambda>_. 7)
        [Input (str ''ab''), Input [99, 0, 98], Answer, Input [], Answer] c ([], []) =
      Some (c', Some 0, str ''abc'', ([], [2000]))"
proof -
  have a: "address_parse numeric_resolver (Addr_in 0 0) (str ''1.2.3.4:80'') = (Some [], Addr_in 7 80)"
    "address_parse numeric_resolver (Addr_in 0 0) (str ''127.0.0.1:90'') = (Some [], Addr_in 9 90)" by code_simp+
  let ?argv = "[str ''client'', str ''--target'', str ''1.2.3.4:80'', str ''--tunnel'', str ''127.0.0.1:90'', str ''--encrypt'']"
  have neq: "str ''--target'' \<noteq> str ''--legacy''" "str ''--target'' \<noteq> str ''--encrypt''" "str ''--tunnel'' \<noteq> str ''--legacy''"
    "str ''--tunnel'' \<noteq> str ''--encrypt''" "str ''--tunnel'' \<noteq> str ''--target''" "str ''--encrypt'' \<noteq> str ''--legacy''" by code_simp+
  let ?opts = "\<lparr>op_use_tunnel = True, op_legacy_api = False, op_to_encrypt = True, op_target_addr = Some (Addr_in 7 80), op_tunnel_addr = Some (Addr_in 9 90)\<rparr>"
  have parse: "options_parse numeric_resolver ?argv = Some (True, ?opts)"
    by (simp add: options_parse_def options_loop.simps rd_def a neq address_get_addr4_def)
  obtain c d where c: "client_main_start numeric_resolver fine_syscalls (5, 0) (\<lambda>_. some_timer) (0, 0) (0, 0) ?argv () = Some (Inr (c, d), ())" "cx_options c = ?opts"
    by (simp add: client_main_start_def parse udp_init_def fine_syscalls_def dispatcher_init1_def dispatcher_init_def dispatcher_add_udp_def dispatcher_add_handler_def)
  let ?cs = "[str ''ab'', [99, 0, 98]]" let ?es = "[Input (str ''ab''), Input [99, 0, 98], Answer, Input [], Answer]"
  have "concat (map shown ?cs) = str ''abc''" by code_simp
  moreover have "list_all piece ?cs" by (simp add: piece_def str_def BUFFER_LEN_def)
  moreover have "inputs ?es = ?cs @ [[]]" "causal 0 ?es" "answers ?es = length ?cs" by (simp_all add: str_def)
  ultimately show ?thesis
    using client_echoes [OF c(1), of ?es ?cs "replicate 19 1" "\<lambda>_. 7"] c by (simp only: c(1)) auto
qed

end
