(* ===== verification/Nt_Echo.thy ===== *)
theory Nt_Echo
  imports Nt_Listener
begin

text \<open>
  The echo service of the tunnel, \<^verbatim>\<open>src/src/main/tunnel/nt_echo_listener.c\<close>: every datagram goes back to its sender; messages
  of version one get their addresses exchanged, and repetitions of a message are dropped. The keys of the cache
  are pointers to copies of headers in a pool; \<open>header_hash_func\<close> and \<open>header_equal_func\<close> look at four
  fields of a copy, which does not change while it is in the cache. A key is therefore those four fields, and the
  pointer stands beside the time in the value.
\<close>

section \<open>The listener\<close>

record echo_key =
  ek_tag :: u8
  ek_id_n :: u32
  ek_src_ip :: u32
  ek_src_port :: u16

definition echo_key :: "nt_api_header_t \<Rightarrow> echo_key" where
  "echo_key h = \<lparr>ek_tag = a1_tag h, ek_id_n = a1_id_n h, ek_src_ip = a1_src_ip h, ek_src_port = a1_src_port h\<rparr>"

definition header_hash_func :: "echo_key \<Rightarrow> nat" where
  "header_hash_func k =
     (let h = (ucast (ek_tag k) :: u64);
          h = 31 * h + ucast (ek_id_n k);
          h = 31 * h + ucast (ek_src_ip k);
          h = 31 * h + ucast (ek_src_port k)
      in unat h)"

definition header_equal_func :: "echo_key \<Rightarrow> echo_key \<Rightarrow> bool" where
  "header_equal_func k1 k2 \<longleftrightarrow> ek_tag k1 = ek_tag k2 \<and> ek_id_n k1 = ek_id_n k2 \<and> ek_src_ip k1 = ek_src_ip k2 \<and> ek_src_port k1 = ek_src_port k2"

record 'h nt_echo_listener_t =
  el_listener :: "'h nt_listener_t"
  el_pool :: pool_t
  el_cache :: "(echo_key, nat \<times> int) lrumap_t"
  el_timeout :: int

text \<open>Removing a key from the cache releases the copy of its header.\<close>

definition echo_forget :: "'h nt_echo_listener_t \<Rightarrow> echo_key \<Rightarrow> nat \<Rightarrow> 'h nt_echo_listener_t option" where
  "echo_forget l key ptr = do {
     (ok, cache) \<leftarrow> lrumap_remove (el_cache l) key;
     ensure ok;
     p \<leftarrow> pool_free (el_pool l) ptr;
     Some (l\<lparr>el_cache := cache, el_pool := p\<rparr>)
   }"

text \<open>The copy is written without a test for \<open>NULL\<close>.\<close>

definition echo_insert :: "(echo_key, nat) junk \<Rightarrow> int \<Rightarrow> 'h nt_echo_listener_t \<Rightarrow> echo_key \<Rightarrow> 'h nt_echo_listener_t option" where
  "echo_insert mem current l key = do {
     (ptr, p) \<leftarrow> pool_new (el_pool l);
     ptr \<leftarrow> ptr;
     (ok, cache) \<leftarrow> lrumap_put mem (el_cache l) key (ptr, current);
     ensure ok;
     Some (l\<lparr>el_cache := cache, el_pool := p\<rparr>)
   }"

text \<open>The first result says whether the message is a repetition.\<close>

definition echo_dedup :: "(echo_key, nat) junk \<Rightarrow> int \<Rightarrow> 'h nt_echo_listener_t \<Rightarrow> echo_key \<Rightarrow> (bool \<times> 'h nt_echo_listener_t) option" where
  "echo_dedup mem current l key =
     (if lrumap_capacity (el_cache l) > 0 then do {
        (kv, cache) \<leftarrow> lrumap_get (el_cache l) key;
        let l = l\<lparr>el_cache := cache\<rparr>;
        (case kv of
           Some (k, ptr, t) \<Rightarrow>
             if current - t > el_timeout l then do {
               l \<leftarrow> echo_forget l k ptr;
               l \<leftarrow> echo_insert mem current l key;
               Some (False, l)
             } else Some (True, l)
         | None \<Rightarrow> do {
             size \<leftarrow> lrumap_size (el_cache l);
             l \<leftarrow> (if size = lrumap_capacity (el_cache l) then do {
                 kv \<leftarrow> lrumap_peek (el_cache l);
                 (k, ptr, t) \<leftarrow> kv;
                 echo_forget l k ptr
               } else Some l);
             l \<leftarrow> echo_insert mem current l key;
             Some (False, l)
           })
      } else Some (False, l))"

definition exchange :: "nt_api_header_t \<Rightarrow> nt_api_header_t" where
  "exchange h = h\<lparr>a1_src_ip := a1_dst_ip h, a1_src_port := a1_dst_port h, a1_dst_ip := a1_src_ip h, a1_dst_port := a1_src_port h\<rparr>"

definition UDP_BUFFER_SIZE :: nat where "UDP_BUFFER_SIZE = 64 * 1024"

text \<open>
  The handler of the socket. \<open>stack\<close> is what the buffer holds before, \<open>unset\<close> the contents of \<open>dst\<close>, which
  \<open>udp_recv\<close> leaves alone when the kernel tells no local address.
\<close>

definition echo_handle_read ::
    "(echo_key, nat) junk \<Rightarrow> (nat \<Rightarrow> u8) \<Rightarrow> address_t \<Rightarrow> 'w kernel \<Rightarrow> udp_t \<Rightarrow> int \<Rightarrow> 'h nt_echo_listener_t \<Rightarrow> 'w \<Rightarrow>
     ('h nt_echo_listener_t \<times> 'w) option" where
  "echo_handle_read mem stack unset k udp current l w = do {
     (r, w) \<leftarrow> udp_recv k udp (map stack [0..<UDP_BUFFER_SIZE]) UDP_BUFFER_SIZE w;
     (case r of
        Inl err \<Rightarrow> Some (l, w)
      | Inr (received, bufs, src, dst) \<Rightarrow> do {
          let buffer = concat bufs;
          let dst = (case dst of None \<Rightarrow> unset | Some d \<Rightarrow> d);
          valid \<leftarrow> nt_api_header_is_valid buffer;
          header \<leftarrow> nt_api_header_at buffer;
          if valid \<and> received = nt_api_message_size header then do {
            (dup, l) \<leftarrow> echo_dedup mem current l (echo_key header);
            if dup then Some (l, w)
            else do {
              let buffer = nt_api_header_bytes (exchange header) @ drop nt_api_header_size buffer;
              (sent, w) \<leftarrow> udp_send k udp buffer received (Some dst) (Some src) w;
              Some (l, w)
            }
          }
          else do {
            (sent, w) \<leftarrow> udp_send k udp buffer received (Some dst) (Some src) w;
            Some (l, w)
          }
        })
   }"

text \<open>
  The arguments are those of the initialisations of the cache, the pool and the listener. The code converts the
  size of the cache to \<open>size_t\<close>; a negative size, which becomes a huge one, is refused here.
\<close>

definition nt_echo_listener_init ::
    "(echo_key, nat) junk \<Rightarrow> addr links \<Rightarrow> (nat \<Rightarrow> echo_key \<times> nat \<times> int) \<Rightarrow> (nat \<Rightarrow> nat) \<Rightarrow> (nat \<Rightarrow> nat) \<Rightarrow>
     int \<times> int \<Rightarrow> int \<times> int \<Rightarrow> (nat \<Rightarrow> (nat, nat) timer_entry_t entry_t) \<Rightarrow> nat \<Rightarrow> nat \<Rightarrow> nat \<Rightarrow> 'h \<Rightarrow> udp_t \<Rightarrow> int \<Rightarrow> int \<Rightarrow>
     (int + 'h nt_echo_listener_t) option" where
  "nt_echo_listener_init junk links kvs mem alloc ep add heap cb self extra h udp dedup_cache_size timeout = do {
     ensure (0 \<le> dedup_cache_size);
     cache \<leftarrow> lrumap_init1 junk links kvs (nat dedup_cache_size) header_hash_func header_equal_func;
     p \<leftarrow> pool_init mem alloc (nat dedup_cache_size) nt_api_header_size;
     l \<leftarrow> nt_listener_init ep add mem alloc heap cb self udp 0 0 extra (Some h);
     Some (case l of Inl err \<Rightarrow> Inl err | Inr l \<Rightarrow> Inr \<lparr>el_listener = l, el_pool = p, el_cache = cache, el_timeout = timeout\<rparr>)
   }"

text \<open>The result is the error number and the copies of the headers that are freed; the arrays of the cache go as well.\<close>

definition nt_echo_listener_destroy :: "int \<times> int \<Rightarrow> 'h nt_echo_listener_t \<Rightarrow> (int \<times> nat list) option" where
  "nt_echo_listener_destroy rc l = do {
     freed \<leftarrow> pool_destroy (el_pool l);
     (err, none) \<leftarrow> nt_listener_destroy rc (el_listener l);
     Some (err, freed)
   }"

section \<open>The cache\<close>

definition stamps :: "('k \<times> nat \<times> int) list \<Rightarrow> ('k \<times> int) list" where
  "stamps kvs = map (\<lambda>(k, p, t). (k, t)) kvs"

definition pointers :: "('k \<times> nat \<times> int) list \<Rightarrow> nat list" where
  "pointers kvs = map (\<lambda>(k, p, t). p) kvs"

text \<open>The invariant: every key in the cache holds one buffer of the pool.\<close>

definition echo_rep :: "(nat \<Rightarrow> nat) \<Rightarrow> nat \<Rightarrow> 'h nt_echo_listener_t \<Rightarrow> (echo_key \<times> nat \<times> int) list \<Rightarrow> bool" where
  "echo_rep alloc cap l kvs \<longleftrightarrow> lru (el_cache l) kvs \<and> lm_capacity (el_cache l) = cap \<and>
     pool_client alloc cap (el_pool l) (set (pointers kvs)) \<and> distinct (pointers kvs)"

lemma stamps_simps [simp]: "stamps [] = []" "stamps ((k, p, t) # kvs) = (k, t) # stamps kvs" "length (stamps kvs) = length kvs"
  by (simp_all add: stamps_def)

lemma pointers_simps [simp]: "pointers [] = []" "pointers ((k, p, t) # kvs) = p # pointers kvs" "length (pointers kvs) = length kvs"
  by (simp_all add: pointers_def)

lemma map_of_stamps: "map_of (stamps kvs) k = map_option snd (map_of kvs k)"
  by (induction kvs) auto

lemma stamps_del_key: "stamps (del_key k kvs) = del_key k (stamps kvs)"
  by (auto simp: stamps_def del_key_def filter_map comp_def case_prod_unfold intro: arg_cong [where f = "map _"])

lemma stamps_touch: "stamps (touch k kvs) = touch k (stamps kvs)"
  by (auto simp: touch_def map_of_stamps stamps_del_key split: option.splits)

lemma stamps_butlast: "stamps (butlast kvs) = butlast (stamps kvs)"
  by (simp add: stamps_def map_butlast)

lemma pointers_del_key:
  assumes "distinct (map fst kvs)" "distinct (pointers kvs)" "map_of kvs k = Some (p, t)"
  shows "set (pointers (del_key k kvs)) = set (pointers kvs) - {p}" "distinct (pointers (del_key k kvs))"
proof -
  have "distinct (map fst kvs) \<Longrightarrow> distinct (pointers kvs) \<Longrightarrow> map_of kvs k = Some (p, t) \<Longrightarrow>
      set (pointers (del_key k kvs)) = set (pointers kvs) - {p} \<and> distinct (pointers (del_key k kvs))"
  proof (induction kvs)
    case (Cons kv kvs)
    obtain k' p' t' where kv: "kv = (k', p', t')" by (cases kv)
    show ?case
    proof (cases "k' = k")
      case True
      then have "map_of kvs k = None" using Cons.prems(1) kv by (simp add: map_of_eq_None_iff)
      then show ?thesis using Cons.prems kv True by (auto simp: del_key_absent [unfolded del_key_def] del_key_def)
    next
      case False
      then have "p \<in> set (pointers kvs)" using Cons.prems(3) kv by (force simp: pointers_def dest: map_of_SomeD)
      then show ?thesis using Cons kv False by (auto simp: del_key_def)
    qed
  qed simp
  then show "set (pointers (del_key k kvs)) = set (pointers kvs) - {p}" "distinct (pointers (del_key k kvs))" using assms by simp_all
qed

lemma pointer_held: "map_of kvs k = Some (p, t) \<Longrightarrow> p \<in> set (pointers kvs)"
  by (force simp: pointers_def dest: map_of_SomeD)

lemma header_equal [simp]: "header_equal_func = (=)"
  by (intro ext) (auto simp: header_equal_func_def)

lemma echo_forget_spec:
  assumes rep: "echo_rep alloc cap l kvs" and inj: "inj_on alloc {..<cap}" and k: "map_of kvs k = Some (p, t)"
  shows "\<exists>l'. echo_forget l k p = Some l' \<and> echo_rep alloc cap l' (del_key k kvs) \<and> el_timeout l' = el_timeout l"
proof -
  have m: "lru (el_cache l) kvs" "lm_capacity (el_cache l) = cap" "pool_client alloc cap (el_pool l) (set (pointers kvs))" "distinct (pointers kvs)"
    using rep by (simp_all add: echo_rep_def)
  obtain c where c: "lrumap_remove (el_cache l) k = Some (True, c)" "lru c (del_key k kvs)" "lm_capacity c = cap"
    using lm.remove_law [OF m(1), where k = k] k m(2) by auto
  have held: "p \<in> set (pointers kvs)" using pointer_held [OF k] .
  have sp: "pool_split alloc cap (el_pool l) (set (pointers kvs))" using pool_client_split [OF m(3) inj] .
  have "card (set (pointers kvs)) \<noteq> 0" using held by auto
  then have room: "length (pool_list (el_pool l)) < cap" using pool_split_card(1) [OF sp inj] by linarith
  obtain i where i: "p = alloc i + pool_header" using pool_split_held [OF sp held] .
  obtain q where q: "pool_free (el_pool l) p = Some q" using pool_free_room [of cap "el_pool l" "alloc i"] sp room i by (auto simp: pool_split_def)
  have "pool_client alloc cap q (set (pointers kvs) - {p})" using pool_client.free [OF m(3) held q] .
  then have "echo_rep alloc cap (l\<lparr>el_cache := c, el_pool := q\<rparr>) (del_key k kvs)"
    using c pointers_del_key [OF _ m(4) k] lm.keys_law [OF m(1)] by (simp add: echo_rep_def)
  then show ?thesis using c(1) q by (simp add: echo_forget_def)
qed

lemma echo_insert_spec:
  assumes rep: "echo_rep alloc cap l kvs" and inj: "inj_on alloc {..<cap}" and k: "map_of kvs k = None" "length kvs < cap"
  shows "\<exists>l' p. echo_insert mem now l k = Some l' \<and> echo_rep alloc cap l' ((k, p, now) # kvs) \<and> el_timeout l' = el_timeout l"
proof -
  have m: "lru (el_cache l) kvs" "lm_capacity (el_cache l) = cap" "pool_client alloc cap (el_pool l) (set (pointers kvs))" "distinct (pointers kvs)"
    using rep by (simp_all add: echo_rep_def)
  have sp: "pool_split alloc cap (el_pool l) (set (pointers kvs))" using pool_client_split [OF m(3) inj] .
  have "card (set (pointers kvs)) = length kvs" using distinct_card [OF m(4)] by simp
  then have "pool_list (el_pool l) \<noteq> []" using pool_split_card(1) [OF sp inj] k(2) by (auto simp del: length_queue_list)
  moreover have "pool_ok cap (el_pool l)" using sp by (simp add: pool_split_def)
  ultimately obtain pb q where q: "pool_list (el_pool l) = pb # pool_list q" "pool_new (el_pool l) = Some (Some (pb + pool_header), q)"
    by (auto elim: pool_new_cases)
  let ?p = "pb + pool_header"
  have new: "?p \<notin> set (pointers kvs)" using sp q(1) by (auto simp: pool_split_def)
  obtain c where c: "lrumap_put mem (el_cache l) k (?p, now) = Some (True, c)" "lru c ((k, ?p, now) # kvs)" "lm_capacity c = cap"
    using lm.put_law [OF m(1), where k = k and mem = mem and v = "(?p, now)"] k m(2) by auto
  have "pool_client alloc cap q (insert ?p (set (pointers kvs)))" using pool_client.new [OF m(3) q(2)] .
  then have "echo_rep alloc cap (l\<lparr>el_cache := c, el_pool := q\<rparr>) ((k, ?p, now) # kvs)" using c new m(4) by (simp add: echo_rep_def)
  then show ?thesis using c(1) q(2) by (auto simp: echo_insert_def)
qed

lemma del_key_shorter: "length (del_key k kvs) < length kvs" if "map_of kvs k = Some v" for kvs :: "('k \<times> 'v) list"
  using that unfolding del_key_def by (intro length_filter_less [of "(k, v)"]) (auto dest: map_of_SomeD)

text \<open>The decision on repetitions is that of the duplicating codec.\<close>

lemma echo_dedup_spec:
  assumes rep: "echo_rep alloc cap l kvs" and inj: "inj_on alloc {..<cap}" and cap: "0 < cap"
  shows "\<exists>l' kvs'. echo_dedup mem now l k = Some (fst (dedup_ref cap now (el_timeout l) (stamps kvs) k), l') \<and>
    echo_rep alloc cap l' kvs' \<and> stamps kvs' = snd (dedup_ref cap now (el_timeout l) (stamps kvs) k) \<and> el_timeout l' = el_timeout l"
proof -
  have m: "lru (el_cache l) kvs" "lm_capacity (el_cache l) = cap" using rep by (simp_all add: echo_rep_def)
  obtain c where c: "lrumap_get (el_cache l) k = Some (map_option (Pair k) (map_of kvs k), c)" "lru c (touch k kvs)" "lm_capacity c = cap"
    using lm.get_law [OF m(1), where k = k] m(2) by auto
  define l1 where "l1 = l\<lparr>el_cache := c\<rparr>"
  have dist: "distinct (map fst kvs)" using lm.keys_law [OF m(1)] by blast
  have run: "echo_dedup mem now l k = (case map_of kvs k of
           Some (ptr, t) \<Rightarrow>
             if now - t > el_timeout l then do {
               l \<leftarrow> echo_forget l1 k ptr;
               l \<leftarrow> echo_insert mem now l k;
               Some (False, l)
             } else Some (True, l1)
         | None \<Rightarrow> do {
             size \<leftarrow> lrumap_size c;
             l \<leftarrow> (if size = cap then do {
                 kv \<leftarrow> lrumap_peek c;
                 (k, ptr, t) \<leftarrow> kv;
                 echo_forget l1 k ptr
               } else Some l1);
             l \<leftarrow> echo_insert mem now l k;
             Some (False, l)
           })"
    using c cap m(2) unfolding l1_def by (cases "map_of kvs k") (auto simp: echo_dedup_def lrumap_capacity_def Let_def cong: if_cong)
  have touched: "echo_rep alloc cap l1 (touch k kvs)"
  proof (cases "map_of kvs k")
    case None
    then show ?thesis using c rep by (simp add: echo_rep_def l1_def touch_def)
  next
    case (Some v)
    obtain p t where v: "v = (p, t)" by (cases v)
    have "distinct (pointers kvs)" using rep by (simp add: echo_rep_def)
    note d = pointers_del_key [OF dist this Some [unfolded v]]
    have "set (pointers (touch k kvs)) = set (pointers kvs)" "distinct (pointers (touch k kvs))"
      using d pointer_held [OF Some [unfolded v]] Some v by (auto simp: touch_def)
    then show ?thesis using c rep by (simp add: echo_rep_def l1_def)
  qed
  have to: "el_timeout l1 = el_timeout l" by (simp add: l1_def)
  show ?thesis
  proof (cases "map_of kvs k")
    case None
    then have t: "touch k kvs = kvs" by (simp add: touch_def)
    have size: "lrumap_size c = Some (length kvs)" using lm.count_law [OF c(2)] t by simp
    show ?thesis
    proof (cases "length kvs = cap")
      case True
      then obtain kvs0 k0 p0 t0 where kvs: "kvs = kvs0 @ [(k0, p0, t0)]" using cap by (cases kvs rule: rev_cases) auto
      have "(k0, p0, t0) \<in> set kvs" by (simp add: kvs)
      then have k0: "map_of kvs k0 = Some (p0, t0)" using dist by (simp add: map_of_eq_Some_iff)
      have del: "del_key k0 kvs = kvs0" using dist unfolding kvs by (force simp: del_key_def intro: filter_True)
      have peek: "lrumap_peek c = Some (Some (k0, p0, t0))" using lm.peek_law [OF c(2)] t by (simp add: kvs)
      obtain l2 where l2: "echo_forget l1 k0 p0 = Some l2" "echo_rep alloc cap l2 kvs0" "el_timeout l2 = el_timeout l"
        using echo_forget_spec [OF touched inj, of k0 p0 t0] k0 del t to by auto
      have "map_of kvs0 k = None" "length kvs0 < cap" using None True by (auto simp: kvs map_add_def split: option.splits)
      then obtain l3 p where l3: "echo_insert mem now l2 k = Some l3" "echo_rep alloc cap l3 ((k, p, now) # kvs0)" "el_timeout l3 = el_timeout l"
        using echo_insert_spec [OF l2(2) inj] l2(3) by metis
      have "stamps kvs0 = butlast (stamps kvs)" by (simp add: kvs stamps_def)
      then show ?thesis using run None size True peek l2(1) l3
        by (intro exI [of _ l3] exI [of _ "(k, p, now) # kvs0"]) (simp add: dedup_ref_def map_of_stamps)
    next
      case False
      then have "length kvs < cap" using lm.keys_law [OF m(1)] m(2) by simp
      then obtain l3 p where "echo_insert mem now l1 k = Some l3" "echo_rep alloc cap l3 ((k, p, now) # kvs)" "el_timeout l3 = el_timeout l"
        using echo_insert_spec [OF touched inj, of k mem now] None t to by auto
      then show ?thesis using run None size False
        by (intro exI [of _ l3] exI [of _ "(k, p, now) # kvs"]) (simp add: dedup_ref_def map_of_stamps)
    qed
  next
    case (Some v)
    obtain p t where v: "v = (p, t)" by (cases v)
    show ?thesis
    proof (cases "now - t > el_timeout l")
      case True
      have del: "del_key k (touch k kvs) = del_key k kvs" using dist by (rule del_key_touch)
      obtain l2 where l2: "echo_forget l1 k p = Some l2" "echo_rep alloc cap l2 (del_key k kvs)" "el_timeout l2 = el_timeout l"
        using echo_forget_spec [OF touched inj, of k p t] Some v del to by (auto simp: map_of_touch)
      have "length (del_key k kvs) < cap" using del_key_shorter [OF Some] lm.keys_law [OF m(1)] m(2) by simp
      moreover have "map_of (del_key k kvs) k = None" by (simp add: map_of_del_key)
      ultimately obtain l3 q where l3: "echo_insert mem now l2 k = Some l3" "echo_rep alloc cap l3 ((k, q, now) # del_key k kvs)" "el_timeout l3 = el_timeout l"
        using echo_insert_spec [OF l2(2) inj] l2(3) by metis
      then show ?thesis using run Some v True l2(1)
        by (intro exI [of _ l3] exI [of _ "(k, q, now) # del_key k kvs"]) (simp add: dedup_ref_def map_of_stamps stamps_del_key)
    next
      case False
      then show ?thesis using run Some v touched to
        by (intro exI [of _ l1] exI [of _ "touch k kvs"]) (simp add: dedup_ref_def map_of_stamps stamps_touch)
    qed
  qed
qed

section \<open>The service\<close>

text \<open>
  A kernel with a mailbox: datagrams that arrive with their sender and the control messages, and what was
  sent.
\<close>

type_synonym mailbox = "(u8 list \<times> address_t \<times> pktinfo list) list \<times> msghdr list"

definition postman :: "mailbox kernel" where
  "postman =
     \<lparr>sendmsg = (\<lambda>fd m (ins, outs). (Inr (length (concat (msg_iov m))), ins, outs @ [m])),
      recvmsg = (\<lambda>fd n (ins, outs). case ins of [] \<Rightarrow> (Inl 11, ins, outs) | (d, src, cs) # ins \<Rightarrow> (Inr (take n d, src, cs), ins, outs)),
      sendto = (\<lambda>fd d a w. (Inl 1, w)),
      recvfrom = (\<lambda>fd n w. (Inl 1, w))\<rparr>"

text \<open>The reference: the reply to a datagram, if there is one, and the keys that are remembered.\<close>

definition echo_reply :: "nat \<Rightarrow> int \<Rightarrow> int \<Rightarrow> (echo_key \<times> int) list \<Rightarrow> u8 list \<Rightarrow> u8 list option \<times> (echo_key \<times> int) list" where
  "echo_reply cap timeout now seen d =
     (if v1_message d then
        let h = the (nt_api_header_at d); (dup, seen) = (if cap = 0 then (False, seen) else dedup_ref cap now timeout seen (echo_key h))
        in (if dup then None else Some (nt_api_header_bytes (exchange h) @ drop nt_api_header_size d), seen)
      else (Some d, seen))"

definition reply_to :: "address_t \<Rightarrow> address_t \<Rightarrow> pktinfo list \<Rightarrow> u8 list \<Rightarrow> msghdr" where
  "reply_to unset src cs d = \<lparr>msg_name = Some src, msg_namelen = 16, msg_iov = [d],
     msg_control = Some (case (case control_dst cs of None \<Rightarrow> unset | Some a \<Rightarrow> a) of Addr_in a p \<Rightarrow> Ip_pktinfo a | Addr_in6 a p \<Rightarrow> Ipv6_pktinfo a)\<rparr>"

fun echo_ref :: "nat \<Rightarrow> int \<Rightarrow> address_t \<Rightarrow> (echo_key \<times> int) list \<Rightarrow> (int \<times> u8 list \<times> address_t \<times> pktinfo list) list \<Rightarrow> msghdr list" where
  "echo_ref cap timeout unset seen [] = []"
| "echo_ref cap timeout unset seen ((now, d, src, cs) # ds) =
     (let (r, seen) = echo_reply cap timeout now seen d
      in (case r of None \<Rightarrow> [] | Some d \<Rightarrow> [reply_to unset src cs d]) @ echo_ref cap timeout unset seen ds)"

text \<open>The handler is called once for every datagram.\<close>

fun echo_serve ::
    "(echo_key, nat) junk \<Rightarrow> (nat \<Rightarrow> u8) \<Rightarrow> address_t \<Rightarrow> udp_t \<Rightarrow> int list \<Rightarrow> 'h nt_echo_listener_t \<Rightarrow> mailbox \<Rightarrow> ('h nt_echo_listener_t \<times> mailbox) option" where
  "echo_serve mem stack unset udp [] l w = Some (l, w)"
| "echo_serve mem stack unset udp (now # nows) l w = do {
     (l, w) \<leftarrow> echo_handle_read mem stack unset postman udp now l w;
     echo_serve mem stack unset udp nows l w
   }"

lemma echo_cap0: "echo_rep alloc 0 l kvs \<Longrightarrow> echo_dedup mem now l k = Some (False, l)"
  by (simp add: echo_dedup_def echo_rep_def lrumap_capacity_def)

lemma v1_of_buffer:
  assumes buf: "buf = d @ rest" and len: "19 \<le> length buf"
  shows "\<exists>h. nt_api_header_is_valid buf = Some (buf ! 0 = NT_API_TAG) \<and> nt_api_header_at buf = Some h \<and>
    ((buf ! 0 = NT_API_TAG \<and> length d = nt_api_message_size h) \<longleftrightarrow> v1_message d) \<and> (v1_message d \<longrightarrow> nt_api_header_at d = Some h)"
proof -
  have d: "d = take (length d) buf" using buf by simp
  have "rd buf 0 = Some (buf ! 0)" using len by (intro rd_in) linarith
  then have valid: "nt_api_header_is_valid buf = Some (buf ! 0 = NT_API_TAG)" by (simp add: nt_api_header_is_valid_def)
  obtain h where h: "nt_api_header_at buf = Some h" "nt_api_message_size h = 19 + unat (ntohs (field 17 2 buf))"
    using len by (simp add: nt_api_header_at_def nt_api_header_size_def nt_api_message_size_def nt_api_header_payload_size_def)
  show ?thesis
  proof (cases "19 \<le> length d")
    case True
    have f: "field off k d = (field off k buf :: 'z::len word)" if "off + k \<le> 19" for off k
      by (subst d) (use that True in \<open>intro field_take; simp\<close>)
    have "d ! 0 = buf ! 0" using buf True by (cases d) simp_all
    then have "nt_api_header_at d = Some h" using h(1) len True by (simp add: nt_api_header_at_def nt_api_header_size_def f)
    moreover have "(field 17 2 d :: u16) = field 17 2 buf" by (simp add: f)
    ultimately show ?thesis using valid h True \<open>d ! 0 = buf ! 0\<close> by (auto simp: v1_message_def)
  next
    case False
    then show ?thesis using valid h by (auto simp: v1_message_def)
  qed
qed

lemma udp_send_postman:
  "n \<le> length buf \<Longrightarrow> udp_send postman udp buf n (Some a) (Some src) (ins, outs) = Some (Inr n, ins, outs @ [\<lparr>msg_name = Some src, msg_namelen = 16,
     msg_iov = [take n buf], msg_control = Some (case a of Addr_in i p \<Rightarrow> Ip_pktinfo i | Addr_in6 i p \<Rightarrow> Ipv6_pktinfo i)\<rparr>])"
  by (simp add: udp_send_def udp_send_v_def send_v_def postman_def split: address_t.splits)

lemma echo_handle_read_spec:
  assumes rep: "echo_rep alloc cap l kvs" and inj: "inj_on alloc {..<cap}" and d: "length d \<le> UDP_BUFFER_SIZE"
  shows "\<exists>l' kvs'. echo_handle_read mem stack unset postman udp now l ((d, src, cs) # ins, outs) =
      Some (l', ins, outs @ (case fst (echo_reply cap (el_timeout l) now (stamps kvs) d) of None \<Rightarrow> [] | Some r \<Rightarrow> [reply_to unset src cs r])) \<and>
    echo_rep alloc cap l' kvs' \<and> stamps kvs' = snd (echo_reply cap (el_timeout l) now (stamps kvs) d) \<and> el_timeout l' = el_timeout l"
proof -
  define buf where "buf = d @ drop (length d) (map stack [0..<UDP_BUFFER_SIZE])"
  have len: "length buf = UDP_BUFFER_SIZE" "length d \<le> length buf" "19 \<le> length buf" using d by (simp_all add: buf_def UDP_BUFFER_SIZE_def)
  define dst where "dst = (case control_dst cs of None \<Rightarrow> unset | Some a \<Rightarrow> a)"
  have recv: "udp_recv postman udp (map stack [0..<UDP_BUFFER_SIZE]) UDP_BUFFER_SIZE ((d, src, cs) # ins, outs) =
      Some (Inr (length d, [buf], src, control_dst cs), ins, outs)"
    using d by (simp add: udp_recv_def udp_recv_v_def recv_v_def postman_def fill_short buf_def)
  obtain h where h: "nt_api_header_is_valid buf = Some (buf ! 0 = NT_API_TAG)" "nt_api_header_at buf = Some h"
    "(buf ! 0 = NT_API_TAG \<and> length d = nt_api_message_size h) \<longleftrightarrow> v1_message d" "v1_message d \<Longrightarrow> nt_api_header_at d = Some h"
    using v1_of_buffer [OF buf_def len(3)] by blast
  have run: "echo_handle_read mem stack unset postman udp now l ((d, src, cs) # ins, outs) =
      (if v1_message d then do {
         (dup, l) \<leftarrow> echo_dedup mem now l (echo_key h);
         if dup then Some (l, ins, outs)
         else do {
           (sent, w) \<leftarrow> udp_send postman udp (nt_api_header_bytes (exchange h) @ drop nt_api_header_size buf) (length d) (Some dst) (Some src) (ins, outs);
           Some (l, w)
         }
       }
       else do {
         (sent, w) \<leftarrow> udp_send postman udp buf (length d) (Some dst) (Some src) (ins, outs);
         Some (l, w)
       })"
    unfolding echo_handle_read_def recv
    using h(3) by (cases "v1_message d") (auto simp: h(1,2) dst_def Let_def cong: if_cong)
  show ?thesis
  proof (cases "v1_message d")
    case False
    have "take (length d) buf = d" by (simp add: buf_def)
    then show ?thesis using run False len(2) rep
      by (intro exI [of _ l] exI [of _ kvs]) (simp add: udp_send_postman echo_reply_def reply_to_def dst_def)
  next
    case True
    let ?buf = "nt_api_header_bytes (exchange h) @ drop nt_api_header_size buf"
    let ?r = "nt_api_header_bytes (exchange h) @ drop nt_api_header_size d"
    have d19: "19 \<le> length d" using True by (simp add: v1_message_def)
    then have tk: "take (length d) ?buf = ?r" "length d \<le> length ?buf" using len by (simp_all add: nt_api_header_size_def buf_def)
    have the: "the (nt_api_header_at d) = h" using h(4) [OF True] by simp
    obtain dup seen where ref: "(if cap = 0 then (False, stamps kvs) else dedup_ref cap now (el_timeout l) (stamps kvs) (echo_key h)) = (dup, seen)" by fastforce
    have "\<exists>l' kvs'. echo_dedup mem now l (echo_key h) = Some (dup, l') \<and> echo_rep alloc cap l' kvs' \<and> stamps kvs' = seen \<and> el_timeout l' = el_timeout l"
    proof (cases "cap = 0")
      case True
      then show ?thesis using echo_cap0 [of alloc l kvs mem now "echo_key h"] rep ref by auto
    next
      case False
      then show ?thesis using echo_dedup_spec [OF rep inj, of mem now "echo_key h"] ref by simp
    qed
    then obtain l' kvs' where l': "echo_dedup mem now l (echo_key h) = Some (dup, l')" "echo_rep alloc cap l' kvs'" "stamps kvs' = seen"
      "el_timeout l' = el_timeout l" by blast
    have reply: "echo_reply cap (el_timeout l) now (stamps kvs) d = (if dup then None else Some ?r, seen)"
      using True the ref by (simp add: echo_reply_def Let_def)
    show ?thesis
      by (intro exI [of _ l'] exI [of _ kvs'])
        (use run True l' reply tk in \<open>simp add: udp_send_postman reply_to_def dst_def\<close>)
  qed
qed

lemma echo_serve_spec:
  assumes inj: "inj_on alloc {..<cap}"
  shows "echo_rep alloc cap l kvs \<Longrightarrow> \<forall>(now, d, r) \<in> set ds. length d \<le> UDP_BUFFER_SIZE \<Longrightarrow>
    \<exists>l'. echo_serve mem stack unset udp (map fst ds) l (map snd ds, outs) = Some (l', [], outs @ echo_ref cap (el_timeout l) unset (stamps kvs) ds)"
proof (induction ds arbitrary: l kvs outs)
  case (Cons x ds)
  obtain now d src cs where x: "x = (now, d, src, cs)" by (cases x)
  obtain r seen where ref: "echo_reply cap (el_timeout l) now (stamps kvs) d = (r, seen)" by fastforce
  have "length d \<le> UDP_BUFFER_SIZE" using Cons.prems(2) x by simp
  from echo_handle_read_spec [OF Cons.prems(1) inj this, of mem stack unset udp now src cs "map snd ds" outs] ref
  obtain l1 kvs1 where "echo_handle_read mem stack unset postman udp now l ((d, src, cs) # map snd ds, outs) =
      Some (l1, map snd ds, outs @ (case r of None \<Rightarrow> [] | Some r \<Rightarrow> [reply_to unset src cs r]))"
    "echo_rep alloc cap l1 kvs1" "stamps kvs1 = seen" "el_timeout l1 = el_timeout l" by auto
  moreover from this obtain l' where "echo_serve mem stack unset udp (map fst ds) l1 (map snd ds, outs @ (case r of None \<Rightarrow> [] | Some r \<Rightarrow> [reply_to unset src cs r])) =
      Some (l', [], (outs @ (case r of None \<Rightarrow> [] | Some r \<Rightarrow> [reply_to unset src cs r])) @ echo_ref cap (el_timeout l1) unset (stamps kvs1) ds)"
    using Cons.IH [of l1 kvs1 "outs @ (case r of None \<Rightarrow> [] | Some r \<Rightarrow> [reply_to unset src cs r])"] Cons.prems(2) by auto
  ultimately show ?case using x ref by simp
qed simp

lemma echo_init_spec:
  assumes cap: "2 \<le> cap" "cap < 2 ^ 31" and inj: "inj_on alloc {..<cap}" and su: "0 \<le> fst ep" "fst add = 0"
  shows "\<exists>l. nt_echo_listener_init junk links kvs mem alloc ep add heap cb self extra (h :: 'a) udp (int cap) timeout = Some (Inr l) \<and>
    echo_rep alloc cap l [] \<and> el_timeout l = timeout"
proof -
  have "2 \<le> (of_nat cap :: rat)" using cap(1) by (metis of_nat_le_iff of_nat_numeral)
  then obtain c where c: "lrumap_init1 junk links kvs cap header_hash_func header_equal_func = Some c" "lru c []" "lm_capacity c = cap"
    using lru_init [of "3 / 4" cap junk links kvs header_hash_func] cap(2) by (auto simp: lrumap_init1_def)
  obtain p where p: "pool_init mem alloc cap nt_api_header_size = Some p" using pool_init_ok [OF cap(2)] by blast
  have "pool_client alloc cap p {}" using p by (rule pool_client.init)
  moreover obtain l :: "'a nt_listener_t" where "nt_listener_init ep add mem alloc heap cb self udp 0 0 extra (Some h) = Some (Inr l)"
    using su by (auto simp: nt_listener_init_def dispatcher_init1_def dispatcher_init_def dispatcher_add_udp_def dispatcher_add_handler_def Let_def)
  ultimately show ?thesis using c p by (auto simp: nt_echo_listener_init_def echo_rep_def)
qed

section \<open>Properties\<close>

text \<open>
  C30. The echo service answers like its reference. From \<open>nt_echo_listener_init\<close>, whatever datagrams arrive at whatever
  times, no check fails, and the replies are exactly those of \<open>echo_ref\<close>: every datagram that is not a message goes back
  unchanged; a message goes back with its source and destination exchanged, unless a message with the same
  number and source was remembered and is not older than the timeout. The cache remembers at most
  as many messages as it has room for, the one unused for longest making way, and its copies of headers never
  run out.
\<close>

theorem echo_answers:
  fixes h :: 'h
  assumes "2 \<le> cap" "cap < 2 ^ 31" "inj_on alloc {..<cap}" "0 \<le> fst ep" "fst add = 0"
    and "\<forall>(now, d, r) \<in> set ds. length d \<le> UDP_BUFFER_SIZE"
  shows "\<exists>l l'. nt_echo_listener_init junk links kvs mem alloc ep add heap cb self extra h udp (int cap) timeout = Some (Inr l) \<and>
    echo_serve junk stack unset udp (map fst ds) l (map snd ds, []) = Some (l', [], echo_ref cap timeout unset [] ds)"
proof -
  obtain l where l: "nt_echo_listener_init junk links kvs mem alloc ep add heap cb self extra h udp (int cap) timeout = Some (Inr l)"
    "echo_rep alloc cap l []" "el_timeout l = timeout" using echo_init_spec [OF assms(1-5), of junk links kvs mem heap cb self extra h udp timeout] by blast
  then show ?thesis using echo_serve_spec [OF assms(3) l(2) assms(6), of junk stack unset udp "[]"] by auto
qed

definition echo_junk :: "(echo_key, nat) junk" where
  "echo_junk = (\<lambda>_. Some 7, \<lambda>_. \<lparr>e_key = echo_key (nt_api_header_init 0 0 0 0 0 0), e_value = 0, used = True, e_prev = Some 3, e_next = Some 3\<rparr>)"

definition probe :: "u32 \<Rightarrow> u8 list" where
  "probe n = nt_api_header_bytes (nt_api_header_init n 1 2 3 4 1) @ [9]"

definition answer :: "u32 \<Rightarrow> u8 list" where
  "answer n = nt_api_header_bytes (nt_api_header_init n 3 4 1 2 1) @ [9]"

lemma probe_reply:
  "echo_reply cap timeout now seen (probe n) =
     (let (dup, seen) = (if cap = 0 then (False, seen) else dedup_ref cap now timeout seen (echo_key (nt_api_header_init n 1 2 3 4 1)))
      in (if dup then None else Some (answer n), seen))"
proof -
  let ?h = "nt_api_header_init n 1 2 3 4 1"
  have at: "nt_api_header_at (probe n) = Some ?h" by (simp add: probe_def)
  have len: "length (probe n) = 20" by (simp add: probe_def nt_api_header_size_def)
  have tag: "probe n ! 0 = NT_API_TAG" by (simp add: probe_def nt_api_header_bytes_def nt_api_header_init_def)
  have "nt_api_message_size ?h = 20" by simp
  then have v1: "v1_message (probe n)" using v1_of_buffer [of "probe n" "probe n" "[]"] at len tag by auto
  have ex: "exchange ?h = nt_api_header_init n 3 4 1 2 1" by (simp add: exchange_def nt_api_header_init_def)
  have "drop nt_api_header_size (probe n) = [9]" by (simp add: probe_def)
  then show ?thesis using v1 at ex by (simp add: echo_reply_def answer_def Let_def cong: if_cong)
qed

theorem echo_answers_witness:
  "\<exists>l l'. nt_echo_listener_init echo_junk (\<lambda>_. \<lparr>prev = None, next = None\<rparr>) (\<lambda>_. (echo_key (nt_api_header_init 0 0 0 0 0 0), 0, 0)) id far_apart (6, 0) (0, 0) (\<lambda>_. some_timer) 0 0 0 ()
      \<lparr>udp_fd = 7\<rparr> (int 2) 100 = Some (Inr l) \<and>
    echo_serve echo_junk (\<lambda>_. 1) (Addr_in 0 0) \<lparr>udp_fd = 7\<rparr> [0, 10, 50, 120] l
      ([(probe 5, Addr_in 8 8, [Ip_pktinfo 4]), ([1, 2], Addr_in 9 9, []), (probe 5, Addr_in 8 8, []), (probe 5, Addr_in 8 8, [])], []) =
    Some (l', [], [reply_to (Addr_in 0 0) (Addr_in 8 8) [Ip_pktinfo 4] (answer 5), reply_to (Addr_in 0 0) (Addr_in 9 9) [] [1, 2],
      reply_to (Addr_in 0 0) (Addr_in 8 8) [] (answer 5)])"
proof -
  define ds :: "(int \<times> u8 list \<times> address_t \<times> pktinfo list) list" where
    "ds = [(0, probe 5, Addr_in 8 8, [Ip_pktinfo 4]), (10, [1, 2], Addr_in 9 9, []), (50, probe 5, Addr_in 8 8, []), (120, probe 5, Addr_in 8 8, [])]"
  have "\<forall>(now, d, r) \<in> set ds. length d \<le> UDP_BUFFER_SIZE" by (simp add: ds_def probe_def UDP_BUFFER_SIZE_def nt_api_header_size_def)
  note run = echo_answers [of 2 far_apart "(6, 0)" "(0, 0)" ds echo_junk "\<lambda>_. \<lparr>prev = None, next = None\<rparr>"
      "\<lambda>_. (echo_key (nt_api_header_init 0 0 0 0 0 0), 0, 0)" id "\<lambda>_. some_timer" 0 0 0 "()" "\<lparr>udp_fd = 7\<rparr>" 100, OF _ _ _ _ _ this]
  have "echo_ref 2 100 (Addr_in 0 0) [] ds = [reply_to (Addr_in 0 0) (Addr_in 8 8) [Ip_pktinfo 4] (answer 5), reply_to (Addr_in 0 0) (Addr_in 9 9) [] [1, 2],
      reply_to (Addr_in 0 0) (Addr_in 8 8) [] (answer 5)]"
    by (simp add: ds_def probe_reply echo_reply_def [of _ _ _ _ "[1, 2]"] v1_message_def dedup_ref_def touch_def del_key_def)
  then show ?thesis using run [of "\<lambda>_. 1" "Addr_in 0 0"] by (simp add: ds_def)
qed

end
