(* ===== verification/Metric.thy ===== *)
theory Metric
  imports C_Prelude "HOL-Library.Multiset"
begin

text \<open>
  The statistics of \<^verbatim>\<open>src/src/main/utils/metric.c\<close>, less the two results of type \<open>double\<close>, and the bitmap of
  \<^verbatim>\<open>src/src/main/utils/bitmap.c\<close>. Values of type \<open>long\<close> are integers.
\<close>

section \<open>Selection\<close>

text \<open>
  The loop of \<open>nth_min\<close> that moves the elements below the pivot to the front of the \<open>len\<close> elements from \<open>off\<close>,
  and the two assignments after it. The counter is an \<open>int\<close>.
\<close>

definition partition_min :: "int list \<Rightarrow> nat \<Rightarrow> nat \<Rightarrow> (int list \<times> nat) option" where
  "partition_min data off len = do {
     ensure (0 < len \<and> len \<le> 2 ^ 31);
     pivot \<leftarrow> rd data (off + len - 1);
     (data, wi) \<leftarrow> for_up 0 (len - 1) (\<lambda>i (data, wi). do {
        x \<leftarrow> rd data (off + i);
        if x < pivot then do {
          t \<leftarrow> rd data (off + wi);
          data \<leftarrow> wr data (off + wi) x;
          data \<leftarrow> wr data (off + i) t;
          Some (data, Suc wi)
        } else Some (data, wi)
      }) (data, 0);
     y \<leftarrow> rd data (off + wi);
     data \<leftarrow> wr data (off + len - 1) y;
     data \<leftarrow> wr data (off + wi) pivot;
     Some (data, wi)
   }"

lemma partition_min_spec:
  assumes "Suc (length S) \<le> 2 ^ 31"
  shows "\<exists>L R. partition_min (A @ (S @ [p]) @ B) (length A) (Suc (length S)) = Some (A @ (L @ p # R) @ B, length L) \<and>
    mset (L @ R) = mset S \<and> (\<forall>x \<in> set L. x < p) \<and> (\<forall>x \<in> set R. p \<le> x)"
proof -
  let ?f = "\<lambda>i (data, wi). do {
        x \<leftarrow> rd data (length A + i);
        if x < p then do {
          t \<leftarrow> rd data (length A + wi);
          data \<leftarrow> wr data (length A + wi) x;
          data \<leftarrow> wr data (length A + i) t;
          Some (data, Suc wi)
        } else Some (data, wi)
      }"
  define P where "P = (\<lambda>i (data, wi). \<exists>Lo Hi. data = A @ Lo @ Hi @ drop i S @ p # B \<and> wi = length Lo \<and> mset (Lo @ Hi) = mset (take i S) \<and>
      (\<forall>x \<in> set Lo. x < p) \<and> (\<forall>x \<in> set Hi. p \<le> x))"
  have "\<exists>s. for_up 0 (length S) ?f (A @ S @ p # B, 0) = Some s \<and> P (length S) s"
  proof (rule for_up_rule [where P = P])
    fix i and s :: "int list \<times> nat" assume i: "i < length S" and "P i s"
    then obtain Lo Hi where s: "s = (A @ Lo @ Hi @ drop i S @ p # B, length Lo)" "mset (Lo @ Hi) = mset (take i S)" "\<forall>x \<in> set Lo. x < p" "\<forall>x \<in> set Hi. p \<le> x"
      by (auto simp: P_def split: prod.splits)
    let ?x = "S ! i"
    have len: "length Lo + length Hi = i" using s(2) i by (metis length_append length_take min.absorb4 size_mset)
    have d: "drop i S = ?x # drop (Suc i) S" using i by (simp add: Cons_nth_drop_Suc)
    have tk: "mset (take (Suc i) S) = add_mset ?x (mset (take i S))" using i by (simp add: take_Suc_conv_app_nth)
    have x: "rd (A @ Lo @ Hi @ drop i S @ p # B) (length A + i) = Some ?x" using len i by (simp add: rd_def d nth_append flip: len)
    show "\<exists>s'. ?f i s = Some s' \<and> P (Suc i) s'"
    proof (cases "?x < p")
      case False
      then have "?f i s = Some (A @ Lo @ (Hi @ [?x]) @ drop (Suc i) S @ p # B, length Lo)" using x by (simp add: s(1) d)
      moreover have "P (Suc i) (A @ Lo @ (Hi @ [?x]) @ drop (Suc i) S @ p # B, length Lo)"
        using s(2-4) tk False unfolding P_def case_prod_conv by (intro exI [of _ Lo] exI [of _ "Hi @ [?x]"]) auto
      ultimately show ?thesis by blast
    next
      case True
      have "\<exists>Hi'. ?f i s = Some (A @ (Lo @ [?x]) @ Hi' @ drop (Suc i) S @ p # B, Suc (length Lo)) \<and> mset Hi' = mset Hi"
      proof (cases Hi)
        case Nil
        have "rd (A @ Lo @ ?x # drop (Suc i) S @ p # B) (length A + length Lo) = Some ?x"
          "wr (A @ Lo @ ?x # drop (Suc i) S @ p # B) (length A + length Lo) ?x = Some (A @ Lo @ ?x # drop (Suc i) S @ p # B)"
          using rd_middle [of _ "A @ Lo"] wr_middle [of _ "A @ Lo"] by simp_all
        then show ?thesis using x len True Nil by (simp add: s(1) d)
      next
        case (Cons h Hi')
        have i: "length A + i = length (A @ Lo @ ?x # Hi')" using len Cons by simp
        have "rd (A @ Lo @ h # Hi' @ ?x # drop (Suc i) S @ p # B) (length A + length Lo) = Some h"
          "wr (A @ Lo @ h # Hi' @ ?x # drop (Suc i) S @ p # B) (length A + length Lo) ?x = Some (A @ Lo @ ?x # Hi' @ ?x # drop (Suc i) S @ p # B)"
          "wr (A @ Lo @ ?x # Hi' @ ?x # drop (Suc i) S @ p # B) (length A + i) h = Some (A @ Lo @ ?x # Hi' @ h # drop (Suc i) S @ p # B)"
          using rd_middle [of _ "A @ Lo"] wr_middle [of _ "A @ Lo"] wr_middle [OF i] by simp_all
        then show ?thesis using x True Cons by (intro exI [of _ "Hi' @ [h]"]) (simp add: s(1) d)
      qed
      then obtain Hi' where "?f i s = Some (A @ (Lo @ [?x]) @ Hi' @ drop (Suc i) S @ p # B, Suc (length Lo))" and m: "mset Hi' = mset Hi" by blast
      moreover have "set Hi' = set Hi" using m by (rule mset_eq_setD)
      moreover from this have "P (Suc i) (A @ (Lo @ [?x]) @ Hi' @ drop (Suc i) S @ p # B, Suc (length Lo))"
        using s(2-4) tk True m unfolding P_def case_prod_conv by (intro exI [of _ "Lo @ [?x]"] exI [of _ Hi']) auto
      ultimately show ?thesis by blast
    qed
  qed (simp_all add: P_def)
  then obtain L Hi where run: "for_up 0 (length S) ?f (A @ S @ p # B, 0) = Some (A @ L @ Hi @ p # B, length L)"
    and LH: "mset (L @ Hi) = mset S" "\<forall>x \<in> set L. x < p" "\<forall>x \<in> set Hi. p \<le> x" by (auto simp: P_def)
  have pv: "rd (A @ S @ p # B) (length A + length S) = Some p" using rd_middle [of _ "A @ S"] by simp
  have len: "length L + length Hi = length S" using LH(1) by (metis length_append size_mset)
  have "\<exists>R. (do { y \<leftarrow> rd (A @ L @ Hi @ p # B) (length A + length L); data \<leftarrow> wr (A @ L @ Hi @ p # B) (length A + length S) y;
      data \<leftarrow> wr data (length A + length L) p; Some (data, length L) }) = Some (A @ L @ p # R @ B, length L) \<and> mset R = mset Hi"
  proof (cases Hi)
    case Nil
    then show ?thesis using len rd_middle [of _ "A @ L"] wr_middle [of _ "A @ L"] by simp
  next
    case (Cons h Hi')
    have i: "length A + length S = length (A @ L @ h # Hi')" using len Cons by simp
    have "rd (A @ L @ h # Hi' @ p # B) (length A + length L) = Some h"
      "wr (A @ L @ h # Hi' @ p # B) (length A + length S) h = Some (A @ L @ h # Hi' @ h # B)"
      "wr (A @ L @ h # Hi' @ h # B) (length A + length L) p = Some (A @ L @ p # Hi' @ h # B)"
      using rd_middle [of _ "A @ L"] wr_middle [of _ "A @ L"] wr_middle [OF i] by simp_all
    then show ?thesis using Cons by (intro exI [of _ "Hi' @ [h]"]) simp
  qed
  then obtain R where R: "(do { y \<leftarrow> rd (A @ L @ Hi @ p # B) (length A + length L); data \<leftarrow> wr (A @ L @ Hi @ p # B) (length A + length S) y;
      data \<leftarrow> wr data (length A + length L) p; Some (data, length L) }) = Some (A @ L @ p # R @ B, length L)" "mset R = mset Hi" by blast
  have "partition_min (A @ (S @ [p]) @ B) (length A) (Suc (length S)) = Some (A @ (L @ p # R) @ B, length L)"
    using assms pv run R(1) by (simp add: partition_min_def)
  moreover have "set R = set Hi" using R(2) by (rule mset_eq_setD)
  ultimately show ?thesis using LH R(2) by (intro exI [of _ L] exI [of _ R]) simp
qed

text \<open>Where the pivot goes is inside of the range, so both recursive calls are on shorter ranges.\<close>

lemma partition_min_inside:
  assumes "partition_min data off len = Some (data', wi)"
  shows "wi < len"
proof -
  obtain pivot d where "0 < len" and run: "for_up 0 (len - 1) (\<lambda>i (data, wi). do {
        x \<leftarrow> rd data (off + i);
        if x < pivot then do {
          t \<leftarrow> rd data (off + wi);
          data \<leftarrow> wr data (off + wi) x;
          data \<leftarrow> wr data (off + i) t;
          Some (data, Suc wi)
        } else Some (data, wi)
      }) (data, 0) = Some (d, wi)"
    using assms by (auto simp: partition_min_def ensure_def split: Option.bind_split_asm if_splits)
  have "snd (d, wi) \<le> len - 1"
    using run by (rule for_up_inv [where P = "\<lambda>i s. snd s \<le> i"]) (auto split: Option.bind_split_asm if_splits)
  then show ?thesis using \<open>0 < len\<close> by simp
qed

function nth_min :: "int list \<Rightarrow> nat \<Rightarrow> nat \<Rightarrow> nat \<Rightarrow> (int \<times> int list) option" where
  "nth_min data off len n =
     (if len = 1 then do { v \<leftarrow> rd data off; Some (v, data) }
      else do {
        (data, wi) \<leftarrow> partition_min data off len;
        if n \<le> wi then nth_min data off wi n
        else if n = wi + 1 then do { v \<leftarrow> rd data (off + wi); Some (v, data) }
        else nth_min data (off + wi + 1) (len - wi - 1) (n - wi - 1)
      })"
  by pat_completeness auto
termination
  by (relation "measure (\<lambda>(data, off, len, n). len)") (auto dest: partition_min_inside)

declare nth_min.simps [simp del]

lemma sort_partition:
  fixes p :: int
  assumes "\<forall>x \<in> set L. x < p" "\<forall>x \<in> set R. p \<le> x"
  shows "sort (L @ p # R) = sort L @ p # sort R"
  using assms by (intro properties_for_sort) (simp_all add: sorted_append, force)

text \<open>
  Quickselect: on a range of at least \<open>n \<ge> 1\<close> elements the result is the \<open>n\<close>-th smallest; the range is permuted and
  nothing else is touched.
\<close>

lemma nth_min_selects:
  "length S \<le> 2 ^ 31 \<Longrightarrow> 0 < n \<Longrightarrow> n \<le> length S \<Longrightarrow>
    \<exists>S'. nth_min (A @ S @ B) (length A) (length S) n = Some (sort S ! (n - 1), A @ S' @ B) \<and> mset S' = mset S"
proof (induction "length S" arbitrary: A S B n rule: less_induct)
  case less
  show ?case
  proof (cases "length S = 1")
    case True
    then obtain x where "S = [x]" by (cases S) auto
    then show ?thesis using less.prems by (simp add: nth_min.simps rd_middle)
  next
    case False
    obtain S0 p where S: "S = S0 @ [p]" using less.prems by (cases S rule: rev_cases) auto
    obtain L R where part: "partition_min (A @ S @ B) (length A) (length S) = Some (A @ (L @ p # R) @ B, length L)"
      and LR: "mset (L @ R) = mset S0" "\<forall>x \<in> set L. x < p" "\<forall>x \<in> set R. p \<le> x"
      using partition_min_spec [of S0 A p B] less.prems(1) S by auto
    have len: "length S = Suc (length L + length R)" using LR(1) S by (metis length_append length_append_singleton size_mset)
    have m: "mset (L @ p # R) = mset S" using LR(1) S by simp
    then have sort: "sort S = sort L @ p # sort R" using sort_partition [OF LR(2,3)] by (metis properties_for_sort sorted_sort mset_sort)
    have step: "nth_min (A @ S @ B) (length A) (length S) n = (if n \<le> length L then nth_min (A @ (L @ p # R) @ B) (length A) (length L) n
        else if n = length L + 1 then do { v \<leftarrow> rd (A @ (L @ p # R) @ B) (length A + length L); Some (v, A @ (L @ p # R) @ B) }
        else nth_min (A @ (L @ p # R) @ B) (length A + length L + 1) (length S - length L - 1) (n - length L - 1))"
      using False part by (subst nth_min.simps) simp
    consider "n \<le> length L" | "n = length L + 1" | "length L + 1 < n" by linarith
    then show ?thesis
    proof cases
      case 1
      then obtain L' where "nth_min (A @ L @ (p # R @ B)) (length A) (length L) n = Some (sort L ! (n - 1), A @ L' @ (p # R @ B))" "mset L' = mset L"
        using less.hyps [of L n A "p # R @ B"] less.prems len by auto
      moreover have "n - 1 < length L" using 1 less.prems(2) by simp
      ultimately show ?thesis using step 1 m by (intro exI [of _ "L' @ p # R"]) (simp add: sort nth_append)
    next
      case 2
      then show ?thesis using step m rd_middle [of _ "A @ L"] by (intro exI [of _ "L @ p # R"]) (simp add: sort nth_append)
    next
      case 3
      then have "length R < length S" "length R \<le> 2 ^ 31" "0 < n - length L - 1" "n - length L - 1 \<le> length R" using less.prems len by simp_all
      from less.hyps [OF this, of "A @ L @ [p]" B] obtain R' where "nth_min ((A @ L @ [p]) @ R @ B) (length (A @ L @ [p])) (length R) (n - length L - 1) =
          Some (sort R ! (n - length L - 1 - 1), (A @ L @ [p]) @ R' @ B)" "mset R' = mset R"
        by blast
      moreover obtain k where "n = Suc (Suc (length L + k))" using less_imp_Suc_add [OF 3] by auto
      ultimately show ?thesis using step m len by (intro exI [of _ "L @ p # R'"]) (simp add: sort nth_append numeral_2_eq_2)
    qed
  qed
qed

section \<open>Metrics\<close>

definition INVALID_VALUE :: int where "INVALID_VALUE = -1"

record metric_t =
  mt_capacity :: nat
  begin_time :: int
  end_time :: int
  mt_min :: int
  mt_max :: int
  mt_count :: nat
  mt_begin :: nat
  times :: "int list"

definition make_metric :: "nat \<Rightarrow> metric_t" where
  "make_metric cap = \<lparr>mt_capacity = cap, begin_time = 0, end_time = 0, mt_min = INVALID_VALUE, mt_max = INVALID_VALUE,
     mt_count = 0, mt_begin = 0, times = replicate cap 0\<rparr>"

definition metric_record :: "int \<Rightarrow> metric_t \<Rightarrow> int \<Rightarrow> metric_t option" where
  "metric_record current m time = do {
     let m = (if begin_time m = 0 then m\<lparr>begin_time := current\<rparr> else m);
     let m = m\<lparr>end_time := current\<rparr>;
     let m = (if mt_min m = INVALID_VALUE \<or> time < mt_min m then m\<lparr>mt_min := time\<rparr> else m);
     let m = (if mt_max m = INVALID_VALUE \<or> time > mt_max m then m\<lparr>mt_max := time\<rparr> else m);
     let m = m\<lparr>mt_count := mt_count m + 1\<rparr>;
     ts \<leftarrow> wr (times m) (mt_begin m) time;
     ensure (mt_capacity m \<noteq> 0);
     Some (m\<lparr>times := ts, mt_begin := (mt_begin m + 1) mod mt_capacity m\<rparr>)
   }"

definition metric_min :: "metric_t \<Rightarrow> int" where "metric_min m = mt_min m"
definition metric_max :: "metric_t \<Rightarrow> int" where "metric_max m = mt_max m"

text \<open>\<open>share\<close> is the conversion of the product of the ratio with a length to \<open>size_t\<close>.\<close>

definition metric_ratio :: "metric_t \<Rightarrow> (nat \<Rightarrow> nat) \<Rightarrow> (int \<times> metric_t) option" where
  "metric_ratio m share = do {
     let len = (if mt_count m < mt_capacity m then mt_count m else mt_capacity m);
     if len = 0 then Some (INVALID_VALUE, m)
     else do {
       (v, ts) \<leftarrow> nth_min (times m) 0 len (share len);
       Some (v, m\<lparr>times := ts\<rparr>)
     }
   }"

definition rot :: "nat \<Rightarrow> 'a list \<Rightarrow> 'a list" where
  "rot b xs = drop b xs @ take b xs"

lemma rot_overwrite:
  assumes "b < length xs"
  shows "rot (Suc b mod length xs) (xs[b := x]) = tl (rot b xs) @ [x]"
proof -
  define A y B where "A = take b xs" and "y = xs ! b" and "B = drop (Suc b) xs"
  have xs: "xs = A @ y # B" "length A = b" using assms by (simp_all add: A_def y_def B_def id_take_nth_drop [symmetric])
  show ?thesis
  proof (cases "B = []")
    case True
    then show ?thesis using xs by (simp add: rot_def list_update_append)
  next
    case False
    then have "Suc (length A) < length (A @ y # B)" by simp
    then show ?thesis using xs by (auto simp: rot_def)
  qed
qed

text \<open>
  The invariant while samples come in: the counters, the extremes, and the ring, which from its beginning on holds
  the latest samples in the order in which they came.
\<close>

definition metric_ok :: "nat \<Rightarrow> int list \<Rightarrow> metric_t \<Rightarrow> bool" where
  "metric_ok cap xs m \<longleftrightarrow> mt_capacity m = cap \<and> length (times m) = cap \<and> mt_count m = length xs \<and> mt_begin m < cap \<and>
     (if length xs < cap then mt_begin m = length xs \<and> take (length xs) (times m) = xs
      else rot (mt_begin m) (times m) = drop (length xs - cap) xs) \<and>
     (if xs = [] then mt_min m = INVALID_VALUE \<and> mt_max m = INVALID_VALUE else mt_min m = Min (set xs) \<and> mt_max m = Max (set xs))"

lemma metric_record_in:
  assumes "mt_begin m < mt_capacity m" "length (times m) = mt_capacity m"
  shows "metric_record now m x = Some (m\<lparr>begin_time := (if begin_time m = 0 then now else begin_time m), end_time := now,
    mt_min := (if mt_min m = INVALID_VALUE \<or> x < mt_min m then x else mt_min m),
    mt_max := (if mt_max m = INVALID_VALUE \<or> x > mt_max m then x else mt_max m), mt_count := mt_count m + 1,
    times := (times m)[mt_begin m := x], mt_begin := Suc (mt_begin m) mod mt_capacity m\<rparr>)"
  using assms by (simp add: metric_record_def Let_def wr_in)

lemma metric_record_fields:
  assumes "mt_begin m < mt_capacity m" "length (times m) = mt_capacity m" "metric_record now m x = Some m'"
  shows "times m' = (times m)[mt_begin m := x]" "mt_capacity m' = mt_capacity m" "mt_count m' = mt_count m + 1" "mt_begin m' = Suc (mt_begin m) mod mt_capacity m"
    "mt_min m' = (if mt_min m = INVALID_VALUE \<or> x < mt_min m then x else mt_min m)" "mt_max m' = (if mt_max m = INVALID_VALUE \<or> x > mt_max m then x else mt_max m)"
  using assms(3) unfolding metric_record_in [OF assms(1,2)] by auto

lemma metric_record_valid:
  assumes ok: "metric_ok cap xs m" and valid: "INVALID_VALUE \<notin> set xs"
  shows "\<exists>m'. metric_record now m x = Some m' \<and> metric_ok cap (xs @ [x]) m'"
proof -
  define m' where "m' = m\<lparr>begin_time := (if begin_time m = 0 then now else begin_time m), end_time := now,
    mt_min := (if mt_min m = INVALID_VALUE \<or> x < mt_min m then x else mt_min m),
    mt_max := (if mt_max m = INVALID_VALUE \<or> x > mt_max m then x else mt_max m), mt_count := mt_count m + 1,
    times := (times m)[mt_begin m := x], mt_begin := Suc (mt_begin m) mod cap\<rparr>"
  have cap: "mt_begin m < cap" "mt_capacity m = cap" "length (times m) = cap" "mt_count m = length xs" using ok by (simp_all add: metric_ok_def)
  have run: "metric_record now m x = Some m'" using cap by (simp add: metric_record_in m'_def)
  have ext: "mt_min m' = Min (set (xs @ [x])) \<and> mt_max m' = Max (set (xs @ [x]))"
  proof (cases "xs = []")
    case True
    then show ?thesis using ok by (simp add: m'_def metric_ok_def)
  next
    case False
    define a b where "a = Min (set xs)" and "b = Max (set xs)"
    have "a \<in> set xs" "b \<in> set xs" using False by (simp_all add: a_def b_def)
    then have "a \<noteq> INVALID_VALUE" "b \<noteq> INVALID_VALUE" using valid by metis+
    moreover have "mt_min m = a" "mt_max m = b" using ok False by (simp_all add: metric_ok_def a_def b_def)
    moreover have "Min (set (xs @ [x])) = min x a" "Max (set (xs @ [x])) = max x b" using False by (simp_all add: a_def b_def)
    ultimately show ?thesis by (simp add: m'_def min_def max_def)
  qed
  have ring: "if length (xs @ [x]) < cap then mt_begin m' = length (xs @ [x]) \<and> take (length (xs @ [x])) (times m') = xs @ [x]
      else rot (mt_begin m') (times m') = drop (length (xs @ [x]) - cap) (xs @ [x])"
  proof (cases "length xs < cap")
    case True
    then have b: "mt_begin m = length xs" "take (length xs) (times m) = xs" using ok by (simp_all add: metric_ok_def)
    then have tk: "take (Suc (length xs)) (times m') = xs @ [x]" using True cap by (simp add: m'_def take_Suc_conv_app_nth)
    show ?thesis
    proof (cases "Suc (length xs) < cap")
      case True
      then show ?thesis using b tk by (simp add: m'_def)
    next
      case False
      then have c: "cap = Suc (length xs)" using \<open>length xs < cap\<close> by simp
      then have "mt_begin m' = 0" "length (times m') = Suc (length xs)" using b cap by (simp_all add: m'_def)
      then show ?thesis using tk c by (simp add: rot_def)
    qed
  next
    case False
    then have r: "rot (mt_begin m) (times m) = drop (length xs - cap) xs" using ok by (simp add: metric_ok_def)
    have "rot (mt_begin m') (times m') = tl (rot (mt_begin m) (times m)) @ [x]" using rot_overwrite [of "mt_begin m" "times m" x] cap by (simp add: m'_def)
    then show ?thesis using r False cap(1) by (simp add: Suc_diff_le drop_Suc tl_drop)
  qed
  have "mt_capacity m' = cap" "length (times m') = cap" "mt_count m' = length (xs @ [x])" "mt_begin m' < cap" using cap by (simp_all add: m'_def)
  then show ?thesis using run ext ring by (simp add: metric_ok_def)
qed

lemma metric_record_ok: "metric_ok cap xs m \<Longrightarrow> \<forall>x \<in> set xs. 0 \<le> x \<Longrightarrow> \<exists>m'. metric_record now m x = Some m' \<and> metric_ok cap (xs @ [x]) m'"
  by (rule metric_record_valid) (auto simp: INVALID_VALUE_def)

lemma make_metric_ok: "0 < cap \<Longrightarrow> metric_ok cap [] (make_metric cap)"
  by (simp add: metric_ok_def make_metric_def)

text \<open>The window: the latest samples, as many as there is room for.\<close>

lemma metric_window:
  assumes "metric_ok cap xs m"
  shows "mset (take (min (length xs) cap) (times m)) = mset (drop (length xs - cap) xs)"
proof (cases "length xs < cap")
  case False
  then have r: "rot (mt_begin m) (times m) = drop (length xs - cap) xs" "length (times m) = cap" using assms by (simp_all add: metric_ok_def)
  have "mset (rot (mt_begin m) (times m)) = mset (times m)" unfolding rot_def by (metis append_take_drop_id mset_append union_commute)
  then show ?thesis using r False by simp
qed (use assms in \<open>simp add: metric_ok_def\<close>)

text \<open>
  Samples and queries in any order. A query permutes the ring, so that afterwards a sample may replace any of those in
  the window; what remains true is that the window \<open>W\<close> holds as many of the samples as there is room for.
\<close>

datatype metric_op = Sample int int | Query "nat \<Rightarrow> nat"

fun metric_run :: "metric_t \<Rightarrow> metric_op list \<Rightarrow> metric_t option" where
  "metric_run m [] = Some m"
| "metric_run m (Sample current time # ops) = do { m \<leftarrow> metric_record current m time; metric_run m ops }"
| "metric_run m (Query share # ops) = do { (v, m) \<leftarrow> metric_ratio m share; metric_run m ops }"

definition samples :: "metric_op list \<Rightarrow> int list" where
  "samples ops = concat (map (\<lambda>p. case p of Sample current time \<Rightarrow> [time] | Query share \<Rightarrow> []) ops)"

text \<open>A share of a window of two or more samples is at least one of them, as for the ratios 0.99 and 0.90 of the callers, and not more than all.\<close>

definition share_ok :: "(nat \<Rightarrow> nat) \<Rightarrow> bool" where
  "share_ok share \<longleftrightarrow> (\<forall>n \<ge> 1. share n \<le> n \<and> (2 \<le> n \<longrightarrow> 1 \<le> share n))"

lemma samples_simps [simp]: "samples [] = []" "samples (Sample t x # ops) = x # samples ops" "samples (Query share # ops) = samples ops"
  by (simp_all add: samples_def)

definition metric_window_ok :: "nat \<Rightarrow> int list \<Rightarrow> int multiset \<Rightarrow> metric_t \<Rightarrow> bool" where
  "metric_window_ok cap xs W m \<longleftrightarrow> mt_capacity m = cap \<and> length (times m) = cap \<and> mt_count m = length xs \<and> mt_begin m < cap \<and>
     (length xs < cap \<longrightarrow> mt_begin m = length xs) \<and> mset (take (min (length xs) cap) (times m)) = W \<and> W \<subseteq># mset xs \<and>
     (if xs = [] then mt_min m = INVALID_VALUE \<and> mt_max m = INVALID_VALUE else mt_min m = Min (set xs) \<and> mt_max m = Max (set xs))"

lemma mset_drop_subset: "mset (drop k xs) \<subseteq># mset xs"
  by (metis append_take_drop_id mset_append mset_subset_eq_add_right)

lemma metric_ok_window: "metric_ok cap xs m \<Longrightarrow> metric_window_ok cap xs (mset (drop (length xs - cap) xs)) m"
  using metric_window [of cap xs m] by (auto simp: metric_ok_def metric_window_ok_def mset_drop_subset)

lemma rot_back: "b \<le> length D \<Longrightarrow> rot b (drop (length D - b) D @ take (length D - b) D) = D"
  by (simp add: rot_def)

text \<open>The extremes and the counters do not depend on the order in the ring, so the lemma takes those of a ring in order.\<close>

lemma window_record:
  assumes ok: "metric_window_ok cap xs W m" and valid: "INVALID_VALUE \<notin> set xs"
  shows "\<exists>m' W'. metric_record now m x = Some m' \<and> metric_window_ok cap (xs @ [x]) W' m'"
proof -
  let ?ts = "(times m)[mt_begin m := x]" let ?l = "min (length xs) cap"
  have m: "mt_begin m < cap" "mt_capacity m = cap" "length (times m) = cap" "mt_count m = length xs" "mset (take ?l (times m)) = W" "W \<subseteq># mset xs"
    "length xs < cap \<longrightarrow> mt_begin m = length xs" using ok by (simp_all add: metric_window_ok_def)
  let ?D = "drop (length xs - cap) xs"
  define n where "n = m\<lparr>times := (if length xs < cap then xs @ drop (length xs) (times m) else drop (length ?D - mt_begin m) ?D @ take (length ?D - mt_begin m) ?D)\<rparr>"
  have "rot (mt_begin m) (drop (length ?D - mt_begin m) ?D @ take (length ?D - mt_begin m) ?D) = ?D" if "\<not> length xs < cap"
    by (rule rot_back) (use that m(1) in simp)
  then have nok: "metric_ok cap xs n" using ok by (auto simp: metric_ok_def metric_window_ok_def n_def)
  then obtain n' where n': "metric_record now n x = Some n'" "metric_ok cap (xs @ [x]) n'" using metric_record_valid [OF nok valid] by blast
  have n: "mt_capacity n = mt_capacity m" "mt_count n = mt_count m" "mt_begin n = mt_begin m" "mt_min n = mt_min m" "mt_max n = mt_max m" by (simp_all add: n_def)
  obtain m' where run: "metric_record now m x = Some m'" using metric_record_in [of m now x] m(1-3) by simp
  have m': "times m' = ?ts" "mt_capacity m' = mt_capacity n'" "mt_count m' = mt_count n'" "mt_begin m' = mt_begin n'"
    "mt_min m' = mt_min n'" "mt_max m' = mt_max n'"
    using metric_record_fields [OF _ _ run] metric_record_fields [OF _ _ n'(1)] m(1-3) nok n by (simp_all add: metric_ok_def)
  have "mset (take (min (length (xs @ [x])) cap) ?ts) \<subseteq># mset (xs @ [x])"
  proof (cases "length xs < cap")
    case True
    then have "take (Suc (length xs)) ?ts = take (length xs) (times m) @ [x]" using m(3,7) by (simp add: take_Suc_conv_app_nth)
    then show ?thesis using True m(5,6) by simp
  next
    case False
    then have "mset ?ts = add_mset x (W - {#times m ! mt_begin m#})" using m(1,3,5) by (simp add: mset_update)
    also have "\<dots> \<subseteq># add_mset x (mset xs)" using m(6) by (meson diff_subset_eq_self mset_subset_eq_add_mset_cancel subset_mset.order_trans)
    finally show ?thesis using False m(3) by simp
  qed
  then have "metric_window_ok cap (xs @ [x]) (mset (take (min (length (xs @ [x])) cap) ?ts)) m'"
    using n'(2) m' m(3) by (simp add: metric_window_ok_def metric_ok_def)
  then show ?thesis using run by blast
qed

lemma window_ratio:
  assumes ok: "metric_window_ok cap xs W m" and cap: "cap \<le> 2 ^ 31" and share: "share_ok share"
  shows "\<exists>v m'. metric_ratio m share = Some (v, m') \<and> metric_window_ok cap xs W m' \<and> size W = min (length xs) cap \<and>
    v = (if xs = [] then INVALID_VALUE else sorted_list_of_multiset W ! (max 1 (share (size W)) - 1))"
proof -
  define l where "l = min (length xs) cap"
  define S where "S = take l (times m)"
  have m: "mt_capacity m = cap" "length (times m) = cap" "mt_count m = length xs" "mset S = W" "0 < cap" using ok by (auto simp: metric_window_ok_def S_def l_def)
  then have len: "length S = l" "times m = S @ drop l (times m)" by (simp_all add: S_def l_def)
  have l: "l = (if mt_count m < mt_capacity m then mt_count m else mt_capacity m)" "l \<le> 2 ^ 31" using m cap by (simp_all add: l_def)
  have size: "size W = l" using m(4) len(1) by auto
  show ?thesis
  proof (cases "xs = []")
    case True
    then show ?thesis using ok size l(1) by (simp add: metric_ratio_def l_def Let_def)
  next
    case False
    then have pos: "1 \<le> l" using m(5) by (simp add: l_def Suc_le_eq)
    have n: "share l \<le> l" "2 \<le> l \<Longrightarrow> 1 \<le> share l" using share pos by (auto simp: share_ok_def)
    have "\<exists>S'. nth_min (times m) 0 l (share l) = Some (sort S ! (max 1 (share l) - 1), S' @ drop l (times m)) \<and> mset S' = mset S"
    proof (cases "l = 1")
      case True
      then obtain x where "S = [x]" using len(1) by (cases S) auto
      moreover from this have "rd (times m) 0 = Some x" by (subst len(2)) (simp add: rd_def)
      moreover have "max 1 (share l) - 1 = 0" using n(1) True by simp
      ultimately show ?thesis using True len(2) by (intro exI [of _ S]) (simp add: nth_min.simps)
    next
      case False
      then have "1 \<le> share l" using n(2) pos by simp
      then show ?thesis using nth_min_selects [of S "share l" "[]" "drop l (times m)"] n(1) len l(2) by (auto simp: max_def)
    qed
    then obtain S' where S': "nth_min (times m) 0 l (share l) = Some (sort S ! (max 1 (share l) - 1), S' @ drop l (times m))" "mset S' = mset S" by blast
    have "sort S = sorted_list_of_multiset W" using m(4) by (metis sorted_list_of_multiset_mset)
    moreover have "metric_window_ok cap xs W (m\<lparr>times := S' @ drop l (times m)\<rparr>)"
      using ok S'(2) m(4) len(1) size_mset [of S'] size_mset [of S] by (auto simp: metric_window_ok_def l_def)
    ultimately show ?thesis using S'(1) pos False size unfolding metric_ratio_def Let_def l(1) [symmetric] by (simp add: l_def [symmetric])
  qed
qed

lemma metric_run_window:
  "metric_window_ok cap xs W m \<Longrightarrow> cap \<le> 2 ^ 31 \<Longrightarrow> INVALID_VALUE \<notin> set (xs @ samples ops) \<Longrightarrow> \<forall>share. Query share \<in> set ops \<longrightarrow> share_ok share \<Longrightarrow>
    \<exists>m' W'. metric_run m ops = Some m' \<and> metric_window_ok cap (xs @ samples ops) W' m'"
proof (induction m ops arbitrary: xs W rule: metric_run.induct)
  case (2 m now x ops)
  obtain m1 W1 where "metric_record now m x = Some m1" "metric_window_ok cap (xs @ [x]) W1 m1" using window_record [OF 2(2), where now = now and x = x] 2(4) by auto
  then show ?case using 2(1) [of m1 "xs @ [x]" W1] 2(3-5) by auto
next
  case (3 m share ops)
  then obtain v m1 where "metric_ratio m share = Some (v, m1)" "metric_window_ok cap xs W m1" using window_ratio [of cap xs W m share] by auto
  then show ?case using 3(1) [of "(v, m1)" v m1 xs W] 3(3-5) by auto
qed auto

text \<open>Without a query the window is that of the latest samples.\<close>

lemma metric_run_latest:
  "metric_ok cap xs m \<Longrightarrow> INVALID_VALUE \<notin> set (xs @ samples ops) \<Longrightarrow> \<forall>share. Query share \<notin> set ops \<Longrightarrow>
    \<exists>m'. metric_run m ops = Some m' \<and> metric_ok cap (xs @ samples ops) m'"
proof (induction m ops arbitrary: xs rule: metric_run.induct)
  case (2 m now x ops)
  obtain m1 where "metric_record now m x = Some m1" "metric_ok cap (xs @ [x]) m1" using metric_record_valid [OF 2(2), where now = now and x = x] 2(3) by auto
  then show ?case using 2(1) [of m1 "xs @ [x]"] 2(3,4) by auto
qed auto

section \<open>Bitmaps\<close>

record bitmap_t =
  bm_size :: nat
  bm_buffer :: "u8 list"

definition make_bitmap :: "nat \<Rightarrow> bitmap_t" where
  "make_bitmap sz = \<lparr>bm_size = sz, bm_buffer = replicate ((sz + 7) div 8) 0\<rparr>"

definition bitmap_set :: "bitmap_t \<Rightarrow> nat \<Rightarrow> (bool \<times> bitmap_t) option" where
  "bitmap_set b key =
     (if key \<ge> bm_size b then Some (False, b)
      else do {
        let n = key div 8; let m = key mod 8;
        x \<leftarrow> rd (bm_buffer b) n;
        buf \<leftarrow> wr (bm_buffer b) n (x OR push_bit m 1);
        Some (True, b\<lparr>bm_buffer := buf\<rparr>)
      })"

definition bitmap_unset :: "bitmap_t \<Rightarrow> nat \<Rightarrow> (bool \<times> bitmap_t) option" where
  "bitmap_unset b key =
     (if key \<ge> bm_size b then Some (False, b)
      else do {
        let n = key div 8; let m = key mod 8;
        x \<leftarrow> rd (bm_buffer b) n;
        buf \<leftarrow> wr (bm_buffer b) n (x AND NOT (push_bit m 1));
        Some (True, b\<lparr>bm_buffer := buf\<rparr>)
      })"

definition bitmap_isset :: "bitmap_t \<Rightarrow> nat \<Rightarrow> bool option" where
  "bitmap_isset b key =
     (if key \<ge> bm_size b then Some False
      else do {
        let n = key div 8; let m = key mod 8;
        x \<leftarrow> rd (bm_buffer b) n;
        Some (x AND push_bit m 1 \<noteq> 0)
      })"

definition bitmap_rep :: "nat \<Rightarrow> nat set \<Rightarrow> bitmap_t \<Rightarrow> bool" where
  "bitmap_rep sz S b \<longleftrightarrow> bm_size b = sz \<and> length (bm_buffer b) = (sz + 7) div 8 \<and> S \<subseteq> {..<sz} \<and>
     (\<forall>k < sz. bit (bm_buffer b ! (k div 8)) (k mod 8) \<longleftrightarrow> k \<in> S)"

lemma bitmap_write:
  assumes "bitmap_rep sz S b" "k < sz" "T \<subseteq> {..<sz}" and x: "\<And>m. m < 8 \<Longrightarrow> bit x m = (if m = k mod 8 then k \<in> T else bit (bm_buffer b ! (k div 8)) m)"
    and T: "\<And>j. j \<noteq> k \<Longrightarrow> j \<in> T \<longleftrightarrow> j \<in> S"
  shows "bitmap_rep sz T (b\<lparr>bm_buffer := (bm_buffer b)[k div 8 := x]\<rparr>)"
proof -
  have "bit ((bm_buffer b)[k div 8 := x] ! (j div 8)) (j mod 8) \<longleftrightarrow> j \<in> T" if j: "j < sz" for j
  proof (cases "j div 8 = k div 8")
    case True
    then have "j \<noteq> k \<longleftrightarrow> j mod 8 \<noteq> k mod 8" by (metis div_mod_decomp)
    moreover have "k div 8 < length (bm_buffer b)" using assms(1,2) by (auto simp: bitmap_rep_def)
    ultimately show ?thesis using assms(1) j x [of "j mod 8"] T [of j] True by (auto simp: bitmap_rep_def)
  next
    case False
    then have "j \<noteq> k" by blast
    then show ?thesis using False assms(1) j T [of j] by (simp add: bitmap_rep_def)
  qed
  then show ?thesis using assms(1,3) by (simp add: bitmap_rep_def)
qed

lemma bitmap_in: "bitmap_rep sz S b \<Longrightarrow> k < sz \<Longrightarrow> k div 8 < length (bm_buffer b)"
  by (auto simp: bitmap_rep_def)

lemma bitmap_set_spec:
  assumes "bitmap_rep sz S b"
  shows "\<exists>b'. bitmap_set b k = Some (k < sz, b') \<and> bitmap_rep sz (if k < sz then insert k S else S) b'"
proof (cases "k < sz")
  case True
  define b' where "b' = b\<lparr>bm_buffer := (bm_buffer b)[k div 8 := bm_buffer b ! (k div 8) OR push_bit (k mod 8) 1]\<rparr>"
  have "bitmap_rep sz (insert k S) b'"
    unfolding b'_def by (rule bitmap_write [OF assms True]) (use assms True in \<open>auto simp: bitmap_rep_def bit_simps\<close>)
  moreover have "bitmap_set b k = Some (True, b')"
    using True assms bitmap_in [OF assms True] by (simp add: bitmap_set_def rd_in wr_in bitmap_rep_def b'_def Let_def)
  ultimately show ?thesis using True by simp
qed (use assms in \<open>simp add: bitmap_set_def bitmap_rep_def\<close>)

lemma bitmap_unset_spec:
  assumes "bitmap_rep sz S b"
  shows "\<exists>b'. bitmap_unset b k = Some (k < sz, b') \<and> bitmap_rep sz (S - {k}) b'"
proof (cases "k < sz")
  case True
  define b' where "b' = b\<lparr>bm_buffer := (bm_buffer b)[k div 8 := bm_buffer b ! (k div 8) AND NOT (push_bit (k mod 8) 1)]\<rparr>"
  have "bitmap_rep sz (S - {k}) b'"
    unfolding b'_def by (rule bitmap_write [OF assms True]) (use assms True in \<open>auto simp: bitmap_rep_def bit_simps\<close>)
  moreover have "bitmap_unset b k = Some (True, b')"
    using True assms bitmap_in [OF assms True] by (simp add: bitmap_unset_def rd_in wr_in bitmap_rep_def b'_def Let_def)
  ultimately show ?thesis using True by simp
qed (use assms in \<open>auto simp: bitmap_unset_def bitmap_rep_def\<close>)

lemma bitmap_isset_spec:
  assumes "bitmap_rep sz S b"
  shows "bitmap_isset b k = Some (k \<in> S)"
proof (cases "k < sz")
  case True
  then show ?thesis using assms bitmap_in [OF assms True] by (simp add: bitmap_isset_def rd_in bitmap_rep_def and_exp_eq_0_iff_not_bit)
qed (use assms in \<open>auto simp: bitmap_isset_def bitmap_rep_def\<close>)

lemma make_bitmap_rep: "bitmap_rep sz {} (make_bitmap sz)"
proof -
  have "k div 8 < (sz + 7) div 8" if "k < sz" for k using that by linarith
  then show ?thesis by (simp add: bitmap_rep_def make_bitmap_def)
qed

text \<open>Operations of a client on a bitmap, and their meaning on sets of keys below the size.\<close>

datatype bitmap_op = Bm_set nat | Bm_unset nat | Bm_isset nat

fun bitmap_run :: "bitmap_t \<Rightarrow> bitmap_op list \<Rightarrow> bool list option" where
  "bitmap_run b [] = Some []"
| "bitmap_run b (Bm_set k # ops) = do { (r, b) \<leftarrow> bitmap_set b k; rs \<leftarrow> bitmap_run b ops; Some (r # rs) }"
| "bitmap_run b (Bm_unset k # ops) = do { (r, b) \<leftarrow> bitmap_unset b k; rs \<leftarrow> bitmap_run b ops; Some (r # rs) }"
| "bitmap_run b (Bm_isset k # ops) = do { r \<leftarrow> bitmap_isset b k; rs \<leftarrow> bitmap_run b ops; Some (r # rs) }"

fun keys_run :: "nat \<Rightarrow> nat set \<Rightarrow> bitmap_op list \<Rightarrow> bool list" where
  "keys_run sz S [] = []"
| "keys_run sz S (Bm_set k # ops) = (k < sz) # keys_run sz (if k < sz then insert k S else S) ops"
| "keys_run sz S (Bm_unset k # ops) = (k < sz) # keys_run sz (S - {k}) ops"
| "keys_run sz S (Bm_isset k # ops) = (k \<in> S) # keys_run sz S ops"

lemma bitmap_run_spec: "bitmap_rep sz S b \<Longrightarrow> bitmap_run b ops = Some (keys_run sz S ops)"
proof (induction ops arbitrary: S b)
  case (Cons op ops)
  show ?case
  proof (cases op)
    case (Bm_set k)
    obtain b' where "bitmap_set b k = Some (k < sz, b')" "bitmap_rep sz (if k < sz then insert k S else S) b'" using bitmap_set_spec [OF Cons.prems] by blast
    then show ?thesis using Cons.IH [of "if k < sz then insert k S else S" b'] Bm_set by simp
  next
    case (Bm_unset k)
    obtain b' where "bitmap_unset b k = Some (k < sz, b')" "bitmap_rep sz (S - {k}) b'" using bitmap_unset_spec [OF Cons.prems] by blast
    then show ?thesis using Cons.IH [of "S - {k}" b'] Bm_unset by simp
  next
    case (Bm_isset k)
    then show ?thesis using Cons.IH [OF Cons.prems] bitmap_isset_spec [OF Cons.prems] by simp
  qed
qed simp

section \<open>Properties\<close>

text \<open>
  C28. The statistics of samples and queries in any order. If no sample is the value -1, which the code takes for none, and every ratio
  gives a share of at least one of two or more samples and at most all of them, no operation fails. \<open>metric_min\<close> and \<open>metric_max\<close> are the least
  and the greatest of all samples. \<open>metric_ratio\<close> returns -1 without samples, and otherwise the sample at the place of its share in
  the order of a window \<open>W\<close> of samples, which lies between the two. The window holds all samples while they fit, and then as many as fit:
  the latest ones as long as no query has been made before, while a query permutes the ring and lets later samples replace any.
\<close>

theorem metric_bounds:
  assumes "0 < cap" "cap \<le> 2 ^ 31" "INVALID_VALUE \<notin> set (samples ops)" "\<forall>f. Query f \<in> set ops \<longrightarrow> share_ok f" "share_ok share"
  defines "xs \<equiv> samples ops"
  shows "\<exists>m v m' W. metric_run (make_metric cap) ops = Some m \<and> metric_ratio m share = Some (v, m') \<and>
    size W = min (length xs) cap \<and> W \<subseteq># mset xs \<and> ((\<forall>f. Query f \<notin> set ops) \<longrightarrow> W = mset (drop (length xs - cap) xs)) \<and>
    (if xs = [] then v = INVALID_VALUE \<and> metric_min m = INVALID_VALUE \<and> metric_max m = INVALID_VALUE
     else v = sorted_list_of_multiset W ! (max 1 (share (size W)) - 1) \<and> metric_min m = Min (set xs) \<and> metric_max m = Max (set xs) \<and>
       metric_min m \<le> v \<and> v \<le> metric_max m)"
proof -
  have init: "metric_ok cap [] (make_metric cap)" by (rule make_metric_ok [OF assms(1)])
  have "\<exists>m W. metric_run (make_metric cap) ops = Some m \<and> metric_window_ok cap xs W m \<and> ((\<forall>f. Query f \<notin> set ops) \<longrightarrow> W = mset (drop (length xs - cap) xs))"
  proof (cases "\<forall>f. Query f \<notin> set ops")
    case True
    then obtain m where "metric_run (make_metric cap) ops = Some m" "metric_ok cap xs m" using metric_run_latest [OF init, of ops] assms(3) by (auto simp: xs_def)
    then show ?thesis using metric_ok_window by blast
  next
    case False
    then show ?thesis using metric_run_window [OF metric_ok_window [OF init] assms(2), of ops] assms(3,4) by (auto simp: xs_def)
  qed
  then obtain m W where m: "metric_run (make_metric cap) ops = Some m" "metric_window_ok cap xs W m"
    "(\<forall>f. Query f \<notin> set ops) \<longrightarrow> W = mset (drop (length xs - cap) xs)" by blast
  obtain v m' where v: "metric_ratio m share = Some (v, m')" "size W = min (length xs) cap"
    "v = (if xs = [] then INVALID_VALUE else sorted_list_of_multiset W ! (max 1 (share (size W)) - 1))"
    using window_ratio [OF m(2) assms(2,5)] by blast
  have W: "W \<subseteq># mset xs" "if xs = [] then mt_min m = INVALID_VALUE \<and> mt_max m = INVALID_VALUE else mt_min m = Min (set xs) \<and> mt_max m = Max (set xs)"
    using m(2) by (simp_all add: metric_window_ok_def)
  have "v \<in> set xs" if "xs \<noteq> []"
  proof -
    have "1 \<le> size W" using that v(2) assms(1) by (simp add: Suc_le_eq)
    then have "max 1 (share (size W)) - 1 < length (sorted_list_of_multiset W)" using assms(5) by (auto simp: share_ok_def size_mset [symmetric] simp del: size_mset)
    then have "v \<in> set (sorted_list_of_multiset W)" using v(3) that by (metis nth_mem)
    then show ?thesis using W(1) mset_subset_eqD by fastforce
  qed
  then show ?thesis using m v W by (intro exI [of _ m] exI [of _ v] exI [of _ m'] exI [of _ W]) (auto simp: metric_min_def metric_max_def)
qed

theorem metric_bounds_witness:
  "\<exists>m v m'. metric_run (make_metric 3) [Sample 5 40, Sample 6 10, Query (\<lambda>n. n * 90 div 100), Sample 7 30] = Some m \<and>
    metric_ratio m (\<lambda>n. n * 90 div 100) = Some (v, m') \<and> v = 30 \<and> metric_min m = 10 \<and> metric_max m = 40"
proof -
  let ?ops = "[Sample 5 40, Sample 6 10, Query (\<lambda>n. n * 90 div 100), Sample 7 30]"
  have share: "share_ok (\<lambda>n. n * 90 div 100)" 
  proof -
    have "n * 90 div 100 \<le> n" "2 \<le> n \<Longrightarrow> 1 \<le> n * 90 div 100" for n :: nat using div_le_mono [of 100 "n * 90" 100] by (simp_all add: less_eq_div_iff_mult_less_eq div_le_dividend)
    then show ?thesis by (simp add: share_ok_def)
  qed
  then have queries: "\<forall>f. Query f \<in> set ?ops \<longrightarrow> share_ok f" by simp
  have xs: "INVALID_VALUE \<notin> set (samples ?ops)" by (simp add: INVALID_VALUE_def)
  have cap: "0 < (3 :: nat)" "(3 :: nat) \<le> 2 ^ 31" by simp_all
  from metric_bounds [OF cap xs queries share] obtain m v m' W where
    r: "metric_run (make_metric 3) ?ops = Some m" "metric_ratio m (\<lambda>n. n * 90 div 100) = Some (v, m')"
      "size W = min (length (samples ?ops)) 3" "W \<subseteq># mset (samples ?ops)"
    and v: "if samples ?ops = [] then v = INVALID_VALUE \<and> metric_min m = INVALID_VALUE \<and> metric_max m = INVALID_VALUE
      else v = sorted_list_of_multiset W ! (max 1 (size W * 90 div 100) - 1) \<and> metric_min m = Min (set (samples ?ops)) \<and>
        metric_max m = Max (set (samples ?ops)) \<and> metric_min m \<le> v \<and> v \<le> metric_max m"
    by (elim exE conjE) (rule that)
  have size: "size W = 3" using r(3) by simp
  have "W = mset [40, 10, 30]" using r(4) size mset_subset_size [of W "mset [40, 10, 30]"] by (auto simp: subset_mset.less_le)
  then have "sorted_list_of_multiset W = [10, 30, 40]" unfolding sorted_list_of_multiset_mset by simp
  then show ?thesis using r(1,2) v size by simp
qed

text \<open>
  A ratio so small that its share is zero takes the selection out of the range when the last sample is the least:
  the recursive call has no elements, and the code reads the element before the first.
\<close>

lemmas selection_simps = partition_min_def for_up_step for_up_done rd_def wr_def

lemma nth_min_zero: "nth_min [20, 10] 0 2 0 = None"
proof -
  have "partition_min [20, 10] 0 2 = Some ([10, 20], 0)" by (simp add: selection_simps)
  moreover have "partition_min [10, 20] 0 0 = None" by (simp add: selection_simps)
  ultimately show ?thesis by (simp add: nth_min.simps [of _ _ 2] nth_min.simps [of _ _ 0])
qed

lemma metric_ratio_zero: "(do { m \<leftarrow> metric_run (make_metric 2) [Sample 5 20, Sample 6 10]; metric_ratio m (\<lambda>_. 0) }) = None"
proof -
  have "replicate 2 (0 :: int) = [0, 0]" by (simp add: numeral_2_eq_2)
  then show ?thesis using nth_min_zero by (simp add: make_metric_def metric_record_def metric_ratio_def Let_def wr_def INVALID_VALUE_def)
qed

text \<open>A sample of -1 looks like no sample: the next one takes its place as the least.\<close>

lemma metric_invalid_sample: "map_option metric_min (metric_run (make_metric 2) [Sample 1 (-1), Sample 2 7]) = Some 7"
proof -
  have "replicate 2 (0 :: int) = [0, 0]" by (simp add: numeral_2_eq_2)
  then show ?thesis by (simp add: make_metric_def metric_record_def Let_def wr_def INVALID_VALUE_def metric_min_def)
qed

text \<open>The selection permutes the ring, so the next sample replaces some sample, not the oldest one.\<close>

lemma nth_min_reorders: "nth_min [30, 10, 20] 0 3 1 = Some (10, [10, 20, 30])"
proof -
  have "partition_min [30, 10, 20] 0 3 = Some ([10, 20, 30], 1)" by (simp add: selection_simps)
  then show ?thesis by (simp add: nth_min.simps [of _ _ 3] nth_min.simps [of _ _ 1] nth_min.simps [of _ _ "Suc 0"] rd_def)
qed

lemma metric_ratio_reorders:
  "(do { m \<leftarrow> metric_run (make_metric 3) [Sample 1 30, Sample 2 10, Sample 3 20]; (v, m) \<leftarrow> metric_ratio m (\<lambda>_. 1); m \<leftarrow> metric_record 4 m 40; Some (times m) }) =
    Some [40, 20, 30]"
proof -
  define m1 where "m1 = \<lparr>mt_capacity = 3, begin_time = 1, end_time = 1, mt_min = 30, mt_max = 30, mt_count = 1, mt_begin = 1, times = [30, 0, 0]\<rparr>"
  define m2 where "m2 = \<lparr>mt_capacity = 3, begin_time = 1, end_time = 2, mt_min = 10, mt_max = 30, mt_count = 2, mt_begin = 2, times = [30, 10, 0]\<rparr>"
  define m3 where "m3 = \<lparr>mt_capacity = 3, begin_time = 1, end_time = 3, mt_min = 10, mt_max = 30, mt_count = 3, mt_begin = 0, times = [30, 10, 20]\<rparr>"
  have "replicate 3 (0 :: int) = [0, 0, 0]" by (simp add: numeral_3_eq_3)
  then have "metric_record 1 (make_metric 3) 30 = Some m1" by (simp add: make_metric_def metric_record_def wr_def INVALID_VALUE_def m1_def)
  moreover have "metric_record 2 m1 10 = Some m2" by (simp add: metric_record_def wr_def INVALID_VALUE_def m1_def m2_def)
  moreover have "metric_record 3 m2 20 = Some m3" by (simp add: metric_record_def wr_def INVALID_VALUE_def m2_def m3_def numeral_2_eq_2)
  moreover have "metric_ratio m3 (\<lambda>_. 1) = Some (10, m3\<lparr>times := [10, 20, 30]\<rparr>)" using nth_min_reorders by (simp add: metric_ratio_def m3_def)
  moreover have "\<exists>m4. metric_record 4 (m3\<lparr>times := [10, 20, 30]\<rparr>) 40 = Some m4 \<and> times m4 = [40, 20, 30]"
    by (simp add: metric_record_def wr_def INVALID_VALUE_def m3_def)
  ultimately show ?thesis by auto
qed

text \<open>
  C29. The bitmap is a set of keys below its size: every sequence of operations on a fresh bitmap runs without an
  access outside of the buffer, setting and clearing report whether the key is in range, and
  a key is found set exactly if it is in the set.
\<close>

theorem bitmap_refines_set: "bitmap_run (make_bitmap sz) ops = Some (keys_run sz {} ops)"
  by (rule bitmap_run_spec [OF make_bitmap_rep])

end
