(* ===== verification/Echo_Packet.thy ===== *)
theory Echo_Packet
  imports Nt_Echo Metric
begin

text \<open>
  The messages of the echo client: \<^verbatim>\<open>src/src/main/echo/packet.h\<close>. A packet is its 1100 bytes in memory, numbers in the order of
  the host, lowest byte first.
\<close>

section \<open>Counting bits\<close>

definition count1 :: "u64 \<Rightarrow> u64" where
  "count1 i =
     (let i = (i AND 0x5555555555555555) + drop_bit 1 (i AND 0xAAAAAAAAAAAAAAAA);
          i = (i AND 0x3333333333333333) + drop_bit 2 (i AND 0xCCCCCCCCCCCCCCCC);
          i = (i AND 0x0F0F0F0F0F0F0F0F) + drop_bit 4 (i AND 0xF0F0F0F0F0F0F0F0);
          i = (i AND 0x00FF00FF00FF00FF) + drop_bit 8 (i AND 0xFF00FF00FF00FF00);
          i = (i AND 0x0000FFFF0000FFFF) + drop_bit 16 (i AND 0xFFFF0000FFFF0000);
          i = (i AND 0x00000000FFFFFFFF) + drop_bit 32 (i AND 0xFFFFFFFF00000000)
      in i)"

text \<open>The macro \<open>LOWEST1_FOO\<close> works on \<open>i\<close> and \<open>n\<close>.\<close>

definition LOWEST1_FOO :: "u64 \<Rightarrow> nat \<Rightarrow> u64 \<times> int \<Rightarrow> u64 \<times> int" where
  "LOWEST1_FOO m bits = (\<lambda>(i, n). if i AND m = 0 then (drop_bit bits i, n + int bits) else (i, n))"

definition lowest1 :: "u64 \<Rightarrow> int" where
  "lowest1 i =
     (if i = 0 then -1
      else let s = (i, 0);
               s = LOWEST1_FOO 0xFFFFFFFF 32 s;
               s = LOWEST1_FOO 0xFFFF 16 s;
               s = LOWEST1_FOO 0xFF 8 s;
               s = LOWEST1_FOO 0xF 4 s;
               s = LOWEST1_FOO 0x3 2 s;
               s = LOWEST1_FOO 0x1 1 s
           in snd s)"

subsection \<open>Digits\<close>

text \<open>The number with the digits \<open>ds\<close> of \<open>w\<close> bits, lowest first.\<close>

fun digits_num :: "nat \<Rightarrow> nat list \<Rightarrow> nat" where
  "digits_num w [] = 0"
| "digits_num w (d # ds) = d + 2 ^ w * digits_num w ds"

fun pair_sums :: "nat list \<Rightarrow> nat list" where
  "pair_sums (a # b # ds) = (a + b) # pair_sums ds"
| "pair_sums ds = ds"

fun evens :: "nat list \<Rightarrow> nat list" where
  "evens (a # b # ds) = a # evens ds"
| "evens ds = ds"

fun odds :: "nat list \<Rightarrow> nat list" where
  "odds (a # b # ds) = b # odds ds"
| "odds ds = []"

lemma and_split:
  fixes a b c d :: nat
  assumes "a < 2 ^ n" "c < 2 ^ n"
  shows "(a + 2 ^ n * b) AND (c + 2 ^ n * d) = (a AND c) + 2 ^ n * (b AND d)"
proof -
  have join: "x + 2 ^ n * y = x OR push_bit n y" if "x < 2 ^ n" for x y :: nat
  proof -
    have "take_bit n x = x" using that by (simp add: take_bit_nat_eq_self_iff)
    then have "\<not> bit x i" if "n \<le> i" for i using that by (metis bit_take_bit_iff not_le)
    then have "x AND push_bit n y = 0" by (intro bit_eqI) (auto simp: bit_simps)
    then show ?thesis using disjunctive_add_eq_or [of x "push_bit n y"] by (simp add: push_bit_eq_mult mult.commute)
  qed
  have bits: "take_bit n a = a" "take_bit n c = c" using assms by (simp_all add: take_bit_nat_eq_self_iff)
  then have ac: "a AND c < 2 ^ n" by (metis take_bit_and take_bit_nat_eq_self_iff)
  have "(a OR push_bit n b) AND (c OR push_bit n d) = (a AND c) OR push_bit n (b AND d)"
  proof (rule bit_eqI)
    fix i
    have "\<not> bit a i" "\<not> bit c i" if "n \<le> i" using that bits by (metis bit_take_bit_iff not_le)+
    then show "bit ((a OR push_bit n b) AND (c OR push_bit n d)) i \<longleftrightarrow> bit ((a AND c) OR push_bit n (b AND d)) i"
      by (auto simp: bit_simps)
  qed
  then show ?thesis unfolding join [OF assms(1)] join [OF assms(2)] join [OF ac] .
qed

text \<open>A mask of the lower half of every double digit takes the even digits.\<close>

lemma and_evens:
  "even (length ds) \<Longrightarrow> list_all (\<lambda>d. d < 2 ^ w) ds \<Longrightarrow>
    digits_num w ds AND digits_num (2 * w) (replicate (length ds div 2) (2 ^ w - 1)) = digits_num (2 * w) (evens ds)"
proof (induction ds rule: evens.induct)
  case (1 a b ds)
  have ab: "a + 2 ^ w * b < 2 ^ (2 * w)"
  proof -
    have "b + 1 \<le> 2 ^ w" "a < 2 ^ w" using 1(3) by simp_all
    then have "2 ^ w * (b + 1) \<le> 2 ^ w * (2 ^ w :: nat)" by (intro mult_le_mono2)
    then show ?thesis using \<open>a < 2 ^ w\<close> by (simp add: power_add [symmetric] mult_2)
  qed
  have m: "(2 :: nat) ^ w - 1 < 2 ^ (2 * w)" by (rule less_le_trans [of _ "2 ^ w"]) simp_all
  have low: "(a + 2 ^ w * b) AND (2 ^ w - 1) = a"
  proof -
    have "x AND (2 ^ w - 1) = x mod 2 ^ w" for x :: nat using take_bit_eq_mask [of w x] by (simp add: mask_eq_exp_minus_1 take_bit_eq_mod)
    then show ?thesis using 1(3) by simp
  qed
  have n: "digits_num w (a # b # ds) = (a + 2 ^ w * b) + 2 ^ (2 * w) * digits_num w ds" by (simp add: algebra_simps power_add [symmetric] mult_2)
  have h: "length (a # b # ds) div 2 = Suc (length ds div 2)" by simp
  show ?case unfolding n h using 1 and_split [OF ab m, of "digits_num w ds" "digits_num (2 * w) (replicate (length ds div 2) (2 ^ w - 1))"] low by simp
qed simp_all

lemma drop_digit: "d < 2 ^ w \<Longrightarrow> drop_bit w (digits_num w (d # ds)) = digits_num w ds"
  by (simp add: drop_bit_eq_div)

lemma evens_odds: "even (length ds) \<Longrightarrow> digits_num w (evens ds) + digits_num w (odds ds) = digits_num w (pair_sums ds)"
proof (induction ds rule: pair_sums.induct)
  case (1 a b ds)
  then have "digits_num w (pair_sums ds) = digits_num w (evens ds) + digits_num w (odds ds)" by simp
  then show ?case by (simp only: evens.simps odds.simps pair_sums.simps digits_num.simps distrib_left add.assoc add.left_commute)
qed simp_all

lemma odds_evens: "even (length ds) \<Longrightarrow> ds \<noteq> [] \<Longrightarrow> digits_num w (odds ds) = digits_num w (evens (tl ds @ [0]))"
proof (induction ds rule: pair_sums.induct)
  case (1 a b ds)
  then show ?case by (cases ds) auto
qed simp_all

lemma sum_pair_sums: "sum_list (pair_sums ds) = sum_list ds"
  by (induction ds rule: pair_sums.induct) simp_all

lemma length_pair_sums: "even (length ds) \<Longrightarrow> length (pair_sums ds) = length ds div 2"
  by (induction ds rule: pair_sums.induct) simp_all

lemma pair_sums_bound: "even (length ds) \<Longrightarrow> list_all (\<lambda>d. d \<le> w) ds \<Longrightarrow> list_all (\<lambda>d. d \<le> 2 * w) (pair_sums ds)"
  by (induction ds rule: pair_sums.induct) auto

lemma digits_bound: "list_all (\<lambda>d. d < 2 ^ w) ds \<Longrightarrow> digits_num w ds < 2 ^ (w * length ds)"
proof (induction ds)
  case (Cons d ds)
  then have "digits_num w ds + 1 \<le> 2 ^ (w * length ds)" "d < 2 ^ w" by simp_all
  then have "2 ^ w * (digits_num w ds + 1) \<le> 2 ^ w * 2 ^ (w * length ds)" by (intro mult_le_mono2)
  then show ?case using \<open>d < 2 ^ w\<close> by (simp add: power_add)
qed simp

text \<open>One line of \<open>count1\<close>.\<close>

lemma count_step:
  fixes i m m' :: u64
  assumes i: "unat i = digits_num w ds" and ds: "list_all (\<lambda>d. d \<le> w) ds" "w * length ds = 64" "even (length ds)" "0 < w"
    and m: "unat m = digits_num (2 * w) (replicate (length ds div 2) (2 ^ w - 1))" "drop_bit w m' = m"
  shows "unat ((i AND m) + drop_bit w (i AND m')) = digits_num (2 * w) (pair_sums ds) \<and> list_all (\<lambda>d. d \<le> 2 * w) (pair_sums ds) \<and>
    length (pair_sums ds) = length ds div 2 \<and> sum_list (pair_sums ds) = sum_list ds"
proof -
  have w: "k < 2 ^ k" for k :: nat by (rule less_exp)
  have lt: "list_all (\<lambda>d. d < 2 ^ w) ds" using ds(1) w [of w] by (auto simp: list_all_iff intro: le_less_trans)
  obtain d r where dr: "ds = d # r" using ds(2) by (cases ds) auto
  have "unat (drop_bit w i) = digits_num w (r @ [0])"
  proof -
    have "digits_num w (r @ [0]) = digits_num w r" by (induction r) simp_all
    then show ?thesis using drop_digit [of d w r] lt by (simp add: unat_drop_bit_eq i dr)
  qed
  moreover have "list_all (\<lambda>d. d < 2 ^ w) (r @ [0])" "length (r @ [0]) = length ds" using lt by (simp_all add: dr)
  ultimately have "unat (drop_bit w i AND m) = digits_num (2 * w) (evens (r @ [0]))" using and_evens [of "r @ [0]" w] ds(3) m(1) by (simp add: unsigned_and_eq)
  then have odd: "unat (drop_bit w (i AND m')) = digits_num (2 * w) (odds ds)" using odds_evens [OF ds(3), of "2 * w"] m(2) by (simp add: drop_bit_and dr)
  have even: "unat (i AND m) = digits_num (2 * w) (evens ds)" using and_evens [OF ds(3) lt] i m(1) by (simp add: unsigned_and_eq)
  have s: "unat (i AND m) + unat (drop_bit w (i AND m')) = digits_num (2 * w) (pair_sums ds)" using even odd evens_odds [OF ds(3)] by simp
  have b: "list_all (\<lambda>d. d \<le> 2 * w) (pair_sums ds)" by (rule pair_sums_bound [OF ds(3,1)])
  then have "list_all (\<lambda>d. d < 2 ^ (2 * w)) (pair_sums ds)" using w [of "2 * w"] by (auto simp: list_all_iff intro: le_less_trans)
  then have "digits_num (2 * w) (pair_sums ds) < 2 ^ (2 * w * length (pair_sums ds))" by (rule digits_bound)
  also have "2 * w * length (pair_sums ds) = w * (length ds div 2 * 2)" using length_pair_sums [OF ds(3)] by simp
  also have "\<dots> = 64" using ds(2,3) by (simp only: dvd_div_mult_self)
  finally have "unat ((i AND m) + drop_bit w (i AND m')) = digits_num (2 * w) (pair_sums ds)" using s unat_add_lem [of "i AND m" "drop_bit w (i AND m')"] by simp
  then show ?thesis using b length_pair_sums [OF ds(3)] sum_pair_sums by blast
qed

lemma digits_of_bits: "digits_num 1 (map (\<lambda>n. of_bool (bit i n)) [0..<64]) = unat (i :: u64)"
proof -
  have "digits_num 1 ds = horner_sum id 2 ds" for ds by (induction ds) simp_all
  then have "digits_num 1 (map (\<lambda>n. of_bool (bit i n)) [0..<64]) = horner_sum of_bool 2 (map (bit (unat i)) [0..<64])"
    by (simp add: horner_sum_foldr foldr_map comp_def bit_unsigned_iff)
  also have "\<dots> = take_bit 64 (unat i)" by (rule horner_sum_bit_eq_take_bit)
  finally show ?thesis using unsigned_less [of i] by (simp add: take_bit_nat_eq_self_iff)
qed

lemma digits_replicate: "digits_num w (replicate (numeral n) d) = d + 2 ^ w * digits_num w (replicate (pred_numeral n) d)"
  by (simp add: numeral_eq_Suc)

lemma masks:
  "unat (0x5555555555555555 :: u64) = digits_num 2 (replicate 32 1)"
  "unat (0x3333333333333333 :: u64) = digits_num 4 (replicate 16 3)"
  "unat (0x0F0F0F0F0F0F0F0F :: u64) = digits_num 8 (replicate 8 15)"
  "unat (0x00FF00FF00FF00FF :: u64) = digits_num 16 (replicate 4 255)"
  "unat (0x0000FFFF0000FFFF :: u64) = digits_num 32 (replicate 2 65535)"
  "unat (0x00000000FFFFFFFF :: u64) = digits_num 64 (replicate 1 4294967295)"
  by (simp_all add: digits_replicate)

lemma mask_shifts:
  "drop_bit 1 (0xAAAAAAAAAAAAAAAA :: u64) = 0x5555555555555555"
  "drop_bit 2 (0xCCCCCCCCCCCCCCCC :: u64) = 0x3333333333333333"
  "drop_bit 4 (0xF0F0F0F0F0F0F0F0 :: u64) = 0x0F0F0F0F0F0F0F0F"
  "drop_bit 8 (0xFF00FF00FF00FF00 :: u64) = 0x00FF00FF00FF00FF"
  "drop_bit 16 (0xFFFF0000FFFF0000 :: u64) = 0x0000FFFF0000FFFF"
  "drop_bit 32 (0xFFFFFFFF00000000 :: u64) = 0x00000000FFFFFFFF"
  by (simp_all add: drop_bit_eq_div)

lemma count1_bits: "unat (count1 i) = card {n. bit i n}"
proof -
  define d0 :: "nat list" where "d0 = map (\<lambda>n. of_bool (bit i n)) [0..<64]"
  define i1 where "i1 = (i AND 0x5555555555555555) + drop_bit 1 (i AND 0xAAAAAAAAAAAAAAAA)"
  define i2 where "i2 = (i1 AND 0x3333333333333333) + drop_bit 2 (i1 AND 0xCCCCCCCCCCCCCCCC)"
  define i3 where "i3 = (i2 AND 0x0F0F0F0F0F0F0F0F) + drop_bit 4 (i2 AND 0xF0F0F0F0F0F0F0F0)"
  define i4 where "i4 = (i3 AND 0x00FF00FF00FF00FF) + drop_bit 8 (i3 AND 0xFF00FF00FF00FF00)"
  define i5 where "i5 = (i4 AND 0x0000FFFF0000FFFF) + drop_bit 16 (i4 AND 0xFFFF0000FFFF0000)"
  define i6 where "i6 = (i5 AND 0x00000000FFFFFFFF) + drop_bit 32 (i5 AND 0xFFFFFFFF00000000)"
  note defs = i1_def i2_def i3_def i4_def i5_def i6_def
  have l0: "length d0 = 64" "list_all (\<lambda>d. d \<le> 1) d0" "unat i = digits_num 1 d0" by (simp_all add: d0_def list_all_iff digits_of_bits [symmetric])
  have s1: "unat i1 = digits_num 2 (pair_sums d0) \<and> list_all (\<lambda>d. d \<le> 2) (pair_sums d0) \<and> length (pair_sums d0) = 32 \<and> sum_list (pair_sums d0) = sum_list d0"
    using count_step [OF l0(3,2) _ _ _ _ mask_shifts(1)] l0(1) masks(1) by (simp add: i1_def)
  define d1 where "d1 = pair_sums d0"
  have s2: "unat i2 = digits_num 4 (pair_sums d1) \<and> list_all (\<lambda>d. d \<le> 4) (pair_sums d1) \<and> length (pair_sums d1) = 16 \<and> sum_list (pair_sums d1) = sum_list d1"
    using count_step [of i1 2 d1, OF _ _ _ _ _ _ mask_shifts(2)] s1 masks(2) by (simp add: i2_def d1_def)
  define d2 where "d2 = pair_sums d1"
  have s3: "unat i3 = digits_num 8 (pair_sums d2) \<and> list_all (\<lambda>d. d \<le> 8) (pair_sums d2) \<and> length (pair_sums d2) = 8 \<and> sum_list (pair_sums d2) = sum_list d2"
    using count_step [of i2 4 d2, OF _ _ _ _ _ _ mask_shifts(3)] s2 masks(3) by (simp add: i3_def d2_def)
  define d3 where "d3 = pair_sums d2"
  have s4: "unat i4 = digits_num 16 (pair_sums d3) \<and> list_all (\<lambda>d. d \<le> 16) (pair_sums d3) \<and> length (pair_sums d3) = 4 \<and> sum_list (pair_sums d3) = sum_list d3"
    using count_step [of i3 8 d3, OF _ _ _ _ _ _ mask_shifts(4)] s3 masks(4) by (simp add: i4_def d3_def)
  define d4 where "d4 = pair_sums d3"
  have s5: "unat i5 = digits_num 32 (pair_sums d4) \<and> list_all (\<lambda>d. d \<le> 32) (pair_sums d4) \<and> length (pair_sums d4) = 2 \<and> sum_list (pair_sums d4) = sum_list d4"
    using count_step [of i4 16 d4, OF _ _ _ _ _ _ mask_shifts(5)] s4 masks(5) by (simp add: i5_def d4_def)
  define d5 where "d5 = pair_sums d4"
  have s6: "unat i6 = digits_num 64 (pair_sums d5) \<and> length (pair_sums d5) = 1 \<and> sum_list (pair_sums d5) = sum_list d5"
    using count_step [of i5 32 d5, OF _ _ _ _ _ _ mask_shifts(6)] s5 masks(6) by (simp add: i6_def d5_def)
  obtain c where c: "pair_sums d5 = [c]" using s6 by (cases "pair_sums d5") auto
  have "count1 i = i6" unfolding count1_def Let_def defs ..
  then have "unat (count1 i) = sum_list d0" using s1 s2 s3 s4 s5 s6 c by (simp add: d1_def d2_def d3_def d4_def d5_def)
  also have "\<dots> = (\<Sum>n<64. of_bool (bit i n))" by (simp add: d0_def interv_sum_list_conv_sum_set_nat atLeast0LessThan)
  also have "\<dots> = card ({..<64} \<inter> {n. bit i n})" by (simp add: of_bool_def sum.If_cases)
  also have "{..<64} \<inter> {n. bit i n} = {n. bit i n}" using bit_imp_le_length [of i] by auto
  finally show ?thesis .
qed

subsection \<open>The lowest bit\<close>

text \<open>The search has moved past \<open>n\<close> zeros of \<open>i\<close>, and one of the next \<open>k\<close> bits is set.\<close>

definition searched :: "u64 \<Rightarrow> nat \<Rightarrow> u64 \<times> int \<Rightarrow> bool" where
  "searched i k s \<longleftrightarrow> (\<exists>n. snd s = int n \<and> fst s = drop_bit n i \<and> take_bit n i = 0 \<and> take_bit k (fst s) \<noteq> 0)"

lemma searched_step:
  assumes "searched i (2 * k) s" "\<And>x. x AND m = take_bit k x"
  shows "searched i k (LOWEST1_FOO m k s)"
proof -
  obtain n where n: "s = (drop_bit n i, int n)" "take_bit n i = 0" "take_bit (2 * k) (drop_bit n i) \<noteq> 0" using assms(1) by (cases s) (auto simp: searched_def)
  show ?thesis
  proof (cases "take_bit k (drop_bit n i) = 0")
    case True
    have low: "\<not> bit i j" if "j < n + k" for j
    proof (cases "j < n")
      case True
      then show ?thesis using n(2) bit_take_bit_iff [of n i j] by simp
    next
      case False
      then have "bit (take_bit k (drop_bit n i)) (j - n) \<longleftrightarrow> bit i j" using that False by (auto simp: bit_take_bit_iff bit_drop_bit_eq)
      then show ?thesis using True by simp
    qed
    then have "take_bit (n + k) i = 0" by (intro bit_eqI) (simp add: bit_take_bit_iff)
    moreover have "take_bit k (drop_bit (n + k) i) \<noteq> 0"
    proof
      assume z: "take_bit k (drop_bit (n + k) i) = 0"
      have "\<not> bit (take_bit (2 * k) (drop_bit n i)) j" for j
      proof (cases "j < k")
        case True
        then show ?thesis using low by (simp add: bit_take_bit_iff bit_drop_bit_eq)
      next
        case False
        have "bit (take_bit k (drop_bit (n + k) i)) (j - k) \<longleftrightarrow> j < 2 * k \<and> bit i (n + j)" using False by (auto simp: bit_take_bit_iff bit_drop_bit_eq)
        then show ?thesis using z by (simp add: bit_take_bit_iff bit_drop_bit_eq)
      qed
      then have "take_bit (2 * k) (drop_bit n i) = 0" by (intro bit_eqI) simp
      then show False using n(3) by simp
    qed
    ultimately show ?thesis unfolding searched_def using True n(1) assms(2) by (intro exI [of _ "n + k"]) (simp add: LOWEST1_FOO_def drop_bit_drop_bit add.commute)
  next
    case False
    then show ?thesis using n assms(2) by (auto simp: searched_def LOWEST1_FOO_def)
  qed
qed

lemma word_masks:
  "x AND 0xFFFFFFFF = take_bit 32 (x :: u64)" "x AND 0xFFFF = take_bit 16 x" "x AND 0xFF = take_bit 8 x" "x AND 0xF = take_bit 4 x"
  "x AND 0x3 = take_bit 2 x" "x AND 0x1 = take_bit 1 x"
  by (simp_all add: take_bit_eq_mask mask_eq_exp_minus_1)

lemma lowest1_least:
  assumes "i \<noteq> 0"
  shows "lowest1 i = int (LEAST n. bit i n)"
proof -
  have "searched i (2 * 32) (i, 0)" using assms take_bit_length_eq [of i] by (simp add: searched_def)
  then have "searched i 1 (LOWEST1_FOO 0x1 1 (LOWEST1_FOO 0x3 2 (LOWEST1_FOO 0xF 4 (LOWEST1_FOO 0xFF 8 (LOWEST1_FOO 0xFFFF 16 (LOWEST1_FOO 0xFFFFFFFF 32 (i, 0)))))))"
    using searched_step [OF _ word_masks(1), of i] searched_step [OF _ word_masks(2), of i] searched_step [OF _ word_masks(3), of i]
      searched_step [OF _ word_masks(4), of i] searched_step [OF _ word_masks(5), of i] searched_step [OF _ word_masks(6), of i] by simp
  then obtain n where n: "lowest1 i = int n" "take_bit n i = 0" "take_bit 1 (drop_bit n i) \<noteq> 0" using assms by (auto simp: lowest1_def searched_def Let_def)
  have "bit i n" using n(3) by (auto simp: bit_iff_odd_drop_bit take_bit_Suc odd_iff_mod_2_eq_one)
  moreover have "n \<le> m" if "bit i m" for m using n(2) that bit_take_bit_iff [of n i m] by (cases "m < n") simp_all
  ultimately show ?thesis using n(1) by (metis Least_equality)
qed

section \<open>Packets\<close>

definition BUF_LEN :: nat where "BUF_LEN = 1100"

text \<open>The fields behind the unused number of the sequence; the payload begins at byte 28.\<close>

definition packet_id :: "u8 list \<Rightarrow> int" where "packet_id p = sint (field 8 4 p :: u32)"
definition packet_timestamp :: "u8 list \<Rightarrow> int" where "packet_timestamp p = sint (field 12 8 p :: u64)"
definition packet_checksum :: "u8 list \<Rightarrow> u64" where "packet_checksum p = field 20 8 p"

definition store :: "nat \<Rightarrow> u8 list \<Rightarrow> u8 list \<Rightarrow> u8 list option" where
  "store off bs p = (if off + length bs \<le> length p then Some (take off p @ bs @ drop (off + length bs) p) else None)"

definition checksum :: "u8 list \<Rightarrow> u64" where
  "checksum p = count1 (word_of_int (packet_timestamp p)) * count1 (word_of_int (packet_id p)) + word_of_int (packet_id p)"

definition packet_set_checksum :: "u8 list \<Rightarrow> u8 list option" where
  "packet_set_checksum p = store 20 (bytes_of 8 (checksum p)) p"

definition packet_check_checksum :: "u8 list \<Rightarrow> bool" where
  "packet_check_checksum p \<longleftrightarrow> packet_checksum p = checksum p"

text \<open>\<open>rnd i\<close> is the result of the call of \<open>rand\<close> for the number \<open>i\<close> of the payload.\<close>

definition packet_init :: "(nat \<Rightarrow> u32) \<Rightarrow> u8 list \<Rightarrow> int \<Rightarrow> int \<Rightarrow> u8 list option" where
  "packet_init rnd p ident time = do {
     p \<leftarrow> store 8 (bytes_of 4 (word_of_int ident :: u32)) p;
     p \<leftarrow> store 12 (bytes_of 8 (word_of_int time :: u64)) p;
     p \<leftarrow> packet_set_checksum p;
     let payload_size = (BUF_LEN - 28) div 4;
     for_up 0 payload_size (\<lambda>i p. store (28 + 4 * i) (bytes_of 4 (rnd i)) p) p
   }"

text \<open>The buffer of packets.\<close>

record rs_buffer_t =
  begin_seq :: u64
  rb_mask :: u64
  rb_data :: "u32 list"

definition rs_buffer_reset :: "rs_buffer_t \<Rightarrow> nat \<Rightarrow> rs_buffer_t option" where
  "rs_buffer_reset b T = do {
     ensure (BUF_LEN * T \<le> length (rb_data b));
     Some (b\<lparr>begin_seq := 0, rb_mask := 0, rb_data := replicate (BUF_LEN * T) 0 @ drop (BUF_LEN * T) (rb_data b)\<rparr>)
   }"

definition rs_buffer_init :: "(nat \<Rightarrow> u32) \<Rightarrow> rs_buffer_t \<Rightarrow> nat \<Rightarrow> rs_buffer_t option" where
  "rs_buffer_init mem b T = rs_buffer_reset (b\<lparr>rb_data := map mem [0..<BUF_LEN * T]\<rparr>) T"

text \<open>The memory that is freed.\<close>

definition rs_buffer_destroy :: "rs_buffer_t \<Rightarrow> u32 list" where
  "rs_buffer_destroy b = rb_data b"

text \<open>A packet is the column \<open>j\<close> of an array with rows of \<open>width\<close> numbers.\<close>

definition build_packet :: "u8 list \<Rightarrow> u32 list \<Rightarrow> nat \<Rightarrow> nat \<Rightarrow> u8 list option" where
  "build_packet buffer data width j = for_up 0 BUF_LEN (\<lambda>i b. do { x \<leftarrow> rd data (i * width + j); wr b i (ucast x) }) buffer"

section \<open>What a packet holds\<close>

lemma field_store_same: "off + n \<le> length p \<Longrightarrow> LENGTH('a) \<le> 8 * n \<Longrightarrow>
    store off (bytes_of n (x :: 'a::len word)) p = Some q \<Longrightarrow> field off n q = x"
  by (auto simp: store_def field_def word_of_bytes_of split: if_splits)

lemma field_store_other:
  assumes q: "store off bs p = Some q" and a: "a + n \<le> off \<or> off + length bs \<le> a"
  shows "field a n q = field a n p"
proof -
  have q: "q = take off p @ bs @ drop (off + length bs) p" "off + length bs \<le> length p" using q by (auto simp: store_def split: if_splits)
  from a have "take n (drop a q) = take n (drop a p)"
  proof
    assume "a + n \<le> off"
    then have "take (n + a) q = take (n + a) p" using q by (simp add: min_def)
    then show ?thesis by (simp add: take_drop)
  next
    assume "off + length bs \<le> a"
    then show ?thesis using q by simp
  qed
  then show ?thesis by (simp add: field_def)
qed

lemma store_ok: "off + length bs \<le> length p \<Longrightarrow> \<exists>q. store off bs p = Some q \<and> length q = length p"
  by (simp add: store_def)

text \<open>The number and the time that \<open>packet_init\<close> writes are read back, and the checksum fits.\<close>

lemma packet_init_spec:
  assumes p: "length p = BUF_LEN" and i: "- (2 ^ 31) \<le> i" "i < 2 ^ 31" and t: "- (2 ^ 63) \<le> t" "t < 2 ^ 63"
  shows "\<exists>q. packet_init rnd p i t = Some q \<and> length q = BUF_LEN \<and> packet_id q = i \<and> packet_timestamp q = t \<and> packet_check_checksum q"
proof -
  have len: "length p = 1100" using p by (simp add: BUF_LEN_def)
  obtain p1 where p1: "store 8 (bytes_of 4 (word_of_int i :: u32)) p = Some p1" "length p1 = 1100" using store_ok [of 8 "bytes_of 4 (word_of_int i :: u32)" p] len by auto
  obtain p2 where p2: "store 12 (bytes_of 8 (word_of_int t :: u64)) p1 = Some p2" "length p2 = 1100"
    using store_ok [of 12 "bytes_of 8 (word_of_int t :: u64)" p1] p1(2) by auto
  obtain p3 where p3: "store 20 (bytes_of 8 (checksum p2)) p2 = Some p3" "length p3 = 1100" using store_ok [of 20 "bytes_of 8 (checksum p2)" p2] p2(2) by auto
  have i3: "field 8 4 p3 = (word_of_int i :: u32)" "field 12 8 p3 = (word_of_int t :: u64)" "field 20 8 p3 = checksum p2"
    "field 8 4 p2 = (word_of_int i :: u32)" "field 12 8 p2 = (word_of_int t :: u64)"
    using field_store_same [OF _ _ p1(1)] field_store_same [OF _ _ p2(1)] field_store_same [OF _ _ p3(1)] len p1(2) p2(2)
      field_store_other [where 'a = 32, OF p2(1), of 8 4] field_store_other [where 'a = 32, OF p3(1), of 8 4] field_store_other [where 'a = 64, OF p3(1), of 12 8] by simp_all
  let ?same = "\<lambda>q. length q = 1100 \<and> field 8 4 q = (word_of_int i :: u32) \<and> field 12 8 q = (word_of_int t :: u64) \<and> field 20 8 q = checksum p2"
  obtain q where q: "for_up 0 268 (\<lambda>i p. store (28 + 4 * i) (bytes_of 4 (rnd i)) p) p3 = Some q" "?same q"
  proof -
    have "\<exists>q. for_up 0 268 (\<lambda>i p. store (28 + 4 * i) (bytes_of 4 (rnd i)) p) p3 = Some q \<and> ?same q"
    proof (rule for_up_rule [where P = "\<lambda>i q. ?same q"])
      fix j q assume j: "0 \<le> j" "j < (268 :: nat)" and q: "?same q"
      obtain q' where q': "store (28 + 4 * j) (bytes_of 4 (rnd j)) q = Some q'" "length q' = 1100" using store_ok [of "28 + 4 * j" "bytes_of 4 (rnd j)" q] q j by auto
      moreover have "(field 8 4 q' :: u32) = field 8 4 q" "(field 12 8 q' :: u64) = field 12 8 q" "(field 20 8 q' :: u64) = field 20 8 q"
        by (rule field_store_other [OF q'(1)], simp)+
      ultimately show "\<exists>q'. store (28 + 4 * j) (bytes_of 4 (rnd j)) q = Some q' \<and> ?same q'" using q by simp
    qed (use p3(2) i3 in simp_all)
    then show thesis using that by blast
  qed
  have "packet_init rnd p i t = Some q" using p1(1) p2(1) p3(1) q(1) by (simp add: packet_init_def packet_set_checksum_def BUF_LEN_def)
  moreover have "packet_id q = i" "packet_timestamp q = t"
    using q(2) i t by (simp_all add: packet_id_def packet_timestamp_def signed_take_bit_int_eq_self_iff signed_of_int)
  moreover have "checksum p2 = checksum q" using q(2) i3 by (simp add: checksum_def packet_id_def packet_timestamp_def)
  ultimately show ?thesis using q(2) by (simp add: packet_check_checksum_def packet_checksum_def BUF_LEN_def)
qed

section \<open>Properties\<close>

text \<open>
  The two bit tricks are right: \<open>count1\<close> is the number of bits that are set, and \<open>lowest1\<close> the position of the lowest one, or
  -1 if there is none.
\<close>

theorem bit_tricks:
  "unat (count1 i) = card {n. bit i n} \<and> lowest1 i = (if i = 0 then -1 else int (LEAST n. bit i n))"
  using count1_bits [of i] lowest1_least [of i] by (simp add: lowest1_def)

end
