(* ===== verification/Sbuilder.thy ===== *)
theory Sbuilder
  imports C_Strings Hashmap
begin

text \<open>
  The bounded text buffer of \<^verbatim>\<open>src/src/main/utils/sbuilder.c\<close> and \<^verbatim>\<open>sbuilder.h\<close>. A printer appends texts; what does
  not fit is cut off. The formatting of \<^verbatim>\<open>vsnprintf\<close> is written out where a printer calls it, so that
  \<open>sbuilder_format\<close> gets the text that the format and its arguments stand for. The contract that
  printers rely on is the locale \<open>text_sink\<close>.
\<close>

section \<open>Texts that are collected\<close>

text \<open>\<open>holds s t\<close>: the state \<open>s\<close> has been given the text \<open>t\<close> so far.\<close>

fun emit_all :: "('s \<Rightarrow> cstring \<Rightarrow> (bool \<times> 's) option) \<Rightarrow> cstring list \<Rightarrow> 's \<Rightarrow> 's option" where
  "emit_all emit [] s = Some s"
| "emit_all emit (x # xs) s = do { (ok, s) \<leftarrow> emit s x; emit_all emit xs s }"

locale text_sink =
  fixes holds :: "'s \<Rightarrow> cstring \<Rightarrow> bool" and emit :: "'s \<Rightarrow> cstring \<Rightarrow> (bool \<times> 's) option"
  assumes emit_law: "holds s t \<Longrightarrow> \<exists>ok s'. emit s x = Some (ok, s') \<and> holds s' (t @ x)"

context text_sink
begin

lemma emit_all_law: "holds s t \<Longrightarrow> \<exists>s'. emit_all emit xs s = Some s' \<and> holds s' (t @ concat xs)"
proof (induction xs arbitrary: s t)
  case (Cons x xs)
  obtain ok s1 where "emit s x = Some (ok, s1)" "holds s1 (t @ x)" using emit_law [OF Cons.prems] by blast
  then show ?case using Cons.IH [of s1 "t @ x"] by simp
qed simp

text \<open>A loop whose rounds append the texts \<open>f i\<close>.\<close>

lemma emit_loop:
  assumes "lo \<le> hi" "holds s t" and "\<And>i s t. lo \<le> i \<Longrightarrow> i < hi \<Longrightarrow> holds s t \<Longrightarrow> \<exists>s'. body i s = Some s' \<and> holds s' (t @ f i)"
  shows "\<exists>s'. for_up lo hi body s = Some s' \<and> holds s' (t @ concat (map f [lo..<hi]))"
proof -
  have "\<exists>s'. for_up lo hi body s = Some s' \<and> holds s' (t @ concat (map f [lo..<hi]))"
    by (rule for_up_rule [where P = "\<lambda>i s. holds s (t @ concat (map f [lo..<i]))"]) (use assms in \<open>auto simp flip: append_assoc\<close>)
  then show ?thesis .
qed

end

section \<open>The builder\<close>

record sbuilder_t =
  sb_len :: nat
  sb_capacity :: nat
  sb_buf :: "u8 list"

definition sbuilder_init :: "u8 list \<Rightarrow> nat \<Rightarrow> sbuilder_t" where
  "sbuilder_init buf capacity = \<lparr>sb_len = 0, sb_capacity = capacity, sb_buf = buf\<rparr>"

definition sbuilder_len :: "sbuilder_t \<Rightarrow> nat" where
  "sbuilder_len b = sb_len b"

definition sbuilder_reset :: "sbuilder_t \<Rightarrow> sbuilder_t option" where
  "sbuilder_reset b = do {
     buf \<leftarrow> wr (sb_buf b) 0 0;
     Some (b\<lparr>sb_len := 0, sb_buf := buf\<rparr>)
   }"

text \<open>\<^verbatim>\<open>vsnprintf\<close>: at most \<open>n\<close> characters with the terminating zero are written at \<open>off\<close>.\<close>

definition put_text :: "u8 list \<Rightarrow> nat \<Rightarrow> nat \<Rightarrow> cstring \<Rightarrow> u8 list option" where
  "put_text buf off n text =
     (let t = take (n - 1) text @ [0] in
      if n = 0 then Some buf
      else if off + length t \<le> length buf then Some (take off buf @ t @ drop (off + length t) buf)
      else None)"

definition sbuilder_format :: "sbuilder_t \<Rightarrow> cstring \<Rightarrow> (bool \<times> sbuilder_t) option" where
  "sbuilder_format b text = do {
     ensure (sb_len b \<le> sb_capacity b);
     let left = sb_capacity b - sb_len b;
     if left \<le> 1 then Some (False, b)
     else do {
       buf \<leftarrow> put_text (sb_buf b) (sb_len b) left text;
       let count = length text;
       let b = b\<lparr>sb_buf := buf\<rparr>;
       Some (True, if count \<ge> left then b\<lparr>sb_len := sb_capacity b\<rparr> else b\<lparr>sb_len := sb_len b + count\<rparr>)
     }
   }"

text \<open>The texts of \<open>%d\<close> and \<open>%ld\<close>.\<close>

definition signed_decimal :: "int \<Rightarrow> cstring" where
  "signed_decimal i = (if i < 0 then 45 # decimal (nat (- i)) else decimal (nat i))"

definition sbuilder_char :: "sbuilder_t \<Rightarrow> u8 \<Rightarrow> (bool \<times> sbuilder_t) option" where
  "sbuilder_char b c = sbuilder_format b [c]"

definition sbuilder_int :: "sbuilder_t \<Rightarrow> int \<Rightarrow> (bool \<times> sbuilder_t) option" where
  "sbuilder_int b i = sbuilder_format b (signed_decimal i)"

definition sbuilder_long :: "sbuilder_t \<Rightarrow> int \<Rightarrow> (bool \<times> sbuilder_t) option" where
  "sbuilder_long b l = sbuilder_format b (signed_decimal l)"

definition sbuilder_bool :: "sbuilder_t \<Rightarrow> bool \<Rightarrow> (bool \<times> sbuilder_t) option" where
  "sbuilder_bool b x = sbuilder_char b (if x then 116 else 102)"

definition sbuilder_str :: "sbuilder_t \<Rightarrow> cstring \<Rightarrow> (bool \<times> sbuilder_t) option" where
  "sbuilder_str b s = sbuilder_format b s"

text \<open>The mask is shifted at the type \<open>unsigned\<close>, so more than 32 digits are undefined.\<close>

definition sbuilder_binary :: "sbuilder_t \<Rightarrow> u64 \<Rightarrow> nat \<Rightarrow> (bool \<times> sbuilder_t) option" where
  "sbuilder_binary b i len = for_up 0 len (\<lambda>j (res, b).
     if \<not> res then Some (res, b)
     else do {
       ensure (len - 1 - j < 32);
       let bit = i AND ucast (push_bit (len - 1 - j) (1 :: u32));
       sbuilder_char b (if bit = 0 then 48 else 49)
     }) (True, b)"

text \<open>The text in the buffer.\<close>

definition sb_text :: "sbuilder_t \<Rightarrow> cstring" where
  "sb_text b = takeWhile (\<lambda>c. c \<noteq> 0) (sb_buf b)"

section \<open>What the buffer holds\<close>

text \<open>
  After \<open>t\<close> has been appended the buffer holds the part of it that leaves room for the terminating zero, which is there as
  soon as something has been appended.
\<close>

definition sb_holds :: "nat \<Rightarrow> sbuilder_t \<Rightarrow> cstring \<Rightarrow> bool" where
  "sb_holds cap b t \<longleftrightarrow> 1 < cap \<and> sb_capacity b = cap \<and> length (sb_buf b) = cap \<and>
     take (min (length t) (cap - 1)) (sb_buf b) = take (cap - 1) t \<and>
     (t \<noteq> [] \<longrightarrow> sb_buf b ! min (length t) (cap - 1) = 0) \<and>
     (if length t < cap then sb_len b = length t else cap - 1 \<le> sb_len b \<and> sb_len b \<le> cap)"

lemma sb_holds_init: "1 < cap \<Longrightarrow> length buf = cap \<Longrightarrow> sb_holds cap (sbuilder_init buf cap) []"
  by (simp add: sb_holds_def sbuilder_init_def)

lemma sb_holds_reset: "sb_holds cap b t \<Longrightarrow> \<exists>b'. sbuilder_reset b = Some b' \<and> sb_holds cap b' [] \<and> sb_text b' = []"
  by (cases "sb_buf b") (auto simp: sb_holds_def sbuilder_reset_def wr_def sb_text_def)

lemma sbuilder_format_holds:
  assumes b: "sb_holds cap b t"
  shows "\<exists>ok b'. sbuilder_format b x = Some (ok, b') \<and> sb_holds cap b' (t @ x)"
proof -
  have c: "1 < cap" "sb_capacity b = cap" "length (sb_buf b) = cap" "sb_len b \<le> cap" using b by (auto simp: sb_holds_def split: if_splits)
  show ?thesis
  proof (cases "cap - sb_len b \<le> 1")
    case True
    have t: "cap - 1 \<le> length t" using True b by (auto simp: sb_holds_def split: if_splits)
    then have ne: "t \<noteq> []" using c(1) by auto
    have "cap - 1 \<le> sb_len b" using True by simp
    moreover have "min (length t) (cap - 1) = cap - 1" "min (length (t @ x)) (cap - 1) = cap - 1" "take (cap - 1) (t @ x) = take (cap - 1) t"
      using t by simp_all
    moreover have "length (t @ x) < cap \<Longrightarrow> sb_len b = length (t @ x)"
    proof -
      assume "length (t @ x) < cap"
      then have "length x = 0" using t unfolding length_append by linarith
      then show "sb_len b = length (t @ x)" using b \<open>length (t @ x) < cap\<close> by (simp add: sb_holds_def)
    qed
    ultimately have "sb_holds cap b (t @ x)" using b ne c unfolding sb_holds_def by auto
    then show ?thesis using True c by (auto simp: sbuilder_format_def)
  next
    case False
    then have len: "length t < cap" "sb_len b = length t" using b by (auto simp: sb_holds_def split: if_splits)
    define u where "u = take (cap - length t - 1) x"
    define rest where "rest = drop (length t + length u + 1) (sb_buf b)"
    have "min (length t) (cap - 1) = length t" using len by simp
    then have t: "take (length t) (sb_buf b) = t" using b len by (simp add: sb_holds_def)
    have u: "length t + length u = min (length (t @ x)) (cap - 1)" using len False by (auto simp: u_def)
    then have fits: "length t + length u + 1 \<le> cap" using c(1) by linarith
    have tk: "take (cap - 1) (t @ x) = t @ u" using len(1) by (simp add: u_def)
    have put: "put_text (sb_buf b) (sb_len b) (cap - sb_len b) x = Some (t @ u @ 0 # rest)"
      using False fits c t len(2) by (simp add: put_text_def u_def rest_def Let_def)
    define b' where "b' = b\<lparr>sb_buf := t @ u @ 0 # rest, sb_len := if length x \<ge> cap - sb_len b then cap else sb_len b + length x\<rparr>"
    have "sbuilder_format b x = Some (True, b')"
      using c False put by (cases b) (simp add: sbuilder_format_def b'_def Let_def)
    moreover have "sb_holds cap b' (t @ x)"
      unfolding sb_holds_def
    proof (intro conjI impI)
      show "take (min (length (t @ x)) (cap - 1)) (sb_buf b') = take (cap - 1) (t @ x)" unfolding u [symmetric] tk by (simp add: b'_def)
      show "sb_buf b' ! min (length (t @ x)) (cap - 1) = 0" unfolding u [symmetric] by (simp add: b'_def nth_append)
      show "length (sb_buf b') = cap" using fits c by (simp add: b'_def rest_def)
      show "if length (t @ x) < cap then sb_len b' = length (t @ x) else cap - 1 \<le> sb_len b' \<and> sb_len b' \<le> cap"
        using len by (auto simp: b'_def)
    qed (use c in \<open>simp_all add: b'_def\<close>)
    ultimately show ?thesis by blast
  qed
qed

interpretation sb: text_sink "sb_holds cap" sbuilder_format for cap
  by unfold_locales (rule sbuilder_format_holds)

lemmas sb_prints = sbuilder_char_def sbuilder_int_def sbuilder_long_def sbuilder_bool_def sbuilder_str_def

text \<open>What is read back from the buffer.\<close>

lemma sb_text_holds:
  assumes b: "sb_holds cap b t" and t: "t \<noteq> []" "0 \<notin> set t"
  shows "sb_text b = take (cap - 1) t"
proof -
  let ?n = "min (length t) (cap - 1)"
  have h: "?n < length (sb_buf b)" "take ?n (sb_buf b) = take (cap - 1) t" "sb_buf b ! ?n = 0" using b t(1) by (auto simp: sb_holds_def)
  then have "sb_buf b = take (cap - 1) t @ 0 # drop (Suc ?n) (sb_buf b)" by (metis id_take_nth_drop)
  moreover have "\<forall>c \<in> set (take (cap - 1) t). c \<noteq> 0" using t(2) by (auto dest: in_set_takeD)
  ultimately show ?thesis unfolding sb_text_def by (metis (mono_tags, lifting) takeWhile.simps(2) append_Nil2 takeWhile_append2)
qed

lemma sbuilder_binary_holds:
  assumes "sb_holds cap b t" "len \<le> 32" "length t + len + 1 < cap"
  shows "\<exists>b'. sbuilder_binary b i len = Some (True, b') \<and> sb_holds cap b' (t @ map (\<lambda>j. if bit i (len - 1 - j) then 49 else 48) [0..<len])"
proof -
  let ?c = "\<lambda>j. if bit i (len - 1 - j) then 49 else (48 :: u8)"
  have "\<exists>s. for_up 0 len (\<lambda>j (res, b).
     if \<not> res then Some (res, b)
     else do {
       ensure (len - 1 - j < 32);
       let bit = i AND ucast (push_bit (len - 1 - j) (1 :: u32));
       sbuilder_char b (if bit = 0 then 48 else 49)
     }) (True, b) = Some s \<and> fst s \<and> sb_holds cap (snd s) (t @ map ?c [0..<len])"
  proof (rule for_up_rule [where P = "\<lambda>j s. fst s \<and> sb_holds cap (snd s) (t @ map ?c [0..<j])"], goal_cases)
    case (3 j s)
    obtain res b1 where s: "s = (res, b1)" by (cases s)
    have k: "len - 1 - j < 32" using 3(2) assms(2) by simp
    have bit: "(i AND ucast (push_bit (len - 1 - j) (1 :: u32)) = 0) = (\<not> bit i (len - 1 - j))"
    proof
      assume z: "i AND ucast (push_bit (len - 1 - j) (1 :: u32)) = 0"
      have "bit (i AND ucast (push_bit (len - 1 - j) (1 :: u32))) (len - 1 - j) = bit i (len - 1 - j)" using k by (simp add: bit_simps)
      then show "\<not> bit i (len - 1 - j)" unfolding z by simp
    next
      assume "\<not> bit i (len - 1 - j)"
      then show "i AND ucast (push_bit (len - 1 - j) (1 :: u32)) = 0" by (intro bit_word_eqI) (auto simp: bit_simps)
    qed
    obtain ok b2 where b2: "sbuilder_format b1 [?c j] = Some (ok, b2)" "sb_holds cap b2 ((t @ map ?c [0..<j]) @ [?c j])"
      using sbuilder_format_holds 3(3) s by fastforce
    have "sb_len b1 + 1 < cap" "sb_capacity b1 = cap" using 3 s assms(3) by (auto simp: sb_holds_def)
    then have ok using b2(1) by (auto simp: sbuilder_format_def Let_def split: Option.bind_split_asm if_split_asm)
    then show ?case using s 3(3) k bit b2 by (auto simp: sbuilder_char_def Let_def)
  qed (use assms in auto)
  then show ?thesis unfolding sbuilder_binary_def by auto
qed

section \<open>Properties\<close>

text \<open>
  A builder holds what was printed into it, up to its capacity. Whatever texts are appended, no write leaves the
  buffer, and reading it back gives their concatenation, cut off so that the terminating zero fits.
\<close>

theorem sbuilder_holds_prefix:
  assumes "1 < length buf" "concat texts \<noteq> []" "0 \<notin> set (concat texts)"
  shows "\<exists>b. emit_all sbuilder_format texts (sbuilder_init buf (length buf)) = Some b \<and> sb_text b = take (length buf - 1) (concat texts) \<and>
    length (sb_buf b) = length buf"
proof -
  obtain b where "emit_all sbuilder_format texts (sbuilder_init buf (length buf)) = Some b" "sb_holds (length buf) b ([] @ concat texts)"
    using sb.emit_all_law [OF sb_holds_init [OF assms(1) refl]] by blast
  then show ?thesis using sb_text_holds [of "length buf" b "concat texts"] assms by (auto simp: sb_holds_def)
qed

theorem sbuilder_holds_prefix_witness:
  "\<exists>b. emit_all sbuilder_format [str ''abc'', [], str ''defg''] (sbuilder_init [9, 9, 9, 9, 9, 9] 6) = Some b \<and> sb_text b = str ''abcde'' \<and>
    length (sb_buf b) = 6"
proof -
  have len: "length [9, 9, 9, 9, 9, 9 :: u8] = 6" by simp
  show ?thesis using sbuilder_holds_prefix [of "[9, 9, 9, 9, 9, 9]" "[str ''abc'', [], str ''defg'']"] unfolding len by (simp add: str_def)
qed

end
