(* ===== verification/Config.thy ===== *)
theory Config
  imports Sbuilder
begin

text \<open>
  Configuration files, \<^verbatim>\<open>src/src/main/utils/config.c\<close>: lines \<open>key = value\<close> become entries of a hash table from strings to strings.
  A file is the list of its bytes, or nothing if it cannot be opened. The library calls \<^verbatim>\<open>fgets\<close> and
  \<^verbatim>\<open>sscanf\<close> are written out for the arguments that the code gives them.
\<close>

section \<open>The code\<close>

record config_t =
  config_map :: "(cstring, cstring) hashmap_t"

definition config_init :: "(cstring, cstring) junk \<Rightarrow> config_t option" where
  "config_init mem = do {
     m \<leftarrow> hashmap_init1 mem 8 str_hash_func str_equal_func;
     Some \<lparr>config_map = m\<rparr>
   }"

definition SPACES :: cstring where "SPACES = [32, 9, 13, 10]"

text \<open>A line with its newline, and the rest of the file.\<close>

fun split_line :: "u8 list \<Rightarrow> u8 list \<times> u8 list" where
  "split_line [] = ([], [])"
| "split_line (c # cs) = (if c = 10 then ([c], cs) else apfst (Cons c) (split_line cs))"

text \<open>\<open>fgets (line, n, f)\<close>: the string read, at most \<open>n - 1\<close> bytes of a line, and what remains of the file.\<close>

definition fgets :: "nat \<Rightarrow> u8 list \<Rightarrow> (u8 list \<times> u8 list) option" where
  "fgets n f =
     (if f = [] then None
      else let line = take (n - 1) (fst (split_line f)) in Some (line, drop (length line) f))"

text \<open>The conversion \<open>%1024s\<close>, and the whole format \<open>%1024s = %1024s\<close> when both words can be read.\<close>

definition scan_word :: "cstring \<Rightarrow> (cstring \<times> cstring) option" where
  "scan_word s =
     (let s = dropWhile is_space s;
          w = take 1024 (takeWhile (\<lambda>c. \<not> is_space c) s)
      in if w = [] then None else Some (w, drop (length w) s))"

definition scan_setting :: "cstring \<Rightarrow> (cstring \<times> cstring) option" where
  "scan_setting s = do {
     (key, s) \<leftarrow> scan_word s;
     case dropWhile is_space s of
       [] \<Rightarrow> None
     | c # s \<Rightarrow>
         if c \<noteq> 61 then None
         else do { (value, s) \<leftarrow> scan_word s; Some (key, value) }
   }"

text \<open>A string ends at its first zero.\<close>

definition c_string :: "u8 list \<Rightarrow> cstring" where
  "c_string bs = takeWhile (\<lambda>c. c \<noteq> 0) bs"

lemma length_split_line: "length (fst (split_line f)) + length (snd (split_line f)) = length f"
  by (induction f) auto

lemma split_line_pos: "f \<noteq> [] \<Longrightarrow> 0 < length (fst (split_line f))"
  by (cases f) auto

lemma fgets_shorter: "fgets 1024 f = Some (line, rest) \<Longrightarrow> length rest < length f"
  using split_line_pos [of f] by (auto simp: fgets_def Let_def split: if_splits)

text \<open>The loop over the lines; a line that is no setting ends it.\<close>

function load_lines :: "(cstring, cstring) junk \<Rightarrow> config_t \<Rightarrow> u8 list \<Rightarrow> config_t option" where
  "load_lines mem c f =
     (case fgets 1024 f of
        None \<Rightarrow> Some c
      | Some (line, f) \<Rightarrow>
          let s = skip SPACES (c_string line) in
          if s = [] \<or> hd s = 35 then load_lines mem c f
          else (case scan_setting s of
              None \<Rightarrow> Some c
            | Some (key, value) \<Rightarrow> do {
                (old, m) \<leftarrow> hashmap_put mem 2 (config_map c) key value;
                load_lines mem (c\<lparr>config_map := m\<rparr>) f
              }))"
  by pat_completeness auto
termination
  by (relation "measure (\<lambda>(mem, c, f). length f)") (auto dest: fgets_shorter)

declare load_lines.simps [simp del]

definition config_load_from_file :: "(cstring, cstring) junk \<Rightarrow> config_t \<Rightarrow> u8 list option \<Rightarrow> (bool \<times> config_t) option" where
  "config_load_from_file mem c file =
     (case file of
        None \<Rightarrow> Some (False, c)
      | Some f \<Rightarrow> do { c \<leftarrow> load_lines mem c f; Some (True, c) })"

text \<open>\<open>None\<close> in the result is \<open>NULL\<close>.\<close>

definition config_get_default :: "config_t \<Rightarrow> cstring \<Rightarrow> cstring option \<Rightarrow> cstring option option" where
  "config_get_default c key default_value = do {
     kv \<leftarrow> hashmap_get (config_map c) key;
     Some (case kv of Some (k, v) \<Rightarrow> Some v | None \<Rightarrow> default_value)
   }"

definition config_get :: "config_t \<Rightarrow> cstring \<Rightarrow> cstring option option" where
  "config_get c key = config_get_default c key None"

text \<open>
  A loop over the bindings of a table; the body gets the next iterator as well. Every round visits another
  entry, so the size of the table is enough fuel.
\<close>

fun for_bindings :: "nat \<Rightarrow> ('k, 'v) hashmap_t \<Rightarrow> nat \<Rightarrow> (nat \<Rightarrow> 'k \<Rightarrow> 'v \<Rightarrow> 's \<Rightarrow> 's option) \<Rightarrow> 's \<Rightarrow> 's option" where
  "for_bindings fuel m iter body s =
     (if iter = hashmap_end m then Some s
      else case fuel of
        0 \<Rightarrow> None
      | Suc fuel \<Rightarrow> do {
          (iter, k, v) \<leftarrow> hashmap_next m iter;
          s \<leftarrow> body iter k v s;
          for_bindings fuel m iter body s
        })"

declare for_bindings.simps [simp del]

text \<open>The strings that are freed.\<close>

definition config_destroy :: "config_t \<Rightarrow> cstring list option" where
  "config_destroy c = do {
     iter \<leftarrow> hashmap_begin (config_map c);
     for_bindings (hashmap_size (config_map c)) (config_map c) iter (\<lambda>iter k v freed. Some (freed @ [k, v])) []
   }"

definition sbuilder_config :: "sbuilder_t \<Rightarrow> config_t \<Rightarrow> (bool \<times> sbuilder_t) option" where
  "sbuilder_config b c = do {
     iter \<leftarrow> hashmap_begin (config_map c);
     b \<leftarrow> for_bindings (hashmap_size (config_map c)) (config_map c) iter
       (\<lambda>iter k v b. do { (ok, b) \<leftarrow> sbuilder_format b (k @ str '' = '' @ v @ [10]); Some b }) b;
     Some (True, b)
   }"

section \<open>Loops over bindings\<close>

fun each_binding :: "(bool \<Rightarrow> 'k \<Rightarrow> 'v \<Rightarrow> 's \<Rightarrow> 's option) \<Rightarrow> ('k \<times> 'v) list \<Rightarrow> 's \<Rightarrow> 's option" where
  "each_binding body [] s = Some s"
| "each_binding body ((k, v) # kvs) s = do { s \<leftarrow> body (kvs = []) k v s; each_binding body kvs s }"

lemma for_bindings_each:
  assumes "hashmap_bindings fuel m iter = Some kvs"
  shows "for_bindings fuel m iter (\<lambda>it. body (it = hashmap_end m)) s = each_binding body kvs s"
  using assms
proof (induction fuel arbitrary: iter kvs s)
  case 0
  then show ?case by (subst for_bindings.simps) (auto simp: hashmap_bindings.simps [of 0] split: if_splits)
next
  case (Suc fuel)
  show ?case
  proof (cases "iter = hashmap_end m")
    case True
    then show ?thesis using Suc.prems by (subst for_bindings.simps) (simp add: hashmap_bindings.simps [of "Suc fuel"])
  next
    case False
    then obtain it k v kvs' where n: "hashmap_next m iter = Some (it, k, v)" "hashmap_bindings fuel m it = Some kvs'" "kvs = (k, v) # kvs'"
      using Suc.prems by (auto simp: hashmap_bindings.simps [of "Suc fuel"] split: Option.bind_split_asm)
    have "it = hashmap_end m \<longleftrightarrow> kvs' = []"
      using n(2) by (auto simp: hashmap_bindings.simps [of fuel] split: if_splits nat.splits Option.bind_split_asm)
    then show ?thesis using False n Suc.IH [OF n(2)] by (subst for_bindings.simps) (simp cong: Option.bind_cong)
  qed
qed

lemma config_bindings:
  assumes "hm_ok (config_map c)"
  obtains iter kvs where "hashmap_begin (config_map c) = Some iter" "distinct (map fst kvs)" "map_of kvs = hm_map (config_map c)"
    "\<And>body s. for_bindings (hashmap_size (config_map c)) (config_map c) iter (\<lambda>it. body) s = each_binding (\<lambda>last. body) kvs s"
proof -
  obtain iter kvs where b: "hashmap_begin (config_map c) = Some iter" "hashmap_bindings (hashmap_size (config_map c)) (config_map c) iter = Some kvs"
    "distinct (map fst kvs)" "map_of kvs = hm_map (config_map c)" using hashmap_iterates_bindings [OF assms] by blast
  show thesis by (rule that [OF b(1,3,4)]) (rule for_bindings_each [OF b(2)])
qed

lemma each_binding_emit:
  "each_binding (\<lambda>last k v b. do { (ok, b) \<leftarrow> emit b (f k v); Some b }) kvs b = emit_all emit (map (\<lambda>(k, v). f k v) kvs) b"
  by (induction kvs arbitrary: b) (auto simp: Option.bind_assoc case_prod_unfold intro!: Option.bind_cong)

section \<open>Configuration files\<close>

text \<open>
  The lines that an operator writes: lines that are blank or comments, and settings with white space around the words. At least one
  blank separates the key from the equality sign, since a word extends to the next white space.
\<close>

datatype config_line = Skipped cstring | Setting cstring cstring cstring cstring cstring cstring

fun line_text :: "config_line \<Rightarrow> cstring" where
  "line_text (Skipped s) = s @ [10]"
| "line_text (Setting a k b c v d) = a @ k @ b @ [61] @ c @ v @ d @ [10]"

fun line_setting :: "config_line \<Rightarrow> (cstring \<times> cstring) list" where
  "line_setting (Skipped s) = []"
| "line_setting (Setting a k b c v d) = [(k, v)]"

definition is_word :: "cstring \<Rightarrow> bool" where
  "is_word w \<longleftrightarrow> w \<noteq> [] \<and> list_all (\<lambda>c. \<not> is_space c \<and> c \<noteq> 0) w"

definition is_gap :: "cstring \<Rightarrow> bool" where
  "is_gap g \<longleftrightarrow> list_all (\<lambda>c. is_space c \<and> c \<noteq> 10) g"

fun line_ok :: "config_line \<Rightarrow> bool" where
  "line_ok (Skipped s) \<longleftrightarrow> 10 \<notin> set s \<and> 0 \<notin> set s \<and> length s < 1023 \<and> (skip SPACES s = [] \<or> hd (skip SPACES s) = 35)"
| "line_ok (Setting a k b c v d) \<longleftrightarrow> list_all (\<lambda>c. c = 32 \<or> c = 9 \<or> c = 13) a \<and> is_word k \<and> hd k \<noteq> 35 \<and> b \<noteq> [] \<and> is_gap b \<and> is_gap c \<and> is_word v \<and>
     10 \<notin> set d \<and> 0 \<notin> set d \<and> (d = [] \<or> is_space (hd d)) \<and> length (line_text (Setting a k b c v d)) < 1024"

lemma spaces: "\<not> is_space 0" "is_space 10" "is_space 32" "is_space 9" "is_space 13" "\<not> is_space 61"
  by (simp_all add: is_space_def)

lemma skip_dropWhile: "skip b s = dropWhile (\<lambda>c. c \<in> set b) s"
  by (induction s) (auto simp: contains_iff)

lemma fgets_line:
  assumes "10 \<notin> set l" "length l < 1023"
  shows "fgets 1024 (l @ 10 # f) = Some (l @ [10], f)"
proof -
  have "split_line (l @ 10 # f) = (l @ [10], f)" using assms(1) by (induction l) auto
  then show ?thesis using assms(2) by (simp add: fgets_def)
qed

lemma c_string_id: "0 \<notin> set s \<Longrightarrow> c_string s = s"
  unfolding c_string_def by (induction s) auto

lemma word_take:
  assumes "is_word w" "r = [] \<or> is_space (hd r)"
  shows "takeWhile (\<lambda>c. \<not> is_space c) (w @ r) = w"
proof -
  have "\<And>c. c \<in> set w \<Longrightarrow> \<not> is_space c" using assms(1) by (auto simp: is_word_def list_all_iff)
  then show ?thesis using assms(2) by (cases r) (simp_all add: takeWhile_append2)
qed

lemma scan_word_gap:
  assumes g: "list_all is_space g" and w: "is_word w" "length w \<le> 1024" and r: "r = [] \<or> is_space (hd r)"
  shows "scan_word (g @ w @ r) = Some (w, r)"
proof -
  have "dropWhile is_space (g @ w @ r) = w @ r" using g w(1) by (cases w) (auto simp: list_all_iff is_word_def dropWhile_append2)
  then show ?thesis using w word_take [OF w(1) r] by (simp add: scan_word_def is_word_def)
qed

lemma scan_setting_text:
  assumes "is_word k" "length k \<le> 1024" "b \<noteq> []" "is_gap b" "is_gap c" "is_word v" "length v \<le> 1024" "d = [] \<or> is_space (hd d)"
  shows "scan_setting (k @ b @ [61] @ c @ v @ d) = Some (k, v)"
proof -
  have b: "list_all is_space b" "list_all is_space c" using assms(4,5) by (auto simp: is_gap_def list_all_iff)
  have "is_space (hd (b @ [61] @ c @ v @ d))" using b(1) assms(3) by (cases b) auto
  then have k: "scan_word (k @ b @ [61] @ c @ v @ d) = Some (k, b @ [61] @ c @ v @ d)"
    using scan_word_gap [of "[]" k "b @ [61] @ c @ v @ d"] assms(1,2) by simp
  have "dropWhile is_space (b @ [61] @ c @ v @ d) = 61 # c @ v @ d" using b(1) spaces(6) by (simp add: list_all_iff dropWhile_append2)
  then show ?thesis using k scan_word_gap [OF b(2) assms(6,7,8)] by (simp add: scan_setting_def)
qed

lemma load_skipped:
  assumes "line_ok (Skipped s)"
  shows "load_lines mem c (line_text (Skipped s) @ f) = load_lines mem c f"
proof -
  have line: "fgets 1024 (s @ 10 # f) = Some (s @ [10], f)" using assms by (intro fgets_line) auto
  have "c_string (s @ [10]) = s @ [10]" using assms by (intro c_string_id) auto
  moreover have "skip SPACES (s @ [10]) = [] \<or> hd (skip SPACES (s @ [10])) = 35"
  proof (cases "skip SPACES s = []")
    case True
    then show ?thesis by (auto simp: skip_dropWhile dropWhile_append SPACES_def)
  next
    case False
    then show ?thesis using assms by (auto simp: skip_dropWhile dropWhile_append)
  qed
  ultimately show ?thesis using line by (subst load_lines.simps) (simp add: Let_def)
qed

lemma load_setting:
  assumes ok: "line_ok (Setting a k b g v d)"
  shows "load_lines mem c (line_text (Setting a k b g v d) @ f) = do {
     (old, m) \<leftarrow> hashmap_put mem 2 (config_map c) k v;
     load_lines mem (c\<lparr>config_map := m\<rparr>) f
   }"
proof -
  let ?l = "a @ k @ b @ [61] @ g @ v @ d"
  have chars: "x \<noteq> 10 \<and> x \<noteq> 0" if "x \<in> set ?l" for x
    using ok that spaces(1,2) by (auto simp: is_word_def is_gap_def list_all_iff)
  have "fgets 1024 (?l @ 10 # f) = Some (?l @ [10], f)" using ok chars by (intro fgets_line) auto
  moreover have "c_string (?l @ [10]) = ?l @ [10]" using chars by (intro c_string_id) fastforce
  moreover have "skip SPACES (?l @ [10]) = k @ b @ [61] @ g @ v @ d @ [10]"
  proof -
    obtain x xs where k: "k = x # xs" using ok by (cases k) (auto simp: is_word_def)
    then have "x \<notin> set SPACES" using ok spaces by (auto simp: is_word_def SPACES_def)
    moreover have "dropWhile (\<lambda>c. c \<in> set SPACES) (a @ r) = dropWhile (\<lambda>c. c \<in> set SPACES) r" for r
      using ok by (intro dropWhile_append2) (auto simp: list_all_iff SPACES_def)
    ultimately show ?thesis using k by (simp add: skip_dropWhile)
  qed
  moreover have "k @ b @ [61] @ g @ v @ d @ [10] \<noteq> []" "hd (k @ b @ [61] @ g @ v @ d @ [10]) \<noteq> 35" using ok by (auto simp: is_word_def)
  moreover have "scan_setting (k @ b @ [61] @ g @ v @ (d @ [10])) = Some (k, v)"
    using ok spaces(2) by (intro scan_setting_text) (auto simp: hd_append)
  ultimately show ?thesis by (subst load_lines.simps) (simp add: Let_def)
qed

text \<open>A single word is no setting, so reading stops there.\<close>

lemma load_stop:
  assumes "is_word w" "hd w \<noteq> 35" "length w < 1023"
  shows "load_lines mem c (w @ 10 # aft) = Some c"
proof -
  have chars: "x \<noteq> 10 \<and> x \<noteq> 0 \<and> \<not> is_space x" if "x \<in> set w" for x using assms(1) that spaces(1,2) by (auto simp: is_word_def list_all_iff)
  have "fgets 1024 (w @ 10 # aft) = Some (w @ [10], aft)" using assms chars by (intro fgets_line) auto
  moreover have "c_string (w @ [10]) = w @ [10]" using chars by (intro c_string_id) fastforce
  moreover have "skip SPACES (w @ [10]) = w @ [10]" using assms(1) spaces by (cases w) (auto simp: skip_dropWhile SPACES_def is_word_def)
  moreover have "scan_setting (w @ [10]) = None"
    using scan_word_gap [of "[]" w "[10]"] assms spaces(2) by (simp add: scan_setting_def)
  moreover have "w \<noteq> []" using assms(1) by (simp add: is_word_def)
  ultimately show ?thesis using assms(2) by (subst load_lines.simps) (simp add: Let_def)
qed

text \<open>What a configuration stands for.\<close>

lemma config_init_spec: "\<exists>c. config_init mem = Some c \<and> hm_ok (config_map c) \<and> hm_map (config_map c) = Map.empty"
proof -
  have "str_equal_func = (=)" by (intro ext) (simp add: str_equal_func_def)
  then show ?thesis using hashmap_init_spec [of "3 / 4" 8 mem str_hash_func] by (auto simp: config_init_def hashmap_init1_def)
qed

lemma config_get_spec: "hm_ok (config_map c) \<Longrightarrow>
    config_get_default c k d = Some (case hm_map (config_map c) k of None \<Rightarrow> d | Some v \<Rightarrow> Some v)"
  using hm.get_law [of "config_map c" k] by (simp add: config_get_default_def split: option.splits)

lemma load_lines_spec:
  assumes stop: "\<And>c. load_lines mem c stop = Some c"
  shows "list_all line_ok ls \<Longrightarrow> hm_ok (config_map c) \<Longrightarrow> \<exists>c'. load_lines mem c (concat (map line_text ls) @ stop) = Some c' \<and>
    hm_ok (config_map c') \<and> hm_map (config_map c') = hm_map (config_map c) ++ map_of (rev (concat (map line_setting ls)))"
proof (induction ls arbitrary: c)
  case Nil
  then show ?case using stop by simp
next
  case (Cons l ls)
  show ?case
  proof (cases l)
    case (Skipped s)
    then show ?thesis using Cons load_skipped [of s mem c] by simp
  next
    case (Setting a k b g v d)
    obtain m where m: "hashmap_put mem 2 (config_map c) k v = Some (hm_map (config_map c) k, m)" "hm_ok m" "hm_map m = (hm_map (config_map c))(k \<mapsto> v)"
      using hm.put_law [OF Cons.prems(2), of mem k v] by blast
    obtain c' where "load_lines mem (c\<lparr>config_map := m\<rparr>) (concat (map line_text ls) @ stop) = Some c'" "hm_ok (config_map c')"
      "hm_map (config_map c') = (hm_map (config_map c))(k \<mapsto> v) ++ map_of (rev (concat (map line_setting ls)))"
      using Cons.IH [of "c\<lparr>config_map := m\<rparr>"] Cons.prems(1) m(2,3) by (auto simp: fun_upd_def)
    then show ?thesis using load_setting [of a k b g v d mem c] Cons.prems(1) m(1) Setting by auto
  qed
qed

lemma load_nothing: "load_lines mem c [] = Some c"
  by (subst load_lines.simps) (simp add: fgets_def)

lemma map_of_rev_distinct: "distinct (map fst kvs) \<Longrightarrow> map_of (rev kvs) = map_of kvs"
proof (induction kvs)
  case (Cons kv kvs)
  then have "map_of kvs (fst kv) = None" by (auto simp: map_of_eq_None_iff)
  then show ?case using Cons by (intro ext) (auto simp: map_add_def split: option.splits)
qed simp

section \<open>Properties\<close>

text \<open>
  C32. A configuration file means what it says. Whatever blank lines, comments and settings it has, with any white space
  around the words and at least one blank before the equality sign, reading it from an empty configuration succeeds, and a key then
  has the value of its last setting, or the default. A line that is a single word, like \<open>N=10\<close> without blanks,
  ends the reading: what follows it is ignored without an error.
\<close>

theorem config_reads:
  assumes "list_all line_ok ls" "stop = [] \<or> stop = w @ 10 # aft \<and> is_word w \<and> hd w \<noteq> 35 \<and> length w < 1023"
  shows "\<exists>c c'. config_init mem = Some c \<and> config_load_from_file mem c (Some (concat (map line_text ls) @ stop)) = Some (True, c') \<and>
    (\<forall>k d. config_get_default c' k d = Some (case map_of (rev (concat (map line_setting ls))) k of None \<Rightarrow> d | Some v \<Rightarrow> Some v))"
proof -
  have stop: "load_lines mem c stop = Some c" for c using assms(2) load_nothing [of mem c] load_stop [of w mem c aft] by auto
  obtain c where c: "config_init mem = Some c" "hm_ok (config_map c)" "hm_map (config_map c) = Map.empty" using config_init_spec by blast
  then show ?thesis using load_lines_spec [OF stop assms(1) c(2)] by (auto simp: config_load_from_file_def config_get_spec)
qed

text \<open>The text of a configuration, as \<open>sbuilder_config\<close> prints it.\<close>

definition setting_line :: "cstring \<times> cstring \<Rightarrow> config_line" where
  "setting_line kv = Setting [] (fst kv) [32] [32] (snd kv) []"

text \<open>
  C33. Printing and reading back. The text that \<open>sbuilder_config\<close> prints into a buffer that is large enough is read by
  \<open>config_load_from_file\<close> as the same configuration, if every key and value is a word and together they fit into a line.
\<close>

theorem config_print_read:
  assumes c: "hm_ok (config_map c)" "hm_map (config_map c) \<noteq> Map.empty"
    and words: "\<forall>k v. hm_map (config_map c) k = Some v \<longrightarrow> line_ok (setting_line (k, v))"
    and buf: "(\<Sum>k \<in> dom (hm_map (config_map c)). length k + length (the (hm_map (config_map c) k)) + 4) < length buf"
  shows "\<exists>b c0 c'. sbuilder_config (sbuilder_init buf (length buf)) c = Some (True, b) \<and> config_init mem = Some c0 \<and>
    config_load_from_file mem c0 (Some (sb_text b)) = Some (True, c') \<and> (\<forall>k d. config_get_default c' k d = config_get_default c k d)"
proof -
  obtain iter kvs where kvs: "hashmap_begin (config_map c) = Some iter" "distinct (map fst kvs)" "map_of kvs = hm_map (config_map c)"
    "\<And>body (s :: sbuilder_t). for_bindings (hashmap_size (config_map c)) (config_map c) iter (\<lambda>it. body) s = each_binding (\<lambda>last. body) kvs s"
    using config_bindings [OF c(1)] by blast
  define ls where "ls = map setting_line kvs"
  define t where "t = concat (map line_text ls)"
  have texts: "map (\<lambda>(k, v). k @ str '' = '' @ v @ [10]) kvs = map line_text ls" by (auto simp: ls_def setting_line_def str_def)
  have mem: "\<And>k v. (k, v) \<in> set kvs \<Longrightarrow> hm_map (config_map c) k = Some v" using kvs(2,3) by (metis map_of_eq_Some_iff)
  have "kvs \<noteq> []" using c(2) kvs(3) by auto
  then have ne: "t \<noteq> []" by (cases kvs) (auto simp: t_def ls_def setting_line_def)
  have "length t = (\<Sum>(k, v) \<leftarrow> kvs. length k + length v + 4)"
    unfolding t_def ls_def by (induction kvs) (auto simp: setting_line_def)
  also have "\<dots> = (\<Sum>k \<leftarrow> map fst kvs. length k + length (the (hm_map (config_map c) k)) + 4)"
    using mem by (auto simp: o_def intro!: arg_cong [where f = sum_list])
  also have "\<dots> = (\<Sum>k \<in> set (map fst kvs). length k + length (the (hm_map (config_map c) k)) + 4)"
    by (rule sum_list_distinct_conv_sum_set [OF kvs(2)])
  also have "set (map fst kvs) = dom (hm_map (config_map c))" using kvs(3) dom_map_of_conv_image_fst [of kvs] by simp
  finally have fits: "length t < length buf" using buf by simp
  then have buf1: "1 < length buf" using ne by (cases t) auto
  obtain b where b: "emit_all sbuilder_format (map line_text ls) (sbuilder_init buf (length buf)) = Some b" "sb_holds (length buf) b t"
    using sb.emit_all_law [OF sb_holds_init [OF buf1 refl]] by (auto simp: t_def)
  have print: "sbuilder_config (sbuilder_init buf (length buf)) c = Some (True, b)"
    unfolding sbuilder_config_def kvs(1) using kvs(4) each_binding_emit [of sbuilder_format "\<lambda>k v. k @ str '' = '' @ v @ [10]" kvs] texts b(1)
    by simp
  obtain c0 where c0: "config_init mem = Some c0" "hm_ok (config_map c0)" "hm_map (config_map c0) = Map.empty" using config_init_spec by blast
  have ok: "list_all line_ok ls" using words mem by (auto simp: ls_def list_all_iff)
  have "0 \<notin> set (line_text (setting_line kv))" if "line_ok (setting_line kv)" for kv
    using that by (auto simp: setting_line_def is_word_def list_all_iff)
  then have "\<forall>l \<in> set ls. 0 \<notin> set (line_text l)" using ok unfolding ls_def list_all_iff by (metis (no_types) imageE list.set_map)
  then have z: "0 \<notin> set t" by (auto simp: t_def)
  have "length t \<le> length buf - 1" using fits by linarith
  then have whole: "sb_text b = t" using sb_text_holds [OF b(2) ne z] by simp
  have settings: "concat (map line_setting ls) = kvs" unfolding ls_def by (induction kvs) (auto simp: setting_line_def)
  obtain c' where "load_lines mem c0 t = Some c'" "hm_ok (config_map c')" "hm_map (config_map c') = map_of (rev kvs)"
    using load_lines_spec [where mem = mem and stop = "[]", OF load_nothing ok c0(2)] c0(3) unfolding settings t_def by auto
  moreover have "map_of (rev kvs) = hm_map (config_map c)" using map_of_rev_distinct [OF kvs(2)] kvs(3) by simp
  ultimately have "config_load_from_file mem c0 (Some (sb_text b)) = Some (True, c')" "\<forall>k d. config_get_default c' k d = config_get_default c k d"
    using c(1) whole by (simp_all add: config_load_from_file_def config_get_spec)
  then show ?thesis using print c0(1) by blast
qed

definition sample_file :: "config_line list" where
  "sample_file = [Skipped (str ''# code''), Setting [] (str ''N'') [32] [32] (str ''6'') [], Skipped [], Setting [9] (str ''K'') [32] [] (str ''4'') [13],
     Setting [] (str ''N'') [32, 32] [9] (str ''7'') (str '' # again'')]"

definition no_setting :: "(cstring, cstring) junk" where
  "no_setting = (\<lambda>_. Some 7, \<lambda>_. \<lparr>e_key = [], e_value = [1], used = True, e_prev = Some 3, e_next = Some 3\<rparr>)"

lemma sample_file_ok: "list_all line_ok sample_file"
  by (simp add: sample_file_def str_def is_word_def is_gap_def is_space_def SPACES_def)

theorem config_reads_witness:
  "\<exists>c c'. config_init no_setting = Some c \<and>
    config_load_from_file no_setting c (Some (concat (map line_text sample_file) @ str ''D=3'' @ [10] @ str ''M = 2'' @ [10])) = Some (True, c') \<and>
    config_get_default c' (str ''N'') None = Some (Some (str ''7'')) \<and> config_get_default c' (str ''K'') None = Some (Some (str ''4'')) \<and>
    config_get_default c' (str ''M'') (Some (str ''x'')) = Some (Some (str ''x''))"
proof -
  have w: "is_word (str ''D=3'')" "hd (str ''D=3'') \<noteq> 35" "length (str ''D=3'') < 1023" by (simp_all add: is_word_def str_def is_space_def)
  have settings: "rev (concat (map line_setting sample_file)) = [(str ''N'', str ''7''), (str ''K'', str ''4''), (str ''N'', str ''6'')]"
    by (simp add: sample_file_def)
  show ?thesis
    using config_reads [OF sample_file_ok, of "str ''D=3'' @ [10] @ str ''M = 2'' @ [10]" "str ''D=3''" "str ''M = 2'' @ [10]" no_setting] w
    unfolding settings by (auto simp: str_def)
qed

definition sample_config :: "(cstring, cstring) junk \<Rightarrow> config_t option" where
  "sample_config mem = do {
     c \<leftarrow> config_init mem;
     (old, m) \<leftarrow> hashmap_put mem 2 (config_map c) (str ''N'') (str ''6'');
     Some (c\<lparr>config_map := m\<rparr>)
   }"

theorem config_print_read_witness:
  "\<exists>c b c0 c'. sample_config no_setting = Some c \<and> sbuilder_config (sbuilder_init (replicate 20 1) 20) c = Some (True, b) \<and>
    config_init no_setting = Some c0 \<and> config_load_from_file no_setting c0 (Some (sb_text b)) = Some (True, c') \<and>
      config_get_default c' (str ''N'') None = Some (Some (str ''6'')) \<and> config_get_default c' (str ''K'') None = Some None"
proof -
  obtain c1 where c1: "config_init no_setting = Some c1" "hm_ok (config_map c1)" "hm_map (config_map c1) = Map.empty" using config_init_spec by blast
  obtain m where m: "hashmap_put no_setting 2 (config_map c1) (str ''N'') (str ''6'') = Some (None, m)" "hm_ok m" "hm_map m = [str ''N'' \<mapsto> str ''6'']"
    using hm.put_law [OF c1(2), of no_setting "str ''N''" "str ''6''"] c1(3) by auto
  define c where "c = c1\<lparr>config_map := m\<rparr>"
  have c: "sample_config no_setting = Some c" "hm_ok (config_map c)" "hm_map (config_map c) = [str ''N'' \<mapsto> str ''6'']"
    using c1 m by (simp_all add: sample_config_def c_def)
  have line: "line_ok (setting_line (str ''N'', str ''6''))" by (simp add: setting_line_def is_word_def is_gap_def is_space_def str_def)
  have ok: "hm_map (config_map c) \<noteq> Map.empty" "\<forall>k v. hm_map (config_map c) k = Some v \<longrightarrow> line_ok (setting_line (k, v))"
    "(\<Sum>k \<in> dom (hm_map (config_map c)). length k + length (the (hm_map (config_map c) k)) + 4) < length (replicate 20 (1 :: u8))"
    unfolding c(3) using line by (simp_all add: str_def)
  obtain b c0 c' where r: "sbuilder_config (sbuilder_init (replicate 20 1) (length (replicate 20 (1 :: u8)))) c = Some (True, b)" "config_init no_setting = Some c0"
    "config_load_from_file no_setting c0 (Some (sb_text b)) = Some (True, c')" "\<forall>k d. config_get_default c' k d = config_get_default c k d"
    using config_print_read [OF c(2) ok, of no_setting] by blast
  moreover have "config_get_default c' (str ''N'') None = Some (Some (str ''6''))" "config_get_default c' (str ''K'') None = Some None"
    using r(4) c(2,3) by (simp_all add: config_get_spec str_def)
  ultimately show ?thesis using c(1) by auto
qed

end
