(* ===== verification/Nt_Print.thy ===== *)
theory Nt_Print
  imports Config Nt_Paths
begin

text \<open>
  The printers of addresses, paths, distributors and headers: \<^verbatim>\<open>sbuilder_address\<close> in
  \<^verbatim>\<open>src/src/main/dispatcher/common.c\<close>, \<^verbatim>\<open>sbuilder_path\<close> and \<^verbatim>\<open>sbuilder_distributor\<close> in
  \<^verbatim>\<open>src/src/main/tunnel/nt_distributor.c\<close>, \<^verbatim>\<open>sbuilder_api_header\<close> in \<^verbatim>\<open>nt_proto.c\<close> and \<^verbatim>\<open>sbuilder_api2_header\<close> in \<^verbatim>\<open>nt_proto2.c\<close>.
  The conversion of an address to a numeric host and port by \<^verbatim>\<open>getnameinfo\<close> is the parameter \<open>names\<close>; where it
  fails, the code prints what happens to be on the stack.
\<close>

section \<open>The code\<close>

type_synonym namer = "address_t \<Rightarrow> (cstring \<times> cstring) option"

definition sbuilder_address :: "namer \<Rightarrow> sbuilder_t \<Rightarrow> address_t \<Rightarrow> (bool \<times> sbuilder_t) option" where
  "sbuilder_address names b address = do {
     (host, port) \<leftarrow> names address;
     sbuilder_format b (host @ str '':'' @ port)
   }"

definition sbuilder_path :: "namer \<Rightarrow> sbuilder_t \<Rightarrow> nt_path_t \<Rightarrow> (bool \<times> sbuilder_t) option" where
  "sbuilder_path names b path = do {
     (ok, b) \<leftarrow> sbuilder_address names b (path_src path);
     (ok, b) \<leftarrow> sbuilder_str b (str ''-'');
     sbuilder_address names b (path_dst path)
   }"

text \<open>The separator before every element but the first.\<close>

definition sbuilder_sep :: "sbuilder_t \<Rightarrow> nat \<Rightarrow> cstring \<Rightarrow> sbuilder_t option" where
  "sbuilder_sep b i s = (if i > 0 then do { (ok, b) \<leftarrow> sbuilder_str b s; Some b } else Some b)"

definition sbuilder_row :: "nt_distributor_t \<Rightarrow> nat \<Rightarrow> sbuilder_t \<Rightarrow> sbuilder_t option" where
  "sbuilder_row d i b = for_up 0 (nat (dup_num d)) (\<lambda>j b. do {
     v \<leftarrow> rdi (seq2addr d) (int i * dup_num d + int j);
     if v \<ge> 0 then do {
       b \<leftarrow> sbuilder_sep b j (str '', '');
       (ok, b) \<leftarrow> sbuilder_long b v;
       Some b
     } else Some b
   }) b"

definition sbuilder_distributor :: "namer \<Rightarrow> sbuilder_t \<Rightarrow> nt_distributor_t \<Rightarrow> (bool \<times> sbuilder_t) option" where
  "sbuilder_distributor names b d = do {
     (ok, b) \<leftarrow> sbuilder_str b (str ''{path=['');
     b \<leftarrow> for_up 0 (nat (path_num d)) (\<lambda>i b. do {
       b \<leftarrow> sbuilder_sep b i (str '', '');
       path \<leftarrow> rd (d_paths d) i;
       (ok, b) \<leftarrow> sbuilder_path names b path;
       Some b
     }) b;
     (ok, b) \<leftarrow> sbuilder_str b (str ''], seq2addr=['');
     (stop, b) \<leftarrow> for_up 0 (nat (seq_num d)) (\<lambda>i (stop, b).
       if stop then Some (stop, b)
       else do {
         v \<leftarrow> rdi (seq2addr d) (int i * dup_num d);
         if v < 0 then Some (True, b)
         else do {
           b \<leftarrow> sbuilder_sep b i (str ''; '');
           b \<leftarrow> sbuilder_row d i b;
           Some (False, b)
         }
       }) (False, b);
     sbuilder_str b (str '']}'')
   }"

text \<open>\<^verbatim>\<open>inet_ntoa\<close>: the bytes of an address in the order of the memory. The ports are printed as they are stored.\<close>

definition inet_ntoa :: "u32 \<Rightarrow> cstring" where
  "inet_ntoa a = join (str ''.'') (map (\<lambda>b. decimal (unat b)) (bytes_of 4 a))"

definition sbuilder_api_header :: "sbuilder_t \<Rightarrow> nt_api_header_t \<Rightarrow> (bool \<times> sbuilder_t) option" where
  "sbuilder_api_header b h = sbuilder_format b
     (str ''{tag='' @ decimal (unat (a1_tag h)) @ str '', id='' @ decimal (unat (nt_api_header_id h)) @
      str '', src_ip='' @ inet_ntoa (a1_src_ip h) @ str '', src_port='' @ decimal (unat (a1_src_port h)) @
      str '', dst_ip='' @ inet_ntoa (a1_dst_ip h) @ str '', dst_port='' @ decimal (unat (a1_dst_port h)) @
      str '', payload_size='' @ decimal (unat (nt_api_header_payload_size h)) @ str ''}'')"

definition sbuilder_api2_header :: "sbuilder_t \<Rightarrow> nt_api2_header_t \<Rightarrow> (bool \<times> sbuilder_t) option" where
  "sbuilder_api2_header b h = sbuilder_format b
     (str ''{tag='' @ decimal (unat (a2_tag h)) @ str '', id='' @ decimal (unat (nt_api2_header_id h)) @
      str '', src_ip='' @ inet_ntoa (a2_src_ip h) @ str '', src_port='' @ decimal (unat (a2_src_port h)) @
      str '', dst_ip='' @ inet_ntoa (a2_dst_ip h) @ str '', dst_port='' @ decimal (unat (a2_dst_port h)) @
      str '', encrypt_type='' @ decimal (unat (a2_encrypt_type h)) @ str '', ttl='' @ decimal (unat (a2_ttl h)) @
      str '', payload_size='' @ decimal (unat (nt_api2_header_payload_size h)) @ str ''}'')"

section \<open>What is printed\<close>

definition path_print :: "namer \<Rightarrow> nt_path_t \<Rightarrow> cstring option" where
  "path_print names p = do { a \<leftarrow> names (path_src p); b \<leftarrow> names (path_dst p); Some (path_text (Some a, b)) }"

lemma address_holds:
  assumes "names a = Some e" "sb_holds cap b t"
  shows "\<exists>ok b'. sbuilder_address names b a = Some (ok, b') \<and> sb_holds cap b' (t @ endpoint_text e)"
  using sb.emit_law [OF assms(2), of "endpoint_text e"] assms(1) by (cases e) (auto simp: sbuilder_address_def endpoint_text_def)

lemma path_holds:
  assumes p: "path_print names p = Some x" and b: "sb_holds cap b t"
  shows "\<exists>ok b'. sbuilder_path names b p = Some (ok, b') \<and> sb_holds cap b' (t @ x)"
proof -
  obtain e f where e: "names (path_src p) = Some e" "names (path_dst p) = Some f" "x = endpoint_text e @ str ''-'' @ endpoint_text f"
    using p by (auto simp: path_print_def path_text_def split: Option.bind_split_asm)
  obtain ok b1 where b1: "sbuilder_address names b (path_src p) = Some (ok, b1)" "sb_holds cap b1 (t @ endpoint_text e)"
    using address_holds [where names = names and a = "path_src p", OF e(1) b] by blast
  obtain ok b2 where b2: "sbuilder_str b1 (str ''-'') = Some (ok, b2)" "sb_holds cap b2 ((t @ endpoint_text e) @ str ''-'')"
    using sb.emit_law [OF b1(2)] unfolding sb_prints by blast
  then show ?thesis using address_holds [where names = names and a = "path_dst p", OF e(2) b2(2)] b1(1) e(3) by (auto simp: sbuilder_path_def)
qed

text \<open>Elements with a separator before all but the first.\<close>

lemma sep_holds:
  assumes "sb_holds cap b t"
  shows "\<exists>b'. sbuilder_sep b i s = Some b' \<and> sb_holds cap b' (t @ (if i > 0 then s else []))"
  using sb.emit_law [OF assms, of s] assms by (auto simp: sbuilder_sep_def sb_prints)

lemma join_seps: "concat (map (\<lambda>i. (if i > 0 then d else []) @ xs ! i) [0..<length xs]) = join d xs"
proof (cases xs)
  case (Cons x ys)
  have "concat (map (\<lambda>i. d @ ys ! i) [0..<length ys]) = (if ys = [] then [] else d @ join d ys)" for ys
  proof (induction ys)
    case (Cons y ys)
    have "[0..<length (y # ys)] = 0 # map Suc [0..<length ys]" by (simp add: upt_conv_Cons map_Suc_upt del: upt_Suc)
    then have "concat (map (\<lambda>i. d @ (y # ys) ! i) [0..<length (y # ys)]) = d @ y @ concat (map (\<lambda>i. d @ ys ! i) [0..<length ys])"
      by (simp add: o_def del: upt_Suc)
    then show ?case using Cons by (cases ys) (simp_all del: upt_Suc)
  qed simp
  moreover have "[0..<length (x # ys)] = 0 # map Suc [0..<length ys]" by (simp add: upt_conv_Cons map_Suc_upt del: upt_Suc)
  then have "concat (map (\<lambda>i. (if i > 0 then d else []) @ (x # ys) ! i) [0..<length (x # ys)]) = x @ concat (map (\<lambda>i. d @ ys ! i) [0..<length ys])"
    by (simp add: o_def del: upt_Suc)
  ultimately have "concat (map (\<lambda>i. (if i > 0 then d else []) @ (x # ys) ! i) [0..<length (x # ys)]) = x @ (if ys = [] then [] else d @ join d ys)"
    by (simp only:)
  then show ?thesis unfolding Cons by (cases ys) (simp_all del: upt_Suc)
qed simp

lemma paths_hold:
  assumes ps: "map (path_print names) ps = map Some xs" and len: "length ps \<le> length qs" "take (length ps) qs = ps" and b: "sb_holds cap b t"
  shows "\<exists>b'. for_up 0 (length ps) (\<lambda>i b. do {
       b \<leftarrow> sbuilder_sep b i d;
       path \<leftarrow> rd qs i;
       (ok, b) \<leftarrow> sbuilder_path names b path;
       Some b
     }) b = Some b' \<and> sb_holds cap b' (t @ join d xs)"
proof -
  have n: "length xs = length ps" using ps by (metis length_map)
  have "\<exists>b'. for_up 0 (length ps) (\<lambda>i b. do { b \<leftarrow> sbuilder_sep b i d; path \<leftarrow> rd qs i; (ok, b) \<leftarrow> sbuilder_path names b path; Some b }) b = Some b' \<and>
      sb_holds cap b' (t @ concat (map (\<lambda>i. (if i > 0 then d else []) @ xs ! i) [0..<length ps]))"
  proof (rule sb.emit_loop [OF _ b])
    fix i b t assume i: "i < length ps" and b: "sb_holds cap b t"
    have q: "rd qs i = Some (ps ! i)" using i len by (metis nth_take rd_in order_less_le_trans)
    have x: "path_print names (ps ! i) = Some (xs ! i)" using ps i n by (metis nth_map)
    obtain b1 where b1: "sbuilder_sep b i d = Some b1" "sb_holds cap b1 (t @ (if i > 0 then d else []))" using sep_holds [OF b] by blast
    obtain ok b2 where "sbuilder_path names b1 (ps ! i) = Some (ok, b2)" "sb_holds cap b2 ((t @ (if i > 0 then d else [])) @ xs ! i)"
      using path_holds [where names = names and p = "ps ! i", OF x b1(2)] by blast
    then show "\<exists>s'. do { b \<leftarrow> sbuilder_sep b i d; path \<leftarrow> rd qs i; (ok, b) \<leftarrow> sbuilder_path names b path; Some b } = Some s' \<and>
        sb_holds cap s' (t @ (if i > 0 then d else []) @ xs ! i)"
      using b1(1) q by simp
  qed simp
  then show ?thesis unfolding join_seps [of d xs, symmetric] n .
qed

lemma rdi_int: "rdi xs (int i) = rd xs i"
  by (simp add: rdi_def)

lemma row_holds:
  assumes row: "table_row (seq2addr d) (dup_num d) i = pad (nat (dup_num d)) r" "length r \<le> nat (dup_num d)"
    and len: "(i + 1) * nat (dup_num d) \<le> length (seq2addr d)" and b: "sb_holds cap b t"
  shows "\<exists>b'. sbuilder_row d i b = Some b' \<and> sb_holds cap b' (t @ join (str '', '') (map decimal r))"
proof -
  let ?n = "nat (dup_num d)" let ?s = "str '', ''"
  let ?f = "\<lambda>j. if j < length r then (if j > 0 then ?s else []) @ decimal (r ! j) else []"
  have "\<exists>b'. sbuilder_row d i b = Some b' \<and> sb_holds cap b' (t @ concat (map ?f [0..<?n]))"
    unfolding sbuilder_row_def
  proof (rule sb.emit_loop [OF _ b])
    fix j b t assume j: "j < ?n" and b: "sb_holds cap b t"
    have "i * ?n + j < (i + 1) * ?n" using j by simp
    also note len
    finally have "i * ?n + j < length (seq2addr d)" .
    moreover have "0 \<le> dup_num d" using j by linarith
    then have "int i * dup_num d + int j = int (i * ?n + j)" by simp
    ultimately have "rdi (seq2addr d) (int i * dup_num d + int j) = Some (seq2addr d ! (i * ?n + j))"
      by (simp only: rdi_int rd_in)
    then have v: "rdi (seq2addr d) (int i * dup_num d + int j) = Some (pad ?n r ! j)" using table_row_nth [OF j, of "seq2addr d" i] row(1) by simp
    show "\<exists>s'. do { v \<leftarrow> rdi (seq2addr d) (int i * dup_num d + int j);
        if v \<ge> 0 then do { b \<leftarrow> sbuilder_sep b j ?s; (ok, b) \<leftarrow> sbuilder_long b v; Some b } else Some b } = Some s' \<and> sb_holds cap s' (t @ ?f j)"
    proof (cases "j < length r")
      case True
      obtain b1 where b1: "sbuilder_sep b j ?s = Some b1" "sb_holds cap b1 (t @ (if j > 0 then ?s else []))" using sep_holds [OF b] by blast
      obtain ok b2 where b2: "sbuilder_format b1 (decimal (r ! j)) = Some (ok, b2)" "sb_holds cap b2 ((t @ (if j > 0 then ?s else [])) @ decimal (r ! j))"
        using sb.emit_law [OF b1(2)] by blast
      then show ?thesis using True v b1(1) by (simp add: pad_def nth_append sbuilder_long_def signed_decimal_def)
    next
      case False
      then show ?thesis using v b j row(2) by (simp add: pad_def nth_append)
    qed
  qed simp
  moreover have "concat (map ?f [0..<?n]) = join ?s (map decimal r)"
  proof -
    have split: "[0..<?n] = [0..<length r] @ [length r..<?n]" using upt_add_eq_append [of 0 "length r" "?n - length r"] row(2) by simp
    have "map ?f [0..<length r] = map (\<lambda>j. (if j > 0 then ?s else []) @ map decimal r ! j) [0..<length (map decimal r)]" by simp
    then have "concat (map ?f [0..<length r]) = join ?s (map decimal r)" using join_seps [of ?s "map decimal r"] by (simp del: map_eq_conv)
    moreover have "concat (map ?f [length r..<?n]) = []" by simp
    ultimately show ?thesis unfolding split by simp
  qed
  ultimately show ?thesis by simp
qed

lemma rows_hold:
  assumes d: "0 < dup_num d" "nat (seq_num d) * nat (dup_num d) \<le> length (seq2addr d)" "nat (seq_num d) = length rows"
    and rows: "\<forall>i < length rows. table_row (seq2addr d) (dup_num d) i = pad (nat (dup_num d)) (rows ! i)"
      "\<forall>r \<in> set rows. r \<noteq> [] \<and> length r \<le> nat (dup_num d)" and b: "sb_holds cap b t"
  shows "\<exists>b'. for_up 0 (nat (seq_num d)) (\<lambda>i (stop, b).
       if stop then Some (stop, b)
       else do {
         v \<leftarrow> rdi (seq2addr d) (int i * dup_num d);
         if v < 0 then Some (True, b)
         else do { b \<leftarrow> sbuilder_sep b i (str ''; ''); b \<leftarrow> sbuilder_row d i b; Some (False, b) }
       }) (False, b) = Some (False, b') \<and> sb_holds cap b' (t @ join (str ''; '') (map (\<lambda>r. join (str '', '') (map decimal r)) rows))"
proof -
  let ?xs = "map (\<lambda>r. join (str '', '') (map decimal r)) rows" let ?s = "str ''; ''"
  let ?P = "\<lambda>i s. \<not> fst s \<and> sb_holds cap (snd s) (t @ concat (map (\<lambda>i. (if i > 0 then ?s else []) @ ?xs ! i) [0..<i]))"
  have "\<exists>s'. for_up 0 (nat (seq_num d)) (\<lambda>i (stop, b).
       if stop then Some (stop, b)
       else do {
         v \<leftarrow> rdi (seq2addr d) (int i * dup_num d);
         if v < 0 then Some (True, b)
         else do { b \<leftarrow> sbuilder_sep b i (str ''; ''); b \<leftarrow> sbuilder_row d i b; Some (False, b) }
       }) (False, b) = Some s' \<and> ?P (nat (seq_num d)) s'"
  proof (rule for_up_rule [where P = ?P])
    fix i s assume i: "i < nat (seq_num d)" and P: "?P i s"
    obtain b1 where s: "s = (False, b1)" using P by (cases s) auto
    then have h: "sb_holds cap b1 (t @ concat (map (\<lambda>i. (if i > 0 then ?s else []) @ ?xs ! i) [0..<i]))" using P by simp
    have r: "rows ! i \<noteq> []" "length (rows ! i) \<le> nat (dup_num d)" using rows(2) i d(3) by auto
    have row: "table_row (seq2addr d) (dup_num d) i = pad (nat (dup_num d)) (rows ! i)" using rows(1) i d(3) by simp
    have "i * nat (dup_num d) < nat (seq_num d) * nat (dup_num d)" using i d(1) by simp
    then have "i * nat (dup_num d) < length (seq2addr d)" using d(2) by linarith
    moreover have "int i * dup_num d = int (i * nat (dup_num d))" using d(1) by simp
    ultimately have "rdi (seq2addr d) (int i * dup_num d) = Some (seq2addr d ! (i * nat (dup_num d)))" by (simp only: rdi_int rd_in)
    then have v: "rdi (seq2addr d) (int i * dup_num d) = Some (pad (nat (dup_num d)) (rows ! i) ! 0)"
      using table_row_nth [of 0 "dup_num d" "seq2addr d" i] row d(1) by simp
    have v0: "0 \<le> pad (nat (dup_num d)) (rows ! i) ! 0" using r(1) by (cases "rows ! i") (auto simp: pad_def)
    obtain b2 where b2: "sbuilder_sep b1 i ?s = Some b2" "sb_holds cap b2 ((t @ concat (map (\<lambda>i. (if i > 0 then ?s else []) @ ?xs ! i) [0..<i])) @ (if i > 0 then ?s else []))"
      using sep_holds [OF h] by blast
    have "(i + 1) * nat (dup_num d) \<le> nat (seq_num d) * nat (dup_num d)" using i by (intro mult_le_mono1) simp
    then have "(i + 1) * nat (dup_num d) \<le> length (seq2addr d)" using d(2) by linarith
    then obtain b3 where b3: "sbuilder_row d i b2 = Some b3" "sb_holds cap b3 (((t @ concat (map (\<lambda>i. (if i > 0 then ?s else []) @ ?xs ! i) [0..<i])) @
        (if i > 0 then ?s else [])) @ join (str '', '') (map decimal (rows ! i)))" using row_holds [OF row r(2) _ b2(2)] by blast
    show "\<exists>s'. (\<lambda>(stop, b).
       if stop then Some (stop, b)
       else do {
         v \<leftarrow> rdi (seq2addr d) (int i * dup_num d);
         if v < 0 then Some (True, b)
         else do { b \<leftarrow> sbuilder_sep b i (str ''; ''); b \<leftarrow> sbuilder_row d i b; Some (False, b) }
       }) s = Some s' \<and> ?P (Suc i) s'"
      using s v v0 b2(1) b3 i d(3) by simp
  qed (use b in simp_all)
  then obtain s' where s': "for_up 0 (nat (seq_num d)) (\<lambda>i (stop, b).
       if stop then Some (stop, b)
       else do {
         v \<leftarrow> rdi (seq2addr d) (int i * dup_num d);
         if v < 0 then Some (True, b)
         else do { b \<leftarrow> sbuilder_sep b i (str ''; ''); b \<leftarrow> sbuilder_row d i b; Some (False, b) }
       }) (False, b) = Some s'" "?P (nat (seq_num d)) s'" by blast
  then show ?thesis using join_seps [of ?s ?xs] d(3) by (intro exI [of _ "snd s'"]) (cases s'; simp)
qed

lemma set_join: "set (join d xs) \<subseteq> set d \<union> \<Union> (set ` set xs)"
  by (induction d xs rule: join.induct) auto

lemma decimal_no_zero: "0 \<notin> set (decimal n)"
  using decimal_digits(1) [of n] by (auto simp: list_all_iff is_digit_def)

lemma rows_no_zero: "0 \<notin> set (join (str ''; '') (map (\<lambda>r. join (str '', '') (map decimal r)) rows))"
proof -
  have "0 \<notin> set (join (str '', '') (map decimal r))" for r using set_join [of "str '', ''" "map decimal r"] decimal_no_zero by (fastforce simp: str_def)
  then show ?thesis using set_join [of "str ''; ''" "map (\<lambda>r. join (str '', '') (map decimal r)) rows"] by (fastforce simp: str_def)
qed

section \<open>Properties\<close>

text \<open>
  The report of a distributor shows its paths and its table: for a table of rows of path numbers, padded with negative
  entries, \<open>sbuilder_distributor\<close> prints the paths in their order and every row with its numbers only, as far as
  the buffer has room.
\<close>

theorem distributor_prints:
  assumes buf: "1 < length buf"
    and paths: "map (path_print names) (take (nat (path_num d)) (d_paths d)) = map Some xs" "nat (path_num d) \<le> length (d_paths d)" "\<forall>x \<in> set xs. 0 \<notin> set x"
    and table: "0 < dup_num d" "nat (seq_num d) = length rows" "length rows * nat (dup_num d) \<le> length (seq2addr d)"
    and rows: "\<forall>i < length rows. table_row (seq2addr d) (dup_num d) i = pad (nat (dup_num d)) (rows ! i)"
      "\<forall>r \<in> set rows. r \<noteq> [] \<and> length r \<le> nat (dup_num d)"
  shows "\<exists>ok b. sbuilder_distributor names (sbuilder_init buf (length buf)) d = Some (ok, b) \<and> sb_text b = take (length buf - 1)
    (str ''{path=['' @ join (str '', '') xs @ str ''], seq2addr=['' @ join (str ''; '') (map (\<lambda>r. join (str '', '') (map decimal r)) rows) @ str '']}'')"
proof -
  let ?cap = "length buf"
  obtain ok b1 where b1: "sbuilder_format (sbuilder_init buf ?cap) (str ''{path=['') = Some (ok, b1)" "sb_holds ?cap b1 ([] @ str ''{path=['')"
    using sb.emit_law [OF sb_holds_init [OF buf refl]] by blast
  have n: "length (take (nat (path_num d)) (d_paths d)) = nat (path_num d)" using paths(2) by simp
  obtain b2 where b2: "for_up 0 (nat (path_num d)) (\<lambda>i b. do { b \<leftarrow> sbuilder_sep b i (str '', ''); path \<leftarrow> rd (d_paths d) i;
      (ok, b) \<leftarrow> sbuilder_path names b path; Some b }) b1 = Some b2" "sb_holds ?cap b2 (([] @ str ''{path=['') @ join (str '', '') xs)"
    using paths_hold [OF paths(1) _ _ b1(2), of "d_paths d" "str '', ''"] paths(2) unfolding n by auto
  obtain ok2 b3 where b3: "sbuilder_format b2 (str ''], seq2addr=['') = Some (ok2, b3)" "sb_holds ?cap b3 ((([] @ str ''{path=['') @ join (str '', '') xs) @ str ''], seq2addr=['')"
    using sb.emit_law [OF b2(2)] by blast
  obtain b4 where b4: "for_up 0 (nat (seq_num d)) (\<lambda>i (stop, b).
       if stop then Some (stop, b)
       else do {
         v \<leftarrow> rdi (seq2addr d) (int i * dup_num d);
         if v < 0 then Some (True, b)
         else do { b \<leftarrow> sbuilder_sep b i (str ''; ''); b \<leftarrow> sbuilder_row d i b; Some (False, b) }
       }) (False, b3) = Some (False, b4)"
    "sb_holds ?cap b4 (((([] @ str ''{path=['') @ join (str '', '') xs) @ str ''], seq2addr=['') @ join (str ''; '') (map (\<lambda>r. join (str '', '') (map decimal r)) rows))"
    using rows_hold [OF table(1) _ table(2) rows b3(2)] table(2,3) by auto
  obtain ok3 b5 where b5: "sbuilder_format b4 (str '']}'') = Some (ok3, b5)"
    "sb_holds ?cap b5 ((((([] @ str ''{path=['') @ join (str '', '') xs) @ str ''], seq2addr=['') @ join (str ''; '') (map (\<lambda>r. join (str '', '') (map decimal r)) rows)) @ str '']}'')"
    using sb.emit_law [OF b4(2)] by blast
  have run: "sbuilder_distributor names (sbuilder_init buf ?cap) d = Some (ok3, b5)"
    unfolding sbuilder_distributor_def sb_prints using b1(1) b2(1) b3(1) b4(1) b5(1) by simp
  have "0 \<notin> set (join (str '', '') xs)" using set_join [of "str '', ''" xs] paths(3) by (fastforce simp: str_def)
  then have "0 \<notin> set (str ''{path=['' @ join (str '', '') xs @ str ''], seq2addr=['' @ join (str ''; '') (map (\<lambda>r. join (str '', '') (map decimal r)) rows) @ str '']}'')"
    using rows_no_zero [of rows] by (auto simp: str_def)
  then show ?thesis using run sb_text_holds [OF b5(2)] by (auto simp: str_def)
qed

text \<open>
  A path that is printed can be read: the text that \<open>sbuilder_path\<close> prints into a buffer with room for it is read by \<open>parse_path\<close>
  as the same path, if resolving the numeric names of its addresses gives the addresses back.
\<close>

theorem path_print_parse:
  assumes names: "names (path_src p) = Some e" "names (path_dst p) = Some f" "endpoint_ok e" "endpoint_ok f" "0 \<notin> set (fst e @ fst f)"
    and resolve: "resolve (fst e) (snd e) SOCK_DGRAM = Some (path_src p)" "resolve (fst f) (snd f) SOCK_DGRAM = Some (path_dst p)"
    and buf: "length (path_text (Some e, f)) < length buf"
  shows "\<exists>ok b. sbuilder_path names (sbuilder_init buf (length buf)) p = Some (ok, b) \<and> sb_text b = path_text (Some e, f) \<and>
    parse_path resolve x (sb_text b) = (Some [], p)"
proof -
  let ?t = "path_text (Some e, f)"
  have ne: "?t \<noteq> []" by (simp add: path_text_def endpoint_text_def)
  then have b1: "1 < length buf" using buf by (cases ?t) auto
  have "path_print names p = Some ?t" using names(1,2) by (simp add: path_print_def)
  then obtain ok b where b: "sbuilder_path names (sbuilder_init buf (length buf)) p = Some (ok, b)" "sb_holds (length buf) b ([] @ ?t)"
    using path_holds [where names = names and p = p, OF _ sb_holds_init [OF b1 refl]] by blast
  have "0 \<notin> set (snd e)" "0 \<notin> set (snd f)" using names(3,4) by (auto simp: endpoint_ok_def list_all_iff is_digit_def)
  then have "0 \<notin> set ?t" using names(5) by (auto simp: path_text_def endpoint_text_def)
  then have "sb_text b = take (length buf - 1) ?t" using sb_text_holds [OF b(2)] ne by simp
  then have t: "sb_text b = ?t" using buf by simp
  have "resolve_path resolve (Some e, f) = Some p" using resolve by (simp add: resolve_path_def)
  then have "parse_path resolve x ?t = (Some [], p)" using parse_path_text [of "(Some e, f)" resolve p "[]" x] names(3,4) by (simp add: path_ok_def)
  then show ?thesis using b(1) t by auto
qed

text \<open>Numeric names of addresses, and the resolver that reads them.\<close>

definition decimal_names :: namer where
  "decimal_names a = (case a of Addr_in i p \<Rightarrow> Some (decimal (unat i), decimal (unat p)) | Addr_in6 _ _ \<Rightarrow> None)"

definition decimal_resolver :: resolver where
  "decimal_resolver host port type = Some (Addr_in (word_of_int (digits_value host)) (word_of_int (digits_value port)))"

definition printed_paths :: nt_distributor_t where
  "printed_paths = \<lparr>d_paths = [\<lparr>path_src = Addr_in 7 8, path_dst = Addr_in 12 9\<rparr>, \<lparr>path_src = Addr_in 0 0, path_dst = Addr_in 5 6\<rparr>], path_num = 2,
     seq2addr = [0, 1, 1, -1], seq_num = 2, dup_num = 2\<rparr>"

lemma small_decimals: "decimal 0 = [48]" "decimal (Suc 0) = [49]" "decimal 1 = [49]" "decimal 5 = [53]" "decimal 6 = [54]" "decimal 7 = [55]" "decimal 8 = [56]" "decimal 9 = [57]" "decimal 12 = [49, 50]"
  by (simp_all add: decimal.simps)

theorem distributor_prints_witness:
  "\<exists>ok b. sbuilder_distributor decimal_names (sbuilder_init (replicate 60 1) 60) printed_paths = Some (ok, b) \<and>
    sb_text b = str ''{path=[7:8-12:9, 0:0-5:6], seq2addr=[0, 1; 1]}''"
proof -
  let ?xs = "[str ''7:8-12:9'', str ''0:0-5:6'']" and ?rows = "[[0, 1], [1]] :: nat list list"
  have p: "map (path_print decimal_names) (take (nat (path_num printed_paths)) (d_paths printed_paths)) = map Some ?xs" "nat (path_num printed_paths) \<le> length (d_paths printed_paths)"
    "\<forall>x \<in> set ?xs. 0 \<notin> set x"
    by (simp_all add: printed_paths_def path_print_def decimal_names_def path_text_def endpoint_text_def small_decimals str_def)
  have t: "0 < dup_num printed_paths" "nat (seq_num printed_paths) = length ?rows" "length ?rows * nat (dup_num printed_paths) \<le> length (seq2addr printed_paths)"
    "\<forall>i < length ?rows. table_row (seq2addr printed_paths) (dup_num printed_paths) i = pad (nat (dup_num printed_paths)) (?rows ! i)"
    "\<forall>r \<in> set ?rows. r \<noteq> [] \<and> length r \<le> nat (dup_num printed_paths)"
    by (auto simp: printed_paths_def table_row_def pad_def less_Suc_eq numeral_2_eq_2 upt_rec)
  have len: "length (replicate 60 (1 :: u8)) = 60" by simp
  show ?thesis using distributor_prints [of "replicate 60 1", OF _ p t] unfolding len by (simp add: small_decimals str_def)
qed

theorem path_print_parse_witness:
  "\<exists>ok b. sbuilder_path decimal_names (sbuilder_init (replicate 20 1) 20) \<lparr>path_src = Addr_in 7 8, path_dst = Addr_in 12 9\<rparr> = Some (ok, b) \<and>
    sb_text b = str ''7:8-12:9'' \<and>
    parse_path decimal_resolver \<lparr>path_src = Addr_in 0 0, path_dst = Addr_in 0 0\<rparr> (sb_text b) = (Some [], \<lparr>path_src = Addr_in 7 8, path_dst = Addr_in 12 9\<rparr>)"
proof -
  let ?p = "\<lparr>path_src = Addr_in 7 8, path_dst = Addr_in 12 9\<rparr>"
  let ?e = "(decimal 7, decimal 8)" and ?f = "(decimal 12, decimal 9)"
  have "decimal_names (path_src ?p) = Some ?e" "decimal_names (path_dst ?p) = Some ?f" by (simp_all add: decimal_names_def)
  moreover have "endpoint_ok ?e" "endpoint_ok ?f" "0 \<notin> set (fst ?e @ fst ?f)"
    by (simp_all add: endpoint_ok_def small_decimals colon_def blanks_def is_digit_def)
  moreover have "decimal_resolver (fst ?e) (snd ?e) SOCK_DGRAM = Some (path_src ?p)" "decimal_resolver (fst ?f) (snd ?f) SOCK_DGRAM = Some (path_dst ?p)"
    by (simp_all add: decimal_resolver_def decimal_value)
  moreover have "length (path_text (Some ?e, ?f)) < length (replicate 20 (1 :: u8))" by (simp add: path_text_def endpoint_text_def small_decimals str_def)
  ultimately show ?thesis
    using path_print_parse [of decimal_names ?p ?e ?f decimal_resolver "replicate 20 1" "\<lparr>path_src = Addr_in 0 0, path_dst = Addr_in 0 0\<rparr>"]
    by (simp add: path_text_def endpoint_text_def small_decimals str_def)
qed

end
