(* ===== verification/Nt_Reporter.thy ===== *)
theory Nt_Reporter
  imports Nt_Print Nt_Proxy
begin

text \<open>
  The report of the counters: \<^verbatim>\<open>sbuilder_perf\<close> and \<^verbatim>\<open>perf_destroy\<close> of \<^verbatim>\<open>src/src/main/dispatcher/perf.c\<close> and
  the reporter, \<^verbatim>\<open>src/src/main/tunnel/nt_reporter.c\<close>, which answers the datagram \<open>perf\<close> and writes the report to the log every minute.
\<close>

section \<open>Printing counters\<close>

definition quoted :: "cstring \<Rightarrow> cstring" where
  "quoted s = [34] @ s @ [34]"

definition counter_entry :: "cstring \<Rightarrow> u64 \<Rightarrow> cstring" where
  "counter_entry name c = str ''{'' @ quoted (str ''metric'') @ str '':'' @ quoted name @ str '','' @ quoted (str ''value'') @ str '':'' @
     decimal (unat c) @ str '','' @ quoted (str ''counterType'') @ str '':'' @ quoted (str ''COUNTER'') @ str ''}''"

definition sbuilder_perf :: "sbuilder_t \<Rightarrow> perf_t \<Rightarrow> (bool \<times> sbuilder_t) option" where
  "sbuilder_perf b p = do {
     (ok, b) \<leftarrow> sbuilder_str b (str ''['');
     iter \<leftarrow> hashmap_begin (counters p);
     b \<leftarrow> for_bindings (hashmap_size (counters p)) (counters p) iter (\<lambda>iter name i b. do {
       c \<leftarrow> rd (cells p) i;
       (ok, b) \<leftarrow> sbuilder_format b (counter_entry name (counter_value c));
       if iter \<noteq> hashmap_end (counters p) then do { (ok, b) \<leftarrow> sbuilder_str b (str '', ''); Some b } else Some b
     }) b;
     sbuilder_str b (str '']'')
   }"

text \<open>What is freed: the names, although they are literals of the program, and the cells.\<close>

definition perf_destroy :: "perf_t \<Rightarrow> (cstring \<times> nat) list option" where
  "perf_destroy p = do {
     iter \<leftarrow> hashmap_begin (counters p);
     for_bindings (hashmap_size (counters p)) (counters p) iter (\<lambda>iter name i freed. Some (freed @ [(name, i)])) []
   }"

section \<open>The reporter\<close>

record 'h nt_reporter_t =
  rp_dispatcher :: "(nat, nat) dispatcher_t"
  rp_udp :: udp_t
  rp_udp_handler :: "'h udp_handler_t"

text \<open>The loop over trailing white space of the first \<open>n\<close> bytes.\<close>

fun trim_end :: "u8 list \<Rightarrow> nat \<Rightarrow> nat option" where
  "trim_end buffer 0 = Some 0"
| "trim_end buffer (Suc n) = do { c \<leftarrow> rd buffer n; if is_space c then trim_end buffer n else Some (Suc n) }"

text \<open>\<open>SBUILDER (builder, 4096)\<close> with its reset; \<open>sbuf\<close> is what the stack holds.\<close>

definition perf_report :: "(nat \<Rightarrow> u8) \<Rightarrow> perf_t \<Rightarrow> sbuilder_t option" where
  "perf_report sbuf p = do {
     b \<leftarrow> sbuilder_reset (sbuilder_init (map sbuf [0..<4096]) 4096);
     (ok, b) \<leftarrow> sbuilder_perf b p;
     Some b
   }"

definition reporter_handle_read ::
    "'w kernel \<Rightarrow> (nat \<Rightarrow> u8) \<Rightarrow> (nat \<Rightarrow> u8) \<Rightarrow> udp_t \<Rightarrow> perf_t \<Rightarrow> 'w \<Rightarrow> 'w option" where
  "reporter_handle_read k stack sbuf udp p w = do {
     (r, w) \<leftarrow> udp_recvfrom k udp (map stack [0..<100]) 99 w;
     (case r of
        Inl err \<Rightarrow> Some w
      | Inr (received, buffer, src) \<Rightarrow> do {
          received \<leftarrow> trim_end buffer received;
          buffer \<leftarrow> wr buffer received 0;
          if c_string buffer = str ''perf'' then do {
            b \<leftarrow> perf_report sbuf p;
            (sent, w) \<leftarrow> udp_sendto k udp (sb_buf b) (sbuilder_len b) src w;
            Some w
          }
          else Some w
        })
   }"

text \<open>The timer writes the text of the report to the log; the result is that text.\<close>

definition reporter_timer_callback :: "(nat \<Rightarrow> u8) \<Rightarrow> perf_t \<Rightarrow> cstring option" where
  "reporter_timer_callback sbuf p = do { b \<leftarrow> perf_report sbuf p; Some (sb_text b) }"

text \<open>\<open>ep\<close> and \<open>add\<close> are the results of \<open>epoll_create1\<close> and of the registration; \<open>cbs\<close> are the addresses of the two callbacks.\<close>

definition nt_reporter_init ::
    "'w syscalls \<Rightarrow> (nat, nat, 'w) env \<Rightarrow> sysret \<Rightarrow> sysret \<Rightarrow> (nat \<Rightarrow> (nat, nat) timer_entry_t entry_t) \<Rightarrow> nat \<times> nat \<Rightarrow> nat \<times> nat \<Rightarrow> 'h \<Rightarrow>
     address_t \<Rightarrow> 'w \<Rightarrow> ((int + 'h nt_reporter_t) \<times> 'w) option" where
  "nt_reporter_init k env ep add heap cbs self h local_address w =
     (case dispatcher_init1 (fst ep) (snd ep) heap 100 of
        Inl err \<Rightarrow> Some (Inl err, w)
      | Inr disp \<Rightarrow>
          (let (r, w) = udp_init k (Some local_address) False w in
           case r of
             Inl err \<Rightarrow> Some (Inl err, w)
           | Inr udp \<Rightarrow>
               let handler = udp_handler_init (fst cbs) (snd self) udp (fst self) (Some h) None;
                   err = dispatcher_add_udp (fst add) (snd add)
               in if err \<noteq> 0 then Some (Inl err, w)
                  else do {
                    (err, disp, w) \<leftarrow> dispatcher_add_timer env disp w 60000 True (snd cbs) (fst self);
                    if err \<noteq> 0 then Some (Inl err, w)
                    else Some (Inr \<lparr>rp_dispatcher = disp, rp_udp = udp, rp_udp_handler = handler\<rparr>, w)
                  }))"

definition nt_reporter_destroy :: "'w syscalls \<Rightarrow> sysret \<Rightarrow> 'h nt_reporter_t \<Rightarrow> 'w \<Rightarrow> (int \<times> 'w) option" where
  "nt_reporter_destroy k rc r w = do {
     (err, timers, d) \<leftarrow> dispatcher_destroy (fst rc) (snd rc) (rp_dispatcher r);
     if err \<noteq> 0 then Some (err, w) else Some (udp_destroy k (rp_udp r) w)
   }"

definition nt_reporter_run ::
    "(nat, nat, 'w) env \<Rightarrow> nat \<Rightarrow> nat \<Rightarrow> 'h nt_reporter_t \<Rightarrow> 'w \<Rightarrow> (int \<times> (nat, nat) dispatcher_t \<times> 'w) option" where
  "nt_reporter_run env tfuel fuel r w = dispatcher_run env tfuel fuel (rp_dispatcher r) w"

section \<open>What is reported\<close>

definition counters_text :: "(cstring \<times> u64) list \<Rightarrow> cstring" where
  "counters_text kvs = str ''['' @ join (str '', '') (map (\<lambda>(name, c). counter_entry name c) kvs) @ str '']''"

lemma entries_hold:
  assumes "\<forall>(name, i) \<in> set kvs. i < length cs" "sb_holds cap b t"
  shows "\<exists>b'. each_binding (\<lambda>last name i b. do {
       c \<leftarrow> rd cs i;
       (ok, b) \<leftarrow> sbuilder_format b (counter_entry name (counter_value c));
       if \<not> last then do { (ok, b) \<leftarrow> sbuilder_str b (str '', ''); Some b } else Some b
     }) kvs b = Some b' \<and> sb_holds cap b' (t @ join (str '', '') (map (\<lambda>(name, i). counter_entry name (cs ! i)) kvs))"
  using assms
proof (induction kvs arbitrary: b t)
  case (Cons kv kvs)
  obtain name i where kv: "kv = (name, i)" by (cases kv)
  have i: "rd cs i = Some (cs ! i)" using Cons.prems(1) kv by (intro rd_in) simp
  obtain ok b1 where b1: "sbuilder_format b (counter_entry name (cs ! i)) = Some (ok, b1)" "sb_holds cap b1 (t @ counter_entry name (cs ! i))"
    using sb.emit_law [OF Cons.prems(2)] by blast
  show ?case
  proof (cases kvs)
    case Nil
    then show ?thesis using i b1 kv by (simp add: counter_value_def)
  next
    case (Cons kv2 kvs2)
    obtain ok2 b2 where b2: "sbuilder_format b1 (str '', '') = Some (ok2, b2)" "sb_holds cap b2 ((t @ counter_entry name (cs ! i)) @ str '', '')"
      using sb.emit_law [OF b1(2)] by blast
    then show ?thesis using Cons.IH [of b2 "(t @ counter_entry name (cs ! i)) @ str '', ''"] Cons.prems(1) i b1(1) kv Cons
      by (simp add: counter_value_def sbuilder_str_def)
  qed
qed simp

lemma perf_holds:
  assumes p: "perf_ok p" and b: "sb_holds cap b t"
  shows "\<exists>ok b' kvs. sbuilder_perf b p = Some (ok, b') \<and> sb_holds cap b' (t @ counters_text kvs) \<and> distinct (map fst kvs) \<and> map_of kvs = perf_map p"
proof -
  have hm: "hm_ok (counters p)" and cells: "\<And>name i. hm_map (counters p) name = Some i \<Longrightarrow> i < length (cells p)" using p by (auto simp: perf_ok_def)
  obtain iter ks where ks: "hashmap_begin (counters p) = Some iter" "hashmap_bindings (hashmap_size (counters p)) (counters p) iter = Some ks"
    "distinct (map fst ks)" "map_of ks = hm_map (counters p)" using hashmap_iterates_bindings [OF hm] by blast
  let ?body = "\<lambda>last name i b. do {
       c \<leftarrow> rd (cells p) i;
       (ok, b) \<leftarrow> sbuilder_format b (counter_entry name (counter_value c));
       if \<not> last then do { (ok, b) \<leftarrow> sbuilder_str b (str '', ''); Some b } else Some b
     }"
  obtain ok1 b1 where b1: "sbuilder_format b (str ''['') = Some (ok1, b1)" "sb_holds cap b1 (t @ str ''['')" using sb.emit_law [OF b] by blast
  have "i < length (cells p)" if "(name, i) \<in> set ks" for name i using that ks(3,4) cells by (metis map_of_eq_Some_iff)
  then have "\<forall>(name, i) \<in> set ks. i < length (cells p)" by blast
  from entries_hold [OF this b1(2)] obtain b2 where b2: "each_binding ?body ks b1 = Some b2"
    "sb_holds cap b2 ((t @ str ''['') @ join (str '', '') (map (\<lambda>(name, i). counter_entry name (cells p ! i)) ks))" by blast
  obtain ok3 b3 where b3: "sbuilder_format b2 (str '']'') = Some (ok3, b3)"
    "sb_holds cap b3 (((t @ str ''['') @ join (str '', '') (map (\<lambda>(name, i). counter_entry name (cells p ! i)) ks)) @ str '']'')"
    using sb.emit_law [OF b2(2)] by blast
  have "for_bindings (hashmap_size (counters p)) (counters p) iter (\<lambda>it. ?body (it = hashmap_end (counters p))) b1 = each_binding ?body ks b1"
    by (rule for_bindings_each [OF ks(2), where body = ?body])
  then have run: "sbuilder_perf b p = Some (ok3, b3)"
    unfolding sbuilder_perf_def using b1(1) [folded sbuilder_str_def] ks(1) b2(1) b3(1) [folded sbuilder_str_def] by simp
  define kvs where "kvs = map (\<lambda>(name, i). (name, cells p ! i)) ks"
  have "counters_text kvs = str ''['' @ join (str '', '') (map (\<lambda>(name, i). counter_entry name (cells p ! i)) ks) @ str '']''"
    by (simp add: counters_text_def kvs_def case_prod_unfold comp_def)
  then have "sb_holds cap b3 (t @ counters_text kvs)" using b3(2) by simp
  moreover have "map fst kvs = map fst ks" by (simp add: kvs_def case_prod_unfold comp_def)
  moreover have "map_of kvs = perf_map p"
  proof
    fix x
    have "map_of kvs x = map_option ((!) (cells p)) (map_of ks x)" unfolding kvs_def by (induction ks) auto
    then show "map_of kvs x = perf_map p x" using ks(4) by (simp add: perf_map_def)
  qed
  ultimately show ?thesis using run ks(3) by auto
qed

text \<open>The datagrams that ask for the report: \<open>perf\<close>, possibly with white space after it.\<close>

definition rstrip :: "u8 list \<Rightarrow> u8 list" where
  "rstrip d = rev (dropWhile is_space (rev d))"

definition perf_request :: "u8 list \<Rightarrow> bool" where
  "perf_request d \<longleftrightarrow> c_string (rstrip d) = str ''perf''"

lemma trim_end_rstrip: "trim_end (d @ rest) (length d) = Some (length (rstrip d))"
proof (induction d arbitrary: rest rule: rev_induct)
  case (snoc c d)
  have "rd ((d @ [c]) @ rest) (length d) = Some c" by (simp add: rd_middle)
  then show ?case using snoc.IH [of "c # rest"] by (simp add: rstrip_def)
qed (simp add: rstrip_def)

lemma rstrip_prefix: "\<exists>s. d = rstrip d @ s"
  by (metis rstrip_def rev_append rev_rev_ident takeWhile_dropWhile_id)

text \<open>A network of datagrams that wait and datagrams that were sent.\<close>

definition post :: "((u8 list \<times> address_t) list \<times> (u8 list \<times> address_t) list) kernel" where
  "post = \<lparr>sendmsg = (\<lambda>fd m w. (Inl 1, w)), recvmsg = (\<lambda>fd n w. (Inl 1, w)),
     sendto = (\<lambda>fd d a (ins, outs). (Inr (length d), (ins, outs @ [(d, a)]))),
     recvfrom = (\<lambda>fd n (ins, outs). case ins of [] \<Rightarrow> (Inl 11, (ins, outs)) | (d, a) # ins \<Rightarrow> (Inr (take n d, a), (ins, outs)))\<rparr>"

lemma received:
  assumes "length d \<le> 99"
  shows "reporter_handle_read post stack sbuf udp p ((d, src) # ins, outs) =
    (if perf_request d then do { b \<leftarrow> perf_report sbuf p; (sent, w) \<leftarrow> udp_sendto post udp (sb_buf b) (sbuilder_len b) src (ins, outs); Some w }
     else Some (ins, outs))"
proof -
  obtain s where s: "d = rstrip d @ s" using rstrip_prefix by blast
  define buf where "buf = map stack [0..<100]"
  have len: "length buf = 100" by (simp add: buf_def)
  have "drop (length d) (take 99 buf) @ drop 99 buf = drop (length d) buf"
    using assms len by (metis append_take_drop_id drop_drop le_add_diff_inverse2 drop_take add.commute)
  then have "udp_recvfrom post udp buf 99 ((d, src) # ins, outs) = Some (Inr (length d, d @ drop (length d) buf, src), ins, outs)"
    using assms len by (simp add: udp_recvfrom_def post_def fill_short)
  moreover have "trim_end (d @ drop (length d) buf) (length d) = Some (length (rstrip d))" by (rule trim_end_rstrip)
  moreover have "s @ drop (length d) buf \<noteq> []" using assms len by simp
  then obtain x y where "s @ drop (length d) buf = x # y" by (cases "s @ drop (length d) buf") auto
  then have "d @ drop (length d) buf = rstrip d @ x # y" using s by (metis append_assoc)
  then have "wr (d @ drop (length d) buf) (length (rstrip d)) 0 = Some (rstrip d @ 0 # y)" by (simp add: wr_middle)
  moreover have "c_string (rstrip d @ 0 # y) = c_string (rstrip d)" by (simp add: c_string_def takeWhile_tail)
  ultimately show ?thesis unfolding reporter_handle_read_def buf_def [symmetric] by (simp add: perf_request_def)
qed

lemma report_holds:
  assumes "perf_ok p"
  shows "\<exists>b kvs. perf_report sbuf p = Some b \<and> sb_holds 4096 b (counters_text kvs) \<and> distinct (map fst kvs) \<and> map_of kvs = perf_map p"
proof -
  have "sb_holds 4096 (sbuilder_init (map sbuf [0..<4096]) 4096) []" by (rule sb_holds_init) simp_all
  then obtain b0 where "sbuilder_reset (sbuilder_init (map sbuf [0..<4096]) 4096) = Some b0" "sb_holds 4096 b0 []" using sb_holds_reset by blast
  then show ?thesis using perf_holds [OF assms, of 4096 b0 "[]"] by (auto simp: perf_report_def)
qed

section \<open>Properties\<close>

text \<open>
  C34. The reporter answers. A datagram that holds \<open>perf\<close>, possibly followed by white space, is answered to its sender with a list
  that has every counter once, with its value, as far as it fits into the buffer of 4096 bytes; every other datagram
  is dropped without an answer. No check fails and no access leaves a buffer, whatever the datagram holds.
\<close>

theorem reporter_answers:
  assumes "perf_ok p" "length d \<le> 99"
  shows "\<exists>kvs reply. reporter_handle_read post stack sbuf udp p ((d, src) # ins, outs) =
      Some (ins, outs @ (if perf_request d then [(reply, src)] else [])) \<and> distinct (map fst kvs) \<and> map_of kvs = perf_map p \<and>
    (if length (counters_text kvs) < 4096 then reply = counters_text kvs else take 4095 reply = take 4095 (counters_text kvs) \<and> length reply \<le> 4096)"
proof -
  obtain b kvs where b: "perf_report sbuf p = Some b" "sb_holds 4096 b (counters_text kvs)" "distinct (map fst kvs)" "map_of kvs = perf_map p"
    using report_holds [OF assms(1)] by blast
  let ?t = "counters_text kvs" and ?r = "take (sb_len b) (sb_buf b)"
  have h: "length (sb_buf b) = 4096" "take (min (length ?t) 4095) (sb_buf b) = take 4095 ?t"
    "if length ?t < 4096 then sb_len b = length ?t else 4095 \<le> sb_len b \<and> sb_len b \<le> 4096" using b(2) by (auto simp: sb_holds_def split: if_splits)
  have len: "sb_len b \<le> 4096" using h(3) by (simp split: if_splits)
  have "min 4095 (sb_len b) = min (length ?t) 4095" using h(3) by (auto split: if_splits)
  then have "take 4095 ?r = take 4095 ?t" using h(2) by simp
  moreover have "length ?r = sb_len b" using len h(1) by simp
  moreover have "reporter_handle_read post stack sbuf udp p ((d, src) # ins, outs) = Some (ins, outs @ (if perf_request d then [(?r, src)] else []))"
    using received [OF assms(2)] b(1) len h(1) by (simp add: udp_sendto_def sbuilder_len_def post_def)
  moreover have "?r = ?t" if "length ?t < 4096" using that h(2,3) by (simp add: min_def split: if_splits)
  ultimately show ?thesis using b(3,4) len by (intro exI [of _ kvs] exI [of _ ?r]) simp
qed

definition no_counter :: "(u8 list, nat) junk" where
  "no_counter = (\<lambda>_. Some 7, \<lambda>_. \<lparr>e_key = [], e_value = 1, used = True, e_prev = Some 3, e_next = Some 3\<rparr>)"

theorem reporter_answers_witness:
  "\<exists>p kvs reply. perf_init no_counter (\<lambda>_. 9) [str ''a'', str ''b''] 2 = Some p \<and>
    reporter_handle_read post (\<lambda>_. 1) (\<lambda>_. 2) \<lparr>udp_fd = 3\<rparr> p ([(str ''perf'' @ [10, 32], Addr_in 5 5)], []) = Some ([], [(reply, Addr_in 5 5)]) \<and>
    distinct (map fst kvs) \<and> map_of kvs = [str ''a'' \<mapsto> 0, str ''b'' \<mapsto> 0] \<and> take 4095 reply = take 4095 (counters_text kvs)"
proof -
  have ab: "distinct [str ''a'', str ''b'']" "2 \<le> length [str ''a'', str ''b'']" "length [str ''a'', str ''b''] = 2" by (simp_all add: str_def)
  obtain p where p: "perf_init no_counter (\<lambda>_. 9) [str ''a'', str ''b''] 2 = Some p" "perf_ok p"
    "perf_map p = (\<lambda>x. if x \<in> set [str ''a'', str ''b''] then Some 0 else None)"
    using perf_init_spec [OF ab(1,2), of no_counter "\<lambda>_. 9"] unfolding ab(3) by blast
  have "perf_request (str ''perf'' @ [10, 32])" by (simp add: perf_request_def rstrip_def c_string_def str_def is_space_def)
  moreover have "perf_map p = [str ''a'' \<mapsto> 0, str ''b'' \<mapsto> 0]" using p(3) by auto
  moreover have "length (str ''perf'' @ [10, 32]) \<le> 99" by (simp add: str_def)
  ultimately show ?thesis
    using reporter_answers [OF p(2), of "str ''perf'' @ [10, 32]" "\<lambda>_. 1" "\<lambda>_. 2" "\<lparr>udp_fd = 3\<rparr>" "Addr_in 5 5" "[]" "[]"] p(1) by (auto split: if_splits)
qed

end
