(* ===== verification/Echo_Server.thy ===== *)
theory Echo_Server
  imports Nt_Echo Nt_Reporter
begin

text \<open>
  The echo server: \<^verbatim>\<open>src/src/main/echo/udp_server.c\<close>, which sends every datagram back to its sender. What is only printed is left out. A
  handler tells with a number that it has called \<open>dispatcher_stop\<close>.
\<close>

section \<open>The code\<close>

record server_t =
  sr_sent :: int
  sr_received :: int

definition server_stdin_callback :: "int \<Rightarrow> u8 \<Rightarrow> int option" where
  "server_stdin_callback ret c = (if ret \<noteq> 1 then None else if c = 113 then Some 0 else None)"

definition server_handle_read ::
    "'w kernel \<Rightarrow> (nat \<Rightarrow> u8) \<Rightarrow> address_t \<Rightarrow> udp_t \<Rightarrow> server_t \<Rightarrow> 'w \<Rightarrow> (server_t \<times> int option \<times> 'w) option" where
  "server_handle_read k stack unset udp s w = do {
     (r, w) \<leftarrow> udp_recv k udp (map stack [0..<UDP_BUFFER_SIZE]) UDP_BUFFER_SIZE w;
     (case r of
        Inl err \<Rightarrow> Some (s, Some err, w)
      | Inr (received, bufs, src, dst) \<Rightarrow> do {
          let buffer = concat bufs;
          let dst = (case dst of None \<Rightarrow> unset | Some d \<Rightarrow> d);
          let s = s\<lparr>sr_received := sr_received s + 1\<rparr>;
          valid \<leftarrow> nt_api_header_is_valid buffer;
          header \<leftarrow> nt_api_header_at buffer;
          let buffer = (if valid \<and> received = nt_api_message_size header
            then nt_api_header_bytes (exchange header) @ drop nt_api_header_size buffer else buffer);
          (r, w) \<leftarrow> udp_send k udp buffer received (Some dst) (Some src) w;
          (case r of Inl err \<Rightarrow> Some (s, Some err, w) | Inr sent \<Rightarrow> Some (s\<lparr>sr_sent := sr_sent s + 1\<rparr>, None, w))
        })
   }"

definition udp_server_start ::
    "'w syscalls \<Rightarrow> (nat, nat, 'w) env \<Rightarrow> sysret \<Rightarrow> (nat \<Rightarrow> (nat, nat) timer_entry_t entry_t) \<Rightarrow> (nat, nat) dispatcher_t \<Rightarrow> udp_t \<Rightarrow> sysret \<Rightarrow> sysret \<Rightarrow> nat \<Rightarrow> nat \<Rightarrow>
     address_t \<Rightarrow> 'w \<Rightarrow> ((int + server_t \<times> udp_t \<times> (nat, nat) dispatcher_t) \<times> 'w) option" where
  "udp_server_start k env ep heap d0 udp0 add1 add2 cb self server_address w = do {
     let d = (case dispatcher_init1 (fst ep) (snd ep) heap 100 of Inl err \<Rightarrow> d0 | Inr d \<Rightarrow> d);
     let (r, w) = udp_init k (Some server_address) False w;
     let udp = (case r of Inl err \<Rightarrow> udp0 | Inr udp \<Rightarrow> udp);
     if dispatcher_add_udp (fst add1) (snd add1) \<noteq> 0 then Some (Inl (snd add1), w)
     else do {
       (err, d, w) \<leftarrow> dispatcher_add_timer env d w 5000 True cb self;
       if err \<noteq> 0 then Some (Inl (-1), w)
       else Some (Inr (\<lparr>sr_sent = 0, sr_received = 0\<rparr>, udp, d), w)
     }
   }"

section \<open>The replies\<close>

text \<open>The server sends back what the echo service of the tunnel sends back that remembers nothing.\<close>

definition server_reply :: "u8 list \<Rightarrow> u8 list" where
  "server_reply d = the (fst (echo_reply 0 0 0 [] d))"

lemma server_reply_simps:
  "\<not> v1_message d \<Longrightarrow> server_reply d = d"
  "v1_message d \<Longrightarrow> server_reply d = nt_api_header_bytes (exchange (the (nt_api_header_at d))) @ drop nt_api_header_size d"
  by (simp_all add: server_reply_def echo_reply_def Let_def)

lemma server_handle_read_spec:
  assumes d: "length d \<le> UDP_BUFFER_SIZE"
  shows "server_handle_read postman stack unset udp s ((d, src, cs) # ins, outs) =
    Some (\<lparr>sr_sent = sr_sent s + 1, sr_received = sr_received s + 1\<rparr>, None, ins, outs @ [reply_to unset src cs (server_reply d)])"
proof -
  define buf where "buf = d @ drop (length d) (map stack [0..<UDP_BUFFER_SIZE])"
  have len: "length d \<le> length buf" "19 \<le> length buf" using d by (simp_all add: buf_def UDP_BUFFER_SIZE_def)
  have recv: "udp_recv postman udp (map stack [0..<UDP_BUFFER_SIZE]) UDP_BUFFER_SIZE ((d, src, cs) # ins, outs) =
      Some (Inr (length d, [buf], src, control_dst cs), ins, outs)"
    using d by (simp add: udp_recv_def udp_recv_v_def recv_v_def postman_def fill_short buf_def)
  obtain h where h: "nt_api_header_is_valid buf = Some (buf ! 0 = NT_API_TAG)" "nt_api_header_at buf = Some h"
    "(buf ! 0 = NT_API_TAG \<and> length d = nt_api_message_size h) \<longleftrightarrow> v1_message d" "v1_message d \<Longrightarrow> nt_api_header_at d = Some h"
    using v1_of_buffer [OF buf_def len(2)] by blast
  define out where "out = (if v1_message d then nt_api_header_bytes (exchange h) @ drop nt_api_header_size buf else buf)"
  have "19 \<le> length d" if "v1_message d" using that by (simp add: v1_message_def)
  then have out: "take (length d) out = server_reply d" "length d \<le> length out"
    using len h(4) by (auto simp: out_def server_reply_simps buf_def nt_api_header_size_def)
  have "server_handle_read postman stack unset udp s ((d, src, cs) # ins, outs) = (case the (udp_send postman udp out (length d)
      (Some (case control_dst cs of None \<Rightarrow> unset | Some a \<Rightarrow> a)) (Some src) (ins, outs)) of
        (Inl err, w) \<Rightarrow> Some (s\<lparr>sr_received := sr_received s + 1\<rparr>, Some err, w)
      | (Inr sent, w) \<Rightarrow> Some (s\<lparr>sr_received := sr_received s + 1, sr_sent := sr_sent s + 1\<rparr>, None, w))"
    unfolding server_handle_read_def recv using h(3) by (simp add: h(1,2) out_def udp_send_postman [OF out(2), unfolded out_def] cong: if_cong)
  then show ?thesis using udp_send_postman [OF out(2)] out(1) by (simp add: reply_to_def)
qed

text \<open>One call of the handler for every datagram.\<close>

fun server_serve :: "(nat \<Rightarrow> u8) \<Rightarrow> address_t \<Rightarrow> udp_t \<Rightarrow> nat \<Rightarrow> server_t \<Rightarrow> mailbox \<Rightarrow> (server_t \<times> mailbox) option" where
  "server_serve stack unset udp 0 s w = Some (s, w)"
| "server_serve stack unset udp (Suc n) s w = do {
     (s, stop, w) \<leftarrow> server_handle_read postman stack unset udp s w;
     ensure (stop = None);
     server_serve stack unset udp n s w
   }"

lemma server_serve_spec:
  "\<forall>(d, r) \<in> set ds. length d \<le> UDP_BUFFER_SIZE \<Longrightarrow> server_serve stack unset udp (length ds) s (ds, outs) =
    Some (\<lparr>sr_sent = sr_sent s + int (length ds), sr_received = sr_received s + int (length ds)\<rparr>, [],
      outs @ map (\<lambda>(d, src, cs). reply_to unset src cs (server_reply d)) ds)"
proof (induction ds arbitrary: s outs)
  case (Cons x ds)
  obtain d src cs where x: "x = (d, src, cs)" by (cases x)
  with Cons.prems have "length d \<le> UDP_BUFFER_SIZE" "\<forall>(d, r) \<in> set ds. length d \<le> UDP_BUFFER_SIZE" by auto
  then show ?case using server_handle_read_spec [of d] Cons.IH by (simp add: x)
qed simp

text \<open>
  The echo server answers every datagram. Whatever datagrams arrive, no call of the handler stops the event loop or reads outside the buffer; each
  is answered to its sender, in the order of arrival, with a message of its own length, exactly as by the echo service of the tunnel when it
  remembers no messages; and both counters give the number of the datagrams.
\<close>

theorem echo_server_answers:
  assumes "\<forall>(d, r) \<in> set ds. length d \<le> UDP_BUFFER_SIZE"
  shows "server_serve stack unset udp (length ds) \<lparr>sr_sent = 0, sr_received = 0\<rparr> (ds, []) =
      Some (\<lparr>sr_sent = int (length ds), sr_received = int (length ds)\<rparr>, [], map (\<lambda>(d, src, cs). reply_to unset src cs (server_reply d)) ds) \<and>
    map (\<lambda>(d, src, cs). reply_to unset src cs (server_reply d)) ds = echo_ref 0 timeout unset [] (map (Pair 0) ds) \<and>
    map (length \<circ> server_reply \<circ> fst) ds = map (length \<circ> fst) ds"
proof -
  have ref: "map (\<lambda>(d, src, cs). reply_to unset src cs (server_reply d)) ds = echo_ref 0 timeout unset [] (map (Pair 0) ds)"
    by (induction ds) (auto simp: server_reply_def echo_reply_def Let_def)
  have "length (server_reply d) = length d" for d
    by (cases "v1_message d") (auto simp: server_reply_simps header_lengths v1_message_def nt_api_header_size_def)
  then show ?thesis using server_serve_spec [OF assms, of stack unset udp "\<lparr>sr_sent = 0, sr_received = 0\<rparr>" "[]"] ref by simp
qed

theorem echo_server_answers_witness:
  "server_serve (\<lambda>_. 1) (Addr_in 0 0) \<lparr>udp_fd = 3\<rparr> 2 \<lparr>sr_sent = 0, sr_received = 0\<rparr>
      ([(probe 5, Addr_in 8 8, [Ip_pktinfo 4]), ([1, 2], Addr_in 9 9, [])], []) =
    Some (\<lparr>sr_sent = 2, sr_received = 2\<rparr>, [], [reply_to (Addr_in 0 0) (Addr_in 8 8) [Ip_pktinfo 4] (answer 5), reply_to (Addr_in 0 0) (Addr_in 9 9) [] [1, 2]])"
proof -
  have "server_reply (probe 5) = answer 5" by (simp add: server_reply_def probe_reply)
  moreover have "server_reply [1, 2] = [1, 2]" by (simp add: server_reply_simps v1_message_def)
  moreover have "length (probe 5) \<le> UDP_BUFFER_SIZE" by (simp add: probe_def header_lengths UDP_BUFFER_SIZE_def)
  ultimately show ?thesis
    using echo_server_answers [of "[(probe 5, Addr_in 8 8, [Ip_pktinfo 4]), ([1, 2], Addr_in 9 9, [])]" "\<lambda>_. 1" "Addr_in 0 0" "\<lparr>udp_fd = 3\<rparr>" 0]
    by (simp add: UDP_BUFFER_SIZE_def numeral_2_eq_2 [symmetric])
qed

end
