(* ===== verification/Echo_Client.thy ===== *)
theory Echo_Client
  imports Echo_Packet Echo_Server "HOL-Library.Signed_Division"
begin

text \<open>
  The echo client: \<^verbatim>\<open>src/src/main/echo/udp_client.c\<close>, which sends numbered packets through the tunnel and counts those that come
  back. \<open>clock\<close> is \<open>current_millis\<close>. What is only printed is left out. A handler tells with a number that it has called
  \<open>dispatcher_stop\<close>.
\<close>

section \<open>The client\<close>

record session_t =
  ss_distributor :: nt_distributor_t
  ss_udp :: udp_t
  ss_tun_addr :: "address_t option"
  ss_encrypt_type :: u8
  ss_count :: int
  ss_qps :: int
  ss_sent :: int
  ss_encoded_sent :: int
  ss_received :: int
  ss_invalid :: int
  ss_duplicated :: int
  ss_metric :: metric_t
  ss_response_map :: bitmap_t
  ss_begin_time :: int

text \<open>The end of the input removes the handler, \<open>q\<close> stops the program; \<open>p\<close> only prints. The arguments are the result of \<open>read\<close> and the character.\<close>

definition client_stdin_callback :: "int \<Rightarrow> u8 \<Rightarrow> bool \<times> int option" where
  "client_stdin_callback ret c = (if ret \<noteq> 1 then (True, None) else if c = 113 then (False, Some 0) else (False, None))"

text \<open>The loop of \<open>on_encode\<close> over the copies of a packet from number \<open>i\<close>; \<open>parts\<close> are the header of the codec and the payload.\<close>

function client_copies :: "'w kernel \<Rightarrow> nt_fec_header_t \<Rightarrow> u8 list list \<Rightarrow> nat \<Rightarrow> session_t \<Rightarrow> 'w \<Rightarrow> (session_t \<times> 'w) option" where
  "client_copies k header parts i s w = do {
     path \<leftarrow> nt_distributor_select (ss_distributor s) (uint (fh_block_index header)) (int i);
     (case path of
        None \<Rightarrow> Some (s, w)
      | Some path \<Rightarrow> do {
          let api_header = nt_api2_header_init (word_of_int (ss_encoded_sent s)) 0 0 (address_get_addr4 (path_dst path))
            (address_get_port (path_dst path)) (ss_encrypt_type s) 8 (of_nat (length (concat parts)));
          let s = s\<lparr>ss_encoded_sent := ss_encoded_sent s + 1\<rparr>;
          let dst = (case ss_tun_addr s of None \<Rightarrow> path_dst path | Some a \<Rightarrow> a);
          let (r, w) = udp_send_v k (ss_udp s) (nt_api2_header_bytes api_header # parts) (Some (path_src path)) (Some dst) w;
          (case r of
             Inl err \<Rightarrow> None
           | Inr sent \<Rightarrow> do {
               ensure (sent = nt_api2_message_size api_header);
               client_copies k header parts (Suc i) s w
             })
        })
   }"
  by pat_completeness auto
termination
proof (relation "measure (\<lambda>(k, header, parts, i, s, w). nat (dup_num (ss_distributor s)) - i)")
  fix k :: "'w kernel" and header :: nt_fec_header_t and parts :: "u8 list list" and i :: nat and s s' :: session_t and w w' :: 'w and path path' and n :: nat
    and api_header :: nt_api2_header_t
  assume "nt_distributor_select (ss_distributor s) (uint (fh_block_index header)) (int i) = Some path" "path = Some path'"
    and "s' = s\<lparr>ss_encoded_sent := ss_encoded_sent s + 1\<rparr>"
  moreover from this have "int i < dup_num (ss_distributor s)" by (simp add: nt_distributor_select_def split: if_splits)
  ultimately show "((k, header, parts, Suc i, s', w'), k, header, parts, i, s, w) \<in> measure (\<lambda>(k, header, parts, i, s, w). nat (dup_num (ss_distributor s)) - i)" by simp
qed simp_all

declare client_copies.simps [simp del]

definition client_on_encode :: "'w kernel \<Rightarrow> (session_t \<times> 'w) nt_fec_on_encode_t" where
  "client_on_encode k header input sz sw = do {
     ensure (0 \<le> sz \<and> nat sz \<le> length input);
     sw \<leftarrow> client_copies k header [nt_fec_header_bytes header, take (nat sz) input] 0 (fst sw) (snd sw);
     Some (0, sw)
   }"

text \<open>
  The size is compared with that of a pointer. The fields of the packet are read on every branch, if only to be printed. A conversion
  to an unsigned size makes a negative \<open>sz\<close> a large one.
\<close>

definition client_on_decode :: "('w \<Rightarrow> int \<times> 'w) \<Rightarrow> (session_t \<times> 'w) nt_fec_on_decode_t" where
  "client_on_decode clock decoded sz sw = do {
     let (s, w) = sw;
     let (now, w) = clock w;
     ensure (28 \<le> length decoded);
     if (0 \<le> sz \<and> sz < 8) \<or> packet_id decoded < 0 \<or> packet_id decoded \<ge> ss_sent s \<or> packet_timestamp decoded > now \<or>
        \<not> packet_check_checksum decoded
     then Some (0, s\<lparr>ss_invalid := ss_invalid s + 1\<rparr>, w)
     else do {
       dup \<leftarrow> bitmap_isset (ss_response_map s) (nat (packet_id decoded));
       if dup then Some (0, s\<lparr>ss_duplicated := ss_duplicated s + 1\<rparr>, w)
       else do {
         (ok, responses) \<leftarrow> bitmap_set (ss_response_map s) (nat (packet_id decoded));
         let (current, w) = clock w;
         m \<leftarrow> metric_record current (ss_metric s) (now - packet_timestamp decoded);
         ensure ((ss_count s + 4) sdiv 5 \<noteq> 0);
         Some (0, s\<lparr>ss_response_map := responses, ss_received := ss_received s + 1, ss_metric := m\<rparr>, w)
       }
     }
   }"

definition client_handle_read ::
    "('s, session_t \<times> 'w) nt_fec_t \<Rightarrow> ('w \<Rightarrow> int \<times> 'w) \<Rightarrow> 'w kernel \<Rightarrow> (nat \<Rightarrow> u8) \<Rightarrow> 's \<Rightarrow> session_t \<Rightarrow> 'w \<Rightarrow>
     ('s \<times> session_t \<times> int option \<times> 'w) option" where
  "client_handle_read fec clock k stack fs s w = do {
     (r, w) \<leftarrow> udp_recv k (ss_udp s) (map stack [0..<UDP_BUFFER_SIZE]) UDP_BUFFER_SIZE w;
     (error, fs, s, w) \<leftarrow> (case r of
        Inl err \<Rightarrow> Some (err, fs, s, w)
      | Inr (received, bufs, src, dst) \<Rightarrow> do {
          let buffer = concat bufs;
          valid \<leftarrow> nt_api_header_is_valid buffer;
          api_header \<leftarrow> nt_api_header_at buffer;
          if valid \<and> nt_api_message_size api_header = received then do {
            let message = nt_api_message_payload buffer;
            fec_header \<leftarrow> nt_fec_header_at message;
            if nt_fec_message_size fec_header = unat (nt_api_header_payload_size api_header) then do {
              let (now, w) = clock w;
              nt_fec_decode fec now fs fec_header (nt_fec_message_payload message) (uint (nt_fec_header_payload_size fec_header))
                (client_on_decode clock) (s, w)
            } else Some (0, fs, s, w)
          } else Some (0, fs, s, w)
        });
     if error \<noteq> 0 then Some (fs, s, Some error, w)
     else Some (fs, s, if ss_received s = ss_count s then Some 0 else None, w)
   }"

text \<open>One round of the loop of \<open>udp_client_handle_write\<close>; \<open>rnd\<close> are the results of \<open>rand\<close>.\<close>

definition client_send ::
    "('s, session_t \<times> 'w) nt_fec_t \<Rightarrow> ('w \<Rightarrow> int \<times> 'w) \<Rightarrow> 'w kernel \<Rightarrow> (int \<Rightarrow> nat \<Rightarrow> u32) \<Rightarrow>
     int option \<times> u8 list \<times> 's \<times> session_t \<times> 'w \<Rightarrow> (int option \<times> u8 list \<times> 's \<times> session_t \<times> 'w) option" where
  "client_send fec clock k rnd = (\<lambda>(stop, buffer, fs, s, w). do {
     let (now, w) = clock w;
     buffer \<leftarrow> packet_init (rnd (ss_sent s)) buffer (ss_sent s) now;
     (error, fs, s, w) \<leftarrow> nt_fec_encode fec fs buffer (int BUF_LEN) (client_on_encode k) (s, w);
     if error \<noteq> 0 then Some (Some error, buffer, fs, s, w)
     else do {
       let s = s\<lparr>ss_sent := ss_sent s + 1\<rparr>;
       ensure ((ss_count s + 4) sdiv 5 \<noteq> 0);
       Some (None, buffer, fs, s, w)
     }
   })"

text \<open>\<open>add_timer\<close> is the call of \<open>dispatcher_add_timer\<close> for the time at which the client gives up.\<close>

definition client_handle_write ::
    "('s, session_t \<times> 'w) nt_fec_t \<Rightarrow> ('w \<Rightarrow> int \<times> 'w) \<Rightarrow> 'w kernel \<Rightarrow> (int \<Rightarrow> nat \<Rightarrow> u32) \<Rightarrow> (nat \<Rightarrow> u8) \<Rightarrow> (int \<Rightarrow> 'w \<Rightarrow> int \<times> 'w) \<Rightarrow>
     's \<Rightarrow> session_t \<Rightarrow> 'w \<Rightarrow> ('s \<times> session_t \<times> int option \<times> 'w) option" where
  "client_handle_write fec clock k rnd stack add_timer fs s w = do {
     let to_send = ss_count s - ss_sent s;
     if to_send = 0 then Some (fs, s, None, w)
     else do {
       let (now, w) = clock w;
       let batch = to_int32 ((now - ss_begin_time s) * ss_qps s sdiv 1000) - ss_sent s;
       let batch = (if batch > to_send then to_send else batch);
       if batch = 0 then Some (fs, s, None, w)
       else do {
         (stop, buffer, fs, s, w) \<leftarrow> for_up 0 (nat batch)
           (\<lambda>i (stop, buffer, fs, s, w). if stop \<noteq> None then Some (stop, buffer, fs, s, w) else client_send fec clock k rnd (stop, buffer, fs, s, w))
           (None, map stack [0..<BUF_LEN], fs, s, w);
         if stop \<noteq> None then Some (fs, s, stop, w)
         else if ss_sent s = ss_count s then do {
           let (err, w) = add_timer 2000 w;
           Some (fs, s, if err \<noteq> 0 then Some (-1) else None, w)
         }
         else Some (fs, s, None, w)
       }
     }
   }"

text \<open>
  The set-up. The results of \<open>dispatcher_init1\<close> and \<open>udp_init\<close> are ignored, so that \<open>d0\<close> and \<open>udp0\<close>, the contents of the stack, may stay; \<open>add1\<close>
  and \<open>add2\<close> are the results of the registrations, of which the second one is only reported. The result is the error number or what the event loop works on.
\<close>

definition udp_client_start ::
    "'w syscalls \<Rightarrow> (nat, nat, 'w) env \<Rightarrow> sysret \<Rightarrow> (nat \<Rightarrow> (nat, nat) timer_entry_t entry_t) \<Rightarrow> (nat, nat) dispatcher_t \<Rightarrow> udp_t \<Rightarrow> sysret \<Rightarrow> sysret \<Rightarrow> nat \<Rightarrow> nat \<Rightarrow>
     nt_distributor_t \<Rightarrow> int \<Rightarrow> int \<Rightarrow> address_t option \<Rightarrow> u8 \<Rightarrow> 'w \<Rightarrow> ((int + session_t \<times> (nat, nat) dispatcher_t) \<times> 'w) option" where
  "udp_client_start k env ep heap d0 udp0 add1 add2 cb self dstr n qps tun_addr encrypt_type w = do {
     let d = (case dispatcher_init1 (fst ep) (snd ep) heap 100 of Inl err \<Rightarrow> d0 | Inr d \<Rightarrow> d);
     let (r, w) = udp_init k None False w;
     let udp = (case r of Inl err \<Rightarrow> udp0 | Inr udp \<Rightarrow> udp);
     ensure (qps \<noteq> 0);
     let delay = (if qps > 1000 then 1 else 1000 sdiv qps);
     (err, d, w) \<leftarrow> dispatcher_add_timer env d w delay True cb self;
     ensure (err = 0);
     if dispatcher_add_udp (fst add1) (snd add1) \<noteq> 0 then Some (Inl (snd add1), w)
     else do {
       let (now, w) = current_millis env w;
       Some (Inr (\<lparr>ss_distributor = dstr, ss_udp = udp, ss_tun_addr = tun_addr, ss_encrypt_type = encrypt_type, ss_count = n, ss_qps = qps,
         ss_sent = 0, ss_encoded_sent = 0, ss_received = 0, ss_invalid = 0, ss_duplicated = 0, ss_metric = make_metric 1000,
         ss_response_map = make_bitmap (unat (word_of_int n :: u64)), ss_begin_time = now\<rparr>, d), w)
     }
   }"

section \<open>Counting the packets that come back\<close>

text \<open>A message is valid at the time \<open>now\<close> if it is one of the first \<open>n\<close> packets, as far as the client can tell.\<close>

definition valid_message :: "int \<Rightarrow> int \<Rightarrow> u8 list \<Rightarrow> int \<Rightarrow> bool" where
  "valid_message n now d sz \<longleftrightarrow> \<not> (0 \<le> sz \<and> sz < 8) \<and> 0 \<le> packet_id d \<and> packet_id d < n \<and> packet_timestamp d \<le> now \<and> packet_check_checksum d"

text \<open>The messages that the codec delivers, each in the world at its time.\<close>

fun deliver_all :: "('w \<Rightarrow> int \<times> 'w) \<Rightarrow> ('w \<times> u8 list \<times> int) list \<Rightarrow> session_t \<Rightarrow> session_t option" where
  "deliver_all clock [] s = Some s"
| "deliver_all clock ((w, d, sz) # ms) s = do {
     (err, s, w) \<leftarrow> client_on_decode clock d sz (s, w);
     ensure (err = 0);
     deliver_all clock ms s
   }"

definition valid_ids :: "('w \<Rightarrow> int) \<Rightarrow> int \<Rightarrow> ('w \<times> u8 list \<times> int) list \<Rightarrow> int list" where
  "valid_ids time n ms = map (\<lambda>(w, d, sz). packet_id d) (filter (\<lambda>(w, d, sz). valid_message n (time w) d sz) ms)"

text \<open>The numbers in \<open>S\<close> have come back; \<open>xs\<close> are the latencies.\<close>

definition session_rep :: "int \<Rightarrow> int set \<Rightarrow> int list \<Rightarrow> session_t \<Rightarrow> bool" where
  "session_rep cnt S xs s \<longleftrightarrow> ss_count s = cnt \<and> ss_received s = int (card S) \<and> S \<subseteq> {0..<cnt} \<and> bitmap_rep (nat cnt) (nat ` S) (ss_response_map s) \<and>
     metric_ok 1000 xs (ss_metric s) \<and> (\<forall>x \<in> set xs. 0 \<le> x)"

lemma on_decode_invalid:
  assumes "clock w = (now, w1)" "28 \<le> length d" "\<not> valid_message (ss_sent s) now d sz"
  shows "client_on_decode clock d sz (s, w) = Some (0, s\<lparr>ss_invalid := ss_invalid s + 1\<rparr>, w1)"
proof -
  have "(0 \<le> sz \<and> sz < 8) \<or> packet_id d < 0 \<or> packet_id d \<ge> ss_sent s \<or> packet_timestamp d > now \<or> \<not> packet_check_checksum d"
    using assms(3) unfolding valid_message_def by linarith
  then show ?thesis unfolding client_on_decode_def using assms(1,2) by simp
qed

lemma on_decode_valid:
  assumes clock: "\<And>w. clock w = (time w, w)" and d: "28 \<le> length d" "valid_message (ss_sent s) (time w) d sz" and n: "ss_sent s \<le> cnt"
    and rep: "session_rep cnt S xs s"
  shows "if packet_id d \<in> S then client_on_decode clock d sz (s, w) = Some (0, s\<lparr>ss_duplicated := ss_duplicated s + 1\<rparr>, w)
    else \<exists>s' x. client_on_decode clock d sz (s, w) = Some (0, s', w) \<and> session_rep cnt (insert (packet_id d) S) (xs @ [x]) s' \<and>
      ss_sent s' = ss_sent s \<and> ss_invalid s' = ss_invalid s \<and> ss_duplicated s' = ss_duplicated s"
proof -
  let ?i = "packet_id d"
  have v: "\<not> ((0 \<le> sz \<and> sz < 8) \<or> ?i < 0 \<or> ?i \<ge> ss_sent s \<or> packet_timestamp d > time w \<or> \<not> packet_check_checksum d)" and i: "0 \<le> ?i" "?i < cnt"
    using d(2) n unfolding valid_message_def by auto
  have r: "bitmap_rep (nat cnt) (nat ` S) (ss_response_map s)" "metric_ok 1000 xs (ss_metric s)" "\<forall>x \<in> set xs. 0 \<le> x" "S \<subseteq> {0..<cnt}" "ss_count s = cnt"
    "ss_received s = int (card S)" using rep unfolding session_rep_def by blast+
  have mem: "nat ?i \<in> nat ` S \<longleftrightarrow> ?i \<in> S" using r(4) i(1) by (auto simp: subset_iff) (metis atLeastLessThan_iff nat_eq_iff2)
  have isset: "bitmap_isset (ss_response_map s) (nat ?i) = Some (?i \<in> S)" using bitmap_isset_spec [OF r(1), of "nat ?i"] mem by simp
  show ?thesis
  proof (cases "?i \<in> S")
    case True
    then show ?thesis unfolding client_on_decode_def using v isset d(1) by (auto simp: clock)
  next
    case False
    obtain b where b: "bitmap_set (ss_response_map s) (nat ?i) = Some (True, b)" "bitmap_rep (nat cnt) (insert (nat ?i) (nat ` S)) b"
      using bitmap_set_spec [OF r(1), of "nat ?i"] i by auto
    let ?x = "time w - packet_timestamp d"
    obtain m where m: "metric_record (time w) (ss_metric s) ?x = Some m" "metric_ok 1000 (xs @ [?x]) m" using metric_record_ok [OF r(2,3)] by blast
    have k: "(ss_count s + 4) sdiv 5 \<noteq> 0"
    proof -
      have "0 < (cnt + 4) div 5" using i by (simp add: pos_imp_zdiv_pos_iff)
      then show ?thesis using i r(5) by (simp add: signed_divide_int_def)
    qed
    define s' where "s' = s\<lparr>ss_response_map := b, ss_received := ss_received s + 1, ss_metric := m\<rparr>"
    have "client_on_decode clock d sz (s, w) = Some (0, s', w)" unfolding client_on_decode_def using v isset d(1) b(1) m(1) k False by (auto simp: clock s'_def)
    moreover have "finite S" using r(4) finite_subset by blast
    then have "session_rep cnt (insert ?i S) (xs @ [?x]) s'" using r b(2) m(2) i False v by (simp add: session_rep_def s'_def)
    ultimately show ?thesis using False by (simp add: s'_def) blast
  qed
qed

lemma deliver_all_spec:
  assumes clock: "\<And>w. clock w = (time w, w)"
  shows "\<forall>(w, d, sz) \<in> set ms. 28 \<le> length d \<Longrightarrow> ss_sent s \<le> cnt \<Longrightarrow> session_rep cnt S xs s \<Longrightarrow>
    \<exists>s' ys. deliver_all clock ms s = Some s' \<and> session_rep cnt (S \<union> set (valid_ids time (ss_sent s) ms)) ys s' \<and>
      ss_invalid s' = ss_invalid s + int (length ms - length (valid_ids time (ss_sent s) ms)) \<and>
      ss_duplicated s' = ss_duplicated s + int (length (valid_ids time (ss_sent s) ms)) + int (card S) - int (card (S \<union> set (valid_ids time (ss_sent s) ms)))"
proof (induction ms arbitrary: s S xs)
  case Nil
  then show ?case by (auto simp: valid_ids_def)
next
  case (Cons m ms)
  obtain w d sz where m: "m = (w, d, sz)" by (cases m)
  have d: "28 \<le> length d" using Cons.prems(1) m by simp
  let ?n = "ss_sent s" let ?ids = "valid_ids time ?n ms"
  have len: "length ?ids \<le> length ms" by (simp add: valid_ids_def)
  show ?case
  proof (cases "valid_message ?n (time w) d sz")
    case False
    obtain s' ys where "deliver_all clock ms (s\<lparr>ss_invalid := ss_invalid s + 1\<rparr>) = Some s'" "session_rep cnt (S \<union> set ?ids) ys s'"
      "ss_invalid s' = ss_invalid s + 1 + int (length ms - length ?ids)" "ss_duplicated s' = ss_duplicated s + int (length ?ids) + int (card S) - int (card (S \<union> set ?ids))"
      using Cons.IH [of "s\<lparr>ss_invalid := ss_invalid s + 1\<rparr>" S xs] Cons.prems by (auto simp: session_rep_def)
    moreover have "valid_ids time ?n (m # ms) = ?ids" using False by (simp add: valid_ids_def m)
    ultimately show ?thesis using on_decode_invalid [of clock w "time w" w, OF clock d False] len by (auto simp: m)
  next
    case True
    have ids: "valid_ids time ?n (m # ms) = packet_id d # ?ids" using True by (simp add: valid_ids_def m)
    note step = on_decode_valid [OF clock d True Cons.prems(2,3)]
    show ?thesis
    proof (cases "packet_id d \<in> S")
      case dup: True
      let ?s = "s\<lparr>ss_duplicated := ss_duplicated s + 1\<rparr>"
      have "session_rep cnt S xs ?s" using Cons.prems(3) by (simp add: session_rep_def)
      then obtain s' ys where "deliver_all clock ms ?s = Some s'" "session_rep cnt (S \<union> set ?ids) ys s'"
        "ss_invalid s' = ss_invalid s + int (length ms - length ?ids)" "ss_duplicated s' = ss_duplicated s + 1 + int (length ?ids) + int (card S) - int (card (S \<union> set ?ids))"
        using Cons.IH [of ?s S xs] Cons.prems by auto
      moreover have "S \<union> set (packet_id d # ?ids) = S \<union> set ?ids" using dup by auto
      ultimately show ?thesis unfolding ids using step dup by (auto simp: m)
    next
      case new: False
      then obtain s1 x where s1: "client_on_decode clock d sz (s, w) = Some (0, s1, w)" "session_rep cnt (insert (packet_id d) S) (xs @ [x]) s1"
        "ss_sent s1 = ss_sent s" "ss_invalid s1 = ss_invalid s" "ss_duplicated s1 = ss_duplicated s" using step by auto
      have "finite S" using Cons.prems(3) finite_subset unfolding session_rep_def by blast
      then have card: "card (insert (packet_id d) S) = card S + 1" using new by simp
      obtain s' ys where "deliver_all clock ms s1 = Some s'" "session_rep cnt (insert (packet_id d) S \<union> set ?ids) ys s'"
        "ss_invalid s' = ss_invalid s1 + int (length ms - length ?ids)"
        "ss_duplicated s' = ss_duplicated s1 + int (length ?ids) + int (card (insert (packet_id d) S)) - int (card (insert (packet_id d) S \<union> set ?ids))"
        using Cons.IH [of s1 "insert (packet_id d) S" "xs @ [x]"] Cons.prems(1,2) s1(2,3) by auto
      moreover have "S \<union> set (packet_id d # ?ids) = insert (packet_id d) S \<union> set ?ids" by auto
      ultimately show ?thesis unfolding ids using s1 card by (auto simp: m)
    qed
  qed
qed

section \<open>Sending in time\<close>

text \<open>Two sessions that send along the same paths.\<close>

definition same_paths :: "session_t \<Rightarrow> session_t \<Rightarrow> bool" where
  "same_paths s s' \<longleftrightarrow> ss_distributor s' = ss_distributor s \<and> ss_udp s' = ss_udp s \<and> ss_tun_addr s' = ss_tun_addr s \<and>
     ss_encrypt_type s' = ss_encrypt_type s"

text \<open>
  A codec that takes every packet of the session \<open>s0\<close>: it returns zero, and the packet is in the history of the world, which
  is whatever the packets that were sent can be read off from.
\<close>

definition codec_sends :: "('s, session_t \<times> 'w) nt_fec_t \<Rightarrow> 'w kernel \<Rightarrow> ('w \<Rightarrow> u8 list list) \<Rightarrow> session_t \<Rightarrow> bool" where
  "codec_sends fec k wire_of s0 \<longleftrightarrow> (\<forall>fs s m w. length m = BUF_LEN \<longrightarrow> same_paths s0 s \<longrightarrow>
     (\<exists>fs' n w'. nt_fec_encode fec fs m (int BUF_LEN) (client_on_encode k) (s, w) = Some (0, fs', s\<lparr>ss_encoded_sent := n\<rparr>, w') \<and> wire_of w' = wire_of w @ [m]))"

text \<open>What sending changes in a session.\<close>

definition sent_to :: "int \<Rightarrow> session_t \<Rightarrow> session_t \<Rightarrow> bool" where
  "sent_to n s s' \<longleftrightarrow> (\<exists>e. s' = s\<lparr>ss_encoded_sent := e, ss_sent := n\<rparr>)"

definition packets_from :: "int \<Rightarrow> int \<Rightarrow> u8 list list \<Rightarrow> bool" where
  "packets_from a b ps \<longleftrightarrow> map packet_id ps = [a..b - 1] \<and> (\<forall>p \<in> set ps. length p = BUF_LEN \<and> packet_check_checksum p)"

lemma packets_from_append: "packets_from a b ps \<Longrightarrow> packets_from b c qs \<Longrightarrow> a \<le> b \<Longrightarrow> b \<le> c \<Longrightarrow> packets_from a c (ps @ qs)"
  using upto_split1 [of a b "c - 1"] by (cases "b = c") (auto simp: packets_from_def)

lemma packets_from_nil: "packets_from a a []"
  by (simp add: packets_from_def)

lemma client_send_ok:
  assumes fec: "codec_sends fec k wire_of s0" and clock: "\<And>w. clock w = (time w, w)" "\<And>w. - (2 ^ 63) \<le> time w \<and> time w < 2 ^ 63"
    and s: "same_paths s0 s" "0 \<le> ss_sent s" "ss_sent s < ss_count s" "ss_count s < 2 ^ 31" and buf: "length buffer = BUF_LEN"
  shows "\<exists>buffer' fs' s' w' p. client_send fec clock k rnd (None, buffer, fs, s, w) = Some (None, buffer', fs', s', w') \<and> length buffer' = BUF_LEN \<and>
    sent_to (ss_sent s + 1) s s' \<and> wire_of w' = wire_of w @ [p] \<and> packets_from (ss_sent s) (ss_sent s + 1) [p]"
proof -
  obtain p where p: "packet_init (rnd (ss_sent s)) buffer (ss_sent s) (time w) = Some p" "length p = BUF_LEN" "packet_id p = ss_sent s" "packet_check_checksum p"
    using packet_init_spec [OF buf, of "ss_sent s" "time w" "rnd (ss_sent s)"] clock(2) [of w] s by auto
  obtain fs' n w' where e: "nt_fec_encode fec fs p (int BUF_LEN) (client_on_encode k) (s, w) = Some (0, fs', s\<lparr>ss_encoded_sent := n\<rparr>, w')" "wire_of w' = wire_of w @ [p]"
    using fec p(2) s(1) unfolding codec_sends_def by blast
  have "(ss_count s + 4) sdiv 5 \<noteq> 0"
  proof -
    have "0 < (ss_count s + 4) div 5" using s by (simp add: pos_imp_zdiv_pos_iff)
    then show ?thesis using s by (simp add: signed_divide_int_def)
  qed
  then have "client_send fec clock k rnd (None, buffer, fs, s, w) = Some (None, p, fs', s\<lparr>ss_encoded_sent := n, ss_sent := ss_sent s + 1\<rparr>, w')"
    using p(1) e(1) by (simp add: client_send_def clock(1))
  then show ?thesis using p e(2) by (auto simp: sent_to_def packets_from_def)
qed

text \<open>The number of packets that are due at a time.\<close>

definition packets_due :: "session_t \<Rightarrow> int \<Rightarrow> int" where
  "packets_due s now = (now - ss_begin_time s) * ss_qps s sdiv 1000"

lemma handle_write_ok:
  fixes fec :: "('s, session_t \<times> 'w) nt_fec_t"
  assumes fec: "codec_sends fec k wire_of s0" and clock: "\<And>w. clock w = (time w, w)" "\<And>w. - (2 ^ 63) \<le> time w \<and> time w < 2 ^ 63"
    and s: "same_paths s0 s" "0 \<le> ss_sent s" "ss_sent s \<le> ss_count s" "ss_count s < 2 ^ 31" and timer: "\<And>w. wire_of (snd (add_timer 2000 w)) = wire_of w"
    and range: "- (2 ^ 31) \<le> packets_due s (time w)" "packets_due s (time w) < 2 ^ 31"
  shows "\<exists>fs' s' stop w' ps. client_handle_write fec clock k rnd stack add_timer fs s w = Some (fs', s', stop, w') \<and>
    sent_to (min (ss_count s) (max (ss_sent s) (packets_due s (time w)))) s s' \<and> wire_of w' = wire_of w @ ps \<and>
    packets_from (ss_sent s) (min (ss_count s) (max (ss_sent s) (packets_due s (time w)))) ps"
proof -
  let ?to = "min (ss_count s) (max (ss_sent s) (packets_due s (time w)))"
  have int32: "to_int32 ((time w - ss_begin_time s) * ss_qps s sdiv 1000) = packets_due s (time w)"
    using range by (simp add: to_int32_def packets_due_def signed_of_int signed_take_bit_int_eq_self_iff)
  show ?thesis
  proof (cases "ss_count s = ss_sent s \<or> packets_due s (time w) = ss_sent s")
    case True
    then have "client_handle_write fec clock k rnd stack add_timer fs s w = Some (fs, s, None, w)"
      using s(3) int32 by (auto simp: client_handle_write_def clock(1) Let_def)
    moreover have "?to = ss_sent s" using True s(3) by auto
    moreover have "sent_to (ss_sent s) s s" by (auto simp: sent_to_def intro!: exI [of _ "ss_encoded_sent s"])
    ultimately show ?thesis using packets_from_nil by fastforce
  next
    case False
    define batch where "batch = (if packets_due s (time w) - ss_sent s > ss_count s - ss_sent s then ss_count s - ss_sent s else packets_due s (time w) - ss_sent s)"
    have batch: "batch \<noteq> 0" "int (nat batch) = ?to - ss_sent s" using False s(3) by (auto simp: batch_def)
    let ?f = "\<lambda>i (stop, buffer, fs, s, w). if stop \<noteq> None then Some (stop, buffer, fs, s, w) else client_send fec clock k rnd (stop, buffer, fs, s, w)"
    let ?P = "\<lambda>i (stop, buffer, fs, s', w'). stop = None \<and> length buffer = BUF_LEN \<and> sent_to (ss_sent s + int i) s s' \<and>
      (\<exists>ps. wire_of w' = wire_of w @ ps \<and> packets_from (ss_sent s) (ss_sent s + int i) ps)"
    have "\<exists>r. for_up 0 (nat batch) ?f (None, map stack [0..<BUF_LEN], fs, s, w) = Some r \<and> ?P (nat batch) r"
    proof (rule for_up_rule [where P = ?P])
      have "sent_to (ss_sent s) s s" by (auto simp: sent_to_def intro!: exI [of _ "ss_encoded_sent s"])
      then show "?P 0 (None, map stack [0..<BUF_LEN], fs, s, w)" using packets_from_nil by (auto intro!: exI [of _ "[]"])
    next
      fix i and r :: "int option \<times> u8 list \<times> 's \<times> session_t \<times> 'w" assume i: "0 \<le> i" "i < nat batch" and P: "?P i r"
      obtain buffer fs1 s1 w1 where r: "r = (None, buffer, fs1, s1, w1)" using P by (cases r) auto
      obtain ps where ps: "wire_of w1 = wire_of w @ ps" "packets_from (ss_sent s) (ss_sent s + int i) ps" using P r by auto
      have s1: "sent_to (ss_sent s + int i) s s1" "length buffer = BUF_LEN" using P r by simp_all
      then have s1': "same_paths s0 s1" "ss_sent s1 = ss_sent s + int i" "ss_count s1 = ss_count s" using s(1) by (auto simp: sent_to_def same_paths_def)
      have "int i < int (nat batch)" using i(2) by (simp only: of_nat_less_iff)
      then have "int i < ?to - ss_sent s" unfolding batch(2) .
      then have lt: "ss_sent s1 < ss_count s1" using s1' by simp
      obtain buffer' fs' s' w' p where n: "client_send fec clock k rnd (None, buffer, fs1, s1, w1) = Some (None, buffer', fs', s', w')" "length buffer' = BUF_LEN"
        "sent_to (ss_sent s1 + 1) s1 s'" "wire_of w' = wire_of w1 @ [p]" "packets_from (ss_sent s1) (ss_sent s1 + 1) [p]"
        using client_send_ok [where rnd = rnd and fs = fs1 and w = w1, OF fec clock s1'(1) _ lt _ s1(2)] s1' s by auto
      have "sent_to (ss_sent s + int (Suc i)) s s'" using n(3) s1(1) s1'(2) by (auto simp: sent_to_def algebra_simps)
      moreover have "packets_from (ss_sent s) (ss_sent s + int (Suc i)) (ps @ [p])"
        using packets_from_append [OF ps(2), of "ss_sent s + int (Suc i)" "[p]"] n(5) s1'(2) by (simp add: algebra_simps)
      ultimately show "\<exists>r'. ?f i r = Some r' \<and> ?P (Suc i) r'" using r n ps(1) by (auto intro!: exI [of _ "ps @ [p]"])
    qed simp
    then obtain buffer fs1 s1 w1 ps where run: "for_up 0 (nat batch) ?f (None, map stack [0..<BUF_LEN], fs, s, w) = Some (None, buffer, fs1, s1, w1)"
      "sent_to ?to s s1" "wire_of w1 = wire_of w @ ps" "packets_from (ss_sent s) ?to ps" using batch(2) by auto
    have ceq: "clock = (\<lambda>w. (time w, w))" using clock(1) by (rule ext)
    obtain err w2 where tm: "add_timer 2000 w1 = (err, w2)" "wire_of w2 = wire_of w1" using timer [of w1] by (metis prod.collapse)
    have "client_handle_write fec clock k rnd stack add_timer fs s w =
        Some (fs1, s1, if ss_sent s1 = ss_count s1 \<and> err \<noteq> 0 then Some (-1) else None, if ss_sent s1 = ss_count s1 then w2 else w1)"
      unfolding client_handle_write_def Let_def ceq prod.case int32 batch_def [symmetric] using False run(1) [unfolded ceq] tm(1) batch(1) by simp
    then show ?thesis using run(2-4) tm(2) by auto
  qed
qed

text \<open>Calls of the timer, before each of which the world goes on in some way.\<close>

fun write_all ::
    "('s, session_t \<times> 'w) nt_fec_t \<Rightarrow> ('w \<Rightarrow> int \<times> 'w) \<Rightarrow> 'w kernel \<Rightarrow> (int \<Rightarrow> nat \<Rightarrow> u32) \<Rightarrow> (nat \<Rightarrow> u8) \<Rightarrow> (int \<Rightarrow> 'w \<Rightarrow> int \<times> 'w) \<Rightarrow>
     ('w \<Rightarrow> 'w) list \<Rightarrow> 's \<Rightarrow> session_t \<Rightarrow> 'w \<Rightarrow> ('s \<times> session_t \<times> 'w) option" where
  "write_all fec clock k rnd stack add_timer [] fs s w = Some (fs, s, w)"
| "write_all fec clock k rnd stack add_timer (a # as) fs s w = do {
     (fs, s, stop, w) \<leftarrow> client_handle_write fec clock k rnd stack add_timer fs s (a w);
     write_all fec clock k rnd stack add_timer as fs s w
   }"

text \<open>Nothing of what was sent is lost from the record of it, and the numbers stay in the range of \<open>int\<close>.\<close>

definition keeps_pace :: "('w \<Rightarrow> u8 list list) \<Rightarrow> ('w \<Rightarrow> int) \<Rightarrow> session_t \<Rightarrow> ('w \<Rightarrow> 'w) \<Rightarrow> bool" where
  "keeps_pace wire_of time s a \<longleftrightarrow> (\<forall>w. wire_of (a w) = wire_of w \<and> - (2 ^ 31) \<le> packets_due s (time (a w)) \<and> packets_due s (time (a w)) < 2 ^ 31)"

lemma write_all_ok:
  fixes fec :: "('s, session_t \<times> 'w) nt_fec_t"
  assumes fec: "codec_sends fec k wire_of s0" and clock: "\<And>w. clock w = (time w, w)" "\<And>w. - (2 ^ 63) \<le> time w \<and> time w < 2 ^ 63"
    and timer: "\<And>w. wire_of (snd (add_timer 2000 w)) = wire_of w"
  shows "same_paths s0 s \<Longrightarrow> 0 \<le> ss_sent s \<Longrightarrow> ss_sent s \<le> ss_count s \<Longrightarrow> ss_count s < 2 ^ 31 \<Longrightarrow> list_all (keeps_pace wire_of time s) as \<Longrightarrow>
    \<exists>fs' s' w' ps n. write_all fec clock k rnd stack add_timer as fs s w = Some (fs', s', w') \<and> sent_to n s s' \<and> ss_sent s \<le> n \<and> n \<le> ss_count s \<and>
      wire_of w' = wire_of w @ ps \<and> packets_from (ss_sent s) n ps \<and> (as \<noteq> [] \<longrightarrow> (\<forall>w. ss_count s \<le> packets_due s (time (last as w))) \<longrightarrow> n = ss_count s)"
proof (induction as arbitrary: fs s w)
  case Nil
  have "sent_to (ss_sent s) s s" by (auto simp: sent_to_def intro!: exI [of _ "ss_encoded_sent s"])
  then show ?case using Nil packets_from_nil by fastforce
next
  case (Cons a as)
  have a: "wire_of (a w) = wire_of w" "- (2 ^ 31) \<le> packets_due s (time (a w))" "packets_due s (time (a w)) < 2 ^ 31" using Cons.prems(5) by (simp_all add: keeps_pace_def)
  define m where "m = min (ss_count s) (max (ss_sent s) (packets_due s (time (a w))))"
  obtain fs1 s1 stop w1 ps where h: "client_handle_write fec clock k rnd stack add_timer fs s (a w) = Some (fs1, s1, stop, w1)" "sent_to m s s1"
    "wire_of w1 = wire_of w @ ps" "packets_from (ss_sent s) m ps"
    using handle_write_ok [where rnd = rnd and stack = stack and fs = fs and w = "a w" and time = time and clock = clock and wire_of = wire_of and add_timer = add_timer,
      OF fec clock Cons.prems(1-4) timer a(2,3)] a(1) unfolding m_def by (elim exE conjE) simp
  have m: "ss_sent s \<le> m" "m \<le> ss_count s" using Cons.prems(3) by (simp_all add: m_def)
  have s1: "same_paths s0 s1" "ss_sent s1 = m" "ss_count s1 = ss_count s" "\<And>t. packets_due s1 t = packets_due s t"
    using h(2) Cons.prems(1) by (auto simp: sent_to_def same_paths_def packets_due_def)
  have p: "list_all (keeps_pace wire_of time s1) as" "0 \<le> ss_sent s1" "ss_sent s1 \<le> ss_count s1" "ss_count s1 < 2 ^ 31"
    using Cons.prems(2,4,5) m s1(2,3) by (auto simp: list_all_iff keeps_pace_def s1(4))
  obtain fs' s' w' qs n where r: "write_all fec clock k rnd stack add_timer as fs1 s1 w1 = Some (fs', s', w')" "sent_to n s1 s'" "m \<le> n" "n \<le> ss_count s"
    "wire_of w' = wire_of w1 @ qs" "packets_from m n qs" "as \<noteq> [] \<longrightarrow> (\<forall>w. ss_count s \<le> packets_due s (time (last as w))) \<longrightarrow> n = ss_count s"
    using Cons.IH [OF s1(1) p(2-4,1), of fs1 w1] unfolding s1(2-4) by (elim exE conjE)
  have "sent_to n s s'" using r(2) h(2) by (auto simp: sent_to_def)
  moreover have "packets_from (ss_sent s) n (ps @ qs)" by (rule packets_from_append [OF h(4) r(6) m(1) r(3)])
  moreover have "n = ss_count s" if "as = []" "\<forall>w. ss_count s \<le> packets_due s (time (a w))"
  proof -
    have "ss_count s \<le> packets_due s (time (a w))" using that(2) by blast
    then have "m = ss_count s" unfolding m_def by linarith
    then show ?thesis using r(3,4) by simp
  qed
  ultimately show ?case using h(1,3) r m
    by (intro exI [of _ fs'] exI [of _ s'] exI [of _ w'] exI [of _ "ps @ qs"] exI [of _ n]) auto
qed

section \<open>Packets without a tunnel\<close>

text \<open>
  The client sends messages of version two and takes only those of version one. The echo server returns a message of version two as it is, so that a
  client that sends to it directly counts none of its packets, neither as received nor as invalid.
\<close>

lemma server_returns_v2: "server_reply (nt_api2_header_bytes (nt_api2_header_init i sa sp da dp e t n) @ rest) =
    nt_api2_header_bytes (nt_api2_header_init i sa sp da dp e t n) @ rest"
  by (rule server_reply_simps(1)) (simp add: v1_message_def nt_api2_header_bytes_def NT_API2_TAG_def NT_API_TAG_def)

lemma client_ignores_v2:
  assumes recv: "recvmsg k (udp_fd (ss_udp s)) UDP_BUFFER_SIZE w = (Inr (d, src, cs), w')"
    and d: "d = nt_api2_header_bytes (nt_api2_header_init i sa sp da dp e t n) @ rest" "length d \<le> UDP_BUFFER_SIZE"
  shows "client_handle_read fec clock k stack fs s w = Some (fs, s, if ss_received s = ss_count s then Some 0 else None, w')"
proof -
  define buf where "buf = d @ drop (length d) (map stack [0..<UDP_BUFFER_SIZE])"
  have len: "19 \<le> length buf" using d(2) by (simp add: buf_def UDP_BUFFER_SIZE_def)
  have r: "udp_recv k (ss_udp s) (map stack [0..<UDP_BUFFER_SIZE]) UDP_BUFFER_SIZE w = Some (Inr (length d, [buf], src, control_dst cs), w')"
    using recv d(2) by (simp add: udp_recv_def udp_recv_v_def recv_v_def fill_short buf_def)
  obtain h where h: "nt_api_header_is_valid buf = Some (buf ! 0 = NT_API_TAG)" "nt_api_header_at buf = Some h"
    using v1_of_buffer [OF buf_def len] by blast
  have "buf ! 0 \<noteq> NT_API_TAG" by (simp add: buf_def d(1) nt_api2_header_bytes_def NT_API2_TAG_def NT_API_TAG_def)
  then show ?thesis unfolding client_handle_read_def r using h by simp
qed

section \<open>Properties\<close>

definition fresh_session :: "session_t \<Rightarrow> bool" where
  "fresh_session s \<longleftrightarrow> ss_sent s = 0 \<and> ss_received s = 0 \<and> ss_invalid s = 0 \<and> ss_duplicated s = 0 \<and> ss_metric s = make_metric 1000 \<and>
     ss_response_map s = make_bitmap (nat (ss_count s))"

lemma fresh_rep: "fresh_session s \<Longrightarrow> sent_to n s s' \<Longrightarrow> session_rep (ss_count s) {} [] s'"
  by (auto simp: fresh_session_def sent_to_def session_rep_def make_bitmap_rep intro!: make_metric_ok)

text \<open>
  C36. The echo client completes. Called often enough by its timer, in any worlds, the client sends its \<open>ss_count\<close> packets, numbered from zero and each once,
  as soon as the rate allows all of them, if the codec takes them. When these packets come back, in any order, with
  any repetitions, but each at least once, the client counts each of them as received exactly once, the repetitions as duplicates, and none as invalid.
\<close>

theorem echo_client_completes:
  fixes fec :: "('s, session_t \<times> 'w) nt_fec_t"
  assumes fec: "codec_sends fec k wire_of s" and clock: "\<forall>w. clock w = (time w, w) \<and> - (2 ^ 63) \<le> time w \<and> time w < 2 ^ 63"
    and s: "fresh_session s" "0 < ss_count s" "ss_count s < 2 ^ 31" and timer: "\<forall>w. wire_of (snd (add_timer 2000 w)) = wire_of w"
    and calls: "list_all (keeps_pace wire_of time s) (as @ [b])" "\<forall>w. ss_count s \<le> packets_due s (time (b w))"
  shows "\<exists>fs' s' w' ps. write_all fec clock k rnd stack add_timer (as @ [b]) fs s w = Some (fs', s', w') \<and> ss_sent s' = ss_count s \<and>
    wire_of w' = wire_of w @ ps \<and> packets_from 0 (ss_count s) ps \<and>
    (\<forall>ms. (\<forall>(v, d, sz) \<in> set ms. d \<in> set ps \<and> sz = int BUF_LEN \<and> packet_timestamp d \<le> time v) \<and> set ps \<subseteq> (\<lambda>(v, d, sz). d) ` set ms \<longrightarrow>
      (\<exists>s''. deliver_all clock ms s' = Some s'' \<and> ss_received s'' = ss_count s \<and> ss_invalid s'' = 0 \<and> ss_duplicated s'' = int (length ms) - ss_count s))"
proof -
  have c: "\<And>w. clock w = (time w, w)" "\<And>w. - (2 ^ 63) \<le> time w \<and> time w < 2 ^ 63" using clock by blast+
  have "same_paths s s" by (simp add: same_paths_def)
  then obtain fs' s' w' ps where w: "write_all fec clock k rnd stack add_timer (as @ [b]) fs s w = Some (fs', s', w')" "sent_to (ss_count s) s s'"
    "wire_of w' = wire_of w @ ps" "packets_from 0 (ss_count s) ps"
    using write_all_ok [where rnd = rnd and stack = stack and fs = fs and w = w and time = time and clock = clock, OF fec c, of add_timer s "as @ [b]"] timer s calls
    by (auto simp: fresh_session_def)
  have n: "ss_sent s' = ss_count s" "ss_invalid s' = 0" "ss_duplicated s' = 0" using w(2) s(1) by (auto simp: sent_to_def fresh_session_def)
  have "\<exists>s''. deliver_all clock ms s' = Some s'' \<and> ss_received s'' = ss_count s \<and> ss_invalid s'' = 0 \<and> ss_duplicated s'' = int (length ms) - ss_count s"
    if ms: "\<forall>(v, d, sz) \<in> set ms. d \<in> set ps \<and> sz = int BUF_LEN \<and> packet_timestamp d \<le> time v" "set ps \<subseteq> (\<lambda>(v, d, sz). d) ` set ms" for ms
  proof -
    have ids: "set (map packet_id ps) = {0..<ss_count s}" and ok: "\<And>p. p \<in> set ps \<Longrightarrow> length p = BUF_LEN \<and> packet_check_checksum p"
      using w(4) by (auto simp: packets_from_def)
    have "valid_message (ss_count s) (time v) d sz" if "(v, d, sz) \<in> set ms" for v d sz
    proof -
      have d: "d \<in> set ps" "sz = int BUF_LEN" "packet_timestamp d \<le> time v" using ms(1) that by auto
      then have "packet_id d \<in> {0..<ss_count s}" unfolding ids [symmetric] by simp
      then show ?thesis using d ok [OF d(1)] by (simp add: valid_message_def BUF_LEN_def)
    qed
    then have "filter (\<lambda>(w, d, sz). valid_message (ss_count s) (time w) d sz) ms = ms" by (auto intro!: filter_True)
    then have v: "valid_ids time (ss_sent s') ms = map (\<lambda>(w, d, sz). packet_id d) ms" by (simp add: valid_ids_def n(1))
    have "(\<lambda>(v, d, sz). d) ` set ms = set ps" using ms by force
    then have "packet_id ` (\<lambda>(v, d, sz). d) ` set ms = {0..<ss_count s}" using ids by simp
    then have set: "set (valid_ids time (ss_sent s') ms) = {0..<ss_count s}" by (simp add: v image_image case_prod_unfold)
    have "\<forall>(w, d, sz) \<in> set ms. 28 \<le> length d" using ms(1) ok by (fastforce simp: BUF_LEN_def)
    then obtain s'' ys where "deliver_all clock ms s' = Some s''" "session_rep (ss_count s) ({} \<union> {0..<ss_count s}) ys s''"
      "ss_invalid s'' = ss_invalid s' + int (length ms - length ms)" "ss_duplicated s'' = ss_duplicated s' + int (length ms) + 0 - int (card ({} \<union> {0..<ss_count s}))"
      using deliver_all_spec [OF c(1), of ms s' "ss_count s" "{}" "[]"] fresh_rep [OF s(1) w(2)] n(1) v unfolding set by auto
    then show ?thesis using s(2) n by (auto simp: session_rep_def)
  qed
  then show ?thesis using w(1,3,4) n(1) by blast
qed

text \<open>
  C37. The statistics of the echo client are right. Whatever messages the codec delivers after the client has sent \<open>ss_sent\<close> packets, if each is
  as long as the header of a packet, no check fails; the client counts the different valid numbers as received, the other valid messages as duplicates,
  and the rest as invalid, and it has received everything exactly if every number has come back.
\<close>

theorem echo_client_counts:
  assumes clock: "\<forall>w. clock w = (time w, w)" and s: "fresh_session s" "0 \<le> n" "n \<le> ss_count s"
    and ms: "\<forall>(w, d, sz) \<in> set ms. 28 \<le> length d"
  shows "\<exists>s'. deliver_all clock ms (s\<lparr>ss_sent := n\<rparr>) = Some s' \<and> ss_received s' = int (card (set (valid_ids time n ms))) \<and>
    ss_duplicated s' = int (length (valid_ids time n ms)) - int (card (set (valid_ids time n ms))) \<and>
    ss_invalid s' = int (length ms) - int (length (valid_ids time n ms)) \<and>
    (ss_received s' = ss_count s \<longleftrightarrow> {0..<ss_count s} = set (valid_ids time n ms))"
proof -
  let ?s = "s\<lparr>ss_sent := n\<rparr>" let ?ids = "valid_ids time n ms"
  have "session_rep (ss_count s) {} [] ?s" by (rule fresh_rep [OF s(1), of n]) (auto simp: sent_to_def intro!: exI [of _ "ss_encoded_sent s"])
  then obtain s' ys where r: "deliver_all clock ms ?s = Some s'" "session_rep (ss_count s) (set ?ids) ys s'"
    "ss_invalid s' = int (length ms - length ?ids)" "ss_duplicated s' = int (length ?ids) - int (card (set ?ids))"
    using deliver_all_spec [of clock time ms ?s "ss_count s" "{}" "[]"] clock s ms by (auto simp: fresh_session_def)
  have len: "length ?ids \<le> length ms" by (simp add: valid_ids_def)
  have sub: "set ?ids \<subseteq> {0..<ss_count s}" and rec: "ss_received s' = int (card (set ?ids))" using r(2) by (simp_all add: session_rep_def)
  have "int (card (set ?ids)) = ss_count s \<longleftrightarrow> {0..<ss_count s} = set ?ids"
  proof
    assume "int (card (set ?ids)) = ss_count s"
    then have "card (set ?ids) = card {0..<ss_count s}" by simp
    then show "{0..<ss_count s} = set ?ids" using card_subset_eq [OF _ sub] by auto
  next
    assume "{0..<ss_count s} = set ?ids"
    then have "card (set ?ids) = card {0..<ss_count s}" by simp
    then show "int (card (set ?ids)) = ss_count s" using s(2,3) by simp
  qed
  then show ?thesis using r(1,3,4) rec len by (simp add: of_nat_diff)
qed

section \<open>Examples\<close>

text \<open>A world that has two times and remembers what was sent; the codec that only adds a header, and one path.\<close>

definition two_times :: "bool \<times> u8 list list \<Rightarrow> int" where
  "two_times w = (if fst w then 2000 else 0)"

definition remember :: "(bool \<times> u8 list list) kernel" where
  "remember = \<lparr>sendmsg = (\<lambda>fd m (b, ds). (Inr (length (concat (msg_iov m))), b, ds @ [concat (msg_iov m)])), recvmsg = (\<lambda>fd n w. (Inl 11, w)),
     sendto = (\<lambda>fd d a w. (Inl 1, w)), recvfrom = (\<lambda>fd n w. (Inl 11, w))\<rparr>"

definition one_path :: nt_distributor_t where
  "one_path = \<lparr>d_paths = [some_path 1], path_num = 1, seq2addr = [0], seq_num = 1, dup_num = 1\<rparr>"

definition sample_session :: session_t where
  "sample_session = \<lparr>ss_distributor = one_path, ss_udp = \<lparr>udp_fd = 3\<rparr>, ss_tun_addr = None, ss_encrypt_type = 0, ss_count = 2, ss_qps = 1, ss_sent = 0,
     ss_encoded_sent = 0, ss_received = 0, ss_invalid = 0, ss_duplicated = 0, ss_metric = make_metric 1000, ss_response_map = make_bitmap 2, ss_begin_time = 0\<rparr>"

lemma one_path_select: "nt_distributor_select one_path seq (int 0) = (if seq < 0 then None else Some (Some (some_path 1)))"
  "nt_distributor_select one_path seq (int (Suc 0)) = Some None"
  by (simp_all add: nt_distributor_select_def one_path_def rdi_def rd_def)

lemma dummy_sends: "codec_sends (nt_dummy_fec_init :: ('s, session_t \<times> bool \<times> u8 list list) nt_fec_t) remember (\<lambda>(b, ds). map (drop (nt_api2_header_size + nt_fec_header_size)) ds) sample_session"
  unfolding codec_sends_def
proof (intro allI impI)
  fix fs :: 's and s :: session_t and m :: "u8 list" and w :: "bool \<times> u8 list list" assume m: "length m = BUF_LEN" and s: "same_paths sample_session s"
  obtain b ds where w: "w = (b, ds)" by (cases w)
  let ?h = "nt_fec_header_init NT_DUMMY_FEC_TAG 0 0 0 0 (word_of_int (int BUF_LEN))"
  let ?parts = "[nt_fec_header_bytes ?h, m]"
  let ?a = "nt_api2_header_init (word_of_int (ss_encoded_sent s)) 0 0 (address_get_addr4 (path_dst (some_path 1))) (address_get_port (path_dst (some_path 1)))
    (ss_encrypt_type s) 8 (of_nat (length (concat ?parts)))"
  have d: "ss_distributor s = one_path" using s by (simp add: same_paths_def sample_session_def)
  have reserved: "length (a2_reserved ?a) = 7" by (simp add: nt_api2_header_init_def)
  have sz: "nt_api2_message_size ?a = length (nt_api2_header_bytes ?a @ concat ?parts)"
    using length_nt_api2_header_bytes [OF reserved] m by (simp add: BUF_LEN_def header_lengths)
  have "client_copies remember ?h ?parts 0 s w = Some (s\<lparr>ss_encoded_sent := ss_encoded_sent s + 1\<rparr>, b, ds @ [nt_api2_header_bytes ?a @ concat ?parts])"
    using sz by (subst client_copies.simps, subst client_copies.simps)
      (simp add: d one_path_select [simplified] w udp_send_v_def send_v_def remember_def Let_def)
  moreover have "drop (nt_api2_header_size + nt_fec_header_size) (nt_api2_header_bytes ?a @ concat ?parts) = m"
    using length_nt_api2_header_bytes [OF reserved] by simp
  ultimately show "\<exists>fs' n w'. nt_fec_encode nt_dummy_fec_init fs m (int BUF_LEN) (client_on_encode remember) (s, w) = Some (0, fs', s\<lparr>ss_encoded_sent := n\<rparr>, w') \<and>
      (case w' of (b, ds) \<Rightarrow> map (drop (nt_api2_header_size + nt_fec_header_size)) ds) =
      (case w of (b, ds) \<Rightarrow> map (drop (nt_api2_header_size + nt_fec_header_size)) ds) @ [m]"
    using m w by (auto simp: nt_fec_encode_def nt_dummy_fec_init_def nt_fec_init_def nt_dummy_fec_encode_def client_on_encode_def BUF_LEN_def)
qed

lemma sample_fresh: "fresh_session sample_session"
  by (simp add: fresh_session_def sample_session_def)

theorem echo_client_completes_witness:
  "\<exists>fs s w ps. write_all nt_dummy_fec_init (\<lambda>w. (two_times w, w)) remember (\<lambda>n i. 9) (\<lambda>_. 1) (\<lambda>t w. (0, w)) [\<lambda>w. w, \<lambda>w. (True, snd w)] () sample_session (False, []) =
      Some (fs, s, w) \<and> ss_sent s = 2 \<and> map (drop (nt_api2_header_size + nt_fec_header_size)) (snd w) = ps \<and> map packet_id ps = [0, 1]"
proof -
  let ?wire = "\<lambda>(b :: bool, ds). map (drop (nt_api2_header_size + nt_fec_header_size)) (ds :: u8 list list)"
  have due: "packets_due sample_session (two_times w) = (if fst w then 2 else 0)" for w
    by (simp add: packets_due_def two_times_def sample_session_def signed_divide_int_def)
  have c: "\<forall>w. (\<lambda>w. (two_times w, w)) w = (two_times w, w) \<and> - (2 ^ 63) \<le> two_times w \<and> two_times w < 2 ^ 63" by (simp add: two_times_def)
  have calls: "list_all (keeps_pace ?wire two_times sample_session) ([\<lambda>w. w] @ [\<lambda>w. (True, snd w)])"
    by (simp add: keeps_pace_def due case_prod_unfold)
  have n: "0 < ss_count sample_session" "ss_count sample_session < 2 ^ 31" "\<forall>w. ss_count sample_session \<le> packets_due sample_session (two_times (True, snd w))"
    by (simp_all add: due) (simp_all add: sample_session_def)
  obtain fs s w ps where "write_all nt_dummy_fec_init (\<lambda>w. (two_times w, w)) remember (\<lambda>n i. 9) (\<lambda>_. 1) (\<lambda>t w. (0, w)) ([\<lambda>w. w] @ [\<lambda>w. (True, snd w)]) () sample_session (False, []) =
      Some (fs, s, w)" "ss_sent s = ss_count sample_session" "?wire w = ?wire (False, []) @ ps" "packets_from 0 (ss_count sample_session) ps"
    using echo_client_completes [where add_timer = "\<lambda>t w. (0, w)" and rnd = "\<lambda>n i. 9" and stack = "\<lambda>_. 1" and fs = "()" and w = "(False, [])",
      OF dummy_sends c sample_fresh n(1,2) _ calls n(3)] by auto
  moreover have "[0..1 :: int] = [0, 1]" by (simp add: upto_rec1)
  ultimately show ?thesis by (intro exI [of _ fs] exI [of _ s] exI [of _ w] exI [of _ ps]) (simp add: sample_session_def packets_from_def case_prod_unfold)
qed

theorem echo_client_counts_witness:
  "\<exists>s. deliver_all (\<lambda>w. (two_times w, w)) [((True, []), replicate 28 0, 1100), ((True, []), replicate 28 0, 1100), ((False, []), replicate 28 0, 4)]
      (sample_session\<lparr>ss_sent := 1\<rparr>) = Some s \<and> ss_received s = 1 \<and> ss_duplicated s = 1 \<and> ss_invalid s = 1"
proof -
  let ?ms = "[((True, []), replicate 28 0, 1100), ((True, []), replicate 28 0, 1100), ((False, []), replicate 28 0, 4)] :: ((bool \<times> u8 list list) \<times> u8 list \<times> int) list"
  have zero: "word_of_bytes (replicate n 0) = (0 :: 'a::len word)" for n by (induction n) simp_all
  have f: "field a n (replicate 28 0) = (0 :: 'a::len word)" for a n by (simp add: field_def zero)
  have "count1 0 = 0" by (simp add: count1_def)
  then have p: "packet_id (replicate 28 0) = 0" "packet_timestamp (replicate 28 0) = 0" "packet_check_checksum (replicate 28 0)"
    by (simp_all add: packet_id_def packet_timestamp_def packet_check_checksum_def packet_checksum_def checksum_def f)
  have ids: "valid_ids two_times 1 ?ms = [0, 0]" by (simp add: valid_ids_def valid_message_def p two_times_def)
  have c: "\<forall>w. (\<lambda>w. (two_times w, w)) w = (two_times w, w)" by simp
  have ms: "\<forall>(w, d, sz) \<in> set ?ms. 28 \<le> length d" by simp
  show ?thesis using echo_client_counts [OF c sample_fresh, of 1 ?ms] ms unfolding ids by (auto simp: sample_session_def)
qed

end
