(* ===== verification/Nt_Tunnel.thy ===== *)
theory Nt_Tunnel
  imports Nt_Listener
begin

text \<open>
  The tunnel as \<^verbatim>\<open>src/src/main/tunnel/main.c\<close> puts it together: two listeners and the workers of the processors,
  which run in threads of their own and share the processors, the memory of the buffers and the counters. A
  step of the system is one complete call of a handler, by whatever thread; the interleaving inside the
  queues is that of \<open>Conqueue\<close>. Between the steps the outside world may change in any way.
\<close>

section \<open>Delivery to the handlers\<close>

text \<open>
  What a worker does with the messages it takes from its queue: the handler \<open>f\<close> gets the contents of the buffer,
  then the buffer is released to the pool of the listener.
\<close>

fun run_events ::
    "(('s, 'w) nt_fec_processor_t \<Rightarrow> u8 list \<Rightarrow> perf_t \<times> 'w \<Rightarrow> (('s, 'w) nt_fec_processor_t \<times> perf_t \<times> 'w) option) \<Rightarrow> nat \<Rightarrow>
     (nat, unit) worker_event list \<Rightarrow> ('h, 's, 'w) state \<Rightarrow> ('h, 's, 'w) state option" where
  "run_events f i [] st = Some st"
| "run_events f i (On_message b # es) st = do {
     p \<leftarrow> rd (st_processors st) i;
     (p, pw) \<leftarrow> f p (st_mem st b) (st_world st);
     ps \<leftarrow> wr (st_processors st) i p;
     run_events f i es (st\<lparr>st_processors := ps, st_world := pw\<rparr>)
   }"
| "run_events f i (Free_message _ b # es) st = do { st \<leftarrow> cleanup b st; run_events f i es st }"

definition wake ::
    "(('s, 'w) nt_fec_processor_t \<Rightarrow> (nat, unit) worker_t) \<Rightarrow> ((nat, unit) worker_t \<Rightarrow> ('s, 'w) nt_fec_processor_t \<Rightarrow> ('s, 'w) nt_fec_processor_t) \<Rightarrow>
     (('s, 'w) nt_fec_processor_t \<Rightarrow> u8 list \<Rightarrow> perf_t \<times> 'w \<Rightarrow> (('s, 'w) nt_fec_processor_t \<times> perf_t \<times> 'w) option) \<Rightarrow> nat \<Rightarrow>
     ('h, 's, 'w) state \<Rightarrow> ('h, 's, 'w) state option" where
  "wake sel upd f i st = do {
     p \<leftarrow> rd (st_processors st) i;
     (w, es) \<leftarrow> worker_callback (sel p);
     ps \<leftarrow> wr (st_processors st) i (upd w p);
     run_events f i es (st\<lparr>st_processors := ps\<rparr>)
   }"

definition encoder_wake :: "'w kernel \<Rightarrow> nat \<Rightarrow> ('h, 's, 'w) state \<Rightarrow> ('h, 's, 'w) state option" where
  "encoder_wake k = wake encoder (\<lambda>w p. p\<lparr>encoder := w\<rparr>) (encoder_on_message k)"

definition decoder_wake :: "'w kernel \<Rightarrow> int \<Rightarrow> nat \<Rightarrow> ('h, 's, 'w) state \<Rightarrow> ('h, 's, 'w) state option" where
  "decoder_wake k now = wake decoder (\<lambda>w p. p\<lparr>decoder := w\<rparr>) (decoder_on_message k now)"

text \<open>The buffers \<open>bs\<close> have left the queue of a worker and wait for their release.\<close>

definition released ::
    "nat \<Rightarrow> nat \<Rightarrow> (u8 list \<Rightarrow> bool) \<Rightarrow> (('s, 'w) nt_fec_processor_t \<Rightarrow> (nat, unit) worker_t) \<Rightarrow> nat list \<Rightarrow> ('h, 's, 'w) state \<Rightarrow> bool" where
  "released cap q ok sel bs st \<longleftrightarrow> listener_ok cap q ok sel st \<and> distinct (bs @ owned sel st) \<and> length bs + length (owned sel st) \<le> cap \<and>
     (\<forall>b \<in> set bs. pool_header \<le> b \<and> length (st_mem st b) = max_buffer_size (st_listener st) \<and> ok (st_mem st b))"

text \<open>
  What a handler does to its processor: it returns, keeps the predicate \<open>P\<close> and the counters, and leaves both
  queues alone.
\<close>

definition serves ::
    "(('s, 'w) nt_fec_processor_t \<Rightarrow> bool) \<Rightarrow> (u8 list \<Rightarrow> bool) \<Rightarrow>
     (('s, 'w) nt_fec_processor_t \<Rightarrow> u8 list \<Rightarrow> perf_t \<times> 'w \<Rightarrow> (('s, 'w) nt_fec_processor_t \<times> perf_t \<times> 'w) option) \<Rightarrow> bool" where
  "serves P ok f \<longleftrightarrow> (\<forall>p m perf w. P p \<longrightarrow> ok m \<longrightarrow> nt_perf perf \<longrightarrow>
     (\<exists>p' perf' w'. f p m (perf, w) = Some (p', perf', w') \<and> P p' \<and> nt_perf perf' \<and> encoder p' = encoder p \<and> decoder p' = decoder p))"

definition only_fec :: "(('s, 'w) nt_fec_processor_t \<Rightarrow> bool) \<Rightarrow> ('s, 'w) nt_fec_processor_t list \<Rightarrow> ('s, 'w) nt_fec_processor_t list \<Rightarrow> bool" where
  "only_fec P ps ps' \<longleftrightarrow> map encoder ps' = map encoder ps \<and> map decoder ps' = map decoder ps \<and> (list_all P ps \<longrightarrow> list_all P ps')"

lemma only_fec_update:
  assumes "i < length ps" "P p'" "encoder p' = encoder (ps ! i)" "decoder p' = decoder (ps ! i)"
  shows "only_fec P ps (ps[i := p'])"
proof -
  have "map encoder (ps[i := p']) = map encoder ps" "map decoder (ps[i := p']) = map decoder ps"
    using assms by (metis list_update_id map_update)+
  moreover have "list_all P ps \<Longrightarrow> list_all P (ps[i := p'])" using ball_set_update [of ps P p' i] assms(2) unfolding list_all_iff by blast
  ultimately show ?thesis by (simp add: only_fec_def)
qed

lemma in_flight_map: "in_flight sel ps = concat (map (\<lambda>w. map msg_data (pending w)) (map sel ps))"
  by (simp add: in_flight_def comp_def)

lemma in_flight_only_fec:
  assumes "only_fec P ps ps'"
  shows "in_flight encoder ps' = in_flight encoder ps" "in_flight decoder ps' = in_flight decoder ps"
  using assms by (simp_all only: in_flight_map only_fec_def)

lemma listener_ok_only_fec:
  assumes "listener_ok cap q ok sel st" "only_fec P (st_processors st) ps'" "nt_perf perf" "sel = encoder \<or> sel = decoder"
  shows "listener_ok cap q ok sel (st\<lparr>st_processors := ps', st_world := (perf, w)\<rparr>)"
proof -
  have "in_flight sel ps' = in_flight sel (st_processors st)" "map sel ps' = map sel (st_processors st)"
    using in_flight_only_fec [OF assms(2)] assms(2,4) by (auto simp: only_fec_def)
  moreover from this(2) have "length ps' = length (st_processors st)" by (metis length_map)
  moreover have "\<forall>p \<in> set ps'. worker_ok q (sel p)"
  proof
    fix p assume "p \<in> set ps'"
    then have "sel p \<in> set (map sel ps')" by simp
    then have "sel p \<in> sel ` set (st_processors st)" unfolding calculation(2) by simp
    then show "worker_ok q (sel p)" using assms(1) by (auto simp: listener_ok_def)
  qed
  ultimately show ?thesis using assms(1,3) by (simp add: listener_ok_def)
qed

lemma run_events_spec:
  fixes P :: "('s, 'w) nt_fec_processor_t \<Rightarrow> bool"
  assumes f: "serves P ok f" and sel: "sel = encoder \<or> sel = decoder"
  shows "released cap q ok sel bs st \<Longrightarrow> i < length (st_processors st) \<Longrightarrow> list_all P (st_processors st) \<Longrightarrow>
    \<exists>st'. run_events f i (concat (map (\<lambda>b. delivery \<lparr>msg_data = b, msg_free = ()\<rparr>) bs)) st = Some st' \<and>
      listener_ok cap q ok sel st' \<and> mset (owned sel st') = mset (owned sel st) + mset bs \<and> st_mem st' = st_mem st \<and>
      only_fec P (st_processors st) (st_processors st') \<and> max_buffer_size (st_listener st') = max_buffer_size (st_listener st)"
proof (induction bs arbitrary: st)
  case Nil
  then show ?case by (auto simp: released_def only_fec_def)
next
  case (Cons b bs)
  let ?p = "st_processors st ! i"
  have ok: "listener_ok cap q ok sel st" and b: "ok (st_mem st b)" "pool_header \<le> b" "length (st_mem st b) = max_buffer_size (st_listener st)"
    using Cons.prems(1) by (simp_all add: released_def)
  have perf: "nt_perf (fst (st_world st))" using ok by (simp add: listener_ok_def)
  have P: "P ?p" using Cons.prems(2,3) by (simp add: list_all_length)
  obtain p' perf' w' where fp: "f ?p (st_mem st b) (fst (st_world st), snd (st_world st)) = Some (p', perf', w')" "P p'" "nt_perf perf'"
    "encoder p' = encoder ?p" "decoder p' = decoder ?p" using f P b(1) perf unfolding serves_def by meson
  let ?ps = "(st_processors st)[i := p']"
  have o1: "only_fec P (st_processors st) ?ps" by (rule only_fec_update [where P = P, OF Cons.prems(2) fp(2,4,5)])
  define st1 where "st1 = st\<lparr>st_processors := ?ps, st_world := (perf', w')\<rparr>"
  have ok1: "listener_ok cap q ok sel st1" unfolding st1_def by (rule listener_ok_only_fec [OF ok o1 fp(3) sel])
  have own: "free_buffers st1 = free_buffers st" "in_flight sel ?ps = in_flight sel (st_processors st)"
    using in_flight_only_fec [OF o1] sel by (auto simp: st1_def)
  then have own1: "owned sel st1 = owned sel st" by (simp add: st1_def)
  have st1: "st_mem st1 = st_mem st" "st_listener st1 = st_listener st" "st_processors st1 = ?ps" by (simp_all add: st1_def)
  have "holding cap q ok sel b st1" using ok1 Cons.prems(1) own1 b by (auto simp: holding_def released_def st1)
  then obtain st2 where c: "cleanup b st1 = Some st2" "settled cap q ok sel (\<lambda>p. p) b st1 st2" using cleanup_settles by blast
  then have s2: "listener_ok cap q ok sel st2" "mset (owned sel st2) = add_mset b (mset (owned sel st))" "st_mem st2 = st_mem st"
    "st_processors st2 = ?ps" "max_buffer_size (st_listener st2) = max_buffer_size (st_listener st)"
    unfolding settled_def own1 unfolding st1 map_ident by blast+
  have m: "mset (bs @ owned sel st2) = mset ((b # bs) @ owned sel st)" using s2(2) by simp
  have "distinct ((b # bs) @ owned sel st)" "length ((b # bs) @ owned sel st) \<le> cap" using Cons.prems(1) unfolding released_def by simp_all
  then have d: "distinct (bs @ owned sel st2)" "length (bs @ owned sel st2) \<le> cap"
    using mset_eq_imp_distinct_iff [OF m] mset_eq_length [OF m] by simp_all
  have "released cap q ok sel bs st2" using d s2 Cons.prems(1) by (simp add: released_def)
  moreover have "i < length (st_processors st2)" "list_all P (st_processors st2)" using Cons.prems(2,3) o1 s2(4) by (simp_all add: only_fec_def)
  ultimately obtain st' where st': "run_events f i (concat (map (\<lambda>b. delivery \<lparr>msg_data = b, msg_free = ()\<rparr>) bs)) st2 = Some st'"
      "listener_ok cap q ok sel st'" "mset (owned sel st') = mset (owned sel st2) + mset bs" "st_mem st' = st_mem st2"
      "only_fec P (st_processors st2) (st_processors st')" "max_buffer_size (st_listener st') = max_buffer_size (st_listener st2)"
    using Cons.IH by blast
  have "run_events f i (concat (map (\<lambda>b. delivery \<lparr>msg_data = b, msg_free = ()\<rparr>) (b # bs))) st = Some st'"
    using Cons.prems(2) fp(1) c(1) st'(1) by (simp add: delivery_def rd_in wr_in st1_def)
  moreover have "only_fec P (st_processors st) (st_processors st')" using o1 st'(5) s2(4) by (simp add: only_fec_def)
  ultimately show ?case using st' s2 by simp
qed

lemma unit_message: "\<lparr>msg_data = msg_data x, msg_free = ()\<rparr> = (x :: (nat, unit) message_t)"
  by (cases x) simp

lemma wake_spec:
  fixes P :: "('s, 'w) nt_fec_processor_t \<Rightarrow> bool"
  assumes f: "serves P ok f" and side: "sel = encoder \<or> sel = decoder" "oth = encoder \<or> oth = decoder"
    and selu: "\<And>w p. sel (upd w p) = w" and othu: "\<And>w p. oth (upd w p) = oth p"
    and P: "\<And>w p. P (upd w p) = P p" and ok: "listener_ok cap q ok sel st" and i: "i < length (st_processors st)" and all: "list_all P (st_processors st)"
  shows "\<exists>st'. wake sel upd f i st = Some st' \<and> listener_ok cap q ok sel st' \<and> mset (owned sel st') = mset (owned sel st) \<and> st_mem st' = st_mem st \<and>
    list_all P (st_processors st') \<and> max_buffer_size (st_listener st') = max_buffer_size (st_listener st) \<and>
    map oth (st_processors st') = map oth (st_processors st)"
proof -
  let ?ps = "st_processors st" let ?p = "?ps ! i"
  have "worker_ok q (sel ?p)" using ok i by (simp add: listener_ok_def)
  then obtain w where w: "worker_callback (sel ?p) = Some (w, concat (map delivery (pending (sel ?p))))" "worker_ok q w" "pending w = []"
    using worker_callback_spec by blast
  define bs where "bs = map msg_data (pending (sel ?p))"
  have evs: "concat (map delivery (pending (sel ?p))) = concat (map (\<lambda>b. delivery \<lparr>msg_data = b, msg_free = ()\<rparr>) bs)"
    by (simp add: bs_def comp_def unit_message)
  let ?ps1 = "?ps[i := upd w ?p]"
  define st1 where "st1 = st\<lparr>st_processors := ?ps1\<rparr>"
  have split: "mset (in_flight sel ?ps) = mset (in_flight sel ?ps1) + mset bs"
  proof -
    have ps: "?ps = take i ?ps @ ?p # drop (Suc i) ?ps" using i by (rule id_take_nth_drop)
    have "in_flight sel ?ps1 = in_flight sel (take i ?ps) @ in_flight sel (drop (Suc i) ?ps)"
      using i w(3) by (simp add: in_flight_def upd_conv_take_nth_drop selu)
    moreover have "in_flight sel ?ps = in_flight sel (take i ?ps) @ bs @ in_flight sel (drop (Suc i) ?ps)"
      by (subst ps) (simp add: in_flight_def bs_def)
    ultimately show ?thesis by simp
  qed
  then have m: "mset (bs @ owned sel st1) = mset (owned sel st)" by (simp add: st1_def)
  have sub: "set (in_flight sel ?ps) = set (in_flight sel ?ps1) \<union> set bs" using split by (metis set_mset_mset set_mset_union)
  have own: "set (owned sel st) = set bs \<union> set (owned sel st1)" using m by (metis set_append set_mset_mset)
  have d: "distinct (bs @ owned sel st1)" "length bs + length (owned sel st1) \<le> cap"
    using ok mset_eq_imp_distinct_iff [OF m] mset_eq_length [OF m] by (simp_all add: listener_ok_def)
  have "\<forall>p \<in> set ?ps1. worker_ok q (sel p)" using ok w(2) by (intro ball_set_update) (simp_all add: listener_ok_def selu)
  then have ok1: "listener_ok cap q ok sel st1" using ok d sub own by (auto simp: listener_ok_def st1_def)
  have "released cap q ok sel bs st1" using ok ok1 d own sub by (auto simp: released_def listener_ok_def st1_def)
  moreover have "list_all P (st_processors st1)" using ball_set_update [of ?ps P "upd w ?p" i] all P i by (simp add: st1_def list_all_iff)
  ultimately obtain st' where st': "run_events f i (concat (map (\<lambda>b. delivery \<lparr>msg_data = b, msg_free = ()\<rparr>) bs)) st1 = Some st'"
      "listener_ok cap q ok sel st'" "mset (owned sel st') = mset (owned sel st1) + mset bs" "st_mem st' = st_mem st1"
      "only_fec P (st_processors st1) (st_processors st')" "max_buffer_size (st_listener st') = max_buffer_size (st_listener st1)"
    using run_events_spec [OF f side(1), of cap q bs st1 i] i by (auto simp: st1_def)
  have "wake sel upd f i st = Some st'" using i w(1) st'(1) by (simp add: wake_def rd_in wr_in evs st1_def)
  moreover have "mset (owned sel st') = mset (owned sel st)" using st'(3) m by (simp add: add.commute)
  moreover have "map oth ?ps1 = map oth ?ps" using i by (metis list_update_id map_update othu)
  moreover have "map oth (st_processors st') = map oth ?ps1" using st'(5) side(2) by (auto simp: only_fec_def st1_def)
  moreover have "list_all P (st_processors st')" using st'(5) \<open>list_all P (st_processors st1)\<close> by (simp add: only_fec_def)
  ultimately show ?thesis using st'(2,4,6) by (simp add: st1_def)
qed

section \<open>The system\<close>

record ('h, 's, 'w) tunnel =
  tn_api :: "'h nt_listener_t"
  tn_api_context :: nt_fec_listener_context_t
  tn_tun :: "'h nt_listener_t"
  tn_tun_context :: nt_fec_listener_context_t
  tn_processors :: "('s, 'w) nt_fec_processor_t list"
  tn_mem :: "nat \<Rightarrow> u8 list"
  tn_world :: "perf_t \<times> 'w"

text \<open>What the threads of the two listeners, and the workers that release to their pools, work on.\<close>

definition api_state :: "('h, 's, 'w) tunnel \<Rightarrow> ('h, 's, 'w) state" where
  "api_state t = \<lparr>st_listener = tn_api t, st_context = tn_api_context t, st_processors = tn_processors t, st_mem = tn_mem t, st_world = tn_world t\<rparr>"

definition tun_state :: "('h, 's, 'w) tunnel \<Rightarrow> ('h, 's, 'w) state" where
  "tun_state t = \<lparr>st_listener = tn_tun t, st_context = tn_tun_context t, st_processors = tn_processors t, st_mem = tn_mem t, st_world = tn_world t\<rparr>"

definition set_api :: "('h, 's, 'w) tunnel \<Rightarrow> ('h, 's, 'w) state \<Rightarrow> ('h, 's, 'w) tunnel" where
  "set_api t st = t\<lparr>tn_api := st_listener st, tn_api_context := st_context st, tn_processors := st_processors st, tn_mem := st_mem st, tn_world := st_world st\<rparr>"

definition set_tun :: "('h, 's, 'w) tunnel \<Rightarrow> ('h, 's, 'w) state \<Rightarrow> ('h, 's, 'w) tunnel" where
  "set_tun t st = t\<lparr>tn_tun := st_listener st, tn_tun_context := st_context st, tn_processors := st_processors st, tn_mem := st_mem st, tn_world := st_world st\<rparr>"

datatype event = Api_readable | Tun_readable | Encoder_ready nat | Decoder_ready nat int

definition react :: "'w kernel \<Rightarrow> udp_t \<Rightarrow> udp_t \<Rightarrow> event \<Rightarrow> ('h, 's, 'w) tunnel \<Rightarrow> ('h, 's, 'w) tunnel option" where
  "react k api tun e t = (case e of
       Api_readable \<Rightarrow> map_option (set_api t) (nt_api_handle_read k api (api_state t))
     | Tun_readable \<Rightarrow> map_option (set_tun t) (nt_tun_handle_read k tun (tun_state t))
     | Encoder_ready i \<Rightarrow> map_option (set_api t) (encoder_wake k i (api_state t))
     | Decoder_ready i now \<Rightarrow> map_option (set_tun t) (decoder_wake k now i (tun_state t)))"

definition enabled :: "event \<Rightarrow> ('h, 's, 'w) tunnel \<Rightarrow> bool" where
  "enabled e t = (case e of Encoder_ready i \<Rightarrow> i < length (tn_processors t) | Decoder_ready i now \<Rightarrow> i < length (tn_processors t) | _ \<Rightarrow> True)"

text \<open>
  The states that can be reached. Between the events the world changes in any way, and so does the identifier
  that a codec takes next, because the generator is shared by all of them.
\<close>

definition renumber :: "nat \<Rightarrow> idgen_t \<Rightarrow> ('h, nt_rs_fec_t, 'w) tunnel \<Rightarrow> ('h, nt_rs_fec_t, 'w) tunnel" where
  "renumber i g t = t\<lparr>tn_processors := (tn_processors t)[i := (tn_processors t ! i)\<lparr>fec_state := (fec_state (tn_processors t ! i))\<lparr>rs_idgen := g\<rparr>\<rparr>]\<rparr>"

inductive reachable :: "'w kernel \<Rightarrow> udp_t \<Rightarrow> udp_t \<Rightarrow> ('h, nt_rs_fec_t, 'w) tunnel \<Rightarrow> ('h, nt_rs_fec_t, 'w) tunnel \<Rightarrow> bool" for k api tun t0 where
  start: "reachable k api tun t0 t0"
| react: "reachable k api tun t0 t \<Longrightarrow> enabled e t \<Longrightarrow> react k api tun e t = Some t' \<Longrightarrow> reachable k api tun t0 t'"
| outside: "reachable k api tun t0 t \<Longrightarrow> reachable k api tun t0 (t\<lparr>tn_world := (fst (tn_world t), w)\<rparr>)"
| shared: "reachable k api tun t0 t \<Longrightarrow> i < length (tn_processors t) \<Longrightarrow> reachable k api tun t0 (renumber i g t)"

text \<open>The invariant: \<open>A\<close> and \<open>U\<close> are the buffers of the two listeners.\<close>

definition tunnel_ok ::
    "nat \<Rightarrow> nat \<Rightarrow> (('s, 'w) nt_fec_processor_t \<Rightarrow> bool) \<Rightarrow> nat \<Rightarrow> nat set \<Rightarrow> nat set \<Rightarrow> ('h, 's, 'w) tunnel \<Rightarrow> bool" where
  "tunnel_ok cap q P sz A U t \<longleftrightarrow> listener_ok cap q (api_buffer sz) encoder (api_state t) \<and> listener_ok cap q tun_buffer decoder (tun_state t) \<and>
     max_buffer_size (tn_api t) = sz \<and> max_buffer_size (tn_tun t) = sz \<and>
     set (owned encoder (api_state t)) = A \<and> set (owned decoder (tun_state t)) = U \<and> A \<inter> U = {} \<and> list_all P (tn_processors t)"

lemma api_state_set [simp]: "api_state (set_api t st) = st" "tun_state (set_tun t st) = st"
  by (simp_all add: api_state_def set_api_def tun_state_def set_tun_def)

text \<open>A change of one side leaves the invariant of the other side alone.\<close>

lemma listener_frame:
  assumes ok: "listener_ok cap q ok sel st" and same: "st_listener st' = st_listener st" "st_context st' = st_context st"
    and ps: "map sel (st_processors st') = map sel (st_processors st)"
    and mem: "\<And>b. b \<in> set (owned sel st) \<Longrightarrow> st_mem st' b = st_mem st b" and perf: "nt_perf (fst (st_world st'))"
  shows "listener_ok cap q ok sel st' \<and> owned sel st' = owned sel st"
proof -
  have fl: "in_flight sel (st_processors st') = in_flight sel (st_processors st)" using ps by (simp only: in_flight_map)
  have free: "free_buffers st' = free_buffers st" using same(1) by (simp add: free_buffers_def)
  have len: "length (st_processors st') = length (st_processors st)" using ps by (metis length_map)
  have wk: "\<forall>p \<in> set (st_processors st'). worker_ok q (sel p)"
  proof
    fix p assume "p \<in> set (st_processors st')"
    then have "sel p \<in> set (map sel (st_processors st'))" by simp
    then have "sel p \<in> sel ` set (st_processors st)" unfolding ps by simp
    then show "worker_ok q (sel p)" using ok by (auto simp: listener_ok_def)
  qed
  show ?thesis using ok wk perf mem unfolding listener_ok_def fl free len same by simp
qed

section \<open>The handlers serve\<close>

lemma encode_message_queues:
  "encode_message k p m n pw = Some (p', pw') \<Longrightarrow> encoder p' = encoder p \<and> decoder p' = decoder p"
  by (auto simp: encode_message_def split: Option.bind_split_asm prod.splits)

lemma encrypt_message_queues:
  "encrypt_message k p h m pw = Some (p', pw') \<Longrightarrow> encoder p' = encoder p \<and> decoder p' = decoder p"
  by (auto simp: encrypt_message_def Let_def dest: encode_message_queues split: Option.bind_split_asm option.splits prod.splits)

lemma encoder_queues:
  "encoder_on_message k p m pw = Some (p', pw') \<Longrightarrow> encoder p' = encoder p \<and> decoder p' = decoder p"
  by (auto simp: encoder_on_message_def dest: encode_message_queues encrypt_message_queues split: Option.bind_split_asm if_splits)

lemma decoder_queues:
  "decoder_on_message k now p m pw = Some (p', pw') \<Longrightarrow> encoder p' = encoder p \<and> decoder p' = decoder p"
  by (auto simp: decoder_on_message_def split: Option.bind_split_asm prod.splits)

lemma api_buffer_mono: "api_buffer sz m \<Longrightarrow> sz \<le> D \<Longrightarrow> api_buffer D m"
  unfolding api_buffer_def using le_trans by blast

lemma encoder_serves:
  fixes k :: "'w kernel"
  assumes "whole_datagrams k" "sz \<le> D" "D + 4 < 65536"
  shows "serves (processor_ok N K D mem stack) (api_buffer sz) (encoder_on_message k)"
  unfolding serves_def
proof (intro allI impI)
  fix p :: "(nt_rs_fec_t, 'w) nt_fec_processor_t" and m perf w assume "processor_ok N K D mem stack p" "api_buffer sz m" "nt_perf perf"
  with encoder_total [OF assms(1) this(1,3) api_buffer_mono [OF this(2) assms(2)] assms(3)]
  obtain p' perf' w' where "encoder_on_message k p m (perf, w) = Some (p', perf', w')" "processor_ok N K D mem stack p'" "nt_perf perf'" by blast
  with encoder_queues [OF this(1)] show "\<exists>p' perf' w'. encoder_on_message k p m (perf, w) = Some (p', perf', w') \<and>
      processor_ok N K D mem stack p' \<and> nt_perf perf' \<and> encoder p' = encoder p \<and> decoder p' = decoder p" by blast
qed

lemma decoder_serves:
  fixes k :: "'w kernel"
  assumes "whole_datagrams k" "28 \<le> D"
  shows "serves (processor_ok N K D mem stack) tun_buffer (decoder_on_message k now)"
  unfolding serves_def
proof (intro allI impI)
  fix p :: "(nt_rs_fec_t, 'w) nt_fec_processor_t" and m perf w assume "processor_ok N K D mem stack p" "tun_buffer m" "nt_perf perf"
  with decoder_total [OF assms(1) this(1,3,2) assms(2)]
  obtain p' perf' w' where "decoder_on_message k now p m (perf, w) = Some (p', perf', w')" "processor_ok N K D mem stack p'" "nt_perf perf'" by blast
  with decoder_queues [OF this(1)] show "\<exists>p' perf' w'. decoder_on_message k now p m (perf, w) = Some (p', perf', w') \<and>
      processor_ok N K D mem stack p' \<and> nt_perf perf' \<and> encoder p' = encoder p \<and> decoder p' = decoder p" by blast
qed

lemma processor_ok_queues [simp]:
  "processor_ok N K D mem stack (p\<lparr>encoder := w\<rparr>) = processor_ok N K D mem stack p"
  "processor_ok N K D mem stack (p\<lparr>decoder := w\<rparr>) = processor_ok N K D mem stack p"
  by (simp_all add: processor_ok_def)

lemma processor_ok_but:
  "but_encoder p' = but_encoder p \<Longrightarrow> processor_ok N K D mem stack p' = processor_ok N K D mem stack p"
  "but_decoder p' = but_decoder p \<Longrightarrow> processor_ok N K D mem stack p' = processor_ok N K D mem stack p"
  by (simp_all add: processor_ok_def)

lemma list_all_but:
  assumes "map r xs = map r ys" "\<And>x y. r x = r y \<Longrightarrow> P x = P y" "list_all P ys"
  shows "list_all P xs"
proof -
  have "length xs = length ys" using assms(1) by (metis length_map)
  moreover have "r (xs ! i) = r (ys ! i)" if "i < length ys" for i using that assms(1) calculation by (metis nth_map)
  ultimately show ?thesis using assms(2,3) by (metis list_all_length)
qed

section \<open>The invariant of the system\<close>

text \<open>A handler of one side has left the state \<open>st\<close>: the buffers of its side are the same ones, and it has written to no others.\<close>

definition stays ::
    "nat \<Rightarrow> nat \<Rightarrow> (u8 list \<Rightarrow> bool) \<Rightarrow> (('s, 'w) nt_fec_processor_t \<Rightarrow> bool) \<Rightarrow> (('s, 'w) nt_fec_processor_t \<Rightarrow> (nat, unit) worker_t) \<Rightarrow>
     (('s, 'w) nt_fec_processor_t \<Rightarrow> (nat, unit) worker_t) \<Rightarrow> ('h, 's, 'w) state \<Rightarrow> ('h, 's, 'w) state \<Rightarrow> bool" where
  "stays cap q ok P sel oth st st' \<longleftrightarrow> listener_ok cap q ok sel st' \<and> set (owned sel st') = set (owned sel st) \<and>
     map oth (st_processors st') = map oth (st_processors st) \<and> list_all P (st_processors st') \<and>
     max_buffer_size (st_listener st') = max_buffer_size (st_listener st) \<and> (\<forall>x. x \<notin> set (owned sel st) \<longrightarrow> st_mem st' x = st_mem st x)"

lemma api_step:
  assumes t: "tunnel_ok cap q P sz A U t" and st: "stays cap q (api_buffer sz) P encoder decoder (api_state t) st"
  shows "tunnel_ok cap q P sz A U (set_api t st)"
proof -
  have "listener_ok cap q tun_buffer decoder (tun_state (set_api t st)) \<and> owned decoder (tun_state (set_api t st)) = owned decoder (tun_state t)"
  proof (rule listener_frame)
    fix b assume "b \<in> set (owned decoder (tun_state t))"
    then have "b \<notin> set (owned encoder (api_state t))" using t unfolding tunnel_ok_def by blast
    then show "st_mem (tun_state (set_api t st)) b = st_mem (tun_state t) b" using st by (simp add: stays_def tun_state_def api_state_def set_api_def)
  qed (use t st in \<open>simp_all add: tunnel_ok_def stays_def listener_ok_def tun_state_def api_state_def set_api_def\<close>)
  moreover have "max_buffer_size (tn_api (set_api t st)) = sz" "max_buffer_size (tn_tun (set_api t st)) = sz" "list_all P (tn_processors (set_api t st))"
    using t st by (simp_all add: tunnel_ok_def stays_def set_api_def api_state_def)
  moreover have "set (owned encoder st) = set (owned encoder (api_state t))" "listener_ok cap q (api_buffer sz) encoder st"
    using st unfolding stays_def by blast+
  ultimately show ?thesis using t unfolding tunnel_ok_def api_state_set by simp
qed

lemma tun_step:
  assumes t: "tunnel_ok cap q P sz A U t" and st: "stays cap q tun_buffer P decoder encoder (tun_state t) st"
  shows "tunnel_ok cap q P sz A U (set_tun t st)"
proof -
  have "listener_ok cap q (api_buffer sz) encoder (api_state (set_tun t st)) \<and> owned encoder (api_state (set_tun t st)) = owned encoder (api_state t)"
  proof (rule listener_frame)
    fix b assume "b \<in> set (owned encoder (api_state t))"
    then have "b \<notin> set (owned decoder (tun_state t))" using t unfolding tunnel_ok_def by blast
    then show "st_mem (api_state (set_tun t st)) b = st_mem (api_state t) b" using st by (simp add: stays_def tun_state_def api_state_def set_tun_def)
  qed (use t st in \<open>simp_all add: tunnel_ok_def stays_def listener_ok_def tun_state_def api_state_def set_tun_def\<close>)
  moreover have "max_buffer_size (tn_api (set_tun t st)) = sz" "max_buffer_size (tn_tun (set_tun t st)) = sz" "list_all P (tn_processors (set_tun t st))"
    using t st by (simp_all add: tunnel_ok_def stays_def set_tun_def tun_state_def)
  moreover have "set (owned decoder st) = set (owned decoder (tun_state t))" "listener_ok cap q tun_buffer decoder st"
    using st unfolding stays_def by blast+
  ultimately show ?thesis using t unfolding tunnel_ok_def api_state_set by simp
qed

text \<open>Every enabled event is handled, and leads to a state of the invariant again.\<close>

lemma react_ok:
  assumes k: "whole_datagrams k" "recv_bounded k" and sz: "38 \<le> sz" "sz \<le> D" "D + 4 < 65536"
    and t: "tunnel_ok cap q (processor_ok N K D mem stack) sz A U t" and e: "enabled e t"
  shows "\<exists>t'. react k api tun e t = Some t' \<and> tunnel_ok cap q (processor_ok N K D mem stack) sz A U t'"
proof -
  let ?P = "processor_ok N K D mem stack"
  have a: "listener_ok cap q (api_buffer sz) encoder (api_state t)" "max_buffer_size (st_listener (api_state t)) = sz" "list_all ?P (st_processors (api_state t))"
    and u: "listener_ok cap q tun_buffer decoder (tun_state t)" "max_buffer_size (st_listener (tun_state t)) = sz" "list_all ?P (st_processors (tun_state t))"
    using t by (simp_all add: tunnel_ok_def) (simp_all add: api_state_def tun_state_def)
  show ?thesis
  proof (cases e)
    case Api_readable
    obtain st' where st': "nt_api_handle_read k api (api_state t) = Some st'" "keeps cap q (api_buffer sz) encoder but_encoder (api_state t) st'"
      using api_read_keeps [OF k(2), of cap q "api_state t" api] a(1,2) sz(1) by auto
    have m: "map but_encoder (st_processors st') = map but_encoder (st_processors (api_state t))" using st'(2) by (simp add: keeps_def)
    have "map decoder (st_processors st') = map decoder (st_processors (api_state t))"
      using arg_cong [OF m, of "map (\<lambda>(a, d, r). d)"] by (simp add: comp_def)
    moreover have "list_all ?P (st_processors st')" using m _ a(3) by (rule list_all_but) (rule processor_ok_but)
    moreover have "set (owned encoder st') = set (owned encoder (api_state t))" using st'(2) unfolding keeps_def by (metis set_mset_mset)
    ultimately have "stays cap q (api_buffer sz) ?P encoder decoder (api_state t) st'" using st'(2) by (simp add: keeps_def stays_def)
    then show ?thesis using api_step [OF t] st'(1) Api_readable by (simp add: react_def)
  next
    case Tun_readable
    obtain st' where st': "nt_tun_handle_read k tun (tun_state t) = Some st'" "keeps cap q tun_buffer decoder but_decoder (tun_state t) st'"
      using tun_read_keeps [OF k(2) u(1), of tun] u(2) sz(1) by auto
    have m: "map but_decoder (st_processors st') = map but_decoder (st_processors (tun_state t))" using st'(2) by (simp add: keeps_def)
    have "map encoder (st_processors st') = map encoder (st_processors (tun_state t))"
      using arg_cong [OF m, of "map (\<lambda>(a, d, r). d)"] by (simp add: comp_def)
    moreover have "list_all ?P (st_processors st')" using m _ u(3) by (rule list_all_but) (rule processor_ok_but)
    moreover have "set (owned decoder st') = set (owned decoder (tun_state t))" using st'(2) unfolding keeps_def by (metis set_mset_mset)
    ultimately have "stays cap q tun_buffer ?P decoder encoder (tun_state t) st'" using st'(2) by (simp add: keeps_def stays_def)
    then show ?thesis using tun_step [OF t] st'(1) Tun_readable by (simp add: react_def)
  next
    case (Encoder_ready i)
    then have i: "i < length (st_processors (api_state t))" using e by (simp add: enabled_def api_state_def)
    obtain st' where st': "encoder_wake k i (api_state t) = Some st'" "listener_ok cap q (api_buffer sz) encoder st'"
      "mset (owned encoder st') = mset (owned encoder (api_state t))" "st_mem st' = st_mem (api_state t)" "list_all ?P (st_processors st')"
      "max_buffer_size (st_listener st') = max_buffer_size (st_listener (api_state t))" "map decoder (st_processors st') = map decoder (st_processors (api_state t))"
      using wake_spec [where oth = decoder and upd = "\<lambda>w p. p\<lparr>encoder := w\<rparr>", OF encoder_serves [OF k(1) sz(2,3), of N K mem stack] _ _ _ _ _ a(1) i a(3)]
      by (auto simp: encoder_wake_def)
    have "stays cap q (api_buffer sz) ?P encoder decoder (api_state t) st'" using st' mset_eq_setD [OF st'(3)] by (simp add: stays_def)
    then show ?thesis using api_step [OF t] st'(1) Encoder_ready by (simp add: react_def)
  next
    case (Decoder_ready i now)
    then have i: "i < length (st_processors (tun_state t))" using e by (simp add: enabled_def tun_state_def)
    have D: "28 \<le> D" using sz by simp
    obtain st' where st': "decoder_wake k now i (tun_state t) = Some st'" "listener_ok cap q tun_buffer decoder st'"
      "mset (owned decoder st') = mset (owned decoder (tun_state t))" "st_mem st' = st_mem (tun_state t)" "list_all ?P (st_processors st')"
      "max_buffer_size (st_listener st') = max_buffer_size (st_listener (tun_state t))" "map encoder (st_processors st') = map encoder (st_processors (tun_state t))"
      using wake_spec [where oth = encoder and upd = "\<lambda>w p. p\<lparr>decoder := w\<rparr>", OF decoder_serves [OF k(1) D, of N K mem stack now] _ _ _ _ _ u(1) i u(3)]
      by (auto simp: decoder_wake_def)
    have "stays cap q tun_buffer ?P decoder encoder (tun_state t) st'" using st' mset_eq_setD [OF st'(3)] by (simp add: stays_def)
    then show ?thesis using tun_step [OF t] st'(1) Decoder_ready by (simp add: react_def)
  qed
qed

lemma outside_ok: "tunnel_ok cap q P sz A U t \<Longrightarrow> tunnel_ok cap q P sz A U (t\<lparr>tn_world := (fst (tn_world t), w)\<rparr>)"
  by (simp add: tunnel_ok_def api_state_def tun_state_def listener_ok_def free_buffers_def)

lemma processor_ok_idgen:
  "processor_ok N K D mem stack (p\<lparr>fec_state := (fec_state p)\<lparr>rs_idgen := g\<rparr>\<rparr>) = processor_ok N K D mem stack p"
  by (simp add: processor_ok_def enc_ready_def rs_rep_def)

lemma renumber_ok:
  assumes t: "tunnel_ok cap q (processor_ok N K D mem stack) sz A U t" and i: "i < length (tn_processors t)"
  shows "tunnel_ok cap q (processor_ok N K D mem stack) sz A U (renumber i g t)"
proof -
  let ?P = "processor_ok N K D mem stack" let ?p = "tn_processors t ! i"
  let ?ps = "(tn_processors t)[i := ?p\<lparr>fec_state := (fec_state ?p)\<lparr>rs_idgen := g\<rparr>\<rparr>]"
  have "?P ?p" using t i by (simp add: tunnel_ok_def list_all_length)
  then have o1: "only_fec ?P (tn_processors t) ?ps" using i by (intro only_fec_update) (simp_all add: processor_ok_idgen)
  have a: "listener_ok cap q (api_buffer sz) encoder (api_state t)" and u: "listener_ok cap q tun_buffer decoder (tun_state t)" using t by (simp_all add: tunnel_ok_def)
  have "listener_ok cap q (api_buffer sz) encoder (api_state (renumber i g t)) \<and> owned encoder (api_state (renumber i g t)) = owned encoder (api_state t)"
    using a by (rule listener_frame) (use a o1 in \<open>simp_all add: listener_ok_def api_state_def renumber_def only_fec_def\<close>)
  moreover have "listener_ok cap q tun_buffer decoder (tun_state (renumber i g t)) \<and> owned decoder (tun_state (renumber i g t)) = owned decoder (tun_state t)"
    using u by (rule listener_frame) (use u o1 in \<open>simp_all add: listener_ok_def tun_state_def renumber_def only_fec_def\<close>)
  moreover have "list_all ?P ?ps" using o1 t by (simp add: only_fec_def tunnel_ok_def)
  ultimately show ?thesis using t unfolding tunnel_ok_def by (simp add: renumber_def)
qed

lemma reachable_ok:
  assumes k: "whole_datagrams k" "recv_bounded k" and sz: "38 \<le> sz" "sz \<le> D" "D + 4 < 65536"
    and t0: "tunnel_ok cap q (processor_ok N K D mem stack) sz A U t0" and r: "reachable k api tun t0 t"
  shows "tunnel_ok cap q (processor_ok N K D mem stack) sz A U t"
  using r
proof (induction rule: reachable.induct)
  case start
  show ?case by (rule t0)
next
  case (react t e t')
  then show ?case using react_ok [OF k sz react.IH react.hyps(2), of api tun] by auto
qed (simp_all only: outside_ok renumber_ok)

section \<open>Starting\<close>

text \<open>The values that \<open>main\<close> reads from its configuration.\<close>

record settings =
  cf_N :: u8
  cf_K :: u8
  max_fec_data_size :: int
  decode_buffer_num :: int
  cf_decode_timeout :: int
  cf_processor_num :: int
  mq_capacity :: nat
  max_udp_buffer_size :: nat

text \<open>What set-up finds: the results of the kernel and the contents of fresh memory, for a processor and for a listener.\<close>

record processor_env =
  pe_results :: su_results
  pe_mem :: "nat \<Rightarrow> nat"
  pe_encoder_buffers :: "nat \<Rightarrow> nat"
  pe_decoder_buffers :: "nat \<Rightarrow> nat"
  pe_messages :: "nat \<Rightarrow> (nat, unit) message_t"
  pe_timers :: "nat \<Rightarrow> (nat, nat) timer_entry_t entry_t"
  pe_words :: "nat \<Rightarrow> u32"
  pe_links :: "addr links"
  pe_kvs :: "nat \<Rightarrow> u64 \<times> nat"
  pe_contexts :: "nat \<Rightarrow> decode_buffer_t"
  pe_encode_buffer :: encode_buffer_t

record listener_env =
  le_epoll :: "int \<times> int"
  le_add :: "int \<times> int"
  le_mem :: "nat \<Rightarrow> nat"
  le_buffers :: "nat \<Rightarrow> nat"
  le_timers :: "nat \<Rightarrow> (nat, nat) timer_entry_t entry_t"
  le_callback :: nat
  le_self :: nat
  le_context :: nat

text \<open>
  The body of the loop of \<open>main\<close> over the processors, for \<open>K \<noteq> 1\<close>, and the loop: the generator of identifiers goes
  from codec to codec. The operands of the quotient are not negative; the array of processors has a positive length.
\<close>

definition init_processor ::
    "settings \<Rightarrow> processor_env \<Rightarrow> (u64, nat) junk \<Rightarrow> (nat \<Rightarrow> u8) \<Rightarrow> nt_distributor_t \<Rightarrow> udp_t \<Rightarrow> udp_t \<Rightarrow> idgen_t \<Rightarrow>
     ((nt_rs_fec_t, 'w) nt_fec_processor_t \<times> idgen_t) option" where
  "init_processor cf e junk stack dstr api tun idgen = do {
     ensure (0 \<le> decode_buffer_num cf);
     fec \<leftarrow> nt_rs_fec_init (pe_words e) junk (pe_links e) (pe_kvs e) (pe_contexts e) (pe_encode_buffer e) (cf_N cf) (cf_K cf)
       (max_fec_data_size cf) (decode_buffer_num cf div cf_processor_num cf) (cf_decode_timeout cf) idgen;
     r \<leftarrow> nt_fec_processor_init (pe_results e) (pe_mem e) (pe_encoder_buffers e) (pe_decoder_buffers e) (pe_messages e) (pe_timers e)
       (mq_capacity cf) dstr api tun (nt_rs_fec_super junk stack) fec None;
     (case r of Inl err \<Rightarrow> None | Inr p \<Rightarrow> Some (p, rs_idgen fec))
   }"

definition init_processors ::
    "settings \<Rightarrow> (nat \<Rightarrow> processor_env) \<Rightarrow> (u64, nat) junk \<Rightarrow> (nat \<Rightarrow> u8) \<Rightarrow> nt_distributor_t \<Rightarrow> udp_t \<Rightarrow> udp_t \<Rightarrow>
     ((nt_rs_fec_t, 'w) nt_fec_processor_t list \<times> idgen_t) option" where
  "init_processors cf env junk stack dstr api tun = do {
     ensure (0 < cf_processor_num cf);
     for_up 0 (nat (cf_processor_num cf)) (\<lambda>i (ps, idgen). do {
       (p, idgen) \<leftarrow> init_processor cf (env i) junk stack dstr api tun idgen;
       Some (ps @ [p], idgen)
     }) ([], idgen_init 0)
   }"

definition init_listener :: "settings \<Rightarrow> listener_env \<Rightarrow> udp_t \<Rightarrow> 'h \<Rightarrow> 'h nt_listener_t option" where
  "init_listener cf e udp handle_read = do {
     r \<leftarrow> nt_listener_init (le_epoll e) (le_add e) (le_mem e) (le_buffers e) (le_timers e) (le_callback e) (le_self e) udp
       (mq_capacity cf) (max_udp_buffer_size cf) (le_context e) (Some handle_read);
     (case r of Inl err \<Rightarrow> None | Inr l \<Rightarrow> Some l)
   }"

datatype read_handler = Api_handle_read | Tun_handle_read

text \<open>
  The listeners are started after the processors, that for the tunnel before that of the clients. \<open>fec\<close> says whether there are
  processors at all.
\<close>

definition start_listeners ::
    "settings \<Rightarrow> bool \<Rightarrow> listener_env \<Rightarrow> listener_env \<Rightarrow> (nat \<Rightarrow> u8 list) \<Rightarrow> nt_forwarder_t option \<Rightarrow> udp_t \<Rightarrow> udp_t \<Rightarrow> perf_t \<Rightarrow>
     ('s, 'w) nt_fec_processor_t list \<Rightarrow> 'w \<Rightarrow> (read_handler, 's, 'w) tunnel option" where
  "start_listeners cf fec tenv aenv mem forwarder api tun perf ps w = do {
     let tun_context = nt_fec_listener_context_init fec (cf_processor_num cf) forwarder;
     tun_listener \<leftarrow> init_listener cf tenv tun Tun_handle_read;
     let api_context = nt_fec_listener_context_init fec (cf_processor_num cf) forwarder;
     api_listener \<leftarrow> init_listener cf aenv api Api_handle_read;
     Some \<lparr>tn_api = api_listener, tn_api_context = api_context, tn_tun = tun_listener, tn_tun_context = tun_context,
        tn_processors = ps, tn_mem = mem, tn_world = (perf, w)\<rparr>
   }"

definition start_tunnel ::
    "settings \<Rightarrow> (nat \<Rightarrow> processor_env) \<Rightarrow> listener_env \<Rightarrow> listener_env \<Rightarrow> (u8 list, nat) junk \<Rightarrow> (nat \<Rightarrow> u64) \<Rightarrow> (u64, nat) junk \<Rightarrow> (nat \<Rightarrow> u8) \<Rightarrow>
     (nat \<Rightarrow> u8 list) \<Rightarrow> nt_distributor_t \<Rightarrow> nt_forwarder_t option \<Rightarrow> udp_t \<Rightarrow> udp_t \<Rightarrow> 'w \<Rightarrow> (read_handler, nt_rs_fec_t, 'w) tunnel option" where
  "start_tunnel cf penv tenv aenv counter cell junk stack mem dstr forwarder api tun w = do {
     perf \<leftarrow> perf_init counter cell nt_counter_names nt_counter_num;
     (ps, idgen) \<leftarrow> init_processors cf penv junk stack dstr api tun;
     start_listeners cf True tenv aenv mem forwarder api tun perf ps w
   }"

text \<open>The kernel grants what set-up asks for; fresh buffers do not overlap and have their size.\<close>

definition processor_env_ok :: "nat \<Rightarrow> processor_env \<Rightarrow> bool" where
  "processor_env_ok cap e \<longleftrightarrow> 0 \<le> fst (su_encoder (pe_results e)) \<and> 0 \<le> fst (su_decoder (pe_results e)) \<and> 0 \<le> fst (su_epoll (pe_results e)) \<and>
     fst (su_add1 (pe_results e)) = 0 \<and> fst (su_add2 (pe_results e)) = 0 \<and> inj_on (pe_encoder_buffers e) {..<cap} \<and> inj_on (pe_decoder_buffers e) {..<cap}"

definition listener_env_ok :: "nat \<Rightarrow> nat \<Rightarrow> (nat \<Rightarrow> u8 list) \<Rightarrow> listener_env \<Rightarrow> bool" where
  "listener_env_ok cap sz mem e \<longleftrightarrow> 0 \<le> fst (le_epoll e) \<and> fst (le_add e) = 0 \<and> inj_on (le_buffers e) {..<cap} \<and>
     (\<forall>i < cap. length (mem (le_buffers e i + pool_header)) = sz)"

definition buffers_of :: "settings \<Rightarrow> listener_env \<Rightarrow> nat set" where
  "buffers_of cf e = (\<lambda>i. le_buffers e i + pool_header) ` {..<mq_capacity cf}"

definition settings_ok :: "nat \<Rightarrow> nat \<Rightarrow> nat \<Rightarrow> settings \<Rightarrow> bool" where
  "settings_ok N K D cf \<longleftrightarrow> cf_N cf = of_nat N \<and> cf_K cf = of_nat K \<and> 1 < K \<and> K < N \<and> N \<le> 31 \<and> max_fec_data_size cf = int D \<and>
     D + 4 < 65536 \<and> (D + 4) * (N - K) < 2 ^ 31 \<and> 0 < cf_processor_num cf \<and> cf_processor_num cf < 2 ^ 31 \<and>
     2 * cf_processor_num cf \<le> decode_buffer_num cf \<and> decode_buffer_num cf < 2 ^ 31 \<and> 0 < mq_capacity cf \<and> mq_capacity cf < 2 ^ 31 \<and>
     38 \<le> max_udp_buffer_size cf \<and> max_udp_buffer_size cf \<le> D"

definition fresh_processor :: "nat \<Rightarrow> ('s, 'w) nt_fec_processor_t \<Rightarrow> bool" where
  "fresh_processor q p \<longleftrightarrow> worker_ok q (encoder p) \<and> pending (encoder p) = [] \<and> worker_ok q (decoder p) \<and> pending (decoder p) = []"

lemma share_bounds:
  assumes "settings_ok N K D cf"
  obtains n where "decode_buffer_num cf div cf_processor_num cf = int n" "2 \<le> n" "n < 2 ^ 31"
proof -
  let ?q = "decode_buffer_num cf div cf_processor_num cf"
  have num: "0 < cf_processor_num cf" "2 * cf_processor_num cf \<le> decode_buffer_num cf" "decode_buffer_num cf < 2 ^ 31" using assms by (simp_all add: settings_ok_def)
  have "2 \<le> ?q" using zdiv_mono1 [OF num(2,1)] num(1) by simp
  moreover have "?q \<le> decode_buffer_num cf" using num zdiv_mono2 [of "decode_buffer_num cf" 1 "cf_processor_num cf"] by simp
  ultimately show thesis using num(3) by (intro that [of "nat ?q"]) (simp_all add: nat_less_iff)
qed

lemma init_processor_ok:
  assumes cf: "settings_ok N K D cf" and env: "processor_env_ok (mq_capacity cf) e" and d: "distributor_ok dstr"
  shows "\<exists>p g. init_processor cf e junk stack dstr api tun idgen = Some (p :: (nt_rs_fec_t, 'w) nt_fec_processor_t, g) \<and>
    processor_ok N K D junk stack p \<and> fresh_processor (mq_capacity cf) p \<and> distributor p = dstr"
proof -
  obtain n where n: "decode_buffer_num cf div cf_processor_num cf = int n" "2 \<le> n" "n < 2 ^ 31" using share_bounds [OF cf] by blast
  have NK: "0 < K" "K < N" "N \<le> 31" "(D + 4) * (N - K) < 2 ^ 31" and mq: "mq_capacity cf < 2 ^ 31" using cf by (auto simp: settings_ok_def)
  obtain fec where fec: "nt_rs_fec_init (pe_words e) junk (pe_links e) (pe_kvs e) (pe_contexts e) (pe_encode_buffer e) (of_nat N) (of_nat K)
      (int D) (int n) (cf_decode_timeout cf) idgen = Some fec" "rs_rep N K D fec (fresh_slots (\<lambda>_. []) n)" "enc_inv N K D fec (idgen_id idgen) []"
    using rs_fec_init_spec [OF NK n(2,3)] by blast
  obtain p :: "(nt_rs_fec_t, 'w) nt_fec_processor_t" where p:
    "nt_fec_processor_init (pe_results e) (pe_mem e) (pe_encoder_buffers e) (pe_decoder_buffers e) (pe_messages e) (pe_timers e)
       (mq_capacity cf) dstr api tun (nt_rs_fec_super junk stack) fec None = Some (Inr p)" "fresh_processor (mq_capacity cf) p"
    "distributor p = dstr" "np_fec p = nt_rs_fec_super junk stack" "fec_state p = fec" "encryptor p = None"
    using processor_init_ok [OF mq, of "pe_encoder_buffers e" "pe_decoder_buffers e" "pe_results e" "pe_mem e" "pe_messages e" "pe_timers e" dstr api tun
      "nt_rs_fec_super junk stack" fec None] env unfolding processor_env_ok_def fresh_processor_def by auto
  have "enc_ready N K D fec" using fec(3) unfolding enc_inv_def enc_ready_def by blast
  then have "processor_ok N K D junk stack p" using p fec(2) d by (auto simp: processor_ok_def)
  then show ?thesis using p(1-3) fec(1) cf by (simp add: init_processor_def settings_ok_def n(1))
qed

lemma init_processors_ok:
  assumes cf: "settings_ok N K D cf" and env: "\<forall>i. processor_env_ok (mq_capacity cf) (env i)" and d: "distributor_ok dstr"
  shows "\<exists>ps g. init_processors cf env junk stack dstr api tun = Some (ps :: (nt_rs_fec_t, 'w) nt_fec_processor_t list, g) \<and>
    length ps = nat (cf_processor_num cf) \<and> (\<forall>p \<in> set ps. processor_ok N K D junk stack p \<and> fresh_processor (mq_capacity cf) p \<and> distributor p = dstr)"
proof -
  let ?Q = "\<lambda>p :: (nt_rs_fec_t, 'w) nt_fec_processor_t. processor_ok N K D junk stack p \<and> fresh_processor (mq_capacity cf) p \<and> distributor p = dstr"
  let ?f = "\<lambda>i (ps, idgen). do { (p :: (nt_rs_fec_t, 'w) nt_fec_processor_t, idgen) \<leftarrow> init_processor cf (env i) junk stack dstr api tun idgen; Some (ps @ [p], idgen) }"
  have "\<exists>s. for_up 0 (nat (cf_processor_num cf)) ?f ([], idgen_init 0) = Some s \<and> length (fst s) = nat (cf_processor_num cf) \<and> (\<forall>p \<in> set (fst s). ?Q p)"
  proof (rule for_up_rule [where P = "\<lambda>i s. length (fst s) = i \<and> (\<forall>p \<in> set (fst s). ?Q p)"])
    fix i and s :: "(nt_rs_fec_t, 'w) nt_fec_processor_t list \<times> idgen_t" assume s: "length (fst s) = i \<and> (\<forall>p \<in> set (fst s). ?Q p)"
    obtain p g where "init_processor cf (env i) junk stack dstr api tun (snd s) = Some (p, g)" "?Q p"
      using init_processor_ok [OF cf spec [OF env] d, of i junk stack api tun "snd s"] by blast
    then show "\<exists>s'. ?f i s = Some s' \<and> length (fst s') = Suc i \<and> (\<forall>p \<in> set (fst s'). ?Q p)"
      using s by (cases s) auto
  qed simp_all
  then show ?thesis using cf by (auto simp: init_processors_def settings_ok_def)
qed

lemma init_listener_ok:
  assumes cf: "settings_ok N K D cf" and env: "listener_env_ok (mq_capacity cf) (max_udp_buffer_size cf) mem e"
    and ps: "\<forall>p \<in> set ps. worker_ok (mq_capacity cf) (sel p) \<and> pending (sel p) = []" "length ps = nat (cf_processor_num cf)" and perf: "nt_perf perf"
  shows "\<exists>l. init_listener cf e udp h = Some l \<and> max_buffer_size l = max_udp_buffer_size cf \<and>
    (\<forall>st. st = \<lparr>st_listener = l, st_context = nt_fec_listener_context_init True (cf_processor_num cf) fwd, st_processors = ps, st_mem = mem, st_world = (perf, w)\<rparr> \<longrightarrow>
      listener_ok (mq_capacity cf) (mq_capacity cf) ok sel st \<and> owned sel st = map (\<lambda>i. le_buffers e i + pool_header) [0..<mq_capacity cf])"
proof -
  have cap: "0 < mq_capacity cf" "mq_capacity cf < 2 ^ 31" and e: "inj_on (le_buffers e) {..<mq_capacity cf}" "0 \<le> fst (le_epoll e)" "fst (le_add e) = 0"
    and mem: "\<forall>i < mq_capacity cf. length (mem (le_buffers e i + pool_header)) = max_udp_buffer_size cf"
    using cf env by (simp_all add: settings_ok_def listener_env_ok_def)
  obtain l p where l: "nt_listener_init (le_epoll e) (le_add e) (le_mem e) (le_buffers e) (le_timers e) (le_callback e) (le_self e) udp
       (mq_capacity cf) (max_udp_buffer_size cf) (le_context e) (Some h) = Some (Inr l)" "li_pool l = Some p" "pool_ok (mq_capacity cf) p"
    "pool_list p = map (le_buffers e) [0..<mq_capacity cf]" "max_buffer_size l = max_udp_buffer_size cf"
    using listener_init_ok [OF cap e] by blast
  have c: "context_ok (nt_fec_listener_context_init True (cf_processor_num cf) fwd) (length ps)"
    using cf ps(2) by (simp add: context_ok_def nt_fec_listener_context_init_def settings_ok_def nat_less_iff)
  have "listener_ok (mq_capacity cf) (mq_capacity cf) ok sel
      \<lparr>st_listener = l, st_context = nt_fec_listener_context_init True (cf_processor_num cf) fwd, st_processors = ps, st_mem = mem, st_world = (perf, w)\<rparr>"
    using mem l(5) by (intro fresh_listener_ok [OF l(2-4) e(1) ps(1) perf c]) simp
  moreover have "in_flight sel ps = []" using ps(1) by (simp add: in_flight_empty)
  ultimately show ?thesis using l by (auto simp: init_listener_def free_buffers_def comp_def)
qed

lemma start_tunnel_ok:
  fixes w :: 'w
  assumes cf: "settings_ok N K D cf" and penv: "\<forall>i. processor_env_ok (mq_capacity cf) (penv i)" and d: "distributor_ok dstr"
    and env: "listener_env_ok (mq_capacity cf) (max_udp_buffer_size cf) mem tenv" "listener_env_ok (mq_capacity cf) (max_udp_buffer_size cf) mem aenv"
    and apart: "le_buffers tenv ` {..<mq_capacity cf} \<inter> le_buffers aenv ` {..<mq_capacity cf} = {}"
  shows "\<exists>t. start_tunnel cf penv tenv aenv counter cell junk stack mem dstr forwarder api tun w = Some t \<and>
    tunnel_ok (mq_capacity cf) (mq_capacity cf) (processor_ok N K D junk stack) (max_udp_buffer_size cf) (buffers_of cf aenv) (buffers_of cf tenv) t \<and>
    length (tn_processors t) = nat (cf_processor_num cf) \<and> (\<forall>p \<in> set (tn_processors t). distributor p = dstr)"
proof -
  let ?q = "mq_capacity cf" let ?c = "nt_fec_listener_context_init True (cf_processor_num cf) forwarder"
  obtain perf where perf: "perf_init counter cell nt_counter_names nt_counter_num = Some perf" "nt_perf perf" using nt_perf_init [of counter cell] by blast
  obtain ps :: "(nt_rs_fec_t, 'w) nt_fec_processor_t list" and g where ps: "init_processors cf penv junk stack dstr api tun = Some (ps, g)" "length ps = nat (cf_processor_num cf)"
    "\<forall>p \<in> set ps. processor_ok N K D junk stack p \<and> fresh_processor ?q p \<and> distributor p = dstr" using init_processors_ok [OF cf penv d] by blast
  have e: "\<forall>p \<in> set ps. worker_ok ?q (encoder p) \<and> pending (encoder p) = []" and dd: "\<forall>p \<in> set ps. worker_ok ?q (decoder p) \<and> pending (decoder p) = []"
    using ps(3) by (simp_all add: fresh_processor_def)
  obtain lt where lt: "init_listener cf tenv tun Tun_handle_read = Some lt" "max_buffer_size lt = max_udp_buffer_size cf"
    "\<forall>st. st = \<lparr>st_listener = lt, st_context = ?c, st_processors = ps, st_mem = mem, st_world = (perf, w)\<rparr> \<longrightarrow>
      listener_ok ?q ?q tun_buffer decoder st \<and> owned decoder st = map (\<lambda>i. le_buffers tenv i + pool_header) [0..<?q]"
    using init_listener_ok [OF cf env(1) dd ps(2) perf(2), of tun Tun_handle_read forwarder w tun_buffer] by (elim exE conjE)
  obtain la where la: "init_listener cf aenv api Api_handle_read = Some la" "max_buffer_size la = max_udp_buffer_size cf"
    "\<forall>st. st = \<lparr>st_listener = la, st_context = ?c, st_processors = ps, st_mem = mem, st_world = (perf, w)\<rparr> \<longrightarrow>
      listener_ok ?q ?q (api_buffer (max_udp_buffer_size cf)) encoder st \<and> owned encoder st = map (\<lambda>i. le_buffers aenv i + pool_header) [0..<?q]"
    using init_listener_ok [OF cf env(2) e ps(2) perf(2), of api Api_handle_read forwarder w "api_buffer (max_udp_buffer_size cf)"] by (elim exE conjE)
  define t where "t = \<lparr>tn_api = la, tn_api_context = ?c, tn_tun = lt, tn_tun_context = ?c, tn_processors = ps, tn_mem = mem, tn_world = (perf, w)\<rparr>"
  have t: "api_state t = \<lparr>st_listener = la, st_context = ?c, st_processors = ps, st_mem = mem, st_world = (perf, w)\<rparr>"
    "tun_state t = \<lparr>st_listener = lt, st_context = ?c, st_processors = ps, st_mem = mem, st_world = (perf, w)\<rparr>"
    by (simp_all add: api_state_def tun_state_def t_def)
  have a: "listener_ok ?q ?q (api_buffer (max_udp_buffer_size cf)) encoder (api_state t)" "owned encoder (api_state t) = map (\<lambda>i. le_buffers aenv i + pool_header) [0..<?q]"
    using la(3) t(1) by blast+
  have u: "listener_ok ?q ?q tun_buffer decoder (tun_state t)" "owned decoder (tun_state t) = map (\<lambda>i. le_buffers tenv i + pool_header) [0..<?q]"
    using lt(3) t(2) by blast+
  have "set (owned encoder (api_state t)) = buffers_of cf aenv" "set (owned decoder (tun_state t)) = buffers_of cf tenv"
    unfolding a(2) u(2) by (simp_all add: buffers_of_def atLeast0LessThan)
  moreover have "buffers_of cf aenv \<inter> buffers_of cf tenv = {}" using apart by (fastforce simp: disjoint_iff buffers_of_def)
  moreover have "list_all (processor_ok N K D junk stack) (tn_processors t)" "max_buffer_size (tn_api t) = max_udp_buffer_size cf" "max_buffer_size (tn_tun t) = max_udp_buffer_size cf"
    using ps(3) la(2) lt(2) by (simp_all add: t_def list_all_iff)
  ultimately have "tunnel_ok ?q ?q (processor_ok N K D junk stack) (max_udp_buffer_size cf) (buffers_of cf aenv) (buffers_of cf tenv) t"
    using a(1) u(1) unfolding tunnel_ok_def by blast
  moreover have "start_tunnel cf penv tenv aenv counter cell junk stack mem dstr forwarder api tun w = Some t"
    using perf(1) ps(1) lt(1) la(1) by (simp add: start_tunnel_def start_listeners_def t_def)
  moreover have "length (tn_processors t) = nat (cf_processor_num cf) \<and> (\<forall>p \<in> set (tn_processors t). distributor p = dstr)" using ps(2,3) by (simp add: t_def)
  ultimately show ?thesis by blast
qed

section \<open>Properties\<close>

text \<open>
  C2. The tunnel never aborts. Started with valid settings, which demand that a buffer of the listeners is not larger
  than what the codec takes, the tunnel gets through every sequence of calls of its handlers: in every state it
  can reach, whatever datagrams arrive at whatever times and whichever thread calls a handler next, each of the
  two read handlers and each wake-up of each worker returns. No \<open>ensure\<close> fails, no array is left, no buffer
  is lost or owned twice. Between the handlers the kernel and the shared generator of identifiers may change in any way.
\<close>

theorem tunnel_never_aborts:
  fixes k :: "'w kernel" and w :: 'w
  assumes cf: "settings_ok N K D cf" and penv: "\<forall>i. processor_env_ok (mq_capacity cf) (penv i)" and d: "distributor_ok dstr"
    and env: "listener_env_ok (mq_capacity cf) (max_udp_buffer_size cf) mem tenv" "listener_env_ok (mq_capacity cf) (max_udp_buffer_size cf) mem aenv"
    and apart: "le_buffers tenv ` {..<mq_capacity cf} \<inter> le_buffers aenv ` {..<mq_capacity cf} = {}"
    and k: "whole_datagrams k" "recv_bounded k"
  shows "\<exists>t. start_tunnel cf penv tenv aenv counter cell junk stack mem dstr forwarder api tun w = Some t \<and>
    (\<forall>t'. reachable k api tun t t' \<longrightarrow> (\<forall>e. enabled e t' \<longrightarrow> (\<exists>t''. react k api tun e t' = Some t'')) \<and>
      distinct (owned encoder (api_state t') @ owned decoder (tun_state t')) \<and>
      set (owned encoder (api_state t')) = buffers_of cf aenv \<and> set (owned decoder (tun_state t')) = buffers_of cf tenv)"
proof -
  obtain t where t: "start_tunnel cf penv tenv aenv counter cell junk stack mem dstr forwarder api tun w = Some t"
    "tunnel_ok (mq_capacity cf) (mq_capacity cf) (processor_ok N K D junk stack) (max_udp_buffer_size cf) (buffers_of cf aenv) (buffers_of cf tenv) t"
    using start_tunnel_ok [OF cf penv d env apart, of counter cell junk stack forwarder api tun w] by (elim exE conjE)
  have sz: "38 \<le> max_udp_buffer_size cf" "max_udp_buffer_size cf \<le> D" "D + 4 < 65536" using cf by (simp_all add: settings_ok_def)
  have "(\<forall>e. enabled e t' \<longrightarrow> (\<exists>t''. react k api tun e t' = Some t'')) \<and> distinct (owned encoder (api_state t') @ owned decoder (tun_state t')) \<and>
      set (owned encoder (api_state t')) = buffers_of cf aenv \<and> set (owned decoder (tun_state t')) = buffers_of cf tenv"
    if "reachable k api tun t t'" for t'
  proof -
    note t' = reachable_ok [OF k sz t(2) that]
    have "distinct (owned encoder (api_state t'))" "distinct (owned decoder (tun_state t'))" "set (owned encoder (api_state t')) = buffers_of cf aenv"
      "set (owned decoder (tun_state t')) = buffers_of cf tenv" "buffers_of cf aenv \<inter> buffers_of cf tenv = {}"
      using t' unfolding tunnel_ok_def listener_ok_def by blast+
    moreover have "\<forall>e. enabled e t' \<longrightarrow> (\<exists>t''. react k api tun e t' = Some t'')" using react_ok [OF k sz t'] by blast
    ultimately show ?thesis unfolding distinct_append by simp
  qed
  then show ?thesis using t(1) by blast
qed

definition small_settings :: settings where
  "small_settings = \<lparr>cf_N = 3, cf_K = 2, max_fec_data_size = 60, decode_buffer_num = 4, cf_decode_timeout = 100, cf_processor_num = 2,
     mq_capacity = 3, max_udp_buffer_size = 50\<rparr>"

definition plain_processor_env :: processor_env where
  "plain_processor_env = \<lparr>pe_results = all_fine, pe_mem = id, pe_encoder_buffers = far_apart, pe_decoder_buffers = far_apart,
     pe_messages = (\<lambda>_. \<lparr>msg_data = 9, msg_free = ()\<rparr>), pe_timers = (\<lambda>_. some_timer), pe_words = (\<lambda>_. 9), pe_links = (\<lambda>_. \<lparr>prev = None, next = None\<rparr>),
     pe_kvs = (\<lambda>_. (3, 4)), pe_contexts = (\<lambda>_. some_dc), pe_encode_buffer = some_ec\<rparr>"

definition plain_listener_env :: "nat \<Rightarrow> listener_env" where
  "plain_listener_env base = \<lparr>le_epoll = (6, 0), le_add = (0, 0), le_mem = id, le_buffers = (\<lambda>i. base + far_apart i), le_timers = (\<lambda>_. some_timer),
     le_callback = 1, le_self = 2, le_context = 3\<rparr>"

theorem tunnel_never_aborts_witness:
  "\<exists>t t'. start_tunnel small_settings (\<lambda>_. plain_processor_env) (plain_listener_env 0) (plain_listener_env 500) some_counter (\<lambda>_. 5) no_entry (\<lambda>_. 1)
      (\<lambda>_. replicate 50 0) two_paths None \<lparr>udp_fd = 7\<rparr> \<lparr>udp_fd = 8\<rparr> [replicate 20 1] = Some t \<and>
    react (loopback (Addr_in 9 9)) \<lparr>udp_fd = 7\<rparr> \<lparr>udp_fd = 8\<rparr> Api_readable t = Some t'"
proof -
  have cf: "settings_ok 3 2 60 small_settings" by (simp add: settings_ok_def small_settings_def)
  have p: "\<forall>i :: nat. processor_env_ok (mq_capacity small_settings) plain_processor_env"
    by (simp add: processor_env_ok_def plain_processor_env_def all_fine_def small_settings_def inj_on_def far_apart_def)
  have l: "listener_env_ok (mq_capacity small_settings) (max_udp_buffer_size small_settings) (\<lambda>_. replicate 50 0) (plain_listener_env b)" for b
    by (simp add: listener_env_ok_def plain_listener_env_def small_settings_def inj_on_def far_apart_def)
  have a: "le_buffers (plain_listener_env 0) ` {..<mq_capacity small_settings} \<inter> le_buffers (plain_listener_env 500) ` {..<mq_capacity small_settings} = {}"
    by (simp add: plain_listener_env_def small_settings_def far_apart_def numeral_3_eq_3 lessThan_Suc)
  from tunnel_never_aborts [OF cf p two_paths_ok(1) l l a, of "loopback (Addr_in 9 9)" some_counter "\<lambda>_. 5" no_entry "\<lambda>_. 1" None "\<lparr>udp_fd = 7\<rparr>" "\<lparr>udp_fd = 8\<rparr>" "[replicate 20 1]"]
  obtain t where t: "start_tunnel small_settings (\<lambda>_. plain_processor_env) (plain_listener_env 0) (plain_listener_env 500) some_counter (\<lambda>_. 5) no_entry (\<lambda>_. 1)
      (\<lambda>_. replicate 50 0) two_paths None \<lparr>udp_fd = 7\<rparr> \<lparr>udp_fd = 8\<rparr> [replicate 20 1] = Some t"
    and all: "\<forall>t'. reachable (loopback (Addr_in 9 9)) \<lparr>udp_fd = 7\<rparr> \<lparr>udp_fd = 8\<rparr> t t' \<longrightarrow>
      (\<forall>e. enabled e t' \<longrightarrow> (\<exists>t''. react (loopback (Addr_in 9 9)) \<lparr>udp_fd = 7\<rparr> \<lparr>udp_fd = 8\<rparr> e t' = Some t''))" by auto
  have en: "enabled Api_readable t''" for t'' :: "(read_handler, nt_rs_fec_t, u8 list list) tunnel" by (simp add: enabled_def)
  obtain t' where "react (loopback (Addr_in 9 9)) \<lparr>udp_fd = 7\<rparr> \<lparr>udp_fd = 8\<rparr> Api_readable t = Some t'" using all reachable.start en by blast
  then show ?thesis using t by blast
qed

end
