(* ===== verification/Nt_Main.thy ===== *)
theory Nt_Main
  imports Nt_Reporter Nt_Tunnel Nt_Echo
begin

text \<open>
  The program of the tunnel from its command line on: \<open>main\<close> of \<^verbatim>\<open>src/src/main/tunnel/main.c\<close> reads a file of settings,
  opens the sockets and starts processors, listeners, the reporter and the echo service. What the start finds is one record: the
  results of the kernel, the contents of fresh memory and those of the local variables that a failed call leaves unset.
\<close>

section \<open>Values of the configuration\<close>

text \<open>\<open>atoi\<close>; its result is defined for numbers of type \<open>int\<close> only, and \<open>NULL\<close> is no string.\<close>

definition atoi :: "cstring option \<Rightarrow> int option" where
  "atoi s = do {
     s \<leftarrow> s;
     case scan_int s of None \<Rightarrow> Some 0 | Some (v, s) \<Rightarrow> do { ensure (- (2 ^ 31) \<le> v \<and> v < 2 ^ 31); Some v }
   }"

definition PRIORITY_NAMES :: "cstring list" where
  "PRIORITY_NAMES = [str ''ERROR'', str ''WARNING'', str ''INFO'', str ''DEBUG'', str ''ALL'']"

text \<open>The first index with the name; there is no other return from the function.\<close>

definition log_parse_priority :: "cstring option \<Rightarrow> nat option" where
  "log_parse_priority s = do { s \<leftarrow> s; find (\<lambda>i. PRIORITY_NAMES ! i = s) [0..<length PRIORITY_NAMES] }"

definition int_setting :: "config_t \<Rightarrow> cstring \<Rightarrow> int option" where
  "int_setting c key = do { v \<leftarrow> config_get c key; atoi v }"

definition bool_setting :: "config_t \<Rightarrow> cstring \<Rightarrow> cstring \<Rightarrow> bool option" where
  "bool_setting c key d = do { v \<leftarrow> config_get_default c key (Some d); s \<leftarrow> v; str2bool s }"

text \<open>The result of \<open>parse_address\<close> is not looked at: an address that cannot be read stays as it is.\<close>

definition address_setting :: "resolver \<Rightarrow> address_t \<Rightarrow> config_t \<Rightarrow> cstring \<Rightarrow> address_t option" where
  "address_setting resolve a c key = do { v \<leftarrow> config_get c key; s \<leftarrow> v; Some (snd (parse_address resolve a s)) }"

text \<open>A conversion of \<open>int\<close> to \<open>size_t\<close>.\<close>

definition to_size :: "int \<Rightarrow> nat" where
  "to_size v = unat (word_of_int v :: u64)"

definition MAX_PATH_NUM :: int where "MAX_PATH_NUM = 32"
definition MAX_SEQ_NUM :: int where "MAX_SEQ_NUM = 256"
definition MAX_DUP_NUM :: int where "MAX_DUP_NUM = 16"

record main_config =
  mc_priority :: nat
  mc_settings :: settings
  mc_api_local :: address_t
  mc_tun_local :: address_t
  mc_reporter_local :: address_t
  mc_echo_local :: "address_t option"
  mc_enable_fec :: bool
  mc_paths :: "nt_path_t list"
  mc_path_num :: int
  mc_table :: "int list"
  mc_direct_path :: "nt_path_t option"
  mc_ka :: "(cstring option \<times> int \<times> cstring option) option"

text \<open>Local variables before they are written.\<close>

record main_stack =
  ms_address :: address_t
  ms_path :: nt_path_t
  ms_paths :: "nat \<Rightarrow> nt_path_t"
  ms_table :: "nat \<Rightarrow> int"
  ms_udp :: udp_t
  ms_distributor :: nt_distributor_t

text \<open>The paths and the table are read when error correction is enabled.\<close>

definition read_routes :: "resolver \<Rightarrow> main_stack \<Rightarrow> config_t \<Rightarrow> bool \<Rightarrow> (nt_path_t list \<times> int \<times> int list) option" where
  "read_routes resolve stk c enable_fec = do {
     let paths = map (ms_paths stk) [0..<nat MAX_PATH_NUM];
     let table = map (ms_table stk) [0..<nat (MAX_SEQ_NUM * MAX_DUP_NUM)];
     if enable_fec then do {
       v \<leftarrow> config_get c (str ''paths'');
       s \<leftarrow> v;
       (paths, path_num, rest) \<leftarrow> parse_paths resolve paths MAX_PATH_NUM s;
       v \<leftarrow> config_get c (str ''seq2addr'');
       s \<leftarrow> v;
       (table, rest) \<leftarrow> parse_seq2addr table MAX_SEQ_NUM MAX_DUP_NUM s;
       Some (paths, path_num, table)
     } else Some (paths, MAX_PATH_NUM, table)
   }"

definition read_ka :: "config_t \<Rightarrow> (cstring option \<times> int \<times> cstring option) option option" where
  "read_ka c = do {
     enable_encrypt \<leftarrow> bool_setting c (str ''enable_encrypt'') (str ''true'');
     if enable_encrypt then do {
       ka_host \<leftarrow> config_get c (str ''ka_host'');
       ka_port \<leftarrow> int_setting c (str ''ka_port'');
       ka_sid \<leftarrow> config_get c (str ''ka_sid'');
       Some (Some (ka_host, ka_port, ka_sid))
     } else Some None
   }"

definition read_config :: "resolver \<Rightarrow> main_stack \<Rightarrow> config_t \<Rightarrow> main_config option" where
  "read_config resolve stk c = do {
     v \<leftarrow> config_get_default c (str ''log_priority'') (Some (str ''ALL''));
     priority \<leftarrow> log_parse_priority v;
     N \<leftarrow> int_setting c (str ''N'');
     K \<leftarrow> int_setting c (str ''K'');
     fec_data_size \<leftarrow> int_setting c (str ''max_fec_data_size'');
     buffer_num \<leftarrow> int_setting c (str ''decode_buffer_num'');
     v \<leftarrow> config_get_default c (str ''decode_timeout'') (Some (str ''2000''));
     timeout \<leftarrow> atoi v;
     udp_buffer_size \<leftarrow> int_setting c (str ''max_udp_buffer_size'');
     api_local \<leftarrow> address_setting resolve (ms_address stk) c (str ''api_local'');
     tun_local \<leftarrow> address_setting resolve (ms_address stk) c (str ''tun_local'');
     reporter_local \<leftarrow> address_setting resolve (ms_address stk) c (str ''reporter_local'');
     v \<leftarrow> config_get c (str ''echo_local'');
     let echo_local = map_option (\<lambda>s. snd (parse_address resolve (ms_address stk) s)) v;
     enable_fec \<leftarrow> bool_setting c (str ''enable_fec'') (str ''true'');
     enable_direct \<leftarrow> bool_setting c (str ''enable_direct'') (str ''false'');
     (paths, path_num, table) \<leftarrow> read_routes resolve stk c enable_fec;
     direct_path \<leftarrow> (if enable_direct then do {
         v \<leftarrow> config_get c (str ''direct_path'');
         s \<leftarrow> v;
         Some (Some (snd (parse_path resolve (ms_path stk) s)))
       } else Some None);
     ka \<leftarrow> read_ka c;
     processors \<leftarrow> int_setting c (str ''processor_num'');
     mq \<leftarrow> int_setting c (str ''mq_capacity'');
     Some \<lparr>mc_priority = priority,
       mc_settings = \<lparr>cf_N = word_of_int N, cf_K = word_of_int K, max_fec_data_size = fec_data_size, decode_buffer_num = buffer_num,
         cf_decode_timeout = timeout, cf_processor_num = processors, mq_capacity = to_size mq, max_udp_buffer_size = to_size udp_buffer_size\<rparr>,
       mc_api_local = api_local, mc_tun_local = tun_local, mc_reporter_local = reporter_local, mc_echo_local = echo_local,
       mc_enable_fec = enable_fec, mc_paths = paths, mc_path_num = path_num, mc_table = table, mc_direct_path = direct_path, mc_ka = ka\<rparr>
   }"

section \<open>The start\<close>

text \<open>The processors for \<open>K = 1\<close>; their decoders only remember what has arrived.\<close>

definition init_dup_processor ::
    "settings \<Rightarrow> processor_env \<Rightarrow> (nat \<Rightarrow> u64 \<times> int) \<Rightarrow> (u64, nat) junk \<Rightarrow> nt_distributor_t \<Rightarrow> udp_t \<Rightarrow> udp_t \<Rightarrow> idgen_t \<Rightarrow>
     ((nt_dup_fec_t, 'w) nt_fec_processor_t \<times> idgen_t) option" where
  "init_dup_processor cf e kvs junk dstr api tun idgen = do {
     ensure (0 \<le> decode_buffer_num cf);
     fec \<leftarrow> nt_dup_fec_init junk (pe_links e) kvs (cf_N cf) (nat (decode_buffer_num cf div cf_processor_num cf)) (cf_decode_timeout cf) idgen;
     r \<leftarrow> nt_fec_processor_init (pe_results e) (pe_mem e) (pe_encoder_buffers e) (pe_decoder_buffers e) (pe_messages e) (pe_timers e)
       (mq_capacity cf) dstr api tun (nt_dup_fec_super junk) fec None;
     (case r of Inl err \<Rightarrow> None | Inr p \<Rightarrow> Some (p, dup_idgen fec))
   }"

definition init_dup_processors ::
    "settings \<Rightarrow> (nat \<Rightarrow> processor_env) \<Rightarrow> (nat \<Rightarrow> nat \<Rightarrow> u64 \<times> int) \<Rightarrow> (u64, nat) junk \<Rightarrow> nt_distributor_t \<Rightarrow> udp_t \<Rightarrow> udp_t \<Rightarrow>
     ((nt_dup_fec_t, 'w) nt_fec_processor_t list \<times> idgen_t) option" where
  "init_dup_processors cf env kvs junk dstr api tun = do {
     ensure (0 < cf_processor_num cf);
     for_up 0 (nat (cf_processor_num cf)) (\<lambda>i (ps, idgen). do {
       (p, idgen) \<leftarrow> init_dup_processor cf (env i) (kvs i) junk dstr api tun idgen;
       Some (ps @ [p], idgen)
     }) ([], idgen_init 0)
   }"

text \<open>What the start finds.\<close>

record 'w reporter_env =
  re_env :: "(nat, nat, 'w) env"
  re_epoll :: sysret
  re_add :: sysret
  re_timers :: "nat \<Rightarrow> (nat, nat) timer_entry_t entry_t"
  re_callbacks :: "nat \<times> nat"
  re_self :: "nat \<times> nat"

record echo_env =
  ee_mem :: "(echo_key, nat) junk"
  ee_links :: "addr links"
  ee_kvs :: "nat \<Rightarrow> echo_key \<times> nat \<times> int"
  ee_listener :: listener_env

record 'w main_env =
  me_open :: "cstring \<Rightarrow> u8 list option"
  me_resolve :: resolver
  me_sys :: "'w syscalls"
  me_stack :: main_stack
  me_settings :: "(cstring, cstring) junk"
  me_counters :: "(u8 list, nat) junk"
  me_cells :: "nat \<Rightarrow> u64"
  me_processors :: "nat \<Rightarrow> processor_env"
  me_dup_kvs :: "nat \<Rightarrow> nat \<Rightarrow> u64 \<times> int"
  me_codecs :: "(u64, nat) junk"
  me_packets :: "nat \<Rightarrow> u8"
  me_tun :: listener_env
  me_api :: listener_env
  me_mem :: "nat \<Rightarrow> u8 list"
  me_reporter :: "'w reporter_env"
  me_echo :: echo_env
  me_thread :: "nat \<Rightarrow> int"

record ('s, 'w) service =
  sv_tunnel :: "(read_handler, 's, 'w) tunnel"
  sv_reporter :: "unit nt_reporter_t"
  sv_echo :: "unit nt_echo_listener_t option"

text \<open>The result of \<open>udp_init\<close> for the two sockets of the tunnel is ignored.\<close>

definition open_udp :: "'w main_env \<Rightarrow> address_t \<Rightarrow> 'w \<Rightarrow> udp_t \<times> 'w" where
  "open_udp env a w =
     (let (r, w) = udp_init (me_sys env) (Some a) True w in (case r of Inl err \<Rightarrow> ms_udp (me_stack env) | Inr udp \<Rightarrow> udp, w))"

definition start_reporter :: "'w main_env \<Rightarrow> address_t \<Rightarrow> 'w \<Rightarrow> (unit nt_reporter_t \<times> 'w) option" where
  "start_reporter env a w = do {
     let e = me_reporter env;
     (r, w) \<leftarrow> nt_reporter_init (me_sys env) (re_env e) (re_epoll e) (re_add e) (re_timers e) (re_callbacks e) (re_self e) () a w;
     (case r of Inl err \<Rightarrow> None | Inr rep \<Rightarrow> Some (rep, w))
   }"

definition start_echo :: "'w main_env \<Rightarrow> settings \<Rightarrow> address_t option \<Rightarrow> 'w \<Rightarrow> (unit nt_echo_listener_t option \<times> 'w) option" where
  "start_echo env cf a w =
     (case a of
        None \<Rightarrow> Some (None, w)
      | Some a \<Rightarrow> do {
          let (udp, w) = open_udp env a w;
          let e = me_echo env;
          let l = ee_listener e;
          ensure (0 \<le> decode_buffer_num cf);
          r \<leftarrow> nt_echo_listener_init (ee_mem e) (ee_links e) (ee_kvs e) (le_mem l) (le_buffers l) (le_epoll l) (le_add l) (le_timers l)
            (le_callback l) (le_self l) (le_context l) () udp (decode_buffer_num cf div cf_processor_num cf) (cf_decode_timeout cf);
          (case r of Inl err \<Rightarrow> None | Inr echo \<Rightarrow> Some (Some echo, w))
        })"

text \<open>
  Everything after the processors. The results of \<open>pthread_create\<close> are checked together: one thread for every processor and
  listener, one for the reporter and one for the echo service.
\<close>

definition start_services ::
    "'w main_env \<Rightarrow> main_config \<Rightarrow> bool \<Rightarrow> udp_t \<Rightarrow> udp_t \<Rightarrow> perf_t \<Rightarrow> ('s, 'w) nt_fec_processor_t list \<Rightarrow> 'w \<Rightarrow> ('s, 'w) service option" where
  "start_services env mc fec api tun perf ps w = do {
     let forwarder = map_option (\<lambda>path. nt_forwarder_init path api tun) (mc_direct_path mc);
     t \<leftarrow> start_listeners (mc_settings mc) fec (me_tun env) (me_api env) (me_mem env) forwarder api tun perf ps w;
     (reporter, w) \<leftarrow> start_reporter env (mc_reporter_local mc) w;
     (echo, w) \<leftarrow> start_echo env (mc_settings mc) (mc_echo_local mc) w;
     ensure (list_all (\<lambda>i. me_thread env i = 0) [0..<length ps + 3 + (case echo of None \<Rightarrow> 0 | Some e \<Rightarrow> 1)]);
     Some \<lparr>sv_tunnel = t\<lparr>tn_world := (perf, w)\<rparr>, sv_reporter = reporter, sv_echo = echo\<rparr>
   }"

text \<open>The codec of the processors depends on \<open>K\<close>; without error correction there are none.\<close>

datatype 'w running = Rs_service "(nt_rs_fec_t, 'w) service" | Dup_service "(nt_dup_fec_t, 'w) service"

text \<open>
  The program up to the point where it waits for its threads; \<open>Inl\<close> is the exit code for a missing argument. The arrays of \<open>main\<close> need a
  positive number of processors. The result of \<open>nt_distributor_init\<close> is ignored.
\<close>

definition main_start :: "'w main_env \<Rightarrow> cstring list \<Rightarrow> 'w \<Rightarrow> (int + 'w running) option" where
  "main_start env argv w =
     (if length argv < 2 then Some (Inl EINVAL)
      else do {
        c \<leftarrow> config_init (me_settings env);
        (ok, c) \<leftarrow> config_load_from_file (me_settings env) c (me_open env (argv ! 1));
        ensure ok;
        mc \<leftarrow> read_config (me_resolve env) (me_stack env) c;
        let cf = mc_settings mc;
        perf \<leftarrow> perf_init (me_counters env) (me_cells env) nt_counter_names nt_counter_num;
        let (api, w) = open_udp env (mc_api_local mc) w;
        let (tun, w) = open_udp env (mc_tun_local mc) w;
        ensure (0 < cf_processor_num cf);
        if mc_enable_fec mc then do {
          (ok, dstr) \<leftarrow> nt_distributor_init (ms_distributor (me_stack env)) (mc_paths mc) (mc_path_num mc) (mc_table mc) MAX_SEQ_NUM MAX_DUP_NUM;
          if cf_K cf = 1 then do {
            (ps, idgen) \<leftarrow> init_dup_processors cf (me_processors env) (me_dup_kvs env) (me_codecs env) dstr api tun;
            s \<leftarrow> start_services env mc True api tun perf ps w;
            Some (Inr (Dup_service s))
          } else do {
            (ps, idgen) \<leftarrow> init_processors cf (me_processors env) (me_codecs env) (me_packets env) dstr api tun;
            s \<leftarrow> start_services env mc True api tun perf ps w;
            Some (Inr (Rs_service s))
          }
        } else do {
          s \<leftarrow> start_services env mc False api tun perf [] w;
          Some (Inr (Rs_service s))
        }
      })"

section \<open>Deployments\<close>

text \<open>What an operator decides, and the settings that describe it.\<close>

record deployment =
  dp_N :: nat
  dp_K :: nat
  dp_data_size :: nat
  dp_decode_buffers :: nat
  dp_timeout :: nat
  dp_processors :: nat
  dp_queue :: nat
  dp_buffer_size :: nat
  dp_api :: endpoint
  dp_tun :: endpoint
  dp_reporter :: endpoint
  dp_echo :: "endpoint option"
  dp_paths :: "(endpoint option \<times> endpoint) list"
  dp_rows :: "nat list list"

definition describes :: "(cstring \<rightharpoonup> cstring) \<Rightarrow> deployment \<Rightarrow> bool" where
  "describes m d \<longleftrightarrow> m (str ''N'') = Some (decimal (dp_N d)) \<and> m (str ''K'') = Some (decimal (dp_K d)) \<and>
     m (str ''max_fec_data_size'') = Some (decimal (dp_data_size d)) \<and> m (str ''decode_buffer_num'') = Some (decimal (dp_decode_buffers d)) \<and>
     (m (str ''decode_timeout'') = Some (decimal (dp_timeout d)) \<or> m (str ''decode_timeout'') = None \<and> dp_timeout d = 2000) \<and>
     m (str ''processor_num'') = Some (decimal (dp_processors d)) \<and> m (str ''mq_capacity'') = Some (decimal (dp_queue d)) \<and>
     m (str ''max_udp_buffer_size'') = Some (decimal (dp_buffer_size d)) \<and> m (str ''api_local'') = Some (endpoint_text (dp_api d)) \<and>
     m (str ''tun_local'') = Some (endpoint_text (dp_tun d)) \<and> m (str ''reporter_local'') = Some (endpoint_text (dp_reporter d)) \<and>
     m (str ''echo_local'') = map_option endpoint_text (dp_echo d) \<and> m (str ''paths'') = Some (paths_text (dp_paths d)) \<and>
     m (str ''seq2addr'') = Some (rows_text (dp_rows d)) \<and> pred_option (\<lambda>s. s \<in> set PRIORITY_NAMES) (m (str ''log_priority'')) \<and>
     m (str ''enable_fec'') \<in> {None, Some (str ''true'')} \<and> m (str ''enable_direct'') \<in> {None, Some (str ''false'')} \<and>
     m (str ''enable_encrypt'') = Some (str ''false'')"

definition deployment_ok :: "deployment \<Rightarrow> bool" where
  "deployment_ok d \<longleftrightarrow> 1 < dp_K d \<and> dp_K d < dp_N d \<and> dp_N d \<le> 31 \<and> dp_data_size d + 4 < 65536 \<and>
     (dp_data_size d + 4) * (dp_N d - dp_K d) < 2 ^ 31 \<and> 0 < dp_processors d \<and> 2 * dp_processors d \<le> dp_decode_buffers d \<and>
     dp_decode_buffers d < 2 ^ 31 \<and> dp_timeout d < 2 ^ 31 \<and> 0 < dp_queue d \<and> dp_queue d < 2 ^ 31 \<and>
     38 \<le> dp_buffer_size d \<and> dp_buffer_size d \<le> dp_data_size d \<and>
     endpoint_ok (dp_api d) \<and> endpoint_ok (dp_tun d) \<and> endpoint_ok (dp_reporter d) \<and>
     list_all path_ok (dp_paths d) \<and> dp_paths d \<noteq> [] \<and> length (dp_paths d) \<le> 32 \<and> dp_rows d \<noteq> [] \<and> length (dp_rows d) \<le> 256 \<and>
     (\<forall>r \<in> set (dp_rows d). r \<noteq> [] \<and> length r \<le> 16 \<and> (\<forall>n \<in> set r. n < length (dp_paths d)))"

definition settings_of :: "deployment \<Rightarrow> settings" where
  "settings_of d = \<lparr>cf_N = of_nat (dp_N d), cf_K = of_nat (dp_K d), max_fec_data_size = int (dp_data_size d), decode_buffer_num = int (dp_decode_buffers d),
     cf_decode_timeout = int (dp_timeout d), cf_processor_num = int (dp_processors d), mq_capacity = dp_queue d, max_udp_buffer_size = dp_buffer_size d\<rparr>"

text \<open>The paths of the packets: the copy \<open>dup\<close> of the packet \<open>seq\<close> takes the path that the row of \<open>seq\<close> names at \<open>dup\<close>.\<close>

definition follows_rows :: "nt_distributor_t \<Rightarrow> nt_path_t list \<Rightarrow> nat list list \<Rightarrow> bool" where
  "follows_rows d qs rows \<longleftrightarrow> (\<forall>seq dup. nt_distributor_select d (int seq) (int dup) =
     Some (let r = rows ! (seq mod length rows) in if dup < length r then Some (qs ! (r ! dup)) else None))"

lemma settings_of_ok: "deployment_ok d \<Longrightarrow> settings_ok (dp_N d) (dp_K d) (dp_data_size d) (settings_of d)"
  by (simp add: settings_ok_def settings_of_def deployment_ok_def)

section \<open>Reading the settings\<close>

lemma config_get_map: "hm_ok (config_map c) \<Longrightarrow> config_get c k = Some (hm_map (config_map c) k)"
  by (simp add: config_get_def config_get_spec split: option.splits)

lemma config_default_map: "hm_ok (config_map c) \<Longrightarrow>
    config_get_default c k (Some d) = Some (Some (case hm_map (config_map c) k of None \<Rightarrow> d | Some v \<Rightarrow> v))"
  by (simp add: config_get_spec split: option.splits)

lemma atoi_decimal: "n < 2 ^ 31 \<Longrightarrow> atoi (Some (decimal n)) = Some (int n)"
  using scan_decimal [of "[]" n] by (simp add: atoi_def)

lemma int_setting_decimal:
  "hm_ok (config_map c) \<Longrightarrow> hm_map (config_map c) k = Some (decimal n) \<Longrightarrow> n < 2 ^ 31 \<Longrightarrow> int_setting c k = Some (int n)"
  by (simp add: int_setting_def config_get_map atoi_decimal)

lemma to_size_int: "n < 2 ^ 31 \<Longrightarrow> to_size (int n) = n"
  by (simp add: to_size_def unat_of_nat)

lemma address_setting_text:
  assumes "hm_ok (config_map c)" "hm_map (config_map c) k = Some (endpoint_text e)" "endpoint_ok e"
  shows "\<exists>a. address_setting resolve x c k = Some a"
  using assms by (simp add: address_setting_def config_get_map)

lemma log_parse_priority_known:
  assumes "s \<in> set PRIORITY_NAMES"
  shows "\<exists>i. log_parse_priority (Some s) = Some i"
proof -
  obtain i where "i < length PRIORITY_NAMES" "PRIORITY_NAMES ! i = s" using assms by (auto simp: in_set_conv_nth)
  then have "find (\<lambda>i. PRIORITY_NAMES ! i = s) [0..<length PRIORITY_NAMES] \<noteq> None" by (auto simp: find_None_iff)
  then show ?thesis by (auto simp: log_parse_priority_def)
qed

text \<open>A distributor that is set up with what was read routes as the deployment says.\<close>

lemma read_routes_text:
  assumes c: "hm_ok (config_map c)" "hm_map (config_map c) (str ''paths'') = Some (paths_text (dp_paths d))"
      "hm_map (config_map c) (str ''seq2addr'') = Some (rows_text (dp_rows d))"
    and d: "deployment_ok d" and qs: "map (resolve_path resolve) (dp_paths d) = map Some qs"
  shows "\<exists>ps num table d'. read_routes resolve stk c True = Some (ps, num, table) \<and>
    nt_distributor_init (ms_distributor stk) ps num table MAX_SEQ_NUM MAX_DUP_NUM = Some (True, d') \<and> distributor_ok d' \<and> follows_rows d' qs (dp_rows d)"
proof -
  let ?fresh = "map (ms_paths stk) [0..<nat MAX_PATH_NUM]" and ?table = "map (ms_table stk) [0..<nat (MAX_SEQ_NUM * MAX_DUP_NUM)]"
  have n: "int (length ?fresh) = MAX_PATH_NUM" "MAX_SEQ_NUM = int 256" "MAX_DUP_NUM = int 16" by (simp_all add: MAX_PATH_NUM_def MAX_SEQ_NUM_def MAX_DUP_NUM_def)
  have len: "length ?fresh = 32" "256 * 16 \<le> length ?table" by (simp_all add: MAX_PATH_NUM_def MAX_SEQ_NUM_def MAX_DUP_NUM_def)
  have p: "list_all path_ok (dp_paths d)" "dp_paths d \<noteq> []" "length (dp_paths d) \<le> length ?fresh" "length (dp_paths d) \<le> 2 ^ 31"
    and r: "dp_rows d \<noteq> []" "length (dp_rows d) \<le> 256" "\<forall>r \<in> set (dp_rows d). r \<noteq> [] \<and> length r \<le> 16 \<and> (\<forall>n \<in> set r. n < length (dp_paths d))"
    using d unfolding len by (simp_all add: deployment_ok_def)
  obtain ps table d' where "parse_paths resolve ?fresh (int (length ?fresh)) (paths_text (dp_paths d)) = Some (ps, int (length (dp_paths d)), [])"
    "parse_seq2addr ?table (int 256) (int 16) (rows_text (dp_rows d)) = Some (table, [])"
    "nt_distributor_init (ms_distributor stk) ps (int (length (dp_paths d))) table (int 256) (int 16) = Some (True, d')" "distributor_ok d'"
    "\<forall>seq dup. nt_distributor_select d' (int seq) (int dup) =
      Some (let r = dp_rows d ! (seq mod length (dp_rows d)) in if dup < length r then Some (qs ! (r ! dup)) else None)"
    using configured_distributor [OF p(1) qs p(2-4) r len(2), of "ms_distributor stk"] by (elim exE conjE)
  then show ?thesis unfolding n(1) n(2,3) [symmetric] using c
    by (intro exI [of _ ps] exI [of _ "int (length (dp_paths d))"] exI [of _ table] exI [of _ d']) (simp add: read_routes_def config_get_map follows_rows_def)
qed

lemma read_config_text:
  assumes c: "hm_ok (config_map c)" "describes (hm_map (config_map c)) d" "deployment_ok d" and qs: "map (resolve_path resolve) (dp_paths d) = map Some qs"
  shows "\<exists>mc d'. read_config resolve stk c = Some mc \<and> mc_settings mc = settings_of d \<and> mc_enable_fec mc \<and> mc_direct_path mc = None \<and>
    nt_distributor_init (ms_distributor stk) (mc_paths mc) (mc_path_num mc) (mc_table mc) MAX_SEQ_NUM MAX_DUP_NUM = Some (True, d') \<and>
    distributor_ok d' \<and> follows_rows d' qs (dp_rows d)"
proof -
  note dd = c(3) [unfolded deployment_ok_def] and m = c(2) [unfolded describes_def]
  have small: "dp_N d < 2 ^ 31" "dp_K d < 2 ^ 31" "dp_data_size d < 2 ^ 31" "dp_buffer_size d < 2 ^ 31" "dp_processors d < 2 ^ 31" using dd by auto
  obtain i where i: "log_parse_priority (Some (case hm_map (config_map c) (str ''log_priority'') of None \<Rightarrow> str ''ALL'' | Some v \<Rightarrow> v)) = Some i"
    using log_parse_priority_known m by (cases "hm_map (config_map c) (str ''log_priority'')") (auto simp: PRIORITY_NAMES_def)
  have ints: "int_setting c (str ''N'') = Some (int (dp_N d))" "int_setting c (str ''K'') = Some (int (dp_K d))"
    "int_setting c (str ''max_fec_data_size'') = Some (int (dp_data_size d))" "int_setting c (str ''decode_buffer_num'') = Some (int (dp_decode_buffers d))"
    "int_setting c (str ''processor_num'') = Some (int (dp_processors d))" "int_setting c (str ''mq_capacity'') = Some (int (dp_queue d))"
    "int_setting c (str ''max_udp_buffer_size'') = Some (int (dp_buffer_size d))"
    using m dd small int_setting_decimal [OF c(1)] by blast+
  have two: "str ''2000'' = decimal 2000" by code_simp
  have timeout: "atoi (Some (case hm_map (config_map c) (str ''decode_timeout'') of None \<Rightarrow> str ''2000'' | Some v \<Rightarrow> v)) = Some (int (dp_timeout d))"
    using m dd atoi_decimal [of "dp_timeout d"] two by auto
  obtain a1 a2 a3 where addrs: "address_setting resolve (ms_address stk) c (str ''api_local'') = Some a1"
    "address_setting resolve (ms_address stk) c (str ''tun_local'') = Some a2" "address_setting resolve (ms_address stk) c (str ''reporter_local'') = Some a3"
    using m dd address_setting_text [OF c(1)] by metis
  have bools: "bool_setting c (str ''enable_fec'') (str ''true'') = Some True" "bool_setting c (str ''enable_direct'') (str ''false'') = Some False"
    "bool_setting c (str ''enable_encrypt'') (str ''true'') = Some False"
    using m by (auto simp: bool_setting_def config_default_map [OF c(1)] str2bool_def str_def)
  obtain ps num table d' where rt: "read_routes resolve stk c True = Some (ps, num, table)"
    "nt_distributor_init (ms_distributor stk) ps num table MAX_SEQ_NUM MAX_DUP_NUM = Some (True, d')" "distributor_ok d'" "follows_rows d' qs (dp_rows d)"
    using read_routes_text [OF c(1) _ _ c(3) qs, of stk] m by (elim conjE exE) blast
  have ka: "read_ka c = Some None" using bools(3) by (simp add: read_ka_def)
  have sizes: "to_size (int (dp_queue d)) = dp_queue d" "to_size (int (dp_buffer_size d)) = dp_buffer_size d" using dd small by (simp_all add: to_size_int)
  show ?thesis unfolding read_config_def config_default_map [OF c(1)] config_get_map [OF c(1)] Option.bind.bind_lunit i timeout ints addrs bools rt(1) ka sizes
    using rt(2-4) by (simp add: rt(1) ka settings_of_def)
qed

section \<open>A start without errors\<close>

text \<open>The system calls succeed, memory is fresh, and every thread can be created.\<close>

definition sys_fine :: "'w syscalls \<Rightarrow> bool" where
  "sys_fine k \<longleftrightarrow> (\<forall>w fd x a. 0 \<le> fst (fst (sys_socket k w)) \<and> 0 \<le> fst (fst (sys_getfl k fd w)) \<and> 0 \<le> fst (fst (sys_setfl k fd x w)) \<and>
     fst (fst (sys_setsockopt k fd x w)) = 0 \<and> fst (fst (sys_bind k fd a w)) = 0)"

definition main_env_ok :: "'w main_env \<Rightarrow> deployment \<Rightarrow> bool" where
  "main_env_ok env d \<longleftrightarrow> sys_fine (me_sys env) \<and> (\<forall>i. processor_env_ok (dp_queue d) (me_processors env i)) \<and>
     listener_env_ok (dp_queue d) (dp_buffer_size d) (me_mem env) (me_tun env) \<and> listener_env_ok (dp_queue d) (dp_buffer_size d) (me_mem env) (me_api env) \<and>
     le_buffers (me_tun env) ` {..<dp_queue d} \<inter> le_buffers (me_api env) ` {..<dp_queue d} = {} \<and>
     0 \<le> fst (re_epoll (me_reporter env)) \<and> fst (re_add (me_reporter env)) = 0 \<and>
     0 \<le> fst (le_epoll (ee_listener (me_echo env))) \<and> fst (le_add (ee_listener (me_echo env))) = 0 \<and>
     inj (le_buffers (ee_listener (me_echo env))) \<and> (\<forall>i. me_thread env i = 0)"

lemma udp_init_fine:
  assumes "sys_fine k"
  shows "\<exists>udp w'. udp_init k a nonblock w = (Inr udp, w')"
proof -
  have s: "\<And>w. 0 \<le> fst (fst (sys_socket k w))" "\<And>fd w. 0 \<le> fst (fst (sys_getfl k fd w))" "\<And>fd x w. 0 \<le> fst (fst (sys_setfl k fd x w))"
    "\<And>fd x w. fst (fst (sys_setsockopt k fd x w)) = 0" "\<And>fd a w. fst (fst (sys_bind k fd a w)) = 0"
    using assms unfolding sys_fine_def by blast+
  then show ?thesis unfolding udp_init_def enable_nonblock_def Let_def case_prod_unfold
    by (cases a) (simp_all add: s(4,5) s(1-3) [THEN leD])
qed

lemma start_reporter_ok:
  assumes "sys_fine (me_sys env)" "0 \<le> fst (re_epoll (me_reporter env))" "fst (re_add (me_reporter env)) = 0"
  shows "\<exists>rep w'. start_reporter env a w = Some (rep, w')"
proof -
  let ?e = "me_reporter env" let ?h = "make_heap (re_timers ?e) 1000"
  obtain udp w1 where udp: "udp_init (me_sys env) (Some a) False w = (Inr udp, w1)" using udp_init_fine [OF assms(1)] by blast
  obtain now w2 where now: "current_millis (re_env ?e) w1 = (now, w2)" by fastforce
  obtain h where "heap_push ?h (now + 60000) (make_timer 60000 True (snd (re_callbacks ?e)) (fst (re_self ?e))) = Some (True, h)"
    using heap_push_room [OF make_heap_ok(1), of "re_timers ?e" 1000] by (auto simp: make_heap_def)
  then show ?thesis using assms(2,3) udp now
    by (simp add: start_reporter_def nt_reporter_init_def dispatcher_init1_def dispatcher_init_def dispatcher_add_udp_def dispatcher_add_handler_def
        dispatcher_add_timer_def dispatcher_add_timer0_def make_timer_def Let_def)
qed

lemma start_echo_ok:
  assumes cf: "settings_ok N K D cf" and env: "0 \<le> fst (le_epoll (ee_listener (me_echo env)))" "fst (le_add (ee_listener (me_echo env))) = 0"
    "inj (le_buffers (ee_listener (me_echo env)))"
  shows "\<exists>echo w'. start_echo env cf a w = Some (echo, w')"
proof (cases a)
  case (Some x)
  let ?e = "me_echo env" let ?l = "ee_listener ?e"
  obtain udp w1 where udp: "open_udp env x w = (udp, w1)" by fastforce
  obtain n where n: "decode_buffer_num cf div cf_processor_num cf = int n" "2 \<le> n" "n < 2 ^ 31" using share_bounds [OF cf] by blast
  obtain l where "nt_echo_listener_init (ee_mem ?e) (ee_links ?e) (ee_kvs ?e) (le_mem ?l) (le_buffers ?l) (le_epoll ?l) (le_add ?l) (le_timers ?l)
      (le_callback ?l) (le_self ?l) (le_context ?l) () udp (int n) (cf_decode_timeout cf) = Some (Inr l)"
    using echo_init_spec [OF n(2,3) inj_on_subset [OF env(3) subset_UNIV] env(1,2), of "ee_mem ?e" "ee_links ?e" "ee_kvs ?e" "le_mem ?l" "le_timers ?l"
      "le_callback ?l" "le_self ?l" "le_context ?l" "()" udp "cf_decode_timeout cf"] by blast
  moreover have "0 \<le> decode_buffer_num cf" using cf by (simp add: settings_ok_def)
  ultimately show ?thesis using Some udp n(1) by (simp add: start_echo_def)
qed (simp add: start_echo_def)

lemma start_main:
  fixes env :: "'w main_env"
  assumes d: "deployment_ok d" and env: "main_env_ok env d" and dstr: "distributor_ok dstr"
    and mc: "mc_settings mc = settings_of d"
  shows "\<exists>perf ps g s. perf_init (me_counters env) (me_cells env) nt_counter_names nt_counter_num = Some perf \<and>
    init_processors (settings_of d) (me_processors env) (me_codecs env) (me_packets env) dstr api tun = Some (ps, g) \<and>
    start_services env mc True api tun perf ps w = Some s \<and> length (tn_processors (sv_tunnel s)) = dp_processors d \<and>
    (\<forall>p \<in> set (tn_processors (sv_tunnel s)). distributor p = dstr) \<and>
    tunnel_ok (dp_queue d) (dp_queue d) (processor_ok (dp_N d) (dp_K d) (dp_data_size d) (me_codecs env) (me_packets env)) (dp_buffer_size d)
      (buffers_of (settings_of d) (me_api env)) (buffers_of (settings_of d) (me_tun env)) (sv_tunnel s)"
proof -
  let ?cf = "settings_of d" let ?fwd = "map_option (\<lambda>path. nt_forwarder_init path api tun) (mc_direct_path mc)"
  let ?P = "processor_ok (dp_N d) (dp_K d) (dp_data_size d) (me_codecs env) (me_packets env)"
  note e = env [unfolded main_env_ok_def] and cf = settings_of_ok [OF d]
  have q: "mq_capacity ?cf = dp_queue d" "max_udp_buffer_size ?cf = dp_buffer_size d" "cf_processor_num ?cf = int (dp_processors d)" by (simp_all add: settings_of_def)
  have pe: "\<forall>i. processor_env_ok (mq_capacity ?cf) (me_processors env i)"
    and le: "listener_env_ok (mq_capacity ?cf) (max_udp_buffer_size ?cf) (me_mem env) (me_tun env)"
      "listener_env_ok (mq_capacity ?cf) (max_udp_buffer_size ?cf) (me_mem env) (me_api env)"
    and apart: "le_buffers (me_tun env) ` {..<mq_capacity ?cf} \<inter> le_buffers (me_api env) ` {..<mq_capacity ?cf} = {}"
    using e unfolding q by blast+
  obtain t :: "(read_handler, nt_rs_fec_t, 'w) tunnel" where
    t: "start_tunnel ?cf (me_processors env) (me_tun env) (me_api env) (me_counters env) (me_cells env) (me_codecs env) (me_packets env) (me_mem env)
        dstr ?fwd api tun w = Some t"
    "tunnel_ok (mq_capacity ?cf) (mq_capacity ?cf) ?P (max_udp_buffer_size ?cf) (buffers_of ?cf (me_api env)) (buffers_of ?cf (me_tun env)) t"
    "length (tn_processors t) = nat (cf_processor_num ?cf)" "\<forall>p \<in> set (tn_processors t). distributor p = dstr"
    using start_tunnel_ok [OF cf pe dstr le apart, of "me_counters env" "me_cells env" "me_codecs env" "me_packets env" ?fwd api tun w] by (elim exE conjE)
  obtain perf ps g where run: "perf_init (me_counters env) (me_cells env) nt_counter_names nt_counter_num = Some perf"
    "init_processors ?cf (me_processors env) (me_codecs env) (me_packets env) dstr api tun = Some (ps, g)"
    "start_listeners ?cf True (me_tun env) (me_api env) (me_mem env) ?fwd api tun perf ps w = Some t"
    using t(1) by (auto simp: start_tunnel_def split: Option.bind_split_asm)
  then have tp: "tn_processors t = ps" "fst (tn_world t) = perf" by (auto simp: start_listeners_def split: Option.bind_split_asm)
  obtain rep w1 where rep: "start_reporter env (mc_reporter_local mc) w = Some (rep, w1)" using start_reporter_ok [of env "mc_reporter_local mc" w] e by blast
  obtain echo w2 where echo: "start_echo env ?cf (mc_echo_local mc) w1 = Some (echo, w2)" using start_echo_ok [OF cf, of env "mc_echo_local mc" w1] e by blast
  define s where "s = \<lparr>sv_tunnel = t\<lparr>tn_world := (perf, w2)\<rparr>, sv_reporter = rep, sv_echo = echo\<rparr>"
  have "start_services env mc True api tun perf ps w = Some s"
    using run(3) rep echo e by (simp add: start_services_def mc s_def list_all_iff)
  moreover have "tunnel_ok (dp_queue d) (dp_queue d) ?P (dp_buffer_size d) (buffers_of ?cf (me_api env)) (buffers_of ?cf (me_tun env)) (sv_tunnel s)"
    using outside_ok [OF t(2), of w2] unfolding q tp s_def by simp
  ultimately show ?thesis using run(1,2) t(3,4) q(3) by (intro exI [of _ perf] exI [of _ ps] exI [of _ g] exI [of _ s]) (simp add: s_def)
qed

section \<open>Properties\<close>

text \<open>
  C3. The service runs as it is configured. For every deployment with bounds that the codec can keep and every file of settings that
  describes it, in any order, with comments and blank lines, \<open>main\<close> starts the service when the system
  calls succeed; the processors route their packets along the rows of the deployment, and then, whatever datagrams arrive at whatever
  times and whichever thread calls a handler next, every handler returns: no check fails and no array is left.
\<close>

theorem service_never_aborts:
  fixes env :: "'w main_env" and k :: "'w kernel"
  assumes src: "me_open env path = Some (concat (map line_text ls))" "list_all line_ok ls" "describes (map_of (rev (concat (map line_setting ls)))) d"
    and d: "deployment_ok d" "map (resolve_path (me_resolve env)) (dp_paths d) = map Some qs"
    and env: "main_env_ok env d" and k: "whole_datagrams k" "recv_bounded k"
  shows "\<exists>s. main_start env [prog, path] w = Some (Inr (Rs_service s)) \<and> length (tn_processors (sv_tunnel s)) = dp_processors d \<and>
    (\<forall>p \<in> set (tn_processors (sv_tunnel s)). follows_rows (distributor p) qs (dp_rows d)) \<and>
    (\<forall>api tun t. reachable k api tun (sv_tunnel s) t \<longrightarrow> (\<forall>e. enabled e t \<longrightarrow> (\<exists>t'. react k api tun e t = Some t')))"
proof -
  let ?P = "processor_ok (dp_N d) (dp_K d) (dp_data_size d) (me_codecs env) (me_packets env)"
  obtain c0 where c0: "config_init (me_settings env) = Some c0" "hm_ok (config_map c0)" "hm_map (config_map c0) = Map.empty" using config_init_spec by blast
  obtain c where c: "load_lines (me_settings env) c0 (concat (map line_text ls) @ []) = Some c" "hm_ok (config_map c)"
    "hm_map (config_map c) = Map.empty ++ map_of (rev (concat (map line_setting ls)))"
    using load_lines_spec [OF load_nothing src(2) c0(2), of "me_settings env"] unfolding c0(3) by (elim exE conjE)
  have desc: "describes (hm_map (config_map c)) d" using c(3) src(3) by simp
  obtain mc dstr where mc: "read_config (me_resolve env) (me_stack env) c = Some mc" "mc_settings mc = settings_of d" "mc_enable_fec mc"
    "nt_distributor_init (ms_distributor (me_stack env)) (mc_paths mc) (mc_path_num mc) (mc_table mc) MAX_SEQ_NUM MAX_DUP_NUM = Some (True, dstr)"
    "distributor_ok dstr" "follows_rows dstr qs (dp_rows d)"
    using read_config_text [OF c(2) desc d, of "me_stack env"] by (elim exE conjE)
  obtain api w1 where api: "open_udp env (mc_api_local mc) w = (api, w1)" by fastforce
  obtain tun w2 where tun: "open_udp env (mc_tun_local mc) w1 = (tun, w2)" by fastforce
  obtain perf ps g s where s: "perf_init (me_counters env) (me_cells env) nt_counter_names nt_counter_num = Some perf"
    "init_processors (settings_of d) (me_processors env) (me_codecs env) (me_packets env) dstr api tun = Some (ps, g)"
    "start_services env mc True api tun perf ps w2 = Some s" "length (tn_processors (sv_tunnel s)) = dp_processors d"
    "\<forall>p \<in> set (tn_processors (sv_tunnel s)). distributor p = dstr"
    "tunnel_ok (dp_queue d) (dp_queue d) ?P (dp_buffer_size d) (buffers_of (settings_of d) (me_api env)) (buffers_of (settings_of d) (me_tun env)) (sv_tunnel s)"
    using start_main [OF d(1) env mc(5,2), of api tun w2] by (elim exE conjE)
  have K: "cf_K (settings_of d) \<noteq> 1" "0 < cf_processor_num (settings_of d)"
    using d(1) by (auto simp: deployment_ok_def settings_of_def dest!: arg_cong [where f = unat] simp: unat_of_nat)
  have "main_start env [prog, path] w = Some (Inr (Rs_service s))"
    using c0(1) c(1) src(1) mc(1-4) api tun s(1-3) K by (simp add: main_start_def config_load_from_file_def)
  moreover have "38 \<le> dp_buffer_size d" "dp_buffer_size d \<le> dp_data_size d" "dp_data_size d + 4 < 65536" using d(1) by (simp_all add: deployment_ok_def)
  then have "\<exists>t'. react k a u e t = Some t'" if "reachable k a u (sv_tunnel s) t" "enabled e t" for a u t e
    using react_ok [OF k _ _ _ reachable_ok [OF k _ _ _ s(6) that(1)] that(2), of a u] by blast
  ultimately show ?thesis using s(4,5) mc(6) by (intro exI [of _ s]) simp
qed

text \<open>
  C35. Encryption is enabled unless the file says otherwise, and then \<open>main\<close> reads the port of the key server, although nothing uses it: with any
  file that neither disables encryption nor has \<open>ka_port\<close>, the program passes \<open>NULL\<close> to \<open>atoi\<close> and never starts.
\<close>

theorem missing_port_crashes:
  fixes env :: "'w main_env"
  assumes src: "me_open env path = Some (concat (map line_text ls))" "list_all line_ok ls"
    and m: "map_of (rev (concat (map line_setting ls))) (str ''enable_encrypt'') \<in> {None, Some (str ''true'')}"
      "map_of (rev (concat (map line_setting ls))) (str ''ka_port'') = None"
  shows "main_start env [prog, path] w = None"
proof -
  obtain c0 where c0: "config_init (me_settings env) = Some c0" "hm_ok (config_map c0)" "hm_map (config_map c0) = Map.empty" using config_init_spec by blast
  obtain c where c: "load_lines (me_settings env) c0 (concat (map line_text ls) @ []) = Some c" "hm_ok (config_map c)"
    "hm_map (config_map c) = Map.empty ++ map_of (rev (concat (map line_setting ls)))"
    using load_lines_spec [OF load_nothing src(2) c0(2), of "me_settings env"] unfolding c0(3) by (elim exE conjE)
  have "bool_setting c (str ''enable_encrypt'') (str ''true'') = Some True" using m(1) c(3) by (auto simp: bool_setting_def config_default_map [OF c(2)] str2bool_def)
  moreover have "int_setting c (str ''ka_port'') = None" using m(2) c(3) by (simp add: int_setting_def config_get_map [OF c(2)] atoi_def)
  ultimately have "read_ka c = None" by (simp add: read_ka_def)
  then have "read_config (me_resolve env) (me_stack env) c = None" by (simp add: read_config_def case_prod_unfold cong: Option.bind_cong)
  then show ?thesis using c0(1) c(1) src(1) by (simp add: main_start_def config_load_from_file_def)
qed

section \<open>Examples\<close>

text \<open>A file like those of \<^verbatim>\<open>src/conf/nt-tunnel\<close>, with encryption disabled, and a system without errors.\<close>

definition sample_deployment :: deployment where
  "sample_deployment = \<lparr>dp_N = 3, dp_K = 2, dp_data_size = 60, dp_decode_buffers = 4, dp_timeout = 2000, dp_processors = 2, dp_queue = 3,
     dp_buffer_size = 50, dp_api = (str ''0.0.0.0'', str ''6661''), dp_tun = (str ''0.0.0.0'', str ''6662''), dp_reporter = (str ''0.0.0.0'', str ''6660''),
     dp_echo = Some (str ''0.0.0.0'', str ''6663''), dp_paths = two_texts, dp_rows = [[0, 1], [1]]\<rparr>"

definition sample_main_file :: "config_line list" where
  "sample_main_file =
    [Skipped (str ''# FEC''), setting_line (str ''N'', str ''3''), setting_line (str ''K'', str ''2''), setting_line (str ''max_fec_data_size'', str ''60''),
     setting_line (str ''decode_buffer_num'', str ''4''), Skipped [], Setting [9] (str ''max_udp_buffer_size'') [32, 32] [] (str ''50'') [13],
     setting_line (str ''api_local'', str ''0.0.0.0:6661''), setting_line (str ''tun_local'', str ''0.0.0.0:6662''),
     setting_line (str ''reporter_local'', str ''0.0.0.0:6660''), setting_line (str ''echo_local'', str ''0.0.0.0:6663''),
     setting_line (str ''enable_encrypt'', str ''false''), setting_line (str ''paths'', str ''10.0.0.1:4000-10.0.0.22:80,x:7''),
     setting_line (str ''seq2addr'', str ''0,1;1''), Skipped (str ''# Performance''), setting_line (str ''processor_num'', str ''2''),
     setting_line (str ''mq_capacity'', str ''3'')]"

text \<open>The file \<^verbatim>\<open>src/conf/nt-tunnel/config.tun.tun-end1\<close>.\<close>

definition shipped_file :: "config_line list" where
  "shipped_file =
    [Skipped (str ''# FEC''),
     setting_line (str ''N'', str ''10''),
     setting_line (str ''K'', str ''6''),
     setting_line (str ''max_fec_data_size'', str ''2000''),
     setting_line (str ''decode_buffer_num'', str ''40000''),
     Skipped [],
     Skipped (str ''## in ms, default is 2000''),
     setting_line (str ''decode_timeout'', str ''2000''),
     Skipped [],
     Skipped (str ''# Network''),
     setting_line (str ''max_udp_buffer_size'', str ''4000''),
     setting_line (str ''api_local'', str ''0.0.0.0:6661''),
     setting_line (str ''tun_local'', str ''0.0.0.0:6662''),
     setting_line (str ''reporter_local'', str ''0.0.0.0:6660''),
     setting_line (str ''echo_local'', str ''0.0.0.0:6663''),
     Skipped [],
     Skipped (str ''## true if missing''),
     setting_line (str ''enable_fec'', str ''true''),
     Skipped [],
     Skipped (str ''## false if missing''),
     setting_line (str ''enable_direct'', str ''false''),
     Skipped [],
     setting_line (str ''paths'', str ''local_ip1:port-remote_ip:port,local_ip2:port-remote_ip:port''),
     setting_line (str ''seq2addr'', str ''0,3;1,3;2,3;0,3;1,3;2,3;0;1;2;0''),
     Skipped [],
     Skipped (str ''# Performance''),
     setting_line (str ''processor_num'', str ''10''),
     setting_line (str ''mq_capacity'', str ''4096''),
     Skipped [],
     Skipped (str ''# Misc''),
     setting_line (str ''log_priority'', str ''ALL'')]"

definition sample_main_env :: "config_line list \<Rightarrow> 'w main_env" where
  "sample_main_env ls = \<lparr>me_open = (\<lambda>path. if path = str ''conf'' then Some (concat (map line_text ls)) else None), me_resolve = numeric_resolver, me_sys = fine_syscalls,
     me_stack = \<lparr>ms_address = Addr_in 1 1, ms_path = some_path 0, ms_paths = (\<lambda>_. some_path 0), ms_table = (\<lambda>_. 7), ms_udp = \<lparr>udp_fd = 99\<rparr>,
       ms_distributor = some_distributor\<rparr>,
     me_settings = no_setting, me_counters = some_counter, me_cells = (\<lambda>_. 5), me_processors = (\<lambda>_. plain_processor_env), me_dup_kvs = (\<lambda>_ _. (3, 4)),
     me_codecs = no_entry, me_packets = (\<lambda>_. 1), me_tun = plain_listener_env 0, me_api = plain_listener_env 500, me_mem = (\<lambda>_. replicate 50 0),
     me_reporter = \<lparr>re_env = \<lparr>current_millis = (\<lambda>w. (100, w)), run_timer = (\<lambda>cb dt d w. None), run_handler = (\<lambda>h ev d w. None),
         pre_loop = None, epoll_wait = (\<lambda>n t w. (Inr [], w))\<rparr>,
       re_epoll = (4, 0), re_add = (0, 0), re_timers = (\<lambda>_. some_timer), re_callbacks = (1, 2), re_self = (3, 4)\<rparr>,
     me_echo = \<lparr>ee_mem = echo_junk, ee_links = (\<lambda>_. \<lparr>prev = None, next = None\<rparr>), ee_kvs = (\<lambda>_. (echo_key (nt_api_header_init 0 0 0 0 0 0), 0, 0)),
       ee_listener = plain_listener_env 900\<rparr>,
     me_thread = (\<lambda>_. 0)\<rparr>"

lemma sample_main_file_ok: "list_all line_ok sample_main_file"
  by code_simp

lemma shipped_file_ok: "list_all line_ok shipped_file"
  by code_simp

lemma sample_settings: "rev (concat (map line_setting sample_main_file)) =
    [(str ''mq_capacity'', decimal 3), (str ''processor_num'', decimal 2), (str ''seq2addr'', rows_text [[0, 1], [1]]), (str ''paths'', paths_text two_texts),
     (str ''enable_encrypt'', str ''false''), (str ''echo_local'', endpoint_text (str ''0.0.0.0'', str ''6663'')),
     (str ''reporter_local'', endpoint_text (str ''0.0.0.0'', str ''6660'')), (str ''tun_local'', endpoint_text (str ''0.0.0.0'', str ''6662'')),
     (str ''api_local'', endpoint_text (str ''0.0.0.0'', str ''6661'')), (str ''max_udp_buffer_size'', decimal 50), (str ''decode_buffer_num'', decimal 4),
     (str ''max_fec_data_size'', decimal 60), (str ''K'', decimal 2), (str ''N'', decimal 3)]"
  by code_simp

lemma sample_describes: "describes (map_of (rev (concat (map line_setting sample_main_file)))) sample_deployment"
  unfolding sample_settings by (simp add: describes_def sample_deployment_def str_def)

lemma sample_deployment_ok: "deployment_ok sample_deployment"
proof -
  have "list_all path_ok two_texts" by (simp add: two_texts_def path_ok_def, intro conjI; code_simp)
  moreover have "endpoint_ok (str ''0.0.0.0'', str ''6660'')" "endpoint_ok (str ''0.0.0.0'', str ''6661'')" "endpoint_ok (str ''0.0.0.0'', str ''6662'')" by code_simp+
  moreover have "two_texts \<noteq> []" "length two_texts = 2" by (simp_all add: two_texts_def)
  ultimately show ?thesis by (simp add: deployment_ok_def sample_deployment_def)
qed

lemma sample_env_fine: "main_env_ok (sample_main_env ls :: 'w main_env) sample_deployment"
proof -
  have "sys_fine (fine_syscalls :: 'w syscalls)" by (simp add: sys_fine_def fine_syscalls_def)
  moreover have "processor_env_ok 3 plain_processor_env" by (simp add: processor_env_ok_def plain_processor_env_def all_fine_def inj_on_def far_apart_def)
  moreover have "listener_env_ok 3 50 (\<lambda>_. replicate 50 0) (plain_listener_env b)" for b
    by (simp add: listener_env_ok_def plain_listener_env_def inj_on_def far_apart_def)
  moreover have "le_buffers (plain_listener_env 0) ` {..<3} \<inter> le_buffers (plain_listener_env 500) ` {..<3} = {}"
    by (simp add: plain_listener_env_def far_apart_def numeral_3_eq_3 lessThan_Suc)
  moreover have "inj (le_buffers (plain_listener_env 900))" by (simp add: plain_listener_env_def inj_def far_apart_def)
  moreover have "le_epoll (plain_listener_env 900) = (6, 0)" "le_add (plain_listener_env 900) = (0, 0)" by (simp_all add: plain_listener_env_def)
  ultimately show ?thesis by (simp add: main_env_ok_def sample_main_env_def sample_deployment_def)
qed

theorem service_never_aborts_witness:
  "\<exists>s t. main_start (sample_main_env sample_main_file) [str ''nettle'', str ''conf''] [replicate 20 1] = Some (Inr (Rs_service s)) \<and>
    length (tn_processors (sv_tunnel s)) = 2 \<and>
    react (loopback (Addr_in 9 9)) \<lparr>udp_fd = 3\<rparr> \<lparr>udp_fd = 3\<rparr> Api_readable (sv_tunnel s) = Some t"
proof -
  let ?env = "sample_main_env sample_main_file :: u8 list list main_env"
  let ?qs = "map (the \<circ> resolve_path numeric_resolver) two_texts"
  have src: "me_open ?env (str ''conf'') = Some (concat (map line_text sample_main_file))" by (simp add: sample_main_env_def)
  have qs: "map (resolve_path (me_resolve ?env)) (dp_paths sample_deployment) = map Some ?qs"
    by (simp add: sample_main_env_def sample_deployment_def two_texts_def resolve_path_def numeric_resolver_def)
  have en: "enabled Api_readable t" for t :: "(read_handler, nt_rs_fec_t, u8 list list) tunnel" by (simp add: enabled_def)
  have two: "dp_processors sample_deployment = 2" by (simp add: sample_deployment_def)
  obtain s where s: "main_start ?env [str ''nettle'', str ''conf''] [replicate 20 1] = Some (Inr (Rs_service s))" "length (tn_processors (sv_tunnel s)) = dp_processors sample_deployment"
    "\<forall>api tun t. reachable (loopback (Addr_in 9 9)) api tun (sv_tunnel s) t \<longrightarrow> (\<forall>e. enabled e t \<longrightarrow> (\<exists>t'. react (loopback (Addr_in 9 9)) api tun e t = Some t'))"
    using service_never_aborts [OF src sample_main_file_ok sample_describes sample_deployment_ok qs sample_env_fine, of "loopback (Addr_in 9 9)" "str ''nettle''" "[replicate 20 1]"]
    by auto
  then show ?thesis using reachable.start en two by metis
qed

theorem missing_port_crashes_witness:
  "main_start (sample_main_env shipped_file) [str ''nettle'', str ''conf''] () = None"
proof (rule missing_port_crashes [OF _ shipped_file_ok])
  show "me_open (sample_main_env shipped_file) (str ''conf'') = Some (concat (map line_text shipped_file))" by (simp add: sample_main_env_def)
  show "map_of (rev (concat (map line_setting shipped_file))) (str ''enable_encrypt'') \<in> {None, Some (str ''true'')}" by code_simp
  show "map_of (rev (concat (map line_setting shipped_file))) (str ''ka_port'') = None" by code_simp
qed

end
