(* ===== verification/Nt_Tools.thy ===== *)
theory Nt_Tools
  imports Nt_Main
begin

text \<open>
  Programs that read a file of settings or the command line and end or enter one event loop: \<^verbatim>\<open>src/src/main/proxy/main.c\<close>,
  \<^verbatim>\<open>tools/nt_tun_tap_main.c\<close> and \<^verbatim>\<open>tools/nt_config_main.c\<close>. \<open>Inl\<close> is the number with which a program exits. Behind the last
  argument there is \<open>NULL\<close>.
\<close>

section \<open>Reading a setting\<close>

text \<open>\<open>main\<close> of \<^verbatim>\<open>nt_config_main.c\<close>; the result is the exit code and what is printed.\<close>

definition config_main :: "(cstring, cstring) junk \<Rightarrow> (cstring \<Rightarrow> u8 list option) \<Rightarrow> cstring list \<Rightarrow> (int \<times> cstring) option" where
  "config_main mem fopen argv =
     (if length argv < 3 then Some (EINVAL, [])
      else do {
        c \<leftarrow> config_init mem;
        (ok, c) \<leftarrow> config_load_from_file mem c (fopen (argv ! 1));
        ensure ok;
        v \<leftarrow> config_get c (argv ! 2);
        (case v of None \<Rightarrow> Some (1, []) | Some s \<Rightarrow> Some (0, s))
      })"

section \<open>The proxy\<close>

record proxy_stack =
  py_local :: address_t
  py_tunnel :: address_t

text \<open>
  \<open>main\<close> of \<^verbatim>\<open>proxy/main.c\<close> up to the event loop; \<open>add1\<close>, \<open>add2\<close> and \<open>remove\<close> are the results of the registrations. \<open>stk\<close> are the
  addresses on the stack, which stay when \<open>parse_address\<close> fails.
\<close>

definition proxy_main ::
    "'w syscalls \<Rightarrow> (cstring, cstring) junk \<Rightarrow> (cstring \<Rightarrow> u8 list option) \<Rightarrow> resolver \<Rightarrow> proxy_stack \<Rightarrow> nat \<times> nat \<Rightarrow> nat \<times> nat \<Rightarrow> 'h \<Rightarrow>
     sysret \<Rightarrow> (nat \<Rightarrow> (nat, nat) timer_entry_t entry_t) \<Rightarrow> sysret \<Rightarrow> sysret \<Rightarrow> sysret \<Rightarrow> cstring list \<Rightarrow> 'w \<Rightarrow>
     ((int + 'h nt_proxy_t \<times> (nat, nat) dispatcher_t) \<times> 'w) option" where
  "proxy_main k mem fopen resolve stk cbs self h ep heap add1 add2 remove argv w =
     (if length argv < 2 then Some (Inl EINVAL, w)
      else do {
        c \<leftarrow> config_init mem;
        (ok, c) \<leftarrow> config_load_from_file mem c (fopen (argv ! 1));
        ensure ok;
        v \<leftarrow> config_get_default c (str ''log_priority'') (Some (str ''ALL''));
        priority \<leftarrow> log_parse_priority v;
        tun_tap_name \<leftarrow> config_get c (str ''tun_tap_name'');
        tun_tap_buffer_size \<leftarrow> int_setting c (str ''tun_tap_buffer_size'');
        local_addr \<leftarrow> address_setting resolve (py_local stk) c (str ''local'');
        tunnel_addr \<leftarrow> address_setting resolve (py_tunnel stk) c (str ''tunnel'');
        (r, w) \<leftarrow> nt_proxy_init k cbs self h tun_tap_name local_addr tunnel_addr tun_tap_buffer_size w;
        (case r of
           Inl err \<Rightarrow> Some (Inl err, w)
         | Inr proxy \<Rightarrow>
             (case dispatcher_init1 (fst ep) (snd ep) heap 100 of
                Inl err \<Rightarrow> Some (Inl err, w)
              | Inr d \<Rightarrow> do {
                  err \<leftarrow> dispatcher_add_nt_proxy add1 add2 remove;
                  ensure (err = 0);
                  Some (Inr (proxy, d), w)
                }))
      })"

section \<open>Creating and deleting devices\<close>

datatype op_t = OP_CREATE | OP_DELETE

record tun_options =
  to_op :: op_t
  to_name :: "cstring option"
  to_is_tap :: bool
  to_no_pi :: bool

fun tun_options_loop :: "cstring list \<Rightarrow> tun_options \<Rightarrow> bool \<times> tun_options" where
  "tun_options_loop [] opts = (True, opts)"
| "tun_options_loop (a # as) opts =
     (if a = str ''-tap'' then tun_options_loop as (opts\<lparr>to_is_tap := True\<rparr>)
      else if a = str ''-nopi'' then tun_options_loop as (opts\<lparr>to_no_pi := True\<rparr>)
      else if (case a of [] \<Rightarrow> 0 | c # s \<Rightarrow> c) \<noteq> 45 \<and> to_name opts = None then tun_options_loop as (opts\<lparr>to_name := Some a\<rparr>)
      else (False, opts))"

text \<open>The result is the options, if the arguments are accepted.\<close>

definition tun_options_parse :: "cstring list \<Rightarrow> tun_options option" where
  "tun_options_parse argv =
     (if length argv < 2 then None
      else do {
        oper \<leftarrow> (if argv ! 1 = str ''create'' then Some OP_CREATE else if argv ! 1 = str ''delete'' then Some OP_DELETE else None);
        let (ok, opts) = tun_options_loop (drop 2 argv) \<lparr>to_op = oper, to_name = None, to_is_tap = False, to_no_pi = False\<rparr>;
        if \<not> ok then None
        else if to_op opts = OP_DELETE \<and> to_name opts = None then None
        else Some opts
      })"

text \<open>The two branches of \<open>main\<close> differ in the flag only; \<open>require\<close> exits with the error number.\<close>

definition tun_tap_main :: "'w syscalls \<Rightarrow> cstring list \<Rightarrow> 'w \<Rightarrow> int \<times> 'w" where
  "tun_tap_main k argv w =
     (case tun_options_parse argv of
        None \<Rightarrow> (EINVAL, w)
      | Some opts \<Rightarrow>
          (let (r, w) = tun_tap_init k (to_name opts) (to_is_tap opts) (to_no_pi opts) w in
           case r of
             Inl err \<Rightarrow> (err, w)
           | Inr t \<Rightarrow>
               (let (err, w) = tun_tap_set_persist k t (to_op opts = OP_CREATE) w in
                if err \<noteq> 0 then (err, w)
                else let (err, w) = tun_tap_close k t w in (if err \<noteq> 0 then (err, w) else (0, w)))))"

section \<open>What the programs do\<close>

text \<open>A file of settings is read as its map.\<close>

lemma load_file_map:
  assumes "list_all line_ok ls"
  shows "\<exists>c0 c. config_init mem = Some c0 \<and> config_load_from_file mem c0 (Some (concat (map line_text ls))) = Some (True, c) \<and> hm_ok (config_map c) \<and>
    hm_map (config_map c) = map_of (rev (concat (map line_setting ls)))"
proof -
  obtain c0 where c0: "config_init mem = Some c0" "hm_ok (config_map c0)" "hm_map (config_map c0) = Map.empty" using config_init_spec by blast
  obtain c where "load_lines mem c0 (concat (map line_text ls) @ []) = Some c" "hm_ok (config_map c)"
    "hm_map (config_map c) = Map.empty ++ map_of (rev (concat (map line_setting ls)))"
    using load_lines_spec [OF load_nothing assms c0(2), of mem] unfolding c0(3) by (elim exE conjE)
  then show ?thesis using c0(1) by (intro exI [of _ c0] exI [of _ c]) (simp add: config_load_from_file_def)
qed

lemma config_main_prints:
  assumes "fopen path = Some (concat (map line_text ls))" "list_all line_ok ls"
  shows "config_main mem fopen [prog, path, key] =
    Some (case map_of (rev (concat (map line_setting ls))) key of None \<Rightarrow> (1, []) | Some s \<Rightarrow> (0, s))"
proof -
  obtain c0 c where "config_init mem = Some c0" "config_load_from_file mem c0 (Some (concat (map line_text ls))) = Some (True, c)" "hm_ok (config_map c)"
    "hm_map (config_map c) = map_of (rev (concat (map line_setting ls)))" using load_file_map [OF assms(2)] by blast
  then show ?thesis using assms(1) by (simp add: config_main_def config_get_map split: option.splits)
qed

text \<open>What \<^verbatim>\<open>bin/start-proxy.sh\<close> writes into the file, in any order and with other lines between, is enough for the proxy.\<close>

lemma proxy_main_starts:
  assumes src: "fopen path = Some (concat (map line_text ls))" "list_all line_ok ls"
    and m: "m = map_of (rev (concat (map line_setting ls)))" "m (str ''tun_tap_name'') = Some name" "m (str ''tun_tap_buffer_size'') = Some (decimal n)" "n < 2 ^ 31"
      "m (str ''local'') = Some (endpoint_text el)" "m (str ''tunnel'') = Some (endpoint_text et)" "m (str ''log_priority'') = None"
    and ends: "endpoint_ok el" "endpoint_ok et" "resolve (fst el) (snd el) SOCK_DGRAM = Some a1" "resolve (fst et) (snd et) SOCK_DGRAM = Some a2"
    and k: "sys_fine k" "\<And>w. 0 \<le> fst (fst (sys_open_tun k w))" "\<And>fd f nm w. 0 \<le> fst (fst (fst (sys_tunsetiff k fd f nm w)))"
    and su: "0 \<le> fst ep" "fst add1 = 0" "fst add2 = 0"
  shows "\<exists>p d w'. proxy_main k mem fopen resolve stk cbs self h ep heap add1 add2 remove [prog, path] w = Some (Inr (p, d), w') \<and>
    px_local_addr p = a1 \<and> px_tunnel_addr p = a2 \<and> px_buffer_size p = int n"
proof -
  obtain c0 c where c: "config_init mem = Some c0" "config_load_from_file mem c0 (Some (concat (map line_text ls))) = Some (True, c)" "hm_ok (config_map c)"
    "hm_map (config_map c) = m" using load_file_map [OF src(2)] m(1) by blast
  have "str ''ALL'' \<in> set PRIORITY_NAMES" by (simp add: PRIORITY_NAMES_def)
  then obtain i where i: "log_parse_priority (Some (str ''ALL'')) = Some i" using log_parse_priority_known by blast
  have addrs: "address_setting resolve x c (str ''local'') = Some a1" "address_setting resolve x c (str ''tunnel'') = Some a2" for x
    using scan_endpoint_text [of el "[]"] scan_endpoint_text [of et "[]"] ends m c(4) by (simp_all add: address_setting_def config_get_map [OF c(3)] parse_address_def)
  have size: "int_setting c (str ''tun_tap_buffer_size'') = Some (int n)" using int_setting_decimal [OF c(3)] m(3,4) c(4) by simp
  obtain t w1 where t: "tun_tap_init k (Some name) False False w = (Inr t, w1)"
    using k(2) [of w] k(3) by (auto simp: tun_tap_init_def Let_def case_prod_unfold not_less [symmetric])
  obtain udp w2 where udp: "udp_init k (Some a1) False w1 = (Inr udp, w2)" using udp_init_fine [OF k(1)] by blast
  show ?thesis
    using src(1) c(1,2) i addrs size t udp su m(2,7) c(4)
    by (simp add: proxy_main_def config_default_map [OF c(3)] config_get_map [OF c(3)] nt_proxy_init_def dispatcher_init1_def dispatcher_init_def
        dispatcher_add_nt_proxy_def dispatcher_add_handler_def dispatcher_add_udp_def)
qed

text \<open>A kernel that remembers the devices that stay: creating adds a device under its name, as far as there is room for it, and deleting removes it.\<close>

record devices =
  dv_stay :: "u8 list set"
  dv_open :: "int \<rightharpoonup> u8 list"

definition device_kernel :: "devices syscalls" where
  "device_kernel = \<lparr>sys_socket = Pair (3, 0), sys_getfl = (\<lambda>fd. Pair (0, 0)), sys_setfl = (\<lambda>fd f. Pair (0, 0)), sys_setsockopt = (\<lambda>fd opt. Pair (0, 0)),
     sys_bind = (\<lambda>fd a. Pair (0, 0)), sys_close = (\<lambda>fd w. ((0, 0), w\<lparr>dv_open := (dv_open w)(fd := None)\<rparr>)), sys_open_tun = Pair (7, 0),
     sys_tunsetiff = (\<lambda>fd f name w. (((0, 0), name), w\<lparr>dv_open := (dv_open w)(fd \<mapsto> name)\<rparr>)),
     sys_tunsetpersist = (\<lambda>fd v w. ((0, 0), case dv_open w fd of None \<Rightarrow> w
       | Some name \<Rightarrow> w\<lparr>dv_stay := (if v = 1 then insert name (dv_stay w) else dv_stay w - {name})\<rparr>))\<rparr>"

lemma tun_tap_create_delete:
  assumes "case name of [] \<Rightarrow> True | c # s \<Rightarrow> c \<noteq> 45" "dv_open w = Map.empty"
  shows "tun_tap_main device_kernel [prog, str ''create'', name] w = (0, w\<lparr>dv_stay := insert (strncpy TUN_TAP_NAME_SIZE name) (dv_stay w)\<rparr>)"
    and "tun_tap_main device_kernel [prog, str ''delete'', name] w = (0, w\<lparr>dv_stay := dv_stay w - {strncpy TUN_TAP_NAME_SIZE name}\<rparr>)"
proof -
  have opts: "name \<noteq> str ''-tap''" "name \<noteq> str ''-nopi''" "(case name of [] \<Rightarrow> 0 | c # s \<Rightarrow> c) \<noteq> 45" using assms(1) by (auto simp: str_def split: list.splits)
  have ne: "str ''delete'' \<noteq> str ''create''" by (simp add: str_def)
  let ?name = "strncpy TUN_TAP_NAME_SIZE name" and ?k = device_kernel
  obtain t where t: "tun_tap_init ?k (Some name) False False w = (Inr t, w\<lparr>dv_open := [tt_fd t \<mapsto> ?name]\<rparr>)"
    using assms(2) by (auto simp: tun_tap_init_def device_kernel_def Let_def)
  have persist: "tun_tap_set_persist ?k t on (w\<lparr>dv_open := [tt_fd t \<mapsto> ?name]\<rparr>) =
      (0, w\<lparr>dv_open := [tt_fd t \<mapsto> ?name], dv_stay := (if on then insert ?name (dv_stay w) else dv_stay w - {?name})\<rparr>)" for on
    by (simp add: tun_tap_set_persist_def device_kernel_def)
  have close: "tun_tap_close ?k t (w\<lparr>dv_open := [tt_fd t \<mapsto> ?name], dv_stay := S\<rparr>) = (0, w\<lparr>dv_stay := S\<rparr>)" for S
    using assms(2) by (cases w) (simp add: tun_tap_close_def device_kernel_def)
  have parse: "tun_options_parse [prog, str ''create'', name] = Some \<lparr>to_op = OP_CREATE, to_name = Some name, to_is_tap = False, to_no_pi = False\<rparr>"
    "tun_options_parse [prog, str ''delete'', name] = Some \<lparr>to_op = OP_DELETE, to_name = Some name, to_is_tap = False, to_no_pi = False\<rparr>"
    using opts ne by (simp_all add: tun_options_parse_def)
  show "tun_tap_main ?k [prog, str ''create'', name] w = (0, w\<lparr>dv_stay := insert ?name (dv_stay w)\<rparr>)"
    "tun_tap_main ?k [prog, str ''delete'', name] w = (0, w\<lparr>dv_stay := dv_stay w - {?name}\<rparr>)"
    by (simp_all add: tun_tap_main_def parse t persist close)
qed

end
