(* ===== verification/Echo_Tools.thy ===== *)
theory Echo_Tools
  imports Echo_Client Nt_Tools
begin

text \<open>
  The programs around the echo client and server, \<^verbatim>\<open>src/src/main/tools/nt_monitor_main.c\<close> and \<^verbatim>\<open>nt_echo_main.c\<close>, up to the event loop.
  \<open>nt_echo_main.c\<close> goes on using its codec and its table after the block of their declarations has ended; here they stay.
\<close>

section \<open>The code\<close>

text \<open>What the programs find: results of the kernel, contents of fresh memory and of the stack.\<close>

record 'w tool_env =
  te_open :: "cstring \<Rightarrow> u8 list option"
  te_resolve :: resolver
  te_sys :: "'w syscalls"
  te_env :: "(nat, nat, 'w) env"
  te_epoll :: sysret
  te_timers :: "nat \<Rightarrow> (nat, nat) timer_entry_t entry_t"
  te_add1 :: sysret
  te_add2 :: sysret
  te_callback :: nat
  te_self :: nat
  te_settings :: "(cstring, cstring) junk"
  te_counters :: "(u8 list, nat) junk"
  te_cells :: "nat \<Rightarrow> u64"
  te_codecs :: "(u64, nat) junk"
  te_links :: "addr links"
  te_dup_kvs :: "nat \<Rightarrow> u64 \<times> int"
  te_rs_kvs :: "nat \<Rightarrow> u64 \<times> nat"
  te_words :: "nat \<Rightarrow> u32"
  te_decoders :: "nat \<Rightarrow> decode_buffer_t"
  te_encoder :: encode_buffer_t
  te_address :: address_t
  te_paths :: "nat \<Rightarrow> nt_path_t"
  te_table :: "nat \<Rightarrow> int"
  te_distributor :: nt_distributor_t
  te_dispatcher :: "(nat, nat) dispatcher_t"
  te_udp :: udp_t
  te_host :: address_t

type_synonym client_run = "session_t \<times> (nat, nat) dispatcher_t"

definition start_client :: "'w tool_env \<Rightarrow> nt_distributor_t \<Rightarrow> int \<Rightarrow> int \<Rightarrow> address_t option \<Rightarrow> 'w \<Rightarrow> ((int + client_run) \<times> 'w) option" where
  "start_client e d n qps tun w = udp_client_start (te_sys e) (te_env e) (te_epoll e) (te_timers e) (te_dispatcher e) (te_udp e) (te_add1 e) (te_add2 e)
     (te_callback e) (te_self e) d n qps tun NT_ENCRYPT_TYPE_KC w"

text \<open>\<open>ping\<close> sends every packet once, along the path of the row with the number 0. The array on the stack must not be empty.\<close>

definition ping ::
    "'w tool_env \<Rightarrow> nt_path_t list \<Rightarrow> int \<Rightarrow> int \<Rightarrow> int \<Rightarrow> address_t option \<Rightarrow> idgen_t \<Rightarrow> 'w \<Rightarrow> ((int + nt_dup_fec_t \<times> client_run) \<times> 'w) option" where
  "ping e paths num n qps tun idgen w = do {
     fec \<leftarrow> nt_dup_fec_init (te_codecs e) (te_links e) (te_dup_kvs e) 1 0 0 idgen;
     ensure (0 < num);
     let seq2addr = map int [0..<nat num];
     (ok, d) \<leftarrow> nt_distributor_init (te_distributor e) paths num seq2addr num 1;
     ensure ok;
     (r, w) \<leftarrow> start_client e d n qps tun w;
     Some (map_sum id (Pair fec) r, w)
   }"

text \<open>\<open>te_host\<close> is the address that \<open>address_from\<close> gives for \<^verbatim>\<open>127.0.0.1\<close> without a port.\<close>

definition monitor_main :: "'w tool_env \<Rightarrow> cstring list \<Rightarrow> 'w \<Rightarrow> ((int + nt_dup_fec_t \<times> client_run) \<times> 'w) option" where
  "monitor_main e argv w =
     (if length argv < 2 then Some (Inl EINVAL, w)
      else do {
        c \<leftarrow> config_init (te_settings e);
        (ok, c) \<leftarrow> config_load_from_file (te_settings e) c (te_open e (argv ! 1));
        ensure ok;
        v \<leftarrow> config_get c (str ''ping_qps'');
        if v = None then Some (Inl 1, w)
        else do {
          qps \<leftarrow> int_setting c (str ''ping_qps'');
          n \<leftarrow> int_setting c (str ''ping_count'');
          api_local \<leftarrow> address_setting (te_resolve e) (te_address e) c (str ''api_local'');
          v \<leftarrow> config_get c (str ''ping_paths'');
          s \<leftarrow> v;
          (paths, num, rest) \<leftarrow> parse_paths (te_resolve e) (map (te_paths e) [0..<nat MAX_PATH_NUM]) MAX_PATH_NUM s;
          let tunnel_addr = address_set_port (te_host e) (address_get_port api_local);
          perf \<leftarrow> perf_init (te_counters e) (te_cells e) nt_counter_names nt_counter_num;
          ping e paths 1 n qps (Some tunnel_addr) (idgen_init 0) w
        }
      })"

text \<open>The strategy of the client: both codecs with their distributors.\<close>

datatype echo_codec = Dup_codec nt_dup_fec_t | Rs_codec nt_rs_fec_t

definition MAX_ADDRS :: int where "MAX_ADDRS = 32"
definition DECODE_BUFFER_SIZE :: int where "DECODE_BUFFER_SIZE = 10000"

text \<open>The branch for \<open>dup\<close>; a distributor that cannot be set up ends the program.\<close>

definition dup_strategy :: "'w tool_env \<Rightarrow> nt_path_t list \<Rightarrow> int \<Rightarrow> (echo_codec \<times> nt_distributor_t) option option" where
  "dup_strategy e paths num = do {
     fec \<leftarrow> nt_dup_fec_init (te_codecs e) (te_links e) (te_dup_kvs e) (word_of_int num) 0 0 (idgen_init 0);
     ensure (0 < num);
     (ok, d) \<leftarrow> nt_distributor_init (te_distributor e) paths num (map int [0..<nat num]) num 1;
     Some (if ok then Some (Dup_codec fec, d) else None)
   }"

text \<open>The branch for \<open>rs\<close>, which takes three more arguments.\<close>

definition rs_strategy :: "'w tool_env \<Rightarrow> nt_path_t list \<Rightarrow> int \<Rightarrow> cstring \<Rightarrow> cstring \<Rightarrow> cstring \<Rightarrow> (echo_codec \<times> nt_distributor_t) option option" where
  "rs_strategy e paths num N K rows = do {
     N \<leftarrow> atoi (Some N);
     K \<leftarrow> atoi (Some K);
     (table, rest) \<leftarrow> parse_seq2addr (map (te_table e) [0..<nat (MAX_SEQ_NUM * MAX_DUP_NUM)]) MAX_SEQ_NUM MAX_DUP_NUM rows;
     fec \<leftarrow> nt_rs_fec_init (te_words e) (te_codecs e) (te_links e) (te_rs_kvs e) (te_decoders e) (te_encoder e) (word_of_int N) (word_of_int K) (int BUF_LEN)
       DECODE_BUFFER_SIZE 2000 (idgen_init 0);
     (ok, d) \<leftarrow> nt_distributor_init (te_distributor e) paths num table MAX_SEQ_NUM MAX_DUP_NUM;
     Some (if ok then Some (Rs_codec fec, d) else None)
   }"

datatype echo_run = Echo_client echo_codec client_run | Echo_server "server_t \<times> udp_t \<times> (nat, nat) dispatcher_t"

text \<open>\<open>Inl\<close> is the exit code, or the error that \<open>udp_client\<close> and \<open>udp_server\<close> return.\<close>

definition echo_main :: "'w tool_env \<Rightarrow> cstring list \<Rightarrow> 'w \<Rightarrow> ((int + echo_run) \<times> 'w) option" where
  "echo_main e argv w = do {
     kind \<leftarrow> rd argv 1;
     perf \<leftarrow> perf_init (te_counters e) (te_cells e) nt_counter_names nt_counter_num;
     if kind = str ''-c'' then do {
       s \<leftarrow> rd argv 2;
       (paths, num, rest) \<leftarrow> parse_paths (te_resolve e) (map (te_paths e) [0..<nat MAX_ADDRS]) MAX_ADDRS s;
       s \<leftarrow> rd argv 3;
       n \<leftarrow> atoi (Some s);
       s \<leftarrow> rd argv 4;
       qps \<leftarrow> atoi (Some s);
       strategy \<leftarrow> rd argv 5;
       (argi, r) \<leftarrow> (if strategy = str ''dup'' then do { r \<leftarrow> dup_strategy e paths num; Some (6, r) }
         else if strategy = str ''rs'' then do {
           N \<leftarrow> rd argv 6;
           K \<leftarrow> rd argv 7;
           rows \<leftarrow> rd argv 8;
           r \<leftarrow> rs_strategy e paths num N K rows;
           Some (9, r)
         }
         else None);
       (case r of
          None \<Rightarrow> Some (Inl 1, w)
        | Some (codec, d) \<Rightarrow> do {
            let tun_addr = (if argi < length argv then Some (snd (parse_address (te_resolve e) (te_address e) (argv ! argi))) else None);
            (r, w) \<leftarrow> start_client e d n qps tun_addr w;
            Some (map_sum id (Echo_client codec) r, w)
          })
     }
     else if kind = str ''-s'' then do {
       s \<leftarrow> rd argv 2;
       let address = snd (parse_address (te_resolve e) (te_address e) s);
       (r, w) \<leftarrow> udp_server_start (te_sys e) (te_env e) (te_epoll e) (te_timers e) (te_dispatcher e) (te_udp e) (te_add1 e) (te_add2 e)
         (te_callback e) (te_self e) address w;
       Some (map_sum id Echo_server r, w)
     }
     else Some (Inl 1, w)
   }"

section \<open>A start without errors\<close>

text \<open>A table that sends the packet with the number \<open>i\<close> of a block along the path \<open>i\<close> once.\<close>

lemma identity_distributor:
  assumes n: "0 < n" "n \<le> length ps"
  shows "\<exists>d'. nt_distributor_init d ps (int n) (map int [0..<n]) (int n) 1 = Some (True, d') \<and>
    (\<forall>seq dup. nt_distributor_select d' (int seq) (int dup) = Some (if dup = 0 then Some (ps ! (seq mod n)) else None))"
proof -
  let ?t = "map int [0..<n]"
  have "table_row ?t 1 i = [int i]" if "i < n" for i using that by (simp add: table_row_def)
  then have "map (table_row ?t 1) [0..<n] = map (\<lambda>i. [int i]) [0..<n]" by simp
  moreover have "takeWhile (\<lambda>r. 0 \<le> hd r) (map (\<lambda>i. [int i]) [0..<n]) = map (\<lambda>i. [int i]) [0..<n]" by (subst takeWhile_eq_all_conv) simp
  ultimately have rows: "table_rows ?t 1 n = map (\<lambda>i. [int i]) [0..<n]" unfolding table_rows_def by metis
  define d' where "d' = d\<lparr>d_paths := ps, path_num := int n, seq2addr := ?t, seq_num := int n, dup_num := 1\<rparr>"
  have "nt_distributor_init d ps (int n) ?t (int n) 1 = Some (True, d')"
    using distributor_init_cases [of 1 "int n" ?t d ps "int n"] rows by (simp add: d'_def)
  moreover have "nt_distributor_select d' (int seq) (int dup) = Some (if dup = 0 then Some (ps ! (seq mod n)) else None)" for seq dup
  proof (cases "dup = 0")
    case True
    have "seq mod n < n" "seq mod n < length ps" using n by (auto intro: less_le_trans [OF mod_less_divisor])
    then show ?thesis using True n by (simp add: nt_distributor_select_def d'_def rdi_def rd_def zmod_int [symmetric])
  qed (simp add: nt_distributor_select_def d'_def)
  ultimately show ?thesis by blast
qed

lemma dup_init_no_cache:
  "\<exists>fec. nt_dup_fec_init mem links kvs N 0 timeout g = Some fec \<and> dup_N fec = N \<and> dup_idgen fec = g \<and> lrumap_capacity (dedup_cache fec) = 0"
  by (simp add: nt_dup_fec_init_def lrumap_init1_def lrumap_init_def hashmap_init_def hashmap_reset_def hashmap_alloc_def lrumap_capacity_def for_up_done)

definition tool_env_ok :: "'w tool_env \<Rightarrow> bool" where
  "tool_env_ok e \<longleftrightarrow> sys_fine (te_sys e) \<and> 0 \<le> fst (te_epoll e) \<and> fst (te_add1 e) = 0"

lemma start_client_ok:
  assumes e: "tool_env_ok e" and n: "0 \<le> n" "n < 2 ^ 31" "0 < qps"
  shows "\<exists>s d w'. start_client e dstr n qps tun w = Some (Inr (s, d), w') \<and> fresh_session s \<and> ss_count s = n \<and> ss_qps s = qps \<and> ss_tun_addr s = tun \<and>
    ss_distributor s = dstr"
proof -
  let ?h = "make_heap (te_timers e) 1000"
  obtain udp w1 where udp: "udp_init (te_sys e) None False w = (Inr udp, w1)" using udp_init_fine [of "te_sys e" None False w] e by (auto simp: tool_env_ok_def)
  obtain now w2 where now: "current_millis (te_env e) w1 = (now, w2)" by fastforce
  obtain now' w3 where now': "current_millis (te_env e) w2 = (now', w3)" by fastforce
  define dly where "dly = (if qps > 1000 then 1 else 1000 sdiv qps)"
  obtain h where "heap_push ?h (now + dly) (make_timer dly True (te_callback e) (te_self e)) = Some (True, h)"
    using heap_push_room [OF make_heap_ok(1), of "te_timers e" 1000] by (auto simp: make_heap_def)
  moreover have "unat (word_of_int n :: u64) = nat n" using n by (simp add: unsigned_of_int take_bit_int_eq_self)
  ultimately show ?thesis using e udp now now' n(3)
    by (simp add: tool_env_ok_def start_client_def udp_client_start_def dispatcher_init1_def dispatcher_init_def dispatcher_add_udp_def dispatcher_add_handler_def
        dispatcher_add_timer_def dispatcher_add_timer0_def make_timer_def dly_def [symmetric] fresh_session_def Let_def)
qed

section \<open>What the programs start\<close>

text \<open>The paths of a text, in an array of 32.\<close>

lemma parse_paths_array:
  assumes "list_all path_ok ps" "map (resolve_path resolve) ps = map Some qs" "ps \<noteq> []" "length ps \<le> 32"
  shows "\<exists>rest. parse_paths resolve (map fresh [0..<nat 32]) 32 (paths_text ps) = Some (qs @ rest, int (length ps), [])"
  using parse_paths_text [OF assms(1-3), of "[]" 32 "map fresh [0..<32]" 0] assms(4) by (simp add: parse_paths_def)

lemma decimal_nonneg: "n < 2 ^ 31 \<Longrightarrow> 0 \<le> int n \<and> int n < 2 ^ 31"
  by simp

text \<open>
  C40. The probe of a tunnel uses only the first path. With a file of settings that has a rate, a number of packets, the address of the
  tunnel and any list of at most 32 paths, the program starts the echo client with this rate and number of packets and the port of the tunnel, with a codec
  that makes one packet of every message, and every packet is sent once, along the first path of the list, whatever the list holds beyond it.
\<close>

theorem monitor_pings_first_path:
  assumes src: "te_open e path = Some (concat (map line_text ls))" "list_all line_ok ls"
    and m: "m = map_of (rev (concat (map line_setting ls)))" "m (str ''ping_qps'') = Some (decimal qps)" "m (str ''ping_count'') = Some (decimal n)"
      "m (str ''api_local'') = Some (endpoint_text api)" "m (str ''ping_paths'') = Some (paths_text ps)"
    and num: "0 < qps" "qps < 2 ^ 31" "n < 2 ^ 31"
    and ends: "endpoint_ok api" "te_resolve e (fst api) (snd api) SOCK_DGRAM = Some a"
      "list_all path_ok ps" "map (resolve_path (te_resolve e)) ps = map Some qs" "ps \<noteq> []" "length ps \<le> 32"
    and e: "tool_env_ok e"
  shows "\<exists>fec s d w'. monitor_main e [prog, path] w = Some (Inr (fec, s, d), w') \<and> dup_N fec = 1 \<and> fresh_session s \<and> ss_count s = int n \<and> ss_qps s = int qps \<and>
    ss_tun_addr s = Some (address_set_port (te_host e) (address_get_port a)) \<and>
    (\<forall>seq dup. nt_distributor_select (ss_distributor s) (int seq) (int dup) = Some (if dup = 0 then Some (hd qs) else None))"
proof -
  obtain c0 c where c: "config_init (te_settings e) = Some c0" "config_load_from_file (te_settings e) c0 (Some (concat (map line_text ls))) = Some (True, c)"
    "hm_ok (config_map c)" "hm_map (config_map c) = m" using load_file_map [OF src(2)] m(1) by blast
  have ints: "int_setting c (str ''ping_qps'') = Some (int qps)" "int_setting c (str ''ping_count'') = Some (int n)"
    using int_setting_decimal [OF c(3)] m(2,3) num c(4) by simp_all
  have addr: "address_setting (te_resolve e) x c (str ''api_local'') = Some a" for x
    using scan_endpoint_text [of api "[]"] ends(1,2) m(4) c(4) by (simp add: address_setting_def config_get_map [OF c(3)] parse_address_def)
  obtain rest where paths: "parse_paths (te_resolve e) (map (te_paths e) [0..<nat 32]) 32 (paths_text ps) = Some (qs @ rest, int (length ps), [])"
    using parse_paths_array [OF ends(3-6)] by blast
  obtain perf where perf: "perf_init (te_counters e) (te_cells e) nt_counter_names nt_counter_num = Some perf" using nt_perf_init by blast
  obtain fec where fec: "nt_dup_fec_init (te_codecs e) (te_links e) (te_dup_kvs e) 1 0 0 (idgen_init 0) = Some fec" "dup_N fec = 1"
    using dup_init_no_cache [of "te_codecs e" "te_links e" "te_dup_kvs e" 1 0 "idgen_init 0"] by blast
  have qs: "qs \<noteq> []" using ends(4,5) by auto
  then have one: "0 < (1 :: nat)" "1 \<le> length (qs @ rest)" "(qs @ rest) ! 0 = hd qs" by (cases qs; simp)+
  obtain dstr where dstr: "nt_distributor_init (te_distributor e) (qs @ rest) 1 (map int [0..<1]) 1 1 = Some (True, dstr)"
    "\<forall>seq dup. nt_distributor_select dstr (int seq) (int dup) = Some (if dup = 0 then Some (hd qs) else None)"
    using identity_distributor [OF one(1,2), of "te_distributor e"] one(3) by auto
  let ?tun = "Some (address_set_port (te_host e) (address_get_port a))"
  obtain s d w' where s: "start_client e dstr (int n) (int qps) ?tun w = Some (Inr (s, d), w')" "fresh_session s" "ss_count s = int n" "ss_qps s = int qps"
    "ss_tun_addr s = ?tun" "ss_distributor s = dstr"
    using start_client_ok [OF e, of "int n" "int qps" dstr ?tun w] num by auto
  have "ping e (qs @ rest) 1 (int n) (int qps) ?tun (idgen_init 0) w = Some (Inr (fec, s, d), w')"
    using fec(1) dstr(1) s(1) by (simp add: ping_def)
  then have "monitor_main e [prog, path] w = Some (Inr (fec, s, d), w')"
    using c(1,2) src(1) ints addr paths perf m(2,5) c(4) by (simp add: monitor_main_def config_get_map [OF c(3)] MAX_PATH_NUM_def)
  then show ?thesis using fec(2) s(2-6) dstr(2) by (intro exI [of _ fec] exI [of _ s] exI [of _ d] exI [of _ w']) simp
qed

text \<open>With the duplicating codec the echo client sends the copy \<open>i\<close> of every packet along the path \<open>i\<close>.\<close>

lemma echo_main_dup:
  assumes num: "0 < qps" "qps < 2 ^ 31" "n < 2 ^ 31" and ps: "list_all path_ok ps" "map (resolve_path (te_resolve e)) ps = map Some qs" "ps \<noteq> []" "length ps \<le> 32"
    and e: "tool_env_ok e"
  shows "\<exists>fec s d w'. echo_main e [prog, str ''-c'', paths_text ps, decimal n, decimal qps, str ''dup''] w = Some (Inr (Echo_client (Dup_codec fec) (s, d)), w') \<and>
    dup_N fec = of_nat (length ps) \<and> fresh_session s \<and> ss_count s = int n \<and> ss_qps s = int qps \<and> ss_tun_addr s = None \<and>
    (\<forall>i < length ps. nt_distributor_select (ss_distributor s) (int i) 0 = Some (Some (qs ! i)) \<and> nt_distributor_select (ss_distributor s) (int i) 1 = Some None)"
proof -
  have len: "length qs = length ps" "0 < length ps" using ps(2,3) by (metis length_map, simp)
  obtain rest where paths: "parse_paths (te_resolve e) (map (te_paths e) [0..<nat 32]) 32 (paths_text ps) = Some (qs @ rest, int (length ps), [])"
    using parse_paths_array [OF ps] by blast
  obtain perf where perf: "perf_init (te_counters e) (te_cells e) nt_counter_names nt_counter_num = Some perf" using nt_perf_init by blast
  obtain fec where fec: "nt_dup_fec_init (te_codecs e) (te_links e) (te_dup_kvs e) (of_nat (length ps)) 0 0 (idgen_init 0) = Some fec" "dup_N fec = of_nat (length ps)"
    using dup_init_no_cache [of "te_codecs e" "te_links e" "te_dup_kvs e" "of_nat (length ps)" 0 "idgen_init 0"] by blast
  obtain dstr where dstr: "nt_distributor_init (te_distributor e) (qs @ rest) (int (length ps)) (map int [0..<length ps]) (int (length ps)) 1 = Some (True, dstr)"
    "\<forall>seq dup. nt_distributor_select dstr (int seq) (int dup) = Some (if dup = 0 then Some ((qs @ rest) ! (seq mod length ps)) else None)"
    using identity_distributor [of "length ps" "qs @ rest" "te_distributor e"] len by auto
  obtain s d w' where s: "start_client e dstr (int n) (int qps) None w = Some (Inr (s, d), w')" "fresh_session s" "ss_count s = int n" "ss_qps s = int qps"
    "ss_tun_addr s = None" "ss_distributor s = dstr"
    using start_client_ok [OF e, of "int n" "int qps" dstr None w] num by auto
  have strategy: "dup_strategy e (qs @ rest) (int (length ps)) = Some (Some (Dup_codec fec, dstr))" using fec(1) dstr(1) len(2) by (simp add: dup_strategy_def)
  let ?argv = "[prog, str ''-c'', paths_text ps, decimal n, decimal qps, str ''dup'']"
  have args: "rd ?argv 1 = Some (str ''-c'')" "rd ?argv 2 = Some (paths_text ps)" "rd ?argv 3 = Some (decimal n)" "rd ?argv 4 = Some (decimal qps)"
    "rd ?argv 5 = Some (str ''dup'')" by (simp_all add: rd_def)
  have "echo_main e ?argv w = Some (Inr (Echo_client (Dup_codec fec) (s, d)), w')"
    unfolding echo_main_def args using perf paths atoi_decimal num strategy s(1) by (simp add: MAX_ADDRS_def)
  moreover have "nt_distributor_select dstr (int i) 0 = Some (Some (qs ! i)) \<and> nt_distributor_select dstr (int i) 1 = Some None" if "i < length ps" for i
    using spec [OF spec [OF dstr(2), of i], of 0] spec [OF spec [OF dstr(2), of i], of 1] that len by (simp add: nth_append)
  ultimately show ?thesis using fec(2) s(2-6) by (intro exI [of _ fec] exI [of _ s] exI [of _ d] exI [of _ w']) simp
qed

section \<open>An example\<close>

definition ping_file :: "config_line list" where
  "ping_file = [setting_line (str ''api_local'', str ''0.0.0.0:6661''), Skipped [], setting_line (str ''ping_qps'', str ''10''),
     setting_line (str ''ping_count'', str ''100''), setting_line (str ''ping_paths'', str ''10.0.0.1:4000-10.0.0.22:80,x:7'')]"

definition sample_tool_env :: "unit tool_env" where
  "sample_tool_env = \<lparr>te_open = (\<lambda>path. if path = str ''conf'' then Some (concat (map line_text ping_file)) else None), te_resolve = numeric_resolver,
     te_sys = fine_syscalls, te_env = \<lparr>current_millis = (\<lambda>w. (100, w)), run_timer = (\<lambda>cb dt d w. None), run_handler = (\<lambda>h ev d w. None),
       pre_loop = None, epoll_wait = (\<lambda>n t w. (Inr [], w))\<rparr>,
     te_epoll = (4, 0), te_timers = (\<lambda>_. some_timer), te_add1 = (0, 0), te_add2 = (0, 0), te_callback = 1, te_self = 2, te_settings = no_setting,
     te_counters = some_counter, te_cells = (\<lambda>_. 5), te_codecs = no_entry, te_links = (\<lambda>_. \<lparr>prev = None, next = None\<rparr>), te_dup_kvs = (\<lambda>_. (3, 4)),
     te_rs_kvs = (\<lambda>_. (3, 4)), te_words = (\<lambda>_. 9), te_decoders = (\<lambda>_. some_dc), te_encoder = some_ec, te_address = Addr_in 1 1, te_paths = (\<lambda>_. some_path 0),
     te_table = (\<lambda>_. 7), te_distributor = some_distributor,
     te_dispatcher = \<lparr>epollfd = 9, max_events_per_wait = 9, default_wait_timeout = 9, timer_queue = make_heap (\<lambda>_. some_timer) 1, to_stop = True, d_error = 9\<rparr>,
     te_udp = \<lparr>udp_fd = 99\<rparr>, te_host = Addr_in 127 0\<rparr>"

theorem monitor_pings_first_path_witness:
  "\<exists>fec s d w'. monitor_main sample_tool_env [str ''monitor'', str ''conf''] () = Some (Inr (fec, s, d), w') \<and> ss_count s = 100 \<and>
    ss_tun_addr s = Some (Addr_in 127 6661) \<and>
    nt_distributor_select (ss_distributor s) 5 0 = Some (Some \<lparr>path_src = Addr_in 8 4000, path_dst = Addr_in 9 80\<rparr>) \<and>
    nt_distributor_select (ss_distributor s) 5 1 = Some None"
proof -
  let ?m = "map_of (rev (concat (map line_setting ping_file)))" let ?e = sample_tool_env
  let ?api = "(str ''0.0.0.0'', str ''6661'')" let ?qs = "map (the \<circ> resolve_path numeric_resolver) two_texts"
  have settings: "rev (concat (map line_setting ping_file)) = [(str ''ping_paths'', paths_text two_texts), (str ''ping_count'', decimal 100),
      (str ''ping_qps'', decimal 10), (str ''api_local'', endpoint_text ?api)]" by code_simp
  have src: "te_open ?e (str ''conf'') = Some (concat (map line_text ping_file))" "list_all line_ok ping_file" by (simp add: sample_tool_env_def, code_simp)
  have m: "?m (str ''ping_qps'') = Some (decimal 10)" "?m (str ''ping_count'') = Some (decimal 100)" "?m (str ''api_local'') = Some (endpoint_text ?api)"
    "?m (str ''ping_paths'') = Some (paths_text two_texts)" unfolding settings by (simp_all add: str_def)
  have e: "te_resolve ?e = numeric_resolver" "te_host ?e = Addr_in 127 0" "tool_env_ok ?e" by (simp_all add: sample_tool_env_def tool_env_ok_def sys_fine_def fine_syscalls_def)
  have a: "te_resolve ?e (fst ?api) (snd ?api) SOCK_DGRAM = Some (Addr_in 7 6661)" unfolding e(1) by code_simp
  have ps: "list_all path_ok two_texts" by (simp add: two_texts_def path_ok_def, intro conjI; code_simp)
  have qs: "map (resolve_path (te_resolve ?e)) two_texts = map Some ?qs" unfolding e(1) by (simp add: two_texts_def resolve_path_def numeric_resolver_def)
  have first: "hd ?qs = \<lparr>path_src = Addr_in 8 4000, path_dst = Addr_in 9 80\<rparr>" by code_simp
  have api: "endpoint_ok ?api" by code_simp
  have small: "two_texts \<noteq> []" "length two_texts \<le> 32" by (simp_all add: two_texts_def)
  obtain fec s d w' where run: "monitor_main ?e [str ''monitor'', str ''conf''] () = Some (Inr (fec, s, d), w')" "ss_count s = int 100"
    "ss_tun_addr s = Some (address_set_port (te_host ?e) (address_get_port (Addr_in 7 6661)))"
    "\<forall>seq dup. nt_distributor_select (ss_distributor s) (int seq) (int dup) = Some (if dup = 0 then Some (hd ?qs) else None)"
    using monitor_pings_first_path [OF src refl m _ _ _ api a ps qs small e(3), of "str ''monitor''" "()"] by auto
  have "nt_distributor_select (ss_distributor s) 5 0 = Some (Some (hd ?qs))" "nt_distributor_select (ss_distributor s) 5 1 = Some None"
    using spec [OF spec [OF run(4), of 5], of 0] spec [OF spec [OF run(4), of 5], of 1] by simp_all
  then show ?thesis using run(1-3) first
    by (intro exI [of _ fec] exI [of _ s] exI [of _ d] exI [of _ w']) (simp add: e(2) address_set_port_def address_get_port_def)
qed

end
