(* ===== verification/Spec2Isabelle.thy ===== *)
theory Spec2Isabelle
  imports Rs_Recover Worker_Queue Dispatcher Nt_Client_Main Echo_Tools
begin

text \<open>
  Nettle is a tunnel for UDP traffic over several network paths. Clients hand messages to the tunnel; the
  tunnel groups them into blocks, adds redundant packets, sends every packet along one or more paths, and the
  tunnel at the other end restores the messages from any sufficient part of a block and relays them. This
  development models the program under \<^verbatim>\<open>src/src/main\<close> in the order of its layers. All paths below
  are relative to that directory.

  The parts and their theories.

  \<^item> \<open>C_Prelude\<close>: the C vocabulary. Machine integers are words of their width, \<open>int\<close> values that the code keeps
    small are integers whose bounds are checked. Memory errors and failed \<open>ensure\<close> checks are \<open>None\<close>:
    \<open>rd\<close> and \<open>wr\<close> fail outside of an array, \<open>ensure\<close> fails when its condition does not hold, \<open>for_up\<close> is the counting
    loop. A function that returns \<open>Some\<close> has therefore neither aborted nor left an array.
  \<^item> \<^verbatim>\<open>rs/\<close>: \<open>Galois\<close> (\<^verbatim>\<open>galois.c\<close>, \<^verbatim>\<open>galois.h\<close>: tables and polynomials), \<open>Galois_Field\<close> (the same as a type of class
    \<open>field\<close>), \<open>Rscode\<close> (\<^verbatim>\<open>rscode.c\<close>: symbols, syndromes, erasures), \<open>Rs_Block\<close> and \<open>Rs_Recover\<close> (\<^verbatim>\<open>rs.c\<close>: groups of
    messages with their sizes). The tables of a field are the fields of \<open>galois_t\<close>, the contexts \<open>rs_ec_t\<close> and \<open>rs_dc_t\<close> are
    records with the arrays that the code keeps behind them.
  \<^item> \<^verbatim>\<open>utils/\<close>: \<open>Ring_Queue\<close> (\<^verbatim>\<open>queue.c\<close>), \<open>Conqueue\<close> (\<^verbatim>\<open>conqueue.c\<close>), \<open>Timer_Heap\<close> (\<^verbatim>\<open>heap.c\<close>), \<open>Hashmap\<close> (\<^verbatim>\<open>hashmap.c\<close>),
    \<open>Linked_List\<close> (\<^verbatim>\<open>list.c\<close>), \<open>Lrumap\<close> (\<^verbatim>\<open>lrumap.c\<close>), \<open>Metric\<close> (\<^verbatim>\<open>metric.c\<close>, \<^verbatim>\<open>bitmap.c\<close>), \<open>C_Strings\<close> (\<^verbatim>\<open>utils.h\<close>),
    \<open>Sbuilder\<close> (\<^verbatim>\<open>sbuilder.c\<close>: text in a buffer of fixed size), \<open>Config\<close> (\<^verbatim>\<open>config.c\<close>: files of settings). Pointers into an array are indices, \<open>NULL\<close> is \<open>None\<close>. The laws
    of a dictionary, a deque, a bounded queue and a sink of text are locales; the models of the code interpret them.
  \<^item> \<^verbatim>\<open>dispatcher/\<close>: \<open>Worker_Queue\<close> (\<^verbatim>\<open>pool.c\<close>, \<^verbatim>\<open>worker.c\<close>), \<open>Dispatcher\<close> (\<^verbatim>\<open>dispatcher.c\<close>), \<open>Perf\<close> (\<^verbatim>\<open>perf.c\<close>, \<^verbatim>\<open>counter.h\<close>),
    sockets and addresses in \<open>Nt_Client\<close> and \<open>Nt_Listener\<close> (\<^verbatim>\<open>common.c\<close>, \<^verbatim>\<open>udp.c\<close>), their set-up and the virtual device in
    \<open>Nt_Proxy\<close> (\<^verbatim>\<open>udp.c\<close>, \<^verbatim>\<open>tun_tap.c\<close>).
  \<^item> \<^verbatim>\<open>tunnel/\<close>: \<open>Nt_Proto\<close> (packed headers as bytes), \<open>Nt_Client\<close> (\<^verbatim>\<open>nt_client.c\<close>), \<open>Nt_Fec\<close> (\<^verbatim>\<open>nt_fec.h\<close>, \<^verbatim>\<open>nt_dup_fec.c\<close>), \<open>Nt_Perf\<close>
    (\<^verbatim>\<open>nt_perf.def\<close>), \<open>Nt_Rs_Fec\<close> with \<open>Nt_Rs_Recover\<close> and \<open>Nt_Rs_Robust\<close> (\<^verbatim>\<open>nt_rs_fec.c\<close>), \<open>Nt_Distributor\<close>
    (\<^verbatim>\<open>nt_distributor.c\<close>, \<^verbatim>\<open>nt_forwarder.c\<close>) with \<open>Nt_Paths\<close> (its parsers), \<open>Nt_Fec_Processor\<close> with \<open>Nt_Processor_Robust\<close> (\<^verbatim>\<open>nt_fec_processor.c\<close>), \<open>Nt_Listener\<close>
    (\<^verbatim>\<open>nt_listener.c\<close>), \<open>Nt_Echo\<close> (\<^verbatim>\<open>nt_echo_listener.c\<close>), \<open>Nt_Print\<close> (the printers of headers,
    paths and tables), \<open>Nt_Reporter\<close> (\<^verbatim>\<open>nt_reporter.c\<close>, with the printer of \<^verbatim>\<open>perf.c\<close>), \<open>Nt_Monitor\<close> (\<^verbatim>\<open>nt_monitor.c\<close>), \<open>Nt_Tunnel\<close> (the system of \<^verbatim>\<open>main.c\<close>)
    and \<open>Nt_Main\<close> (\<^verbatim>\<open>main.c\<close> from the command line on).
  \<^item> \<^verbatim>\<open>proxy/\<close>: \<open>Nt_Proxy\<close> (\<^verbatim>\<open>nt-proxy.c\<close>: packets of a virtual device through the tunnel); its \<^verbatim>\<open>main.c\<close> is in \<open>Nt_Tools\<close>.
  \<^item> \<^verbatim>\<open>echo/\<close>: \<open>Echo_Packet\<close> (\<^verbatim>\<open>packet.h\<close>: numbered packets and their checksum), \<open>Echo_Client\<close> (\<^verbatim>\<open>udp_client.c\<close>), \<open>Echo_Server\<close>
    (\<^verbatim>\<open>udp_server.c\<close>).
  \<^item> \<^verbatim>\<open>tools/\<close>: \<open>Nt_Client_Main\<close> (\<^verbatim>\<open>nt_client_main.c\<close>), \<open>Nt_Tools\<close> (\<^verbatim>\<open>nt_config_main.c\<close>, \<^verbatim>\<open>nt_tun_tap_main.c\<close>), \<open>Echo_Tools\<close>
    (\<^verbatim>\<open>nt_monitor_main.c\<close>, \<^verbatim>\<open>nt_echo_main.c\<close>).

  How the parts interact. The \<^verbatim>\<open>api\<close> listener receives a message into a buffer of its pool, checks the
  header and queues the buffer for the encoder of a processor; the encoder feeds the codec, whose callback
  \<open>on_encode\<close> sends each packet along the paths that the distributor selects. The \<^verbatim>\<open>tun\<close> listener queues
  packets for the decoder of the processor that their block belongs to; the codec hands restored messages to
  \<open>on_decode\<close>, which relays them. Buffers go back to the pool of the listener when a worker is done. In the model the
  processors, the memory of the buffers, the counters and the world are one state, \<open>tunnel\<close>.

  What the groups of lemmas show.

  \<^item> Codes: the table operations are those of a field; the generator polynomial has the roots it should have;
    erasures and errors are corrected and detected up to the bounds of the code; any \<open>K\<close> of \<open>N\<close> packets restore a
    group (\<open>rs_recovers\<close>).
  \<^item> Containers: every sequence of operations refines the abstract container (bounded list, finite map, deque, map in
    order of use, sorted list, set of keys); the locked queue is linearizable over its memory accesses.
  \<^item> Runtime: buffers of a pool are conserved, a worker delivers in order, timers fire in order, also
    while the clock advances and callbacks add timers.
  \<^item> Tunnel: headers survive the wire; messages that are sent through the client protocol arrive where they are sent, with their addresses; the codecs
    deliver (each message once for the duplicating codec, every lost message for Reed-Solomon, as soon as \<open>K\<close> packets
    of a block arrived); arbitrary packets cannot make the decoder abort; the processor
    relays exactly what its specification \<open>fate\<close> says; the texts of the configuration select the paths they name; the listeners keep the ownership of buffers; the echo service answers like its reference; and the tunnel
    as a whole, from the start that \<open>main\<close> performs, never aborts (\<open>tunnel_never_aborts\<close>), also when that start begins with the
    text of a configuration file (\<open>service_never_aborts\<close>).
  \<^item> Text and programs around the tunnel: a builder holds what was printed up to its capacity and never leaves its buffer; a
    configuration file means what its settings say, and a printed configuration is read back; printed paths are
    parsed back; the reporter answers with every counter; a pair of proxies carries the packets of its devices in order.
  \<^item> Programs for measurements: the echo client sends every packet of its schedule (\<open>echo_client_completes\<close>) and counts what comes back
    correctly; the echo server answers every datagram; the command-line client prints what a service echoes, up to zeros and full buffers; the bit counting of the
    checksum counts bits; the programs start what their arguments and settings say.
  \<^item> Where the code fails, a theorem says so: a table of capacity one, the iteration of the ring queue, the selection of \<open>metric_ratio\<close> at zero, a sample of -1, permanent timers in a full
    queue, overlong messages, a packet after a complete group, answers of a monitor, a missing port in the configuration.

  Bounds and fuel. \<open>N \<le> 31\<close>, since the bitmap of degrees shifts at type \<open>int\<close>; \<open>(D + 4) * (N - K) < 2 ^ 31\<close> for the size of
  the array of check symbols, \<open>D + 4 < 65536\<close> for the payload size of a packet and \<open>28 \<le> D\<close> for the longest header, where
  \<open>D\<close> is \<open>max_fec_data_size\<close>; at least two decoding contexts per codec, since a cache of capacity one has no bucket.
  Loops that are not bounded by a counter take fuel: draining the queue of a destroyed worker or a heap takes one more than the
  number of entries, the timer loop, while time stands still and callbacks add nothing, one for each timer that is due and one more (\<open>process_timers_quiet\<close>), and
  with an advancing clock that stays below some bound an amount that exists (\<open>process_timers_end\<close>),
  and \<open>dispatcher_run\<close>, which is meant to run for ever, any number of rounds.

  How the model differs from the code. Fresh memory is arbitrary and an argument of the initialisations. The
  codecs of one tunnel share a generator of identifiers; each model of a codec has its own, and \<open>reachable\<close> lets
  it jump at any time. The callback of the decoder may write into the message it is given; the model does not
  carry this back into the buffer, which is released right afterwards. In \<open>Nt_Tunnel\<close> a step
  is a whole call of a handler; the interleaving of memory accesses is studied for the locked queue only.

  Not modelled. The kernel (sockets, \<^verbatim>\<open>epoll\<close>, \<^verbatim>\<open>eventfd\<close>, clock), the encryptor of \<^verbatim>\<open>keycenter/\<close> (its library is not part of the
  repository) and name resolution are parameters. The logger and the printing of
  backtraces only write to a stream; the results of type \<open>double\<close> of \<^verbatim>\<open>metric.c\<close> are only printed, as is what the echo programs report. The programs
  that enter an event loop are modelled up to that point, and their handlers one by one.
\<close>

end
